(* ===== verification/Prelude.thy ===== *)
theory Prelude
  imports Main "HOL-Library.Word" "HOL-Library.Signed_Division"
begin

text \<open>
  What every component theory shares: the names of the machine types of the i386 targets
  of the repository (16, 32 and 64 bit words, a \<open>char\<close> for a C char), the collections of
  simplification rules, and the lemmas on machine words and on numbers in radix \<open>65536\<close>
  that more than one component uses.

  Type correspondence: \<open>unsigned short\<close> and \<open>wchar_t\<close> are \<open>u16\<close>; \<open>unsigned int\<close>,
  \<open>unsigned long\<close> and \<open>DWORD\<close> are \<open>u32\<close>; \<open>uintmax_t\<close> is \<open>u64\<close>; a signed C
  integer that is only compared, counted and shifted by small amounts is an \<open>int\<close>.
\<close>

unbundle bit_operations_syntax

type_synonym u16 = "16 word"
type_synonym u32 = "32 word"
type_synonym u64 = "64 word"

text \<open>
  \<open>word_val\<close> collects the rules that read the value of a machine operation;
  \<open>c_scan\<close> collects the rules that move a scanner over a C string.
\<close>

named_theorems word_val
named_theorems c_scan

section \<open>Values of machine words\<close>

lemma unat_u16_less [simp]: "unat (w :: u16) < 65536"
  using unsigned_less [of w] by simp

lemma unat_u16_le [simp]: "unat (w :: u16) \<le> 65535"
  using unat_u16_less [of w] by linarith

lemma unat_u64_less [simp]: "unat (w :: u64) < 18446744073709551616"
  using unsigned_less [of w] by simp

lemma unat_ucast_16_32 [word_val, simp]: "unat (ucast (x :: u16) :: u32) = unat x"
proof -
  have "unat x < 2 ^ 32" using unat_u16_less [of x] by (simp del: unat_u16_less)
  then show ?thesis by (simp add: unsigned_ucast_eq take_bit_eq_mod)
qed

lemma unat_ucast_32_16 [word_val]: "unat (ucast (x :: u32) :: u16) = unat x mod 65536"
  by (simp add: unsigned_ucast_eq take_bit_eq_mod)

lemma unat_drop_bit_16 [word_val]: "unat (drop_bit n (x :: 'a::len word)) = unat x div 2 ^ n"
  by (metis unat_drop_bit_eq drop_bit_eq_div)

lemma unat_push_bit_u16 [word_val]: "unat (push_bit n (x :: u16)) = unat x * 2 ^ n mod 65536"
  by (simp only: unsigned_push_bit_eq) (simp add: push_bit_eq_mult take_bit_eq_mod)

lemma unat_or_disjoint:
  assumes "x AND y = 0"
  shows "unat (x OR y :: 'a::len word) = unat x + unat y"
proof -
  have "unat x AND unat y = 0"
    using assms by (metis unsigned_0 unsigned_and_eq)
  then have "unat x OR unat y = unat x + unat y"
    by (simp add: disjunctive_add_eq_or)
  then show ?thesis by (simp add: unsigned_or_eq)
qed

text \<open>A number below \<open>2 ^ n\<close> has no bit in common with a multiple of \<open>2 ^ n\<close>.\<close>

lemma and_eq_0_split:
  assumes "unat x < 2 ^ n" and "unat y mod 2 ^ n = 0"
  shows "x AND y = (0 :: 'a::len word)"
proof -
  have "\<not> bit (unat x AND unat y) i" for i
  proof (cases "i < n")
    case True
    then have "bit (unat y) i = bit (take_bit n (unat y)) i"
      by (simp add: bit_take_bit_iff)
    then show ?thesis using assms(2) by (simp add: take_bit_eq_mod bit_and_iff)
  next
    case False
    have "take_bit n (unat x) = unat x"
      using assms(1) by (simp add: take_bit_eq_mod)
    then have "bit (unat x) i = bit (take_bit n (unat x)) i" by simp
    then show ?thesis using False by (simp add: bit_take_bit_iff bit_and_iff)
  qed
  then have "unat (x AND y) = 0"
    by (simp add: unsigned_and_eq bit_eq_iff)
  then show ?thesis by (simp add: unsigned_eq_0_iff)
qed

lemma unat_or_split:
  assumes "unat x < 2 ^ n" and "unat y mod 2 ^ n = 0"
  shows "unat (x OR y :: 'a::len word) = unat x + unat y"
  by (rule unat_or_disjoint) (rule and_eq_0_split [OF assms])

lemma and_1_eq: "(x :: 'a::len word) AND 1 = (if odd (unat x) then 1 else 0)"
proof -
  have "unat (x AND 1) = unat x AND 1"
    by (simp only: unsigned_and_eq unsigned_1)
  then have "unat (x AND 1) = unat x mod 2"
    by (simp only: and_one_eq)
  then have "unat (x AND 1) = (if odd (unat x) then 1 else 0)"
    by (simp add: odd_iff_mod_2_eq_one)
  then show ?thesis by (metis unat_1 unat_0 word_unat_eq_iff)
qed

lemma and_eq_mask_iff: "((x :: 'a::len word) AND 2 ^ n \<noteq> 0) = bit x n"
  by (metis and_exp_eq_0_iff_not_bit)

lemma div_mod_mult: "(x :: nat) * P = k * (x div k * P) + x mod k * P"
  by (simp flip: mult.assoc add_mult_distrib)

lemma and_2_iff: "(b AND 2 \<noteq> 0) = bit (b :: u16) 1"
  using and_eq_mask_iff [of b 1] by simp

lemma and_1_iff: "(b AND 1 \<noteq> 0) = odd (unat (b :: u16))"
  by (simp only: and_1_eq) simp

lemma and_8000_iff: "(b AND 0x8000 \<noteq> 0) = (32768 \<le> unat (b :: u16))"
proof -
  have "(b AND 0x8000 \<noteq> 0) = bit b 15"
    using and_eq_mask_iff [of b 15] by simp
  also have "\<dots> = bit (unat b) 15"
    by (simp only: bit_unsigned_iff) (simp add: bit_imp_le_length)
  also have "\<dots> = odd (unat b div 32768)"
    by (simp add: bit_iff_odd)
  also have "\<dots> = (32768 \<le> unat b)"
  proof -
    have "unat b div 32768 < 2" using unat_u16_less [of b] by (simp del: unat_u16_less add: less_mult_imp_div_less)
    then have "unat b div 32768 = 0 \<or> unat b div 32768 = 1" by linarith
    then show ?thesis by (auto simp: div_eq_0_iff)
  qed
  finally show ?thesis .
qed

lemma unat_or_8000: "unat x < 32768 \<Longrightarrow> unat (x OR 0x8000 :: u16) = unat x + 32768"
  using unat_or_split [of x 15 "0x8000"] by simp

lemma bit_or_1: "bit (b OR 1 :: u16) 1 = bit b 1" "bit (b OR 1 :: u16) 0"
  by (simp_all add: bit_or_iff bit_1_iff)

lemma bit_push_1: "bit (push_bit 1 b :: u16) 1 = bit b 0" "\<not> bit (push_bit 1 b :: u16) 0"
  by (simp_all only: bit_push_bit_iff) simp_all

lemma bit_0_u16: "bit (x :: u16) 0 = odd (unat x)"
proof -
  have "bit (unat x) 0 = bit x 0"
    by (simp only: bit_unsigned_iff) (simp add: bit_imp_le_length)
  then show ?thesis by (simp only: bit_0)
qed

section \<open>Characters and flags\<close>

lemma unat_and_ff: "unat ((w :: u16) AND 0xff) = unat w mod 256"
proof -
  have "unat (w AND 0xff) = unat w AND 0xff" by (simp add: unsigned_and_eq)
  also have "(0xff :: nat) = mask 8" by (simp add: mask_eq_exp_minus_1)
  finally show ?thesis by (simp only: take_bit_eq_mask [symmetric] take_bit_eq_mod) simp
qed

lemma uint_of_char_16: "uint (of_char c :: u16) = of_char c"
proof -
  have lt: "(of_char c :: nat) < 65536" using nat_of_char_less_256 [of c] by linarith
  have "uint (of_nat (of_char c) :: u16) = int (of_char c)"
    using lt by (simp add: uint_nat unat_of_nat)
  then show ?thesis by (simp only: of_nat_of_char)
qed

lemma unat_of_char: "unat (of_char c :: u16) = of_char c"
  using uint_of_char_16 [of c] unfolding uint_nat by (metis of_nat_of_char of_nat_eq_iff)

text \<open>The test \<open>flags & b\<close> of a bit in a word of flags.\<close>

definition has :: "int \<Rightarrow> int \<Rightarrow> bool" where
  "has flags b \<longleftrightarrow> flags AND b \<noteq> 0"

end
