(* ===== verification/Emath_Words.thy ===== *)
theory Emath_Words
  imports Prelude
begin

text \<open>
  The number formats and the in-line helpers of \<open>mingwex/math/cephes_emath.h\<close>
  (S. L. Moshier's extended precision package, the arithmetic under \<open>strtold\<close>).

  An external number is an array of \<open>NE = 6\<close> words, least significant word first, sign
  and biased exponent last. An internal number is an array of \<open>NI = 9\<close> words: sign word,
  biased exponent, high guard word, five significand words (most significant first) and a
  low guard word. Both are lists of 16 bit words; a routine that writes through a pointer
  returns the new contents of the array. The configuration modelled is the one the header
  fixes: \<open>NE = 6\<close>, \<open>IBMPC\<close>, \<open>NANS\<close> and \<open>INFINITY\<close> defined, \<open>USE_LDTOA\<close> zero.

  A C loop that runs from the last word of a significand to the first is the recursion that
  treats the tail of the list before its head and hands the carry to the left; a loop that
  runs from the first word to the last hands the carry to the right.

  The lemmas say what each routine does to the number the words stand for
  (\<open>wval\<close>, radix 65536, and \<open>sigval\<close>, the value of the significand with both guard words).
\<close>

section \<open>Sizes and positions\<close>

abbreviation (input) NE :: nat where "NE \<equiv> 6"
abbreviation (input) NI :: nat where "NI \<equiv> 9"
abbreviation (input) idxE :: nat where "idxE \<equiv> 1"
abbreviation (input) idxM :: nat where "idxM \<equiv> 2"
abbreviation (input) idxS :: nat where "idxS \<equiv> 3"
abbreviation (input) NBITS :: int where "NBITS \<equiv> 80"
abbreviation (input) EXONE :: int where "EXONE \<equiv> 0x3fff"

section \<open>External numbers\<close>

definition eclear :: "u16 list \<Rightarrow> u16 list" where
  "eclear x = replicate NE 0 @ drop NE x"

definition emov :: "u16 list \<Rightarrow> u16 list \<Rightarrow> u16 list" where
  "emov a b = take NE a @ drop NE b"

definition eisnan :: "u16 list \<Rightarrow> bool" where
  "eisnan x = (x ! (NE - 1) AND 0x7fff = 0x7fff \<and> list_ex (\<lambda>w. w \<noteq> 0) (take (NE - 1) x))"

definition eneg :: "u16 list \<Rightarrow> u16 list" where
  "eneg x = (if eisnan x then x else x[NE - 1 := x ! (NE - 1) XOR 0x8000])"

definition eisneg :: "u16 list \<Rightarrow> bool" where
  "eisneg x = (if eisnan x then False else x ! (NE - 1) AND 0x8000 \<noteq> 0)"

definition eisinf :: "u16 list \<Rightarrow> bool" where
  "eisinf x = (if x ! (NE - 1) AND 0x7fff = 0x7fff then \<not> eisnan x else False)"

definition einfin :: "u16 list \<Rightarrow> u16 list" where
  "einfin x = replicate (NE - 1) 0 @ [x ! (NE - 1) OR 32767] @ drop NE x"

section \<open>Internal numbers\<close>

definition ecleaz :: "u16 list \<Rightarrow> u16 list" where
  "ecleaz xi = replicate NI 0 @ drop NI xi"

definition ecleazs :: "u16 list \<Rightarrow> u16 list" where
  "ecleazs xi = take 1 xi @ replicate (NI - 1) 0 @ drop NI xi"

definition emovz :: "u16 list \<Rightarrow> u16 list \<Rightarrow> u16 list" where
  "emovz a b = take (NI - 1) a @ [0] @ drop NI b"

definition eiisnan :: "u16 list \<Rightarrow> bool" where
  "eiisnan x = (x ! idxE AND 0x7fff = 0x7fff
      \<and> list_ex (\<lambda>i. x ! i \<noteq> 0) [idxS..<NI])"

definition eiiszero :: "u16 list \<Rightarrow> bool" where
  "eiiszero ai = list_all (\<lambda>i. ai ! i = 0) [1..<NI - 1]"

definition eiisinf :: "u16 list \<Rightarrow> bool" where
  "eiisinf x = (if eiisnan x then False else x ! idxE AND 0x7fff = 0x7fff)"

text \<open>
  Three routines are meant to store a NaN. \<open>enan_64\<close> assigns its own parameter and so leaves
  the caller's array as it was; \<open>enan_NI16\<close> advances its pointer once only before three
  stores through it.
\<close>

definition enan_64 :: "u16 list \<Rightarrow> u16 list" where
  "enan_64 nan = nan"

definition enan_NBITS :: "u16 list \<Rightarrow> u16 list" where
  "enan_NBITS nan = replicate (NE - 2) 0 @ [0xc000, 0x7fff] @ drop NE nan"

fun enan_NI16_fill :: "nat \<Rightarrow> nat \<Rightarrow> u16 list \<Rightarrow> u16 list" where
  "enan_NI16_fill p 0 nan = nan"
| "enan_NI16_fill p (Suc n) nan = enan_NI16_fill (p + 1) n (nan[p := 0])"

definition enan_NI16 :: "u16 list \<Rightarrow> u16 list" where
  "enan_NI16 nan =
     (let nan = nan[0 := 0]; p = 1;
          nan = nan[p := 0x7fff];
          nan = nan[p := 0];
          nan = nan[p := 0xc000]
      in enan_NI16_fill p (NI - 4) nan)"

section \<open>Comparison and shifts of significands\<close>

fun ecmpm_words :: "u16 list \<Rightarrow> u16 list \<Rightarrow> int" where
  "ecmpm_words (a # as) (b # bs) =
     (if a \<noteq> b then (if a > b then 1 else -1) else ecmpm_words as bs)"
| "ecmpm_words _ _ = 0"

definition ecmpm :: "u16 list \<Rightarrow> u16 list \<Rightarrow> int" where
  "ecmpm a b = ecmpm_words (drop idxM a) (drop idxM b)"

fun eshdn1_words :: "u16 \<Rightarrow> u16 list \<Rightarrow> u16 list" where
  "eshdn1_words bits [] = []"
| "eshdn1_words bits (x # xs) =
     (let bits = (if x AND 1 \<noteq> 0 then bits OR 1 else bits);
          x = drop_bit 1 x;
          x = (if bits AND 2 \<noteq> 0 then x OR 0x8000 else x);
          bits = push_bit 1 bits
      in x # eshdn1_words bits xs)"

definition eshdn1 :: "u16 list \<Rightarrow> u16 list" where
  "eshdn1 x = take idxM x @ eshdn1_words 0 (drop idxM x)"

fun eshup1_words :: "u16 list \<Rightarrow> u16 \<times> u16 list" where
  "eshup1_words [] = (0, [])"
| "eshup1_words (x # xs) =
     (let (bits, xs) = eshup1_words xs;
          bits = (if x AND 0x8000 \<noteq> 0 then bits OR 1 else bits);
          x = push_bit 1 x;
          x = (if bits AND 2 \<noteq> 0 then x OR 1 else x);
          bits = push_bit 1 bits
      in (bits, x # xs))"

definition eshup1 :: "u16 list \<Rightarrow> u16 list" where
  "eshup1 x = take idxM x @ snd (eshup1_words (drop idxM x))"

fun eshdn8_words :: "u16 \<Rightarrow> u16 list \<Rightarrow> u16 list" where
  "eshdn8_words oldbyt [] = []"
| "eshdn8_words oldbyt (x # xs) =
     (let newbyt = push_bit 8 x;
          x = drop_bit 8 x;
          x = x OR oldbyt
      in x # eshdn8_words newbyt xs)"

definition eshdn8 :: "u16 list \<Rightarrow> u16 list" where
  "eshdn8 x = take idxM x @ eshdn8_words 0 (drop idxM x)"

fun eshup8_words :: "u16 list \<Rightarrow> u16 \<times> u16 list" where
  "eshup8_words [] = (0, [])"
| "eshup8_words (x # xs) =
     (let (oldbyt, xs) = eshup8_words xs;
          newbyt = drop_bit 8 x;
          x = push_bit 8 x;
          x = x OR oldbyt
      in (newbyt, x # xs))"

definition eshup8 :: "u16 list \<Rightarrow> u16 list" where
  "eshup8 x = take idxM x @ snd (eshup8_words (drop idxM x))"

definition eshup6 :: "u16 list \<Rightarrow> u16 list" where
  "eshup6 x = take idxM x @ drop idxS x @ [0]"

definition eshdn6 :: "u16 list \<Rightarrow> u16 list" where
  "eshdn6 x = take idxM x @ [0] @ butlast (drop idxM x)"

section \<open>The number a list of words stands for\<close>

primrec wval :: "u16 list \<Rightarrow> nat" where
  "wval [] = 0"
| "wval (w # ws) = unat w * 65536 ^ length ws + wval ws"

definition sigval :: "u16 list \<Rightarrow> nat" where
  "sigval x = wval (drop idxM x)"

lemma wval_append [simp]: "wval (xs @ ys) = wval xs * 65536 ^ length ys + wval ys"
  by (induction xs) (simp_all add: power_add algebra_simps)

lemma wval_less: "wval ws < 65536 ^ length ws"
proof (induction ws)
  case Nil
  show ?case by simp
next
  case (Cons w ws)
  have "unat w + 1 \<le> 65536" using unat_u16_less [of w] by linarith
  then have "(unat w + 1) * 65536 ^ length ws \<le> 65536 * 65536 ^ length ws"
    by (rule mult_le_mono1)
  then have "unat w * 65536 ^ length ws + 65536 ^ length ws \<le> 65536 * 65536 ^ length ws"
    by (simp only: add_mult_distrib mult_1)
  moreover have "wval (w # ws) < unat w * 65536 ^ length ws + 65536 ^ length ws"
    using Cons.IH by simp
  ultimately show ?case by (simp only: length_Cons power_Suc)
qed

lemma wval_replicate_0 [simp]: "wval (replicate n 0) = 0"
  by (induction n) simp_all

lemma wval_eq_0_iff: "wval ws = 0 \<longleftrightarrow> (\<forall>w \<in> set ws. w = 0)"
  by (induction ws) (auto simp: unsigned_eq_0_iff)

lemma wval_inject: "length xs = length ys \<Longrightarrow> wval xs = wval ys \<longleftrightarrow> xs = ys"
proof (induction xs ys rule: list_induct2)
  case Nil
  show ?case by simp
next
  case (Cons x xs y ys)
  have lt: "wval xs < 65536 ^ length ys" "wval ys < 65536 ^ length ys"
    using wval_less [of xs] wval_less [of ys] Cons.hyps by simp_all
  have "(a * k + r = b * k + s) = (a = b \<and> r = s)" if "r < k" "s < k" for a b k r s :: nat
    using that by (metis div_mult_self3 mod_mult_self3 div_less mod_less add.right_neutral add.commute less_nat_zero_code)
  from this [OF lt] show ?case using Cons by (simp add: word_unat_eq_iff)
qed

section \<open>What the shifts do to it\<close>


lemma length_eshdn1_words [simp]: "length (eshdn1_words bits xs) = length xs"
  by (induction bits xs rule: eshdn1_words.induct) (simp_all add: Let_def)

lemma wval_eshdn1_words:
  "\<not> bit bits 0 \<Longrightarrow>
   wval (eshdn1_words bits xs) = (of_bool (bit bits 1) * 65536 ^ length xs + wval xs) div 2"
proof (induction bits xs rule: eshdn1_words.induct)
  case (1 bits)
  show ?case by simp
next
  case (2 bits x xs)
  define bits1 where "bits1 = (if x AND 1 \<noteq> 0 then bits OR 1 else bits)"
  define P where "P = (65536 :: nat) ^ length xs"
  define c :: nat where "c = of_bool (bit bits 1)"
  define l :: nat where "l = of_bool (odd (unat x))"
  have b1: "bit bits1 1 = bit bits 1" "bit bits1 0 = odd (unat x)"
    using "2.prems" by (simp_all only: bits1_def and_1_iff bit_or_1 split: if_splits) simp_all
  have step: "eshdn1_words bits (x # xs) =
      (if bits1 AND 2 \<noteq> 0 then drop_bit 1 x OR 0x8000 else drop_bit 1 x)
        # eshdn1_words (push_bit 1 bits1) xs"
    unfolding eshdn1_words.simps bits1_def Let_def by simp
  have x': "unat (if bits1 AND 2 \<noteq> 0 then drop_bit 1 x OR 0x8000 else drop_bit 1 x)
      = unat x div 2 + 32768 * c"
    using unat_u16_less [of x] by (simp only: and_2_iff b1 c_def) (auto simp: unat_or_8000 word_val simp del: unat_u16_less)
  have IH: "wval (eshdn1_words (push_bit 1 bits1) xs) = (l * P + wval xs) div 2"
    using "2.IH" [OF bits1_def refl refl refl] by (simp only: bit_push_1 b1 P_def l_def simp_thms)
  have "2 * (unat x div 2) + l = unat x" by (simp add: l_def)
  then have "unat x * P = 2 * (unat x div 2) * P + l * P"
    by (metis add_mult_distrib)
  then have eq: "c * 65536 ^ length (x # xs) + wval (x # xs)
      = 2 * ((unat x div 2 + 32768 * c) * P) + (l * P + wval xs)"
    by (simp add: P_def algebra_simps)
  have "wval (eshdn1_words bits (x # xs))
      = (unat x div 2 + 32768 * c) * P + (l * P + wval xs) div 2"
    by (simp only: step wval.simps x' IH length_eshdn1_words P_def)
  also have "\<dots> = (c * 65536 ^ length (x # xs) + wval (x # xs)) div 2"
    unfolding eq by simp
  finally show ?case by (simp only: c_def)
qed

lemma length_eshup1_words [simp]: "length (snd (eshup1_words xs)) = length xs"
  by (induction xs) (auto simp: Let_def split: prod.splits)

text \<open>The carry out of a left shift is bit 1 of \<open>bits\<close>.\<close>

lemma wval_eshup1_words:
  "\<not> bit (fst (eshup1_words xs)) 0 \<and>
   of_bool (bit (fst (eshup1_words xs)) 1) * 65536 ^ length xs + wval (snd (eshup1_words xs)) = 2 * wval xs"
proof (induction xs)
  case Nil
  show ?case by simp
next
  case (Cons x xs)
  obtain bits ys where e: "eshup1_words xs = (bits, ys)" by fastforce
  define bits1 where "bits1 = (if x AND 0x8000 \<noteq> 0 then bits OR 1 else bits)"
  define P where "P = (65536 :: nat) ^ length xs"
  define c :: nat where "c = of_bool (bit bits 1)"
  define h :: nat where "h = of_bool (32768 \<le> unat x)"
  have ys: "\<not> bit bits 0" "c * P + wval ys = 2 * wval xs" "length ys = length xs"
    using Cons.IH length_eshup1_words [of xs] by (simp_all add: e c_def P_def)
  have b1: "bit bits1 1 = bit bits 1" "bit bits1 0 = (32768 \<le> unat x)"
    using ys(1) by (simp_all only: bits1_def and_8000_iff bit_or_1 split: if_splits) simp_all
  have step: "eshup1_words (x # xs) = (push_bit 1 bits1,
      (if bits1 AND 2 \<noteq> 0 then push_bit 1 x OR 1 else push_bit 1 x) # ys)"
    unfolding eshup1_words.simps bits1_def Let_def e by simp
  have p: "unat (push_bit 1 x) = 2 * unat x mod 65536"
    by (simp only: unat_push_bit_u16) (simp add: mult.commute)
  have "unat (1 OR push_bit 1 x) = 1 + unat (push_bit 1 x)"
    using unat_or_split [of 1 1 "push_bit 1 x"] by (simp only: p) (simp add: mod_mod_cancel)
  then have x': "unat (if bits1 AND 2 \<noteq> 0 then push_bit 1 x OR 1 else push_bit 1 x)
      = 2 * unat x mod 65536 + c"
    by (cases "bit bits 1") (simp_all only: and_2_iff b1 c_def p or.commute [of _ 1] of_bool_eq
      if_True if_False not_True_eq_False not_False_eq_True add_0_right add.commute [of _ 1])
  have dm: "h * 65536 + 2 * unat x mod 65536 = 2 * unat x"
    using unat_u16_less [of x]
    by (cases "32768 \<le> unat x") (simp_all add: h_def le_mod_geq del: unat_u16_less)
  have "h * (65536 * P) + ((2 * unat x mod 65536 + c) * P + wval ys)
      = (h * 65536 + 2 * unat x mod 65536) * P + (c * P + wval ys)"
    by (simp add: algebra_simps)
  also have "\<dots> = 2 * wval (x # xs)"
    by (simp only: dm ys(2)) (simp add: P_def algebra_simps)
  finally show ?case
    by (simp only: step fst_conv snd_conv wval.simps x' ys(3) bit_push_1 b1 length_Cons power_Suc)
      (simp add: h_def P_def)
qed

lemma length_eshdn8_words [simp]: "length (eshdn8_words b xs) = length xs"
  by (induction b xs rule: eshdn8_words.induct) (simp_all add: Let_def)

lemma length_eshup8_words [simp]: "length (snd (eshup8_words xs)) = length xs"
  by (induction xs) (auto simp: Let_def split: prod.splits)

lemma wval_eshdn8_words:
  "unat b mod 256 = 0 \<Longrightarrow>
   wval (eshdn8_words b xs) = (unat b div 256 * 65536 ^ length xs + wval xs) div 256"
proof (induction b xs rule: eshdn8_words.induct)
  case (1 b)
  have "unat b div 256 < 256" using unat_u16_less [of b] by (simp del: unat_u16_less add: less_mult_imp_div_less)
  then show ?case by simp
next
  case (2 b x xs)
  define P where "P = (65536 :: nat) ^ length xs"
  have p: "unat (push_bit 8 x) = unat x mod 256 * 256"
    using mod_mult_mult2 [of "unat x" 256 256] by (simp only: unat_push_bit_u16) simp
  have x': "unat (drop_bit 8 x OR b) = unat x div 256 + unat b"
    using unat_or_split [of "drop_bit 8 x" 8 b] "2.prems" unat_u16_less [of x]
    by (simp add: word_val less_mult_imp_div_less del: unat_u16_less)
  have IH: "wval (eshdn8_words (push_bit 8 x) xs) = (unat x mod 256 * P + wval xs) div 256"
    using "2.IH" [OF refl refl refl] by (simp add: p P_def)
  have b: "unat b * P = 256 * (unat b div 256 * P)"
    using div_mod_mult [of "unat b" P 256] "2.prems" by simp
  note x = div_mod_mult [of "unat x" P 256]
  have eq: "unat b div 256 * 65536 ^ length (x # xs) + wval (x # xs)
      = 256 * ((unat x div 256 + unat b) * P) + (unat x mod 256 * P + wval xs)"
  proof -
    have "unat b div 256 * (65536 * P) = 256 * (256 * (unat b div 256 * P))" by simp
    then show ?thesis using x
      by (simp only: wval.simps length_Cons power_Suc P_def [symmetric] b [symmetric]
        add_mult_distrib add_mult_distrib2)
  qed
  have "wval (eshdn8_words b (x # xs))
      = (unat x div 256 + unat b) * P + (unat x mod 256 * P + wval xs) div 256"
    by (simp only: eshdn8_words.simps Let_def wval.simps x' IH length_eshdn8_words P_def)
  also have "\<dots> = (unat b div 256 * 65536 ^ length (x # xs) + wval (x # xs)) div 256"
    unfolding eq by simp
  finally show ?case .
qed

lemma wval_eshup8_words:
  "unat (fst (eshup8_words xs)) < 256 \<and>
   unat (fst (eshup8_words xs)) * 65536 ^ length xs + wval (snd (eshup8_words xs)) = 256 * wval xs"
proof (induction xs)
  case Nil
  show ?case by simp
next
  case (Cons x xs)
  obtain b ys where e: "eshup8_words xs = (b, ys)" by fastforce
  define P where "P = (65536 :: nat) ^ length xs"
  have ys: "unat b < 256" "unat b * P + wval ys = 256 * wval xs" "length ys = length xs"
    using Cons.IH length_eshup8_words [of xs] by (simp_all add: e P_def)
  have p: "unat (push_bit 8 x) = unat x mod 256 * 256"
    using mod_mult_mult2 [of "unat x" 256 256] by (simp only: unat_push_bit_u16) simp
  have x': "unat (push_bit 8 x OR b) = unat x mod 256 * 256 + unat b"
    using unat_or_split [of b 8 "push_bit 8 x"] ys(1) by (simp only: p or.commute [of b]) simp
  have step: "eshup8_words (x # xs) = (drop_bit 8 x, (push_bit 8 x OR b) # ys)"
    by (simp add: e Let_def)
  have lt: "unat x div 256 < 256"
    using unat_u16_less [of x] by (simp add: less_mult_imp_div_less del: unat_u16_less)
  have "unat x div 256 * (65536 * P) + ((unat x mod 256 * 256 + unat b) * P + wval ys)
      = 256 * (256 * (unat x div 256 * P) + unat x mod 256 * P) + (unat b * P + wval ys)"
    by (simp add: algebra_simps)
  also have "\<dots> = 256 * wval (x # xs)"
    by (simp only: div_mod_mult [symmetric] ys(2)) (simp add: P_def algebra_simps)
  finally show ?case
    by (simp only: step fst_conv snd_conv wval.simps x' ys(3) length_Cons power_Suc word_val)
      (simp add: lt P_def)
qed

section \<open>Whole arrays\<close>

text \<open>
  \<open>is_ei\<close> is the shape of an internal number. Every routine keeps it, and leaves the sign
  word and the exponent word (the first two words) alone when it works on the significand.
\<close>

definition is_ei :: "u16 list \<Rightarrow> bool" where
  "is_ei x \<longleftrightarrow> length x = NI"

abbreviation (input) SIG :: nat where "SIG \<equiv> 65536 ^ 7"

lemma sigval_less: "is_ei x \<Longrightarrow> sigval x < SIG"
  using wval_less [of "drop idxM x"] by (simp add: sigval_def is_ei_def)

lemma is_ei_shift [simp]:
  "is_ei x \<Longrightarrow> is_ei (eshdn1 x)" "is_ei x \<Longrightarrow> is_ei (eshup1 x)"
  "is_ei x \<Longrightarrow> is_ei (eshdn8 x)" "is_ei x \<Longrightarrow> is_ei (eshup8 x)"
  "is_ei x \<Longrightarrow> is_ei (eshdn6 x)" "is_ei x \<Longrightarrow> is_ei (eshup6 x)"
  by (simp_all add: is_ei_def eshdn1_def eshup1_def eshdn8_def eshup8_def eshdn6_def eshup6_def)

lemma take_shift [simp]:
  "is_ei x \<Longrightarrow> take idxM (eshdn1 x) = take idxM x" "is_ei x \<Longrightarrow> take idxM (eshup1 x) = take idxM x"
  "is_ei x \<Longrightarrow> take idxM (eshdn8 x) = take idxM x" "is_ei x \<Longrightarrow> take idxM (eshup8 x) = take idxM x"
  "is_ei x \<Longrightarrow> take idxM (eshdn6 x) = take idxM x" "is_ei x \<Longrightarrow> take idxM (eshup6 x) = take idxM x"
  by (simp_all add: is_ei_def eshdn1_def eshup1_def eshdn8_def eshup8_def eshdn6_def eshup6_def)

lemma sigval_eshdn1: "is_ei x \<Longrightarrow> sigval (eshdn1 x) = sigval x div 2"
  using wval_eshdn1_words [of 0 "drop idxM x"] by (simp add: sigval_def eshdn1_def is_ei_def)

lemma sigval_eshdn8: "is_ei x \<Longrightarrow> sigval (eshdn8 x) = sigval x div 256"
  using wval_eshdn8_words [of 0 "drop idxM x"] by (simp add: sigval_def eshdn8_def is_ei_def)

text \<open>A left shift keeps the value modulo the size of the significand.\<close>

lemma mod_of_carry:
  assumes "c * k + v = (n :: nat)" "v < k"
  shows "v = n mod k"
  using assms by (metis add.commute mod_less mod_mult_self1)

lemma sigval_eshup1: "is_ei x \<Longrightarrow> sigval (eshup1 x) = 2 * sigval x mod SIG"
  using wval_eshup1_words [of "drop idxM x"] wval_less [of "snd (eshup1_words (drop idxM x))"]
  by (intro mod_of_carry) (auto simp: sigval_def eshup1_def is_ei_def)

lemma sigval_eshup8: "is_ei x \<Longrightarrow> sigval (eshup8 x) = 256 * sigval x mod SIG"
  using wval_eshup8_words [of "drop idxM x"] wval_less [of "snd (eshup8_words (drop idxM x))"]
  by (intro mod_of_carry) (auto simp: sigval_def eshup8_def is_ei_def)

lemma wval_butlast: "wval (butlast xs) = wval xs div 65536"
  by (cases xs rule: rev_cases) simp_all

lemma sigval_eshdn6: "is_ei x \<Longrightarrow> sigval (eshdn6 x) = sigval x div 65536"
  by (simp add: sigval_def eshdn6_def is_ei_def wval_butlast)

lemma sigval_split_guard: "is_ei x \<Longrightarrow> sigval x = unat (x ! idxM) * 65536 ^ 6 + wval (drop idxS x)"
  by (simp add: sigval_def is_ei_def Cons_nth_drop_Suc [symmetric, of 2] numeral_3_eq_3)

lemma sigval_eshup6: "is_ei x \<Longrightarrow> sigval (eshup6 x) = 65536 * sigval x mod SIG"
proof -
  assume x: "is_ei x"
  have "unat (x ! idxM) * SIG + sigval (eshup6 x) = 65536 * sigval x"
    using x unfolding sigval_split_guard [OF x] by (simp add: sigval_def eshup6_def is_ei_def)
  then show ?thesis
    using sigval_less [of "eshup6 x"] x by (intro mod_of_carry) auto
qed

text \<open>Comparing word by word is comparing the numbers.\<close>

lemma ecmpm_words_wval:
  "length as = length bs \<Longrightarrow>
   ecmpm_words as bs = (if wval as = wval bs then 0 else if wval as > wval bs then 1 else -1)"
proof (induction as bs rule: list_induct2)
  case Nil
  show ?case by simp
next
  case (Cons a as b bs)
  have lt: "wval as < 65536 ^ length bs" "wval bs < 65536 ^ length bs"
    using wval_less [of as] wval_less [of bs] Cons.hyps by simp_all
  show ?case
  proof (cases "a = b")
    case True
    then show ?thesis using Cons by simp
  next
    case False
    have less: "unat p * 65536 ^ length bs + v < unat q * 65536 ^ length bs + w"
      if "unat p < unat q" "v < 65536 ^ length bs" for p q :: u16 and v w
    proof -
      have "(unat p + 1) * 65536 ^ length bs \<le> unat q * 65536 ^ length bs"
        using that(1) by (intro mult_le_mono1) simp
      then show ?thesis using that(2) by (simp add: algebra_simps)
    qed
    show ?thesis
    proof (cases "unat a < unat b")
      case True
      then show ?thesis using less [OF True lt(1), of "wval bs"] Cons.hyps False
        by (simp add: word_less_nat_alt)
    next
      case n: False
      then have "unat b < unat a" using False by (simp add: word_unat_eq_iff)
      then show ?thesis using less [OF _ lt(2), of b a "wval as"] Cons.hyps False
        by (simp add: word_less_nat_alt)
    qed
  qed
qed

lemma ecmpm_sigval:
  "is_ei a \<Longrightarrow> is_ei b \<Longrightarrow>
   ecmpm a b = (if sigval a = sigval b then 0 else if sigval a > sigval b then 1 else -1)"
  by (simp add: ecmpm_def ecmpm_words_wval sigval_def is_ei_def)

end
