(* ===== verification/Emath_Arith.thy ===== *)
theory Emath_Arith
  imports Emath_Words
begin

text \<open>
  Significand arithmetic of \<open>mingwex/math/cephes_emath.c\<close>: the conversions between the two
  number formats (\<open>emovi\<close>, \<open>emovo\<close>), addition, subtraction, multiplication by a word,
  multiplication, long division (\<open>edivm\<close>), multi-bit shifts and normalisation.

  The lemmas give the value of every routine on the significand as a natural number:
  sums and differences modulo the size of the significand, the exact product of
  \<open>m16m\<close>, the truncated product with its sticky bit (\<open>emulm\<close>), the truncated quotient with
  its remainder flag (\<open>edivm\<close>, the correctness of Knuth's algorithm D with the trial digit
  corrected at most twice), and the shift count of \<open>enormlz\<close>.
\<close>

section \<open>Moving between the formats\<close>

text \<open>
  \<open>emovi\<close> copies the five significand words. Its NaN branch copies six words starting at the
  top one and so also reads the word below the array; \<open>below\<close> is that word. Every caller in
  the modelled configuration tests for a NaN first, see \<open>emovi_below\<close>.
\<close>

definition emovi :: "u16 \<Rightarrow> u16 list \<Rightarrow> u16 list" where
  "emovi below a =
     (let sgn = (if a ! (NE - 1) AND 0x8000 \<noteq> 0 then 0xffff else 0);
          ex = a ! (NE - 1) AND 0x7fff
      in if ex AND 0x7fff = 0x7fff
         then if eisnan a
              then [sgn, ex, 0] @ rev (take (NE - 1) a) @ [below]
              else [sgn, ex] @ replicate (NI - 2) 0
         else [sgn, ex, 0] @ rev (take (NE - 1) a) @ [0])"

definition emovo :: "u16 list \<Rightarrow> u16 list \<Rightarrow> u16 list" where
  "emovo a b =
     (let b = b[NE - 1 := (if a ! 0 \<noteq> 0 then a ! idxE OR 0x8000 else a ! idxE)]
      in if a ! idxE = 0x7fff
         then if eiisnan a then enan_NBITS b else einfin b
         else rev (take (NE - 1) (drop idxS a)) @ drop (NE - 1) b)"

lemma emovi_below: "\<not> eisnan a \<Longrightarrow> emovi below a = emovi below' a"
  by (simp add: emovi_def Let_def)

section \<open>Addition and subtraction of significands\<close>

fun eaddm_words :: "u16 list \<Rightarrow> u16 list \<Rightarrow> u32 \<times> u16 list" where
  "eaddm_words (x # xs) (y # ys) =
     (let (carry, zs) = eaddm_words xs ys;
          a = ucast x + ucast y + carry;
          carry = (if a AND 0x10000 \<noteq> 0 then 1 else 0)
      in (carry, ucast a # zs))"
| "eaddm_words _ _ = (0, [])"

definition eaddm :: "u16 list \<Rightarrow> u16 list \<Rightarrow> u16 list" where
  "eaddm x y = take idxM y @ snd (eaddm_words (drop idxM x) (drop idxM y))"

fun esubm_words :: "u16 list \<Rightarrow> u16 list \<Rightarrow> u32 \<times> u16 list" where
  "esubm_words (x # xs) (y # ys) =
     (let (carry, zs) = esubm_words xs ys;
          a = ucast y - ucast x - carry;
          carry = (if a AND 0x10000 \<noteq> 0 then 1 else 0)
      in (carry, ucast a # zs))"
| "esubm_words _ _ = (0, [])"

definition esubm :: "u16 list \<Rightarrow> u16 list \<Rightarrow> u16 list" where
  "esubm x y = take idxM y @ snd (esubm_words (drop idxM x) (drop idxM y))"

section \<open>Multiplication by one word\<close>

text \<open>
  The two words at the front of the result are the words the C pointer \<open>pp\<close> stands at and
  the one before it.
\<close>

fun m16m_words :: "u32 \<Rightarrow> u16 list \<Rightarrow> u16 list" where
  "m16m_words aa [] = [0, 0]"
| "m16m_words aa (ps # bs) =
     (case m16m_words aa bs of
        h # l # p \<Rightarrow>
          if ps = 0 then 0 # h # l # p
          else let m = aa * ucast ps;
                   carry = (m AND 0xffff) + ucast l;
                   l = ucast carry;
                   carry = drop_bit 16 carry + drop_bit 16 m + ucast h;
                   h = ucast carry
               in ucast (drop_bit 16 carry) # h # l # p
      | p \<Rightarrow> p)"

definition m16m :: "u16 \<Rightarrow> u16 list \<Rightarrow> u16 list \<Rightarrow> u16 list" where
  "m16m a b c = take idxM c @ drop 1 (m16m_words (ucast a) (drop idxS b))"

section \<open>Division and multiplication of significands\<close>

text \<open>One pass of the digit loop of \<open>edivm\<close>; \<open>tprod\<close> is a local array.\<close>

definition edivm_digit :: "u16 list \<Rightarrow> u16 list \<Rightarrow> u16 \<times> u16 list" where
  "edivm_digit den num =
     (let tdenm = den ! idxS;
          tnum = push_bit 16 (ucast (num ! idxM)) + ucast (num ! idxS) :: u32;
          tquot = (if ucast tdenm * 0xffff < tnum then 0xffff
                   else ucast (tnum div ucast tdenm)) :: u16;
          tprod = m16m tquot den (replicate NI 0);
          (tquot, tprod) =
            (if ecmpm tprod num > 0
             then let tquot = tquot - 1; tprod = esubm den tprod
                  in if ecmpm tprod num > 0
                     then (tquot - 1, esubm den tprod)
                     else (tquot, tprod)
             else (tquot, tprod));
          num = esubm tprod num
      in (tquot, eshup6 num))"

fun edivm_loop :: "nat \<Rightarrow> u16 list \<Rightarrow> u16 list \<Rightarrow> u16 list \<times> u16 list" where
  "edivm_loop 0 den num = ([], num)"
| "edivm_loop (Suc n) den num =
     (let (tquot, num) = edivm_digit den num;
          (equot, num) = edivm_loop n den num
      in (tquot # equot, num))"

definition or_words :: "u16 list \<Rightarrow> u16" where
  "or_words ws = foldl (OR) 0 ws"

text \<open>The result is the flag for a nonzero remainder and the new contents of \<open>num\<close>.\<close>

definition edivm :: "u16 list \<Rightarrow> u16 list \<Rightarrow> int \<times> u16 list" where
  "edivm den num =
     (let sgn = take idxM num;
          num = eshdn1 num;
          (equot, num) = edivm_loop (NI - idxM) den num;
          j = or_words (drop idxM num)
      in (if j \<noteq> 0 then 1 else 0, sgn @ equot))"

fun emulm_loop :: "u16 list \<Rightarrow> u16 list \<Rightarrow> u16 \<Rightarrow> u16 list \<Rightarrow> u16 \<times> u16 list" where
  "emulm_loop [] b j equot = (j, equot)"
| "emulm_loop (p # ps) b j equot =
     (let equot = (if p = 0 then equot else eaddm (m16m p b (replicate NI 0)) equot);
          j = j OR equot ! (NI - 1);
          equot = eshdn6 equot
      in emulm_loop ps b j equot)"

definition emulm :: "u16 list \<Rightarrow> u16 list \<Rightarrow> int \<times> u16 list" where
  "emulm a b =
     (let (j, equot) = emulm_loop (rev (drop idxS a)) b 0
                         (take idxM b @ replicate (NI - idxM) 0)
      in (int (unat j), equot))"

section \<open>Shifts by a count, normalisation\<close>

text \<open>
  The three loops of a shift (sixteen, eight, one bit at a time) as one recursion: each
  starts where the one before it stops.
\<close>

fun eshift_dn :: "nat \<Rightarrow> u16 \<Rightarrow> u16 list \<Rightarrow> u16 \<times> u16 list" where
  "eshift_dn sc lost x =
     (if sc \<ge> 16 then eshift_dn (sc - 16) (lost OR x ! (NI - 1)) (eshdn6 x)
      else if sc \<ge> 8 then eshift_dn (sc - 8) (lost OR (x ! (NI - 1) AND 0xff)) (eshdn8 x)
      else if sc > 0 then eshift_dn (sc - 1) (lost OR (x ! (NI - 1) AND 1)) (eshdn1 x)
      else (lost, x))"

fun eshift_up :: "nat \<Rightarrow> u16 list \<Rightarrow> u16 list" where
  "eshift_up sc x =
     (if sc \<ge> 16 then eshift_up (sc - 16) (eshup6 x)
      else if sc \<ge> 8 then eshift_up (sc - 8) (eshup8 x)
      else if sc > 0 then eshift_up (sc - 1) (eshup1 x)
      else x)"

definition eshift :: "u16 list \<Rightarrow> int \<Rightarrow> int \<times> u16 list" where
  "eshift x sc =
     (if sc = 0 then (0, x)
      else if sc < 0
           then let (lost, x) = eshift_dn (nat (- sc)) 0 x
                in (if lost \<noteq> 0 then 1 else 0, x)
           else (0, eshift_up (nat sc) x))"

text \<open>
  The loops of \<open>enormlz\<close>. The first and the third leave early when the count passes a limit
  (the flag), which bounds them. The second has no limit in the code; it is reached with a
  nonzero top word only, where one pass is enough, so its fuel of two passes is never used
  up (lemma \<open>enormlz_up8_exit\<close>).
\<close>

function enormlz_up6 :: "int \<Rightarrow> u16 list \<Rightarrow> bool \<times> int \<times> u16 list" where
  "enormlz_up6 sc x =
     (if x ! idxS = 0
      then let x = eshup6 x; sc = sc + 16
           in if sc > NBITS then (True, sc, x) else enormlz_up6 sc x
      else (False, sc, x))"
  by pat_completeness auto
termination
  by (relation "measure (\<lambda>(sc, x). nat (NBITS + 1 - sc))") auto

fun enormlz_up8 :: "nat \<Rightarrow> int \<Rightarrow> u16 list \<Rightarrow> int \<times> u16 list" where
  "enormlz_up8 0 sc x = (sc, x)"
| "enormlz_up8 (Suc fuel) sc x =
     (if x ! idxS AND 0xff00 = 0 then enormlz_up8 fuel (sc + 8) (eshup8 x)
      else (sc, x))"

function enormlz_up1 :: "int \<Rightarrow> u16 list \<Rightarrow> int \<times> u16 list" where
  "enormlz_up1 sc x =
     (if x ! idxS AND 0x8000 = 0
      then let x = eshup1 x; sc = sc + 1
           in if sc > NBITS + 16 then (sc, x) else enormlz_up1 sc x
      else (sc, x))"
  by pat_completeness auto
termination
  by (relation "measure (\<lambda>(sc, x). nat (NBITS + 17 - sc))") auto

function enormlz_dn1 :: "int \<Rightarrow> u16 list \<Rightarrow> int \<times> u16 list" where
  "enormlz_dn1 sc x =
     (if x ! idxM \<noteq> 0
      then let x = eshdn1 x; sc = sc - 1
           in if sc < - NBITS then (sc, x) else enormlz_dn1 sc x
      else (sc, x))"
  by pat_completeness auto
termination
  by (relation "measure (\<lambda>(sc, x). nat (NBITS + 1 + sc))") auto

definition enormlz :: "u16 list \<Rightarrow> int \<times> u16 list" where
  "enormlz x =
     (if x ! idxM \<noteq> 0
      then let (sc, x) = (if x ! idxM AND 0xff00 \<noteq> 0 then (- 8, eshdn8 x) else (0, x))
           in enormlz_dn1 sc x
      else if x ! idxS AND 0x8000 \<noteq> 0 then (0, x)
      else let (ret, sc, x) = enormlz_up6 0 x
           in if ret then (sc, x)
              else let (sc, x) = enormlz_up8 2 sc x
                   in enormlz_up1 sc x)"

declare eshift_dn.simps [simp del] eshift_up.simps [simp del]
  enormlz_up6.simps [simp del] enormlz_up1.simps [simp del] enormlz_dn1.simps [simp del]

section \<open>Values: addition, subtraction\<close>

lemma and_10000_iff: "((a :: u32) AND 0x10000 \<noteq> 0) = odd (unat a div 65536)"
proof -
  have "(a AND 0x10000 \<noteq> 0) = bit a 16"
    using and_eq_mask_iff [of a 16] by simp
  also have "\<dots> = bit (unat a) 16"
    by (simp only: bit_unsigned_iff) (simp add: bit_imp_le_length)
  finally show ?thesis by (simp add: bit_iff_odd)
qed

lemma length_eaddm_words:
  "length xs = length ys \<Longrightarrow> length (snd (eaddm_words xs ys)) = length ys"
  by (induction xs ys rule: list_induct2) (auto simp: Let_def split: prod.split)

lemma length_esubm_words:
  "length xs = length ys \<Longrightarrow> length (snd (esubm_words xs ys)) = length ys"
  by (induction xs ys rule: list_induct2) (auto simp: Let_def split: prod.split)

lemma wval_eaddm_words:
  "length xs = length ys \<Longrightarrow>
   unat (fst (eaddm_words xs ys)) \<le> 1 \<and>
   unat (fst (eaddm_words xs ys)) * 65536 ^ length ys + wval (snd (eaddm_words xs ys))
     = wval xs + wval ys"
proof (induction xs ys rule: list_induct2)
  case Nil
  show ?case by simp
next
  case (Cons x xs y ys)
  obtain c zs where e: "eaddm_words xs ys = (c, zs)" by fastforce
  define P where "P = (65536 :: nat) ^ length ys"
  have IH: "unat c \<le> 1" "unat c * P + wval zs = wval xs + wval ys" "length zs = length ys"
    using Cons.IH length_eaddm_words [OF Cons.hyps] by (simp_all add: e P_def)
  define a where "a = (ucast x + ucast y + c :: u32)"
  have bound: "unat x + unat y + unat c < 131072"
    using unat_u16_less [of x] unat_u16_less [of y] IH(1) by linarith
  have a: "unat a = unat x + unat y + unat c"
    using bound by (simp add: a_def unat_word_ariths)
  define h :: nat where "h = of_bool (odd (unat a div 65536))"
  have q: "unat a div 65536 < 2" using bound a by (simp add: less_mult_imp_div_less)
  then have h: "h = unat a div 65536" by (auto simp: h_def less_2_cases_iff)
  have step: "eaddm_words (x # xs) (y # ys) = (if a AND 0x10000 \<noteq> 0 then 1 else 0, ucast a # zs)"
    by (simp add: e a_def Let_def)
  have "h * (65536 * P) + (unat a mod 65536 * P + wval zs) = (65536 * h + unat a mod 65536) * P + wval zs"
    by (simp add: algebra_simps)
  also have "65536 * h + unat a mod 65536 = unat a" by (simp add: h)
  also have "unat a * P + wval zs = wval (x # xs) + wval (y # ys)"
    using IH(2) Cons.hyps by (simp add: a P_def algebra_simps)
  finally have "h * (65536 * P) + (unat a mod 65536 * P + wval zs) = wval (x # xs) + wval (y # ys)" .
  moreover have "unat (if a AND 0x10000 \<noteq> 0 then 1 else 0 :: u32) = h"
    by (simp only: and_10000_iff h_def) simp
  ultimately show ?case
    by (simp only: step fst_conv snd_conv wval.simps length_Cons power_Suc unat_ucast_32_16 IH(3) P_def)
      (simp add: h_def)
qed

lemma is_ei_arith [simp]:
  "is_ei x \<Longrightarrow> is_ei y \<Longrightarrow> is_ei (eaddm x y)" "is_ei x \<Longrightarrow> is_ei y \<Longrightarrow> is_ei (esubm x y)"
  by (simp_all add: is_ei_def eaddm_def esubm_def length_eaddm_words length_esubm_words)

lemma take_arith [simp]:
  "is_ei y \<Longrightarrow> take idxM (eaddm x y) = take idxM y" "is_ei y \<Longrightarrow> take idxM (esubm x y) = take idxM y"
  by (simp_all add: is_ei_def eaddm_def esubm_def)

lemma sigval_eaddm:
  assumes "is_ei x" "is_ei y"
  shows "sigval (eaddm x y) = (sigval x + sigval y) mod SIG"
proof (rule mod_of_carry)
  show "unat (fst (eaddm_words (drop idxM x) (drop idxM y))) * SIG + sigval (eaddm x y)
      = sigval x + sigval y"
    using wval_eaddm_words [of "drop idxM x" "drop idxM y"] assms
    by (simp add: sigval_def eaddm_def is_ei_def)
  show "sigval (eaddm x y) < SIG"
    using assms by (intro sigval_less) simp
qed

lemma wval_esubm_words:
  "length xs = length ys \<Longrightarrow>
   unat (fst (esubm_words xs ys)) \<le> 1 \<and>
   wval (snd (esubm_words xs ys)) + wval xs
     = wval ys + unat (fst (esubm_words xs ys)) * 65536 ^ length ys"
proof (induction xs ys rule: list_induct2)
  case Nil
  show ?case by simp
next
  case (Cons x xs y ys)
  obtain c zs where e: "esubm_words xs ys = (c, zs)" by fastforce
  define P where "P = (65536 :: nat) ^ length ys"
  have IH: "unat c \<le> 1" "wval zs + wval xs = wval ys + unat c * P" "length zs = length ys"
    using Cons.IH length_esubm_words [OF Cons.hyps] by (simp_all add: e P_def)
  define a where "a = (ucast y - ucast x - c :: u32)"
  define h :: nat where "h = of_bool (unat y < unat x + unat c)"
  have lt: "unat x < 65536" "unat y < 65536" by simp_all
  have a: "unat a = (if unat x + unat c \<le> unat y then unat y - (unat x + unat c)
      else 4294967296 + unat y - (unat x + unat c))"
    using lt IH(1) by (auto simp: a_def unat_sub_if' word_val simp del: unat_u16_less)
  have h_eq: "(odd (unat a div 65536)) = (h = 1)" and lo: "unat a mod 65536 + unat x + unat c = unat y + h * 65536"
  proof (atomize(full), cases "unat x + unat c \<le> unat y")
    case True
    then show "odd (unat a div 65536) = (h = 1) \<and> unat a mod 65536 + unat x + unat c = unat y + h * 65536"
    proof -
      have "unat a = unat y - (unat x + unat c)" "unat a < 65536"
        using a lt(2) True by (simp_all del: unat_u16_less)
      then show ?thesis using True by (simp add: h_def)
    qed
  next
    case False
    define d where "d = unat x + unat c - unat y"
    have d: "0 < d" "d \<le> 65536" "unat a = 4294967296 - d"
      using False lt IH(1) a by (auto simp: d_def simp del: unat_u16_less)
    define r where "r = 65536 - d"
    have r: "r < 65536" "r + d = 65536" and ar: "unat a = r + 65535 * 65536"
      using d by (simp_all add: r_def)
    then have "unat a div 65536 = 65535" by simp
    moreover have "unat a mod 65536 = r"
      using r(1) by (simp only: ar mod_mult_self1 mod_less)
    moreover have "unat x + unat c = unat y + d" using False by (simp add: d_def)
    ultimately show "odd (unat a div 65536) = (h = 1) \<and> unat a mod 65536 + unat x + unat c = unat y + h * 65536"
      using False r by (simp add: h_def)
  qed
  have step: "esubm_words (x # xs) (y # ys) = (if a AND 0x10000 \<noteq> 0 then 1 else 0, ucast a # zs)"
    by (simp add: e a_def Let_def)
  have c: "unat (if a AND 0x10000 \<noteq> 0 then 1 else 0 :: u32) = h"
    by (simp only: and_10000_iff h_eq) (simp add: h_def)
  have "(unat a mod 65536 * P + wval zs) + (unat x * P + wval xs)
      = (unat a mod 65536 + unat x + unat c) * P + wval ys"
    using IH(2) by (simp add: algebra_simps)
  also have "\<dots> = (unat y * P + wval ys) + h * (65536 * P)"
    by (simp only: lo) (simp add: algebra_simps)
  finally show ?case
    by (simp only: step fst_conv snd_conv wval.simps length_Cons power_Suc unat_ucast_32_16 IH(3) P_def c Cons.hyps)
      (simp add: h_def)
qed

lemma sigval_esubm:
  assumes "is_ei x" "is_ei y" "sigval x \<le> sigval y"
  shows "sigval (esubm x y) = sigval y - sigval x"
proof -
  define c where "c = unat (fst (esubm_words (drop idxM x) (drop idxM y)))"
  have "c \<le> 1" and eq: "sigval (esubm x y) + sigval x = sigval y + c * SIG"
    using wval_esubm_words [of "drop idxM x" "drop idxM y"] assms
    by (simp_all add: sigval_def esubm_def is_ei_def c_def)
  moreover have "sigval (esubm x y) < SIG" using assms by (intro sigval_less) simp
  ultimately have "c = 0" using assms(3) by (cases c) auto
  with eq show ?thesis by simp
qed

text \<open>Without that premise the difference wraps around.\<close>

lemma sigval_esubm_mod:
  assumes "is_ei x" "is_ei y"
  shows "int (sigval (esubm x y)) = (int (sigval y) - int (sigval x)) mod int SIG"
proof -
  define c where "c = unat (fst (esubm_words (drop idxM x) (drop idxM y)))"
  have "sigval (esubm x y) + sigval x = sigval y + c * SIG"
    using wval_esubm_words [of "drop idxM x" "drop idxM y"] assms
    by (simp add: sigval_def esubm_def is_ei_def c_def)
  then have "int (sigval y) - int (sigval x) = int (sigval (esubm x y)) + int SIG * (- int c)"
    by (simp add: algebra_simps flip: of_nat_add of_nat_mult)
  moreover have "sigval (esubm x y) < SIG" using assms by (intro sigval_less) simp
  ultimately show ?thesis by (simp only: mod_mult_self2) simp
qed

section \<open>Values: multiplication by a word\<close>

lemma unat_and_ffff: "unat ((m :: u32) AND 0xffff) = unat m mod 65536"
proof -
  have "unat (m AND 0xffff) = unat m AND 0xffff"
    by (simp add: unsigned_and_eq)
  also have "(0xffff :: nat) = mask 16" by (simp add: mask_eq_exp_minus_1)
  finally show ?thesis by (simp only: take_bit_eq_mask [symmetric] take_bit_eq_mod) simp
qed

lemma m16m_words_shape:
  "\<exists>h l p. m16m_words aa bs = h # l # p \<and> length p = length bs"
  by (induction bs) (auto simp: Let_def)

lemma m16m_digit:
  fixes a b h l :: nat
  assumes "a < 65536" "b < 65536" "h < 65536" "l < 65536"
  defines "c1 \<equiv> a * b mod 65536 + l"
  defines "c2 \<equiv> c1 div 65536 + a * b div 65536 + h"
  shows "c1 < 4294967296" "c2 < 4294967296" "c2 div 65536 < 65536"
    and "c2 div 65536 * 4294967296 + c2 mod 65536 * 65536 + c1 mod 65536 = h * 65536 + l + a * b"
proof -
  have "a * b \<le> 65535 * 65535" using assms(1,2) by (intro mult_le_mono) simp_all
  then have m: "a * b div 65536 \<le> 65534" by simp
  have "c1 \<le> 65535 + 65535" unfolding c1_def using assms(4) by (intro add_mono) auto
  then have c1: "c1 div 65536 \<le> 1" "c1 \<le> 131070" by simp_all
  then show "c1 < 4294967296" by simp
  have "c2 \<le> 1 + 65534 + 65535" unfolding c2_def using c1 m assms(3) by linarith
  then show "c2 < 4294967296" "c2 div 65536 < 65536" by simp_all
  have "c2 div 65536 * 65536 + c2 mod 65536 = c2" by simp
  moreover have "c1 div 65536 * 65536 + c1 mod 65536 = c1" by simp
  moreover have "a * b div 65536 * 65536 + a * b mod 65536 = a * b" by simp
  ultimately show "c2 div 65536 * 4294967296 + c2 mod 65536 * 65536 + c1 mod 65536 = h * 65536 + l + a * b"
    unfolding c2_def c1_def by linarith
qed

lemma wval_m16m_words: "wval (m16m_words (ucast (a :: u16)) bs) = unat a * wval bs"
proof (induction bs)
  case Nil
  show ?case by simp
next
  case (Cons ps bs)
  obtain h l p where e: "m16m_words (ucast a) bs = h # l # p" and len: "length p = length bs"
    using m16m_words_shape by blast
  define P where "P = (65536 :: nat) ^ length bs"
  have IH: "(unat h * 65536 + unat l) * P + wval p = unat a * wval bs"
    using Cons.IH by (simp add: e len P_def algebra_simps)
  show ?case
  proof (cases "ps = 0")
    case True
    then show ?thesis using Cons.IH by (simp add: e)
  next
    case False
    define m :: u32 where "m = ucast a * ucast ps"
    define k1 where "k1 = (m AND 0xffff) + ucast l"
    define k2 where "k2 = drop_bit 16 k1 + drop_bit 16 m + ucast h"
    define c1 where "c1 = unat a * unat ps mod 65536 + unat l"
    define c2 where "c2 = c1 div 65536 + unat a * unat ps div 65536 + unat h"
    note d = m16m_digit [of "unat a" "unat ps" "unat h" "unat l", folded c1_def, folded c2_def, simplified]
    have "unat a * unat ps \<le> 65535 * 65535" by (intro mult_le_mono) simp_all
    then have m: "unat m = unat a * unat ps" by (simp add: m_def unat_word_ariths)
    have "unat (m AND 0xffff) = unat m mod 65536"
      by (rule unat_and_ffff)
    then have k1: "unat k1 = c1" using d(1) by (simp add: k1_def c1_def unat_word_ariths m)
    have k2: "unat k2 = c2" using d(2) by (simp add: k2_def c2_def unat_word_ariths m word_val k1)
    have step: "m16m_words (ucast a) (ps # bs) = ucast (drop_bit 16 k2) # ucast k2 # ucast k1 # p"
      using False by (simp add: e Let_def k2_def k1_def m_def)
    have "wval (m16m_words (ucast a) (ps # bs))
        = (c2 div 65536 * 4294967296 + c2 mod 65536 * 65536 + c1 mod 65536) * P + wval p"
      unfolding step using d(3) by (simp add: word_val k1 k2 len P_def algebra_simps)
    also have "\<dots> = (unat h * 65536 + unat l) * P + wval p + unat a * unat ps * P"
      by (simp only: d(4)) (simp add: algebra_simps)
    also have "\<dots> = unat a * wval (ps # bs)"
      by (simp only: IH) (simp add: P_def algebra_simps)
    finally show ?thesis .
  qed
qed

abbreviation (input) LOW6 :: nat where "LOW6 \<equiv> 65536 ^ 6"

text \<open>\<open>lowval\<close> is the value of the words below the high guard word, what \<open>m16m\<close> multiplies.\<close>

definition lowval :: "u16 list \<Rightarrow> nat" where
  "lowval x = wval (drop idxS x)"

lemma lowval_less: "is_ei x \<Longrightarrow> lowval x < LOW6"
  using wval_less [of "drop idxS x"] by (simp add: lowval_def is_ei_def)

lemma sigval_lowval: "is_ei x \<Longrightarrow> sigval x = unat (x ! idxM) * LOW6 + lowval x"
  by (simp add: sigval_split_guard lowval_def)

lemma guard_zero_iff: "is_ei x \<Longrightarrow> x ! idxM = 0 \<longleftrightarrow> sigval x < LOW6"
  using lowval_less [of x]
  by (auto simp: sigval_lowval unat_eq_zero [symmetric] simp del: unat_eq_zero)

lemma is_ei_m16m [simp]: "is_ei b \<Longrightarrow> is_ei c \<Longrightarrow> is_ei (m16m a b c)"
  using m16m_words_shape [of "ucast a" "drop idxS b"]
  by (auto simp: is_ei_def m16m_def)

lemma sigval_m16m:
  assumes "is_ei b" "is_ei c"
  shows "sigval (m16m a b c) = unat a * lowval b"
proof -
  obtain h l p where e: "m16m_words (ucast a) (drop idxS b) = h # l # p"
    and len: "length p = length (drop idxS b)"
    using m16m_words_shape by blast
  have v: "wval (h # l # p) = unat a * lowval b"
    using wval_m16m_words [of a "drop idxS b"] by (simp only: e lowval_def)
  have "unat a * lowval b < 65536 * LOW6"
    using lowval_less [OF assms(1)] unat_u16_less [of a] by (intro mult_strict_mono) simp_all
  then have "unat h * 65536 ^ 7 < 65536 ^ 7"
    using v len assms(1) by (simp add: is_ei_def)
  then have "unat h = 0" by simp
  then show ?thesis unfolding sigval_def m16m_def e using v assms(2) by (simp add: is_ei_def)
qed

section \<open>Division of significands\<close>

text \<open>
  The trial digit of algorithm D: with the leading divisor word \<open>d\<close> normalised, the digit
  estimated from the two leading words is the true one or one or two more.
\<close>

lemma trial_digit:
  fixes R D B d :: nat
  assumes d: "d = D div B" and norm: "32768 \<le> d" and B: "0 < B" and R: "R < 65536 * D"
  defines "qh \<equiv> min 65535 (R div B div d)"
  shows "R div D \<le> qh" "qh \<le> R div D + 2"
proof -
  have D: "d * B \<le> D" "D < d * B + B"
    using dividend_less_div_times [OF B, of D] by (simp_all add: d add.commute)
  then have Dpos: "0 < D" using norm B by (metis less_le_trans mult_pos_pos zero_less_numeral not_gr0 le_zero_eq mult_is_0)
  define q where "q = R div D"
  have q: "q * D \<le> R" "R < q * D + D"
    using dividend_less_div_times [OF Dpos, of R] by (simp_all add: q_def add.commute)
  have "q < 65536" using R Dpos by (simp add: q_def less_mult_imp_div_less)
  moreover have "q \<le> R div B div d"
  proof -
    have "q * (d * B) \<le> q * D" by (rule mult_le_mono2 [OF D(1)])
    then have "q * d * B \<le> R" using q(1) by (simp only: mult.assoc)
    then have "q * d \<le> R div B" using B by (simp add: less_eq_div_iff_mult_less_eq)
    then show ?thesis using norm by (simp add: less_eq_div_iff_mult_less_eq)
  qed
  ultimately show "R div D \<le> qh" by (simp add: qh_def q_def)
  have "qh * d \<le> R div B"
    using norm by (simp add: qh_def less_eq_div_iff_mult_less_eq [symmetric])
  then have "qh * d * B \<le> R" using B by (simp add: less_eq_div_iff_mult_less_eq)
  moreover have "qh * D \<le> qh * (d * B + B)" using D(2) by (intro mult_le_mono2) simp
  ultimately have "qh * D \<le> R + qh * B" by (simp add: algebra_simps)
  moreover have "qh * B \<le> 65535 * B" by (intro mult_le_mono1) (simp add: qh_def)
  moreover have "32768 * B \<le> D" using D(1) mult_le_mono1 [OF norm, of B] by linarith
  moreover have "(q + 3) * D = q * D + 3 * D" by (simp add: algebra_simps)
  ultimately have "qh * D < (q + 3) * D" using q(2) B by linarith
  then show "qh \<le> R div D + 2" using Dpos by (simp add: q_def)
qed

lemma top_word: "is_ei x \<Longrightarrow> x ! idxM = 0 \<Longrightarrow> unat (x ! idxS) = sigval x div 65536 ^ 5"
proof -
  assume x: "is_ei x" and g: "x ! idxM = 0"
  have "lowval x = unat (x ! idxS) * 65536 ^ 5 + wval (drop 4 x)"
    using x by (simp add: lowval_def is_ei_def Cons_nth_drop_Suc [symmetric, of 3])
  moreover have "wval (drop 4 x) < 65536 ^ 5"
    using wval_less [of "drop 4 x"] x by (simp add: is_ei_def)
  ultimately show ?thesis using sigval_lowval [OF x] g by simp
qed

lemma top_two_words:
  assumes "is_ei x"
  shows "unat (push_bit 16 (ucast (x ! idxM)) + ucast (x ! idxS) :: u32) = sigval x div 65536 ^ 5"
proof -
  have l: "lowval x = unat (x ! idxS) * 65536 ^ 5 + wval (drop 4 x)"
    using assms by (simp add: lowval_def is_ei_def Cons_nth_drop_Suc [symmetric, of 3])
  have lt: "wval (drop 4 x) < 65536 ^ 5"
    using wval_less [of "drop 4 x"] assms by (simp add: is_ei_def)
  have "sigval x = (unat (x ! idxM) * 65536 + unat (x ! idxS)) * 65536 ^ 5 + wval (drop 4 x)"
    using sigval_lowval [OF assms] l by (simp add: algebra_simps)
  then have s: "sigval x div 65536 ^ 5 = unat (x ! idxM) * 65536 + unat (x ! idxS)"
    using lt by (simp add: div_add1_eq)
  have a: "unat (x ! idxM) < 65536" "unat (x ! idxS) < 65536" by simp_all
  have "unat (push_bit 16 (ucast (x ! idxM)) :: u32) = unat (x ! idxM) * 65536"
    using a(1) by (simp only: unsigned_push_bit_eq)
      (simp add: push_bit_eq_mult take_bit_eq_mod del: unat_u16_less)
  then show ?thesis
    unfolding s using a by (simp add: unat_word_ariths del: unat_u16_less)
qed

lemma edivm_digit_correct:
  assumes den: "is_ei den" "den ! idxM = 0" "0x8000 \<le> unat (den ! idxS)"
    and num: "is_ei num" "sigval num < 65536 * sigval den"
    and res: "edivm_digit den num = (tquot, num')"
  shows "unat tquot = sigval num div sigval den" "is_ei num'"
    "sigval num' = 65536 * (sigval num mod sigval den)"
proof -
  define B :: nat where "B = 65536 ^ 5"
  define D where "D = sigval den"
  define R where "R = sigval num"
  define d where "d = unat (den ! idxS)"
  have d: "d = D div B" using top_word [OF den(1,2)] by (simp only: d_def D_def B_def)
  have dn: "32768 \<le> d" "d < 65536" using den(3) by (simp_all add: d_def)
  have B: "0 < B" by (simp add: B_def)
  define qh where "qh = min 65535 (R div B div d)"
  note bounds = trial_digit [OF d dn(1) B num(2) [folded D_def R_def], folded qh_def]
  define tnum where "tnum = (push_bit 16 (ucast (num ! idxM)) + ucast (num ! idxS) :: u32)"
  have tnum: "unat tnum = R div B" using top_two_words [OF num(1)] by (simp only: tnum_def R_def B_def)
  define t0 :: u16 where "t0 = (if ucast (den ! idxS) * 0xffff < tnum then 0xffff
      else ucast (tnum div ucast (den ! idxS)))"
  have prod: "unat (ucast (den ! idxS) * 0xffff :: u32) = d * 65535"
  proof -
    have "d * 65535 \<le> 65535 * 65535" using dn(2) by (intro mult_le_mono1) simp
    then have "d * 65535 < 4294967296" by linarith
    then show ?thesis by (simp add: unat_word_ariths d_def [symmetric])
  qed
  have t0: "unat t0 = qh"
  proof (cases "d * 65535 < R div B")
    case True
    then have "65535 \<le> R div B div d"
      using dn(1) by (simp add: less_eq_div_iff_mult_less_eq mult.commute)
    then show ?thesis using True prod tnum by (simp add: t0_def qh_def word_less_nat_alt)
  next
    case False
    then have "R div B div d \<le> 65535"
      using dn(1) by (metis div_le_mono linorder_not_less nonzero_mult_div_cancel_left not_numeral_le_zero)
    then show ?thesis
      using False prod tnum by (simp add: t0_def qh_def word_less_nat_alt unat_div word_val d_def [symmetric])
  qed
  have Dlow: "lowval den = D" using sigval_lowval [OF den(1)] den(2) by (simp add: D_def)
  have ei0: "is_ei (replicate NI 0)" by (simp add: is_ei_def)
  define p0 where "p0 = m16m t0 den (replicate NI 0)"
  have p0: "is_ei p0" "sigval p0 = qh * D"
    using sigval_m16m [OF den(1) ei0] den(1) ei0 by (simp_all add: p0_def t0 Dlow)
  have q: "R div D * D \<le> R" "R - R div D * D = R mod D"
    by (simp_all add: minus_div_mult_eq_mod)
  have Rd: "R < R div D * D + D"
    using num(2) dividend_less_div_times [of D R] by (cases "D = 0") (simp_all add: D_def R_def add.commute)
  have fin: "unat tquot = R div D \<and> is_ei num' \<and> sigval num' = 65536 * (R mod D)"
    if "is_ei p" "sigval p = R div D * D" "unat t = R div D"
      "edivm_digit den num = (t, eshup6 (esubm p num))" for p t
  proof -
    have s: "sigval (esubm p num) = R mod D"
      using sigval_esubm [of p num] that(1,2) num(1) q by (simp add: R_def)
    have "0 < D" using num(2) by (cases "D = 0") (simp_all add: D_def)
    then have "R mod D < D" by simp
    moreover have "D < LOW6" using lowval_less [OF den(1)] by (simp only: Dlow)
    ultimately have "65536 * (R mod D) < SIG" by simp
    then show ?thesis using that(3,4) res num(1) that(1)
      by (simp add: sigval_eshup6 s)
  qed
  have sub: "sigval (esubm den p) = sigval p - D" if "is_ei p" "D \<le> sigval p" for p
    using sigval_esubm [OF den(1) that(1)] that(2) by (simp add: D_def)
  have dec: "unat (t - 1) = unat t - 1" if "0 < unat t" for t :: u16
    using that by (simp add: unat_sub word_le_nat_alt)
  have unf: "edivm_digit den num =
      (if ecmpm p0 num > 0
       then if ecmpm (esubm den p0) num > 0 then (t0 - 1 - 1, eshup6 (esubm (esubm den (esubm den p0)) num))
            else (t0 - 1, eshup6 (esubm (esubm den p0) num))
       else (t0, eshup6 (esubm p0 num)))"
    by (simp add: edivm_digit_def Let_def p0_def t0_def tnum_def)
  have gt: "ecmpm p num > 0 \<longleftrightarrow> sigval p > R" if "is_ei p" for p
    using ecmpm_sigval [OF that num(1)] by (simp add: R_def)
  consider "qh = R div D" | "qh = R div D + 1" | "qh = R div D + 2"
    using bounds by linarith
  then have "unat tquot = R div D \<and> is_ei num' \<and> sigval num' = 65536 * (R mod D)"
  proof cases
    case 1
    then show ?thesis using q(1) by (intro fin [OF p0(1), of t0]) (simp_all add: p0 t0 unf gt not_less)
  next
    case 2
    then have p: "sigval p0 = R div D * D + D" by (simp add: p0(2) algebra_simps)
    have p1: "sigval (esubm den p0) = R div D * D" using sub [OF p0(1)] p by simp
    show ?thesis using Rd q(1) p0(1) den(1) 2 dec [of t0] t0
      by (intro fin [of "esubm den p0" "t0 - 1"]) (simp_all add: unf gt p p1 not_less)
  next
    case 3
    then have p: "sigval p0 = R div D * D + 2 * D" by (simp add: p0(2) algebra_simps)
    have p1: "sigval (esubm den p0) = R div D * D + D" using sub [OF p0(1)] p by simp
    have p2: "sigval (esubm den (esubm den p0)) = R div D * D"
      using sub [of "esubm den p0"] p0(1) den(1) p1 by simp
    show ?thesis using Rd q(1) p0(1) den(1) 3 dec [of t0] dec [of "t0 - 1"] t0
      by (intro fin [of "esubm den (esubm den p0)" "t0 - 1 - 1"]) (simp_all add: unf gt p p1 p2 not_less)
  qed
  then show "unat tquot = sigval num div sigval den" "is_ei num'"
    "sigval num' = 65536 * (sigval num mod sigval den)"
    by (simp_all add: R_def D_def)
qed

lemma length_edivm_loop: "length (fst (edivm_loop n den num)) = n"
proof (induction n arbitrary: num)
  case 0
  then show ?case by simp
next
  case (Suc n)
  obtain t num1 qs num2 where "edivm_digit den num = (t, num1)" "edivm_loop n den num1 = (qs, num2)"
    by fastforce
  then show ?case using Suc.IH [of num1] by simp
qed

text \<open>
  The loop produces the digits of the quotient of the current remainder, and leaves the
  last remainder shifted up by one word.
\<close>

lemma edivm_loop_correct:
  assumes den: "is_ei den" "den ! idxM = 0" "0x8000 \<le> unat (den ! idxS)"
  shows "is_ei num \<Longrightarrow> sigval num < 65536 * sigval den \<Longrightarrow> 0 < n \<Longrightarrow>
    edivm_loop n den num = (equot, num') \<Longrightarrow>
    \<exists>r. sigval num * 65536 ^ (n - 1) = wval equot * sigval den + r \<and> r < sigval den
        \<and> sigval num' = 65536 * r \<and> is_ei num'"
proof (induction n arbitrary: num equot num')
  case 0
  then show ?case by simp
next
  case (Suc n)
  define D where "D = sigval den"
  define R where "R = sigval num"
  obtain t num1 where d: "edivm_digit den num = (t, num1)" by fastforce
  obtain qs num2 where l: "edivm_loop n den num1 = (qs, num2)" by fastforce
  have res: "equot = t # qs" "num' = num2" using Suc.prems(4) by (simp_all add: d l)
  have len: "length qs = n" using length_edivm_loop [of n den num1] by (simp add: l)
  note digit = edivm_digit_correct [OF den Suc.prems(1,2) d, folded D_def R_def]
  have Dpos: "0 < D" using Suc.prems(2) by (simp add: D_def) 
  have qr: "unat t * D + R mod D = R" using digit(1) by simp
  show ?case
  proof (cases "n = 0")
    case True
    then have "qs = []" "num2 = num1" using len l by simp_all
    then show ?thesis using True qr digit(2,3) Dpos
      by (intro exI [of _ "R mod D"]) (simp add: res D_def [symmetric] R_def [symmetric])
  next
    case False
    have "sigval num1 < 65536 * D" using digit(3) Dpos by simp
    then obtain r where r: "sigval num1 * 65536 ^ (n - 1) = wval qs * D + r" "r < D"
        "sigval num2 = 65536 * r" "is_ei num2"
      using Suc.IH [OF digit(2) _ _ l] False by (auto simp: D_def)
    have "R * 65536 ^ n = (unat t * D + R mod D) * 65536 ^ n" by (simp only: qr)
    also have "\<dots> = unat t * 65536 ^ n * D + sigval num1 * 65536 ^ (n - 1)"
      using False by (simp add: digit(3) power_eq_if algebra_simps)
    also have "\<dots> = unat t * 65536 ^ n * D + (wval qs * D + r)" by (simp only: r(1))
    also have "\<dots> = wval equot * D + r" by (simp add: res len algebra_simps)
    finally show ?thesis using r(2-4)
      by (intro exI [of _ r]) (simp add: res D_def [symmetric] R_def [symmetric])
  qed
qed

lemma word_or_0_iff: "((a :: u16) OR b = 0) = (a = 0 \<and> b = 0)"
  by (metis or_eq_0_iff)

lemma or_words_0_iff: "or_words ws = 0 \<longleftrightarrow> wval ws = 0"
proof -
  have "foldl (OR) a ws = 0 \<longleftrightarrow> a = 0 \<and> (\<forall>w \<in> set ws. w = 0)" for a :: u16
    by (induction ws arbitrary: a) (auto simp: word_or_0_iff)
  then show ?thesis by (simp add: or_words_def wval_eq_0_iff)
qed

lemma edivm_correct:
  assumes den: "is_ei den" "den ! idxM = 0" "0x8000 \<le> unat (den ! idxS)"
    and num: "is_ei num" "num ! idxM = 0"
    and res: "edivm den num = (j, q)"
  shows "sigval q = (sigval num div 2 * LOW6) div sigval den"
    "j = (if (sigval num div 2 * LOW6) mod sigval den = 0 then 0 else 1)"
    "is_ei q" "take idxM q = take idxM num"
proof -
  define D where "D = sigval den"
  have top: "32768 * 65536 ^ 5 \<le> D"
  proof -
    have "32768 * 65536 ^ 5 \<le> unat (den ! idxS) * 65536 ^ 5" using den(3) by (intro mult_le_mono1) simp
    also have "\<dots> \<le> D" unfolding top_word [OF den(1,2)] D_def by (rule div_times_less_eq_dividend)
    finally show ?thesis .
  qed
  obtain qs num' where l: "edivm_loop 7 den (eshdn1 num) = (qs, num')" by fastforce
  have "sigval num < LOW6" using num guard_zero_iff by simp
  then have "sigval (eshdn1 num) < 65536 * D" using top by (simp add: sigval_eshdn1 num(1))
  then obtain r where r: "sigval num div 2 * LOW6 = wval qs * D + r" "r < D"
      "sigval num' = 65536 * r" "is_ei num'"
    using edivm_loop_correct [OF den _ _ _ l] num(1) by (auto simp: D_def sigval_eshdn1)
  have len: "length qs = 7" using length_edivm_loop [of 7 den "eshdn1 num"] by (simp add: l)
  have qr: "q = take idxM num @ qs" "j = (if or_words (drop idxM num') \<noteq> 0 then 1 else 0)"
    using res l by (simp_all add: edivm_def Let_def)
  have "or_words (drop idxM num') = 0 \<longleftrightarrow> r = 0"
    using r(3) by (simp add: or_words_0_iff sigval_def)
  moreover have "(sigval num div 2 * LOW6) div D = wval qs" "(sigval num div 2 * LOW6) mod D = r"
    using r(1,2) by simp_all
  moreover have "sigval q = wval qs" using num(1) by (simp add: qr sigval_def is_ei_def)
  ultimately show "sigval q = (sigval num div 2 * LOW6) div sigval den"
    "j = (if (sigval num div 2 * LOW6) mod sigval den = 0 then 0 else 1)"
    "is_ei q" "take idxM q = take idxM num"
    using num(1) len by (simp_all add: qr D_def [symmetric] is_ei_def)
qed

section \<open>Multiplication of significands\<close>

lemma wval_mod: "xs \<noteq> [] \<Longrightarrow> wval xs mod 65536 = unat (last xs)"
  by (cases xs rule: rev_cases) simp_all

lemma last_word: "is_ei x \<Longrightarrow> unat (x ! (NI - 1)) = sigval x mod 65536"
  by (simp add: sigval_def wval_mod is_ei_def last_conv_nth)

lemma emulm_loop_correct:
  assumes b: "is_ei b"
  shows "is_ei equot \<Longrightarrow> A < 65536 ^ k \<Longrightarrow>
    sigval equot = A * lowval b div 65536 ^ k \<Longrightarrow>
    (j = 0 \<longleftrightarrow> A * lowval b mod 65536 ^ k = 0) \<Longrightarrow>
    emulm_loop ps b j equot = (j', e') \<Longrightarrow>
    let P = (A + wval (rev ps) * 65536 ^ k) * lowval b; K = 65536 ^ (k + length ps)
    in sigval e' = P div K \<and> (j' = 0 \<longleftrightarrow> P mod K = 0) \<and> is_ei e' \<and> take idxM e' = take idxM equot"
proof (induction ps arbitrary: A k j equot)
  case Nil
  then show ?case by simp
next
  case (Cons p ps)
  define B where "B = lowval b"
  define A1 where "A1 = A + unat p * 65536 ^ k"
  define e1 where "e1 = (if p = 0 then equot else eaddm (m16m p b (replicate NI 0)) equot)"
  have ei0: "is_ei (replicate NI 0)" by (simp add: is_ei_def)
  have A1: "A1 < 65536 ^ Suc k"
  proof -
    have "(unat p + 1) * 65536 ^ k \<le> 65536 * 65536 ^ k"
      using unat_u16_less [of p] by (intro mult_le_mono1) linarith
    then have "unat p * 65536 ^ k + 65536 ^ k \<le> 65536 * 65536 ^ k"
      by (simp only: add_mult_distrib mult_1)
    then show ?thesis using Cons.prems(2) unfolding A1_def power_Suc by linarith
  qed
  have div: "A1 * B div 65536 ^ k = unat p * B + A * B div 65536 ^ k"
    and mod: "A1 * B mod 65536 ^ k = A * B mod 65536 ^ k"
  proof -
    have "A1 * B = A * B + unat p * B * 65536 ^ k" by (simp add: A1_def algebra_simps)
    then show "A1 * B div 65536 ^ k = unat p * B + A * B div 65536 ^ k"
      "A1 * B mod 65536 ^ k = A * B mod 65536 ^ k" by simp_all
  qed
  have e1: "sigval e1 = A1 * B div 65536 ^ k" "is_ei e1" "take idxM e1 = take idxM equot"
  proof -
    have lt: "A * B div 65536 ^ k \<le> B"
      using Cons.prems(2) by (cases "B = 0") (simp_all add: div_le_mono less_imp_le less_mult_imp_div_less mult.commute)
    have "unat p * B + A * B div 65536 ^ k \<le> 65535 * B + B"
      using lt by (intro add_mono mult_le_mono1) simp_all
    moreover have "B < LOW6" using lowval_less [OF b] by (simp only: B_def)
    ultimately have "unat p * B + A * B div 65536 ^ k < SIG" by simp
    then show "sigval e1 = A1 * B div 65536 ^ k"
      using sigval_eaddm [of "m16m p b (replicate NI 0)" equot] sigval_m16m [OF b ei0, of p]
        b ei0 Cons.prems(1,3) by (simp add: e1_def div B_def [symmetric])
    show "is_ei e1" "take idxM e1 = take idxM equot" using b ei0 Cons.prems(1) by (simp_all add: e1_def)
  qed
  have rec: "emulm_loop ps b (j OR e1 ! (NI - 1)) (eshdn6 e1) = (j', e')"
    using Cons.prems(5) by (simp add: e1_def Let_def)
  have s: "sigval (eshdn6 e1) = A1 * B div 65536 ^ Suc k"
    using e1(1,2) by (simp add: sigval_eshdn6 div_mult2_eq [symmetric] mult.commute)
  have "A1 * B mod 65536 ^ Suc k = 65536 ^ k * (sigval e1 mod 65536) + A * B mod 65536 ^ k"
    using mod_mult2_eq [of "A1 * B" "65536 ^ k" 65536] by (simp add: e1(1) mod mult.commute)
  moreover have "e1 ! (NI - 1) = 0 \<longleftrightarrow> sigval e1 mod 65536 = 0"
    unfolding last_word [OF e1(2), symmetric] by (simp add: unsigned_eq_0_iff)
  ultimately have j: "(j OR e1 ! (NI - 1) = 0) = (A1 * B mod 65536 ^ Suc k = 0)"
    using Cons.prems(4) by (auto simp: word_or_0_iff B_def)
  have "wval (rev (p # ps)) = wval (rev ps) * 65536 + unat p" by simp
  then have "(A1 + wval (rev ps) * 65536 ^ Suc k) = A + wval (rev (p # ps)) * 65536 ^ k"
    by (simp add: A1_def algebra_simps)
  then show ?case
    using Cons.IH [OF _ A1 s [unfolded B_def] j [unfolded B_def] rec] e1(2,3)
    by (simp add: Let_def)
qed

lemma emulm_correct:
  assumes "is_ei a" "is_ei b" "emulm a b = (j, c)"
  shows "sigval c = lowval a * lowval b div LOW6"
    "j = 0 \<longleftrightarrow> lowval a * lowval b mod LOW6 = 0"
    "is_ei c" "take idxM c = take idxM b"
proof -
  define e0 where "e0 = take idxM b @ replicate 7 (0 :: u16)"
  obtain j' e' where l: "emulm_loop (rev (drop idxS a)) b 0 e0 = (j', e')" by fastforce
  have r: "j = int (unat j')" "c = e'"
    using assms(3) l by (simp_all add: emulm_def e0_def)
  have e0: "is_ei e0" "sigval e0 = 0" "take idxM e0 = take idxM b"
    using assms(2) by (simp_all add: e0_def is_ei_def sigval_def)
  have "length (rev (drop idxS a)) = 6" using assms(1) by (simp add: is_ei_def)
  then show "sigval c = lowval a * lowval b div LOW6" "j = 0 \<longleftrightarrow> lowval a * lowval b mod LOW6 = 0"
    "is_ei c" "take idxM c = take idxM b"
    using emulm_loop_correct [OF assms(2) e0(1), of 0 0 0, OF _ _ _ l] e0(2,3)
    by (simp_all add: r lowval_def [symmetric] unsigned_eq_0_iff Let_def)
qed

section \<open>Shifts and normalisation\<close>

lemma eshift_up_correct:
  "is_ei x \<Longrightarrow> sigval (eshift_up n x) = sigval x * 2 ^ n mod SIG \<and> is_ei (eshift_up n x)
     \<and> take idxM (eshift_up n x) = take idxM x"
proof (induction n x rule: eshift_up.induct)
  case (1 n x)
  have step: "y * k mod SIG * 2 ^ (n - s) mod SIG = y * 2 ^ n mod SIG" if "k = 2 ^ s" "s \<le> n" for y k s
    using that by (simp add: mod_mult_left_eq power_add [symmetric] mult.assoc)
  consider "n \<ge> 16" | "n < 16" "n \<ge> 8" | "n < 8" "n > 0" | "n = 0" by linarith
  then show ?case
  proof cases
    case 1
    then show ?thesis using "1.IH"(1) "1.prems" step [of 65536 16 "sigval x"]
      by (simp add: eshift_up.simps [of n x] sigval_eshup6 mult.commute [of 65536])
  next
    case 2
    then show ?thesis using "1.IH"(2) "1.prems" step [of 256 8 "sigval x"]
      by (simp add: eshift_up.simps [of n x] sigval_eshup8 mult.commute [of 256])
  next
    case 3
    then show ?thesis using "1.IH"(3) "1.prems" step [of 2 1 "sigval x"]
      by (simp add: eshift_up.simps [of n x] sigval_eshup1 mult.commute [of 2])
  next
    case 4
    then show ?thesis using "1.prems" sigval_less [of x] by (simp add: eshift_up.simps [of 0 x])
  qed
qed

lemma unat_and_1: "unat ((w :: u16) AND 1) = unat w mod 2"
  by (simp only: and_1_eq) (simp add: odd_iff_mod_2_eq_one)

lemma sticky_step:
  fixes S :: nat
  assumes "s \<le> n"
  shows "S div 2 ^ s div 2 ^ (n - s) = S div 2 ^ n"
    "(S mod 2 ^ s = 0 \<and> S div 2 ^ s mod 2 ^ (n - s) = 0) \<longleftrightarrow> S mod 2 ^ n = 0"
proof -
  have p: "(2 :: nat) ^ n = 2 ^ s * 2 ^ (n - s)" using assms by (simp flip: power_add)
  show "S div 2 ^ s div 2 ^ (n - s) = S div 2 ^ n" by (simp add: p div_mult2_eq)
  show "(S mod 2 ^ s = 0 \<and> S div 2 ^ s mod 2 ^ (n - s) = 0) \<longleftrightarrow> S mod 2 ^ n = 0"
    unfolding p mod_mult2_eq by auto
qed

lemma eshift_dn_correct:
  "is_ei x \<Longrightarrow> eshift_dn n lost x = (l', x') \<Longrightarrow>
   sigval x' = sigval x div 2 ^ n \<and> (l' = 0 \<longleftrightarrow> lost = 0 \<and> sigval x mod 2 ^ n = 0)
     \<and> is_ei x' \<and> take idxM x' = take idxM x"
proof (induction n lost x rule: eshift_dn.induct)
  case (1 n lost x)
  note low = last_word [OF "1.prems"(1)]
  have z: "(lost OR w = 0) = (lost = 0 \<and> unat w = 0)" for w
    by (simp add: word_or_0_iff unsigned_eq_0_iff)
  have m: "sigval x mod 65536 mod 256 = sigval x mod 256" "sigval x mod 65536 mod 2 = sigval x mod 2"
    by (simp_all add: mod_mod_cancel)
  consider "n \<ge> 16" | "n < 16" "n \<ge> 8" | "n < 8" "n > 0" | "n = 0" by linarith
  then show ?case
  proof cases
    case 1
    then show ?thesis using "1.IH"(1) "1.prems" sticky_step [of 16 n "sigval x"] low
      by (simp add: eshift_dn.simps [of n lost x] sigval_eshdn6 z)
  next
    case 2
    then show ?thesis using "1.IH"(2) "1.prems" sticky_step [of 8 n "sigval x"] low m(1)
      by (simp add: eshift_dn.simps [of n lost x] sigval_eshdn8 z unat_and_ff)
  next
    case 3
    then show ?thesis using "1.IH"(3) "1.prems" sticky_step [of 1 n "sigval x"] low m(2)
      by (simp add: eshift_dn.simps [of n lost x] sigval_eshdn1 z unat_and_1 del: One_nat_def) 
  next
    case 4
    then show ?thesis using "1.prems" by (simp add: eshift_dn.simps [of 0 lost x])
  qed
qed

lemma eshift_correct:
  assumes "is_ei x" "eshift x sc = (lost, x')"
  shows "sc \<le> 0 \<Longrightarrow> sigval x' = sigval x div 2 ^ nat (- sc)"
    "sc \<le> 0 \<Longrightarrow> lost = (if sigval x mod 2 ^ nat (- sc) = 0 then 0 else 1)"
    "0 \<le> sc \<Longrightarrow> sigval x' = sigval x * 2 ^ nat sc mod SIG" "0 \<le> sc \<Longrightarrow> lost = 0"
    "is_ei x'" "take idxM x' = take idxM x"
proof -
  obtain l y where d: "eshift_dn (nat (- sc)) 0 x = (l, y)" by fastforce
  note dn = eshift_dn_correct [OF assms(1) d] and up = eshift_up_correct [OF assms(1), of "nat sc"]
  show "sc \<le> 0 \<Longrightarrow> sigval x' = sigval x div 2 ^ nat (- sc)"
    "sc \<le> 0 \<Longrightarrow> lost = (if sigval x mod 2 ^ nat (- sc) = 0 then 0 else 1)"
    "0 \<le> sc \<Longrightarrow> sigval x' = sigval x * 2 ^ nat sc mod SIG" "0 \<le> sc \<Longrightarrow> lost = 0"
    "is_ei x'" "take idxM x' = take idxM x"
    using assms d dn up sigval_less [OF assms(1)]
    by (auto simp: eshift_def Let_def split: if_splits)
qed

text \<open>Conditions on the leading word, as conditions on the value.\<close>

lemma and_ff00_iff: "((w :: u16) AND 0xff00 = 0) = (unat w < 256)"
proof -
  have "w AND push_bit 8 (mask 8) = push_bit 8 (drop_bit 8 w)"
    by (rule bit_word_eqI) (auto simp: bit_simps)
  also have "push_bit 8 (mask 8) = (0xff00 :: u16)" by (simp add: mask_eq_exp_minus_1)
  finally have "w AND 0xff00 = push_bit 8 (drop_bit 8 w)" .
  then have "unat (w AND 0xff00) = unat w div 256 * 256 mod 65536"
    by (simp only: unat_push_bit_u16 unat_drop_bit_16) simp
  also have "\<dots> = unat w div 256 * 256"
    using unat_u16_less [of w] by (intro mod_less) (metis div_times_less_eq_dividend order_le_less_trans)
  finally show ?thesis
    by (metis div_eq_0_iff mult_eq_0_iff unsigned_eq_0_iff zero_neq_numeral)
qed

text \<open>With an empty guard word the value is below \<open>2 ^ 96\<close> and its leading word tells its size.\<close>

lemma top_word_less_iff:
  assumes "is_ei x" "sigval x < LOW6" "k \<le> 16"
  shows "unat (x ! idxS) < 2 ^ k \<longleftrightarrow> sigval x < 2 ^ (80 + k)"
proof -
  have g: "x ! idxM = 0" using assms(1,2) guard_zero_iff by blast
  have "(2 :: nat) ^ (80 + k) = 2 ^ k * 65536 ^ 5" by (simp add: power_add)
  then show ?thesis
    unfolding top_word [OF assms(1) g] by (simp add: div_less_iff_less_mult)
qed

lemma lead_conditions:
  assumes "is_ei x" "sigval x < LOW6"
  shows "x ! idxS = 0 \<longleftrightarrow> sigval x < 2 ^ 80"
    "x ! idxS AND 0xff00 = 0 \<longleftrightarrow> sigval x < 2 ^ 88"
    "x ! idxS AND 0x8000 = 0 \<longleftrightarrow> sigval x < 2 ^ 95"
  using top_word_less_iff [OF assms, of 0] top_word_less_iff [OF assms, of 8]
    top_word_less_iff [OF assms, of 15] and_8000_iff [of "x ! idxS"] and_ff00_iff [of "x ! idxS"]
  by (auto simp: unsigned_eq_0_iff not_le)

text \<open>
  \<open>norm_post\<close>: what every loop of \<open>enormlz\<close> that shifts up achieves, from a count \<open>sc\<close> and an
  array \<open>x\<close> to a count \<open>sc'\<close> and an array \<open>x'\<close>.
\<close>

definition norm_post :: "int \<Rightarrow> u16 list \<Rightarrow> int \<Rightarrow> u16 list \<Rightarrow> bool" where
  "norm_post sc x sc' x' \<longleftrightarrow> is_ei x' \<and> take idxM x' = take idxM x \<and> sc \<le> sc' \<and> sigval x' < LOW6
     \<and> 2 ^ nat sc' \<le> sigval x' \<and> sigval x' = sigval x * 2 ^ nat (sc' - sc)"

lemma norm_post_refl:
  "is_ei x \<Longrightarrow> sigval x < LOW6 \<Longrightarrow> 2 ^ nat sc \<le> sigval x \<Longrightarrow> norm_post sc x sc x"
  by (simp add: norm_post_def)

lemma norm_post_trans:
  "norm_post sc x sc' x' \<Longrightarrow> norm_post sc' x' sc'' x'' \<Longrightarrow> norm_post sc x sc'' x''"
  by (auto simp: norm_post_def power_add [symmetric] nat_add_distrib [symmetric])

lemma norm_post_shift:
  assumes "is_ei x" "0 \<le> sc" "2 ^ nat sc \<le> sigval x" "sigval x * 2 ^ s < LOW6"
    and y: "is_ei y" "take idxM y = take idxM x" "sigval y = 2 ^ s * sigval x mod SIG"
  shows "norm_post sc x (sc + int s) y"
proof -
  have "2 ^ s * sigval x < SIG" using assms(4) by (simp add: mult.commute)
  then have v: "sigval y = sigval x * 2 ^ s" using y(3) by (simp add: mult.commute)
  have "2 ^ nat sc * 2 ^ s \<le> sigval x * (2 ^ s :: nat)" using assms(3) by simp
  then show ?thesis using assms(2,4) y(1,2)
    by (simp add: norm_post_def v nat_add_distrib power_add)
qed

lemma enormlz_up6_correct:
  "is_ei x \<Longrightarrow> sigval x < LOW6 \<Longrightarrow> 0 \<le> sc \<Longrightarrow> 16 dvd sc \<Longrightarrow> 2 ^ nat sc \<le> sigval x \<Longrightarrow>
   enormlz_up6 sc x = (ret, sc', x') \<Longrightarrow>
   \<not> ret \<and> norm_post sc x sc' x' \<and> 2 ^ 80 \<le> sigval x'"
proof (induction sc x rule: enormlz_up6.induct)
  case (1 sc x)
  note lead = lead_conditions [OF "1.prems"(1,2)]
  show ?case
  proof (cases "sigval x < 2 ^ 80")
    case True
    then have "nat sc < 80" using "1.prems"(5) by (metis le_less_trans power_less_imp_less_exp one_less_numeral_iff semiring_norm(76))
    then have "sc < 80" by simp
    then have sc: "sc + 16 \<le> 80" using "1.prems"(4) by presburger
    have post: "norm_post sc x (sc + int 16) (eshup6 x)"
      using "1.prems" True by (intro norm_post_shift) (simp_all add: sigval_eshup6)
    have "\<not> ret \<and> norm_post (sc + 16) (eshup6 x) sc' x' \<and> 2 ^ 80 \<le> sigval x'"
      using "1.IH" [OF _ refl refl] "1.prems"(3,4,6) True lead(1) sc post
      by (auto simp: norm_post_def enormlz_up6.simps [of sc x])
    then show ?thesis using norm_post_trans [OF post] by simp
  next
    case False
    then show ?thesis using "1.prems" lead(1)
      by (auto simp: enormlz_up6.simps [of sc x] intro: norm_post_refl)
  qed
qed

lemma enormlz_up6_zero:
  "is_ei x \<Longrightarrow> sigval x = 0 \<Longrightarrow> sc \<le> NBITS \<Longrightarrow> 16 dvd sc \<Longrightarrow> enormlz_up6 sc x = (ret, sc', x') \<Longrightarrow>
   ret \<and> sc' = 96 \<and> sigval x' = 0 \<and> is_ei x' \<and> take idxM x' = take idxM x"
proof (induction sc x rule: enormlz_up6.induct)
  case (1 sc x)
  have z: "x ! idxS = 0" using lead_conditions(1) [OF "1.prems"(1)] "1.prems"(2) by simp
  have s: "sigval (eshup6 x) = 0" using sigval_eshup6 [OF "1.prems"(1)] "1.prems"(2) by simp
  show ?case
  proof (cases "sc + 16 > NBITS")
    case True
    then have "sc = 80" using "1.prems"(3,4) by presburger
    then show ?thesis using "1.prems" z s by (auto simp: enormlz_up6.simps [of 80 x] Let_def)
  next
    case False
    then show ?thesis using "1.IH" [OF z refl refl] "1.prems" z s
      by (auto simp: enormlz_up6.simps [of sc x] Let_def)
  qed
qed

lemma enormlz_up8_exit:
  assumes "is_ei x" "sigval x < LOW6" "0 \<le> sc" "2 ^ nat sc \<le> sigval x" "2 ^ 80 \<le> sigval x"
    and "enormlz_up8 2 sc x = (sc', x')"
  shows "norm_post sc x sc' x' \<and> 2 ^ 88 \<le> sigval x' \<and> \<not> x' ! idxS AND 0xff00 = 0"
proof -
  note lead = lead_conditions [OF assms(1,2)]
  show ?thesis
  proof (cases "sigval x < 2 ^ 88")
    case True
    then have post: "norm_post sc x (sc + int 8) (eshup8 x)"
      using assms by (intro norm_post_shift) (simp_all add: sigval_eshup8)
    moreover from this have big: "2 ^ 88 \<le> sigval (eshup8 x)"
      using assms(5) by (simp add: norm_post_def)
    moreover have "\<not> eshup8 x ! idxS AND 0xff00 = 0"
      using lead_conditions(2) [of "eshup8 x"] post big by (simp add: norm_post_def)
    ultimately show ?thesis using assms(6) True lead(2) by (simp add: numeral_2_eq_2)
  next
    case False
    then show ?thesis using assms lead(2) by (auto simp: numeral_2_eq_2 intro: norm_post_refl)
  qed
qed

lemma enormlz_up1_correct:
  "is_ei x \<Longrightarrow> sigval x < LOW6 \<Longrightarrow> 0 \<le> sc \<Longrightarrow> 2 ^ nat sc \<le> sigval x \<Longrightarrow>
   enormlz_up1 sc x = (sc', x') \<Longrightarrow> norm_post sc x sc' x' \<and> 2 ^ 95 \<le> sigval x'"
proof (induction sc x rule: enormlz_up1.induct)
  case (1 sc x)
  note lead = lead_conditions [OF "1.prems"(1,2)]
  show ?case
  proof (cases "sigval x < 2 ^ 95")
    case True
    then have "nat sc < 95" using "1.prems"(4) by (metis le_less_trans power_less_imp_less_exp one_less_numeral_iff semiring_norm(76))
    then have sc: "sc + 1 \<le> 95" by linarith
    have post: "norm_post sc x (sc + int 1) (eshup1 x)"
      using "1.prems" True by (intro norm_post_shift) (simp_all add: sigval_eshup1)
    have "norm_post (sc + 1) (eshup1 x) sc' x' \<and> 2 ^ 95 \<le> sigval x'"
      using "1.IH" [OF _ refl refl] "1.prems"(3,5) True lead(3) sc post
      by (auto simp: norm_post_def enormlz_up1.simps [of sc x])
    then show ?thesis using norm_post_trans [OF post] by simp
  next
    case False
    then show ?thesis using "1.prems" lead(3)
      by (auto simp: enormlz_up1.simps [of sc x] intro: norm_post_refl)
  qed
qed

lemma enormlz_dn1_correct:
  "is_ei x \<Longrightarrow> sc \<le> 0 \<Longrightarrow> - 16 \<le> sc \<Longrightarrow> 2 ^ 95 \<le> sigval x \<Longrightarrow> sigval x < 2 ^ nat (112 + sc) \<Longrightarrow>
   enormlz_dn1 sc x = (sc', x') \<Longrightarrow>
   is_ei x' \<and> take idxM x' = take idxM x \<and> - 16 \<le> sc' \<and> sc' \<le> sc \<and> 2 ^ 95 \<le> sigval x' \<and> sigval x' < LOW6
     \<and> sigval x' = sigval x div 2 ^ nat (sc - sc')"
proof (induction sc x rule: enormlz_dn1.induct)
  case (1 sc x)
  show ?case
  proof (cases "sigval x < LOW6")
    case True
    then have "x ! idxM = 0" using guard_zero_iff [OF "1.prems"(1)] by simp
    then show ?thesis using "1.prems" True by (simp add: enormlz_dn1.simps [of sc x])
  next
    case False
    then have g: "x ! idxM \<noteq> 0" using guard_zero_iff [OF "1.prems"(1)] by simp
    have big: "2 ^ 96 \<le> sigval x" using False by simp
    with "1.prems"(5) have "(2::nat) ^ 96 < 2 ^ nat (112 + sc)" by linarith
    then have "96 < nat (112 + sc)" by (rule power_less_imp_less_exp [rotated]) simp
    then have sc: "- 16 < sc" "nat (112 + sc) = Suc (nat (111 + sc))" by linarith+
    have half: "sigval (eshdn1 x) = sigval x div 2" using sigval_eshdn1 "1.prems"(1) by simp
    have lt: "sigval x div 2 < 2 ^ nat (111 + sc)"
      using "1.prems"(5) unfolding sc(2) by simp
    have ge: "2 ^ 95 \<le> sigval x div 2" using big by simp
    have "is_ei x' \<and> take idxM x' = take idxM (eshdn1 x) \<and> - 16 \<le> sc' \<and> sc' \<le> sc - 1 \<and> 2 ^ 95 \<le> sigval x'
        \<and> sigval x' < LOW6 \<and> sigval x' = sigval (eshdn1 x) div 2 ^ nat (sc - 1 - sc')"
      using "1.IH" [OF g refl refl] "1.prems"(1,2,6) sc(1) g half ge lt
      by (simp add: enormlz_dn1.simps [of sc x] Let_def)
    moreover from this have "nat (sc - sc') = Suc (nat (sc - 1 - sc'))" by linarith
    ultimately show ?thesis using "1.prems"(1) half
      by (simp add: div_mult2_eq)
  qed
qed

text \<open>
  Normalisation: a nonzero significand comes out with its top bit in the top bit of the
  first significand word, and the count returned is the number of places it moved (down,
  losing low bits, when the high guard word was in use). A zero significand gives 96.
\<close>

lemma enormlz_up:
  assumes "is_ei x" "sigval x < LOW6" "0 < sigval x" "enormlz x = (sc, x')"
  shows "norm_post 0 x sc x'" "2 ^ 95 \<le> sigval x'"
proof -
  have g: "x ! idxM = 0" using assms(1,2) guard_zero_iff by simp
  note lead = lead_conditions [OF assms(1,2)]
  have "norm_post 0 x sc x' \<and> 2 ^ 95 \<le> sigval x'"
  proof (cases "sigval x < 2 ^ 95")
    case False
    then show ?thesis using assms g lead(3)
      by (auto simp: enormlz_def Let_def intro!: norm_post_refl)
  next
    case True
    obtain r s1 x1 where e1: "enormlz_up6 0 x = (r, s1, x1)" by (metis prod_cases3)
    have p1: "\<not> r" "norm_post 0 x s1 x1" "2 ^ 80 \<le> sigval x1"
      using enormlz_up6_correct [OF assms(1,2) _ _ _ e1] assms(3) by simp_all
    obtain s2 x2 where e2: "enormlz_up8 2 s1 x1 = (s2, x2)" by fastforce
    have p2: "norm_post s1 x1 s2 x2"
      using enormlz_up8_exit [OF _ _ _ _ _ e2] p1(2,3) assms(3) by (simp add: norm_post_def)
    have e3: "enormlz_up1 s2 x2 = (sc, x')"
      using assms(4) g True lead(3) e1 e2 p1(1) by (simp add: enormlz_def Let_def)
    have "norm_post s2 x2 sc x' \<and> 2 ^ 95 \<le> sigval x'"
      using enormlz_up1_correct [OF _ _ _ _ e3] p1(2) p2 by (simp add: norm_post_def)
    then show ?thesis using norm_post_trans [OF p1(2) norm_post_trans [OF p2]] by simp
  qed
  then show "norm_post 0 x sc x'" "2 ^ 95 \<le> sigval x'" by simp_all
qed

lemma enormlz_zero:
  assumes "is_ei x" "sigval x = 0" "enormlz x = (sc, x')"
  shows "sc = 96" "sigval x' = 0" "is_ei x'" "take idxM x' = take idxM x"
proof -
  have g: "x ! idxM = 0" "x ! idxS AND 0x8000 = 0"
    using assms(1,2) guard_zero_iff lead_conditions(1,3) [OF assms(1)] by simp_all
  obtain r s1 x1 where e1: "enormlz_up6 0 x = (r, s1, x1)" by (metis prod_cases3)
  show "sc = 96" "sigval x' = 0" "is_ei x'" "take idxM x' = take idxM x"
    using enormlz_up6_zero [OF assms(1,2) _ _ e1] assms(3) e1 g
    by (simp_all add: enormlz_def Let_def)
qed

lemma enormlz_down:
  assumes "is_ei x" "LOW6 \<le> sigval x" "enormlz x = (sc, x')"
  shows "is_ei x'" "take idxM x' = take idxM x" "- 16 \<le> sc" "sc < 0"
    "2 ^ 95 \<le> sigval x'" "sigval x' < LOW6" "sigval x' = sigval x div 2 ^ nat (- sc)"
proof -
  have g: "x ! idxM \<noteq> 0" using assms(1,2) guard_zero_iff [OF assms(1)] by simp
  have lt: "sigval x < 2 ^ 112" using sigval_less [OF assms(1)] by simp
  have gt: "sigval x div 65536 ^ 6 = unat (x ! idxM)"
    using lowval_less [OF assms(1)] by (simp add: sigval_lowval [OF assms(1)] div_add1_eq)
  have "is_ei x' \<and> take idxM x' = take idxM x \<and> - 16 \<le> sc \<and> sc < 0 \<and> 2 ^ 95 \<le> sigval x' \<and> sigval x' < LOW6
      \<and> sigval x' = sigval x div 2 ^ nat (- sc)"
  proof (cases "unat (x ! idxM) < 256")
    case True
    then have e: "enormlz_dn1 0 x = (sc, x')"
      using assms(3) g and_ff00_iff by (simp add: enormlz_def)
    have dn: "is_ei x' \<and> take idxM x' = take idxM x \<and> - 16 \<le> sc \<and> sc \<le> 0 \<and> 2 ^ 95 \<le> sigval x'
        \<and> sigval x' < LOW6 \<and> sigval x' = sigval x div 2 ^ nat (0 - sc)"
      by (rule enormlz_dn1_correct [OF assms(1) _ _ _ _ e]) (use assms(2) lt in simp_all)
    then have "sc \<noteq> 0" using assms(2) by auto
    then show ?thesis using dn by simp
  next
    case False
    then have e: "enormlz_dn1 (- 8) (eshdn8 x) = (sc, x')"
      using assms(3) g and_ff00_iff by (simp add: enormlz_def)
    have v: "sigval (eshdn8 x) = sigval x div 256" by (simp add: sigval_eshdn8 assms(1))
    have "256 * LOW6 \<le> unat (x ! idxM) * LOW6"
      using False by (intro mult_le_mono1) simp
    then have "256 * LOW6 \<le> sigval x" using sigval_lowval [OF assms(1)] by linarith
    then have ge: "2 ^ 95 \<le> sigval x div 256" by simp
    have lt': "sigval x div 256 < 2 ^ nat (112 + - 8)" using lt by simp
    have dn: "is_ei x' \<and> take idxM x' = take idxM (eshdn8 x) \<and> - 16 \<le> sc \<and> sc \<le> - 8 \<and> 2 ^ 95 \<le> sigval x'
        \<and> sigval x' < LOW6 \<and> sigval x' = sigval (eshdn8 x) div 2 ^ nat (- 8 - sc)"
      by (rule enormlz_dn1_correct [OF _ _ _ _ _ e]) (use ge lt' assms(1) v in simp_all)
    then have "nat (- sc) = 8 + nat (- 8 - sc)" by linarith
    then have "sigval x div 256 div 2 ^ nat (- 8 - sc) = sigval x div 2 ^ nat (- sc)"
      by (simp add: power_add div_mult2_eq)
    then show ?thesis using dn assms(1) v by simp
  qed
  then show "is_ei x'" "take idxM x' = take idxM x" "- 16 \<le> sc" "sc < 0"
    "2 ^ 95 \<le> sigval x'" "sigval x' < LOW6" "sigval x' = sigval x div 2 ^ nat (- sc)"
    by simp_all
qed

end
