(* ===== verification/Emath_Round.thy ===== *)
theory Emath_Round
  imports Emath_Arith
begin

text \<open>
  Rounding, multiplication, comparison and the conversion to the 80 bit format
  (\<open>emdnorm\<close>, \<open>emul\<close>, \<open>ecmp\<close> and \<open>toe64\<close> of \<open>mingwex/math/cephes_emath.c\<close>).

  The main results: \<open>emdnorm\<close> rounds a normal number to nearest with ties to even (the sticky
  flag and the subtraction flag deciding a tie), \<open>emul\<close> returns the correctly rounded product,
  and \<open>ecmp\<close> orders external numbers as their values are ordered.
\<close>

section \<open>Normalise and round off\<close>

text \<open>
  \<open>rw\<close> is the word that holds the bits below the rounding place, \<open>re\<close> the word above it,
  \<open>rbit\<close> the unit in the last place kept.
\<close>

definition emdnorm_round :: "u16 list \<Rightarrow> int \<Rightarrow> int \<Rightarrow> int \<Rightarrow> int \<Rightarrow> u16 list \<times> int" where
  "emdnorm_round s lost subflg exp rndprc =
     (let rw = (if rndprc = 64 then 7 else NI - 1);
          re = (if rndprc = 64 then 6 else NI - 2);
          rbit = (if rndprc = 64 then [0,0,0,0,0,0,1,0,0] else [0,0,0,0,0,0,0,1,0]);
          denorm = (exp \<le> 0 \<and> rndprc \<noteq> NBITS);
          lost = (if denorm then lost OR uint (s ! (NI - 1) AND 1) else lost);
          s = (if denorm then eshdn1 s else s);
          r = s ! rw AND 0xffff;
          r = (if rndprc < NBITS \<and> list_ex (\<lambda>i. s ! i \<noteq> 0) [rw + 1..<NI] then r OR 1 else r);
          s = (if rndprc < NBITS then take (rw + 1) s @ replicate (NI - (rw + 1)) 0 else s);
          s = s[rw := s ! rw AND NOT 0xffff];
          add = (if r AND 0x8000 \<noteq> 0
                 then if r = 0x8000
                      then if lost = 0 then s ! re AND 1 \<noteq> 0 else subflg = 0
                      else True
                 else False);
          s = (if add then eaddm rbit s else s);
          s = (if denorm then eshup1 s else s)
      in if s ! 2 \<noteq> 0 then (eshdn1 s, exp + 1) else (s, exp))"

definition emdnorm_fin :: "u16 list \<Rightarrow> int \<Rightarrow> u16 list" where
  "emdnorm_fin s exp =
     (let s = s[NI - 1 := 0]
      in if exp \<ge> 32767
         then take 1 s @ [32767] @ replicate (NI - 3) 0 @ drop (NI - 1) s
         else if exp < 0 then s[1 := 0] else s[1 := word_of_int exp])"

definition emdnorm :: "u16 list \<Rightarrow> int \<Rightarrow> int \<Rightarrow> int \<Rightarrow> int \<Rightarrow> int \<Rightarrow> u16 list" where
  "emdnorm s lost subflg exp rcntrl rndprc =
     (let (j, s) = enormlz s; exp = exp - j
      in if j > NBITS \<and> exp < 32767 then ecleazs s
         else if exp < 0 \<and> \<not> exp > - NBITS - 1 then ecleazs s
         else let (i, s) = (if exp < 0 then eshift s exp else (0, s));
                  lost = (if i \<noteq> 0 then 1 else lost);
                  (s, exp) = (if rcntrl = 0 then (s, exp)
                              else emdnorm_round s lost subflg exp rndprc)
              in emdnorm_fin s exp)"

section \<open>Multiplication of external numbers\<close>

text \<open>
  The test for zero times infinity applies the internal-format test \<open>eiiszero\<close> to the external
  operands, words 1 to 7 of arrays of six; the lists model the memory at the two pointers.
\<close>

definition emul :: "u16 list \<Rightarrow> u16 list \<Rightarrow> u16 list \<Rightarrow> u16 list" where
  "emul a b c =
     (if eisnan a then emov a c
      else if eisnan b then emov b c
      else if eisinf a \<and> eiiszero b \<or> eisinf b \<and> eiiszero a then enan_NBITS c
      else if eisinf a \<or> eisinf b
           then einfin (c[NE - 1 := (if eisneg a \<noteq> eisneg b then 0x8000 else 0)])
      else let ai = emovi 0 a; bi = emovi 0 b;
               lta = uint (ai ! idxE); ltb = uint (bi ! idxE)
           in if ai ! idxE = 0 \<and> list_all (\<lambda>i. ai ! i = 0) [1..<NI - 1] then eclear c
              else let (k, ai) = (if ai ! idxE = 0 then enormlz ai else (0, ai));
                       lta = lta - k
                   in if bi ! idxE = 0 \<and> list_all (\<lambda>i. bi ! i = 0) [1..<NI - 1] then eclear c
                      else let (k, bi) = (if bi ! idxE = 0 then enormlz bi else (0, bi));
                               ltb = ltb - k;
                               (j, bi) = emulm ai bi;
                               lt = lta + ltb - (EXONE - 1);
                               bi = emdnorm bi j 0 lt 64 NBITS;
                               bi = bi[0 := (if ai ! 0 = bi ! 0 then 0 else 0xffff)]
                           in emovo bi c)"

section \<open>Conversion to the 80 bit format\<close>

text \<open>
  The result is the new contents of \<open>b\<close>, six words. For a NaN the code calls \<open>enan_64\<close>,
  which stores nothing.
\<close>

definition toe64 :: "u16 list \<Rightarrow> u16 list \<Rightarrow> u16 list" where
  "toe64 a b =
     (if eiisnan a then enan_64 b
      else let a = (if a ! idxE = 0 then eshdn1 a else a);
               ex = (if a ! 0 \<noteq> 0 then a ! idxE OR 0x8000 else a ! idxE)
           in if eiisinf a then [0, 0, 0, 0x8000, ex, 0]
              else rev (take 4 (drop idxS a)) @ [ex, 0])"

section \<open>Comparison of external numbers\<close>

fun ecmp_words :: "int \<Rightarrow> u16 list \<Rightarrow> u16 list \<Rightarrow> int" where
  "ecmp_words msign (p # ps) (q # qs) =
     (if p \<noteq> q then if p > q then msign else - msign else ecmp_words msign ps qs)"
| "ecmp_words msign _ _ = 0"

definition ecmp :: "u16 list \<Rightarrow> u16 list \<Rightarrow> int" where
  "ecmp a b =
     (if eisnan a \<or> eisnan b then - 2
      else let ai = emovi 0 a; bi = emovi 0 b
           in if ai ! 0 \<noteq> bi ! 0
              then if list_all (\<lambda>i. ai ! i = 0 \<and> bi ! i = 0) [1..<NI - 1] then 0
                   else if ai ! 0 = 0 then 1 else - 1
              else let msign = (if ai ! 0 = 0 then 1 else - 1)
                   in ecmp_words msign (take (NI - 1) ai) (take (NI - 1) bi))"

section \<open>Rounding to nearest, ties to even\<close>

text \<open>
  \<open>round_up N k tie\<close>: whether dropping the low \<open>k\<close> bits of \<open>N\<close> rounds away; \<open>rne N k\<close> is
  \<open>N / 2 ^ k\<close> rounded to nearest even.
\<close>

definition round_up :: "nat \<Rightarrow> nat \<Rightarrow> bool \<Rightarrow> bool" where
  "round_up N k tie \<longleftrightarrow> 2 ^ k < 2 * (N mod 2 ^ k) \<or> 2 ^ k = 2 * (N mod 2 ^ k) \<and> tie"

definition round_by :: "nat \<Rightarrow> nat \<Rightarrow> bool \<Rightarrow> nat" where
  "round_by N k tie = N div 2 ^ k + of_bool (round_up N k tie)"

definition rne :: "nat \<Rightarrow> nat \<Rightarrow> nat" where
  "rne N k = round_by N k (odd (N div 2 ^ k))"

text \<open>A word below the rounding place decides like the whole tail.\<close>

lemma round_word_iff:
  "(if (r :: u16) AND 0x8000 \<noteq> 0 then if r = 0x8000 then tie else True else False)
     \<longleftrightarrow> 65536 < 2 * unat r \<or> 65536 = 2 * unat r \<and> tie"
proof -
  have "r = 0x8000 \<longleftrightarrow> unat r = 32768" by (simp add: word_unat_eq_iff)
  then show ?thesis by (simp add: and_8000_iff)
qed

lemma unat_or_1: "unat ((h :: u16) OR 1) = (if odd (unat h) then unat h else unat h + 1)"
proof -
  have "unat (h OR 1) = unat h OR unat (1 :: u16)" by (rule unsigned_or_eq)
  also have "\<dots> = unat h + of_bool (even (unat h))" by (simp only: unsigned_1 or_one_eq)
  finally show ?thesis by simp
qed

lemma ei_cases:
  assumes "is_ei s"
  obtains a b c d e f g h i where "s = [a, b, c, d, e, f, g, h, i]"
proof -
  from assms have "length s = Suc (Suc (Suc (Suc (Suc (Suc (Suc (Suc (Suc 0))))))))"
    by (simp add: is_ei_def)
  then show ?thesis using that by (auto simp only: length_Suc_conv length_0_conv)
qed

lemma tail16:
  assumes "is_ei s"
  shows "unat (s ! 8) = sigval s mod 65536" "odd (unat (s ! 7)) = odd (sigval s div 65536)"
    "sigval (s[8 := 0]) = sigval s div 65536 * 65536"
proof -
  obtain a b c d e f g h i where s: "s = [a, b, c, d, e, f, g, h, i]" using assms ei_cases by blast
  define Y where "Y = wval [c, d, e, f, g]"
  define Z where "Z = 65536 * Y + unat h"
  have N: "sigval s = unat i + 65536 * Z"
    by (simp add: s sigval_def Y_def Z_def algebra_simps)
  have Z: "odd Z = odd (unat h)" by (simp add: Z_def)
  have dm: "sigval s mod 65536 = unat i" "sigval s div 65536 = Z"
    unfolding N by simp_all
  show "unat (s ! 8) = sigval s mod 65536" "odd (unat (s ! 7)) = odd (sigval s div 65536)"
    unfolding dm Z by (simp_all add: s)
  show "sigval (s[8 := 0]) = sigval s div 65536 * 65536"
    unfolding dm by (simp add: s sigval_def Y_def Z_def algebra_simps)
qed

lemma tail32:
  assumes "is_ei s"
  shows "unat (s ! 7) * 65536 + unat (s ! 8) = sigval s mod 2 ^ 32"
    "odd (unat (s ! 6)) = odd (sigval s div 2 ^ 32)"
    "sigval ((s[8 := 0])[7 := 0]) = sigval s div 2 ^ 32 * 2 ^ 32"
proof -
  obtain a b c d e f g h i where s: "s = [a, b, c, d, e, f, g, h, i]" using assms ei_cases by blast
  define Y where "Y = wval [c, d, e, f]"
  define t where "t = unat h * 65536 + unat i"
  define Z where "Z = 65536 * Y + unat g"
  have N: "sigval s = t + 2 ^ 32 * Z"
    by (simp add: s sigval_def Y_def Z_def t_def algebra_simps)
  have Z: "odd Z = odd (unat g)" by (simp add: Z_def)
  have "t < 4294967296" using unat_u16_less [of h] unat_u16_less [of i] unfolding t_def by linarith
  then have t: "t < 2 ^ 32" by simp
  have dm: "sigval s mod 2 ^ 32 = t" "sigval s div 2 ^ 32 = Z"
    unfolding N using t by auto
  show "unat (s ! 7) * 65536 + unat (s ! 8) = sigval s mod 2 ^ 32"
    "odd (unat (s ! 6)) = odd (sigval s div 2 ^ 32)"
    unfolding dm Z by (simp_all add: s t_def)
  show "sigval ((s[8 := 0])[7 := 0]) = sigval s div 2 ^ 32 * 2 ^ 32"
    unfolding dm by (simp add: s sigval_def Y_def Z_def algebra_simps)
qed

lemma round_tail32:
  fixes h i :: u16 and tie :: bool
  defines "r \<equiv> (if i \<noteq> 0 then h OR 1 else h)"
  shows "(65536 < 2 * unat r \<or> 65536 = 2 * unat r \<and> tie) \<longleftrightarrow>
    (2 ^ 32 < 2 * (unat h * 65536 + unat i) \<or> 2 ^ 32 = 2 * (unat h * 65536 + unat i) \<and> tie)"
proof (cases "i = 0")
  case True
  then show ?thesis by (simp add: r_def)
next
  case False
  then have i: "0 < unat i" "unat i < 65536" by (simp_all add: unat_gt_0)
  have r: "unat r = (if odd (unat h) then unat h else unat h + 1)"
    using False by (simp add: r_def unat_or_1)
  have n: "unat r \<noteq> 32768" unfolding r by auto
  have g: "32768 < unat r \<longleftrightarrow> 32768 \<le> unat h" unfolding r by (cases "unat h = 32768") auto
  have g': "2147483648 < unat h * 65536 + unat i \<longleftrightarrow> 32768 \<le> unat h"
    using i by (auto simp del: unat_u16_less)
  have n': "2147483648 \<noteq> unat h * 65536 + unat i"
    using i by (cases "32768 \<le> unat h") linarith+
  have "(65536 < 2 * unat r \<or> 65536 = 2 * unat r \<and> tie) \<longleftrightarrow> 32768 \<le> unat h"
    using n g by auto
  moreover have "(2 ^ 32 < 2 * (unat h * 65536 + unat i)
      \<or> 2 ^ 32 = 2 * (unat h * 65536 + unat i) \<and> tie) \<longleftrightarrow> 32768 \<le> unat h"
    using n' g' by auto
  ultimately show ?thesis by simp
qed

lemma and_ffff: "(x :: u16) AND 0xffff = x"
proof -
  have "(0xffff :: u16) = - 1" by simp
  then show ?thesis by (simp only: and.right_neutral)
qed

lemma and_not_ffff: "(x :: u16) AND - 65536 = 0"
proof -
  have "(- 65536 :: u16) = 0" by simp
  then show ?thesis by (simp only: and_zero_eq)
qed

text \<open>Adding one unit of the last place kept.\<close>

lemma sigval_add_unit:
  assumes "is_ei s" "is_ei u" "sigval u = 2 ^ k" "sigval s = M * 2 ^ k" "sigval s < LOW6" "k \<le> 32"
  shows "is_ei (if b then eaddm u s else s)"
    "take idxM (if b then eaddm u s else s) = take idxM s"
    "sigval (if b then eaddm u s else s) = (M + of_bool b) * 2 ^ k"
proof -
  have "(2 :: nat) ^ k \<le> 2 ^ 32" using assms(6) by (intro power_increasing) simp_all
  then have "2 ^ k + sigval s < SIG" using assms(5) by simp
  then have "(2 ^ k + sigval s) mod SIG = 2 ^ k + sigval s" by (rule mod_less)
  then show "sigval (if b then eaddm u s else s) = (M + of_bool b) * 2 ^ k"
    using sigval_eaddm [OF assms(2,1)] assms(3,4) by simp
qed (use assms in simp_all)

text \<open>The exponent adjustment after a carry out of the significand.\<close>

lemma renorm_carry:
  assumes "is_ei s" "sigval s \<le> LOW6"
  shows "(if s ! idxM \<noteq> 0 then (eshdn1 s, e + 1) else (s, e)) =
    (if sigval s < LOW6 then (s, e) else (eshdn1 s, e + 1))"
  using guard_zero_iff [OF assms(1)] by auto

lemma round_by_le:
  assumes "N < 2 ^ m" "k \<le> m"
  shows "round_by N k tie * 2 ^ k \<le> 2 ^ m"
proof -
  have "N < 2 ^ (m - k) * 2 ^ k" using assms by (simp flip: power_add)
  then have "N div 2 ^ k < 2 ^ (m - k)" by (rule less_mult_imp_div_less)
  then have "round_by N k tie \<le> 2 ^ (m - k)" by (simp add: round_by_def)
  then have "round_by N k tie * 2 ^ k \<le> 2 ^ (m - k) * 2 ^ k" by (rule mult_le_mono1)
  then show ?thesis using assms(2) by (simp flip: power_add)
qed

text \<open>
  The value part of \<open>emdnorm_round\<close>, for a normal result: the kept part of the significand is
  rounded to nearest; on a tie the discarded remainder (\<open>lost\<close>) or else evenness decides.
\<close>

definition tie_up :: "nat \<Rightarrow> nat \<Rightarrow> int \<Rightarrow> int \<Rightarrow> bool" where
  "tie_up N k lost subflg = (if lost = 0 then odd (N div 2 ^ k) else subflg = 0)"

lemma emdnorm_round_80:
  fixes lost subflg :: int
  assumes s: "is_ei s" "sigval s < LOW6"
  defines "t \<equiv> tie_up (sigval s) 16 lost subflg"
  defines "s1 \<equiv> s[8 := 0]"
  defines "s2 \<equiv> (if round_up (sigval s) 16 t then eaddm [0,0,0,0,0,0,0,1,0] s1 else s1)"
  shows "emdnorm_round s lost subflg e 80 =
      (if s2 ! idxM \<noteq> 0 then (eshdn1 s2, e + 1) else (s2, e))"
    "is_ei s2" "take idxM s2 = take idxM s" "sigval s2 = round_by (sigval s) 16 t * 2 ^ 16"
proof -
  note t16 = tail16 [OF s(1)]
  have up: "(if s ! 8 AND 0x8000 \<noteq> 0 then if s ! 8 = 0x8000 then
       if lost = 0 then s ! 7 AND 1 \<noteq> 0 else subflg = 0 else True else False) = round_up (sigval s) 16 t"
    unfolding round_word_iff and_1_iff t16(1,2) round_up_def t_def tie_up_def by simp
  show "emdnorm_round s lost subflg e 80 = (if s2 ! idxM \<noteq> 0 then (eshdn1 s2, e + 1) else (s2, e))"
    unfolding s2_def s1_def up [symmetric] emdnorm_round_def Let_def
    by (simp add: and_ffff and_not_ffff)
  have u: "is_ei [0,0,0,0,0,0,0,1,0]" "sigval [0,0,0,0,0,0,0,1,0] = 2 ^ 16"
    by (simp_all add: is_ei_def sigval_def)
  have "sigval s1 \<le> sigval s" unfolding s1_def t16(3) by (rule div_times_less_eq_dividend)
  then have lt: "sigval s1 < LOW6" using s(2) by (rule le_less_trans)
  have s1: "is_ei s1" "sigval s1 = sigval s div 2 ^ 16 * 2 ^ 16" "take idxM s1 = take idxM s"
    using s(1) t16(3) by (simp_all add: s1_def is_ei_def)
  note a = sigval_add_unit [OF s1(1) u s1(2) lt, of "round_up (sigval s) 16 t"]
  show "is_ei s2" "take idxM s2 = take idxM s" "sigval s2 = round_by (sigval s) 16 t * 2 ^ 16"
    unfolding s2_def round_by_def using a s1(3) by simp_all
qed

lemma emdnorm_round_64:
  fixes lost subflg :: int
  assumes s: "is_ei s" "sigval s < LOW6" and e: "0 < e"
  defines "t \<equiv> tie_up (sigval s) 32 lost subflg"
  defines "s1 \<equiv> s[8 := 0, 7 := 0]"
  defines "s2 \<equiv> (if round_up (sigval s) 32 t then eaddm [0,0,0,0,0,0,1,0,0] s1 else s1)"
  shows "emdnorm_round s lost subflg e 64 =
      (if s2 ! idxM \<noteq> 0 then (eshdn1 s2, e + 1) else (s2, e))"
    "is_ei s2" "take idxM s2 = take idxM s" "sigval s2 = round_by (sigval s) 32 t * 2 ^ 32"
proof -
  note t32 = tail32 [OF s(1)]
  define r where "r = (if s ! 8 \<noteq> 0 then s ! 7 OR 1 else s ! 7)"
  have up: "(if r AND 0x8000 \<noteq> 0 then if r = 0x8000 then
       if lost = 0 then s ! 6 AND 1 \<noteq> 0 else subflg = 0 else True else False) = round_up (sigval s) 32 t"
    unfolding round_word_iff and_1_iff r_def round_tail32 t32(1,2) round_up_def t_def tie_up_def by simp
  have upd: "take 8 s @ [0] = s[8 := 0]"
    using s(1) by (auto elim!: ei_cases)
  have c: "(e \<le> 0 \<and> (64 :: int) \<noteq> 80) = False" "((64 :: int) = 64) = True" "((64 :: int) < 80) = True"
    "[(7 :: nat) + 1..<9] = [8]"
    using e by (simp_all add: upt_rec)
  have "emdnorm_round s lost subflg e 64 = (if s2 ! idxM \<noteq> 0 then (eshdn1 s2, e + 1) else (s2, e))
     \<longleftrightarrow> True"
    unfolding s2_def s1_def up [symmetric] emdnorm_round_def Let_def r_def
    using s(1) by (simp only: c if_True if_False HOL.simp_thms)
      (simp add: and_ffff and_not_ffff upd is_ei_def split del: if_split cong: if_cong)
  then show "emdnorm_round s lost subflg e 64 = (if s2 ! idxM \<noteq> 0 then (eshdn1 s2, e + 1) else (s2, e))"
    by simp
  have u: "is_ei [0,0,0,0,0,0,1,0,0]" "sigval [0,0,0,0,0,0,1,0,0] = 2 ^ 32"
    by (simp_all add: is_ei_def sigval_def)
  have "sigval s1 \<le> sigval s" unfolding s1_def t32(3) by (rule div_times_less_eq_dividend)
  then have lt: "sigval s1 < LOW6" using s(2) by (rule le_less_trans)
  have s1: "is_ei s1" "sigval s1 = sigval s div 2 ^ 32 * 2 ^ 32" "take idxM s1 = take idxM s"
    using s(1) t32(3) by (simp_all add: s1_def is_ei_def)
  note a = sigval_add_unit [OF s1(1) u s1(2) lt, of "round_up (sigval s) 32 t"]
  show "is_ei s2" "take idxM s2 = take idxM s" "sigval s2 = round_by (sigval s) 32 t * 2 ^ 32"
    unfolding s2_def round_by_def using a s1(3) by simp_all
qed

text \<open>
  A normalised significand \<open>R = M * 2 ^ k\<close> after rounding; the carry out of the top bit leaves
  the power of two one place lower and raises the exponent.
\<close>

lemma round_carry:
  assumes s: "is_ei s" "sigval s = M * 2 ^ k" "M * 2 ^ k \<le> LOW6" "16 \<le> k" "k \<le> 80"
    and r: "(if s ! idxM \<noteq> 0 then (eshdn1 s, e + 1) else (s, e)) = (s', e')"
  defines "c \<equiv> (M = 2 ^ (96 - k))"
  shows "is_ei s'" "take idxM s' = take idxM s" "s' ! idxM = 0" "s' ! 8 = 0"
    "sigval s' = (if c then 2 ^ 95 else M * 2 ^ k)" "e' = (if c then e + 1 else e)"
proof -
  have L: "2 ^ (96 - k) * 2 ^ k = LOW6" using s(5) by (simp flip: power_add)
  have c: "c \<longleftrightarrow> \<not> sigval s < LOW6"
  proof
    show "\<not> sigval s < LOW6" if c using that L s(2) by (simp add: c_def)
    show c if "\<not> sigval s < LOW6"
    proof -
      have "M * 2 ^ k = 2 ^ (96 - k) * 2 ^ k" using that s(2,3) L by linarith
      then show c by (simp only: c_def) simp
    qed
  qed
  have p: "(s', e') = (if c then (eshdn1 s, e + 1) else (s, e))"
    using r guard_zero_iff [OF s(1)] c by simp
  have v: "sigval s' = (if c then 2 ^ 95 else M * 2 ^ k)"
  proof (cases c)
    case True
    then have "sigval s = LOW6" using c s(2,3) by linarith
    then show ?thesis using p True sigval_eshdn1 [OF s(1)] by simp
  next
    case False
    then show ?thesis using p s(2) by simp
  qed
  then show "sigval s' = (if c then 2 ^ 95 else M * 2 ^ k)" .
  show e: "is_ei s'" "take idxM s' = take idxM s" "e' = (if c then e + 1 else e)"
    using p s(1) by (auto split: if_splits)
  have "sigval s' < LOW6" using v c s(2,3) by (auto split: if_splits)
  then show "s' ! idxM = 0" using guard_zero_iff [OF e(1)] by simp
  have "65536 dvd (2 :: nat) ^ k" using s(4) le_imp_power_dvd [of 16 k 2] by simp
  then have "65536 dvd M * 2 ^ k" by simp
  then have "sigval s' mod 65536 = 0" using v by (simp add: mod_eq_0_iff_dvd)
  then show "s' ! 8 = 0" using last_word [OF e(1)] by (simp add: unsigned_eq_0_iff)
qed

lemma emdnorm_fin_normal:
  assumes "is_ei s" "s ! 8 = 0" "0 \<le> e" "e < 32767"
  shows "is_ei (emdnorm_fin s e)" "emdnorm_fin s e ! 0 = s ! 0"
    "unat (emdnorm_fin s e ! idxE) = nat e" "sigval (emdnorm_fin s e) = sigval s"
    "emdnorm_fin s e ! idxM = s ! idxM" "emdnorm_fin s e ! 8 = 0"
proof -
  obtain w0 w1 w2 w3 w4 w5 w6 w7 w8 where s': "s = [w0, w1, w2, w3, w4, w5, w6, w7, w8]"
    using assms(1) ei_cases by blast
  then have s: "s = [w0, w1, w2, w3, w4, w5, w6, w7, 0]" using assms(2) by simp
  then have f: "emdnorm_fin s e = [w0, word_of_int e, w2, w3, w4, w5, w6, w7, 0]"
    using assms(3,4) s by (simp add: emdnorm_fin_def)
  have "unat (word_of_int e :: u16) = nat e"
    using assms(3,4) by (simp add: unat_eq_nat_uint uint_word_of_int)
  then show "unat (emdnorm_fin s e ! idxE) = nat e" by (simp add: f)
  show "is_ei (emdnorm_fin s e)" "emdnorm_fin s e ! 0 = s ! 0" "sigval (emdnorm_fin s e) = sigval s"
    "emdnorm_fin s e ! idxM = s ! idxM" "emdnorm_fin s e ! 8 = 0"
    unfolding f by (simp_all add: s is_ei_def sigval_def)
qed

lemma emdnorm_fin_overflow:
  assumes "is_ei s" "32767 \<le> e"
  shows "emdnorm_fin s e = [s ! 0, 32767, 0, 0, 0, 0, 0, 0, 0]"
  using assms by (auto simp: emdnorm_fin_def eval_nat_numeral elim!: ei_cases)

text \<open>\<open>emdnorm\<close> for a result in the range of normal exponents.\<close>

lemma enormlz_small_count:
  assumes "is_ei s" "sigval s < LOW6" "2 ^ 16 \<le> sigval s" "enormlz s = (j, s1)"
  shows "is_ei s1" "take idxM s1 = take idxM s" "sigval s1 = sigval s * 2 ^ nat j"
    "sigval s1 < LOW6" "0 \<le> j" "j < 80" "2 ^ 95 \<le> sigval s1"
proof -
  have p: "0 < sigval s" using assms(3) by simp
  note n = enormlz_up [OF assms(1,2) p assms(4)]
  show "is_ei s1" "take idxM s1 = take idxM s" "sigval s1 = sigval s * 2 ^ nat j"
    "sigval s1 < LOW6" "0 \<le> j" "2 ^ 95 \<le> sigval s1" using n by (simp_all add: norm_post_def)
  have "2 ^ 16 * 2 ^ nat j \<le> sigval s * 2 ^ nat j" using assms(3) by (rule mult_le_mono1)
  also have "\<dots> < LOW6" using n(1) by (simp add: norm_post_def)
  finally have "(2 :: nat) ^ (16 + nat j) < 2 ^ 96" by (simp add: power_add)
  then have "16 + nat j < 96" by (rule power_less_imp_less_exp [rotated]) simp
  then show "j < 80" by linarith
qed

text \<open>The two precisions in use: 80 bits (rounding place 16) and 64 bits (rounding place 32).\<close>

definition round_place :: "int \<Rightarrow> nat \<Rightarrow> int \<Rightarrow> bool" where
  "round_place rndprc k e \<longleftrightarrow> rndprc = 80 \<and> k = 16 \<or> rndprc = 64 \<and> k = 32 \<and> 0 < e"

lemma emdnorm_round_place:
  assumes s: "is_ei s" "sigval s < LOW6" and k: "round_place rndprc k e"
  obtains s2 where "emdnorm_round s lost subflg e rndprc =
      (if s2 ! idxM \<noteq> 0 then (eshdn1 s2, e + 1) else (s2, e))"
    "is_ei s2" "take idxM s2 = take idxM s"
    "sigval s2 = round_by (sigval s) k (tie_up (sigval s) k lost subflg) * 2 ^ k"
proof (cases "rndprc = 80")
  case True
  then have "k = 16" using k by (simp add: round_place_def)
  then show ?thesis
    using that emdnorm_round_80(1) [OF s, of lost subflg e] emdnorm_round_80(2-4) [OF s, of lost subflg] True
    by simp
next
  case False
  then have "rndprc = 64" "k = 32" "0 < e" using k by (simp_all add: round_place_def)
  then show ?thesis
    using that emdnorm_round_64(1) [OF s, of e lost subflg] emdnorm_round_64(2-4) [OF s, of e lost subflg]
    by simp
qed

lemma emdnorm_normal:
  fixes lost subflg e rcntrl :: int
  assumes s: "is_ei s" "sigval s < LOW6" "2 ^ 16 \<le> sigval s" and nz: "enormlz s = (j, s1)"
    and e: "0 \<le> e - j" "rcntrl \<noteq> 0" and k: "round_place rndprc k (e - j)"
  defines "N \<equiv> sigval s * 2 ^ nat j"
  defines "M \<equiv> round_by N k (tie_up N k lost subflg)"
  defines "y \<equiv> emdnorm s lost subflg e rcntrl rndprc"
  defines "e' \<equiv> (if M = 2 ^ (96 - k) then e - j + 1 else e - j)"
  shows "32767 \<le> e' \<Longrightarrow> y = [s ! 0, 32767, 0, 0, 0, 0, 0, 0, 0]"
    "e' < 32767 \<Longrightarrow> is_ei y \<and> y ! 0 = s ! 0 \<and> unat (y ! idxE) = nat e' \<and> y ! idxM = 0 \<and> y ! 8 = 0
       \<and> sigval y = (if M = 2 ^ (96 - k) then 2 ^ 95 else M * 2 ^ k)"
proof -
  note n = enormlz_small_count [OF s nz]
  have k16: "16 \<le> k" "k \<le> 80" using k by (auto simp: round_place_def)
  have N: "sigval s1 = N" using n(3) by (simp add: N_def)
  obtain s2 where r: "emdnorm_round s1 lost subflg (e - j) rndprc =
      (if s2 ! idxM \<noteq> 0 then (eshdn1 s2, e - j + 1) else (s2, e - j))"
    and s2: "is_ei s2" "take idxM s2 = take idxM s1" "sigval s2 = M * 2 ^ k"
    using emdnorm_round_place [OF n(1,4) k, of lost subflg] unfolding N M_def by blast
  obtain s3 e3 where r3: "(if s2 ! idxM \<noteq> 0 then (eshdn1 s2, e - j + 1) else (s2, e - j)) = (s3, e3)"
    by fastforce
  have "N < 2 ^ 96" using n(4) N by simp
  then have le: "M * 2 ^ k \<le> LOW6" using round_by_le [of N 96 k] k16 by (simp add: M_def)
  note c = round_carry [OF s2(1,3) le k16 r3]
  have e3: "e3 = e'" using c(6) by (simp add: e'_def)
  have "take idxM s3 = take idxM s" using c(2) s2(2) n(2) by simp
  then have "take idxM s3 ! 0 = take idxM s ! 0" by simp
  then have s30: "s3 ! 0 = s ! 0" by simp
  have y: "y = emdnorm_fin s3 e'"
    using nz e n(6) r r3 e3 by (simp add: y_def emdnorm_def)
  show "y = [s ! 0, 32767, 0, 0, 0, 0, 0, 0, 0]" if "32767 \<le> e'"
    using emdnorm_fin_overflow [OF c(1) that] s30 by (simp only: y)
  have "0 \<le> e'" using e(1) by (simp add: e'_def)
  then show "is_ei y \<and> y ! 0 = s ! 0 \<and> unat (y ! idxE) = nat e' \<and> y ! idxM = 0 \<and> y ! 8 = 0
       \<and> sigval y = (if M = 2 ^ (96 - k) then 2 ^ 95 else M * 2 ^ k)" if "e' < 32767"
    using emdnorm_fin_normal [OF c(1,4)] that c(3,5) s30 by (simp add: y)
qed

text \<open>Rounding a quotient with a sticky flag is rounding the number itself.\<close>

lemma round_by_shift:
  assumes "j \<le> k"
  shows "round_by (N * 2 ^ j) k tie = round_by N (k - j) tie"
    "N * 2 ^ j div 2 ^ k = N div 2 ^ (k - j)"
proof -
  have k: "(2 :: nat) ^ k = 2 ^ (k - j) * 2 ^ j" using assms by (simp flip: power_add)
  show d: "N * 2 ^ j div 2 ^ k = N div 2 ^ (k - j)" unfolding k by simp
  have m: "N * 2 ^ j mod 2 ^ k = N mod 2 ^ (k - j) * 2 ^ j" unfolding k by (rule mod_mult_mult2)
  have "round_up (N * 2 ^ j) k tie = round_up N (k - j) tie"
    unfolding round_up_def m unfolding k by (simp flip: mult.assoc)
  then show "round_by (N * 2 ^ j) k tie = round_by N (k - j) tie" by (simp add: round_by_def d)
qed

lemma round_sticky:
  assumes "0 < h"
  shows "round_by (P div 2 ^ m) h (if P mod 2 ^ m = 0 then odd (P div 2 ^ m div 2 ^ h) else True)
    = rne P (m + h)"
proof -
  define a b H where "a = P div 2 ^ m mod 2 ^ h" and "b = P mod 2 ^ m" and "H = (2 :: nat) ^ (h - 1)"
  have h: "(2 :: nat) ^ h = 2 * H" using assms by (simp add: H_def flip: power_Suc)
  have d: "P div 2 ^ (m + h) = P div 2 ^ m div 2 ^ h" by (simp add: power_add div_mult2_eq)
  have m: "P mod 2 ^ (m + h) = 2 ^ m * a + b" by (simp add: power_add mod_mult2_eq a_def b_def)
  have b: "b < 2 ^ m" by (simp add: b_def)
  have p: "0 < (2 :: nat) ^ m" by simp
  have gt: "2 ^ m * H < 2 ^ m * a + b \<longleftrightarrow> H < a \<or> H = a \<and> b \<noteq> 0"
  proof (cases H a rule: linorder_cases)
    case less
    then have "2 ^ m * (H + 1) \<le> 2 ^ m * a" by (intro mult_le_mono2) simp
    then have "2 ^ m * H < 2 ^ m * a + b" using p unfolding distrib_left by linarith
    then show ?thesis using less by simp
  next
    case greater
    then have "2 ^ m * (a + 1) \<le> 2 ^ m * H" by (intro mult_le_mono2) simp
    then have "2 ^ m * a + b < 2 ^ m * H" using b by simp
    then show ?thesis using greater by simp
  qed simp
  have eq: "2 ^ m * H = 2 ^ m * a + b \<longleftrightarrow> H = a \<and> b = 0"
  proof (cases H a rule: linorder_cases)
    case less
    then have "2 ^ m * (H + 1) \<le> 2 ^ m * a" by (intro mult_le_mono2) simp
    then have "2 ^ m * H < 2 ^ m * a + b" using p unfolding distrib_left by linarith
    then show ?thesis using less by simp
  next
    case greater
    then have "2 ^ m * (a + 1) \<le> 2 ^ m * H" by (intro mult_le_mono2) simp
    then have "2 ^ m * a + b < 2 ^ m * H" using b by simp
    then show ?thesis using greater by simp
  qed simp
  have t: "(2 :: nat) ^ (m + h) = 2 * (2 ^ m * H)" by (simp add: power_add h)
  have l: "round_up (P div 2 ^ m) h X = (H < a \<or> H = a \<and> X)" for X
    unfolding round_up_def a_def [symmetric] using h by auto
  have r: "round_up P (m + h) X = (2 ^ m * H < 2 ^ m * a + b \<or> 2 ^ m * H = 2 ^ m * a + b \<and> X)" for X
    using t unfolding round_up_def m by auto
  have "round_up (P div 2 ^ m) h (if b = 0 then odd (P div 2 ^ m div 2 ^ h) else True)
      = round_up P (m + h) (odd (P div 2 ^ (m + h)))"
    unfolding l r gt eq d by auto
  then show ?thesis by (simp add: rne_def round_by_def d b_def)
qed

section \<open>External numbers as values\<close>

text \<open>
  The number an external array stands for is \<open>(- 1) ^ sign * emant x * 2 ^ (eexp x - 16462)\<close>.
  \<open>enormal\<close>: exponent neither zero nor all ones and the leading significand bit set.
\<close>

definition is_ee :: "u16 list \<Rightarrow> bool" where
  "is_ee x \<longleftrightarrow> length x = NE"

definition emant :: "u16 list \<Rightarrow> nat" where
  "emant x = wval (rev (take (NE - 1) x))"

definition eexp :: "u16 list \<Rightarrow> nat" where
  "eexp x = unat (x ! (NE - 1)) mod 32768"

definition esgn :: "u16 list \<Rightarrow> bool" where
  "esgn x \<longleftrightarrow> 32768 \<le> unat (x ! (NE - 1))"

definition enormal :: "u16 list \<Rightarrow> bool" where
  "enormal x \<longleftrightarrow> is_ee x \<and> 0 < eexp x \<and> eexp x < 0x7fff \<and> 2 ^ 79 \<le> emant x"

lemma unat_and_7fff: "unat ((w :: u16) AND 0x7fff) = unat w mod 32768"
proof -
  have "w AND 0x7fff = take_bit 15 w" by (simp add: take_bit_eq_mask mask_numeral)
  then show ?thesis by (simp add: take_bit_eq_mod unat_mod)
qed

lemma and_7fff_iff: "(x ! (NE - 1) AND 0x7fff = 0x7fff) \<longleftrightarrow> eexp x = 0x7fff"
  by (simp add: word_unat_eq_iff unat_and_7fff eexp_def)

lemma ee_cases:
  assumes "is_ee x"
  obtains a b c d e f where "x = [a, b, c, d, e, f]"
proof -
  from assms have "length x = Suc (Suc (Suc (Suc (Suc (Suc 0)))))" by (simp add: is_ee_def)
  then show ?thesis using that by (auto simp only: length_Suc_conv length_0_conv)
qed

lemma emant_less: "is_ee x \<Longrightarrow> emant x < 2 ^ 80"
  using wval_less [of "rev (take 5 x)"] by (simp add: emant_def is_ee_def)

lemma enormal_kind:
  assumes "enormal x"
  shows "\<not> eisnan x" "\<not> eisinf x"
  using assms and_7fff_iff [of x] by (simp_all add: enormal_def eisnan_def eisinf_def)

lemma emovi_finite:
  assumes "is_ee x" "eexp x < 0x7fff"
  shows "is_ei (emovi below x)" "emovi below x ! 0 = (if esgn x then 0xffff else 0)"
    "unat (emovi below x ! idxE) = eexp x" "emovi below x ! idxM = 0" "emovi below x ! 8 = 0"
    "sigval (emovi below x) = emant x * 2 ^ 16" "lowval (emovi below x) = emant x * 2 ^ 16"
proof -
  obtain a b c d e f where x: "x = [a, b, c, d, e, f]" using assms(1) ee_cases by blast
  have f: "f AND 0x7fff \<noteq> 0x7fff" using assms(2) and_7fff_iff [of x] by (simp add: x)
  have m: "emovi below x = [if esgn x then 0xffff else 0, f AND 0x7fff, 0, e, d, c, b, a, 0]"
    using f by (simp add: x emovi_def esgn_def and_8000_iff Let_def and.assoc)
  show "is_ei (emovi below x)" "emovi below x ! 0 = (if esgn x then 0xffff else 0)"
    "unat (emovi below x ! idxE) = eexp x" "emovi below x ! idxM = 0" "emovi below x ! 8 = 0"
    "sigval (emovi below x) = emant x * 2 ^ 16" "lowval (emovi below x) = emant x * 2 ^ 16"
    unfolding m by (simp_all add: x is_ei_def unat_and_7fff eexp_def sigval_def lowval_def emant_def)
qed

text \<open>Storing an internal number.\<close>

lemma emovo_finite:
  assumes "is_ei y" "is_ee c" "y ! idxM = 0" "y ! 8 = 0" "unat (y ! idxE) < 0x7fff"
  shows "is_ee (emovo y c)" "emant (emovo y c) * 2 ^ 16 = sigval y" "eexp (emovo y c) = unat (y ! idxE)"
    "esgn (emovo y c) \<longleftrightarrow> y ! 0 \<noteq> 0"
proof -
  obtain w0 w1 w2 w3 w4 w5 w6 w7 w8 where y: "y = [w0, w1, w2, w3, w4, w5, w6, w7, w8]"
    using assms(1) ei_cases by blast
  obtain c0 c1 c2 c3 c4 c5 where c: "c = [c0, c1, c2, c3, c4, c5]" using assms(2) ee_cases by blast
  have z: "w2 = 0" "w8 = 0" "unat w1 < 32767" using assms(3-5) by (simp_all add: y)
  then have n: "w1 \<noteq> 0x7fff" by (auto simp: word_unat_eq_iff)
  have o: "emovo y c = [w7, w6, w5, w4, w3, if w0 \<noteq> 0 then w1 OR 0x8000 else w1]"
    using n by (simp add: y c emovo_def)
  have "unat (w1 OR 0x8000) = unat w1 + 32768" using z(3) by (intro unat_or_8000) simp
  then show "is_ee (emovo y c)" "emant (emovo y c) * 2 ^ 16 = sigval y" "eexp (emovo y c) = unat (y ! idxE)"
    "esgn (emovo y c) \<longleftrightarrow> y ! 0 \<noteq> 0"
    unfolding o using z by (simp_all add: y is_ee_def eexp_def sigval_def emant_def esgn_def)
qed

definition einf_val :: "bool \<Rightarrow> u16 list" where
  "einf_val s = [0, 0, 0, 0, 0, if s then 0xffff else 0x7fff]"

lemma emovo_inf:
  assumes "is_ee c"
  shows "emovo [w, 0x7fff, 0, 0, 0, 0, 0, 0, 0] c = einf_val (w \<noteq> 0)"
  using assms by (auto simp: emovo_def eiisnan_def einfin_def einf_val_def upt_rec Let_def eval_nat_numeral elim!: ee_cases)

section \<open>Multiplication is correctly rounded\<close>

lemma mod_scale_0_iff: "(P * 2 ^ a) mod 2 ^ (a + b) = 0 \<longleftrightarrow> P mod 2 ^ b = (0 :: nat)"
  by (simp add: power_add mult.commute [of P] mod_mult_mult1)

lemma div_scale: "(P * 2 ^ a) div 2 ^ (a + b) = P div (2 ^ b :: nat)"
  by (simp add: power_add mult.commute [of P])

text \<open>The normalisation count of a product of two normalised significands.\<close>

lemma product_count:
  assumes s: "is_ei s" "sigval s = P div 2 ^ 64" "enormlz s = (j, s1)"
    and P: "2 ^ 158 \<le> P" "P < 2 ^ 160"
  shows "sigval s < LOW6" "2 ^ 16 \<le> sigval s" "j = (if P < 2 ^ 159 then 1 else 0)"
proof -
  have "2 ^ 94 \<le> P div 2 ^ 64" using div_le_mono [OF P(1), of "2 ^ 64"] by simp
  then have lo: "2 ^ 94 \<le> sigval s" by (simp only: s(2))
  have hi: "sigval s < LOW6" using P(2) by (simp add: s(2) less_mult_imp_div_less)
  show "sigval s < LOW6" by (rule hi)
  show l16: "2 ^ 16 \<le> sigval s" using lo by simp
  note n = enormlz_small_count [OF s(1) hi l16 s(3)]
  have p: "0 \<le> j" "2 ^ 95 \<le> sigval s * 2 ^ nat j" "sigval s * 2 ^ nat j < LOW6" using n by simp_all
  have mid: "P < 2 ^ 159 \<longleftrightarrow> sigval s < 2 ^ 95"
    using div_le_mono [of "2 ^ 159" P "2 ^ 64"] by (auto simp: s(2) less_mult_imp_div_less not_less)
  have j2: "nat j < 2"
  proof (rule ccontr)
    assume "\<not> nat j < 2"
    then have "(2 :: nat) ^ 2 \<le> 2 ^ nat j" by (intro power_increasing) simp_all
    then have "2 ^ 94 * 2 ^ 2 \<le> sigval s * 2 ^ nat j" using lo by (rule mult_le_mono [rotated])
    then show False using p(3) by simp
  qed
  then consider "j = 0" | "j = 1" using p(1) by linarith
  then show "j = (if P < 2 ^ 159 then 1 else 0)"
  proof cases
    case 1
    then show ?thesis using p(2) mid by simp
  next
    case 2
    then show ?thesis using p(3) mid by simp
  qed
qed

lemma emul_normal:
  assumes a: "enormal a" and b: "enormal b" and c: "is_ee c"
  defines "P \<equiv> emant a * emant b"
  defines "d \<equiv> (if P < 2 ^ 159 then 1 else 0 :: nat)"
  defines "M \<equiv> rne P (80 - d)"
  defines "e \<equiv> int (eexp a + eexp b) - 16382 - int d + (if M = 2 ^ 80 then 1 else 0)"
  assumes e0: "16382 + d \<le> eexp a + eexp b"
  shows "e < 32767 \<Longrightarrow> is_ee (emul a b c) \<and> emant (emul a b c) = (if M = 2 ^ 80 then 2 ^ 79 else M)
      \<and> int (eexp (emul a b c)) = e \<and> (esgn (emul a b c) \<longleftrightarrow> esgn a \<noteq> esgn b)"
    "32767 \<le> e \<Longrightarrow> emul a b c = einf_val (esgn a \<noteq> esgn b)"
proof -
  define ai bi where "ai = emovi 0 a" and "bi = emovi 0 b"
  note na = a [unfolded enormal_def] and nb = b [unfolded enormal_def]
  have ai: "is_ei ai" "ai ! 0 = (if esgn a then 0xffff else 0)" "unat (ai ! idxE) = eexp a"
      "lowval ai = emant a * 2 ^ 16"
    and bi: "is_ei bi" "bi ! 0 = (if esgn b then 0xffff else 0)" "unat (bi ! idxE) = eexp b"
      "lowval bi = emant b * 2 ^ 16"
    using emovi_finite [of a 0] emovi_finite [of b 0] na nb by (simp_all add: ai_def bi_def)
  have nz: "ai ! idxE \<noteq> 0" "bi ! idxE \<noteq> 0" using ai(3) bi(3) na nb by auto
  have ue: "uint (ai ! idxE) = int (eexp a)" "uint (bi ! idxE) = int (eexp b)"
    by (simp_all flip: ai(3) bi(3))
  obtain j p where m: "emulm ai bi = (j, p)" by fastforce
  note em = emulm_correct [OF ai(1) bi(1) m]
  have PP: "lowval ai * lowval bi = P * 2 ^ 32" by (simp add: ai(4) bi(4) P_def)
  have L: "LOW6 = 2 ^ (32 + 64)" by simp
  have p: "is_ei p" "sigval p = P div 2 ^ 64" "j = 0 \<longleftrightarrow> P mod 2 ^ 64 = 0" "p ! 0 = bi ! 0"
  proof -
    show "is_ei p" by (rule em(3))
    show "sigval p = P div 2 ^ 64" unfolding em(1) PP L by (rule div_scale)
    show "j = 0 \<longleftrightarrow> P mod 2 ^ 64 = 0" unfolding em(2) PP L by (rule mod_scale_0_iff)
    have "take idxM p ! 0 = take idxM bi ! 0" using em(4) by simp
    then show "p ! 0 = bi ! 0" by simp
  qed
  obtain n s1 where nrm: "enormlz p = (n, s1)" by fastforce
  have "2 ^ 79 * 2 ^ 79 \<le> P" unfolding P_def by (intro mult_le_mono) (use na nb in simp_all)
  then have P1: "2 ^ 158 \<le> P" by simp
  have "P < 2 ^ 80 * 2 ^ 80" unfolding P_def using emant_less na nb by (intro mult_strict_mono) simp_all
  then have P2: "P < 2 ^ 160" by simp
  note pc = product_count [OF p(1,2) nrm P1 P2]
  have n: "n = int d" "nat n = d" "d \<le> 1" using pc(3) by (simp_all add: d_def)
  define ex where "ex = int (eexp a) + int (eexp b) - (0x3fff - 1)"
  have N: "round_by (sigval p * 2 ^ nat n) 16 (tie_up (sigval p * 2 ^ nat n) 16 j 0) = M"
  proof -
    have d16: "d \<le> 16" "0 < 16 - d" "64 + (16 - d) = 80 - d" using n(3) by simp_all
    show ?thesis
      unfolding n(2) tie_up_def round_by_shift [OF d16(1)] p(2,3) M_def
      using round_sticky [OF d16(2), of P 64] by (simp only: d16(3) HOL.simp_thms)
  qed
  have e: "e = (if M = 2 ^ 80 then ex - n + 1 else ex - n)" by (simp add: e_def ex_def n(1))
  have pos: "0 \<le> ex - n" using e0 n(1) by (simp add: ex_def)
  define y where "y = emdnorm p j 0 ex 64 80"
  have rp: "round_place 80 16 (ex - n)" by (simp add: round_place_def)
  have c96: "(2 :: nat) ^ (96 - 16) = 2 ^ 80" "(2 :: nat) ^ 95 = 2 ^ 79 * 2 ^ 16" by simp_all
  note em80 = emdnorm_normal [OF p(1) pc(1,2) nrm pos _ rp, of 64 j 0, unfolded N c96, folded e y_def]
  have y0: "y ! 0 = bi ! 0" using em80 p(4) by (cases "e < 32767") simp_all
  define w where "w = (if ai ! 0 = bi ! 0 then 0 else 0xffff :: u16)"
  have w: "w \<noteq> 0 \<longleftrightarrow> esgn a \<noteq> esgn b" using ai(2) bi(2) by (simp add: w_def)
  have r: "emul a b c = emovo (y[0 := w]) c"
    using enormal_kind [OF a] enormal_kind [OF b] nz m
    unfolding emul_def ai_def [symmetric] bi_def [symmetric]
    using y0 by (simp add: Let_def w_def ue [simplified] flip: ex_def [simplified]) (simp add: y_def)
  show "emul a b c = einf_val (esgn a \<noteq> esgn b)" if "32767 \<le> e"
    unfolding r em80(1) [OF _ that, simplified] w [symmetric] using emovo_inf [OF c] by simp
  show "is_ee (emul a b c) \<and> emant (emul a b c) = (if M = 2 ^ 80 then 2 ^ 79 else M)
      \<and> int (eexp (emul a b c)) = e \<and> (esgn (emul a b c) \<longleftrightarrow> esgn a \<noteq> esgn b)" if "e < 32767"
  proof -
    have y: "is_ei y" "unat (y ! idxE) = nat e" "y ! idxM = 0" "y ! 8 = 0"
      "sigval y = (if M = 2 ^ 80 then 2 ^ 79 else M) * 2 ^ 16"
      using em80(2) that by simp_all
    have ei: "is_ei (y[0 := w])" "y[0 := w] ! idxM = 0" "y[0 := w] ! 8 = 0"
      "unat (y[0 := w] ! idxE) < 0x7fff" "y[0 := w] ! 0 = w" "sigval (y[0 := w]) = sigval y"
      using y that by (auto simp: is_ei_def sigval_def)
    note o = emovo_finite [OF ei(1) c ei(2,3,4)]
    have "0 \<le> e" using pos e by simp
    then show ?thesis using o ei y(2,5) w unfolding r by simp
  qed
qed

section \<open>Comparison orders the values\<close>

lemma ecmp_words_ecmpm: "ecmp_words m ps qs = m * ecmpm_words ps qs"
  by (induction m ps qs rule: ecmp_words.induct) simp_all

lemma ecmp_words_wval:
  "length ps = length qs \<Longrightarrow> ecmp_words m ps qs = m * sgn (int (wval ps) - int (wval qs))"
  by (simp add: ecmp_words_ecmpm ecmpm_words_wval)

text \<open>Sign, then exponent, then significand: the key by which \<open>ecmp\<close> orders two numbers.\<close>

definition ekey :: "u16 list \<Rightarrow> int" where
  "ekey x = (if esgn x then -1 else 1) * int (eexp x * 2 ^ 96 + emant x)"

lemma abs_ekey: "nat (abs (ekey x)) = eexp x * 2 ^ 96 + emant x"
  by (simp only: ekey_def abs_mult) simp

lemma emovi_words:
  assumes "is_ee x" "\<not> eisnan x"
  shows "take 8 (emovi below x) ! 0 = (if esgn x then 0xffff else 0)"
    "wval (take 8 (emovi below x)) = (if esgn x then 65535 * 65536 ^ 7 else 0) + nat (abs (ekey x))"
    "length (emovi below x) = 9"
    "list_all (\<lambda>i. emovi below x ! i = 0) [1..<8] \<longleftrightarrow> ekey x = 0"
proof -
  obtain a b c d e f where x: "x = [a, b, c, d, e, f]" using assms(1) ee_cases by blast
  have m: "emovi below x = [if esgn x then 0xffff else 0, f AND 0x7fff, 0, e, d, c, b, a, 0]"
  proof (cases "eexp x = 0x7fff")
    case True
    then have f: "f AND 0x7fff = 0x7fff" using and_7fff_iff [of x] by (simp add: x)
    then have z: "a = 0" "b = 0" "c = 0" "d = 0" "e = 0" using assms(2) by (simp_all add: x eisnan_def)
    have "replicate 7 (0 :: u16) = [0, 0, 0, 0, 0, 0, 0]" by (simp add: eval_nat_numeral)
    then show ?thesis using f assms(2)
      by (simp add: x z emovi_def esgn_def and_8000_iff Let_def)
  next
    case False
    then have "f AND 0x7fff \<noteq> 0x7fff" using and_7fff_iff [of x] by (simp add: x)
    then show ?thesis by (simp add: x emovi_def esgn_def and_8000_iff Let_def and.assoc)
  qed
  have k: "nat (abs (ekey x)) = unat (f AND 0x7fff) * 2 ^ 96 + emant x"
    unfolding abs_ekey by (simp add: eexp_def x unat_and_7fff)
  show "take 8 (emovi below x) ! 0 = (if esgn x then 0xffff else 0)" "length (emovi below x) = 9"
    by (simp_all add: m)
  show "wval (take 8 (emovi below x)) = (if esgn x then 65535 * 65536 ^ 7 else 0) + nat (abs (ekey x))"
    unfolding k by (simp add: m) (simp add: x emant_def)
  have "ekey x = 0 \<longleftrightarrow> nat (abs (ekey x)) = 0" by simp
  then show "list_all (\<lambda>i. emovi below x ! i = 0) [1..<8] \<longleftrightarrow> ekey x = 0"
    unfolding k by (simp add: m upt_rec) (simp add: x emant_def unsigned_eq_0_iff)
qed

lemma ekey_sign: "esgn x \<Longrightarrow> ekey x \<le> 0" "\<not> esgn x \<Longrightarrow> 0 \<le> ekey x"
  by (simp_all add: ekey_def)

lemma ecmp_ekey:
  assumes "is_ee a" "is_ee b" "\<not> eisnan a" "\<not> eisnan b"
  shows "ecmp a b = sgn (ekey a - ekey b)"
proof -
  note wa = emovi_words [OF assms(1,3), of 0] and wb = emovi_words [OF assms(2,4), of 0]
  have s: "emovi 0 a ! 0 = (if esgn a then 0xffff else 0)" "emovi 0 b ! 0 = (if esgn b then 0xffff else 0)"
    using wa(1) wb(1) by simp_all
  have z: "list_all (\<lambda>i. emovi 0 a ! i = 0 \<and> emovi 0 b ! i = 0) [1..<8] \<longleftrightarrow> ekey a = 0 \<and> ekey b = 0"
    using wa(4) wb(4) by (auto simp: list_all_iff)
  show ?thesis
  proof (cases "esgn a = esgn b")
    case False
    then have "ecmp a b = (if ekey a = 0 \<and> ekey b = 0 then 0 else if esgn a then -1 else 1)"
      using assms(3,4) s z by (simp add: ecmp_def Let_def)
    then show ?thesis using ekey_sign [of a] ekey_sign [of b] False by (auto simp: sgn_if)
  next
    case True
    then have "ecmp a b = ecmp_words (if esgn a then -1 else 1) (take 8 (emovi 0 a)) (take 8 (emovi 0 b))"
      using assms(3,4) s by (simp add: ecmp_def Let_def)
    also have "\<dots> = (if esgn a then -1 else 1) * sgn (int (nat (abs (ekey a))) - int (nat (abs (ekey b))))"
      using wa(2,3) wb(2,3) True by (subst ecmp_words_wval) simp_all
    also have "\<dots> = sgn (ekey a - ekey b)"
      using ekey_sign [of a] ekey_sign [of b] True by (auto simp: sgn_if)
    finally show ?thesis .
  qed
qed

text \<open>For normal numbers the key orders like the value.\<close>

definition eval_scaled :: "u16 list \<Rightarrow> int" where
  "eval_scaled x = (if esgn x then -1 else 1) * (int (emant x) * 2 ^ eexp x)"

lemma key_less_value:
  assumes "m < 2 ^ 80" "2 ^ 79 \<le> n" "e * 2 ^ 96 + m < f * 2 ^ 96 + n" "n < (2 :: nat) ^ 80"
  shows "m * 2 ^ e < n * 2 ^ f"
proof (cases "e = f")
  case True
  then show ?thesis using assms(3) by simp
next
  case False
  have "e < f"
  proof (rule ccontr)
    assume "\<not> e < f"
    then have "(f + 1) * 2 ^ 96 \<le> e * 2 ^ 96" using False by (intro mult_le_mono1) simp
    then show False using assms by simp
  qed
  then have "e + 1 \<le> f" by simp
  then have "(2 :: nat) ^ (e + 1) \<le> 2 ^ f" by (rule power_increasing) simp
  then have "2 ^ 79 * 2 ^ (e + 1) \<le> n * 2 ^ f" using assms(2) by (intro mult_le_mono)
  moreover have "m * 2 ^ e < 2 ^ 80 * 2 ^ e" using assms(1) by (intro mult_strict_right_mono) simp_all
  moreover have "(2 :: nat) ^ 79 * 2 ^ (e + 1) = 2 ^ 80 * 2 ^ e" by simp
  ultimately show ?thesis by linarith
qed

lemma key_value_iff:
  assumes "enormal a" "enormal b"
  shows "eexp a * 2 ^ 96 + emant a < eexp b * 2 ^ 96 + emant b \<longleftrightarrow>
    emant a * 2 ^ eexp a < emant b * 2 ^ eexp b"
proof -
  note na = assms(1) [unfolded enormal_def] and nb = assms(2) [unfolded enormal_def]
  have m: "emant a < 2 ^ 80" "emant b < 2 ^ 80" using na nb emant_less by simp_all
  show ?thesis
  proof (cases "eexp a * 2 ^ 96 + emant a" "eexp b * 2 ^ 96 + emant b" rule: linorder_cases)
    case less
    then show ?thesis using key_less_value [OF m(1) _ _ m(2)] nb by simp
  next
    case greater
    then have "emant b * 2 ^ eexp b < emant a * 2 ^ eexp a"
      using key_less_value [OF m(2) _ _ m(1)] na by simp
    then show ?thesis using greater by simp
  next
    case equal
    have "eexp a = (eexp a * 2 ^ 96 + emant a) div 2 ^ 96" using m(1) by simp
    also have "\<dots> = eexp b" unfolding equal using m(2) by simp
    finally show ?thesis using equal by simp
  qed
qed

lemma ecmp_value:
  assumes "enormal a" "enormal b"
  shows "ecmp a b = sgn (eval_scaled a - eval_scaled b)"
proof -
  define k where "k x = eexp x * 2 ^ 96 + emant x" for x
  define v where "v x = emant x * 2 ^ eexp x" for x
  have kv: "k a < k b \<longleftrightarrow> v a < v b" "k b < k a \<longleftrightarrow> v b < v a"
    unfolding k_def v_def using key_value_iff assms by blast+
  have pos: "0 < k x" "0 < v x" if "enormal x" for x
    using that by (simp_all add: enormal_def k_def v_def)
  have e: "ekey x = (if esgn x then -1 else 1) * int (k x)"
    "eval_scaled x = (if esgn x then -1 else 1) * int (v x)" for x
    by (simp_all add: ekey_def eval_scaled_def k_def v_def)
  have "ecmp a b = sgn (ekey a - ekey b)"
    using assms enormal_kind by (intro ecmp_ekey) (simp_all add: enormal_def)
  also have "\<dots> = sgn (eval_scaled a - eval_scaled b)"
    using kv pos [OF assms(1)] pos [OF assms(2)] unfolding e
    by (cases "esgn a"; cases "esgn b") (auto simp: sgn_if)
  finally show ?thesis .
qed

section \<open>Round trips\<close>

lemma emovo_emovi:
  assumes "is_ee x" "eexp x < 0x7fff" "is_ee c"
  shows "emovo (emovi below x) c = x"
proof -
  obtain a b c' d e f where x: "x = [a, b, c', d, e, f]" using assms(1) ee_cases by blast
  obtain c0 c1 c2 c3 c4 c5 where c: "c = [c0, c1, c2, c3, c4, c5]" using assms(3) ee_cases by blast
  have f: "f AND 0x7fff \<noteq> 0x7fff" using assms(2) and_7fff_iff [of x] by (simp add: x)
  have m: "emovi below x = [if esgn x then 0xffff else 0, f AND 0x7fff, 0, e, d, c', b, a, 0]"
    using f by (simp add: x emovi_def esgn_def and_8000_iff Let_def and.assoc)
  have "(if esgn x then f AND 0x7fff OR 0x8000 else f AND 0x7fff) = f"
  proof -
    have "unat (f AND 0x7fff) < 32768" by (simp add: unat_and_7fff)
    then have u: "unat (f AND 0x7fff OR 0x8000) = unat f mod 32768 + 32768"
      by (simp only: unat_or_8000 unat_and_7fff)
    have "unat f < 65536" by simp
    then have "unat f = unat f mod 32768 + (if 32768 \<le> unat f then 32768 else 0)"
      by (simp add: le_mod_geq del: unat_u16_less)
    then show ?thesis using u unat_and_7fff [of f] by (simp add: word_unat_eq_iff esgn_def x split: if_splits)
  qed
  then show ?thesis using f unfolding m by (simp add: x c emovo_def split: if_splits)
qed

text \<open>
  The 80 bit format: the significand is the first four words, least significant first, and the
  sign and exponent are the fifth.
\<close>

lemma toe64_normal:
  assumes "is_ei y" "y ! idxM = 0" "0 < unat (y ! idxE)" "unat (y ! idxE) < 0x7fff"
  shows "wval (rev (take 4 (toe64 y b))) = sigval y div 2 ^ 32"
    "unat (toe64 y b ! 4) = unat (y ! idxE) + (if y ! 0 = 0 then 0 else 32768)"
    "length (toe64 y b) = 6" "toe64 y b ! 5 = 0"
proof -
  obtain w0 w1 w2 w3 w4 w5 w6 w7 w8 where y: "y = [w0, w1, w2, w3, w4, w5, w6, w7, w8]"
    using assms(1) ei_cases by blast
  have lt: "unat w1 < 32767" "0 < unat w1" and w2: "w2 = 0" using assms by (simp_all add: y)
  then have w1: "w1 \<noteq> 0" "w1 AND 0x7fff \<noteq> 0x7fff"
    by (auto simp: word_unat_eq_iff unat_and_7fff)
  have t: "toe64 y b = [w6, w5, w4, w3, if w0 \<noteq> 0 then w1 OR 0x8000 else w1, 0]"
    using w1 by (simp add: y toe64_def eiisnan_def eiisinf_def)
  have u: "unat (w1 OR 0x8000) = unat w1 + 32768" using lt by (intro unat_or_8000) simp
  show "unat (toe64 y b ! 4) = unat (y ! idxE) + (if y ! 0 = 0 then 0 else 32768)"
    "length (toe64 y b) = 6" "toe64 y b ! 5 = 0"
    unfolding t using u by (simp_all add: y)
  define Z r where "Z = wval [w3, w4, w5, w6]" and "r = unat w7 * 65536 + unat w8"
  have s: "sigval y = Z * 2 ^ 32 + r" by (simp add: y sigval_def w2 Z_def r_def)
  have "r < 4294967296" unfolding r_def using unat_u16_less [of w7] unat_u16_less [of w8] by linarith
  then have "sigval y div 2 ^ 32 = Z" unfolding s by simp
  then show "wval (rev (take 4 (toe64 y b))) = sigval y div 2 ^ 32"
    unfolding t by (simp add: Z_def)
qed

end
