(* ===== verification/Strtold.thy ===== *)
theory Strtold
  imports Emath_Round
begin

text \<open>
  \<open>strtold\<close> and \<open>__asctoe64\<close> of \<open>mingwex/strtold.c\<close>: decimal text to an 80 bit long double.

  A C string is a list of characters without its terminating NUL; a pointer into the private
  copy of the input is the rest of the text from there on, so that the number of characters
  consumed is a difference of lengths. \<open>isspace\<close> is the one of the C locale; the decimal
  point character of \<open>localeconv\<close> is the parameter \<open>dec\<close>.

  The main result: a text of blanks, a sign and decimal digits whose value is below \<open>2 ^ 80\<close>
  is converted with one correct rounding to 64 bits, and the end pointer is right.
\<close>

section \<open>Characters\<close>

definition deref :: "string \<Rightarrow> char" where
  "deref s = (case s of [] \<Rightarrow> CHR 0x00 | c # _ \<Rightarrow> c)"

definition c_isspace :: "char \<Rightarrow> bool" where
  "c_isspace c \<longleftrightarrow> c \<in> {CHR '' '', CHR 0x09, CHR 0x0A, CHR 0x0B, CHR 0x0C, CHR 0x0D}"

definition digit_val :: "char \<Rightarrow> int" where
  "digit_val c = of_char c - 48"

definition c_isdigit :: "char \<Rightarrow> bool" where
  "c_isdigit c \<longleftrightarrow> 0 \<le> digit_val c \<and> digit_val c \<le> 9"

section \<open>Tables\<close>

definition eone :: "u16 list" where
  "eone = [0, 0, 0, 0, 0x8000, 0x3fff]"

definition etens :: "u16 list list" where
  "etens =
    [[0xc94c, 0x979a, 0x8a20, 0x5202, 0xc460, 0x7525],
     [0xa74d, 0x5de4, 0xc53d, 0x3b5d, 0x9e8b, 0x5a92],
     [0x650d, 0x0c17, 0x8175, 0x7586, 0xc976, 0x4d48],
     [0xcc65, 0x91c6, 0xa60e, 0xa0ae, 0xe319, 0x46a3],
     [0xddbc, 0xde8d, 0x9df9, 0xebfb, 0xaa7e, 0x4351],
     [0xc66f, 0x8cdf, 0x80e9, 0x47c9, 0x93ba, 0x41a8],
     [0x3cbf, 0xa6d5, 0xffcf, 0x1f49, 0xc278, 0x40d3],
     [0xf020, 0xb59d, 0x2b70, 0xada8, 0x9dc5, 0x4069],
     [0x0000, 0x0000, 0x0400, 0xc9bf, 0x8e1b, 0x4034],
     [0x0000, 0x0000, 0x0000, 0x2000, 0xbebc, 0x4019],
     [0x0000, 0x0000, 0x0000, 0x0000, 0x9c40, 0x400c],
     [0x0000, 0x0000, 0x0000, 0x0000, 0xc800, 0x4005],
     [0x0000, 0x0000, 0x0000, 0x0000, 0xa000, 0x4002]]"

abbreviation (input) MAXP :: int where "MAXP \<equiv> 4096"

section \<open>Scanning the digits\<close>

record asc =
  a_yy :: "u16 list"
  a_lost :: int
  a_nsign :: u16
  a_decflg :: bool
  a_sgnflg :: bool
  a_nexp :: int
  a_prec :: int
  a_trail :: bool

definition asc_init :: asc where
  "asc_init = \<lparr> a_yy = ecleaz (replicate NI 0), a_lost = 0, a_nsign = 0, a_decflg = False,
     a_sgnflg = False, a_nexp = 0, a_prec = 0, a_trail = False \<rparr>"

text \<open>The trailing zeros of the run of digits at \<open>s\<close> are overwritten by the letter z.\<close>

definition asc_strip :: "string \<Rightarrow> string" where
  "asc_strip s =
     (let d = rev (takeWhile c_isdigit s);
          z = takeWhile (\<lambda>c. c = CHR ''0'') d
      in rev (map (\<lambda>_. CHR ''z'') z @ drop (length z) d) @ dropWhile c_isdigit s)"

text \<open>Ten times the number plus a digit.\<close>

definition asc_push :: "int \<Rightarrow> u16 list \<Rightarrow> u16 list" where
  "asc_push k yy =
     (let yy = eshup1 yy;
          xt = emovz yy (replicate NI 0);
          xt = eshup1 xt;
          xt = eshup1 xt;
          yy = eaddm xt yy;
          xt = ecleaz xt;
          xt = xt[NI - 2 := word_of_int k]
      in eaddm xt yy)"

definition asc_digit :: "asc \<Rightarrow> string \<Rightarrow> asc \<times> string" where
  "asc_digit st s =
     (let k = digit_val (deref s)
      in if a_prec st = 0 \<and> \<not> a_decflg st \<and> k = 0 then (st, s)
         else let strip = (\<not> a_trail st \<and> a_decflg st);
                  s = (if strip then asc_strip s else s);
                  st = (if strip then st\<lparr>a_trail := True\<rparr> else st)
              in if strip \<and> deref s = CHR ''z'' then (st, s)
                 else let st = (if a_yy st ! 2 = 0
                                then st\<lparr>a_nexp := (if a_decflg st then a_nexp st + 1 else a_nexp st),
                                        a_yy := asc_push k (a_yy st)\<rparr>
                                else st\<lparr>a_lost := a_lost st OR k,
                                        a_nexp := (if a_decflg st then a_nexp st else a_nexp st - 1)\<rparr>)
                      in (st\<lparr>a_prec := a_prec st + 1\<rparr>, s))"

datatype asc_exit = Daldone | Expnt | Infinite | Zero | Aexit

text \<open>The words \<open>inf\<close>, \<open>infinity\<close> and \<open>nan\<close>; \<open>s\<close> points to the first letter.\<close>

definition asc_inf :: "string \<Rightarrow> asc_exit \<times> string" where
  "asc_inf s =
     (let s = tl s
      in if deref s \<notin> {CHR ''n'', CHR ''N''} then (Zero, s)
         else let s = tl s
              in if deref s \<notin> {CHR ''f'', CHR ''F''} then (Zero, s)
                 else let s = tl s
                      in (Infinite,
                          if deref s \<in> {CHR ''i'', CHR ''I''} \<and> deref (drop 1 s) \<in> {CHR ''n'', CHR ''N''}
                             \<and> deref (drop 2 s) \<in> {CHR ''i'', CHR ''I''}
                             \<and> deref (drop 3 s) \<in> {CHR ''t'', CHR ''T''}
                             \<and> deref (drop 4 s) \<in> {CHR ''y'', CHR ''Y''}
                          then drop 5 s else s))"

definition asc_nan :: "asc \<Rightarrow> string \<Rightarrow> asc_exit \<times> asc \<times> string" where
  "asc_nan st s =
     (let s = tl s
      in if deref s \<notin> {CHR ''a'', CHR ''A''} then (Zero, st, s)
         else let s = tl s
              in if deref s \<notin> {CHR ''n'', CHR ''N''} then (Zero, st, s)
                 else (Aexit, st\<lparr>a_yy := enan_NI16 (a_yy st)\<rparr>, tl s))"

lemma length_asc_strip [simp]: "length (asc_strip s) = length s"
proof -
  have "length (takeWhile (\<lambda>c. c = CHR ''0'') (rev (takeWhile c_isdigit s)))
      \<le> length (takeWhile c_isdigit s)"
    by (metis length_rev length_takeWhile_le)
  moreover have "length (takeWhile c_isdigit s) + length (dropWhile c_isdigit s) = length s"
    by (metis length_append takeWhile_dropWhile_id)
  ultimately show ?thesis by (simp add: asc_strip_def Let_def)
qed

lemma length_asc_digit [simp]: "length (snd (asc_digit st s)) = length s"
  by (simp add: asc_digit_def Let_def)

text \<open>
  The loop from label \<open>nxtcom\<close>. A NUL stops it, by the default of the switch (the decimal
  point of a locale is not a NUL).
\<close>

function asc_loop :: "char \<Rightarrow> asc \<Rightarrow> string \<Rightarrow> asc_exit \<times> asc \<times> string" where
  "asc_loop dec st [] = (Daldone, st, [])"
| "asc_loop dec st (c # s) =
     (if c_isdigit c
      then asc_loop dec (fst (asc_digit st (c # s))) (tl (snd (asc_digit st (c # s))))
      else if c = dec
      then if a_decflg st then (Daldone, st, c # s) else asc_loop dec (st\<lparr>a_decflg := True\<rparr>) s
      else if c = CHR ''z'' then asc_loop dec st s
      else if c \<in> {CHR ''E'', CHR ''e''} then (Expnt, st, c # s)
      else if c = CHR ''-''
      then if a_sgnflg st then (Daldone, st\<lparr>a_nsign := 0xffff\<rparr>, c # s)
           else asc_loop dec (st\<lparr>a_nsign := 0xffff, a_sgnflg := True\<rparr>) s
      else if c = CHR ''+''
      then if a_sgnflg st then (Daldone, st, c # s) else asc_loop dec (st\<lparr>a_sgnflg := True\<rparr>) s
      else if c \<in> {CHR ''i'', CHR ''I''}
      then let (ex, s) = asc_inf (c # s) in (ex, st, s)
      else if c \<in> {CHR ''n'', CHR ''N''} then asc_nan st (c # s)
      else (Daldone, st, c # s))"
  by pat_completeness auto
termination by (relation "measure (\<lambda>(dec, st, s). length s)") simp_all

section \<open>The exponent\<close>

fun asc_exp_digits :: "int \<Rightarrow> string \<Rightarrow> int \<times> string" where
  "asc_exp_digits ex [] = (ex, [])"
| "asc_exp_digits ex (c # s) =
     (if c_isdigit c \<and> ex < 4978 then asc_exp_digits (ex * 10 + digit_val c) s else (ex, c # s))"

text \<open>The exit, the exponent and the rest; the range errors set \<open>errno\<close>.\<close>

definition asc_expnt :: "string \<Rightarrow> asc_exit \<times> int \<times> bool \<times> string" where
  "asc_expnt s =
     (let s = tl s;
          neg = (deref s = CHR ''-'');
          s = (if neg then tl s else s);
          s = (if deref s = CHR ''+'' then tl s else s);
          (ex, s) = asc_exp_digits 0 s;
          ex = (if neg then - ex else ex)
      in if ex > 4932 then (Infinite, ex, True, s)
         else if ex < - 4977 then (Zero, ex, True, s)
         else (Daldone, ex, False, s))"

section \<open>Scaling by the power of ten\<close>

text \<open>Pad with trailing zeros while the number still fits.\<close>

function asc_pad :: "int \<Rightarrow> u16 list \<Rightarrow> int \<times> u16 list" where
  "asc_pad nexp yy =
     (if nexp > 0 \<and> yy ! 2 = 0
      then let xt = emovz yy (replicate NI 0);
               xt = eshup1 xt;
               xt = eshup1 xt;
               xt = eaddm yy xt;
               xt = eshup1 xt
           in if xt ! 2 \<noteq> 0 then (nexp, yy) else asc_pad (nexp - 1) (emovz xt yy)
      else (nexp, yy))"
  by pat_completeness auto
termination by (relation "measure (\<lambda>(nexp, yy). nat nexp)") auto

declare asc_pad.simps [simp del]

text \<open>
  The power of ten: \<open>p\<close> runs down the table; each list is the memory from one row on.
\<close>

fun asc_pow10 :: "u16 list list \<Rightarrow> int \<Rightarrow> int \<Rightarrow> u16 list \<Rightarrow> u16 list" where
  "asc_pow10 [] ex nexp xt = xt"
| "asc_pow10 (p # ps) ex nexp xt =
     (let xt = (if ex AND nexp \<noteq> 0 then emul p xt xt else xt);
          ex = ex + ex
      in if ex \<le> MAXP then asc_pow10 ps ex nexp xt else xt)"

definition etens_down :: "u16 list list" where
  "etens_down = map (\<lambda>i. concat (drop i etens)) (rev [0..<length etens])"

definition asc_scale :: "int \<Rightarrow> int \<Rightarrow> u16 list \<Rightarrow> int \<times> int \<times> u16 list" where
  "asc_scale nexp lexp yy =
     (if nexp = 0 then (0, lexp, yy)
      else let neg = (nexp < 0);
               nexp = (if neg then - nexp else nexp);
               (nexp, lexp, yy) =
                 (if neg \<and> nexp > 4096
                  then let tt = emovi 0 (hd etens);
                           lexp = lexp - uint (tt ! idxE);
                           (k, yy) = edivm tt yy
                       in (nexp - 4096, lexp + EXONE, yy)
                  else (nexp, lexp, yy));
               xt = asc_pow10 etens_down 1 nexp eone;
               tt = emovi 0 xt
           in if neg
              then let lexp = lexp - uint (tt ! idxE);
                       (k, yy) = edivm tt yy
                   in (k, lexp + EXONE, yy)
              else let lexp = lexp + uint (tt ! idxE);
                       (k, yy) = emulm tt yy
                   in (k, lexp - (EXONE - 1), yy))"

definition asc_daldone :: "int \<Rightarrow> int \<Rightarrow> int \<Rightarrow> u16 list \<Rightarrow> u16 list" where
  "asc_daldone ex nexp lost yy =
     (let nexp = ex - nexp;
          (nexp, yy) = asc_pad nexp yy;
          (k, yy) = enormlz yy
      in if k > NBITS then ecleaz yy
         else let lexp = (EXONE - 1 + NBITS) - k;
                  yy = emdnorm yy lost 0 lexp 64 NBITS;
                  lexp = uint (yy ! idxE);
                  (k, lexp, yy) = asc_scale nexp lexp yy
              in emdnorm yy k 0 lexp 64 64)"

section \<open>The conversion\<close>

text \<open>The number of characters consumed, whether a range error was set, the six words.\<close>

definition asctoe64 :: "char \<Rightarrow> string \<Rightarrow> u16 list \<Rightarrow> int \<times> bool \<times> u16 list" where
  "asctoe64 dec ss y =
     (let lenldstr = length (takeWhile c_isspace ss);
          lstr = dropWhile c_isspace ss;
          (ex, st, s) = asc_loop dec asc_init lstr;
          (ex, e, erange, s) = (if ex = Expnt then asc_expnt s else (ex, 0, False, s));
          yy = (case ex of
                  Daldone \<Rightarrow> asc_daldone e (a_nexp st) (a_lost st) (a_yy st)
                | Expnt \<Rightarrow> asc_daldone e (a_nexp st) (a_lost st) (a_yy st)
                | Infinite \<Rightarrow> (ecleaz (a_yy st))[idxE := 0x7fff]
                | Zero \<Rightarrow> ecleaz (a_yy st)
                | Aexit \<Rightarrow> a_yy st);
          yy = yy[0 := a_nsign st]
      in (int lenldstr + int (length lstr) - int (length s), erange, toe64 yy y))"

text \<open>The end offset, whether \<open>errno\<close> was set to \<open>ERANGE\<close>, the words of the result.\<close>

definition strtold :: "char \<Rightarrow> string \<Rightarrow> int \<times> bool \<times> u16 list" where
  "strtold dec s = asctoe64 dec s (replicate 6 0)"

section \<open>Ten times a number by shifts and additions\<close>

text \<open>
  The interface the decimal conversion uses of the significand arithmetic: a shift doubles and
  an addition adds, both modulo the size of the significand. Two ways of multiplying by ten
  follow; the routine uses the first for a digit and the second to pad with zeros.
\<close>

locale shift_add =
  fixes ok :: "'a \<Rightarrow> bool" and val :: "'a \<Rightarrow> nat" and shl :: "'a \<Rightarrow> 'a"
    and add :: "'a \<Rightarrow> 'a \<Rightarrow> 'a" and B :: nat
  assumes ok_shl: "ok x \<Longrightarrow> ok (shl x)"
    and ok_add: "ok x \<Longrightarrow> ok y \<Longrightarrow> ok (add x y)"
    and val_shl: "ok x \<Longrightarrow> val (shl x) = 2 * val x mod B"
    and val_add: "ok x \<Longrightarrow> ok y \<Longrightarrow> val (add x y) = (val x + val y) mod B"
begin

lemma val_shl2: "ok x \<Longrightarrow> val (shl (shl x)) = 4 * val x mod B"
  by (simp add: val_shl ok_shl mod_simps)

lemma ten_by_eight_and_two:
  "ok x \<Longrightarrow> val (add (shl (shl (shl x))) (shl x)) = 10 * val x mod B"
  by (simp add: val_shl val_add ok_shl ok_add mod_simps)

lemma ten_by_twice_five:
  "ok x \<Longrightarrow> val (shl (add x (shl (shl x)))) = 10 * val x mod B"
  by (simp add: val_shl val_add ok_shl ok_add mod_simps)

lemma ten_plus:
  assumes "ok x" "ok y" "10 * val x + val y < B"
  shows "val (add y (add (shl (shl (shl x))) (shl x))) = 10 * val x + val y"
proof -
  have "val (add y (add (shl (shl (shl x))) (shl x))) = (val y + 10 * val x mod B) mod B"
    using assms(1,2) val_add [OF assms(2), of "add (shl (shl (shl x))) (shl x)"]
    by (simp only: ten_by_eight_and_two ok_add ok_shl)
  also have "\<dots> = (10 * val x + val y) mod B" by (simp add: mod_simps add.commute)
  finally show ?thesis using assms(3) by simp
qed

end

interpretation sig: shift_add is_ei sigval eshup1 eaddm "65536 ^ 7"
  by unfold_locales (simp_all only: is_ei_shift is_ei_arith sigval_eshup1 sigval_eaddm)

section \<open>Accumulating the digits\<close>

lemma emovz_same: "is_ei y \<Longrightarrow> y ! 8 = 0 \<Longrightarrow> is_ei b \<Longrightarrow> emovz y b = y"
  using take_Suc_conv_app_nth [of 8 y] by (simp add: emovz_def is_ei_def)

lemma low_guard_zero: "is_ei y \<Longrightarrow> sigval y mod 65536 = 0 \<Longrightarrow> y ! 8 = 0"
  using last_word [of y] by (simp add: unsigned_eq_0_iff)

lemma asc_push_correct:
  assumes "is_ei y" "sigval y = v * 2 ^ 16" "v < 2 ^ 80" "0 \<le> k" "k \<le> 9"
  shows "is_ei (asc_push k y)" "sigval (asc_push k y) = (10 * v + nat k) * 2 ^ 16"
proof -
  have z9: "is_ei (replicate NI 0)" by (simp add: is_ei_def)
  have y1: "is_ei (eshup1 y)" using assms(1) by simp
  have "(2 * sigval y) mod SIG = 2 * sigval y" using assms(2,3) by (intro mod_less) simp
  then have v1: "sigval (eshup1 y) = 2 * sigval y" using sigval_eshup1 [OF assms(1)] by simp
  have "eshup1 y ! 8 = 0" using low_guard_zero [OF y1] v1 assms(2) by simp
  then have xt: "emovz (eshup1 y) (replicate NI 0) = eshup1 y" using emovz_same [OF y1 _ z9] by simp
  define d where "d = (ecleaz (eshup1 (eshup1 (eshup1 y))))[NI - 2 := word_of_int k]"
  have "is_ei (eshup1 (eshup1 (eshup1 y)))" using assms(1) by simp
  then have d9: "d = [0, 0, 0, 0, 0, 0, 0, word_of_int k, 0]"
    by (auto simp: d_def ecleaz_def is_ei_def eval_nat_numeral)
  have "unat (word_of_int k :: u16) = nat k"
    using assms(4,5) by (simp add: unat_eq_nat_uint uint_word_of_int)
  then have d: "is_ei d" "sigval d = nat k * 2 ^ 16" by (simp_all add: d9 is_ei_def sigval_def)
  have p: "asc_push k y = eaddm d (eaddm (eshup1 (eshup1 (eshup1 y))) (eshup1 y))"
    unfolding asc_push_def Let_def xt d_def by simp
  have "10 * (v * 2 ^ 16) + nat k * 2 ^ 16 < 2 ^ 112" using assms(3,5) by simp
  then have lt: "10 * sigval y + sigval d < 65536 ^ 7" using assms(2) d(2) by simp
  show "is_ei (asc_push k y)" using assms(1) d(1) by (simp add: p)
  have "sigval (asc_push k y) = 10 * sigval y + sigval d"
    unfolding p by (rule sig.ten_plus [OF assms(1) d(1) lt])
  then show "sigval (asc_push k y) = (10 * v + nat k) * 2 ^ 16"
    using assms(2) d(2) by (simp only: add_mult_distrib mult.assoc)
qed

text \<open>The value of a text of digits.\<close>

definition dec_value :: "nat \<Rightarrow> string \<Rightarrow> nat" where
  "dec_value v ds = foldl (\<lambda>v c. 10 * v + nat (digit_val c)) v ds"

lemma dec_value_simps [simp]:
  "dec_value v [] = v" "dec_value v (c # ds) = dec_value (10 * v + nat (digit_val c)) ds"
  by (simp_all add: dec_value_def)

lemma dec_value_ge: "v \<le> dec_value v ds"
proof (induction ds arbitrary: v)
  case (Cons c ds)
  have "v \<le> 10 * v + nat (digit_val c)" by simp
  also have "\<dots> \<le> dec_value v (c # ds)" using Cons.IH by simp
  finally show ?case .
qed simp

text \<open>The state after the digits of an integer: only the significand and the count changed.\<close>

definition asc_inv :: "asc \<Rightarrow> nat \<Rightarrow> bool" where
  "asc_inv st v \<longleftrightarrow> is_ei (a_yy st) \<and> sigval (a_yy st) = v * 2 ^ 16 \<and> \<not> a_decflg st
     \<and> 0 \<le> a_prec st \<and> (a_prec st = 0 \<longrightarrow> v = 0)"

lemma asc_digit_int:
  assumes "asc_inv st v" "v < 2 ^ 80" "c_isdigit c"
  shows "snd (asc_digit st (c # s)) = c # s"
    "asc_inv (fst (asc_digit st (c # s))) (10 * v + nat (digit_val c))"
    "a_lost (fst (asc_digit st (c # s))) = a_lost st" "a_nexp (fst (asc_digit st (c # s))) = a_nexp st"
    "a_nsign (fst (asc_digit st (c # s))) = a_nsign st"
proof -
  note i = assms(1) [unfolded asc_inv_def]
  have k: "0 \<le> digit_val c" "digit_val c \<le> 9" using assms(3) by (simp_all add: c_isdigit_def)
  have "sigval (a_yy st) < LOW6" using i assms(2) by simp
  then have g: "a_yy st ! 2 = 0" using guard_zero_iff i by simp
  note p = asc_push_correct [OF _ _ assms(2) k, of "a_yy st"]
  define st' where "st' = st\<lparr>a_yy := asc_push (digit_val c) (a_yy st), a_prec := a_prec st + 1\<rparr>"
  have d: "asc_digit st (c # s) = (if a_prec st = 0 \<and> digit_val c = 0 then (st, c # s) else (st', c # s))"
    using i g by (cases st) (simp add: asc_digit_def Let_def deref_def st'_def)
  have "asc_inv st' (10 * v + nat (digit_val c))"
    using i p by (simp add: asc_inv_def st'_def)
  then show "snd (asc_digit st (c # s)) = c # s"
    "asc_inv (fst (asc_digit st (c # s))) (10 * v + nat (digit_val c))"
    "a_lost (fst (asc_digit st (c # s))) = a_lost st" "a_nexp (fst (asc_digit st (c # s))) = a_nexp st"
    "a_nsign (fst (asc_digit st (c # s))) = a_nsign st"
    using assms(1) i by (auto simp: d st'_def)
qed

lemma asc_loop_digits:
  assumes "asc_inv st v" "list_all c_isdigit ds" "dec_value v ds < 2 ^ 80"
  shows "\<exists>st'. asc_loop dec st (ds @ rest) = asc_loop dec st' rest \<and> asc_inv st' (dec_value v ds)
    \<and> a_lost st' = a_lost st \<and> a_nexp st' = a_nexp st \<and> a_nsign st' = a_nsign st"
  using assms
proof (induction ds arbitrary: st v)
  case Nil
  then show ?case by auto
next
  case (Cons c ds)
  have "v \<le> dec_value v (c # ds)" by (rule dec_value_ge)
  then have v: "v < 2 ^ 80" using Cons.prems(3) by (rule le_less_trans)
  have c: "c_isdigit c" "list_all c_isdigit ds" using Cons.prems(2) by simp_all
  note d = asc_digit_int [OF Cons.prems(1) v c(1), of "ds @ rest"]
  have "asc_loop dec st ((c # ds) @ rest) = asc_loop dec (fst (asc_digit st (c # ds @ rest))) (ds @ rest)"
    using c(1) d(1) by simp
  moreover have "dec_value (10 * v + nat (digit_val c)) ds < 2 ^ 80" using Cons.prems(3) by simp
  ultimately show ?case using Cons.IH [OF d(2) c(2)] d(3-5) by auto
qed

text \<open>What may follow a number: the end of the text or a character that the scanner refuses.\<close>

definition num_end :: "char \<Rightarrow> string \<Rightarrow> bool" where
  "num_end dec s \<longleftrightarrow> (case s of [] \<Rightarrow> True | c # _ \<Rightarrow> \<not> c_isdigit c \<and> c \<noteq> dec \<and> c \<notin> set ''zEe-+iInN'')"

lemma asc_loop_end: "num_end dec s \<Longrightarrow> asc_loop dec st s = (Daldone, st, s)"
  by (auto simp: num_end_def split: list.splits)

definition sign_text :: "string \<Rightarrow> bool" where
  "sign_text s \<longleftrightarrow> s \<in> {'''', ''+'', ''-''}"

lemma asc_loop_integer:
  assumes "sign_text sg" "list_all c_isdigit ds" "ds \<noteq> []" "num_end dec rest" "dec_value 0 ds < 2 ^ 80"
    "dec \<notin> {CHR ''+'', CHR ''-''}"
  obtains st where "asc_loop dec asc_init (sg @ ds @ rest) = (Daldone, st, rest)"
    "is_ei (a_yy st)" "sigval (a_yy st) = dec_value 0 ds * 2 ^ 16" "a_lost st = 0" "a_nexp st = 0"
    "a_nsign st = (if sg = ''-'' then 0xffff else 0)"
proof -
  define st0 where "st0 = (if sg = ''-'' then asc_init\<lparr>a_nsign := 0xffff, a_sgnflg := True\<rparr>
    else if sg = ''+'' then asc_init\<lparr>a_sgnflg := True\<rparr> else asc_init)"
  have s: "asc_loop dec asc_init (sg @ ds @ rest) = asc_loop dec st0 (ds @ rest)"
    using assms(1,6) by (auto simp: st0_def sign_text_def asc_init_def c_isdigit_def digit_val_def)
  have "sigval (ecleaz (replicate NI 0)) = 0" by (simp add: ecleaz_def sigval_def)
  then have i: "asc_inv st0 0" and f: "a_lost st0 = 0" "a_nexp st0 = 0"
    "a_nsign st0 = (if sg = ''-'' then 0xffff else 0)"
    by (simp_all add: st0_def asc_inv_def asc_init_def is_ei_def ecleaz_def)
  obtain st where "asc_loop dec st0 (ds @ rest) = asc_loop dec st rest" "asc_inv st (dec_value 0 ds)"
    "a_lost st = 0" "a_nexp st = 0" "a_nsign st = a_nsign st0"
    using asc_loop_digits [OF i assms(2,5)] f by auto
  then show ?thesis using that [of st] s f asc_loop_end [OF assms(4)] by (simp add: asc_inv_def)
qed

section \<open>The conversion of an integer\<close>

lemma rne_multiple: "rne (a * 2 ^ k) k = a"
  by (simp add: rne_def round_by_def round_up_def)

lemma rne_shift: "j \<le> k \<Longrightarrow> rne (N * 2 ^ j) k = rne N (k - j)"
  by (simp add: rne_def round_by_shift)

text \<open>Rounding a normalised number at either precision, with nothing lost before.\<close>

lemma emdnorm_normalised:
  assumes s: "is_ei s" "sigval s < LOW6" "2 ^ 95 \<le> sigval s" and e: "0 < e" "e < 32766"
    and k: "round_place rndprc k e"
  defines "M \<equiv> rne (sigval s) k" and "y \<equiv> emdnorm s 0 0 e 64 rndprc"
  shows "is_ei y" "y ! 0 = s ! 0" "unat (y ! idxE) = nat e + of_bool (M = 2 ^ (96 - k))"
    "y ! idxM = 0" "sigval y = (if M = 2 ^ (96 - k) then 2 ^ 95 else M * 2 ^ k)"
proof -
  have l16: "2 ^ 16 \<le> sigval s" using s(3) by simp
  obtain j s1 where nz: "enormlz s = (j, s1)" by fastforce
  note n = enormlz_small_count [OF s(1,2) l16 nz]
  have "j = 0"
  proof (rule ccontr)
    assume "j \<noteq> 0"
    then have "1 \<le> nat j" using n(5) by linarith
    then have "(2 :: nat) ^ 1 \<le> 2 ^ nat j" by (rule power_increasing) simp
    then have "2 ^ 95 * 2 \<le> sigval s * 2 ^ nat j" using s(3) by (intro mult_le_mono) simp_all
    then show False using n(3,4) by simp
  qed
  then have rp: "round_place rndprc k (e - j)" and e0: "0 \<le> e - j" using k e by simp_all
  note em = emdnorm_normal(2) [OF s(1,2) l16 nz e0 _ rp, of 64 0 0, folded y_def]
  have M: "round_by (sigval s * 2 ^ nat j) k (tie_up (sigval s * 2 ^ nat j) k 0 0) = M"
    by (simp add: M_def rne_def tie_up_def \<open>j = 0\<close>)
  have ne: "nat (e + 1) = nat e + 1" using e by linarith
  show "is_ei y" "y ! 0 = s ! 0" "unat (y ! idxE) = nat e + of_bool (M = 2 ^ (96 - k))"
    "y ! idxM = 0" "sigval y = (if M = 2 ^ (96 - k) then 2 ^ 95 else M * 2 ^ k)"
    using em [unfolded M] e \<open>j = 0\<close> ne by (auto split: if_splits)
qed

text \<open>The shift that normalises a number to 80 bits.\<close>

definition norm_shift :: "nat \<Rightarrow> nat \<Rightarrow> bool" where
  "norm_shift v k \<longleftrightarrow> 2 ^ 79 \<le> v * 2 ^ k \<and> v * 2 ^ k < 2 ^ 80"

lemma norm_shift_unique:
  assumes "norm_shift v k" "norm_shift v l"
  shows "k = l"
proof -
  have less: "\<not> a < b" if "norm_shift v a" "norm_shift v b" for a b
  proof
    assume "a < b"
    then have "(2 :: nat) ^ (a + 1) \<le> 2 ^ b" by (intro power_increasing) simp_all
    then have "v * 2 ^ (a + 1) \<le> v * 2 ^ b" by (rule mult_le_mono2)
    moreover have "v * 2 ^ (a + 1) = 2 * (v * 2 ^ a)" by simp
    moreover have "2 * 2 ^ 79 = (2 ^ 80 :: nat)" by simp
    ultimately show False using that unfolding norm_shift_def by linarith
  qed
  show ?thesis using less [OF assms] less [OF assms(2,1)] by simp
qed

lemma asc_daldone_integer:
  assumes y: "is_ei y" "sigval y = v * 2 ^ 16" "0 < v" "v < 2 ^ 80" and k: "norm_shift v k"
  defines "M \<equiv> rne (v * 2 ^ k) 16" and "r \<equiv> asc_daldone 0 0 0 y"
  shows "is_ei r" "r ! idxM = 0" "unat (r ! idxE) = 16462 - k + of_bool (M = 2 ^ 64)"
    "sigval r div 2 ^ 32 = (if M = 2 ^ 64 then 2 ^ 63 else M)"
proof -
  have lt: "sigval y < LOW6" "2 ^ 16 \<le> sigval y" using y(2-4) by simp_all
  obtain j y1 where nz: "enormlz y = (j, y1)" by fastforce
  note n = enormlz_small_count [OF y(1) lt nz]
  have "norm_shift v (nat j)" using n(3,4,7) y(2) by (simp add: norm_shift_def)
  then have kj: "nat j = k" "j = int k" "k < 80" using norm_shift_unique [OF k] n(5,6) by auto
  have v1: "sigval y1 = v * 2 ^ k * 2 ^ 16" using n(3) y(2) kj(1) by simp
  define e where "e = 16382 + 80 - j"
  have e: "0 < e" "e < 32766" "nat e = 16462 - k" using kj by (auto simp: e_def)
  have rp: "round_place 80 16 e" "round_place 64 32 e" using e(1) by (simp_all add: round_place_def)
  define y2 where "y2 = emdnorm y1 0 0 e 64 80"
  have r1: "rne (sigval y1) 16 = v * 2 ^ k" unfolding v1 by (rule rne_multiple)
  have "v * 2 ^ k \<noteq> 2 ^ (96 - 16)" using k by (simp add: norm_shift_def)
  then have y2: "is_ei y2" "unat (y2 ! idxE) = nat e" "sigval y2 = sigval y1"
    using emdnorm_normalised [OF n(1,4,7) e(1,2) rp(1), folded y2_def, unfolded r1] v1 by simp_all
  have ue: "uint (y2 ! idxE) = e" using y2(2) e(1) by (simp add: uint_nat)
  have r: "r = emdnorm y2 0 0 e 64 64"
  proof -
    have "asc_pad 0 y = (0, y)" by (simp add: asc_pad.simps)
    then show ?thesis
      using nz n(6) ue by (simp add: r_def asc_daldone_def asc_scale_def y2_def e_def Let_def)
  qed
  have r2: "rne (sigval y2) 32 = M"
    unfolding y2(3) v1 M_def using rne_shift [of 16 32 "v * 2 ^ k"] by simp
  have s2: "sigval y2 < LOW6" "2 ^ 95 \<le> sigval y2" unfolding y2(3) by (rule n(4), rule n(7))
  note f = emdnorm_normalised [OF y2(1) s2 e(1,2) rp(2), folded r, unfolded r2]
  have p: "(2 :: nat) ^ (96 - 32) = 2 ^ 64" "(2 :: nat) ^ 95 = 2 ^ 63 * 2 ^ 32" by simp_all
  note f = f [unfolded p]
  show "is_ei r" "r ! idxM = 0" "unat (r ! idxE) = 16462 - k + of_bool (M = 2 ^ 64)"
    using f e(3) by simp_all
  show "sigval r div 2 ^ 32 = (if M = 2 ^ 64 then 2 ^ 63 else M)" using f(5) by simp
qed

lemma strtold_integer:
  assumes sp: "list_all c_isspace sp" and sg: "sign_text sg" and ds: "list_all c_isdigit ds" "ds \<noteq> []"
    and rest: "num_end dec rest" and dec: "dec \<notin> {CHR ''+'', CHR ''-''}"
    and v: "0 < dec_value 0 ds" "dec_value 0 ds < 2 ^ 80" and k: "norm_shift (dec_value 0 ds) k"
  defines "M \<equiv> rne (dec_value 0 ds * 2 ^ k) 16"
  defines "r \<equiv> strtold dec (sp @ sg @ ds @ rest)"
  shows "fst r = int (length (sp @ sg @ ds))" "\<not> fst (snd r)" "length (snd (snd r)) = 6"
    "wval (rev (take 4 (snd (snd r)))) = (if M = 2 ^ 64 then 2 ^ 63 else M)"
    "unat (snd (snd r) ! 4) = 16462 - k + of_bool (M = 2 ^ 64) + (if sg = ''-'' then 32768 else 0)"
proof -
  obtain st where l: "asc_loop dec asc_init (sg @ ds @ rest) = (Daldone, st, rest)"
    and st: "is_ei (a_yy st)" "sigval (a_yy st) = dec_value 0 ds * 2 ^ 16" "a_lost st = 0" "a_nexp st = 0"
    "a_nsign st = (if sg = ''-'' then 0xffff else 0)"
    using asc_loop_integer [OF sg ds rest v(2) dec] by blast
  define y where "y = asc_daldone 0 0 0 (a_yy st)"
  note d = asc_daldone_integer [OF st(1,2) v k, folded y_def M_def]
  have ne: "\<not> c_isspace (hd (sg @ ds @ rest))" "sg @ ds @ rest \<noteq> []"
  proof -
    show "sg @ ds @ rest \<noteq> []" using ds by simp
    have "c_isdigit (hd ds)" using ds by (cases ds) simp_all
    then have "\<not> c_isspace (hd ds)" by (auto simp: c_isdigit_def c_isspace_def digit_val_def)
    then show "\<not> c_isspace (hd (sg @ ds @ rest))"
      using sg ds(2) by (auto simp: sign_text_def c_isspace_def)
  qed
  have w: "takeWhile c_isspace (sp @ sg @ ds @ rest) = sp"
    "dropWhile c_isspace (sp @ sg @ ds @ rest) = sg @ ds @ rest"
  proof -
    obtain x xs where x: "sg @ ds @ rest = x # xs" "\<not> c_isspace x"
      using ne by (cases "sg @ ds @ rest") simp_all
    show "takeWhile c_isspace (sp @ sg @ ds @ rest) = sp"
      "dropWhile c_isspace (sp @ sg @ ds @ rest) = sg @ ds @ rest"
      unfolding x(1) using sp x(2) by (simp_all add: takeWhile_append2 dropWhile_append2 list_all_iff)
  qed
  have r: "r = (int (length (sp @ sg @ ds)), False, toe64 (y[0 := a_nsign st]) (replicate 6 0))"
    unfolding r_def strtold_def asctoe64_def w Let_def l using st(3,4) by (simp add: y_def)
  have "1 * 2 ^ k \<le> dec_value 0 ds * 2 ^ k" using v(1) by (intro mult_le_mono1) simp
  also have "\<dots> < 2 ^ 80" using k unfolding norm_shift_def ..
  finally have "(2 :: nat) ^ k < 2 ^ 80" by simp
  then have k80: "k < 80" by (rule power_less_imp_less_exp [rotated]) simp
  have e: "0 < unat (y[0 := a_nsign st] ! idxE)" "unat (y[0 := a_nsign st] ! idxE) < 0x7fff"
    "is_ei (y[0 := a_nsign st])" "y[0 := a_nsign st] ! idxM = 0" "sigval (y[0 := a_nsign st]) = sigval y"
    "y[0 := a_nsign st] ! 0 = a_nsign st" "y[0 := a_nsign st] ! idxE = y ! idxE"
    using d(1-3) k80 by (auto simp: is_ei_def sigval_def)
  note t = toe64_normal [OF e(3,4,1,2), of "replicate 6 0"]
  show "fst r = int (length (sp @ sg @ ds))" "\<not> fst (snd r)" "length (snd (snd r)) = 6"
    "wval (rev (take 4 (snd (snd r)))) = (if M = 2 ^ 64 then 2 ^ 63 else M)"
    "unat (snd (snd r) ! 4) = 16462 - k + of_bool (M = 2 ^ 64) + (if sg = ''-'' then 32768 else 0)"
    unfolding r using t e d(3,4) st(5) by simp_all
qed

end
