(* ===== verification/Strto_Int.thy ===== *)
theory Strto_Int
  imports Prelude
begin

text \<open>
  \<open>strtoimax\<close>, \<open>strtoumax\<close>, \<open>wcstoimax\<close> and \<open>wcstoumax\<close> of \<open>mingwex\<close>
  (\<open>strtoll\<close>, \<open>strtoull\<close>, \<open>wcstoll\<close> and \<open>wcstoull\<close> are aliases of them).

  The narrow and the wide routines have the same bodies over different character types; what
  differs (\<open>isspace\<close>, the macro \<open>ToNumber\<close>, the character constants) is a record of the
  character type. A text is a list without its terminating NUL, the accumulator is a 64 bit
  word with its wrap-around, the end pointer is an offset into the text.

  The locale \<open>char_type\<close> states what the conversion needs of the character type; the theorems
  are proved in it and hold for both types by interpretation.
\<close>

section \<open>Character types\<close>

record 'c ctype =
  ct_space :: "'c \<Rightarrow> bool"
  ct_num :: "'c \<Rightarrow> int"
  ct_lit :: "char \<Rightarrow> 'c"

definition to_number_code :: "int \<Rightarrow> int" where
  "to_number_code k =
     (if 48 \<le> k \<and> k \<le> 57 then k - 48
      else if 65 \<le> k \<and> k \<le> 90 then k - 65 + 10
      else if 97 \<le> k \<and> k \<le> 122 then k - 97 + 10
      else - 1)"

definition ToNumber :: "char \<Rightarrow> int" where
  "ToNumber c = to_number_code (of_char c)"

definition ToWNumber :: "u16 \<Rightarrow> int" where
  "ToWNumber w = to_number_code (uint w)"

definition space_code :: "int \<Rightarrow> bool" where
  "space_code k \<longleftrightarrow> k = 32 \<or> 9 \<le> k \<and> k \<le> 13"

definition narrow :: "char ctype" where
  "narrow = \<lparr> ct_space = (\<lambda>c. space_code (of_char c)), ct_num = ToNumber, ct_lit = (\<lambda>c. c) \<rparr>"

definition wide :: "u16 ctype" where
  "wide = \<lparr> ct_space = (\<lambda>w. space_code (uint w)), ct_num = ToWNumber, ct_lit = (\<lambda>c. of_char c) \<rparr>"

definition at_ptr :: "'c ctype \<Rightarrow> 'c list \<Rightarrow> 'c" where
  "at_ptr ct s = (case s of [] \<Rightarrow> ct_lit ct (CHR 0x00) | c # _ \<Rightarrow> c)"

section \<open>The parts of a conversion\<close>

datatype errno = EDOM | ERANGE

record conv =
  cv_value :: u64
  cv_end :: nat
  cv_errno :: "errno option"

definition valid_digit :: "int \<Rightarrow> int \<Rightarrow> bool" where
  "valid_digit n b \<longleftrightarrow> n \<ge> 0 \<and> n < b"

definition bad_base :: "int \<Rightarrow> bool" where
  "bad_base base \<longleftrightarrow> base < 0 \<or> base = 1 \<or> base > 36"

definition take_sign :: "'c ctype \<Rightarrow> 'c list \<Rightarrow> bool \<times> 'c list" where
  "take_sign ct p =
     (let minus = (at_ptr ct p = ct_lit ct CHR ''-'')
      in (minus, if minus \<or> at_ptr ct p = ct_lit ct CHR ''+'' then tl p else p))"

definition is_x :: "'c ctype \<Rightarrow> 'c list \<Rightarrow> bool" where
  "is_x ct p \<longleftrightarrow> at_ptr ct p = ct_lit ct CHR ''X'' \<or> at_ptr ct p = ct_lit ct CHR ''x''"

definition find_base :: "'c ctype \<Rightarrow> int \<Rightarrow> 'c list \<Rightarrow> int" where
  "find_base ct base p =
     (if base = 0
      then if at_ptr ct p = ct_lit ct CHR ''0''
           then if is_x ct (tl p) then 16 else 8
           else 10
      else base)"

definition skip_prefix :: "'c ctype \<Rightarrow> int \<Rightarrow> 'c list \<Rightarrow> 'c list" where
  "skip_prefix ct base p =
     (if base = 16 \<and> at_ptr ct p = ct_lit ct CHR ''0'' \<and> is_x ct (tl p) then drop 2 p else p)"

section \<open>Signed\<close>

abbreviation (input) INTMAX_MAX :: int where "INTMAX_MAX \<equiv> 9223372036854775807"
abbreviation (input) UINTMAX_MAX :: u64 where "UINTMAX_MAX \<equiv> 0xFFFFFFFFFFFFFFFF"

fun imax_scan :: "'c ctype \<Rightarrow> int \<Rightarrow> u64 \<Rightarrow> bool \<Rightarrow> 'c list \<Rightarrow> u64 \<times> bool \<times> 'c list" where
  "imax_scan ct base accum toobig [] = (accum, toobig, [])"
| "imax_scan ct base accum toobig (c # p) =
     (let n = ct_num ct c
      in if \<not> valid_digit n base then (accum, toobig, c # p)
         else if accum > word_of_int (INTMAX_MAX div base + 2)
         then imax_scan ct base accum True p
         else imax_scan ct base (word_of_int base * accum + word_of_int n) toobig p)"

definition imax_body :: "'c ctype \<Rightarrow> 'c list \<Rightarrow> int \<Rightarrow> conv" where
  "imax_body ct nptr base =
     (if bad_base base then \<lparr> cv_value = 0, cv_end = 0, cv_errno = Some EDOM \<rparr>
      else let p = dropWhile (ct_space ct) nptr;
               (minus, p) = take_sign ct p;
               base = find_base ct base p;
               p = skip_prefix ct base p;
               n = ct_num ct (at_ptr ct p);
               p = tl p
           in if \<not> valid_digit n base then \<lparr> cv_value = 0, cv_end = 0, cv_errno = None \<rparr>
              else let (accum, toobig, p) = imax_scan ct base (word_of_int n) False p;
                       endp = length nptr - length p;
                       toobig = (if minus
                                 then if accum > word_of_int INTMAX_MAX + 1 then True else toobig
                                 else if accum > word_of_int INTMAX_MAX then True else toobig)
                   in if toobig
                      then \<lparr> cv_value = (if minus then word_of_int (- INTMAX_MAX - 1) else word_of_int INTMAX_MAX),
                             cv_end = endp, cv_errno = Some ERANGE \<rparr>
                      else \<lparr> cv_value = (if minus then - accum else accum), cv_end = endp, cv_errno = None \<rparr>)"

definition strtoimax :: "char list \<Rightarrow> int \<Rightarrow> conv" where
  "strtoimax nptr base = imax_body narrow nptr base"

definition wcstoimax :: "u16 list \<Rightarrow> int \<Rightarrow> conv" where
  "wcstoimax nptr base = imax_body wide nptr base"

section \<open>Unsigned\<close>

fun umax_scan :: "'c ctype \<Rightarrow> int \<Rightarrow> u64 \<Rightarrow> bool \<Rightarrow> 'c list \<Rightarrow> u64 \<times> bool \<times> 'c list" where
  "umax_scan ct base accum toobig [] = (accum, toobig, [])"
| "umax_scan ct base accum toobig (c # p) =
     (let n = ct_num ct c
      in if \<not> valid_digit n base then (accum, toobig, c # p)
         else let nxt = word_of_int base * accum + word_of_int n
              in if accum > UINTMAX_MAX div word_of_int base + 1 \<or> nxt < accum
                 then umax_scan ct base accum True p
                 else umax_scan ct base nxt toobig p)"

definition umax_body :: "'c ctype \<Rightarrow> 'c list \<Rightarrow> int \<Rightarrow> conv" where
  "umax_body ct nptr base =
     (if bad_base base then \<lparr> cv_value = 0, cv_end = 0, cv_errno = Some EDOM \<rparr>
      else let p = dropWhile (ct_space ct) nptr;
               (minus, p) = take_sign ct p;
               base = find_base ct base p;
               p = skip_prefix ct base p;
               n = ct_num ct (at_ptr ct p);
               p = tl p
           in if \<not> valid_digit n base then \<lparr> cv_value = 0, cv_end = 0, cv_errno = None \<rparr>
              else let (accum, toobig, p) = umax_scan ct base (word_of_int n) False p;
                       endp = length nptr - length p
                   in if toobig
                      then \<lparr> cv_value = UINTMAX_MAX, cv_end = endp, cv_errno = Some ERANGE \<rparr>
                      else \<lparr> cv_value = (if minus then - accum else accum), cv_end = endp, cv_errno = None \<rparr>)"

definition strtoumax :: "char list \<Rightarrow> int \<Rightarrow> conv" where
  "strtoumax nptr base = umax_body narrow nptr base"

definition wcstoumax :: "u16 list \<Rightarrow> int \<Rightarrow> conv" where
  "wcstoumax nptr base = umax_body wide nptr base"

section \<open>What a character type must provide\<close>

locale char_type =
  fixes ct :: "'c ctype"
  assumes lit_inject: "ct_lit ct c = ct_lit ct d \<longleftrightarrow> c = d"
    and num_lit: "ct_num ct (ct_lit ct c) = ToNumber c"
    and space_num: "ct_space ct x \<Longrightarrow> ct_num ct x = - 1"
    and space_lit: "ct_space ct (ct_lit ct c) \<Longrightarrow> c \<noteq> CHR ''-'' \<and> c \<noteq> CHR ''+''"
    and num_range: "- 1 \<le> ct_num ct x \<and> ct_num ct x < 36"

lemma to_number_code_range: "- 1 \<le> to_number_code k \<and> to_number_code k < 36"
  by (simp add: to_number_code_def)

lemma space_to_number: "space_code k \<Longrightarrow> to_number_code k = - 1"
  by (auto simp: space_code_def to_number_code_def)

interpretation narrow: char_type narrow
proof
  show "ct_num narrow (ct_lit narrow c) = ToNumber c" for c by (simp add: narrow_def)
  show "ct_space narrow x \<Longrightarrow> ct_num narrow x = - 1" for x
    by (simp add: narrow_def ToNumber_def space_to_number)
  show "ct_space narrow (ct_lit narrow c) \<Longrightarrow> c \<noteq> CHR ''-'' \<and> c \<noteq> CHR ''+''" for c
    by (auto simp: narrow_def space_code_def)
  show "- 1 \<le> ct_num narrow x \<and> ct_num narrow x < 36" for x
    by (simp add: narrow_def ToNumber_def to_number_code_range)
qed (simp add: narrow_def)

interpretation wide: char_type wide
proof
  show "ct_lit wide c = ct_lit wide d \<longleftrightarrow> c = d" for c d
    by (simp add: wide_def) (metis of_char_eq_iff uint_of_char_16)
  show "ct_num wide (ct_lit wide c) = ToNumber c" for c
    by (simp add: wide_def ToNumber_def ToWNumber_def uint_of_char_16)
  show "ct_space wide x \<Longrightarrow> ct_num wide x = - 1" for x
    by (simp add: wide_def ToWNumber_def space_to_number)
  show "ct_space wide (ct_lit wide c) \<Longrightarrow> c \<noteq> CHR ''-'' \<and> c \<noteq> CHR ''+''" for c
    by (auto simp: wide_def space_code_def uint_of_char_16)
  show "- 1 \<le> ct_num wide x \<and> ct_num wide x < 36" for x
    by (simp add: wide_def ToWNumber_def to_number_code_range)
qed

section \<open>The value of the digits\<close>

definition digits_value :: "'c ctype \<Rightarrow> nat \<Rightarrow> nat \<Rightarrow> 'c list \<Rightarrow> nat" where
  "digits_value ct b v ds = foldl (\<lambda>v c. b * v + nat (ct_num ct c)) v ds"

lemma digits_value_simps [simp]:
  "digits_value ct b v [] = v"
  "digits_value ct b v (c # ds) = digits_value ct b (b * v + nat (ct_num ct c)) ds"
  by (simp_all add: digits_value_def)

definition digits_of :: "'c ctype \<Rightarrow> nat \<Rightarrow> 'c list \<Rightarrow> bool" where
  "digits_of ct b ds \<longleftrightarrow> list_all (\<lambda>c. valid_digit (ct_num ct c) (int b)) ds"

text \<open>The text after the digits.\<close>

definition no_digit :: "'c ctype \<Rightarrow> nat \<Rightarrow> 'c list \<Rightarrow> bool" where
  "no_digit ct b s \<longleftrightarrow> (case s of [] \<Rightarrow> True | c # _ \<Rightarrow> \<not> valid_digit (ct_num ct c) (int b))"

lemma unat_digit: "0 \<le> n \<Longrightarrow> n < 36 \<Longrightarrow> unat (word_of_int n :: u64) = nat n"
  by (simp add: unat_eq_nat_uint uint_word_of_int)

lemma unat_base: "b \<le> 36 \<Longrightarrow> unat (word_of_int (int b) :: u64) = b"
  by (simp only: of_int_of_nat_eq unat_of_nat) simp

text \<open>One step of the accumulator, and the two overflow tests.\<close>

lemma unat_accum:
  fixes accum :: u64
  assumes "0 \<le> n" "n < int b" "b \<le> 36"
  shows "unat (word_of_int (int b) * accum + word_of_int n) = (b * unat accum + nat n) mod 2 ^ 64"
proof -
  note b = unat_base [OF assms(3)]
  have n: "unat (word_of_int n :: u64) = nat n" using assms by (intro unat_digit) simp_all
  show ?thesis by (simp only: unat_word_ariths b n mod_add_left_eq) simp
qed

lemma imax_limit:
  assumes "2 \<le> b" "b \<le> 36"
  shows "unat (word_of_int (INTMAX_MAX div int b + 2) :: u64) = 9223372036854775807 div b + 2"
proof -
  have "9223372036854775807 div b \<le> 9223372036854775807 div 2"
    using assms(1) by (intro div_le_mono2) simp_all
  then have lt: "9223372036854775807 div b + 2 < 18446744073709551616" by simp
  have "INTMAX_MAX div int b + 2 = int (9223372036854775807 div b + 2)"
    by (simp only: of_nat_add of_nat_div of_nat_numeral)
  then have "(word_of_int (INTMAX_MAX div int b + 2) :: u64) = of_nat (9223372036854775807 div b + 2)"
    by (simp only: of_int_of_nat_eq)
  then show ?thesis using lt by (simp only: unat_of_nat) simp
qed

lemma imax_step:
  fixes accum :: u64
  assumes b: "2 \<le> b" "b \<le> 36" and n: "0 \<le> n" "n < int b" and v: "unat accum = v"
  shows "accum > word_of_int (INTMAX_MAX div int b + 2) \<Longrightarrow> 2 ^ 63 < b * v + nat n"
    "\<not> accum > word_of_int (INTMAX_MAX div int b + 2) \<Longrightarrow>
       unat (word_of_int (int b) * accum + word_of_int n) = b * v + nat n"
proof -
  define q where "q = (9223372036854775807 :: nat) div b"
  have q: "q * b + 9223372036854775807 mod b = 9223372036854775807" by (simp add: q_def)
  have r: "9223372036854775807 mod b < b" using b(1) by simp
  have gt: "accum > word_of_int (INTMAX_MAX div int b + 2) \<longleftrightarrow> q + 2 < v"
    unfolding word_less_nat_alt imax_limit [OF b] v q_def ..
  show "2 ^ 63 < b * v + nat n" if "accum > word_of_int (INTMAX_MAX div int b + 2)"
  proof -
    have "b * (q + 3) \<le> b * v" using that gt by (intro mult_le_mono2) simp
    then have "q * b + 3 * b \<le> b * v" by (simp add: algebra_simps)
    then have "9223372036854775808 < b * v" using q r b(1) by linarith
    then show ?thesis by simp
  qed
  show "unat (word_of_int (int b) * accum + word_of_int n) = b * v + nat n"
    if "\<not> accum > word_of_int (INTMAX_MAX div int b + 2)"
  proof -
    have "b * v \<le> b * (q + 2)" using that gt by (intro mult_le_mono2) simp
    then have "b * v \<le> q * b + 2 * b" by (simp add: algebra_simps)
    moreover have "nat n < 36" using b(2) n by linarith
    ultimately have "b * v + nat n < 18446744073709551616" using q b(2) by linarith
    then show ?thesis unfolding unat_accum [OF n b(2)] v by simp
  qed
qed

lemma umax_step:
  fixes accum :: u64
  assumes b: "2 \<le> b" "b \<le> 36" and n: "0 \<le> n" "n < int b" and v: "unat accum = v"
  defines "nxt \<equiv> word_of_int (int b) * accum + word_of_int n"
  shows "accum > UINTMAX_MAX div word_of_int (int b) + 1 \<or> nxt < accum \<longleftrightarrow> 2 ^ 64 \<le> b * v + nat n"
    "b * v + nat n < 2 ^ 64 \<Longrightarrow> unat nxt = b * v + nat n"
proof -
  define q where "q = (18446744073709551615 :: nat) div b"
  define r where "r = (18446744073709551615 :: nat) mod b"
  have q: "q * b + r = 18446744073709551615"
    unfolding q_def r_def by (rule div_mult_mod_eq)
  have r: "r < b" unfolding r_def using b(1) by simp
  have q2: "q \<le> 18446744073709551615 div 2" unfolding q_def using b(1) by (intro div_le_mono2) simp_all
  have "18446744073709551615 div 36 \<le> q" unfolding q_def using b by (intro div_le_mono2) simp_all
  then have q3: "100 < q" by simp
  have n36: "nat n < b" "nat n < 36" using n b(2) by linarith+
  note ub = unat_base [OF b(2)]
  have "unat UINTMAX_MAX = 18446744073709551615" by simp
  then have ud: "unat (UINTMAX_MAX div word_of_int (int b)) = q"
    unfolding unat_div ub q_def by (simp only:)
  have ul: "unat (UINTMAX_MAX div word_of_int (int b) + 1) = q + 1"
    unfolding unat_word_ariths(1) ud using q2 by simp
  have gt: "accum > UINTMAX_MAX div word_of_int (int b) + 1 \<longleftrightarrow> q + 1 < v"
    unfolding word_less_nat_alt ul v ..
  have nx: "unat nxt = (b * v + nat n) mod 2 ^ 64" unfolding nxt_def unat_accum [OF n b(2)] v ..
  have lt: "nxt < accum \<longleftrightarrow> (b * v + nat n) mod 2 ^ 64 < v"
    unfolding word_less_nat_alt nx v ..
  have K: "(2 :: nat) ^ 64 = 18446744073709551616" by simp
  show "b * v + nat n < 2 ^ 64 \<Longrightarrow> unat nxt = b * v + nat n" unfolding nx by (rule mod_less)
  show "accum > UINTMAX_MAX div word_of_int (int b) + 1 \<or> nxt < accum \<longleftrightarrow> 2 ^ 64 \<le> b * v + nat n"
    unfolding gt lt K
  proof (cases "q + 1 < v")
    case True
    then have "b * (q + 2) \<le> b * v" by (intro mult_le_mono2) simp
    then have "q * b + 2 * b \<le> b * v" by (simp add: algebra_simps)
    then have "18446744073709551616 \<le> b * v + nat n" using q r by linarith
    then show "q + 1 < v \<or> (b * v + nat n) mod 18446744073709551616 < v
      \<longleftrightarrow> 18446744073709551616 \<le> b * v + nat n" using True by blast
  next
    case False
    then have "b * v \<le> b * (q + 1)" by (intro mult_le_mono2) simp
    then have le: "b * v \<le> q * b + b" by (simp add: algebra_simps)
    have "(b * v + nat n) mod 18446744073709551616 < v \<longleftrightarrow> 18446744073709551616 \<le> b * v + nat n"
    proof (cases "18446744073709551616 \<le> b * v + nat n")
      case True
      have "q \<le> v"
      proof (rule ccontr)
        assume "\<not> q \<le> v"
        then have "b * (v + 1) \<le> b * q" by (intro mult_le_mono2) simp
        then have "b * v + b \<le> q * b" by (simp add: algebra_simps)
        then show False using True q n36 by linarith
      qed
      moreover have "(b * v + nat n) mod 18446744073709551616 \<le> b * v + nat n - 18446744073709551616"
        by (subst le_mod_geq [OF True]) (rule mod_less_eq_dividend)
      moreover have "b * v + nat n - 18446744073709551616 < 100" using le q b(2) n36 True by linarith
      ultimately show ?thesis using True q3 by linarith
    next
      case no: False
      have "1 * v \<le> b * v" using b(1) by (intro mult_le_mono1) simp
      then have "\<not> b * v + nat n < v" by linarith
      moreover have "(b * v + nat n) mod 18446744073709551616 = b * v + nat n"
        using no by (intro mod_less) linarith
      ultimately show ?thesis using no by simp
    qed
    then show "q + 1 < v \<or> (b * v + nat n) mod 18446744073709551616 < v
      \<longleftrightarrow> 18446744073709551616 \<le> b * v + nat n" using False by blast
  qed
qed

lemma digits_value_ge: "2 \<le> b \<Longrightarrow> v \<le> digits_value ct b v ds"
proof (induction ds arbitrary: v)
  case (Cons c ds)
  have "1 * v \<le> b * v" using Cons.prems by (intro mult_le_mono1) simp
  then have "v \<le> b * v + nat (ct_num ct c)" by linarith
  also have "\<dots> \<le> digits_value ct b v (c # ds)" using Cons by simp
  finally show ?case .
qed simp

text \<open>The scanning loops: the flag is up only beyond the limit, else the accumulator is exact.\<close>

lemma imax_scan_correct:
  assumes "2 \<le> b" "b \<le> 36" "digits_of ct b ds" "no_digit ct b rest"
    and "toobig \<Longrightarrow> 2 ^ 63 < v" "\<not> toobig \<Longrightarrow> unat accum = v"
  shows "\<exists>a' t'. imax_scan ct (int b) accum toobig (ds @ rest) = (a', t', rest)
    \<and> (t' \<longrightarrow> 2 ^ 63 < digits_value ct b v ds) \<and> (\<not> t' \<longrightarrow> unat a' = digits_value ct b v ds)"
  using assms(3,5,6)
proof (induction ds arbitrary: accum toobig v)
  case Nil
  then show ?case using assms(4) by (cases rest) (auto simp: no_digit_def Let_def)
next
  case (Cons c ds)
  define n where "n = ct_num ct c"
  have n: "valid_digit n (int b)" "0 \<le> n" "n < int b" and ds: "digits_of ct b ds"
    using Cons.prems(1) by (simp_all add: digits_of_def n_def valid_digit_def)
  have ge: "1 * v \<le> b * v" using assms(1) by (intro mult_le_mono1) simp
  define big where "big \<longleftrightarrow> accum > word_of_int (INTMAX_MAX div int b + 2)"
  define accum2 where "accum2 = word_of_int (int b) * accum + word_of_int n"
  have st: "imax_scan ct (int b) accum toobig ((c # ds) @ rest)
    = (if big then imax_scan ct (int b) accum True (ds @ rest)
       else imax_scan ct (int b) accum2 toobig (ds @ rest))"
    using n(1) by (simp add: Let_def big_def accum2_def flip: n_def)
  have v: "digits_value ct b v (c # ds) = digits_value ct b (b * v + nat n) ds" by (simp add: n_def)
  show ?case
  proof (cases big)
    case True
    have "2 ^ 63 < b * v + nat n"
    proof (cases toobig)
      case True
      then show ?thesis using Cons.prems(2) ge by linarith
    next
      case False
      then show ?thesis
        using imax_step(1) [OF assms(1,2) n(2,3) Cons.prems(3)] \<open>big\<close> by (simp add: big_def)
    qed
    then show ?thesis using Cons.IH [OF ds, of True "b * v + nat n" accum] True st v by simp
  next
    case False
    have "2 ^ 63 < b * v + nat n" if toobig using Cons.prems(2) that ge by linarith
    moreover have "unat accum2 = b * v + nat n" if "\<not> toobig"
      using imax_step(2) [OF assms(1,2) n(2,3) Cons.prems(3) [OF that]] False
      by (simp add: big_def accum2_def)
    ultimately show ?thesis using Cons.IH [OF ds, of toobig "b * v + nat n" accum2] False st v by simp
  qed
qed

lemma umax_scan_correct:
  assumes "2 \<le> b" "b \<le> 36" "digits_of ct b ds" "no_digit ct b rest"
    and "toobig \<Longrightarrow> 2 ^ 64 \<le> v" "\<not> toobig \<Longrightarrow> unat accum = v"
  shows "\<exists>a' t'. umax_scan ct (int b) accum toobig (ds @ rest) = (a', t', rest)
    \<and> (t' \<longrightarrow> 2 ^ 64 \<le> digits_value ct b v ds) \<and> (\<not> t' \<longrightarrow> unat a' = digits_value ct b v ds)"
  using assms(3,5,6)
proof (induction ds arbitrary: accum toobig v)
  case Nil
  then show ?case using assms(4) by (cases rest) (auto simp: no_digit_def Let_def)
next
  case (Cons c ds)
  define n where "n = ct_num ct c"
  have n: "valid_digit n (int b)" "0 \<le> n" "n < int b" and ds: "digits_of ct b ds"
    using Cons.prems(1) by (simp_all add: digits_of_def n_def valid_digit_def)
  have ge: "1 * v \<le> b * v" using assms(1) by (intro mult_le_mono1) simp
  define nxt where "nxt = word_of_int (int b) * accum + word_of_int n"
  define big where "big \<longleftrightarrow> accum > UINTMAX_MAX div word_of_int (int b) + 1 \<or> nxt < accum"
  have st: "umax_scan ct (int b) accum toobig ((c # ds) @ rest)
    = (if big then umax_scan ct (int b) accum True (ds @ rest)
       else umax_scan ct (int b) nxt toobig (ds @ rest))"
    using n(1) by (simp add: Let_def big_def nxt_def flip: n_def)
  have v: "digits_value ct b v (c # ds) = digits_value ct b (b * v + nat n) ds" by (simp add: n_def)
  have tb: "2 ^ 64 \<le> b * v + nat n" if toobig using Cons.prems(2) that ge by linarith
  note step = umax_step [OF assms(1,2) n(2,3) Cons.prems(3), folded nxt_def, folded big_def]
  show ?case
  proof (cases big)
    case True
    then have "2 ^ 64 \<le> b * v + nat n" using tb step(1) unfolding big_def by blast
    then show ?thesis using Cons.IH [OF ds, of True "b * v + nat n" accum] True st v by simp
  next
    case False
    then have "unat nxt = b * v + nat n" if "\<not> toobig"
      using step that unfolding big_def by (simp add: not_le)
    then show ?thesis using Cons.IH [OF ds, of toobig "b * v + nat n" nxt] tb False st v by simp
  qed
qed

section \<open>The shape of a subject sequence\<close>

text \<open>
  Which base \<open>b\<close> a text has for the argument \<open>base\<close>: given, or found from the leading digits,
  with or without the prefix \<open>pre\<close>.
\<close>

definition prefix_ok :: "'c ctype \<Rightarrow> int \<Rightarrow> nat \<Rightarrow> 'c list \<Rightarrow> 'c list \<Rightarrow> 'c list \<Rightarrow> bool" where
  "prefix_ok ct base b pre ds rest \<longleftrightarrow>
     pre = [] \<and> base = int b \<and> \<not> (b = 16 \<and> hd ds = ct_lit ct CHR ''0'' \<and> is_x ct (tl (ds @ rest)))
   \<or> pre = [] \<and> base = 0 \<and> b = 10 \<and> hd ds \<noteq> ct_lit ct CHR ''0''
   \<or> pre = [] \<and> base = 0 \<and> b = 8 \<and> hd ds = ct_lit ct CHR ''0'' \<and> \<not> is_x ct (tl (ds @ rest))
   \<or> pre \<in> {[ct_lit ct CHR ''0'', ct_lit ct CHR ''x''], [ct_lit ct CHR ''0'', ct_lit ct CHR ''X'']}
      \<and> base \<in> {0, 16} \<and> b = 16"

definition int_text ::
  "'c ctype \<Rightarrow> int \<Rightarrow> nat \<Rightarrow> 'c list \<Rightarrow> 'c list \<Rightarrow> 'c list \<Rightarrow> 'c list \<Rightarrow> 'c list \<Rightarrow> bool" where
  "int_text ct base b sp sg pre ds rest \<longleftrightarrow>
     list_all (ct_space ct) sp \<and> sg \<in> {[], [ct_lit ct CHR ''+''], [ct_lit ct CHR ''-'']}
     \<and> 2 \<le> b \<and> b \<le> 36 \<and> ds \<noteq> [] \<and> digits_of ct b ds \<and> no_digit ct b rest
     \<and> prefix_ok ct base b pre ds rest"

definition signed_value :: "'c ctype \<Rightarrow> nat \<Rightarrow> 'c list \<Rightarrow> 'c list \<Rightarrow> int" where
  "signed_value ct b sg ds =
     (if sg = [ct_lit ct CHR ''-''] then - int (digits_value ct b 0 ds) else int (digits_value ct b 0 ds))"

lemma sint_in_range: "- (2 ^ 63) \<le> k \<Longrightarrow> k < 2 ^ 63 \<Longrightarrow> sint (word_of_int k :: u64) = k"
  by (simp add: signed_take_bit_int_eq_self signed_of_int)

lemma word_of_nat_unat: "of_nat (unat x) = (x :: 'a::len word)"
  by simp

lemma at_ptr_simps [simp]:
  "at_ptr ct [] = ct_lit ct (CHR 0x00)" "at_ptr ct (c # s) = c"
  by (simp_all add: at_ptr_def)

context char_type
begin

lemma digit_not_sign:
  assumes "0 \<le> ct_num ct c"
  shows "c \<noteq> ct_lit ct CHR ''-''" "c \<noteq> ct_lit ct CHR ''+''" "\<not> ct_space ct c"
  using assms num_lit [of "CHR ''-''"] num_lit [of "CHR ''+''"] space_num [of c]
  by (auto simp: ToNumber_def to_number_code_def)

lemma num_zero: "ct_num ct (ct_lit ct CHR ''0'') = 0"
  by (simp add: num_lit ToNumber_def to_number_code_def)

lemma body_head:
  assumes "int_text ct base b sp sg pre ds rest"
  obtains c s where "pre @ ds @ rest = c # s" "0 \<le> ct_num ct c"
proof -
  note t = assms [unfolded int_text_def prefix_ok_def]
  obtain d ds' where ds: "ds = d # ds'" "0 \<le> ct_num ct d"
    using t by (cases ds) (auto simp: digits_of_def valid_digit_def)
  show ?thesis
  proof (cases pre)
    case Nil
    then show ?thesis using that ds by simp
  next
    case (Cons c s)
    then have "c = ct_lit ct CHR ''0''" using t by auto
    then show ?thesis using that [of c "s @ ds @ rest"] Cons num_zero by simp
  qed
qed

lemma text_parse:
  assumes "int_text ct base b sp sg pre ds rest"
  shows "\<not> bad_base base"
    "dropWhile (ct_space ct) (sp @ sg @ pre @ ds @ rest) = sg @ pre @ ds @ rest"
    "take_sign ct (sg @ pre @ ds @ rest) = (sg = [ct_lit ct CHR ''-''], pre @ ds @ rest)"
    "find_base ct base (pre @ ds @ rest) = int b"
    "skip_prefix ct (int b) (pre @ ds @ rest) = ds @ rest"
proof -
  note t = assms [unfolded int_text_def prefix_ok_def]
  obtain c s where cs: "pre @ ds @ rest = c # s" "0 \<le> ct_num ct c" using body_head [OF assms] .
  note c = digit_not_sign [OF cs(2)]
  have ns: "\<not> ct_space ct (ct_lit ct CHR ''-'')" "\<not> ct_space ct (ct_lit ct CHR ''+'')"
    using space_lit by blast+
  show "\<not> bad_base base" using t by (auto simp: bad_base_def)
  show "take_sign ct (sg @ pre @ ds @ rest) = (sg = [ct_lit ct CHR ''-''], pre @ ds @ rest)"
    using t c lit_inject unfolding cs(1) by (auto simp: take_sign_def Let_def)
  show "dropWhile (ct_space ct) (sp @ sg @ pre @ ds @ rest) = sg @ pre @ ds @ rest"
    using t c ns unfolding cs(1) by (auto simp: dropWhile_append2 list_all_iff)
  obtain d ds' where ds: "ds = d # ds'" "0 \<le> ct_num ct d"
    using t by (cases ds) (auto simp: digits_of_def valid_digit_def)
  have x: "is_x ct (ct_lit ct CHR ''x'' # q)" "is_x ct (ct_lit ct CHR ''X'' # q)" for q
    by (simp_all add: is_x_def)
  show "find_base ct base (pre @ ds @ rest) = int b"
    using t x ds by (auto simp: find_base_def)
  show "skip_prefix ct (int b) (pre @ ds @ rest) = ds @ rest"
    using t x ds by (auto simp: skip_prefix_def)
qed

lemma first_digit:
  assumes "int_text ct base b sp sg pre ds rest"
  obtains d ds' where "ds = d # ds'" "valid_digit (ct_num ct d) (int b)" "digits_of ct b ds'"
    "unat (word_of_int (ct_num ct d) :: u64) = nat (ct_num ct d)"
proof -
  note t = assms [unfolded int_text_def]
  obtain d ds' where ds: "ds = d # ds'" using t by (cases ds) auto
  then have v: "valid_digit (ct_num ct d) (int b)" "digits_of ct b ds'"
    using t by (simp_all add: digits_of_def)
  then have "unat (word_of_int (ct_num ct d) :: u64) = nat (ct_num ct d)"
    using t by (intro unat_digit) (simp_all add: valid_digit_def)
  then show ?thesis using that ds v by blast
qed

lemma imax_text:
  assumes t: "int_text ct base b sp sg pre ds rest"
  defines "r \<equiv> imax_body ct (sp @ sg @ pre @ ds @ rest) base" and "v \<equiv> signed_value ct b sg ds"
  shows "cv_end r = length (sp @ sg @ pre @ ds)"
    "sint (cv_value r) = max (- (2 ^ 63)) (min (2 ^ 63 - 1) v)"
    "cv_errno r = (if - (2 ^ 63) \<le> v \<and> v < 2 ^ 63 then None else Some ERANGE)"
proof -
  note p = text_parse [OF t] and t' = t [unfolded int_text_def]
  obtain d ds' where ds: "ds = d # ds'" and d: "valid_digit (ct_num ct d) (int b)" "digits_of ct b ds'"
    "unat (word_of_int (ct_num ct d) :: u64) = nat (ct_num ct d)"
    using first_digit [OF t] .
  define V where "V = digits_value ct b 0 ds"
  have V: "V = digits_value ct b (nat (ct_num ct d)) ds'" by (simp add: V_def ds)
  obtain a tb where sc: "imax_scan ct (int b) (word_of_int (ct_num ct d)) False (ds' @ rest) = (a, tb, rest)"
    and big: "tb \<Longrightarrow> 2 ^ 63 < V" and ok: "\<not> tb \<Longrightarrow> unat a = V"
    using imax_scan_correct [of b ct ds' rest False "nat (ct_num ct d)" "word_of_int (ct_num ct d)"]
      t' d V by auto
  define mi where "mi \<longleftrightarrow> sg = [ct_lit ct CHR ''-'']"
  define over where "over \<longleftrightarrow> (if mi then 2 ^ 63 < V else 2 ^ 63 \<le> V)"
  have ov: "(if mi then if a > word_of_int INTMAX_MAX + 1 then True else tb
     else if a > word_of_int INTMAX_MAX then True else tb) = over"
    using big ok by (cases tb) (auto simp: over_def word_less_nat_alt)
  have r: "r = (if over then \<lparr> cv_value = (if mi then word_of_int (- INTMAX_MAX - 1) else word_of_int INTMAX_MAX),
        cv_end = length (sp @ sg @ pre @ ds), cv_errno = Some ERANGE \<rparr>
      else \<lparr> cv_value = (if mi then - a else a), cv_end = length (sp @ sg @ pre @ ds), cv_errno = None \<rparr>)"
    using p ds d(1) sc ov unfolding r_def imax_body_def Let_def
    by (simp add: mi_def [symmetric])
  have v: "v = (if mi then - int V else int V)" by (simp add: v_def signed_value_def mi_def V_def)
  show "cv_end r = length (sp @ sg @ pre @ ds)" by (simp add: r)
  show "cv_errno r = (if - (2 ^ 63) \<le> v \<and> v < 2 ^ 63 then None else Some ERANGE)"
    by (auto simp: r v over_def)
  show "sint (cv_value r) = max (- (2 ^ 63)) (min (2 ^ 63 - 1) v)"
  proof (cases over)
    case True
    then have "cv_value r = word_of_int (if mi then - (2 ^ 63) else 2 ^ 63 - 1)" by (simp add: r)
    then show ?thesis using True by (auto simp: v over_def sint_in_range)
  next
    case False
    then have "unat a = V" using ok big by (auto simp: over_def split: if_splits)
    then have "a = word_of_int (int V)" by (auto simp: word_of_nat_unat)
    then have "cv_value r = word_of_int v" using False by (simp add: r v)
    moreover have "- (2 ^ 63) \<le> v" "v < 2 ^ 63" using False by (auto simp: v over_def split: if_splits)
    ultimately show ?thesis by (simp only: sint_in_range)
  qed
qed

text \<open>The unsigned conversion wraps a negated value and saturates beyond \<open>2 ^ 64 - 1\<close>.\<close>

lemma umax_text:
  assumes t: "int_text ct base b sp sg pre ds rest"
  defines "r \<equiv> umax_body ct (sp @ sg @ pre @ ds @ rest) base" and "V \<equiv> digits_value ct b 0 ds"
  shows "cv_end r = length (sp @ sg @ pre @ ds)"
    "cv_value r = (if V < 2 ^ 64 then word_of_int (signed_value ct b sg ds) else - 1)"
    "cv_errno r = (if V < 2 ^ 64 then None else Some ERANGE)"
proof -
  note p = text_parse [OF t] and t' = t [unfolded int_text_def]
  obtain d ds' where ds: "ds = d # ds'" and d: "valid_digit (ct_num ct d) (int b)" "digits_of ct b ds'"
    "unat (word_of_int (ct_num ct d) :: u64) = nat (ct_num ct d)"
    using first_digit [OF t] .
  have V: "V = digits_value ct b (nat (ct_num ct d)) ds'" by (simp add: V_def ds)
  obtain a tb where sc: "umax_scan ct (int b) (word_of_int (ct_num ct d)) False (ds' @ rest) = (a, tb, rest)"
    and big: "tb \<Longrightarrow> 2 ^ 64 \<le> V" and ok: "\<not> tb \<Longrightarrow> unat a = V"
    using umax_scan_correct [of b ct ds' rest False "nat (ct_num ct d)" "word_of_int (ct_num ct d)"]
      t' d V by auto
  define mi where "mi \<longleftrightarrow> sg = [ct_lit ct CHR ''-'']"
  have tb: "tb \<longleftrightarrow> \<not> V < 2 ^ 64" using big ok unat_u64_less [of a] by (auto simp del: unat_u64_less)
  have r: "r = (if tb then \<lparr> cv_value = UINTMAX_MAX, cv_end = length (sp @ sg @ pre @ ds), cv_errno = Some ERANGE \<rparr>
      else \<lparr> cv_value = (if mi then - a else a), cv_end = length (sp @ sg @ pre @ ds), cv_errno = None \<rparr>)"
    using p ds d(1) sc unfolding r_def umax_body_def Let_def
    by (simp add: mi_def [symmetric])
  have "\<not> tb \<Longrightarrow> a = word_of_int (int V)" using ok by (auto simp: word_of_nat_unat)
  then show "cv_value r = (if V < 2 ^ 64 then word_of_int (signed_value ct b sg ds) else - 1)"
    unfolding tb [symmetric, unfolded not_less] using tb
    by (auto simp: r signed_value_def mi_def V_def)
  show "cv_end r = length (sp @ sg @ pre @ ds)" "cv_errno r = (if V < 2 ^ 64 then None else Some ERANGE)"
    using tb by (auto simp: r)
qed

end

section \<open>No conversion\<close>

text \<open>
  A text with no digit after the optional blanks, sign and prefix: value zero, end pointer at
  the start, \<open>errno\<close> untouched. A bad base is a domain error.
\<close>

lemma imax_no_digit:
  assumes "\<not> bad_base base" "take_sign ct (dropWhile (ct_space ct) s) = (mi, p)"
    "find_base ct base p = b" "\<not> valid_digit (ct_num ct (at_ptr ct (skip_prefix ct b p))) b"
  shows "imax_body ct s base = \<lparr> cv_value = 0, cv_end = 0, cv_errno = None \<rparr>"
    "umax_body ct s base = \<lparr> cv_value = 0, cv_end = 0, cv_errno = None \<rparr>"
  using assms by (simp_all add: imax_body_def umax_body_def)

lemma conv_bad_base:
  assumes "bad_base base"
  shows "imax_body ct s base = \<lparr> cv_value = 0, cv_end = 0, cv_errno = Some EDOM \<rparr>"
    "umax_body ct s base = \<lparr> cv_value = 0, cv_end = 0, cv_errno = Some EDOM \<rparr>"
  using assms by (simp_all add: imax_body_def umax_body_def)

text \<open>The text has no digit of the base right behind the blanks and the sign.\<close>

definition digitless :: "'c ctype \<Rightarrow> int \<Rightarrow> 'c list \<Rightarrow> bool" where
  "digitless ct base s \<longleftrightarrow>
     (let (minus, p) = take_sign ct (dropWhile (ct_space ct) s)
      in \<not> valid_digit (ct_num ct (at_ptr ct p)) (find_base ct base p))"

context char_type
begin

lemma find_base_range: "\<not> bad_base base \<Longrightarrow> 2 \<le> find_base ct base p \<and> find_base ct base p \<le> 36"
  by (auto simp: bad_base_def find_base_def)

text \<open>A prefix starts with the digit zero, so a text without a digit there has no prefix to skip.\<close>

lemma digitless_body:
  assumes "digitless ct base s" "\<not> bad_base base"
  shows "imax_body ct s base = \<lparr> cv_value = 0, cv_end = 0, cv_errno = None \<rparr>"
    "umax_body ct s base = \<lparr> cv_value = 0, cv_end = 0, cv_errno = None \<rparr>"
proof -
  obtain mi p where p: "take_sign ct (dropWhile (ct_space ct) s) = (mi, p)" by fastforce
  have no: "\<not> valid_digit (ct_num ct (at_ptr ct p)) (find_base ct base p)"
    using assms(1) p by (simp add: digitless_def)
  have "at_ptr ct p \<noteq> ct_lit ct CHR ''0''"
    using no find_base_range [OF assms(2), of p] num_zero by (auto simp: valid_digit_def)
  then have "\<not> valid_digit (ct_num ct (at_ptr ct (skip_prefix ct (find_base ct base p) p))) (find_base ct base p)"
    using no by (simp add: skip_prefix_def)
  then show "imax_body ct s base = \<lparr> cv_value = 0, cv_end = 0, cv_errno = None \<rparr>"
    "umax_body ct s base = \<lparr> cv_value = 0, cv_end = 0, cv_errno = None \<rparr>"
    using imax_no_digit [OF assms(2) p refl] by blast+
qed

end

section \<open>The signed and the unsigned conversion of one text\<close>

text \<open>
  The signed result \<open>r\<close> against the unsigned result \<open>q\<close> of the same text: the same, or \<open>r\<close> is a limit of
  \<open>intmax_t\<close> with \<open>ERANGE\<close>, both end at the same place, and \<open>q\<close> is out of range too or shows a
  magnitude that \<open>intmax_t\<close> does not have.
\<close>

definition fits_or_clamped :: "conv \<Rightarrow> conv \<Rightarrow> bool" where
  "fits_or_clamped r q \<longleftrightarrow>
     (if cv_errno r = Some ERANGE
      then cv_end q = cv_end r
        \<and> (cv_value r = 2 ^ 63 - 1 \<and> (cv_errno q = Some ERANGE \<or> cv_errno q = None \<and> 2 ^ 63 \<le> cv_value q)
          \<or> cv_value r = 2 ^ 63 \<and> (cv_errno q = Some ERANGE \<or> cv_errno q = None \<and> 2 ^ 63 < - cv_value q))
      else q = r)"

lemma split_digits:
  obtains ds rest where "p = ds @ rest" "digits_of ct b ds" "no_digit ct b rest"
proof
  let ?P = "\<lambda>c. valid_digit (ct_num ct c) (int b)"
  show "p = takeWhile ?P p @ dropWhile ?P p" by simp
  show "digits_of ct b (takeWhile ?P p)" by (auto simp: digits_of_def list_all_iff dest: set_takeWhileD)
  show "no_digit ct b (dropWhile ?P p)"
    unfolding no_digit_def by (auto simp: dropWhile_eq_Cons_conv split: list.split)
qed

context char_type
begin

lemma imax_umax: "fits_or_clamped (imax_body ct s base) (umax_body ct s base)"
proof (cases "bad_base base")
  case True
  then show ?thesis by (simp add: conv_bad_base fits_or_clamped_def)
next
  case good: False
  obtain mi p where p: "take_sign ct (dropWhile (ct_space ct) s) = (mi, p)" by fastforce
  obtain b where b: "find_base ct base p = int b" "2 \<le> b" "b \<le> 36"
    using find_base_range [OF good, of p] by (intro that [of "nat (find_base ct base p)"]) auto
  define p' where "p' = skip_prefix ct (int b) p"
  define n where "n = ct_num ct (at_ptr ct p')"
  show ?thesis
  proof (cases "valid_digit n (int b)")
    case False
    then show ?thesis using imax_no_digit [OF good p b(1)] by (simp add: fits_or_clamped_def n_def p'_def)
  next
    case True
    then have d: "unat (word_of_int n :: u64) = nat n"
      using b(3) by (intro unat_digit) (auto simp: valid_digit_def)
    obtain ds rest where ds: "tl p' = ds @ rest" "digits_of ct b ds" "no_digit ct b rest"
      using split_digits [of "tl p'" ct b] .
    define V where "V = digits_value ct b (nat n) ds"
    obtain a tb where sc: "imax_scan ct (int b) (word_of_int n) False (ds @ rest) = (a, tb, rest)"
      and big: "tb \<Longrightarrow> 2 ^ 63 < V" and ok: "\<not> tb \<Longrightarrow> unat a = V"
      using imax_scan_correct [OF b(2,3) ds(2,3), of False "nat n" "word_of_int n"] d by (auto simp: V_def)
    obtain a' tb' where sc': "umax_scan ct (int b) (word_of_int n) False (ds @ rest) = (a', tb', rest)"
      and big': "tb' \<Longrightarrow> 2 ^ 64 \<le> V" and ok': "\<not> tb' \<Longrightarrow> unat a' = V"
      using umax_scan_correct [OF b(2,3) ds(2,3), of False "nat n" "word_of_int n"] d by (auto simp: V_def)
    let ?e = "length s - length rest"
    have over: "(if mi then if a > word_of_int INTMAX_MAX + 1 then True else tb
        else if a > word_of_int INTMAX_MAX then True else tb) = (if mi then 2 ^ 63 < V else 2 ^ 63 \<le> V)"
      using big ok by (cases tb) (auto simp: word_less_nat_alt)
    have r: "imax_body ct s base = (if if mi then 2 ^ 63 < V else 2 ^ 63 \<le> V
        then \<lparr> cv_value = (if mi then word_of_int (- INTMAX_MAX - 1) else word_of_int INTMAX_MAX), cv_end = ?e, cv_errno = Some ERANGE \<rparr>
        else \<lparr> cv_value = (if mi then - a else a), cv_end = ?e, cv_errno = None \<rparr>)"
      using good p b(1) True sc ds(1) over by (simp add: imax_body_def Let_def flip: p'_def n_def)
    have q: "umax_body ct s base = (if tb' then \<lparr> cv_value = UINTMAX_MAX, cv_end = ?e, cv_errno = Some ERANGE \<rparr>
        else \<lparr> cv_value = (if mi then - a' else a'), cv_end = ?e, cv_errno = None \<rparr>)"
      using good p b(1) True sc' ds(1) by (simp add: umax_body_def Let_def flip: p'_def n_def)
    show ?thesis
    proof (cases "if mi then 2 ^ 63 < V else 2 ^ 63 \<le> V")
      case out: True
      have "\<not> tb' \<Longrightarrow> if mi then 2 ^ 63 < a' else 2 ^ 63 \<le> a'"
        using out ok' by (auto simp: word_less_nat_alt word_le_nat_alt)
      then show ?thesis using out by (auto simp: fits_or_clamped_def r q)
    next
      case fits: False
      then have "\<not> tb" "\<not> tb'" using big big' by (auto split: if_splits)
      then have "a = a'" using ok ok' by (simp add: word_unat_eq_iff)
      then show ?thesis using fits \<open>\<not> tb'\<close> by (auto simp: fits_or_clamped_def r q)
    qed
  qed
qed

end

end
