(* ===== verification/Getopt.thy ===== *)
theory Getopt
  imports Prelude "HOL-Library.Multiset"
begin

text \<open>
  The option scanner of \<open>cygwin/lib/getopt.c\<close> (the same file is \<open>mingw/mingwex/getopt.c\<close>):
  \<open>gcd\<close>, \<open>permute_args\<close>, \<open>getopt_internal\<close>, \<open>getopt\<close> and \<open>getopt_long\<close>.

  The static and global variables are the record \<open>getopt_state\<close>. The argument vector is a list of
  strings whose length is \<open>nargc\<close> (the NULL after it is read as \<open>None\<close>); \<open>place\<close>, a pointer into
  an argument, is the rest of the text there, the empty text standing for \<open>EMSG\<close>. Messages to
  \<open>stderr\<close> are collected in the state. \<open>posix\<close> is \<open>IS_POSIXLY_CORRECT\<close>, a test of the
  environment. Division by zero and an index outside the vector are the value \<open>None\<close>.
\<close>

section \<open>State\<close>

datatype warning = Recargchar int | Recargstring string | Ambig string | Noarg string
  | Illoptchar int | Illoptstring string

record getopt_state =
  g_opterr :: bool
  g_optind :: int
  g_optopt :: int
  g_optreset :: bool
  g_optarg :: "string option"
  g_place :: string
  g_nonopt_start :: int
  g_nonopt_end :: int
  g_nargv :: "string list"
  g_warnings :: "warning list"
  g_flags :: "nat \<Rightarrow> int"
  g_idx :: int

definition rd :: "string \<Rightarrow> char" where
  "rd s = (case s of [] \<Rightarrow> CHR 0x00 | c # _ \<Rightarrow> c)"

text \<open>A character as an \<open>int\<close> (plain \<open>char\<close> is signed on the i386 targets).\<close>

definition char_int :: "char \<Rightarrow> int" where
  "char_int c = (if (of_char c :: int) \<ge> 128 then of_char c - 256 else of_char c)"

definition IGNORE_FIRST :: "string \<Rightarrow> bool" where
  "IGNORE_FIRST options \<longleftrightarrow> rd options = CHR ''-'' \<or> rd options = CHR ''+''"

definition PRINT_ERROR :: "getopt_state \<Rightarrow> string \<Rightarrow> bool" where
  "PRINT_ERROR st options \<longleftrightarrow>
     g_opterr st \<and> (rd options \<noteq> CHR '':'' \<or> IGNORE_FIRST options \<and> rd (tl options) \<noteq> CHR '':'')"

definition PERMUTE :: "bool \<Rightarrow> string \<Rightarrow> bool" where
  "PERMUTE posix options \<longleftrightarrow> \<not> posix \<and> \<not> IGNORE_FIRST options"

definition IN_ORDER :: "bool \<Rightarrow> string \<Rightarrow> bool" where
  "IN_ORDER posix options \<longleftrightarrow> \<not> posix \<and> rd options = CHR ''-''"

definition BADCH :: int where
  "BADCH = char_int CHR ''?''"

definition BADARG :: "string \<Rightarrow> int" where
  "BADARG options =
     (if IGNORE_FIRST options \<and> rd (tl options) = CHR '':'' \<or> rd options = CHR '':''
      then char_int CHR '':'' else char_int CHR ''?'')"

definition INORDER :: int where
  "INORDER = 1"

definition warnx :: "getopt_state \<Rightarrow> string \<Rightarrow> warning \<Rightarrow> getopt_state" where
  "warnx st options w =
     (if PRINT_ERROR st options then st\<lparr>g_warnings := g_warnings st @ [w]\<rparr> else st)"

section \<open>Exchanging two blocks of the argument vector\<close>

lemma abs_smod_less: "(b :: int) \<noteq> 0 \<Longrightarrow> abs (a smod b) < abs b"
  by (simp add: signed_modulo_int_def abs_mult)

function gcd_loop :: "int \<Rightarrow> int \<Rightarrow> int" where
  "gcd_loop a b = (let c = a smod b in if c \<noteq> 0 then gcd_loop b c else b)"
  by pat_completeness auto
termination
  by (relation "measure (\<lambda>(a, b). if b = 0 then nat (abs a) + 1 else nat (abs b))")
    (auto simp: abs_smod_less)

text \<open>\<open>None\<close>: the remainder by zero of the first step.\<close>

definition cgcd :: "int \<Rightarrow> int \<Rightarrow> int option" where
  "cgcd a b = (if b = 0 then None else Some (gcd_loop a b))"

fun permute_cycle :: "int \<Rightarrow> int \<Rightarrow> int \<Rightarrow> int \<Rightarrow> nat \<Rightarrow> int \<Rightarrow> 'a list \<Rightarrow> 'a list option" where
  "permute_cycle pend nnonopts nopts cstart 0 pos nargv = Some nargv"
| "permute_cycle pend nnonopts nopts cstart (Suc j) pos nargv =
     (let pos = (if pos \<ge> pend then pos - nnonopts else pos + nopts)
      in if 0 \<le> pos \<and> pos < int (length nargv) \<and> 0 \<le> cstart \<and> cstart < int (length nargv)
         then let swap = nargv ! nat pos;
                  nargv = nargv[nat pos := nargv ! nat cstart];
                  nargv = nargv[nat cstart := swap]
              in permute_cycle pend nnonopts nopts cstart j pos nargv
         else None)"

fun permute_cycles :: "int \<Rightarrow> int \<Rightarrow> int \<Rightarrow> nat \<Rightarrow> nat \<Rightarrow> int \<Rightarrow> 'a list \<Rightarrow> 'a list option" where
  "permute_cycles pend nnonopts nopts cyclelen 0 i nargv = Some nargv"
| "permute_cycles pend nnonopts nopts cyclelen (Suc n) i nargv =
     (case permute_cycle pend nnonopts nopts (pend + i) cyclelen (pend + i) nargv of
        None \<Rightarrow> None
      | Some nargv \<Rightarrow> permute_cycles pend nnonopts nopts cyclelen n (i + 1) nargv)"

definition permute_args :: "int \<Rightarrow> int \<Rightarrow> int \<Rightarrow> 'a list \<Rightarrow> 'a list option" where
  "permute_args panonopt_start panonopt_end opt_end nargv =
     (let nnonopts = panonopt_end - panonopt_start;
          nopts = opt_end - panonopt_end
      in case cgcd nnonopts nopts of
           None \<Rightarrow> None
         | Some ncycle \<Rightarrow>
             if ncycle = 0 then None
             else let cyclelen = (opt_end - panonopt_start) sdiv ncycle
                  in permute_cycles panonopt_end nnonopts nopts (nat cyclelen) (nat ncycle) 0 nargv)"

section \<open>Scanning for the next option\<close>

text \<open>\<open>permute_now\<close>: the two places that bring the skipped non-options behind the options.\<close>

definition permute_now :: "getopt_state \<Rightarrow> getopt_state option" where
  "permute_now st =
     map_option (\<lambda>v. st\<lparr>g_nargv := v, g_optind := g_optind st - (g_nonopt_end st - g_nonopt_start st)\<rparr>)
       (permute_args (g_nonopt_start st) (g_nonopt_end st) (g_optind st) (g_nargv st))"

text \<open>The result of the scan: return this value, or go on to the option letter at \<open>place\<close>.\<close>

datatype scan = Return int | Letter

definition scan_end :: "getopt_state \<Rightarrow> (scan \<times> getopt_state) option" where
  "scan_end st =
     (let st = st\<lparr>g_place := []\<rparr>
      in case (if g_nonopt_end st \<noteq> - 1 then permute_now st
               else if g_nonopt_start st \<noteq> - 1 then Some (st\<lparr>g_optind := g_nonopt_start st\<rparr>)
               else Some st) of
           None \<Rightarrow> None
         | Some st \<Rightarrow> Some (Return (- 1), st\<lparr>g_nonopt_start := - 1, g_nonopt_end := - 1\<rparr>))"

definition skip_nonopt :: "getopt_state \<Rightarrow> getopt_state option" where
  "skip_nonopt st =
     map_option (\<lambda>st. st\<lparr>g_optind := g_optind st + 1\<rparr>)
       (if g_nonopt_start st = - 1 then Some (st\<lparr>g_nonopt_start := g_optind st\<rparr>)
        else if g_nonopt_end st \<noteq> - 1
        then map_option (\<lambda>v. st\<lparr>g_nargv := v,
               g_nonopt_start := g_optind st - (g_nonopt_end st - g_nonopt_start st),
               g_nonopt_end := - 1\<rparr>)
               (permute_args (g_nonopt_start st) (g_nonopt_end st) (g_optind st) (g_nargv st))
        else Some st)"

lemma length_permute_cycle:
  "permute_cycle pend nn no c j pos xs = Some ys \<Longrightarrow> length ys = length xs"
  by (induction pend nn no c j pos xs rule: permute_cycle.induct)
    (auto simp: Let_def split: if_splits)

lemma length_permute_cycles:
  "permute_cycles pend nn no l n i xs = Some ys \<Longrightarrow> length ys = length xs"
  by (induction pend nn no l n i xs rule: permute_cycles.induct)
    (auto simp: length_permute_cycle split: option.splits)

lemma length_permute_args: "permute_args s e t xs = Some ys \<Longrightarrow> length ys = length xs"
  by (auto simp: permute_args_def Let_def length_permute_cycles split: option.splits if_splits)

lemma skip_nonopt_progress:
  "skip_nonopt st = Some st' \<Longrightarrow>
   length (g_nargv st') = length (g_nargv st) \<and> g_optind st' = g_optind st + 1"
  by (auto simp: skip_nonopt_def length_permute_args split: if_splits)

text \<open>The loop from label \<open>start\<close>; each pass but the last moves \<open>optind\<close> forward.\<close>

function scan_loop :: "bool \<Rightarrow> string \<Rightarrow> getopt_state \<Rightarrow> (scan \<times> getopt_state) option" where
  "scan_loop posix options st =
     (if g_optreset st \<or> g_place st = []
      then let st = st\<lparr>g_optreset := False\<rparr>
           in if g_optind st \<ge> int (length (g_nargv st)) then scan_end st
              else if g_optind st < 0 then None
              else let st = st\<lparr>g_place := g_nargv st ! nat (g_optind st)\<rparr>
                   in if rd (g_place st) \<noteq> CHR ''-'' \<or> tl (g_place st) = []
                      then let st = st\<lparr>g_place := []\<rparr>
                           in if IN_ORDER posix options
                              then Some (Return INORDER,
                                         st\<lparr>g_optarg := Some (g_nargv st ! nat (g_optind st)),
                                            g_optind := g_optind st + 1\<rparr>)
                              else if \<not> PERMUTE posix options then Some (Return (- 1), st)
                              else case skip_nonopt st of
                                     None \<Rightarrow> None
                                   | Some st \<Rightarrow> scan_loop posix options st
                      else let st = (if g_nonopt_start st \<noteq> - 1 \<and> g_nonopt_end st = - 1
                                     then st\<lparr>g_nonopt_end := g_optind st\<rparr> else st);
                               st = st\<lparr>g_place := tl (g_place st)\<rparr>
                           in if rd (g_place st) = CHR ''-''
                              then Some (Return (- 2), st\<lparr>g_place := tl (g_place st)\<rparr>)
                              else Some (Letter, st)
      else Some (Letter, st))"
  by pat_completeness auto
termination
  by (relation "measure (\<lambda>(posix, options, st). nat (int (length (g_nargv st)) - g_optind st))")
    (auto dest!: skip_nonopt_progress)

declare scan_loop.simps [simp del]

section \<open>The option letter\<close>

text \<open>\<open>strchr\<close>: the rest of the text from the first such character on.\<close>

definition strchr :: "string \<Rightarrow> char \<Rightarrow> string option" where
  "strchr s c = (case dropWhile (\<lambda>d. d \<noteq> c) s of [] \<Rightarrow> None | t \<Rightarrow> Some t)"

definition getopt_letter :: "string \<Rightarrow> getopt_state \<Rightarrow> int \<times> getopt_state" where
  "getopt_letter options st =
     (let c = rd (g_place st);
          optchar = char_int c;
          st = st\<lparr>g_place := tl (g_place st)\<rparr>;
          nargc = int (length (g_nargv st));
          found = (if c = CHR '':'' then None
                   else strchr (if IGNORE_FIRST options then tl options else options) c)
      in case found of
           None \<Rightarrow>
             let st = (if g_place st = [] then st\<lparr>g_optind := g_optind st + 1\<rparr> else st);
                 st = warnx st options (Illoptchar optchar)
             in (BADCH, st\<lparr>g_optopt := optchar\<rparr>)
         | Some oli \<Rightarrow>
             if c = CHR ''W'' \<and> rd (tl oli) = CHR '';''
             then if g_place st \<noteq> [] then (- 2, st)
                  else let st = st\<lparr>g_optind := g_optind st + 1\<rparr>
                       in if g_optind st \<ge> nargc
                          then let st = warnx (st\<lparr>g_place := []\<rparr>) options (Recargchar optchar)
                               in (BADARG options, st\<lparr>g_optopt := optchar\<rparr>)
                          else (- 2, st\<lparr>g_place := g_nargv st ! nat (g_optind st)\<rparr>)
             else if rd (tl oli) \<noteq> CHR '':''
             then (optchar, if g_place st = [] then st\<lparr>g_optind := g_optind st + 1\<rparr> else st)
             else let st = st\<lparr>g_optarg := None\<rparr>
                  in if g_place st \<noteq> []
                     then (optchar, st\<lparr>g_optarg := Some (g_place st), g_place := [],
                                       g_optind := g_optind st + 1\<rparr>)
                     else if rd (tl (tl oli)) \<noteq> CHR '':''
                     then let st = st\<lparr>g_optind := g_optind st + 1\<rparr>
                          in if g_optind st \<ge> nargc
                             then let st = warnx (st\<lparr>g_place := []\<rparr>) options (Recargchar optchar)
                                  in (BADARG options, st\<lparr>g_optopt := optchar\<rparr>)
                             else (optchar, st\<lparr>g_optarg := Some (g_nargv st ! nat (g_optind st)),
                                               g_place := [], g_optind := g_optind st + 1\<rparr>)
                     else (optchar, st\<lparr>g_place := [], g_optind := g_optind st + 1\<rparr>))"

section \<open>The callers\<close>

definition getopt_internal :: "bool \<Rightarrow> string \<Rightarrow> getopt_state \<Rightarrow> (int \<times> getopt_state) option" where
  "getopt_internal posix options st =
     (let st = st\<lparr>g_optarg := None\<rparr>;
          st = (if g_optind st = 0 then st\<lparr>g_optind := 1\<rparr> else st);
          st = (if g_optreset st then st\<lparr>g_nonopt_start := - 1, g_nonopt_end := - 1\<rparr> else st)
      in case scan_loop posix options st of
           None \<Rightarrow> None
         | Some (Return r, st) \<Rightarrow> Some (r, st)
         | Some (Letter, st) \<Rightarrow> Some (getopt_letter options st))"

text \<open>What both callers do when the end-of-options marker is found.\<close>

definition end_marker :: "getopt_state \<Rightarrow> (int \<times> getopt_state) option" where
  "end_marker st =
     map_option (\<lambda>st. (- 1, st\<lparr>g_nonopt_start := - 1, g_nonopt_end := - 1\<rparr>))
       (if g_nonopt_end st \<noteq> - 1 then permute_now st else Some st)"

definition getopt :: "bool \<Rightarrow> string \<Rightarrow> getopt_state \<Rightarrow> (int \<times> getopt_state) option" where
  "getopt posix options st =
     (case getopt_internal posix options st of
        None \<Rightarrow> None
      | Some (retval, st) \<Rightarrow>
          if retval = - 2 then end_marker (st\<lparr>g_optind := g_optind st + 1\<rparr>)
          else Some (retval, st))"

record long_option =
  lo_name :: string
  lo_has_arg :: int
  lo_flag :: "nat option"
  lo_val :: int

abbreviation (input) no_argument :: int where "no_argument \<equiv> 0"
abbreviation (input) required_argument :: int where "required_argument \<equiv> 1"
abbreviation (input) optional_argument :: int where "optional_argument \<equiv> 2"

text \<open>The search; \<open>None\<close> is the ambiguous abbreviation.\<close>

fun find_long :: "string \<Rightarrow> nat \<Rightarrow> int \<Rightarrow> int \<Rightarrow> long_option list \<Rightarrow> int option" where
  "find_long cur len i m [] = Some m"
| "find_long cur len i m (opt # opts) =
     (if take len cur \<noteq> take len (lo_name opt) then find_long cur len (i + 1) m opts
      else if length (lo_name opt) = len then Some i
      else if m = - 1 then find_long cur len (i + 1) i opts
      else None)"

definition getopt_long_option ::
  "string \<Rightarrow> long_option list \<Rightarrow> bool \<Rightarrow> string \<Rightarrow> getopt_state \<Rightarrow> int \<times> getopt_state" where
  "getopt_long_option options long_options with_idx current_argv st =
     (let has_equal = map_option tl (strchr current_argv CHR ''='');
          len = length (takeWhile (\<lambda>c. c \<noteq> CHR ''='') current_argv)
      in case find_long current_argv len 0 (- 1) long_options of
           None \<Rightarrow> (BADCH, (warnx st options (Ambig (take len current_argv)))\<lparr>g_optopt := 0\<rparr>)
         | Some m \<Rightarrow>
             if m = - 1
             then (BADCH, (warnx st options (Illoptstring current_argv))\<lparr>g_optopt := 0\<rparr>)
             else let opt = long_options ! nat m;
                      optopt = (if lo_flag opt = None then lo_val opt else 0)
                  in if lo_has_arg opt = no_argument \<and> has_equal \<noteq> None
                     then (BADARG options,
                           (warnx st options (Noarg (take len current_argv)))\<lparr>g_optopt := optopt\<rparr>)
                     else let st = (if lo_has_arg opt = required_argument \<or> lo_has_arg opt = optional_argument
                                    then if has_equal \<noteq> None then st\<lparr>g_optarg := has_equal\<rparr>
                                         else if lo_has_arg opt = required_argument
                                         then st\<lparr>g_optarg := (if g_optind st < int (length (g_nargv st))
                                                              then Some (g_nargv st ! nat (g_optind st)) else None),
                                                 g_optind := g_optind st + 1\<rparr>
                                         else st
                                    else st)
                          in if lo_has_arg opt = required_argument \<and> g_optarg st = None
                             then (BADARG options,
                                   (warnx st options (Recargstring current_argv))
                                     \<lparr>g_optopt := optopt, g_optind := g_optind st - 1\<rparr>)
                             else let (retval, st) =
                                    (case lo_flag opt of
                                       Some f \<Rightarrow> (0, st\<lparr>g_flags := (g_flags st)(f := lo_val opt)\<rparr>)
                                     | None \<Rightarrow> (lo_val opt, st))
                                  in (retval, if with_idx then st\<lparr>g_idx := m\<rparr> else st))"

definition getopt_long ::
  "bool \<Rightarrow> string \<Rightarrow> long_option list \<Rightarrow> bool \<Rightarrow> getopt_state \<Rightarrow> (int \<times> getopt_state) option" where
  "getopt_long posix options long_options with_idx st =
     (case getopt_internal posix options st of
        None \<Rightarrow> None
      | Some (retval, st) \<Rightarrow>
          if retval = - 2
          then let current_argv = g_place st;
                   st = st\<lparr>g_optind := g_optind st + 1, g_place := []\<rparr>
               in if current_argv = [] then end_marker st
                  else Some (getopt_long_option options long_options with_idx current_argv st)
          else Some (retval, st))"

section \<open>Exchanging two blocks: the cycles\<close>

lemma smod_nonneg: "0 \<le> a \<Longrightarrow> 0 < b \<Longrightarrow> (a :: int) smod b = a mod b"
  by (cases "a = 0") (simp_all add: signed_modulo_int_def)

lemma gcd_loop_correct: "0 \<le> a \<Longrightarrow> 0 < b \<Longrightarrow> gcd_loop a b = gcd a b"
proof (induction a b rule: gcd_loop.induct)
  case (1 a b)
  have c: "a smod b = a mod b" by (rule smod_nonneg [OF 1(2,3)])
  have g: "gcd b (a mod b) = gcd a b" by (metis gcd.commute gcd_red_int)
  show ?case
  proof (cases "a mod b = 0")
    case True
    then show ?thesis using c g 1(3) by (simp add: gcd_loop.simps [of a b])
  next
    case False
    have "0 \<le> a mod b" using 1(3) by simp
    then have "0 < a mod b" using False by simp
    then have "gcd_loop b (a smod b) = gcd b (a smod b)" using 1 c False by simp
    then show ?thesis using False c g by (simp add: gcd_loop.simps [of a b])
  qed
qed

declare gcd_loop.simps [simp del]

text \<open>
  In positions relative to the start of the first block: \<open>n = nn + no\<close> places, the element at
  \<open>x\<close> moves to \<open>(x + no) mod n\<close>; \<open>orbit\<close> is the walk of one cycle.
\<close>

definition orbit :: "nat \<Rightarrow> nat \<Rightarrow> nat \<Rightarrow> nat \<Rightarrow> nat" where
  "orbit nn no c k = (c + k * no) mod (nn + no)"

definition source_of :: "nat \<Rightarrow> nat \<Rightarrow> nat \<Rightarrow> nat" where
  "source_of nn no x = (x + nn) mod (nn + no)"

lemma orbit_less: "0 < nn + no \<Longrightarrow> orbit nn no c k < nn + no"
  by (simp add: orbit_def)

lemma orbit_Suc_pos:
  assumes "0 < nn" "0 < no"
  shows "(if int (s + orbit nn no c k) \<ge> int (s + nn) then int (s + orbit nn no c k) - int nn
      else int (s + orbit nn no c k) + int no) = int (s + orbit nn no c (Suc k))"
proof -
  define x where "x = orbit nn no c k"
  have "x < nn + no" using assms by (simp add: x_def orbit_less)
  moreover have "orbit nn no c (Suc k) = (x + no) mod (nn + no)"
    by (simp add: x_def orbit_def mod_simps ac_simps)
  ultimately have "orbit nn no c (Suc k) = (if nn \<le> x then x - nn else x + no)"
    by (simp add: le_mod_geq)
  then show ?thesis by (auto simp: x_def)
qed

lemma source_orbit: "source_of nn no (orbit nn no c (Suc k)) = orbit nn no c k"
proof -
  have "source_of nn no (orbit nn no c (Suc k)) = (c + Suc k * no + nn) mod (nn + no)"
    by (simp add: source_of_def orbit_def mod_simps)
  also have "c + Suc k * no + nn = (c + k * no) + (nn + no)" by simp
  finally show ?thesis by (simp add: orbit_def)
qed

text \<open>The orbit of \<open>nn + i\<close> runs once through the residue class of \<open>i\<close> modulo the gcd.\<close>

lemma orbit_close:
  assumes "0 < nn" "0 < no" "c < nn + no"
  shows "orbit nn no c ((nn + no) div gcd nn no) = c"
proof -
  have "gcd nn no dvd no" by simp
  then obtain m where m: "no = gcd nn no * m" by blast
  have "gcd nn no dvd nn + no" by simp
  then have "(nn + no) div gcd nn no * no = (nn + no) * m"
    by (metis m dvd_div_mult_self mult.assoc)
  then show ?thesis using assms(3) by (simp add: orbit_def)
qed

lemma orbit_inj:
  assumes "0 < nn" "0 < no"
  shows "inj_on (orbit nn no c) {1..(nn + no) div gcd nn no}"
proof -
  define g L where "g = gcd nn no" and "L = (nn + no) div g"
  have g: "0 < g" using assms by (simp add: g_def)
  have gn: "gcd (nn + no) no = g" by (simp add: g_def)
  have neq: False if "k < l" "l \<le> k + L - 1" "orbit nn no c k = orbit nn no c l" for k l
  proof -
    have "(c + l * no) mod (nn + no) = (c + k * no) mod (nn + no)"
      using that(3) by (simp add: orbit_def)
    then have "nn + no dvd (c + l * no) - (c + k * no)"
      using that(1) by (simp add: mod_eq_dvd_iff_nat)
    then have "nn + no dvd (l - k) * no" by (simp add: diff_mult_distrib)
    then have "(nn + no) div g dvd (l - k) * (no div g)"
      using g gn by (metis dvd_div_mult div_dvd_div gcd_dvd1 gcd_dvd2 dvd_mult div_mult_swap)
    moreover have "coprime ((nn + no) div g) (no div g)"
      unfolding gn [symmetric] by (rule div_gcd_coprime) (use assms in simp)
    ultimately have "L dvd l - k" by (simp add: coprime_dvd_mult_left_iff L_def)
    then have "L \<le> l - k" using that(1) by (intro dvd_imp_le) simp_all
    then show False using that(1,2) by linarith
  qed
  show ?thesis
    unfolding g_def [symmetric] L_def [symmetric]
  proof (rule inj_onI)
    fix k l assume kl: "k \<in> {1..L}" "l \<in> {1..L}" "orbit nn no c k = orbit nn no c l"
    show "k = l"
    proof (cases k l rule: linorder_cases)
      case less
      moreover have "l \<le> k + L - 1" using kl unfolding atLeastAtMost_iff by linarith
      ultimately show ?thesis using neq kl(3) by blast
    next
      case greater
      moreover have "k \<le> l + L - 1" using kl unfolding atLeastAtMost_iff by linarith
      ultimately show ?thesis using neq kl(3) by metis
    qed
  qed
qed

lemma orbit_class:
  assumes "0 < nn" "0 < no" "i < gcd nn no"
  defines "L \<equiv> (nn + no) div gcd nn no"
  shows "orbit nn no (nn + i) ` {1..L} = {x. x < nn + no \<and> x mod gcd nn no = i}"
proof (rule card_subset_eq)
  let ?g = "gcd nn no" and ?S = "{x. x < nn + no \<and> x mod gcd nn no = i}"
  have g: "?g dvd nn + no" "0 < ?g" using assms by simp_all
  have Lg: "L * ?g = nn + no" unfolding L_def using g(1) by (rule dvd_div_mult_self)
  show "finite ?S" by simp
  show "orbit nn no (nn + i) ` {1..L} \<subseteq> ?S"
  proof
    fix x assume "x \<in> orbit nn no (nn + i) ` {1..L}"
    then obtain k where x: "x = orbit nn no (nn + i) k" by blast
    have "x mod ?g = (nn + i + k * no) mod ?g" unfolding x orbit_def by (rule mod_mod_cancel [OF g(1)])
    also have "\<dots> = i" using assms(3) by (metis add.commute add.left_neutral gcd_dvd1 gcd_dvd2 dvd_imp_mod_0 dvd_mult mod_add_cong mod_less mod_0)
    finally show "x \<in> ?S" using assms x by (simp add: orbit_less)
  qed
  have "?S = (\<lambda>m. i + ?g * m) ` {..<L}"
  proof
    show "?S \<subseteq> (\<lambda>m. i + ?g * m) ` {..<L}"
    proof
      fix x assume x: "x \<in> ?S"
      then have "x = i + ?g * (x div ?g)" by (metis (mono_tags, lifting) mem_Collect_eq mod_mult_div_eq)
      moreover have "x div ?g < L"
        using x Lg by (intro less_mult_imp_div_less) simp
      ultimately show "x \<in> (\<lambda>m. i + ?g * m) ` {..<L}" by blast
    qed
    show "(\<lambda>m. i + ?g * m) ` {..<L} \<subseteq> ?S"
    proof
      fix x assume "x \<in> (\<lambda>m. i + ?g * m) ` {..<L}"
      then obtain m where m: "x = i + ?g * m" "m \<in> {..<L}" by blast
      have "?g * (m + 1) \<le> ?g * L" using m(2) by (intro mult_le_mono2) simp
      then have "?g * m + ?g \<le> nn + no" using Lg by (simp add: mult.commute)
      then show "x \<in> ?S" using m(1) assms(3) by simp
    qed
  qed
  moreover have "inj_on (\<lambda>m. i + ?g * m) {..<L}" using g(2) by (auto intro: inj_onI)
  ultimately have "card ?S = L" by (simp add: card_image)
  moreover have "card (orbit nn no (nn + i) ` {1..L}) = L"
    using orbit_inj [OF assms(1,2)] by (simp add: card_image L_def)
  ultimately show "card (orbit nn no (nn + i) ` {1..L}) = card ?S" by simp
qed

text \<open>The vector after \<open>j\<close> steps of a cycle, and after all of them.\<close>

definition cycle_at :: "nat \<Rightarrow> nat \<Rightarrow> nat \<Rightarrow> nat \<Rightarrow> nat \<Rightarrow> 'a list \<Rightarrow> 'a list \<Rightarrow> bool" where
  "cycle_at s nn no c j xs ys \<longleftrightarrow> length ys = length xs
     \<and> (\<forall>q < length xs. q < s \<or> s + (nn + no) \<le> q \<longrightarrow> ys ! q = xs ! q)
     \<and> (\<forall>x < nn + no. ys ! (s + x) =
          (if x = c then xs ! (s + orbit nn no c j)
           else if x \<in> orbit nn no c ` {1..j} then xs ! (s + source_of nn no x) else xs ! (s + x)))"

definition moved :: "nat \<Rightarrow> nat \<Rightarrow> nat \<Rightarrow> nat set \<Rightarrow> 'a list \<Rightarrow> 'a list \<Rightarrow> bool" where
  "moved s nn no P xs ys \<longleftrightarrow> length ys = length xs
     \<and> (\<forall>q < length xs. q < s \<or> s + (nn + no) \<le> q \<longrightarrow> ys ! q = xs ! q)
     \<and> (\<forall>x < nn + no. ys ! (s + x) =
          (if x \<in> P then xs ! (s + source_of nn no x) else xs ! (s + x)))"

lemma cycle_at_0: "cycle_at s nn no c 0 xs xs" if "c < nn + no"
  using that by (simp add: cycle_at_def orbit_def)

lemma cycle_at_step:
  assumes "cycle_at s nn no c j xs ys" "s + (nn + no) \<le> length xs" "c < nn + no"
    and "orbit nn no c (Suc j) \<noteq> c" "orbit nn no c (Suc j) \<notin> orbit nn no c ` {1..j}"
  defines "p \<equiv> s + orbit nn no c (Suc j)"
  shows "cycle_at s nn no c (Suc j) xs (ys[p := ys ! (s + c), s + c := ys ! p])"
proof -
  define r where "r = orbit nn no c (Suc j)"
  have r: "r < nn + no" "r \<noteq> c" "r \<notin> orbit nn no c ` {1..j}" "p = s + r"
    "source_of nn no r = orbit nn no c j"
    using assms(3-5) orbit_less [of nn no c "Suc j"]
    by (simp_all add: r_def p_def source_orbit del: add_gr_0)
  note ys = assms(1) [unfolded cycle_at_def]
  have v: "ys ! p = xs ! (s + r)" "ys ! (s + c) = xs ! (s + orbit nn no c j)"
    using ys r assms(3) by auto
  have im: "x \<in> orbit nn no c ` {1..Suc j} \<longleftrightarrow> x = r \<or> x \<in> orbit nn no c ` {1..j}" for x
    by (auto simp: r_def atLeastAtMostSuc_conv)
  show ?thesis
    unfolding cycle_at_def im r_def [symmetric]
    using ys r assms(2,3) v by (auto simp: nth_list_update)
qed

lemma cycle_at_last:
  assumes "cycle_at s nn no c j xs ys" "c < nn + no" "orbit nn no c (Suc j) = c"
  shows "moved s nn no (orbit nn no c ` {1..Suc j}) xs ys"
proof -
  have "source_of nn no c = orbit nn no c j" using source_orbit [of nn no c j] assms(3) by simp
  moreover have "x \<in> orbit nn no c ` {1..Suc j} \<longleftrightarrow> x = c \<or> x \<in> orbit nn no c ` {1..j}" for x
    using assms(3) by (auto simp: atLeastAtMostSuc_conv)
  ultimately show ?thesis using assms(1) unfolding cycle_at_def moved_def by auto
qed

lemma permute_cycle_run:
  assumes "0 < nn" "0 < no" "s + (nn + no) \<le> length xs" "c < nn + no"
    and "inj_on (orbit nn no c) {1..L}" "orbit nn no c L = c" "j < L"
    and "cycle_at s nn no c j xs ys"
  shows "\<exists>zs. permute_cycle (int (s + nn)) (int nn) (int no) (int (s + c)) (L - j) (int (s + orbit nn no c j)) ys
     = Some zs \<and> moved s nn no (orbit nn no c ` {1..L}) xs zs"
  using assms(7,8)
proof (induction "L - j" arbitrary: j ys)
  case 0
  then show ?case by simp
next
  case (Suc m)
  define p where "p = s + orbit nn no c (Suc j)"
  define zs where "zs = ys[p := ys ! (s + c), s + c := ys ! p]"
  have len: "length ys = length xs" using Suc.prems(2) by (simp add: cycle_at_def)
  have p: "p < length ys" "s + c < length ys"
    using orbit_less [of nn no c "Suc j"] assms(1,3,4) by (simp_all add: len p_def)
  have L: "L - j = Suc (L - Suc j)" using Suc.prems(1) by simp
  have pos: "(if int (s + orbit nn no c j) \<ge> int (s + nn) then int (s + orbit nn no c j) - int nn
      else int (s + orbit nn no c j) + int no) = int p"
    unfolding p_def by (rule orbit_Suc_pos [OF assms(1,2)])
  have st: "permute_cycle (int (s + nn)) (int nn) (int no) (int (s + c)) (L - j) (int (s + orbit nn no c j)) ys
     = permute_cycle (int (s + nn)) (int nn) (int no) (int (s + c)) (L - Suc j) (int p) zs"
    unfolding L permute_cycle.simps Let_def pos zs_def using p by (simp del: of_nat_add)
  show ?case
  proof (cases "Suc j = L")
    case True
    then have c: "orbit nn no c (Suc j) = c" using assms(6) by simp
    then have "zs = ys" by (simp add: zs_def p_def)
    moreover have "moved s nn no (orbit nn no c ` {1..L}) xs ys"
      using cycle_at_last [OF Suc.prems(2) assms(4) c] True by simp
    ultimately show ?thesis using st True by simp
  next
    case False
    then have j: "Suc j < L" using Suc.prems(1) by simp
    have "orbit nn no c (Suc j) \<noteq> orbit nn no c L"
      using inj_onD [OF assms(5), of "Suc j" L] j by auto
    then have n1: "orbit nn no c (Suc j) \<noteq> c" using assms(6) by simp
    have n2: "orbit nn no c (Suc j) \<notin> orbit nn no c ` {1..j}"
    proof
      assume "orbit nn no c (Suc j) \<in> orbit nn no c ` {1..j}"
      then obtain k where "k \<in> {1..j}" "orbit nn no c (Suc j) = orbit nn no c k" by blast
      then show False using inj_onD [OF assms(5), of "Suc j" k] j by auto
    qed
    have "cycle_at s nn no c (Suc j) xs zs"
      unfolding zs_def p_def by (rule cycle_at_step [OF Suc.prems(2) assms(3,4) n1 n2])
    moreover have "m = L - Suc j" using Suc.hyps(2) by simp
    ultimately show ?thesis unfolding st p_def by (intro Suc.hyps(1)) (use j in simp_all)
  qed
qed

lemma permute_cycle_correct:
  assumes "0 < nn" "0 < no" "s + (nn + no) \<le> length xs" "i < gcd nn no"
  shows "\<exists>zs. permute_cycle (int (s + nn)) (int nn) (int no) (int (s + nn) + int i)
      ((nn + no) div gcd nn no) (int (s + nn) + int i) xs = Some zs
    \<and> moved s nn no {x. x < nn + no \<and> x mod gcd nn no = i} xs zs"
proof -
  define L where "L = (nn + no) div gcd nn no"
  have "gcd nn no \<le> no" using assms by (intro dvd_imp_le) simp_all
  then have c: "nn + i < nn + no" using assms(4) by simp
  have "gcd nn no \<le> nn + no" using assms by (intro dvd_imp_le) simp_all
  then have L: "0 < L" using assms by (simp add: L_def div_greater_zero_iff)
  have o0: "orbit nn no (nn + i) 0 = nn + i" using c by (simp add: orbit_def)
  have p: "int (s + nn) + int i = int (s + (nn + i))" by simp
  show ?thesis
    unfolding p L_def [symmetric] orbit_class [OF assms(1,2,4), folded L_def, symmetric]
    using permute_cycle_run [OF assms(1-3) c orbit_inj [OF assms(1,2), folded L_def]
        orbit_close [OF assms(1,2) c, folded L_def] L cycle_at_0 [OF c]] by (simp add: o0)
qed

text \<open>All cycles: after the first \<open>i\<close> of them the residues below \<open>i\<close> are in place.\<close>

lemma moved_next:
  assumes "moved s nn no {x. x < nn + no \<and> x mod g < i} xs ys"
    and "moved s nn no {x. x < nn + no \<and> x mod g = i} ys zs" and g: "g dvd nn" "g dvd nn + no"
    and n: "0 < nn + no"
  shows "moved s nn no {x. x < nn + no \<and> x mod g < Suc i} xs zs"
proof -
  have sm: "source_of nn no x mod g = x mod g" for x
    unfolding source_of_def mod_mod_cancel [OF g(2)] using g(1) by (metis mod_add_right_eq dvd_imp_mod_0 add.right_neutral)
  have sl: "source_of nn no x < nn + no" for x using n by (simp add: source_of_def)
  show ?thesis
    using assms(1,2) sl unfolding moved_def by (auto simp: sm less_Suc_eq)
qed

lemma permute_cycles_correct:
  assumes "0 < nn" "0 < no" "s + (nn + no) \<le> length xs" "i + m = gcd nn no"
    and "moved s nn no {x. x < nn + no \<and> x mod gcd nn no < i} xs ys"
  shows "\<exists>zs. permute_cycles (int (s + nn)) (int nn) (int no) ((nn + no) div gcd nn no) m (int i) ys = Some zs
    \<and> moved s nn no {x. x < nn + no} xs zs"
  using assms(4,5)
proof (induction m arbitrary: i ys)
  case 0
  have "0 < gcd nn no" using assms by simp
  then have "x mod gcd nn no < i" for x using 0(1) by simp
  then show ?case using 0(2) by simp
next
  case (Suc m)
  have i: "i < gcd nn no" using Suc.prems(1) by simp
  have "s + (nn + no) \<le> length ys" using Suc.prems(2) assms(3) by (simp add: moved_def)
  from permute_cycle_correct [OF assms(1,2) this i]
  obtain zs where zs: "permute_cycle (int (s + nn)) (int nn) (int no) (int (s + nn) + int i)
      ((nn + no) div gcd nn no) (int (s + nn) + int i) ys = Some zs"
    "moved s nn no {x. x < nn + no \<and> x mod gcd nn no = i} ys zs" by blast
  have "moved s nn no {x. x < nn + no \<and> x mod gcd nn no < Suc i} xs zs"
    by (rule moved_next [OF Suc.prems(2) zs(2)]) (use assms in simp_all)
  moreover have "int i + 1 = int (Suc i)" by simp
  ultimately show ?case using Suc.IH [of "Suc i" zs] Suc.prems(1) zs(1)
    by (simp only: permute_cycles.simps option.case)
qed

definition exchange :: "nat \<Rightarrow> nat \<Rightarrow> nat \<Rightarrow> 'a list \<Rightarrow> 'a list" where
  "exchange s e t xs = take s xs @ take (t - e) (drop e xs) @ take (e - s) (drop s xs) @ drop t xs"

lemma permute_args_moved:
  assumes "s < e" "e < t" "t \<le> length xs"
  shows "\<exists>zs. permute_args (int s) (int e) (int t) xs = Some zs \<and> moved s (e - s) (t - e) {x. x < t - s} xs zs"
proof -
  define nn no where "nn = e - s" and "no = t - e"
  have n: "0 < nn" "0 < no" "e = s + nn" "t = s + (nn + no)" "s + (nn + no) \<le> length xs"
    using assms by (simp_all add: nn_def no_def)
  have g: "cgcd (int nn) (int no) = Some (int (gcd nn no))"
    using n(2) by (simp add: cgcd_def gcd_loop_correct)
  have sd: "(int t - int s) sdiv int (gcd nn no) = int ((nn + no) div gcd nn no)"
    by (simp add: n(4) signed_divide_int_def zdiv_int sgn_if)
  have "moved s nn no {x. x < nn + no \<and> x mod gcd nn no < 0} xs xs" by (simp add: moved_def)
  from permute_cycles_correct [OF n(1,2,5) _ this]
  obtain zs where zs: "permute_cycles (int e) (int nn) (int no) ((nn + no) div gcd nn no) (gcd nn no) 0 xs = Some zs"
    "moved s nn no {x. x < nn + no} xs zs" by (auto simp: n(3))
  have "permute_args (int s) (int e) (int t) xs = Some zs"
  proof -
    have d: "int e - int s = int nn" "int t - int e = int no" using assms by (simp_all add: nn_def no_def)
    have "int (gcd nn no) \<noteq> 0" using n(1) by simp
    then show ?thesis using zs(1) unfolding permute_args_def Let_def d g option.case sd nat_int by simp
  qed
  moreover have "t - s = nn + no" using n by simp
  ultimately show ?thesis using zs(2) by (simp add: nn_def no_def)
qed

lemma moved_exchange:
  assumes "s < e" "e < t" "t \<le> length xs" "moved s (e - s) (t - e) {x. x < t - s} xs zs"
  shows "zs = exchange s e t xs"
proof (rule nth_equalityI)
  define nn no where "nn = e - s" and "no = t - e"
  have n: "0 < nn" "0 < no" "e = s + nn" "t = s + (nn + no)" "t - s = nn + no"
    using assms by (simp_all add: nn_def no_def)
  note zs = assms(4) [folded nn_def no_def, unfolded n(5) moved_def]
  show len: "length zs = length (exchange s e t xs)"
    using zs assms by (simp add: exchange_def)
  fix q assume "q < length zs"
  then have q: "q < length xs" using zs by simp
  have ex: "exchange s e t xs = take s xs @ take no (drop e xs) @ take nn (drop s xs) @ drop t xs"
    by (simp add: exchange_def nn_def no_def)
  have ls: "length (take s xs) = s" "length (take no (drop e xs)) = no" "length (take nn (drop s xs)) = nn"
    using assms(1-3) by (simp_all add: nn_def no_def)
  consider "q < s" | "s \<le> q" "q < s + no" | "s + no \<le> q" "q < t" | "t \<le> q" by linarith
  then show "zs ! q = exchange s e t xs ! q"
  proof cases
    case 1
    then show ?thesis using zs q assms(1-3) by (simp add: ex nth_append ls)
  next
    case 2
    then have x: "q - s < nn + no" "q - s + nn < nn + no" by simp_all
    then have "source_of nn no (q - s) = q - s + nn" by (simp add: source_of_def)
    then have "zs ! (s + (q - s)) = xs ! (s + (q - s + nn))" using zs x(1) by simp
    then have "zs ! q = xs ! (e + (q - s))" using 2 n(3) by (simp add: ac_simps)
    moreover have "q - s < no" using 2 by linarith
    ultimately show ?thesis using 2 assms(1-3) ls by (simp add: ex nth_append)
  next
    case 3
    then have x: "q - s < nn + no" "no \<le> q - s" using n(4) by linarith+
    then have r: "q - s + nn = (q - s - no) + (nn + no)" "q - s - no < nn + no" by simp_all
    have "source_of nn no (q - s) = q - s - no"
      unfolding source_of_def r(1) mod_add_self2 by (rule mod_less [OF r(2)])
    then have "zs ! (s + (q - s)) = xs ! (s + (q - s - no))" using zs x(1) by simp
    then have "zs ! q = xs ! (s + (q - s - no))" using 3 by simp
    moreover have "q - s - no < nn" "\<not> q < s" "\<not> q - s < no" using 3 n(4) by linarith+
    ultimately show ?thesis using assms(1-3) ls by (simp add: ex nth_append)
  next
    case 4
    have "length (take s xs @ take no (drop e xs) @ take nn (drop s xs)) = t" using ls n by simp
    then have "exchange s e t xs ! q = drop t xs ! (q - t)"
      using 4 nth_append [of "take s xs @ take no (drop e xs) @ take nn (drop s xs)" "drop t xs" q]
      by (simp add: ex)
    moreover have "zs ! q = xs ! q" using zs q 4 n(4) by simp
    ultimately show ?thesis using 4 assms(3) q by simp
  qed
qed

lemma permute_args_exchange:
  assumes "s < e" "e < t" "t \<le> length xs"
  shows "permute_args (int s) (int e) (int t) xs = Some (exchange s e t xs)"
  using permute_args_moved [OF assms] moved_exchange [OF assms] by blast

section \<open>What the scanner has seen\<close>

text \<open>
  The options seen (with their arguments), the non-options skipped and the arguments still to
  be scanned, each in its order; the vector holds them with the skipped block somewhere in the
  middle. \<open>scan_inv\<close> is the invariant of the indices when an argument has been finished, and
  \<open>letter_inv\<close> the one while the letters of the argument at \<open>optind\<close> are handed out.
\<close>

definition opts_of :: "getopt_state \<Rightarrow> string list" where
  "opts_of st =
     (if g_nonopt_start st = - 1 then take (nat (g_optind st)) (g_nargv st)
      else if g_nonopt_end st = - 1 then take (nat (g_nonopt_start st)) (g_nargv st)
      else take (nat (g_nonopt_start st)) (g_nargv st)
           @ take (nat (g_optind st) - nat (g_nonopt_end st)) (drop (nat (g_nonopt_end st)) (g_nargv st)))"

definition nonopts_of :: "getopt_state \<Rightarrow> string list" where
  "nonopts_of st =
     (if g_nonopt_start st = - 1 then []
      else take (nat (if g_nonopt_end st = - 1 then g_optind st else g_nonopt_end st) - nat (g_nonopt_start st))
             (drop (nat (g_nonopt_start st)) (g_nargv st)))"

definition rest_of :: "getopt_state \<Rightarrow> string list" where
  "rest_of st = drop (nat (g_optind st)) (g_nargv st)"

definition block_inv :: "bool \<Rightarrow> getopt_state \<Rightarrow> bool" where
  "block_inv strict st \<longleftrightarrow>
     1 \<le> g_optind st \<and> g_optind st \<le> int (length (g_nargv st))
     \<and> (g_nonopt_start st = - 1 \<and> g_nonopt_end st = - 1
       \<or> 1 \<le> g_nonopt_start st \<and> g_nonopt_start st < g_optind st \<and> g_nonopt_end st = - 1 \<and> strict
       \<or> 1 \<le> g_nonopt_start st \<and> g_nonopt_start st < g_nonopt_end st
         \<and> (if strict then g_nonopt_end st < g_optind st else g_nonopt_end st \<le> g_optind st))"

definition scan_inv :: "getopt_state \<Rightarrow> bool" where
  "scan_inv st \<longleftrightarrow> block_inv True st"

definition letter_inv :: "getopt_state \<Rightarrow> bool" where
  "letter_inv st \<longleftrightarrow> block_inv False st \<and> g_optind st < int (length (g_nargv st))"

lemma mset_exchange:
  assumes "s \<le> e" "e \<le> t" "t \<le> length xs"
  shows "mset (exchange s e t xs) = mset xs"
proof -
  have "xs = take s xs @ take (e - s) (drop s xs) @ take (t - e) (drop e xs) @ drop t xs"
  proof -
    have "drop s xs = take (e - s) (drop s xs) @ drop e xs"
      using append_take_drop_id [of "e - s" "drop s xs"] assms by simp
    moreover have "drop e xs = take (t - e) (drop e xs) @ drop t xs"
      using append_take_drop_id [of "t - e" "drop e xs"] assms by simp
    ultimately show ?thesis using append_take_drop_id [of s xs] by simp
  qed
  then have "mset xs = mset (take s xs @ take (e - s) (drop s xs) @ take (t - e) (drop e xs) @ drop t xs)"
    by simp
  then show ?thesis by (simp add: exchange_def)
qed

lemma permute_args_int:
  assumes "0 \<le> s" "s < e" "e < t" "t \<le> int (length xs)"
  shows "permute_args s e t xs = Some (exchange (nat s) (nat e) (nat t) xs)"
  using permute_args_exchange [of "nat s" "nat e" "nat t" xs] assms by simp

text \<open>The exchange brings the three parts into their final order.\<close>

lemma exchange_view:
  assumes "scan_inv st" "g_nonopt_start st \<noteq> - 1" "g_nonopt_end st \<noteq> - 1"
  shows "permute_args (g_nonopt_start st) (g_nonopt_end st) (g_optind st) (g_nargv st)
      = Some (opts_of st @ nonopts_of st @ rest_of st)"
    "int (length (opts_of st)) = g_optind st - (g_nonopt_end st - g_nonopt_start st)"
    "mset (opts_of st @ nonopts_of st @ rest_of st) = mset (g_nargv st)"
    "int (length (nonopts_of st)) = g_nonopt_end st - g_nonopt_start st"
proof -
  note i = assms(1) [unfolded scan_inv_def block_inv_def]
  have p: "permute_args (g_nonopt_start st) (g_nonopt_end st) (g_optind st) (g_nargv st)
     = Some (exchange (nat (g_nonopt_start st)) (nat (g_nonopt_end st)) (nat (g_optind st)) (g_nargv st))"
    by (rule permute_args_int) (use i assms in auto)
  have v: "exchange (nat (g_nonopt_start st)) (nat (g_nonopt_end st)) (nat (g_optind st)) (g_nargv st)
     = opts_of st @ nonopts_of st @ rest_of st"
    using assms(2,3) by (simp add: exchange_def opts_of_def nonopts_of_def rest_of_def)
  show "permute_args (g_nonopt_start st) (g_nonopt_end st) (g_optind st) (g_nargv st)
      = Some (opts_of st @ nonopts_of st @ rest_of st)" using p v by simp
  show "mset (opts_of st @ nonopts_of st @ rest_of st) = mset (g_nargv st)"
    unfolding v [symmetric] by (rule mset_exchange) (use i assms in auto)
  show "int (length (opts_of st)) = g_optind st - (g_nonopt_end st - g_nonopt_start st)"
    "int (length (nonopts_of st)) = g_nonopt_end st - g_nonopt_start st"
    using i assms(2,3) by (auto simp: opts_of_def nonopts_of_def)
qed

definition is_nonopt :: "string \<Rightarrow> bool" where
  "is_nonopt a \<longleftrightarrow> rd a \<noteq> CHR ''-'' \<or> tl a = []"

text \<open>Nothing but the indices and the vector changes when a non-option is skipped.\<close>

definition same_rest :: "getopt_state \<Rightarrow> getopt_state \<Rightarrow> bool" where
  "same_rest st st' \<longleftrightarrow> g_place st' = g_place st \<and> g_optreset st' = g_optreset st
     \<and> g_optarg st' = g_optarg st \<and> g_warnings st' = g_warnings st \<and> g_opterr st' = g_opterr st
     \<and> mset (g_nargv st') = mset (g_nargv st)"

lemma take_snoc_drop:
  assumes "i \<le> j" "j < length v"
  shows "take (Suc j - i) (drop i v) = take (j - i) (drop i v) @ [v ! j]"
proof -
  have "Suc j - i = Suc (j - i)" using assms by simp
  moreover have "drop i v ! (j - i) = v ! j" using assms by simp
  moreover have "j - i < length (drop i v)" using assms by simp
  ultimately show ?thesis by (metis take_Suc_conv_app_nth)
qed

lemma skip_nonopt_view:
  assumes "scan_inv st" "g_optind st < int (length (g_nargv st))"
  shows "\<exists>st'. skip_nonopt st = Some st' \<and> scan_inv st' \<and> same_rest st st'
    \<and> opts_of st' = opts_of st \<and> nonopts_of st' = nonopts_of st @ [hd (rest_of st)]
    \<and> rest_of st' = tl (rest_of st) \<and> g_optind st' = g_optind st + 1"
proof -
  note i = assms(1) [unfolded scan_inv_def block_inv_def]
  define oi where "oi = nat (g_optind st)"
  have oi: "g_optind st = int oi" "oi < length (g_nargv st)" "1 \<le> oi" using i assms(2) by (auto simp: oi_def nat_less_iff)
  have r: "rest_of st = g_nargv st ! oi # drop (Suc oi) (g_nargv st)"
    using oi by (simp add: rest_of_def Cons_nth_drop_Suc)
  consider (none) "g_nonopt_start st = - 1" "g_nonopt_end st = - 1"
    | (open_block) "g_nonopt_start st \<noteq> - 1" "g_nonopt_end st = - 1"
    | (closed) "g_nonopt_start st \<noteq> - 1" "g_nonopt_end st \<noteq> - 1"
    using i by auto
  then show ?thesis
  proof cases
    case none
    then have "skip_nonopt st = Some (st\<lparr>g_nonopt_start := int oi, g_optind := int oi + 1\<rparr>)"
      by (simp add: skip_nonopt_def oi)
    then show ?thesis using none oi r take_snoc_drop [of oi oi "g_nargv st"]
      by (simp add: scan_inv_def block_inv_def same_rest_def opts_of_def nonopts_of_def rest_of_def nat_add_distrib)
  next
    case open_block
    define ns where "ns = nat (g_nonopt_start st)"
    have ns: "g_nonopt_start st = int ns" "ns < oi" "1 \<le> ns" using open_block i oi by (auto simp: ns_def)
    have "skip_nonopt st = Some (st\<lparr>g_optind := int oi + 1\<rparr>)"
      using open_block by (simp add: skip_nonopt_def oi)
    then show ?thesis using open_block ns oi r take_snoc_drop [of ns oi "g_nargv st"]
      by (simp add: scan_inv_def block_inv_def same_rest_def opts_of_def nonopts_of_def rest_of_def nat_add_distrib)
  next
    case closed
    note v = exchange_view [OF assms(1) closed]
    define O' N' where "O' = opts_of st" and "N' = nonopts_of st"
    define st' where "st' = st\<lparr>g_nargv := O' @ N' @ rest_of st,
      g_nonopt_start := int (length O'), g_nonopt_end := - 1, g_optind := int oi + 1\<rparr>"
    have "skip_nonopt st = Some st'"
      using closed v by (simp add: skip_nonopt_def oi st'_def O'_def N'_def)
    moreover have l: "oi = length O' + length N'" "0 < length N'" "1 \<le> length O'"
      using v(2,4) i closed oi by (auto simp: O'_def N'_def)
    moreover have "scan_inv st'" using oi l r by (simp add: st'_def scan_inv_def block_inv_def)
    moreover have "same_rest st st'" using v(3) by (simp add: st'_def same_rest_def O'_def N'_def)
    moreover have "opts_of st' = O'" by (simp add: st'_def opts_of_def)
    moreover have "nonopts_of st' = N' @ [hd (rest_of st)]" "rest_of st' = tl (rest_of st)"
      using l r by (simp_all add: st'_def nonopts_of_def rest_of_def nat_add_distrib Suc_diff_le)
    ultimately show ?thesis by (simp add: O'_def N'_def st'_def oi)
  qed
qed

lemma scan_end_view:
  assumes "scan_inv st" "rest_of st = []"
  shows "\<exists>st'. scan_end st = Some (Return (- 1), st') \<and> g_nargv st' = opts_of st @ nonopts_of st
    \<and> g_optind st' = int (length (opts_of st)) \<and> g_nonopt_start st' = - 1 \<and> g_nonopt_end st' = - 1
    \<and> g_place st' = [] \<and> g_optreset st' = g_optreset st \<and> g_optarg st' = g_optarg st \<and> scan_inv st'
    \<and> mset (g_nargv st') = mset (g_nargv st)"
proof -
  note i = assms(1) [unfolded scan_inv_def block_inv_def]
  have oi: "g_optind st = int (length (g_nargv st))" using i assms(2) by (auto simp: rest_of_def)
  consider (none) "g_nonopt_start st = - 1" "g_nonopt_end st = - 1"
    | (open_block) "g_nonopt_start st \<noteq> - 1" "g_nonopt_end st = - 1"
    | (closed) "g_nonopt_start st \<noteq> - 1" "g_nonopt_end st \<noteq> - 1"
    using i by auto
  then show ?thesis
  proof cases
    case none
    then show ?thesis using i by (simp add: scan_end_def opts_of_def nonopts_of_def oi scan_inv_def block_inv_def)
  next
    case open_block
    then show ?thesis using i oi
      by (auto simp: scan_end_def opts_of_def nonopts_of_def scan_inv_def block_inv_def)
  next
    case closed
    note v = exchange_view [OF assms(1) closed]
    moreover have "1 \<le> int (length (opts_of st))" using v(2) i closed by auto
    ultimately show ?thesis using closed assms(2)
      by (simp add: scan_end_def permute_now_def scan_inv_def block_inv_def)
  qed
qed

section \<open>The loop\<close>

text \<open>The state in which the first option after the skipped block has been found.\<close>

definition at_option :: "getopt_state \<Rightarrow> getopt_state" where
  "at_option st = (if g_nonopt_start st \<noteq> - 1 \<and> g_nonopt_end st = - 1
                   then st\<lparr>g_nonopt_end := g_optind st\<rparr> else st)"

lemma at_option_view:
  assumes "scan_inv st" "g_optind st < int (length (g_nargv st))"
  shows "letter_inv (at_option st)" "opts_of (at_option st) = opts_of st"
    "nonopts_of (at_option st) = nonopts_of st" "rest_of (at_option st) = rest_of st"
    "g_nargv (at_option st) = g_nargv st"
  using assms
  by (auto simp: at_option_def letter_inv_def scan_inv_def block_inv_def opts_of_def nonopts_of_def rest_of_def)

lemma view_cong:
  assumes "g_optind st' = g_optind st" "g_nargv st' = g_nargv st"
    "g_nonopt_start st' = g_nonopt_start st" "g_nonopt_end st' = g_nonopt_end st"
  shows "opts_of st' = opts_of st" "nonopts_of st' = nonopts_of st" "rest_of st' = rest_of st"
    "block_inv b st' = block_inv b st" "scan_inv st' = scan_inv st" "letter_inv st' = letter_inv st"
  using assms by (simp_all add: opts_of_def nonopts_of_def rest_of_def block_inv_def scan_inv_def letter_inv_def)

text \<open>One pass of the loop, for an argument that is an option or one that is not.\<close>

lemma rest_of_hd:
  assumes "scan_inv st" "g_optind st < int (length (g_nargv st))"
  shows "rest_of st \<noteq> []" "hd (rest_of st) = g_nargv st ! nat (g_optind st)"
  using assms by (auto simp: rest_of_def hd_drop_conv_nth nat_less_iff scan_inv_def block_inv_def)

lemma rest_of_Nil: "scan_inv st \<Longrightarrow> rest_of st = [] \<longleftrightarrow> g_optind st \<ge> int (length (g_nargv st))"
  by (auto simp: rest_of_def scan_inv_def block_inv_def)

lemma scan_loop_end:
  assumes "g_optreset st \<or> g_place st = []" "scan_inv st" "rest_of st = []"
  shows "scan_loop posix options st = scan_end (st\<lparr>g_optreset := False\<rparr>)"
  using assms rest_of_Nil [OF assms(2)] by (simp add: scan_loop.simps)

lemma scan_loop_option:
  assumes "g_optreset st \<or> g_place st = []" "scan_inv st" "rest_of st = a # as" "\<not> is_nonopt a"
  shows "\<exists>st'. scan_loop posix options st
       = Some (if rd (tl a) = CHR ''-'' then Return (- 2) else Letter, st')
     \<and> g_place st' = (if rd (tl a) = CHR ''-'' then tl (tl a) else tl a) \<and> tl a \<noteq> []
     \<and> letter_inv st' \<and> opts_of st' = opts_of st \<and> nonopts_of st' = nonopts_of st \<and> rest_of st' = a # as
     \<and> g_optarg st' = g_optarg st \<and> \<not> g_optreset st' \<and> g_nargv st' = g_nargv st"
proof -
  have lt: "g_optind st < int (length (g_nargv st))" using rest_of_Nil [OF assms(2)] assms(3) by auto
  have a: "g_nargv st ! nat (g_optind st) = a" using rest_of_hd [OF assms(2) lt] assms(3) by simp
  have nn: "\<not> g_optind st < 0" using assms(2) by (auto simp: scan_inv_def block_inv_def)
  define p where "p = (if rd (tl a) = CHR ''-'' then tl (tl a) else tl a)"
  define st' where "st' = (at_option st)\<lparr>g_optreset := False, g_place := p\<rparr>"
  have na: "rd a = CHR ''-''" "tl a \<noteq> []" using assms(4) by (simp_all add: is_nonopt_def)
  have r: "scan_loop posix options st = Some (if rd (tl a) = CHR ''-'' then Return (- 2) else Letter, st')"
    using assms(1) lt nn a na by (cases st) (simp add: scan_loop.simps Let_def st'_def p_def at_option_def)
  note v = at_option_view [OF assms(2) lt]
  have c: "g_optind st' = g_optind (at_option st)" "g_nargv st' = g_nargv (at_option st)"
    "g_nonopt_start st' = g_nonopt_start (at_option st)" "g_nonopt_end st' = g_nonopt_end (at_option st)"
    by (simp_all add: st'_def)
  have "g_optarg st' = g_optarg st" by (simp add: st'_def at_option_def)
  then show ?thesis using r v view_cong [OF c] na c assms(3) by (simp add: st'_def p_def)
qed

lemma scan_loop_skip:
  assumes "g_optreset st \<or> g_place st = []" "scan_inv st" "rest_of st = a # as" "is_nonopt a"
    and "PERMUTE posix options"
  shows "\<exists>st'. scan_loop posix options st = scan_loop posix options st'
     \<and> g_place st' = [] \<and> \<not> g_optreset st' \<and> g_optarg st' = g_optarg st \<and> scan_inv st'
     \<and> opts_of st' = opts_of st \<and> nonopts_of st' = nonopts_of st @ [a] \<and> rest_of st' = as
     \<and> mset (g_nargv st') = mset (g_nargv st)"
proof -
  have lt: "g_optind st < int (length (g_nargv st))" using rest_of_Nil [OF assms(2)] assms(3) by auto
  have a: "g_nargv st ! nat (g_optind st) = a" using rest_of_hd [OF assms(2) lt] assms(3) by simp
  have nn: "\<not> g_optind st < 0" using assms(2) by (auto simp: scan_inv_def block_inv_def)
  have no: "\<not> IN_ORDER posix options" using assms(5) by (auto simp: IN_ORDER_def PERMUTE_def IGNORE_FIRST_def)
  define st0 where "st0 = st\<lparr>g_optreset := False, g_place := []\<rparr>"
  have v: "scan_inv st0" "opts_of st0 = opts_of st" "nonopts_of st0 = nonopts_of st" "rest_of st0 = rest_of st"
    "g_optind st0 = g_optind st" "g_nargv st0 = g_nargv st"
    using view_cong [of st0 st] assms(2) by (simp_all add: st0_def)
  obtain st' where s: "skip_nonopt st0 = Some st'" "scan_inv st'" "same_rest st0 st'"
    "opts_of st' = opts_of st" "nonopts_of st' = nonopts_of st @ [a]" "rest_of st' = as"
    using skip_nonopt_view [of st0] v lt assms(3) by auto
  have "scan_loop posix options st = scan_loop posix options st'"
    using assms(1,4,5) lt nn a no s(1)
    by (subst scan_loop.simps) (simp add: is_nonopt_def st0_def)
  then show ?thesis using s v by (auto simp: same_rest_def st0_def)
qed

text \<open>With permutation: the non-options are skipped up to the next option or the end.\<close>

lemma scan_loop_permute:
  assumes "g_optreset st \<or> g_place st = []" "scan_inv st" "PERMUTE posix options"
  shows "\<exists>st'. scan_loop posix options st = scan_loop posix options st'
     \<and> (g_optreset st' \<or> g_place st' = []) \<and> g_optarg st' = g_optarg st \<and> scan_inv st'
     \<and> opts_of st' = opts_of st \<and> nonopts_of st' = nonopts_of st @ takeWhile is_nonopt (rest_of st)
     \<and> rest_of st' = dropWhile is_nonopt (rest_of st) \<and> mset (g_nargv st') = mset (g_nargv st)"
  using assms(1,2)
proof (induction "rest_of st" arbitrary: st)
  case Nil
  have "takeWhile is_nonopt (rest_of st) = []" "dropWhile is_nonopt (rest_of st) = rest_of st"
    unfolding Nil(1) [symmetric] by simp_all
  then show ?case using Nil(2,3) by (intro exI [of _ st]) simp
next
  case (Cons a as)
  note r = Cons.hyps(2) [symmetric]
  show ?case
  proof (cases "is_nonopt a")
    case False
    then show ?thesis using Cons.prems r by (intro exI [of _ st]) simp
  next
    case True
    obtain st1 where s: "scan_loop posix options st = scan_loop posix options st1"
      "g_place st1 = []" "g_optarg st1 = g_optarg st" "scan_inv st1" "opts_of st1 = opts_of st"
      "nonopts_of st1 = nonopts_of st @ [a]" "rest_of st1 = as" "mset (g_nargv st1) = mset (g_nargv st)"
      using scan_loop_skip [OF Cons.prems(1,2) r True assms(3)] by auto
    have "g_optreset st1 \<or> g_place st1 = []" using s(2) by simp
    from Cons.hyps(1) [OF s(7) [symmetric] this s(4)] show ?thesis
      using s r True by (auto simp: s(7))
  qed
qed

text \<open>Every scan ends in one of these ways, whatever the mode.\<close>

definition scan_result :: "getopt_state \<Rightarrow> scan \<Rightarrow> getopt_state \<Rightarrow> bool" where
  "scan_result st res st' \<longleftrightarrow> \<not> g_optreset st' \<and> mset (g_nargv st') = mset (g_nargv st) \<and>
     (case res of Letter \<Rightarrow> letter_inv st' \<and> g_place st' \<noteq> []
      | Return r \<Rightarrow> if r = - 2 then letter_inv st' else scan_inv st' \<and> g_place st' = [])"

lemma scan_loop_total:
  assumes "g_optreset st \<or> g_place st = []" "scan_inv st"
  shows "\<exists>res st'. scan_loop posix options st = Some (res, st') \<and> scan_result st res st'"
proof (cases "rest_of st")
  case Nil
  have "scan_inv (st\<lparr>g_optreset := False\<rparr>)" "rest_of (st\<lparr>g_optreset := False\<rparr>) = []"
    using view_cong [of "st\<lparr>g_optreset := False\<rparr>" st] assms(2) Nil by simp_all
  from scan_end_view [OF this] show ?thesis
    using scan_loop_end [OF assms Nil] by (auto simp: scan_result_def)
next
  case (Cons a as)
  have lt: "g_optind st < int (length (g_nargv st))" using rest_of_Nil [OF assms(2)] Cons by auto
  have a: "g_nargv st ! nat (g_optind st) = a" using rest_of_hd [OF assms(2) lt] Cons by simp
  have nn: "\<not> g_optind st < 0" using assms(2) by (auto simp: scan_inv_def block_inv_def)
  show ?thesis
  proof (cases "is_nonopt a")
    case False
    from scan_loop_option [OF assms Cons False, of posix options] show ?thesis
      by (cases "rd (tl a) = CHR ''-''") (auto simp: scan_result_def)
  next
    case nonopt: True
    consider (in_order) "IN_ORDER posix options" | (stop) "\<not> IN_ORDER posix options" "\<not> PERMUTE posix options"
      | (perm) "PERMUTE posix options" by blast
    then show ?thesis
    proof cases
      case in_order
      have "scan_loop posix options st = Some (Return INORDER, st\<lparr>g_optreset := False, g_place := [],
          g_optarg := Some a, g_optind := g_optind st + 1\<rparr>)"
        using assms(1) lt nn a nonopt in_order by (subst scan_loop.simps) (simp add: is_nonopt_def)
      then show ?thesis using assms(2) lt
        by (auto simp: scan_result_def scan_inv_def block_inv_def INORDER_def)
    next
      case stop
      have "scan_loop posix options st = Some (Return (- 1), st\<lparr>g_optreset := False, g_place := []\<rparr>)"
        using assms(1) lt nn a nonopt stop by (subst scan_loop.simps) (simp add: is_nonopt_def)
      then show ?thesis using assms(2) by (auto simp: scan_result_def scan_inv_def block_inv_def)
    next
      case perm
      obtain st1 where s: "scan_loop posix options st = scan_loop posix options st1"
        "g_optreset st1 \<or> g_place st1 = []" "scan_inv st1" "rest_of st1 = dropWhile is_nonopt (rest_of st)"
        "mset (g_nargv st1) = mset (g_nargv st)"
        using scan_loop_permute [OF assms perm] by auto
      show ?thesis
      proof (cases "rest_of st1")
        case Nil
        have "scan_inv (st1\<lparr>g_optreset := False\<rparr>)" "rest_of (st1\<lparr>g_optreset := False\<rparr>) = []"
          using view_cong [of "st1\<lparr>g_optreset := False\<rparr>" st1] s(3) Nil by simp_all
        from scan_end_view [OF this] show ?thesis
          using scan_loop_end [OF s(2,3) Nil] s(1,5)
          by (auto simp: scan_result_def)
      next
        case c: (Cons b bs)
        then have "\<not> is_nonopt b" using s(4) hd_dropWhile [of is_nonopt "rest_of st"] by simp
        from scan_loop_option [OF s(2,3) c this, of posix options] show ?thesis
          using s(1,5) by (cases "rd (tl b) = CHR ''-''") (auto simp: scan_result_def)
      qed
    qed
  qed
qed

section \<open>Option letters\<close>

definition find_letter :: "string \<Rightarrow> char \<Rightarrow> string option" where
  "find_letter options c =
     (if c = CHR '':'' then None else strchr (if IGNORE_FIRST options then tl options else options) c)"

text \<open>
  Option texts the properties are about: no \<open>W;\<close> and none of the two characters whose value as
  an \<open>int\<close> is one of the special results \<open>-1\<close> and \<open>-2\<close>.
\<close>

definition plain_options :: "string \<Rightarrow> bool" where
  "plain_options options \<longleftrightarrow> CHR 0xFE \<notin> set options \<and> CHR 0xFF \<notin> set options
     \<and> (\<forall>oli. find_letter options CHR ''W'' = Some oli \<longrightarrow> rd (tl oli) \<noteq> CHR '';'')"

lemma strchr_set: "strchr s c = Some t \<Longrightarrow> c \<in> set s"
  by (induction s) (auto simp: strchr_def split: if_splits)

lemma find_letter_set: "find_letter options c = Some t \<Longrightarrow> c \<in> set options"
  by (auto simp: find_letter_def dest!: strchr_set split: if_splits dest: list.set_sel(2))
    (metis list.sel(2) list.set_sel(2))

lemma char_int_special: "char_int c = - 1 \<longleftrightarrow> c = CHR 0xFF" "char_int c = - 2 \<longleftrightarrow> c = CHR 0xFE"
proof -
  have c: "char_int c = - 1 \<longleftrightarrow> (of_char c :: int) = of_char (CHR 0xFF)"
    "char_int c = - 2 \<longleftrightarrow> (of_char c :: int) = of_char (CHR 0xFE)"
    using of_nat_of_char [of c, where 'a = int] nat_of_char_less_256 [of c]
    by (auto simp: char_int_def)
  show "char_int c = - 1 \<longleftrightarrow> c = CHR 0xFF" "char_int c = - 2 \<longleftrightarrow> c = CHR 0xFE"
    unfolding c by (simp_all only: of_char_eq_iff)
qed

text \<open>One letter, abstractly: the event, how many further arguments it uses, the letters left.\<close>

type_synonym event = "int \<times> string option"

definition letter_step :: "string \<Rightarrow> char \<Rightarrow> string \<Rightarrow> string list \<Rightarrow> event \<times> nat \<times> string" where
  "letter_step options c cs as =
     (case find_letter options c of
        None \<Rightarrow> ((BADCH, None), 0, cs)
      | Some oli \<Rightarrow>
          if rd (tl oli) \<noteq> CHR '':'' then ((char_int c, None), 0, cs)
          else if cs \<noteq> [] then ((char_int c, Some cs), 0, [])
          else if rd (tl (tl oli)) \<noteq> CHR '':''
          then (case as of [] \<Rightarrow> ((BADARG options, None), 0, []) | b # _ \<Rightarrow> ((char_int c, Some b), 1, []))
          else ((char_int c, None), 0, []))"

text \<open>Moving \<open>optind\<close> over finished arguments appends them to the options seen.\<close>

lemma advance_view:
  assumes "letter_inv st" "g_optind st' = g_optind st + int k" "0 < k"
    "g_optind st + int k \<le> int (length (g_nargv st))" "g_nargv st' = g_nargv st"
    "g_nonopt_start st' = g_nonopt_start st" "g_nonopt_end st' = g_nonopt_end st"
  shows "scan_inv st'" "opts_of st' = opts_of st @ take k (rest_of st)"
    "nonopts_of st' = nonopts_of st" "rest_of st' = drop k (rest_of st)"
proof -
  note i = assms(1) [unfolded letter_inv_def block_inv_def]
  define oi where "oi = nat (g_optind st)"
  have oi: "g_optind st = int oi" using i by (simp add: oi_def)
  then have oi': "nat (g_optind st') = oi + k" by (simp add: assms(2) nat_add_distrib)
  show "scan_inv st'" using i assms by (auto simp: scan_inv_def block_inv_def)
  show "rest_of st' = drop k (rest_of st)" using assms(5) by (simp add: rest_of_def oi' oi add.commute)
  show "nonopts_of st' = nonopts_of st" using i assms(5-7) by (auto simp: nonopts_of_def)
  show "opts_of st' = opts_of st @ take k (rest_of st)"
  proof (cases "g_nonopt_start st = - 1")
    case True
    then show ?thesis using assms(5,6) by (simp add: opts_of_def rest_of_def oi oi' take_add)
  next
    case False
    define ne where "ne = nat (g_nonopt_end st)"
    have ne: "g_nonopt_end st \<noteq> - 1" "ne \<le> oi" using i False oi by (auto simp: ne_def)
    then have "oi + k - ne = (oi - ne) + k" by simp
    moreover have "drop (oi - ne) (drop ne (g_nargv st)) = drop oi (g_nargv st)" using ne(2) by simp
    ultimately have "take (oi + k - ne) (drop ne (g_nargv st))
        = take (oi - ne) (drop ne (g_nargv st)) @ take k (drop oi (g_nargv st))"
      by (simp only: take_add)
    then show ?thesis using assms(5-7) False ne
      by (simp add: opts_of_def rest_of_def oi oi' flip: ne_def)
  qed
qed

text \<open>What a letter does to the indices and to \<open>place\<close>; \<open>-2\<close> only for the special \<open>W\<close>.\<close>

definition letter_post :: "getopt_state \<Rightarrow> int \<Rightarrow> getopt_state \<Rightarrow> bool" where
  "letter_post st r st' \<longleftrightarrow> g_nargv st' = g_nargv st \<and> g_nonopt_start st' = g_nonopt_start st
     \<and> g_nonopt_end st' = g_nonopt_end st \<and> g_optreset st' = g_optreset st
     \<and> (\<exists>k. g_optind st' = g_optind st + int k \<and> g_optind st' \<le> int (length (g_nargv st))
        \<and> (k = 0 \<longrightarrow> g_place st' \<noteq> []) \<and> (0 < k \<and> r \<noteq> - 2 \<longrightarrow> g_place st' = [])
        \<and> (r = - 2 \<longrightarrow> g_optind st' < int (length (g_nargv st))))"

lemma getopt_letter_post:
  assumes "letter_inv st" "CHR 0xFE \<notin> set options" "getopt_letter options st = (r, st')"
  shows "letter_post st r st'"
proof -
  have lt: "g_optind st < int (length (g_nargv st))" using assms(1) by (simp add: letter_inv_def)
  define c where "c = rd (g_place st)"
  have b: "BADCH \<noteq> - 2" "BADARG options \<noteq> - 2"
    by (simp_all add: BADCH_def BADARG_def char_int_def)
  have r2: "char_int c \<noteq> - 2" if "find_letter options c = Some oli" for oli
    using find_letter_set [OF that] assms(2) by (auto simp: char_int_special)
  show ?thesis
    using assms(3) lt b r2
    unfolding getopt_letter_def Let_def c_def [symmetric] find_letter_def [symmetric]
    by (auto simp: letter_post_def warnx_def split: option.splits if_splits
        intro: exI [of _ 0] exI [of _ 1] exI [of _ 2])
qed

section \<open>The invariant between calls\<close>

definition getopt_inv :: "getopt_state \<Rightarrow> bool" where
  "getopt_inv st \<longleftrightarrow> g_nargv st \<noteq> [] \<and>
     (if g_optreset st then 0 \<le> g_optind st \<and> g_optind st \<le> int (length (g_nargv st))
      else if g_place st = []
      then scan_inv st \<or> g_optind st = 0 \<and> g_nonopt_start st = - 1 \<and> g_nonopt_end st = - 1
      else letter_inv st)"

text \<open>What \<open>getopt_internal\<close> does before it scans.\<close>

definition prepared :: "getopt_state \<Rightarrow> getopt_state" where
  "prepared st =
     (let st = st\<lparr>g_optarg := None\<rparr>;
          st = (if g_optind st = 0 then st\<lparr>g_optind := 1\<rparr> else st)
      in if g_optreset st then st\<lparr>g_nonopt_start := - 1, g_nonopt_end := - 1\<rparr> else st)"

lemma getopt_internal_prepared:
  "getopt_internal posix options st =
     (case scan_loop posix options (prepared st) of
        None \<Rightarrow> None
      | Some (Return r, st) \<Rightarrow> Some (r, st)
      | Some (Letter, st) \<Rightarrow> Some (getopt_letter options st))"
  unfolding getopt_internal_def prepared_def Let_def ..

lemma prepared_inv:
  assumes "getopt_inv st"
  shows "g_optreset st \<or> g_place st = [] \<Longrightarrow> scan_inv (prepared st)"
    "\<not> (g_optreset st \<or> g_place st = []) \<Longrightarrow> letter_inv (prepared st)"
    "g_optreset (prepared st) = g_optreset st" "g_place (prepared st) = g_place st"
    "g_nargv (prepared st) = g_nargv st" "g_optarg (prepared st) = None"
proof -
  have "1 \<le> length (g_nargv st)" using assms by (cases "g_nargv st") (simp_all add: getopt_inv_def)
  then show "g_optreset st \<or> g_place st = [] \<Longrightarrow> scan_inv (prepared st)"
    "\<not> (g_optreset st \<or> g_place st = []) \<Longrightarrow> letter_inv (prepared st)"
    using assms
    by (auto simp: getopt_inv_def prepared_def Let_def scan_inv_def block_inv_def letter_inv_def split: if_splits)
  show "g_optreset (prepared st) = g_optreset st" "g_place (prepared st) = g_place st"
    "g_nargv (prepared st) = g_nargv st" "g_optarg (prepared st) = None"
    by (simp_all add: prepared_def Let_def)
qed

text \<open>
  After \<open>getopt_internal\<close>: for \<open>-2\<close> the argument at \<open>optind\<close> exists and is to be consumed; for
  any other result the invariant holds again.
\<close>

lemma letter_step_inv:
  assumes "letter_inv st" "\<not> g_optreset st" "g_nargv st \<noteq> []" "letter_post st r st'"
  shows "if r = - 2 then letter_inv st' else getopt_inv st'"
proof -
  note p = assms(4) [unfolded letter_post_def]
  obtain k where k: "g_optind st' = g_optind st + int k" "g_optind st' \<le> int (length (g_nargv st))"
    "k = 0 \<longrightarrow> g_place st' \<noteq> []" "0 < k \<and> r \<noteq> - 2 \<longrightarrow> g_place st' = []"
    "r = - 2 \<longrightarrow> g_optind st' < int (length (g_nargv st))" using p by blast
  have same: "g_nargv st' = g_nargv st" "g_nonopt_start st' = g_nonopt_start st"
    "g_nonopt_end st' = g_nonopt_end st" "g_optreset st' = g_optreset st" using p by simp_all
  show ?thesis
  proof (cases "k = 0")
    case True
    then have "letter_inv st'" using view_cong(6) [of st' st] assms(1) same k(1) by simp
    then show ?thesis using True k assms(2-3) same by (simp add: getopt_inv_def)
  next
    case False
    then have s: "scan_inv st'" using advance_view(1) [OF assms(1) k(1)] k(1,2) same by simp
    then have "r = - 2 \<Longrightarrow> letter_inv st'"
      using assms(1) k(1,5) same by (auto simp: letter_inv_def scan_inv_def block_inv_def)
    then show ?thesis using s False k assms(2-3) same by (simp add: getopt_inv_def)
  qed
qed

lemma getopt_internal_total:
  assumes "getopt_inv st" "CHR 0xFE \<notin> set options"
  shows "\<exists>r st'. getopt_internal posix options st = Some (r, st')
     \<and> mset (g_nargv st') = mset (g_nargv st) \<and> \<not> g_optreset st'
     \<and> (if r = - 2 then letter_inv st' else getopt_inv st')"
proof -
  note p = prepared_inv [OF assms(1)]
  have ne: "g_nargv st \<noteq> []" using assms(1) by (simp add: getopt_inv_def)
  have letter: "\<exists>r st'. getopt_letter options s = (r, st') \<and> mset (g_nargv st') = mset (g_nargv st)
      \<and> \<not> g_optreset st' \<and> (if r = - 2 then letter_inv st' else getopt_inv st')"
    if "letter_inv s" "\<not> g_optreset s" "mset (g_nargv s) = mset (g_nargv st)" for s
  proof -
    obtain r st' where l: "getopt_letter options s = (r, st')" by fastforce
    have "g_nargv s \<noteq> []" using that(3) ne by (metis mset_zero_iff)
    then show ?thesis
      using letter_step_inv [OF that(1,2) _ getopt_letter_post [OF that(1) assms(2) l]]
        getopt_letter_post [OF that(1) assms(2) l] that(2,3) l by (auto simp: letter_post_def)
  qed
  show ?thesis
  proof (cases "g_optreset st \<or> g_place st = []")
    case True
    then have "g_optreset (prepared st) \<or> g_place (prepared st) = []" using p(3,4) by simp
    from scan_loop_total [OF this p(1) [OF True], of posix options] obtain res s where
      s: "scan_loop posix options (prepared st) = Some (res, s)" "scan_result (prepared st) res s" by blast
    have m: "mset (g_nargv s) = mset (g_nargv st)" "\<not> g_optreset s"
      using s(2) p(5) by (simp_all add: scan_result_def)
    then have "g_nargv s \<noteq> []" using ne by (metis mset_zero_iff)
    show ?thesis
    proof (cases res)
      case (Return r)
      then show ?thesis
        using s m \<open>g_nargv s \<noteq> []\<close>
        by (auto simp: getopt_internal_prepared scan_result_def getopt_inv_def split: if_splits)
    next
      case Letter
      then show ?thesis using letter [of s] s m
        by (simp add: getopt_internal_prepared scan_result_def)
    qed
  next
    case False
    then have "scan_loop posix options (prepared st) = Some (Letter, prepared st)"
      using p(3,4) by (subst scan_loop.simps) simp
    then show ?thesis using letter [of "prepared st"] p False
      by (simp add: getopt_internal_prepared)
  qed
qed

text \<open>
  The callers never leave the vector and never divide by zero; they only permute the vector,
  and the invariant holds again unless scanning is over.
\<close>

lemma end_marker_total:
  assumes "letter_inv st"
  shows "\<exists>st'. end_marker (st\<lparr>g_optind := g_optind st + 1, g_place := p\<rparr>) = Some (- 1, st')
     \<and> mset (g_nargv st') = mset (g_nargv st)
     \<and> g_nargv st' = opts_of st @ [hd (rest_of st)] @ nonopts_of st @ tl (rest_of st)
     \<and> g_optind st' = int (length (opts_of st)) + 1"
proof -
  define s where "s = st\<lparr>g_optind := g_optind st + 1, g_place := p\<rparr>"
  have lt: "g_optind st < int (length (g_nargv st))" using assms by (simp add: letter_inv_def)
  have oi: "1 \<le> g_optind st" using assms by (simp add: letter_inv_def block_inv_def)
  have v: "scan_inv s" "opts_of s = opts_of st @ take 1 (rest_of st)" "nonopts_of s = nonopts_of st"
    "rest_of s = drop 1 (rest_of st)" "g_nargv s = g_nargv st"
    "g_optind s = g_optind st + 1"
    using advance_view [OF assms, of s 1] lt by (simp_all add: s_def)
  have r: "rest_of st = hd (rest_of st) # tl (rest_of st)"
    using lt oi by (intro hd_Cons_tl [symmetric]) (auto simp: rest_of_def nat_less_iff)
  then have t1: "take 1 (rest_of st) = [hd (rest_of st)]" "drop 1 (rest_of st) = tl (rest_of st)"
    by (metis One_nat_def take0 take_Suc_Cons, simp add: drop_Suc)
  show ?thesis
  proof (cases "g_nonopt_end st = - 1")
    case True
    then have ns: "g_nonopt_start st = - 1" using assms by (auto simp: letter_inv_def block_inv_def)
    then have "nonopts_of st = []" by (simp add: nonopts_of_def)
    moreover have "opts_of st = take (nat (g_optind st)) (g_nargv st)" using ns by (simp add: opts_of_def)
    moreover have "rest_of st = drop (nat (g_optind st)) (g_nargv st)" by (simp add: rest_of_def)
    ultimately have "g_nargv st = opts_of st @ [hd (rest_of st)] @ nonopts_of st @ tl (rest_of st)"
      using r by (metis append_Cons append_Nil append_take_drop_id)
    moreover have "int (length (opts_of st)) = g_optind st"
      using ns lt oi by (simp add: opts_of_def)
    ultimately show ?thesis using True by (simp add: end_marker_def s_def)
  next
    case False
    then have ne: "g_nonopt_start s \<noteq> - 1" "g_nonopt_end s \<noteq> - 1"
      using assms by (auto simp: letter_inv_def block_inv_def s_def)
    note e = exchange_view [OF v(1) ne]
    have "permute_now s = Some (s\<lparr>g_nargv := opts_of s @ nonopts_of s @ rest_of s,
        g_optind := int (length (opts_of s))\<rparr>)"
      using e(1,2) by (simp add: permute_now_def)
    moreover have "opts_of s @ nonopts_of s @ rest_of s
       = opts_of st @ [hd (rest_of st)] @ nonopts_of st @ tl (rest_of st)"
      by (simp add: v(2-4) t1 [simplified])
    moreover have "int (length (opts_of s)) = int (length (opts_of st)) + 1" by (simp add: v(2) t1 [simplified])
    moreover have "mset (opts_of s @ nonopts_of s @ rest_of s) = mset (g_nargv st)" using e(3) v(5) by simp
    ultimately show ?thesis using ne by (simp add: end_marker_def flip: s_def)
  qed
qed

lemma getopt_total:
  assumes "getopt_inv st" "CHR 0xFE \<notin> set options"
  shows "\<exists>r st'. getopt posix options st = Some (r, st') \<and> mset (g_nargv st') = mset (g_nargv st)
     \<and> (r \<noteq> - 1 \<longrightarrow> getopt_inv st')"
proof -
  obtain r s where g: "getopt_internal posix options st = Some (r, s)"
    "mset (g_nargv s) = mset (g_nargv st)" "if r = - 2 then letter_inv s else getopt_inv s"
    using getopt_internal_total [OF assms, of posix] by blast
  show ?thesis
  proof (cases "r = - 2")
    case True
    then obtain s' where "end_marker (s\<lparr>g_optind := g_optind s + 1\<rparr>) = Some (- 1, s')"
      "mset (g_nargv s') = mset (g_nargv s)"
      using end_marker_total [of s "g_place s"] g(3) by auto
    then show ?thesis using g(1,2) True by (simp add: getopt_def)
  next
    case False
    then show ?thesis using g by (simp add: getopt_def)
  qed
qed

lemma getopt_long_option_inv:
  assumes "scan_inv st" "g_place st = []" "\<not> g_optreset st"
    and "getopt_long_option options los with_idx cur st = (r, st')"
  shows "g_nargv st' = g_nargv st \<and> scan_inv st' \<and> g_place st' = [] \<and> \<not> g_optreset st'"
proof -
  define grow where "grow s \<longleftrightarrow> g_nargv s = g_nargv st \<and> g_nonopt_start s = g_nonopt_start st
    \<and> g_nonopt_end s = g_nonopt_end st \<and> g_place s = [] \<and> \<not> g_optreset s
    \<and> g_optind st \<le> g_optind s \<and> g_optind s \<le> int (length (g_nargv st))" for s :: getopt_state
  have le: "g_optind st \<le> int (length (g_nargv st))" using assms(1) by (simp add: scan_inv_def block_inv_def)
  have "grow st'"
    using assms(2-4) le
    unfolding getopt_long_option_def Let_def
    by (auto simp: grow_def warnx_def split: option.splits if_splits prod.splits)
  then show ?thesis using assms(1) by (auto simp: grow_def scan_inv_def block_inv_def)
qed

lemma getopt_long_total:
  assumes "getopt_inv st" "CHR 0xFE \<notin> set options"
  shows "\<exists>r st'. getopt_long posix options los with_idx st = Some (r, st')
     \<and> mset (g_nargv st') = mset (g_nargv st) \<and> (r \<noteq> - 1 \<longrightarrow> getopt_inv st')"
proof -
  obtain r s where g: "getopt_internal posix options st = Some (r, s)"
    "mset (g_nargv s) = mset (g_nargv st)" "\<not> g_optreset s" "if r = - 2 then letter_inv s else getopt_inv s"
    using getopt_internal_total [OF assms, of posix] by blast
  show ?thesis
  proof (cases "r = - 2")
    case False
    then show ?thesis using g by (simp add: getopt_long_def)
  next
    case True
    then have l: "letter_inv s" using g(4) by simp
    define s1 where "s1 = s\<lparr>g_optind := g_optind s + 1, g_place := []\<rparr>"
    have lt: "g_optind s < int (length (g_nargv s))" using l by (simp add: letter_inv_def)
    have s1: "scan_inv s1" "g_place s1 = []" "\<not> g_optreset s1" "g_nargv s1 = g_nargv s"
      using advance_view(1) [OF l, of s1 1] lt g(3) by (simp_all add: s1_def)
    show ?thesis
    proof (cases "g_place s = []")
      case True
      then show ?thesis using end_marker_total [OF l, of "[]"] g(1,2) \<open>r = - 2\<close>
        by (auto simp: getopt_long_def)
    next
      case False
      obtain r' s' where o: "getopt_long_option options los with_idx (g_place s) s1 = (r', s')"
        by fastforce
      have "getopt_long posix options los with_idx st = Some (r', s')"
        using g(1) True False o by (simp add: getopt_long_def s1_def)
      moreover have "g_nargv s' = g_nargv s1 \<and> scan_inv s' \<and> g_place s' = [] \<and> \<not> g_optreset s'"
        by (rule getopt_long_option_inv [OF s1(1-3) o])
      moreover have "g_nargv s1 \<noteq> []" using lt s1(4) l by (auto simp: letter_inv_def block_inv_def)
      ultimately show ?thesis using g(2) s1(4) by (simp add: getopt_inv_def)
    qed
  qed
qed

section \<open>Reference: scanning without moving anything\<close>

text \<open>
  The specification of a whole scan in permuting mode: it reads the arguments from left to
  right and returns the events (letter and argument), the options with their arguments, the
  non-options and what follows the end marker, each in its order. \<open>place\<close> is what is left of
  the current argument.
\<close>

lemma letter_step_shorter: "length (snd (snd (letter_step options c cs as))) \<le> length cs"
  by (auto simp: letter_step_def split: option.splits list.splits)

function ref_scan :: "string \<Rightarrow> string \<Rightarrow> string list \<Rightarrow>
    event list \<times> string list \<times> string list \<times> string list" where
  "ref_scan options (c # cs) as =
     (let (e, k, cs') = letter_step options c cs as;
          (es, os, ns, rs) = ref_scan options cs' (drop k as)
      in (e # es, take k as @ os, ns, rs))"
| "ref_scan options [] [] = ([], [], [], [])"
| "ref_scan options [] (a # as) =
     (if is_nonopt a
      then let (es, os, ns, rs) = ref_scan options [] as in (es, os, a # ns, rs)
      else if rd (tl a) = CHR ''-'' then ([], [a], [], as)
      else let (es, os, ns, rs) = ref_scan options (tl a) as in (es, a # os, ns, rs))"
  by pat_completeness auto
termination
proof (relation "measure (\<lambda>(options, place, args). length place + sum_list (map (\<lambda>a. length a + 1) args))",
    goal_cases)
  case (2 options c cs as x e y k cs')
  have "length cs' \<le> length cs" using letter_step_shorter [of options c cs as] 2 by (metis snd_conv)
  moreover have "sum_list (map (\<lambda>a. length a + 1) (drop k as)) \<le> sum_list (map (\<lambda>a. length a + 1) as)"
  proof -
    have "sum_list (map (\<lambda>a. length a + 1) (take k as)) + sum_list (map (\<lambda>a. length a + 1) (drop k as))
        = sum_list (map (\<lambda>a. length a + 1) as)"
      by (metis append_take_drop_id map_append sum_list_append)
    then show ?thesis by linarith
  qed
  ultimately show ?case by simp
qed auto

text \<open>The caller's loop: call \<open>getopt\<close> until it returns -1.\<close>

fun getopt_run :: "nat \<Rightarrow> bool \<Rightarrow> string \<Rightarrow> getopt_state \<Rightarrow> (event list \<times> getopt_state) option" where
  "getopt_run 0 posix options st = None"
| "getopt_run (Suc n) posix options st =
     (case getopt posix options st of
        None \<Rightarrow> None
      | Some (r, st) \<Rightarrow>
          if r = - 1 then Some ([], st)
          else map_option (\<lambda>(es, st'). ((r, g_optarg st) # es, st')) (getopt_run n posix options st))"

section \<open>The scanner refines the reference\<close>

lemma getopt_letter_ref:
  assumes "letter_inv st" "g_place st = c # cs" "rest_of st = a # as" "plain_options options"
    and "g_optarg st = None" "letter_step options c cs as = (e, k, cs')"
  shows "\<exists>st'. getopt_letter options st = (fst e, st') \<and> g_optarg st' = snd e \<and> g_place st' = cs'
     \<and> g_optreset st' = g_optreset st
     \<and> (if cs' \<noteq> [] then k = 0 \<and> letter_inv st' \<and> opts_of st' = opts_of st
           \<and> nonopts_of st' = nonopts_of st \<and> rest_of st' = a # as
        else scan_inv st' \<and> opts_of st' = opts_of st @ a # take k as
           \<and> nonopts_of st' = nonopts_of st \<and> rest_of st' = drop k as)"
proof -
  have lt: "g_optind st < int (length (g_nargv st))" using assms(1) by (simp add: letter_inv_def)
  have oi: "1 \<le> g_optind st" using assms(1) by (simp add: letter_inv_def block_inv_def)
  have as: "as = drop (Suc (nat (g_optind st))) (g_nargv st)"
    using assms(3) by (metis drop_Suc list.sel(3) rest_of_def tl_drop)
  have len: "int (length as) = int (length (g_nargv st)) - g_optind st - 1"
    using as lt oi by simp
  have nxt: "as \<noteq> [] \<Longrightarrow> g_nargv st ! nat (g_optind st + 1) = hd as"
    using as oi by (simp add: hd_drop_conv_nth Suc_nat_eq_nat_zadd1 add.commute)
  have adv: "scan_inv s \<and> opts_of s = opts_of st @ a # take j as \<and> nonopts_of s = nonopts_of st
      \<and> rest_of s = drop j as"
    if "g_optind s = g_optind st + int (Suc j)" "j \<le> length as" "g_nargv s = g_nargv st"
      "g_nonopt_start s = g_nonopt_start st" "g_nonopt_end s = g_nonopt_end st" for s j
    using advance_view [OF assms(1) that(1) _ _ that(3-5)] that(2) len assms(3) by simp
  have w: "\<not> (c = CHR ''W'' \<and> find_letter options c = Some oli \<and> rd (tl oli) = CHR '';'')" for oli
    using assms(4) by (auto simp: plain_options_def)
  define st' where "st' = snd (getopt_letter options st)"
  have rd: "rd (g_place st) = c" "tl (g_place st) = cs" using assms(2) by (simp_all add: rd_def)
  note defs = getopt_letter_def letter_step_def Let_def rd find_letter_def [symmetric] warnx_def st'_def
  have all: "fst (getopt_letter options st) = fst e \<and> g_optarg st' = snd e \<and> g_place st' = cs'
      \<and> g_optreset st' = g_optreset st \<and> g_nargv st' = g_nargv st
      \<and> g_nonopt_start st' = g_nonopt_start st \<and> g_nonopt_end st' = g_nonopt_end st
      \<and> (if cs' \<noteq> [] then k = 0 \<and> g_optind st' = g_optind st
          else k \<le> length as \<and> g_optind st' = g_optind st + int (Suc k))"
  proof (cases "find_letter options c")
    case None
    then have "e = (BADCH, None)" "k = 0" "cs' = cs" using assms(6) by (simp_all add: letter_step_def)
    then show ?thesis using None assms(5) by (simp add: defs)
  next
    case (Some oli)
    have nw: "(c = CHR ''W'' \<and> rd (tl oli) = CHR '';'') = False" using w [of oli] Some by simp
    note some = defs Some option.case nw if_False
    note step = assms(6) [unfolded letter_step_def Some option.case]
    consider (flag) "rd (tl oli) \<noteq> CHR '':''"
      | (attached) "rd (tl oli) = CHR '':''" "cs \<noteq> []"
      | (optional) "rd (tl oli) = CHR '':''" "cs = []" "rd (tl (tl oli)) = CHR '':''"
      | (missing) "rd (tl oli) = CHR '':''" "cs = []" "rd (tl (tl oli)) \<noteq> CHR '':''" "as = []"
      | (separate) "rd (tl oli) = CHR '':''" "cs = []" "rd (tl (tl oli)) \<noteq> CHR '':''" "as \<noteq> []"
      by blast
    then show ?thesis
    proof cases
      case flag
      then have "e = (char_int c, None)" "k = 0" "cs' = cs" using step by simp_all
      then show ?thesis unfolding some using flag assms(5) by simp
    next
      case attached
      then have "e = (char_int c, Some cs)" "k = 0" "cs' = []" using step by simp_all
      then show ?thesis unfolding some using attached by simp
    next
      case optional
      then have "e = (char_int c, None)" "k = 0" "cs' = []" using step by simp_all
      then show ?thesis unfolding some using optional by simp
    next
      case missing
      then have "e = (BADARG options, None)" "k = 0" "cs' = []" using step by simp_all
      moreover have "g_optind st + 1 \<ge> int (length (g_nargv st))" using missing(4) len by simp
      ultimately show ?thesis unfolding some using missing by simp
    next
      case separate
      then obtain b bs where b: "as = b # bs" by (cases as) simp_all
      then have "e = (char_int c, Some b)" "k = 1" "cs' = []" using step separate by simp_all
      moreover have "\<not> g_optind st + 1 \<ge> int (length (g_nargv st))" using b len by simp
      moreover have "g_nargv st ! nat (g_optind st + 1) = b" using nxt b by simp
      ultimately show ?thesis unfolding some using separate b by simp
    qed
  qed
  then have l: "getopt_letter options st = (fst e, st')" "g_optarg st' = snd e"
    "g_place st' = cs'" "g_optreset st' = g_optreset st"
    and same: "g_nargv st' = g_nargv st" "g_nonopt_start st' = g_nonopt_start st"
      "g_nonopt_end st' = g_nonopt_end st"
    and i: "if cs' \<noteq> [] then k = 0 \<and> g_optind st' = g_optind st
            else k \<le> length as \<and> g_optind st' = g_optind st + int (Suc k)"
    using st'_def by (auto simp: prod_eq_iff)
  show ?thesis
  proof (cases "cs' = []")
    case True
    then show ?thesis using l i adv [of st' k] same by (intro exI [of _ st']) simp
  next
    case False
    then show ?thesis using l i view_cong [of st' st] same assms(1,3) by (intro exI [of _ st']) simp
  qed
qed

text \<open>
  The run from a state in which an argument has been finished (or, second part, in the middle
  of the letters of an argument): the final vector is the options, then the non-options, then
  the rest, as the reference has them.
\<close>

lemma plain_not_special:
  assumes "plain_options options" "letter_step options c cs as = (e, k, cs')"
  shows "fst e \<noteq> - 1" "fst e \<noteq> - 2"
proof -
  have "char_int c \<noteq> - 1 \<and> char_int c \<noteq> - 2" if "find_letter options c = Some oli" for oli
    using find_letter_set [OF that] assms(1) by (auto simp: char_int_special plain_options_def)
  moreover have "BADCH \<noteq> - 1" "BADCH \<noteq> - 2" "BADARG options \<noteq> - 1" "BADARG options \<noteq> - 2"
    by (simp_all add: BADCH_def BADARG_def char_int_def)
  ultimately show "fst e \<noteq> - 1" "fst e \<noteq> - 2"
    using assms(2) by (auto simp: letter_step_def split: option.splits if_splits list.splits)
qed

lemma prepared_self:
  assumes "scan_inv st \<or> letter_inv st" "\<not> g_optreset st"
  shows "prepared st = st\<lparr>g_optarg := None\<rparr>"
  using assms by (auto simp: prepared_def Let_def scan_inv_def letter_inv_def block_inv_def)

lemma views_optarg [simp]:
  "opts_of (st\<lparr>g_optarg := x\<rparr>) = opts_of st" "nonopts_of (st\<lparr>g_optarg := x\<rparr>) = nonopts_of st"
  "rest_of (st\<lparr>g_optarg := x\<rparr>) = rest_of st" "scan_inv (st\<lparr>g_optarg := x\<rparr>) = scan_inv st"
  "letter_inv (st\<lparr>g_optarg := x\<rparr>) = letter_inv st"
  by (simp_all add: opts_of_def nonopts_of_def rest_of_def scan_inv_def letter_inv_def block_inv_def)

text \<open>The states the run goes through: \<open>place\<close> empty, or in the argument \<open>a\<close>.\<close>

definition run_state :: "string \<Rightarrow> string list \<Rightarrow> string list \<Rightarrow> string list \<Rightarrow> getopt_state \<Rightarrow> bool" where
  "run_state place as O' N' st \<longleftrightarrow> \<not> g_optreset st \<and> g_place st = place \<and> nonopts_of st = N' \<and>
     (if place = [] then scan_inv st \<and> opts_of st = O' \<and> rest_of st = as
      else letter_inv st \<and> (\<exists>a. O' = opts_of st @ [a] \<and> rest_of st = a # as))"

lemma getopt_scan_Letter:
  assumes "plain_options options" "\<not> g_optreset s" "g_place s = c # cs" "letter_inv s"
    "rest_of s = a # as" "g_optarg s = None" "letter_step options c cs as = (e, k, cs')"
    and "scan_loop posix options (prepared st) = Some (Letter, s)"
  shows "\<exists>st'. getopt posix options st = Some (fst e, st') \<and> g_optarg st' = snd e
     \<and> run_state cs' (drop k as) (opts_of s @ a # take k as) (nonopts_of s) st'"
proof -
  obtain st' where "getopt_letter options s = (fst e, st')" "g_optarg st' = snd e" "g_place st' = cs'"
    "\<not> g_optreset st'"
    "if cs' \<noteq> [] then k = 0 \<and> letter_inv st' \<and> opts_of st' = opts_of s
           \<and> nonopts_of st' = nonopts_of s \<and> rest_of st' = a # as
     else scan_inv st' \<and> opts_of st' = opts_of s @ a # take k as
           \<and> nonopts_of st' = nonopts_of s \<and> rest_of st' = drop k as"
    using getopt_letter_ref [OF assms(4,3,5,1,6,7)] assms(2) by auto
  then show ?thesis using assms(8) plain_not_special(2) [OF assms(1,7)]
    by (auto simp: getopt_def getopt_internal_prepared run_state_def)
qed

lemma getopt_run_cong:
  assumes "scan_loop posix options (prepared st) = scan_loop posix options (prepared st1)"
  shows "getopt_run (Suc n) posix options st = getopt_run (Suc n) posix options st1"
  using assms by (simp add: getopt_def getopt_internal_prepared)

lemma scan_in_letter: "\<not> g_optreset s \<Longrightarrow> g_place s \<noteq> [] \<Longrightarrow> scan_loop posix options s = Some (Letter, s)"
  by (subst scan_loop.simps) simp

lemma record_optarg_same: "g_optarg s = None \<Longrightarrow> s\<lparr>g_optarg := None\<rparr> = s"
  by simp

lemma getopt_run_ref:
  assumes "plain_options options" "PERMUTE posix options"
    and "run_state place as O' N' st" "ref_scan options place as = (es, os, ns, rs)"
  shows "\<exists>st'. getopt_run (Suc (length es)) posix options st = Some (es, st')
     \<and> g_nargv st' = O' @ os @ N' @ ns @ rs \<and> g_optind st' = int (length (O' @ os))"
  using assms
proof (induction options place as arbitrary: O' N' st es os ns rs rule: ref_scan.induct)
  case (1 options c cs as)
  define s where "s = st\<lparr>g_optarg := None\<rparr>"
  obtain a where st: "\<not> g_optreset st" "g_place st = c # cs" "nonopts_of st = N'" "letter_inv st"
    "O' = opts_of st @ [a]" "rest_of st = a # as" using "1.prems"(3) by (auto simp: run_state_def)
  have s: "prepared st = s" "\<not> g_optreset s" "g_place s = c # cs" "letter_inv s" "rest_of s = a # as"
    "g_optarg s = None" "opts_of s = opts_of st" "nonopts_of s = N'"
    using st prepared_self [of st] by (simp_all add: s_def)
  have sl: "scan_loop posix options (prepared st) = Some (Letter, s)"
    using s(1-3) by (simp add: scan_in_letter)
  obtain e k cs' where l: "letter_step options c cs as = (e, k, cs')" by (metis prod_cases3)
  obtain es' os' ns' rs' where r: "ref_scan options cs' (drop k as) = (es', os', ns', rs')"
    by (metis prod_cases4)
  have eq: "es = e # es'" "os = take k as @ os'" "ns = ns'" "rs = rs'"
    using "1.prems"(4) l r by simp_all
  obtain st1 where g: "getopt posix options st = Some (fst e, st1)" "g_optarg st1 = snd e"
    "run_state cs' (drop k as) (O' @ take k as) N' st1"
    using getopt_scan_Letter [OF "1.prems"(1) s(2-6) l sl] st(5) s(7,8) by auto
  from "1.IH" [OF l [symmetric] refl refl "1.prems"(1,2) g(3) r] obtain st' where
    "getopt_run (Suc (length es')) posix options st1 = Some (es', st')"
    "g_nargv st' = (O' @ take k as) @ os' @ N' @ ns' @ rs'"
    "g_optind st' = int (length ((O' @ take k as) @ os'))" by blast
  then show ?case
    using g(1,2) plain_not_special(1) [OF "1.prems"(1) l] by (simp add: eq)
next
  case (2 options)
  have st: "\<not> g_optreset st" "g_place st = []" "scan_inv st" "rest_of st = []"
    "opts_of st = O'" "nonopts_of st = N'" using "2.prems"(3) by (simp_all add: run_state_def)
  define s where "s = st\<lparr>g_optarg := None\<rparr>"
  have s: "prepared st = s" "\<not> g_optreset s" "g_place s = []" "scan_inv s" "rest_of s = []"
    "opts_of s = O'" "nonopts_of s = N'"
    using st prepared_self [of st] by (simp_all add: s_def)
  have "s\<lparr>g_optreset := False\<rparr> = s" using s(2) by simp
  then have "scan_loop posix options (prepared st) = scan_end s"
    using scan_loop_end [of s] s(1,3-5) by simp
  then show ?case using scan_end_view [OF s(4,5)] s(6,7) "2.prems"(4)
    by (auto simp: getopt_def getopt_internal_prepared)
next
  case (3 options a as)
  have st: "\<not> g_optreset st" "g_place st = []" "scan_inv st" "rest_of st = a # as"
    "opts_of st = O'" "nonopts_of st = N'" using "3.prems"(3) by (simp_all add: run_state_def)
  define s where "s = st\<lparr>g_optarg := None\<rparr>"
  have s: "prepared st = s" "g_optreset s \<or> g_place s = []" "scan_inv s" "rest_of s = a # as"
    "opts_of s = O'" "nonopts_of s = N'" "g_optarg s = None"
    using st prepared_self [of st] by (simp_all add: s_def)
  show ?case
  proof (cases "is_nonopt a")
    case True
    obtain es' os' ns' rs' where r: "ref_scan options [] as = (es', os', ns', rs')" by (metis prod_cases4)
    have eq: "es = es'" "os = os'" "ns = a # ns'" "rs = rs'" using "3.prems"(4) True r by simp_all
    obtain s1 where s1: "scan_loop posix options s = scan_loop posix options s1" "g_place s1 = []"
      "\<not> g_optreset s1" "g_optarg s1 = None" "scan_inv s1" "opts_of s1 = O'" "nonopts_of s1 = N' @ [a]"
      "rest_of s1 = as"
      using scan_loop_skip [OF s(2-4) True "3.prems"(2)] s(5-7) by auto
    have "prepared s1 = s1" using prepared_self [of s1] s1(3-5) by simp
    then have run: "getopt_run (Suc n) posix options st = getopt_run (Suc n) posix options s1" for n
      using s1(1) s(1) by (intro getopt_run_cong) simp
    have "run_state [] as O' (N' @ [a]) s1" using s1 by (simp add: run_state_def)
    from "3.IH"(1) [OF True "3.prems"(1,2) this r] obtain st' where
      "getopt_run (Suc (length es')) posix options s1 = Some (es', st')"
      "g_nargv st' = O' @ os' @ (N' @ [a]) @ ns' @ rs'" "g_optind st' = int (length (O' @ os'))" by blast
    then show ?thesis unfolding eq run by (intro exI [of _ st']) (simp del: getopt_run.simps)
  next
    case opt: False
    obtain s1 where s1: "scan_loop posix options s = Some (if rd (tl a) = CHR ''-'' then Return (- 2) else Letter, s1)"
      "g_place s1 = (if rd (tl a) = CHR ''-'' then tl (tl a) else tl a)" "tl a \<noteq> []" "letter_inv s1"
      "opts_of s1 = O'" "nonopts_of s1 = N'" "rest_of s1 = a # as" "g_optarg s1 = None" "\<not> g_optreset s1"
      using scan_loop_option [OF s(2-4) opt, of posix options] s(5-7) by auto
    show ?thesis
    proof (cases "rd (tl a) = CHR ''-''")
      case True
      then have eq: "es = []" "os = [a]" "ns = []" "rs = as" using "3.prems"(4) opt by simp_all
      have "getopt posix options st = end_marker (s1\<lparr>g_optind := g_optind s1 + 1\<rparr>)"
        using s1(1) s(1) True by (simp add: getopt_def getopt_internal_prepared)
      then show ?thesis using end_marker_total [OF s1(4), of "g_place s1"] s1(5-7)
        by (auto simp: eq)
    next
      case False
      obtain es' os' ns' rs' where r: "ref_scan options (tl a) as = (es', os', ns', rs')"
        by (metis prod_cases4)
      have eq: "es = es'" "os = a # os'" "ns = ns'" "rs = rs'" using "3.prems"(4) opt False r by simp_all
      have "prepared s1 = s1" using prepared_self [of s1] s1(4,8,9) by simp
      then have "scan_loop posix options (prepared s1) = scan_loop posix options (prepared st)"
        using s1(1,2,3,9) s(1) False by (simp add: scan_in_letter)
      then have run: "getopt_run (Suc n) posix options st = getopt_run (Suc n) posix options s1" for n
        by (intro getopt_run_cong) simp
      have "run_state (tl a) as (O' @ [a]) N' s1" using s1 False by (simp add: run_state_def)
      from "3.IH"(2) [OF opt False "3.prems"(1,2) this r] obtain st' where
        "getopt_run (Suc (length es')) posix options s1 = Some (es', st')"
        "g_nargv st' = (O' @ [a]) @ os' @ N' @ ns' @ rs'" "g_optind st' = int (length ((O' @ [a]) @ os'))"
        by blast
      then show ?thesis unfolding eq run by (intro exI [of _ st']) (simp del: getopt_run.simps)
    qed
  qed
qed

section \<open>Long option names\<close>

text \<open>The options the given text is a prefix of, by index, and whether the name is the whole text.\<close>

fun name_matches :: "string \<Rightarrow> nat \<Rightarrow> int \<Rightarrow> long_option list \<Rightarrow> (int \<times> bool) list" where
  "name_matches cur len i [] = []"
| "name_matches cur len i (opt # opts) =
     (if take len cur = take len (lo_name opt)
      then (i, length (lo_name opt) = len) # name_matches cur len (i + 1) opts
      else name_matches cur len (i + 1) opts)"

lemma find_long_second:
  "m \<noteq> - 1 \<Longrightarrow> find_long cur len i m opts =
     (case name_matches cur len i opts of [] \<Rightarrow> Some m | (j, ex) # _ \<Rightarrow> if ex then Some j else None)"
  by (induction opts arbitrary: i) simp_all

lemma find_long_first:
  "0 \<le> i \<Longrightarrow> find_long cur len i (- 1) opts =
     (case name_matches cur len i opts of
        [] \<Rightarrow> Some (- 1)
      | (j, True) # _ \<Rightarrow> Some j
      | [(j, False)] \<Rightarrow> Some j
      | (j, False) # (k, True) # _ \<Rightarrow> Some k
      | (j, False) # (k, False) # _ \<Rightarrow> None)"
proof (induction opts arbitrary: i)
  case (Cons opt opts)
  then show ?case
    using find_long_second [of i cur len "i + 1" opts]
    by (auto split: list.splits bool.splits)
qed simp

end
