(* ===== verification/Fnmatch.thy ===== *)
theory Fnmatch
  imports Prelude
begin

text \<open>
  \<open>fnmatch\<close> and \<open>rangematch\<close> of \<open>cygwin/libc/fnmatch.c\<close>.

  Pattern and string are lists of characters without the terminating NUL; a pointer is the rest
  of the text from there on. The scan position in the string also carries the character before
  it, \<open>None\<close> at the start of the string (\<open>string == stringstart\<close>). Flags are the bits of
  \<open>fnmatch.h\<close>; \<open>tolower\<close> is the one of the C locale.

  The main result: without \<open>FNM_PERIOD\<close> and \<open>FNM_LEADING_DIR\<close> the routine agrees with a
  reference matcher on the tokens of the pattern, in which a star tries every split.
\<close>

section \<open>Flags and characters\<close>

abbreviation (input) FNM_NOMATCH :: int where "FNM_NOMATCH \<equiv> 1"
abbreviation (input) FNM_NOESCAPE :: int where "FNM_NOESCAPE \<equiv> 0x01"
abbreviation (input) FNM_PATHNAME :: int where "FNM_PATHNAME \<equiv> 0x02"
abbreviation (input) FNM_PERIOD :: int where "FNM_PERIOD \<equiv> 0x04"
abbreviation (input) FNM_LEADING_DIR :: int where "FNM_LEADING_DIR \<equiv> 0x08"
abbreviation (input) FNM_CASEFOLD :: int where "FNM_CASEFOLD \<equiv> 0x10"

definition cur :: "string \<Rightarrow> char" where
  "cur s = (case s of [] \<Rightarrow> CHR 0x00 | c # _ \<Rightarrow> c)"

text \<open>The value of a plain \<open>char\<close>, which is signed, for the order comparisons.\<close>

definition schar :: "char \<Rightarrow> int" where
  "schar c = (if (of_char c :: int) \<ge> 128 then of_char c - 256 else of_char c)"

definition c_tolower :: "char \<Rightarrow> char" where
  "c_tolower c = (if 65 \<le> (of_char c :: nat) \<and> (of_char c :: nat) \<le> 90
                  then char_of ((of_char c :: nat) + 32) else c)"

section \<open>Bracket expressions\<close>

datatype range_result = RANGE_ERROR | RANGE_NOMATCH | RANGE_MATCH string

text \<open>
  One item of the list, a character or a range of them, with the pattern after it; \<open>c\<close> is the
  character read last. A NUL ends the list with an error, so the pointer past it is never used.
\<close>

datatype item = Item_error | Item_slash | Item char "char option" string

definition range_item :: "int \<Rightarrow> char \<Rightarrow> string \<Rightarrow> item" where
  "range_item flags c pattern =
     (let esc = (c = CHR 0x5C \<and> \<not> has flags FNM_NOESCAPE);
          c = (if esc then cur pattern else c);
          pattern = (if esc then tl pattern else pattern)
      in if c = CHR 0x00 then Item_error
         else if c = CHR ''/'' \<and> has flags FNM_PATHNAME then Item_slash
         else let c = (if has flags FNM_CASEFOLD then c_tolower c else c);
                  c2 = cur (tl pattern)
              in if cur pattern = CHR ''-'' \<and> c2 \<noteq> CHR 0x00 \<and> c2 \<noteq> CHR '']''
                 then let pattern = drop 2 pattern;
                          esc2 = (c2 = CHR 0x5C \<and> \<not> has flags FNM_NOESCAPE);
                          c2 = (if esc2 then cur pattern else c2);
                          pattern = (if esc2 then tl pattern else pattern)
                      in if c2 = CHR 0x00 then Item_error
                         else Item c (Some (if has flags FNM_CASEFOLD then c_tolower c2 else c2)) pattern
                 else Item c None pattern)"

definition item_ok :: "char \<Rightarrow> char \<Rightarrow> char option \<Rightarrow> bool" where
  "item_ok test c c2 = (case c2 of Some c2 \<Rightarrow> schar c \<le> schar test \<and> schar test \<le> schar c2 | None \<Rightarrow> c = test)"

lemma range_item_shorter: "range_item flags c p = Item a b q \<Longrightarrow> length q \<le> length p"
  by (auto simp: range_item_def Let_def split: if_splits)

text \<open>The do-while loop; the character after an item ends the list or starts the next item.\<close>

function range_loop :: "int \<Rightarrow> char \<Rightarrow> bool \<Rightarrow> bool \<Rightarrow> char \<Rightarrow> string \<Rightarrow> range_result" where
  "range_loop flags test negate ok c pattern =
     (case range_item flags c pattern of
        Item_error \<Rightarrow> RANGE_ERROR
      | Item_slash \<Rightarrow> RANGE_NOMATCH
      | Item a b pattern \<Rightarrow>
          let ok = (if item_ok test a b then True else ok)
          in (case pattern of
                [] \<Rightarrow> RANGE_ERROR
              | c # pattern \<Rightarrow>
                  if c \<noteq> CHR '']'' then range_loop flags test negate ok c pattern
                  else if ok = negate then RANGE_NOMATCH else RANGE_MATCH pattern))"
  by pat_completeness auto
termination
  by (relation "measure (\<lambda>(flags, test, negate, ok, c, p). length p)") (auto dest!: range_item_shorter)

declare range_loop.simps [simp del]

definition rangematch :: "string \<Rightarrow> char \<Rightarrow> int \<Rightarrow> range_result" where
  "rangematch pattern test flags =
     (let negate = (cur pattern = CHR ''!'' \<or> cur pattern = CHR ''^'');
          pattern = (if negate then tl pattern else pattern);
          test = (if has flags FNM_CASEFOLD then c_tolower test else test)
      in range_loop flags test negate False (cur pattern) (tl pattern))"

lemma range_loop_shorter: "range_loop flags test neg ok c p = RANGE_MATCH q \<Longrightarrow> length q < length p"
proof (induction flags test neg ok c p rule: range_loop.induct)
  case (1 flags test neg ok c p)
  show ?case
  proof (cases "range_item flags c p")
    case (Item a b r)
    show ?thesis
    proof (cases r)
      case (Cons d t)
      then show ?thesis
        using "1.IH" [OF Item refl Cons] "1.prems" Item range_item_shorter [OF Item]
        by (subst (asm) (2) range_loop.simps) (auto simp: Let_def split: if_splits)
    qed (use "1.prems" Item in \<open>simp add: range_loop.simps [of flags test neg ok c p]\<close>)
  qed (use "1.prems" in \<open>simp_all add: range_loop.simps [of flags test neg ok c p]\<close>)
qed

lemma rangematch_shorter: "rangematch p test flags = RANGE_MATCH q \<Longrightarrow> length q < length p"
  by (auto simp: rangematch_def Let_def dest!: range_loop_shorter split: if_splits)

section \<open>Matching\<close>

text \<open>A period that only a period in the pattern may match.\<close>

definition leading_period :: "int \<Rightarrow> char option \<Rightarrow> string \<Rightarrow> bool" where
  "leading_period flags prev s \<longleftrightarrow>
     cur s = CHR ''.'' \<and> has flags FNM_PERIOD
     \<and> (prev = None \<or> has flags FNM_PATHNAME \<and> prev = Some CHR ''/'')"

text \<open>The starting points the recursion for a star tries: up to the next slash, or all.\<close>

fun star_tries :: "int \<Rightarrow> string \<Rightarrow> string list" where
  "star_tries flags [] = []"
| "star_tries flags (c # s) =
     (c # s) # (if c = CHR ''/'' \<and> has flags FNM_PATHNAME then [] else star_tries flags s)"

definition chars_equal :: "int \<Rightarrow> char \<Rightarrow> char \<Rightarrow> bool" where
  "chars_equal flags c d \<longleftrightarrow> c = d \<or> has flags FNM_CASEFOLD \<and> c_tolower c = c_tolower d"

definition skip_to_slash :: "string \<Rightarrow> string" where
  "skip_to_slash s = dropWhile (\<lambda>c. c \<noteq> CHR ''/'') s"

function fnmatch_at :: "int \<Rightarrow> string \<Rightarrow> char option \<Rightarrow> string \<Rightarrow> int" where
  "fnmatch_at flags [] prev s =
     (if has flags FNM_LEADING_DIR \<and> cur s = CHR ''/'' then 0 else if s = [] then 0 else FNM_NOMATCH)"
| "fnmatch_at flags (c # pattern) prev s =
     (if c = CHR ''?''
      then if s = [] then FNM_NOMATCH
           else if cur s = CHR ''/'' \<and> has flags FNM_PATHNAME then FNM_NOMATCH
           else if leading_period flags prev s then FNM_NOMATCH
           else fnmatch_at flags pattern (Some (cur s)) (tl s)
      else if c = CHR ''*''
      then let pattern' = dropWhile (\<lambda>c. c = CHR ''*'') pattern
           in if leading_period flags prev s then FNM_NOMATCH
              else if pattern' = []
              then if has flags FNM_PATHNAME
                   then if has flags FNM_LEADING_DIR \<or> CHR ''/'' \<notin> set s then 0 else FNM_NOMATCH
                   else 0
              else if cur pattern' = CHR ''/'' \<and> has flags FNM_PATHNAME
              then if CHR ''/'' \<notin> set s then FNM_NOMATCH
                   else fnmatch_at flags pattern'
                          (if cur s = CHR ''/'' then prev
                           else Some (last (takeWhile (\<lambda>c. c \<noteq> CHR ''/'') s)))
                          (skip_to_slash s)
              else if list_ex (\<lambda>t. fnmatch_at (flags AND NOT FNM_PERIOD) pattern' None t = 0)
                        (star_tries flags s)
              then 0 else FNM_NOMATCH
      else if c = CHR ''[''
      then if s = [] then FNM_NOMATCH
           else if cur s = CHR ''/'' \<and> has flags FNM_PATHNAME then FNM_NOMATCH
           else if leading_period flags prev s then FNM_NOMATCH
           else (case rangematch pattern (cur s) flags of
                   RANGE_ERROR \<Rightarrow>
                     if \<not> chars_equal flags c (cur s) then FNM_NOMATCH
                     else fnmatch_at flags pattern (Some (cur s)) (tl s)
                 | RANGE_NOMATCH \<Rightarrow> FNM_NOMATCH
                 | RANGE_MATCH newp \<Rightarrow> fnmatch_at flags newp (Some (cur s)) (tl s))
      else let esc = (c = CHR 0x5C \<and> \<not> has flags FNM_NOESCAPE \<and> pattern \<noteq> []);
               c = (if esc then cur pattern else c);
               pattern = (if esc then tl pattern else pattern)
           in if \<not> chars_equal flags c (cur s) then FNM_NOMATCH
              else fnmatch_at flags pattern (Some (cur s)) (tl s))"
  by pat_completeness auto
termination
  by (relation "measure (\<lambda>(flags, pattern, prev, s). length pattern)")
    (auto dest!: rangematch_shorter simp: less_Suc_eq_le length_dropWhile_le split: if_splits)

definition fnmatch :: "string \<Rightarrow> string \<Rightarrow> int \<Rightarrow> int" where
  "fnmatch pattern string flags = fnmatch_at flags pattern None string"

section \<open>Reference: tokens and splits\<close>

datatype tok = Star | AnyChar | Lit char | Bracket bool "(char \<times> char option) list" | Never

text \<open>A bracket expression as a list of items and the pattern after it.\<close>

datatype bracket = Bad | Slash | Items "(char \<times> char option) list" string

function bracket_items :: "int \<Rightarrow> char \<Rightarrow> string \<Rightarrow> bracket" where
  "bracket_items flags c p =
     (case range_item flags c p of
        Item_error \<Rightarrow> Bad
      | Item_slash \<Rightarrow> Slash
      | Item a b q \<Rightarrow>
          (case q of
             [] \<Rightarrow> Bad
           | c # q \<Rightarrow> if c = CHR '']'' then Items [(a, b)] q
                     else (case bracket_items flags c q of Items is r \<Rightarrow> Items ((a, b) # is) r | x \<Rightarrow> x)))"
  by pat_completeness auto
termination
  by (relation "measure (\<lambda>(flags, c, p). length p)") (auto dest!: range_item_shorter)

declare bracket_items.simps [simp del]

definition in_items :: "char \<Rightarrow> (char \<times> char option) list \<Rightarrow> bool" where
  "in_items d is \<longleftrightarrow> list_ex (\<lambda>(a, b). item_ok d a b) is"

definition bracket_of :: "int \<Rightarrow> string \<Rightarrow> bool \<times> bracket" where
  "bracket_of flags p =
     (let neg = (cur p = CHR ''!'' \<or> cur p = CHR ''^''); p = (if neg then tl p else p)
      in (neg, bracket_items flags (cur p) (tl p)))"

text \<open>The items do not depend on the character tested; the test is a membership.\<close>

lemma range_loop_items:
  "range_loop flags test neg ok c p =
     (case bracket_items flags c p of
        Bad \<Rightarrow> RANGE_ERROR
      | Slash \<Rightarrow> RANGE_NOMATCH
      | Items is r \<Rightarrow> if (ok \<or> in_items test is) = neg then RANGE_NOMATCH else RANGE_MATCH r)"
proof (induction flags test neg ok c p rule: range_loop.induct)
  case (1 flags test neg ok c p)
  show ?case
  proof (cases "range_item flags c p")
    case (Item a b q)
    show ?thesis
    proof (cases q)
      case Nil
      then show ?thesis using Item
        by (simp add: range_loop.simps [of flags test neg ok c p] bracket_items.simps [of flags c p])
    next
      case (Cons d t)
      show ?thesis
      proof (cases "d = CHR '']''")
        case True
        then show ?thesis using Item Cons
          by (simp add: range_loop.simps [of flags test neg ok c p] bracket_items.simps [of flags c p] in_items_def)
      next
        case False
        note IH = "1.IH" [OF Item refl Cons False]
        show ?thesis using Item Cons False IH
          by (auto simp: range_loop.simps [of flags test neg ok c p] bracket_items.simps [of flags c p]
              in_items_def Let_def split: bracket.splits)
      qed
    qed
  qed (simp_all add: range_loop.simps [of flags test neg ok c p] bracket_items.simps [of flags c p])
qed

lemma rangematch_items:
  "rangematch p test flags =
     (case bracket_of flags p of
        (neg, Bad) \<Rightarrow> RANGE_ERROR
      | (neg, Slash) \<Rightarrow> RANGE_NOMATCH
      | (neg, Items is r) \<Rightarrow>
          if in_items (if has flags FNM_CASEFOLD then c_tolower test else test) is = neg
          then RANGE_NOMATCH else RANGE_MATCH r)"
  by (auto simp: rangematch_def bracket_of_def Let_def range_loop_items split: bracket.splits)

lemma bracket_items_shorter: "bracket_items flags c p = Items is r \<Longrightarrow> length r < length p"
proof (induction flags c p arbitrary: "is" rule: bracket_items.induct)
  case (1 flags c p)
  then show ?case
    by (subst (asm) bracket_items.simps)
      (fastforce dest!: range_item_shorter split: item.splits list.splits if_splits bracket.splits)
qed

lemma bracket_of_shorter: "bracket_of flags p = (neg, Items is r) \<Longrightarrow> length r < length p"
  by (auto simp: bracket_of_def Let_def dest!: bracket_items_shorter split: if_splits)

function tokens :: "int \<Rightarrow> string \<Rightarrow> tok list" where
  "tokens flags [] = []"
| "tokens flags (c # p) =
     (if c = CHR ''?'' then AnyChar # tokens flags p
      else if c = CHR ''*'' then Star # tokens flags p
      else if c = CHR ''[''
      then (case bracket_of flags p of
              (neg, Bad) \<Rightarrow> Lit c # tokens flags p
            | (neg, Slash) \<Rightarrow> [Never]
            | (neg, Items is r) \<Rightarrow> Bracket neg is # tokens flags r)
      else if c = CHR 0x5C \<and> \<not> has flags FNM_NOESCAPE \<and> p \<noteq> []
      then Lit (cur p) # tokens flags (tl p)
      else Lit c # tokens flags p)"
  by pat_completeness auto
termination
  by (relation "measure (\<lambda>(flags, p). length p)") (auto dest!: bracket_of_shorter [OF sym])

text \<open>A character no wildcard may match.\<close>

definition fixed :: "int \<Rightarrow> char \<Rightarrow> bool" where
  "fixed flags d \<longleftrightarrow> d = CHR ''/'' \<and> has flags FNM_PATHNAME"

fun one_char :: "int \<Rightarrow> tok \<Rightarrow> char \<Rightarrow> bool" where
  "one_char flags AnyChar d = (\<not> fixed flags d)"
| "one_char flags (Lit c) d = chars_equal flags c d"
| "one_char flags (Bracket neg is) d =
     (\<not> fixed flags d \<and> in_items (if has flags FNM_CASEFOLD then c_tolower d else d) is \<noteq> neg)"
| "one_char flags _ d = False"

fun ref_match :: "int \<Rightarrow> tok list \<Rightarrow> string \<Rightarrow> bool" where
  "ref_match flags [] s \<longleftrightarrow> s = []"
| "ref_match flags (Star # ts) s \<longleftrightarrow>
     list_ex (\<lambda>k. list_all (\<lambda>d. \<not> fixed flags d) (take k s) \<and> ref_match flags ts (drop k s)) [0..<length s + 1]"
| "ref_match flags (t # ts) s \<longleftrightarrow> (case s of [] \<Rightarrow> False | d # s \<Rightarrow> one_char flags t d \<and> ref_match flags ts s)"

lemma ref_star:
  "ref_match flags (Star # ts) s \<longleftrightarrow>
     (\<exists>k \<le> length s. list_all (\<lambda>d. \<not> fixed flags d) (take k s) \<and> ref_match flags ts (drop k s))"
  unfolding ref_match.simps list_ex_iff set_upt Bex_def atLeastLessThan_iff by (auto simp: less_Suc_eq_le)

lemma ref_star_star: "ref_match flags (Star # Star # ts) s = ref_match flags (Star # ts) s"
proof
  assume "ref_match flags (Star # Star # ts) s"
  then obtain k j where k: "k \<le> length s" "list_all (\<lambda>d. \<not> fixed flags d) (take k s)"
    and j: "j \<le> length (drop k s)" "list_all (\<lambda>d. \<not> fixed flags d) (take j (drop k s))"
      "ref_match flags ts (drop j (drop k s))"
    unfolding ref_star by blast
  have "list_all (\<lambda>d. \<not> fixed flags d) (take (k + j) s)" using k(2) j(2) by (simp add: take_add)
  moreover have "ref_match flags ts (drop (k + j) s)" using j(3) by (simp add: add.commute)
  moreover have "k + j \<le> length s" using k(1) j(1) by simp
  ultimately show "ref_match flags (Star # ts) s" unfolding ref_star by blast
next
  assume "ref_match flags (Star # ts) s"
  then have "\<exists>k \<le> length (drop 0 s). list_all (\<lambda>d. \<not> fixed flags d) (take k (drop 0 s))
      \<and> ref_match flags ts (drop k (drop 0 s))" unfolding ref_star by simp
  then show "ref_match flags (Star # Star # ts) s"
    unfolding ref_star [of flags "Star # ts"] ref_star [of flags ts] by (intro exI [of _ 0]) simp
qed

lemma tokens_stars:
  "ref_match flags (Star # tokens flags p) s
     = ref_match flags (Star # tokens flags (dropWhile (\<lambda>c. c = CHR ''*'') p)) s"
proof (induction p)
  case (Cons c p)
  show ?case
  proof (cases "c = CHR ''*''")
    case True
    then have "ref_match flags (Star # tokens flags (c # p)) s = ref_match flags (Star # Star # tokens flags p) s"
      by simp
    also have "\<dots> = ref_match flags (Star # tokens flags (dropWhile (\<lambda>c. c = CHR ''*'') p)) s"
      unfolding ref_star_star by (rule Cons.IH)
    finally show ?thesis using True by simp
  qed simp
qed simp

lemma star_tries_set:
  "t \<in> set (star_tries flags s) \<longleftrightarrow>
     (\<exists>k < length s. t = drop k s \<and> list_all (\<lambda>d. \<not> fixed flags d) (take k s))"
proof (induction s)
  case (Cons c s)
  have "(\<exists>k < length (c # s). t = drop k (c # s) \<and> list_all (\<lambda>d. \<not> fixed flags d) (take k (c # s)))
     \<longleftrightarrow> t = c # s \<or> \<not> fixed flags c \<and> (\<exists>k < length s. t = drop k s \<and> list_all (\<lambda>d. \<not> fixed flags d) (take k s))"
  proof
    assume "\<exists>k < length (c # s). t = drop k (c # s) \<and> list_all (\<lambda>d. \<not> fixed flags d) (take k (c # s))"
    then obtain k where k: "k < length (c # s)" "t = drop k (c # s)"
      "list_all (\<lambda>d. \<not> fixed flags d) (take k (c # s))" by blast
    then show "t = c # s \<or> \<not> fixed flags c
      \<and> (\<exists>k < length s. t = drop k s \<and> list_all (\<lambda>d. \<not> fixed flags d) (take k s))"
      by (cases k) auto
  next
    assume "t = c # s \<or> \<not> fixed flags c
      \<and> (\<exists>k < length s. t = drop k s \<and> list_all (\<lambda>d. \<not> fixed flags d) (take k s))"
    then show "\<exists>k < length (c # s). t = drop k (c # s) \<and> list_all (\<lambda>d. \<not> fixed flags d) (take k (c # s))"
    proof
      assume "t = c # s"
      then show ?thesis by (intro exI [of _ 0]) simp
    next
      assume "\<not> fixed flags c \<and> (\<exists>k < length s. t = drop k s \<and> list_all (\<lambda>d. \<not> fixed flags d) (take k s))"
      then obtain k where "\<not> fixed flags c" "k < length s" "t = drop k s"
        "list_all (\<lambda>d. \<not> fixed flags d) (take k s)" by blast
      then show ?thesis by (intro exI [of _ "Suc k"]) simp
    qed
  qed
  then show ?case using Cons.IH by (simp add: fixed_def)
qed simp

lemma c_tolower_special:
  "c_tolower c = CHR 0x00 \<longleftrightarrow> c = CHR 0x00" "c_tolower c = CHR ''/'' \<longleftrightarrow> c = CHR ''/''"
proof -
  have "c_tolower c = d \<longleftrightarrow> c = d" if d: "(of_char d :: nat) < 65" for d
  proof (cases "65 \<le> (of_char c :: nat) \<and> (of_char c :: nat) \<le> 90")
    case True
    then have "of_char (c_tolower c) = (of_char c :: nat) + 32"
      by (simp add: c_tolower_def)
    then show ?thesis using d True by (metis not_add_less2 le_trans linorder_not_less of_char_eq_iff trans_le_add1)
  next
    case False
    then show ?thesis by (auto simp: c_tolower_def)
  qed
  then show "c_tolower c = CHR 0x00 \<longleftrightarrow> c = CHR 0x00" "c_tolower c = CHR ''/'' \<longleftrightarrow> c = CHR ''/''"
    by simp_all
qed

section \<open>The routine agrees with the reference\<close>

lemma and_not_period: "\<not> has flags FNM_PERIOD \<Longrightarrow> flags AND NOT FNM_PERIOD = flags"
proof -
  assume "\<not> has flags FNM_PERIOD"
  then have "flags AND 4 = 0" by (simp add: has_def)
  then have b: "\<not> (bit flags n \<and> bit (4 :: int) n)" for n by (metis bit_0_eq bit_and_iff bot_apply bot_bool_def)
  show ?thesis by (rule bit_eqI, simp only: bit_and_iff bit_not_int_iff) (use b in blast)
qed

lemma tokens_head:
  assumes "p \<noteq> []" "hd p \<noteq> CHR ''*''"
  obtains t ts where "tokens flags p = t # ts" "t \<noteq> Star"
proof -
  have "\<exists>t ts. tokens flags p = t # ts \<and> t \<noteq> Star"
    using assms by (cases p) (auto split: prod.splits bracket.splits)
  then show ?thesis using that by blast
qed

lemma ref_match_Nil: "t \<noteq> Star \<Longrightarrow> \<not> ref_match flags (t # ts) []"
  by (cases t) simp_all

text \<open>A star before a slash: the slash it stops at is the first one.\<close>

lemma star_slash:
  assumes "has flags FNM_PATHNAME"
  shows "ref_match flags (Star # Lit CHR ''/'' # ts) s \<longleftrightarrow>
    CHR ''/'' \<in> set s \<and> ref_match flags (Lit CHR ''/'' # ts) (skip_to_slash s)"
proof -
  have eq: "chars_equal flags CHR ''/'' d \<longleftrightarrow> d = CHR ''/''" for d
  proof -
    have "c_tolower CHR ''/'' = CHR ''/''" using c_tolower_special(2) by blast
    then show ?thesis using c_tolower_special(2) [of d] by (auto simp: chars_equal_def)
  qed
  have fx: "fixed flags d \<longleftrightarrow> d = CHR ''/''" for d using assms by (simp add: fixed_def)
  define n where "n = length (takeWhile (\<lambda>c. c \<noteq> CHR ''/'') s)"
  have sk: "skip_to_slash s = drop n s" by (simp add: skip_to_slash_def n_def dropWhile_eq_drop)
  have tk: "take n s = takeWhile (\<lambda>c. c \<noteq> CHR ''/'') s" by (simp add: n_def takeWhile_eq_take [symmetric])
  show ?thesis
  proof
    assume "ref_match flags (Star # Lit CHR ''/'' # ts) s"
    then obtain k where k: "k \<le> length s" "list_all (\<lambda>d. d \<noteq> CHR ''/'') (take k s)"
      "ref_match flags (Lit CHR ''/'' # ts) (drop k s)" unfolding ref_star fx by blast
    then obtain d r where d: "drop k s = d # r" "d = CHR ''/''" by (cases "drop k s") (auto simp: eq)
    have st: "s = take k s @ CHR ''/'' # r" using d append_take_drop_id [of k s] by simp
    have a: "\<And>d. d \<in> set (take k s) \<Longrightarrow> d \<noteq> CHR ''/''" using k(2) by (simp add: list_all_iff)
    have "takeWhile (\<lambda>c. c \<noteq> CHR ''/'') (take k s @ CHR ''/'' # r) = take k s"
      using a by (subst takeWhile_append2) simp_all
    then have "takeWhile (\<lambda>c. c \<noteq> CHR ''/'') s = take k s" by (simp only: st [symmetric])
    moreover have "CHR ''/'' \<in> set (take k s @ CHR ''/'' # r)" by simp
    then have "CHR ''/'' \<in> set s" by (simp only: st [symmetric])
    moreover have "length (take k s) = k" using k(1) by simp
    ultimately show "CHR ''/'' \<in> set s \<and> ref_match flags (Lit CHR ''/'' # ts) (skip_to_slash s)"
      using k(3) sk n_def by simp
  next
    assume r: "CHR ''/'' \<in> set s \<and> ref_match flags (Lit CHR ''/'' # ts) (skip_to_slash s)"
    have "list_all (\<lambda>d. d \<noteq> CHR ''/'') (take n s)" unfolding tk by (auto simp: list_all_iff dest: set_takeWhileD)
    moreover have "n \<le> length s" by (simp add: n_def length_takeWhile_le)
    ultimately show "ref_match flags (Star # Lit CHR ''/'' # ts) s" using r sk unfolding ref_star fx by auto
  qed
qed

lemma chars_equal_NUL: "c \<noteq> CHR 0x00 \<Longrightarrow> \<not> chars_equal flags c (CHR 0x00)"
proof -
  assume "c \<noteq> CHR 0x00"
  moreover have "c_tolower (CHR 0x00) = CHR 0x00" using c_tolower_special(1) by blast
  ultimately show ?thesis using c_tolower_special(1) [of c] by (auto simp: chars_equal_def)
qed

lemma bracket_items_set:
  "bracket_items flags c p = Items is r \<Longrightarrow> set r \<subseteq> set p"
proof (induction flags c p arbitrary: "is" rule: bracket_items.induct)
  case (1 flags c p)
  have sub: "set q \<subseteq> set p" if "range_item flags c p = Item a b q" for a b q
    using that set_drop_subset [of 2 p] set_drop_subset [of 2 "tl p"] list.set_sel(2) [of p]
    by (auto simp: range_item_def Let_def split: if_splits dest: list.set_sel(2) in_set_dropD)
      (metis drop_Suc in_set_dropD list.set_sel(2) tl_Nil)+
  show ?case
    using "1.prems" "1.IH" sub
    by (subst (asm) bracket_items.simps)
      (fastforce split: item.splits list.splits if_splits bracket.splits)
qed

lemma bracket_of_set: "bracket_of flags p = (neg, Items is r) \<Longrightarrow> set r \<subseteq> set p"
  using list.set_sel(2) [of p] list.set_sel(2) [of "tl p"]
  by (fastforce simp: bracket_of_def Let_def dest!: bracket_items_set dest: list.set_sel(2)
      split: if_splits intro: list.set_sel(2))

lemma ref_step:
  assumes "t \<noteq> Star"
  shows "ref_match flags (t # ts) s \<longleftrightarrow> s \<noteq> [] \<and> one_char flags t (cur s) \<and> ref_match flags ts (tl s)"
  using assms by (cases t; cases s) (simp_all add: cur_def)

lemma lit_step:
  assumes "c \<noteq> CHR 0x00"
  shows "ref_match flags (Lit c # ts) s \<longleftrightarrow> chars_equal flags c (cur s) \<and> ref_match flags ts (tl s)"
proof (cases s)
  case Nil
  then show ?thesis using chars_equal_NUL [OF assms] by (simp add: cur_def)
qed (simp add: cur_def)

declare ref_match.simps(2-6) [simp del]

text \<open>The general case of a star: the rest of the pattern needs a character to match.\<close>

lemma star_general:
  assumes "t \<noteq> Star"
  shows "ref_match flags (Star # t # ts) s \<longleftrightarrow> list_ex (\<lambda>q. ref_match flags (t # ts) q) (star_tries flags s)"
proof
  assume "ref_match flags (Star # t # ts) s"
  then obtain k where k: "k \<le> length s" "list_all (\<lambda>d. \<not> fixed flags d) (take k s)"
    "ref_match flags (t # ts) (drop k s)" unfolding ref_star by blast
  then have "drop k s \<noteq> []" using ref_match_Nil [OF assms] by auto
  then have "k < length s" by simp
  then have "drop k s \<in> set (star_tries flags s)" using k(2) star_tries_set by blast
  then show "list_ex (\<lambda>q. ref_match flags (t # ts) q) (star_tries flags s)"
    using k(3) unfolding list_ex_iff by blast
next
  assume "list_ex (\<lambda>q. ref_match flags (t # ts) q) (star_tries flags s)"
  then obtain q where "q \<in> set (star_tries flags s)" "ref_match flags (t # ts) q"
    unfolding list_ex_iff by blast
  then obtain k where "k < length s" "list_all (\<lambda>d. \<not> fixed flags d) (take k s)"
    "ref_match flags (t # ts) (drop k s)" using star_tries_set [of q flags s] by auto
  then show "ref_match flags (Star # t # ts) s" unfolding ref_star by (intro exI [of _ k]) simp
qed

text \<open>One step of the routine, in terms of the matching of the rest.\<close>

lemma ref_question:
  "ref_match flags (AnyChar # ts) s \<longleftrightarrow> s \<noteq> [] \<and> \<not> fixed flags (cur s) \<and> ref_match flags ts (tl s)"
  by (simp add: ref_step)

lemma ref_star_end:
  "ref_match flags [Star] s \<longleftrightarrow> \<not> (has flags FNM_PATHNAME \<and> CHR ''/'' \<in> set s)"
  unfolding ref_star by (auto simp: fixed_def list_all_iff dest: in_set_takeD intro: exI [of _ "length s"])

lemma ref_star_nonempty:
  assumes "p \<noteq> []" "hd p \<noteq> CHR ''*''"
  shows "ref_match flags (Star # tokens flags p) s \<longleftrightarrow>
    list_ex (\<lambda>t. ref_match flags (tokens flags p) t) (star_tries flags s)"
proof -
  obtain t ts where "tokens flags p = t # ts" "t \<noteq> Star" using tokens_head [OF assms] .
  then show ?thesis using star_general by simp
qed

lemma drop_stars:
  assumes "dropWhile (\<lambda>c. c = CHR ''*'') p \<noteq> []"
  shows "hd (dropWhile (\<lambda>c. c = CHR ''*'') p) \<noteq> CHR ''*''"
    "cur (dropWhile (\<lambda>c. c = CHR ''*'') p) = hd (dropWhile (\<lambda>c. c = CHR ''*'') p)"
  using hd_dropWhile [OF assms] assms by (auto simp: cur_def split: list.splits)

lemma fnmatch_at_ref:
  assumes "\<not> has flags FNM_PERIOD" "\<not> has flags FNM_LEADING_DIR" "CHR 0x00 \<notin> set p"
  shows "fnmatch_at flags p prev s = (if ref_match flags (tokens flags p) s then 0 else FNM_NOMATCH)"
  using assms
proof (induction flags p prev s rule: fnmatch_at.induct)
  case (1 flags prev s)
  then show ?case by simp
next
  case (2 flags c p prev s)
  have np: "\<not> leading_period flags pr q" for pr q using "2.prems"(1) by (simp add: leading_period_def)
  have c0: "c \<noteq> CHR 0x00" "CHR 0x00 \<notin> set p" using "2.prems"(3) by auto
  note fl = "2.prems"(1,2)
  consider (q) "c = CHR ''?''" | (star) "c = CHR ''*''" | (br) "c = CHR ''[''"
    | (lit) "c \<noteq> CHR ''?''" "c \<noteq> CHR ''*''" "c \<noteq> CHR ''[''" by blast
  then show ?case
  proof cases
    case q
    have IH: "fnmatch_at flags p (Some (cur s)) (tl s) =
        (if ref_match flags (tokens flags p) (tl s) then 0 else FNM_NOMATCH)"
      if "s \<noteq> []" "\<not> (cur s = CHR ''/'' \<and> has flags FNM_PATHNAME)"
      using "2.IH"(1) [OF q that np fl c0(2)] .
    show ?thesis using q np IH by (auto simp: ref_question fixed_def)
  next
    case star
    define p' where "p' = dropWhile (\<lambda>c. c = CHR ''*'') p"
    have ns: "c \<noteq> CHR ''?''" using star by simp
    have ts: "ref_match flags (tokens flags (c # p)) s = ref_match flags (Star # tokens flags p') s"
      using star tokens_stars [of flags p s] by (simp add: p'_def)
    have p0: "CHR 0x00 \<notin> set p'" using c0(2) by (auto simp: p'_def dest: set_dropWhileD)
    note st = "2.IH"(2,3) [OF ns star p'_def np]
    show ?thesis
    proof (cases "p' = []")
      case True
      then show ?thesis using ts star np ref_star_end [of flags s] fl by (simp add: p'_def [symmetric])
    next
      case ne: False
      have hd: "hd p' \<noteq> CHR ''*''" "cur p' = hd p'" using drop_stars [of p] ne by (simp_all add: p'_def)
      show ?thesis
      proof (cases "cur p' = CHR ''/'' \<and> has flags FNM_PATHNAME")
        case True
        obtain r where r: "p' = CHR ''/'' # r" using ne True hd by (cases p') auto
        have tk: "tokens flags p' = Lit CHR ''/'' # tokens flags r" by (simp add: r)
        have "fnmatch_at flags (c # p) prev s =
            (if CHR ''/'' \<notin> set s then FNM_NOMATCH
             else fnmatch_at flags p' (if cur s = CHR ''/'' then prev
                else Some (last (takeWhile (\<lambda>c. c \<noteq> CHR ''/'') s))) (skip_to_slash s))"
          using star np ne True by (simp add: p'_def [symmetric])
        then show ?thesis
          unfolding ts tk star_slash [OF conjunct2 [OF True]]
          using st(1) [OF ne True _ fl p0] by (simp add: tk)
      next
        case False
        then have F: "(cur p' = CHR ''/'' \<and> has flags FNM_PATHNAME) = False" by simp
        have "fnmatch_at flags (c # p) prev s =
            (if list_ex (\<lambda>t. fnmatch_at (flags AND NOT FNM_PERIOD) p' None t = 0) (star_tries flags s)
             then 0 else FNM_NOMATCH)"
          using star np ne by (simp add: p'_def [symmetric] F del: de_Morgan_conj)
        also have "\<dots> = (if list_ex (\<lambda>t. ref_match flags (tokens flags p') t) (star_tries flags s)
             then 0 else FNM_NOMATCH)"
        proof -
          have "fnmatch_at flags p' None t = 0 \<longleftrightarrow> ref_match flags (tokens flags p') t"
            if "t \<in> set (star_tries flags s)" for t
            using st(2) [OF ne False that, unfolded and_not_period [OF fl(1)], OF fl p0] by simp
          then show ?thesis unfolding and_not_period [OF fl(1)] by (auto simp: list_ex_iff)
        qed
        finally show ?thesis unfolding ts using ref_star_nonempty [OF ne hd(1)] by simp
      qed
    qed
  next
    case br
    have ns: "c \<noteq> CHR ''?''" "c \<noteq> CHR ''*''" using br by simp_all
    obtain neg b where bo: "bracket_of flags p = (neg, b)" by fastforce
    show ?thesis
    proof (cases "s = [] \<or> fixed flags (cur s)")
      case True
      have "\<not> chars_equal flags CHR ''['' CHR ''/''"
        using c_tolower_special(2) [of "CHR ''[''"] c_tolower_special(2) [of "CHR ''/''"] by (auto simp: chars_equal_def)
      then have "\<not> ref_match flags (tokens flags (c # p)) s"
        using True br bo by (cases b; cases s) (auto simp: cur_def fixed_def ref_step)
      then show ?thesis using True ns br by (auto simp: fixed_def)
    next
      case False
      then have s: "s \<noteq> []" "\<not> (cur s = CHR ''/'' \<and> has flags FNM_PATHNAME)" by (simp_all add: fixed_def)
      note IH = "2.IH"(4,5) [OF ns br s np]
      have sl: "(cur s = CHR ''/'' \<and> has flags FNM_PATHNAME) = False" using s(2) by simp
      show ?thesis
      proof (cases b)
        case Bad
        then have rm: "rangematch p (cur s) flags = RANGE_ERROR" using bo by (simp add: rangematch_items)
        show ?thesis using IH(1) [OF rm _ fl c0(2)] rm ns br s np bo Bad
          by (auto simp: lit_step)
      next
        case Slash
        then have rm: "rangematch p (cur s) flags = RANGE_NOMATCH" using bo by (simp add: rangematch_items)
        show ?thesis using rm ns br s np bo Slash by (simp add: ref_step)
      next
        case (Items "is" r)
        have r0: "CHR 0x00 \<notin> set r" using bracket_of_set [of flags p neg "is" r] bo Items c0(2) by auto
        define d where "d = (if has flags FNM_CASEFOLD then c_tolower (cur s) else cur s)"
        have rm: "rangematch p (cur s) flags = (if in_items d is = neg then RANGE_NOMATCH else RANGE_MATCH r)"
          using bo Items by (simp add: rangematch_items d_def)
        have tk: "tokens flags (c # p) = Bracket neg is # tokens flags r" using br bo Items by simp
        show ?thesis
        proof (cases "in_items d is = neg")
          case True
          then have "\<not> ref_match flags (tokens flags (c # p)) s" unfolding tk
            by (simp add: ref_step d_def)
          moreover have "fnmatch_at flags (c # p) prev s = FNM_NOMATCH"
            using rm True ns br s(1) np by (simp add: sl)
          ultimately show ?thesis by simp
        next
          case False
          then have rm': "rangematch p (cur s) flags = RANGE_MATCH r" using rm by simp
          have "ref_match flags (tokens flags (c # p)) s \<longleftrightarrow> ref_match flags (tokens flags r) (tl s)"
            unfolding tk using s False by (simp add: ref_step d_def fixed_def)
          moreover have "fnmatch_at flags (c # p) prev s = fnmatch_at flags r (Some (cur s)) (tl s)"
            using rm' ns br s(1) np by (simp add: sl)
          ultimately show ?thesis using IH(2) [OF rm' fl r0] by simp
        qed
      qed
    qed
  next
    case lit
    define esc where "esc \<longleftrightarrow> c = CHR 0x5C \<and> \<not> has flags FNM_NOESCAPE \<and> p \<noteq> []"
    define d q where "d = (if esc then cur p else c)" and "q = (if esc then tl p else p)"
    have tk: "tokens flags (c # p) = Lit d # tokens flags q" using lit by (simp add: d_def q_def esc_def)
    have d0: "d \<noteq> CHR 0x00" using c0 by (auto simp: d_def cur_def esc_def split: list.splits)
    have q0: "CHR 0x00 \<notin> set q" using c0(2) list.set_sel(2) [of p] by (cases p) (auto simp: q_def)
    have "fnmatch_at flags (c # p) prev s =
        (if \<not> chars_equal flags d (cur s) then FNM_NOMATCH else fnmatch_at flags q (Some (cur s)) (tl s))"
      using lit by (simp add: Let_def esc_def d_def q_def)
    then show ?thesis
      unfolding tk lit_step [OF d0]
      using "2.IH"(6) [OF lit esc_def d_def q_def _ fl q0] by simp
  qed
qed

lemma fnmatch_ref:
  assumes "\<not> has flags FNM_PERIOD" "\<not> has flags FNM_LEADING_DIR" "CHR 0x00 \<notin> set pattern"
  shows "fnmatch pattern string flags = 0 \<longleftrightarrow> ref_match flags (tokens flags pattern) string"
  using fnmatch_at_ref [OF assms] by (simp add: fnmatch_def)

end
