(* ===== verification/Glob_Pattern.thy ===== *)
theory Glob_Pattern
  imports Prelude
begin

text \<open>
  The pattern side of \<open>cygwin/glob.c\<close>: the compiled form of a pattern, the matcher for one path
  segment, and the expansion of braces.

  A \<open>Char\<close> of the code is \<open>unsigned short\<close>: a byte, with the bit \<open>M_QUOTE\<close> for the operators of a
  compiled pattern and \<open>M_PROTECT\<close> for a quoted character. A pattern is the list of its Chars
  without the terminator \<open>EOS\<close>; a pointer is the rest of the pattern from there on. \<open>None\<close> stands
  for reading past the terminator. The buffers of \<open>MAXPATHLEN\<close> Chars are lists without a bound.

  The main results: compiling never reads past the end of the pattern; matching a compiled
  segment is the declarative match of the tokens of the pattern; the brace expansion of a
  well-nested pattern without brackets runs through the product of its alternatives in order.
\<close>

unbundle bit_operations_syntax

section \<open>Chars\<close>

abbreviation (input) BANG :: u16 where "BANG \<equiv> 0x21"
abbreviation (input) STAR :: u16 where "STAR \<equiv> 0x2a"
abbreviation (input) COMMA :: u16 where "COMMA \<equiv> 0x2c"
abbreviation (input) RANGE :: u16 where "RANGE \<equiv> 0x2d"
abbreviation (input) DOT :: u16 where "DOT \<equiv> 0x2e"
abbreviation (input) SEP :: u16 where "SEP \<equiv> 0x2f"
abbreviation (input) QUESTION :: u16 where "QUESTION \<equiv> 0x3f"
abbreviation (input) LBRACKET :: u16 where "LBRACKET \<equiv> 0x5b"
abbreviation (input) QUOTE :: u16 where "QUOTE \<equiv> 0x5c"
abbreviation (input) RBRACKET :: u16 where "RBRACKET \<equiv> 0x5d"
abbreviation (input) LBRACE :: u16 where "LBRACE \<equiv> 0x7b"
abbreviation (input) RBRACE :: u16 where "RBRACE \<equiv> 0x7d"
abbreviation (input) TILDE :: u16 where "TILDE \<equiv> 0x7e"

abbreviation (input) M_QUOTE :: u16 where "M_QUOTE \<equiv> 0x8000"
abbreviation (input) M_PROTECT :: u16 where "M_PROTECT \<equiv> 0x4000"
abbreviation (input) M_ALL :: u16 where "M_ALL \<equiv> 0x802a"
abbreviation (input) M_END :: u16 where "M_END \<equiv> 0x805d"
abbreviation (input) M_NOT :: u16 where "M_NOT \<equiv> 0x8021"
abbreviation (input) M_ONE :: u16 where "M_ONE \<equiv> 0x803f"
abbreviation (input) M_RNG :: u16 where "M_RNG \<equiv> 0x802d"
abbreviation (input) M_SET :: u16 where "M_SET \<equiv> 0x805b"

definition CHAR_c :: "u16 \<Rightarrow> u16" where
  "CHAR_c c = c AND 0x00ff"

definition ismeta :: "u16 \<Rightarrow> bool" where
  "ismeta c \<longleftrightarrow> c AND M_QUOTE \<noteq> 0"

text \<open>Reading through a pointer: \<open>EOS\<close> at the end.\<close>

definition rdw :: "u16 list \<Rightarrow> u16" where
  "rdw s = (case s of [] \<Rightarrow> 0 | c # _ \<Rightarrow> c)"

text \<open>A byte as a Char, and a path as the C string the caller sees.\<close>

definition uchars :: "string \<Rightarrow> u16 list" where
  "uchars s = map of_char s"

definition g_Ctoc :: "u16 list \<Rightarrow> string" where
  "g_Ctoc s = map (\<lambda>c. char_of (unat c)) (takeWhile (\<lambda>c. c AND 0x00ff \<noteq> 0) s)"

definition g_strchr :: "u16 list \<Rightarrow> u16 \<Rightarrow> u16 list option" where
  "g_strchr s c = (case dropWhile (\<lambda>d. d \<noteq> c) s of [] \<Rightarrow> None | t \<Rightarrow> Some t)"

section \<open>Copying the pattern\<close>

text \<open>\<open>n\<close> is the room left in the buffer.\<close>

fun protect :: "nat \<Rightarrow> string \<Rightarrow> u16 list" where
  "protect 0 s = []"
| "protect (Suc n) [] = []"
| "protect (Suc n) (c # s) =
     (if of_char c = QUOTE
      then (case s of [] \<Rightarrow> [QUOTE OR M_PROTECT]
                    | d # s \<Rightarrow> (of_char d OR M_PROTECT) # protect n s)
      else of_char c # protect n s)"

section \<open>Compiling\<close>

text \<open>The inside of a bracket expression, \<open>c\<close> being the character read last.\<close>

fun set_chars :: "u16 \<Rightarrow> u16 list \<Rightarrow> (u16 list \<times> u16 list) option" where
  "set_chars c [] = None"
| "set_chars c [d] =
     (if d = RANGE then None else if d = RBRACKET then Some ([CHAR_c c], []) else None)"
| "set_chars c (d # e # q) =
     (if d = RANGE \<and> e \<noteq> RBRACKET
      then (case q of [] \<Rightarrow> None
            | f # q \<Rightarrow> if f = RBRACKET then Some ([CHAR_c c, M_RNG, CHAR_c e], q)
                      else map_option (\<lambda>(out, q). (CHAR_c c # M_RNG # CHAR_c e # out, q)) (set_chars f q))
      else if d = RBRACKET then Some ([CHAR_c c], e # q)
      else map_option (\<lambda>(out, q). (CHAR_c c # out, q)) (set_chars d (e # q)))"

lemma set_chars_shorter: "set_chars c q = Some (out, r) \<Longrightarrow> length r < length q"
  by (induction c q arbitrary: out r rule: set_chars.induct)
    (fastforce intro: less_SucI split: if_splits list.splits)+

text \<open>
  The compiled buffer and whether \<open>GLOB_MAGCHAR\<close> was set. With a tilde the code compiles its
  buffer in place; no step writes more Chars than it has read, so the list read here is the text
  still to come there.
\<close>

function compile :: "u16 list \<Rightarrow> u16 list \<Rightarrow> (u16 list \<times> bool) option" where
  "compile buf [] = Some (buf, False)"
| "compile buf (c # q) =
     (if c = LBRACKET
      then let neg = (rdw q = BANG); q' = (if neg then tl q else q)
           in if q' = [] \<or> g_strchr (tl q') RBRACKET = None
              then compile (buf @ [LBRACKET]) q
              else (case set_chars (hd q') (tl q') of
                      None \<Rightarrow> None
                    | Some (out, r) \<Rightarrow>
                        map_option (\<lambda>(buf, _). (buf, True))
                          (compile (buf @ M_SET # (if neg then [M_NOT] else []) @ out @ [M_END]) r))
      else if c = QUESTION then map_option (\<lambda>(buf, _). (buf, True)) (compile (buf @ [M_ONE]) q)
      else if c = STAR
      then map_option (\<lambda>(buf, _). (buf, True))
             (compile (if buf = [] \<or> last buf \<noteq> M_ALL then buf @ [M_ALL] else buf) q)
      else compile (buf @ [CHAR_c c]) q)"
  by pat_completeness auto
termination
  by (relation "measure (\<lambda>(buf, q). length q)")
    (auto dest!: set_chars_shorter simp: Let_def split: if_splits)

section \<open>Matching\<close>

text \<open>\<open>tolower\<close> of the C locale, on the Chars of literals and of names.\<close>

definition u_tolower :: "u16 \<Rightarrow> u16" where
  "u_tolower c = (if 65 \<le> c \<and> c \<le> 90 then c + 32 else c)"

text \<open>
  The loop over a set: \<open>k\<close> is the character of the name, \<open>pat\<close> the pattern behind \<open>M_SET\<close> (and
  \<open>M_NOT\<close>), \<open>icase\<close> the variable \<open>ignore_case_with_glob\<close>. The pattern behind \<open>M_END\<close> is returned
  with the result.
\<close>

fun match_set :: "bool \<Rightarrow> u16 \<Rightarrow> bool \<Rightarrow> u16 list \<Rightarrow> (bool \<times> u16 list) option" where
  "match_set icase k ok [] = None"
| "match_set icase k ok (c # pat) =
     (let low = (if icase then u_tolower else (\<lambda>c. c))
      in if c = M_END then Some (ok, pat)
         else if rdw pat = M_RNG
         then if length pat < 2 then None
              else match_set icase k (ok \<or> low c \<le> low k \<and> low k \<le> low (pat ! 1)) (drop 2 pat)
         else match_set icase k (ok \<or> low c = low k) pat)"

lemma match_set_shorter: "match_set icase k ok pat = Some (r, q) \<Longrightarrow> length q < length pat"
proof (induction icase k ok pat arbitrary: r q rule: match_set.induct)
  case (1 icase k ok)
  then show ?case by simp
next
  case (2 icase k ok c pat)
  consider (stop) "c = M_END" | (range) "c \<noteq> M_END" "rdw pat = M_RNG" | (char) "c \<noteq> M_END" "rdw pat \<noteq> M_RNG"
    by blast
  then show ?case
  proof cases
    case stop
    then show ?thesis using 2(3) by simp
  next
    case range
    then have "\<not> length pat < 2" "length q < length (drop 2 pat)"
      using 2(1,3) by (simp_all only: match_set.simps Let_def if_False if_True simp_thms split: if_split_asm) blast+
    then show ?thesis by simp
  next
    case char
    then have "length q < length pat"
      using 2(2,3) by (simp only: match_set.simps Let_def if_False simp_thms)
    then show ?thesis by simp
  qed
qed

text \<open>
  \<open>n\<close> is \<open>patend - pat\<close>; the set loop may run past \<open>patend\<close>, and the comparison of pointers then
  ends the outer loop.
\<close>

text \<open>
  One pattern character that is not a star, against the head of the name: \<open>None\<close> if the name does
  not match, else the pattern behind it.
\<close>

definition match_char :: "bool \<Rightarrow> u16 list \<Rightarrow> u16 \<Rightarrow> u16 list \<Rightarrow> u16 list option option" where
  "match_char icase name c pat =
     (if c = M_ONE then if name = [] then Some None else Some (Some pat)
      else if c = M_SET
      then if name = [] then Some None
           else let neg = (rdw pat = M_NOT)
                in (case match_set icase (hd name) False (if neg then tl pat else pat) of
                      None \<Rightarrow> None
                    | Some (ok, q) \<Rightarrow> Some (if ok = neg then None else Some q))
      else if (if icase then u_tolower (rdw name) \<noteq> u_tolower c else rdw name \<noteq> c)
      then Some None else Some (Some pat))"

lemma match_char_shorter: "match_char icase name c pat = Some (Some q) \<Longrightarrow> length q \<le> length pat"
  by (auto simp: match_char_def Let_def dest!: match_set_shorter split: if_splits option.splits)

function match :: "bool \<Rightarrow> u16 list \<Rightarrow> u16 list \<Rightarrow> int \<Rightarrow> bool option" where
  "match icase name pat n =
     (if n \<le> 0 then Some (name = [])
      else case pat of
        [] \<Rightarrow> None
      | c # pat' \<Rightarrow>
          if c = M_ALL
          then if n = 1 then Some True
               else (case match icase name pat' (n - 1) of
                       None \<Rightarrow> None
                     | Some True \<Rightarrow> Some True
                     | Some False \<Rightarrow> if name = [] then Some False else match icase (tl name) pat n)
          else (case match_char icase name c pat' of
                  None \<Rightarrow> None
                | Some None \<Rightarrow> Some False
                | Some (Some q) \<Rightarrow> match icase (tl name) q (n - int (length pat - length q))))"
  by pat_completeness auto
termination
  by (relation "measures [\<lambda>(icase, name, pat, n). length pat, \<lambda>(icase, name, pat, n). length name]")
    (auto dest!: match_char_shorter)

declare match.simps [simp del]

section \<open>Braces\<close>

text \<open>Positions in a pattern; the terminator is at its length.\<close>

definition at :: "u16 list \<Rightarrow> nat \<Rightarrow> u16" where
  "at s i = (if i < length s then s ! i else 0)"

text \<open>From a left bracket to its right bracket, or nowhere if there is none.\<close>

definition skip_bracket :: "u16 list \<Rightarrow> nat \<Rightarrow> nat" where
  "skip_bracket s i =
     (let j = Suc i + length (takeWhile (\<lambda>c. c \<noteq> RBRACKET) (drop (Suc i) s))
      in if at s j = 0 then i else j)"

lemma skip_bracket_ge: "i \<le> skip_bracket s i"
  by (simp add: skip_bracket_def Let_def)

lemma skip_bracket_step:
  "i < m \<Longrightarrow> m - Suc (skip_bracket s i) < m - i" "i \<le> m \<Longrightarrow> m - skip_bracket s i < Suc m - i"
  using skip_bracket_ge [of i s] by linarith+

text \<open>The balanced brace: the depth left and the position where the loop stops.\<close>

function find_brace :: "u16 list \<Rightarrow> nat \<Rightarrow> nat \<Rightarrow> nat \<times> nat" where
  "find_brace s i pe =
     (if pe \<ge> length s then (i, pe)
      else let c = at s pe
           in if c = LBRACKET then find_brace s i (Suc (skip_bracket s pe))
              else if c = LBRACE then find_brace s (Suc i) (Suc pe)
              else if c = RBRACE then if i = 0 then (i, pe) else find_brace s (i - 1) (Suc pe)
              else find_brace s i (Suc pe))"
  by pat_completeness auto
termination
  by (relation "measure (\<lambda>(s, i, pe). length s - pe)") (simp_all add: skip_bracket_step)

declare find_brace.simps [simp del]

text \<open>
  The patterns the second loop of \<open>globexp2\<close> builds in its buffer, in order. \<open>ls\<close> is the part
  before the brace, \<open>pl\<close> the start of the current alternative; a left bracket sets \<open>pl\<close>, as in
  the code.
\<close>

function brace_alts :: "u16 list \<Rightarrow> u16 list \<Rightarrow> nat \<Rightarrow> nat \<Rightarrow> nat \<Rightarrow> nat \<Rightarrow> u16 list list" where
  "brace_alts ls s pe i pl pm =
     (if pm > pe then []
      else let c = at s pm
           in if c = LBRACKET then brace_alts ls s pe i pm (Suc (skip_bracket s pm))
              else if c = LBRACE then brace_alts ls s pe (Suc i) pl (Suc pm)
              else if c = RBRACE \<and> i \<noteq> 0 then brace_alts ls s pe (i - 1) pl (Suc pm)
              else if (c = RBRACE \<or> c = COMMA) \<and> \<not> (i \<noteq> 0 \<and> c = COMMA)
              then (ls @ take (pm - pl) (drop pl s) @ drop (Suc pe) s)
                   # brace_alts ls s pe i (Suc pm) (Suc pm)
              else brace_alts ls s pe i pl (Suc pm))"
  by pat_completeness auto
termination
  by (relation "measure (\<lambda>(ls, s, pe, i, pl, pm). Suc pe - pm)")
    (simp_all add: skip_bracket_step)

declare brace_alts.simps [simp del]

lemma brace_alts_length:
  "p \<in> set (brace_alts ls s pe i pl pm) \<Longrightarrow> P \<le> pl \<Longrightarrow> P \<le> pm \<Longrightarrow>
   P \<le> pe \<and> length p \<le> length ls + (pe - P) + (length s - Suc pe)"
proof (induction ls s pe i pl pm rule: brace_alts.induct)
  case (1 ls s pe i pl pm)
  note skip = skip_bracket_ge [of pm s]
  have "pm \<le> pe" using 1(6) by (auto simp: brace_alts.simps [of ls s pe i pl pm] split: if_splits)
  then have stop: "length (ls @ take (pm - pl) (drop pl s) @ drop (Suc pe) s)
      \<le> length ls + (pe - P) + (length s - Suc pe)" "P \<le> pe"
    using 1(7,8) by (auto simp: min_def)
  consider (bracket) "at s pm = LBRACKET" | (open_brace) "at s pm = LBRACE" | (close_brace) "at s pm = RBRACE" "i \<noteq> 0"
    | (stop) "at s pm = RBRACE \<or> at s pm = COMMA" "\<not> (at s pm = RBRACE \<and> i \<noteq> 0)" "\<not> (i \<noteq> 0 \<and> at s pm = COMMA)"
    | (other) "at s pm \<noteq> LBRACKET" "at s pm \<noteq> LBRACE" "\<not> (at s pm = RBRACE \<and> i \<noteq> 0)"
        "\<not> ((at s pm = RBRACE \<or> at s pm = COMMA) \<and> \<not> (i \<noteq> 0 \<and> at s pm = COMMA))"
    by blast
  then show ?case
  proof cases
    case bracket
    then show ?thesis using 1(1) [OF _ refl] 1(6-8) skip \<open>pm \<le> pe\<close>
      by (simp add: brace_alts.simps [of ls s pe i pl pm])
  next
    case open_brace
    then show ?thesis using 1(2) [OF _ refl] 1(6-8) \<open>pm \<le> pe\<close>
      by (simp add: brace_alts.simps [of ls s pe i pl pm])
  next
    case close_brace
    then show ?thesis using 1(3) [OF _ refl] 1(6-8) \<open>pm \<le> pe\<close>
      by (simp add: brace_alts.simps [of ls s pe i pl pm])
  next
    case stop
    then have "p = ls @ take (pm - pl) (drop pl s) @ drop (Suc pe) s \<or> p \<in> set (brace_alts ls s pe i (Suc pm) (Suc pm))"
      using 1(6) \<open>pm \<le> pe\<close> by (auto simp: brace_alts.simps [of ls s pe i pl pm])
    then show ?thesis using 1(4) [OF _ refl] stop \<open>P \<le> pm\<close> \<open>pm \<le> pe\<close>
      \<open>length (ls @ take (pm - pl) (drop pl s) @ drop (Suc pe) s) \<le> length ls + (pe - P) + (length s - Suc pe)\<close>
      \<open>P \<le> pe\<close> by auto
  next
    case other
    then show ?thesis using 1(5) [OF _ refl] 1(6-8) \<open>pm \<le> pe\<close>
      by (auto simp: brace_alts.simps [of ls s pe i pl pm] Let_def)
  qed
qed

lemma brace_alts_expand:
  assumes "p \<in> set (brace_alts (take n s) s pe 0 (Suc n) (Suc n))" "pe < length s"
  shows "length p < length s"
proof -
  have "length (take n s) \<le> n" by simp
  then show ?thesis using brace_alts_length [OF assms(1), of "Suc n"] assms(2) by linarith
qed

section \<open>The tokens of a pattern\<close>

text \<open>
  The reference: a bracket expression reaches to the first right bracket behind its first
  character and is a list of characters and ranges; without one the left bracket is a character.
\<close>

datatype gtok = GAny | GOne | GLit u16 | GSet bool "(u16 \<times> u16 option) list"

fun ranges :: "u16 list \<Rightarrow> (u16 \<times> u16 option) list" where
  "ranges [] = []"
| "ranges [a] = [(CHAR_c a, None)]"
| "ranges [a, b] = [(CHAR_c a, None), (CHAR_c b, None)]"
| "ranges (a # b # c # q) =
     (if b = RANGE then (CHAR_c a, Some (CHAR_c c)) # ranges q else (CHAR_c a, None) # ranges (b # c # q))"

lemma rest_shorter: "length (dropWhile P (tl q)) - Suc 0 \<le> length q"
  using length_dropWhile_le [of P "tl q"] by simp

lemma rest_shorter_tl: "length (dropWhile P (tl (tl q))) - Suc 0 \<le> length q"
  using length_dropWhile_le [of P "tl (tl q)"] by simp

function gtoks :: "u16 list \<Rightarrow> gtok list" where
  "gtoks [] = []"
| "gtoks (c # q) =
     (let neg = (rdw q = BANG); q' = (if neg then tl q else q)
      in if c = LBRACKET \<and> q' \<noteq> [] \<and> RBRACKET \<in> set (tl q')
         then GSet neg (ranges (hd q' # takeWhile (\<lambda>d. d \<noteq> RBRACKET) (tl q')))
              # gtoks (tl (dropWhile (\<lambda>d. d \<noteq> RBRACKET) (tl q')))
         else (if c = QUESTION then GOne else if c = STAR then GAny else GLit (CHAR_c c)) # gtoks q)"
  by pat_completeness auto
termination
  by (relation "measure length") (auto simp: Let_def less_Suc_eq_le rest_shorter rest_shorter_tl)

fun enc_item :: "u16 \<times> u16 option \<Rightarrow> u16 list" where
  "enc_item (a, None) = [a]"
| "enc_item (a, Some b) = [a, M_RNG, b]"

fun enc_tok :: "gtok \<Rightarrow> u16 list" where
  "enc_tok GAny = [M_ALL]"
| "enc_tok GOne = [M_ONE]"
| "enc_tok (GLit c) = [c]"
| "enc_tok (GSet neg rs) = M_SET # (if neg then [M_NOT] else []) @ concat (map enc_item rs) @ [M_END]"

definition enc :: "gtok list \<Rightarrow> u16 list" where
  "enc ts = concat (map enc_tok ts)"

lemma enc_simps [simp]: "enc [] = []" "enc (t # ts) = enc_tok t @ enc ts" "enc (ts @ us) = enc ts @ enc us"
  by (simp_all add: enc_def)

text \<open>Adjacent stars collapse to one.\<close>

definition push_tok :: "gtok list \<Rightarrow> gtok \<Rightarrow> gtok list" where
  "push_tok ts t = (if t = GAny \<and> ts \<noteq> [] \<and> last ts = GAny then ts else ts @ [t])"

section \<open>Compiling yields the tokens\<close>

definition plain :: "u16 \<Rightarrow> bool" where
  "plain c \<longleftrightarrow> c \<le> 0xff"

lemma plain_CHAR_c [simp]: "plain (CHAR_c c)"
  by (simp add: plain_def CHAR_c_def word_and_le1)

lemma plain_not_meta [simp]:
  assumes "plain c"
  shows "c \<noteq> M_ALL" "c \<noteq> M_END" "c \<noteq> M_NOT" "c \<noteq> M_ONE" "c \<noteq> M_RNG" "c \<noteq> M_SET"
  using assms by (auto simp: plain_def)

lemma last_enc_tok: "last (enc_tok t) = M_ALL \<longleftrightarrow> t = GAny \<or> t = GLit M_ALL"
  by (cases t) auto

lemma enc_tok_Nil [simp]: "enc_tok t \<noteq> []"
  by (cases t) auto

lemma enc_Nil_iff [simp]: "enc ts = [] \<longleftrightarrow> ts = []"
  by (cases ts) auto

lemma last_enc: "ts \<noteq> [] \<Longrightarrow> last (enc ts) = last (enc_tok (last ts))"
  by (induction ts rule: rev_induct) auto

lemma set_chars_ranges:
  assumes "RBRACKET \<in> set q"
  shows "set_chars c q = Some (concat (map enc_item (ranges (c # takeWhile (\<lambda>d. d \<noteq> RBRACKET) q))),
           tl (dropWhile (\<lambda>d. d \<noteq> RBRACKET) q))"
  using assms
proof (induction c q rule: set_chars.induct)
  case (3 c d e q)
  show ?case
  proof (cases "d = RANGE \<and> e \<noteq> RBRACKET")
    case True
    with 3 show ?thesis by (cases q) auto
  next
    case False
    with 3 show ?thesis by (auto split: list.splits)
  qed
qed auto


lemma enc_push: "GLit M_ALL \<notin> set ts \<Longrightarrow>
  enc (push_tok ts t) = (if t = GAny \<and> enc ts \<noteq> [] \<and> last (enc ts) = M_ALL then enc ts else enc ts @ enc_tok t)"
  by (auto simp: push_tok_def last_enc last_enc_tok) (metis last_in_set)+

lemma lit_push: "GLit x \<in> set (push_tok ts t) \<Longrightarrow> GLit x \<in> set ts \<or> t = GLit x"
  by (auto simp: push_tok_def split: if_splits)

lemma g_strchr_None [simp]: "g_strchr s c = None \<longleftrightarrow> c \<notin> set s"
proof -
  have "g_strchr s c = None \<longleftrightarrow> dropWhile (\<lambda>d. d \<noteq> c) s = []"
    by (cases "dropWhile (\<lambda>d. d \<noteq> c) s") (simp_all only: g_strchr_def list.case, simp_all)
  then show ?thesis unfolding dropWhile_eq_Nil_conv by auto
qed

text \<open>
  Compiling never fails, and the buffer is the encoding of the tokens of the pattern, adjacent
  stars collapsed; \<open>GLOB_MAGCHAR\<close> is set when there is a token other than a character.
\<close>

lemma compile_tokens:
  assumes "GLit M_ALL \<notin> set ts"
  shows "compile (enc ts) q =
    Some (enc (foldl push_tok ts (gtoks q)), \<exists>t \<in> set (gtoks q). \<forall>c. t \<noteq> GLit c)"
  using assms
proof (induction q arbitrary: ts rule: length_induct)
  case (1 q)
  note IH = 1(1)[rule_format] and lit = 1(2)
  show ?case
  proof (cases q)
    case Nil
    then show ?thesis by simp
  next
    case (Cons c r)
    define neg where "neg = (rdw r = BANG)"
    define q' where "q' = (if neg then tl r else r)"
    have push: "compile (enc (push_tok ts t)) r' =
        Some (enc (foldl push_tok (push_tok ts t) (gtoks r')), \<exists>t \<in> set (gtoks r'). \<forall>c. t \<noteq> GLit c)"
      if "length r' < length q" "t \<noteq> GLit M_ALL" for t r'
      using IH [OF that(1), of "push_tok ts t"] lit that(2) lit_push by blast
    have enc_other: "enc (push_tok ts t) = enc ts @ enc_tok t" if "t \<noteq> GAny" for t
      using lit that by (simp add: enc_push)
    show ?thesis
    proof (cases "c = LBRACKET \<and> q' \<noteq> [] \<and> RBRACKET \<in> set (tl q')")
      case True
      let ?rest = "tl (dropWhile (\<lambda>d. d \<noteq> RBRACKET) (tl q'))"
      let ?t = "GSet neg (ranges (hd q' # takeWhile (\<lambda>d. d \<noteq> RBRACKET) (tl q')))"
      have "length ?rest < length q"
        using rest_shorter [of "\<lambda>d. d \<noteq> RBRACKET" r] rest_shorter_tl [of "\<lambda>d. d \<noteq> RBRACKET" r]
        by (simp add: q'_def Cons less_Suc_eq_le)
      moreover have "gtoks q = ?t # gtoks ?rest"
        using True by (simp add: Cons Let_def neg_def q'_def)
      moreover have "compile (enc ts) q = map_option (\<lambda>(buf, _). (buf, True)) (compile (enc (push_tok ts ?t)) ?rest)"
        using True by (simp add: Cons Let_def neg_def q'_def set_chars_ranges enc_other del: ranges.simps)
      ultimately show ?thesis using push [of ?rest ?t] by auto
    next
      case False
      let ?t = "if c = QUESTION then GOne else if c = STAR then GAny else GLit (CHAR_c c)"
      have "gtoks q = ?t # gtoks r" using False by (auto simp: Cons Let_def neg_def q'_def)
      moreover have "?t \<noteq> GLit M_ALL" by simp
      moreover have "compile (enc ts) q = map_option (\<lambda>(buf, m). (buf, m \<or> (\<forall>c. ?t \<noteq> GLit c)))
          (compile (enc (push_tok ts ?t)) r)"
      proof (cases "c = LBRACKET")
        case True
        then have "q' = [] \<or> g_strchr (tl q') RBRACKET = None" using False by auto
        then have "compile (enc ts) q = compile (enc ts @ [LBRACKET]) r"
          using True by (simp add: Cons Let_def neg_def q'_def)
        moreover have "CHAR_c LBRACKET = LBRACKET" by (simp add: CHAR_c_def)
        ultimately show ?thesis using True by (simp add: enc_other case_prod_unfold option.map_ident)
      next
        case False
        then show ?thesis
          using lit by (auto simp: Cons enc_other enc_push case_prod_unfold option.map_ident)
      qed
      ultimately show ?thesis using push [of r ?t] by (auto simp: Cons)
    qed
  qed
qed
section \<open>Matching a segment\<close>

definition low :: "bool \<Rightarrow> u16 \<Rightarrow> u16" where
  "low icase c = (if icase then u_tolower c else c)"

definition in_ranges :: "bool \<Rightarrow> u16 \<Rightarrow> (u16 \<times> u16 option) list \<Rightarrow> bool" where
  "in_ranges icase k rs = list_ex (\<lambda>(a, b). case b of
       None \<Rightarrow> low icase a = low icase k
     | Some b \<Rightarrow> low icase a \<le> low icase k \<and> low icase k \<le> low icase b) rs"

text \<open>A token other than the star against the head of the name.\<close>

definition tok_one :: "bool \<Rightarrow> gtok \<Rightarrow> u16 list \<Rightarrow> bool" where
  "tok_one icase t name \<longleftrightarrow> name \<noteq> [] \<and>
     (case t of
        GLit c \<Rightarrow> low icase (hd name) = low icase c
      | GSet neg rs \<Rightarrow> in_ranges icase (hd name) rs \<noteq> neg
      | _ \<Rightarrow> True)"

text \<open>The reference: a star matches any prefix of the name.\<close>

fun gmatch :: "bool \<Rightarrow> gtok list \<Rightarrow> u16 list \<Rightarrow> bool" where
  "gmatch icase [] name \<longleftrightarrow> name = []"
| "gmatch icase (t # ts) name \<longleftrightarrow>
     (if t = GAny then list_ex (\<lambda>k. gmatch icase ts (drop k name)) [0..<Suc (length name)]
      else tok_one icase t name \<and> gmatch icase ts (tl name))"

definition wf_item :: "u16 \<times> u16 option \<Rightarrow> bool" where
  "wf_item r \<longleftrightarrow> plain (fst r) \<and> (case snd r of None \<Rightarrow> True | Some b \<Rightarrow> plain b)"

definition wf_tok :: "gtok \<Rightarrow> bool" where
  "wf_tok t \<longleftrightarrow> (case t of GLit c \<Rightarrow> plain c \<and> c \<noteq> 0 | GSet neg rs \<Rightarrow> list_all wf_item rs | _ \<Rightarrow> True)"

lemma wf_ranges: "list_all wf_item (ranges q)"
  by (induction q rule: ranges.induct) (simp_all add: wf_item_def)

lemma rest_set:
  "x \<in> set (tl (dropWhile P (tl q))) \<Longrightarrow> x \<in> set q" "x \<in> set (tl (dropWhile P (tl (tl q)))) \<Longrightarrow> x \<in> set q"
  by (metis list.set_sel(2) tl_Nil set_dropWhileD)+

lemma wf_gtoks: "\<forall>c \<in> set q. CHAR_c c \<noteq> 0 \<Longrightarrow> list_all wf_tok (gtoks q)"
proof (induction q rule: gtoks.induct)
  case (2 c q)
  define neg where "neg = (rdw q = BANG)"
  define q' where "q' = (if neg then tl q else q)"
  let ?C = "c = LBRACKET \<and> q' \<noteq> [] \<and> RBRACKET \<in> set (tl q')"
  let ?rest = "tl (dropWhile (\<lambda>d. d \<noteq> RBRACKET) (tl q'))"
  have "x \<in> set q" if "x \<in> set ?rest" for x
    using that rest_set [of x _ q] by (auto simp: q'_def split: if_splits)
  then have "?C \<Longrightarrow> list_all wf_tok (gtoks ?rest)" and "\<not> ?C \<Longrightarrow> list_all wf_tok (gtoks q)"
    using 2(1) [OF neg_def q'_def] 2(2) [OF neg_def q'_def] 2(3) by simp_all
  moreover have "wf_tok (if c = QUESTION then GOne else if c = STAR then GAny else GLit (CHAR_c c))"
    using 2(3) by (simp add: wf_tok_def)
  moreover have "wf_tok (GSet neg rs)" if "rs = ranges x" for rs x
    by (simp add: wf_tok_def wf_ranges that)
  moreover have "gtoks (c # q) = (if ?C then GSet neg (ranges (hd q' # takeWhile (\<lambda>d. d \<noteq> RBRACKET) (tl q'))) # gtoks ?rest
      else (if c = QUESTION then GOne else if c = STAR then GAny else GLit (CHAR_c c)) # gtoks q)"
    by (simp add: Let_def neg_def q'_def)
  ultimately show ?case by simp
qed simp

lemma rdw_Cons [simp]: "rdw (c # s) = c"
  by (simp add: rdw_def)

lemma rdw_items:
  assumes "list_all wf_item rs"
  shows "rdw (concat (map enc_item rs) @ M_END # rest) \<noteq> M_NOT"
    "rdw (concat (map enc_item rs) @ M_END # rest) \<noteq> M_RNG"
proof -
  obtain c t where "concat (map enc_item rs) @ M_END # rest = c # t" "c = M_END \<or> plain c"
  proof (cases rs)
    case Nil
    then show thesis using that by simp
  next
    case (Cons r rs')
    obtain a b where "r = (a, b)" by (cases r)
    then show thesis using that assms Cons by (cases b) (auto simp: wf_item_def)
  qed
  then show "rdw (concat (map enc_item rs) @ M_END # rest) \<noteq> M_NOT"
    "rdw (concat (map enc_item rs) @ M_END # rest) \<noteq> M_RNG"
    by (auto simp: plain_def simp del: append.simps)
qed

lemma match_set_char:
  "plain a \<Longrightarrow> rdw pat \<noteq> M_RNG \<Longrightarrow>
   match_set icase k ok (a # pat) = match_set icase k (ok \<or> low icase a = low icase k) pat"
  by (simp add: low_def)

lemma match_set_range:
  "plain a \<Longrightarrow> match_set icase k ok (a # M_RNG # b # pat)
     = match_set icase k (ok \<or> low icase a \<le> low icase k \<and> low icase k \<le> low icase b) pat"
  by (simp add: low_def)

lemma match_set_items:
  assumes "list_all wf_item rs"
  shows "match_set icase k ok (concat (map enc_item rs) @ M_END # rest) = Some (ok \<or> in_ranges icase k rs, rest)"
  using assms
proof (induction rs arbitrary: ok)
  case Nil
  then show ?case by (simp add: in_ranges_def)
next
  case (Cons r rs)
  obtain a b where r: "r = (a, b)" by (cases r)
  have rs: "list_all wf_item rs" and "wf_item r" using Cons.prems by simp_all
  then have a: "plain a" by (simp add: r wf_item_def)
  show ?case
  proof (cases b)
    case None
    have "match_set icase k ok (a # concat (map enc_item rs) @ M_END # rest)
        = Some ((ok \<or> low icase a = low icase k) \<or> in_ranges icase k rs, rest)"
      using match_set_char [OF a rdw_items(2) [OF rs]] Cons.IH [OF rs] by (simp only:)
    then show ?thesis by (simp add: r None in_ranges_def del: match_set.simps)
  next
    case (Some c)
    have "match_set icase k ok (a # M_RNG # c # concat (map enc_item rs) @ M_END # rest)
        = Some ((ok \<or> low icase a \<le> low icase k \<and> low icase k \<le> low icase c) \<or> in_ranges icase k rs, rest)"
      using match_set_range [OF a] Cons.IH [OF rs] by (simp only:)
    then show ?thesis by (simp add: r Some in_ranges_def del: match_set.simps)
  qed
qed

lemma low_zero: "plain c \<Longrightarrow> low icase c = low icase 0 \<longleftrightarrow> c = 0"
  by (auto simp: low_def u_tolower_def plain_def word_le_nat_alt unat_word_ariths word_unat_eq_iff)

lemma match_char_tok:
  assumes "wf_tok t" "t \<noteq> GAny" "enc_tok t = c # pat"
  shows "c \<noteq> M_ALL"
    "match_char icase name c (pat @ rest) = Some (if tok_one icase t name then Some rest else None)"
proof -
  show "c \<noteq> M_ALL" using assms by (cases t) (auto simp: wf_tok_def)
  show "match_char icase name c (pat @ rest) = Some (if tok_one icase t name then Some rest else None)"
  proof (cases t)
    case (GLit d)
    have "rdw name = 0" if "name = []" using that by (simp add: rdw_def)
    then show ?thesis
      using assms low_zero [of d icase] GLit
      by (cases name) (auto simp: wf_tok_def match_char_def tok_one_def low_def rdw_def)
  next
    case (GSet neg rs)
    then show ?thesis
      using assms rdw_items [of rs rest] match_set_items [of rs icase "hd name" False rest]
      by (auto simp: wf_tok_def match_char_def tok_one_def rdw_def Let_def)
  qed (use assms in \<open>auto simp: match_char_def tok_one_def\<close>)
qed
lemma gmatch_star: "gmatch icase (GAny # ts) name \<longleftrightarrow> (\<exists>k \<le> length name. gmatch icase ts (drop k name))"
  by (auto simp: list_ex_iff less_Suc_eq_le simp del: upt_Suc)

declare gmatch.simps(2) [simp del]

lemma gmatch_star_step:
  "gmatch icase (GAny # ts) name \<longleftrightarrow>
     gmatch icase ts name \<or> name \<noteq> [] \<and> gmatch icase (GAny # ts) (tl name)"
proof (cases name)
  case (Cons c s)
  have "(\<exists>k \<le> Suc n. P k) \<longleftrightarrow> P 0 \<or> (\<exists>k \<le> n. P (Suc k))" for P n
    by (metis Suc_le_mono le0 not0_implies_Suc)
  then show ?thesis by (simp add: gmatch_star Cons)
qed (simp add: gmatch_star)

lemma gmatch_star_end [simp]: "gmatch icase [GAny] name"
  by (simp add: gmatch_star) (metis drop_all order_refl)

theorem match_tokens:
  assumes "list_all wf_tok ts"
  shows "match icase name (enc ts @ rest) (int (length (enc ts))) = Some (gmatch icase ts name)"
  using assms
proof (induction ts arbitrary: name)
  case Nil
  then show ?case by (simp add: match.simps)
next
  case (Cons t ts)
  then have ts: "list_all wf_tok ts" and t: "wf_tok t" by simp_all
  note IH = Cons.IH [OF ts]
  show ?case
  proof (cases "t = GAny")
    case True
    show ?thesis
    proof (induction name)
      case Nil
      show ?case
        using IH gmatch_star_step [of icase ts "[]"]
        by (subst match.simps) (auto simp: True split: bool.split)
    next
      case (Cons c name)
      have "int (length (enc_tok GAny @ enc ts)) - 1 = int (length (enc ts))" by simp
      then show ?case
        using IH Cons gmatch_star_step [of icase ts "c # name"]
        by (subst match.simps) (auto simp: True split: bool.split)
    qed
  next
    case False
    obtain c pat where c: "enc_tok t = c # pat" by (cases "enc_tok t") auto
    note one = match_char_tok(1) [OF t False c] match_char_tok(2) [OF t False c, where rest = "enc ts @ rest"]
    have "match icase name (enc (t # ts) @ rest) (int (length (enc (t # ts))))
        = (if tok_one icase t name then match icase (tl name) (enc ts @ rest) (int (length (enc ts))) else Some False)"
      by (subst match.simps) (simp add: c one)
    then show ?thesis using IH [of "tl name"] False by (simp add: gmatch.simps)
  qed
qed

section \<open>Collapsing the stars changes nothing\<close>

lemma gmatch_cong: "(\<And>s. gmatch icase us s = gmatch icase vs s) \<Longrightarrow> gmatch icase (ts @ us) s = gmatch icase (ts @ vs) s"
  by (induction ts arbitrary: s) (simp_all add: gmatch.simps)

lemma gmatch_star_star: "gmatch icase (GAny # GAny # ts) s = gmatch icase (GAny # ts) s"
proof (induction s)
  case Nil
  show ?case using gmatch_star_step [of icase "GAny # ts" "[]"] by simp
next
  case (Cons c s)
  then show ?case
    using gmatch_star_step [of icase "GAny # ts" "c # s"] gmatch_star_step [of icase ts "c # s"] by auto
qed

lemma push_tok_match: "gmatch icase (push_tok ts t @ us) s = gmatch icase (ts @ t # us) s"
proof (cases "t = GAny \<and> ts \<noteq> [] \<and> last ts = GAny")
  case True
  then obtain ts' where "ts = ts' @ [GAny]" by (metis append_butlast_last_id)
  with True show ?thesis
    using gmatch_cong [of icase "GAny # GAny # us" "GAny # us" ts'] gmatch_star_star by (auto simp: push_tok_def)
qed (auto simp: push_tok_def)

lemma collapse_match: "gmatch icase (foldl push_tok ts us) s = gmatch icase (ts @ us) s"
proof (induction us arbitrary: ts)
  case (Cons u us)
  then show ?case using push_tok_match [of icase ts u us s] by simp
qed simp

section \<open>Nested braces\<close>

text \<open>
  The reference for the brace expansion: texts of characters and of braces with alternatives, and
  the sequence of texts they stand for.
\<close>

datatype bx = Ch u16 | Br "bx list list"

fun join :: "u16 list list \<Rightarrow> u16 list" where
  "join [] = []"
| "join [a] = a"
| "join (a # b # as) = a @ COMMA # join (b # as)"

fun btext :: "bx list \<Rightarrow> u16 list" where
  "btext [] = []"
| "btext (Ch c # ts) = c # btext ts"
| "btext (Br as # ts) = LBRACE # join (map btext as) @ RBRACE # btext ts"

fun blang :: "bx list \<Rightarrow> u16 list list" where
  "blang [] = [[]]"
| "blang (Ch c # ts) = map (Cons c) (blang ts)"
| "blang (Br as # ts) = concat (map (\<lambda>a. concat (map (\<lambda>x. map (append x) (blang ts)) (blang a))) as)"

text \<open>No brackets, no commas directly inside an alternative, and nothing that prints as \<open>{}\<close>.\<close>

fun wf_bx :: "bool \<Rightarrow> bx list \<Rightarrow> bool" where
  "wf_bx inner [] \<longleftrightarrow> True"
| "wf_bx inner (Ch c # ts) \<longleftrightarrow> c \<notin> {LBRACE, RBRACE, LBRACKET} \<and> (inner \<longrightarrow> c \<noteq> COMMA) \<and> wf_bx inner ts"
| "wf_bx inner (Br as # ts) \<longleftrightarrow> as \<notin> {[], [[]]} \<and> list_all (wf_bx True) as \<and> wf_bx inner ts"

text \<open>Texts the two loops of \<open>globexp2\<close> run over without a stop, with and without outer commas.\<close>

inductive nested :: "u16 list \<Rightarrow> bool" where
  nested_Nil: "nested []"
| nested_char: "c \<notin> {LBRACE, RBRACE, LBRACKET} \<Longrightarrow> nested b \<Longrightarrow> nested (c # b)"
| nested_brace: "nested a \<Longrightarrow> nested b \<Longrightarrow> nested (LBRACE # a @ RBRACE # b)"

inductive alternative :: "u16 list \<Rightarrow> bool" where
  alternative_Nil: "alternative []"
| alternative_char: "c \<notin> {LBRACE, RBRACE, LBRACKET, COMMA} \<Longrightarrow> alternative b \<Longrightarrow> alternative (c # b)"
| alternative_brace: "nested a \<Longrightarrow> alternative b \<Longrightarrow> alternative (LBRACE # a @ RBRACE # b)"

lemma nested_append: "nested a \<Longrightarrow> nested b \<Longrightarrow> nested (a @ b)"
  by (induction rule: nested.induct) (auto intro: nested.intros)

lemma alternative_nested: "alternative a \<Longrightarrow> nested a"
  by (induction rule: alternative.induct) (auto intro: nested.intros)

lemma nested_join: "list_all nested as \<Longrightarrow> nested (join as)"
  by (induction as rule: join.induct) (auto intro!: nested_append nested.intros)

lemma nested_btext: "wf_bx inner ts \<Longrightarrow> nested (btext ts)"
  by (induction inner ts rule: wf_bx.induct)
    (auto intro!: nested.intros nested_join simp: list_all_iff)

lemma nested_alts: "list_all (wf_bx True) as \<Longrightarrow> nested (join (map btext as))"
  by (auto intro!: nested_join nested_btext simp: list_all_iff)

lemma alternative_btext: "wf_bx True ts \<Longrightarrow> alternative (btext ts)"
proof (induction ts)
  case (Cons t ts)
  then show ?case
    by (cases t) (auto intro!: alternative.intros nested_alts)
qed (auto intro: alternative.intros)

lemma at_middle [simp]: "at (u @ c # v) (length u) = c"
  by (simp add: at_def)

lemma find_brace_char:
  "c \<notin> {LBRACE, RBRACE, LBRACKET} \<Longrightarrow> find_brace (u @ c # v) i (length u) = find_brace (u @ c # v) i (Suc (length u))"
  by (subst find_brace.simps) (simp add: Let_def)

lemma find_brace_nested:
  "nested b \<Longrightarrow> find_brace (u @ b @ v) i (length u) = find_brace (u @ b @ v) i (length (u @ b))"
proof (induction b arbitrary: u v i rule: nested.induct)
  case nested_Nil
  show ?case by simp
next
  case (nested_char c b)
  then show ?case using find_brace_char [of c u "b @ v" i] nested_char.IH [of "u @ [c]"] by simp
next
  case (nested_brace a b)
  let ?s = "u @ (LBRACE # a @ RBRACE # b) @ v"
  have "find_brace ?s i (length u) = find_brace ?s (Suc i) (length (u @ [LBRACE]))"
    by (subst find_brace.simps) (simp add: Let_def)
  also have "\<dots> = find_brace ?s (Suc i) (length (u @ [LBRACE] @ a))"
    using nested_brace.IH(1) [of "u @ [LBRACE]" "RBRACE # b @ v" "Suc i"] by simp
  also have "\<dots> = find_brace ?s i (length (u @ LBRACE # a @ [RBRACE]))"
    using at_middle [of "u @ LBRACE # a" RBRACE "b @ v"]
    by (subst find_brace.simps) (simp add: Let_def)
  also have "\<dots> = find_brace ?s i (length (u @ LBRACE # a @ RBRACE # b))"
    using nested_brace.IH(2) [of "u @ LBRACE # a @ [RBRACE]" v i] by simp
  finally show ?case .
qed

lemma find_brace_found: "find_brace (u @ RBRACE # v) 0 (length u) = (0, length u)"
  by (subst find_brace.simps) (simp add: Let_def)

lemma brace_alts_char:
  assumes "c \<notin> {LBRACE, RBRACE, LBRACKET}" "c \<noteq> COMMA \<or> i \<noteq> 0" "length u \<le> pe"
  shows "brace_alts ls (u @ c # v) pe i pl (length u) = brace_alts ls (u @ c # v) pe i pl (Suc (length u))"
  using assms by (subst brace_alts.simps) (auto simp: Let_def)

lemma brace_alts_nested:
  "nested b \<Longrightarrow> length (u @ b) \<le> Suc pe \<Longrightarrow>
   brace_alts ls (u @ b @ v) pe (Suc i) pl (length u) = brace_alts ls (u @ b @ v) pe (Suc i) pl (length (u @ b))"
proof (induction b arbitrary: u v i rule: nested.induct)
  case nested_Nil
  show ?case by simp
next
  case (nested_char c b)
  then show ?case
    using brace_alts_char [of c "Suc i" u pe ls "b @ v" pl] nested_char.IH [of "u @ [c]"] by simp
next
  case (nested_brace a b)
  let ?s = "u @ (LBRACE # a @ RBRACE # b) @ v"
  have "brace_alts ls ?s pe (Suc i) pl (length u) = brace_alts ls ?s pe (Suc (Suc i)) pl (length (u @ [LBRACE]))"
    using nested_brace.prems by (subst brace_alts.simps) (simp add: Let_def)
  also have "\<dots> = brace_alts ls ?s pe (Suc (Suc i)) pl (length (u @ [LBRACE] @ a))"
    using nested_brace.IH(1) [of "u @ [LBRACE]" "RBRACE # b @ v" "Suc i"] nested_brace.prems by simp
  also have "\<dots> = brace_alts ls ?s pe (Suc i) pl (length (u @ LBRACE # a @ [RBRACE]))"
    using at_middle [of "u @ LBRACE # a" RBRACE "b @ v"] nested_brace.prems
    by (subst brace_alts.simps) (simp add: Let_def)
  also have "\<dots> = brace_alts ls ?s pe (Suc i) pl (length (u @ LBRACE # a @ RBRACE # b))"
    using nested_brace.IH(2) [of "u @ LBRACE # a @ [RBRACE]" v i] nested_brace.prems by simp
  finally show ?case .
qed

lemma brace_alts_alternative:
  "alternative b \<Longrightarrow> length (u @ b) \<le> Suc pe \<Longrightarrow>
   brace_alts ls (u @ b @ v) pe 0 pl (length u) = brace_alts ls (u @ b @ v) pe 0 pl (length (u @ b))"
proof (induction b arbitrary: u v rule: alternative.induct)
  case alternative_Nil
  show ?case by simp
next
  case (alternative_char c b)
  then show ?case
    using brace_alts_char [of c 0 u pe ls "b @ v" pl] alternative_char.IH [of "u @ [c]"] by simp
next
  case (alternative_brace a b)
  let ?s = "u @ (LBRACE # a @ RBRACE # b) @ v"
  have "brace_alts ls ?s pe 0 pl (length u) = brace_alts ls ?s pe (Suc 0) pl (length (u @ [LBRACE]))"
    using alternative_brace.prems by (subst brace_alts.simps) (simp add: Let_def)
  also have "\<dots> = brace_alts ls ?s pe (Suc 0) pl (length (u @ [LBRACE] @ a))"
    using brace_alts_nested [OF alternative_brace.hyps(1), of "u @ [LBRACE]" pe ls "RBRACE # b @ v" 0]
      alternative_brace.prems by simp
  also have "\<dots> = brace_alts ls ?s pe 0 pl (length (u @ LBRACE # a @ [RBRACE]))"
    using at_middle [of "u @ LBRACE # a" RBRACE "b @ v"] alternative_brace.prems
    by (subst brace_alts.simps) (simp add: Let_def)
  also have "\<dots> = brace_alts ls ?s pe 0 pl (length (u @ LBRACE # a @ RBRACE # b))"
    using alternative_brace.IH [of "u @ LBRACE # a @ [RBRACE]" v] alternative_brace.prems by simp
  finally show ?case .
qed

lemma brace_alts_join:
  assumes "list_all alternative as" "as \<noteq> []" "pe = length (u @ join as)"
  shows "brace_alts ls (u @ join as @ RBRACE # v) pe 0 (length u) (length u) = map (\<lambda>a. ls @ a @ v) as"
  using assms
proof (induction as arbitrary: u rule: join.induct)
  case (2 a)
  let ?s = "u @ a @ RBRACE # v"
  have "brace_alts ls ?s pe 0 (length u) (length u) = brace_alts ls ?s pe 0 (length u) (length (u @ a))"
    using 2 brace_alts_alternative [of a u pe ls "RBRACE # v" "length u"] by simp
  also have "\<dots> = [ls @ a @ v]"
    using 2 at_middle [of "u @ a" RBRACE v] brace_alts.simps [of ls ?s pe 0 "Suc pe" "Suc pe"]
    by (subst brace_alts.simps) (simp add: Let_def)
  finally show ?case by simp
next
  case (3 a b as)
  let ?s = "u @ a @ COMMA # join (b # as) @ RBRACE # v"
  have "brace_alts ls ?s pe 0 (length u) (length u) = brace_alts ls ?s pe 0 (length u) (length (u @ a))"
    using 3 brace_alts_alternative [of a u pe ls "COMMA # join (b # as) @ RBRACE # v" "length u"] by simp
  also have "\<dots> = (ls @ a @ v) # brace_alts ls ?s pe 0 (length (u @ a @ [COMMA])) (length (u @ a @ [COMMA]))"
    using 3(4) at_middle [of "u @ a" COMMA "join (b # as) @ RBRACE # v"]
    by (subst brace_alts.simps) (simp add: Let_def)
  also have "brace_alts ls ?s pe 0 (length (u @ a @ [COMMA])) (length (u @ a @ [COMMA])) = map (\<lambda>a. ls @ a @ v) (b # as)"
    using 3(1) [of "u @ a @ [COMMA]"] 3(2,4) by simp
  finally show ?case by simp
qed simp

lemma concat_concat: "concat (concat xss) = concat (map concat xss)"
  by (induction xss) simp_all

lemma append_fun: "append (x @ y) = (\<lambda>z. x @ y @ z)" "append (c # x) = (\<lambda>z. c # x @ z)"
  by (simp_all add: fun_eq_iff)

lemma blang_append: "blang (a @ ts) = concat (map (\<lambda>x. map (append x) (blang ts)) (blang a))"
proof (induction a)
  case (Cons t a)
  then show ?case
    by (cases t) (simp_all add: comp_def map_concat concat_concat append_fun)
qed (simp add: map_idI)

lemma blang_brace: "blang (Br as # ts) = concat (map (\<lambda>a. blang (a @ ts)) as)"
  by (simp add: blang_append)

end
