(* ===== verification/Glob.thy ===== *)
theory Glob
  imports Glob_Pattern "HOL-Library.List_Lexorder" "HOL-Library.Char_ord"
begin

text \<open>
  \<open>cygwin/glob.c\<close>: the traversal of the file system and the result vector.

  The record \<open>glob_t\<close> is the caller's structure; \<open>gl_pathv\<close> is the vector slot by slot (\<open>Junk\<close> for
  an uninitialised slot), \<open>gl_allocs\<close> counts the calls of \<open>malloc\<close> and \<open>realloc\<close>, and \<open>gl_errs\<close> are
  the calls of the error function. What the code asks its surroundings is the record \<open>env\<close>: which
  allocation succeeds, the home directories, the error function, and two sets of directory
  functions, those of the library and those of \<open>GLOB_ALTDIRFUNC\<close>. A directory is the list of its
  entries in the order \<open>readdir\<close> gives them.

  \<open>None\<close> is undefined behaviour, as far as the model has it: a read past the end of a pattern; a pattern
  with an unbalanced brace, which is globbed from a buffer that was never terminated; and \<open>g_lstat\<close> and
  \<open>g_stat\<close>, which hand the address of their own parameter to the alternative functions of programs
  built with large types. The path buffers of \<open>MAXPATHLEN\<close> characters that \<open>glob1\<close>, \<open>g_lstat\<close>, \<open>g_stat\<close>
  and \<open>g_opendir\<close> fill are lists without a bound: what happens to longer paths is not modelled.
\<close>

section \<open>The caller's structure and the surroundings\<close>

abbreviation (input) GLOB_APPEND :: int where "GLOB_APPEND \<equiv> 0x0001"
abbreviation (input) GLOB_DOOFFS :: int where "GLOB_DOOFFS \<equiv> 0x0002"
abbreviation (input) GLOB_ERR :: int where "GLOB_ERR \<equiv> 0x0004"
abbreviation (input) GLOB_MARK :: int where "GLOB_MARK \<equiv> 0x0008"
abbreviation (input) GLOB_NOCHECK :: int where "GLOB_NOCHECK \<equiv> 0x0010"
abbreviation (input) GLOB_NOSORT :: int where "GLOB_NOSORT \<equiv> 0x0020"
abbreviation (input) GLOB_ALTDIRFUNC :: int where "GLOB_ALTDIRFUNC \<equiv> 0x0040"
abbreviation (input) GLOB_BRACE :: int where "GLOB_BRACE \<equiv> 0x0080"
abbreviation (input) GLOB_MAGCHAR :: int where "GLOB_MAGCHAR \<equiv> 0x0100"
abbreviation (input) GLOB_NOMAGIC :: int where "GLOB_NOMAGIC \<equiv> 0x0200"
abbreviation (input) GLOB_QUOTE :: int where "GLOB_QUOTE \<equiv> 0x0400"
abbreviation (input) GLOB_TILDE :: int where "GLOB_TILDE \<equiv> 0x0800"
abbreviation (input) GLOB_NOSPACE :: int where "GLOB_NOSPACE \<equiv> - 1"
abbreviation (input) GLOB_ABEND :: int where "GLOB_ABEND \<equiv> - 2"
abbreviation (input) MAXPATHLEN :: nat where "MAXPATHLEN \<equiv> 16384"

datatype slot = Junk | Null | Path string

record glob_t =
  gl_pathc :: nat
  gl_matchc :: nat
  gl_offs :: nat
  gl_flags :: int
  gl_pathv :: "slot list option"
  gl_allocs :: nat
  gl_errs :: "(string \<times> int) list"

datatype file_type = Directory | Symlink | Other

record fs =
  fs_lstat :: "string \<Rightarrow> file_type option"
  fs_stat :: "string \<Rightarrow> file_type option"
  fs_opendir :: "string \<Rightarrow> int + string list"

record env =
  en_mem :: "nat \<Rightarrow> bool"
  en_home :: "string option"
  en_pwuid :: "string option"
  en_pwnam :: "string \<Rightarrow> string option"
  en_errfunc :: "(string \<Rightarrow> int \<Rightarrow> bool) option"
  en_icase :: bool
  en_big :: bool
  en_fs :: fs
  en_alt :: fs

definition dir_funcs :: "env \<Rightarrow> glob_t \<Rightarrow> fs" where
  "dir_funcs en g = (if has (gl_flags g) GLOB_ALTDIRFUNC then en_alt en else en_fs en)"

section \<open>The result vector\<close>

text \<open>An allocation that may fail.\<close>

definition allocate :: "env \<Rightarrow> glob_t \<Rightarrow> bool \<times> glob_t" where
  "allocate en g = (en_mem en (gl_allocs g), g\<lparr>gl_allocs := Suc (gl_allocs g)\<rparr>)"

definition resize :: "nat \<Rightarrow> slot list \<Rightarrow> slot list" where
  "resize n v = take n v @ replicate (n - length v) Junk"

definition globextend :: "env \<Rightarrow> u16 list \<Rightarrow> glob_t \<Rightarrow> int \<times> glob_t" where
  "globextend en path g =
     (let newsize = 2 + gl_pathc g + gl_offs g;
          pathv = resize newsize (case gl_pathv g of None \<Rightarrow> [] | Some v \<Rightarrow> v);
          (ok, g) = allocate en g
      in if \<not> ok then (GLOB_NOSPACE, g)
         else let pathv = (if gl_pathv g = None \<and> gl_offs g > 0
                           then replicate (gl_offs g) Null @ drop (gl_offs g) pathv else pathv);
                  (copied, g) = allocate en g;
                  pathv = (if copied then pathv[gl_offs g + gl_pathc g := Path (g_Ctoc path)] else pathv);
                  g = (if copied then g\<lparr>gl_pathc := Suc (gl_pathc g)\<rparr> else g);
                  pathv = pathv[gl_offs g + gl_pathc g := Null]
              in (if copied then 0 else GLOB_NOSPACE, g\<lparr>gl_pathv := Some pathv\<rparr>))"

text \<open>\<open>qsort\<close> with \<open>compare\<close>, which is \<open>strcmp\<close>, on the slots from \<open>from\<close> on.\<close>

fun compare :: "string \<Rightarrow> string \<Rightarrow> int" where
  "compare [] [] = 0"
| "compare [] (d # q) = - 1"
| "compare (c # p) [] = 1"
| "compare (c # p) (d # q) =
     (if c = d then compare p q else if (of_char c :: nat) < of_char d then - 1 else 1)"

definition slot_le :: "slot \<Rightarrow> slot \<Rightarrow> bool" where
  "slot_le p q = (case (p, q) of (Path s, Path t) \<Rightarrow> compare s t \<le> 0 | _ \<Rightarrow> True)"

fun insert_slot :: "slot \<Rightarrow> slot list \<Rightarrow> slot list" where
  "insert_slot p [] = [p]"
| "insert_slot p (q # qs) = (if slot_le p q then p # q # qs else q # insert_slot p qs)"

definition qsort :: "slot list \<Rightarrow> slot list" where
  "qsort ps = foldr insert_slot ps []"

definition sort_new :: "nat \<Rightarrow> glob_t \<Rightarrow> glob_t" where
  "sort_new oldpathc g =
     g\<lparr>gl_pathv := map_option (\<lambda>v. take (gl_offs g + oldpathc) v
         @ qsort (take (gl_pathc g - oldpathc) (drop (gl_offs g + oldpathc) v))
         @ drop (gl_offs g + gl_pathc g) v) (gl_pathv g)\<rparr>"

text \<open>What \<open>globfree\<close> passes to \<open>free\<close>: the strings, then the vector.\<close>

definition globfree :: "glob_t \<Rightarrow> string list \<times> bool" where
  "globfree g = (case gl_pathv g of
       None \<Rightarrow> ([], False)
     | Some v \<Rightarrow> (concat (map (\<lambda>p. case p of Path s \<Rightarrow> [s] | _ \<Rightarrow> [])
                     (take (gl_pathc g) (drop (gl_offs g) v))), True))"

section \<open>The file system\<close>

definition g_opendir :: "env \<Rightarrow> u16 list \<Rightarrow> glob_t \<Rightarrow> int + string list" where
  "g_opendir en str g = fs_opendir (dir_funcs en g) (if str = [] then ''.'' else g_Ctoc str)"

text \<open>The outer \<open>None\<close> is the write through the address of the parameter.\<close>

definition g_lstat :: "env \<Rightarrow> u16 list \<Rightarrow> glob_t \<Rightarrow> file_type option option" where
  "g_lstat en fn g =
     (let r = fs_lstat (dir_funcs en g) (g_Ctoc fn)
      in if has (gl_flags g) GLOB_ALTDIRFUNC \<and> en_big en \<and> r \<noteq> None then None else Some r)"

definition g_stat :: "env \<Rightarrow> u16 list \<Rightarrow> glob_t \<Rightarrow> file_type option option" where
  "g_stat en fn g =
     (let r = fs_stat (dir_funcs en g) (g_Ctoc fn)
      in if has (gl_flags g) GLOB_ALTDIRFUNC \<and> en_big en \<and> r \<noteq> None then None else Some r)"

text \<open>The end of the pattern: the path is complete.\<close>

definition glob2_end :: "env \<Rightarrow> u16 list \<Rightarrow> glob_t \<Rightarrow> (int \<times> glob_t) option" where
  "glob2_end en path g =
     (case g_lstat en path g of
        None \<Rightarrow> None
      | Some None \<Rightarrow> Some (0, g)
      | Some (Some mode) \<Rightarrow>
          (let mark = has (gl_flags g) GLOB_MARK \<and> last path \<noteq> SEP
           in case (if mark \<and> mode = Symlink then g_stat en path g else Some None) of
                None \<Rightarrow> None
              | Some target \<Rightarrow>
                  let path = (if mark \<and> (mode = Directory \<or> target = Some Directory)
                              then path @ [SEP] else path)
                  in Some (globextend en path (g\<lparr>gl_matchc := Suc (gl_matchc g)\<rparr>))))"

lemma segment_shorter:
  "list_ex P (takeWhile Q xs) \<Longrightarrow> length (dropWhile Q xs) < length xs"
  by (cases xs) (auto simp: less_Suc_eq_le length_dropWhile_le split: if_splits)

lemma seps_shorter:
  "xs \<noteq> [] \<Longrightarrow> length (dropWhile (\<lambda>c. c = a) (dropWhile (\<lambda>c. c \<noteq> a) xs)) < length xs"
proof (induction xs)
  case (Cons x xs)
  have "length (dropWhile (\<lambda>c. c = a) (dropWhile (\<lambda>c. c \<noteq> a) xs)) \<le> length xs"
    using length_dropWhile_le [of "\<lambda>c. c = a" "dropWhile (\<lambda>c. c \<noteq> a) xs"]
      length_dropWhile_le [of "\<lambda>c. c \<noteq> a" xs] by linarith
  then show ?case using length_dropWhile_le [of "\<lambda>c. c = a" xs] by (simp add: less_Suc_eq_le)
qed simp

text \<open>\<open>path\<close> is the buffer up to \<open>pathend\<close>.\<close>

function (sequential) glob2 :: "env \<Rightarrow> u16 list \<Rightarrow> u16 list \<Rightarrow> glob_t \<Rightarrow> (int \<times> glob_t) option"
  and glob3 :: "env \<Rightarrow> u16 list \<Rightarrow> u16 list \<Rightarrow> u16 list \<Rightarrow> glob_t \<Rightarrow> (int \<times> glob_t) option"
  and glob3_loop :: "env \<Rightarrow> u16 list \<Rightarrow> u16 list \<Rightarrow> u16 list \<Rightarrow> string list \<Rightarrow> glob_t \<Rightarrow> (int \<times> glob_t) option"
where
  "glob2 en path pattern g =
     (if pattern = [] then glob2_end en path g
      else let seg = takeWhile (\<lambda>c. c \<noteq> SEP) pattern;
               p = dropWhile (\<lambda>c. c \<noteq> SEP) pattern
           in if list_ex ismeta seg then glob3 en path pattern p g
              else glob2 en (path @ seg @ takeWhile (\<lambda>c. c = SEP) p) (dropWhile (\<lambda>c. c = SEP) p) g)"
| "glob3 en path pattern rest g =
     (case g_opendir en path g of
        Inl errno \<Rightarrow>
          (case en_errfunc en of
             None \<Rightarrow> Some (0, g)
           | Some f \<Rightarrow>
               let buf = g_Ctoc path;
                   g = g\<lparr>gl_errs := gl_errs g @ [(buf, errno)]\<rparr>
               in if f buf errno \<or> has (gl_flags g) GLOB_ERR then Some (GLOB_ABEND, g) else Some (0, g))
      | Inr names \<Rightarrow> glob3_loop en path pattern rest names g)"
| "glob3_loop en path pattern rest [] g = Some (0, g)"
| "glob3_loop en path pattern rest (name # names) g =
     (if take 1 name = ''.'' \<and> rdw pattern \<noteq> DOT then glob3_loop en path pattern rest names g
      else case match (en_icase en) (uchars name) pattern (int (length pattern) - int (length rest)) of
             None \<Rightarrow> None
           | Some False \<Rightarrow> glob3_loop en path pattern rest names g
           | Some True \<Rightarrow>
               (case glob2 en (path @ uchars name) rest g of
                  None \<Rightarrow> None
                | Some (err, g) \<Rightarrow>
                    if err \<noteq> 0 then Some (err, g) else glob3_loop en path pattern rest names g))"
  by pat_completeness auto
termination
  by (relation "inv_image (less_than <*lex*> less_than <*lex*> less_than)
        (\<lambda>x. case x of
             Inl (en, path, pattern, g) \<Rightarrow> (length pattern, 0, 0)
           | Inr (Inl (en, path, pattern, rest, g)) \<Rightarrow> (length rest, 2, 0)
           | Inr (Inr (en, path, pattern, rest, names, g)) \<Rightarrow> (length rest, 1, length names))")
    (auto simp: segment_shorter seps_shorter)

declare glob2.simps [simp del] glob3.simps [simp del]

definition glob1 :: "env \<Rightarrow> u16 list \<Rightarrow> glob_t \<Rightarrow> (int \<times> glob_t) option" where
  "glob1 en pattern g = (if pattern = [] then Some (0, g) else glob2 en [] pattern g)"

section \<open>One pattern\<close>

text \<open>A home directory is read through a signed \<open>char\<close>.\<close>

definition schars :: "string \<Rightarrow> u16 list" where
  "schars s = map (\<lambda>c. let b = of_char c :: u16 in if b \<ge> 128 then b OR 0xff00 else b) s"

definition globtilde :: "env \<Rightarrow> u16 list \<Rightarrow> glob_t \<Rightarrow> u16 list" where
  "globtilde en pattern g =
     (if rdw pattern \<noteq> TILDE \<or> \<not> has (gl_flags g) GLOB_TILDE then pattern
      else let user = g_Ctoc (takeWhile (\<lambda>c. c \<noteq> SEP) (tl pattern));
               p = dropWhile (\<lambda>c. c \<noteq> SEP) (tl pattern);
               h = (if user = [] then case en_home en of None \<Rightarrow> en_pwuid en | Some h \<Rightarrow> Some h
                    else en_pwnam en user)
           in case h of None \<Rightarrow> pattern | Some h \<Rightarrow> schars h @ p)"

definition glob0 :: "env \<Rightarrow> u16 list \<Rightarrow> glob_t \<Rightarrow> (int \<times> glob_t) option" where
  "glob0 en pattern g =
     (let qpat = globtilde en pattern g;
          oldpathc = gl_pathc g
      in case compile [] qpat of
           None \<Rightarrow> None
         | Some (patbuf, magic) \<Rightarrow>
             let g = (if magic then g\<lparr>gl_flags := gl_flags g OR GLOB_MAGCHAR\<rparr> else g)
             in case glob1 en patbuf g of
                  None \<Rightarrow> None
                | Some (err, g) \<Rightarrow>
                    if err \<noteq> 0 then Some (err, g)
                    else if gl_pathc g = oldpathc \<and>
                            (has (gl_flags g) GLOB_NOCHECK \<or>
                             has (gl_flags g) GLOB_NOMAGIC \<and> \<not> has (gl_flags g) GLOB_MAGCHAR)
                    then Some (globextend en pattern g)
                    else if \<not> has (gl_flags g) GLOB_NOSORT then Some (0, sort_new oldpathc g)
                    else Some (0, g))"

section \<open>Braces and the entry point\<close>

text \<open>
  \<open>globexp2\<close> with the position \<open>ptr\<close> of the brace. Its second loop calls \<open>globexp1\<close> on every
  pattern it builds and drops the results; \<open>globexp_alts\<close> is that sequence of calls.
\<close>

definition longest :: "u16 list list \<Rightarrow> nat" where
  "longest ps = foldr (\<lambda>p. max (length p)) ps 0"

lemma longest_simps [simp]:
  "longest [] = 0" "longest (p # ps) = max (length p) (longest ps)"
  by (simp_all add: longest_def)

lemma longest_less: "\<forall>p \<in> set ps. length p < n \<Longrightarrow> 0 < n \<Longrightarrow> longest ps < n"
  by (induction ps) auto

function (sequential) globexp1 :: "env \<Rightarrow> u16 list \<Rightarrow> glob_t \<Rightarrow> (int \<times> glob_t) option"
  and globexp2 :: "env \<Rightarrow> nat \<Rightarrow> u16 list \<Rightarrow> glob_t \<Rightarrow> (int \<times> glob_t) option"
  and globexp_alts :: "env \<Rightarrow> u16 list list \<Rightarrow> glob_t \<Rightarrow> (int \<times> glob_t) option"
where
  "globexp1 en pattern g =
     (if pattern = [LBRACE, RBRACE] then glob0 en pattern g
      else case g_strchr pattern LBRACE of
             None \<Rightarrow> glob0 en pattern g
           | Some ptr \<Rightarrow> globexp2 en (length pattern - length ptr) pattern g)"
| "globexp2 en ptr pattern g =
     (let ls = take ptr pattern;
          (i, pe) = find_brace pattern 0 (Suc ptr)
      in if i \<noteq> 0 \<or> pe \<ge> length pattern then None
         else globexp_alts en (brace_alts ls pattern pe 0 (Suc ptr) (Suc ptr)) g)"
| "globexp_alts en [] g = Some (0, g)"
| "globexp_alts en (p # ps) g =
     (case globexp1 en p g of
        None \<Rightarrow> None
      | Some (rv, g) \<Rightarrow> globexp_alts en ps g)"
  by pat_completeness auto
termination
proof (relation "inv_image (less_than <*lex*> less_than <*lex*> less_than)
        (\<lambda>x. case x of
             Inl (en, pattern, g) \<Rightarrow> (length pattern, 1, 0)
           | Inr (Inl (en, ptr, pattern, g)) \<Rightarrow> (length pattern, 0, 0)
           | Inr (Inr (en, ps, g)) \<Rightarrow> (longest ps, 2, length ps))", goal_cases)
  case (3 en ptr pattern g ls x i pe)
  then have "longest (brace_alts ls pattern pe 0 (Suc ptr) (Suc ptr)) < length pattern"
    by (intro longest_less ballI brace_alts_expand) auto
  then show ?case by simp
qed (auto simp: max_def)

declare globexp1.simps [simp del] globexp2.simps [simp del]

definition glob_start :: "int \<Rightarrow> glob_t \<Rightarrow> glob_t" where
  "glob_start flags g =
     (let g = (if has flags GLOB_APPEND then g
               else let g = g\<lparr>gl_pathc := 0, gl_pathv := None\<rparr>
                    in if has flags GLOB_DOOFFS then g else g\<lparr>gl_offs := 0\<rparr>)
      in g\<lparr>gl_flags := flags AND NOT 0x0100, gl_matchc := 0\<rparr>)"

definition copy_pattern :: "int \<Rightarrow> string \<Rightarrow> u16 list" where
  "copy_pattern flags pattern =
     (if has flags GLOB_QUOTE then protect MAXPATHLEN pattern else uchars (take MAXPATHLEN pattern))"

definition glob :: "env \<Rightarrow> string \<Rightarrow> int \<Rightarrow> glob_t \<Rightarrow> (int \<times> glob_t) option" where
  "glob en pattern flags g =
     (let g = glob_start flags g; patbuf = copy_pattern flags pattern
      in if has flags GLOB_BRACE then globexp1 en patbuf g else glob0 en patbuf g)"

section \<open>The result vector keeps its shape\<close>

text \<open>
  The invariant the comment at \<open>globextend\<close> states, in the form the code keeps it also when an
  allocation fails: the reserved slots are null, then come the paths, then a null.
\<close>

definition path_slots :: "nat \<Rightarrow> string list \<Rightarrow> slot list" where
  "path_slots offs ps = replicate offs Null @ map Path ps @ [Null]"

definition gl_holds :: "glob_t \<Rightarrow> string list \<Rightarrow> bool" where
  "gl_holds g ps \<longleftrightarrow> gl_pathc g = length ps \<and>
     (case gl_pathv g of
        None \<Rightarrow> ps = []
      | Some v \<Rightarrow> \<exists>spare. v = path_slots (gl_offs g) ps @ spare)"

lemma length_path_slots [simp]: "length (path_slots n ps) = n + length ps + 1"
  by (simp add: path_slots_def)

lemma resize_slots:
  "\<exists>spare. resize (2 + length ps + n) (path_slots n ps @ v) = path_slots n ps @ spare \<and> spare \<noteq> []"
proof -
  have "take (2 + length ps + n) (path_slots n ps @ v) = path_slots n ps @ take 1 v" by simp
  moreover have "take 1 v @ replicate (2 + length ps + n - length (path_slots n ps @ v)) Junk \<noteq> []"
    by (cases v) simp_all
  ultimately show ?thesis by (simp add: resize_def del: length_path_slots)
qed

lemma store_path:
  assumes "spare \<noteq> []"
  shows "\<exists>spare'. (path_slots n ps @ spare)[n + length ps := Path s, n + Suc (length ps) := Null]
    = path_slots n (ps @ [s]) @ spare'"
  using assms by (cases spare) (simp_all add: path_slots_def list_update_append)

lemma store_null: "(path_slots n ps @ spare)[n + length ps := Null] = path_slots n ps @ spare"
  by (simp add: path_slots_def list_update_append)

text \<open>The vector after the first allocation, reserved slots cleared.\<close>

lemma first_slots:
  "\<exists>spare. (replicate n Null @ drop n (resize (2 + n) []))[n := Path s, Suc n := Null] = path_slots n [s] @ spare"
  "\<exists>spare. (replicate n Null @ drop n (resize (2 + n) []))[n := Null] = path_slots n [] @ spare"
proof -
  have "drop n (resize (2 + n) []) = [Junk, Junk]"
    by (simp add: resize_def numeral_2_eq_2 del: replicate_Suc) simp
  then show "\<exists>spare. (replicate n Null @ drop n (resize (2 + n) []))[n := Path s, Suc n := Null] = path_slots n [s] @ spare"
    "\<exists>spare. (replicate n Null @ drop n (resize (2 + n) []))[n := Null] = path_slots n [] @ spare"
    by (simp_all add: path_slots_def list_update_append)
qed

text \<open>
  What a step does to the structure: it only appends paths, and the caller's fields stay.
\<close>

definition gl_step :: "glob_t \<Rightarrow> glob_t \<Rightarrow> bool" where
  "gl_step g g' \<longleftrightarrow> gl_flags g' = gl_flags g \<and> gl_offs g' = gl_offs g \<and>
     (\<forall>ps. gl_holds g ps \<longrightarrow> (\<exists>new. gl_holds g' (ps @ new)))"

lemma gl_step_refl [simp]: "gl_step g g"
  by (auto simp: gl_step_def intro: exI [of _ "[]"])

lemma gl_step_trans: "gl_step g g' \<Longrightarrow> gl_step g' g'' \<Longrightarrow> gl_step g g''"
  by (simp add: gl_step_def) (metis append_assoc)

lemma globextend_holds:
  assumes "gl_holds g ps"
  obtains g' where "globextend en path g = (0, g')" "gl_holds g' (ps @ [g_Ctoc path])" "gl_flags g' = gl_flags g"
      "gl_offs g' = gl_offs g" "gl_matchc g' = gl_matchc g" "en_mem en (gl_allocs g)"
    | g' where "globextend en path g = (GLOB_NOSPACE, g')" "gl_holds g' ps" "gl_flags g' = gl_flags g"
      "gl_offs g' = gl_offs g" "\<not> (en_mem en (gl_allocs g) \<and> en_mem en (Suc (gl_allocs g)))"
proof (cases "gl_pathv g")
  case None
  then have ps: "ps = []" "gl_pathc g = 0" using assms by (simp_all add: gl_holds_def)
  let ?v = "replicate (gl_offs g) Null @ drop (gl_offs g) (resize (2 + gl_pathc g + gl_offs g) [])"
  have "(if gl_offs g > 0 then ?v else resize (2 + gl_pathc g + gl_offs g) []) = ?v" by simp
  then have "globextend en path g = (if \<not> en_mem en (gl_allocs g) then (GLOB_NOSPACE, g\<lparr>gl_allocs := Suc (gl_allocs g)\<rparr>)
      else if en_mem en (Suc (gl_allocs g))
      then (0, g\<lparr>gl_allocs := Suc (Suc (gl_allocs g)), gl_pathc := 1, gl_pathv := Some (?v[gl_offs g := Path (g_Ctoc path), Suc (gl_offs g) := Null])\<rparr>)
      else (GLOB_NOSPACE, g\<lparr>gl_allocs := Suc (Suc (gl_allocs g)), gl_pathv := Some (?v[gl_offs g := Null])\<rparr>))"
    using None ps by (simp add: globextend_def allocate_def Let_def)
  moreover obtain w w' where "?v[gl_offs g := Path (g_Ctoc path), Suc (gl_offs g) := Null] = path_slots (gl_offs g) [g_Ctoc path] @ w"
    "?v[gl_offs g := Null] = path_slots (gl_offs g) [] @ w'"
    using first_slots [of "gl_offs g"] by (metis ps(2) add_0_right)
  ultimately show thesis
    using that None ps by (auto simp: gl_holds_def split: if_splits)
next
  case (Some v)
  then obtain spare where ps: "gl_pathc g = length ps" and v: "v = path_slots (gl_offs g) ps @ spare"
    using assms by (auto simp: gl_holds_def)
  let ?n = "gl_offs g"
  obtain w where w: "resize (2 + length ps + ?n) v = path_slots ?n ps @ w" "w \<noteq> []"
    using resize_slots v by blast
  obtain w' where "(path_slots ?n ps @ w)[?n + length ps := Path (g_Ctoc path), ?n + Suc (length ps) := Null]
      = path_slots ?n (ps @ [g_Ctoc path]) @ w'"
    using store_path [OF w(2)] by blast
  then have "globextend en path g = (if \<not> en_mem en (gl_allocs g) then (GLOB_NOSPACE, g\<lparr>gl_allocs := Suc (gl_allocs g)\<rparr>)
      else if en_mem en (Suc (gl_allocs g))
      then (0, g\<lparr>gl_allocs := Suc (Suc (gl_allocs g)), gl_pathc := Suc (length ps), gl_pathv := Some (path_slots ?n (ps @ [g_Ctoc path]) @ w')\<rparr>)
      else (GLOB_NOSPACE, g\<lparr>gl_allocs := Suc (Suc (gl_allocs g)), gl_pathv := Some (path_slots ?n ps @ w)\<rparr>))"
    using Some w store_null [of ?n ps w] by (simp add: globextend_def allocate_def Let_def ps)
  then show thesis
    using that Some ps v by (auto simp: gl_holds_def split: if_splits)
qed
text \<open>Every defined outcome of the traversal, errors included, is such a step.\<close>

lemma gl_holds_cong:
  "gl_pathc g' = gl_pathc g \<Longrightarrow> gl_offs g' = gl_offs g \<Longrightarrow> gl_pathv g' = gl_pathv g \<Longrightarrow> gl_holds g' ps = gl_holds g ps"
  by (simp add: gl_holds_def split: option.split)

lemma gl_step_fields:
  "gl_flags g' = gl_flags g \<Longrightarrow> gl_pathc g' = gl_pathc g \<Longrightarrow> gl_offs g' = gl_offs g \<Longrightarrow> gl_pathv g' = gl_pathv g \<Longrightarrow> gl_step g g'"
  using gl_holds_cong [of g' g] by (auto simp: gl_step_def intro: exI [of _ "[]"])

lemma globextend_step: "gl_step g (snd (globextend en path g))"
proof -
  have "gl_flags (snd (globextend en path g)) = gl_flags g \<and> gl_offs (snd (globextend en path g)) = gl_offs g"
    by (simp add: globextend_def allocate_def Let_def)
  moreover have "\<exists>new. gl_holds (snd (globextend en path g)) (ps @ new)" if "gl_holds g ps" for ps
    using globextend_holds [OF that, of en path] by (metis append_Nil2 snd_conv)
  ultimately show ?thesis by (simp add: gl_step_def)
qed

lemma glob2_end_step:
  assumes "glob2_end en path g = Some (rv, g')"
  shows "gl_step g g'"
proof -
  have "gl_step g (snd (globextend en p (g\<lparr>gl_matchc := n\<rparr>)))" for p n
    by (rule gl_step_trans [OF gl_step_fields globextend_step]) simp_all
  then show ?thesis
    using assms by (auto simp: glob2_end_def Let_def split: option.splits if_splits) (metis snd_conv)+
qed

lemma glob_walk_step:
  "glob2 en path pattern g = Some (rv, g') \<Longrightarrow> gl_step g g'"
  "glob3 en path pattern rest g = Some (rv, g') \<Longrightarrow> gl_step g g'"
  "glob3_loop en path pattern rest names g = Some (rv, g') \<Longrightarrow> gl_step g g'"
proof (induction en path pattern g and en path pattern rest g and en path pattern rest names g
    arbitrary: rv g' and rv g' and rv g' rule: glob2_glob3_glob3_loop.induct)
  case (1 en path pattern g)
  then show ?case
    using glob2_end_step by (simp add: glob2.simps [of en path pattern g] Let_def split: if_splits)
next
  case (2 en path pattern rest g)
  then show ?case
    by (auto simp: glob3.simps Let_def gl_step_fields split: sum.splits option.splits if_splits)
next
  case (3 en path pattern rest g)
  then show ?case by simp
next
  case (4 en path pattern rest name names g)
  then show ?case
    by (auto split: if_splits option.splits bool.splits) (metis gl_step_trans)+
qed

section \<open>Sorting\<close>

lemma compare_le: "compare s t \<le> 0 \<longleftrightarrow> s \<le> t"
  by (induction s t rule: compare.induct) (auto simp: less_eq_char_def less_char_def)

lemma insert_slot_paths: "insert_slot (Path s) (map Path ps) = map Path (insort s ps)"
  by (induction ps) (simp_all add: slot_le_def compare_le)

lemma qsort_paths: "qsort (map Path ps) = map Path (sort ps)"
  by (induction ps) (simp_all add: qsort_def insert_slot_paths)

lemma sort_new_holds:
  assumes "gl_holds g (ps @ new)"
  shows "gl_holds (sort_new (length ps) g) (ps @ sort new)"
proof (cases "gl_pathv g")
  case None
  then show ?thesis using assms by (simp add: sort_new_def gl_holds_def)
next
  case (Some v)
  then obtain spare where v: "v = path_slots (gl_offs g) (ps @ new) @ spare" "gl_pathc g = length (ps @ new)"
    using assms by (auto simp: gl_holds_def)
  have "v = (replicate (gl_offs g) Null @ map Path ps) @ map Path new @ Null # spare"
    by (simp add: v path_slots_def)
  then have "take (gl_offs g + length ps) v = replicate (gl_offs g) Null @ map Path ps"
    "take (gl_pathc g - length ps) (drop (gl_offs g + length ps) v) = map Path new"
    "drop (gl_offs g + gl_pathc g) v = Null # spare"
    by (simp_all add: v(2))
  then show ?thesis
    using v(2) by (simp add: sort_new_def Some gl_holds_def qsort_paths path_slots_def)
qed

lemma sort_new_fields [simp]:
  "gl_flags (sort_new n g) = gl_flags g" "gl_offs (sort_new n g) = gl_offs g" "gl_matchc (sort_new n g) = gl_matchc g"
  by (simp_all add: sort_new_def)
section \<open>Every outcome of glob\<close>

definition gl_grows :: "glob_t \<Rightarrow> glob_t \<Rightarrow> bool" where
  "gl_grows g g' \<longleftrightarrow> gl_offs g' = gl_offs g \<and> (\<forall>ps. gl_holds g ps \<longrightarrow> (\<exists>new. gl_holds g' (ps @ new)))"

lemma gl_grows_refl [simp]: "gl_grows g g"
  by (auto simp: gl_grows_def intro: exI [of _ "[]"])

lemma gl_grows_trans: "gl_grows g g' \<Longrightarrow> gl_grows g' g'' \<Longrightarrow> gl_grows g g''"
  by (simp add: gl_grows_def) (metis append_assoc)

lemma gl_step_grows: "gl_step g g' \<Longrightarrow> gl_grows g g'"
  by (simp add: gl_step_def gl_grows_def)

lemma gl_grows_flags: "gl_grows g (g\<lparr>gl_flags := f\<rparr>)"
  using gl_holds_cong [of "g\<lparr>gl_flags := f\<rparr>" g] by (auto simp: gl_grows_def intro: exI [of _ "[]"])

lemma glob1_step: "glob1 en p g = Some (rv, g') \<Longrightarrow> gl_step g g'"
  using glob_walk_step(1) by (auto simp: glob1_def split: if_splits)

lemma sort_new_grows:
  assumes "gl_grows g0 g" "gl_holds g0 ps"
  shows "\<exists>new. gl_holds (sort_new (gl_pathc g0) g) (ps @ new)"
proof -
  obtain new where "gl_holds g (ps @ new)" using assms by (auto simp: gl_grows_def)
  then have "gl_holds (sort_new (length ps) g) (ps @ sort new)" by (rule sort_new_holds)
  moreover have "gl_pathc g0 = length ps" using assms(2) by (simp add: gl_holds_def)
  ultimately show ?thesis by auto
qed

lemma glob0_grows:
  assumes "glob0 en pattern g = Some (rv, g')"
  shows "gl_grows g g'"
proof -
  obtain patbuf magic where "compile [] (globtilde en pattern g) = Some (patbuf, magic)"
    using assms by (auto simp: glob0_def Let_def split: option.splits)
  define g1 where "g1 = (if magic then g\<lparr>gl_flags := gl_flags g OR GLOB_MAGCHAR\<rparr> else g)"
  obtain err g2 where g2: "glob1 en patbuf g1 = Some (err, g2)"
    using assms \<open>compile _ _ = _\<close> by (auto simp: glob0_def Let_def g1_def split: option.splits)
  have grow: "gl_grows g g2"
  proof (rule gl_grows_trans)
    show "gl_grows g g1" by (simp add: g1_def gl_grows_flags)
    show "gl_grows g1 g2" by (rule gl_step_grows [OF glob1_step [OF g2]])
  qed
  have "g' = g2 \<or> g' = snd (globextend en pattern g2) \<or> g' = sort_new (gl_pathc g) g2"
    using assms \<open>compile _ _ = _\<close> g2 by (auto simp: glob0_def Let_def g1_def [symmetric] split: if_splits)
  moreover have "gl_grows g (snd (globextend en pattern g2))"
    by (rule gl_grows_trans [OF grow gl_step_grows [OF globextend_step]])
  moreover have "gl_grows g (sort_new (gl_pathc g) g2)"
    using sort_new_grows [OF grow] grow by (simp add: gl_grows_def)
  ultimately show ?thesis using grow by auto
qed

lemma globexp_grows:
  "globexp1 en pattern g = Some (rv, g') \<Longrightarrow> gl_grows g g'"
  "globexp2 en ptr pattern g = Some (rv, g') \<Longrightarrow> gl_grows g g'"
  "globexp_alts en ps g = Some (rv, g') \<Longrightarrow> gl_grows g g'"
proof (induction en pattern g and en ptr pattern g and en ps g
    arbitrary: rv g' and rv g' and rv g' rule: globexp1_globexp2_globexp_alts.induct)
  case (1 en pattern g)
  then show ?case
    using glob0_grows by (auto simp: globexp1.simps [of en pattern g] split: if_splits option.splits)
next
  case (2 en ptr pattern g)
  then show ?case
    by (auto simp: globexp2.simps [of en ptr pattern g] Let_def split: if_splits prod.splits)
next
  case (4 en p ps g)
  then show ?case by (auto split: option.splits intro: gl_grows_trans)
qed simp

lemma glob_start_holds:
  assumes "has flags GLOB_APPEND \<Longrightarrow> gl_holds g ps"
  shows "gl_holds (glob_start flags g) (if has flags GLOB_APPEND then ps else [])"
  using assms
  by (cases "has flags GLOB_APPEND") (auto simp: glob_start_def gl_holds_def Let_def split: option.splits)

theorem glob_keeps_vector:
  assumes "glob en pattern flags g = Some (rv, g')" "has flags GLOB_APPEND \<Longrightarrow> gl_holds g ps"
  shows "\<exists>new. gl_holds g' ((if has flags GLOB_APPEND then ps else []) @ new)"
proof -
  have "gl_grows (glob_start flags g) g'"
    using assms(1) glob0_grows globexp_grows(1) by (auto simp: glob_def Let_def split: if_splits)
  then show ?thesis using glob_start_holds [of flags g ps] assms(2) by (simp add: gl_grows_def)
qed
section \<open>What a pattern finds\<close>

text \<open>
  The reference: the paths a list of tokens stands for in a file system, segment by segment. A
  segment without operators is taken over, one with operators ranges over the directory; names
  that begin with a period need one in the pattern.
\<close>

definition is_lit :: "gtok \<Rightarrow> bool" where
  "is_lit t \<longleftrightarrow> (case t of GLit c \<Rightarrow> True | _ \<Rightarrow> False)"

definition lits :: "gtok list \<Rightarrow> string" where
  "lits ts = map (\<lambda>t. case t of GLit c \<Rightarrow> char_of (unat c) | _ \<Rightarrow> CHR 0x00) ts"

definition listing :: "fs \<Rightarrow> string \<Rightarrow> string list" where
  "listing d path = (case fs_opendir d (if path = [] then ''.'' else path) of Inl _ \<Rightarrow> [] | Inr names \<Rightarrow> names)"

definition visible :: "gtok list \<Rightarrow> string \<Rightarrow> bool" where
  "visible ts name \<longleftrightarrow> (take 1 name = ''.'' \<longrightarrow> take 1 ts = [GLit DOT])"

text \<open>A complete path, with the slash of \<open>GLOB_MARK\<close>.\<close>

definition found :: "fs \<Rightarrow> bool \<Rightarrow> string \<Rightarrow> string list" where
  "found d mark path =
     (case fs_lstat d path of
        None \<Rightarrow> []
      | Some mode \<Rightarrow>
          if mark \<and> last path \<noteq> CHR ''/'' \<and>
             (mode = Directory \<or> mode = Symlink \<and> fs_stat d path = Some Directory)
          then [path @ ''/''] else [path])"

abbreviation (input) "slash \<equiv> GLit SEP"

function expand :: "fs \<Rightarrow> bool \<Rightarrow> bool \<Rightarrow> string \<Rightarrow> gtok list \<Rightarrow> string list" where
  "expand d icase mark path ts =
     (if ts = [] then found d mark path
      else let seg = takeWhile (\<lambda>t. t \<noteq> slash) ts; rest = dropWhile (\<lambda>t. t \<noteq> slash) ts
           in if list_ex (\<lambda>t. \<not> is_lit t) seg
              then concat (map (\<lambda>name. expand d icase mark (path @ name) rest)
                     (filter (\<lambda>name. visible ts name \<and> gmatch icase seg (uchars name)) (listing d path)))
              else expand d icase mark (path @ lits seg @ lits (takeWhile (\<lambda>t. t = slash) rest))
                     (dropWhile (\<lambda>t. t = slash) rest))"
  by pat_completeness auto
termination
  by (relation "measure (\<lambda>(d, icase, mark, path, ts). length ts)") (auto simp: segment_shorter seps_shorter)

declare expand.simps [simp del]

text \<open>No set contains a slash, so that the segments of the compiled pattern are those of the tokens.\<close>

definition no_slash :: "gtok \<Rightarrow> bool" where
  "no_slash t \<longleftrightarrow> (case t of GSet neg rs \<Rightarrow> SEP \<notin> set (concat (map enc_item rs)) | _ \<Rightarrow> True)"

lemma no_meta_plain: "plain c \<Longrightarrow> \<not> ismeta c"
  by (simp add: plain_def ismeta_def and_8000_iff word_le_nat_alt)

lemma ismeta_ops [simp]: "ismeta M_ALL" "ismeta M_ONE" "ismeta M_SET"
  by (simp_all add: ismeta_def)

lemma enc_tok_slash:
  assumes "wf_tok t" "no_slash t"
  shows "SEP \<in> set (enc_tok t) \<longleftrightarrow> t = slash"
  using assms by (cases t) (auto simp: no_slash_def)

lemma takeWhile_enc:
  assumes "list_all wf_tok ts" "list_all no_slash ts"
  shows "takeWhile (\<lambda>c. c \<noteq> SEP) (enc ts) = enc (takeWhile (\<lambda>t. t \<noteq> slash) ts)"
    and "dropWhile (\<lambda>c. c \<noteq> SEP) (enc ts) = enc (dropWhile (\<lambda>t. t \<noteq> slash) ts)"
  using assms
proof (induction ts)
  case (Cons t ts)
  have *: "takeWhile (\<lambda>c. c \<noteq> SEP) (enc_tok t @ xs) = enc_tok t @ takeWhile (\<lambda>c. c \<noteq> SEP) xs"
    "dropWhile (\<lambda>c. c \<noteq> SEP) (enc_tok t @ xs) = dropWhile (\<lambda>c. c \<noteq> SEP) xs"
    if "SEP \<notin> set (enc_tok t)" for xs
    using that by (auto intro!: takeWhile_append2 dropWhile_append2)
  { case 1 then show ?case using Cons enc_tok_slash [of t] * by (cases "t = slash") auto }
  { case 2 then show ?case using Cons enc_tok_slash [of t] * by (cases "t = slash") auto }
qed simp_all

lemma takeWhile_slashes:
  assumes "list_all wf_tok ts"
  shows "takeWhile (\<lambda>c. c = SEP) (enc ts) = enc (takeWhile (\<lambda>t. t = slash) ts)"
    and "dropWhile (\<lambda>c. c = SEP) (enc ts) = enc (dropWhile (\<lambda>t. t = slash) ts)"
  using assms
proof (induction ts)
  case (Cons t ts)
  have "takeWhile (\<lambda>c. c = SEP) (enc_tok t @ xs) = [] \<and> dropWhile (\<lambda>c. c = SEP) (enc_tok t @ xs) = enc_tok t @ xs"
    if "t \<noteq> slash" for xs using that by (cases t) auto
  moreover
  { case 1 then show ?case using Cons calculation by (cases "t = slash") auto }
  { case 2 then show ?case using Cons calculation by (cases "t = slash") auto }
qed simp_all

lemma of_char_0_iff: "(of_char c :: nat) = 0 \<longleftrightarrow> c = CHR 0x00"
proof -
  have "(of_char (CHR 0x00) :: nat) = 0" by simp
  then show ?thesis using of_char_eq_iff [of c "CHR 0x00", where 'a = nat] by simp
qed

lemma g_Ctoc_uchars: "CHR 0x00 \<notin> set s \<Longrightarrow> g_Ctoc (uchars s) = s"
proof (induction s)
  case (Cons c s)
  have "unat ((of_char c :: u16) AND 0xff) = of_char c"
    using nat_of_char_less_256 [of c] by (simp add: unat_and_ff unat_of_char)
  moreover have "(of_char c :: nat) \<noteq> 0" using Cons.prems of_char_0_iff [of c] by auto
  ultimately have "(of_char c :: u16) AND 0xff \<noteq> 0" by (metis unsigned_0)
  then show ?case using Cons by (simp add: g_Ctoc_def uchars_def unat_of_char)
qed (simp add: g_Ctoc_def uchars_def)

lemma uchars_lits:
  assumes "list_all wf_tok ts" "\<not> list_ex (\<lambda>t. \<not> is_lit t) ts"
  shows "enc ts = uchars (lits ts)" "CHR 0x00 \<notin> set (lits ts)"
proof -
  have *: "(of_char (char_of (unat c) :: char) :: u16) = c \<and> char_of (unat c) \<noteq> CHR 0x00" if "plain c" "c \<noteq> 0" for c
  proof -
    have "unat c < 256" using that by (simp add: plain_def word_le_nat_alt)
    then have "unat (of_char (char_of (unat c) :: char) :: u16) = unat c" by (simp add: unat_of_char)
    moreover have "(of_char (char_of (unat c) :: char) :: nat) \<noteq> 0" using that \<open>unat c < 256\<close> by (simp add: unat_eq_0)
    ultimately show ?thesis by (auto simp: word_unat_eq_iff)
  qed
  show "enc ts = uchars (lits ts)" "CHR 0x00 \<notin> set (lits ts)"
    using assms by (induction ts) (auto simp: is_lit_def wf_tok_def uchars_def lits_def split: gtok.splits dest!: *)
qed

lemma uchars_append [simp]: "uchars (s @ t) = uchars s @ uchars t"
  by (simp add: uchars_def)
text \<open>Surroundings in which nothing goes wrong: memory, no aborting error function, sane entries.\<close>

definition quiet :: "env \<Rightarrow> int \<Rightarrow> bool" where
  "quiet en flags \<longleftrightarrow> (\<forall>n. en_mem en n)
     \<and> (case en_errfunc en of None \<Rightarrow> True | Some f \<Rightarrow> \<not> has flags GLOB_ERR \<and> (\<forall>p e. \<not> f p e))
     \<and> \<not> (has flags GLOB_ALTDIRFUNC \<and> en_big en)"

definition clean :: "fs \<Rightarrow> bool" where
  "clean d \<longleftrightarrow> (\<forall>p names. fs_opendir d p = Inr names \<longrightarrow> (\<forall>n \<in> set names. n \<noteq> [] \<and> CHR 0x00 \<notin> set n))"

text \<open>The step adds exactly these paths.\<close>

definition yields :: "glob_t \<Rightarrow> string list \<Rightarrow> (int \<times> glob_t) option \<Rightarrow> bool" where
  "yields g R r \<longleftrightarrow> (\<exists>g'. r = Some (0, g') \<and> gl_flags g' = gl_flags g \<and> gl_offs g' = gl_offs g
     \<and> gl_matchc g' = gl_matchc g + length R \<and> (\<forall>ps. gl_holds g ps \<longrightarrow> gl_holds g' (ps @ R)))"

lemma yields_nothing [simp]: "yields g [] (Some (0, g))"
  by (simp add: yields_def)

lemma yields_trans:
  assumes "yields g R (Some (rv, g'))" "yields g' S r"
  shows "yields g (R @ S) r"
  using assms by (auto simp: yields_def) (metis append.assoc)

lemma globextend_yields:
  assumes "\<forall>n. en_mem en n" "CHR 0x00 \<notin> set path"
  shows "yields g [path] (Some (globextend en (uchars path) (g\<lparr>gl_matchc := Suc (gl_matchc g)\<rparr>)))"
proof -
  define g1 where "g1 = g\<lparr>gl_matchc := Suc (gl_matchc g)\<rparr>"
  have "globextend en (uchars path) g1 = (0, snd (globextend en (uchars path) g1))"
    "gl_matchc (snd (globextend en (uchars path) g1)) = gl_matchc g1"
    using assms(1) by (simp_all add: globextend_def allocate_def Let_def)
  moreover have "gl_holds (snd (globextend en (uchars path) g1)) (ps @ [path])" if "gl_holds g ps" for ps
  proof -
    have "gl_holds g1 ps" using that gl_holds_cong [of g1 g] by (simp add: g1_def)
    then show ?thesis
      using assms by (cases rule: globextend_holds [of g1 ps en "uchars path"]) (simp_all add: g_Ctoc_uchars)
  qed
  ultimately show ?thesis
    using globextend_step [of g1 en "uchars path"] unfolding yields_def g1_def [symmetric]
    by (intro exI [of _ "snd (globextend en (uchars path) g1)"]) (simp add: gl_step_def g1_def)
qed

lemma last_uchars: "path \<noteq> [] \<Longrightarrow> last (uchars path) = SEP \<longleftrightarrow> last path = CHR ''/''"
proof -
  assume "path \<noteq> []"
  then have "last (uchars path) = of_char (last path)" by (simp add: uchars_def last_map)
  moreover have "(of_char c :: u16) = SEP \<longleftrightarrow> c = CHR ''/''" for c
  proof
    assume "(of_char c :: u16) = SEP"
    then have "(of_char c :: nat) = of_char (CHR ''/'')" by (simp flip: unat_of_char)
    then show "c = CHR ''/''" by (simp only: of_char_eq_iff)
  qed simp
  ultimately show ?thesis by simp
qed

lemma glob2_end_yields:
  assumes "quiet en (gl_flags g)" "CHR 0x00 \<notin> set path" "path \<noteq> []"
  shows "yields g (found (dir_funcs en g) (has (gl_flags g) GLOB_MARK) path) (glob2_end en (uchars path) g)"
proof -
  let ?d = "dir_funcs en g" and ?mark = "has (gl_flags g) GLOB_MARK"
  have mem: "\<forall>n. en_mem en n" and st: "g_lstat en (uchars path) g = Some (fs_lstat ?d path)"
    "g_stat en (uchars path) g = Some (fs_stat ?d path)"
    using assms by (auto simp: quiet_def g_lstat_def g_stat_def g_Ctoc_uchars Let_def)
  show ?thesis
  proof (cases "fs_lstat ?d path")
    case None
    then show ?thesis by (simp add: glob2_end_def found_def st)
  next
    case (Some mode)
    let ?dir = "?mark \<and> last path \<noteq> CHR ''/'' \<and> (mode = Directory \<or> mode = Symlink \<and> fs_stat ?d path = Some Directory)"
    have "glob2_end en (uchars path) g = Some (globextend en (uchars (if ?dir then path @ ''/'' else path))
        (g\<lparr>gl_matchc := Suc (gl_matchc g)\<rparr>))"
      using Some st last_uchars [OF assms(3)] by (auto simp: glob2_end_def Let_def uchars_def)
    moreover have "found ?d ?mark path = [if ?dir then path @ ''/'' else path]"
      using Some by (simp add: found_def)
    ultimately show ?thesis using globextend_yields [OF mem, of "if ?dir then path @ ''/'' else path" g] assms(2)
      by (simp split: if_splits)
  qed
qed
lemma yields_fields: "yields g R (Some (0, g')) \<Longrightarrow> gl_flags g' = gl_flags g"
  by (simp add: yields_def)

text \<open>The loop over a directory, given what the recursive calls yield.\<close>

lemma glob3_loop_yields:
  assumes call: "\<And>name g'. name \<in> set names \<Longrightarrow> gl_flags g' = gl_flags g \<Longrightarrow> visible ts name \<Longrightarrow> gmatch (en_icase en) seg (uchars name)
      \<Longrightarrow> yields g' (R name) (glob2 en (path @ uchars name) rest g')"
    and hid: "\<And>name. take 1 name = ''.'' \<and> rdw pattern \<noteq> DOT \<longleftrightarrow> \<not> visible ts name"
    and mtch: "\<And>name. match (en_icase en) name pattern (int (length pattern) - int (length rest)) = Some (gmatch (en_icase en) seg name)"
  shows "yields g (concat (map R (filter (\<lambda>n. visible ts n \<and> gmatch (en_icase en) seg (uchars n)) names)))
           (glob3_loop en path pattern rest names g)"
  using call
proof (induction names arbitrary: g)
  case Nil
  then show ?case by simp
next
  case (Cons name names)
  show ?case
  proof (cases "visible ts name \<and> gmatch (en_icase en) seg (uchars name)")
    case True
    then have "yields g (R name) (glob2 en (path @ uchars name) rest g)" using Cons.prems by simp
    then obtain g' where g': "glob2 en (path @ uchars name) rest g = Some (0, g')" "yields g (R name) (Some (0, g'))"
      by (auto simp: yields_def)
    have "yields g' (concat (map R (filter (\<lambda>n. visible ts n \<and> gmatch (en_icase en) seg (uchars n)) names)))
        (glob3_loop en path pattern rest names g')"
      using Cons.prems yields_fields [OF g'(2)] by (intro Cons.IH) simp
    from yields_trans [OF g'(2) this] show ?thesis using True g'(1) hid [of name] mtch by auto
  next
    case False
    then have "glob3_loop en path pattern rest (name # names) g = glob3_loop en path pattern rest names g"
      using hid [of name] mtch by auto
    moreover have "yields g (concat (map R (filter (\<lambda>n. visible ts n \<and> gmatch (en_icase en) seg (uchars n)) names)))
        (glob3_loop en path pattern rest names g)"
      using Cons.prems by (intro Cons.IH) simp
    moreover have "filter (\<lambda>n. visible ts n \<and> gmatch (en_icase en) seg (uchars n)) (name # names)
        = filter (\<lambda>n. visible ts n \<and> gmatch (en_icase en) seg (uchars n)) names"
      using False by auto
    ultimately show ?thesis by (simp only:)
  qed
qed

lemma g_opendir_listing:
  assumes "CHR 0x00 \<notin> set path"
  shows "g_opendir en (uchars path) g = fs_opendir (dir_funcs en g) (if path = [] then ''.'' else path)"
  using assms by (simp add: g_opendir_def g_Ctoc_uchars) (simp add: uchars_def)

lemma rdw_enc: "wf_tok t \<Longrightarrow> rdw (enc (t # ts)) = DOT \<longleftrightarrow> t = GLit DOT"
  by (cases t) auto

lemma meta_enc: "list_all wf_tok ts \<Longrightarrow> list_ex ismeta (enc ts) \<longleftrightarrow> list_ex (\<lambda>t. \<not> is_lit t) ts"
proof (induction ts)
  case (Cons t ts)
  moreover have "list_ex ismeta (enc_tok t) \<longleftrightarrow> \<not> is_lit t" if "wf_tok t"
    using that by (cases t) (auto simp: is_lit_def wf_tok_def no_meta_plain)
  ultimately show ?case by simp
qed simp

lemma lits_append [simp]: "lits (ts @ us) = lits ts @ lits us"
  by (simp add: lits_def)

lemma lits_Nil_iff [simp]: "lits ts = [] \<longleftrightarrow> ts = []"
  by (simp add: lits_def)

lemma glob2_expand:
  assumes "list_all wf_tok ts" "list_all no_slash ts" "CHR 0x00 \<notin> set path" "path \<noteq> [] \<or> ts \<noteq> []"
    and "quiet en (gl_flags g)" "clean (dir_funcs en g)"
  shows "yields g (expand (dir_funcs en g) (en_icase en) (has (gl_flags g) GLOB_MARK) path ts)
           (glob2 en (uchars path) (enc ts) g)"
  using assms
proof (induction ts arbitrary: path g rule: length_induct)
  case (1 ts)
  note IH = 1(1) [rule_format] and ts = 1(2,3) and path = 1(4,5) and env = 1(6,7)
  let ?d = "dir_funcs en g" and ?mark = "has (gl_flags g) GLOB_MARK" and ?ic = "en_icase en"
  show ?case
  proof (cases "ts = []")
    case True
    then show ?thesis
      using glob2_end_yields [OF env(1) path(1)] path(2) by (simp add: expand.simps glob2.simps)
  next
    case False
    define seg where "seg = takeWhile (\<lambda>t. t \<noteq> slash) ts"
    define rest where "rest = dropWhile (\<lambda>t. t \<noteq> slash) ts"
    have seg_rest: "ts = seg @ rest" by (simp add: seg_def rest_def)
    have wf: "list_all wf_tok seg" "list_all wf_tok rest" "list_all no_slash rest"
      using ts by (simp_all add: seg_rest)
    have parts: "takeWhile (\<lambda>c. c \<noteq> SEP) (enc ts) = enc seg" "dropWhile (\<lambda>c. c \<noteq> SEP) (enc ts) = enc rest"
      using takeWhile_enc [OF ts] by (simp_all add: seg_def rest_def)
    have meta: "list_ex ismeta (enc seg) = list_ex (\<lambda>t. \<not> is_lit t) seg"
      by (rule meta_enc [OF wf(1)])
    show ?thesis
    proof (cases "list_ex (\<lambda>t. \<not> is_lit t) seg")
      case True
      then have less: "length rest < length ts" using segment_shorter [of _ "\<lambda>t. t \<noteq> slash" ts] by (simp add: seg_def rest_def)
      have same: "dir_funcs en g' = ?d" if "gl_flags g' = gl_flags g" for g' :: glob_t
        using that by (simp add: dir_funcs_def)
      have "glob2 en (uchars path) (enc ts) g = glob3 en (uchars path) (enc ts) (enc rest) g"
        using False True by (simp add: glob2.simps Let_def parts meta)
      also have "yields g (concat (map (\<lambda>n. expand ?d ?ic ?mark (path @ n) rest)
          (filter (\<lambda>n. visible ts n \<and> gmatch ?ic seg (uchars n)) (listing ?d path)))) \<dots>"
      proof (cases "fs_opendir ?d (if path = [] then ''.'' else path)")
        case (Inl errno)
        then show ?thesis
          using env(1) g_opendir_listing [OF path(1), of en g]
          by (auto simp: glob3.simps listing_def quiet_def yields_def gl_holds_def Let_def split: option.splits)
      next
        case (Inr names)
        obtain t ts' where t: "ts = t # ts'" using False by (cases ts) auto
        have "rdw (enc ts) = DOT \<longleftrightarrow> take 1 ts = [GLit DOT]" using ts(1) rdw_enc by (simp add: t)
        then have "yields g (concat (map (\<lambda>n. expand ?d ?ic ?mark (path @ n) rest)
          (filter (\<lambda>n. visible ts n \<and> gmatch ?ic seg (uchars n)) names))) (glob3_loop en (uchars path) (enc ts) (enc rest) names g)"
        proof (intro glob3_loop_yields)
          fix name and g' :: glob_t assume n: "name \<in> set names" and "gl_flags g' = gl_flags g"
          have "name \<noteq> []" "CHR 0x00 \<notin> set name" using env(2) Inr n by (auto simp: clean_def)
          then show "yields g' (expand ?d ?ic ?mark (path @ name) rest) (glob2 en (uchars path @ uchars name) (enc rest) g')"
            using IH [OF less wf(2,3), of "path @ name" g'] path(1) env same [of g'] \<open>gl_flags g' = gl_flags g\<close> by simp
        next
          show "match ?ic name (enc ts) (int (length (enc ts)) - int (length (enc rest))) = Some (gmatch ?ic seg name)" for name
            using match_tokens [OF wf(1), of ?ic name "enc rest"] by (simp add: seg_rest)
        qed (auto simp: visible_def)
        then show ?thesis
          using Inr g_opendir_listing [OF path(1), of en g] by (simp add: glob3.simps listing_def)
      qed
      finally show ?thesis using False True by (simp add: expand.simps [of _ _ _ path ts] Let_def seg_def rest_def)
    next
      case lit: False
      define sl where "sl = takeWhile (\<lambda>t. t = slash) rest"
      define ts' where "ts' = dropWhile (\<lambda>t. t = slash) rest"
      have rest: "rest = sl @ ts'" by (simp add: sl_def ts'_def)
      have "\<not> list_ex (\<lambda>t. \<not> is_lit t) sl"
        by (auto simp: sl_def list_ex_iff is_lit_def dest: set_takeWhileD)
      moreover have "list_all wf_tok sl" using wf(2) by (simp add: rest)
      ultimately have enc: "enc seg = uchars (lits seg)" "CHR 0x00 \<notin> set (lits seg)"
        "enc sl = uchars (lits sl)" "CHR 0x00 \<notin> set (lits sl)"
        using uchars_lits [OF wf(1) lit] uchars_lits [of sl] by simp_all
      have "length ts' < length ts"
        using seps_shorter [OF False, of slash] by (simp add: ts'_def rest_def)
      then have "yields g (expand ?d ?ic ?mark (path @ lits seg @ lits sl) ts') (glob2 en (uchars (path @ lits seg @ lits sl)) (enc ts') g)"
        using wf(2,3) path(1) enc(2,4) env False seg_rest rest by (intro IH) auto
      moreover have "glob2 en (uchars path) (enc ts) g = glob2 en (uchars (path @ lits seg @ lits sl)) (enc ts') g"
        using False lit takeWhile_slashes [OF wf(2)] enc meta
        by (subst glob2.simps) (simp add: Let_def parts sl_def ts'_def)
      moreover have "expand ?d ?ic ?mark path ts = expand ?d ?ic ?mark (path @ lits seg @ lits sl) ts'"
        using False lit by (subst expand.simps) (simp add: Let_def seg_def rest_def sl_def ts'_def)
      ultimately show ?thesis by simp
    qed
  qed
qed
section \<open>Collapsed stars, and the whole of glob\<close>

fun squash :: "gtok list \<Rightarrow> gtok list" where
  "squash (GAny # GAny # ts) = squash (GAny # ts)"
| "squash (t # ts) = t # squash ts"
| "squash [] = []"

lemma squash_any: "squash (GAny # ts) = GAny # tl (squash (GAny # ts))"
proof (induction ts)
  case (Cons t ts)
  then show ?case by (cases t) simp_all
qed simp

lemma foldl_push: "foldl push_tok us ts = (if us \<noteq> [] \<and> last us = GAny then us @ tl (squash (GAny # ts)) else us @ squash ts)"
proof (induction ts arbitrary: us)
  case (Cons t ts)
  then show ?case
    using squash_any [of ts] by (cases t) (auto simp: push_tok_def)
qed simp

lemma squash_all: "list_all P ts \<Longrightarrow> list_all P (squash ts)"
  by (induction ts rule: squash.induct) simp_all

lemma squash_ex: "list_ex P (squash ts) = list_ex P ts"
  by (induction ts rule: squash.induct) auto

lemma squash_Nil_iff [simp]: "squash ts = [] \<longleftrightarrow> ts = []"
  by (induction ts rule: squash.induct) simp_all

lemma squash_take1: "take 1 (squash ts) = take 1 ts"
  by (induction ts rule: squash.induct) simp_all

lemma squash_while:
  "takeWhile (\<lambda>t. t \<noteq> slash) (squash ts) = squash (takeWhile (\<lambda>t. t \<noteq> slash) ts)"
  "dropWhile (\<lambda>t. t \<noteq> slash) (squash ts) = squash (dropWhile (\<lambda>t. t \<noteq> slash) ts)"
  by (induction ts rule: squash.induct) (simp_all split: if_splits)

lemma squash_slashes:
  "takeWhile (\<lambda>t. t = slash) (squash ts) = takeWhile (\<lambda>t. t = slash) ts"
  "dropWhile (\<lambda>t. t = slash) (squash ts) = squash (dropWhile (\<lambda>t. t = slash) ts)"
  by (induction ts rule: squash.induct) (simp_all split: if_splits)

lemma squash_lits: "\<not> list_ex (\<lambda>t. \<not> is_lit t) ts \<Longrightarrow> squash ts = ts"
  by (induction ts rule: squash.induct) (auto simp: is_lit_def)

lemma squash_match: "gmatch icase (squash ts) s = gmatch icase ts s"
  using collapse_match [of icase "[]" ts s] by (simp add: foldl_push)

lemma expand_squash: "expand d icase mark path (squash ts) = expand d icase mark path ts"
proof (induction ts arbitrary: path rule: length_induct)
  case (1 ts)
  show ?case
  proof (cases "ts = []")
    case False
    let ?seg = "takeWhile (\<lambda>t. t \<noteq> slash) ts" and ?rest = "dropWhile (\<lambda>t. t \<noteq> slash) ts"
    show ?thesis
    proof (cases "list_ex (\<lambda>t. \<not> is_lit t) ?seg")
      case True
      then have "expand d icase mark p (squash ?rest) = expand d icase mark p ?rest" for p
        using 1 segment_shorter by blast
      then show ?thesis
        using False True
        by (subst (1 2) expand.simps)
          (simp add: Let_def squash_while squash_ex squash_match visible_def squash_take1 [unfolded One_nat_def])
    next
      case lit: False
      have "expand d icase mark p (squash (dropWhile (\<lambda>t. t = slash) ?rest)) = expand d icase mark p (dropWhile (\<lambda>t. t = slash) ?rest)" for p
        using 1 seps_shorter [OF False] by blast
      then show ?thesis
        using False lit squash_lits [OF lit]
        by (subst (1 2) expand.simps) (simp add: Let_def squash_while squash_slashes)
    qed
  qed simp
qed

text \<open>What \<open>glob0\<close> does to the new paths at the end.\<close>

definition matches :: "env \<Rightarrow> glob_t \<Rightarrow> gtok list \<Rightarrow> string list" where
  "matches en g ts = (if ts = [] then [] else expand (dir_funcs en g) (en_icase en) (has (gl_flags g) GLOB_MARK) [] ts)"

definition reported :: "int \<Rightarrow> gtok list \<Rightarrow> string \<Rightarrow> string list \<Rightarrow> string list" where
  "reported flags ts pattern R =
     (if R = [] \<and> (has flags GLOB_NOCHECK \<or> has flags GLOB_NOMAGIC \<and> list_all is_lit ts)
      then [pattern]
      else if has flags GLOB_NOSORT then R else sort R)"

lemma glob0_reports:
  assumes "gl_holds g ps" "quiet en (gl_flags g)" "clean (dir_funcs en g)"
    and "\<not> has (gl_flags g) GLOB_TILDE" "\<not> has (gl_flags g) GLOB_MAGCHAR"
    and "\<forall>c \<in> set q. CHAR_c c \<noteq> 0" "list_all no_slash (gtoks q)"
  shows "\<exists>g'. glob0 en q g = Some (0, g')
    \<and> gl_holds g' (ps @ reported (gl_flags g) (gtoks q) (g_Ctoc q) (matches en g (gtoks q)))
    \<and> gl_matchc g' = gl_matchc g + length (matches en g (gtoks q))"
proof -
  let ?ts = "gtoks q" and ?F = "gl_flags g"
  define magic where "magic = (\<exists>t \<in> set ?ts. \<forall>c. t \<noteq> GLit c)"
  have magic_iff: "magic \<longleftrightarrow> \<not> list_all is_lit ?ts"
    by (auto simp: magic_def list_all_iff is_lit_def split: gtok.splits)
  define g1 where "g1 = (if magic then g\<lparr>gl_flags := ?F OR GLOB_MAGCHAR\<rparr> else g)"
  have comp: "compile [] (globtilde en q g) = Some (enc (squash ?ts), magic)"
    using compile_tokens [of "[]" q] assms(4) by (simp add: globtilde_def foldl_push magic_def)
  have flag: "has (gl_flags g1) b = has ?F b" if "b AND 0x0100 = 0" for b
    using that by (simp add: g1_def has_def bit.conj_disj_distrib bit.conj_disj_distrib2 and.commute)
  have magchar: "has (gl_flags g1) GLOB_MAGCHAR = magic"
    using assms(5) by (simp add: g1_def has_def bit.conj_disj_distrib2)
  have g1: "gl_holds g1 ps" "quiet en (gl_flags g1)" "dir_funcs en g1 = dir_funcs en g" "gl_matchc g1 = gl_matchc g"
    "gl_offs g1 = gl_offs g"
  proof -
    show "gl_holds g1 ps" using assms(1) gl_holds_cong [of g1 g] by (simp add: g1_def split: if_splits)
    show "quiet en (gl_flags g1)" using assms(2) by (simp add: quiet_def flag split: option.splits)
    show "dir_funcs en g1 = dir_funcs en g" by (simp add: dir_funcs_def flag)
  qed (simp_all add: g1_def)
  have wf: "list_all wf_tok (squash ?ts)" "list_all no_slash (squash ?ts)"
    using wf_gtoks [OF assms(6)] assms(7) by (simp_all add: squash_all)
  have "yields g1 (matches en g ?ts) (glob1 en (enc (squash ?ts)) g1)"
    using glob2_expand [OF wf, of "[]" en g1] g1 assms(3)
    by (cases "?ts = []") (simp_all add: glob1_def matches_def expand_squash flag uchars_def)
  then obtain g2 where g2: "glob1 en (enc (squash ?ts)) g1 = Some (0, g2)" "gl_flags g2 = gl_flags g1"
      "gl_matchc g2 = gl_matchc g + length (matches en g ?ts)" "gl_holds g2 (ps @ matches en g ?ts)"
    using g1 by (auto simp: yields_def)
  have pathc: "gl_pathc g = length ps" "gl_pathc g2 = length ps + length (matches en g ?ts)"
    using assms(1) g2(4) by (simp_all add: gl_holds_def)
  let ?add = "matches en g ?ts = [] \<and> (has ?F GLOB_NOCHECK \<or> has ?F GLOB_NOMAGIC \<and> \<not> magic)"
  have "glob0 en q g = (if ?add then Some (globextend en q g2)
      else if \<not> has ?F GLOB_NOSORT then Some (0, sort_new (length ps) g2) else Some (0, g2))"
    using g2(1,2) flag magchar pathc by (auto simp: glob0_def Let_def comp g1_def [symmetric])
  moreover have "\<exists>g3. globextend en q g2 = (0, g3) \<and> gl_holds g3 ((ps @ matches en g ?ts) @ [g_Ctoc q]) \<and> gl_matchc g3 = gl_matchc g2"
    using globextend_holds [OF g2(4), of en q] assms(2) by (auto simp: quiet_def)
  ultimately show ?thesis
    using g2 sort_new_holds [OF g2(4)]
    by (auto simp: reported_def magic_iff)
qed
section \<open>Brace expansion\<close>

text \<open>Running \<open>glob0\<close> on one pattern after the other, whatever it returns.\<close>

fun glob_each :: "env \<Rightarrow> u16 list list \<Rightarrow> glob_t \<Rightarrow> glob_t option" where
  "glob_each en [] g = Some g"
| "glob_each en (p # ps) g =
     (case glob0 en p g of None \<Rightarrow> None | Some (rv, g) \<Rightarrow> glob_each en ps g)"

lemma glob_each_append:
  "glob_each en (ps @ qs) g = (case glob_each en ps g of None \<Rightarrow> None | Some g \<Rightarrow> glob_each en qs g)"
  by (induction ps arbitrary: g) (simp_all split: option.splits prod.splits)

fun is_char :: "bx \<Rightarrow> bool" where
  "is_char (Ch c) \<longleftrightarrow> True"
| "is_char (Br as) \<longleftrightarrow> False"

lemma no_brace:
  "wf_bx inner ts \<Longrightarrow> list_all is_char ts \<Longrightarrow> LBRACE \<notin> set (btext ts) \<and> blang ts = [btext ts]"
  by (induction inner ts rule: wf_bx.induct) auto

lemma btext_append [simp]: "btext (ts @ us) = btext ts @ btext us"
proof (induction ts)
  case (Cons t ts)
  then show ?case by (cases t) simp_all
qed simp

lemma wf_append: "wf_bx inner (ts @ us) \<longleftrightarrow> wf_bx inner ts \<and> wf_bx inner us"
proof (induction ts)
  case (Cons t ts)
  then show ?case by (cases t) auto
qed simp

lemma wf_outer: "wf_bx True ts \<Longrightarrow> wf_bx inner ts"
proof (induction ts)
  case (Cons t ts)
  then show ?case by (cases t) auto
qed simp

lemma first_brace:
  assumes "\<not> list_all is_char ts"
  obtains pre as us where "ts = pre @ Br as # us" "list_all is_char pre"
proof -
  have "\<exists>t \<in> set ts. \<not> is_char t" using assms by (simp add: list_all_iff)
  then obtain pre t us where "ts = pre @ t # us" "\<not> is_char t" "\<forall>t \<in> set pre. is_char t"
    using split_list_first_prop [of ts "\<lambda>t. \<not> is_char t"] by auto
  then show thesis using that by (cases t) (auto simp: list_all_iff)
qed

lemma join_length: "x \<in> set xs \<Longrightarrow> length x \<le> length (join xs)"
  by (induction xs rule: join.induct) auto

lemma join_Nil_iff: "join as = [] \<longleftrightarrow> as \<in> {[], [[]]}"
  by (cases as rule: join.cases) auto

lemma btext_Nil_iff: "btext ts = [] \<longleftrightarrow> ts = []"
  by (cases ts rule: btext.cases) auto

lemma globexp1_brace:
  assumes pre: "list_all is_char pre" and wf: "wf_bx False (pre @ Br as # us)"
  shows "globexp1 en (btext (pre @ Br as # us)) g = globexp_alts en (map (\<lambda>a. btext (pre @ a @ us)) as) g"
proof -
  let ?s = "btext (pre @ Br as # us)" and ?n = "length (btext pre)"
  let ?J = "join (map btext as)"
  have s: "?s = btext pre @ LBRACE # ?J @ RBRACE # btext us" by simp
  have as: "list_all (wf_bx True) as" "as \<noteq> []" "as \<noteq> [[]]" and wpre: "wf_bx False pre"
    using wf by (auto simp: wf_append)
  have "?J \<noteq> []" using as by (cases as) (auto simp: join_Nil_iff btext_Nil_iff)
  then obtain x J where "?J = x # J" by (cases ?J) auto
  then have "?s \<noteq> [LBRACE, RBRACE]" unfolding s by (cases "btext pre") auto
  moreover have "g_strchr ?s LBRACE = Some (LBRACE # ?J @ RBRACE # btext us)"
  proof -
    have "dropWhile (\<lambda>d. d \<noteq> LBRACE) (btext pre @ xs) = dropWhile (\<lambda>d. d \<noteq> LBRACE) xs" for xs
      using no_brace [OF wpre pre] by (intro dropWhile_append2) auto
    then show ?thesis unfolding s by (simp add: g_strchr_def)
  qed
  ultimately have 1: "globexp1 en ?s g = globexp2 en ?n ?s g"
    by (simp add: globexp1.simps)
  have "find_brace ?s 0 (Suc ?n) = find_brace ?s 0 (length ((btext pre @ [LBRACE]) @ ?J))"
    using find_brace_nested [OF nested_alts [OF as(1)], of "btext pre @ [LBRACE]" "RBRACE # btext us" 0] by (simp add: s)
  also have "\<dots> = (0, length ((btext pre @ [LBRACE]) @ ?J))"
    using find_brace_found [of "(btext pre @ [LBRACE]) @ ?J" "btext us"] by (simp add: s)
  finally have find: "find_brace ?s 0 (Suc ?n) = (0, Suc ?n + length ?J)" by simp
  have "list_all alternative (map btext as)" using as(1) alternative_btext by (auto simp: list_all_iff)
  then have "brace_alts (btext pre) ?s (Suc ?n + length ?J) 0 (Suc ?n) (Suc ?n)
      = map (\<lambda>a. btext pre @ a @ btext us) (map btext as)"
    using brace_alts_join [of "map btext as" "Suc ?n + length ?J" "btext pre @ [LBRACE]" "btext pre" "btext us"] as(2)
    by (simp add: s)
  then show ?thesis using 1 find by (simp add: globexp2.simps comp_def)
qed

lemma globexp1_plain:
  assumes "list_all is_char ts" "wf_bx False ts"
  shows "globexp1 en (btext ts) g = glob0 en (btext ts) g"
proof -
  have "g_strchr (btext ts) LBRACE = None" using no_brace [OF assms(2,1)] by simp
  then show ?thesis by (simp add: globexp1.simps del: g_strchr_None)
qed

lemma globexp_alts_zero: "globexp_alts en ps g = Some (rv, g') \<Longrightarrow> rv = 0"
  by (induction ps arbitrary: g) (auto split: option.splits)

lemma globexp_alts_each:
  assumes "\<And>a g. a \<in> set as \<Longrightarrow> map_option snd (globexp1 en (h a) g) = glob_each en (f a) g"
  shows "map_option snd (globexp_alts en (map h as) g) = glob_each en (concat (map f as)) g"
  using assms
proof (induction as arbitrary: g)
  case (Cons a as)
  have "map_option snd (globexp1 en (h a) g) = glob_each en (f a) g" using Cons.prems by simp
  moreover have "map_option snd (globexp_alts en (map h as) g) = glob_each en (concat (map f as)) g" for g
    using Cons by simp
  ultimately show ?case by (cases "globexp1 en (h a) g") (auto simp: glob_each_append dest: sym)
qed simp

theorem globexp1_expands:
  assumes "wf_bx False ts"
  shows "map_option snd (globexp1 en (btext ts) g) = glob_each en (blang ts) g"
  using assms
proof (induction "length (btext ts)" arbitrary: ts g rule: less_induct)
  case less
  show ?case
  proof (cases "list_all is_char ts")
    case True
    have "map_option snd (glob0 en p g) = glob_each en [p] g" for p
      by (simp split: option.split)
    then show ?thesis using globexp1_plain [OF True less.prems] no_brace [OF less.prems True] by (simp del: glob_each.simps)
  next
    case False
    then obtain pre as us where ts: "ts = pre @ Br as # us" and pre: "list_all is_char pre" by (rule first_brace)
    have wf: "wf_bx False (pre @ a @ us)" if "a \<in> set as" for a
      using less.prems that wf_outer by (auto simp: ts wf_append list_all_iff)
    have "map_option snd (globexp1 en (btext (pre @ a @ us)) g) = glob_each en (blang (pre @ a @ us)) g"
      if "a \<in> set as" for a g
    proof (rule less.hyps [OF _ wf [OF that]])
      have "length (btext a) \<le> length (join (map btext as))" using that by (intro join_length) auto
      then show "length (btext (pre @ a @ us)) < length (btext ts)" by (simp add: ts)
    qed
    then have "map_option snd (globexp_alts en (map (\<lambda>a. btext (pre @ a @ us)) as) g)
        = glob_each en (concat (map (\<lambda>a. blang (pre @ a @ us)) as)) g"
      by (rule globexp_alts_each)
    moreover have "blang ts = concat (map (\<lambda>a. blang (pre @ a @ us)) as)"
    proof -
      have "wf_bx False pre" using less.prems by (simp add: ts wf_append)
      then have "blang (pre @ x) = map (append (btext pre)) (blang x)" for x
        using no_brace [OF _ pre] by (simp add: blang_append)
      then show ?thesis by (simp only: ts blang_brace map_concat map_map comp_def)
    qed
    ultimately show ?thesis using globexp1_brace [OF pre, of as us en g] less.prems by (simp add: ts)
  qed
qed

text \<open>Once a brace was expanded the result is 0, whatever the runs return.\<close>

lemma globexp1_result:
  assumes "wf_bx False ts" "\<not> list_all is_char ts" "globexp1 en (btext ts) g = Some (rv, g')"
  shows "rv = 0"
proof -
  obtain pre as us where "ts = pre @ Br as # us" "list_all is_char pre" using assms(2) by (rule first_brace)
  then show ?thesis using globexp1_brace [of pre as us en g] assms(1,3) globexp_alts_zero by auto
qed

section \<open>Freeing\<close>

lemma globfree_holds: "gl_holds g ps \<Longrightarrow> globfree g = (ps, gl_pathv g \<noteq> None)"
proof (cases "gl_pathv g")
  case (Some v)
  assume "gl_holds g ps"
  then obtain spare where "v = path_slots (gl_offs g) ps @ spare" "gl_pathc g = length ps"
    using Some by (auto simp: gl_holds_def)
  moreover have "concat (map (\<lambda>p. case p of Path s \<Rightarrow> [s] | _ \<Rightarrow> []) (map Path ps)) = ps"
    by (induction ps) simp_all
  ultimately show ?thesis using Some by (simp add: globfree_def path_slots_def)
qed (simp add: globfree_def gl_holds_def)

section \<open>No undefined behaviour without braces\<close>

text \<open>Every set of the pattern, also behind a slash inside another set, is closed.\<close>

definition sets_closed :: "u16 list \<Rightarrow> bool" where
  "sets_closed p \<longleftrightarrow> (\<forall>u s. p = u @ M_SET # s \<longrightarrow>
     (\<exists>neg rs t. list_all wf_item rs \<and> s = (if neg then [M_NOT] else []) @ concat (map enc_item rs) @ M_END # t))"

lemma sets_closed_suffix: "sets_closed (u @ p) \<Longrightarrow> sets_closed p"
  unfolding sets_closed_def by (metis append.assoc)

lemma enc_item_no_set: "wf_item r \<Longrightarrow> M_SET \<notin> set (enc_item r)"
  by (cases r rule: enc_item.cases) (auto simp: wf_item_def)

lemma sets_closed_append:
  assumes "M_SET \<notin> set u" "sets_closed p"
  shows "sets_closed (u @ p)"
  unfolding sets_closed_def
proof (intro allI impI)
  fix w s
  assume "u @ p = w @ M_SET # s"
  then obtain w' where "p = w' @ M_SET # s"
    using assms(1) by (auto simp: append_eq_append_conv2 append_eq_Cons_conv Cons_eq_append_conv)
  then show "\<exists>neg rs t. list_all wf_item rs \<and> s = (if neg then [M_NOT] else []) @ concat (map enc_item rs) @ M_END # t"
    using assms(2) by (simp add: sets_closed_def)
qed

lemma sets_closed_enc: "list_all wf_tok ts \<Longrightarrow> sets_closed (enc ts)"
proof (induction ts)
  case Nil
  then show ?case by (simp add: sets_closed_def)
next
  case (Cons t ts)
  show ?case
  proof (cases t)
    case (GSet neg rs)
    let ?body = "(if neg then [M_NOT] else []) @ concat (map enc_item rs) @ [M_END]"
    have rs: "list_all wf_item rs" using Cons.prems by (simp add: GSet wf_tok_def)
    then have "M_SET \<notin> set ?body" using enc_item_no_set by (auto simp: list_all_iff)
    then have rest: "sets_closed (?body @ enc ts)" using Cons by (intro sets_closed_append) simp_all
    show ?thesis
      unfolding sets_closed_def
    proof (intro allI impI)
      fix u s
      assume "enc (t # ts) = u @ M_SET # s"
      then consider "s = ?body @ enc ts" | u' where "?body @ enc ts = u' @ M_SET # s"
        by (cases u) (auto simp: GSet)
      then show "\<exists>neg rs t. list_all wf_item rs \<and> s = (if neg then [M_NOT] else []) @ concat (map enc_item rs) @ M_END # t"
        using rs rest by cases (auto simp: sets_closed_def)
    qed
  next
    case (GLit c)
    then have "M_SET \<notin> set (enc_tok t)" using Cons.prems by (auto simp: wf_tok_def)
    then show ?thesis using Cons sets_closed_append [of "enc_tok t"] by simp
  qed (use Cons sets_closed_append [of "[M_ALL]"] sets_closed_append [of "[M_ONE]"] in auto)
qed

lemma match_set_closed:
  assumes "sets_closed (M_SET # pat)"
  obtains ok t u where "match_set icase k False (if rdw pat = M_NOT then tl pat else pat) = Some (ok, t)" "pat = u @ t"
proof -
  have "M_SET # pat = [] @ M_SET # pat" by simp
  then obtain neg rs t where rs: "list_all wf_item rs" and p: "pat = (if neg then [M_NOT] else []) @ concat (map enc_item rs) @ M_END # t"
    using assms unfolding sets_closed_def by blast
  show thesis
  proof (rule that)
    show "match_set icase k False (if rdw pat = M_NOT then tl pat else pat) = Some (in_ranges icase k rs, t)"
      using rdw_items(1) [OF rs, of t] match_set_items [OF rs, of icase k False t] by (simp add: p)
    show "pat = ((if neg then [M_NOT] else []) @ concat (map enc_item rs) @ [M_END]) @ t" by (simp add: p)
  qed
qed

lemma match_char_defined:
  assumes "sets_closed (c # pat)"
  obtains "match_char icase name c pat = Some None"
  | u q where "match_char icase name c pat = Some (Some q)" "pat = u @ q"
proof (cases "c = M_SET \<and> name \<noteq> []")
  case True
  then have "sets_closed (M_SET # pat)" using assms by simp
  then obtain ok t u where t: "match_set icase (hd name) False (if rdw pat = M_NOT then tl pat else pat) = Some (ok, t)" "pat = u @ t"
    by (rule match_set_closed)
  have "match_char icase name c pat = Some (if ok = (rdw pat = M_NOT) then None else Some t)"
    using True t(1) by (simp add: match_char_def Let_def)
  then show thesis using that t(2) by (cases "ok = (rdw pat = M_NOT)") auto
next
  case False
  then have "match_char icase name c pat \<in> {Some None, Some (Some pat)}"
    by (auto simp: match_char_def)
  then show thesis using that(1) that(2) [of pat "[]"] by auto
qed

lemma match_defined:
  "sets_closed pat \<Longrightarrow> n \<le> int (length pat) \<Longrightarrow> match icase name pat n \<noteq> None"
proof (induction icase name pat n rule: match.induct)
  case (1 icase name pat n)
  show ?case
  proof (cases "n \<le> 0")
    case False
    then obtain c p where pat: "pat = c # p" using 1(5) by (cases pat) auto
    have p: "sets_closed p" using sets_closed_suffix [of "[c]" p] 1(4) by (simp add: pat)
    show ?thesis
    proof (cases "c = M_ALL")
      case True
      show ?thesis
      proof (cases "n = 1")
        case n: False
        then obtain r where r: "match icase name p (n - 1) = Some r"
          using 1(1) [OF False pat True n p] 1(5) by (auto simp: pat)
        have "\<not> r \<Longrightarrow> name \<noteq> [] \<Longrightarrow> match icase (tl name) pat n \<noteq> None"
          using 1(2) [OF False pat True n r] 1(4,5) by simp
        then show ?thesis using r False True n by (subst match.simps) (auto simp: pat split: bool.split)
      qed (use False True in \<open>subst match.simps; simp add: pat\<close>)
    next
      case nostar: False
      have "sets_closed (c # p)" using 1(4) by (simp add: pat)
      then show ?thesis
      proof (cases rule: match_char_defined [of c p icase name])
        case 1
        then show ?thesis using False nostar by (subst match.simps) (simp add: pat)
      next
        case (2 u q)
        have "match icase (tl name) q (n - int (length pat - length q)) \<noteq> None"
          using "1.IH"(3) [OF False pat nostar 2(1) refl] p sets_closed_suffix [of u q] 2(2) "1.prems"(2)
          by (simp add: pat)
        then show ?thesis using 2(1) False nostar by (subst match.simps) (simp add: pat)
      qed
    qed
  qed (simp add: match.simps)
qed

lemma rest_suffix: "\<exists>u. p = u @ dropWhile P p"
  by (metis takeWhile_dropWhile_id)

lemma glob_walk_defined:
  "\<not> (has (gl_flags g) GLOB_ALTDIRFUNC \<and> en_big en) \<Longrightarrow> sets_closed pattern \<Longrightarrow> glob2 en path pattern g \<noteq> None"
  "\<not> (has (gl_flags g) GLOB_ALTDIRFUNC \<and> en_big en) \<Longrightarrow> sets_closed pattern \<Longrightarrow> sets_closed rest \<Longrightarrow> glob3 en path pattern rest g \<noteq> None"
  "\<not> (has (gl_flags g) GLOB_ALTDIRFUNC \<and> en_big en) \<Longrightarrow> sets_closed pattern \<Longrightarrow> sets_closed rest \<Longrightarrow> glob3_loop en path pattern rest names g \<noteq> None"
proof (induction en path pattern g and en path pattern rest g and en path pattern rest names g
    rule: glob2_glob3_glob3_loop.induct)
  case (1 en path pattern g)
  have "glob2_end en path g \<noteq> None"
    using 1(3) by (auto simp: glob2_end_def g_lstat_def g_stat_def Let_def split: option.splits)
  moreover have "sets_closed (dropWhile P pattern)" for P
    using 1(4) sets_closed_suffix rest_suffix by metis
  moreover have "sets_closed (dropWhile Q (dropWhile P pattern))" for P Q
    using calculation(2) sets_closed_suffix rest_suffix by metis
  ultimately show ?case
    using 1 by (simp add: glob2.simps [of en path pattern g] Let_def)
next
  case (2 en path pattern rest g)
  then show ?case by (auto simp: glob3.simps Let_def split: sum.splits option.splits)
next
  case (3 en path pattern rest g)
  then show ?case by simp
next
  case (4 en path pattern rest name names g)
  have "match (en_icase en) (uchars name) pattern (int (length pattern) - int (length rest)) \<noteq> None"
    using 4 by (intro match_defined) simp_all
  moreover have "gl_flags g' = gl_flags g" if "glob2 en (path @ uchars name) rest g = Some (rv, g')" for rv g'
    using glob_walk_step(1) [OF that] by (simp add: gl_step_def)
  ultimately show ?case
    using 4 by (auto split: option.splits bool.splits prod.splits) blast+
qed

theorem glob0_defined:
  assumes "\<not> (has (gl_flags g) GLOB_ALTDIRFUNC \<and> en_big en)" "\<forall>c \<in> set (globtilde en q g). CHAR_c c \<noteq> 0"
  shows "glob0 en q g \<noteq> None"
proof -
  let ?ts = "squash (gtoks (globtilde en q g))"
  obtain magic where comp: "compile [] (globtilde en q g) = Some (enc ?ts, magic)"
    using compile_tokens [of "[]" "globtilde en q g"] by (simp add: foldl_push)
  define g1 where "g1 = (if magic then g\<lparr>gl_flags := gl_flags g OR GLOB_MAGCHAR\<rparr> else g)"
  have "has (gl_flags g1) GLOB_ALTDIRFUNC = has (gl_flags g) GLOB_ALTDIRFUNC"
    by (simp add: g1_def has_def bit.conj_disj_distrib bit.conj_disj_distrib2 and.commute)
  then have "glob1 en (enc ?ts) g1 \<noteq> None"
    using assms(1) glob_walk_defined(1) [of g1 en "enc ?ts" "[]"] sets_closed_enc [OF squash_all [OF wf_gtoks [OF assms(2)]]]
    by (simp add: glob1_def)
  then show ?thesis by (auto simp: glob0_def Let_def comp g1_def [symmetric] split: option.splits)
qed

section \<open>From the entry point\<close>

lemma char_nonzero: "c \<noteq> CHR 0x00 \<Longrightarrow> CHAR_c (of_char c) \<noteq> 0"
proof
  assume "c \<noteq> CHR 0x00" "CHAR_c (of_char c) = 0"
  then have "unat ((of_char c :: u16) AND 0xff) = 0" by (simp add: CHAR_c_def)
  then have "(of_char c :: nat) = 0" using nat_of_char_less_256 [of c] by (simp add: unat_and_ff unat_of_char)
  with \<open>c \<noteq> CHR 0x00\<close> show False by (simp add: of_char_0_iff)
qed

lemma char_protected: "CHAR_c (c OR M_PROTECT) = CHAR_c c"
  by (simp add: CHAR_c_def bit.conj_disj_distrib2)

lemma protect_nonzero: "CHR 0x00 \<notin> set s \<Longrightarrow> c \<in> set (protect n s) \<Longrightarrow> CHAR_c c \<noteq> 0"
proof (induction n s arbitrary: c rule: protect.induct)
  case (3 n d s)
  then show ?case
    by (auto simp: char_nonzero char_protected split: if_splits list.splits) (simp add: CHAR_c_def)
qed simp_all

lemma copy_pattern_nonzero: "CHR 0x00 \<notin> set pattern \<Longrightarrow> \<forall>c \<in> set (copy_pattern flags pattern). CHAR_c c \<noteq> 0"
  using protect_nonzero [of pattern] by (auto simp: copy_pattern_def uchars_def dest!: in_set_takeD intro!: char_nonzero)

lemma and_not_bit:
  assumes "(b :: int) AND 256 = 0"
  shows "(f AND NOT 256) AND b = f AND b"
proof -
  have "b AND NOT 256 = b"
    using assms by (intro bit_eqI) (auto simp: bit_simps dest!: arg_cong [where f = "\<lambda>x. bit x _"])
  then show ?thesis by (metis and.assoc and.commute)
qed

lemma start_flags: "b AND 0x0100 = 0 \<Longrightarrow> has (gl_flags (glob_start flags g)) b = has flags b"
proof -
  have "gl_flags (glob_start flags g) = flags AND NOT 256" by (simp add: glob_start_def Let_def)
  then show "b AND 0x0100 = 0 \<Longrightarrow> ?thesis" by (simp only: has_def and_not_bit)
qed

lemma glob_reports:
  assumes "quiet en flags" "clean (if has flags GLOB_ALTDIRFUNC then en_alt en else en_fs en)"
    and "\<not> has flags GLOB_BRACE" "\<not> has flags GLOB_TILDE"
    and "CHR 0x00 \<notin> set pattern" "list_all no_slash (gtoks (copy_pattern flags pattern))"
    and "has flags GLOB_APPEND \<Longrightarrow> gl_holds g ps"
  shows "let q = copy_pattern flags pattern;
             R = (if q = [] then [] else expand (if has flags GLOB_ALTDIRFUNC then en_alt en else en_fs en)
                    (en_icase en) (has flags GLOB_MARK) [] (gtoks q))
         in \<exists>g'. glob en pattern flags g = Some (0, g') \<and> gl_matchc g' = length R
            \<and> gl_holds g' ((if has flags GLOB_APPEND then ps else []) @ reported flags (gtoks q) (g_Ctoc q) R)"
proof -
  let ?q = "copy_pattern flags pattern" and ?g = "glob_start flags g"
  have dir: "dir_funcs en ?g = (if has flags GLOB_ALTDIRFUNC then en_alt en else en_fs en)"
    by (simp add: dir_funcs_def start_flags)
  have "quiet en (gl_flags ?g)" using assms(1) by (simp add: quiet_def start_flags split: option.splits)
  moreover have "\<not> has (gl_flags ?g) GLOB_MAGCHAR" by (simp add: has_def glob_start_def Let_def and.assoc)
  ultimately obtain g' where g': "glob0 en ?q ?g = Some (0, g')"
    "gl_holds g' ((if has flags GLOB_APPEND then ps else [])
        @ reported (gl_flags ?g) (gtoks ?q) (g_Ctoc ?q) (matches en ?g (gtoks ?q)))"
    "gl_matchc g' = gl_matchc ?g + length (matches en ?g (gtoks ?q))"
    using glob0_reports [of ?g "if has flags GLOB_APPEND then ps else []" en ?q] glob_start_holds [of flags g ps]
      assms(2,4,6,7) copy_pattern_nonzero [OF assms(5)] dir start_flags by auto
  have "gtoks ?q = [] \<longleftrightarrow> ?q = []" by (cases ?q) (simp_all add: Let_def)
  then have R: "matches en ?g (gtoks ?q) = (if ?q = [] then [] else
      expand (if has flags GLOB_ALTDIRFUNC then en_alt en else en_fs en) (en_icase en) (has flags GLOB_MARK) [] (gtoks ?q))"
    by (simp add: matches_def dir start_flags)
  have "reported (gl_flags ?g) = reported flags" by (simp add: fun_eq_iff reported_def start_flags)
  moreover have "gl_matchc ?g = 0" by (simp add: glob_start_def Let_def)
  ultimately show ?thesis using g' assms(3) by (simp add: Let_def glob_def R)
qed
end
