(* ===== verification/Regexp_Compile.thy ===== *)
theory Regexp_Compile
  imports Prelude
begin

text \<open>
  The compiler of \<open>cygwin/regexp/v8_regexp.c\<close>: \<open>regcomp\<close> with \<open>reg\<close>, \<open>regbranch\<close>, \<open>regpiece\<close>,
  \<open>regatom\<close> and the routines that emit and link nodes.

  The global work variables of the code are the record \<open>rstate\<close>. \<open>regparse\<close> is the rest of the
  expression from the scan pointer on, without the terminating NUL: reading at the end gives NUL,
  and no operation moves past it. The program is the list of the bytes emitted so far,
  \<open>regcode = None\<close> stands for \<open>&regdummy\<close> (the pass that only counts), and a pointer into the
  program is an index, \<open>None\<close> for \<open>&regdummy\<close>. \<open>FAIL m\<close> is the macro of the same name, the return
  of NULL after \<open>regerror(m)\<close>; \<open>FAULT\<close> is an access outside the bytes that have been emitted, a
  loop that does not end, or a program that outgrows the \<open>regsize\<close> bytes that the first pass counted
  and \<open>regcomp\<close> allocated: the second pass compares every write with that size and \<open>regover\<close>
  remembers a write behind the block, which \<open>regcomp\<close> turns into \<open>FAULT\<close>. The flags of the code
  are a set of flags.
\<close>

unbundle bit_operations_syntax

type_synonym u8 = "8 word"

section \<open>The program\<close>

text \<open>\<open>MAGIC\<close>, the opcodes and the number of subexpressions.\<close>

abbreviation (input) MAGIC :: u8 where "MAGIC \<equiv> 0x9c"
abbreviation (input) NSUBEXP :: nat where "NSUBEXP \<equiv> 10"

abbreviation (input) O_END :: u8 where "O_END \<equiv> 0"
abbreviation (input) O_BOL :: u8 where "O_BOL \<equiv> 1"
abbreviation (input) O_EOL :: u8 where "O_EOL \<equiv> 2"
abbreviation (input) O_ANY :: u8 where "O_ANY \<equiv> 3"
abbreviation (input) O_ANYOF :: u8 where "O_ANYOF \<equiv> 4"
abbreviation (input) O_ANYBUT :: u8 where "O_ANYBUT \<equiv> 5"
abbreviation (input) O_BRANCH :: u8 where "O_BRANCH \<equiv> 6"
abbreviation (input) O_BACK :: u8 where "O_BACK \<equiv> 7"
abbreviation (input) O_EXACTLY :: u8 where "O_EXACTLY \<equiv> 8"
abbreviation (input) O_NOTHING :: u8 where "O_NOTHING \<equiv> 9"
abbreviation (input) O_STAR :: u8 where "O_STAR \<equiv> 10"
abbreviation (input) O_PLUS :: u8 where "O_PLUS \<equiv> 11"
abbreviation (input) O_WORDA :: u8 where "O_WORDA \<equiv> 12"
abbreviation (input) O_WORDZ :: u8 where "O_WORDZ \<equiv> 13"
abbreviation (input) O_OPEN :: u8 where "O_OPEN \<equiv> 20"
abbreviation (input) O_CLOSE :: u8 where "O_CLOSE \<equiv> 30"

text \<open>The characters of the expression that the compiler looks for.\<close>

abbreviation (input) c_newline :: u8 where "c_newline \<equiv> 0x0a"
abbreviation (input) c_dollar :: u8 where "c_dollar \<equiv> 0x24"
abbreviation (input) c_open :: u8 where "c_open \<equiv> 0x28"
abbreviation (input) c_close :: u8 where "c_close \<equiv> 0x29"
abbreviation (input) c_star :: u8 where "c_star \<equiv> 0x2a"
abbreviation (input) c_plus :: u8 where "c_plus \<equiv> 0x2b"
abbreviation (input) c_minus :: u8 where "c_minus \<equiv> 0x2d"
abbreviation (input) c_dot :: u8 where "c_dot \<equiv> 0x2e"
abbreviation (input) c_less :: u8 where "c_less \<equiv> 0x3c"
abbreviation (input) c_greater :: u8 where "c_greater \<equiv> 0x3e"
abbreviation (input) c_quest :: u8 where "c_quest \<equiv> 0x3f"
abbreviation (input) c_lbracket :: u8 where "c_lbracket \<equiv> 0x5b"
abbreviation (input) c_backslash :: u8 where "c_backslash \<equiv> 0x5c"
abbreviation (input) c_rbracket :: u8 where "c_rbracket \<equiv> 0x5d"
abbreviation (input) c_caret :: u8 where "c_caret \<equiv> 0x5e"
abbreviation (input) c_bar :: u8 where "c_bar \<equiv> 0x7c"

text \<open>The text of a pattern or a subject as the bytes of a C string.\<close>

definition bytes :: "string \<Rightarrow> u8 list" where
  "bytes s = map of_char s"

text \<open>The offset in the "next" field of the node at \<open>p\<close>.\<close>

definition NEXT :: "u8 list \<Rightarrow> nat \<Rightarrow> nat option" where
  "NEXT code p = (if p + 2 < length code
     then Some (unat (code ! (p + 1)) * 2 ^ 8 + unat (code ! (p + 2))) else None)"

text \<open>The outer \<open>None\<close> is a read or a pointer outside the program, \<open>Some None\<close> is NULL.\<close>

definition regnext :: "u8 list \<Rightarrow> nat \<Rightarrow> nat option option" where
  "regnext code p = (case NEXT code p of
       None \<Rightarrow> None
     | Some offset \<Rightarrow>
         if offset = 0 then Some None
         else if code ! p = O_BACK then (if offset \<le> p then Some (Some (p - offset)) else None)
         else Some (Some (p + offset)))"

text \<open>The string operand at \<open>k\<close>, up to its NUL.\<close>

definition cstring :: "u8 list \<Rightarrow> nat \<Rightarrow> u8 list option" where
  "cstring code k = (let w = takeWhile (\<lambda>b. b \<noteq> 0) (drop k code)
     in if k + length w < length code then Some w else None)"

text \<open>The end of the chain of "next" pointers from \<open>p\<close>.\<close>

partial_function (option) last_node :: "u8 list \<Rightarrow> nat \<Rightarrow> nat option" where
  "last_node code p = (case regnext code p of
       None \<Rightarrow> None
     | Some None \<Rightarrow> Some p
     | Some (Some q) \<Rightarrow> last_node code q)"

text \<open>\<open>set_tail\<close> and \<open>set_optail\<close> are \<open>regtail\<close> and \<open>regoptail\<close> on a program that is being emitted.\<close>

definition set_tail :: "nat \<Rightarrow> nat \<Rightarrow> u8 list \<Rightarrow> u8 list option" where
  "set_tail p val code = (case last_node code p of
       None \<Rightarrow> None
     | Some scan \<Rightarrow>
         (let offset = (if code ! scan = O_BACK then int scan - int val else int val - int scan)
          in Some (code[scan + 1 := word_of_int (offset div 2 ^ 8), scan + 2 := word_of_int offset])))"

definition set_optail :: "nat \<Rightarrow> nat \<Rightarrow> u8 list \<Rightarrow> u8 list option" where
  "set_optail p val code =
     (if p < length code then if code ! p \<noteq> O_BRANCH then Some code else set_tail (p + 3) val code
      else None)"

text \<open>The loop that hooks the tails of the branches from \<open>br\<close> on to the closing node.\<close>

partial_function (option) hook_branches :: "nat \<Rightarrow> nat \<Rightarrow> u8 list \<Rightarrow> u8 list option" where
  "hook_branches ender br code = (case set_optail br ender code of
       None \<Rightarrow> None
     | Some code \<Rightarrow> (case regnext code br of
           None \<Rightarrow> None
         | Some None \<Rightarrow> Some code
         | Some (Some q) \<Rightarrow> hook_branches ender q code))"

section \<open>Emitting code\<close>

datatype flag = HASWIDTH | SIMPLE | SPSTART

datatype rerr = FAIL string | FAULT

type_synonym 'a rres = "rerr + 'a"

type_synonym ptr = "nat option"

record rstate =
  regparse :: "u8 list"
  regnpar :: nat
  regsize :: nat
  regcode :: "u8 list option"
  regover :: bool

text \<open>The rest of the routine after a call that may fail.\<close>

definition bindE :: "'a rres \<Rightarrow> ('a \<Rightarrow> 'b rres) \<Rightarrow> 'b rres" where
  "bindE m f = (case m of Inl e \<Rightarrow> Inl e | Inr x \<Rightarrow> f x)"

lemma bindE_simps [simp]: "bindE (Inl e) f = Inl e" "bindE (Inr x) f = f x"
  by (simp_all add: bindE_def)

text \<open>The emit pointer.\<close>

definition here :: "rstate \<Rightarrow> ptr" where
  "here st = map_option length (regcode st)"

text \<open>The program after a write of the second pass, and whether the write was inside the block.\<close>

definition store :: "u8 list \<Rightarrow> rstate \<Rightarrow> rstate" where
  "store code st = st\<lparr> regcode := Some code, regover := regover st \<or> regsize st < length code \<rparr>"

definition regc :: "u8 \<Rightarrow> rstate \<Rightarrow> rstate" where
  "regc b st = (case regcode st of
       Some code \<Rightarrow> store (code @ [b]) st
     | None \<Rightarrow> st\<lparr> regsize := regsize st + 1 \<rparr>)"

definition regnode :: "u8 \<Rightarrow> rstate \<Rightarrow> ptr \<times> rstate" where
  "regnode op st = (here st, case regcode st of
       None \<Rightarrow> st\<lparr> regsize := regsize st + 3 \<rparr>
     | Some code \<Rightarrow> store (code @ [op, 0, 0]) st)"

definition reginsert :: "u8 \<Rightarrow> ptr \<Rightarrow> rstate \<Rightarrow> rstate rres" where
  "reginsert op opnd st = (case regcode st of
       None \<Rightarrow> Inr (st\<lparr> regsize := regsize st + 3 \<rparr>)
     | Some code \<Rightarrow> (case opnd of
           None \<Rightarrow> Inl FAULT
         | Some k \<Rightarrow> Inr (store (take k code @ [op, 0, 0] @ drop k code) st)))"

text \<open>A routine on the emitted program, a no-op on \<open>&regdummy\<close>.\<close>

definition on_code :: "(nat \<Rightarrow> nat \<Rightarrow> u8 list \<Rightarrow> u8 list option) \<Rightarrow> ptr \<Rightarrow> ptr \<Rightarrow> rstate \<Rightarrow> rstate rres" where
  "on_code f p val st = (case p of
       None \<Rightarrow> Inr st
     | Some k \<Rightarrow> (case (val, regcode st) of
           (Some v, Some code) \<Rightarrow> (case f k v code of
               None \<Rightarrow> Inl FAULT
             | Some code \<Rightarrow> Inr (st\<lparr> regcode := Some code \<rparr>))
         | _ \<Rightarrow> Inl FAULT))"

definition regtail :: "ptr \<Rightarrow> ptr \<Rightarrow> rstate \<Rightarrow> rstate rres" where
  "regtail p val st = on_code set_tail p val st"

definition regoptail :: "ptr \<Rightarrow> ptr \<Rightarrow> rstate \<Rightarrow> rstate rres" where
  "regoptail p val st = on_code set_optail p val st"

section \<open>Atoms\<close>

definition ISMULT :: "u8 \<Rightarrow> bool" where
  "ISMULT c \<longleftrightarrow> c = c_star \<or> c = c_plus \<or> c = c_quest"

text \<open>The body of a bracket expression; \<open>prev\<close> is the character before the scan pointer.\<close>

fun regset :: "u8 \<Rightarrow> u8 list \<Rightarrow> rstate \<Rightarrow> rstate rres" where
  "regset prev [] st = Inr (st\<lparr> regparse := [] \<rparr>)"
| "regset prev (c # cs) st =
     (if c = c_rbracket then Inr (st\<lparr> regparse := c # cs \<rparr>)
      else if c = c_minus then
        (case cs of
           [] \<Rightarrow> regset c cs (regc c_minus st)
         | d # ds \<Rightarrow>
             if d = c_rbracket then regset c cs (regc c_minus st)
             else (let class = unat prev + 1; classend = unat d
                   in if class > classend + 1 then Inl (FAIL ''invalid [] range'')
                      else regset d ds (fold (\<lambda>k. regc (of_nat k)) [class ..< classend + 1] st)))
      else regset c cs (regc c st))"

text \<open>
  The string of an \<open>EXACTLY\<close> node: \<open>cs\<close> is the text from the current character on, \<open>regprev\<close> the
  backup point. The result is the final \<open>regprev\<close>.
\<close>

definition ends_exact :: "u8 \<Rightarrow> bool" where
  "ends_exact c \<longleftrightarrow> c \<in> {c_dot, c_lbracket, c_open, c_close, c_bar, c_newline, c_dollar, c_caret}"

fun regexact :: "u8 list option \<Rightarrow> u8 list \<Rightarrow> rstate \<Rightarrow> (u8 list option \<times> rstate) rres" where
  "regexact regprev [] st = Inl FAULT"
| "regexact regprev (ch # cs) st = (case cs of
       [] \<Rightarrow> Inr (regprev, (regc ch st)\<lparr> regparse := cs \<rparr>)
     | c # cs' \<Rightarrow>
         if ends_exact c then Inr (regprev, (regc ch st)\<lparr> regparse := cs \<rparr>)
         else if ISMULT c then
           (case regprev of
              None \<Rightarrow> Inr (regprev, (regc ch st)\<lparr> regparse := cs \<rparr>)
            | Some back \<Rightarrow> Inr (regprev, st\<lparr> regparse := back \<rparr>))
         else if c = c_backslash then
           (case cs' of
              [] \<Rightarrow> Inr (regprev, (regc ch st)\<lparr> regparse := cs \<rparr>)
            | d # _ \<Rightarrow>
                if d = c_less \<or> d = c_greater then Inr (regprev, (regc ch st)\<lparr> regparse := cs \<rparr>)
                else regexact (Some cs) cs' (regc ch st))
         else regexact (Some cs) cs (regc ch st))"

definition exact_node :: "u8 list \<Rightarrow> rstate \<Rightarrow> (ptr \<times> flag set \<times> rstate) rres" where
  "exact_node cs st = (let (ret, st) = regnode O_EXACTLY st in
     bindE (regexact None cs st) (\<lambda>(regprev, st).
       Inr (ret, {HASWIDTH} \<union> (if regprev = None then {SIMPLE} else {}), regc 0 st)))"

definition set_node :: "u8 list \<Rightarrow> rstate \<Rightarrow> (ptr \<times> flag set \<times> rstate) rres" where
  "set_node cs st =
     (let (ret, prev, cs, st) =
        (case cs of
           c # cs' \<Rightarrow> if c = c_caret then (let (ret, st) = regnode O_ANYBUT st in (ret, c, cs', st))
                      else (let (ret, st) = regnode O_ANYOF st in (ret, c_lbracket, cs, st))
         | [] \<Rightarrow> (let (ret, st) = regnode O_ANYOF st in (ret, c_lbracket, cs, st)));
          (prev, cs, st) =
        (case cs of
           c # cs' \<Rightarrow> if c = c_rbracket \<or> c = c_minus then (c, cs', regc c st) else (prev, cs, st)
         | [] \<Rightarrow> (prev, cs, st))
      in bindE (regset prev cs st) (\<lambda>st. let st = regc 0 st in
           (case regparse st of
              c # cs \<Rightarrow> if c \<noteq> c_rbracket then Inl (FAIL ''unmatched []'')
                        else Inr (ret, {HASWIDTH, SIMPLE}, st\<lparr> regparse := cs \<rparr>)
            | [] \<Rightarrow> Inl (FAIL ''unmatched []''))))"

text \<open>\<open>rec\<close> is \<open>reg(1, &flags)\<close>, called after an opening parenthesis.\<close>

definition regatom :: "(rstate \<Rightarrow> (ptr \<times> flag set \<times> rstate) rres) \<Rightarrow> rstate \<Rightarrow> (ptr \<times> flag set \<times> rstate) rres" where
  "regatom rec st = (case regparse st of
       [] \<Rightarrow> Inl (FAIL ''internal urp'')
     | c # cs \<Rightarrow>
        (let st' = st\<lparr> regparse := cs \<rparr> in
         if c = c_caret then (let (ret, st') = regnode O_BOL st' in Inr (ret, {}, st'))
         else if c = c_dollar then (let (ret, st') = regnode O_EOL st' in Inr (ret, {}, st'))
         else if c = c_dot then (let (ret, st') = regnode O_ANY st' in Inr (ret, {HASWIDTH, SIMPLE}, st'))
         else if c = c_lbracket then set_node cs st'
         else if c = c_open then
           bindE (rec st') (\<lambda>(ret, flags, st'). Inr (ret, flags \<inter> {HASWIDTH, SPSTART}, st'))
         else if c = c_bar \<or> c = c_newline \<or> c = c_close then Inl (FAIL ''internal urp'')
         else if ISMULT c then Inl (FAIL ''?+* follows nothing'')
         else if c = c_backslash then
           (case cs of
              [] \<Rightarrow> Inl (FAIL (''trailing '' @ [CHR 0x5C]))
            | d # ds \<Rightarrow>
                if d = c_less then
                  (let (ret, st') = regnode O_WORDA (st\<lparr> regparse := ds \<rparr>) in Inr (ret, {}, st'))
                else if d = c_greater then
                  (let (ret, st') = regnode O_WORDZ (st\<lparr> regparse := ds \<rparr>) in Inr (ret, {}, st'))
                else exact_node cs st')
         else exact_node (c # cs) st'))"

section \<open>Pieces, branches and expressions\<close>

definition head :: "u8 list \<Rightarrow> u8" where
  "head cs = (case cs of [] \<Rightarrow> 0 | c # _ \<Rightarrow> c)"

text \<open>The code that the operators \<open>*\<close>, \<open>+\<close> and \<open>?\<close> put around the operand at \<open>ret\<close>.\<close>

definition emit_star :: "ptr \<Rightarrow> rstate \<Rightarrow> rstate rres" where
  "emit_star ret st =
     bindE (reginsert O_BRANCH ret st) (\<lambda>st.
     let (back, st) = regnode O_BACK st in
     bindE (regoptail ret back st) (\<lambda>st.
     bindE (regoptail ret ret st) (\<lambda>st.
     let (br, st) = regnode O_BRANCH st in
     bindE (regtail ret br st) (\<lambda>st.
     let (nothing, st) = regnode O_NOTHING st in
     regtail ret nothing st))))"

definition emit_plus :: "ptr \<Rightarrow> rstate \<Rightarrow> rstate rres" where
  "emit_plus ret st =
     (let (next, st) = regnode O_BRANCH st in
     bindE (regtail ret next st) (\<lambda>st.
     let (back, st) = regnode O_BACK st in
     bindE (regtail back ret st) (\<lambda>st.
     let (br, st) = regnode O_BRANCH st in
     bindE (regtail next br st) (\<lambda>st.
     let (nothing, st) = regnode O_NOTHING st in
     regtail ret nothing st))))"

definition emit_quest :: "ptr \<Rightarrow> rstate \<Rightarrow> rstate rres" where
  "emit_quest ret st =
     bindE (reginsert O_BRANCH ret st) (\<lambda>st.
     let (br, st) = regnode O_BRANCH st in
     bindE (regtail ret br st) (\<lambda>st.
     let (next, st) = regnode O_NOTHING st in
     bindE (regtail ret next st) (\<lambda>st.
     regoptail ret next st)))"

definition regpiece :: "(rstate \<Rightarrow> (ptr \<times> flag set \<times> rstate) rres) \<Rightarrow> rstate \<Rightarrow> (ptr \<times> flag set \<times> rstate) rres" where
  "regpiece rec st = bindE (regatom rec st) (\<lambda>(ret, flags, st).
     let op = head (regparse st) in
     if \<not> ISMULT op then Inr (ret, flags, st)
     else if HASWIDTH \<notin> flags \<and> op \<noteq> c_quest then Inl (FAIL ''*+ operand could be empty'')
     else
       bindE (if op = c_star \<and> SIMPLE \<in> flags then reginsert O_STAR ret st
              else if op = c_star then emit_star ret st
              else if op = c_plus \<and> SIMPLE \<in> flags then reginsert O_PLUS ret st
              else if op = c_plus then emit_plus ret st
              else emit_quest ret st) (\<lambda>st.
       let st = st\<lparr> regparse := tl (regparse st) \<rparr> in
       if ISMULT (head (regparse st)) then Inl (FAIL ''nested *?+'')
       else Inr (ret, if op \<noteq> c_plus then {SPSTART} else {HASWIDTH}, st)))"

definition ends_branch :: "u8 \<Rightarrow> bool" where
  "ends_branch c \<longleftrightarrow> c = 0 \<or> c = c_close \<or> c = c_newline \<or> c = c_bar"

text \<open>
  The loops of \<open>regbranch\<close> and \<open>reg\<close> take the number of rounds they may run: each round reads at
  least one character. \<open>chain = None\<close> is NULL, no piece yet.
\<close>

fun regpieces :: "nat \<Rightarrow> (rstate \<Rightarrow> (ptr \<times> flag set \<times> rstate) rres) \<Rightarrow> ptr option \<Rightarrow> flag set \<Rightarrow> rstate
    \<Rightarrow> (ptr option \<times> flag set \<times> rstate) rres" where
  "regpieces 0 rec chain fl st = Inl FAULT"
| "regpieces (Suc n) rec chain fl st =
     (if ends_branch (head (regparse st)) then Inr (chain, fl, st)
      else bindE (regpiece rec st) (\<lambda>(latest, flags, st).
        bindE (case chain of None \<Rightarrow> Inr st | Some p \<Rightarrow> regtail p latest st) (\<lambda>st.
        regpieces n rec (Some latest)
          (fl \<union> (flags \<inter> {HASWIDTH}) \<union> (if chain = None then flags \<inter> {SPSTART} else {})) st)))"

definition regbranch :: "(rstate \<Rightarrow> (ptr \<times> flag set \<times> rstate) rres) \<Rightarrow> rstate \<Rightarrow> (ptr \<times> flag set \<times> rstate) rres" where
  "regbranch rec st =
     (let (ret, st) = regnode O_BRANCH st in
      bindE (regpieces (Suc (length (regparse st))) rec None {} st) (\<lambda>(chain, fl, st).
        Inr (ret, fl, if chain = None then snd (regnode O_NOTHING st) else st)))"

text \<open>The flags of an expression after one more branch.\<close>

definition branch_flags :: "flag set \<Rightarrow> flag set \<Rightarrow> flag set" where
  "branch_flags fl flags = (if HASWIDTH \<in> flags then fl else fl - {HASWIDTH}) \<union> (flags \<inter> {SPSTART})"

fun regalts :: "nat \<Rightarrow> (rstate \<Rightarrow> (ptr \<times> flag set \<times> rstate) rres) \<Rightarrow> ptr \<Rightarrow> flag set \<Rightarrow> rstate
    \<Rightarrow> (flag set \<times> rstate) rres" where
  "regalts 0 rec ret fl st = Inl FAULT"
| "regalts (Suc n) rec ret fl st =
     (if head (regparse st) = c_bar \<or> head (regparse st) = c_newline then
        bindE (regbranch rec (st\<lparr> regparse := tl (regparse st) \<rparr>)) (\<lambda>(br, flags, st).
        bindE (regtail ret br st) (\<lambda>st.
        regalts n rec ret (branch_flags fl flags) st))
      else Inr (fl, st))"

definition reg_end :: "bool \<Rightarrow> rstate \<Rightarrow> rstate rres" where
  "reg_end paren st =
     (if paren then (case regparse st of
          c # cs \<Rightarrow> if c \<noteq> c_close then Inl (FAIL ''unmatched ()'') else Inr (st\<lparr> regparse := cs \<rparr>)
        | [] \<Rightarrow> Inl (FAIL ''unmatched ()''))
      else (case regparse st of
          c # cs \<Rightarrow> if c = c_close then Inl (FAIL ''unmatched ()'') else Inl (FAIL ''junk on end'')
        | [] \<Rightarrow> Inr st))"

definition reg_body :: "(rstate \<Rightarrow> (ptr \<times> flag set \<times> rstate) rres) \<Rightarrow> bool \<Rightarrow> rstate
    \<Rightarrow> (ptr \<times> flag set \<times> rstate) rres" where
  "reg_body rec paren st =
     (if paren \<and> regnpar st \<ge> NSUBEXP then Inl (FAIL ''too many ()'')
      else
        let parno = (if paren then regnpar st else 0);
            (ret, st) = (if paren then (let (ret, st) = regnode (O_OPEN + of_nat parno) (st\<lparr> regnpar := regnpar st + 1 \<rparr>)
                                        in (Some ret, st))
                         else (None, st))
        in bindE (regbranch rec st) (\<lambda>(br, flags, st).
           bindE (case ret of None \<Rightarrow> Inr (br, st)
                            | Some r \<Rightarrow> bindE (regtail r br st) (\<lambda>st. Inr (r, st))) (\<lambda>(ret, st).
           bindE (regalts (Suc (length (regparse st))) rec ret (branch_flags {HASWIDTH} flags) st) (\<lambda>(fl, st).
           let (ender, st) = regnode (if paren then O_CLOSE + of_nat parno else O_END) st in
           bindE (regtail ret ender st) (\<lambda>st.
           bindE (on_code (\<lambda>p v. hook_branches v p) ret ender st) (\<lambda>st.
           bindE (reg_end paren st) (\<lambda>st.
           Inr (ret, fl, st))))))))"

text \<open>\<open>depth\<close> bounds the nesting of parentheses.\<close>

fun reg :: "nat \<Rightarrow> bool \<Rightarrow> rstate \<Rightarrow> (ptr \<times> flag set \<times> rstate) rres" where
  "reg 0 paren st = Inl FAULT"
| "reg (Suc depth) paren st = reg_body (reg depth True) paren st"

declare last_node.simps [code] hook_branches.simps [code]

section \<open>regcomp\<close>

record regexp =
  startp :: "nat option list"
  endp :: "nat option list"
  regstart :: u8
  reganch :: bool
  regmust :: "nat option"
  regmlen :: nat
  program :: "u8 list"

text \<open>The longest literal on the chain of nodes from \<open>scan\<close>, the last of the longest ones.\<close>

partial_function (option) longest_literal :: "u8 list \<Rightarrow> nat option \<Rightarrow> nat \<Rightarrow> nat \<Rightarrow> (nat option \<times> nat) option" where
  "longest_literal code longest len scan =
     (case (if scan < length code then
              if code ! scan = O_EXACTLY then
                (case cstring code (scan + 3) of
                   None \<Rightarrow> None
                 | Some w \<Rightarrow> Some (if length w \<ge> len then (Some (scan + 3), length w) else (longest, len)))
              else Some (longest, len)
            else None) of
        None \<Rightarrow> None
      | Some (longest, len) \<Rightarrow> (case regnext code scan of
            None \<Rightarrow> None
          | Some None \<Rightarrow> Some (longest, len)
          | Some (Some q) \<Rightarrow> longest_literal code longest len q))"

declare longest_literal.simps [code]

text \<open>\<open>regstart\<close>, \<open>reganch\<close>, \<open>regmust\<close> and \<open>regmlen\<close> of a program.\<close>

definition dig_out :: "u8 list \<Rightarrow> flag set \<Rightarrow> (u8 \<times> bool \<times> nat option \<times> nat) option" where
  "dig_out code flags = (case regnext code 1 of
       Some (Some q) \<Rightarrow>
         if q < length code then
           if code ! q = O_END then
             if 4 < length code then
               (case (if code ! 4 = O_EXACTLY then if 7 < length code then Some (code ! 7, False) else None
                      else Some (0, code ! 4 = O_BOL)) of
                  None \<Rightarrow> None
                | Some (start, anch) \<Rightarrow>
                    if SPSTART \<in> flags then
                      (case longest_literal code None 0 4 of
                         None \<Rightarrow> None
                       | Some (must, mlen) \<Rightarrow> Some (start, anch, must, mlen))
                    else Some (start, anch, None, 0))
             else None
           else Some (0, False, None, 0)
         else None
     | _ \<Rightarrow> None)"

text \<open>
  \<open>malloc n\<close> is the block for a program of \<open>n\<close> bytes, with what the two arrays in it happen to hold;
  \<open>None\<close> is a failure.
\<close>

definition regcomp :: "(nat \<Rightarrow> (nat option list \<times> nat option list) option) \<Rightarrow> u8 list option \<Rightarrow> regexp rres" where
  "regcomp malloc expr = (case expr of
       None \<Rightarrow> Inl (FAIL ''NULL argument'')
     | Some cs \<Rightarrow>
         let st = \<lparr> regparse = cs, regnpar = 1, regsize = 0, regcode = None, regover = False \<rparr> in
         bindE (reg (Suc (length cs)) False (regc MAGIC st)) (\<lambda>(_, _, st).
         if regsize st \<ge> 32767 then Inl (FAIL ''regexp too big'')
         else case malloc (regsize st) of None \<Rightarrow> Inl (FAIL ''out of space'')
         | Some (sp, ep) \<Rightarrow>
           let st = st\<lparr> regparse := cs, regnpar := 1, regcode := Some [] \<rparr> in
           bindE (reg (Suc (length cs)) False (regc MAGIC st)) (\<lambda>(_, flags, st).
           case regcode st of
             None \<Rightarrow> Inl FAULT
           | Some code \<Rightarrow> (case (if regover st then None else dig_out code flags) of
                 None \<Rightarrow> Inl FAULT
               | Some (start, anch, must, mlen) \<Rightarrow>
                   Inr \<lparr> startp = sp, endp = ep, regstart = start,
                         reganch = anch, regmust = must, regmlen = mlen, program = code \<rparr>))))"

end
