(* ===== verification/Regexp_Layout.thy ===== *)
theory Regexp_Layout
  imports Regexp_Compile
begin

text \<open>
  What the compiler of \<open>v8_regexp.c\<close> is meant to produce: the tree of an expression, a parser
  without code generation, and the bytes of the program of a tree; then how the routines that
  link nodes act on laid out code, and what the parser guarantees of its result and its messages.
\<close>

section \<open>Expressions\<close>

text \<open>
  The flag of \<open>StarOf\<close> and \<open>PlusOf\<close> says that the operand is a single character that
  \<open>regrepeat\<close> can count.
\<close>

datatype node = Bol | Eol | Any | WordA | WordZ | AnyOf "u8 list" | AnyBut "u8 list" | Str "u8 list"
  | Group nat "node list list" | StarOf bool node | PlusOf bool node | Opt node

text \<open>Never matches the empty string; starts with an operator.\<close>

fun has_width :: "node \<Rightarrow> bool" and has_width_seq :: "node list \<Rightarrow> bool" and has_width_alts :: "node list list \<Rightarrow> bool" where
  "has_width (Any) = True"
| "has_width (AnyOf b) = True"
| "has_width (AnyBut b) = True"
| "has_width (Str b) = True"
| "has_width (Group n bs) = has_width_alts bs"
| "has_width (PlusOf s x) = True"
| "has_width x = False"
| "has_width_seq [] = False"
| "has_width_seq (x # xs) = (has_width x \<or> has_width_seq xs)"
| "has_width_alts [] = True"
| "has_width_alts (b # bs) = (has_width_seq b \<and> has_width_alts bs)"

fun spst :: "node \<Rightarrow> bool" and spst_seq :: "node list \<Rightarrow> bool" and spst_alts :: "node list list \<Rightarrow> bool" where
  "spst (Group n bs) = spst_alts bs"
| "spst (StarOf s x) = True"
| "spst (Opt x) = True"
| "spst x = False"
| "spst_seq [] = False"
| "spst_seq (x # xs) = spst x"
| "spst_alts [] = False"
| "spst_alts (b # bs) = (spst_seq b \<or> spst_alts bs)"

definition flags_of :: "bool \<Rightarrow> bool \<Rightarrow> bool \<Rightarrow> flag set" where
  "flags_of w s p = (if w then {HASWIDTH} else {}) \<union> (if s then {SIMPLE} else {}) \<union> (if p then {SPSTART} else {})"

lemma in_flags_of [simp]:
  "HASWIDTH \<in> flags_of w s p \<longleftrightarrow> w" "SIMPLE \<in> flags_of w s p \<longleftrightarrow> s" "SPSTART \<in> flags_of w s p \<longleftrightarrow> p"
  by (auto simp: flags_of_def)

lemma flags_of_eqI:
  "(HASWIDTH \<in> F \<longleftrightarrow> w) \<Longrightarrow> (SIMPLE \<in> F \<longleftrightarrow> s) \<Longrightarrow> (SPSTART \<in> F \<longleftrightarrow> p) \<Longrightarrow> F = flags_of w s p"
proof -
  assume *: "HASWIDTH \<in> F \<longleftrightarrow> w" "SIMPLE \<in> F \<longleftrightarrow> s" "SPSTART \<in> F \<longleftrightarrow> p"
  have "f \<in> F \<longleftrightarrow> f \<in> flags_of w s p" for f
    using * by (cases f) simp_all
  then show ?thesis by blast
qed

section \<open>The parser\<close>

fun scan_set :: "u8 \<Rightarrow> u8 list \<Rightarrow> (u8 list \<times> u8 list) rres" where
  "scan_set prev [] = Inr ([], [])"
| "scan_set prev (c # cs) =
     (if c = c_rbracket then Inr ([], c # cs)
      else if c = c_minus \<and> cs \<noteq> [] \<and> hd cs \<noteq> c_rbracket then
        (if unat prev + 1 > unat (hd cs) + 1 then Inl (FAIL ''invalid [] range'')
         else bindE (scan_set (hd cs) (tl cs)) (\<lambda>(b, r).
                Inr (map of_nat [unat prev + 1 ..< unat (hd cs) + 1] @ b, r)))
      else bindE (scan_set c cs) (\<lambda>(b, r). Inr (c # b, r)))"

fun scan_exact :: "u8 list option \<Rightarrow> u8 list \<Rightarrow> (u8 list \<times> bool \<times> u8 list) rres" where
  "scan_exact prev [] = Inl FAULT"
| "scan_exact prev (ch # cs) =
     (if cs = [] \<or> ends_exact (hd cs) then Inr ([ch], prev = None, cs)
      else if ISMULT (hd cs) then
        (case prev of None \<Rightarrow> Inr ([ch], True, cs) | Some back \<Rightarrow> Inr ([], False, back))
      else if hd cs = c_backslash then
        (if tl cs = [] \<or> hd (tl cs) = c_less \<or> hd (tl cs) = c_greater then Inr ([ch], prev = None, cs)
         else bindE (scan_exact (Some cs) (tl cs)) (\<lambda>(b, s, r). Inr (ch # b, s, r)))
      else bindE (scan_exact (Some cs) cs) (\<lambda>(b, s, r). Inr (ch # b, s, r)))"

definition parse_exact :: "nat \<Rightarrow> u8 list \<Rightarrow> (node \<times> bool \<times> nat \<times> u8 list) rres" where
  "parse_exact np cs = bindE (scan_exact None cs) (\<lambda>(b, s, r). Inr (Str b, s, np, r))"

definition parse_set :: "nat \<Rightarrow> u8 list \<Rightarrow> (node \<times> bool \<times> nat \<times> u8 list) rres" where
  "parse_set np cs =
     (let neg = (cs \<noteq> [] \<and> hd cs = c_caret);
          prev = (if neg then c_caret else c_lbracket);
          cs = (if neg then tl cs else cs);
          lead = (cs \<noteq> [] \<and> (hd cs = c_rbracket \<or> hd cs = c_minus))
      in bindE (if lead then bindE (scan_set (hd cs) (tl cs)) (\<lambda>(b, r). Inr (hd cs # b, r)) else scan_set prev cs) (\<lambda>(b, r).
           if r = [] \<or> hd r \<noteq> c_rbracket then Inl (FAIL ''unmatched []'')
           else Inr (if neg then AnyBut b else AnyOf b, True, np, tl r)))"

type_synonym group_parser = "nat \<Rightarrow> u8 list \<Rightarrow> (node \<times> nat \<times> u8 list) rres"

definition parse_atom :: "group_parser \<Rightarrow> nat \<Rightarrow> u8 list \<Rightarrow> (node \<times> bool \<times> nat \<times> u8 list) rres" where
  "parse_atom rec np cs = (case cs of
       [] \<Rightarrow> Inl (FAIL ''internal urp'')
     | c # cs \<Rightarrow>
         if c = c_caret then Inr (Bol, False, np, cs)
         else if c = c_dollar then Inr (Eol, False, np, cs)
         else if c = c_dot then Inr (Any, True, np, cs)
         else if c = c_lbracket then parse_set np cs
         else if c = c_open then bindE (rec np cs) (\<lambda>(x, np, cs). Inr (x, False, np, cs))
         else if c = c_bar \<or> c = c_newline \<or> c = c_close then Inl (FAIL ''internal urp'')
         else if ISMULT c then Inl (FAIL ''?+* follows nothing'')
         else if c = c_backslash then
           (if cs = [] then Inl (FAIL (''trailing '' @ [CHR 0x5C]))
            else if hd cs = c_less then Inr (WordA, False, np, tl cs)
            else if hd cs = c_greater then Inr (WordZ, False, np, tl cs)
            else parse_exact np cs)
         else parse_exact np (c # cs))"

definition operated :: "u8 \<Rightarrow> bool \<Rightarrow> node \<Rightarrow> node" where
  "operated op s x = (if op = c_star then StarOf s x else if op = c_plus then PlusOf s x else Opt x)"

definition parse_piece :: "group_parser \<Rightarrow> nat \<Rightarrow> u8 list \<Rightarrow> (node \<times> bool \<times> nat \<times> u8 list) rres" where
  "parse_piece rec np cs = bindE (parse_atom rec np cs) (\<lambda>(x, s, np, cs).
     let op = head cs in
     if \<not> ISMULT op then Inr (x, s, np, cs)
     else if \<not> has_width x \<and> op \<noteq> c_quest then Inl (FAIL ''*+ operand could be empty'')
     else if ISMULT (head (tl cs)) then Inl (FAIL ''nested *?+'')
     else Inr (operated op s x, False, np, tl cs))"

fun parse_pieces :: "nat \<Rightarrow> group_parser \<Rightarrow> nat \<Rightarrow> u8 list \<Rightarrow> (node list \<times> nat \<times> u8 list) rres" where
  "parse_pieces 0 rec np cs = Inl FAULT"
| "parse_pieces (Suc n) rec np cs =
     (if ends_branch (head cs) then Inr ([], np, cs)
      else bindE (parse_piece rec np cs) (\<lambda>(x, s, np, cs).
           bindE (parse_pieces n rec np cs) (\<lambda>(xs, np, cs). Inr (x # xs, np, cs))))"

definition parse_branch :: "group_parser \<Rightarrow> nat \<Rightarrow> u8 list \<Rightarrow> (node list \<times> nat \<times> u8 list) rres" where
  "parse_branch rec np cs = parse_pieces (Suc (length cs)) rec np cs"

fun parse_more :: "nat \<Rightarrow> group_parser \<Rightarrow> nat \<Rightarrow> u8 list \<Rightarrow> (node list list \<times> nat \<times> u8 list) rres" where
  "parse_more 0 rec np cs = Inl FAULT"
| "parse_more (Suc n) rec np cs =
     (if head cs = c_bar \<or> head cs = c_newline then
        bindE (parse_branch rec np (tl cs)) (\<lambda>(b, np, cs).
        bindE (parse_more n rec np cs) (\<lambda>(bs, np, cs). Inr (b # bs, np, cs)))
      else Inr ([], np, cs))"

definition parse_alts :: "group_parser \<Rightarrow> nat \<Rightarrow> u8 list \<Rightarrow> (node list list \<times> nat \<times> u8 list) rres" where
  "parse_alts rec np cs =
     bindE (parse_branch rec np cs) (\<lambda>(b, np, cs).
     bindE (parse_more (Suc (length cs)) rec np cs) (\<lambda>(bs, np, cs). Inr (b # bs, np, cs)))"

fun parse_group :: "nat \<Rightarrow> group_parser" where
  "parse_group 0 np cs = Inl FAULT"
| "parse_group (Suc depth) np cs =
     (if np \<ge> NSUBEXP then Inl (FAIL ''too many ()'')
      else bindE (parse_alts (parse_group depth) (np + 1) cs) (\<lambda>(bs, np', cs).
        if cs = [] \<or> hd cs \<noteq> c_close then Inl (FAIL ''unmatched ()'')
        else Inr (Group np bs, np', tl cs)))"

definition parse :: "u8 list \<Rightarrow> node list list rres" where
  "parse cs = bindE (parse_alts (parse_group (length cs)) 1 cs) (\<lambda>(bs, np, r).
     if r = [] then Inr bs
     else if hd r = c_close then Inl (FAIL ''unmatched ()'') else Inl (FAIL ''junk on end''))"

section \<open>The layout of a program\<close>

text \<open>
  \<open>code x t\<close> is the code of \<open>x\<close> when the node to run after it starts \<open>t\<close> bytes after the first byte of
  the code; \<open>t = 0\<close> is the code that has not been hooked yet.
\<close>

definition node3 :: "u8 \<Rightarrow> nat \<Rightarrow> u8 list" where
  "node3 op t = [op, of_nat (t div 256), of_nat t]"

definition ahead :: "nat \<Rightarrow> nat \<Rightarrow> nat" where
  "ahead t k = (if t = 0 then 0 else t - k)"

fun len :: "node \<Rightarrow> nat" and len_seq :: "node list \<Rightarrow> nat" and len_alts :: "node list list \<Rightarrow> nat" where
  "len (AnyOf b) = length b + 4"
| "len (AnyBut b) = length b + 4"
| "len (Str b) = length b + 4"
| "len (Group n bs) = len_alts bs + 6"
| "len (StarOf s x) = (if s then len x + 3 else len x + 12)"
| "len (PlusOf s x) = (if s then len x + 3 else len x + 12)"
| "len (Opt x) = len x + 9"
| "len x = 3"
| "len_seq [] = 3"
| "len_seq (x # xs) = (if xs = [] then len x else len x + len_seq xs)"
| "len_alts [] = 0"
| "len_alts (b # bs) = 3 + len_seq b + len_alts bs"

fun code :: "node \<Rightarrow> nat \<Rightarrow> u8 list" and code_seq :: "node list \<Rightarrow> nat \<Rightarrow> u8 list"
  and code_alts :: "node list list \<Rightarrow> u8 list" where
  "code Bol t = node3 O_BOL t"
| "code Eol t = node3 O_EOL t"
| "code Any t = node3 O_ANY t"
| "code WordA t = node3 O_WORDA t"
| "code WordZ t = node3 O_WORDZ t"
| "code (AnyOf b) t = node3 O_ANYOF t @ b @ [0]"
| "code (AnyBut b) t = node3 O_ANYBUT t @ b @ [0]"
| "code (Str b) t = node3 O_EXACTLY t @ b @ [0]"
| "code (Group n bs) t = node3 (O_OPEN + of_nat n) 3 @ code_alts bs @ node3 (O_CLOSE + of_nat n) (ahead t (len_alts bs + 3))"
| "code (StarOf s x) t =
     (if s then node3 O_STAR t @ code x 0
      else node3 O_BRANCH (len x + 6) @ code x (len x) @ node3 O_BACK (len x + 3) @ node3 O_BRANCH 3
           @ node3 O_NOTHING (ahead t (len x + 9)))"
| "code (PlusOf s x) t =
     (if s then node3 O_PLUS t @ code x 0
      else code x (len x) @ node3 O_BRANCH 6 @ node3 O_BACK (len x + 3) @ node3 O_BRANCH 3
           @ node3 O_NOTHING (ahead t (len x + 9)))"
| "code (Opt x) t =
     node3 O_BRANCH (len x + 3) @ code x (len x + 3) @ node3 O_BRANCH 3 @ node3 O_NOTHING (ahead t (len x + 6))"
| "code_seq [] t = node3 O_NOTHING t"
| "code_seq (x # xs) t = (if xs = [] then code x t else code x (len x) @ code_seq xs (ahead t (len x)))"
| "code_alts [] = []"
| "code_alts (b # bs) = node3 O_BRANCH (len_seq b + 3) @ code_seq b (len_seq b + len_alts bs) @ code_alts bs"

definition layout :: "node list list \<Rightarrow> u8 list" where
  "layout bs = MAGIC # code_alts bs @ node3 O_END 0"

lemma length_node3 [simp]: "length (node3 op t) = 3"
  by (simp add: node3_def)

lemma length_code [simp]:
  "length (code x t) = len x" "length (code_seq xs t) = len_seq xs" "length (code_alts bs) = len_alts bs"
  by (induction x t and xs t and bs rule: code_code_seq_code_alts.induct) auto

lemma len_pos: "3 \<le> len x" "3 \<le> len_seq xs"
proof -
  show x: "3 \<le> len x" for x
    by (induction x) auto
  show "3 \<le> len_seq xs"
    by (induction xs) (auto simp: x intro: le_trans [OF x])
qed

lemma length_layout: "length (layout bs) = len_alts bs + 4"
  by (simp add: layout_def)

section \<open>Chains of nodes\<close>

lemma regnext_node3:
  assumes "t < 65536" "length A = p"
  shows "regnext (A @ node3 op t @ B) p =
    (if t = 0 then Some None
     else if op = O_BACK then (if t \<le> p then Some (Some (p - t)) else None) else Some (Some (p + t)))"
proof -
  have "unat (of_nat (t div 256) :: u8) = t div 256" "unat (of_nat t :: u8) = t mod 256"
    using assms(1) by (simp_all add: unat_of_nat less_mult_imp_div_less)
  then show ?thesis
    using assms(2) by (simp add: regnext_def NEXT_def node3_def nth_append)
qed

lemma last_node_step: "regnext c p = Some (Some q) \<Longrightarrow> last_node c p = last_node c q"
  by (subst last_node.simps) simp

lemma last_node_end: "regnext c p = Some None \<Longrightarrow> last_node c p = Some p"
  by (subst last_node.simps) simp

text \<open>
  \<open>leads c ls p q\<close>: the "next" pointers lead from the node at \<open>p\<close> to the one at \<open>q\<close>, and \<open>ls\<close> are the
  literals on the way, the one at \<open>q\<close> left out.
\<close>

inductive leads :: "u8 list \<Rightarrow> (nat \<times> u8 list) list \<Rightarrow> nat \<Rightarrow> nat \<Rightarrow> bool" for c where
  leads_refl: "leads c [] p p"
| leads_step: "regnext c p = Some (Some q) \<Longrightarrow> p < length c \<Longrightarrow> c ! p \<noteq> O_EXACTLY \<Longrightarrow> leads c ls q r \<Longrightarrow> leads c ls p r"
| leads_lit: "regnext c p = Some (Some q) \<Longrightarrow> p < length c \<Longrightarrow> c ! p = O_EXACTLY \<Longrightarrow> cstring c (p + 3) = Some w
    \<Longrightarrow> leads c ls q r \<Longrightarrow> leads c ((p, w) # ls) p r"

lemma leads_trans: "leads c ls p q \<Longrightarrow> leads c ms q r \<Longrightarrow> leads c (ls @ ms) p r"
  by (induction rule: leads.induct) (auto intro: leads.intros)

lemma leads_last: "leads c ls p q \<Longrightarrow> last_node c p = last_node c q"
  by (induction rule: leads.induct) (simp_all add: last_node_step)

lemma nth_node3 [simp]: "(A @ node3 op t @ B) ! length A = op"
  by (simp add: node3_def)

lemma leads_node3:
  assumes "0 < t" "t < 65536" "op \<noteq> O_BACK" "op \<noteq> O_EXACTLY" "length A = p"
  shows "leads (A @ node3 op t @ B) [] p (p + t)"
proof -
  have "regnext (A @ node3 op t @ B) p = Some (Some (p + t))"
    using assms by (simp add: regnext_node3)
  from leads_step [OF this _ _ leads_refl] show ?thesis
    using assms(4,5) nth_node3 [of A op t B] by (simp del: nth_node3)
qed

lemma cstring_operand:
  assumes "0 \<notin> set w" "length A = k"
  shows "cstring (A @ w @ 0 # B) k = Some w"
proof -
  have "takeWhile (\<lambda>b. b \<noteq> 0) (w @ 0 # B) = w"
    using assms(1) by (induction w) auto
  then show ?thesis using assms(2) by (simp add: cstring_def)
qed

lemma leads_exactly:
  assumes "0 < t" "t < 65536" "0 \<notin> set w" "length A = p"
  shows "leads (A @ node3 O_EXACTLY t @ w @ 0 # B) [(p, w)] p (p + t)"
proof -
  have "regnext (A @ node3 O_EXACTLY t @ w @ 0 # B) p = Some (Some (p + t))"
    using assms by (simp add: regnext_node3)
  moreover have "cstring ((A @ node3 O_EXACTLY t) @ w @ 0 # B) (p + 3) = Some w"
    using assms by (intro cstring_operand) simp_all
  ultimately show ?thesis
    using leads_lit [of _ p "p + t" w "[]" "p + t"] leads_refl assms(4) nth_node3 [of A O_EXACTLY t "w @ 0 # B"]
    by (simp del: nth_node3)
qed

lemma last_node_unhooked:
  assumes "length A = p"
  shows "last_node (A @ node3 op 0 @ B) p = Some p"
  by (rule last_node_end) (use assms in \<open>simp add: regnext_node3\<close>)

text \<open>The branches of an expression, linked; the bodies may be hooked or not.\<close>

fun brs :: "u8 list list \<Rightarrow> u8 list" where
  "brs [] = []"
| "brs (b # bs) = node3 O_BRANCH (length b + 3) @ b @ brs bs"

fun bodies :: "node list list \<Rightarrow> u8 list list" where
  "bodies [] = []"
| "bodies (b # bs) = code_seq b (len_seq b + len_alts bs) # bodies bs"

definition loose :: "node list list \<Rightarrow> u8 list list" where
  "loose bs = map (\<lambda>b. code_seq b 0) bs"

lemma code_alts_brs: "code_alts bs = brs (bodies bs)"
  by (induction bs) simp_all

lemma brs_append [simp]: "brs (bs @ cs) = brs bs @ brs cs"
  by (induction bs) simp_all

lemma length_brs: "length (brs bs) = sum_list (map (\<lambda>b. length b + 3) bs)"
  by (induction bs) simp_all

lemma length_brs_loose [simp]: "length (brs (loose bs)) = len_alts bs"
  by (induction bs) (simp_all add: loose_def)

lemma leads_brs:
  assumes "length (brs bs) < 65536" "length A = p"
  shows "leads (A @ brs bs @ B) [] p (p + length (brs bs))"
  using assms
proof (induction bs arbitrary: A p)
  case (Cons b bs)
  let ?C = "A @ brs (b # bs) @ B"
  have "leads ?C [] p (p + (length b + 3))"
    using leads_node3 [of "length b + 3" O_BRANCH A p "b @ brs bs @ B"] Cons.prems by simp
  moreover have "leads ?C [] (p + (length b + 3)) (p + (length b + 3) + length (brs bs))"
    using Cons.IH [of "A @ node3 O_BRANCH (length b + 3) @ b" "p + (length b + 3)"] Cons.prems by simp
  ultimately show ?case
    using leads_trans by (fastforce simp: algebra_simps)
qed (simp add: leads_refl)

text \<open>The literals that every match of a piece at \<open>p\<close> goes through.\<close>

fun must_lits :: "nat \<Rightarrow> node \<Rightarrow> (nat \<times> u8 list) list" where
  "must_lits p (Str b) = [(p, b)]"
| "must_lits p (PlusOf s x) = (if s then [] else must_lits p x)"
| "must_lits p x = []"

definition is_Str :: "node \<Rightarrow> bool" where
  "is_Str x = (case x of Str b \<Rightarrow> True | _ \<Rightarrow> False)"

text \<open>Where the chain of a piece ends.\<close>

fun tailpos :: "node \<Rightarrow> nat" where
  "tailpos (Group n bs) = len_alts bs + 3"
| "tailpos (StarOf s x) = (if s then 0 else len x + 9)"
| "tailpos (PlusOf s x) = (if s then 0 else len x + 9)"
| "tailpos (Opt x) = len x + 6"
| "tailpos x = 0"

fun tailpos_seq :: "node list \<Rightarrow> nat" where
  "tailpos_seq [] = 0"
| "tailpos_seq (x # xs) = (if xs = [] then tailpos x else len x + tailpos_seq xs)"

lemma ahead_simps [simp]: "ahead t 0 = t" "ahead 0 k = 0" "ahead (ahead t a) b = ahead t (a + b) \<or> t \<le> a"
  by (auto simp: ahead_def)

lemma tailpos_len: "tailpos x + 3 \<le> len x" "tailpos_seq xs + 3 \<le> len_seq xs"
proof -
  show x: "tailpos x + 3 \<le> len x" for x
    by (cases x) auto
  show "tailpos_seq xs + 3 \<le> len_seq xs"
    by (induction xs) (auto simp: x add.assoc intro: le_trans [OF x])
qed

section \<open>Well-formed expressions\<close>

text \<open>
  What the parser guarantees: bytes of operands are not NUL, at most nine groups, the operand of
  \<open>*\<close> and \<open>+\<close> never matches the empty string and is one character where the flag says so.
\<close>

definition single :: "node \<Rightarrow> bool" where
  "single x = (case x of Any \<Rightarrow> True | AnyOf b \<Rightarrow> True | AnyBut b \<Rightarrow> True | Str b \<Rightarrow> length b = 1 | _ \<Rightarrow> False)"

fun wf :: "node \<Rightarrow> bool" and wf_seq :: "node list \<Rightarrow> bool" and wf_alts :: "node list list \<Rightarrow> bool" where
  "wf (AnyOf b) = (0 \<notin> set b)"
| "wf (AnyBut b) = (0 \<notin> set b)"
| "wf (Str b) = (0 \<notin> set b \<and> b \<noteq> [])"
| "wf (Group n bs) = (0 < n \<and> n < NSUBEXP \<and> bs \<noteq> [] \<and> wf_alts bs)"
| "wf (StarOf s x) = (wf x \<and> has_width x \<and> (s \<longrightarrow> single x))"
| "wf (PlusOf s x) = (wf x \<and> has_width x \<and> (s \<longrightarrow> single x))"
| "wf (Opt x) = wf x"
| "wf x = True"
| "wf_seq [] = True"
| "wf_seq (x # xs) = (wf x \<and> wf_seq xs)"
| "wf_alts [] = True"
| "wf_alts (b # bs) = (wf_seq b \<and> wf_alts bs)"

lemma wf_seq_iff: "wf_seq xs \<longleftrightarrow> (\<forall>x\<in>set xs. wf x)"
  by (induction xs) auto

lemma wf_alts_iff: "wf_alts bs \<longleftrightarrow> (\<forall>b\<in>set bs. wf_seq b)"
  by (induction bs) auto

lemma small_group: "n < NSUBEXP \<Longrightarrow> n \<in> {0,1,2,3,4,5,6,7,8,9}"
  by auto

lemma group_op: "n < NSUBEXP \<Longrightarrow> O_OPEN + of_nat n \<notin> {O_BACK, O_BRANCH, O_EXACTLY} \<and> O_CLOSE + of_nat n \<notin> {O_BACK, O_BRANCH, O_EXACTLY}"
  using small_group [of n] by auto

lemma code_tail:
  assumes "wf x"
  shows "\<exists>A op B. length A = tailpos x \<and> op \<noteq> O_BACK \<and> (op = O_EXACTLY \<longleftrightarrow> is_Str x)
    \<and> (\<forall>t. code x t = A @ node3 op (ahead t (tailpos x)) @ B)"
proof (cases x)
  case (Group n bs)
  have "\<forall>t. code x t = (node3 (O_OPEN + of_nat n) 3 @ code_alts bs) @ node3 (O_CLOSE + of_nat n) (ahead t (tailpos x)) @ []"
    using Group by simp
  moreover have "length (node3 (O_OPEN + of_nat n) 3 @ code_alts bs) = tailpos x"
    using Group by simp
  ultimately show "\<exists>A op B. length A = tailpos x \<and> op \<noteq> O_BACK \<and> (op = O_EXACTLY \<longleftrightarrow> is_Str x)
    \<and> (\<forall>t. code x t = A @ node3 op (ahead t (tailpos x)) @ B)"
    using group_op [of n] assms Group
    by (intro exI [of _ "node3 (O_OPEN + of_nat n) 3 @ code_alts bs"] exI [of _ "O_CLOSE + of_nat n"] exI [of _ "[]"]) (simp add: is_Str_def)
next
  case (StarOf s y)
  show ?thesis
  proof (cases s)
    case True
    then show ?thesis using StarOf by (intro exI [of _ "[]"] exI [of _ O_STAR] exI [of _ "code y 0"]) (simp add: is_Str_def)
  next
    case False
    then show ?thesis using StarOf
      by (intro exI [of _ "node3 O_BRANCH (len y + 6) @ code y (len y) @ node3 O_BACK (len y + 3) @ node3 O_BRANCH 3"]
          exI [of _ O_NOTHING] exI [of _ "[]"]) (simp add: is_Str_def)
  qed
next
  case (PlusOf s y)
  show ?thesis
  proof (cases s)
    case True
    then show ?thesis using PlusOf by (intro exI [of _ "[]"] exI [of _ O_PLUS] exI [of _ "code y 0"]) (simp add: is_Str_def)
  next
    case False
    then show ?thesis using PlusOf
      by (intro exI [of _ "code y (len y) @ node3 O_BRANCH 6 @ node3 O_BACK (len y + 3) @ node3 O_BRANCH 3"]
          exI [of _ O_NOTHING] exI [of _ "[]"]) (simp add: is_Str_def)
  qed
next
  case (Opt y)
  then show ?thesis
    by (intro exI [of _ "node3 O_BRANCH (len y + 3) @ code y (len y + 3) @ node3 O_BRANCH 3"]
        exI [of _ O_NOTHING] exI [of _ "[]"]) (simp add: is_Str_def)
next
  case Bol then show ?thesis by (intro exI [of _ "[]"] exI [of _ O_BOL]) (simp add: is_Str_def)
next
  case Eol then show ?thesis by (intro exI [of _ "[]"] exI [of _ O_EOL]) (simp add: is_Str_def)
next
  case Any then show ?thesis by (intro exI [of _ "[]"] exI [of _ O_ANY]) (simp add: is_Str_def)
next
  case WordA then show ?thesis by (intro exI [of _ "[]"] exI [of _ O_WORDA]) (simp add: is_Str_def)
next
  case WordZ then show ?thesis by (intro exI [of _ "[]"] exI [of _ O_WORDZ]) (simp add: is_Str_def)
next
  case (AnyOf b) then show ?thesis by (intro exI [of _ "[]"] exI [of _ O_ANYOF] exI [of _ "b @ [0]"]) (simp add: is_Str_def)
next
  case (AnyBut b) then show ?thesis by (intro exI [of _ "[]"] exI [of _ O_ANYBUT] exI [of _ "b @ [0]"]) (simp add: is_Str_def)
next
  case (Str b) then show ?thesis by (intro exI [of _ "[]"] exI [of _ O_EXACTLY] exI [of _ "b @ [0]"]) (simp add: is_Str_def)
qed

lemma code_seq_tail:
  assumes "wf_seq xs"
  shows "\<exists>A op B. length A = tailpos_seq xs \<and> op \<noteq> O_BACK
    \<and> (\<forall>t. t = 0 \<or> len_seq xs \<le> t \<longrightarrow> code_seq xs t = A @ node3 op (ahead t (tailpos_seq xs)) @ B)"
  using assms
proof (induction xs)
  case Nil
  show ?case by (intro exI [of _ "[]"] exI [of _ O_NOTHING]) simp
next
  case (Cons x xs)
  show ?case
  proof (cases "xs = []")
    case True
    have "\<exists>A op B. length A = tailpos x \<and> op \<noteq> O_BACK \<and> (\<forall>t. code x t = A @ node3 op (ahead t (tailpos x)) @ B)"
      using code_tail [of x] Cons.prems by auto
    then show ?thesis
      unfolding True code_seq.simps tailpos_seq.simps by (simp only: refl if_True) blast
  next
    case False
    obtain A op B where *: "length A = tailpos_seq xs" "op \<noteq> O_BACK"
      "\<forall>t. t = 0 \<or> len_seq xs \<le> t \<longrightarrow> code_seq xs t = A @ node3 op (ahead t (tailpos_seq xs)) @ B"
      using Cons by auto
    have "code_seq (x # xs) t = (code x (len x) @ A) @ node3 op (ahead t (tailpos_seq (x # xs))) @ B"
      if "t = 0 \<or> len_seq (x # xs) \<le> t" for t
    proof -
      have "ahead t (len x) = 0 \<or> len_seq xs \<le> ahead t (len x)"
        using that False by (auto simp: ahead_def)
      then have "code_seq xs (ahead t (len x)) = A @ node3 op (ahead (ahead t (len x)) (tailpos_seq xs)) @ B"
        using *(3) by blast
      moreover have "ahead (ahead t (len x)) (tailpos_seq xs) = ahead t (len x + tailpos_seq xs)"
        using that False len_pos(1) [of x] len_pos(2) [of xs] by (auto simp: ahead_def)
      ultimately show ?thesis using False by simp
    qed
    then show ?thesis
      using False *(1,2) by (intro exI [of _ "code x (len x) @ A"] exI [of _ op] exI [of _ B]) simp
  qed
qed

text \<open>
  The literals before the last node of a piece; a piece that is hooked to what follows it leads the
  chain past its last byte.
\<close>

definition lits_before :: "nat \<Rightarrow> node \<Rightarrow> (nat \<times> u8 list) list" where
  "lits_before p x = (if is_Str x then [] else must_lits p x)"

lemma leads_tail:
  assumes "leads (A @ code x t @ B) (lits_before p x) p (p + tailpos x)" "wf x" "len x \<le> t" "t < 65536" "length A = p"
  shows "leads (A @ code x t @ B) (must_lits p x) p (p + t)"
proof (cases "is_Str x")
  case True
  then obtain b where b: "x = Str b" by (cases x) (auto simp: is_Str_def)
  then show ?thesis
    using leads_exactly [of t b A p B] assms(2-5) by simp
next
  case False
  obtain D op E where D: "length D = tailpos x" "op \<noteq> O_BACK" "op \<noteq> O_EXACTLY"
    "\<forall>t. code x t = D @ node3 op (ahead t (tailpos x)) @ E"
    using code_tail [OF assms(2)] False by auto
  have ah: "ahead t (tailpos x) = t - tailpos x" "0 < t - tailpos x" "t - tailpos x < 65536" "tailpos x + (t - tailpos x) = t"
    using tailpos_len(1) [of x] assms(3,4) by (auto simp: ahead_def)
  have "leads (A @ code x t @ B) [] (p + tailpos x) (p + t)"
    using leads_node3 [OF ah(2,3) D(2,3), of "A @ D" "p + tailpos x" "E @ B"] assms(5) D(1,4) ah by (simp add: add.assoc)
  from leads_trans [OF assms(1) this] show ?thesis
    using False by (simp add: lits_before_def)
qed

lemma leads_code:
  assumes "wf x" "len x < 65536" "length A = p"
  shows "leads (A @ code x t @ B) (lits_before p x) p (p + tailpos x)"
  using assms
proof (induction x arbitrary: t A B p)
  case (Group n bs)
  let ?E = "node3 (O_CLOSE + of_nat n) (ahead t (len_alts bs + 3)) @ B"
  let ?C = "A @ code (Group n bs) t @ B"
  have "leads ?C [] p (p + 3)"
    using leads_node3 [of 3 "O_OPEN + of_nat n" A p "code_alts bs @ ?E"] Group.prems group_op [of n] by simp
  moreover have "leads ?C [] (p + 3) (p + 3 + len_alts bs)"
    using leads_brs [of "bodies bs" "A @ node3 (O_OPEN + of_nat n) 3" "p + 3" ?E] Group.prems by (simp flip: code_alts_brs)
  ultimately show ?case
    using leads_trans by (fastforce simp: lits_before_def is_Str_def algebra_simps)
next
  case (StarOf s x)
  show ?case
  proof (cases s)
    case False
    let ?E = "node3 O_NOTHING (ahead t (len x + 9)) @ B" and ?M = "code x (len x) @ node3 O_BACK (len x + 3)"
    let ?C = "A @ code (StarOf s x) t @ B"
    have "leads ?C [] p (p + (len x + 6))"
      using leads_node3 [of "len x + 6" O_BRANCH A p "?M @ node3 O_BRANCH 3 @ ?E"] StarOf.prems False by simp
    moreover have "leads ?C [] (p + (len x + 6)) (p + (len x + 6) + 3)"
      using leads_node3 [of 3 O_BRANCH "A @ node3 O_BRANCH (len x + 6) @ ?M" "p + (len x + 6)" ?E] StarOf.prems False by simp
    ultimately show ?thesis
      using leads_trans False by (fastforce simp: lits_before_def is_Str_def algebra_simps)
  qed (simp add: leads_refl lits_before_def is_Str_def)
next
  case (PlusOf s x)
  show ?case
  proof (cases s)
    case False
    let ?E = "node3 O_NOTHING (ahead t (len x + 9)) @ B" and ?M = "node3 O_BACK (len x + 3)"
    let ?C = "A @ code (PlusOf s x) t @ B"
    have x: "wf x" "len x \<le> len x" "len x < 65536" using PlusOf.prems False by auto
    from leads_tail [OF PlusOf.IH [OF x(1,3) PlusOf.prems(3)] x PlusOf.prems(3)]
    have "leads ?C (must_lits p x) p (p + len x)"
      using False by simp
    moreover have "leads ?C [] (p + len x) (p + len x + 6)"
      using leads_node3 [of 6 O_BRANCH "A @ code x (len x)" "p + len x" "?M @ node3 O_BRANCH 3 @ ?E"] PlusOf.prems False by simp
    moreover have "leads ?C [] (p + len x + 6) (p + len x + 6 + 3)"
      using leads_node3 [of 3 O_BRANCH "A @ code x (len x) @ node3 O_BRANCH 6 @ ?M" "p + len x + 6" ?E] PlusOf.prems False by simp
    ultimately have "leads ?C (must_lits p x @ [] @ []) p (p + len x + 6 + 3)"
      by (intro leads_trans)
    then show ?thesis
      using False by (simp add: lits_before_def is_Str_def algebra_simps)
  qed (simp add: leads_refl lits_before_def is_Str_def)
next
  case (Opt x)
  let ?E = "node3 O_NOTHING (ahead t (len x + 6)) @ B"
  let ?C = "A @ code (Opt x) t @ B"
  have "leads ?C [] p (p + (len x + 3))"
    using leads_node3 [of "len x + 3" O_BRANCH A p "code x (len x + 3) @ node3 O_BRANCH 3 @ ?E"] Opt.prems by simp
  moreover have "leads ?C [] (p + (len x + 3)) (p + (len x + 3) + 3)"
    using leads_node3 [of 3 O_BRANCH "A @ node3 O_BRANCH (len x + 3) @ code x (len x + 3)" "p + (len x + 3)" ?E] Opt.prems by simp
  ultimately show ?case
    using leads_trans by (fastforce simp: lits_before_def is_Str_def algebra_simps)
qed (simp_all add: leads_refl lits_before_def is_Str_def)

lemmas last_node_code = leads_last [OF leads_code]
lemmas leads_past = leads_tail [OF leads_code]

lemma last_node_past:
  assumes "wf x" "len x < 65536" "length A = p"
  shows "last_node (A @ code x (len x) @ B) p = last_node (A @ code x (len x) @ B) (p + len x)"
  using leads_last [OF leads_past] assms by simp

lemma last_node_code_0:
  assumes "wf x" "len x < 65536" "length A = p"
  shows "last_node (A @ code x 0 @ B) p = Some (p + tailpos x)"
proof -
  obtain D op E where D: "length D = tailpos x" "\<forall>t. code x t = D @ node3 op (ahead t (tailpos x)) @ E"
    using code_tail [OF assms(1)] by auto
  have "last_node ((A @ D) @ node3 op 0 @ (E @ B)) (p + tailpos x) = Some (p + tailpos x)"
    using D assms by (intro last_node_unhooked) simp
  then show ?thesis using last_node_code [OF assms, of 0 B] D by simp
qed

lemma last_node_seq_0:
  assumes "wf_seq xs" "len_seq xs < 65536" "length A = p"
  shows "last_node (A @ code_seq xs 0 @ B) p = Some (p + tailpos_seq xs)"
  using assms
proof (induction xs arbitrary: A p)
  case Nil
  then show ?case by (simp add: last_node_unhooked)
next
  case (Cons x xs)
  show ?case
  proof (cases "xs = []")
    case True
    then show ?thesis using Cons.prems last_node_code_0 by simp
  next
    case False
    have "last_node (A @ code x (len x) @ (code_seq xs 0 @ B)) p
        = last_node (A @ code x (len x) @ (code_seq xs 0 @ B)) (p + len x)"
      using Cons.prems False by (intro last_node_past) simp_all
    moreover have "last_node ((A @ code x (len x)) @ code_seq xs 0 @ B) (p + len x) = Some (p + len x + tailpos_seq xs)"
      using Cons.prems False by (intro Cons.IH) simp_all
    ultimately show ?thesis using False by (simp add: algebra_simps)
  qed
qed

section \<open>Linking\<close>

lemma word_div: "s \<le> val \<Longrightarrow> word_of_int ((int val - int s) div 2 ^ 8) = (of_nat ((val - s) div 256) :: u8)"
proof -
  assume "s \<le> val"
  then have "(int val - int s) div 2 ^ 8 = int ((val - s) div 256)" by (simp add: zdiv_int)
  then show ?thesis by (simp only: of_int_of_nat_eq)
qed

lemma word_diff: "s \<le> val \<Longrightarrow> word_of_int (int val - int s) = (of_nat (val - s) :: u8)"
  by (simp add: of_nat_diff)

lemma patch_node3:
  assumes "length A = s"
  shows "(A @ node3 op u @ B)[s + 1 := of_nat (t div 256), s + 2 := of_nat t] = A @ node3 op t @ B"
  using assms by (simp add: node3_def list_update_append)

lemma set_tail_at:
  assumes "last_node (A @ node3 op 0 @ B) p = Some s" "length A = s" "op \<noteq> O_BACK" "s \<le> val"
  shows "set_tail p val (A @ node3 op 0 @ B) = Some (A @ node3 op (val - s) @ B)"
  using assms nth_node3 [of A op 0 B] patch_node3 [of A s op 0 B "val - s"]
  unfolding set_tail_def by (simp only: option.case Let_def if_False word_div word_diff)

lemma set_tail_back:
  assumes "last_node (A @ node3 O_BACK 0 @ B) p = Some s" "length A = s" "val \<le> s"
  shows "set_tail p val (A @ node3 O_BACK 0 @ B) = Some (A @ node3 O_BACK (s - val) @ B)"
  using assms nth_node3 [of A O_BACK 0 B] patch_node3 [of A s O_BACK 0 B "s - val"]
  unfolding set_tail_def by (simp only: option.case Let_def if_True word_div word_diff refl)

lemma set_tail_code:
  assumes "wf x" "len x \<le> t" "t < 65536" "length A = p"
  shows "set_tail p (p + t) (A @ code x 0 @ B) = Some (A @ code x t @ B)"
proof -
  obtain D op E where D: "length D = tailpos x" "op \<noteq> O_BACK" "\<forall>t. code x t = D @ node3 op (ahead t (tailpos x)) @ E"
    using code_tail [OF assms(1)] by auto
  have "last_node (A @ code x 0 @ B) p = Some (p + tailpos x)"
    using assms by (intro last_node_code_0) simp_all
  then have "set_tail p (p + t) ((A @ D) @ node3 op 0 @ (E @ B)) = Some ((A @ D) @ node3 op (p + t - (p + tailpos x)) @ (E @ B))"
    using D assms tailpos_len(1) [of x] by (intro set_tail_at) simp_all
  then show ?thesis
    using D assms tailpos_len(1) [of x] by (simp add: ahead_def split: if_splits)
qed

lemma set_tail_seq:
  assumes "wf_seq xs" "len_seq xs \<le> t" "t < 65536" "length A = p"
  shows "set_tail p (p + t) (A @ code_seq xs 0 @ B) = Some (A @ code_seq xs t @ B)"
proof -
  obtain D op E where D: "length D = tailpos_seq xs" "op \<noteq> O_BACK"
    "\<forall>t. t = 0 \<or> len_seq xs \<le> t \<longrightarrow> code_seq xs t = D @ node3 op (ahead t (tailpos_seq xs)) @ E"
    using code_seq_tail [OF assms(1)] by auto
  have "last_node (A @ code_seq xs 0 @ B) p = Some (p + tailpos_seq xs)"
    using assms by (intro last_node_seq_0) simp_all
  then have "set_tail p (p + t) ((A @ D) @ node3 op 0 @ (E @ B)) = Some ((A @ D) @ node3 op (p + t - (p + tailpos_seq xs)) @ (E @ B))"
    using D assms tailpos_len(2) [of xs] by (intro set_tail_at) simp_all
  then show ?thesis
    using D assms tailpos_len(2) [of xs] len_pos(2) [of xs] by (simp add: ahead_def split: if_splits)
qed

text \<open>The last node of a list of linked branches, with or without an \<open>OPEN\<close> node before it.\<close>

lemma set_tail_branches:
  assumes "length (brs bs) + length l + 3 < 65536" "length A = p" "t = length (brs bs) + length l + 3"
  shows "set_tail p (p + t) (A @ brs bs @ node3 O_BRANCH 0 @ l @ B) = Some (A @ brs (bs @ [l]) @ B)"
proof -
  have "last_node (A @ brs bs @ (node3 O_BRANCH 0 @ l @ B)) p = last_node (A @ brs bs @ (node3 O_BRANCH 0 @ l @ B)) (p + length (brs bs))"
    using assms by (intro leads_last [OF leads_brs]) simp_all
  moreover have "last_node ((A @ brs bs) @ node3 O_BRANCH 0 @ (l @ B)) (p + length (brs bs)) = Some (p + length (brs bs))"
    using assms by (intro last_node_unhooked) simp
  ultimately have "set_tail p (p + t) ((A @ brs bs) @ node3 O_BRANCH 0 @ (l @ B))
      = Some ((A @ brs bs) @ node3 O_BRANCH (p + t - (p + length (brs bs))) @ (l @ B))"
    using assms by (intro set_tail_at) simp_all
  then show ?thesis using assms by simp
qed

lemma set_tail_open_branches:
  assumes "length (brs bs) + length l + 6 < 65536" "length A = p" "t = length (brs bs) + length l + 6" "op \<noteq> O_BACK" "op \<noteq> O_EXACTLY"
  shows "set_tail p (p + t) (A @ node3 op 3 @ brs bs @ node3 O_BRANCH 0 @ l @ B) = Some (A @ node3 op 3 @ brs (bs @ [l]) @ B)"
proof -
  have "last_node (A @ node3 op 3 @ (brs bs @ node3 O_BRANCH 0 @ l @ B)) p
      = last_node (A @ node3 op 3 @ (brs bs @ node3 O_BRANCH 0 @ l @ B)) (p + 3)"
    using assms by (intro leads_last [OF leads_node3]) simp_all
  moreover have "last_node ((A @ node3 op 3) @ brs bs @ (node3 O_BRANCH 0 @ l @ B)) (p + 3)
      = last_node ((A @ node3 op 3) @ brs bs @ (node3 O_BRANCH 0 @ l @ B)) (p + 3 + length (brs bs))"
    using assms by (intro leads_last [OF leads_brs]) simp_all
  moreover have "last_node ((A @ node3 op 3 @ brs bs) @ node3 O_BRANCH 0 @ (l @ B)) (p + 3 + length (brs bs)) = Some (p + 3 + length (brs bs))"
    using assms by (intro last_node_unhooked) simp
  ultimately have "set_tail p (p + t) ((A @ node3 op 3 @ brs bs) @ node3 O_BRANCH 0 @ (l @ B))
      = Some ((A @ node3 op 3 @ brs bs) @ node3 O_BRANCH (p + t - (p + 3 + length (brs bs))) @ (l @ B))"
    using assms by (intro set_tail_at) simp_all
  then show ?thesis using assms by (simp add: add.commute)
qed

text \<open>Hooking the branches.\<close>

lemma hook_branches_brs:
  assumes "wf_alts bs" "len_alts bs + 3 < 65536" "length A = p" "e = p + len_alts bs" "op \<noteq> O_BACK" "op \<noteq> O_BRANCH"
  shows "hook_branches e p (A @ brs (loose bs) @ node3 op 0 @ B) = Some (A @ brs (bodies bs) @ node3 op 0 @ B)"
  using assms
proof (induction bs arbitrary: A p)
  case Nil
  have "set_optail p p (A @ node3 op 0 @ B) = Some (A @ node3 op 0 @ B)"
    using Nil nth_node3 [of A op 0 B] by (simp add: set_optail_def)
  then show ?case
    using Nil by (subst hook_branches.simps) (simp add: loose_def regnext_node3)
next
  case (Cons b bs)
  let ?X = "brs (loose bs) @ node3 op 0 @ B" and ?br = "node3 O_BRANCH (len_seq b + 3)"
  let ?t = "len_seq b + len_alts bs"
  have "set_tail (p + 3) (p + 3 + ?t) ((A @ ?br) @ code_seq b 0 @ ?X) = Some ((A @ ?br) @ code_seq b ?t @ ?X)"
    using Cons.prems by (intro set_tail_seq) simp_all
  then have "set_optail p e (A @ ?br @ code_seq b 0 @ ?X) = Some (A @ ?br @ code_seq b ?t @ ?X)"
    using Cons.prems nth_node3 [of A O_BRANCH "len_seq b + 3" "code_seq b 0 @ ?X"]
    by (simp add: set_optail_def algebra_simps)
  moreover have "regnext (A @ ?br @ (code_seq b ?t @ ?X)) p = Some (Some (p + (len_seq b + 3)))"
    using Cons.prems by (simp add: regnext_node3)
  moreover have "hook_branches e (p + (len_seq b + 3)) ((A @ ?br @ code_seq b ?t) @ ?X)
      = Some ((A @ ?br @ code_seq b ?t) @ brs (bodies bs) @ node3 op 0 @ B)"
    using Cons.prems by (intro Cons.IH) simp_all
  ultimately show ?case
    by (subst hook_branches.simps) (simp add: loose_def)
qed

lemma hook_branches_open:
  assumes "hook_branches e (p + 3) (A @ node3 op 3 @ B) = Some C" "length A = p" "op \<noteq> O_BACK" "op \<noteq> O_BRANCH"
  shows "hook_branches e p (A @ node3 op 3 @ B) = Some C"
proof -
  have "set_optail p e (A @ node3 op 3 @ B) = Some (A @ node3 op 3 @ B)"
    using assms nth_node3 [of A op 3 B] by (simp add: set_optail_def)
  then show ?thesis
    using assms by (subst hook_branches.simps) (simp add: regnext_node3)
qed

section \<open>Emission, whatever the pass\<close>

text \<open>
  \<open>emit b st\<close> is the state after the bytes \<open>b\<close> have been emitted, or counted. In the first pass a
  program byte is only counted, so every link and every move of bytes leaves the state as it is.
\<close>

definition emit :: "u8 list \<Rightarrow> rstate \<Rightarrow> rstate" where
  "emit b st = (case regcode st of
       None \<Rightarrow> st\<lparr> regsize := regsize st + length b \<rparr>
     | Some c \<Rightarrow> if b = [] then st else store (c @ b) st)"

definition adv :: "ptr \<Rightarrow> nat \<Rightarrow> ptr" where
  "adv p n = map_option (\<lambda>k. k + n) p"

definition fits :: "rstate \<Rightarrow> nat \<Rightarrow> bool" where
  "fits st n = (case regcode st of None \<Rightarrow> True | Some c \<Rightarrow> length c + n < 65536)"

lemma adv_simps [simp]: "adv p 0 = p" "adv (adv p a) b = adv p (a + b)" "adv (Some k) n = Some (k + n)" "adv None n = None"
  by (simp_all add: adv_def option.map_comp comp_def add.assoc option.map_ident)

lemma fits_mono: "fits st n \<Longrightarrow> m \<le> n \<Longrightarrow> fits st m"
  by (auto simp: fits_def split: option.splits)

lemma store_simps [simp]:
  "regparse (store c st) = regparse st" "regnpar (store c st) = regnpar st" "regsize (store c st) = regsize st"
  "regcode (store c st) = Some c" "regover (store c st) \<longleftrightarrow> regover st \<or> regsize st < length c"
  "store c (st\<lparr> regparse := r \<rparr>) = (store c st)\<lparr> regparse := r \<rparr>"
  "store c (st\<lparr> regnpar := n \<rparr>) = (store c st)\<lparr> regnpar := n \<rparr>"
  "length c \<le> length d \<Longrightarrow> store d (store c st) = store d st"
  "length c = length d \<Longrightarrow> (store c st)\<lparr> regcode := Some d \<rparr> = store d st"
  by (auto simp: store_def intro!: rstate.equality)

lemma emit_simps [simp]:
  "regparse (emit b st) = regparse st" "regnpar (emit b st) = regnpar st"
  "emit [] st = st" "emit c (emit b st) = emit (b @ c) st"
  "emit b (st\<lparr> regparse := r \<rparr>) = (emit b st)\<lparr> regparse := r \<rparr>"
  "emit b (st\<lparr> regnpar := n \<rparr>) = (emit b st)\<lparr> regnpar := n \<rparr>"
  "here (emit b st) = adv (here st) (length b)"
  "here (st\<lparr> regparse := r \<rparr>) = here st" "here (st\<lparr> regnpar := n \<rparr>) = here st"
  "fits (emit b st) n = fits st (length b + n)"
  "fits (st\<lparr> regparse := r \<rparr>) n = fits st n" "fits (st\<lparr> regnpar := np \<rparr>) n = fits st n"
  "regcode (emit b st) = None \<longleftrightarrow> regcode st = None"
  by (auto simp: emit_def here_def fits_def adv_def split: option.splits)

text \<open>A link replaces bytes in place.\<close>

lemma emit_linked:
  assumes "regcode st = Some A"
  shows "regcode (emit B st) = Some (A @ B)"
    and "length B = length C \<Longrightarrow> (emit B st)\<lparr> regcode := Some (A @ C) \<rparr> = emit C st"
  using assms by (auto simp: emit_def)

lemma regc_emit: "regc b st = emit [b] st"
  by (simp add: regc_def emit_def split: option.splits)

lemma regnode_emit: "regnode op st = (here st, emit (node3 op 0) st)"
  by (simp add: regnode_def emit_def node3_def split: option.splits)

lemma regnext_None_length: "fits st n \<Longrightarrow> regcode st = Some c \<Longrightarrow> length c + n < 65536"
  by (simp add: fits_def)

lemma fold_regc: "fold (\<lambda>k. regc (of_nat k)) ks st = emit (map of_nat ks) st"
  by (induction ks arbitrary: st) (simp_all add: regc_emit)

text \<open>A link, in both passes at once.\<close>

lemma on_code_emit:
  assumes "\<And>A. length A + n < 65536 \<Longrightarrow> f (length A + k) (length A + v) (A @ B) = Some (A @ C)"
    and "length B = length C" "fits st n"
  shows "on_code f (adv (here st) k) (adv (here st) v) (emit B st) = Inr (emit C st)"
proof (cases "regcode st")
  case (Some A)
  then show ?thesis using assms(1) [of A] assms(2,3) emit_linked [OF Some]
    by (simp add: on_code_def here_def fits_def)
qed (use assms(2) in \<open>simp add: on_code_def here_def emit_def\<close>)

lemma regtail_code:
  assumes "wf x" "len x \<le> t" "fits st (k + t)" "length P = k"
  shows "regtail (adv (here st) k) (adv (here st) (k + t)) (emit (P @ code x 0 @ B) st) = Inr (emit (P @ code x t @ B) st)"
  unfolding regtail_def
proof (rule on_code_emit [OF _ _ assms(3)])
  fix A :: "u8 list" assume "length A + (k + t) < 65536"
  then show "set_tail (length A + k) (length A + (k + t)) (A @ P @ code x 0 @ B) = Some (A @ P @ code x t @ B)"
    using set_tail_code [OF assms(1,2), of "A @ P" "length A + k" B] assms(4) by (simp add: add.assoc)
qed simp

lemma regoptail_code:
  assumes "wf x" "len x \<le> t" "fits st (k + t + 3)" "length P = k"
  shows "regoptail (adv (here st) k) (adv (here st) (k + 3 + t)) (emit (P @ node3 O_BRANCH u @ code x 0 @ B) st)
    = Inr (emit (P @ node3 O_BRANCH u @ code x t @ B) st)"
  unfolding regoptail_def
proof (rule on_code_emit [OF _ _ assms(3)])
  fix A :: "u8 list" assume "length A + (k + t + 3) < 65536"
  then show "set_optail (length A + k) (length A + (k + 3 + t)) (A @ P @ node3 O_BRANCH u @ code x 0 @ B) = Some (A @ P @ node3 O_BRANCH u @ code x t @ B)"
    using set_tail_code [OF assms(1,2), of "A @ P @ node3 O_BRANCH u" "length A + k + 3" B] assms(4)
      nth_node3 [of "A @ P" O_BRANCH u "code x 0 @ B"]
    by (simp add: set_optail_def add.assoc)
qed simp

lemma reginsert_emit:
  "reginsert op (here st) (emit B st) = Inr (emit (node3 op 0 @ B) st)"
  by (simp add: reginsert_def emit_def here_def node3_def split: option.splits)

text \<open>Links between nodes that have just been emitted.\<close>

lemma regtail_unhooked:
  assumes "op \<noteq> O_BACK" "length P = k" "k \<le> v"
  shows "regtail (adv (here st) k) (adv (here st) v) (emit (P @ node3 op 0 @ B) st) = Inr (emit (P @ node3 op (v - k) @ B) st)"
proof -
  have "set_tail (length A + k) (length A + v) (A @ P @ node3 op 0 @ B) = Some (A @ P @ node3 op (v - k) @ B)" for A
    using set_tail_at [of "A @ P" op B "length A + k" "length A + k" "length A + v"] assms
      last_node_unhooked [of "A @ P" "length A + k" op B] by simp
  then show ?thesis
    by (cases "regcode st") (simp_all add: regtail_def on_code_def here_def emit_linked, simp add: emit_def)
qed

lemma regtail_back:
  assumes "length P = k" "v \<le> k"
  shows "regtail (adv (here st) k) (adv (here st) v) (emit (P @ node3 O_BACK 0 @ B) st) = Inr (emit (P @ node3 O_BACK (k - v) @ B) st)"
proof -
  have "set_tail (length A + k) (length A + v) (A @ P @ node3 O_BACK 0 @ B) = Some (A @ P @ node3 O_BACK (k - v) @ B)" for A
    using set_tail_back [of "A @ P" B "length A + k" "length A + k" "length A + v"] assms
      last_node_unhooked [of "A @ P" "length A + k" O_BACK B] by simp
  then show ?thesis
    by (cases "regcode st") (simp_all add: regtail_def on_code_def here_def emit_linked, simp add: emit_def)
qed

text \<open>The first node already leads to the second.\<close>

lemma regtail_second:
  assumes "op \<noteq> O_BACK" "op \<noteq> O_EXACTLY" "op' \<noteq> O_BACK" "0 < j" "j \<le> v" "length P + 3 = j" "fits st v"
  shows "regtail (here st) (adv (here st) v) (emit (node3 op j @ P @ node3 op' 0 @ B) st)
    = Inr (emit (node3 op j @ P @ node3 op' (v - j) @ B) st)"
proof -
  have "set_tail (length A + 0) (length A + v) (A @ node3 op j @ P @ node3 op' 0 @ B) = Some (A @ node3 op j @ P @ node3 op' (v - j) @ B)"
    if "length A + v < 65536" for A
  proof -
    have "last_node (A @ node3 op j @ (P @ node3 op' 0 @ B)) (length A) = last_node (A @ node3 op j @ (P @ node3 op' 0 @ B)) (length A + j)"
      using assms that by (intro leads_last [OF leads_node3]) simp_all
    moreover have "last_node ((A @ node3 op j @ P) @ node3 op' 0 @ B) (length A + j) = Some (length A + j)"
      using assms by (intro last_node_unhooked) simp
    ultimately show ?thesis
      using set_tail_at [of "A @ node3 op j @ P" op' B "length A" "length A + j" "length A + v"] assms by simp
  qed
  then show ?thesis
    using on_code_emit [of v set_tail 0 v "node3 op j @ P @ node3 op' 0 @ B" "node3 op j @ P @ node3 op' (v - j) @ B" st] assms
    by (simp add: regtail_def)
qed

text \<open>The operators.\<close>

lemma emit_star_code:
  assumes "wf x" "fits st (len x + 12)"
  shows "emit_star (here st) (emit (code x 0) st) = Inr (emit (code (StarOf False x) 0) st)"
proof -
  let ?b = "node3 O_BRANCH" and ?k = "node3 O_BACK"
  have "regoptail (adv (here st) 0) (adv (here st) (0 + 3 + len x)) (emit ([] @ ?b 0 @ code x 0 @ ?k 0) st)
      = Inr (emit ([] @ ?b 0 @ code x (len x) @ ?k 0) st)"
    using assms by (intro regoptail_code) (auto elim: fits_mono)
  moreover have "regoptail (adv (here st) 0) (adv (here st) 0) (emit (?b 0 @ code x (len x) @ ?k 0) st)
      = Inr (emit (?b 0 @ code x (len x) @ ?k (len x + 3)) st)"
    unfolding regoptail_def
  proof (rule on_code_emit [OF _ _ assms(2)])
    fix A :: "u8 list" assume "length A + (len x + 12) < 65536"
    moreover have "last_node ((A @ ?b 0 @ code x (len x)) @ ?k 0 @ []) (length A + 3 + len x) = Some (length A + 3 + len x)"
      by (intro last_node_unhooked) simp
    ultimately have "last_node ((A @ ?b 0 @ code x (len x)) @ ?k 0 @ []) (length A + 3) = Some (length A + 3 + len x)"
      using last_node_past [of x "A @ ?b 0" "length A + 3" "?k 0"] assms(1) by simp
    then have "set_tail (length A + 3) (length A) ((A @ ?b 0 @ code x (len x)) @ ?k 0 @ [])
        = Some ((A @ ?b 0 @ code x (len x)) @ ?k (length A + 3 + len x - length A) @ [])"
      by (intro set_tail_back) simp_all
    then show "set_optail (length A + 0) (length A + 0) (A @ ?b 0 @ code x (len x) @ ?k 0) = Some (A @ ?b 0 @ code x (len x) @ ?k (len x + 3))"
      using nth_node3 [of A O_BRANCH 0 "code x (len x) @ ?k 0"] by (simp add: set_optail_def add.commute)
  qed simp
  moreover have "regtail (adv (here st) 0) (adv (here st) (len x + 6)) (emit ([] @ ?b 0 @ code x (len x) @ ?k (len x + 3) @ ?b 0) st)
      = Inr (emit ([] @ ?b (len x + 6 - 0) @ code x (len x) @ ?k (len x + 3) @ ?b 0) st)"
    by (intro regtail_unhooked) simp_all
  moreover have "regtail (here st) (adv (here st) (len x + 9))
        (emit (?b (len x + 6) @ (code x (len x) @ ?k (len x + 3)) @ ?b 0 @ node3 O_NOTHING 0) st)
      = Inr (emit (?b (len x + 6) @ (code x (len x) @ ?k (len x + 3)) @ ?b (len x + 9 - (len x + 6)) @ node3 O_NOTHING 0) st)"
    using assms by (intro regtail_second) (auto elim: fits_mono)
  ultimately show ?thesis
    by (simp add: emit_star_def reginsert_emit regnode_emit algebra_simps)
qed

lemma emit_plus_code:
  assumes "wf x" "fits st (len x + 12)"
  shows "emit_plus (here st) (emit (code x 0) st) = Inr (emit (code (PlusOf False x) 0) st)"
proof -
  let ?b = "node3 O_BRANCH" and ?k = "node3 O_BACK"
  let ?x = "code x (len x)"
  have "regtail (adv (here st) 0) (adv (here st) (0 + len x)) (emit ([] @ code x 0 @ ?b 0) st) = Inr (emit ([] @ ?x @ ?b 0) st)"
    using assms by (intro regtail_code) (auto elim: fits_mono)
  moreover have "regtail (adv (here st) (len x + 3)) (adv (here st) 0) (emit ((?x @ ?b 0) @ ?k 0 @ []) st)
      = Inr (emit ((?x @ ?b 0) @ ?k (len x + 3 - 0) @ []) st)"
    by (intro regtail_back) simp_all
  moreover have "regtail (adv (here st) (len x)) (adv (here st) (len x + 6)) (emit (?x @ ?b 0 @ (?k (len x + 3) @ ?b 0)) st)
      = Inr (emit (?x @ ?b (len x + 6 - len x) @ (?k (len x + 3) @ ?b 0)) st)"
    by (intro regtail_unhooked) simp_all
  moreover have "regtail (adv (here st) 0) (adv (here st) (len x + 9)) (emit (?x @ ?b 6 @ ?k (len x + 3) @ ?b 0 @ node3 O_NOTHING 0) st)
      = Inr (emit (?x @ ?b 6 @ ?k (len x + 3) @ ?b 3 @ node3 O_NOTHING 0) st)"
    unfolding regtail_def
  proof (rule on_code_emit [OF _ _ assms(2)])
    fix A :: "u8 list" assume A: "length A + (len x + 12) < 65536"
    let ?E = "node3 O_NOTHING 0"
    have "last_node (A @ ?x @ (?b 6 @ ?k (len x + 3) @ ?b 0 @ ?E)) (length A)
        = last_node (A @ ?x @ (?b 6 @ ?k (len x + 3) @ ?b 0 @ ?E)) (length A + len x)"
      using A assms(1) by (intro last_node_past) simp_all
    moreover have "last_node ((A @ ?x) @ ?b 6 @ (?k (len x + 3) @ ?b 0 @ ?E)) (length A + len x)
        = last_node ((A @ ?x) @ ?b 6 @ (?k (len x + 3) @ ?b 0 @ ?E)) (length A + len x + 6)"
      by (intro leads_last [OF leads_node3]) simp_all
    moreover have "last_node ((A @ ?x @ ?b 6 @ ?k (len x + 3)) @ ?b 0 @ ?E) (length A + len x + 6) = Some (length A + len x + 6)"
      by (intro last_node_unhooked) simp
    ultimately have "set_tail (length A) (length A + (len x + 9)) ((A @ ?x @ ?b 6 @ ?k (len x + 3)) @ ?b 0 @ ?E)
        = Some ((A @ ?x @ ?b 6 @ ?k (len x + 3)) @ ?b (length A + (len x + 9) - (length A + len x + 6)) @ ?E)"
      by (intro set_tail_at) simp_all
    then show "set_tail (length A + 0) (length A + (len x + 9)) (A @ ?x @ ?b 6 @ ?k (len x + 3) @ ?b 0 @ ?E)
        = Some (A @ ?x @ ?b 6 @ ?k (len x + 3) @ ?b 3 @ ?E)" by simp
  qed simp
  ultimately show ?thesis
    by (simp add: emit_plus_def regnode_emit algebra_simps)
qed

lemma emit_quest_code:
  assumes "wf x" "fits st (len x + 9)"
  shows "emit_quest (here st) (emit (code x 0) st) = Inr (emit (code (Opt x) 0) st)"
proof -
  let ?b = "node3 O_BRANCH"
  have "regtail (adv (here st) 0) (adv (here st) (len x + 3)) (emit ([] @ ?b 0 @ code x 0 @ ?b 0) st)
      = Inr (emit ([] @ ?b (len x + 3 - 0) @ code x 0 @ ?b 0) st)"
    by (intro regtail_unhooked) simp_all
  moreover have "regtail (here st) (adv (here st) (len x + 6)) (emit (?b (len x + 3) @ code x 0 @ ?b 0 @ node3 O_NOTHING 0) st)
      = Inr (emit (?b (len x + 3) @ code x 0 @ ?b (len x + 6 - (len x + 3)) @ node3 O_NOTHING 0) st)"
    using assms by (intro regtail_second) (auto elim: fits_mono)
  moreover have "regoptail (adv (here st) 0) (adv (here st) (0 + 3 + (len x + 3))) (emit ([] @ ?b (len x + 3) @ code x 0 @ ?b 3 @ node3 O_NOTHING 0) st)
      = Inr (emit ([] @ ?b (len x + 3) @ code x (len x + 3) @ ?b 3 @ node3 O_NOTHING 0) st)"
    using assms by (intro regoptail_code) (auto elim: fits_mono)
  ultimately show ?thesis
    by (simp add: emit_quest_def reginsert_emit regnode_emit algebra_simps)
qed

section \<open>What the parser guarantees\<close>

lemma bindE_Inr_iff: "bindE m f = Inr y \<longleftrightarrow> (\<exists>x. m = Inr x \<and> f x = Inr y)"
  by (cases m) simp_all

lemma bindE_Inl_iff: "bindE m f = Inl e \<longleftrightarrow> m = Inl e \<or> (\<exists>x. m = Inr x \<and> f x = Inl e)"
  by (cases m) simp_all

lemma scan_set_result:
  assumes "scan_set prev cs = Inr (b, r)" "0 \<notin> set cs"
  shows "0 \<notin> set b \<and> set r \<subseteq> set cs \<and> length r \<le> length cs"
  using assms
proof (induction prev cs arbitrary: b r rule: scan_set.induct)
  case (2 prev c cs)
  have range: "(0::u8) \<notin> of_nat ` {Suc a ..< unat d + 1}" for a and d :: u8
  proof
    assume "(0::u8) \<in> of_nat ` {Suc a ..< unat d + 1}"
    then obtain k where k: "(of_nat k :: u8) = 0" "0 < k" "k \<le> unat d" by auto
    moreover have "unat d < 256" using unsigned_less [of d] by simp
    moreover have "unat (of_nat k :: u8) = k mod 256" by (simp add: unat_of_nat take_bit_eq_mod)
    ultimately show False using k by (metis unat_0 mod_less le_less_trans less_irrefl)
  qed
  show ?case
  proof (cases "c = c_rbracket")
    case False
    show ?thesis
    proof (cases "c = c_minus \<and> cs \<noteq> [] \<and> hd cs \<noteq> c_rbracket")
      case True
      then obtain d ds where cs: "cs = d # ds" by (cases cs) auto
      then show ?thesis
        using 2 False True range [of "unat prev" d] by (auto simp: bindE_Inr_iff split: if_splits)
    next
      case F: False
      then show ?thesis
        using 2 False by (auto simp: bindE_Inr_iff split: if_splits)
    qed
  qed (use 2 in auto)
qed simp

lemma scan_set_no_fault: "scan_set prev cs \<noteq> Inl FAULT"
  by (induction prev cs rule: scan_set.induct) (auto simp: bindE_Inl_iff)

lemma scan_exact_result:
  assumes "scan_exact prev cs = Inr (b, s, r)"
  shows "(s \<longrightarrow> prev = None \<and> length b = 1) \<and> (prev = None \<longrightarrow> b \<noteq> []) \<and> set b \<subseteq> set cs
    \<and> (set r \<subseteq> set cs \<and> length r < length cs \<or> prev = Some r)"
  using assms
proof (induction prev cs arbitrary: b s r rule: scan_exact.induct)
  case (2 prev ch cs)
  have deeper: ?case if "\<not> s \<and> set b' \<subseteq> set cs \<and> set r \<subseteq> set cs \<and> length r \<le> length cs" "b = ch # b'" for b'
    using that by auto
  consider (stop) "cs = [] \<or> ends_exact (hd cs)" | (mult) "\<not> (cs = [] \<or> ends_exact (hd cs))" "ISMULT (hd cs)"
    | (quote) "\<not> (cs = [] \<or> ends_exact (hd cs))" "\<not> ISMULT (hd cs)" "hd cs = c_backslash"
    | (other) "\<not> (cs = [] \<or> ends_exact (hd cs))" "\<not> ISMULT (hd cs)" "hd cs \<noteq> c_backslash"
    by blast
  then show ?case
  proof cases
    case quote
    have sub: "set (tl cs) \<subseteq> set cs" "length (tl cs) \<le> length cs"
      by (cases cs; auto)+
    show ?thesis
    proof (cases "tl cs = [] \<or> hd (tl cs) = c_less \<or> hd (tl cs) = c_greater")
      case False
      then obtain b' where b': "scan_exact (Some cs) (tl cs) = Inr (b', s, r)" "b = ch # b'"
        using 2(3) quote by (auto simp: bindE_Inr_iff)
      show ?thesis
        using "2.IH"(1) [OF quote False b'(1)] sub by (intro deeper [OF _ b'(2)]) auto
    qed (use 2(3) quote in auto)
  next
    case other
    then obtain b' where b': "scan_exact (Some cs) cs = Inr (b', s, r)" "b = ch # b'"
      using 2(3) by (auto simp: bindE_Inr_iff)
    show ?thesis
      using "2.IH"(2) [OF other b'(1)] by (intro deeper [OF _ b'(2)]) auto
  qed (use 2(3) in \<open>auto split: option.splits\<close>)
qed simp

lemma scan_exact_no_fault: "cs \<noteq> [] \<Longrightarrow> scan_exact prev cs \<noteq> Inl FAULT"
  by (induction prev cs rule: scan_exact.induct) (auto simp: bindE_Inl_iff split: option.splits)

text \<open>\<open>bounded_result\<close>: no fault; a well-formed tree, and some of the text read.\<close>

definition bounded_group :: "nat \<Rightarrow> group_parser \<Rightarrow> bool" where
  "bounded_group k rec \<longleftrightarrow> (\<forall>np cs. length cs < k \<and> 0 \<notin> set cs \<and> 0 < np \<longrightarrow> rec np cs \<noteq> Inl FAULT
     \<and> (\<forall>x np' r. rec np cs = Inr (x, np', r) \<longrightarrow> wf x \<and> set r \<subseteq> set cs \<and> length r < length cs \<and> np \<le> np'))"

lemma bounded_groupD:
  assumes "bounded_group k rec" "length cs < k" "0 \<notin> set cs" "0 < np"
  shows "rec np cs \<noteq> Inl FAULT"
    "rec np cs = Inr (x, np', r) \<Longrightarrow> wf x \<and> set r \<subseteq> set cs \<and> length r < length cs \<and> np \<le> np'"
  using assms by (auto simp: bounded_group_def)

lemma parse_exact_result:
  assumes "0 \<notin> set cs" "parse_exact np cs = Inr (x, s, np', r)"
  shows "wf x \<and> (s \<longrightarrow> single x) \<and> set r \<subseteq> set cs \<and> length r < length cs \<and> np \<le> np'"
proof -
  obtain b where b: "scan_exact None cs = Inr (b, s, r)" "x = Str b" "np' = np"
    using assms(2) by (auto simp: parse_exact_def bindE_Inr_iff)
  show ?thesis using scan_exact_result [OF b(1)] assms(1) b(2,3) by (auto simp: single_def)
qed

lemma parse_set_result:
  assumes "0 \<notin> set cs" "parse_set np cs = Inr (x, s, np', r)"
  shows "wf x \<and> (s \<longrightarrow> single x) \<and> set r \<subseteq> set cs \<and> length r < length cs \<and> np \<le> np'"
proof -
  define neg where "neg = (cs \<noteq> [] \<and> hd cs = c_caret)"
  define cs' where "cs' = (if neg then tl cs else cs)"
  have cs': "set cs' \<subseteq> set cs" "length cs' \<le> length cs"
    by (cases cs; auto simp: cs'_def)+
  obtain b r' where b: "(if cs' \<noteq> [] \<and> (hd cs' = c_rbracket \<or> hd cs' = c_minus)
      then bindE (scan_set (hd cs') (tl cs')) (\<lambda>(b, r). Inr (hd cs' # b, r))
      else scan_set (if neg then c_caret else c_lbracket) cs') = Inr (b, r')"
    "r' \<noteq> []" "x = (if neg then AnyBut b else AnyOf b)" "s" "np' = np" "r = tl r'"
    using assms(2) by (auto simp: parse_set_def Let_def bindE_Inr_iff simp flip: neg_def cs'_def split: if_splits)
  have "0 \<notin> set b \<and> set r' \<subseteq> set cs' \<and> length r' \<le> length cs'"
  proof (cases "cs' \<noteq> [] \<and> (hd cs' = c_rbracket \<or> hd cs' = c_minus)")
    case True
    then obtain c ds where c: "cs' = c # ds" by (cases cs') auto
    then obtain b' where b': "scan_set c ds = Inr (b', r')" "b = c # b'"
      using b(1) True by (auto simp: bindE_Inr_iff)
    have "0 \<notin> set ds" using c assms(1) cs' by auto
    then show ?thesis using scan_set_result [OF b'(1)] c assms(1) cs' b'(2) by auto
  next
    case False
    have z: "0 \<notin> set cs'" using assms(1) cs' by auto
    have "scan_set (if neg then c_caret else c_lbracket) cs' = Inr (b, r')" using b(1) False by argo
    then show ?thesis using scan_set_result z by blast
  qed
  moreover have "set r \<subseteq> set r'" "length r < length r'"
    using b(2,6) by (auto dest: list.set_sel(2))
  ultimately show ?thesis using b(3,4,5) cs' by (auto simp: single_def)
qed

lemma parse_set_no_fault: "parse_set np cs \<noteq> Inl FAULT"
  by (auto simp: parse_set_def Let_def bindE_Inl_iff scan_set_no_fault)

lemma parse_atom_result:
  assumes "bounded_group k rec" "length cs \<le> k" "0 \<notin> set cs" "0 < np" "parse_atom rec np cs = Inr (x, s, np', r)"
  shows "wf x \<and> (s \<longrightarrow> single x) \<and> set r \<subseteq> set cs \<and> length r < length cs \<and> np \<le> np'"
proof (cases cs)
  case (Cons c ds)
  have ds: "0 \<notin> set ds" "length ds < k" using assms(2,3) Cons by auto
  note parses = parse_set_result [OF ds(1)] parse_exact_result [OF ds(1)] parse_exact_result [OF assms(3)]
    bounded_groupD(2) [OF assms(1) ds(2,1) assms(4)]
  have "parse_set np ds = Inr (x, s, np', r) \<or> parse_exact np ds = Inr (x, s, np', r) \<or> parse_exact np cs = Inr (x, s, np', r)
    \<or> rec np ds = Inr (x, np', r) \<and> \<not> s
    \<or> x \<in> {Bol, Eol, Any, WordA, WordZ} \<and> (s \<longrightarrow> x = Any) \<and> np' = np \<and> (r = ds \<or> ds \<noteq> [] \<and> r = tl ds)"
    using assms(5) Cons by (auto simp: parse_atom_def bindE_Inr_iff split: if_splits)
  moreover have tl: "set (tl ds) \<subseteq> set ds" "length (tl ds) \<le> length ds"
    by (cases ds; auto)+
  ultimately show ?thesis
  proof (elim disjE)
    assume "parse_set np ds = Inr (x, s, np', r)"
    from parses(1) [OF this] show ?thesis using Cons by auto
  next
    assume "parse_exact np ds = Inr (x, s, np', r)"
    from parses(2) [OF this] show ?thesis using Cons by auto
  next
    assume "parse_exact np cs = Inr (x, s, np', r)"
    from parses(3) [OF this] show ?thesis .
  next
    assume "rec np ds = Inr (x, np', r) \<and> \<not> s"
    with parses(4) show ?thesis using Cons by auto
  qed (use Cons tl in \<open>auto simp: single_def\<close>)
qed (use assms(5) in \<open>simp add: parse_atom_def\<close>)

lemma parse_exact_no_fault: "cs \<noteq> [] \<Longrightarrow> parse_exact np cs \<noteq> Inl FAULT"
  by (auto simp: parse_exact_def bindE_Inl_iff scan_exact_no_fault)

lemma parse_atom_no_fault:
  assumes "bounded_group k rec" "length cs \<le> k" "0 \<notin> set cs" "0 < np"
  shows "parse_atom rec np cs \<noteq> Inl FAULT"
proof (cases cs)
  case (Cons c ds)
  have ds: "0 \<notin> set ds" "length ds < k" using assms(2,3) Cons by auto
  show ?thesis
    using Cons bounded_groupD(1) [OF assms(1) ds(2,1) assms(4)] parse_exact_no_fault [of ds np]
      parse_exact_no_fault [of cs np] parse_set_no_fault [of np ds]
    by (auto simp: parse_atom_def bindE_Inl_iff)
qed (simp add: parse_atom_def)

lemma set_tl_subset: "set (tl cs) \<subseteq> set cs" "length (tl cs) \<le> length cs"
  by (cases cs; auto)+

lemma parse_piece_result:
  assumes "bounded_group k rec" "length cs \<le> k" "0 \<notin> set cs" "0 < np" "parse_piece rec np cs = Inr (x, s, np', r)"
  shows "wf x \<and> set r \<subseteq> set cs \<and> length r < length cs \<and> np \<le> np'"
proof -
  obtain y s' r' where y: "parse_atom rec np cs = Inr (y, s', np', r')" "x = y \<and> r = r' \<or> (has_width y \<or> head r' = c_quest) \<and> x = operated (head r') s' y \<and> r = tl r'"
    using assms(5) by (auto simp: parse_piece_def bindE_Inr_iff Let_def split: if_splits)
  show ?thesis
    using parse_atom_result [OF assms(1-4) y(1)] y(2) set_tl_subset [of r'] by (auto simp: operated_def)
qed

lemma parse_piece_no_fault:
  assumes "bounded_group k rec" "length cs \<le> k" "0 \<notin> set cs" "0 < np"
  shows "parse_piece rec np cs \<noteq> Inl FAULT"
  using parse_atom_no_fault [OF assms] by (auto simp: parse_piece_def bindE_Inl_iff Let_def)

lemma parse_pieces_result:
  assumes "bounded_group k rec" "length cs \<le> k" "0 \<notin> set cs" "0 < np" "length cs < n"
  shows "parse_pieces n rec np cs \<noteq> Inl FAULT
    \<and> (\<forall>xs np' r. parse_pieces n rec np cs = Inr (xs, np', r) \<longrightarrow> wf_seq xs \<and> set r \<subseteq> set cs \<and> length r \<le> length cs \<and> np \<le> np')"
  using assms(2-5)
proof (induction n arbitrary: np cs)
  case (Suc n)
  show ?case
  proof (cases "ends_branch (head cs)")
    case False
    show ?thesis
    proof (cases "parse_piece rec np cs")
      case (Inl e)
      then show ?thesis using False parse_piece_no_fault [OF assms(1) Suc.prems(1-3)] by auto
    next
      case (Inr a)
      obtain x s np1 r1 where a: "a = (x, s, np1, r1)" by (cases a) auto
      have x: "wf x \<and> set r1 \<subseteq> set cs \<and> length r1 < length cs \<and> np \<le> np1"
        using parse_piece_result [OF assms(1) Suc.prems(1-3)] Inr a by auto
      then have IH: "parse_pieces n rec np1 r1 \<noteq> Inl FAULT \<and> (\<forall>xs np' r. parse_pieces n rec np1 r1 = Inr (xs, np', r)
          \<longrightarrow> wf_seq xs \<and> set r \<subseteq> set r1 \<and> length r \<le> length r1 \<and> np1 \<le> np')"
        using Suc.prems by (intro Suc.IH) auto
      show ?thesis
        using False Inr a x IH by (auto simp: bindE_Inl_iff bindE_Inr_iff) fastforce+
    qed
  qed auto
qed simp

lemma parse_branch_result:
  assumes "bounded_group k rec" "length cs \<le> k" "0 \<notin> set cs" "0 < np"
  shows "parse_branch rec np cs \<noteq> Inl FAULT"
    "parse_branch rec np cs = Inr (xs, np', r) \<Longrightarrow> wf_seq xs \<and> set r \<subseteq> set cs \<and> length r \<le> length cs \<and> np \<le> np'"
  using parse_pieces_result [OF assms lessI] by (auto simp: parse_branch_def simp del: parse_pieces.simps)

lemma parse_more_result:
  assumes "bounded_group k rec" "length cs \<le> k" "0 \<notin> set cs" "0 < np" "length cs < n"
  shows "parse_more n rec np cs \<noteq> Inl FAULT
    \<and> (\<forall>bs np' r. parse_more n rec np cs = Inr (bs, np', r) \<longrightarrow> wf_alts bs \<and> set r \<subseteq> set cs \<and> length r \<le> length cs \<and> np \<le> np')"
  using assms(2-5)
proof (induction n arbitrary: np cs)
  case (Suc n)
  show ?case
  proof (cases "head cs = c_bar \<or> head cs = c_newline")
    case True
    then obtain c ds where cs: "cs = c # ds" by (cases cs) (auto simp: head_def)
    have ds: "length ds \<le> k" "0 \<notin> set ds" using Suc.prems cs by auto
    note branch = parse_branch_result [OF assms(1) ds Suc.prems(3)]
    show ?thesis
    proof (cases "parse_branch rec np ds")
      case (Inl e)
      then show ?thesis using True cs branch(1) by auto
    next
      case (Inr a)
      obtain x np1 r1 where a: "a = (x, np1, r1)" by (cases a) auto
      have x: "wf_seq x \<and> set r1 \<subseteq> set ds \<and> length r1 \<le> length ds \<and> np \<le> np1"
        using branch(2) Inr a by auto
      then have IH: "parse_more n rec np1 r1 \<noteq> Inl FAULT \<and> (\<forall>xs np' r. parse_more n rec np1 r1 = Inr (xs, np', r)
          \<longrightarrow> wf_alts xs \<and> set r \<subseteq> set r1 \<and> length r \<le> length r1 \<and> np1 \<le> np')"
        using Suc.prems ds cs by (intro Suc.IH) auto
      show ?thesis
        using True cs Inr a x IH by (auto simp: bindE_Inl_iff bindE_Inr_iff) fastforce+
    qed
  qed auto
qed simp

lemma parse_alts_result:
  assumes "bounded_group k rec" "length cs \<le> k" "0 \<notin> set cs" "0 < np"
  shows "parse_alts rec np cs \<noteq> Inl FAULT
    \<and> (\<forall>bs np' r. parse_alts rec np cs = Inr (bs, np', r) \<longrightarrow> bs \<noteq> [] \<and> wf_alts bs \<and> set r \<subseteq> set cs \<and> length r \<le> length cs \<and> np \<le> np')"
proof (cases "parse_branch rec np cs")
  case (Inl e)
  then show ?thesis using parse_branch_result(1) [OF assms] by (auto simp: parse_alts_def)
next
  case (Inr a)
  obtain x np1 r1 where a: "a = (x, np1, r1)" by (cases a) auto
  have x: "wf_seq x \<and> set r1 \<subseteq> set cs \<and> length r1 \<le> length cs \<and> np \<le> np1"
    using parse_branch_result(2) [OF assms] Inr a by auto
  have "parse_more (Suc (length r1)) rec np1 r1 \<noteq> Inl FAULT \<and> (\<forall>bs np' r. parse_more (Suc (length r1)) rec np1 r1 = Inr (bs, np', r)
     \<longrightarrow> wf_alts bs \<and> set r \<subseteq> set r1 \<and> length r \<le> length r1 \<and> np1 \<le> np')"
    using assms x by (intro parse_more_result) auto
  then show ?thesis
    using Inr a x by (auto simp: parse_alts_def bindE_Inl_iff bindE_Inr_iff simp del: parse_more.simps) fastforce+
qed

lemma parse_group_bounded: "bounded_group k (parse_group k)"
proof (induction k)
  case (Suc k)
  show ?case
    unfolding bounded_group_def
  proof (intro allI impI)
    fix np :: nat and cs :: "u8 list"
    assume *: "length cs < Suc k \<and> 0 \<notin> set cs \<and> 0 < np"
    then have alts: "parse_alts (parse_group k) (np + 1) cs \<noteq> Inl FAULT
      \<and> (\<forall>bs np' r. parse_alts (parse_group k) (np + 1) cs = Inr (bs, np', r) \<longrightarrow> bs \<noteq> [] \<and> wf_alts bs \<and> set r \<subseteq> set cs \<and> length r \<le> length cs \<and> np + 1 \<le> np')"
      by (intro parse_alts_result [OF Suc.IH]) auto
    have "wf x \<and> set r \<subseteq> set cs \<and> length r < length cs \<and> np \<le> np'"
      if g: "parse_group (Suc k) np cs = Inr (x, np', r)" for x np' r
    proof -
      obtain bs q where q: "parse_alts (parse_group k) (np + 1) cs = Inr (bs, np', q)" "q \<noteq> []" "x = Group np bs" "r = tl q" "np < NSUBEXP"
        using g by (auto simp: bindE_Inr_iff split: if_splits)
      then have "bs \<noteq> [] \<and> wf_alts bs \<and> set q \<subseteq> set cs \<and> length q \<le> length cs \<and> np + 1 \<le> np'"
        using alts by blast
      then show ?thesis using q * by (cases q) auto
    qed
    moreover have "parse_group (Suc k) np cs \<noteq> Inl FAULT"
      using alts by (auto simp: bindE_Inl_iff)
    ultimately show "parse_group (Suc k) np cs \<noteq> Inl FAULT \<and> (\<forall>x np' r. parse_group (Suc k) np cs = Inr (x, np', r)
        \<longrightarrow> wf x \<and> set r \<subseteq> set cs \<and> length r < length cs \<and> np \<le> np')"
      by blast
  qed
qed (simp add: bounded_group_def)

lemma parse_result:
  assumes "0 \<notin> set cs"
  shows "parse cs \<noteq> Inl FAULT" "parse cs = Inr bs \<Longrightarrow> bs \<noteq> [] \<and> wf_alts bs"
  using parse_alts_result [OF parse_group_bounded order_refl assms zero_less_one]
  by (auto simp: parse_def bindE_Inl_iff bindE_Inr_iff split: if_splits)

section \<open>The messages of the compiler\<close>

definition messages :: "string set" where
  "messages = {''too many ()'', ''unmatched ()'', ''junk on end'', ''unmatched []'', ''invalid [] range'',
     ''?+* follows nothing'', ''*+ operand could be empty'', ''nested *?+'', ''trailing '' @ [CHR 0x5C]}"

definition says :: "'a rres \<Rightarrow> bool" where
  "says r \<longleftrightarrow> (\<forall>e. r = Inl (FAIL e) \<longrightarrow> e \<in> messages)"

named_theorems says_intros

lemma says_simps [says_intros]:
  "says (Inr x)" "says (Inl FAULT)"
  "says (Inl (FAIL ''too many ()''))" "says (Inl (FAIL ''unmatched ()''))" "says (Inl (FAIL ''junk on end''))"
  "says (Inl (FAIL ''unmatched []''))" "says (Inl (FAIL ''invalid [] range''))"
  "says (Inl (FAIL ''?+* follows nothing''))" "says (Inl (FAIL ''*+ operand could be empty''))"
  "says (Inl (FAIL ''nested *?+''))" "says (Inl (FAIL (''trailing '' @ [CHR 0x5C])))"
  by (simp_all add: says_def messages_def)

lemma says_bind [says_intros]: "says r \<Longrightarrow> (\<And>x. says (f x)) \<Longrightarrow> says (bindE r f)"
  by (cases r) (auto simp: says_def)

lemma says_if [says_intros]: "(b \<Longrightarrow> says x) \<Longrightarrow> (\<not> b \<Longrightarrow> says y) \<Longrightarrow> says (if b then x else y)"
  by simp

lemma says_prod [says_intros]: "(\<And>a b. says (f a b)) \<Longrightarrow> says (case p of (a, b) \<Rightarrow> f a b)"
  by (cases p) simp

lemma says_option [says_intros]: "says x \<Longrightarrow> (\<And>a. says (f a)) \<Longrightarrow> says (case p of None \<Rightarrow> x | Some a \<Rightarrow> f a)"
  by (cases p) simp_all

lemma says_scan_set: "says (scan_set prev cs)"
  by (induction prev cs rule: scan_set.induct) (simp_all add: says_intros)

lemma says_scan_exact: "says (scan_exact prev cs)"
  by (induction prev cs rule: scan_exact.induct) (simp_all add: says_intros)

lemma says_atom:
  assumes "\<And>np cs. says (rec np cs)" "\<not> ends_branch (head cs)"
  shows "says (parse_atom rec np cs)"
proof (cases cs)
  case Nil
  then show ?thesis using assms(2) by (simp add: head_def ends_branch_def)
next
  case (Cons c r)
  then have "\<not> (c = c_bar \<or> c = c_newline \<or> c = c_close)" using assms(2) by (simp add: head_def ends_branch_def)
  then show ?thesis
    unfolding Cons parse_atom_def list.case parse_set_def parse_exact_def Let_def
    by (intro says_intros says_scan_set says_scan_exact assms(1)) simp_all
qed

lemma says_piece:
  assumes "\<And>np cs. says (rec np cs)" "\<not> ends_branch (head cs)"
  shows "says (parse_piece rec np cs)"
  unfolding parse_piece_def Let_def by (intro says_intros says_atom assms)

lemma says_pieces: "(\<And>np cs. says (rec np cs)) \<Longrightarrow> says (parse_pieces n rec np cs)"
  by (induction n arbitrary: np cs) (simp_all add: says_intros says_piece)

lemma says_more: "(\<And>np cs. says (rec np cs)) \<Longrightarrow> says (parse_more n rec np cs)"
proof (induction n arbitrary: np cs)
  case (Suc n)
  show ?case
    unfolding parse_more.simps parse_branch_def by (intro says_intros says_pieces Suc)
qed (simp add: says_intros)

lemma says_alts: "(\<And>np cs. says (rec np cs)) \<Longrightarrow> says (parse_alts rec np cs)"
  unfolding parse_alts_def parse_branch_def by (intro says_intros says_pieces says_more)

lemma says_group: "says (parse_group n np cs)"
  by (induction n arbitrary: np cs) (simp_all add: says_intros says_alts)

lemma says_parse: "says (parse cs)"
  unfolding parse_def by (intro says_intros says_alts says_group)

end
