(* ===== verification/Regexp_Emits.thy ===== *)
theory Regexp_Emits
  imports Regexp_Layout
begin

text \<open>
  Both passes of \<open>regcomp\<close> do what the parser says: they accept what it accepts, with the same message
  otherwise; the program of the second pass is the layout of the tree and as long as the first pass
  counted. \<open>compiled\<close> is the \<open>regexp\<close> structure of a tree, with the results of the search for a fixed first
  character, an anchor and a string that must appear.
\<close>

section \<open>The compiler does what the parser says\<close>

text \<open>
  \<open>emits st r p\<close>: where the parser fails, the counting pass fails with the same message; where it
  gives a tree, both passes go on with the code of the tree emitted.
\<close>

definition emits :: "rstate \<Rightarrow> (ptr \<times> flag set \<times> rstate) rres \<Rightarrow> (node \<times> bool \<times> nat \<times> u8 list) rres \<Rightarrow> bool" where
  "emits st r p = (case p of
       Inl e \<Rightarrow> regcode st = None \<longrightarrow> r = Inl e
     | Inr (x, s, np, cs) \<Rightarrow> fits st (len x) \<longrightarrow>
         r = Inr (here st, flags_of (has_width x) s (spst x), (emit (code x 0) st)\<lparr> regparse := cs, regnpar := np \<rparr>))"

definition emits_group :: "nat \<Rightarrow> (rstate \<Rightarrow> (ptr \<times> flag set \<times> rstate) rres) \<Rightarrow> group_parser \<Rightarrow> bool" where
  "emits_group k rec prec \<longleftrightarrow> (\<forall>st. length (regparse st) < k \<and> 0 \<notin> set (regparse st) \<and> 0 < regnpar st \<longrightarrow>
     emits st (rec st) (bindE (prec (regnpar st) (regparse st)) (\<lambda>(x, np, cs). Inr (x, False, np, cs))))"

lemma fits_None: "regcode st = None \<Longrightarrow> fits st n"
  by (simp add: fits_def)

lemma regset_scan:
  "regset prev cs st = bindE (scan_set prev cs) (\<lambda>(b, r). Inr ((emit b st)\<lparr> regparse := r \<rparr>))"
proof (induction prev cs arbitrary: st rule: scan_set.induct)
  case (2 prev c cs)
  show ?case
  proof (cases "c = c_rbracket")
    case False
    show ?thesis
    proof (cases "c = c_minus \<and> cs \<noteq> [] \<and> hd cs \<noteq> c_rbracket")
      case True
      then obtain d ds where cs: "cs = d # ds" by (cases cs) auto
      show ?thesis
      proof (cases "unat prev + 1 > unat d + 1")
        case F: False
        have "regset d ds st' = bindE (scan_set d ds) (\<lambda>(b, r). Inr ((emit b st')\<lparr> regparse := r \<rparr>))" for st'
          using "2.IH"(1) [OF False True] cs F by simp
        then show ?thesis
          using False True cs F
          by (simp only: regset.simps scan_set.simps Let_def fold_regc list.case list.sel if_False if_True simp_thms list.simps)
            (simp add: bindE_def split: sum.splits)
      qed (use False True cs in simp)
    next
      case F: False
      have IH: "regset c cs st' = bindE (scan_set c cs) (\<lambda>(b, r). Inr ((emit b st')\<lparr> regparse := r \<rparr>))" for st'
        using "2.IH"(2) [OF False F] .
      have "regset prev (c # cs) st = regset c cs (regc c st)"
        using False F by (cases cs) auto
      moreover have "scan_set prev (c # cs) = bindE (scan_set c cs) (\<lambda>(b, r). Inr (c # b, r))"
        using False F by (cases cs) auto
      ultimately show ?thesis
        unfolding IH regc_emit by (simp del: regset.simps scan_set.simps) (simp add: bindE_def split: sum.splits)
    qed
  qed simp
qed simp

lemma regexact_scan:
  "bindE (regexact prev cs st) (\<lambda>(rp, st). Inr (rp = None, st))
    = bindE (scan_exact prev cs) (\<lambda>(b, s, r). Inr (s, (emit b st)\<lparr> regparse := r \<rparr>))"
proof (induction prev cs arbitrary: st rule: scan_exact.induct)
  case (2 prev ch cs)
  show ?case
  proof (cases cs)
    case (Cons c ds)
    consider (stop) "ends_exact c" | (mult) "\<not> ends_exact c" "ISMULT c"
      | (quote) "\<not> ends_exact c" "\<not> ISMULT c" "c = c_backslash"
      | (other) "\<not> ends_exact c" "\<not> ISMULT c" "c \<noteq> c_backslash"
      by blast
    then show ?thesis
    proof cases
      case stop
      then show ?thesis using Cons by (simp add: regc_emit)
    next
      case mult
      then show ?thesis using Cons by (simp add: regc_emit split: option.splits)
    next
      case quote
      show ?thesis
      proof (cases "ds = [] \<or> hd ds = c_less \<or> hd ds = c_greater")
        case True
        then show ?thesis using quote Cons by (cases ds) (auto simp: regc_emit)
      next
        case False
        then obtain d es where ds: "ds = d # es" by (cases ds) auto
        have "bindE (regexact (Some cs) ds st') (\<lambda>(rp, st). Inr (rp = None, st))
            = bindE (scan_exact (Some cs) ds) (\<lambda>(b, s, r). Inr (s, (emit b st')\<lparr> regparse := r \<rparr>))" for st'
          using "2.IH"(1) Cons quote False by simp
        then show ?thesis
          using quote False Cons ds by (auto simp: regc_emit bindE_def split: sum.splits)
      qed
    next
      case other
      have "bindE (regexact (Some cs) cs st') (\<lambda>(rp, st). Inr (rp = None, st))
          = bindE (scan_exact (Some cs) cs) (\<lambda>(b, s, r). Inr (s, (emit b st')\<lparr> regparse := r \<rparr>))" for st'
        using "2.IH"(2) Cons other by simp
      then show ?thesis
        using other Cons by (auto simp: regc_emit bindE_def split: sum.splits)
    qed
  qed (simp add: regc_emit)
qed simp

lemma same_npar [simp]: "regnpar st = n \<Longrightarrow> st\<lparr> regparse := r, regnpar := n \<rparr> = st\<lparr> regparse := r \<rparr>"
  by (cases st) simp

lemma flags_exact: "{HASWIDTH} \<union> (if s then {SIMPLE} else {}) = flags_of True s False"
  by (auto simp: flags_of_def)

lemma exact_node_parse: "emits st (exact_node cs st) (parse_exact (regnpar st) cs)"
proof -
  let ?e = "regexact None cs (emit (node3 O_EXACTLY 0) st)"
  have "exact_node cs st = bindE (bindE ?e (\<lambda>(rp, st). Inr (rp = None, st))) (\<lambda>(s, st'). Inr (here st, flags_of True s False, regc 0 st'))"
    by (auto simp: exact_node_def regnode_emit bindE_def flags_exact [symmetric] split: sum.splits)
  then have "exact_node cs st = bindE (scan_exact None cs) (\<lambda>(b, s, r).
      Inr (here st, flags_of True s False, (emit (code (Str b) 0) st)\<lparr> regparse := r, regnpar := regnpar st \<rparr>))"
    unfolding regexact_scan by (simp add: regc_emit) (simp add: bindE_def split: sum.splits)
  then show ?thesis
    by (simp add: parse_exact_def emits_def bindE_def split: sum.splits)
qed

lemma flags_simple: "{HASWIDTH, SIMPLE} = flags_of True True False" "{} = flags_of False False False"
  by (auto simp: flags_of_def)

lemma bindE_assoc: "bindE (bindE m f) g = bindE m (\<lambda>x. bindE (f x) g)"
  by (cases m) simp_all

lemma bindE_cong_Inr: "(\<And>x. f x = g x) \<Longrightarrow> bindE m f = bindE m g"
  by (cases m) simp_all

text \<open>The bracket expression after the optional caret.\<close>

definition set_tail_node :: "ptr \<Rightarrow> u8 \<Rightarrow> u8 list \<Rightarrow> rstate \<Rightarrow> (ptr \<times> flag set \<times> rstate) rres" where
  "set_tail_node ret prev cs st =
     bindE (case cs of
        c # cs' \<Rightarrow> if c = c_rbracket \<or> c = c_minus then regset c cs' (regc c st) else regset prev cs st
      | [] \<Rightarrow> regset prev cs st) (\<lambda>st. let st = regc 0 st in
           (case regparse st of
              c # cs \<Rightarrow> if c \<noteq> c_rbracket then Inl (FAIL ''unmatched []'')
                        else Inr (ret, {HASWIDTH, SIMPLE}, st\<lparr> regparse := cs \<rparr>)
            | [] \<Rightarrow> Inl (FAIL ''unmatched []'')))"

lemma set_node_tail:
  "set_node cs st = (if cs \<noteq> [] \<and> hd cs = c_caret
     then set_tail_node (here st) c_caret (tl cs) (emit (node3 O_ANYBUT 0) st)
     else set_tail_node (here st) c_lbracket cs (emit (node3 O_ANYOF 0) st))"
proof (cases cs)
  case (Cons c ds)
  then show ?thesis
    by (cases "c = c_caret"; cases ds) (auto simp: set_node_def set_tail_node_def regnode_emit Let_def)
qed (simp add: set_node_def set_tail_node_def regnode_emit Let_def)

lemma set_tail_node_scan:
  "set_tail_node ret prev cs st = bindE (if cs \<noteq> [] \<and> (hd cs = c_rbracket \<or> hd cs = c_minus)
        then bindE (scan_set (hd cs) (tl cs)) (\<lambda>(b, r). Inr (hd cs # b, r)) else scan_set prev cs) (\<lambda>(b, r).
     if r = [] \<or> hd r \<noteq> c_rbracket then Inl (FAIL ''unmatched []'')
     else Inr (ret, flags_of True True False, (emit (b @ [0]) st)\<lparr> regparse := tl r \<rparr>))"
proof -
  have "(case cs of
        c # cs' \<Rightarrow> if c = c_rbracket \<or> c = c_minus then regset c cs' (regc c st) else regset prev cs st
      | [] \<Rightarrow> regset prev cs st)
    = bindE (if cs \<noteq> [] \<and> (hd cs = c_rbracket \<or> hd cs = c_minus)
        then bindE (scan_set (hd cs) (tl cs)) (\<lambda>(b, r). Inr (hd cs # b, r)) else scan_set prev cs)
       (\<lambda>(b, r). Inr ((emit b st)\<lparr> regparse := r \<rparr>))"
  proof (cases cs)
    case (Cons c ds)
    then show ?thesis
      unfolding regset_scan regc_emit
      by (cases "c = c_rbracket \<or> c = c_minus") (simp_all only: list.case list.sel if_True if_False simp_thms list.simps bindE_assoc,
        simp_all add: bindE_def split: sum.split)
  qed (simp add: regset_scan)
  then show ?thesis
    unfolding set_tail_node_def bindE_assoc
    by (simp only: bindE_assoc) (intro bindE_cong_Inr, auto simp: Let_def regc_emit flags_simple(1) split: list.split)
qed

lemma set_node_parse: "emits st (set_node cs st) (parse_set (regnpar st) cs)"
proof -
  have *: "emits st (bindE m (\<lambda>(b, r). if r = [] \<or> hd r \<noteq> c_rbracket then Inl (FAIL ''unmatched []'')
        else Inr (here st, flags_of True True False, (emit (b @ [0]) (emit (node3 op 0) st))\<lparr> regparse := tl r \<rparr>)))
      (bindE m (\<lambda>(b, r). if r = [] \<or> hd r \<noteq> c_rbracket then Inl (FAIL ''unmatched []'')
        else Inr (f b, True, regnpar st, tl r)))"
    if "\<And>b. code (f b) 0 = node3 op 0 @ b @ [0]" "\<And>b. has_width (f b)" "\<And>b. \<not> spst (f b)" for m op f
    using that by (cases m) (auto simp: emits_def)
  show ?thesis
    using * [of AnyBut O_ANYBUT] * [of AnyOf O_ANYOF]
    unfolding set_node_tail set_tail_node_scan parse_set_def Let_def
    by (cases "cs \<noteq> [] \<and> hd cs = c_caret") (simp_all only: if_True if_False simp_thms code.simps has_width.simps spst.simps)
qed

lemma emits_node3:
  assumes "\<not> spst x" "code x 0 = node3 op 0" "fl = flags_of (has_width x) s False"
  shows "emits st (let (ret, st') = regnode op (st\<lparr> regparse := r \<rparr>) in Inr (ret, fl, st')) (Inr (x, s, regnpar st, r))"
  using assms by (simp add: emits_def regnode_emit)

lemma emits_if: "(b \<Longrightarrow> emits st r p) \<Longrightarrow> (\<not> b \<Longrightarrow> emits st r' p') \<Longrightarrow> emits st (if b then r else r') (if b then p else p')"
  by simp

lemma regatom_parse:
  assumes "emits_group k rec prec" "length (regparse st) \<le> k" "0 \<notin> set (regparse st)" "0 < regnpar st"
  shows "emits st (regatom rec st) (parse_atom prec (regnpar st) (regparse st))"
proof (cases "regparse st")
  case (Cons c cs)
  have group: "emits st (bindE (rec (st\<lparr> regparse := cs \<rparr>)) (\<lambda>(ret, flags, st'). Inr (ret, flags \<inter> {HASWIDTH, SPSTART}, st')))
      (bindE (prec (regnpar st) cs) (\<lambda>(x, np, cs). Inr (x, False, np, cs)))"
  proof -
    have "emits (st\<lparr> regparse := cs \<rparr>) (rec (st\<lparr> regparse := cs \<rparr>)) (bindE (prec (regnpar st) cs) (\<lambda>(x, np, cs). Inr (x, False, np, cs)))"
      using assms(1) [unfolded emits_group_def, rule_format, of "st\<lparr> regparse := cs \<rparr>"] assms(2-4) Cons by simp
    moreover have "flags_of w s p \<inter> {HASWIDTH, SPSTART} = flags_of w False p" for w s p
      by (auto simp: flags_of_def)
    ultimately show ?thesis
      by (cases "prec (regnpar st) cs") (auto simp: emits_def)
  qed
  have exact: "emits st (exact_node ds (st\<lparr> regparse := cs \<rparr>)) (parse_exact (regnpar st) ds)" for ds
    using exact_node_parse [of "st\<lparr> regparse := cs \<rparr>" ds] by (auto simp: emits_def split: sum.splits)
  have set: "emits st (set_node ds (st\<lparr> regparse := cs \<rparr>)) (parse_set (regnpar st) ds)" for ds
    using set_node_parse [of "st\<lparr> regparse := cs \<rparr>" ds] by (auto simp: emits_def split: sum.splits)
  have node: "emits st (let (ret, st') = regnode op (st\<lparr> regparse := r \<rparr>) in Inr (ret, fl, st')) (Inr (x, s, regnpar st, r))"
    if "code x 0 = node3 op 0" "\<not> spst x" "fl = flags_of (has_width x) s False" for x op r fl s
    using that by (intro emits_node3)
  have fail: "emits st (Inl e) (Inl e)" for e
    by (simp add: emits_def)
  have quoted: "emits st (case cs of [] \<Rightarrow> Inl (FAIL (''trailing '' @ [CHR 0x5C]))
       | d # ds \<Rightarrow> if d = c_less then (let (ret, st') = regnode O_WORDA (st\<lparr> regparse := ds \<rparr>) in Inr (ret, {}, st'))
                 else if d = c_greater then (let (ret, st') = regnode O_WORDZ (st\<lparr> regparse := ds \<rparr>) in Inr (ret, {}, st'))
                 else exact_node cs (st\<lparr> regparse := cs \<rparr>))
      (if cs = [] then Inl (FAIL (''trailing '' @ [CHR 0x5C]))
       else if hd cs = c_less then Inr (WordA, False, regnpar st, tl cs)
       else if hd cs = c_greater then Inr (WordZ, False, regnpar st, tl cs)
       else parse_exact (regnpar st) cs)"
  proof (cases cs)
    case (Cons d ds)
    then show ?thesis
      by (simp only: list.case list.sel list.simps if_False)
        (intro emits_if node exact [of cs, unfolded Cons], simp_all add: flags_of_def)
  qed (simp add: fail)
  show ?thesis
    unfolding regatom_def parse_atom_def Cons list.case Let_def [of "st\<lparr> regparse := cs \<rparr>"]
    by (intro emits_if node exact set group quoted fail; auto simp: flags_of_def)
qed (simp add: regatom_def parse_atom_def emits_def)

lemma emits_Inl: "emits st r (Inl e) \<longleftrightarrow> (regcode st = None \<longrightarrow> r = Inl e)"
  by (simp add: emits_def)

lemma emits_Inr: "emits st r (Inr (x, s, np, cs)) \<longleftrightarrow> (fits st (len x) \<longrightarrow>
    r = Inr (here st, flags_of (has_width x) s (spst x), (emit (code x 0) st)\<lparr> regparse := cs, regnpar := np \<rparr>))"
  by (simp add: emits_def)

text \<open>The operator at the head of the text, in the order of the tests of \<open>regpiece\<close>.\<close>

definition operate :: "u8 \<Rightarrow> flag set \<Rightarrow> ptr \<Rightarrow> rstate \<Rightarrow> rstate rres" where
  "operate op flags ret st =
     (if op = c_star \<and> SIMPLE \<in> flags then reginsert O_STAR ret st
      else if op = c_star then emit_star ret st
      else if op = c_plus \<and> SIMPLE \<in> flags then reginsert O_PLUS ret st
      else if op = c_plus then emit_plus ret st
      else emit_quest ret st)"

lemma operate_code:
  assumes "wf x" "ISMULT op" "fits st (len (operated op s x))"
  shows "operate op (flags_of w s p) (here st) ((emit (code x 0) st)\<lparr> regparse := cs, regnpar := np \<rparr>)
    = Inr ((emit (code (operated op s x) 0) st)\<lparr> regparse := cs, regnpar := np \<rparr>)"
proof -
  let ?st = "st\<lparr> regparse := cs, regnpar := np \<rparr>"
  have "operate op (flags_of w s p) (here ?st) (emit (code x 0) ?st) = Inr (emit (code (operated op s x) 0) ?st)"
    using assms emit_star_code [OF assms(1), of ?st] emit_plus_code [OF assms(1), of ?st] emit_quest_code [OF assms(1), of ?st]
      reginsert_emit [of _ ?st]
    by (auto simp: operate_def operated_def ISMULT_def simp del: emit_simps(5,6) split: if_splits)
  then show ?thesis by simp
qed

lemma regpiece_parse:
  assumes "emits_group k rec prec" "bounded_group k prec" "length (regparse st) \<le> k" "0 \<notin> set (regparse st)" "0 < regnpar st"
  shows "emits st (regpiece rec st) (parse_piece prec (regnpar st) (regparse st))"
proof -
  note atom = regatom_parse [OF assms(1,3-5)]
  have piece: "regpiece rec st = bindE (regatom rec st) (\<lambda>(ret, flags, st).
     let op = head (regparse st) in
     if \<not> ISMULT op then Inr (ret, flags, st)
     else if HASWIDTH \<notin> flags \<and> op \<noteq> c_quest then Inl (FAIL ''*+ operand could be empty'')
     else bindE (operate op flags ret st) (\<lambda>st.
       let st = st\<lparr> regparse := tl (regparse st) \<rparr> in
       if ISMULT (head (regparse st)) then Inl (FAIL ''nested *?+'')
       else Inr (ret, if op \<noteq> c_plus then {SPSTART} else {HASWIDTH}, st)))"
    unfolding regpiece_def operate_def ..
  show ?thesis
  proof (cases "parse_atom prec (regnpar st) (regparse st)")
    case (Inl e)
    then show ?thesis using atom by (simp add: piece parse_piece_def emits_Inl)
  next
    case (Inr a)
    obtain x s np cs where a: "a = (x, s, np, cs)" by (cases a) auto
    define op where "op = head cs"
    have wf: "wf x" using parse_atom_result [OF assms(2-5)] Inr a by blast
    have atom': "fits st (len x) \<Longrightarrow>
        regatom rec st = Inr (here st, flags_of (has_width x) s (spst x), (emit (code x 0) st)\<lparr> regparse := cs, regnpar := np \<rparr>)"
      using atom Inr a by (simp add: emits_Inr)
    show ?thesis
    proof (cases "ISMULT op")
      case False
      then show ?thesis using Inr a atom' by (simp add: piece parse_piece_def emits_Inr Let_def op_def)
    next
      case True
      have flags: "(if op \<noteq> c_plus then {SPSTART} else {HASWIDTH}) = flags_of (has_width (operated op s x)) False (spst (operated op s x))"
        using True by (auto simp: operated_def flags_of_def ISMULT_def)
      have "len x \<le> len (operated op s x)" by (auto simp: operated_def)
      have go: "regpiece rec st = (if \<not> has_width x \<and> op \<noteq> c_quest then Inl (FAIL ''*+ operand could be empty'')
          else if ISMULT (head (tl cs)) then Inl (FAIL ''nested *?+'')
          else Inr (here st, flags_of (has_width (operated op s x)) False (spst (operated op s x)),
                 (emit (code (operated op s x) 0) st)\<lparr> regparse := tl cs, regnpar := np \<rparr>))"
        if f: "fits st (len (operated op s x))"
      proof -
        have "regpiece rec st = (if \<not> has_width x \<and> op \<noteq> c_quest then Inl (FAIL ''*+ operand could be empty'')
          else bindE (operate op (flags_of (has_width x) s (spst x)) (here st) ((emit (code x 0) st)\<lparr> regparse := cs, regnpar := np \<rparr>)) (\<lambda>st'.
            if ISMULT (head (tl (regparse st'))) then Inl (FAIL ''nested *?+'')
            else Inr (here st, if op \<noteq> c_plus then {SPSTART} else {HASWIDTH}, st'\<lparr> regparse := tl (regparse st') \<rparr>)))"
          unfolding piece using atom' [OF fits_mono [OF f]] \<open>len x \<le> len (operated op s x)\<close> True by (simp add: op_def Let_def)
        then show ?thesis
          unfolding operate_code [OF wf True f] flags bindE_simps by simp
      qed
      have parsed: "parse_piece prec (regnpar st) (regparse st) =
         (if \<not> has_width x \<and> op \<noteq> c_quest then Inl (FAIL ''*+ operand could be empty'')
          else if ISMULT (head (tl cs)) then Inl (FAIL ''nested *?+'') else Inr (operated op s x, False, np, tl cs))"
        using Inr a True by (simp add: parse_piece_def Let_def op_def)
      show ?thesis
        using go fits_None unfolding parsed by (auto simp: emits_Inl emits_Inr)
    qed
  qed
qed

text \<open>The pieces of a branch, with the piece before the scan pointer not yet hooked.\<close>

definition width_of :: "bool \<Rightarrow> flag set" where
  "width_of w = (if w then {HASWIDTH} else {})"

definition unchained :: "ptr option \<times> flag set \<times> rstate \<Rightarrow> (bool \<times> flag set \<times> rstate) rres" where
  "unchained = (\<lambda>(c, fl, st). Inr (c = None, fl, st))"

lemma width_of_union: "width_of a \<union> width_of b = width_of (a \<or> b)" "fl \<union> width_of a \<union> width_of b = fl \<union> width_of (a \<or> b)"
  by (auto simp: width_of_def)

lemma regpieces_more:
  assumes "emits_group k rec prec" "bounded_group k prec" "length cs \<le> k" "0 \<notin> set cs" "0 < np" "wf x"
  defines "S \<equiv> (\<lambda>st0 x cs np. (emit (code x 0) st0)\<lparr> regparse := cs, regnpar := np \<rparr>)"
  shows "(\<forall>e. parse_pieces n prec np cs = Inl e \<and> regcode st0 = None
            \<longrightarrow> regpieces n rec (Some (here st0)) fl (S st0 x cs np) = Inl e)
    \<and> (\<forall>xs np' r. parse_pieces n prec np cs = Inr (xs, np', r) \<and> fits st0 (len_seq (x # xs))
            \<longrightarrow> bindE (regpieces n rec (Some (here st0)) fl (S st0 x cs np)) unchained
              = Inr (False, fl \<union> width_of (has_width_seq xs), (emit (code_seq (x # xs) 0) st0)\<lparr> regparse := r, regnpar := np' \<rparr>))"
  using assms(3-6)
proof (induction n arbitrary: st0 x cs np fl)
  case (Suc n)
  show ?case
  proof (cases "ends_branch (head cs)")
    case True
    then show ?thesis by (auto simp: S_def width_of_def unchained_def)
  next
    case False
    let ?st = "S st0 x cs np"
    have piece: "emits ?st (regpiece rec ?st) (parse_piece prec np cs)"
      using regpiece_parse [OF assms(1,2), of ?st] Suc.prems by (simp add: S_def)
    show ?thesis
    proof (cases "parse_piece prec np cs")
      case (Inl e)
      then show ?thesis using False piece by (simp add: emits_Inl S_def)
    next
      case (Inr a)
      obtain y s np1 r1 where a: "a = (y, s, np1, r1)" by (cases a) auto
      have y: "wf y" "set r1 \<subseteq> set cs" "length r1 < length cs" "np \<le> np1"
        using parse_piece_result [OF assms(2) Suc.prems(1-3)] Inr a by blast+
      let ?st1 = "emit (code x (len x)) st0"
      have step: "regpieces (Suc n) rec (Some (here st0)) fl ?st = regpieces n rec (Some (here ?st1)) (fl \<union> width_of (has_width y)) (S ?st1 y r1 np1)"
        if "fits st0 (len x + len y)"
      proof -
        have rp: "regpiece rec ?st = Inr (adv (here st0) (len x), flags_of (has_width y) s (spst y), (emit (code x 0 @ code y 0) st0)\<lparr> regparse := r1, regnpar := np1 \<rparr>)"
          using piece Inr a that by (simp add: emits_Inr S_def)
        have "regtail (adv (here (st0\<lparr> regparse := r1, regnpar := np1 \<rparr>)) 0) (adv (here (st0\<lparr> regparse := r1, regnpar := np1 \<rparr>)) (0 + len x))
            (emit ([] @ code x 0 @ code y 0) (st0\<lparr> regparse := r1, regnpar := np1 \<rparr>))
          = Inr (emit ([] @ code x (len x) @ code y 0) (st0\<lparr> regparse := r1, regnpar := np1 \<rparr>))"
          using Suc.prems(4) fits_mono [OF that, of "len x"] by (intro regtail_code) simp_all
        then have rt: "regtail (here st0) (adv (here st0) (len x)) ((emit (code x 0 @ code y 0) st0)\<lparr> regparse := r1, regnpar := np1 \<rparr>)
          = Inr (S ?st1 y r1 np1)" by (simp add: S_def)
        have "flags_of (has_width y) s (spst y) \<inter> {HASWIDTH} = width_of (has_width y)"
          by (auto simp: flags_of_def width_of_def)
        then show ?thesis using False rp rt by (simp add: S_def)
      qed
      have IH: "(\<forall>e. parse_pieces n prec np1 r1 = Inl e \<and> regcode ?st1 = None
            \<longrightarrow> regpieces n rec (Some (here ?st1)) fl' (S ?st1 y r1 np1) = Inl e)
        \<and> (\<forall>xs np' r. parse_pieces n prec np1 r1 = Inr (xs, np', r) \<and> fits ?st1 (len_seq (y # xs))
            \<longrightarrow> bindE (regpieces n rec (Some (here ?st1)) fl' (S ?st1 y r1 np1)) unchained
              = Inr (False, fl' \<union> width_of (has_width_seq xs), (emit (code_seq (y # xs) 0) ?st1)\<lparr> regparse := r, regnpar := np' \<rparr>))" for fl'
        using Suc.prems y by (intro Suc.IH) auto
      show ?thesis
      proof (intro conjI allI impI, goal_cases)
        case (1 e)
        then have "parse_pieces n prec np1 r1 = Inl e" using False Inr a by (auto simp: bindE_Inl_iff)
        then show ?case using step [OF fits_None] IH 1 by simp
      next
        case (2 xs np' r)
        then obtain ys where ys: "parse_pieces n prec np1 r1 = Inr (ys, np', r)" "xs = y # ys"
          using False Inr a by (auto simp: bindE_Inr_iff)
        have "len y \<le> len_seq (y # ys)" by simp
        then have "fits st0 (len x + len y)" using 2 ys(2) by (auto elim: fits_mono)
        from step [OF this] show ?case
          using IH [of "fl \<union> width_of (has_width y)"] ys 2 by (simp add: width_of_union del: regpieces.simps)
      qed
    qed
  qed
qed simp

lemma swap_updates: "st\<lparr> regnpar := n, regparse := r \<rparr> = st\<lparr> regparse := r, regnpar := n \<rparr>"
  by simp

lemma regbranch_parse:
  assumes "emits_group k rec prec" "bounded_group k prec" "length (regparse st) \<le> k" "0 \<notin> set (regparse st)" "0 < regnpar st"
  shows "parse_branch prec (regnpar st) (regparse st) = Inl e \<Longrightarrow> regcode st = None \<Longrightarrow> regbranch rec st = Inl e"
    and "parse_branch prec (regnpar st) (regparse st) = Inr (xs, np, r) \<Longrightarrow> fits st (len_seq xs + 3) \<Longrightarrow>
      regbranch rec st = Inr (here st, flags_of (has_width_seq xs) False (spst_seq xs),
        (emit (node3 O_BRANCH 0 @ code_seq xs 0) st)\<lparr> regparse := r, regnpar := np \<rparr>)"
proof -
  let ?st = "emit (node3 O_BRANCH 0) st" and ?n = "length (regparse st)"
  let ?cs = "regparse st" and ?np = "regnpar st"
  define P where "P = regpieces (Suc ?n) rec None {} ?st"
  have branch: "regbranch rec st = bindE P (\<lambda>(chain, fl, st'). Inr (here st, fl, if chain = None then emit (node3 O_NOTHING 0) st' else st'))"
    unfolding regbranch_def regnode_emit P_def Let_def prod.case emit_simps(1) snd_conv ..
  have piece: "emits ?st (regpiece rec ?st) (parse_piece prec ?np ?cs)"
    using regpiece_parse [OF assms(1,2), of ?st] assms(3-5) by simp
  have start: "P = regpieces ?n rec (Some (here ?st)) (flags_of (has_width y) False (spst y)) ((emit (code y 0) ?st)\<lparr> regparse := r1, regnpar := np1 \<rparr>)"
    if "\<not> ends_branch (head ?cs)" "parse_piece prec ?np ?cs = Inr (y, s, np1, r1)" "fits st (len y + 3)" for y s np1 r1
  proof -
    have "regpiece rec ?st = Inr (here ?st, flags_of (has_width y) s (spst y), (emit (code y 0) ?st)\<lparr> regparse := r1, regnpar := np1 \<rparr>)"
      using piece that by (simp add: emits_Inr add.commute)
    moreover have "(flags_of (has_width y) s (spst y) \<inter> {HASWIDTH}) \<union> (flags_of (has_width y) s (spst y) \<inter> {SPSTART}) = flags_of (has_width y) False (spst y)"
      by (auto simp: flags_of_def)
    ultimately show ?thesis using that by (simp add: P_def)
  qed
  show "regbranch rec st = Inl e" if fail: "parse_branch prec ?np ?cs = Inl e" "regcode st = None"
  proof (cases "parse_piece prec ?np ?cs")
    case (Inl e')
    then show ?thesis using that piece by (auto simp: branch P_def parse_branch_def emits_Inl split: if_splits)
  next
    case (Inr a)
    obtain y s np1 r1 where a: "a = (y, s, np1, r1)" by (cases a) auto
    have ne: "\<not> ends_branch (head ?cs)" "parse_pieces ?n prec np1 r1 = Inl e"
      using fail Inr a by (auto simp: parse_branch_def bindE_Inl_iff split: if_splits)
    have y: "wf y" "set r1 \<subseteq> set ?cs" "length r1 < length ?cs" "?np \<le> np1"
      using parse_piece_result [OF assms(2-5)] Inr a by blast+
    have "P = Inl e"
      unfolding start [OF ne(1) Inr [unfolded a] fits_None [OF that(2)]]
      using regpieces_more [OF assms(1,2), of r1 np1 y ?n ?st] assms(3-5) y ne(2) that(2) by auto
    then show ?thesis by (simp add: branch)
  qed
  show "regbranch rec st = Inr (here st, flags_of (has_width_seq xs) False (spst_seq xs),
        (emit (node3 O_BRANCH 0 @ code_seq xs 0) st)\<lparr> regparse := r, regnpar := np \<rparr>)"
    if ok: "parse_branch prec ?np ?cs = Inr (xs, np, r)" "fits st (len_seq xs + 3)"
  proof (cases "ends_branch (head ?cs)")
    case True
    then show ?thesis using ok by (auto simp: branch P_def parse_branch_def flags_of_def)
  next
    case False
    then obtain y s np1 r1 ys where y1: "parse_piece prec ?np ?cs = Inr (y, s, np1, r1)"
      "parse_pieces ?n prec np1 r1 = Inr (ys, np, r)" "xs = y # ys"
      using ok(1) by (auto simp: parse_branch_def bindE_Inr_iff)
    have y: "wf y" "set r1 \<subseteq> set ?cs" "length r1 < length ?cs" "?np \<le> np1"
      using parse_piece_result [OF assms(2-5) y1(1)] by blast+
    have f: "fits st (len y + 3)" "fits ?st (len_seq (y # ys))"
      using ok(2) y1(3) by (auto intro: fits_mono simp: add.commute)
    have "bindE P unchained = Inr (False, flags_of (has_width y) False (spst y) \<union> width_of (has_width_seq ys), (emit (code_seq xs 0) ?st)\<lparr> regparse := r, regnpar := np \<rparr>)"
      unfolding start [OF False y1(1) f(1)] y1(3)
      using regpieces_more [OF assms(1,2), of r1 np1 y ?n ?st] assms(3-5) y y1(2) f(2) by (auto simp del: code_seq.simps len_seq.simps)
    moreover have "flags_of (has_width y) False (spst y) \<union> width_of (has_width_seq ys) = flags_of (has_width_seq xs) False (spst_seq xs)"
      by (auto simp: flags_of_def width_of_def y1(3))
    ultimately obtain c where "P = Inr (Some c, flags_of (has_width_seq xs) False (spst_seq xs), (emit (code_seq xs 0) ?st)\<lparr> regparse := r, regnpar := np \<rparr>)"
      by (cases P) (auto simp: unchained_def)
    then show ?thesis by (simp add: branch)
  qed
qed

text \<open>The branches of an expression, the last one not yet linked; \<open>H\<close> is the \<open>OPEN\<close> node, if any.\<close>

definition unlinked :: "u8 list \<Rightarrow> node list list \<Rightarrow> u8 list" where
  "unlinked H bs = H @ brs (loose (butlast bs)) @ node3 O_BRANCH 0 @ code_seq (last bs) 0"

definition opener :: "u8 list \<Rightarrow> bool" where
  "opener H \<longleftrightarrow> H = [] \<or> (\<exists>op. H = node3 op 3 \<and> op \<notin> {O_BACK, O_BRANCH, O_EXACTLY})"

lemma len_alts_snoc [simp]: "len_alts (bs @ [b]) = len_alts bs + 3 + len_seq b"
  by (induction bs) simp_all

lemma loose_snoc [simp]: "loose (bs @ [b]) = loose bs @ [code_seq b 0]"
  by (simp add: loose_def)

lemma length_unlinked: "bs \<noteq> [] \<Longrightarrow> length (unlinked H bs) = length H + len_alts bs"
  by (cases bs rule: rev_cases) (simp_all add: unlinked_def)

lemma regtail_unlinked:
  assumes "opener H" "bs \<noteq> []" "fits st (length H + len_alts bs)"
  shows "regtail (here st) (adv (here st) (length H + len_alts bs)) (emit (unlinked H bs @ B) st)
    = Inr (emit (H @ brs (loose bs) @ B) st)"
proof -
  obtain cs b where bs: "bs = cs @ [b]" using assms(2) by (cases bs rule: rev_cases) auto
  have "set_tail (length A + 0) (length A + (length H + len_alts bs)) (A @ unlinked H bs @ B) = Some (A @ H @ brs (loose bs) @ B)"
    if "length A + (length H + len_alts bs) < 65536" for A
    using assms(1) set_tail_branches [of "loose cs" "code_seq b 0" A "length A" "len_alts bs" B]
      set_tail_open_branches [of "loose cs" "code_seq b 0" A "length A" "len_alts bs + 3" _ B] that
    by (auto simp: opener_def unlinked_def bs add.commute)
  then show ?thesis
    using on_code_emit [of "length H + len_alts bs" set_tail 0 "length H + len_alts bs" "unlinked H bs @ B" "H @ brs (loose bs) @ B" st] assms(2,3)
    by (simp add: regtail_def length_unlinked)
qed

lemma branch_flags_of: "branch_flags (flags_of w False p) (flags_of w' s p') = flags_of (w \<and> w') False (p \<or> p')"
  by (auto simp: branch_flags_def flags_of_def)

lemma regalts_parse:
  fixes st0 :: rstate
  assumes "emits_group k rec prec" "bounded_group k prec" "length cs \<le> k" "0 \<notin> set cs" "0 < np" "opener H" "us \<noteq> []"
  defines "S \<equiv> (\<lambda>us cs np. (emit (unlinked H us) st0)\<lparr> regparse := cs, regnpar := np \<rparr>)"
  shows "(\<forall>e. parse_more n prec np cs = Inl e \<and> regcode st0 = None \<longrightarrow> regalts n rec (here st0) (flags_of w False p) (S us cs np) = Inl e)
    \<and> (\<forall>bs np' r. parse_more n prec np cs = Inr (bs, np', r) \<and> fits st0 (length H + len_alts (us @ bs))
          \<longrightarrow> regalts n rec (here st0) (flags_of w False p) (S us cs np)
            = Inr (flags_of (w \<and> has_width_alts bs) False (p \<or> spst_alts bs), S (us @ bs) r np'))"
  using assms(3-5,7)
proof (induction n arbitrary: us cs np w p)
  case (Suc n)
  show ?case
  proof (cases "head cs = c_bar \<or> head cs = c_newline")
    case False
    then show ?thesis by (auto simp: S_def)
  next
    case True
    then obtain c ds where cs: "cs = c # ds" by (cases cs) (auto simp: head_def)
    have ds: "length ds \<le> k" "0 \<notin> set ds" using Suc.prems cs by auto
    let ?st = "S us ds np"
    have more: "regalts (Suc n) rec (here st0) (flags_of w False p) (S us cs np) = bindE (regbranch rec ?st) (\<lambda>(br, flags, st).
        bindE (regtail (here st0) br st) (\<lambda>st. regalts n rec (here st0) (branch_flags (flags_of w False p) flags) st))"
      using True cs by (simp add: S_def swap_updates)
    have branch: "parse_branch prec np ds = Inl e \<Longrightarrow> regcode st0 = None \<Longrightarrow> regbranch rec ?st = Inl e"
      "parse_branch prec np ds = Inr (xs, np', r) \<Longrightarrow> fits ?st (len_seq xs + 3) \<Longrightarrow>
      regbranch rec ?st = Inr (here ?st, flags_of (has_width_seq xs) False (spst_seq xs),
        (emit (node3 O_BRANCH 0 @ code_seq xs 0) ?st)\<lparr> regparse := r, regnpar := np' \<rparr>)" for e xs np' r
      using regbranch_parse [OF assms(1,2), of ?st] ds Suc.prems(3) by (simp_all add: S_def)
    show ?thesis
    proof (cases "parse_branch prec np ds")
      case (Inl e)
      then have "parse_more (Suc n) prec np cs = Inl e" using True cs by simp
      then show ?thesis using branch(1) [OF Inl] by (simp add: more del: regalts.simps parse_more.simps)
    next
      case (Inr a)
      obtain x np1 r1 where a: "a = (x, np1, r1)" by (cases a) auto
      have x: "set r1 \<subseteq> set ds" "length r1 \<le> length ds" "np \<le> np1"
        using parse_branch_result(2) [OF assms(2) ds Suc.prems(3)] Inr a by blast+
      have step: "regalts (Suc n) rec (here st0) (flags_of w False p) (S us cs np)
          = regalts n rec (here st0) (flags_of (w \<and> has_width_seq x) False (p \<or> spst_seq x)) (S (us @ [x]) r1 np1)"
        if "fits st0 (length H + len_alts (us @ [x]))"
      proof -
        have "regbranch rec ?st = Inr (adv (here st0) (length H + len_alts us), flags_of (has_width_seq x) False (spst_seq x),
            (emit (unlinked H us @ node3 O_BRANCH 0 @ code_seq x 0) st0)\<lparr> regparse := r1, regnpar := np1 \<rparr>)"
          using branch(2) [OF Inr [unfolded a]] that Suc.prems(4) by (simp add: S_def length_unlinked add.assoc add.commute add.left_commute)
        moreover have "regtail (here (st0\<lparr> regparse := r1, regnpar := np1 \<rparr>)) (adv (here (st0\<lparr> regparse := r1, regnpar := np1 \<rparr>)) (length H + len_alts us))
            (emit (unlinked H us @ node3 O_BRANCH 0 @ code_seq x 0) (st0\<lparr> regparse := r1, regnpar := np1 \<rparr>))
          = Inr (emit (H @ brs (loose us) @ node3 O_BRANCH 0 @ code_seq x 0) (st0\<lparr> regparse := r1, regnpar := np1 \<rparr>))"
          using that assms(6) Suc.prems(4) by (intro regtail_unlinked) (auto elim: fits_mono)
        ultimately show ?thesis
          unfolding more by (simp add: branch_flags_of S_def unlinked_def)
      qed
      have IH: "(\<forall>e. parse_more n prec np1 r1 = Inl e \<and> regcode st0 = None \<longrightarrow> regalts n rec (here st0) (flags_of w' False p') (S (us @ [x]) r1 np1) = Inl e)
        \<and> (\<forall>bs np' r. parse_more n prec np1 r1 = Inr (bs, np', r) \<and> fits st0 (length H + len_alts ((us @ [x]) @ bs))
          \<longrightarrow> regalts n rec (here st0) (flags_of w' False p') (S (us @ [x]) r1 np1)
            = Inr (flags_of (w' \<and> has_width_alts bs) False (p' \<or> spst_alts bs), S ((us @ [x]) @ bs) r np'))" for w' p'
        using Suc.prems x ds by (intro Suc.IH) auto
      show ?thesis
      proof (intro conjI allI impI, goal_cases)
        case (1 e)
        then have "parse_more n prec np1 r1 = Inl e" using True cs Inr a by (auto simp: bindE_Inl_iff)
        then show ?case using step [OF fits_None] IH 1 by simp
      next
        case (2 bs np' r)
        then obtain ys where ys: "parse_more n prec np1 r1 = Inr (ys, np', r)" "bs = x # ys"
          using True cs Inr a by (auto simp: bindE_Inr_iff)
        have "len_alts (us @ [x]) \<le> len_alts (us @ bs)" using ys(2) by (induction us) auto
        then have "fits st0 (length H + len_alts (us @ [x]))" using 2 by (auto elim: fits_mono)
        from step [OF this] show ?case
          using IH [of "w \<and> has_width_seq x" "p \<or> spst_seq x"] ys 2 by (simp add: conj_assoc disj_assoc del: regalts.simps)
      qed
    qed
  qed
qed simp

text \<open>From the first branch to the last, and the closing node.\<close>

definition all_branches :: "(rstate \<Rightarrow> (ptr \<times> flag set \<times> rstate) rres) \<Rightarrow> ptr option \<Rightarrow> rstate \<Rightarrow> (ptr \<times> flag set \<times> rstate) rres" where
  "all_branches rec ret st = bindE (regbranch rec st) (\<lambda>(br, flags, st).
     bindE (case ret of None \<Rightarrow> Inr (br, st) | Some r \<Rightarrow> bindE (regtail r br st) (\<lambda>st. Inr (r, st))) (\<lambda>(ret, st).
     bindE (regalts (Suc (length (regparse st))) rec ret (branch_flags {HASWIDTH} flags) st) (\<lambda>(fl, st). Inr (ret, fl, st))))"

definition close_branches :: "u8 \<Rightarrow> ptr \<Rightarrow> rstate \<Rightarrow> rstate rres" where
  "close_branches op ret st = (let (ender, st) = regnode op st in
     bindE (regtail ret ender st) (\<lambda>st. on_code (\<lambda>p v. hook_branches v p) ret ender st))"

lemma all_branches_parse:
  fixes st0 :: rstate
  assumes "emits_group k rec prec" "bounded_group k prec" "length cs \<le> k" "0 \<notin> set cs" "0 < np"
    and "H0 = [] \<and> H = [] \<and> ret = None \<or> (\<exists>op. H0 = node3 op 0 \<and> H = node3 op 3 \<and> op \<notin> {O_BACK, O_BRANCH, O_EXACTLY} \<and> ret = Some (here st0))"
  defines "st \<equiv> (emit H0 st0)\<lparr> regparse := cs, regnpar := np \<rparr>"
  shows "parse_alts prec np cs = Inl e \<Longrightarrow> regcode st0 = None \<Longrightarrow> all_branches rec ret st = Inl e"
    and "parse_alts prec np cs = Inr (bs, np', r) \<Longrightarrow> fits st0 (length H + len_alts bs) \<Longrightarrow>
      all_branches rec ret st = Inr (here st0, flags_of (has_width_alts bs) False (spst_alts bs),
        (emit (unlinked H bs) st0)\<lparr> regparse := r, regnpar := np' \<rparr>)"
proof -
  have H: "opener H" "length H = length H0" using assms(6) by (auto simp: opener_def)
  have branch: "parse_branch prec np cs = Inl e \<Longrightarrow> regcode st0 = None \<Longrightarrow> regbranch rec st = Inl e"
    "parse_branch prec np cs = Inr (xs, np1, r1) \<Longrightarrow> fits st (len_seq xs + 3) \<Longrightarrow>
      regbranch rec st = Inr (here st, flags_of (has_width_seq xs) False (spst_seq xs),
        (emit (node3 O_BRANCH 0 @ code_seq xs 0) st)\<lparr> regparse := r1, regnpar := np1 \<rparr>)" for e xs np1 r1
    using regbranch_parse [OF assms(1,2), of st] assms(3-5) by (simp_all add: st_def)
  have hw: "branch_flags {HASWIDTH} (flags_of w s p) = flags_of w False p" for w s p
    by (auto simp: branch_flags_def flags_of_def)
  have first: "all_branches rec ret st = bindE (regalts (Suc (length r1)) rec (here st0) (flags_of (has_width_seq x) False (spst_seq x))
        ((emit (unlinked H [x]) st0)\<lparr> regparse := r1, regnpar := np1 \<rparr>)) (\<lambda>(fl, st). Inr (here st0, fl, st))"
    if "parse_branch prec np cs = Inr (x, np1, r1)" "fits st0 (length H + len_alts [x])" for x np1 r1
  proof -
    let ?X = "node3 O_BRANCH 0 @ code_seq x 0" and ?s = "st0\<lparr> regparse := r1, regnpar := np1 \<rparr>"
    have rb: "regbranch rec st = Inr (adv (here st0) (length H0), flags_of (has_width_seq x) False (spst_seq x),
        (emit (H0 @ ?X) st0)\<lparr> regparse := r1, regnpar := np1 \<rparr>)"
      using branch(2) [OF that(1)] that(2) H(2) by (simp add: st_def add.commute)
    have "(case ret of None \<Rightarrow> Inr (adv (here st0) (length H0), (emit (H0 @ ?X) st0)\<lparr> regparse := r1, regnpar := np1 \<rparr>)
        | Some r \<Rightarrow> bindE (regtail r (adv (here st0) (length H0)) ((emit (H0 @ ?X) st0)\<lparr> regparse := r1, regnpar := np1 \<rparr>)) (\<lambda>st. Inr (r, st)))
      = Inr (here st0, (emit (unlinked H [x]) st0)\<lparr> regparse := r1, regnpar := np1 \<rparr>)"
      using assms(6)
    proof (elim disjE exE)
      fix op assume op: "H0 = node3 op 0 \<and> H = node3 op 3 \<and> op \<notin> {O_BACK, O_BRANCH, O_EXACTLY} \<and> ret = Some (here st0)"
      have "regtail (adv (here ?s) 0) (adv (here ?s) 3) (emit ([] @ node3 op 0 @ ?X) ?s) = Inr (emit ([] @ node3 op (3 - 0) @ ?X) ?s)"
        using op by (intro regtail_unhooked) simp_all
      then show ?thesis using op by (simp add: unlinked_def loose_def)
    qed (simp add: unlinked_def loose_def)
    then show ?thesis by (simp add: all_branches_def rb hw del: regalts.simps)
  qed
  show "all_branches rec ret st = Inl e" if "parse_alts prec np cs = Inl e" "regcode st0 = None"
  proof (cases "parse_branch prec np cs")
    case (Inl e')
    then show ?thesis using that branch(1) by (simp add: parse_alts_def all_branches_def)
  next
    case (Inr a)
    obtain x np1 r1 where a: "a = (x, np1, r1)" by (cases a) auto
    have x: "set r1 \<subseteq> set cs" "length r1 \<le> length cs" "np \<le> np1"
      using parse_branch_result(2) [OF assms(2-5)] Inr a by blast+
    have "parse_more (Suc (length r1)) prec np1 r1 = Inl e"
      using that(1) Inr a by (auto simp: parse_alts_def bindE_Inl_iff simp del: parse_more.simps)
    moreover have "length r1 \<le> k" "0 \<notin> set r1" "0 < np1" using x assms(3-5) by auto
    ultimately show ?thesis
      using first [OF Inr [unfolded a] fits_None [OF that(2)]]
        regalts_parse [OF assms(1,2) _ _ _ H(1), of r1 np1 "[x]" "Suc (length r1)" st0] that(2)
      by (simp del: parse_more.simps regalts.simps)
  qed
  show "all_branches rec ret st = Inr (here st0, flags_of (has_width_alts bs) False (spst_alts bs),
        (emit (unlinked H bs) st0)\<lparr> regparse := r, regnpar := np' \<rparr>)"
    if ok: "parse_alts prec np cs = Inr (bs, np', r)" "fits st0 (length H + len_alts bs)"
  proof -
    obtain x np1 r1 ys where x1: "parse_branch prec np cs = Inr (x, np1, r1)" "parse_more (Suc (length r1)) prec np1 r1 = Inr (ys, np', r)" "bs = x # ys"
      using ok(1) by (auto simp: parse_alts_def bindE_Inr_iff simp del: parse_more.simps)
    have x: "set r1 \<subseteq> set cs" "length r1 \<le> length cs" "np \<le> np1"
      using parse_branch_result(2) [OF assms(2-5) x1(1)] by blast+
    have "length r1 \<le> k" "0 \<notin> set r1" "0 < np1" using x assms(3-5) by auto
    then have "regalts (Suc (length r1)) rec (here st0) (flags_of (has_width_seq x) False (spst_seq x)) ((emit (unlinked H [x]) st0)\<lparr> regparse := r1, regnpar := np1 \<rparr>)
       = Inr (flags_of (has_width_seq x \<and> has_width_alts ys) False (spst_seq x \<or> spst_alts ys), (emit (unlinked H ([x] @ ys)) st0)\<lparr> regparse := r, regnpar := np' \<rparr>)"
      using regalts_parse [OF assms(1,2) _ _ _ H(1), of r1 np1 "[x]" "Suc (length r1)" st0 "has_width_seq x" "spst_seq x"] x1(2,3) ok(2)
      by (simp del: parse_more.simps regalts.simps)
    moreover have "fits st0 (length H + len_alts [x])" using ok(2) x1(3) by (auto elim: fits_mono)
    ultimately show ?thesis
      using first [OF x1(1)] x1(3) by (simp del: regalts.simps)
  qed
qed

lemma close_branches_code:
  assumes "opener H" "bs \<noteq> []" "wf_alts bs" "fits st (length H + len_alts bs + 3)" "op \<noteq> O_BACK" "op \<noteq> O_BRANCH"
  shows "close_branches op (here st) (emit (unlinked H bs) st) = Inr (emit (H @ code_alts bs @ node3 op 0) st)"
proof -
  have "fits st (length H + len_alts bs)" using assms(4) by (auto elim: fits_mono)
  then have link: "regtail (here st) (adv (here st) (length H + len_alts bs)) (emit (unlinked H bs @ node3 op 0) st)
      = Inr (emit (H @ brs (loose bs) @ node3 op 0) st)"
    using assms by (intro regtail_unlinked)
  have "hook_branches (length A + (length H + len_alts bs)) (length A) (A @ H @ brs (loose bs) @ node3 op 0) = Some (A @ H @ code_alts bs @ node3 op 0)"
    if l: "length A + (length H + len_alts bs + 3) < 65536" for A
  proof -
    have *: "hook_branches (length A + (length H + len_alts bs)) (length A + length H) ((A @ H) @ brs (loose bs) @ node3 op 0 @ [])
        = Some ((A @ H) @ brs (bodies bs) @ node3 op 0 @ [])"
      using assms(3,5,6) l by (intro hook_branches_brs) simp_all
    consider "H = []" | h where "H = node3 h 3" "h \<noteq> O_BACK" "h \<noteq> O_BRANCH" using assms(1) by (auto simp: opener_def)
    then show ?thesis
    proof cases
      case 1
      then show ?thesis using * by (simp add: code_alts_brs)
    next
      case 2
      have "hook_branches (length A + (length H + len_alts bs)) (length A + 3) (A @ node3 h 3 @ brs (loose bs) @ node3 op 0)
          = Some (A @ node3 h 3 @ brs (bodies bs) @ node3 op 0)"
        using * 2 by simp
      from hook_branches_open [OF this refl 2(2,3)] show ?thesis using 2 by (simp add: code_alts_brs)
    qed
  qed
  then have "on_code (\<lambda>p v. hook_branches v p) (adv (here st) 0) (adv (here st) (length H + len_alts bs)) (emit (H @ brs (loose bs) @ node3 op 0) st)
      = Inr (emit (H @ code_alts bs @ node3 op 0) st)"
    using assms(4) by (intro on_code_emit [where n = "length H + len_alts bs + 3"]) simp_all
  then show ?thesis
    using link assms(2) by (simp add: close_branches_def regnode_emit length_unlinked)
qed

lemma reg_body_split:
  "reg_body rec paren st = (if paren \<and> regnpar st \<ge> NSUBEXP then Inl (FAIL ''too many ()'') else
     bindE (all_branches rec (if paren then Some (here st) else None)
       (if paren then emit (node3 (O_OPEN + of_nat (regnpar st)) 0) (st\<lparr> regnpar := regnpar st + 1 \<rparr>) else st)) (\<lambda>(ret, fl, st').
     bindE (close_branches (if paren then O_CLOSE + of_nat (regnpar st) else O_END) ret st') (\<lambda>st'.
     bindE (reg_end paren st') (\<lambda>st'. Inr (ret, fl, st')))))"
proof (cases paren)
  case True
  then show ?thesis
    unfolding reg_body_def all_branches_def close_branches_def regnode_emit
    by (simp add: bindE_assoc Let_def) (auto simp: bindE_def split: sum.splits)
next
  case False
  then show ?thesis
    unfolding reg_body_def all_branches_def close_branches_def regnode_emit
    by (simp add: bindE_assoc Let_def) (auto simp: bindE_def split: sum.splits)
qed

lemma set_npar: "regparse s = cs \<Longrightarrow> s\<lparr> regnpar := n \<rparr> = s\<lparr> regparse := cs, regnpar := n \<rparr>"
  by (cases s) simp

lemma reg_emits: "emits_group k (reg k True) (parse_group k)"
proof (induction k)
  case (Suc k)
  show ?case
    unfolding emits_group_def
  proof (intro allI impI)
    fix st :: rstate
    define np where "np = regnpar st"
    define cs where "cs = regparse st"
    assume "length (regparse st) < Suc k \<and> 0 \<notin> set (regparse st) \<and> 0 < regnpar st"
    then have cs: "length cs \<le> k" "0 \<notin> set cs" "0 < np + 1" by (auto simp: cs_def np_def)
    let ?o = "O_OPEN + of_nat np :: u8" and ?c = "O_CLOSE + of_nat np :: u8"
    have body: "reg (Suc k) True st = (if np \<ge> NSUBEXP then Inl (FAIL ''too many ()'') else
       bindE (all_branches (reg k True) (Some (here st)) ((emit (node3 ?o 0) st)\<lparr> regparse := cs, regnpar := np + 1 \<rparr>)) (\<lambda>(ret, fl, st').
       bindE (close_branches ?c ret st') (\<lambda>st'. bindE (reg_end True st') (\<lambda>st'. Inr (ret, fl, st')))))"
    proof -
      have "(emit (node3 ?o 0) st)\<lparr> regparse := cs, regnpar := np + 1 \<rparr> = emit (node3 ?o 0) (st\<lparr> regnpar := np + 1 \<rparr>)"
        by (simp add: cs_def set_npar [of "emit (node3 ?o 0) st", OF refl, of "np + 1"] del: One_nat_def)
      then show ?thesis unfolding reg.simps reg_body_split np_def by simp
    qed
    show "emits st (reg (Suc k) True st) (bindE (parse_group (Suc k) (regnpar st) (regparse st)) (\<lambda>(x, np, cs). Inr (x, False, np, cs)))"
    proof (cases "np \<ge> NSUBEXP")
      case True
      then show ?thesis using body by (simp add: np_def emits_Inl)
    next
      case False
      have op: "?o \<notin> {O_BACK, O_BRANCH, O_EXACTLY}" "?c \<notin> {O_BACK, O_BRANCH, O_EXACTLY}"
        using group_op [of np] False by simp_all
      then have H: "node3 ?o 0 = [] \<and> node3 ?o 3 = [] \<and> Some (here st) = None \<or> (\<exists>op. node3 ?o 0 = node3 op 0
          \<and> node3 ?o 3 = node3 op 3 \<and> op \<notin> {O_BACK, O_BRANCH, O_EXACTLY} \<and> Some (here st) = Some (here st))"
        by blast
      note all = all_branches_parse [OF Suc.IH parse_group_bounded cs H]
      show ?thesis
      proof (cases "parse_alts (parse_group k) (np + 1) cs")
        case (Inl e)
        then show ?thesis
          using False all(1) [OF Inl] body by (simp add: emits_Inl np_def cs_def)
      next
        case (Inr a)
        obtain bs np' r where a: "a = (bs, np', r)" by (cases a) auto
        have bs: "bs \<noteq> []" "wf_alts bs"
          using parse_alts_result [OF parse_group_bounded cs] Inr a by blast+
        let ?s = "st\<lparr> regparse := r, regnpar := np' \<rparr>"
        have go: "reg (Suc k) True st = bindE (reg_end True ((emit (code (Group np bs) 0) st)\<lparr> regparse := r, regnpar := np' \<rparr>))
            (\<lambda>st'. Inr (here st, flags_of (has_width_alts bs) False (spst_alts bs), st'))"
          if f: "fits st (len (Group np bs))"
        proof -
          have "fits st (length (node3 ?o 3) + len_alts bs)" using f by (auto elim: fits_mono)
          moreover have "close_branches ?c (here ?s) (emit (unlinked (node3 ?o 3) bs) ?s) = Inr (emit (node3 ?o 3 @ code_alts bs @ node3 ?c 0) ?s)"
            using f op bs by (intro close_branches_code) (auto simp: opener_def add.commute)
          ultimately show ?thesis
            using False all(2) [OF Inr [unfolded a]] body by simp
        qed
        have "emits st (reg (Suc k) True st) (if r = [] \<or> hd r \<noteq> c_close then Inl (FAIL ''unmatched ()'')
            else Inr (Group np bs, False, np', tl r))"
          using go fits_None by (cases r) (auto simp: emits_Inl emits_Inr reg_end_def)
        moreover have "bindE (parse_group (Suc k) (regnpar st) (regparse st)) (\<lambda>(x, np, cs). Inr (x, False, np, cs))
            = (if r = [] \<or> hd r \<noteq> c_close then Inl (FAIL ''unmatched ()'') else Inr (Group np bs, False, np', tl r))"
          using False Inr a by (simp add: np_def cs_def)
        ultimately show ?thesis by (simp only:)
      qed
    qed
  qed
qed (simp add: emits_group_def)

lemma reg_parse:
  assumes "0 \<notin> set cs" "regparse st = cs" "regnpar st = 1"
  shows "parse cs = Inl e \<Longrightarrow> regcode st = None \<Longrightarrow> reg (Suc (length cs)) False st = Inl e"
    and "parse cs = Inr bs \<Longrightarrow> fits st (len_alts bs + 3) \<Longrightarrow>
      \<exists>np. reg (Suc (length cs)) False st = Inr (here st, flags_of (has_width_alts bs) False (spst_alts bs),
        (emit (code_alts bs @ node3 O_END 0) st)\<lparr> regparse := [], regnpar := np \<rparr>)"
proof -
  let ?k = "length cs"
  have st: "(emit [] st)\<lparr> regparse := cs, regnpar := 1 \<rparr> = st" using assms(2,3) by (cases st) simp
  have body: "reg (Suc ?k) False st = bindE (all_branches (reg ?k True) None ((emit [] st)\<lparr> regparse := cs, regnpar := 1 \<rparr>)) (\<lambda>(ret, fl, st').
       bindE (close_branches O_END ret st') (\<lambda>st'. bindE (reg_end False st') (\<lambda>st'. Inr (ret, fl, st'))))"
    unfolding st reg.simps reg_body_split by simp
  have H: "([] :: u8 list) = [] \<and> ([] :: u8 list) = [] \<and> None = None \<or> (\<exists>op. ([] :: u8 list) = node3 op 0
      \<and> ([] :: u8 list) = node3 op 3 \<and> op \<notin> {O_BACK, O_BRANCH, O_EXACTLY} \<and> None = Some (here st))" by simp
  note all = all_branches_parse [OF reg_emits parse_group_bounded order_refl assms(1) zero_less_one H]
  show "reg (Suc ?k) False st = Inl e" if "parse cs = Inl e" "regcode st = None"
  proof (cases "parse_alts (parse_group ?k) 1 cs")
    case (Inl e')
    then show ?thesis using that all(1) [OF Inl that(2)] body by (simp add: parse_def del: reg.simps)
  next
    case (Inr a)
    obtain bs np' r where a: "a = (bs, np', r)" by (cases a) auto
    have bs: "bs \<noteq> []" "wf_alts bs"
      using parse_alts_result [OF parse_group_bounded order_refl assms(1) zero_less_one] Inr a by blast+
    let ?s = "st\<lparr> regparse := r, regnpar := np' \<rparr>"
    have "close_branches O_END (here ?s) (emit (unlinked [] bs) ?s) = Inr (emit ([] @ code_alts bs @ node3 O_END 0) ?s)"
      using bs that(2) by (intro close_branches_code) (auto simp: opener_def fits_None)
    then have "reg (Suc ?k) False st = bindE (reg_end False (emit ([] @ code_alts bs @ node3 O_END 0) ?s))
        (\<lambda>st'. Inr (here st, flags_of (has_width_alts bs) False (spst_alts bs), st'))"
      using all(2) [OF Inr [unfolded a] fits_None [OF that(2)]] body by (simp del: reg.simps)
    then show ?thesis
      using that(1) Inr a by (cases r) (auto simp: parse_def reg_end_def simp del: reg.simps split: if_splits)
  qed
  show "\<exists>np. reg (Suc ?k) False st = Inr (here st, flags_of (has_width_alts bs) False (spst_alts bs),
        (emit (code_alts bs @ node3 O_END 0) st)\<lparr> regparse := [], regnpar := np \<rparr>)"
    if ok: "parse cs = Inr bs" "fits st (len_alts bs + 3)"
  proof -
    obtain np' where p: "parse_alts (parse_group ?k) 1 cs = Inr (bs, np', [])"
      using ok(1) by (auto simp: parse_def bindE_Inr_iff split: if_splits)
    have bs: "bs \<noteq> []" "wf_alts bs"
      using parse_alts_result [OF parse_group_bounded order_refl assms(1) zero_less_one] p by blast+
    let ?s = "st\<lparr> regparse := [], regnpar := np' \<rparr>"
    have "close_branches O_END (here ?s) (emit (unlinked [] bs) ?s) = Inr (emit ([] @ code_alts bs @ node3 O_END 0) ?s)"
      using bs ok(2) by (intro close_branches_code) (auto simp: opener_def)
    moreover have "fits st (length ([] :: u8 list) + len_alts bs)" using ok(2) by (auto elim: fits_mono)
    ultimately show ?thesis
      using all(2) [OF p] body by (intro exI [of _ np']) (simp add: reg_end_def del: reg.simps)
  qed
qed

section \<open>The compiled expression\<close>

fun must_lits_seq :: "nat \<Rightarrow> node list \<Rightarrow> (nat \<times> u8 list) list" where
  "must_lits_seq p [] = []"
| "must_lits_seq p (x # xs) = must_lits p x @ must_lits_seq (p + len x) xs"

definition longer :: "nat \<times> u8 list \<Rightarrow> nat option \<times> nat \<Rightarrow> nat option \<times> nat" where
  "longer l m = (if length (snd l) \<ge> snd m then (Some (fst l + 3), length (snd l)) else m)"

text \<open>The first opcode of a piece, and the first character of its string if it is a literal.\<close>

fun opcode :: "node \<Rightarrow> u8" where
  "opcode Bol = O_BOL"
| "opcode Eol = O_EOL"
| "opcode Any = O_ANY"
| "opcode WordA = O_WORDA"
| "opcode WordZ = O_WORDZ"
| "opcode (AnyOf b) = O_ANYOF"
| "opcode (AnyBut b) = O_ANYBUT"
| "opcode (Str b) = O_EXACTLY"
| "opcode (Group n bs) = O_OPEN + of_nat n"
| "opcode (StarOf s x) = (if s then O_STAR else O_BRANCH)"
| "opcode (PlusOf s x) = (if s then O_PLUS else opcode x)"
| "opcode (Opt x) = O_BRANCH"

fun first_char :: "node \<Rightarrow> u8" where
  "first_char (Str b) = hd b"
| "first_char (PlusOf s x) = (if s then 0 else first_char x)"
| "first_char x = 0"

text \<open>\<open>regstart\<close>, \<open>reganch\<close>, \<open>regmust\<close> and \<open>regmlen\<close>.\<close>

definition digest :: "node list list \<Rightarrow> u8 \<times> bool \<times> nat option \<times> nat" where
  "digest bs = (case bs of
       [b] \<Rightarrow> (let m = (if spst_seq b then fold longer (must_lits_seq 4 b) (None, 0) else (None, 0))
               in (case b of x # _ \<Rightarrow> (first_char x, x = Bol, m) | [] \<Rightarrow> (0, False, m)))
     | _ \<Rightarrow> (0, False, None, 0))"

definition compiled :: "nat option list \<Rightarrow> nat option list \<Rightarrow> node list list \<Rightarrow> regexp" where
  "compiled sp ep bs = (case digest bs of (start, anch, must, mlen) \<Rightarrow>
     \<lparr> startp = sp, endp = ep, regstart = start, reganch = anch, regmust = must, regmlen = mlen, program = layout bs \<rparr>)"

lemma leads_longest:
  "leads c ls p q \<Longrightarrow> longest_literal c m l p = (case fold longer ls (m, l) of (m', l') \<Rightarrow> longest_literal c m' l' q)"
proof (induction arbitrary: m l rule: leads.induct)
  case (leads_step p q ls r)
  have "longest_literal c m l p = longest_literal c m l q"
    using leads_step.hyps by (subst longest_literal.simps) simp
  then show ?case using leads_step.IH by simp
next
  case (leads_lit p q w ls r)
  obtain m' l' where m': "longer (p, w) (m, l) = (m', l')" by fastforce
  then have "longest_literal c m l p = longest_literal c m' l' q"
    using leads_lit.hyps by (subst longest_literal.simps) (auto simp: longer_def split: if_splits)
  then show ?case using leads_lit.IH m' by simp
qed simp

lemma leads_seq:
  assumes "wf_seq xs" "len_seq xs < 65536" "length A = p"
  shows "leads (A @ code_seq xs (len_seq xs) @ B) (must_lits_seq p xs) p (p + len_seq xs)"
  using assms
proof (induction xs arbitrary: A p)
  case Nil
  then show ?case using leads_node3 [of 3 O_NOTHING A p B] by simp
next
  case (Cons x xs)
  show ?case
  proof (cases "xs = []")
    case True
    then show ?thesis using leads_past [of x A p "len x" B] Cons.prems by simp
  next
    case False
    let ?C = "A @ code_seq (x # xs) (len_seq (x # xs)) @ B"
    have ah: "ahead (len x + len_seq xs) (len x) = len_seq xs"
      using len_pos(2) [of xs] by (simp add: ahead_def)
    have "leads ?C (must_lits p x) p (p + len x)"
      using leads_past [of x A p "len x" "code_seq xs (len_seq xs) @ B"] Cons.prems False ah by simp
    moreover have "leads ?C (must_lits_seq (p + len x) xs) (p + len x) (p + len x + len_seq xs)"
      using Cons.IH [of "A @ code x (len x)" "p + len x"] Cons.prems False ah by simp
    ultimately show ?thesis
      using leads_trans False by (fastforce simp: add.assoc)
  qed
qed

lemma code_first:
  assumes "wf x"
  shows "\<exists>u B. code x t = node3 (opcode x) u @ B
    \<and> (if opcode x = O_EXACTLY then B \<noteq> [] \<and> hd B = first_char x else first_char x = 0)"
  using assms
proof (induction x arbitrary: t)
  case (Group n bs)
  then show ?case using group_op [of n] by auto
next
  case (PlusOf s x)
  show ?case
  proof (cases s)
    case False
    obtain u B where *: "code x (len x) = node3 (opcode x) u @ B"
      "if opcode x = O_EXACTLY then B \<noteq> [] \<and> hd B = first_char x else first_char x = 0"
      using PlusOf by force
    then show ?thesis
      using False by (intro exI [of _ u] exI [of _ "B @ node3 O_BRANCH 6 @ node3 O_BACK (len x + 3) @ node3 O_BRANCH 3
           @ node3 O_NOTHING (ahead t (len x + 9))"]) auto
  qed auto
qed auto

lemma opcode_bol: "wf x \<Longrightarrow> opcode x = O_BOL \<longleftrightarrow> x = Bol"
proof (induction x)
  case (Group n bs)
  then show ?case using small_group [of n] by auto
next
  case (PlusOf s x)
  then show ?case by (cases "x = Bol") auto
qed auto

lemma dig_out_layout:
  assumes "bs \<noteq> []" "wf_alts bs" "len_alts bs < 65536"
  shows "dig_out (layout bs) (flags_of w False (spst_alts bs)) = Some (digest bs)"
proof -
  obtain b cs where bs: "bs = b # cs" using assms(1) by (cases bs) auto
  let ?b = "node3 O_BRANCH (len_seq b + 3)" and ?s = "code_seq b (len_seq b + len_alts cs)"
  let ?t = "code_alts cs @ node3 O_END 0"
  have lay: "layout bs = [MAGIC] @ ?b @ (?s @ ?t)" by (simp add: layout_def bs)
  have next1: "regnext (layout bs) 1 = Some (Some (len_seq b + 4))"
    unfolding lay using assms(3) by (subst regnext_node3) (simp_all add: bs)
  show ?thesis
  proof (cases cs)
    case (Cons c ds)
    have "layout bs ! (len_seq b + 4) = O_BRANCH"
      unfolding lay Cons using nth_node3 [of "[MAGIC] @ ?b @ code_seq b (len_seq b + len_alts (c # ds))" O_BRANCH "len_seq c + 3"
          "code_seq c (len_seq c + len_alts ds) @ code_alts ds @ node3 O_END 0"]
      by (simp add: add.commute)
    then show ?thesis
      using next1 Cons by (simp add: dig_out_def digest_def bs length_layout)
  next
    case Nil
    have fin: "layout bs ! (len_seq b + 4) = O_END"
      unfolding lay Nil using nth_node3 [of "[MAGIC] @ ?b @ code_seq b (len_seq b)" O_END 0 "[]"] by (simp add: add.commute)
    have wf: "wf_seq b" using assms(2) bs by simp
    have first: "layout bs ! 4 = (case b of [] \<Rightarrow> O_NOTHING | x # _ \<Rightarrow> opcode x) \<and>
       (case b of x # _ \<Rightarrow> if opcode x = O_EXACTLY then 7 < length (layout bs) \<and> layout bs ! 7 = first_char x else first_char x = 0 | [] \<Rightarrow> True)"
    proof (cases b)
      case Nil
      then show ?thesis unfolding lay by (simp add: node3_def)
    next
      case (Cons x xs)
      define t where "t = (if xs = [] then len_seq b + len_alts cs else len x)"
      obtain u B where u: "code x t = node3 (opcode x) u @ B"
        "if opcode x = O_EXACTLY then B \<noteq> [] \<and> hd B = first_char x else first_char x = 0"
        using code_first wf Cons by (metis wf_seq.simps(2))
      have "\<exists>E. ?s = code x t @ E" unfolding Cons t_def by (cases "xs = []") auto
      then obtain E where E: "?s = code x t @ E" by blast
      have "layout bs = MAGIC # ?b @ node3 (opcode x) u @ B @ E @ ?t" unfolding lay E u by simp
      then show ?thesis using u(2) unfolding Cons by (cases B) (auto simp: node3_def)
    qed
    have "leads ([MAGIC, O_BRANCH, of_nat ((len_seq b + 3) div 256), of_nat (len_seq b + 3)] @ code_seq b (len_seq b) @ node3 O_END 0)
        (must_lits_seq 4 b) 4 (4 + len_seq b)"
      using wf assms(3) by (intro leads_seq) (simp_all add: bs)
    then have chain: "leads (layout bs) (must_lits_seq 4 b) 4 (4 + len_seq b)"
      unfolding lay Nil by (simp add: node3_def)
    have "regnext (([MAGIC] @ ?b @ ?s) @ node3 O_END 0 @ []) (4 + len_seq b) = Some None"
      by (subst regnext_node3) (simp_all add: Nil)
    then have "regnext (layout bs) (4 + len_seq b) = Some None" unfolding lay Nil by simp
    moreover have "4 + len_seq b < length (layout bs)" by (simp add: length_layout bs Nil)
    ultimately have "longest_literal (layout bs) m l (4 + len_seq b) = Some (m, l)" for m l
      using fin unfolding add.commute [of 4] by (subst longest_literal.simps) simp
    then have must: "longest_literal (layout bs) None 0 4 = Some (fold longer (must_lits_seq 4 b) (None, 0))"
      using leads_longest [OF chain, of None 0] by (simp split: prod.splits)
    have "4 < length (layout bs)" using len_pos(2) [of b] by (simp add: length_layout bs)
    then show ?thesis
      using next1 fin first must wf Nil
      by (auto simp: dig_out_def digest_def bs length_layout opcode_bol split: list.splits prod.splits)
  qed
qed

lemma regcomp_layout:
  assumes "0 \<notin> set cs"
  shows "regcomp malloc (Some cs) = (case parse cs of
      Inl e \<Rightarrow> Inl e
    | Inr bs \<Rightarrow>
        if length (layout bs) \<ge> 32767 then Inl (FAIL ''regexp too big'')
        else case malloc (length (layout bs)) of
            None \<Rightarrow> Inl (FAIL ''out of space'')
          | Some (sp, ep) \<Rightarrow> Inr (compiled sp ep bs))"
proof -
  let ?st = "\<lparr> regparse = cs, regnpar = 1, regsize = 0, regcode = None, regover = False \<rparr>"
  have init: "regparse (regc MAGIC ?st) = cs" "regnpar (regc MAGIC ?st) = 1" "regcode (regc MAGIC ?st) = None" "regsize (regc MAGIC ?st) = 1"
    by (simp_all add: regc_def)
  show ?thesis
  proof (cases "parse cs")
    case (Inl e)
    then show ?thesis
      using reg_parse(1) [OF assms init(1,2) Inl init(3)] by (simp add: regcomp_def del: reg.simps)
  next
    case (Inr bs)
    have bs: "bs \<noteq> []" "wf_alts bs" using parse_result(2) [OF assms Inr] by auto
    have nowhere: "here (regc MAGIC ?st) = None" by (simp add: here_def regc_def)
    obtain np where pass1: "reg (Suc (length cs)) False (regc MAGIC ?st) = Inr (None, flags_of (has_width_alts bs) False (spst_alts bs),
        (emit (code_alts bs @ node3 O_END 0) (regc MAGIC ?st))\<lparr> regparse := [], regnpar := np \<rparr>)"
      using reg_parse(2) [OF assms init(1,2) Inr fits_None [OF init(3)]] unfolding nowhere by blast
    let ?s1 = "(emit (code_alts bs @ node3 O_END 0) (regc MAGIC ?st))\<lparr> regparse := [], regnpar := np \<rparr>"
    have size: "regsize ?s1 = length (layout bs)"
      using init by (simp add: emit_def length_layout)
    let ?s2 = "regc MAGIC (?s1\<lparr> regparse := cs, regnpar := 1, regcode := Some [] \<rparr>)"
    have init2: "regparse ?s2 = cs" "regnpar ?s2 = 1" "regcode ?s2 = Some [MAGIC]"
      by (simp_all add: regc_def)
    have inside: "regsize ?s2 = length (layout bs)" "\<not> regover ?s2"
      using size init(3,4) by (simp_all add: regc_def emit_def length_layout)
    show ?thesis
    proof (cases "length (layout bs) \<ge> 32767")
      case True
      then show ?thesis using Inr pass1 size by (simp add: regcomp_def del: reg.simps)
    next
      case False
      then have "fits ?s2 (len_alts bs + 3)" unfolding fits_def init2 option.case by (simp add: length_layout)
      from reg_parse(2) [OF assms init2(1,2) Inr this]
      obtain np' where pass2: "reg (Suc (length cs)) False ?s2 = Inr (here ?s2, flags_of (has_width_alts bs) False (spst_alts bs),
        (emit (code_alts bs @ node3 O_END 0) ?s2)\<lparr> regparse := [], regnpar := np' \<rparr>)" by blast
      have "regcode ((emit (code_alts bs @ node3 O_END 0) ?s2)\<lparr> regparse := [], regnpar := np' \<rparr>) = Some (layout bs)"
        using init2(3) by (simp add: emit_def layout_def)
      moreover have "\<not> regover ((emit (code_alts bs @ node3 O_END 0) ?s2)\<lparr> regparse := [], regnpar := np' \<rparr>)"
        using init2(3) inside by (simp add: emit_def length_layout)
      moreover have "dig_out (layout bs) (flags_of (has_width_alts bs) False (spst_alts bs)) = Some (digest bs)"
        using bs False by (intro dig_out_layout) (simp_all add: length_layout)
      ultimately show ?thesis
        using Inr pass1 size False pass2
        by (simp add: regcomp_def compiled_def del: reg.simps split: option.splits prod.splits)
    qed
  qed
qed

end
