(* ===== verification/Regexp_Exec.thy ===== *)
theory Regexp_Exec
  imports Regexp_Emits
begin

text \<open>
  The matcher of \<open>cygwin/regexp/v8_regexp.c\<close> and the substitution of \<open>v8_regsub.c\<close>.

  The subject is the list of its bytes without the terminating NUL; \<open>reginput\<close> and the pointers in
  \<open>startp\<close> and \<open>endp\<close> are indices into it. \<open>Stuck\<close> is an access outside the program, a read
  before the subject or behind its NUL, or the end of the fuel; \<open>Fails\<close> is the return of 0 and \<open>Matches\<close>
  the return of 1. After a return of 0 no caller reads \<open>reginput\<close> before setting it again, and the
  arrays are only written on the way back from a match, so \<open>Fails\<close> carries no state. \<open>isalnum\<close> is the
  argument \<open>alnum\<close> of the matcher.

  The main results: on a compiled program the matcher returns what a matcher on the tree returns,
  with the same subexpressions; \<open>regexec\<close> finds the first position where the expression matches and
  succeeds exactly if the subject has a substring in the language of the expression.
\<close>

unbundle bit_operations_syntax

section \<open>regmatch\<close>

record mstate =
  reginput :: nat
  regstartp :: "nat option list"
  regendp :: "nat option list"

datatype outcome = Stuck | Fails | Matches mstate

text \<open>
  The character at \<open>i\<close> of a C string whose NUL is left out. The code reads an operand through it at 0 only;
  a read of the subject through \<open>reginput\<close> is \<open>subject_byte\<close>.
\<close>

definition peek :: "u8 list \<Rightarrow> nat \<Rightarrow> u8" where
  "peek s i = (if i < length s then s ! i else 0)"

text \<open>
  A read through a pointer into the subject: its bytes and the NUL behind them, and \<open>None\<close> anywhere
  else, before the first byte or behind the NUL. \<open>with_byte\<close> goes on with the byte it reads.
\<close>

definition subject_byte :: "u8 list \<Rightarrow> int \<Rightarrow> u8 option" where
  "subject_byte s i =
     (if i < 0 then None
      else if i < int (length s) then Some (s ! nat i)
      else if i = int (length s) then Some 0
      else None)"

definition with_byte :: "u8 list \<Rightarrow> int \<Rightarrow> (u8 \<Rightarrow> 'r option) \<Rightarrow> 'r option" where
  "with_byte s i f = (case subject_byte s i of None \<Rightarrow> None | Some ch \<Rightarrow> f ch)"

lemma subject_byte_inside [simp]: "i \<le> length s \<Longrightarrow> subject_byte s (int i) = Some (peek s i)"
  by (auto simp: subject_byte_def peek_def)

lemma subject_byte_before [simp]: "0 < i \<Longrightarrow> i \<le> length s \<Longrightarrow> subject_byte s (int i - 1) = Some (peek s (i - 1))"
  by (auto simp: subject_byte_def peek_def nat_diff_distrib')

lemma subject_byte_peek: "subject_byte s (int i) = Some ch \<Longrightarrow> ch = peek s i"
  by (auto simp: subject_byte_def peek_def split: if_splits)

lemma with_byte_inside [simp]:
  "i \<le> length s \<Longrightarrow> with_byte s (int i) f = f (peek s i)"
  "0 < i \<Longrightarrow> i \<le> length s \<Longrightarrow> with_byte s (int i - 1) f = f (peek s (i - 1))"
  by (simp_all add: with_byte_def)

definition wordchar :: "(u8 \<Rightarrow> bool) \<Rightarrow> u8 \<Rightarrow> bool" where
  "wordchar alnum c \<longleftrightarrow> alnum c \<or> c = 0x5f"

text \<open>\<open>strncmp (a, b, n) == 0\<close> on C strings.\<close>

definition strncmp_eq :: "u8 list \<Rightarrow> u8 list \<Rightarrow> nat \<Rightarrow> bool" where
  "strncmp_eq a b n \<longleftrightarrow> take n a = take n b"

text \<open>
  The nodes that test and advance, for the input position \<open>i\<close>: the outer \<open>None\<close> is a read outside the
  subject or a string operand that leaves the program, \<open>Some None\<close> the return of 0, and
  \<open>Some (Some i')\<close> the new position.
\<close>

definition plain_op :: "u8 \<Rightarrow> bool" where
  "plain_op op \<longleftrightarrow> op \<in> {O_BOL, O_EOL, O_WORDA, O_WORDZ, O_ANY, O_EXACTLY, O_ANYOF, O_ANYBUT, O_NOTHING, O_BACK}"

definition step_plain :: "(u8 \<Rightarrow> bool) \<Rightarrow> u8 list \<Rightarrow> u8 list \<Rightarrow> nat \<Rightarrow> nat \<Rightarrow> nat option option" where
  "step_plain alnum c s scan i =
     (let op = c ! scan in
      if op = O_BOL then Some (if i \<noteq> 0 then None else Some i)
      else if op = O_EOL then with_byte s (int i) (\<lambda>ch. Some (if ch \<noteq> 0 then None else Some i))
      else if op = O_WORDA then
        with_byte s (int i) (\<lambda>ch.
          if \<not> wordchar alnum ch then Some None
          else if i > 0 then
            with_byte s (int i - 1) (\<lambda>before. Some (if wordchar alnum before then None else Some i))
          else Some (Some i))
      else if op = O_WORDZ then with_byte s (int i) (\<lambda>ch. Some (if wordchar alnum ch then None else Some i))
      else if op = O_ANY then with_byte s (int i) (\<lambda>ch. Some (if ch = 0 then None else Some (i + 1)))
      else if op = O_EXACTLY then
        (case cstring c (scan + 3) of
           None \<Rightarrow> None
         | Some opnd \<Rightarrow> with_byte s (int i) (\<lambda>ch.
             if peek opnd 0 \<noteq> ch then Some None
             else if length opnd > 1 \<and> \<not> strncmp_eq opnd (drop i s) (length opnd) then Some None
             else Some (Some (i + length opnd))))
      else if op = O_ANYOF then
        (case cstring c (scan + 3) of
           None \<Rightarrow> None
         | Some opnd \<Rightarrow> with_byte s (int i) (\<lambda>ch. Some (if ch = 0 \<or> ch \<notin> set opnd then None else Some (i + 1))))
      else if op = O_ANYBUT then
        (case cstring c (scan + 3) of
           None \<Rightarrow> None
         | Some opnd \<Rightarrow> with_byte s (int i) (\<lambda>ch. Some (if ch = 0 \<or> ch \<in> set opnd then None else Some (i + 1))))
      else Some (Some i))"

text \<open>
  How often the operand at \<open>p\<close> matches from position \<open>i\<close>; \<open>None\<close> is a start outside the subject, an
  empty string, with which the loop runs past the NUL, or an operand outside the program.
\<close>

definition regrepeat :: "u8 list \<Rightarrow> u8 list \<Rightarrow> nat \<Rightarrow> nat \<Rightarrow> nat option" where
  "regrepeat c s p i =
     (if p < length c \<and> i \<le> length s then
        if c ! p = O_ANY then Some (length s - i)
        else if c ! p = O_EXACTLY then
          (case cstring c (p + 3) of
             Some (ch # _) \<Rightarrow> Some (length (takeWhile (\<lambda>x. ch = x) (drop i s)))
           | _ \<Rightarrow> None)
        else if c ! p = O_ANYOF then
          (case cstring c (p + 3) of
             Some opnd \<Rightarrow> Some (length (takeWhile (\<lambda>x. x \<in> set opnd) (drop i s)))
           | None \<Rightarrow> None)
        else if c ! p = O_ANYBUT then
          (case cstring c (p + 3) of
             Some opnd \<Rightarrow> Some (length (takeWhile (\<lambda>x. x \<notin> set opnd) (drop i s)))
           | None \<Rightarrow> None)
        else Some 0
      else None)"

text \<open>Recording a subexpression, unless a later turn of the same parentheses already has.\<close>

definition set_start :: "nat \<Rightarrow> nat \<Rightarrow> mstate \<Rightarrow> mstate" where
  "set_start no save st =
     (if regstartp st ! no = None then st\<lparr> regstartp := (regstartp st)[no := Some save] \<rparr> else st)"

definition set_end :: "nat \<Rightarrow> nat \<Rightarrow> mstate \<Rightarrow> mstate" where
  "set_end no save st =
     (if regendp st ! no = None then st\<lparr> regendp := (regendp st)[no := Some save] \<rparr> else st)"

definition on_match :: "(mstate \<Rightarrow> mstate) \<Rightarrow> outcome \<Rightarrow> outcome" where
  "on_match f r = (case r of Matches st \<Rightarrow> Matches (f st) | _ \<Rightarrow> r)"

text \<open>
  What the \<open>switch\<close> of \<open>regmatch\<close> does at the node \<open>scan\<close> with the input at \<open>i\<close>: stop with 0 or 1, go on
  at \<open>next\<close> with a new input position, call itself for the rest of an \<open>OPEN\<close> or a \<open>CLOSE\<close>, go on
  with the only branch, try the branches, or repeat a simple operand that matches \<open>no\<close> times.
\<close>

datatype action = Undefined | Give_up | Succeed | Go "nat option" nat | Open_then nat "nat option" | Close_then nat "nat option"
  | Only_branch | Branches | Repeat nat u8 nat nat

definition node_action :: "(u8 \<Rightarrow> bool) \<Rightarrow> u8 list \<Rightarrow> u8 list \<Rightarrow> nat \<Rightarrow> nat \<Rightarrow> action" where
  "node_action alnum c s scan i = (case regnext c scan of
       None \<Rightarrow> Undefined
     | Some next \<Rightarrow>
        (let op = c ! scan in
         if plain_op op then
           (case step_plain alnum c s scan i of
              None \<Rightarrow> Undefined
            | Some None \<Rightarrow> Give_up
            | Some (Some i) \<Rightarrow> Go next i)
         else if O_OPEN + 1 \<le> op \<and> op \<le> O_OPEN + 9 then Open_then (unat (op - O_OPEN)) next
         else if O_CLOSE + 1 \<le> op \<and> op \<le> O_CLOSE + 9 then Close_then (unat (op - O_CLOSE)) next
         else if op = O_BRANCH then
           (case next of
              None \<Rightarrow> Undefined
            | Some q \<Rightarrow> if q < length c then if c ! q \<noteq> O_BRANCH then Only_branch else Branches else Undefined)
         else if op = O_STAR \<or> op = O_PLUS then
           (case next of
              None \<Rightarrow> Undefined
            | Some q \<Rightarrow>
                if q < length c \<and> (c ! q = O_EXACTLY \<longrightarrow> q + 3 < length c) then
                  (case regrepeat c s (scan + 3) i of
                     None \<Rightarrow> Undefined
                   | Some no \<Rightarrow> Repeat q (if c ! q = O_EXACTLY then c ! (q + 3) else 0) (if op = O_STAR then 0 else 1) no)
                else Undefined)
         else if op = O_END then Succeed
         else Give_up))"

text \<open>
  \<open>regmatch\<close>, the loop over the branches of a choice, and the loop of \<open>STAR\<close> and \<open>PLUS\<close> with the
  input at \<open>save + no\<close>. The first argument is the fuel.
\<close>

function (sequential) regmatch :: "nat \<Rightarrow> (u8 \<Rightarrow> bool) \<Rightarrow> u8 list \<Rightarrow> u8 list \<Rightarrow> nat option \<Rightarrow> mstate \<Rightarrow> outcome"
  and match_branches :: "nat \<Rightarrow> (u8 \<Rightarrow> bool) \<Rightarrow> u8 list \<Rightarrow> u8 list \<Rightarrow> nat \<Rightarrow> mstate \<Rightarrow> outcome"
  and match_repeat :: "nat \<Rightarrow> (u8 \<Rightarrow> bool) \<Rightarrow> u8 list \<Rightarrow> u8 list \<Rightarrow> nat \<Rightarrow> u8 \<Rightarrow> nat \<Rightarrow> nat \<Rightarrow> nat \<Rightarrow> mstate \<Rightarrow> outcome"
where
  "regmatch 0 alnum c s scan st = Stuck"
| "regmatch (Suc n) alnum c s None st = Fails"
| "regmatch (Suc n) alnum c s (Some scan) st = (case node_action alnum c s scan (reginput st) of
       Undefined \<Rightarrow> Stuck
     | Give_up \<Rightarrow> Fails
     | Succeed \<Rightarrow> Matches st
     | Go next i \<Rightarrow> regmatch n alnum c s next (st\<lparr> reginput := i \<rparr>)
     | Open_then no next \<Rightarrow> on_match (set_start no (reginput st)) (regmatch n alnum c s next st)
     | Close_then no next \<Rightarrow> on_match (set_end no (reginput st)) (regmatch n alnum c s next st)
     | Only_branch \<Rightarrow> regmatch n alnum c s (Some (scan + 3)) st
     | Branches \<Rightarrow> match_branches n alnum c s scan st
     | Repeat q nextch least no \<Rightarrow> match_repeat n alnum c s q nextch least (reginput st) no st)"
| "match_branches 0 alnum c s scan st = Stuck"
| "match_branches (Suc n) alnum c s scan st =
     (case regmatch n alnum c s (Some (scan + 3)) st of
        Fails \<Rightarrow> (case regnext c scan of
            None \<Rightarrow> Stuck
          | Some None \<Rightarrow> Fails
          | Some (Some q) \<Rightarrow>
              if q < length c then
                if c ! q = O_BRANCH then match_branches n alnum c s q st else Fails
              else Stuck)
      | r \<Rightarrow> r)"
| "match_repeat 0 alnum c s q nextch least save no st = Stuck"
| "match_repeat (Suc n) alnum c s q nextch least save no st =
     (if no < least then Fails
      else case (if nextch = 0 then Some True
                 else with_byte s (int (save + no)) (\<lambda>ch. Some (ch = nextch))) of
          None \<Rightarrow> Stuck
        | Some try \<Rightarrow>
            (case (if try then regmatch n alnum c s (Some q) (st\<lparr> reginput := save + no \<rparr>) else Fails) of
               Fails \<Rightarrow> if no = 0 then Fails else match_repeat n alnum c s q nextch least save (no - 1) st
             | r \<Rightarrow> r))"
  by pat_completeness auto
termination
  by (relation "measure (\<lambda>x. case x of Inl (n, _) \<Rightarrow> n | Inr (Inl (n, _)) \<Rightarrow> n | Inr (Inr (n, _)) \<Rightarrow> n)") auto

section \<open>regtry and regexec\<close>

text \<open>\<open>None\<close> is \<open>Stuck\<close>.\<close>

definition regtry :: "nat \<Rightarrow> (u8 \<Rightarrow> bool) \<Rightarrow> regexp \<Rightarrow> u8 list \<Rightarrow> nat \<Rightarrow> (bool \<times> regexp) option" where
  "regtry fuel alnum prog s i =
     (let nulls = replicate NSUBEXP None in
      case regmatch fuel alnum (program prog) s (Some 1) \<lparr> reginput = i, regstartp = nulls, regendp = nulls \<rparr> of
        Stuck \<Rightarrow> None
      | Fails \<Rightarrow> Some (False, prog\<lparr> startp := nulls, endp := nulls \<rparr>)
      | Matches st \<Rightarrow> Some (True, prog\<lparr> startp := (regstartp st)[0 := Some i], endp := (regendp st)[0 := Some (reginput st)] \<rparr>))"

text \<open>The attempts at the positions of the list, until one succeeds.\<close>

fun regtries :: "nat \<Rightarrow> (u8 \<Rightarrow> bool) \<Rightarrow> u8 list \<Rightarrow> nat list \<Rightarrow> regexp \<Rightarrow> (bool \<times> regexp) option" where
  "regtries fuel alnum s [] prog = Some (False, prog)"
| "regtries fuel alnum s (i # is) prog = (case regtry fuel alnum prog s i of
       None \<Rightarrow> None
     | Some (True, prog) \<Rightarrow> Some (True, prog)
     | Some (False, prog) \<Rightarrow> regtries fuel alnum s is prog)"

text \<open>The search for the string that must appear; \<open>ch\<close> is its first character.\<close>

fun must_appear :: "u8 \<Rightarrow> u8 list \<Rightarrow> nat \<Rightarrow> u8 list \<Rightarrow> bool" where
  "must_appear ch w n [] = (ch = 0 \<and> strncmp_eq [] w n)"
| "must_appear ch w n (x # t) = (x = ch \<and> strncmp_eq (x # t) w n \<or> must_appear ch w n t)"

definition regexec :: "nat \<Rightarrow> (u8 \<Rightarrow> bool) \<Rightarrow> regexp option \<Rightarrow> u8 list option \<Rightarrow> (bool \<times> regexp option) option" where
  "regexec fuel alnum prog string = (case (prog, string) of
       (Some prog, Some s) \<Rightarrow>
         if program prog = [] then None
         else if program prog ! 0 \<noteq> MAGIC then Some (False, Some prog)
         else
           (case (case regmust prog of
                    None \<Rightarrow> Some True
                  | Some m \<Rightarrow> (case cstring (program prog) m of
                        None \<Rightarrow> None
                      | Some w \<Rightarrow> Some (must_appear (peek w 0) w (regmlen prog) s))) of
              None \<Rightarrow> None
            | Some False \<Rightarrow> Some (False, Some prog)
            | Some True \<Rightarrow>
                map_option (map_prod id Some) (regtries fuel alnum s
                  (if reganch prog then [0]
                   else if regstart prog \<noteq> 0 then filter (\<lambda>i. s ! i = regstart prog) [0 ..< length s]
                   else [0 ..< length s + 1]) prog))
     | _ \<Rightarrow> Some (False, prog))"

section \<open>Fuel\<close>

lemma fuel_mono:
  "(\<forall>k. regmatch n alnum c s scan st \<noteq> Stuck \<longrightarrow> regmatch (n + k) alnum c s scan st = regmatch n alnum c s scan st)
   \<and> (\<forall>k p. match_branches n alnum c s p st \<noteq> Stuck \<longrightarrow> match_branches (n + k) alnum c s p st = match_branches n alnum c s p st)
   \<and> (\<forall>k q ch least save no. match_repeat n alnum c s q ch least save no st \<noteq> Stuck
        \<longrightarrow> match_repeat (n + k) alnum c s q ch least save no st = match_repeat n alnum c s q ch least save no st)"
proof (induction n arbitrary: scan st)
  case (Suc n)
  have m: "regmatch n alnum c s scan st \<noteq> Stuck \<Longrightarrow> regmatch (n + k) alnum c s scan st = regmatch n alnum c s scan st" for k scan st
    using Suc by blast
  have b: "match_branches n alnum c s p st \<noteq> Stuck \<Longrightarrow> match_branches (n + k) alnum c s p st = match_branches n alnum c s p st" for k p st
    using Suc by blast
  have r: "match_repeat n alnum c s q ch least save no st \<noteq> Stuck
      \<Longrightarrow> match_repeat (n + k) alnum c s q ch least save no st = match_repeat n alnum c s q ch least save no st" for k q ch least save no st
    using Suc by blast
  have "regmatch (Suc n + k) alnum c s scan st = regmatch (Suc n) alnum c s scan st"
    if "regmatch (Suc n) alnum c s scan st \<noteq> Stuck" for k
  proof (cases scan)
    case (Some p)
    then show ?thesis
      using that m b r by (cases "node_action alnum c s p (reginput st)") (auto simp: on_match_def split: outcome.splits)
  qed simp
  moreover have "match_branches (Suc n + k) alnum c s p st = match_branches (Suc n) alnum c s p st"
    if "match_branches (Suc n) alnum c s p st \<noteq> Stuck" for k p
  proof -
    have "regmatch n alnum c s (Some (p + 3)) st \<noteq> Stuck" using that by auto
    from m [OF this, of k] show ?thesis
      using that b by (cases "regmatch n alnum c s (Some (p + 3)) st") (auto split: option.splits if_splits)
  qed
  moreover have "match_repeat (Suc n + k) alnum c s q ch least save no st = match_repeat (Suc n) alnum c s q ch least save no st"
    if nostuck: "match_repeat (Suc n) alnum c s q ch least save no st \<noteq> Stuck" for k q ch least save no
  proof (cases "no < least")
    case False
    let ?look = "if ch = 0 then Some True else with_byte s (int (save + no)) (\<lambda>x. Some (x = ch))"
    obtain a where a: "?look = Some a"
      using nostuck False by (cases ?look) auto
    have "a \<Longrightarrow> regmatch n alnum c s (Some q) (st\<lparr> reginput := save + no \<rparr>) \<noteq> Stuck"
      using nostuck False a by auto
    from m [OF this, of k] show ?thesis
      using nostuck r False a
      by (cases a; cases "regmatch n alnum c s (Some q) (st\<lparr> reginput := save + no \<rparr>)") (auto split: if_splits)
  qed simp
  ultimately show ?case by blast
qed simp

text \<open>
  \<open>gives c p i r\<close>: run from the node at \<open>p\<close> with the input at \<open>i\<close> the matcher returns, with \<open>r\<close>.
  \<open>chooses\<close> is the same for the loop over the branches.
\<close>

definition outcome_of :: "mstate option \<Rightarrow> outcome" where
  "outcome_of r = (case r of None \<Rightarrow> Fails | Some st \<Rightarrow> Matches st)"

lemma outcome_of_simps [simp]: "outcome_of None = Fails" "outcome_of (Some st) = Matches st" "outcome_of r \<noteq> Stuck"
  by (auto simp: outcome_of_def split: option.splits)

definition gives :: "(u8 \<Rightarrow> bool) \<Rightarrow> u8 list \<Rightarrow> mstate \<Rightarrow> u8 list \<Rightarrow> nat \<Rightarrow> nat \<Rightarrow> mstate option \<Rightarrow> bool" where
  "gives alnum s st c p i r \<longleftrightarrow> (\<exists>n. regmatch n alnum c s (Some p) (st\<lparr> reginput := i \<rparr>) = outcome_of r)"

definition chooses :: "(u8 \<Rightarrow> bool) \<Rightarrow> u8 list \<Rightarrow> mstate \<Rightarrow> u8 list \<Rightarrow> nat \<Rightarrow> nat \<Rightarrow> mstate option \<Rightarrow> bool" where
  "chooses alnum s st c p i r \<longleftrightarrow> (\<exists>n. match_branches n alnum c s p (st\<lparr> reginput := i \<rparr>) = outcome_of r)"

definition repeats :: "(u8 \<Rightarrow> bool) \<Rightarrow> u8 list \<Rightarrow> mstate \<Rightarrow> u8 list \<Rightarrow> nat \<Rightarrow> u8 \<Rightarrow> nat \<Rightarrow> nat \<Rightarrow> nat \<Rightarrow> mstate option \<Rightarrow> bool" where
  "repeats alnum s st c q ch least save no r \<longleftrightarrow> (\<exists>n i. match_repeat n alnum c s q ch least save no (st\<lparr> reginput := i \<rparr>) = outcome_of r)"

definition orelse :: "'a option \<Rightarrow> 'a option \<Rightarrow> 'a option" where
  "orelse a b = (case a of None \<Rightarrow> b | Some x \<Rightarrow> Some x)"

lemma orelse_simps [simp]: "orelse None b = b" "orelse (Some x) b = Some x" "orelse a None = a"
  by (auto simp: orelse_def split: option.splits)

lemma regmatch_more: "regmatch n alnum c s scan st = outcome_of r \<Longrightarrow> n \<le> m \<Longrightarrow> regmatch m alnum c s scan st = outcome_of r"
  using fuel_mono [of n alnum c s scan st] by (metis le_add_diff_inverse outcome_of_simps(3))

lemma match_branches_more: "match_branches n alnum c s p st = outcome_of r \<Longrightarrow> n \<le> m \<Longrightarrow> match_branches m alnum c s p st = outcome_of r"
  using fuel_mono [of n alnum c s _ st] by (metis le_add_diff_inverse outcome_of_simps(3))

lemma match_repeat_more: "match_repeat n alnum c s q ch least save no st = outcome_of r \<Longrightarrow> n \<le> m
    \<Longrightarrow> match_repeat m alnum c s q ch least save no st = outcome_of r"
  using fuel_mono [of n alnum c s _ st] by (metis le_add_diff_inverse outcome_of_simps(3))

lemma outcome_of_inject [simp]: "outcome_of r = outcome_of r' \<longleftrightarrow> r = r'"
  by (auto simp: outcome_of_def split: option.splits)

lemma yields_unique: "gives alnum s st c p i r \<Longrightarrow> gives alnum s st c p i r' \<Longrightarrow> r = r'"
  unfolding gives_def by (metis regmatch_more nat_le_linear outcome_of_inject)

section \<open>One node\<close>

lemma yields_step:
  assumes "gives alnum s st c q i' r"
    and "\<And>n. regmatch n alnum c s (Some q) (st\<lparr> reginput := i' \<rparr>) = outcome_of r
      \<Longrightarrow> regmatch (Suc n) alnum c s (Some p) (st\<lparr> reginput := i \<rparr>) = outcome_of r'"
  shows "gives alnum s st c p i r'"
  using assms unfolding gives_def by blast

lemma yields_now:
  assumes "regmatch (Suc 0) alnum c s (Some p) (st\<lparr> reginput := i \<rparr>) = outcome_of r"
  shows "gives alnum s st c p i r"
  using assms unfolding gives_def by blast

lemma on_match_outcome [simp]: "on_match f (outcome_of r) = outcome_of (map_option f r)"
  by (cases r) (simp_all add: on_match_def)

lemma yields_give_up: "node_action alnum c s p i = Give_up \<Longrightarrow> gives alnum s st c p i None"
  by (rule yields_now) simp

lemma yields_end: "node_action alnum c s p i = Succeed \<Longrightarrow> gives alnum s st c p i (Some (st\<lparr> reginput := i \<rparr>))"
  by (rule yields_now) simp

lemma yields_go: "node_action alnum c s p i = Go (Some q) i' \<Longrightarrow> gives alnum s st c q i' r \<Longrightarrow> gives alnum s st c p i r"
  by (erule yields_step) simp

lemma yields_open: "node_action alnum c s p i = Open_then no (Some q) \<Longrightarrow> gives alnum s st c q i r
    \<Longrightarrow> gives alnum s st c p i (map_option (set_start no i) r)"
  by (erule yields_step) simp

lemma yields_close: "node_action alnum c s p i = Close_then no (Some q) \<Longrightarrow> gives alnum s st c q i r
    \<Longrightarrow> gives alnum s st c p i (map_option (set_end no i) r)"
  by (erule yields_step) simp

lemma yields_only_branch: "node_action alnum c s p i = Only_branch \<Longrightarrow> gives alnum s st c (p + 3) i r \<Longrightarrow> gives alnum s st c p i r"
  by (erule yields_step) simp

lemma yields_branches:
  assumes "node_action alnum c s p i = Branches" "chooses alnum s st c p i r"
  shows "gives alnum s st c p i r"
proof -
  obtain n where "match_branches n alnum c s p (st\<lparr> reginput := i \<rparr>) = outcome_of r" using assms(2) by (auto simp: chooses_def)
  then have "regmatch (Suc n) alnum c s (Some p) (st\<lparr> reginput := i \<rparr>) = outcome_of r" using assms(1) by simp
  then show ?thesis unfolding gives_def by blast
qed

lemma chooses_last:
  assumes "gives alnum s st c (p + 3) i r" "regnext c p = Some (Some q)" "q < length c" "c ! q \<noteq> O_BRANCH"
  shows "chooses alnum s st c p i r"
proof -
  obtain n where "regmatch n alnum c s (Some (p + 3)) (st\<lparr> reginput := i \<rparr>) = outcome_of r" using assms(1) by (auto simp: gives_def)
  then have "match_branches (Suc n) alnum c s p (st\<lparr> reginput := i \<rparr>) = outcome_of r"
    using assms(2-4) by (cases r) simp_all
  then show ?thesis unfolding chooses_def by blast
qed

lemma chooses_next:
  assumes "gives alnum s st c (p + 3) i r" "regnext c p = Some (Some q)" "q < length c" "c ! q = O_BRANCH" "chooses alnum s st c q i r'"
  shows "chooses alnum s st c p i (orelse r r')"
proof -
  obtain n where n: "regmatch n alnum c s (Some (p + 3)) (st\<lparr> reginput := i \<rparr>) = outcome_of r" using assms(1) by (auto simp: gives_def)
  obtain m where m: "match_branches m alnum c s q (st\<lparr> reginput := i \<rparr>) = outcome_of r'" using assms(5) by (auto simp: chooses_def)
  have "match_branches (Suc (max n m)) alnum c s p (st\<lparr> reginput := i \<rparr>) = outcome_of (orelse r r')"
    using assms(2-4) regmatch_more [OF n, of "max n m"] match_branches_more [OF m, of "max n m"] by (cases r) simp_all
  then show ?thesis unfolding chooses_def by blast
qed

section \<open>The matcher on trees\<close>

text \<open>
  \<open>m_node x k i\<close> matches \<open>x\<close> from position \<open>i\<close> and calls \<open>k\<close> with the position after it; where \<open>k\<close> fails it
  tries the next way, in the order of the alternatives, a repetition as often as possible first.
\<close>

fun iter :: "((nat \<Rightarrow> 'r option) \<Rightarrow> nat \<Rightarrow> 'r option) \<Rightarrow> (nat \<Rightarrow> 'r option) \<Rightarrow> nat \<Rightarrow> nat \<Rightarrow> 'r option" where
  "iter f k 0 i = k i"
| "iter f k (Suc n) i = orelse (f (iter f k n) i) (k i)"

definition star :: "nat \<Rightarrow> ((nat \<Rightarrow> 'r option) \<Rightarrow> nat \<Rightarrow> 'r option) \<Rightarrow> (nat \<Rightarrow> 'r option) \<Rightarrow> nat \<Rightarrow> 'r option" where
  "star e f k i = iter f k (e - i) i"

text \<open>One character, as an operand of \<open>regrepeat\<close>.\<close>

definition one_byte :: "node \<Rightarrow> u8 \<Rightarrow> bool" where
  "one_byte x ch = (case x of Any \<Rightarrow> True | AnyOf b \<Rightarrow> ch \<in> set b | AnyBut b \<Rightarrow> ch \<notin> set b | Str b \<Rightarrow> b = [ch] | _ \<Rightarrow> False)"

definition word_start :: "(u8 \<Rightarrow> bool) \<Rightarrow> u8 list \<Rightarrow> nat \<Rightarrow> bool" where
  "word_start alnum s i \<longleftrightarrow> wordchar alnum (peek s i) \<and> (i > 0 \<longrightarrow> \<not> wordchar alnum (peek s (i - 1)))"

fun m_node :: "(u8 \<Rightarrow> bool) \<Rightarrow> u8 list \<Rightarrow> node \<Rightarrow> (nat \<Rightarrow> mstate option) \<Rightarrow> nat \<Rightarrow> mstate option"
  and m_seq :: "(u8 \<Rightarrow> bool) \<Rightarrow> u8 list \<Rightarrow> node list \<Rightarrow> (nat \<Rightarrow> mstate option) \<Rightarrow> nat \<Rightarrow> mstate option"
  and m_alts :: "(u8 \<Rightarrow> bool) \<Rightarrow> u8 list \<Rightarrow> node list list \<Rightarrow> (nat \<Rightarrow> mstate option) \<Rightarrow> nat \<Rightarrow> mstate option"
where
  "m_node al s Bol k i = (if i = 0 then k i else None)"
| "m_node al s Eol k i = (if i = length s then k i else None)"
| "m_node al s WordA k i = (if word_start al s i then k i else None)"
| "m_node al s WordZ k i = (if wordchar al (peek s i) then None else k i)"
| "m_node al s Any k i = (if i < length s then k (i + 1) else None)"
| "m_node al s (AnyOf b) k i = (if i < length s \<and> s ! i \<in> set b then k (i + 1) else None)"
| "m_node al s (AnyBut b) k i = (if i < length s \<and> s ! i \<notin> set b then k (i + 1) else None)"
| "m_node al s (Str b) k i = (if take (length b) (drop i s) = b then k (i + length b) else None)"
| "m_node al s (Group n bs) k i = map_option (set_start n i) (m_alts al s bs (\<lambda>j. map_option (set_end n j) (k j)) i)"
| "m_node al s (StarOf g x) k i = star (length s) (m_node al s x) k i"
| "m_node al s (PlusOf g x) k i = m_node al s x (star (length s) (m_node al s x) k) i"
| "m_node al s (Opt x) k i = orelse (m_node al s x k i) (k i)"
| "m_seq al s [] k i = k i"
| "m_seq al s (x # xs) k i = m_node al s x (m_seq al s xs k) i"
| "m_alts al s [] k i = None"
| "m_alts al s (b # bs) k i = orelse (m_seq al s b k i) (m_alts al s bs k i)"

text \<open>
  A piece calls its continuation at the positions from \<open>i\<close> on, from \<open>i + 1\<close> on if it never matches
  the empty string, and not past the end.
\<close>

definition agree :: "u8 list \<Rightarrow> bool \<Rightarrow> nat \<Rightarrow> (nat \<Rightarrow> 'r) \<Rightarrow> (nat \<Rightarrow> 'r) \<Rightarrow> bool" where
  "agree s w i k k' \<longleftrightarrow> (\<forall>j. i \<le> j \<and> (w \<longrightarrow> i < j) \<and> j \<le> length s \<longrightarrow> k j = k' j)"

lemma agreeD: "agree s w i k k' \<Longrightarrow> i \<le> j \<Longrightarrow> (w \<Longrightarrow> i < j) \<Longrightarrow> j \<le> length s \<Longrightarrow> k j = k' j"
  by (simp add: agree_def)

lemma agree_mono: "agree s w i k k' \<Longrightarrow> i \<le> j \<Longrightarrow> (w \<Longrightarrow> i < j \<or> w') \<Longrightarrow> agree s w' j k k'"
  by (fastforce simp: agree_def)

lemma take_drop_length:
  assumes "take (length b) (drop i s) = b" "b \<noteq> []"
  shows "i + length b \<le> length s \<and> i < i + length b"
proof -
  have "min (length b) (length s - i) = length b" using arg_cong [OF assms(1), of length] by (simp add: min.commute)
  moreover have "0 < length b" using assms(2) by simp
  ultimately show ?thesis by linarith
qed

definition tame :: "u8 list \<Rightarrow> bool \<Rightarrow> ((nat \<Rightarrow> 'r option) \<Rightarrow> nat \<Rightarrow> 'r option) \<Rightarrow> bool" where
  "tame s w f \<longleftrightarrow> (\<forall>k k' i. agree s w i k k' \<longrightarrow> i \<le> length s \<longrightarrow> f k i = f k' i)"

lemma tameD: "tame s w f \<Longrightarrow> agree s w i k k' \<Longrightarrow> i \<le> length s \<Longrightarrow> f k i = f k' i"
  by (simp add: tame_def)

lemma tame_weaken: "tame s w f \<Longrightarrow> tame s False f"
  by (simp add: tame_def agree_def)

lemma iter_agree:
  assumes "tame s True f" "agree s False i k k'" "i \<le> length s"
  shows "iter f k n i = iter f k' n i"
  using assms(2,3)
proof (induction n arbitrary: i)
  case 0
  then show ?case by (simp add: agree_def)
next
  case (Suc n)
  have "iter f k n j = iter f k' n j" if "i < j" "j \<le> length s" for j
    using Suc.IH [of j] agree_mono [OF Suc.prems(1), of j False] that by simp
  then have "agree s True i (iter f k n) (iter f k' n)" by (simp add: agree_def)
  from tameD [OF assms(1) this Suc.prems(2)] agreeD [OF Suc.prems(1)] Suc.prems(2)
  show ?case by simp
qed

lemma star_agree:
  assumes "tame s True f"
  shows "tame s False (star (length s) f)"
  using iter_agree [OF assms] by (simp add: tame_def star_def)

lemma m_tame:
  "wf x \<longrightarrow> tame s (has_width x) (m_node al s x)"
  "wf_seq xs \<longrightarrow> tame s (has_width_seq xs) (m_seq al s xs)"
  "wf_alts bs \<longrightarrow> tame s (has_width_alts bs) (m_alts al s bs)"
proof (induction x and xs and bs rule: wf_wf_seq_wf_alts.induct)
  case (3 b)
  have "k (i + length b) = k' (i + length b)"
    if "wf (Str b)" "take (length b) (drop i s) = b" "agree s True i k k'" for i and k k' :: "nat \<Rightarrow> mstate option"
    using take_drop_length [OF that(2)] that(1) by (intro agreeD [OF that(3)]) auto
  then show ?case by (auto simp: tame_def)
next
  case (4 n bs)
  show ?case
    unfolding tame_def
  proof (intro impI allI)
    fix k k' :: "nat \<Rightarrow> mstate option" and i
    assume *: "wf (Group n bs)" "agree s (has_width (Group n bs)) i k k'" "i \<le> length s"
    then have "agree s (has_width_alts bs) i (\<lambda>j. map_option (set_end n j) (k j)) (\<lambda>j. map_option (set_end n j) (k' j))"
      by (simp add: agree_def)
    from tameD [where f = "m_alts al s bs", OF _ this *(3)] show "m_node al s (Group n bs) k i = m_node al s (Group n bs) k' i"
      using 4 * by simp
  qed
next
  case (5 g x)
  show ?case
  proof
    assume "wf (StarOf g x)"
    then have "tame s False (star (length s) (m_node al s x))" using 5 by (intro star_agree) simp
    then show "tame s (has_width (StarOf g x)) (m_node al s (StarOf g x))" by (simp add: tame_def)
  qed
next
  case (6 g x)
  show ?case
    unfolding tame_def
  proof (intro allI impI)
    fix k k' :: "nat \<Rightarrow> mstate option" and i
    assume *: "wf (PlusOf g x)" "agree s (has_width (PlusOf g x)) i k k'" "i \<le> length s"
    have x: "tame s True (m_node al s x)" using 6 * by auto
    have "star (length s) (m_node al s x) k j = star (length s) (m_node al s x) k' j" if "i < j" "j \<le> length s" for j
      using tameD [OF star_agree [OF x], of j k k'] agree_mono [OF *(2), of j False] that by simp
    then have "agree s True i (star (length s) (m_node al s x) k) (star (length s) (m_node al s x) k')" by (simp add: agree_def)
    from tameD [OF x this *(3)] show "m_node al s (PlusOf g x) k i = m_node al s (PlusOf g x) k' i" by simp
  qed
next
  case (7 x)
  show ?case
    unfolding tame_def
  proof (intro allI impI)
    fix k k' :: "nat \<Rightarrow> mstate option" and i
    assume *: "wf (Opt x)" "agree s (has_width (Opt x)) i k k'" "i \<le> length s"
    then have "tame s False (m_node al s x)" using 7 tame_weaken by simp
    from tameD [OF this, of i k k'] * agreeD [OF *(2)] show "m_node al s (Opt x) k i = m_node al s (Opt x) k' i" by simp
  qed
next
  case (10 x xs)
  show ?case
    unfolding tame_def
  proof (intro allI impI)
    fix k k' :: "nat \<Rightarrow> mstate option" and i
    assume *: "wf_seq (x # xs)" "agree s (has_width_seq (x # xs)) i k k'" "i \<le> length s"
    have "m_seq al s xs k j = m_seq al s xs k' j" if "i \<le> j" "has_width x \<Longrightarrow> i < j" "j \<le> length s" for j
      using 10 * that agree_mono [OF *(2), of j "has_width_seq xs"] by (auto intro: tameD)
    then have "agree s (has_width x) i (m_seq al s xs k) (m_seq al s xs k')" by (simp add: agree_def)
    from tameD [where f = "m_node al s x", OF _ this *(3)] show "m_seq al s (x # xs) k i = m_seq al s (x # xs) k' i"
      using 10 * by simp
  qed
next
  case (12 b bs)
  show ?case
    unfolding tame_def
  proof (intro allI impI)
    fix k k' :: "nat \<Rightarrow> mstate option" and i
    assume *: "wf_alts (b # bs)" "agree s (has_width_alts (b # bs)) i k k'" "i \<le> length s"
    have "agree s (has_width_seq b) i k k'" "agree s (has_width_alts bs) i k k'" using *(2) by (auto simp: agree_def)
    from tameD [where f = "m_seq al s b", OF _ this(1) *(3)] tameD [where f = "m_alts al s bs", OF _ this(2) *(3)] show "m_alts al s (b # bs) k i = m_alts al s (b # bs) k' i"
      using 12 * by simp
  qed
qed (simp_all add: tame_def agree_def)

text \<open>A piece that never matches the empty string fails at the end.\<close>

lemma wide_at_end:
  assumes "tame s True f" "\<And>i. f (\<lambda>_. None) i = None"
  shows "f k (length s) = None"
proof -
  have "agree s True (length s) k (\<lambda>_. None)" by (auto simp: agree_def)
  from tameD [OF assms(1) this] show ?thesis using assms(2) by simp
qed

lemma iter_none: "(\<And>i. f (\<lambda>_. None) i = None) \<Longrightarrow> iter f (\<lambda>_. None) n i = None"
proof (induction n arbitrary: i)
  case (Suc n)
  then have "iter f (\<lambda>_. None) n = (\<lambda>_. None)" by blast
  then show ?case using Suc by simp
qed simp

lemma m_none:
  "m_node al s x (\<lambda>_. None) i = None"
  "m_seq al s xs (\<lambda>_. None) i = None"
  "m_alts al s bs (\<lambda>_. None) i = None"
proof (induction x and xs and bs arbitrary: i and i and i rule: wf_wf_seq_wf_alts.induct)
  case (5 g x)
  then show ?case unfolding m_node.simps star_def by (intro iter_none)
next
  case (6 g x)
  then have "star (length s) (m_node al s x) (\<lambda>_. None) = (\<lambda>_. None)" unfolding star_def by (intro ext iter_none)
  then show ?case using 6 by simp
next
  case (10 x xs)
  then have "m_seq al s xs (\<lambda>_. None) = (\<lambda>_. None)" by blast
  then show ?case using 10 by simp
qed simp_all

text \<open>A repetition unfolds: enough rounds are enough.\<close>

lemma iter_enough:
  assumes "tame s True f" "\<And>i. f (\<lambda>_. None) i = None" "i \<le> length s" "length s - i \<le> n"
  shows "iter f k n i = star (length s) f k i"
  using assms(3,4)
proof (induction "length s - i" arbitrary: i n rule: less_induct)
  case less
  show ?case
  proof (cases "i = length s")
    case True
    show ?thesis using True wide_at_end [OF assms(1,2)] by (cases n) (simp_all add: star_def)
  next
    case False
    then obtain e where e: "length s - i = Suc e" using less.prems by (cases "length s - i") auto
    then obtain n' where n: "n = Suc n'" using less.prems by (cases n) auto
    have "iter f k n' j = iter f k e j" if "i < j" "j \<le> length s" for j
      using less.hyps [of j n'] less.hyps [of j e] that e n less.prems by simp
    then have "agree s True i (iter f k n') (iter f k e)" by (simp add: agree_def)
    from tameD [OF assms(1) this less.prems(1)] show ?thesis
      unfolding star_def e n by simp
  qed
qed

lemma star_unfold:
  assumes "tame s True f" "\<And>i. f (\<lambda>_. None) i = None" "i \<le> length s"
  shows "star (length s) f k i = orelse (f (star (length s) f k) i) (k i)"
proof -
  have "star (length s) f k i = iter f k (Suc (length s - i)) i"
    using iter_enough [OF assms, of "Suc (length s - i)"] by simp
  moreover have "iter f k (length s - i) j = star (length s) f k j" if "i < j" "j \<le> length s" for j
    using iter_enough [OF assms(1,2), of j "length s - i" k] that by simp
  then have "agree s True i (iter f k (length s - i)) (star (length s) f k)" by (simp add: agree_def)
  from tameD [OF assms(1) this assms(3)] have "f (iter f k (length s - i)) i = f (star (length s) f k) i" .
  ultimately show ?thesis by simp
qed

lemma m_wide_tame: "wf x \<Longrightarrow> has_width x \<Longrightarrow> tame s True (m_node al s x)"
  using m_tame(1) [of x s al] by simp

section \<open>The nodes of a compiled program\<close>

definition node_at :: "u8 list \<Rightarrow> nat \<Rightarrow> u8 \<Rightarrow> nat \<Rightarrow> bool" where
  "node_at c p op q \<longleftrightarrow> p < length c \<and> c ! p = op \<and> regnext c p = Some (Some q)"

definition valid :: "u8 list \<Rightarrow> nat \<Rightarrow> bool" where
  "valid c q \<longleftrightarrow> q < length c \<and> (c ! q = O_EXACTLY \<longrightarrow> q + 3 < length c)"

lemma node_at_node3:
  assumes "0 < t" "t < 65536" "op \<noteq> O_BACK" "length A = p" "q = p + t"
  shows "node_at (A @ node3 op t @ B) p op q"
  using assms nth_node3 [of A op t B] by (simp add: node_at_def regnext_node3 del: nth_node3)

lemma node_at_back:
  assumes "0 < t" "t < 65536" "t \<le> p" "length A = p" "q = p - t"
  shows "node_at (A @ node3 O_BACK t @ B) p O_BACK q"
  using assms nth_node3 [of A O_BACK t B] by (simp add: node_at_def regnext_node3 del: nth_node3)

lemma valid_node_at: "node_at c p op q \<Longrightarrow> op \<noteq> O_EXACTLY \<Longrightarrow> valid c p"
  by (simp add: node_at_def valid_def)

lemma valid_node3: "op \<noteq> O_EXACTLY \<Longrightarrow> length A = p \<Longrightarrow> valid (A @ node3 op t @ B) p"
  using nth_node3 [of A op t B] by (auto simp: valid_def simp del: nth_node3)

lemma valid_code:
  assumes "wf x" "length A = p"
  shows "valid (A @ code x t @ B) p"
proof -
  obtain u E where "code x t = node3 (opcode x) u @ E" "if opcode x = O_EXACTLY then E \<noteq> [] \<and> hd E = first_char x else first_char x = 0"
    using code_first [OF assms(1)] by blast
  then show ?thesis
    using assms(2) nth_node3 [of A "opcode x" u "E @ B"] by (auto simp: valid_def simp del: nth_node3 split: if_splits)
qed

lemma valid_code_seq:
  assumes "wf_seq xs" "length A = p"
  shows "valid (A @ code_seq xs t @ B) p"
proof (cases xs)
  case Nil
  then show ?thesis using valid_node3 [of O_NOTHING A p t B] assms(2) by simp
next
  case (Cons x ys)
  then show ?thesis
    using assms valid_code [of x A p _ "code_seq ys (ahead t (len x)) @ B"] valid_code [of x A p _ B] by auto
qed

lemma action_plain:
  assumes "node_at c p op q" "plain_op op"
  shows "node_action alnum c s p i = (case step_plain alnum c s p i of
      None \<Rightarrow> Undefined | Some None \<Rightarrow> Give_up | Some (Some i) \<Rightarrow> Go (Some q) i)"
  using assms by (simp add: node_action_def node_at_def)

lemma action_open:
  assumes "node_at c p (O_OPEN + of_nat n) q" "0 < n" "n < NSUBEXP"
  shows "node_action alnum c s p i = Open_then n (Some q)"
  using assms small_group [of n] by (auto simp: node_action_def node_at_def plain_op_def)

lemma action_close:
  assumes "node_at c p (O_CLOSE + of_nat n) q" "0 < n" "n < NSUBEXP"
  shows "node_action alnum c s p i = Close_then n (Some q)"
  using assms small_group [of n] by (auto simp: node_action_def node_at_def plain_op_def)

lemma action_branch:
  assumes "node_at c p O_BRANCH q" "q < length c"
  shows "node_action alnum c s p i = (if c ! q \<noteq> O_BRANCH then Only_branch else Branches)"
  using assms by (simp add: node_action_def node_at_def plain_op_def)

lemma action_repeat:
  assumes "node_at c p op q" "op = O_STAR \<or> op = O_PLUS" "valid c q" "regrepeat c s (p + 3) i = Some no"
  shows "node_action alnum c s p i = Repeat q (if c ! q = O_EXACTLY then c ! (q + 3) else 0) (if op = O_STAR then 0 else 1) no"
proof -
  have "q < length c \<and> (c ! q = O_EXACTLY \<longrightarrow> q + 3 < length c)" using assms(3) by (simp add: valid_def)
  then have go: "\<exists>no'. regrepeat c s (p + 3) i = Some no' \<and> no' = no" "q < length c" "c ! q = O_EXACTLY \<Longrightarrow> q + 3 < length c"
    using assms(4) by auto
  consider "op = O_STAR" | "op = O_PLUS" using assms(2) by blast
  then show ?thesis
    by cases (use assms(1,4) go in \<open>simp_all add: node_action_def node_at_def plain_op_def\<close>)
qed

lemma yields_plain:
  assumes "node_at c p op q" "plain_op op" "step_plain alnum c s p i = Some r"
    and "\<And>i'. r = Some i' \<Longrightarrow> gives alnum s st c q i' o'" "r = None \<Longrightarrow> o' = None"
  shows "gives alnum s st c p i o'"
  using assms(3-5) action_plain [OF assms(1,2), of alnum s i]
  by (cases r) (auto intro: yields_give_up yields_go)

text \<open>The nodes that only lead on.\<close>

lemma yields_through:
  assumes "node_at c p op q" "op = O_NOTHING \<or> op = O_BACK" "gives alnum s st c q i r"
  shows "gives alnum s st c p i r"
  by (rule yields_plain [OF assms(1), where r = "Some i"]) (use assms in \<open>auto simp: plain_op_def step_plain_def node_at_def\<close>)

lemma chooses_two:
  assumes "node_at c p O_BRANCH q" "node_at c q O_BRANCH e" "e < length c" "c ! e \<noteq> O_BRANCH"
    and "gives alnum s st c (p + 3) i r" "gives alnum s st c (q + 3) i r'"
  shows "gives alnum s st c p i (orelse r r')"
proof -
  have "chooses alnum s st c q i r'"
    using assms(2-4,6) by (intro chooses_last) (auto simp: node_at_def)
  then have "chooses alnum s st c p i (orelse r r')"
    using assms(1,2,5) by (intro chooses_next) (auto simp: node_at_def)
  moreover have "node_action alnum c s p i = Branches"
    using action_branch [OF assms(1)] assms(2) by (simp add: node_at_def)
  ultimately show ?thesis by (intro yields_branches)
qed

section \<open>Repeating one character\<close>

fun down :: "(nat \<Rightarrow> 'r option) \<Rightarrow> nat \<Rightarrow> nat \<Rightarrow> nat \<Rightarrow> 'r option" where
  "down k i least 0 = (if 0 < least then None else k i)"
| "down k i least (Suc n) = (if Suc n < least then None else orelse (k (i + Suc n)) (down k i least n))"

lemma orelse_assoc: "orelse (orelse a b) c = orelse a (orelse b c)"
  by (cases a) simp_all

lemma down_shift: "down k i 0 (Suc n) = orelse (down k (i + 1) 0 n) (k i)"
  by (induction n) (simp_all add: orelse_assoc)

lemma down_one: "down k i 1 (Suc n) = down k (i + 1) 0 n"
  by (induction n) simp_all

lemma yields_repeat:
  assumes "node_action alnum c s p i = Repeat q ch least no" "i + no \<le> length s"
    and "\<And>j. least \<le> j \<Longrightarrow> j \<le> no \<Longrightarrow> gives alnum s st c q (i + j) (k (i + j))"
    and "\<And>j. least \<le> j \<Longrightarrow> j \<le> no \<Longrightarrow> ch \<noteq> 0 \<Longrightarrow> peek s (i + j) \<noteq> ch \<Longrightarrow> k (i + j) = None"
  shows "gives alnum s st c p i (down k i least no)"
proof -
  have "\<exists>n. match_repeat n alnum c s q ch least i no (st\<lparr> reginput := i \<rparr>) = outcome_of (down k i least no)"
    using assms(2-4)
  proof (induction no)
    case 0
    show ?case
    proof (cases "least = 0")
      case True
      obtain n where n: "regmatch n alnum c s (Some q) (st\<lparr> reginput := i \<rparr>) = outcome_of (k i)"
        using 0(2) [of 0] True by (auto simp: gives_def)
      have "match_repeat (Suc n) alnum c s q ch least i 0 (st\<lparr> reginput := i \<rparr>) = outcome_of (k i)"
        using n True 0(1) 0(3) [of 0] by (cases "k i") auto
      then show ?thesis using True by (intro exI [of _ "Suc n"]) simp
    qed (auto intro: exI [of _ "Suc 0"])
  next
    case (Suc no)
    show ?case
    proof (cases "Suc no < least")
      case False
      obtain n where n: "regmatch n alnum c s (Some q) (st\<lparr> reginput := i + Suc no \<rparr>) = outcome_of (k (i + Suc no))"
        using Suc.prems(2) [of "Suc no"] False by (auto simp: gives_def)
      obtain n' where n': "match_repeat n' alnum c s q ch least i no (st\<lparr> reginput := i \<rparr>) = outcome_of (down k i least no)"
        using Suc by force
      let ?n = "max n n'"
      have look: "with_byte s (1 + (int i + int no)) (\<lambda>x. Some (x = ch)) = Some (peek s (i + Suc no) = ch)"
        using with_byte_inside(1) [OF Suc.prems(1)] by simp
      note nn = regmatch_more [OF n, of ?n] match_repeat_more [OF n', of ?n]
      have "match_repeat (Suc ?n) alnum c s q ch least i (Suc no) (st\<lparr> reginput := i \<rparr>) = outcome_of (down k i least (Suc no))"
        using nn False Suc.prems(3) [of "Suc no"] look by (cases "k (i + Suc no)") auto
      then show ?thesis by blast
    qed (auto intro: exI [of _ "Suc 0"])
  qed
  then obtain n where "match_repeat n alnum c s q ch least i no (st\<lparr> reginput := i \<rparr>) = outcome_of (down k i least no)" ..
  then have "regmatch (Suc n) alnum c s (Some p) (st\<lparr> reginput := i \<rparr>) = outcome_of (down k i least no)"
    using assms(1) by simp
  then show ?thesis unfolding gives_def by blast
qed

text \<open>The first character of a literal that comes next decides.\<close>

lemma cstring_first: "cstring c k = Some w \<Longrightarrow> peek w 0 = c ! k"
proof -
  assume a: "cstring c k = Some w"
  then have k: "k < length c" "w = takeWhile (\<lambda>b. b \<noteq> 0) (drop k c)" by (auto simp: cstring_def Let_def split: if_splits)
  then have "drop k c = c ! k # drop (Suc k) c" by (simp add: Cons_nth_drop_Suc)
  then show ?thesis using k by (simp add: peek_def)
qed

lemma lookahead:
  assumes "gives alnum s st c q j r" "c ! q = O_EXACTLY" "peek s j \<noteq> c ! (q + 3)"
  shows "r = None"
proof -
  obtain n where n: "regmatch n alnum c s (Some q) (st\<lparr> reginput := j \<rparr>) = outcome_of r"
    using assms(1) by (auto simp: gives_def)
  then obtain n' where n': "n = Suc n'" by (cases n) (auto simp: outcome_of_def split: option.splits)
  have "node_action alnum c s q j \<in> {Undefined, Give_up}"
    using assms(2,3) cstring_first [of c "q + 3"]
    by (auto simp: node_action_def plain_op_def step_plain_def with_byte_def Let_def
        dest: subject_byte_peek split: option.splits)
  then show ?thesis using n n' by (auto simp: outcome_of_def split: option.splits)
qed

lemma m_single:
  assumes "single x" "wf x"
  shows "m_node al s x k i = (if i < length s \<and> one_byte x (s ! i) then k (i + 1) else None)"
proof (cases x)
  case (Str b)
  then obtain ch where b: "b = [ch]" using assms by (auto simp: single_def length_Suc_conv)
  have "take 1 (drop i s) = [ch] \<longleftrightarrow> i < length s \<and> s ! i = ch"
    by (cases "i < length s") (auto simp: take_Suc hd_drop_conv_nth)
  then show ?thesis using Str b by (auto simp: one_byte_def [abs_def])
qed (use assms in \<open>auto simp: single_def one_byte_def\<close>)

lemma star_single:
  assumes "single x" "wf x" "has_width x" "i \<le> length s"
  shows "star (length s) (m_node al s x) k i = down k i 0 (length (takeWhile (one_byte x) (drop i s)))"
  using assms(4)
proof (induction "length s - i" arbitrary: i)
  case 0
  then show ?case by (simp add: star_def)
next
  case (Suc n)
  have i: "i < length s" "drop i s = s ! i # drop (Suc i) s" using Suc.hyps(2) by (auto simp: Cons_nth_drop_Suc)
  have unfold: "star (length s) (m_node al s x) k i = orelse (m_node al s x (star (length s) (m_node al s x) k) i) (k i)"
    using star_unfold [OF m_wide_tame [OF assms(2,3)] m_none(1) Suc.prems] .
  show ?case
  proof (cases "one_byte x (s ! i)")
    case True
    have "star (length s) (m_node al s x) k (i + 1) = down k (i + 1) 0 (length (takeWhile (one_byte x) (drop (i + 1) s)))"
      using Suc.hyps(2) i by (intro Suc.hyps(1)) auto
    then show ?thesis unfolding unfold m_single [OF assms(1,2)] using True i down_shift [of k i] by simp
  next
    case False
    then show ?thesis unfolding unfold m_single [OF assms(1,2)] using i by simp
  qed
qed

lemma regrepeat_single:
  assumes "single x" "wf x" "length A = p" "i \<le> length s"
  shows "regrepeat (A @ code x 0 @ B) s p i = Some (length (takeWhile (one_byte x) (drop i s)))"
proof -
  have str: "cstring ((A @ node3 op 0) @ b @ 0 # B) (p + 3) = Some b" if "0 \<notin> set b" for op b
    using that assms(3) by (intro cstring_operand) simp_all
  note at = nth_node3 [of A O_ANY 0 B] nth_node3 [of A O_EXACTLY 0] nth_node3 [of A O_ANYOF 0] nth_node3 [of A O_ANYBUT 0]
  show ?thesis
  proof (cases x)
    case Any
    then show ?thesis using assms(3,4) at(1) by (simp add: regrepeat_def one_byte_def [abs_def] takeWhile_eq_all_conv [THEN iffD2] del: nth_node3)
  next
    case (AnyOf b)
    then show ?thesis using assms str [of b O_ANYOF] at(3) [of "b @ 0 # B"] by (simp add: regrepeat_def one_byte_def [abs_def] del: nth_node3)
  next
    case (AnyBut b)
    then show ?thesis using assms str [of b O_ANYBUT] at(4) [of "b @ 0 # B"] by (simp add: regrepeat_def one_byte_def [abs_def] del: nth_node3)
  next
    case (Str b)
    then obtain ch where b: "b = [ch]" using assms by (auto simp: single_def length_Suc_conv)
    then show ?thesis using Str assms str [of b O_EXACTLY] at(2) [of "b @ 0 # B"]
      by (simp add: regrepeat_def one_byte_def [abs_def] del: nth_node3)
  qed (use assms in \<open>auto simp: single_def\<close>)
qed

section \<open>Running the code of a tree\<close>

definition goes_on :: "(u8 \<Rightarrow> bool) \<Rightarrow> u8 list \<Rightarrow> mstate \<Rightarrow> u8 list \<Rightarrow> bool \<Rightarrow> nat \<Rightarrow> nat \<Rightarrow> (nat \<Rightarrow> mstate option) \<Rightarrow> bool" where
  "goes_on al s st c w i q k \<longleftrightarrow> (\<forall>j. i \<le> j \<and> (w \<longrightarrow> i < j) \<and> j \<le> length s \<longrightarrow> gives al s st c q j (k j))"

text \<open>
  \<open>runs x\<close>: wherever the code of \<open>x\<close> stands, hooked to a node from which the matcher does \<open>k\<close>, the
  matcher started at the code does \<open>m_node x k\<close>.
\<close>

definition runs :: "(u8 \<Rightarrow> bool) \<Rightarrow> u8 list \<Rightarrow> mstate \<Rightarrow> node \<Rightarrow> bool" where
  "runs al s st x \<longleftrightarrow> (\<forall>A B t i k. len x \<le> t \<and> t < 65536 \<and> valid (A @ code x t @ B) (length A + t)
      \<and> goes_on al s st (A @ code x t @ B) (has_width x) i (length A + t) k \<and> i \<le> length s
      \<longrightarrow> gives al s st (A @ code x t @ B) (length A) i (m_node al s x k i))"

definition runs_seq :: "(u8 \<Rightarrow> bool) \<Rightarrow> u8 list \<Rightarrow> mstate \<Rightarrow> node list \<Rightarrow> bool" where
  "runs_seq al s st xs \<longleftrightarrow> (\<forall>A B t i k. len_seq xs \<le> t \<and> t < 65536 \<and> valid (A @ code_seq xs t @ B) (length A + t)
      \<and> goes_on al s st (A @ code_seq xs t @ B) (has_width_seq xs) i (length A + t) k \<and> i \<le> length s
      \<longrightarrow> gives al s st (A @ code_seq xs t @ B) (length A) i (m_seq al s xs k i))"

definition runs_alts :: "(u8 \<Rightarrow> bool) \<Rightarrow> u8 list \<Rightarrow> mstate \<Rightarrow> node list list \<Rightarrow> bool" where
  "runs_alts al s st bs \<longleftrightarrow> (\<forall>A B i k. len_alts bs + 3 < 65536 \<and> valid (A @ code_alts bs @ B) (length A + len_alts bs)
      \<and> (A @ code_alts bs @ B) ! (length A + len_alts bs) \<noteq> O_BRANCH \<and> bs \<noteq> []
      \<and> goes_on al s st (A @ code_alts bs @ B) (has_width_alts bs) i (length A + len_alts bs) k \<and> i \<le> length s
      \<longrightarrow> chooses al s st (A @ code_alts bs @ B) (length A) i (m_alts al s bs k i)
        \<and> gives al s st (A @ code_alts bs @ B) (length A) i (m_alts al s bs k i))"

lemma runsD:
  assumes "runs al s st x" "c = A @ code x t @ B" "length A = p" "len x \<le> t" "t < 65536" "q = p + t" "valid c q"
    "\<And>j. i \<le> j \<Longrightarrow> (has_width x \<Longrightarrow> i < j) \<Longrightarrow> j \<le> length s \<Longrightarrow> gives al s st c q j (k j)" "i \<le> length s"
  shows "gives al s st c p i (m_node al s x k i)"
  using assms by (auto simp: runs_def goes_on_def)

lemma runs_seqD:
  assumes "runs_seq al s st xs" "c = A @ code_seq xs t @ B" "length A = p" "len_seq xs \<le> t" "t < 65536" "q = p + t" "valid c q"
    "\<And>j. i \<le> j \<Longrightarrow> (has_width_seq xs \<Longrightarrow> i < j) \<Longrightarrow> j \<le> length s \<Longrightarrow> gives al s st c q j (k j)" "i \<le> length s"
  shows "gives al s st c p i (m_seq al s xs k i)"
  using assms by (auto simp: runs_seq_def goes_on_def)

lemma runs_altsD:
  assumes "runs_alts al s st bs" "c = A @ code_alts bs @ B" "length A = p" "len_alts bs + 3 < 65536" "q = p + len_alts bs"
    "valid c q" "c ! q \<noteq> O_BRANCH" "bs \<noteq> []"
    "\<And>j. i \<le> j \<Longrightarrow> (has_width_alts bs \<Longrightarrow> i < j) \<Longrightarrow> j \<le> length s \<Longrightarrow> gives al s st c q j (k j)" "i \<le> length s"
  shows "chooses al s st c p i (m_alts al s bs k i)" "gives al s st c p i (m_alts al s bs k i)"
  using assms by (auto simp: runs_alts_def goes_on_def)

text \<open>The nodes that test and advance.\<close>

lemma runs_plain:
  assumes "\<And>t. code x t = node3 op t @ R" "plain_op op" "op \<noteq> O_BACK" "tailpos x = 0"
    and "\<And>A B t i k. i \<le> length s \<Longrightarrow> \<exists>r. step_plain al (A @ node3 op t @ R @ B) s (length A) i = Some r
        \<and> (case r of None \<Rightarrow> m_node al s x k i = None | Some i' \<Rightarrow> m_node al s x k i = k i' \<and> i \<le> i' \<and> (has_width x \<longrightarrow> i < i') \<and> i' \<le> length s)"
  shows "runs al s st x"
  unfolding runs_def
proof (intro allI impI, elim conjE)
  fix A B t i k
  let ?c = "A @ code x t @ B"
  assume *: "len x \<le> t" "t < 65536" "valid ?c (length A + t)" "goes_on al s st ?c (has_width x) i (length A + t) k" "i \<le> length s"
  have at: "node_at ?c (length A) op (length A + t)"
    using * assms(1,3) tailpos_len(1) [of x] node_at_node3 [of t op A "length A" "length A + t" "R @ B"] by simp
  obtain r where r: "step_plain al ?c s (length A) i = Some r"
      "case r of None \<Rightarrow> m_node al s x k i = None | Some i' \<Rightarrow> m_node al s x k i = k i' \<and> i \<le> i' \<and> (has_width x \<longrightarrow> i < i') \<and> i' \<le> length s"
    using assms(5) [OF *(5), of A t B k] assms(1) by auto
  show "gives al s st ?c (length A) i (m_node al s x k i)"
    using yields_plain [OF at assms(2) r(1), of st "m_node al s x k i"] r(2) *(4) by (auto simp: goes_on_def split: option.splits)
qed

lemma operand:
  assumes "0 \<notin> set b"
  shows "cstring (A @ node3 op t @ (b @ [0]) @ B) (length A + 3) = Some b"
  using cstring_operand [of b "A @ node3 op t" "length A + 3" B] assms by simp

lemma nul_free: "0 \<notin> set s \<Longrightarrow> i < length s \<Longrightarrow> s ! i \<noteq> 0"
  by (metis nth_mem)

lemma peek_in: "0 \<notin> set s \<Longrightarrow> i \<le> length s \<Longrightarrow> peek s i = 0 \<longleftrightarrow> i = length s"
  using nul_free [of s i] by (auto simp: peek_def)

lemma runs_simple_nodes:
  assumes "0 \<notin> set s"
  shows "runs al s st Bol" "runs al s st Eol" "runs al s st Any" "runs al s st WordA" "runs al s st WordZ"
    "0 \<notin> set b \<Longrightarrow> runs al s st (AnyOf b)" "0 \<notin> set b \<Longrightarrow> runs al s st (AnyBut b)"
proof -
  note step = step_plain_def nth_node3 Let_def
  show "runs al s st Bol" by (rule runs_plain [where op = O_BOL and R = "[]"]) (auto simp: step plain_op_def)
  show "runs al s st Eol" by (rule runs_plain [where op = O_EOL and R = "[]"]) (auto simp: step plain_op_def peek_in [OF assms])
  show "runs al s st Any" by (rule runs_plain [where op = O_ANY and R = "[]"]) (auto simp: step plain_op_def peek_in [OF assms])
  show "runs al s st WordA" by (rule runs_plain [where op = O_WORDA and R = "[]"]) (auto simp: step plain_op_def word_start_def)
  show "runs al s st WordZ" by (rule runs_plain [where op = O_WORDZ and R = "[]"]) (auto simp: step plain_op_def)
  show "runs al s st (AnyOf b)" if "0 \<notin> set b"
    by (rule runs_plain [where op = O_ANYOF and R = "b @ [0]"])
      (use that operand [OF that] in \<open>auto simp: step plain_op_def peek_in [OF assms] peek_def nul_free [OF assms]\<close>)
  show "runs al s st (AnyBut b)" if "0 \<notin> set b"
    by (rule runs_plain [where op = O_ANYBUT and R = "b @ [0]"])
      (use that operand [OF that] in \<open>auto simp: step plain_op_def peek_in [OF assms] peek_def nul_free [OF assms]\<close>)
qed

lemma exactly_matches:
  assumes "b \<noteq> []" "0 \<notin> set b"
  shows "(peek b 0 = peek s i \<and> (length b > 1 \<longrightarrow> strncmp_eq b (drop i s) (length b))) \<longleftrightarrow> take (length b) (drop i s) = b"
proof -
  obtain ch r where b: "b = ch # r" using assms(1) by (cases b) auto
  show ?thesis
  proof (cases "i < length s")
    case True
    then have "drop i s = s ! i # drop (Suc i) s" by (simp add: Cons_nth_drop_Suc)
    then show ?thesis using b True by (cases r) (auto simp: peek_def strncmp_eq_def)
  qed (use b assms(2) in \<open>auto simp: peek_def\<close>)
qed

lemma runs_lit:
  assumes "b \<noteq> []" "0 \<notin> set b"
  shows "runs al s st (Str b)"
proof (rule runs_plain [where op = O_EXACTLY and R = "b @ [0]"])
  fix A B t i and k :: "nat \<Rightarrow> mstate option"
  assume i: "i \<le> length s"
  have "step_plain al (A @ node3 O_EXACTLY t @ (b @ [0]) @ B) s (length A) i
      = (if take (length b) (drop i s) = b then Some (Some (i + length b)) else Some None)"
    using operand [OF assms(2), of A O_EXACTLY t B] exactly_matches [OF assms, of s i] i
    by (auto simp: step_plain_def)
  then show "\<exists>r. step_plain al (A @ node3 O_EXACTLY t @ (b @ [0]) @ B) s (length A) i = Some r
      \<and> (case r of None \<Rightarrow> m_node al s (Str b) k i = None
         | Some i' \<Rightarrow> m_node al s (Str b) k i = k i' \<and> i \<le> i' \<and> (has_width (Str b) \<longrightarrow> i < i') \<and> i' \<le> length s)"
    using take_drop_length [of b i s] assms(1) by auto
qed (auto simp: plain_op_def)

lemma length_code_at: "valid (A @ code x t @ B) (length A + t) \<Longrightarrow> length A + t < length (A @ code x t @ B)"
  by (simp add: valid_def)

lemma goes_onD: "goes_on al s st c w i q k \<Longrightarrow> i \<le> j \<Longrightarrow> (w \<Longrightarrow> i < j) \<Longrightarrow> j \<le> length s \<Longrightarrow> gives al s st c q j (k j)"
  by (simp add: goes_on_def)

text \<open>A choice, and a group around it.\<close>

lemma runs_alts_cons:
  assumes "runs_seq al s st b" "bs = [] \<or> runs_alts al s st bs" "wf_seq b"
  shows "runs_alts al s st (b # bs)"
  unfolding runs_alts_def
proof (intro allI impI, elim conjE)
  fix A B i k
  let ?c = "A @ code_alts (b # bs) @ B" and ?p = "length A" and ?q = "length A + 3 + len_seq b"
  let ?e = "length A + len_alts (b # bs)"
  assume *: "len_alts (b # bs) + 3 < 65536" "valid ?c ?e" "?c ! ?e \<noteq> O_BRANCH" "goes_on al s st ?c (has_width_alts (b # bs)) i ?e k" "i \<le> length s"
  have at: "node_at ?c ?p O_BRANCH ?q"
    using *(1) node_at_node3 [of "len_seq b + 3" O_BRANCH A ?p ?q] by simp
  then have rn: "regnext ?c ?p = Some (Some ?q)" by (simp only: node_at_def)
  have body: "gives al s st ?c (?p + 3) i (m_seq al s b k i)"
  proof (rule runs_seqD [OF assms(1), where A = "A @ node3 O_BRANCH (len_seq b + 3)" and t = "len_seq b + len_alts bs" and B = "code_alts bs @ B" and q = ?e])
    show "gives al s st ?c ?e j (k j)" if "i \<le> j" "has_width_seq b \<Longrightarrow> i < j" "j \<le> length s" for j
      using goes_onD [OF *(4) that(1) _ that(3)] that(2) by simp
  qed (use * in simp_all)
  show "chooses al s st ?c ?p i (m_alts al s (b # bs) k i) \<and> gives al s st ?c ?p i (m_alts al s (b # bs) k i)"
  proof (cases bs)
    case Nil
    then have q: "?q < length ?c" "?c ! ?q \<noteq> O_BRANCH" using *(2,3) by (simp_all add: valid_def add.assoc)
    have "chooses al s st ?c ?p i (m_seq al s b k i)"
      by (rule chooses_last [OF body rn q])
    moreover have "gives al s st ?c ?p i (m_seq al s b k i)"
      by (rule yields_only_branch [OF _ body]) (simp only: action_branch [OF at q(1)] q(2) not_False_eq_True if_True)
    ultimately show ?thesis using Nil by simp
  next
    case (Cons b' bs')
    have "gives al s st ?c ?e j (k j)" if "i \<le> j" "has_width_alts bs \<Longrightarrow> i < j" "j \<le> length s" for j
      using goes_onD [OF *(4) that(1) _ that(3)] that(2) by simp
    then have rest: "chooses al s st ?c ?q i (m_alts al s bs k i)"
      using assms(2) * Cons
      by (intro runs_altsD(1) [where A = "A @ node3 O_BRANCH (len_seq b + 3) @ code_seq b (len_seq b + len_alts bs)" and B = B and q = ?e]) simp_all
    have q: "?q < length ?c" "?c ! ?q = O_BRANCH"
      using nth_node3 [of "A @ node3 O_BRANCH (len_seq b + 3) @ code_seq b (len_seq b + len_alts bs)" O_BRANCH "len_seq b' + 3"
          "code_seq b' (len_seq b' + len_alts bs') @ code_alts bs' @ B"] Cons by (simp_all add: add.assoc del: nth_node3)
    have "node_action al ?c s ?p i = Branches" by (simp only: action_branch [OF at q(1)] q(2) if_False simp_thms)
    with chooses_next [OF body rn q rest] show ?thesis using yields_branches unfolding m_alts.simps by blast
  qed
qed

lemma runs_group:
  assumes "runs_alts al s st bs" "wf (Group n bs)"
  shows "runs al s st (Group n bs)"
  unfolding runs_def
proof (intro allI impI, elim conjE)
  fix A B t i k
  let ?c = "A @ code (Group n bs) t @ B" and ?p = "length A" and ?L = "len_alts bs"
  assume *: "len (Group n bs) \<le> t" "t < 65536" "goes_on al s st ?c (has_width (Group n bs)) i (?p + t) k" "i \<le> length s"
  note op = group_op [of n] and n = assms(2)
  let ?cl = "node3 (O_CLOSE + of_nat n) (t - (?L + 3))" and ?op = "node3 (O_OPEN + of_nat n) 3"
  have c: "?c = A @ ?op @ code_alts bs @ ?cl @ B" using *(1) by (simp add: ahead_def)
  have open_at: "node_at ?c ?p (O_OPEN + of_nat n) (?p + 3)"
    unfolding c using n op by (intro node_at_node3) simp_all
  have "node_at ((A @ ?op @ code_alts bs) @ ?cl @ B) (?p + 3 + ?L) (O_CLOSE + of_nat n) (?p + t)"
    using *(1,2) n op by (intro node_at_node3) simp_all
  then have close_at: "node_at ?c (?p + 3 + ?L) (O_CLOSE + of_nat n) (?p + t)" unfolding c by simp
  have "gives al s st ?c (?p + 3) i (m_alts al s bs (\<lambda>j. map_option (set_end n j) (k j)) i)"
  proof (rule runs_altsD(2) [OF assms(1), where A = "A @ ?op" and B = "?cl @ B" and q = "?p + 3 + ?L"])
    show "valid ?c (?p + 3 + ?L)" "?c ! (?p + 3 + ?L) \<noteq> O_BRANCH"
      using close_at n op by (auto simp: node_at_def valid_def)
    show "gives al s st ?c (?p + 3 + ?L) j (map_option (set_end n j) (k j))" if "i \<le> j" "has_width_alts bs \<Longrightarrow> i < j" "j \<le> length s" for j
      using action_close [OF close_at] n goes_onD [OF *(3) that(1) _ that(3)] that(2) by (intro yields_close) simp_all
  qed (use * n c in simp_all)
  then show "gives al s st ?c ?p i (m_node al s (Group n bs) k i)"
    using yields_open [OF action_open [OF open_at]] n by simp
qed

text \<open>The operators.\<close>

lemma runs_repeat:
  assumes "single x" "wf x" "has_width x" "op = O_STAR \<or> op = O_PLUS" "c = A @ node3 op t @ code x 0 @ B" "3 < t" "t < 65536"
    and "q = length A + t" "valid c q" "least = (if op = O_STAR then 0 else 1)"
    and "\<And>j. i + least \<le> j \<Longrightarrow> j \<le> length s \<Longrightarrow> gives al s st c q j (k j)" "i \<le> length s"
  shows "gives al s st c (length A) i (down k i least (length (takeWhile (one_byte x) (drop i s))))"
proof (rule yields_repeat)
  have "node_at c (length A) op q"
    unfolding assms(5) using assms(4,6-8) by (intro node_at_node3) auto
  moreover have "regrepeat c s (length A + 3) i = Some (length (takeWhile (one_byte x) (drop i s)))"
    using regrepeat_single [OF assms(1,2), of "A @ node3 op t" "length A + 3" i s B] assms(5,12) by simp
  ultimately show "node_action al c s (length A) i
      = Repeat q (if c ! q = O_EXACTLY then c ! (q + 3) else 0) least (length (takeWhile (one_byte x) (drop i s)))"
    using action_repeat [OF _ assms(4,9)] assms(10) by simp
  have bound: "i + j \<le> length s" if "j \<le> length (takeWhile (one_byte x) (drop i s))" for j
    using that length_takeWhile_le [of "one_byte x" "drop i s"] assms(12) by simp
  show "i + length (takeWhile (one_byte x) (drop i s)) \<le> length s" by (rule bound) simp
  show "gives al s st c q (i + j) (k (i + j))" if "least \<le> j" "j \<le> length (takeWhile (one_byte x) (drop i s))" for j
    using assms(11) [of "i + j"] bound [OF that(2)] that(1) by simp
  then show "k (i + j) = None" if "least \<le> j" "j \<le> length (takeWhile (one_byte x) (drop i s))"
      "(if c ! q = O_EXACTLY then c ! (q + 3) else 0) \<noteq> 0" "peek s (i + j) \<noteq> (if c ! q = O_EXACTLY then c ! (q + 3) else 0)" for j
    using lookahead [of al s st c q "i + j" "k (i + j)"] that by (auto split: if_splits)
qed

lemma runs_star:
  assumes "runs al s st x" "wf (StarOf g x)"
  shows "runs al s st (StarOf g x)"
  unfolding runs_def
proof (intro allI impI, elim conjE)
  fix A B t i k
  let ?c = "A @ code (StarOf g x) t @ B" and ?p = "length A" and ?S = "star (length s) (m_node al s x) k"
  assume *: "len (StarOf g x) \<le> t" "t < 65536" "valid ?c (?p + t)" "goes_on al s st ?c (has_width (StarOf g x)) i (?p + t) k" "i \<le> length s"
  have x: "wf x" "has_width x" using assms(2) by auto
  have k: "gives al s st ?c (?p + t) j (k j)" if "i \<le> j" "j \<le> length s" for j
    using goes_onD [OF *(4) that(1) _ that(2)] by simp
  show "gives al s st ?c ?p i (m_node al s (StarOf g x) k i)"
  proof (cases g)
    case True
    have "gives al s st ?c ?p i (down k i 0 (length (takeWhile (one_byte x) (drop i s))))"
      using assms(2) True * x len_pos(1) [of x] k
      by (intro runs_repeat [where op = O_STAR and t = t and q = "?p + t" and B = B]) auto
    then show ?thesis using star_single [of x i s al k] assms(2) True *(5) x by simp
  next
    case False
    define b where "b = ?p + 3 + len x"
    define n where "n = ?p + len x + 9"
    let ?C = "code x (len x)" and ?N = "node3 O_NOTHING (t - (len x + 9))"
    have c: "?c = A @ node3 O_BRANCH (len x + 6) @ ?C @ node3 O_BACK (len x + 3) @ node3 O_BRANCH 3 @ ?N @ B"
      using *(1) False by (simp add: ahead_def)
    have first: "node_at ?c ?p O_BRANCH (b + 3)"
      unfolding c b_def using * False by (intro node_at_node3) simp_all
    have "node_at ((A @ node3 O_BRANCH (len x + 6) @ ?C) @ node3 O_BACK (len x + 3) @ node3 O_BRANCH 3 @ ?N @ B) b O_BACK ?p"
      unfolding b_def using * False by (intro node_at_back) simp_all
    then have loop: "node_at ?c b O_BACK ?p" unfolding c by simp
    have "node_at ((A @ node3 O_BRANCH (len x + 6) @ ?C @ node3 O_BACK (len x + 3)) @ node3 O_BRANCH 3 @ ?N @ B) (b + 3) O_BRANCH n"
      unfolding b_def n_def by (intro node_at_node3) simp_all
    then have second: "node_at ?c (b + 3) O_BRANCH n" unfolding c by simp
    have "node_at ((A @ node3 O_BRANCH (len x + 6) @ ?C @ node3 O_BACK (len x + 3) @ node3 O_BRANCH 3) @ ?N @ B) n O_NOTHING (?p + t)"
      unfolding n_def using * False by (intro node_at_node3) simp_all
    then have nop: "node_at ?c n O_NOTHING (?p + t)" unfolding c by simp
    have turn: "gives al s st ?c ?p j (?S j)" if "i \<le> j" "j \<le> length s" for j
      using that
    proof (induction "length s - j" arbitrary: j rule: less_induct)
      case less
      have "gives al s st ?c (?p + 3) j (m_node al s x ?S j)"
      proof (rule runsD [OF assms(1), where A = "A @ node3 O_BRANCH (len x + 6)" and t = "len x" and q = b])
        show "gives al s st ?c b j' (?S j')" if "j \<le> j'" "has_width x \<Longrightarrow> j < j'" "j' \<le> length s" for j'
          using less.hyps [of j'] less.prems that x(2) by (intro yields_through [OF loop]) simp_all
      qed (use * False c b_def less.prems valid_node_at [OF loop] in simp_all)
      moreover have "b + 3 + 3 = n" by (simp add: b_def n_def)
      then have "gives al s st ?c (b + 3 + 3) j (k j)"
        using yields_through [OF nop _ k [OF less.prems]] by (simp only: refl simp_thms)
      ultimately have "gives al s st ?c ?p j (orelse (m_node al s x ?S j) (k j))"
        using nop by (intro chooses_two [OF first second]) (simp_all add: node_at_def)
      then show ?case using star_unfold [OF m_wide_tame [OF x] m_none(1) less.prems(2)] by simp
    qed
    then show ?thesis using *(5) by simp
  qed
qed

lemma runs_plus:
  assumes "runs al s st x" "wf (PlusOf g x)"
  shows "runs al s st (PlusOf g x)"
  unfolding runs_def
proof (intro allI impI, elim conjE)
  fix A B t i k
  let ?c = "A @ code (PlusOf g x) t @ B" and ?p = "length A" and ?S = "star (length s) (m_node al s x) k"
  assume *: "len (PlusOf g x) \<le> t" "t < 65536" "valid ?c (?p + t)" "goes_on al s st ?c (has_width (PlusOf g x)) i (?p + t) k" "i \<le> length s"
  have x: "wf x" "has_width x" using assms(2) by auto
  have k: "gives al s st ?c (?p + t) j (k j)" if "i < j" "j \<le> length s" for j
    using goes_onD [OF *(4), of j] that by simp
  show "gives al s st ?c ?p i (m_node al s (PlusOf g x) k i)"
  proof (cases g)
    case True
    have single: "single x" using assms(2) True by simp
    have "gives al s st ?c ?p i (down k i 1 (length (takeWhile (one_byte x) (drop i s))))"
      using True * x len_pos(1) [of x] k single
      by (intro runs_repeat [where op = O_PLUS and t = t and q = "?p + t" and B = B]) auto
    moreover have "down k i 1 (length (takeWhile (one_byte x) (drop i s))) = m_node al s (PlusOf g x) k i"
    proof (cases "i < length s \<and> one_byte x (s ! i)")
      case True
      then have "drop i s = s ! i # drop (i + 1) s" by (simp add: Cons_nth_drop_Suc)
      then show ?thesis
        using True star_single [OF single x, of "i + 1" s al k] down_one [of k i] by (simp add: m_single [OF single x(1)])
    next
      case False
      then have "takeWhile (one_byte x) (drop i s) = []"
        by (cases "i < length s") (auto simp: Cons_nth_drop_Suc [symmetric])
      then show ?thesis using False by (auto simp: m_single [OF single x(1)])
    qed
    ultimately show ?thesis by simp
  next
    case False
    define b where "b = ?p + len x"
    define n where "n = ?p + len x + 9"
    let ?C = "code x (len x)" and ?N = "node3 O_NOTHING (t - (len x + 9))" and ?K = "node3 O_BACK (len x + 3)"
    have c: "?c = A @ ?C @ node3 O_BRANCH 6 @ ?K @ node3 O_BRANCH 3 @ ?N @ B"
      using *(1) False by (simp add: ahead_def)
    have "node_at ((A @ ?C) @ node3 O_BRANCH 6 @ ?K @ node3 O_BRANCH 3 @ ?N @ B) b O_BRANCH (b + 6)"
      unfolding b_def by (intro node_at_node3) simp_all
    then have first: "node_at ?c b O_BRANCH (b + 6)" unfolding c by simp
    have "node_at ((A @ ?C @ node3 O_BRANCH 6) @ ?K @ node3 O_BRANCH 3 @ ?N @ B) (b + 3) O_BACK ?p"
      unfolding b_def using * False by (intro node_at_back) simp_all
    then have loop: "node_at ?c (b + 3) O_BACK ?p" unfolding c by simp
    have "node_at ((A @ ?C @ node3 O_BRANCH 6 @ ?K) @ node3 O_BRANCH 3 @ ?N @ B) (b + 6) O_BRANCH n"
      unfolding b_def n_def by (intro node_at_node3) simp_all
    then have second: "node_at ?c (b + 6) O_BRANCH n" unfolding c by simp
    have "node_at ((A @ ?C @ node3 O_BRANCH 6 @ ?K @ node3 O_BRANCH 3) @ ?N @ B) n O_NOTHING (?p + t)"
      unfolding n_def using * False by (intro node_at_node3) simp_all
    then have nop: "node_at ?c n O_NOTHING (?p + t)" unfolding c by simp
    have once: "gives al s st ?c ?p j (m_node al s x ?S j)"
      if "j \<le> length s" "\<And>j'. j < j' \<Longrightarrow> j' \<le> length s \<Longrightarrow> gives al s st ?c b j' (?S j')" for j
      using that x valid_node_at [OF first] * False c b_def
      by (intro runsD [OF assms(1), where t = "len x" and q = b]) auto
    have turn: "gives al s st ?c b j (?S j)" if "i < j" "j \<le> length s" for j
      using that
    proof (induction "length s - j" arbitrary: j rule: less_induct)
      case less
      have "gives al s st ?c (b + 3) j (m_node al s x ?S j)"
        using less by (intro yields_through [OF loop] once) simp_all
      moreover have "b + 6 + 3 = n" by (simp add: b_def n_def)
      then have "gives al s st ?c (b + 6 + 3) j (k j)"
        using yields_through [OF nop _ k [OF less.prems]] by (simp only: refl simp_thms)
      ultimately have "gives al s st ?c b j (orelse (m_node al s x ?S j) (k j))"
        using nop by (intro chooses_two [OF first second]) (simp_all add: node_at_def)
      then show ?case using star_unfold [OF m_wide_tame [OF x] m_none(1) less.prems(2)] by simp
    qed
    then show ?thesis using once [OF *(5)] by simp
  qed
qed

lemma runs_opt:
  assumes "runs al s st x"
  shows "runs al s st (Opt x)"
  unfolding runs_def
proof (intro allI impI, elim conjE)
  fix A B t i k
  let ?c = "A @ code (Opt x) t @ B" and ?p = "length A"
  assume *: "len (Opt x) \<le> t" "t < 65536" "valid ?c (?p + t)" "goes_on al s st ?c (has_width (Opt x)) i (?p + t) k" "i \<le> length s"
  have k: "gives al s st ?c (?p + t) j (k j)" if "i \<le> j" "j \<le> length s" for j
    using goes_onD [OF *(4) that(1) _ that(2)] by simp
  define b where "b = ?p + len x + 3"
  let ?C = "code x (len x + 3)" and ?N = "node3 O_NOTHING (t - (len x + 6))"
  have c: "?c = A @ node3 O_BRANCH (len x + 3) @ ?C @ node3 O_BRANCH 3 @ ?N @ B"
    using *(1) by (simp add: ahead_def)
  have first: "node_at ?c ?p O_BRANCH b"
    unfolding c b_def using * by (intro node_at_node3) simp_all
  have "node_at ((A @ node3 O_BRANCH (len x + 3) @ ?C) @ node3 O_BRANCH 3 @ ?N @ B) b O_BRANCH (b + 3)"
    unfolding b_def by (intro node_at_node3) simp_all
  then have second: "node_at ?c b O_BRANCH (b + 3)" unfolding c by simp
  have "node_at ((A @ node3 O_BRANCH (len x + 3) @ ?C @ node3 O_BRANCH 3) @ ?N @ B) (b + 3) O_NOTHING (?p + t)"
    unfolding b_def using * by (intro node_at_node3) simp_all
  then have nop: "node_at ?c (b + 3) O_NOTHING (?p + t)" unfolding c by simp
  have after: "gives al s st ?c (b + 3) j (k j)" if "i \<le> j" "j \<le> length s" for j
    by (rule yields_through [OF nop _ k [OF that]]) simp
  have "gives al s st ?c (?p + 3) i (m_node al s x k i)"
    by (rule runsD [OF assms(1), where A = "A @ node3 O_BRANCH (len x + 3)" and t = "len x + 3" and q = "b + 3"])
      (use * c b_def after valid_node_at [OF nop] in simp_all)
  moreover have "b + 3 < length ?c" "?c ! (b + 3) \<noteq> O_BRANCH" using nop unfolding node_at_def by simp_all
  ultimately have "gives al s st ?c ?p i (orelse (m_node al s x k i) (k i))"
    using after *(5) by (intro chooses_two [OF first second]) (simp_all only: order_refl not_False_eq_True)
  then show "gives al s st ?c ?p i (m_node al s (Opt x) k i)" by (simp only: m_node.simps)
qed

text \<open>A sequence.\<close>

lemma runs_seq_nil: "runs_seq al s st []"
  unfolding runs_seq_def
proof (intro allI impI, elim conjE)
  fix A B t i k
  assume *: "len_seq [] \<le> t" "t < 65536" "goes_on al s st (A @ code_seq [] t @ B) (has_width_seq []) i (length A + t) k" "i \<le> length s"
  have "node_at (A @ code_seq [] t @ B) (length A) O_NOTHING (length A + t)"
    using * by (simp add: node_at_node3)
  then show "gives al s st (A @ code_seq [] t @ B) (length A) i (m_seq al s [] k i)"
    using goes_onD [OF *(3), of i] *(4) by (simp add: yields_through)
qed

lemma runs_seq_cons:
  assumes "runs al s st x" "runs_seq al s st xs" "wf_seq xs"
  shows "runs_seq al s st (x # xs)"
  unfolding runs_seq_def
proof (intro allI impI, elim conjE)
  fix A B t i k
  let ?c = "A @ code_seq (x # xs) t @ B" and ?p = "length A"
  assume *: "len_seq (x # xs) \<le> t" "t < 65536" "valid ?c (?p + t)" "goes_on al s st ?c (has_width_seq (x # xs)) i (?p + t) k" "i \<le> length s"
  show "gives al s st ?c ?p i (m_seq al s (x # xs) k i)"
  proof (cases "xs = []")
    case True
    have "m_seq al s [] k = k" by (rule ext) simp
    then have "m_seq al s (x # xs) k i = m_node al s x k i" using True by simp
    moreover have "gives al s st ?c ?p i (m_node al s x k i)"
      using * True goes_onD [OF *(4)] by (intro runsD [OF assms(1), where t = t and q = "?p + t"]) auto
    ultimately show ?thesis by simp
  next
    case False
    let ?r = "code_seq xs (t - len x)"
    have c: "?c = A @ code x (len x) @ ?r @ B"
      using * False len_pos(2) [of xs] by (simp add: ahead_def)
    have rest: "gives al s st ?c (?p + len x) j (m_seq al s xs k j)" if "i \<le> j" "has_width x \<Longrightarrow> i < j" "j \<le> length s" for j
    proof (rule runs_seqD [OF assms(2), where A = "A @ code x (len x)" and t = "t - len x" and B = B and q = "?p + t"])
      show "gives al s st ?c (?p + t) j' (k j')" if "j \<le> j'" "has_width_seq xs \<Longrightarrow> j < j'" "j' \<le> length s" for j'
        using goes_onD [OF *(4), of j'] that \<open>i \<le> j\<close> \<open>has_width x \<Longrightarrow> i < j\<close> by fastforce
    qed (use * False c that(3) in simp_all)
    have "valid ((A @ code x (len x)) @ ?r @ B) (?p + len x)"
      using assms(3) by (intro valid_code_seq) simp_all
    then show ?thesis
      using * False c rest by (simp add: runsD [OF assms(1), where t = "len x" and q = "?p + len x"])
  qed
qed

lemma runs_all:
  assumes "0 \<notin> set s"
  shows "wf x \<longrightarrow> runs al s st x" "wf_seq xs \<longrightarrow> runs_seq al s st xs" "bs \<noteq> [] \<and> wf_alts bs \<longrightarrow> runs_alts al s st bs"
proof (induction x and xs and bs rule: wf_wf_seq_wf_alts.induct)
  case (4 n bs)
  then show ?case using runs_group by simp
next
  case (5 g x)
  then show ?case using runs_star by auto
next
  case (6 g x)
  then show ?case using runs_plus by auto
next
  case (7 x)
  then show ?case using runs_opt by auto
next
  case (10 x xs)
  then show ?case using runs_seq_cons by auto
next
  case (12 b bs)
  then show ?case using runs_alts_cons by auto
qed (simp_all add: runs_simple_nodes [OF assms] runs_lit runs_seq_nil)

section \<open>The language of an expression\<close>

text \<open>
  \<open>mem x i j\<close>: the part of the subject from \<open>i\<close> to \<open>j\<close> is in the language of \<open>x\<close>; anchors and word
  boundaries look at the positions.
\<close>

inductive mem :: "(u8 \<Rightarrow> bool) \<Rightarrow> u8 list \<Rightarrow> node \<Rightarrow> nat \<Rightarrow> nat \<Rightarrow> bool"
  and mem_seq :: "(u8 \<Rightarrow> bool) \<Rightarrow> u8 list \<Rightarrow> node list \<Rightarrow> nat \<Rightarrow> nat \<Rightarrow> bool"
  and mem_alts :: "(u8 \<Rightarrow> bool) \<Rightarrow> u8 list \<Rightarrow> node list list \<Rightarrow> nat \<Rightarrow> nat \<Rightarrow> bool" for al s
where
  mem_bol: "mem al s Bol 0 0"
| mem_eol: "mem al s Eol (length s) (length s)"
| mem_worda: "word_start al s i \<Longrightarrow> mem al s WordA i i"
| mem_wordz: "\<not> wordchar al (peek s i) \<Longrightarrow> mem al s WordZ i i"
| mem_any: "i < length s \<Longrightarrow> mem al s Any i (Suc i)"
| mem_anyof: "i < length s \<Longrightarrow> s ! i \<in> set b \<Longrightarrow> mem al s (AnyOf b) i (Suc i)"
| mem_anybut: "i < length s \<Longrightarrow> s ! i \<notin> set b \<Longrightarrow> mem al s (AnyBut b) i (Suc i)"
| mem_lit: "take (length b) (drop i s) = b \<Longrightarrow> mem al s (Str b) i (i + length b)"
| mem_group: "mem_alts al s bs i j \<Longrightarrow> mem al s (Group n bs) i j"
| mem_star0: "mem al s (StarOf g x) i i"
| mem_star: "mem al s x i j \<Longrightarrow> mem al s (StarOf g x) j l \<Longrightarrow> mem al s (StarOf g x) i l"
| mem_plus: "mem al s x i j \<Longrightarrow> mem al s (StarOf g x) j l \<Longrightarrow> mem al s (PlusOf g x) i l"
| mem_opt0: "mem al s (Opt x) i i"
| mem_opt: "mem al s x i j \<Longrightarrow> mem al s (Opt x) i j"
| mem_nil: "mem_seq al s [] i i"
| mem_cons: "mem al s x i j \<Longrightarrow> mem_seq al s xs j l \<Longrightarrow> mem_seq al s (x # xs) i l"
| mem_first: "mem_seq al s b i j \<Longrightarrow> mem_alts al s (b # bs) i j"
| mem_later: "mem_alts al s bs i j \<Longrightarrow> mem_alts al s (b # bs) i j"

inductive_cases mem_litE: "mem al s (Str b) i j"
inductive_cases mem_plusE: "mem al s (PlusOf g x) i j"
inductive_cases mem_seq_consE: "mem_seq al s (x # xs) i j"
inductive_simps mem_bol_iff: "mem al s Bol i j"

lemma mem_bounds:
  "mem al s x i j \<Longrightarrow> i \<le> length s \<Longrightarrow> wf x \<Longrightarrow> i \<le> j \<and> j \<le> length s \<and> (has_width x \<longrightarrow> i < j)"
  "mem_seq al s xs i j \<Longrightarrow> i \<le> length s \<Longrightarrow> wf_seq xs \<Longrightarrow> i \<le> j \<and> j \<le> length s \<and> (has_width_seq xs \<longrightarrow> i < j)"
  "mem_alts al s bs i j \<Longrightarrow> i \<le> length s \<Longrightarrow> wf_alts bs \<Longrightarrow> i \<le> j \<and> j \<le> length s \<and> (has_width_alts bs \<longrightarrow> i < j)"
proof (induction rule: mem_mem_seq_mem_alts.inducts)
  case (mem_lit b i)
  then show ?case using take_drop_length [of b i s] by auto
qed auto

text \<open>What the matcher on the tree finds is in the language; what is in the language it finds.\<close>

definition finds :: "u8 list \<Rightarrow> (nat \<Rightarrow> nat \<Rightarrow> bool) \<Rightarrow> ((nat \<Rightarrow> mstate option) \<Rightarrow> nat \<Rightarrow> mstate option) \<Rightarrow> bool" where
  "finds s R f \<longleftrightarrow> (\<forall>k i. i \<le> length s \<longrightarrow> f k i \<noteq> None \<longrightarrow> (\<exists>j \<le> length s. R i j \<and> k j \<noteq> None))"

lemma findsD: "finds s R f \<Longrightarrow> i \<le> length s \<Longrightarrow> f k i \<noteq> None \<Longrightarrow> \<exists>j \<le> length s. R i j \<and> k j \<noteq> None"
  unfolding finds_def by blast

lemma orelse_None: "orelse a b = None \<longleftrightarrow> a = None \<and> b = None"
  by (cases a) simp_all

lemma iter_finds:
  assumes "finds s R f"
  shows "i \<le> length s \<Longrightarrow> iter f k n i \<noteq> None \<Longrightarrow> \<exists>j \<le> length s. R\<^sup>*\<^sup>* i j \<and> k j \<noteq> None"
proof (induction n arbitrary: i)
  case (Suc n)
  show ?case
  proof (cases "k i = None")
    case True
    then have "f (iter f k n) i \<noteq> None" using Suc.prems by (simp add: orelse_None)
    then obtain j where j: "j \<le> length s" "R i j" "iter f k n j \<noteq> None"
      using findsD [OF assms Suc.prems(1)] by blast
    then show ?thesis using Suc.IH [OF j(1,3)] by (meson converse_rtranclp_into_rtranclp)
  next
    case False
    then show ?thesis using Suc.prems(1) by blast
  qed
next
  case 0
  then have "i \<le> length s" "k i \<noteq> None" by simp_all
  then show ?case by blast
qed

lemma star_finds:
  assumes "finds s (mem al s x) f"
  shows "finds s (mem al s (StarOf g x)) (star (length s) f)"
proof -
  have "mem al s (StarOf g x) i j" if "(mem al s x)\<^sup>*\<^sup>* i j" for i j
    using that by (induction rule: converse_rtranclp_induct) (auto intro: mem_mem_seq_mem_alts.intros)
  then show ?thesis
    using iter_finds [OF assms] unfolding finds_def star_def by blast
qed

lemma finds_one:
  assumes "\<And>i. i < length s \<Longrightarrow> P (s ! i) \<Longrightarrow> R i (Suc i)"
    and "\<And>k i. f k i = (if i < length s \<and> P (s ! i) then k (Suc i) else None)"
  shows "finds s R f"
  unfolding finds_def
proof (intro allI impI)
  fix k :: "nat \<Rightarrow> mstate option" and i
  assume "f k i \<noteq> None"
  then have "i < length s" "P (s ! i)" "k (Suc i) \<noteq> None" using assms(2) by (auto split: if_splits)
  then show "\<exists>j \<le> length s. R i j \<and> k j \<noteq> None"
    using assms(1) by (intro exI [of _ "Suc i"]) auto
qed

lemma m_finds:
  "wf x \<longrightarrow> finds s (mem al s x) (m_node al s x)"
  "wf_seq xs \<longrightarrow> finds s (mem_seq al s xs) (m_seq al s xs)"
  "wf_alts bs \<longrightarrow> finds s (mem_alts al s bs) (m_alts al s bs)"
proof (induction x and xs and bs rule: wf_wf_seq_wf_alts.induct)
  case (3 b)
  have "i + length b \<le> length s" if "take (length b) (drop i s) = b" "b \<noteq> []" for i
    using take_drop_length [OF that] by simp
  then show ?case by (force simp: finds_def intro: mem_lit split: if_splits)
next
  case (4 n bs)
  show ?case
    unfolding finds_def
  proof (intro impI allI)
    fix k :: "nat \<Rightarrow> mstate option" and i
    assume *: "wf (Group n bs)" "i \<le> length s" "m_node al s (Group n bs) k i \<noteq> None"
    then have "m_alts al s bs (\<lambda>j. map_option (set_end n j) (k j)) i \<noteq> None" by simp
    then show "\<exists>j \<le> length s. mem al s (Group n bs) i j \<and> k j \<noteq> None"
      using findsD [where f = "m_alts al s bs", OF _ *(2)] 4 *(1) mem_group by fastforce
  qed
next
  case (5 g x)
  show ?case
  proof
    assume "wf (StarOf g x)"
    then have "finds s (mem al s (StarOf g x)) (star (length s) (m_node al s x))" using 5 by (intro star_finds) simp
    then show "finds s (mem al s (StarOf g x)) (m_node al s (StarOf g x))" by (simp add: finds_def)
  qed
next
  case (6 g x)
  show ?case
    unfolding finds_def
  proof (intro impI allI)
    fix k :: "nat \<Rightarrow> mstate option" and i
    assume *: "wf (PlusOf g x)" "i \<le> length s" "m_node al s (PlusOf g x) k i \<noteq> None"
    have x: "finds s (mem al s x) (m_node al s x)" using 6 * by simp
    obtain j where j: "j \<le> length s" "mem al s x i j" "star (length s) (m_node al s x) k j \<noteq> None"
      using findsD [OF x *(2)] *(3) by force
    then show "\<exists>j \<le> length s. mem al s (PlusOf g x) i j \<and> k j \<noteq> None"
      using findsD [OF star_finds [OF x] j(1,3)] mem_plus by blast
  qed
next
  case (7 x)
  then show ?case by (auto simp: finds_def orelse_None intro: mem_opt0 mem_opt) (metis mem_opt option.discI)
next
  case (10 x xs)
  show ?case
    unfolding finds_def
  proof (intro impI allI)
    fix k :: "nat \<Rightarrow> mstate option" and i
    assume *: "wf_seq (x # xs)" "i \<le> length s" "m_seq al s (x # xs) k i \<noteq> None"
    obtain j where j: "j \<le> length s" "mem al s x i j" "m_seq al s xs k j \<noteq> None"
      using findsD [of s "mem al s x" "m_node al s x", OF _ *(2)] 10 * by force
    then show "\<exists>j \<le> length s. mem_seq al s (x # xs) i j \<and> k j \<noteq> None"
      using findsD [of s "mem_seq al s xs" "m_seq al s xs", OF _ j(1,3)] 10 *(1) mem_cons by (metis wf_seq.simps(2))
  qed
next
  case (12 b bs)
  then show ?case by (auto simp: finds_def orelse_None) (metis mem_first mem_later option.discI)+
next
  case (1 b)
  show ?case by (intro impI finds_one [where P = "\<lambda>ch. ch \<in> set b"]) (auto intro: mem_anyof)
next
  case (2 b)
  show ?case by (intro impI finds_one [where P = "\<lambda>ch. ch \<notin> set b"]) (auto intro: mem_anybut)
next
  case "8_3"
  show ?case by (intro impI finds_one [where P = "\<lambda>ch. True"]) (auto intro: mem_any)
qed (auto simp: finds_def intro: mem_mem_seq_mem_alts.intros split: if_splits)

lemma m_complete:
  "mem al s x i j \<Longrightarrow> i \<le> length s \<Longrightarrow> wf x \<Longrightarrow> k j \<noteq> None \<Longrightarrow> m_node al s x k i \<noteq> None"
  "mem_seq al s xs i j \<Longrightarrow> i \<le> length s \<Longrightarrow> wf_seq xs \<Longrightarrow> k j \<noteq> None \<Longrightarrow> m_seq al s xs k i \<noteq> None"
  "mem_alts al s bs i j \<Longrightarrow> i \<le> length s \<Longrightarrow> wf_alts bs \<Longrightarrow> k j \<noteq> None \<Longrightarrow> m_alts al s bs k i \<noteq> None"
proof (induction arbitrary: k and k and k rule: mem_mem_seq_mem_alts.inducts)
  case (mem_group bs i j n)
  then show ?case by simp
next
  case (mem_star0 g x i)
  then show ?case
    using star_unfold [OF m_wide_tame [of x s al] m_none(1), of i k] by (simp add: orelse_None)
next
  case (mem_star x i j g l)
  have "j \<le> length s" using mem_bounds(1) [OF mem_star(1) mem_star.prems(1)] mem_star.prems(2) by simp
  then have "m_node al s x (star (length s) (m_node al s x) k) i \<noteq> None"
    using mem_star.IH(4) [of k] mem_star.prems by (intro mem_star.IH(2)) simp_all
  then show ?case
    using star_unfold [OF m_wide_tame [of x s al] m_none(1), of i k] mem_star.prems by (simp add: orelse_None)
next
  case (mem_plus x i j g l)
  have "j \<le> length s" using mem_bounds(1) [OF mem_plus(1) mem_plus.prems(1)] mem_plus.prems(2) by simp
  then show ?case
    using mem_plus.IH(4) [of k] mem_plus.prems mem_plus.IH(2) by simp
next
  case (mem_cons x i j xs l)
  have "j \<le> length s" using mem_bounds(1) [OF mem_cons(1) mem_cons.prems(1)] mem_cons.prems(2) by simp
  then show ?case using mem_cons.IH mem_cons.prems by simp
qed (auto simp: orelse_None)

end
