(* ===== verification/Regexp_Search.thy ===== *)
theory Regexp_Search
  imports Regexp_Exec
begin

text \<open>
  What a search with a compiled expression finds. \<open>match_at\<close> is the attempt at one position, done
  by the matcher on the tree; \<open>first_match\<close> is the first position where it succeeds. The three tests that
  \<open>regexec\<close> makes before it starts (the anchor, the first character, the string that must appear) only
  skip positions where nothing matches. The last section has the substitution of \<open>v8_regsub.c\<close>.
\<close>

section \<open>One attempt\<close>

definition fresh :: "nat \<Rightarrow> mstate" where
  "fresh i = \<lparr> reginput = i, regstartp = replicate NSUBEXP None, regendp = replicate NSUBEXP None \<rparr>"

lemma fresh_input [simp]: "(fresh i)\<lparr> reginput := j \<rparr> = fresh j"
  by (simp add: fresh_def)

definition match_at :: "(u8 \<Rightarrow> bool) \<Rightarrow> u8 list \<Rightarrow> node list list \<Rightarrow> nat \<Rightarrow> mstate option" where
  "match_at al s bs i = m_alts al s bs (\<lambda>j. Some (fresh j)) i"

definition first_match :: "(u8 \<Rightarrow> bool) \<Rightarrow> u8 list \<Rightarrow> node list list \<Rightarrow> nat option" where
  "first_match al s bs = find (\<lambda>i. match_at al s bs i \<noteq> None) [0 ..< length s + 1]"

lemma match_at_runs:
  assumes "0 \<notin> set s" "bs \<noteq> []" "wf_alts bs" "len_alts bs + 3 < 65536" "i \<le> length s"
  shows "gives al s (fresh i) (layout bs) 1 i (match_at al s bs i)"
proof -
  let ?e = "len_alts bs + 1"
  have lay: "layout bs = [MAGIC] @ code_alts bs @ node3 O_END 0" by (simp add: layout_def)
  have at: "layout bs ! ?e = O_END"
    unfolding lay using nth_node3 [of "[MAGIC] @ code_alts bs" O_END 0 "[]"] by simp
  have valid: "valid (layout bs) ?e" using at by (simp add: valid_def length_layout)
  have "regnext (([MAGIC] @ code_alts bs) @ node3 O_END 0 @ []) ?e = Some None"
    by (subst regnext_node3) simp_all
  then have "regnext (layout bs) ?e = Some None" by (simp add: lay)
  then have "node_action al (layout bs) s ?e j = Succeed" for j
    using at by (simp add: node_action_def plain_op_def)
  then have stop: "gives al s (fresh i) (layout bs) ?e j (Some (fresh j))" for j
    using yields_end [of al "layout bs" s ?e j "fresh i"] by simp
  have "runs_alts al s (fresh i) bs" using runs_all(3) [OF assms(1)] assms(2,3) by blast
  from runs_altsD(2) [OF this lay, of 1 ?e i] show ?thesis
    using valid at assms(2,4,5) stop by (simp add: match_at_def)
qed

text \<open>The result of an attempt.\<close>

definition attempt :: "regexp \<Rightarrow> mstate option \<Rightarrow> nat \<Rightarrow> bool \<times> regexp" where
  "attempt prog r i = (case r of
       None \<Rightarrow> (False, prog\<lparr> startp := replicate NSUBEXP None, endp := replicate NSUBEXP None \<rparr>)
     | Some st \<Rightarrow> (True, prog\<lparr> startp := (regstartp st)[0 := Some i], endp := (regendp st)[0 := Some (reginput st)] \<rparr>))"

lemma regtry_attempt:
  assumes "gives al s (fresh i) (program prog) 1 i r"
  shows "\<exists>n. \<forall>k \<ge> n. regtry k al prog s i = Some (attempt prog r i)"
proof -
  obtain n where n: "regmatch n al (program prog) s (Some 1) (fresh i) = outcome_of r"
    using assms by (auto simp: gives_def)
  have "regtry k al prog s i = Some (attempt prog r i)" if "n \<le> k" for k
    using regmatch_more [OF n that] unfolding fresh_def
    by (cases r) (simp_all add: regtry_def attempt_def Let_def)
  then show ?thesis by blast
qed

lemma attempt_again [simp]:
  "attempt (prog\<lparr> startp := sp, endp := ep \<rparr>) r i = attempt prog r i"
  by (simp add: attempt_def split: option.split)

lemma regtries_find:
  assumes "\<And>i p. i \<in> set is \<Longrightarrow> program p = program prog \<Longrightarrow> regtry n al p s i = Some (attempt p (f i) i)"
  shows "regtries n al s is prog = Some (case find (\<lambda>i. f i \<noteq> None) is of
      Some i \<Rightarrow> attempt prog (f i) i
    | None \<Rightarrow> if is = [] then (False, prog) else attempt prog None 0)"
  using assms
proof (induction "is" arbitrary: prog)
  case (Cons i "is")
  show ?case
  proof (cases "f i")
    case None
    let ?p = "prog\<lparr> startp := replicate NSUBEXP None, endp := replicate NSUBEXP None \<rparr>"
    have "regtries n al s (i # is) prog = regtries n al s is ?p"
      using Cons.prems [of i prog] None by (simp add: attempt_def)
    also have "\<dots> = Some (case find (\<lambda>i. f i \<noteq> None) is of
        Some i \<Rightarrow> attempt ?p (f i) i | None \<Rightarrow> if is = [] then (False, ?p) else attempt ?p None 0)"
      using Cons.prems by (intro Cons.IH) simp
    finally show ?thesis using None unfolding attempt_again by (auto simp: attempt_def split: option.splits)
  next
    case (Some st)
    then show ?thesis using Cons.prems [of i prog] by (simp add: attempt_def)
  qed
qed simp

lemma find_filter: "(\<And>x. x \<in> set xs \<Longrightarrow> P x \<Longrightarrow> Q x) \<Longrightarrow> find P (filter Q xs) = find P xs"
  by (induction xs) auto

section \<open>What the tests before the search may skip\<close>

lemma match_at_none: "match_at al s [b] i = m_seq al s b (\<lambda>j. Some (fresh j)) i"
  by (simp add: match_at_def)

lemma m_first_char:
  assumes "wf x" "first_char x \<noteq> 0" "m_node al s x k i \<noteq> None"
  shows "i < length s \<and> s ! i = first_char x"
  using assms
proof (induction x arbitrary: k)
  case (Str b)
  then have b: "b \<noteq> []" "take (length b) (drop i s) = b" by (simp_all split: if_splits)
  then have i: "i < length s" using take_drop_length [of b i s] by linarith
  then have "take (length b) (s ! i # drop (Suc i) s) = b" using b by (simp add: Cons_nth_drop_Suc)
  then show ?case using i b(1) by (cases b) auto
next
  case (PlusOf g x)
  then have "wf x" "first_char x \<noteq> 0" "m_node al s x (star (length s) (m_node al s x) k) i \<noteq> None" "first_char (PlusOf g x) = first_char x"
    by (simp_all split: if_splits)
  then show ?case using PlusOf.IH by simp
qed simp_all

text \<open>A literal every match goes through occurs in the subject.\<close>

definition occurs :: "u8 list \<Rightarrow> u8 list \<Rightarrow> bool" where
  "occurs w s \<longleftrightarrow> (\<exists>p. take (length w) (drop p s) = w)"

lemma mem_lits:
  assumes "mem al s x i j" "(q, w) \<in> set (must_lits p x)"
  shows "occurs w s"
  using assms
proof (induction x arbitrary: i j)
  case (Str b)
  then show ?case by (auto simp: occurs_def elim!: mem_litE)
next
  case (PlusOf g x)
  then show ?case by (auto elim!: mem_plusE split: if_splits)
qed simp_all

lemma mem_lits_seq:
  assumes "mem_seq al s xs i j" "(q, w) \<in> set (must_lits_seq p xs)"
  shows "occurs w s"
  using assms
proof (induction xs arbitrary: i p)
  case (Cons x xs)
  then show ?case by (auto elim!: mem_seq_consE dest: mem_lits)
qed simp

lemma lits_wf: "wf x \<Longrightarrow> (q, w) \<in> set (must_lits p x) \<Longrightarrow> w \<noteq> [] \<and> 0 \<notin> set w"
  by (induction x) (auto split: if_splits)

lemma lits_seq_wf: "wf_seq xs \<Longrightarrow> (q, w) \<in> set (must_lits_seq p xs) \<Longrightarrow> w \<noteq> [] \<and> 0 \<notin> set w"
  by (induction xs arbitrary: p) (auto dest: lits_wf)

lemma fold_longest:
  "fold longer ls r = r \<or> (\<exists>(p, w) \<in> set ls. fold longer ls r = (Some (p + 3), length w))"
proof (induction ls arbitrary: r)
  case (Cons l ls)
  show ?case using Cons [of "longer l r"] by (cases l) (auto simp: longer_def split: if_splits)
qed simp

lemma leads_cstring: "leads c ls p q \<Longrightarrow> (a, w) \<in> set ls \<Longrightarrow> cstring c (a + 3) = Some w"
  by (induction rule: leads.induct) auto

lemma layout_cstring:
  assumes "wf_seq b" "len_seq b < 65536" "(a, w) \<in> set (must_lits_seq 4 b)"
  shows "cstring (layout [b]) (a + 3) = Some w"
proof -
  have "leads ((MAGIC # node3 O_BRANCH (len_seq b + 3)) @ code_seq b (len_seq b) @ node3 O_END 0) (must_lits_seq 4 b) 4 (4 + len_seq b)"
    using assms(1,2) by (intro leads_seq) simp_all
  then have "leads (layout [b]) (must_lits_seq 4 b) 4 (4 + len_seq b)" by (simp add: layout_def)
  from leads_cstring [OF this assms(3)] show ?thesis .
qed

lemma must_appear_occurs:
  assumes "w \<noteq> []" "0 \<notin> set w"
  shows "must_appear (peek w 0) w (length w) s \<longleftrightarrow> occurs w s"
proof (induction s)
  case Nil
  have "peek w 0 \<noteq> 0" using assms by (cases w) (auto simp: peek_def)
  then show ?case using assms(1) by (simp add: occurs_def)
next
  case (Cons x t)
  have "occurs w (x # t) \<longleftrightarrow> take (length w) (x # t) = w \<or> occurs w t"
  proof
    assume "occurs w (x # t)"
    then obtain p where "take (length w) (drop p (x # t)) = w" by (auto simp: occurs_def)
    then show "take (length w) (x # t) = w \<or> occurs w t" unfolding occurs_def by (cases p) auto
  next
    assume "take (length w) (x # t) = w \<or> occurs w t"
    moreover have "drop (Suc p) (x # t) = drop p t" for p by simp
    ultimately show "occurs w (x # t)" unfolding occurs_def by (metis drop_0)
  qed
  moreover have "take (length w) (x # t) = w \<Longrightarrow> x = peek w 0"
    using assms(1) by (cases w) (auto simp: peek_def)
  ultimately show ?case using Cons by (auto simp: strncmp_eq_def)
qed

lemma match_at_mem:
  assumes "wf_alts bs" "i \<le> length s"
  shows "match_at al s bs i \<noteq> None \<longleftrightarrow> (\<exists>j \<le> length s. mem_alts al s bs i j)"
proof
  assume "match_at al s bs i \<noteq> None"
  moreover have "finds s (mem_alts al s bs) (m_alts al s bs)" using m_finds(3) assms(1) by blast
  ultimately show "\<exists>j \<le> length s. mem_alts al s bs i j"
    using findsD [OF _ assms(2)] unfolding match_at_def by blast
next
  assume "\<exists>j \<le> length s. mem_alts al s bs i j"
  then obtain j where "mem_alts al s bs i j" by blast
  from m_complete(3) [OF this assms(2,1), of "\<lambda>j. Some (fresh j)"] show "match_at al s bs i \<noteq> None"
    by (simp add: match_at_def)
qed

text \<open>The three tests.\<close>

lemma must_test:
  assumes "wf_alts bs" "bs \<noteq> []" "len_alts bs < 65536" "digest bs = (start, anch, must, mlen)"
  shows "\<exists>t. (case must of
           None \<Rightarrow> Some True
         | Some p \<Rightarrow> (case cstring (layout bs) p of
               None \<Rightarrow> None | Some w \<Rightarrow> Some (must_appear (peek w 0) w mlen s))) = Some t
       \<and> (\<forall>i \<le> length s. match_at al s bs i \<noteq> None \<longrightarrow> t)"
proof (cases must)
  case (Some p)
  then obtain b where b: "bs = [b]" "spst_seq b" "fold longer (must_lits_seq 4 b) (None, 0) = (Some p, mlen)"
    using assms(4) by (auto simp: digest_def Let_def split: list.splits if_splits)
  then obtain a w where w: "(a, w) \<in> set (must_lits_seq 4 b)" "p = a + 3" "mlen = length w"
    using fold_longest [of "must_lits_seq 4 b" "(None, 0)"] by auto
  have wf: "wf_seq b" "len_seq b < 65536" using assms(1,3) b(1) by auto
  have nz: "w \<noteq> []" "0 \<notin> set w" using lits_seq_wf [OF wf(1) w(1)] by auto
  have "occurs w s" if i: "i \<le> length s" and hit: "match_at al s bs i \<noteq> None" for i
  proof -
    obtain j where "mem_alts al s [b] i j" using match_at_mem [OF assms(1) i] hit b(1) by blast
    then have "mem_seq al s b i j" by (auto elim: mem_alts.cases)
    then show ?thesis using mem_lits_seq w(1) by blast
  qed
  then show ?thesis
    using Some layout_cstring [OF wf w(1)] must_appear_occurs [OF nz] w(2,3) b(1) by simp
qed (simp add: exI [of _ True])

lemma anchor_test:
  assumes "digest bs = (start, True, must, mlen)" "match_at al s bs i \<noteq> None"
  shows "i = 0"
  using assms by (auto simp: digest_def match_at_def Let_def split: list.splits if_splits)

lemma start_test:
  assumes "wf_alts bs" "digest bs = (start, anch, must, mlen)" "start \<noteq> 0" "match_at al s bs i \<noteq> None"
  shows "i < length s \<and> s ! i = start"
proof -
  obtain x xs where "bs = [x # xs]" "start = first_char x"
    using assms(2,3) by (auto simp: digest_def Let_def split: list.splits if_splits)
  then show ?thesis
    using assms m_first_char [of x al s] by (simp add: match_at_none)
qed

section \<open>regexec on a compiled expression\<close>

text \<open>The positions that \<open>regexec\<close> tries, in order.\<close>

definition positions :: "regexp \<Rightarrow> u8 list \<Rightarrow> nat list" where
  "positions prog s = (if reganch prog then [0]
     else if regstart prog \<noteq> 0 then filter (\<lambda>i. s ! i = regstart prog) [0 ..< length s]
     else [0 ..< length s + 1])"

lemma find_up_to_zero: "(\<And>i. P i \<Longrightarrow> i = 0) \<Longrightarrow> find P [0 ..< Suc n] = find P [0 :: nat]"
proof -
  assume *: "\<And>i. P i \<Longrightarrow> i = 0"
  then have "find P [Suc 0 ..< Suc n] = None" by (auto simp: find_None_iff)
  then show ?thesis by (simp add: upt_conv_Cons del: upt_Suc)
qed

lemma find_positions:
  assumes "wf_alts bs" "digest bs = (start, anch, must, mlen)"
  shows "find (\<lambda>i. match_at al s bs i \<noteq> None) (positions (compiled sp ep bs) s) = first_match al s bs"
proof -
  let ?P = "\<lambda>i. match_at al s bs i \<noteq> None"
  have p: "positions (compiled sp ep bs) s = (if anch then [0]
     else if start \<noteq> 0 then filter (\<lambda>i. s ! i = start) [0 ..< length s] else [0 ..< length s + 1])"
    using assms(2) by (simp add: positions_def compiled_def)
  consider "anch" | "\<not> anch" "start \<noteq> 0" | "\<not> anch" "start = 0" by blast
  then show ?thesis
  proof cases
    case 1
    then have "find ?P [0 ..< Suc (length s)] = find ?P [0]"
      using assms(2) by (intro find_up_to_zero anchor_test) simp_all
    then show ?thesis using 1 p by (simp add: first_match_def del: upt_Suc)
  next
    case 2
    have "find ?P (filter (\<lambda>i. s ! i = start) [0 ..< length s]) = find ?P [0 ..< length s]"
      using start_test [OF assms 2(2)] by (intro find_filter) (simp add: peek_def)
    also have "\<dots> = find ?P ([0 ..< length s] @ [length s])"
    proof -
      have "match_at al s bs (length s) = None" using start_test [OF assms 2(2)] by blast
      then have "find ?P (xs @ [length s]) = find ?P xs" for xs by (induction xs) auto
      then show ?thesis by simp
    qed
    finally show ?thesis using 2 p by (simp add: first_match_def)
  next
    case 3
    then show ?thesis using p by (simp add: first_match_def)
  qed
qed

lemma positions_bound: "i \<in> set (positions prog s) \<Longrightarrow> i \<le> length s"
  by (auto simp: positions_def split: if_splits)

lemma common_bound:
  fixes Q :: "nat \<Rightarrow> nat \<Rightarrow> bool"
  assumes "finite A" "\<And>i. i \<in> A \<Longrightarrow> \<exists>n. \<forall>k \<ge> n. Q k i"
  shows "\<exists>n. \<forall>k \<ge> n. \<forall>i \<in> A. Q k i"
  using assms
proof (induction A rule: finite_induct)
  case (insert a A)
  obtain n where n: "\<forall>k \<ge> n. \<forall>i \<in> A. Q k i" using insert.IH insert.prems by blast
  obtain n' where n': "\<forall>k \<ge> n'. Q k a" using insert.prems by blast
  have "\<forall>k \<ge> max n n'. \<forall>i \<in> insert a A. Q k i" using n n' by simp
  then show ?case ..
qed simp

lemma program_compiled [simp]: "program (compiled sp ep bs) = layout bs"
  by (simp add: compiled_def split: prod.split)

lemma attempt_program [simp]: "program (snd (attempt prog r i)) = program prog"
  by (simp add: attempt_def split: option.split)

lemma regexec_compiled:
  fixes sp ep :: "nat option list"
  assumes "0 \<notin> set s" "bs \<noteq> []" "wf_alts bs" "length (layout bs) < 32767"
  defines "prog \<equiv> compiled sp ep bs"
  shows "\<exists>n. \<forall>k \<ge> n. case first_match al s bs of
      Some i \<Rightarrow> regexec k al (Some prog) (Some s) = Some (True, Some (snd (attempt prog (match_at al s bs i) i)))
    | None \<Rightarrow> \<exists>sp' ep'. regexec k al (Some prog) (Some s) = Some (False, Some (prog\<lparr> startp := sp', endp := ep' \<rparr>))"
proof -
  obtain start anch must mlen where d: "digest bs = (start, anch, must, mlen)" by (cases "digest bs") auto
  have small: "len_alts bs + 3 < 65536" "len_alts bs < 65536" using assms(4) by (simp_all add: length_layout)
  have "\<exists>n. \<forall>k \<ge> n. \<forall>p. program p = layout bs \<longrightarrow> regtry k al p s i = Some (attempt p (match_at al s bs i) i)"
    if "i \<le> length s" for i
  proof -
    have y: "gives al s (fresh i) (layout bs) 1 i (match_at al s bs i)"
      using match_at_runs [OF assms(1-3) small(1) that] .
    then obtain n where n: "regmatch n al (layout bs) s (Some 1) (fresh i) = outcome_of (match_at al s bs i)"
      by (auto simp: gives_def)
    have "regtry k al p s i = Some (attempt p (match_at al s bs i) i)" if "n \<le> k" "program p = layout bs" for k p
      using regmatch_more [OF n that(1)] that(2) unfolding fresh_def
      by (cases "match_at al s bs i") (simp_all add: regtry_def attempt_def Let_def)
    then show ?thesis by blast
  qed
  then have "\<exists>n. \<forall>k \<ge> n. \<forall>i \<in> set (positions prog s). \<forall>p. program p = layout bs
      \<longrightarrow> regtry k al p s i = Some (attempt p (match_at al s bs i) i)"
    using positions_bound by (intro common_bound) blast+
  then obtain n where n: "\<And>k i p. n \<le> k \<Longrightarrow> i \<in> set (positions prog s) \<Longrightarrow> program p = layout bs
      \<Longrightarrow> regtry k al p s i = Some (attempt p (match_at al s bs i) i)" by blast
  have parts: "regmust prog = must" "regmlen prog = mlen" using d by (simp_all add: prog_def compiled_def)
  obtain t where t: "(case regmust prog of
           None \<Rightarrow> Some True
         | Some p \<Rightarrow> (case cstring (layout bs) p of
               None \<Rightarrow> None | Some w \<Rightarrow> Some (must_appear (peek w 0) w (regmlen prog) s))) = Some t"
      "\<And>i. i \<le> length s \<Longrightarrow> match_at al s bs i \<noteq> None \<Longrightarrow> t"
    using must_test [OF assms(3,2) small(2) d, of s al] unfolding parts by blast
  have same: "prog = prog\<lparr> startp := startp prog, endp := endp prog \<rparr>" by simp
  have magic: "program prog \<noteq> []" "program prog ! 0 = MAGIC" "program prog = layout bs"
    by (simp_all add: prog_def layout_def)
  have exec: "regexec k al (Some prog) (Some s) =
      (if t then map_option (map_prod id Some) (regtries k al s (positions prog s) prog) else Some (False, Some prog))" for k
    using magic(1,2) unfolding regexec_def positions_def prod.case option.case magic(3) t(1) by (cases t) simp_all
  have "regtries k al s (positions prog s) prog = Some (case first_match al s bs of
      Some i \<Rightarrow> attempt prog (match_at al s bs i) i
    | None \<Rightarrow> if positions prog s = [] then (False, prog) else attempt prog None 0)" if "n \<le> k" for k
    using regtries_find [of "positions prog s" prog k al s "match_at al s bs"] n [OF that] magic(3)
      find_positions [OF assms(3) d, of al s sp ep] by (simp add: prog_def)
  note tries = this
  have hit: "match_at al s bs i \<noteq> None \<and> i \<le> length s" if "first_match al s bs = Some i" for i
    using that unfolding first_match_def find_Some_iff by (auto simp: less_Suc_eq_le simp del: upt_Suc)
  show ?thesis
  proof (intro exI allI impI)
    fix k assume k: "n \<le> k"
    show "case first_match al s bs of
      Some i \<Rightarrow> regexec k al (Some prog) (Some s) = Some (True, Some (snd (attempt prog (match_at al s bs i) i)))
    | None \<Rightarrow> \<exists>sp' ep'. regexec k al (Some prog) (Some s) = Some (False, Some (prog\<lparr> startp := sp', endp := ep' \<rparr>))"
    proof (cases "first_match al s bs")
      case (Some i)
      then obtain st where "match_at al s bs i = Some st" "t" using hit [OF Some] t(2) by auto
      then show ?thesis using exec tries [OF k] Some by (simp add: attempt_def)
    next
      case None
      show ?thesis
      proof (cases "t \<and> positions prog s \<noteq> []")
        case True
        then have "regexec k al (Some prog) (Some s) = Some (False, Some (prog\<lparr> startp := replicate NSUBEXP None, endp := replicate NSUBEXP None \<rparr>))"
          using exec tries [OF k] None by (simp add: attempt_def)
        then show ?thesis unfolding None option.case by blast
      next
        case False
        then have "regexec k al (Some prog) (Some s) = Some (False, Some prog)"
          using exec tries [OF k] None by auto
        then show ?thesis using same unfolding None option.case by metis
      qed
    qed
  qed
qed

lemma first_match_language:
  assumes "wf_alts bs"
  shows "first_match al s bs \<noteq> None \<longleftrightarrow> (\<exists>i j. i \<le> j \<and> j \<le> length s \<and> mem_alts al s bs i j)"
proof -
  have "first_match al s bs \<noteq> None \<longleftrightarrow> (\<exists>i \<le> length s. match_at al s bs i \<noteq> None)"
    by (auto simp: first_match_def find_None_iff less_Suc_eq_le simp del: upt_Suc)
  also have "\<dots> \<longleftrightarrow> (\<exists>i \<le> length s. \<exists>j \<le> length s. mem_alts al s bs i j)"
    using match_at_mem [OF assms] by blast
  also have "\<dots> \<longleftrightarrow> (\<exists>i j. i \<le> j \<and> j \<le> length s \<and> mem_alts al s bs i j)"
    using mem_bounds(3) [OF _ _ assms] by (meson le_trans)
  finally show ?thesis .
qed

section \<open>The subexpressions of a match\<close>

text \<open>
  While the matcher returns from position \<open>i\<close>: a recorded start has a recorded end that does not lie before
  it, an end without a start belongs to parentheses that are still open (\<open>w\<close>) and lies after \<open>i\<close>.
\<close>

definition pair_ok :: "nat \<Rightarrow> bool \<Rightarrow> nat \<Rightarrow> nat option \<Rightarrow> nat option \<Rightarrow> bool" where
  "pair_ok e w i a b = (case (a, b) of
       (None, None) \<Rightarrow> \<not> w
     | (None, Some b) \<Rightarrow> w \<and> i \<le> b \<and> b \<le> e
     | (Some a, None) \<Rightarrow> False
     | (Some a, Some b) \<Rightarrow> a \<le> b \<and> b \<le> e)"

definition recorded :: "nat \<Rightarrow> nat set \<Rightarrow> nat \<Rightarrow> mstate \<Rightarrow> bool" where
  "recorded e N i st \<longleftrightarrow> i \<le> reginput st \<and> reginput st \<le> e
     \<and> length (regstartp st) = NSUBEXP \<and> length (regendp st) = NSUBEXP
     \<and> (\<forall>n < NSUBEXP. pair_ok e (n \<in> N) i (regstartp st ! n) (regendp st ! n))"

lemma pair_ok_mono: "pair_ok e w j a b \<Longrightarrow> i \<le> j \<Longrightarrow> pair_ok e w i a b"
  by (simp add: pair_ok_def split: option.splits)

lemma pair_ok_end: "pair_ok e w j a b \<Longrightarrow> j \<le> e \<Longrightarrow> pair_ok e True j a (if b = None then Some j else b)"
  by (cases a; cases b) (simp_all add: pair_ok_def)

lemma pair_ok_start: "pair_ok e True i a b \<Longrightarrow> pair_ok e w i (if a = None then Some i else a) b"
  by (cases a; cases b) (simp_all add: pair_ok_def)

lemma recordedD:
  assumes "recorded e N i st" "n < NSUBEXP"
  shows "length (regstartp st) = NSUBEXP" "length (regendp st) = NSUBEXP"
    "pair_ok e (n \<in> N) i (regstartp st ! n) (regendp st ! n)"
  using assms by (simp_all add: recorded_def)

lemma recordedI:
  assumes "i \<le> reginput st" "reginput st \<le> e" "length (regstartp st) = NSUBEXP" "length (regendp st) = NSUBEXP"
    "\<And>n. n < NSUBEXP \<Longrightarrow> pair_ok e (n \<in> N) i (regstartp st ! n) (regendp st ! n)"
  shows "recorded e N i st"
  using assms by (simp add: recorded_def)

lemma recorded_mono: "recorded e N j st \<Longrightarrow> i \<le> j \<Longrightarrow> recorded e N i st"
  using pair_ok_mono unfolding recorded_def by fastforce

lemma recorded_fresh: "j \<le> e \<Longrightarrow> recorded e {} j (fresh j)"
  by (simp add: recorded_def fresh_def pair_ok_def)

lemma set_end_fields:
  "reginput (set_end n j st) = reginput st" "regstartp (set_end n j st) = regstartp st"
  "n < length (regendp st) \<Longrightarrow> regendp (set_end n j st) ! k
    = (if k = n then if regendp st ! n = None then Some j else regendp st ! n else regendp st ! k)"
  "length (regendp (set_end n j st)) = length (regendp st)"
  by (simp_all add: set_end_def)

lemma set_start_fields:
  "reginput (set_start n i st) = reginput st" "regendp (set_start n i st) = regendp st"
  "n < length (regstartp st) \<Longrightarrow> regstartp (set_start n i st) ! k
    = (if k = n then if regstartp st ! n = None then Some i else regstartp st ! n else regstartp st ! k)"
  "length (regstartp (set_start n i st)) = length (regstartp st)"
  by (simp_all add: set_start_def)

lemma recorded_end:
  assumes "recorded e N j st" "n < NSUBEXP" "j \<le> e"
  shows "recorded e (insert n N) j (set_end n j st)"
proof (rule recordedI)
  fix k :: nat
  assume k: "k < NSUBEXP"
  note st = recordedD [OF assms(1) k] recordedD [OF assms(1,2)]
  show "pair_ok e (k \<in> insert n N) j (regstartp (set_end n j st) ! k) (regendp (set_end n j st) ! k)"
  proof (cases "k = n")
    case True
    then show ?thesis using st assms(2,3) pair_ok_end [OF st(6)] by (simp add: set_end_fields)
  next
    case False
    then show ?thesis using st assms(2) by (simp add: set_end_fields)
  qed
qed (use assms(1) in \<open>simp_all add: set_end_fields recorded_def\<close>)

lemma recorded_start:
  assumes "recorded e (insert n N) i st" "n < NSUBEXP"
  shows "recorded e N i (set_start n i st)"
proof (rule recordedI)
  fix k :: nat
  assume k: "k < NSUBEXP"
  note st = recordedD [OF assms(1) k] recordedD [OF assms(1,2)]
  show "pair_ok e (k \<in> N) i (regstartp (set_start n i st) ! k) (regendp (set_start n i st) ! k)"
  proof (cases "k = n")
    case True
    have "pair_ok e True i (regstartp st ! n) (regendp st ! n)" using st(6) by simp
    from pair_ok_start [OF this] show ?thesis using True st(1) assms(2) by (simp add: set_start_fields)
  next
    case False
    then show ?thesis using st assms(2) by (simp add: set_start_fields)
  qed
qed (use assms(1) in \<open>simp_all add: set_start_fields recorded_def\<close>)

definition records :: "u8 list \<Rightarrow> ((nat \<Rightarrow> mstate option) \<Rightarrow> nat \<Rightarrow> mstate option) \<Rightarrow> bool" where
  "records s f \<longleftrightarrow> (\<forall>k i N. i \<le> length s \<longrightarrow> (\<forall>j st. i \<le> j \<longrightarrow> j \<le> length s \<longrightarrow> k j = Some st \<longrightarrow> recorded (length s) N j st)
     \<longrightarrow> (\<forall>st. f k i = Some st \<longrightarrow> recorded (length s) N i st))"

lemma recordsI:
  assumes "\<And>k i N st. i \<le> length s \<Longrightarrow> (\<And>j st. i \<le> j \<Longrightarrow> j \<le> length s \<Longrightarrow> k j = Some st \<Longrightarrow> recorded (length s) N j st)
    \<Longrightarrow> f k i = Some st \<Longrightarrow> recorded (length s) N i st"
  shows "records s f"
  unfolding records_def using assms by blast

lemma recordsD:
  assumes "records s f" "i \<le> length s" "f k i = Some st"
    "\<And>j st. i \<le> j \<Longrightarrow> j \<le> length s \<Longrightarrow> k j = Some st \<Longrightarrow> recorded (length s) N j st"
  shows "recorded (length s) N i st"
  using assms unfolding records_def by blast

lemma iter_records:
  assumes "records s f" "i \<le> length s" "iter f k n i = Some st"
    "\<And>j st. i \<le> j \<Longrightarrow> j \<le> length s \<Longrightarrow> k j = Some st \<Longrightarrow> recorded (length s) N j st"
  shows "recorded (length s) N i st"
  using assms(2-)
proof (induction n arbitrary: i st)
  case (Suc n)
  show ?case
  proof (cases "f (iter f k n) i")
    case None
    then show ?thesis using Suc.prems by simp
  next
    case (Some st')
    have "recorded (length s) N i st'"
    proof (rule recordsD [OF assms(1) Suc.prems(1) Some])
      show "recorded (length s) N j st" if j: "i \<le> j" "j \<le> length s" "iter f k n j = Some st" for j st
        using Suc.prems(3) j(1) by (intro Suc.IH [OF j(2,3)]) simp
    qed
    then show ?thesis using Suc.prems(2) Some by simp
  qed
qed simp

lemma star_records: "records s f \<Longrightarrow> records s (star (length s) f)"
  unfolding star_def by (rule recordsI) (rule iter_records)

lemma records_then:
  assumes "records s f" "records s g"
  shows "records s (\<lambda>k. f (g k))"
proof (rule recordsI)
  fix k i N st
  assume *: "i \<le> length s" "f (g k) i = Some st"
    "\<And>j st. i \<le> j \<Longrightarrow> j \<le> length s \<Longrightarrow> k j = Some st \<Longrightarrow> recorded (length s) N j st"
  show "recorded (length s) N i st"
  proof (rule recordsD [OF assms(1) *(1,2)])
    show "recorded (length s) N j st" if j: "i \<le> j" "j \<le> length s" "g k j = Some st" for j st
      using *(3) j(1) by (intro recordsD [OF assms(2) j(2,3)]) simp
  qed
qed

lemma records_or:
  assumes "records s f" "records s g"
  shows "records s (\<lambda>k i. orelse (f k i) (g k i))"
proof (rule recordsI)
  fix k i N st
  assume *: "i \<le> length s" "orelse (f k i) (g k i) = Some st"
    "\<And>j st. i \<le> j \<Longrightarrow> j \<le> length s \<Longrightarrow> k j = Some st \<Longrightarrow> recorded (length s) N j st"
  then show "recorded (length s) N i st"
    using recordsD [OF assms(1) *(1)] recordsD [OF assms(2) *(1)] by (cases "f k i") auto
qed

lemma records_skip: "records s (\<lambda>k. k)"
  by (rule recordsI) simp

text \<open>A node that tests and moves by \<open>d\<close>.\<close>

lemma records_move:
  assumes "\<And>k i. f k i = (if P i then k (i + d) else None)" "\<And>i. i \<le> length s \<Longrightarrow> P i \<Longrightarrow> i + d \<le> length s"
  shows "records s f"
proof (rule recordsI)
  fix k i N st
  assume *: "i \<le> length s" "f k i = Some st"
    "\<And>j st. i \<le> j \<Longrightarrow> j \<le> length s \<Longrightarrow> k j = Some st \<Longrightarrow> recorded (length s) N j st"
  then have "P i" "k (i + d) = Some st" using assms(1) by (auto split: if_splits)
  then have "recorded (length s) N (i + d) st" using *(3) assms(2) [OF *(1)] by simp
  then show "recorded (length s) N i st" by (rule recorded_mono) simp
qed

lemma records_group:
  assumes "records s (m_alts al s bs)" "n < NSUBEXP"
  shows "records s (m_node al s (Group n bs))"
proof (rule recordsI)
  fix k i N st
  assume *: "i \<le> length s" "m_node al s (Group n bs) k i = Some st"
    "\<And>j st. i \<le> j \<Longrightarrow> j \<le> length s \<Longrightarrow> k j = Some st \<Longrightarrow> recorded (length s) N j st"
  obtain st' where st': "m_alts al s bs (\<lambda>j. map_option (set_end n j) (k j)) i = Some st'" "st = set_start n i st'"
    using *(2) by auto
  have "recorded (length s) (insert n N) i st'"
  proof (rule recordsD [OF assms(1) *(1) st'(1)])
    fix j st
    assume j: "i \<le> j" "j \<le> length s" "map_option (set_end n j) (k j) = Some st"
    then obtain st0 where "k j = Some st0" "st = set_end n j st0" by auto
    then show "recorded (length s) (insert n N) j st" using *(3) [OF j(1,2)] recorded_end assms(2) j(2) by simp
  qed
  then show "recorded (length s) N i st" using recorded_start assms(2) st'(2) by simp
qed

lemma m_records:
  "wf x \<longrightarrow> records s (m_node al s x)"
  "wf_seq xs \<longrightarrow> records s (m_seq al s xs)"
  "wf_alts bs \<longrightarrow> records s (m_alts al s bs)"
proof (induction x and xs and bs rule: wf_wf_seq_wf_alts.induct)
  case (1 b)
  show ?case by (intro impI records_move [where d = 1 and P = "\<lambda>i. i < length s \<and> s ! i \<in> set b"]) auto
next
  case (2 b)
  show ?case by (intro impI records_move [where d = 1 and P = "\<lambda>i. i < length s \<and> s ! i \<notin> set b"]) auto
next
  case (3 b)
  have "i + length b \<le> length s" if "i \<le> length s" "take (length b) (drop i s) = b" for i
    using take_drop_length [OF that(2)] that(1) by (cases "b = []") auto
  then show ?case by (intro impI records_move [where d = "length b" and P = "\<lambda>i. take (length b) (drop i s) = b"]) auto
next
  case (4 n bs)
  then show ?case by (intro impI records_group) auto
next
  case (5 g x)
  have "m_node al s (StarOf g x) = star (length s) (m_node al s x)" by (intro ext) simp
  then show ?case using 5 star_records by simp
next
  case (6 g x)
  have "m_node al s (PlusOf g x) = (\<lambda>k. m_node al s x (star (length s) (m_node al s x) k))" by (intro ext) simp
  then show ?case using 6 records_then star_records by simp
next
  case (7 x)
  have "m_node al s (Opt x) = (\<lambda>k i. orelse (m_node al s x k i) (k i))" by (intro ext) simp
  then show ?case using 7 records_or [OF _ records_skip] by simp
next
  case 9
  have "m_seq al s [] = (\<lambda>k. k)" by (intro ext) simp
  then show ?case using records_skip by simp
next
  case (10 x xs)
  have "m_seq al s (x # xs) = (\<lambda>k. m_node al s x (m_seq al s xs k))" by (intro ext) simp
  then show ?case using 10 records_then by simp
next
  case 11
  show ?case by (intro impI recordsI) simp
next
  case (12 b bs)
  have "m_alts al s (b # bs) = (\<lambda>k i. orelse (m_seq al s b k i) (m_alts al s bs k i))" by (intro ext) simp
  then show ?case using 12 records_or by simp
next
  case "8_1"
  show ?case by (intro impI records_move [where d = 0 and P = "\<lambda>i. i = 0"]) auto
next
  case "8_2"
  show ?case by (intro impI records_move [where d = 0 and P = "\<lambda>i. i = length s"]) auto
next
  case "8_3"
  show ?case by (intro impI records_move [where d = 1 and P = "\<lambda>i. i < length s"]) auto
next
  case "8_4"
  show ?case by (intro impI records_move [where d = 0 and P = "\<lambda>i. word_start al s i"]) auto
next
  case "8_5"
  show ?case by (intro impI records_move [where d = 0 and P = "\<lambda>i. \<not> wordchar al (peek s i)"]) auto
qed

lemma match_at_recorded:
  assumes "wf_alts bs" "i \<le> length s" "match_at al s bs i = Some st"
  shows "recorded (length s) {} i st"
proof -
  have "records s (m_alts al s bs)" using m_records(3) assms(1) by blast
  from recordsD [OF this assms(2,3) [unfolded match_at_def]] show ?thesis
    using recorded_fresh by blast
qed

text \<open>What a program holds after a match in a subject of length \<open>e\<close>.\<close>

definition spans :: "nat \<Rightarrow> regexp \<Rightarrow> bool" where
  "spans e prog \<longleftrightarrow> length (startp prog) = NSUBEXP \<and> length (endp prog) = NSUBEXP
     \<and> (\<forall>n < NSUBEXP. case (startp prog ! n, endp prog ! n) of
           (Some a, Some b) \<Rightarrow> a \<le> b \<and> b \<le> e
         | (None, None) \<Rightarrow> 0 < n
         | _ \<Rightarrow> False)"

lemma attempt_spans:
  assumes "recorded e {} i st"
  shows "spans e (snd (attempt prog (Some st) i))"
proof -
  have "case (((regstartp st)[0 := Some i]) ! n, ((regendp st)[0 := Some (reginput st)]) ! n) of
      (Some a, Some b) \<Rightarrow> a \<le> b \<and> b \<le> e | (None, None) \<Rightarrow> 0 < n | _ \<Rightarrow> False" if "n < NSUBEXP" for n
  proof (cases "n = 0")
    case True
    then show ?thesis using assms by (simp add: recorded_def)
  next
    case False
    then show ?thesis using recordedD(3) [OF assms that] by (simp add: pair_ok_def split: option.splits)
  qed
  then show ?thesis using assms by (simp add: spans_def attempt_def recorded_def)
qed

section \<open>regsub\<close>

abbreviation (input) c_amp :: u8 where "c_amp \<equiv> 0x26"

text \<open>\<open>strncpy\<close> of \<open>n\<close> bytes from position \<open>i\<close> of the subject: it pads with NULs behind its end.\<close>

definition strncpy_from :: "u8 list \<Rightarrow> nat \<Rightarrow> nat \<Rightarrow> u8 list" where
  "strncpy_from s i n = (let t = take n (drop i s) in t @ replicate (n - length t) 0)"

definition is_digit :: "u8 \<Rightarrow> bool" where
  "is_digit c \<longleftrightarrow> 0x30 \<le> c \<and> c \<le> 0x39"

text \<open>
  The text of subexpression \<open>no\<close>, and whether \<open>strncpy\<close> ran into the end of the subject. \<open>None\<close> is
  undefined behaviour: a match that ends before it starts, or starts outside the subject.
\<close>

definition copied :: "regexp \<Rightarrow> u8 list \<Rightarrow> nat \<Rightarrow> (bool \<times> u8 list) option" where
  "copied prog s no =
     (if no < length (startp prog) \<and> no < length (endp prog) then
        (case (startp prog ! no, endp prog ! no) of
           (Some a, Some b) \<Rightarrow>
             if a \<le> b \<and> a \<le> length s then
               (let t = strncpy_from s a (b - a) in Some (b \<noteq> a \<and> last t = 0, t))
             else None
         | _ \<Rightarrow> Some (False, []))
      else None)"

text \<open>
  The loop: \<open>dst\<close> has the bytes written so far; the result is the message given to \<open>regerror\<close>, if
  any, and the bytes at the destination.
\<close>

function (sequential) regsub_loop :: "regexp \<Rightarrow> u8 list \<Rightarrow> u8 list \<Rightarrow> u8 list \<Rightarrow> (string option \<times> u8 list) option" where
  "regsub_loop prog s [] dst = Some (None, dst @ [0])"
| "regsub_loop prog s (c # src) dst =
     (let (no, src) = (if c = c_amp then (Some 0, src)
          else if c = c_backslash \<and> src \<noteq> [] \<and> is_digit (hd src) then (Some (unat (hd src - 0x30)), tl src)
          else (None, src))
      in case no of
           None \<Rightarrow>
             if c = c_backslash \<and> src \<noteq> [] \<and> (hd src = c_backslash \<or> hd src = c_amp)
             then regsub_loop prog s (tl src) (dst @ [hd src])
             else regsub_loop prog s src (dst @ [c])
         | Some no \<Rightarrow> (case copied prog s no of
               None \<Rightarrow> None
             | Some (damaged, t) \<Rightarrow>
                 if damaged then Some (Some ''damaged match string'', dst @ t)
                 else regsub_loop prog s src (dst @ t)))"
  by pat_completeness auto
termination
  by (relation "measure (\<lambda>(prog, s, src, dst). length src)") (auto split: if_splits)

definition regsub :: "regexp option \<Rightarrow> u8 list option \<Rightarrow> bool \<Rightarrow> u8 list \<Rightarrow> (string option \<times> u8 list) option" where
  "regsub prog source dest s = (case (prog, source) of
       (Some prog, Some source) \<Rightarrow>
         if \<not> dest then Some (Some ''NULL parm to regsub'', [])
         else if program prog = [] then None
         else if program prog ! 0 \<noteq> MAGIC then Some (Some ''damaged regexp fed to regsub'', [])
         else regsub_loop prog s source []
     | _ \<Rightarrow> Some (Some ''NULL parm to regsub'', []))"

text \<open>The pieces of a template, and the text a piece stands for after a match.\<close>

datatype piece = Sub nat | Chr u8

fun template :: "u8 list \<Rightarrow> piece list" where
  "template [] = []"
| "template [c] = [if c = c_amp then Sub 0 else Chr c]"
| "template (c # d # cs) =
     (if c = c_amp then Sub 0 # template (d # cs)
      else if c = c_backslash \<and> is_digit d then Sub (unat (d - 0x30)) # template cs
      else if c = c_backslash \<and> (d = c_backslash \<or> d = c_amp) then Chr d # template cs
      else Chr c # template (d # cs))"

definition piece_text :: "regexp \<Rightarrow> u8 list \<Rightarrow> piece \<Rightarrow> u8 list" where
  "piece_text prog s p = (case p of
       Chr c \<Rightarrow> [c]
     | Sub n \<Rightarrow> (case (startp prog ! n, endp prog ! n) of
           (Some a, Some b) \<Rightarrow> take (b - a) (drop a s)
         | _ \<Rightarrow> []))"

lemma digit_number: "is_digit d \<Longrightarrow> unat (d - 0x30) < NSUBEXP"
proof -
  assume *: "is_digit d"
  then have "unat d \<le> 57" "48 \<le> unat d" by (simp_all add: is_digit_def word_le_nat_alt)
  then show ?thesis using * by (simp add: is_digit_def unat_sub)
qed

lemma copied_piece:
  assumes "spans (length s) prog" "0 \<notin> set s" "n < NSUBEXP"
  shows "copied prog s n = Some (False, piece_text prog s (Sub n))"
proof -
  have len: "n < length (startp prog)" "n < length (endp prog)" using assms(1,3) by (simp_all add: spans_def)
  have at: "case (startp prog ! n, endp prog ! n) of
      (Some a, Some b) \<Rightarrow> a \<le> b \<and> b \<le> length s | (None, None) \<Rightarrow> 0 < n | _ \<Rightarrow> False"
    using assms(1,3) unfolding spans_def by blast
  show ?thesis
  proof (cases "startp prog ! n")
    case None
    then show ?thesis using at len by (simp add: copied_def piece_text_def split: option.splits)
  next
    case (Some a)
    then obtain b where b: "endp prog ! n = Some b" "a \<le> b" "b \<le> length s" using at by (auto split: option.splits)
    let ?t = "take (b - a) (drop a s)"
    have t: "strncpy_from s a (b - a) = ?t" using b by (simp add: strncpy_from_def)
    have "last ?t \<noteq> 0" if "b \<noteq> a"
    proof -
      have "last ?t \<in> set ?t" using that b by (intro last_in_set) auto
      then show ?thesis using assms(2) by (metis in_set_dropD in_set_takeD)
    qed
    then show ?thesis using Some b len t by (cases "b = a") (simp_all add: copied_def piece_text_def Let_def)
  qed
qed

lemma regsub_loop_template:
  assumes "spans (length s) prog" "0 \<notin> set s"
  shows "regsub_loop prog s src dst = Some (None, dst @ concat (map (piece_text prog s) (template src)) @ [0])"
proof (induction src arbitrary: dst rule: template.induct)
  case (2 c)
  have "piece_text prog s (Chr c) = [c]" by (simp add: piece_text_def)
  then show ?case using copied_piece [OF assms, of 0] by simp
next
  case (3 c d cs)
  have chr: "piece_text prog s (Chr c) = [c]" for c by (simp add: piece_text_def)
  consider "c = c_amp" | "c = c_backslash" "is_digit d" | "c = c_backslash" "\<not> is_digit d" "d = c_backslash \<or> d = c_amp"
    | "c \<noteq> c_amp" "c \<noteq> c_backslash \<or> \<not> is_digit d \<and> d \<noteq> c_backslash \<and> d \<noteq> c_amp" by blast
  then show ?case
  proof cases
    case 1
    then show ?thesis using "3.IH"(1) copied_piece [OF assms, of 0] by simp
  next
    case 2
    then show ?thesis using "3.IH"(2) copied_piece [OF assms digit_number [OF 2(2)]] by simp
  next
    case 3
    then show ?thesis using "3.IH"(3) chr by simp
  next
    case 4
    then have "regsub_loop prog s (c # d # cs) dst = regsub_loop prog s (d # cs) (dst @ [c])"
      "template (c # d # cs) = Chr c # template (d # cs)" by auto
    then show ?thesis using "3.IH"(4) 4 chr by auto
  qed
qed simp

text \<open>A text with its special characters quoted stands for itself.\<close>

fun quote_sub :: "u8 list \<Rightarrow> u8 list" where
  "quote_sub [] = []"
| "quote_sub (c # cs) = (if c = c_amp \<or> c = c_backslash then c_backslash # c # quote_sub cs else c # quote_sub cs)"

lemma template_cons: "c \<noteq> c_amp \<Longrightarrow> c \<noteq> c_backslash \<Longrightarrow> template (c # cs) = Chr c # template cs"
  by (cases cs) simp_all

lemma template_quote: "template (quote_sub cs) = map Chr cs"
proof (induction cs)
  case (Cons c cs)
  have "\<not> is_digit c_amp" "\<not> is_digit c_backslash" by (simp_all add: is_digit_def)
  then show ?case using Cons template_cons by auto
qed simp

section \<open>More fuel\<close>

lemma regmatch_enough: "regmatch n al c s scan st \<noteq> Stuck \<Longrightarrow> n \<le> k \<Longrightarrow> regmatch k al c s scan st = regmatch n al c s scan st"
  using fuel_mono [of n al c s scan st] by (metis le_add_diff_inverse)

lemma regtry_enough: "regtry n al p s i = Some r \<Longrightarrow> n \<le> k \<Longrightarrow> regtry k al p s i = Some r"
proof -
  assume *: "regtry n al p s i = Some r" "n \<le> k"
  then have "regmatch n al (program p) s (Some 1) (fresh i) \<noteq> Stuck"
    by (auto simp: regtry_def fresh_def Let_def split: outcome.splits)
  from regmatch_enough [OF this *(2)] show ?thesis
    using *(1) by (simp add: regtry_def fresh_def Let_def)
qed

lemma regtries_enough: "regtries n al s is p = Some r \<Longrightarrow> n \<le> k \<Longrightarrow> regtries k al s is p = Some r"
proof (induction "is" arbitrary: p)
  case (Cons i "is")
  then obtain b q where b: "regtry n al p s i = Some (b, q)" by (cases "regtry n al p s i") auto
  from regtry_enough [OF this Cons.prems(2)] b show ?case using Cons by (cases b) auto
qed simp

lemma regexec_enough:
  assumes "regexec n al (Some prog) (Some s) = Some r" "n \<le> k"
  shows "regexec k al (Some prog) (Some s) = Some r"
proof -
  have "\<exists>g. \<forall>k. regexec k al (Some prog) (Some s) = (case g of
      None \<Rightarrow> None | Some False \<Rightarrow> Some (False, Some prog)
    | Some True \<Rightarrow> map_option (map_prod id Some) (regtries k al s (positions prog s) prog))"
  proof (cases "program prog \<noteq> [] \<and> program prog ! 0 = MAGIC")
    case True
    then have no: "\<not> program prog = []" "\<not> program prog ! 0 \<noteq> MAGIC" by simp_all
    show ?thesis
      unfolding regexec_def positions_def prod.case option.case if_not_P [OF no(1)] if_not_P [OF no(2)]
      by (intro exI allI) (rule refl)
  next
    case False
    show ?thesis
    proof (cases "program prog = []")
      case True
      then show ?thesis by (intro exI [of _ None]) (simp add: regexec_def)
    next
      case False
      with \<open>\<not> (program prog \<noteq> [] \<and> program prog ! 0 = MAGIC)\<close> show ?thesis
        by (intro exI [of _ "Some False"]) (simp add: regexec_def)
    qed
  qed
  then obtain g where g: "\<And>k. regexec k al (Some prog) (Some s) = (case g of
      None \<Rightarrow> None | Some False \<Rightarrow> Some (False, Some prog)
    | Some True \<Rightarrow> map_option (map_prod id Some) (regtries k al s (positions prog s) prog))" by blast
  consider "g = None" | "g = Some False" | "g = Some True" by (cases g) auto
  then show ?thesis
  proof cases
    case 1
    then show ?thesis using assms(1) unfolding g by simp
  next
    case 2
    then show ?thesis using assms(1) unfolding g by simp
  next
    case 3
    then obtain q where "regtries n al s (positions prog s) prog = Some q" "r = map_prod id Some q"
      using assms(1) unfolding g by auto
    then show ?thesis using regtries_enough [OF _ assms(2)] 3 unfolding g by simp
  qed
qed

text \<open>What a compiled expression is, for the properties.\<close>

lemma regcomp_compiled:
  assumes "0 \<notin> set cs" "regcomp malloc (Some cs) = Inr prog"
  obtains bs sp ep where "parse cs = Inr bs" "bs \<noteq> []" "wf_alts bs" "length (layout bs) < 32767"
    "malloc (length (layout bs)) = Some (sp, ep)" "prog = compiled sp ep bs"
proof -
  obtain bs where bs: "parse cs = Inr bs"
    using assms(2) unfolding regcomp_layout [OF assms(1)] by (cases "parse cs") auto
  then have "length (layout bs) < 32767 \<and> (\<exists>sp ep. malloc (length (layout bs)) = Some (sp, ep) \<and> prog = compiled sp ep bs)"
    using assms(2) unfolding regcomp_layout [OF assms(1)] by (auto split: if_splits option.splits)
  then show ?thesis using that bs parse_result(2) [OF assms(1) bs] by blast
qed

lemma regexec_found:
  assumes "0 \<notin> set cs" "0 \<notin> set s" "regcomp malloc (Some cs) = Inr prog" "regexec n al (Some prog) (Some s) = Some (True, Some prog')"
  shows "\<exists>bs i st. parse cs = Inr bs \<and> first_match al s bs = Some i \<and> i \<le> length s \<and> match_at al s bs i = Some st
    \<and> recorded (length s) {} i st \<and> prog' = snd (attempt prog (Some st) i)"
proof -
  obtain bs sp ep where bs: "parse cs = Inr bs" "bs \<noteq> []" "wf_alts bs" "length (layout bs) < 32767" "prog = compiled sp ep bs"
    using regcomp_compiled [OF assms(1,3)] by metis
  obtain m where m: "\<And>k. m \<le> k \<Longrightarrow> case first_match al s bs of
      Some i \<Rightarrow> regexec k al (Some prog) (Some s) = Some (True, Some (snd (attempt prog (match_at al s bs i) i)))
    | None \<Rightarrow> \<exists>sp' ep'. regexec k al (Some prog) (Some s) = Some (False, Some (prog\<lparr> startp := sp', endp := ep' \<rparr>))"
    using regexec_compiled [OF assms(2) bs(2-4), of al sp ep] bs(5) by blast
  have e: "regexec (max m n) al (Some prog) (Some s) = Some (True, Some prog')"
    using regexec_enough [OF assms(4)] by simp
  show ?thesis
  proof (cases "first_match al s bs")
    case None
    then show ?thesis using m [of "max m n"] e by auto
  next
    case (Some i)
    then have i: "i \<le> length s" "match_at al s bs i \<noteq> None"
      unfolding first_match_def find_Some_iff by (auto simp: less_Suc_eq_le simp del: upt_Suc)
    then obtain st where st: "match_at al s bs i = Some st" by blast
    then have "prog' = snd (attempt prog (Some st) i)" using m [of "max m n"] e Some by simp
    then show ?thesis using bs(1) Some i(1) st match_at_recorded [OF bs(3) i(1) st] by blast
  qed
qed

end
