(* ===== verification/Posix_Engine.thy ===== *)
theory Posix_Engine
  imports Prelude "HOL-Library.Monad_Syntax"
begin

text \<open>
  The matching engine of Spencer's POSIX regular expressions: \<open>cygwin/regex/engine.c\<close>, and
  \<open>regexec.c\<close>, which includes it twice, with two representations of sets of states.

  The macros with which \<open>regexec.c\<close> instantiates the engine are a record of operations,
  \<open>states_ops\<close>, and the routines of the engine take it as an argument; \<open>small\<close> and \<open>large\<close> are the two
  instances. A compiled expression is a strip of operators with operands. The subject is the list
  of bytes from \<open>string\<close> on (without the NUL that ends it, or up to its end under \<open>REG_STARTEND\<close>), a
  pointer into it is its offset from \<open>string\<close>. An outer \<open>None\<close> is an access outside an array, a shift by
  the width of the word or more, or a loop that does not end. Debugging (\<open>REDEBUG\<close>) and assertions are
  not compiled.
\<close>

unbundle bit_operations_syntax

type_synonym byte = "8 word"

section \<open>Strips\<close>

text \<open>A strip operator is the pair of its two parts, \<open>OP\<close> and \<open>OPND\<close>. The operators that the code writes with
  a final underscore are \<open>OBACK\<close>, \<open>OPLUS\<close>, \<open>OQUEST\<close> and \<open>OCH\<close>.\<close>

datatype oper = OEND | OCHAR | OBOL | OEOL | OANY | OANYOF | OBACK | O_BACK | OPLUS | O_PLUS
  | OQUEST | O_QUEST | OLPAREN | ORPAREN | OCH | OOR1 | OOR2 | O_CH | OBOW | OEOW

type_synonym sop = "oper \<times> nat"

abbreviation (input) OP :: "sop \<Rightarrow> oper" where "OP s \<equiv> fst s"
abbreviation (input) OPND :: "sop \<Rightarrow> nat" where "OPND s \<equiv> snd s"

record cset =
  set_ptr :: "byte list"
  set_mask :: byte
  set_hash :: byte
  set_multis :: "byte list"

definition CHIN :: "cset \<Rightarrow> byte \<Rightarrow> bool" where
  "CHIN cs c \<longleftrightarrow> unat c < length (set_ptr cs) \<and> (set_ptr cs ! unat c) AND set_mask cs \<noteq> 0"

record re_guts =
  magic :: int
  strip :: "sop list"
  sets :: "cset list"
  cflags :: int
  firststate :: nat
  laststate :: nat
  iflags :: int
  nbol :: nat
  neol :: nat
  must :: "byte list option"
  nsub :: nat
  backrefs :: bool
  nplus :: nat

definition nstates :: "re_guts \<Rightarrow> nat" where
  "nstates g = length (strip g)"

definition mlen :: "re_guts \<Rightarrow> nat" where
  "mlen g = (case must g of None \<Rightarrow> 0 | Some w \<Rightarrow> length w)"

record regex_t =
  re_magic :: int
  re_g :: re_guts

record regmatch_t =
  rm_so :: int
  rm_eo :: int

text \<open>Flags; a flag is a single bit.\<close>

definition flag_on :: "int \<Rightarrow> int \<Rightarrow> bool" where
  "flag_on flags f \<longleftrightarrow> flags AND f \<noteq> 0"

abbreviation (input) "REG_NOSUB \<equiv> 4 :: int"
abbreviation (input) "REG_NEWLINE \<equiv> 8 :: int"
abbreviation (input) "REG_NOTBOL \<equiv> 1 :: int"
abbreviation (input) "REG_NOTEOL \<equiv> 2 :: int"
abbreviation (input) "REG_STARTEND \<equiv> 4 :: int"
abbreviation (input) "REG_LARGE \<equiv> 0x200 :: int"
abbreviation (input) "REG_BACKR \<equiv> 0x400 :: int"
abbreviation (input) "REG_NOMATCH \<equiv> 1 :: int"
abbreviation (input) "REG_BADPAT \<equiv> 2 :: int"
abbreviation (input) "REG_ESPACE \<equiv> 12 :: int"
abbreviation (input) "REG_INVARG \<equiv> 16 :: int"
abbreviation (input) "BAD \<equiv> 4 :: int"

text \<open>\<open>(('r'^0200)<<8) | 'e'\<close> and \<open>(('R'^0200)<<8)|'E'\<close>.\<close>

abbreviation (input) "MAGIC1 \<equiv> 0xf265 :: int"
abbreviation (input) "MAGIC2 \<equiv> 0xd245 :: int"

text \<open>
  What \<open>step\<close> is given for the character: a \<open>char\<close>, which is signed, or one of the codes above
  \<open>CHAR_MAX\<close>.
\<close>

abbreviation (input) "OUT \<equiv> 128 :: int"
abbreviation (input) "BOL \<equiv> 129 :: int"
abbreviation (input) "EOL \<equiv> 130 :: int"
abbreviation (input) "BOLEOL \<equiv> 131 :: int"
abbreviation (input) "NOTHING \<equiv> 132 :: int"
abbreviation (input) "BOW \<equiv> 133 :: int"
abbreviation (input) "EOW \<equiv> 134 :: int"

definition NONCHAR :: "int \<Rightarrow> bool" where
  "NONCHAR c \<longleftrightarrow> c > 127"

definition char_of_byte :: "byte \<Rightarrow> int" where
  "char_of_byte b = sint b"

definition ISWORD :: "(int \<Rightarrow> bool) \<Rightarrow> int \<Rightarrow> bool" where
  "ISWORD alnum c \<longleftrightarrow> alnum c \<or> c = 0x5f"

section \<open>Sets of states\<close>

text \<open>
  The macros. \<open>FWD (dst, src, n)\<close> and the two like it know the variable \<open>here\<close>, which is an argument;
  \<open>by_ref\<close> says whether \<open>states\<close> is a pointer, so that \<open>step\<close> called with the same set twice
  reads what it writes.
\<close>

record 's states_ops =
  CLEAR :: "nat \<Rightarrow> 's"
  SET1 :: "'s \<Rightarrow> nat \<Rightarrow> 's option"
  ISSET :: "'s \<Rightarrow> nat \<Rightarrow> bool option"
  EQ :: "'s \<Rightarrow> 's \<Rightarrow> bool"
  FWD :: "'s \<Rightarrow> 's \<Rightarrow> nat \<Rightarrow> nat \<Rightarrow> 's option"
  BACK :: "'s \<Rightarrow> 's \<Rightarrow> nat \<Rightarrow> nat \<Rightarrow> 's option"
  ISSETBACK :: "'s \<Rightarrow> nat \<Rightarrow> nat \<Rightarrow> bool option"
  ISSTATEIN :: "'s \<Rightarrow> nat \<Rightarrow> bool option"
  by_ref :: bool

text \<open>The small representation: \<open>here\<close> is the word with the bit of the state.\<close>

definition sbit :: "nat \<Rightarrow> 32 word option" where
  "sbit n = (if n < 32 then Some (push_bit n 1) else None)"

definition small :: "32 word states_ops" where
  "small = \<lparr> CLEAR = (\<lambda>_. 0),
     SET1 = (\<lambda>v n. map_option (\<lambda>b. v OR b) (sbit n)),
     ISSET = (\<lambda>v n. map_option (\<lambda>b. v AND b \<noteq> 0) (sbit n)),
     EQ = (\<lambda>a b. a = b),
     FWD = (\<lambda>dst src here n. do { h \<leftarrow> sbit here; if n < 32 then Some (dst OR push_bit n (src AND h)) else None }),
     BACK = (\<lambda>dst src here n. do { h \<leftarrow> sbit here; if n < 32 then Some (dst OR drop_bit n (src AND h)) else None }),
     ISSETBACK = (\<lambda>v here n. do { h \<leftarrow> sbit here; if n < 32 then Some (v AND drop_bit n h \<noteq> 0) else None }),
     ISSTATEIN = (\<lambda>v here. map_option (\<lambda>h. v AND h \<noteq> 0) (sbit here)),
     by_ref = False \<rparr>"

text \<open>The large one: an array with one byte for each state.\<close>

definition byte_at :: "byte list \<Rightarrow> nat \<Rightarrow> byte option" where
  "byte_at v n = (if n < length v then Some (v ! n) else None)"

definition large :: "byte list states_ops" where
  "large = \<lparr> CLEAR = (\<lambda>n. replicate n 0),
     SET1 = (\<lambda>v n. if n < length v then Some (v[n := 1]) else None),
     ISSET = (\<lambda>v n. map_option (\<lambda>b. b \<noteq> 0) (byte_at v n)),
     EQ = (\<lambda>a b. a = b),
     FWD = (\<lambda>dst src here n. do { b \<leftarrow> byte_at src here; d \<leftarrow> byte_at dst (here + n); Some (dst[here + n := d OR b]) }),
     BACK = (\<lambda>dst src here n. if n \<le> here
       then do { b \<leftarrow> byte_at src here; d \<leftarrow> byte_at dst (here - n); Some (dst[here - n := d OR b]) } else None),
     ISSETBACK = (\<lambda>v here n. if n \<le> here then map_option (\<lambda>b. b \<noteq> 0) (byte_at v (here - n)) else None),
     ISSTATEIN = (\<lambda>v here. map_option (\<lambda>b. b \<noteq> 0) (byte_at v here)),
     by_ref = True \<rparr>"

section \<open>step\<close>

definition sop_at :: "re_guts \<Rightarrow> nat \<Rightarrow> sop option" where
  "sop_at g pc = (if pc < length (strip g) then Some (strip g ! pc) else None)"

text \<open>From an \<open>OOR1\<close> along the \<open>OOR2\<close>s to the \<open>O_CH\<close>.\<close>

partial_function (option) look_och :: "re_guts \<Rightarrow> nat \<Rightarrow> nat option" where
  "look_och g pc = do {
     s \<leftarrow> sop_at g pc;
     if OP s = O_CH then Some pc else look_och g (pc + OPND s)
   }"

text \<open>
  One turn of the loop of \<open>step\<close>: the new \<open>aft\<close> and the next \<open>pc\<close>. \<open>bef = None\<close> says that \<open>bef\<close> is the
  same array as \<open>aft\<close>.
\<close>

definition step_op :: "'s states_ops \<Rightarrow> re_guts \<Rightarrow> 's option \<Rightarrow> int \<Rightarrow> nat \<Rightarrow> 's \<Rightarrow> ('s \<times> nat) option" where
  "step_op R g bef ch pc aft = do {
     s \<leftarrow> sop_at g pc;
     let take = (\<lambda>b. if b then do { a \<leftarrow> FWD R aft (case bef of None \<Rightarrow> aft | Some v \<Rightarrow> v) pc 1; Some (a, pc + 1) }
                     else Some (aft, pc + 1));
     let go = do { a \<leftarrow> FWD R aft aft pc 1; Some (a, pc + 1) };
     case OP s of
       OEND \<Rightarrow> Some (aft, pc + 1)
     | OCHAR \<Rightarrow> take (ch = char_of_byte (of_nat (OPND s)))
     | OBOL \<Rightarrow> take (ch = BOL \<or> ch = BOLEOL)
     | OEOL \<Rightarrow> take (ch = EOL \<or> ch = BOLEOL)
     | OBOW \<Rightarrow> take (ch = BOW)
     | OEOW \<Rightarrow> take (ch = EOW)
     | OANY \<Rightarrow> take (\<not> NONCHAR ch)
     | OANYOF \<Rightarrow> if OPND s < length (sets g) then take (\<not> NONCHAR ch \<and> CHIN (sets g ! OPND s) (word_of_int ch)) else None
     | OBACK \<Rightarrow> go
     | O_BACK \<Rightarrow> go
     | OPLUS \<Rightarrow> go
     | O_PLUS \<Rightarrow> do {
         a \<leftarrow> FWD R aft aft pc 1;
         i \<leftarrow> ISSETBACK R a pc (OPND s);
         a \<leftarrow> BACK R a a pc (OPND s);
         j \<leftarrow> ISSETBACK R a pc (OPND s);
         if \<not> i \<and> j then (if OPND s \<le> pc then Some (a, pc - OPND s) else None)
         else Some (a, pc + 1) }
     | OQUEST \<Rightarrow> do { a \<leftarrow> FWD R aft aft pc 1; a \<leftarrow> FWD R a a pc (OPND s); Some (a, pc + 1) }
     | O_QUEST \<Rightarrow> go
     | OLPAREN \<Rightarrow> go
     | ORPAREN \<Rightarrow> go
     | OCH \<Rightarrow> do { a \<leftarrow> FWD R aft aft pc 1; a \<leftarrow> FWD R a a pc (OPND s); Some (a, pc + 1) }
     | OOR1 \<Rightarrow> do {
         b \<leftarrow> ISSTATEIN R aft pc;
         if b then do { e \<leftarrow> look_och g (pc + 1); a \<leftarrow> FWD R aft aft pc (e - pc); Some (a, pc + 1) }
         else Some (aft, pc + 1) }
     | OOR2 \<Rightarrow> do {
         a \<leftarrow> FWD R aft aft pc 1;
         t \<leftarrow> sop_at g (pc + OPND s);
         if OP t \<noteq> O_CH then do { a \<leftarrow> FWD R a a pc (OPND s); Some (a, pc + 1) } else Some (a, pc + 1) }
     | O_CH \<Rightarrow> go
   }"

partial_function (option) step_loop :: "'s states_ops \<Rightarrow> re_guts \<Rightarrow> nat \<Rightarrow> 's option \<Rightarrow> int \<Rightarrow> nat \<Rightarrow> 's \<Rightarrow> 's option" where
  "step_loop R g stop bef ch pc aft = (if pc = stop then Some aft else do {
     (aft, pc) \<leftarrow> step_op R g bef ch pc aft;
     step_loop R g stop bef ch pc aft })"

definition step :: "'s states_ops \<Rightarrow> re_guts \<Rightarrow> nat \<Rightarrow> nat \<Rightarrow> 's option \<Rightarrow> int \<Rightarrow> 's \<Rightarrow> 's option" where
  "step R g start stop bef ch aft = step_loop R g stop bef ch start aft"

text \<open>\<open>st = step (g, start, stop, st, ch, st)\<close>.\<close>

definition step_same :: "'s states_ops \<Rightarrow> re_guts \<Rightarrow> nat \<Rightarrow> nat \<Rightarrow> int \<Rightarrow> 's \<Rightarrow> 's option" where
  "step_same R g start stop ch st = step R g start stop (if by_ref R then None else Some st) ch st"

section \<open>fast and slow\<close>

text \<open>The parts of \<open>struct match\<close> that are not work space.\<close>

record matchst =
  m_g :: re_guts
  m_eflags :: int
  m_beginp :: nat
  m_endp :: nat
  m_buf :: "byte list"
  m_alnum :: "int \<Rightarrow> bool"

definition byte_of :: "matchst \<Rightarrow> nat \<Rightarrow> byte option" where
  "byte_of m p = byte_at (m_buf m) p"

text \<open>The character before the position and the one at it.\<close>

definition char_before :: "matchst \<Rightarrow> nat \<Rightarrow> int option" where
  "char_before m p = (if p = m_beginp m then Some OUT
     else if p = 0 then None else map_option char_of_byte (byte_of m (p - 1)))"

definition char_here :: "matchst \<Rightarrow> nat \<Rightarrow> int option" where
  "char_here m p = (if p = m_endp m then Some OUT else map_option char_of_byte (byte_of m p))"

text \<open>Is there an EOL or a BOL between \<open>lastc\<close> and \<open>c\<close>, and how often has \<open>step\<close> to be called for it?\<close>

definition line_flag :: "matchst \<Rightarrow> int \<Rightarrow> int \<Rightarrow> int \<times> nat" where
  "line_flag m lastc c =
     (let (flagch, i) =
        (if lastc = 10 \<and> flag_on (cflags (m_g m)) REG_NEWLINE \<or> lastc = OUT \<and> \<not> flag_on (m_eflags m) REG_NOTBOL
         then (BOL, nbol (m_g m)) else (0, 0))
      in if c = 10 \<and> flag_on (cflags (m_g m)) REG_NEWLINE \<or> c = OUT \<and> \<not> flag_on (m_eflags m) REG_NOTEOL
         then (if flagch = BOL then BOLEOL else EOL, i + neol (m_g m)) else (flagch, i))"

text \<open>How about a word boundary?\<close>

definition word_flag :: "matchst \<Rightarrow> int \<Rightarrow> int \<Rightarrow> int \<Rightarrow> int" where
  "word_flag m flagch lastc c =
     (let W = ISWORD (m_alnum m);
          flagch = (if (flagch = BOL \<or> lastc \<noteq> OUT \<and> \<not> W lastc) \<and> (c \<noteq> OUT \<and> W c) then BOW else flagch)
      in if (lastc \<noteq> OUT \<and> W lastc) \<and> (flagch = EOL \<or> c \<noteq> OUT \<and> \<not> W c) then EOW else flagch)"

fun step_times :: "'s states_ops \<Rightarrow> re_guts \<Rightarrow> nat \<Rightarrow> nat \<Rightarrow> int \<Rightarrow> nat \<Rightarrow> 's \<Rightarrow> 's option" where
  "step_times R g start stop ch 0 st = Some st"
| "step_times R g start stop ch (Suc i) st = do { st \<leftarrow> step_same R g start stop ch st; step_times R g start stop ch i st }"

text \<open>The steps for what lies between two characters.\<close>

definition between :: "'s states_ops \<Rightarrow> matchst \<Rightarrow> nat \<Rightarrow> nat \<Rightarrow> int \<Rightarrow> int \<Rightarrow> 's \<Rightarrow> 's option" where
  "between R m startst stopst lastc c st = do {
     let (flagch, i) = line_flag m lastc c;
     st \<leftarrow> step_times R (m_g m) startst stopst flagch i st;
     let flagch = word_flag m flagch lastc c;
     if flagch = BOW \<or> flagch = EOW then step_same R (m_g m) startst stopst flagch st else Some st }"

partial_function (option) fast_loop :: "'s states_ops \<Rightarrow> matchst \<Rightarrow> nat \<Rightarrow> nat \<Rightarrow> nat \<Rightarrow> 's \<Rightarrow> 's \<Rightarrow> nat \<Rightarrow> int \<Rightarrow> nat option
    \<Rightarrow> (nat option \<times> nat option) option" where
  "fast_loop R m stop startst stopst fresh st p c coldp = do {
     let lastc = c;
     c \<leftarrow> char_here m p;
     let coldp = (if EQ R st fresh then Some p else coldp);
     st \<leftarrow> between R m startst stopst lastc c st;
     done \<leftarrow> ISSET R st stopst;
     if done \<or> p = stop then Some (if done then Some (p + 1) else None, coldp)
     else do {
       st \<leftarrow> step R (m_g m) startst stopst (Some st) c fresh;
       fast_loop R m stop startst stopst fresh st (p + 1) c coldp } }"

text \<open>The result of \<open>fast\<close> and the \<open>coldp\<close> it leaves.\<close>

definition fast :: "'s states_ops \<Rightarrow> matchst \<Rightarrow> nat \<Rightarrow> nat \<Rightarrow> nat \<Rightarrow> nat \<Rightarrow> (nat option \<times> nat option) option" where
  "fast R m start stop startst stopst = do {
     c \<leftarrow> char_before m start;
     st \<leftarrow> SET1 R (CLEAR R (nstates (m_g m))) startst;
     st \<leftarrow> step_same R (m_g m) startst stopst NOTHING st;
     fast_loop R m stop startst stopst st st start c None }"

partial_function (option) slow_loop :: "'s states_ops \<Rightarrow> matchst \<Rightarrow> nat \<Rightarrow> nat \<Rightarrow> nat \<Rightarrow> 's \<Rightarrow> nat \<Rightarrow> int \<Rightarrow> nat option
    \<Rightarrow> nat option option" where
  "slow_loop R m stop startst stopst st p c matchp = do {
     let lastc = c;
     c \<leftarrow> char_here m p;
     st \<leftarrow> between R m startst stopst lastc c st;
     done \<leftarrow> ISSET R st stopst;
     let matchp = (if done then Some p else matchp);
     let empty = CLEAR R (nstates (m_g m));
     if EQ R st empty \<or> p = stop then Some matchp
     else do {
       st \<leftarrow> step R (m_g m) startst stopst (Some st) c empty;
       slow_loop R m stop startst stopst st (p + 1) c matchp } }"

definition slow :: "'s states_ops \<Rightarrow> matchst \<Rightarrow> nat \<Rightarrow> nat \<Rightarrow> nat \<Rightarrow> nat \<Rightarrow> nat option option" where
  "slow R m start stop startst stopst = do {
     c \<leftarrow> char_before m start;
     st \<leftarrow> SET1 R (CLEAR R (nstates (m_g m))) startst;
     st \<leftarrow> step_same R (m_g m) startst stopst NOTHING st;
     slow_loop R m stop startst stopst st start c None }"

declare look_och.simps [code] step_loop.simps [code] fast_loop.simps [code] slow_loop.simps [code]

section \<open>dissect\<close>

text \<open>The end of the subexpression that starts at \<open>ss\<close>.\<close>

definition sub_end :: "re_guts \<Rightarrow> nat \<Rightarrow> nat option" where
  "sub_end g ss = do {
     s \<leftarrow> sop_at g ss;
     e \<leftarrow> (if OP s = OPLUS \<or> OP s = OQUEST then Some (ss + OPND s)
          else if OP s = OCH then look_och g ss else Some ss);
     Some (e + 1) }"

text \<open>How much of the subject up to \<open>stp\<close> the subexpression matches so that the rest matches the rest.\<close>

partial_function (option) shrink :: "'s states_ops \<Rightarrow> matchst \<Rightarrow> nat \<Rightarrow> nat \<Rightarrow> nat \<Rightarrow> nat \<Rightarrow> nat \<Rightarrow> nat \<Rightarrow> nat option" where
  "shrink R m stop ss es stopst sp stp = do {
     r \<leftarrow> slow R m sp stp ss es;
     rest \<leftarrow> r;
     tail \<leftarrow> slow R m rest stop es stopst;
     if tail = Some stop then Some rest
     else if rest = 0 then None else shrink R m stop ss es stopst sp (rest - 1) }"

text \<open>The last match of the operand of a plus.\<close>

partial_function (option) last_turn :: "'s states_ops \<Rightarrow> matchst \<Rightarrow> nat \<Rightarrow> nat \<Rightarrow> nat \<Rightarrow> nat \<Rightarrow> nat \<Rightarrow> (nat \<times> nat) option" where
  "last_turn R m rest ssub esub ssp oldssp = do {
     sep \<leftarrow> slow R m ssp rest ssub esub;
     case sep of
       None \<Rightarrow> Some (oldssp, ssp)
     | Some e \<Rightarrow> if e = ssp then Some (ssp, e) else last_turn R m rest ssub esub e ssp }"

text \<open>From one branch of a choice to the next.\<close>

definition next_branch :: "re_guts \<Rightarrow> nat \<Rightarrow> (nat \<times> nat) option" where
  "next_branch g esub = do {
     s \<leftarrow> sop_at g (esub + 1);
     t \<leftarrow> sop_at g (esub + 1 + OPND s);
     if OP t = OOR2 then (if esub + 1 + OPND s = 0 then None else Some (esub + 2, esub + OPND s))
     else Some (esub + 2, esub + 1 + OPND s) }"

partial_function (option) find_branch :: "'s states_ops \<Rightarrow> matchst \<Rightarrow> nat \<Rightarrow> nat \<Rightarrow> nat \<Rightarrow> nat \<Rightarrow> (nat \<times> nat) option" where
  "find_branch R m sp rest ssub esub = do {
     r \<leftarrow> slow R m sp rest ssub esub;
     if r = Some rest then Some (ssub, esub)
     else do { (ssub, esub) \<leftarrow> next_branch (m_g m) esub; find_branch R m sp rest ssub esub } }"

definition set_so :: "nat \<Rightarrow> int \<Rightarrow> regmatch_t list \<Rightarrow> regmatch_t list option" where
  "set_so i v pm = (if i < length pm then Some (pm[i := (pm ! i)\<lparr> rm_so := v \<rparr>]) else None)"

definition set_eo :: "nat \<Rightarrow> int \<Rightarrow> regmatch_t list \<Rightarrow> regmatch_t list option" where
  "set_eo i v pm = (if i < length pm then Some (pm[i := (pm ! i)\<lparr> rm_eo := v \<rparr>]) else None)"

text \<open>The arguments \<open>sp\<close> and \<open>ss\<close> are \<open>start\<close> and \<open>startst\<close>, and advance with the loop.\<close>

partial_function (option) dissect :: "'s states_ops \<Rightarrow> matchst \<Rightarrow> nat \<Rightarrow> nat \<Rightarrow> nat \<Rightarrow> nat \<Rightarrow> regmatch_t list
    \<Rightarrow> (nat \<times> regmatch_t list) option" where
  "dissect R m sp stop ss stopst pm = (if ss \<ge> stopst then Some (sp, pm) else do {
     s \<leftarrow> sop_at (m_g m) ss;
     es \<leftarrow> sub_end (m_g m) ss;
     (sp, pm) \<leftarrow>
      (if OP s \<in> {OCHAR, OANY, OANYOF} then Some (sp + 1, pm)
       else if OP s = OQUEST then do {
         rest \<leftarrow> shrink R m stop ss es stopst sp stop;
         r \<leftarrow> slow R m sp rest (ss + 1) (es - 1);
         if r \<noteq> None then do { (_, pm) \<leftarrow> dissect R m sp rest (ss + 1) (es - 1) pm; Some (rest, pm) }
         else Some (rest, pm) }
       else if OP s = OPLUS then do {
         rest \<leftarrow> shrink R m stop ss es stopst sp stop;
         (ssp, sep) \<leftarrow> last_turn R m rest (ss + 1) (es - 1) sp sp;
         (_, pm) \<leftarrow> dissect R m ssp sep (ss + 1) (es - 1) pm;
         Some (rest, pm) }
       else if OP s = OCH then do {
         rest \<leftarrow> shrink R m stop ss es stopst sp stop;
         (ssub, esub) \<leftarrow> find_branch R m sp rest (ss + 1) (ss + OPND s - 1);
         (_, pm) \<leftarrow> dissect R m sp rest ssub esub pm;
         Some (rest, pm) }
       else if OP s = OLPAREN then do { pm \<leftarrow> set_so (OPND s) (int sp) pm; Some (sp, pm) }
       else if OP s = ORPAREN then do { pm \<leftarrow> set_eo (OPND s) (int sp) pm; Some (sp, pm) }
       else Some (sp, pm));
     dissect R m sp stop es stopst pm })"

section \<open>backref\<close>

text \<open>
  Can a position be at the beginning or the end of a line, of a word? Reading \<open>sp[-1]\<close> at offset 0 is an
  access outside the subject.
\<close>

definition prev_byte :: "matchst \<Rightarrow> nat \<Rightarrow> int option" where
  "prev_byte m sp = (if sp = 0 then None else map_option char_of_byte (byte_of m (sp - 1)))"

definition next_byte :: "matchst \<Rightarrow> nat \<Rightarrow> int option" where
  "next_byte m sp = map_option char_of_byte (byte_of m sp)"

definition newline_flag :: "matchst \<Rightarrow> bool" where
  "newline_flag m = flag_on (cflags (m_g m)) REG_NEWLINE"

definition at_bol :: "matchst \<Rightarrow> nat \<Rightarrow> bool option" where
  "at_bol m sp = (if sp = m_beginp m \<and> \<not> flag_on (m_eflags m) REG_NOTBOL then Some True
     else if sp < m_endp m then do { c \<leftarrow> prev_byte m sp; Some (c = 10 \<and> newline_flag m) }
     else Some False)"

definition at_eol :: "matchst \<Rightarrow> nat \<Rightarrow> bool option" where
  "at_eol m sp = (if sp = m_endp m \<and> \<not> flag_on (m_eflags m) REG_NOTEOL then Some True
     else if sp < m_endp m then do { c \<leftarrow> next_byte m sp; Some (c = 10 \<and> newline_flag m) }
     else Some False)"

definition at_bow :: "matchst \<Rightarrow> nat \<Rightarrow> bool option" where
  "at_bow m sp = do {
     bol \<leftarrow> at_bol m sp;
     b \<leftarrow> (if bol then Some True
          else if sp > m_beginp m then do { c \<leftarrow> prev_byte m sp; Some (\<not> ISWORD (m_alnum m) c) }
          else Some False);
     if b \<and> sp < m_endp m then do { c \<leftarrow> next_byte m sp; Some (ISWORD (m_alnum m) c) } else Some False }"

definition at_eow :: "matchst \<Rightarrow> nat \<Rightarrow> bool option" where
  "at_eow m sp = do {
     eol \<leftarrow> at_eol m sp;
     b \<leftarrow> (if eol then Some True
          else if sp < m_endp m then do { c \<leftarrow> next_byte m sp; Some (\<not> ISWORD (m_alnum m) c) }
          else Some False);
     if b \<and> sp > m_beginp m then do { c \<leftarrow> prev_byte m sp; Some (ISWORD (m_alnum m) c) } else Some False }"

text \<open>
  The easy part of the strip: \<open>Some None\<close> is the return of NULL, \<open>Some (Some (sp, ss, hard))\<close> the
  position reached and the operator there that needs a choice, if \<open>hard\<close>.
\<close>

partial_function (option) easy :: "matchst \<Rightarrow> nat \<Rightarrow> nat \<Rightarrow> nat \<Rightarrow> nat \<Rightarrow> (nat \<times> nat \<times> bool) option option" where
  "easy m stop stopst sp ss = (if ss \<ge> stopst then Some (Some (sp, ss, False)) else do {
     s \<leftarrow> sop_at (m_g m) ss;
     if OP s = OCHAR then
       (if sp = stop then Some None
        else do { b \<leftarrow> byte_of m sp;
          if b \<noteq> of_nat (OPND s) then Some None else easy m stop stopst (sp + 1) (ss + 1) })
     else if OP s = OANY then (if sp = stop then Some None else easy m stop stopst (sp + 1) (ss + 1))
     else if OP s = OANYOF then
       (if OPND s < length (sets (m_g m)) then
          if sp = stop then Some None
          else do { b \<leftarrow> byte_of m sp;
            if \<not> CHIN (sets (m_g m) ! OPND s) b then Some None else easy m stop stopst (sp + 1) (ss + 1) }
        else None)
     else if OP s = OBOL then do { b \<leftarrow> at_bol m sp; if b then easy m stop stopst sp (ss + 1) else Some None }
     else if OP s = OEOL then do { b \<leftarrow> at_eol m sp; if b then easy m stop stopst sp (ss + 1) else Some None }
     else if OP s = OBOW then do { b \<leftarrow> at_bow m sp; if b then easy m stop stopst sp (ss + 1) else Some None }
     else if OP s = OEOW then do { b \<leftarrow> at_eow m sp; if b then easy m stop stopst sp (ss + 1) else Some None }
     else if OP s = O_QUEST then easy m stop stopst sp (ss + 1)
     else if OP s = OOR1 then do {
       t \<leftarrow> sop_at (m_g m) (ss + 1);
       e \<leftarrow> look_och (m_g m) (ss + 1 + OPND t);
       easy m stop stopst sp (e + 1) }
     else Some (Some (sp, ss, True)) })"

text \<open>The end of a copy made for a back reference.\<close>

partial_function (option) find_o_back :: "re_guts \<Rightarrow> nat \<Rightarrow> nat \<Rightarrow> nat option" where
  "find_o_back g i ss = do { s \<leftarrow> sop_at g ss; if s = (O_BACK, i) then Some ss else find_o_back g i (ss + 1) }"

text \<open>
  The length of what subexpression \<open>i\<close> matched, if it did and the text at \<open>sp\<close> is the same; the inner
  \<open>None\<close> is the return of NULL.
\<close>

definition same_text :: "matchst \<Rightarrow> regmatch_t list \<Rightarrow> nat \<Rightarrow> nat \<Rightarrow> nat \<Rightarrow> nat option option" where
  "same_text m pm i sp stop =
     (if i < length pm then
        if rm_eo (pm ! i) = - 1 then Some None
        else
          (let so = rm_so (pm ! i); len = rm_eo (pm ! i) - so in
           if len < 0 \<or> so < 0 \<or> nat (so + len) > length (m_buf m) then None
           else if int sp > int stop - len then Some None
           else if take (nat len) (drop sp (m_buf m)) \<noteq> take (nat len) (drop (nat so) (m_buf m)) then Some None
           else Some (Some (nat len)))
      else None)"

text \<open>
  What \<open>backref\<close> does at an operator that needs a choice: return NULL, go through the branches of a
  choice, or call itself at a position of the subject and of the strip, and when that fails
  return NULL, try another place of the strip, or undo an assignment. The subexpressions and \<open>lastpos\<close> are
  the pair \<open>w\<close>.
\<close>

type_synonym work = "regmatch_t list \<times> nat list"

datatype otherwise = Return_null | Try_at nat nat | Undo_so nat int | Undo_eo nat int

datatype plan = Null | Call nat nat nat work otherwise | Branches_from nat nat

definition hard_op :: "matchst \<Rightarrow> nat \<Rightarrow> nat \<Rightarrow> nat \<Rightarrow> nat \<Rightarrow> work \<Rightarrow> plan option" where
  "hard_op m stop sp ss lev w = do {
     s \<leftarrow> sop_at (m_g m) ss;
     case OP s of
       OBACK \<Rightarrow> do {
         len \<leftarrow> same_text m (fst w) (OPND s) sp stop;
         case len of
           None \<Rightarrow> Some Null
         | Some len \<Rightarrow> do {
             e \<leftarrow> find_o_back (m_g m) (OPND s) ss;
             Some (Call (sp + len) (e + 1) lev w Return_null) } }
     | OQUEST \<Rightarrow> Some (Call sp (ss + 1) lev w (Try_at (ss + OPND s + 1) lev))
     | OPLUS \<Rightarrow>
         if lev + 1 < length (snd w) then
           Some (Call sp (ss + 1) (lev + 1) (fst w, (snd w)[lev + 1 := sp]) Return_null)
         else None
     | O_PLUS \<Rightarrow>
         if lev < length (snd w) \<and> 0 < lev \<and> OPND s \<le> ss then
           if sp = snd w ! lev then Some (Call sp (ss + 1) (lev - 1) w Return_null)
           else Some (Call sp (ss - OPND s + 1) lev (fst w, (snd w)[lev := sp]) (Try_at (ss + 1) (lev - 1)))
         else None
     | OCH \<Rightarrow> Some (Branches_from (ss + 1) (ss + OPND s - 1))
     | OLPAREN \<Rightarrow> do {
         pm \<leftarrow> set_so (OPND s) (int sp) (fst w);
         Some (Call sp (ss + 1) lev (pm, snd w) (Undo_so (OPND s) (rm_so (fst w ! OPND s)))) }
     | ORPAREN \<Rightarrow> do {
         pm \<leftarrow> set_eo (OPND s) (int sp) (fst w);
         Some (Call sp (ss + 1) lev (pm, snd w) (Undo_eo (OPND s) (rm_eo (fst w ! OPND s)))) }
     | _ \<Rightarrow> Some Null }"

text \<open>With \<open>br = Some (ssub, esub)\<close>, \<open>backref\<close> is inside the loop over the branches of a choice.\<close>

partial_function (option) backref :: "matchst \<Rightarrow> nat \<Rightarrow> nat \<Rightarrow> nat \<Rightarrow> nat \<Rightarrow> nat \<Rightarrow> (nat \<times> nat) option
    \<Rightarrow> work \<Rightarrow> (nat option \<times> work) option" where
  "backref m start stop startst stopst lev br w = (if br \<noteq> None then do {
       (dp, w) \<leftarrow> backref m start stop (fst (the br)) (snd (the br)) lev None w;
       if dp \<noteq> None then Some (dp, w)
       else do {
         e \<leftarrow> sop_at (m_g m) (snd (the br));
         if OP e = O_CH then Some (None, w)
         else do {
           b \<leftarrow> next_branch (m_g m) (snd (the br));
           backref m start stop startst stopst lev (Some b) w } } }
   else do {
       r \<leftarrow> easy m stop stopst start startst;
       if r = None then Some (None, w)
       else do {
         (sp, ss, hard) \<leftarrow> r;
         if \<not> hard then Some (if sp \<noteq> stop then None else Some sp, w)
         else do {
           p \<leftarrow> hard_op m stop sp ss lev w;
           case p of
             Null \<Rightarrow> Some (None, w)
           | Branches_from ssub esub \<Rightarrow> backref m sp stop ss stopst lev (Some (ssub, esub)) w
           | Call sp ss lev w aft \<Rightarrow> do {
               (dp, w) \<leftarrow> backref m sp stop ss stopst lev None w;
               if dp \<noteq> None then Some (dp, w)
               else case aft of
                   Return_null \<Rightarrow> Some (None, w)
                 | Try_at ss lev \<Rightarrow> backref m sp stop ss stopst lev None w
                 | Undo_so i v \<Rightarrow> do { pm \<leftarrow> set_so i v (fst w); Some (None, pm, snd w) }
                 | Undo_eo i v \<Rightarrow> do { pm \<leftarrow> set_eo i v (fst w); Some (None, pm, snd w) } } } } })"

declare shrink.simps [code] last_turn.simps [code] find_branch.simps [code] dissect.simps [code]
  easy.simps [code] find_o_back.simps [code] backref.simps [code]

section \<open>matcher and regexec\<close>

text \<open>From \<open>coldp\<close> on, the first position where \<open>slow\<close> finds a match, and the end of the match.\<close>

partial_function (option) find_start :: "'s states_ops \<Rightarrow> matchst \<Rightarrow> nat \<Rightarrow> nat \<Rightarrow> nat \<Rightarrow> nat \<Rightarrow> (nat \<times> nat) option" where
  "find_start R m stop gf gl coldp = do {
     e \<leftarrow> slow R m coldp stop gf gl;
     case e of Some e \<Rightarrow> Some (coldp, e) | None \<Rightarrow> find_start R m stop gf gl (coldp + 1) }"

text \<open>Shorter and shorter matches from \<open>coldp\<close>, until one satisfies the back references.\<close>

partial_function (option) back_off :: "'s states_ops \<Rightarrow> matchst \<Rightarrow> nat \<Rightarrow> nat \<Rightarrow> nat \<Rightarrow> nat \<Rightarrow> work
    \<Rightarrow> (nat option \<times> nat \<times> work) option" where
  "back_off R m gf gl coldp endp w = (if endp \<le> coldp then Some (None, endp, w) else do {
     e \<leftarrow> slow R m coldp (endp - 1) gf gl;
     case e of
       None \<Rightarrow> Some (None, endp, w)
     | Some endp \<Rightarrow> do {
         (dp, w) \<leftarrow> backref m coldp endp gf gl 0 None w;
         if dp \<noteq> None then Some (dp, endp, w) else back_off R m gf gl coldp endp w } })"

text \<open>
  The result of the search: no match, no memory, or a match from \<open>coldp\<close> to \<open>endp\<close>, with its
  subexpressions if they were looked for. The positions are not there if nobody asked for them.
\<close>

datatype search_outcome = No_match | No_space | Found "(nat \<times> nat) option" "regmatch_t list"

definition no_match_t :: regmatch_t where
  "no_match_t = \<lparr> rm_so = - 1, rm_eo = - 1 \<rparr>"

text \<open>\<open>mem\<close> says which allocations succeed: the states, the subexpressions, \<open>lastpos\<close>.\<close>

partial_function (option) search :: "(nat \<Rightarrow> bool) \<Rightarrow> 's states_ops \<Rightarrow> matchst \<Rightarrow> nat \<Rightarrow> nat \<Rightarrow> nat \<Rightarrow> nat list \<Rightarrow> search_outcome option" where
  "search mem R m nmatch stop start lastpos = do {
     let g = m_g m;
     let gf = firststate g + 1;
     let gl = laststate g;
     (e, coldp) \<leftarrow> fast R m start stop gf gl;
     if e = None then Some No_match
     else if nmatch = 0 \<and> \<not> backrefs g then Some (Found None [])
     else do {
       coldp \<leftarrow> coldp;
       (coldp, endp) \<leftarrow> find_start R m stop gf gl coldp;
       if nmatch = 1 \<and> \<not> backrefs g then Some (Found (Some (coldp, endp)) [])
       else if \<not> mem 1 then Some No_space
       else do {
         let pm = replicate (nsub g + 1) no_match_t;
         if \<not> backrefs g \<and> \<not> flag_on (m_eflags m) REG_BACKR then do {
           (_, pm) \<leftarrow> dissect R m coldp endp gf gl pm;
           Some (Found (Some (coldp, endp)) pm) }
         else if nplus g > 0 \<and> lastpos = [] \<and> \<not> mem 2 then Some No_space
         else do {
           let lastpos = (if nplus g > 0 \<and> lastpos = [] then replicate (nplus g + 1) 0 else lastpos);
           (dp, w) \<leftarrow> backref m coldp endp gf gl 0 None (pm, lastpos);
           if dp \<noteq> None then Some (Found (Some (coldp, endp)) (fst w))
           else do {
             (dp, endp, w) \<leftarrow> back_off R m gf gl coldp endp w;
             if dp \<noteq> None then Some (Found (Some (coldp, endp)) (fst w))
             else search mem R m nmatch stop (coldp + 1) (snd w) } } } } }"

text \<open>The prescreening.\<close>

definition must_occurs :: "re_guts \<Rightarrow> byte list \<Rightarrow> nat \<Rightarrow> nat \<Rightarrow> bool" where
  "must_occurs g buf start stop = (case must g of
       None \<Rightarrow> True
     | Some w \<Rightarrow> (\<exists>dp \<in> set [start ..< stop]. stop - dp \<ge> length w \<and> take (length w) (drop dp buf) = w))"

definition matcher :: "(nat \<Rightarrow> bool) \<Rightarrow> (int \<Rightarrow> bool) \<Rightarrow> 's states_ops \<Rightarrow> re_guts \<Rightarrow> byte list \<Rightarrow> nat \<Rightarrow> regmatch_t list \<Rightarrow> int
    \<Rightarrow> (int \<times> regmatch_t list) option" where
  "matcher mem alnum R g buf nmatch pmatch eflags = do {
     let nmatch = (if flag_on (cflags g) REG_NOSUB then 0 else nmatch);
     (start, stop) \<leftarrow> (if flag_on eflags REG_STARTEND then
         (if pmatch = [] \<or> rm_so (pmatch ! 0) < 0 then None else Some (rm_so (pmatch ! 0), rm_eo (pmatch ! 0)))
       else Some (0, int (length (takeWhile (\<lambda>b. b \<noteq> 0) buf))));
     if stop < start then Some (REG_INVARG, pmatch)
     else if nat stop > length buf then None
     else if \<not> must_occurs g buf (nat start) (nat stop) then Some (REG_NOMATCH, pmatch)
     else if by_ref R \<and> \<not> mem 0 then Some (REG_ESPACE, pmatch)
     else do {
       let m = \<lparr> m_g = g, m_eflags = eflags, m_beginp = nat start, m_endp = nat stop, m_buf = buf, m_alnum = alnum \<rparr>;
       r \<leftarrow> search mem R m nmatch (nat stop) (nat start) [];
       case r of
         No_match \<Rightarrow> Some (REG_NOMATCH, pmatch)
       | No_space \<Rightarrow> Some (REG_ESPACE, pmatch)
       | Found span pm \<Rightarrow>
           if nmatch = 0 then Some (0, pmatch)
           else if length pmatch < nmatch then None
           else do {
             (coldp, endp) \<leftarrow> span;
             let first = \<lparr> rm_so = int coldp, rm_eo = int endp \<rparr>;
             Some (0, first # map (\<lambda>i. if i \<le> nsub g then pm ! i else no_match_t) [1 ..< nmatch] @ drop nmatch pmatch) } } }"

definition posix_regexec :: "(nat \<Rightarrow> bool) \<Rightarrow> (int \<Rightarrow> bool) \<Rightarrow> regex_t \<Rightarrow> byte list \<Rightarrow> nat \<Rightarrow> regmatch_t list \<Rightarrow> int
    \<Rightarrow> (int \<times> regmatch_t list) option" where
  "posix_regexec mem alnum preg buf nmatch pmatch eflags =
     (let g = re_g preg; eflags = eflags AND (REG_NOTBOL OR REG_NOTEOL OR REG_STARTEND) in
      if re_magic preg \<noteq> MAGIC1 \<or> magic g \<noteq> MAGIC2 then Some (REG_BADPAT, pmatch)
      else if flag_on (iflags g) BAD then Some (REG_BADPAT, pmatch)
      else if nstates g \<le> 32 \<and> \<not> flag_on eflags REG_LARGE then matcher mem alnum small g buf nmatch pmatch eflags
      else matcher mem alnum large g buf nmatch pmatch eflags)"

declare find_start.simps [code] back_off.simps [code] search.simps [code]

end
