(* ===== verification/Posix_Parse.thy ===== *)
theory Posix_Parse
  imports Posix_Engine
begin

text \<open>
  The compiler of Spencer's POSIX regular expressions, \<open>cygwin/regex/regcomp.c\<close>: it parses a basic or an
  extended expression, or a plain string, and emits the strip that the engine runs.

  The record \<open>cparse\<close> is \<open>struct parse\<close> with the parts of \<open>struct re_guts\<close> that the parser fills in. The
  text between \<open>next\<close> and \<open>end\<close> is a list of bytes; the byte at \<open>end\<close>, which one test reads, is \<open>p_past\<close>. An
  error empties the text, as \<open>seterr\<close> does by pointing both to \<open>nuls\<close>. The vectors of \<open>setbits\<close> are a list
  of columns, and set \<open>no\<close> is the bit \<open>no mod 8\<close> of column \<open>no div 8\<close>. Every call of \<open>malloc\<close> and
  \<open>realloc\<close> has a number, and \<open>mem\<close>, an argument, says which of them succeed. \<open>None\<close> is an access outside an array or
  through a null pointer. The character classification is that of the C locale; operands are natural
  numbers, which their 26 bits hold for strips of less than \<open>2^26\<close> operators. The collating elements
  of several characters, which no class of \<open>cclass.h\<close> has, are left out, and with them \<open>mcadd\<close>, \<open>mcinvert\<close>
  and \<open>mccase\<close>.
\<close>

section \<open>The parser's state\<close>

abbreviation (input) "REG_EXTENDED \<equiv> 1 :: int"
abbreviation (input) "REG_ICASE \<equiv> 2 :: int"
abbreviation (input) "REG_NOSPEC \<equiv> 0x10 :: int"
abbreviation (input) "REG_PEND \<equiv> 0x20 :: int"
abbreviation (input) "REG_DUMP \<equiv> 0x80 :: int"
abbreviation (input) "REG_ECOLLATE \<equiv> 3 :: int"
abbreviation (input) "REG_ECTYPE \<equiv> 4 :: int"
abbreviation (input) "REG_EESCAPE \<equiv> 5 :: int"
abbreviation (input) "REG_ESUBREG \<equiv> 6 :: int"
abbreviation (input) "REG_EBRACK \<equiv> 7 :: int"
abbreviation (input) "REG_EPAREN \<equiv> 8 :: int"
abbreviation (input) "REG_EBRACE \<equiv> 9 :: int"
abbreviation (input) "REG_BADBR \<equiv> 10 :: int"
abbreviation (input) "REG_ERANGE \<equiv> 11 :: int"
abbreviation (input) "REG_BADRPT \<equiv> 13 :: int"
abbreviation (input) "REG_EMPTY \<equiv> 14 :: int"
abbreviation (input) "REG_ASSERT \<equiv> 15 :: int"

abbreviation (input) "DUPMAX \<equiv> 255 :: nat"
abbreviation (input) "INFINITY \<equiv> 256 :: nat"
abbreviation (input) "NC \<equiv> 256 :: nat"
abbreviation (input) "NPAREN \<equiv> 10 :: nat"
abbreviation (input) "USEBOL \<equiv> 1 :: int"
abbreviation (input) "USEEOL \<equiv> 2 :: int"

record cparse =
  p_next :: "byte list"
  p_past :: byte
  p_error :: int
  p_strip :: "sop list"
  p_ssize :: nat
  p_ncsalloc :: nat
  p_pbegin :: "nat list"
  p_pend :: "nat list"
  p_ncsets :: nat
  p_hash :: "byte list"
  p_bits :: "byte list list"
  p_cflags :: int
  p_iflags :: int
  p_nbol :: nat
  p_neol :: nat
  p_ncats :: nat
  p_cats :: "byte list"
  p_nsub :: nat
  p_backrefs :: bool
  p_calls :: nat

text \<open>Characters of the C locale.\<close>

definition char_byte :: "char \<Rightarrow> byte" where
  "char_byte c = of_char c"

abbreviation (input) "k_caret \<equiv> 0x5E :: byte"
abbreviation (input) "k_dollar \<equiv> 0x24 :: byte"
abbreviation (input) "k_lparen \<equiv> 0x28 :: byte"
abbreviation (input) "k_rparen \<equiv> 0x29 :: byte"
abbreviation (input) "k_star \<equiv> 0x2A :: byte"
abbreviation (input) "k_plus \<equiv> 0x2B :: byte"
abbreviation (input) "k_comma \<equiv> 0x2C :: byte"
abbreviation (input) "k_minus \<equiv> 0x2D :: byte"
abbreviation (input) "k_dot \<equiv> 0x2E :: byte"
abbreviation (input) "k_colon \<equiv> 0x3A :: byte"
abbreviation (input) "k_equals \<equiv> 0x3D :: byte"
abbreviation (input) "k_quest \<equiv> 0x3F :: byte"
abbreviation (input) "k_lbrack \<equiv> 0x5B :: byte"
abbreviation (input) "k_bslash \<equiv> 0x5C :: byte"
abbreviation (input) "k_rbrack \<equiv> 0x5D :: byte"
abbreviation (input) "k_lbrace \<equiv> 0x7B :: byte"
abbreviation (input) "k_bar \<equiv> 0x7C :: byte"
abbreviation (input) "k_rbrace \<equiv> 0x7D :: byte"

definition isdigit :: "byte \<Rightarrow> bool" where
  "isdigit c \<longleftrightarrow> 0x30 \<le> c \<and> c \<le> 0x39"

definition isupper :: "byte \<Rightarrow> bool" where
  "isupper c \<longleftrightarrow> 0x41 \<le> c \<and> c \<le> 0x5A"

definition islower :: "byte \<Rightarrow> bool" where
  "islower c \<longleftrightarrow> 0x61 \<le> c \<and> c \<le> 0x7A"

definition isalpha :: "byte \<Rightarrow> bool" where
  "isalpha c \<longleftrightarrow> isupper c \<or> islower c"

definition othercase :: "byte \<Rightarrow> byte" where
  "othercase c = (if isupper c then c + 0x20 else if islower c then c - 0x20 else c)"

text \<open>\<open>seterr\<close> and the macros over it.\<close>

definition seterr :: "int \<Rightarrow> cparse \<Rightarrow> cparse" where
  "seterr e p = p\<lparr> p_error := (if p_error p = 0 then e else p_error p), p_next := [], p_past := 0 \<rparr>"

definition REQUIRE :: "bool \<Rightarrow> int \<Rightarrow> cparse \<Rightarrow> cparse" where
  "REQUIRE b e p = (if b then p else seterr e p)"

definition MORE :: "cparse \<Rightarrow> bool" where
  "MORE p \<longleftrightarrow> p_next p \<noteq> []"

definition SEE :: "byte \<Rightarrow> cparse \<Rightarrow> bool" where
  "SEE c p \<longleftrightarrow> take 1 (p_next p) = [c]"

definition SEETWO :: "byte \<Rightarrow> byte \<Rightarrow> cparse \<Rightarrow> bool" where
  "SEETWO a b p \<longleftrightarrow> take 2 (p_next p) = [a, b]"

definition NEXTn :: "nat \<Rightarrow> cparse \<Rightarrow> cparse" where
  "NEXTn n p = p\<lparr> p_next := drop n (p_next p) \<rparr>"

definition EAT :: "byte \<Rightarrow> cparse \<Rightarrow> bool \<times> cparse" where
  "EAT c p = (if SEE c p then (True, NEXTn 1 p) else (False, p))"

definition EATTWO :: "byte \<Rightarrow> byte \<Rightarrow> cparse \<Rightarrow> bool \<times> cparse" where
  "EATTWO a b p = (if SEETWO a b p then (True, NEXTn 2 p) else (False, p))"

text \<open>The next character; after an error it is the NUL of \<open>nuls\<close>.\<close>

definition PEEK :: "cparse \<Rightarrow> byte" where
  "PEEK p = (case p_next p of [] \<Rightarrow> p_past p | c # _ \<Rightarrow> c)"

definition MUSTEAT :: "byte \<Rightarrow> int \<Rightarrow> cparse \<Rightarrow> cparse" where
  "MUSTEAT c e p = REQUIRE (MORE p \<and> PEEK p = c) e (NEXTn 1 p)"

section \<open>Emitting operators\<close>

type_synonym allocator = "nat \<Rightarrow> bool"

definition ask :: "allocator \<Rightarrow> cparse \<Rightarrow> bool \<times> cparse" where
  "ask mem p = (mem (p_calls p), p\<lparr> p_calls := p_calls p + 1 \<rparr>)"

definition HERE :: "cparse \<Rightarrow> nat" where
  "HERE p = length (p_strip p)"

definition enlarge :: "allocator \<Rightarrow> nat \<Rightarrow> cparse \<Rightarrow> cparse" where
  "enlarge mem n p = (if p_ssize p \<ge> n then p
     else (let (ok, p) = ask mem p in if ok then p\<lparr> p_ssize := n \<rparr> else seterr REG_ESPACE p))"

text \<open>The store is not kept back when the strip could not be enlarged.\<close>

definition doemit :: "allocator \<Rightarrow> oper \<Rightarrow> nat \<Rightarrow> cparse \<Rightarrow> cparse option" where
  "doemit mem op opnd p = (if p_error p \<noteq> 0 then Some p
     else (let p = (if HERE p \<ge> p_ssize p then enlarge mem ((p_ssize p + 1) div 2 * 3) p else p)
           in if HERE p < p_ssize p then Some (p\<lparr> p_strip := p_strip p @ [(op, opnd)] \<rparr>) else None))"

definition doinsert :: "allocator \<Rightarrow> oper \<Rightarrow> nat \<Rightarrow> cparse \<Rightarrow> cparse option" where
  "doinsert mem op pos p = (if p_error p \<noteq> 0 then Some p
     else do {
       let sn = HERE p;
       p \<leftarrow> doemit mem op (sn - pos + 1) p;
       if sn < HERE p \<and> pos \<le> sn then
         (let s = p_strip p ! sn;
              move = map (\<lambda>q. if q \<ge> pos then q + 1 else q)
          in Some (p\<lparr> p_pbegin := take 1 (p_pbegin p) @ move (drop 1 (p_pbegin p)),
                p_pend := take 1 (p_pend p) @ move (drop 1 (p_pend p)),
                p_strip := take pos (p_strip p) @ s # take (HERE p - pos - 1) (drop pos (p_strip p)) \<rparr>))
       else None })"

text \<open>\<open>INSERT\<close> is \<open>doinsert\<close>; \<open>AHEAD\<close> completes a forward reference, \<open>ASTERN\<close> emits a backward one.\<close>

definition dofwd :: "nat \<Rightarrow> nat \<Rightarrow> cparse \<Rightarrow> cparse option" where
  "dofwd pos v p = (if p_error p \<noteq> 0 then Some p
     else if pos < HERE p then Some (p\<lparr> p_strip := (p_strip p)[pos := (OP (p_strip p ! pos), v)] \<rparr>) else None)"

definition AHEAD :: "nat \<Rightarrow> cparse \<Rightarrow> cparse option" where
  "AHEAD pos p = dofwd pos (HERE p - pos) p"

definition ASTERN :: "allocator \<Rightarrow> oper \<Rightarrow> nat \<Rightarrow> cparse \<Rightarrow> cparse option" where
  "ASTERN mem op pos p = doemit mem op (HERE p - pos) p"

definition dupl :: "allocator \<Rightarrow> nat \<Rightarrow> nat \<Rightarrow> cparse \<Rightarrow> (nat \<times> cparse) option" where
  "dupl mem start finish p = (let ret = HERE p; len = finish - start in
     if len = 0 then Some (ret, p)
     else (let p = enlarge mem (p_ssize p + len) p
           in if HERE p + len \<le> p_ssize p \<and> finish \<le> HERE p
              then Some (ret, p\<lparr> p_strip := p_strip p @ take len (drop start (p_strip p)) \<rparr>) else None))"

text \<open>\<open>y?\<close> is emitted as \<open>(y|)\<close>; the fixups after the insertion of the \<open>OCH\<close> at \<open>pos\<close>.\<close>

definition emit_empty_branch :: "allocator \<Rightarrow> nat \<Rightarrow> cparse \<Rightarrow> cparse option" where
  "emit_empty_branch mem pos p = do {
     p \<leftarrow> ASTERN mem OOR1 pos p;
     p \<leftarrow> AHEAD pos p;
     p \<leftarrow> doemit mem OOR2 0 p;
     p \<leftarrow> AHEAD (HERE p - 1) p;
     ASTERN mem O_CH (HERE p - 2) p }"

section \<open>Sets of characters\<close>

text \<open>A set is its number \<open>no\<close>; \<open>set_col\<close> and \<open>set_bit\<close> are its \<open>ptr\<close> and its \<open>mask\<close>.\<close>

definition set_col :: "nat \<Rightarrow> nat" where
  "set_col no = no div 8"

definition set_bit :: "nat \<Rightarrow> byte" where
  "set_bit no = push_bit (no mod 8) 1"

definition bits_at :: "nat \<Rightarrow> byte \<Rightarrow> cparse \<Rightarrow> byte option" where
  "bits_at col c p = (if col < length (p_bits p) \<and> unat c < length (p_bits p ! col)
     then Some (p_bits p ! col ! unat c) else None)"

definition in_set :: "nat \<Rightarrow> byte \<Rightarrow> cparse \<Rightarrow> bool option" where
  "in_set no c p = map_option (\<lambda>b. b AND set_bit no \<noteq> 0) (bits_at (set_col no) c p)"

text \<open>\<open>CHadd\<close> and \<open>CHsub\<close>.\<close>

definition set_byte :: "nat \<Rightarrow> byte \<Rightarrow> byte \<Rightarrow> byte \<Rightarrow> cparse \<Rightarrow> cparse option" where
  "set_byte no c v h p = (if no < length (p_hash p)
     then Some (p\<lparr> p_bits := (p_bits p)[set_col no := (p_bits p ! set_col no)[unat c := v]],
                  p_hash := (p_hash p)[no := h] \<rparr>) else None)"

definition CHadd :: "nat \<Rightarrow> byte \<Rightarrow> cparse \<Rightarrow> cparse option" where
  "CHadd no c p = do { b \<leftarrow> bits_at (set_col no) c p; set_byte no c (b OR set_bit no) (p_hash p ! no + c) p }"

definition CHsub :: "nat \<Rightarrow> byte \<Rightarrow> cparse \<Rightarrow> cparse option" where
  "CHsub no c p = do { b \<leftarrow> bits_at (set_col no) c p; set_byte no c (b AND NOT (set_bit no)) (p_hash p ! no - c) p }"

fun for_each :: "(byte \<Rightarrow> cparse \<Rightarrow> cparse option) \<Rightarrow> byte list \<Rightarrow> cparse \<Rightarrow> cparse option" where
  "for_each f [] p = Some p"
| "for_each f (c # cs) p = do { p \<leftarrow> f c p; for_each f cs p }"

text \<open>The indices \<open>0 \<dots> csetsize - 1\<close>.\<close>

definition all_bytes :: "byte list" where
  "all_bytes = map of_nat [0 ..< NC]"

definition allocset :: "allocator \<Rightarrow> cparse \<Rightarrow> (nat \<times> cparse) option" where
  "allocset mem p = do {
     let no = p_ncsets p;
     let p = p\<lparr> p_ncsets := no + 1 \<rparr>;
     (no, p) \<leftarrow> (if no \<ge> p_ncsalloc p then
         (let p = p\<lparr> p_ncsalloc := p_ncsalloc p + 8 \<rparr>;
              (have_sets, p) = ask mem p;
              (have_bits, p) = ask mem p
          in if \<not> have_sets then None
             else if have_bits then
               Some (no, p\<lparr> p_hash := p_hash p @ replicate 8 0, p_bits := p_bits p @ [replicate NC 0] \<rparr>)
             else Some (0, seterr REG_ESPACE (p\<lparr> p_hash := p_hash p @ replicate 8 0, p_bits := [] \<rparr>)))
       else Some (no, p));
     if no < length (p_hash p) then Some (no, p\<lparr> p_hash := (p_hash p)[no := 0] \<rparr>) else None }"

definition freeset :: "nat \<Rightarrow> cparse \<Rightarrow> cparse option" where
  "freeset no p = do {
     p \<leftarrow> for_each (CHsub no) all_bytes p;
     Some (if no + 1 = p_ncsets p then p\<lparr> p_ncsets := p_ncsets p - 1 \<rparr> else p) }"

definition same_sets :: "nat \<Rightarrow> nat \<Rightarrow> cparse \<Rightarrow> bool option" where
  "same_sets no no2 p = (if list_all (\<lambda>c. in_set no c p \<noteq> None \<and> in_set no2 c p \<noteq> None) all_bytes
     then Some (list_all (\<lambda>c. in_set no c p = in_set no2 c p) all_bytes) else None)"

text \<open>The first of the sets from \<open>no2\<close> on with the hash and the members of \<open>no\<close>; the fuel is \<open>ncsets\<close>.\<close>

fun find_same :: "nat list \<Rightarrow> nat \<Rightarrow> cparse \<Rightarrow> nat option option" where
  "find_same [] no p = Some None"
| "find_same (no2 # nos) no p =
     (if no2 < length (p_hash p) \<and> no < length (p_hash p) then
        if p_hash p ! no2 = p_hash p ! no \<and> no2 \<noteq> no then do {
          s \<leftarrow> same_sets no no2 p;
          if s then Some (Some no2) else find_same nos no p }
        else find_same nos no p
      else None)"

definition freezeset :: "nat \<Rightarrow> cparse \<Rightarrow> (nat \<times> cparse) option" where
  "freezeset no p = do {
     s \<leftarrow> find_same [0 ..< p_ncsets p] no p;
     case s of None \<Rightarrow> Some (no, p) | Some no2 \<Rightarrow> do { p \<leftarrow> freeset no p; Some (no2, p) } }"

text \<open>The members of a set in the order of the loops over it; \<open>firstch\<close> and \<open>nch\<close> read them.\<close>

definition set_members :: "nat \<Rightarrow> cparse \<Rightarrow> byte list option" where
  "set_members no p = (if list_all (\<lambda>c. in_set no c p \<noteq> None) all_bytes
     then Some (filter (\<lambda>c. in_set no c p = Some True) all_bytes) else None)"

definition firstch :: "nat \<Rightarrow> cparse \<Rightarrow> byte option" where
  "firstch no p = map_option (\<lambda>cs. case cs of [] \<Rightarrow> 0 | c # _ \<Rightarrow> c) (set_members no p)"

definition nch :: "nat \<Rightarrow> cparse \<Rightarrow> nat option" where
  "nch no p = map_option length (set_members no p)"

section \<open>Bracket expressions\<close>

text \<open>\<open>cnames\<close> and \<open>cclasses\<close>.\<close>

definition ascii :: "string \<Rightarrow> byte list" where
  "ascii s = map char_byte s"

definition cnames :: "(string \<times> byte) list" where
  "cnames = [
    (''NUL'', 0), (''SOH'', 1), (''STX'', 2), (''ETX'', 3), (''EOT'', 4), (''ENQ'', 5), (''ACK'', 6), (''BEL'', 7),
    (''alert'', 7), (''BS'', 8), (''backspace'', 8), (''HT'', 9), (''tab'', 9), (''LF'', 10), (''newline'', 10),
    (''VT'', 11), (''vertical-tab'', 11), (''FF'', 12), (''form-feed'', 12), (''CR'', 13), (''carriage-return'', 13),
    (''SO'', 14), (''SI'', 15), (''DLE'', 16), (''DC1'', 17), (''DC2'', 18), (''DC3'', 19), (''DC4'', 20),
    (''NAK'', 21), (''SYN'', 22), (''ETB'', 23), (''CAN'', 24), (''EM'', 25), (''SUB'', 26), (''ESC'', 27),
    (''IS4'', 28), (''FS'', 28), (''IS3'', 29), (''GS'', 29), (''IS2'', 30), (''RS'', 30), (''IS1'', 31),
    (''US'', 31), (''space'', 32), (''exclamation-mark'', 33), (''quotation-mark'', 34), (''number-sign'', 35),
    (''dollar-sign'', 36), (''percent-sign'', 37), (''ampersand'', 38), (''apostrophe'', 39),
    (''left-parenthesis'', 40), (''right-parenthesis'', 41), (''asterisk'', 42), (''plus-sign'', 43), (''comma'', 44),
    (''hyphen'', 45), (''hyphen-minus'', 45), (''period'', 46), (''full-stop'', 46), (''slash'', 47),
    (''solidus'', 47), (''zero'', 48), (''one'', 49), (''two'', 50), (''three'', 51), (''four'', 52), (''five'', 53),
    (''six'', 54), (''seven'', 55), (''eight'', 56), (''nine'', 57), (''colon'', 58), (''semicolon'', 59),
    (''less-than-sign'', 60), (''equals-sign'', 61), (''greater-than-sign'', 62), (''question-mark'', 63),
    (''commercial-at'', 64), (''left-square-bracket'', 91), (''backslash'', 92), (''reverse-solidus'', 92),
    (''right-square-bracket'', 93), (''circumflex'', 94), (''circumflex-accent'', 94), (''underscore'', 95),
    (''low-line'', 95), (''grave-accent'', 96), (''left-brace'', 123), (''left-curly-bracket'', 123),
    (''vertical-line'', 124), (''right-brace'', 125), (''right-curly-bracket'', 125), (''tilde'', 126), (''DEL'', 127) ]"

abbreviation (input) "upper_letters \<equiv> ''ABCDEFGHIJKLMNOPQRSTUVWXYZ''"
abbreviation (input) "lower_letters \<equiv> ''abcdefghijklmnopqrstuvwxyz''"
abbreviation (input) "digits \<equiv> ''0123456789''"

text \<open>The punctuation, in the order of the table: \<open>!\<close> to \<open>/\<close>, \<open>:\<close> to \<open>@\<close>, \<open>[\<close> to \<open>`\<close> and the braces.\<close>

definition punct :: "byte list" where
  "punct = map of_nat ([33 ..< 48] @ [58 ..< 65] @ [91 ..< 97] @ [123 ..< 127])"

text \<open>
  The continued lines of three strings begin with a tab, which is a member of \<open>cntrl\<close> anyway, and of \<open>graph\<close> and \<open>print\<close>
  by the continuation.
\<close>

definition cclasses :: "(string \<times> byte list) list" where
  "cclasses = [
    (''alnum'', ascii (upper_letters @ lower_letters @ digits)),
    (''alpha'', ascii (upper_letters @ lower_letters)),
    (''blank'', [32, 9]),
    (''cntrl'', [7, 8, 9, 10, 11, 12, 13, 1, 2, 3, 4, 5, 6, 14, 15, 16, 17, 18, 19, 20, 9, 21, 22, 23, 24, 25, 26, 27, 28, 29, 30, 31, 127]),
    (''digit'', ascii digits),
    (''graph'', ascii (upper_letters @ lower_letters) @ [9] @ ascii digits @ punct),
    (''lower'', ascii lower_letters),
    (''print'', ascii (upper_letters @ lower_letters) @ [9] @ ascii digits @ punct @ [32]),
    (''punct'', punct),
    (''space'', [9, 10, 11, 12, 13, 32]),
    (''upper'', ascii upper_letters),
    (''xdigit'', ascii (digits @ ''ABCDEFabcdef'')) ]"

text \<open>The name of a class: the letters from \<open>next\<close> on.\<close>

definition p_b_cclass :: "nat \<Rightarrow> cparse \<Rightarrow> cparse option" where
  "p_b_cclass no p =
     (let sp = takeWhile isalpha (p_next p); p = p\<lparr> p_next := dropWhile isalpha (p_next p) \<rparr>
      in case find (\<lambda>(name, cs). ascii name = sp) cclasses of
           None \<Rightarrow> Some (seterr REG_ECTYPE p)
         | Some (_, cs) \<Rightarrow> for_each (CHadd no) cs p)"

text \<open>The text before \<open>endc ]\<close>, if that is there.\<close>

fun before_two :: "byte \<Rightarrow> byte \<Rightarrow> byte list \<Rightarrow> byte list \<times> byte list" where
  "before_two a b [] = ([], [])"
| "before_two a b (c # cs) = (if take 2 (c # cs) = [a, b] then ([], c # cs)
     else (let (l, r) = before_two a b cs in (c # l, r)))"

text \<open>
  The search compares with \<open>strncmp\<close>, which stops at a NUL: a name shorter than the text with a NUL in its place compares equal,
  and the byte of the name that is looked at next is behind its end.
\<close>

fun find_cname :: "byte list \<Rightarrow> (string \<times> byte) list \<Rightarrow> byte option option" where
  "find_cname sp [] = Some None"
| "find_cname sp ((name, code) # ns) =
     (if ascii name = sp then Some (Some code)
      else if length name < length sp \<and> take (length name + 1) sp = ascii name @ [0] then None
      else find_cname sp ns)"

definition p_b_coll_elem :: "byte \<Rightarrow> cparse \<Rightarrow> (byte \<times> cparse) option" where
  "p_b_coll_elem endc p =
     (let (sp, r) = before_two endc k_rbrack (p_next p); p = p\<lparr> p_next := r \<rparr>
      in if r = [] then Some (0, seterr REG_EBRACK p)
         else do {
           code \<leftarrow> find_cname sp cnames;
           case code of
             Some c \<Rightarrow> Some (c, p)
           | None \<Rightarrow> if length sp = 1 then Some (hd sp, p) else Some (0, seterr REG_ECOLLATE p) })"

definition p_b_eclass :: "nat \<Rightarrow> cparse \<Rightarrow> cparse option" where
  "p_b_eclass no p = do { (c, p) \<leftarrow> p_b_coll_elem k_equals p; CHadd no c p }"

definition p_b_symbol :: "cparse \<Rightarrow> (byte \<times> cparse) option" where
  "p_b_symbol p = do {
     let p = REQUIRE (MORE p) REG_EBRACK p;
     let (coll, p) = EATTWO k_lbrack k_dot p;
     if \<not> coll then Some (PEEK p, NEXTn 1 p)
     else do {
       (v, p) \<leftarrow> p_b_coll_elem k_dot p;
       let (ok, p) = EATTWO k_dot k_rbrack p;
       Some (v, REQUIRE ok REG_ECOLLATE p) } }"

text \<open>The characters of a range, in the order of \<open>char\<close>, which is signed.\<close>

definition char_range :: "byte \<Rightarrow> byte \<Rightarrow> byte list" where
  "char_range a b = map word_of_int [char_of_byte a .. char_of_byte b]"

definition p_b_range :: "nat \<Rightarrow> cparse \<Rightarrow> cparse option" where
  "p_b_range no p = do {
     (start, p) \<leftarrow> p_b_symbol p;
     (finish, p) \<leftarrow> (if SEE k_minus p \<and> length (p_next p) > 1 \<and> p_next p ! 1 \<noteq> k_rbrack
       then (let (dash, p) = EAT k_minus (NEXTn 1 p) in if dash then Some (k_minus, p) else p_b_symbol p)
       else Some (start, p));
     let p = REQUIRE (char_of_byte start \<le> char_of_byte finish) REG_ERANGE p;
     for_each (CHadd no) (char_range start finish) p }"

text \<open>A class \<open>[:name:]\<close> or \<open>[=elem=]\<close>, whose kind is the letter \<open>c\<close>.\<close>

definition p_b_class :: "byte \<Rightarrow> int \<Rightarrow> (cparse \<Rightarrow> cparse option) \<Rightarrow> cparse \<Rightarrow> cparse option" where
  "p_b_class c e body p = do {
     let p = NEXTn 2 p;
     let p = REQUIRE (MORE p) REG_EBRACK p;
     let p = REQUIRE (PEEK p \<noteq> k_minus \<and> PEEK p \<noteq> k_rbrack) e p;
     p \<leftarrow> body p;
     let p = REQUIRE (MORE p) REG_EBRACK p;
     let (ok, p) = EATTWO c k_rbrack p;
     Some (REQUIRE ok e p) }"

definition p_b_term :: "nat \<Rightarrow> cparse \<Rightarrow> cparse option" where
  "p_b_term no p =
     (if SEE k_minus p then Some (seterr REG_ERANGE p)
      else if SEETWO k_lbrack k_colon p then p_b_class k_colon REG_ECTYPE (p_b_cclass no) p
      else if SEETWO k_lbrack k_equals p then p_b_class k_equals REG_ECOLLATE (p_b_eclass no) p
      else p_b_range no p)"

partial_function (option) p_b_terms :: "nat \<Rightarrow> cparse \<Rightarrow> cparse option" where
  "p_b_terms no p = (if MORE p \<and> \<not> SEE k_rbrack p \<and> \<not> SEETWO k_minus k_rbrack p
     then do { p \<leftarrow> p_b_term no p; p_b_terms no p } else Some p)"

declare p_b_terms.simps [code]

text \<open>The members of both cases, and the complement.\<close>

definition add_case :: "nat \<Rightarrow> byte \<Rightarrow> cparse \<Rightarrow> cparse option" where
  "add_case no c p = do {
     b \<leftarrow> in_set no c p;
     if b \<and> isalpha c \<and> othercase c \<noteq> c then CHadd no (othercase c) p else Some p }"

definition flip :: "nat \<Rightarrow> byte \<Rightarrow> cparse \<Rightarrow> cparse option" where
  "flip no c p = do { b \<leftarrow> in_set no c p; if b then CHsub no c p else CHadd no c p }"

definition eat_add :: "nat \<Rightarrow> byte \<Rightarrow> cparse \<Rightarrow> (bool \<times> cparse) option" where
  "eat_add no c p = (let (b, p) = EAT c p in if b then do { p \<leftarrow> CHadd no c p; Some (True, p) } else Some (False, p))"

text \<open>
  \<open>p_bracket\<close> up to the test for a single member: the number of the set, unless there is nothing to be emitted for
  it.
\<close>

definition bracket_set :: "allocator \<Rightarrow> cparse \<Rightarrow> (nat option \<times> cparse) option" where
  "bracket_set mem p = do {
     (no, p) \<leftarrow> allocset mem p;
     if take 6 (p_next p) = ascii ''[:<:]]'' then do { p \<leftarrow> doemit mem OBOW 0 p; Some (None, NEXTn 6 p) }
     else if take 6 (p_next p) = ascii ''[:>:]]'' then do { p \<leftarrow> doemit mem OEOW 0 p; Some (None, NEXTn 6 p) }
     else do {
       let (invert, p) = EAT k_caret p;
       (b, p) \<leftarrow> eat_add no k_rbrack p;
       (b, p) \<leftarrow> (if b then Some (b, p) else eat_add no k_minus p);
       p \<leftarrow> p_b_terms no p;
       (b, p) \<leftarrow> eat_add no k_minus p;
       let p = MUSTEAT k_rbrack REG_EBRACK p;
       if p_error p \<noteq> 0 then Some (None, p)
       else do {
         p \<leftarrow> (if flag_on (p_cflags p) REG_ICASE then for_each (add_case no) (rev all_bytes) p else Some p);
         p \<leftarrow> (if invert then do {
             p \<leftarrow> for_each (flip no) (rev all_bytes) p;
             if flag_on (p_cflags p) REG_NEWLINE then CHsub no 10 p else Some p } else Some p);
         Some (Some no, p) } } }"

text \<open>
  \<open>ordinary\<close>, with \<open>bothcases\<close>, which parses a bracket expression of the one character, and \<open>p_bracket\<close>, which calls
  \<open>ordinary\<close> for a set with a single member.
\<close>

definition emit_char :: "allocator \<Rightarrow> byte \<Rightarrow> cparse \<Rightarrow> cparse option" where
  "emit_char mem c p = do {
     p \<leftarrow> doemit mem OCHAR (unat c) p;
     let i = nat (char_of_byte c + 128);
     if i < length (p_cats p) then
       Some (if p_cats p ! i = 0 then p\<lparr> p_cats := (p_cats p)[i := of_nat (p_ncats p)], p_ncats := p_ncats p + 1 \<rparr> else p)
     else None }"

definition with_text :: "byte list \<Rightarrow> cparse \<Rightarrow> cparse" where
  "with_text cs p = p\<lparr> p_next := cs, p_past := 0 \<rparr>"

definition restore_text :: "cparse \<Rightarrow> cparse \<Rightarrow> cparse" where
  "restore_text old p = p\<lparr> p_next := p_next old, p_past := p_past old \<rparr>"

partial_function (option) ordinary :: "allocator \<Rightarrow> byte \<Rightarrow> cparse \<Rightarrow> cparse option" where
  "ordinary mem c p = (if flag_on (p_cflags p) REG_ICASE \<and> isalpha c \<and> othercase c \<noteq> c then do {
       (s, q) \<leftarrow> bracket_set mem (with_text [c, k_rbrack] p);
       q \<leftarrow> (case s of
           None \<Rightarrow> Some q
         | Some no \<Rightarrow> do {
             n \<leftarrow> nch no q;
             if n = 1 then do { d \<leftarrow> firstch no q; q \<leftarrow> ordinary mem d q; freeset no q }
             else do { (no, q) \<leftarrow> freezeset no q; doemit mem OANYOF no q } });
       Some (restore_text p q) }
     else emit_char mem c p)"

declare ordinary.simps [code]

definition p_bracket :: "allocator \<Rightarrow> cparse \<Rightarrow> cparse option" where
  "p_bracket mem p = do {
     (s, p) \<leftarrow> bracket_set mem p;
     case s of
       None \<Rightarrow> Some p
     | Some no \<Rightarrow> do {
         n \<leftarrow> nch no p;
         if n = 1 then do { c \<leftarrow> firstch no p; p \<leftarrow> ordinary mem c p; freeset no p }
         else do { (no, p) \<leftarrow> freezeset no p; doemit mem OANYOF no p } } }"

definition nonnewline :: "allocator \<Rightarrow> cparse \<Rightarrow> cparse option" where
  "nonnewline mem p = map_option (restore_text p) (p_bracket mem (with_text [k_caret, 10, k_rbrack] p))"

section \<open>Repetitions\<close>

fun count_loop :: "byte list \<Rightarrow> nat \<Rightarrow> nat \<Rightarrow> nat \<times> nat \<times> byte list" where
  "count_loop [] count ndigits = (count, ndigits, [])"
| "count_loop (c # cs) count ndigits =
     (if isdigit c \<and> count \<le> DUPMAX then count_loop cs (count * 10 + unat (c - 0x30)) (ndigits + 1)
      else (count, ndigits, c # cs))"

definition p_count :: "cparse \<Rightarrow> nat \<times> cparse" where
  "p_count p = (let (count, ndigits, r) = count_loop (p_next p) 0 0
     in (count, REQUIRE (ndigits > 0 \<and> count \<le> DUPMAX) REG_BADBR (p\<lparr> p_next := r \<rparr>)))"

text \<open>The cases of \<open>repeat\<close>: 0, 1, \<open>N\<close> and \<open>INF\<close>.\<close>

datatype rep = Rep_0 | Rep_1 | Rep_N | Rep_INF

definition MAP :: "nat \<Rightarrow> rep" where
  "MAP n = (if n = 0 then Rep_0 else if n = 1 then Rep_1 else if n = INFINITY then Rep_INF else Rep_N)"

function repeat :: "allocator \<Rightarrow> nat \<Rightarrow> nat \<Rightarrow> nat \<Rightarrow> cparse \<Rightarrow> cparse option" where
  "repeat mem start from to p = (if p_error p \<noteq> 0 then Some p else
     (let finish = HERE p in case (MAP from, MAP to) of
        (Rep_0, Rep_0) \<Rightarrow> Some (p\<lparr> p_strip := take start (p_strip p) \<rparr>)
      | (Rep_0, _) \<Rightarrow> do {
          p \<leftarrow> doinsert mem OCH start p;
          p \<leftarrow> repeat mem (start + 1) 1 to p;
          emit_empty_branch mem start p }
      | (Rep_1, Rep_1) \<Rightarrow> Some p
      | (Rep_1, Rep_N) \<Rightarrow> do {
          p \<leftarrow> doinsert mem OCH start p;
          p \<leftarrow> emit_empty_branch mem start p;
          (copy, p) \<leftarrow> dupl mem (start + 1) (finish + 1) p;
          repeat mem copy 1 (to - 1) p }
      | (Rep_1, Rep_INF) \<Rightarrow> do {
          p \<leftarrow> doinsert mem OPLUS start p;
          ASTERN mem O_PLUS start p }
      | (Rep_N, Rep_N) \<Rightarrow> do {
          (copy, p) \<leftarrow> dupl mem start finish p;
          repeat mem copy (from - 1) (to - 1) p }
      | (Rep_N, Rep_INF) \<Rightarrow> do {
          (copy, p) \<leftarrow> dupl mem start finish p;
          repeat mem copy (from - 1) to p }
      | _ \<Rightarrow> Some (seterr REG_ASSERT p)))"
  by pat_completeness auto
termination
  by (relation "measure (\<lambda>(mem, start, from, to, p). from + to + (if from = 0 then 2 else 0))")
    (auto simp: MAP_def split: if_splits)

text \<open>\<open>x*\<close> is emitted as \<open>x+?\<close>.\<close>

definition emit_stars :: "allocator \<Rightarrow> nat \<Rightarrow> cparse \<Rightarrow> cparse option" where
  "emit_stars mem pos p = do {
     p \<leftarrow> doinsert mem OPLUS pos p;
     p \<leftarrow> ASTERN mem O_PLUS pos p;
     p \<leftarrow> doinsert mem OQUEST pos p;
     ASTERN mem O_QUEST pos p }"

text \<open>
  The bounds after a left brace: \<open>guard\<close> is the guard of the test for a second number, which the extended parser leaves
  out, so that it looks at the byte behind the text.
\<close>

definition p_bounds :: "(cparse \<Rightarrow> bool) \<Rightarrow> cparse \<Rightarrow> nat \<times> nat \<times> cparse" where
  "p_bounds guard p =
     (let (count, p) = p_count p; (comma, p) = EAT k_comma p
      in if comma then
           if guard p \<and> isdigit (PEEK p)
           then (let (count2, p) = p_count p in (count, count2, REQUIRE (count \<le> count2) REG_BADBR p))
           else (count, INFINITY, p)
         else (count, count, p))"

section \<open>Extended expressions\<close>

text \<open>Is there a repetition operator? A left brace is one if a digit follows.\<close>

definition at_repetition :: "cparse \<Rightarrow> bool" where
  "at_repetition p \<longleftrightarrow> (case p_next p of [] \<Rightarrow> False
     | c # cs \<Rightarrow> c = k_star \<or> c = k_plus \<or> c = k_quest \<or> c = k_lbrace \<and> (case cs of [] \<Rightarrow> False | d # _ \<Rightarrow> isdigit d))"

definition ere_bounds :: "allocator \<Rightarrow> nat \<Rightarrow> cparse \<Rightarrow> cparse option" where
  "ere_bounds mem pos p = do {
     let (count, count2, p) = p_bounds (\<lambda>_. True) p;
     p \<leftarrow> repeat mem pos count count2 p;
     let (ok, p) = EAT k_rbrace p;
     if ok then Some p
     else (let p = p\<lparr> p_next := dropWhile (\<lambda>c. c \<noteq> k_rbrace) (p_next p) \<rparr>;
               p = REQUIRE (MORE p) REG_EBRACE p
           in Some (seterr REG_BADBR p)) }"

text \<open>The rest of \<open>p_ere_exp\<close>, behind the atom.\<close>

definition ere_repetition :: "allocator \<Rightarrow> nat \<Rightarrow> bool \<Rightarrow> cparse \<Rightarrow> cparse option" where
  "ere_repetition mem pos wascaret p = (if \<not> at_repetition p then Some p else do {
     let c = PEEK p;
     let p = NEXTn 1 p;
     let p = REQUIRE (\<not> wascaret) REG_BADRPT p;
     p \<leftarrow> (if c = k_star then emit_stars mem pos p
          else if c = k_plus then do { p \<leftarrow> doinsert mem OPLUS pos p; ASTERN mem O_PLUS pos p }
          else if c = k_quest then do { p \<leftarrow> doinsert mem OCH pos p; emit_empty_branch mem pos p }
          else ere_bounds mem pos p);
     Some (if at_repetition p then seterr REG_BADRPT p else p) })"

definition use_bol :: "cparse \<Rightarrow> cparse" where
  "use_bol p = p\<lparr> p_iflags := p_iflags p OR USEBOL, p_nbol := p_nbol p + 1 \<rparr>"

definition use_eol :: "cparse \<Rightarrow> cparse" where
  "use_eol p = p\<lparr> p_iflags := p_iflags p OR USEEOL, p_neol := p_neol p + 1 \<rparr>"

text \<open>Parentheses: before and behind what they enclose.\<close>

definition open_paren :: "allocator \<Rightarrow> cparse \<Rightarrow> (nat \<times> cparse) option" where
  "open_paren mem p =
     (let p = p\<lparr> p_nsub := p_nsub p + 1 \<rparr>; subno = p_nsub p;
          p = (if subno < NPAREN then p\<lparr> p_pbegin := (p_pbegin p)[subno := HERE p] \<rparr> else p)
      in map_option (Pair subno) (doemit mem OLPAREN subno p))"

definition close_paren :: "allocator \<Rightarrow> nat \<Rightarrow> cparse \<Rightarrow> cparse option" where
  "close_paren mem subno p =
     doemit mem ORPAREN subno (if subno < NPAREN then p\<lparr> p_pend := (p_pend p)[subno := HERE p] \<rparr> else p)"

text \<open>
  The parser calls itself for what is in parentheses, and its loops run over the text; the first argument bounds
  both.
\<close>

fun p_ere :: "nat \<Rightarrow> allocator \<Rightarrow> byte option \<Rightarrow> cparse \<Rightarrow> cparse option"
  and p_ere_alts :: "nat \<Rightarrow> allocator \<Rightarrow> byte option \<Rightarrow> (nat \<times> nat) option \<Rightarrow> cparse \<Rightarrow> cparse option"
  and p_ere_concat :: "nat \<Rightarrow> allocator \<Rightarrow> byte option \<Rightarrow> cparse \<Rightarrow> cparse option"
  and p_ere_exp :: "nat \<Rightarrow> allocator \<Rightarrow> cparse \<Rightarrow> cparse option" where
  "p_ere 0 mem stop p = None"
| "p_ere (Suc k) mem stop p = p_ere_alts k mem stop None p"
| "p_ere_alts 0 mem stop prev p = None"
| "p_ere_alts (Suc k) mem stop prev p = do {
     let conc = HERE p;
     p \<leftarrow> p_ere_concat k mem stop p;
     let p = REQUIRE (HERE p \<noteq> conc) REG_EMPTY p;
     let (bar, p) = EAT k_bar p;
     if bar then do {
       (prevback, prevfwd, p) \<leftarrow> (case prev of
           None \<Rightarrow> do { p \<leftarrow> doinsert mem OCH conc p; Some (conc, conc, p) }
         | Some (prevback, prevfwd) \<Rightarrow> Some (prevback, prevfwd, p));
       p \<leftarrow> ASTERN mem OOR1 prevback p;
       let prevback = HERE p - 1;
       p \<leftarrow> AHEAD prevfwd p;
       let prevfwd = HERE p;
       p \<leftarrow> doemit mem OOR2 0 p;
       p_ere_alts k mem stop (Some (prevback, prevfwd)) p }
     else case prev of
         None \<Rightarrow> Some p
       | Some (prevback, prevfwd) \<Rightarrow> do { p \<leftarrow> AHEAD prevfwd p; ASTERN mem O_CH prevback p } }"
| "p_ere_concat 0 mem stop p = None"
| "p_ere_concat (Suc k) mem stop p =
     (if MORE p \<and> PEEK p \<noteq> k_bar \<and> Some (PEEK p) \<noteq> stop
      then do { p \<leftarrow> p_ere_exp k mem p; p_ere_concat k mem stop p } else Some p)"
| "p_ere_exp 0 mem p = None"
| "p_ere_exp (Suc k) mem p = do {
     let c = PEEK p;
     let p = NEXTn 1 p;
     let pos = HERE p;
     p \<leftarrow>
      (if c = k_lparen then do {
         let p = REQUIRE (MORE p) REG_EPAREN p;
         (subno, p) \<leftarrow> open_paren mem p;
         p \<leftarrow> (if SEE k_rparen p then Some p else p_ere k mem (Some k_rparen) p);
         p \<leftarrow> close_paren mem subno p;
         Some (MUSTEAT k_rparen REG_EPAREN p) }
       else if c = k_rparen then Some (seterr REG_EPAREN p)
       else if c = k_caret then map_option use_bol (doemit mem OBOL 0 p)
       else if c = k_dollar then map_option use_eol (doemit mem OEOL 0 p)
       else if c = k_bar then Some (seterr REG_EMPTY p)
       else if c = k_star \<or> c = k_plus \<or> c = k_quest then Some (seterr REG_BADRPT p)
       else if c = k_dot then (if flag_on (p_cflags p) REG_NEWLINE then nonnewline mem p else doemit mem OANY 0 p)
       else if c = k_lbrack then p_bracket mem p
       else if c = k_bslash then (let p = REQUIRE (MORE p) REG_EESCAPE p in ordinary mem (PEEK p) (NEXTn 1 p))
       else if c = k_lbrace then ordinary mem c (REQUIRE (\<not> MORE p \<or> \<not> isdigit (PEEK p)) REG_BADRPT p)
       else ordinary mem c p);
     ere_repetition mem pos (c = k_caret) p }"

section \<open>Strings and basic expressions\<close>

fun p_str_loop :: "allocator \<Rightarrow> byte list \<Rightarrow> cparse \<Rightarrow> cparse option" where
  "p_str_loop mem [] p = Some p"
| "p_str_loop mem (c # cs) p = (if MORE p then do { p \<leftarrow> ordinary mem c (NEXTn 1 p); p_str_loop mem cs p } else Some p)"

definition p_str :: "allocator \<Rightarrow> cparse \<Rightarrow> cparse option" where
  "p_str mem p = (let p = REQUIRE (MORE p) REG_EMPTY p in p_str_loop mem (p_next p) p)"

definition bre_bounds :: "allocator \<Rightarrow> nat \<Rightarrow> cparse \<Rightarrow> cparse option" where
  "bre_bounds mem pos p = do {
     let (count, count2, p) = p_bounds MORE p;
     p \<leftarrow> repeat mem pos count count2 p;
     let (ok, p) = EATTWO k_bslash k_rbrace p;
     if ok then Some p
     else (let p = p\<lparr> p_next := snd (before_two k_bslash k_rbrace (p_next p)) \<rparr>;
               p = REQUIRE (MORE p) REG_EBRACE p
           in Some (seterr REG_BADBR p)) }"

text \<open>A back reference repeats the strip of the parentheses between two marks.\<close>

definition emit_back :: "allocator \<Rightarrow> nat \<Rightarrow> cparse \<Rightarrow> cparse option" where
  "emit_back mem i p = do {
     p \<leftarrow> (if i < length (p_pend p) \<and> i < length (p_pbegin p) then
         if p_pend p ! i \<noteq> 0 then do {
           p \<leftarrow> doemit mem OBACK i p;
           (_, p) \<leftarrow> dupl mem (p_pbegin p ! i + 1) (p_pend p ! i) p;
           doemit mem O_BACK i p }
         else Some (seterr REG_ESUBREG p)
       else None);
     Some (p\<lparr> p_backrefs := True \<rparr>) }"

fun p_bre :: "nat \<Rightarrow> allocator \<Rightarrow> (byte \<times> byte) option \<Rightarrow> cparse \<Rightarrow> cparse option"
  and p_bre_loop :: "nat \<Rightarrow> allocator \<Rightarrow> (byte \<times> byte) option \<Rightarrow> bool \<Rightarrow> bool \<Rightarrow> cparse \<Rightarrow> (bool \<times> cparse) option"
  and p_simp_re :: "nat \<Rightarrow> allocator \<Rightarrow> bool \<Rightarrow> cparse \<Rightarrow> (bool \<times> cparse) option" where
  "p_bre 0 mem ends p = None"
| "p_bre (Suc k) mem ends p = do {
     let start = HERE p;
     let (caret, p) = EAT k_caret p;
     p \<leftarrow> (if caret then map_option use_bol (doemit mem OBOL 0 p) else Some p);
     (wasdollar, p) \<leftarrow> p_bre_loop k mem ends True False p;
     p \<leftarrow> (if wasdollar then map_option use_eol (doemit mem OEOL 0 (p\<lparr> p_strip := butlast (p_strip p) \<rparr>)) else Some p);
     Some (REQUIRE (HERE p \<noteq> start) REG_EMPTY p) }"
| "p_bre_loop 0 mem ends first wasdollar p = None"
| "p_bre_loop (Suc k) mem ends first wasdollar p =
     (if MORE p \<and> (case ends of None \<Rightarrow> True | Some (a, b) \<Rightarrow> \<not> SEETWO a b p)
      then do { (wasdollar, p) \<leftarrow> p_simp_re k mem first p; p_bre_loop k mem ends False wasdollar p }
      else Some (wasdollar, p))"
| "p_simp_re 0 mem starordinary p = None"
| "p_simp_re (Suc k) mem starordinary p = do {
     let pos = HERE p;
     let c = PEEK p;
     let p = NEXTn 1 p;
     let backsl = (c = k_bslash);
     let p = (if backsl then REQUIRE (MORE p) REG_EESCAPE p else p);
     let (c, p) = (if backsl then (PEEK p, NEXTn 1 p) else (c, p));
     p \<leftarrow>
      (if \<not> backsl \<and> c = k_dot then (if flag_on (p_cflags p) REG_NEWLINE then nonnewline mem p else doemit mem OANY 0 p)
       else if \<not> backsl \<and> c = k_lbrack then p_bracket mem p
       else if backsl \<and> c = k_lbrace then Some (seterr REG_BADRPT p)
       else if backsl \<and> c = k_lparen then do {
         (subno, p) \<leftarrow> open_paren mem p;
         p \<leftarrow> (if MORE p \<and> \<not> SEETWO k_bslash k_rparen p then p_bre k mem (Some (k_bslash, k_rparen)) p else Some p);
         p \<leftarrow> close_paren mem subno p;
         let (ok, p) = EATTWO k_bslash k_rparen p;
         Some (REQUIRE ok REG_EPAREN p) }
       else if backsl \<and> (c = k_rparen \<or> c = k_rbrace) then Some (seterr REG_EPAREN p)
       else if backsl \<and> 0x31 \<le> c \<and> c \<le> 0x39 then emit_back mem (unat (c - 0x30)) p
       else if \<not> backsl \<and> c = k_star then ordinary mem c (REQUIRE starordinary REG_BADRPT p)
       else ordinary mem c p);
     let (star, p) = EAT k_star p;
     if star then map_option (Pair False) (emit_stars mem pos p)
     else (let (brace, p) = EATTWO k_bslash k_lbrace p
           in if brace then map_option (Pair False) (bre_bounds mem pos p)
              else Some (\<not> backsl \<and> c = k_dollar, p)) }"

end
