(* ===== verification/Posix_Compile.thy ===== *)
theory Posix_Compile
  imports Posix_Parse
begin

text \<open>
  What \<open>regcomp\<close> of \<open>cygwin/regex\<close> does around its parser: the categories of characters, the string that
  every match contains, the nesting of pluses, and the compiled expression.
\<close>

section \<open>Behind the parser\<close>

text \<open>The character categories. \<open>char_index\<close> is the place of a \<open>char\<close> in \<open>catspace\<close>.\<close>

definition set_columns :: "cparse \<Rightarrow> byte list list" where
  "set_columns p = take ((p_ncsets p + 7) div 8) (p_bits p)"

definition isinsets :: "byte \<Rightarrow> cparse \<Rightarrow> bool" where
  "isinsets c p \<longleftrightarrow> list_ex (\<lambda>col. col ! unat c \<noteq> 0) (set_columns p)"

definition samesets :: "byte \<Rightarrow> byte \<Rightarrow> cparse \<Rightarrow> bool" where
  "samesets c c2 p \<longleftrightarrow> list_all (\<lambda>col. col ! unat c = col ! unat c2) (set_columns p)"

definition char_index :: "int \<Rightarrow> nat" where
  "char_index c = nat (c + 128)"

definition categorize_char :: "int \<Rightarrow> cparse \<Rightarrow> cparse" where
  "categorize_char c p =
     (if p_cats p ! char_index c = 0 \<and> isinsets (word_of_int c) p then
        (let cat = of_nat (p_ncats p);
             others = filter (\<lambda>c2. p_cats p ! char_index c2 = 0 \<and> samesets (word_of_int c) (word_of_int c2) p) [c + 1 .. 127]
         in p\<lparr> p_ncats := p_ncats p + 1,
               p_cats := fold (\<lambda>c2 cats. cats[char_index c2 := cat]) others ((p_cats p)[char_index c := cat]) \<rparr>)
      else p)"

definition categorize :: "cparse \<Rightarrow> cparse" where
  "categorize p = (if p_error p \<noteq> 0 then p else fold categorize_char [- 128 .. 127] p)"

definition stripsnug :: "allocator \<Rightarrow> cparse \<Rightarrow> cparse" where
  "stripsnug mem p = (let (ok, p) = ask mem p in if ok then p else seterr REG_ESPACE p)"

text \<open>
  The longest run of characters: \<open>scan\<close> is the position behind the operator looked at, and the candidates are
  positions with their lengths. The inner \<open>None\<close> is \<open>BAD\<close>.
\<close>

partial_function (option) skip_choice :: "sop list \<Rightarrow> nat \<Rightarrow> nat \<Rightarrow> nat option option" where
  "skip_choice ops scan n =
     (if scan + n < length ops then
        (let s = ops ! (scan + n) in
           if OP s \<notin> {O_QUEST, O_CH, OOR2} then Some None
           else if OP s = OOR2 then skip_choice ops (scan + n) (OPND s) else Some (Some (scan + n)))
      else None)"

partial_function (option) must_scan :: "sop list \<Rightarrow> nat \<Rightarrow> nat \<times> nat \<Rightarrow> nat \<times> nat \<Rightarrow> (nat \<times> nat) option option" where
  "must_scan ops scan new best =
     (if scan < length ops then
        (let s = ops ! scan; ended = (if snd new > snd best then new else best) in
         if OP s = OCHAR then must_scan ops (scan + 1) (if snd new = 0 then scan else fst new, snd new + 1) best
         else if OP s = OPLUS \<or> OP s = OLPAREN \<or> OP s = ORPAREN then must_scan ops (scan + 1) new best
         else if OP s = OQUEST \<or> OP s = OCH then do {
           r \<leftarrow> skip_choice ops scan (OPND s);
           case r of None \<Rightarrow> Some None | Some scan \<Rightarrow> must_scan ops scan (fst new, 0) ended }
         else if OP s = OEND then Some (Some ended)
         else must_scan ops (scan + 1) (fst new, 0) ended)
      else None)"

declare skip_choice.simps [code] must_scan.simps [code]

fun copy_chars :: "nat \<Rightarrow> sop list \<Rightarrow> byte list option" where
  "copy_chars 0 ops = Some []"
| "copy_chars (Suc i) [] = None"
| "copy_chars (Suc i) (s # ops) =
     (if OP s = OCHAR then map_option (Cons (of_nat (OPND s))) (copy_chars i ops) else copy_chars (Suc i) ops)"

text \<open>\<open>must\<close>, and whether the strip is bad.\<close>

definition findmust :: "allocator \<Rightarrow> cparse \<Rightarrow> (byte list option \<times> cparse) option" where
  "findmust mem p = (if p_error p \<noteq> 0 then Some (None, p) else do {
     r \<leftarrow> must_scan (p_strip p) 1 (0, 0) (0, 0);
     case r of
       None \<Rightarrow> Some (None, p\<lparr> p_iflags := p_iflags p OR BAD \<rparr>)
     | Some (start, n) \<Rightarrow>
         if n = 0 then Some (None, p)
         else (let (ok, p) = ask mem p
               in if ok then map_option (\<lambda>cs. (Some cs, p)) (copy_chars n (drop start (p_strip p))) else Some (None, p)) })"

text \<open>The nesting of pluses: the present and the greatest depth.\<close>

fun plus_scan :: "sop list \<Rightarrow> int \<Rightarrow> int \<Rightarrow> (int \<times> int) option" where
  "plus_scan [] nest deepest = None"
| "plus_scan (s # ops) nest deepest =
     (if OP s = OEND then Some (nest, deepest)
      else if OP s = OPLUS then plus_scan ops (nest + 1) deepest
      else if OP s = O_PLUS then plus_scan ops (nest - 1) (max nest deepest)
      else plus_scan ops nest deepest)"

definition pluscount :: "cparse \<Rightarrow> (nat \<times> cparse) option" where
  "pluscount p = (if p_error p \<noteq> 0 then Some (0, p) else do {
     (nest, deepest) \<leftarrow> plus_scan (drop 1 (p_strip p)) 0 0;
     Some (nat deepest, if nest \<noteq> 0 then p\<lparr> p_iflags := p_iflags p OR BAD \<rparr> else p) })"

section \<open>regcomp\<close>

text \<open>The sets of the finished expression.\<close>

definition cset_of :: "cparse \<Rightarrow> nat \<Rightarrow> cset" where
  "cset_of p no = \<lparr> set_ptr = p_bits p ! set_col no, set_mask = set_bit no, set_hash = p_hash p ! no, set_multis = [] \<rparr>"

definition guts_of :: "cparse \<Rightarrow> nat \<Rightarrow> byte list option \<Rightarrow> nat \<Rightarrow> re_guts" where
  "guts_of p endst w depth = \<lparr> magic = MAGIC2, strip = p_strip p, sets = map (cset_of p) [0 ..< p_ncsets p],
     cflags = p_cflags p, firststate = 0, laststate = endst, iflags = p_iflags p, nbol = p_nbol p, neol = p_neol p,
     must = w, nsub = p_nsub p, backrefs = p_backrefs p, nplus = depth \<rparr>"

definition parse_start :: "byte list \<Rightarrow> byte \<Rightarrow> int \<Rightarrow> cparse" where
  "parse_start pattern past cf = \<lparr> p_next = pattern, p_past = past, p_error = 0, p_strip = [],
     p_ssize = length pattern div 2 * 3 + 1, p_ncsalloc = 0, p_pbegin = replicate NPAREN 0, p_pend = replicate NPAREN 0,
     p_ncsets = 0, p_hash = [], p_bits = [], p_cflags = cf, p_iflags = 0, p_nbol = 0, p_neol = 0, p_ncats = 1,
     p_cats = replicate NC 0, p_nsub = 0, p_backrefs = False, p_calls = 2 \<rparr>"

text \<open>The bound of the parser: what it takes for the length of the text.\<close>

definition parse_fuel :: "byte list \<Rightarrow> nat" where
  "parse_fuel pattern = 4 * length pattern + 4"

definition regcomp_parse :: "allocator \<Rightarrow> byte list \<Rightarrow> byte \<Rightarrow> int \<Rightarrow> cparse option" where
  "regcomp_parse mem pattern past cf = do {
     p \<leftarrow> doemit mem OEND 0 (parse_start pattern past cf);
     p \<leftarrow> (if flag_on cf REG_EXTENDED then p_ere (parse_fuel pattern) mem None p
          else if flag_on cf REG_NOSPEC then p_str mem p
          else p_bre (parse_fuel pattern) mem None p);
     doemit mem OEND 0 p }"

text \<open>\<open>regfree\<close> marks both structures invalid; what it frees has no trace here.\<close>

definition regfree :: "regex_t \<Rightarrow> regex_t" where
  "regfree preg = (if re_magic preg \<noteq> MAGIC1 \<or> magic (re_g preg) \<noteq> MAGIC2 then preg
     else \<lparr> re_magic = 0, re_g = (re_g preg)\<lparr> magic := 0 \<rparr> \<rparr>)"

text \<open>
  The pattern is the string, or with \<open>REG_PEND\<close> the bytes up to \<open>re_endp\<close>, followed by \<open>past\<close>; \<open>None\<close> in its place
  says that \<open>re_endp\<close> is before the pattern.
\<close>

definition posix_regcomp :: "allocator \<Rightarrow> byte list option \<Rightarrow> byte \<Rightarrow> int \<Rightarrow> (int \<times> regex_t option) option" where
  "posix_regcomp mem pattern past cf = do {
     let cf = cf AND NOT REG_DUMP;
     if flag_on cf REG_EXTENDED \<and> flag_on cf REG_NOSPEC then Some (REG_INVARG, None)
     else case pattern of
       None \<Rightarrow> Some (REG_INVARG, None)
     | Some pattern \<Rightarrow>
         if \<not> mem 0 \<or> \<not> mem 1 then Some (REG_ESPACE, None)
         else do {
           p \<leftarrow> regcomp_parse mem pattern past cf;
           let endst = HERE p - 1;
           let p = stripsnug mem (categorize p);
           (w, p) \<leftarrow> findmust mem p;
           (depth, p) \<leftarrow> pluscount p;
           let preg = \<lparr> re_magic = MAGIC1, re_g = guts_of p endst w depth \<rparr>;
           let p = (if flag_on (p_iflags p) BAD then seterr REG_ASSERT p else p);
           Some (p_error p, Some (if p_error p \<noteq> 0 then regfree preg else preg)) } }"

end
