(* ===== verification/Posix_Steps.thy ===== *)
theory Posix_Steps
  imports Posix_Engine
begin

text \<open>
  The engine on sets of states. \<open>jumps\<close> and \<open>eats\<close> are the edges of the automaton that a strip is; the
  locale \<open>state_rep\<close> is what the engine needs of a representation of sets of states, and both
  instances of \<open>regexec.c\<close> provide it. Inside the locale \<open>step\<close> is the closure under the edges,
  \<open>slow\<close> finds the longest match from a position, and \<open>fast\<close> tells whether there is a match at all and a
  position before which none starts.
\<close>

section \<open>The automaton of a strip\<close>

definition eats :: "re_guts \<Rightarrow> int \<Rightarrow> nat \<Rightarrow> bool" where
  "eats g ch p = (let s = strip g ! p in case OP s of
       OCHAR \<Rightarrow> ch = char_of_byte (of_nat (OPND s))
     | OBOL \<Rightarrow> ch = BOL \<or> ch = BOLEOL
     | OEOL \<Rightarrow> ch = EOL \<or> ch = BOLEOL
     | OBOW \<Rightarrow> ch = BOW
     | OEOW \<Rightarrow> ch = EOW
     | OANY \<Rightarrow> \<not> NONCHAR ch
     | OANYOF \<Rightarrow> \<not> NONCHAR ch \<and> CHIN (sets g ! OPND s) (word_of_int ch)
     | _ \<Rightarrow> False)"

definition jumps :: "re_guts \<Rightarrow> nat \<Rightarrow> nat set" where
  "jumps g p = (let s = strip g ! p in case OP s of
       O_PLUS \<Rightarrow> {p + 1, p - OPND s}
     | OQUEST \<Rightarrow> {p + 1, p + OPND s}
     | OCH \<Rightarrow> {p + 1, p + OPND s}
     | OOR1 \<Rightarrow> (case look_och g (p + 1) of None \<Rightarrow> {} | Some e \<Rightarrow> {e})
     | OOR2 \<Rightarrow> (if OP (strip g ! (p + OPND s)) = O_CH then {p + 1} else {p + 1, p + OPND s})
     | OBACK \<Rightarrow> {p + 1} | O_BACK \<Rightarrow> {p + 1} | OPLUS \<Rightarrow> {p + 1} | O_QUEST \<Rightarrow> {p + 1}
     | OLPAREN \<Rightarrow> {p + 1} | ORPAREN \<Rightarrow> {p + 1} | O_CH \<Rightarrow> {p + 1}
     | _ \<Rightarrow> {})"

text \<open>The operands of the strip between \<open>a\<close> and \<open>b\<close> lead nowhere else.\<close>

definition op_ok :: "re_guts \<Rightarrow> nat \<Rightarrow> nat \<Rightarrow> nat \<Rightarrow> bool" where
  "op_ok g a b p = (let s = strip g ! p in case OP s of
       O_PLUS \<Rightarrow> a + OPND s \<le> p
     | OQUEST \<Rightarrow> p + OPND s \<le> b
     | OCH \<Rightarrow> p + OPND s \<le> b
     | OOR1 \<Rightarrow> (case look_och g (p + 1) of None \<Rightarrow> False | Some e \<Rightarrow> p < e \<and> e \<le> b)
     | OOR2 \<Rightarrow> p + OPND s \<le> b
     | OANYOF \<Rightarrow> OPND s < length (sets g)
     | _ \<Rightarrow> True)"

definition strip_ok :: "re_guts \<Rightarrow> nat \<Rightarrow> nat \<Rightarrow> bool" where
  "strip_ok g a b \<longleftrightarrow> a \<le> b \<and> b < nstates g \<and> (\<forall>p \<in> set [a ..< b]. op_ok g a b p)"

lemma strip_okD:
  assumes "strip_ok g a b" "a \<le> p" "p < b"
  shows "op_ok g a b p" "p < nstates g" "sop_at g p = Some (strip g ! p)"
  using assms by (auto simp: strip_ok_def sop_at_def nstates_def)

lemma jumps_range: "strip_ok g a b \<Longrightarrow> a \<le> p \<Longrightarrow> p < b \<Longrightarrow> q \<in> jumps g p \<Longrightarrow> a \<le> q \<and> q \<le> b"
  using strip_okD(1) [of g a b p]
  by (auto simp: jumps_def op_ok_def Let_def split: oper.splits if_splits option.splits)

section \<open>Closures\<close>

definition clo :: "(nat \<Rightarrow> nat set) \<Rightarrow> nat set \<Rightarrow> nat set" where
  "clo E X = {q. \<exists>p \<in> X. (\<lambda>x y. y \<in> E x)\<^sup>*\<^sup>* p q}"

lemma clo_base: "X \<subseteq> clo E X"
  by (auto simp: clo_def)

lemma clo_step: "p \<in> clo E X \<Longrightarrow> E p \<subseteq> clo E X"
  unfolding clo_def by (auto intro: rtranclp.rtrancl_into_rtrancl)

lemma clo_least:
  assumes "X \<subseteq> Y" "\<And>p. p \<in> Y \<Longrightarrow> E p \<subseteq> Y"
  shows "clo E X \<subseteq> Y"
proof
  fix q assume "q \<in> clo E X"
  then obtain p where "p \<in> X" "(\<lambda>x y. y \<in> E x)\<^sup>*\<^sup>* p q" by (auto simp: clo_def)
  from this(2,1) show "q \<in> Y" by induction (use assms in blast)+
qed

lemma clo_eqI: "X \<subseteq> Y \<Longrightarrow> Y \<subseteq> clo E X \<Longrightarrow> (\<And>p. p \<in> Y \<Longrightarrow> E p \<subseteq> Y) \<Longrightarrow> Y = clo E X"
  using clo_least by (meson subset_antisym)

lemma clo_un: "clo E (X \<union> Y) = clo E X \<union> clo E Y"
  by (auto simp: clo_def)

lemma clo_empty [simp]: "clo E {} = {}"
  by (simp add: clo_def)

lemma clo_closed: "(\<And>p. p \<in> X \<Longrightarrow> E p \<subseteq> X) \<Longrightarrow> clo E X = X"
  using clo_base clo_least by (metis order_refl subset_antisym)

lemma clo_mono: "X \<subseteq> Y \<Longrightarrow> clo E X \<subseteq> clo E Y"
  by (auto simp: clo_def)

lemma clo_clo: "(\<And>p. E p \<subseteq> F p) \<Longrightarrow> clo F (clo E X) = clo F X"
proof (rule subset_antisym)
  assume *: "\<And>p. E p \<subseteq> F p"
  have "clo E X \<subseteq> clo F X" using clo_base clo_step * by (intro clo_least) blast+
  then show "clo F (clo E X) \<subseteq> clo F X" using clo_step by (rule clo_least)
  show "clo F X \<subseteq> clo F (clo E X)" using clo_mono [OF clo_base] .
qed

text \<open>The edges inside a part of a strip: the jumps, and those that read \<open>ch\<close>.\<close>

definition EJ :: "re_guts \<Rightarrow> nat \<Rightarrow> nat \<Rightarrow> nat \<Rightarrow> nat set" where
  "EJ g a b p = (if a \<le> p \<and> p < b then jumps g p else {})"

definition EA :: "re_guts \<Rightarrow> nat \<Rightarrow> nat \<Rightarrow> int \<Rightarrow> nat \<Rightarrow> nat set" where
  "EA g a b ch p = (if a \<le> p \<and> p < b then jumps g p \<union> (if eats g ch p then {p + 1} else {}) else {})"

definition reads :: "re_guts \<Rightarrow> nat \<Rightarrow> nat \<Rightarrow> int \<Rightarrow> nat set \<Rightarrow> nat set" where
  "reads g a b ch X = {p + 1 | p. p \<in> X \<and> a \<le> p \<and> p < b \<and> eats g ch p}"

lemma EJ_EA: "EJ g a b p \<subseteq> EA g a b ch p"
  by (simp add: EJ_def EA_def)

lemma reads_un: "reads g a b ch (X \<union> Y) = reads g a b ch X \<union> reads g a b ch Y"
  by (auto simp: reads_def)

lemma reads_empty [simp]: "reads g a b ch {} = {}"
  by (simp add: reads_def)

section \<open>What the engine needs of a representation\<close>

locale state_rep =
  fixes R :: "'s states_ops"
    and N :: nat
    and inv :: "'s \<Rightarrow> bool"
    and members :: "'s \<Rightarrow> nat set"
  assumes clear: "inv (CLEAR R N)" "members (CLEAR R N) = {}"
    and bounded: "inv v \<Longrightarrow> members v \<subseteq> {..<N}"
    and set1: "inv v \<Longrightarrow> n < N \<Longrightarrow> \<exists>v'. SET1 R v n = Some v' \<and> inv v' \<and> members v' = insert n (members v)"
    and isset: "inv v \<Longrightarrow> n < N \<Longrightarrow> ISSET R v n = Some (n \<in> members v)"
    and eq: "inv v \<Longrightarrow> inv w \<Longrightarrow> EQ R v w \<longleftrightarrow> members v = members w"
    and fwd: "inv v \<Longrightarrow> inv w \<Longrightarrow> p + n < N \<Longrightarrow>
      \<exists>v'. FWD R v w p n = Some v' \<and> inv v' \<and> members v' = members v \<union> (if p \<in> members w then {p + n} else {})"
    and bwd: "inv v \<Longrightarrow> inv w \<Longrightarrow> p < N \<Longrightarrow> n \<le> p \<Longrightarrow>
      \<exists>v'. BACK R v w p n = Some v' \<and> inv v' \<and> members v' = members v \<union> (if p \<in> members w then {p - n} else {})"
    and issetback: "inv v \<Longrightarrow> p < N \<Longrightarrow> n \<le> p \<Longrightarrow> ISSETBACK R v p n = Some (p - n \<in> members v)"
    and isstatein: "inv v \<Longrightarrow> p < N \<Longrightarrow> ISSTATEIN R v p = Some (p \<in> members v)"
begin

text \<open>\<open>bef = None\<close> is the set \<open>aft\<close> itself.\<close>

definition before :: "'s option \<Rightarrow> 's \<Rightarrow> nat set" where
  "before bef aft = members (case bef of None \<Rightarrow> aft | Some v \<Rightarrow> v)"

lemma go_one:
  assumes "inv aft" "p + 1 < N"
  shows "\<exists>v. (do { a \<leftarrow> FWD R aft aft p 1; Some (a, p + 1) }) = Some (v, p + 1) \<and> inv v
    \<and> members v = members aft \<union> (if p \<in> members aft then {p + 1} else {})"
  using fwd [OF assms(1,1,2)] by auto

lemma go_two:
  assumes "inv aft" "p + 1 < N" "p + n < N"
  shows "\<exists>v. (do { a \<leftarrow> FWD R aft aft p 1; a \<leftarrow> FWD R a a p n; Some (a, p + 1) }) = Some (v, p + 1) \<and> inv v
    \<and> members v = members aft \<union> (if p \<in> members aft then {p + 1, p + n} else {})"
proof -
  obtain v where v: "FWD R aft aft p 1 = Some v" "inv v" "members v = members aft \<union> (if p \<in> members aft then {p + 1} else {})"
    using fwd [OF assms(1,1,2)] by blast
  obtain w where "FWD R v v p n = Some w" "inv w" "members w = members v \<union> (if p \<in> members v then {p + n} else {})"
    using fwd [OF v(2,2) assms(3)] by blast
  then show ?thesis using v assms by auto
qed

lemma take_one:
  assumes "inv aft" "\<And>v. bef = Some v \<Longrightarrow> inv v" "p + 1 < N"
  shows "\<exists>v. (if b then do { a \<leftarrow> FWD R aft (case bef of None \<Rightarrow> aft | Some v \<Rightarrow> v) p 1; Some (a, p + 1) }
      else Some (aft, p + 1)) = Some (v, p + 1) \<and> inv v
    \<and> members v = members aft \<union> (if b \<and> p \<in> before bef aft then {p + 1} else {})"
proof -
  have "inv (case bef of None \<Rightarrow> aft | Some v \<Rightarrow> v)" using assms(1,2) by (simp split: option.split)
  from fwd [OF assms(1) this assms(3)] assms(1) show ?thesis by (auto simp: before_def)
qed

text \<open>One turn of the loop: the successors of \<open>p\<close> are there, and a jump backwards only to a new state.\<close>

definition turned :: "re_guts \<Rightarrow> 's option \<Rightarrow> int \<Rightarrow> nat \<Rightarrow> 's \<Rightarrow> 's \<Rightarrow> nat \<Rightarrow> bool" where
  "turned g bef ch p aft v q \<longleftrightarrow> inv v
     \<and> members v = members aft \<union> (if p \<in> members aft then jumps g p else {})
        \<union> (if eats g ch p \<and> p \<in> before bef aft then {p + 1} else {})
     \<and> (q = p + 1 \<or> q \<le> p \<and> q \<in> jumps g p \<and> q \<in> members v \<and> q \<notin> members aft)
     \<and> (\<forall>r \<in> members v. r \<in> members aft \<or> q \<le> r)"

lemma step_op_turned:
  assumes "strip_ok g a b" "nstates g = N" "a \<le> p" "p < b" "inv aft" "\<And>v. bef = Some v \<Longrightarrow> inv v"
  shows "\<exists>v q. step_op R g bef ch p aft = Some (v, q) \<and> turned g bef ch p aft v q"
proof -
  obtain op n where s: "strip g ! p = (op, n)" by fastforce
  note at = strip_okD [OF assms(1,3,4)]
  have len: "p + 1 < N" "b < N" using assms(1,2,4) by (auto simp: strip_ok_def)
  note go = go_one [OF assms(5) len(1)] and take = take_one [OF assms(5,6) len(1)]
  have one: "\<exists>v q. step_op R g bef ch p aft = Some (v, q) \<and> turned g bef ch p aft v q"
    if "step_op R g bef ch p aft = do { a \<leftarrow> FWD R aft aft p 1; Some (a, p + 1) }"
      "jumps g p = {p + 1}" "\<not> eats g ch p"
    using go that by (auto simp: turned_def)
  have two: "\<exists>v q. step_op R g bef ch p aft = Some (v, q) \<and> turned g bef ch p aft v q"
    if "step_op R g bef ch p aft = do { a \<leftarrow> FWD R aft aft p 1; a \<leftarrow> FWD R a a p n; Some (a, p + 1) }"
      "jumps g p = {p + 1, p + n}" "\<not> eats g ch p" "p + n < N"
    using go_two [OF assms(5) len(1) that(4)] that by (cases n) (auto simp: turned_def)
  have reading: "\<exists>v q. step_op R g bef ch p aft = Some (v, q) \<and> turned g bef ch p aft v q"
    if "step_op R g bef ch p aft = (if eats g ch p then do { a \<leftarrow> FWD R aft (case bef of None \<Rightarrow> aft | Some v \<Rightarrow> v) p 1; Some (a, p + 1) }
      else Some (aft, p + 1))" "jumps g p = {}"
    using take [of bef "eats g ch p"] that by (auto simp: turned_def)
  show ?thesis
  proof (cases op)
    case OEND
    then show ?thesis using s at assms(5) by (simp add: step_op_def turned_def jumps_def eats_def)
  next
    case O_PLUS
    have n: "n \<le> p" "a \<le> p - n" using at(1) s O_PLUS by (auto simp: op_ok_def)
    obtain v where v: "FWD R aft aft p 1 = Some v" "inv v" "members v = members aft \<union> (if p \<in> members aft then {p + 1} else {})"
      using fwd [OF assms(5,5) len(1)] by blast
    obtain w where w: "BACK R v v p n = Some w" "inv w" "members w = members v \<union> (if p \<in> members v then {p - n} else {})"
      using bwd [OF v(2,2) _ n(1)] len by auto
    have i: "ISSETBACK R v p n = Some (p - n \<in> members v)" "ISSETBACK R w p n = Some (p - n \<in> members w)"
      using issetback v(2) w(2) n(1) len by auto
    have j: "jumps g p = {p + 1, p - n}" "\<not> eats g ch p" using s O_PLUS by (simp_all add: jumps_def eats_def)
    have "step_op R g bef ch p aft = Some (w, if p - n \<notin> members v \<and> p - n \<in> members w then p - n else p + 1)"
      using s O_PLUS at(3) v(1) w(1) i n(1) by (auto simp: step_op_def)
    moreover have "p - n \<noteq> p + 1" by simp
    ultimately show ?thesis
      using v(3) w(2,3) j by (auto simp: turned_def)
  next
    case OQUEST
    then show ?thesis using s at len by (intro two) (auto simp: step_op_def jumps_def eats_def op_ok_def)
  next
    case OCH
    then show ?thesis using s at len by (intro two) (auto simp: step_op_def jumps_def eats_def op_ok_def)
  next
    case OOR1
    then obtain e where e: "look_och g (p + 1) = Some e" "p < e" "e \<le> b"
      using s at(1) by (auto simp: op_ok_def split: option.splits)
    obtain v where v: "FWD R aft aft p (e - p) = Some v" "inv v" "members v = members aft \<union> (if p \<in> members aft then {e} else {})"
      using fwd [OF assms(5,5), of p "e - p"] e len by auto
    have "step_op R g bef ch p aft = Some (if p \<in> members aft then v else aft, p + 1)"
      using s OOR1 at(3) e v(1) isstatein [OF assms(5), of p] len by (simp add: step_op_def)
    then show ?thesis using v(2,3) assms(5) s OOR1 e by (auto simp: turned_def jumps_def eats_def)
  next
    case OOR2
    have n: "p + n < N" "sop_at g (p + n) = Some (strip g ! (p + n))"
      using s OOR2 at(1) len assms(2) by (auto simp: op_ok_def sop_at_def nstates_def)
    show ?thesis
    proof (cases "OP (strip g ! (p + n)) = O_CH")
      case True
      then show ?thesis using s OOR2 at(3) n go by (intro one) (auto simp: step_op_def jumps_def eats_def)
    next
      case False
      then show ?thesis using s OOR2 at(3) n by (intro two) (auto simp: step_op_def jumps_def eats_def)
    qed
  next
    case OANYOF
    then show ?thesis using s at by (intro reading) (auto simp: step_op_def jumps_def eats_def op_ok_def)
  qed (use s at in \<open>(intro reading; simp add: step_op_def jumps_def eats_def; fail) | (intro one; simp add: step_op_def jumps_def eats_def; fail)\<close>)+
qed

end

context state_rep
begin

definition edges :: "re_guts \<Rightarrow> nat \<Rightarrow> nat \<Rightarrow> 's option \<Rightarrow> int \<Rightarrow> nat \<Rightarrow> nat set" where
  "edges g a b bef ch = (case bef of None \<Rightarrow> EA g a b ch | Some _ \<Rightarrow> EJ g a b)"

definition seeds :: "re_guts \<Rightarrow> nat \<Rightarrow> nat \<Rightarrow> 's option \<Rightarrow> int \<Rightarrow> nat set" where
  "seeds g a b bef ch = (case bef of None \<Rightarrow> {} | Some v \<Rightarrow> reads g a b ch (members v))"

text \<open>All states below \<open>pc\<close> have their successors.\<close>

definition done_below :: "re_guts \<Rightarrow> nat \<Rightarrow> nat \<Rightarrow> 's option \<Rightarrow> int \<Rightarrow> nat \<Rightarrow> 's \<Rightarrow> bool" where
  "done_below g a b bef ch pc X \<longleftrightarrow> (\<forall>p. a \<le> p \<and> p < pc \<longrightarrow> (p \<in> members X \<longrightarrow> edges g a b bef ch p \<subseteq> members X)
     \<and> (\<forall>v. bef = Some v \<and> p \<in> members v \<and> eats g ch p \<longrightarrow> p + 1 \<in> members X))"

lemma turned_effect:
  assumes "turned g bef ch p aft v q" "a \<le> p" "p < b"
  shows "members aft \<subseteq> members v" "members v \<subseteq> members aft \<union> (if p \<in> members aft then edges g a b bef ch p else {}) \<union> seeds g a b bef ch"
    and "p \<in> members aft \<Longrightarrow> edges g a b bef ch p \<subseteq> members v"
    and "bef = Some w \<Longrightarrow> p \<in> members w \<Longrightarrow> eats g ch p \<Longrightarrow> p + 1 \<in> members v"
  using assms by (cases bef; auto simp: turned_def edges_def seeds_def EA_def EJ_def reads_def before_def)+

lemma turned_next:
  assumes "turned g bef ch p aft v q" "a \<le> p" "p < b" "strip_ok g a b"
  shows "a \<le> q" "q \<le> b" "q \<le> p + 1" "r \<in> members v \<Longrightarrow> r < q \<Longrightarrow> r \<in> members aft"
    and "q \<noteq> p + 1 \<Longrightarrow> q \<in> members v - members aft"
  using assms jumps_range [OF assms(4,2,3)] by (auto simp: turned_def split: if_splits)

lemma done_below_step:
  assumes "done_below g a b bef ch p aft" "turned g bef ch p aft v q" "a \<le> p" "p < b" "strip_ok g a b"
  shows "done_below g a b bef ch q v"
proof -
  note eff = turned_effect [OF assms(2-4)] and nxt = turned_next [OF assms(2-5)]
  show ?thesis
    unfolding done_below_def
  proof (intro allI impI conjI)
    fix r assume r: "a \<le> r \<and> r < q" "r \<in> members v"
    then have "r \<in> members aft" using nxt(4) by blast
    then show "edges g a b bef ch r \<subseteq> members v"
    proof (cases "r = p")
      case False
      then have "r < p" using r nxt(3) by simp
      then show ?thesis using \<open>r \<in> members aft\<close> r assms(1) eff(1) unfolding done_below_def by blast
    qed (use eff(3) in blast)
  next
    fix r w assume r: "a \<le> r \<and> r < q" "bef = Some w \<and> r \<in> members w \<and> eats g ch r"
    show "r + 1 \<in> members v"
    proof (cases "r = p")
      case False
      then have "r < p" using r nxt(3) by simp
      then show ?thesis using r assms(1) eff(1) unfolding done_below_def by blast
    qed (use r eff(4) in blast)
  qed
qed

lemma members_finite: "inv v \<Longrightarrow> finite (members v) \<and> card (members v) \<le> N"
  using bounded [of v] finite_subset [of "members v" "{..<N}"] card_mono [of "{..<N}" "members v"] by auto

lemma turn_measure:
  assumes "turned g bef ch p aft v q" "inv aft" "a \<le> p" "p < b" "strip_ok g a b"
  shows "(N - card (members v)) * (b + 1) + (b - q) < (N - card (members aft)) * (b + 1) + (b - p)"
proof -
  have v: "inv v" using assms(1) by (simp add: turned_def)
  note nxt = turned_next [OF assms(1,3-5)] and eff = turned_effect [OF assms(1,3,4)]
  have sub: "card (members aft) \<le> card (members v)" using eff(1) members_finite [OF v] by (simp add: card_mono)
  show ?thesis
  proof (cases "q = p + 1")
    case True
    have "(N - card (members v)) * (b + 1) \<le> (N - card (members aft)) * (b + 1)" using sub by (intro mult_right_mono) auto
    then show ?thesis using True assms(4) by linarith
  next
    case False
    then have "members aft \<subset> members v" using nxt(5) eff(1) by blast
    then have less: "card (members aft) < card (members v)" using members_finite [OF v] by (simp add: psubset_card_mono)
    then have "N - card (members v) + 1 \<le> N - card (members aft)" using members_finite [OF v] by linarith
    then have "(N - card (members v) + 1) * (b + 1) \<le> (N - card (members aft)) * (b + 1)" by (intro mult_right_mono) auto
    moreover have "(N - card (members v) + 1) * (b + 1) = (N - card (members v)) * (b + 1) + (b + 1)" by simp
    ultimately show ?thesis by linarith
  qed
qed

lemma step_loop_closure:
  fixes ch :: int
  assumes "strip_ok g a b" "nstates g = N" "\<And>v. bef = Some v \<Longrightarrow> inv v"
  defines "S \<equiv> \<lambda>X. clo (edges g a b bef ch) (X \<union> seeds g a b bef ch)"
  shows "inv X \<Longrightarrow> a \<le> p \<Longrightarrow> p \<le> b \<Longrightarrow> X0 \<subseteq> members X \<Longrightarrow> members X \<subseteq> S X0 \<Longrightarrow> done_below g a b bef ch p X
    \<Longrightarrow> \<exists>v. step_loop R g b bef ch p X = Some v \<and> inv v \<and> members v = S X0"
proof (induction "(N - card (members X)) * (b + 1) + (b - p)" arbitrary: X p rule: less_induct)
  case less
  show ?case
  proof (cases "p = b")
    case True
    have "S X0 \<subseteq> members X"
      unfolding S_def
    proof (rule clo_least)
      have "seeds g a b bef ch \<subseteq> members X"
        using less.prems(6) True by (cases bef) (auto simp: seeds_def reads_def done_below_def)
      then show "X0 \<union> seeds g a b bef ch \<subseteq> members X" using less.prems(4) by blast
      show "edges g a b bef ch r \<subseteq> members X" if "r \<in> members X" for r
      proof (cases "a \<le> r \<and> r < b")
        case True
        then show ?thesis using less.prems(6) \<open>p = b\<close> that unfolding done_below_def by blast
      next
        case False
        then show ?thesis by (auto simp: edges_def EA_def EJ_def split: option.splits)
      qed
    qed
    then have "members X = S X0" using less.prems(5) by blast
    then show ?thesis using True less.prems(1) by (subst step_loop.simps) simp
  next
    case False
    then have p: "p < b" using less.prems(3) by simp
    obtain v q where v: "step_op R g bef ch p X = Some (v, q)" "turned g bef ch p X v q"
      using step_op_turned [OF assms(1,2) less.prems(2) p less.prems(1) assms(3)] by blast
    note nxt = turned_next [OF v(2) less.prems(2) p assms(1)] and eff = turned_effect [OF v(2) less.prems(2) p]
    have "members v \<subseteq> S X0"
    proof -
      have "edges g a b bef ch p \<subseteq> S X0" if "p \<in> members X"
        using that less.prems(5) clo_step unfolding S_def by blast
      moreover have "seeds g a b bef ch \<subseteq> S X0" using clo_base unfolding S_def by blast
      ultimately show ?thesis using eff(2) less.prems(5) by (auto split: if_splits)
    qed
    moreover have "inv v" using v(2) by (simp add: turned_def)
    ultimately have "\<exists>w. step_loop R g b bef ch q v = Some w \<and> inv w \<and> members w = S X0"
      using less.prems nxt(1,2) eff(1) done_below_step [OF less.prems(6) v(2) less.prems(2) p assms(1)]
      by (intro less.hyps [OF turn_measure [OF v(2) less.prems(1,2) p assms(1)]]) auto
    then show ?thesis using v(1) False by (subst step_loop.simps) simp
  qed
qed

lemma step_closure:
  assumes "strip_ok g a b" "nstates g = N" "inv aft" "\<And>v. bef = Some v \<Longrightarrow> inv v"
  shows "\<exists>v. step R g a b bef ch aft = Some v \<and> inv v
    \<and> members v = clo (edges g a b bef ch) (members aft \<union> seeds g a b bef ch)"
proof -
  have "a \<le> b" using assms(1) by (simp add: strip_ok_def)
  moreover have "members aft \<subseteq> clo (edges g a b bef ch) (members aft \<union> seeds g a b bef ch)" using clo_base by blast
  moreover have "done_below g a b bef ch a aft" by (auto simp: done_below_def)
  ultimately show ?thesis
    unfolding step_def using step_loop_closure [OF assms(1,2), where bef = bef and X = aft and p = a and ?X0.0 = "members aft" and ch = ch] assms(3,4)
    by simp
qed

lemma step_char:
  assumes "strip_ok g a b" "nstates g = N" "inv aft" "inv bef"
  shows "\<exists>v. step R g a b (Some bef) ch aft = Some v \<and> inv v
    \<and> members v = clo (EJ g a b) (members aft \<union> reads g a b ch (members bef))"
  using step_closure [OF assms(1-3), of "Some bef" ch] assms(4) by (simp add: edges_def seeds_def)

end

section \<open>Anchors\<close>

text \<open>No word boundaries, and not more anchors than the parser has counted.\<close>

definition few_anchors :: "re_guts \<Rightarrow> nat \<Rightarrow> nat \<Rightarrow> bool" where
  "few_anchors g a b \<longleftrightarrow> (\<forall>p \<in> set [a ..< b]. OP (strip g ! p) \<notin> {OBOW, OEOW})
     \<and> length (filter (\<lambda>p. OP (strip g ! p) = OBOL) [a ..< b]) \<le> nbol g
     \<and> length (filter (\<lambda>p. OP (strip g ! p) = OEOL) [a ..< b]) \<le> neol g"

definition readers :: "re_guts \<Rightarrow> nat \<Rightarrow> nat \<Rightarrow> int \<Rightarrow> nat set" where
  "readers g a b ch = {p. a \<le> p \<and> p < b \<and> eats g ch p}"

text \<open>The edges while the line flag is \<open>fl\<close>.\<close>

definition EF :: "re_guts \<Rightarrow> nat \<Rightarrow> nat \<Rightarrow> int \<Rightarrow> nat \<Rightarrow> nat set" where
  "EF g a b fl = (if fl = 0 then EJ g a b else EA g a b fl)"

lemma EJ_EF: "EJ g a b p \<subseteq> EF g a b fl p"
  by (simp add: EF_def EJ_EA)

lemma readers_finite: "finite (readers g a b ch)"
  by (rule finite_subset [of _ "{a ..< b}"]) (auto simp: readers_def)

lemma count_ops: "card {p. a \<le> p \<and> p < b \<and> P p} = length (filter P [a ..< b])"
proof -
  have "{p. a \<le> p \<and> p < b \<and> P p} = set (filter P [a ..< b])" by auto
  then show ?thesis by (simp only: distinct_card [OF distinct_filter [OF distinct_upt]])
qed

lemma char_byte_bounds: "char_of_byte b \<le> 127"
proof -
  have "sint b < 2 ^ (8 - 1)" using sint_lt [of b] by simp
  then show ?thesis by (simp add: char_of_byte_def)
qed

lemma readers_flag:
  assumes "few_anchors g a b" "line_flag m lastc c = (fl, i)" "m_g m = g" "fl \<noteq> 0"
  shows "card (readers g a b fl) \<le> i"
proof -
  have no: "eats g fl p \<longleftrightarrow> OP (strip g ! p) = OBOL \<and> (fl = BOL \<or> fl = BOLEOL) \<or> OP (strip g ! p) = OEOL \<and> (fl = EOL \<or> fl = BOLEOL)"
    if "fl \<in> {BOL, EOL, BOLEOL}" for p
    using that char_byte_bounds [of "of_nat (OPND (strip g ! p))"]
    by (auto simp: eats_def Let_def NONCHAR_def split: oper.splits)
  let ?L = "{p. a \<le> p \<and> p < b \<and> OP (strip g ! p) = OBOL}" and ?R = "{p. a \<le> p \<and> p < b \<and> OP (strip g ! p) = OEOL}"
  have cl: "card ?L \<le> nbol g" "card ?R \<le> neol g" using assms(1) by (simp_all add: few_anchors_def count_ops)
  consider "fl = BOL" "nbol g \<le> i" | "fl = EOL" "neol g \<le> i" | "fl = BOLEOL" "nbol g + neol g \<le> i"
    using assms(2-4) by (auto simp: line_flag_def Let_def split: if_splits prod.splits)
  then show ?thesis
  proof cases
    case 1
    then have "readers g a b fl = ?L" using no by (auto simp: readers_def)
    then show ?thesis using cl 1 by simp
  next
    case 2
    then have "readers g a b fl = ?R" using no by (auto simp: readers_def)
    then show ?thesis using cl 2 by simp
  next
    case 3
    then have "readers g a b fl = ?L \<union> ?R" using no by (auto simp: readers_def)
    then show ?thesis using cl 3 card_Un_le [of ?L ?R] by simp
  qed
qed

definition advance :: "re_guts \<Rightarrow> nat \<Rightarrow> nat \<Rightarrow> int \<Rightarrow> nat set \<Rightarrow> nat set" where
  "advance g a b ch X = clo (EJ g a b) (X \<union> reads g a b ch X)"

definition shut :: "(nat \<Rightarrow> nat set) \<Rightarrow> nat set \<Rightarrow> bool" where
  "shut E X \<longleftrightarrow> (\<forall>p \<in> X. E p \<subseteq> X)"

lemma shut_clo: "shut E X \<Longrightarrow> clo E X = X"
  by (simp add: shut_def clo_closed)

lemma clo_shut: "shut E (clo E X)"
  by (simp add: shut_def clo_step)

lemma shut_EA: "shut (EA g a b ch) X \<longleftrightarrow> shut (EJ g a b) X \<and> reads g a b ch X \<subseteq> X"
  by (auto simp: shut_def EA_def EJ_def reads_def split: if_splits)

lemma advance_shut: "shut (EA g a b ch) X \<Longrightarrow> advance g a b ch X = X"
  by (metis advance_def shut_EA shut_clo sup.absorb1)

lemma advance_between: "X \<subseteq> advance g a b ch X" "advance g a b ch X \<subseteq> clo (EA g a b ch) X"
proof -
  show "X \<subseteq> advance g a b ch X" using clo_base unfolding advance_def by blast
  have "reads g a b ch X \<subseteq> clo (EA g a b ch) X"
    using clo_shut [of "EA g a b ch" X] clo_base [of X "EA g a b ch"] unfolding shut_EA reads_def by blast
  then have "X \<union> reads g a b ch X \<subseteq> clo (EA g a b ch) X" using clo_base by blast
  then show "advance g a b ch X \<subseteq> clo (EA g a b ch) X"
    unfolding advance_def using EJ_EA clo_step by (intro clo_least) blast+
qed

text \<open>As many steps as there are anchors are enough.\<close>

lemma advance_enough:
  assumes "shut (EJ g a b) X" "readers g a b ch \<inter> X = {} \<or> card (readers g a b ch - X) < n"
  shows "(advance g a b ch ^^ n) X = clo (EA g a b ch) X"
  using assms
proof (induction n arbitrary: X)
  case 0
  then have "shut (EA g a b ch) X" by (auto simp: shut_EA reads_def readers_def)
  then show ?case using shut_clo by simp
next
  case (Suc n)
  let ?A = "readers g a b ch" and ?Y = "advance g a b ch X"
  have Y: "shut (EJ g a b) ?Y" unfolding advance_def by (rule clo_shut)
  have same: "clo (EA g a b ch) ?Y = clo (EA g a b ch) X"
    using advance_between [where X = X and g = g and a = a and b = b and ch = ch]
    by (intro subset_antisym clo_mono clo_least [OF _ clo_step])
  have "?A \<inter> ?Y = {} \<or> card (?A - ?Y) < n \<or> ?Y = clo (EA g a b ch) X"
  proof (cases "?A \<inter> ?Y = ?A \<inter> X")
    case True
    have "reads g a b ch X \<subseteq> ?Y" using clo_base unfolding advance_def by blast
    moreover have "reads g a b ch ?Y = reads g a b ch X" using True unfolding reads_def readers_def by blast
    ultimately have "reads g a b ch ?Y \<subseteq> ?Y" by simp
    then have "shut (EA g a b ch) ?Y" using Y by (simp add: shut_EA)
    then show ?thesis using same shut_clo by metis
  next
    case False
    then have "?A - ?Y \<subset> ?A - X" using advance_between(1) [where X = X and g = g and a = a and b = b and ch = ch] by blast
    then have "card (?A - ?Y) < card (?A - X)" using readers_finite by (meson finite_Diff psubset_card_mono)
    moreover have "?A \<inter> X \<noteq> {}"
    proof
      assume "?A \<inter> X = {}"
      then have "reads g a b ch X = {}" unfolding reads_def readers_def by blast
      then have "?Y = X" using Suc.prems(1) by (simp add: advance_def shut_clo)
      then show False using False by simp
    qed
    ultimately show ?thesis using Suc.prems(2) by linarith
  qed
  then consider "?A \<inter> ?Y = {} \<or> card (?A - ?Y) < n" | "?Y = clo (EA g a b ch) X" by blast
  then show ?case
  proof cases
    case 1
    then show ?thesis using Suc.IH [OF Y] same by (simp add: funpow_swap1)
  next
    case 2
    then have "shut (EA g a b ch) ?Y" using clo_shut by simp
    then have "(advance g a b ch ^^ n) ?Y = ?Y" by (induction n) (simp_all add: advance_shut)
    then show ?thesis using 2 by (simp add: funpow_swap1)
  qed
qed

context state_rep
begin

lemma step_same_effect:
  assumes "strip_ok g a b" "nstates g = N" "inv st"
  shows "\<exists>v. step_same R g a b ch st = Some v \<and> inv v
    \<and> members v = (if by_ref R then clo (EA g a b ch) (members st) else advance g a b ch (members st))"
  using step_closure [OF assms, of None ch] step_closure [OF assms, of "Some st" ch] assms(3)
  by (simp add: step_same_def edges_def seeds_def advance_def)

lemma step_nothing:
  assumes "strip_ok g a b" "nstates g = N" "inv st"
  shows "\<exists>v. step_same R g a b NOTHING st = Some v \<and> inv v \<and> members v = clo (EJ g a b) (members st)"
proof -
  have no: "\<not> eats g NOTHING p" for p
    using char_byte_bounds [of "of_nat (OPND (strip g ! p))"] by (auto simp: eats_def Let_def NONCHAR_def split: oper.splits)
  then have "reads g a b NOTHING X = {}" for X by (simp add: reads_def)
  moreover have "EA g a b NOTHING = EJ g a b" using no by (intro ext) (simp add: EA_def EJ_def)
  ultimately show ?thesis using step_same_effect [OF assms, of NOTHING] by (cases "by_ref R") (simp_all add: advance_def)
qed

lemma step_times_effect:
  assumes "strip_ok g a b" "nstates g = N" "inv st" "shut (EJ g a b) (members st)" "card (readers g a b ch) \<le> n"
  shows "\<exists>v. step_times R g a b ch n st = Some v \<and> inv v \<and> members v = clo (EA g a b ch) (members st)"
proof (cases "by_ref R")
  case True
  have "\<exists>v. step_times R g a b ch n st = Some v \<and> inv v \<and> members v = clo (EA g a b ch) (members st)"
    if "inv st" "0 < n \<or> shut (EA g a b ch) (members st)" for n st
    using that
  proof (induction n arbitrary: st)
    case 0
    then show ?case by (simp add: shut_clo)
  next
    case (Suc n)
    obtain v where v: "step_same R g a b ch st = Some v" "inv v" "members v = clo (EA g a b ch) (members st)"
      using step_same_effect [OF assms(1,2) Suc.prems(1), of ch] True by auto
    then show ?case using Suc.IH [OF v(2)] clo_shut shut_clo by simp
  qed
  moreover have "shut (EA g a b ch) (members st)" if "n = 0"
  proof -
    have "readers g a b ch = {}" using assms(5) that readers_finite [of g a b ch] by simp
    then show ?thesis using assms(4) by (auto simp: shut_EA reads_def readers_def)
  qed
  ultimately show ?thesis using assms(3) by blast
next
  case False
  have "\<exists>v. step_times R g a b ch n st = Some v \<and> inv v \<and> members v = (advance g a b ch ^^ n) (members st)" if "inv st" for n st
    using that
  proof (induction n arbitrary: st)
    case (Suc n)
    obtain v where v: "step_same R g a b ch st = Some v" "inv v" "members v = advance g a b ch (members st)"
      using step_same_effect [OF assms(1,2) Suc.prems, of ch] False by auto
    then show ?case using Suc.IH [OF v(2)] by (simp add: funpow_swap1)
  qed simp
  moreover have "readers g a b ch \<inter> members st = {} \<or> card (readers g a b ch - members st) < n"
  proof (cases "readers g a b ch \<inter> members st = {}")
    case False
    then have "readers g a b ch - members st \<subset> readers g a b ch" by blast
    then show ?thesis using psubset_card_mono [OF readers_finite] assms(5) by (meson less_le_trans)
  qed simp
  ultimately show ?thesis using advance_enough [OF assms(4)] assms(3) by metis
qed

lemma between_effect:
  assumes "strip_ok (m_g m) a b" "nstates (m_g m) = N" "few_anchors (m_g m) a b"
    and "inv st" "shut (EJ (m_g m) a b) (members st)"
  shows "\<exists>v. between R m a b lastc c st = Some v \<and> inv v
    \<and> members v = clo (EF (m_g m) a b (fst (line_flag m lastc c))) (members st)"
proof -
  obtain fl i where f: "line_flag m lastc c = (fl, i)" by fastforce
  let ?X = "clo (EF (m_g m) a b fl) (members st)"
  have fl: "fl \<in> {0, BOL, EOL, BOLEOL} \<and> (fl = 0 \<longrightarrow> i = 0)"
    using f by (auto simp: line_flag_def Let_def split: if_splits prod.splits)
  obtain v where v: "step_times R (m_g m) a b fl i st = Some v" "inv v" "members v = ?X"
  proof (cases "fl = 0")
    case True
    then show ?thesis using that fl assms(4,5) by (simp add: EF_def shut_clo)
  next
    case False
    from readers_flag [OF assms(3) f refl False] have "card (readers (m_g m) a b fl) \<le> i" .
    from step_times_effect [OF assms(1,2,4,5) this] show ?thesis using that False by (auto simp: EF_def)
  qed
  have shut: "shut (EJ (m_g m) a b) (members v)"
    using clo_shut [of "EF (m_g m) a b fl"] v(3) by (cases "fl = 0") (simp_all add: EF_def shut_EA)
  have no: "\<not> eats (m_g m) ch p" if "a \<le> p" "p < b" "ch = BOW \<or> ch = EOW" for p ch
    using that assms(3) char_byte_bounds [of "of_nat (OPND (strip (m_g m) ! p))"]
    by (auto simp: few_anchors_def eats_def Let_def NONCHAR_def split: oper.splits)
  have "\<exists>w. step_same R (m_g m) a b ch v = Some w \<and> inv w \<and> members w = members v" if "ch = BOW \<or> ch = EOW" for ch
  proof -
    have r: "reads (m_g m) a b ch X = {}" for X using no that by (auto simp: reads_def)
    then have "shut (EA (m_g m) a b ch) (members v)" using shut by (simp add: shut_EA)
    then have "clo (EA (m_g m) a b ch) (members v) = members v" "advance (m_g m) a b ch (members v) = members v"
      by (simp_all add: shut_clo advance_shut)
    then show ?thesis using step_same_effect [OF assms(1,2) v(2), of ch] by (cases "by_ref R") simp_all
  qed
  then show ?thesis using f v by (auto simp: between_def Let_def)
qed

end

end
