(* ===== verification/Posix_Layout.thy ===== *)
theory Posix_Layout
  imports Posix_Compile Posix_Steps
begin

text \<open>
  What the parser of \<open>regcomp\<close> is meant to emit: trees and their layout as strips, and that the code of
  \<open>doemit\<close>, \<open>doinsert\<close>, \<open>dofwd\<close> and \<open>repeat\<close> produces layouts.
\<close>

section \<open>Trees and layouts\<close>

datatype ptree =
    Leaf oper nat
  | Par nat "ptree list"
  | Loop "ptree list"
  | Maybe "ptree list"
  | Choice "ptree list" "ptree list list"

fun more_branches :: "sop list list \<Rightarrow> sop list" where
  "more_branches [] = []"
| "more_branches [b] = (OOR2, length b + 1) # b @ [(O_CH, length b + 2)]"
| "more_branches (b # bs) = (OOR2, length b + 2) # b @ (OOR1, length b + 2) # more_branches bs"

fun lay :: "ptree \<Rightarrow> sop list" where
  "lay (Leaf op n) = [(op, n)]"
| "lay (Par n xs) = (OLPAREN, n) # concat (map lay xs) @ [(ORPAREN, n)]"
| "lay (Loop xs) = (let c = concat (map lay xs) in (OPLUS, length c + 1) # c @ [(O_PLUS, length c + 1)])"
| "lay (Maybe xs) = (let c = concat (map lay xs) in (OQUEST, length c + 1) # c @ [(O_QUEST, length c + 1)])"
| "lay (Choice x bs) = (let c = concat (map lay x) in
     (OCH, length c + 2) # c @ (OOR1, length c + 1) # more_branches (map (\<lambda>b. concat (map lay b)) bs))"

abbreviation lays :: "ptree list \<Rightarrow> sop list" where
  "lays ts \<equiv> concat (map lay ts)"

text \<open>The leaves are operators of one character or none, the sets are there, and a choice has branches.\<close>

definition leaf_ok :: "nat \<Rightarrow> oper \<Rightarrow> nat \<Rightarrow> bool" where
  "leaf_ok k op n \<longleftrightarrow> op \<in> {OCHAR, OBOL, OEOL, OANY, OBOW, OEOW} \<or> op = OANYOF \<and> n < k"

fun tree_ok :: "nat \<Rightarrow> ptree \<Rightarrow> bool" where
  "tree_ok k (Leaf op n) = leaf_ok k op n"
| "tree_ok k (Par n xs) = list_all (tree_ok k) xs"
| "tree_ok k (Loop xs) = list_all (tree_ok k) xs"
| "tree_ok k (Maybe xs) = list_all (tree_ok k) xs"
| "tree_ok k (Choice x bs) = (list_all (tree_ok k) x \<and> bs \<noteq> [] \<and> list_all (list_all (tree_ok k)) bs)"

lemma tree_ok_mono: "tree_ok k t \<Longrightarrow> k \<le> k' \<Longrightarrow> tree_ok k' t"
  by (induction t) (auto simp: leaf_ok_def list_all_iff)

lemma trees_ok_mono: "list_all (tree_ok k) ts \<Longrightarrow> k \<le> k' \<Longrightarrow> list_all (tree_ok k') ts"
  by (auto simp: list_all_iff intro: tree_ok_mono)

section \<open>The layout inside a strip\<close>

definition placed :: "re_guts \<Rightarrow> nat \<Rightarrow> sop list \<Rightarrow> bool" where
  "placed g p xs \<longleftrightarrow> p + length xs \<le> nstates g \<and> take (length xs) (drop p (strip g)) = xs"

lemma placed_append: "placed g p (xs @ ys) \<longleftrightarrow> placed g p xs \<and> placed g (p + length xs) ys"
proof (cases "p + length xs + length ys \<le> nstates g")
  case True
  then have l: "length (take (length xs) (drop p (strip g))) = length xs" by (simp add: nstates_def)
  show ?thesis using True append_eq_append_conv [OF disjI1 [OF l]] by (simp add: placed_def take_add ac_simps)
qed (simp add: placed_def)

lemma placed_Cons: "placed g p (x # xs) \<longleftrightarrow> placed g p [x] \<and> placed g (p + 1) xs"
  using placed_append [of g p "[x]" xs] by simp

lemma placed_nth:
  assumes "placed g p xs" "i < length xs"
  shows "strip g ! (p + i) = xs ! i \<and> p + i < nstates g"
proof -
  have "take (length xs) (drop p (strip g)) ! i = xs ! i" using assms by (simp add: placed_def)
  then show ?thesis using assms by (simp add: placed_def nstates_def)
qed

lemma placed_one: "placed g p [x] \<Longrightarrow> strip g ! p = x \<and> p < nstates g \<and> sop_at g p = Some x"
  using placed_nth [of g p "[x]" 0] by (simp add: sop_at_def nstates_def)

lemma op_ok_mono: "op_ok g a b p \<Longrightarrow> a' \<le> a \<Longrightarrow> b \<le> b' \<Longrightarrow> op_ok g a' b' p"
  by (auto simp: op_ok_def Let_def split: oper.splits option.splits)

lemma length_more_branches: "bs \<noteq> [] \<Longrightarrow> 2 \<le> length (more_branches bs)"
  by (induction bs rule: more_branches.induct) auto

text \<open>From any \<open>OOR2\<close> the search ends at the \<open>O_CH\<close>.\<close>

lemma look_och_branches:
  "placed g p (more_branches bs) \<Longrightarrow> bs \<noteq> [] \<Longrightarrow> look_och g p = Some (p + length (more_branches bs) - 1)"
proof (induction bs arbitrary: p rule: more_branches.induct)
  case (2 b)
  then have "sop_at g p = Some (OOR2, length b + 1)" "sop_at g (p + (length b + 1)) = Some (O_CH, length b + 2)"
    using placed_one by (auto simp: placed_Cons [of _ _ _ "b @ _"] placed_append)
  then show ?case by (subst look_och.simps, simp, subst look_och.simps) simp
next
  case (3 b b' bs)
  then have *: "sop_at g p = Some (OOR2, length b + 2)" "placed g (p + (length b + 2)) (more_branches (b' # bs))"
    using placed_one by (auto simp: placed_Cons [of _ _ _ "b @ _"] placed_append placed_Cons [of _ _ _ "more_branches _"])
  have "look_och g (p + (length b + 2)) = Some (p + (length b + 2) + length (more_branches (b' # bs)) - 1)"
    using 3(1) [OF *(2)] by simp
  then show ?case using *(1) length_more_branches [of "b' # bs"] by (subst look_och.simps) simp
qed simp

text \<open>The operands inside a layout lead to places inside it.\<close>

definition closed_at :: "re_guts \<Rightarrow> nat \<Rightarrow> nat \<Rightarrow> bool" where
  "closed_at g p n \<longleftrightarrow> (\<forall>q. p \<le> q \<and> q < p + n \<longrightarrow> op_ok g p (p + n) q)"

lemma closed_widen: "closed_at g p n \<Longrightarrow> p' \<le> p \<Longrightarrow> p + n \<le> b \<Longrightarrow> p \<le> q \<Longrightarrow> q < p + n \<Longrightarrow> op_ok g p' b q"
  unfolding closed_at_def using op_ok_mono by blast

lemma closed_append:
  assumes "closed_at g p n" "closed_at g (p + n) k"
  shows "closed_at g p (n + k)"
  unfolding closed_at_def
proof (intro allI impI)
  fix q assume q: "p \<le> q \<and> q < p + (n + k)"
  show "op_ok g p (p + (n + k)) q"
  proof (cases "q < p + n")
    case True
    then show ?thesis using closed_widen [OF assms(1)] q by simp
  next
    case False
    then show ?thesis using closed_widen [OF assms(2)] q by simp
  qed
qed

lemma closed_wrap:
  assumes "closed_at g (p + 1) n" "op_ok g p (p + n + 2) p" "op_ok g p (p + n + 2) (p + n + 1)"
  shows "closed_at g p (n + 2)"
  unfolding closed_at_def
proof (intro allI impI)
  fix q assume q: "p \<le> q \<and> q < p + (n + 2)"
  then consider "q = p" | "p + 1 \<le> q" "q < p + 1 + n" | "q = p + n + 1" by linarith
  then show "op_ok g p (p + (n + 2)) q"
  proof cases
    case 2
    then show ?thesis using closed_widen [OF assms(1)] by simp
  qed (use assms(2,3) in \<open>simp_all add: add.assoc\<close>)
qed

lemma closed_lays:
  "(\<And>t p. t \<in> set ts \<Longrightarrow> placed g p (lay t) \<Longrightarrow> closed_at g p (length (lay t))) \<Longrightarrow> placed g p (lays ts)
    \<Longrightarrow> closed_at g p (length (lays ts))"
proof (induction ts arbitrary: p)
  case Nil
  then show ?case by (auto simp: closed_at_def)
next
  case (Cons t ts)
  then show ?case using closed_append [of g p "length (lay t)" "length (lays ts)"] by (simp add: placed_append)
qed

lemma op_ok_simple: "strip g ! q = (op, n) \<Longrightarrow> op \<notin> {O_PLUS, OQUEST, OCH, OOR1, OOR2, OANYOF} \<Longrightarrow> op_ok g a b q"
  by (cases op) (simp_all add: op_ok_def)

lemma closed_branches:
  "(\<And>b p. b \<in> set bs \<Longrightarrow> placed g p b \<Longrightarrow> closed_at g p (length b)) \<Longrightarrow> placed g p (more_branches bs)
    \<Longrightarrow> closed_at g p (length (more_branches bs))"
proof (induction bs arbitrary: p rule: more_branches.induct)
  case 1
  then show ?case by (auto simp: closed_at_def)
next
  case (2 b)
  then have *: "strip g ! p = (OOR2, length b + 1)" "placed g (p + 1) b" "strip g ! (p + 1 + length b) = (O_CH, length b + 2)"
    using placed_one by (auto simp: placed_Cons [of _ _ _ "b @ _"] placed_append)
  have "closed_at g (p + 1) (length b)" using 2(1) * by simp
  then show ?case using closed_wrap [of g p "length b"] *(1,3) by (simp add: op_ok_def)
next
  case (3 b b' bs)
  let ?n = "length b" and ?m = "length (more_branches (b' # bs))"
  have *: "strip g ! p = (OOR2, ?n + 2)" "placed g (p + 1) b" "strip g ! (p + 1 + ?n) = (OOR1, ?n + 2)"
    "placed g (p + ?n + 2) (more_branches (b' # bs))"
    using 3(3) placed_one by (auto simp: placed_Cons [of _ _ _ "b @ _"] placed_append placed_Cons [of _ _ _ "more_branches _"])
  have l: "look_och g (p + ?n + 2) = Some (p + ?n + 2 + ?m - 1)" "2 \<le> ?m"
    using look_och_branches [OF *(4)] length_more_branches by simp_all
  have c: "closed_at g (p + 1) ?n" "closed_at g (p + ?n + 2) ?m" using 3(1,2) * by simp_all
  have "closed_at g p (?n + 2 + ?m)"
    unfolding closed_at_def
  proof (intro allI impI)
    fix q assume q: "p \<le> q \<and> q < p + (?n + 2 + ?m)"
    then consider "q = p" | "p + 1 \<le> q" "q < p + 1 + ?n" | "q = p + 1 + ?n" | "p + ?n + 2 \<le> q" by linarith
    then show "op_ok g p (p + (?n + 2 + ?m)) q"
    proof cases
      case 1
      then show ?thesis using *(1) by (simp add: op_ok_def)
    next
      case 2
      then show ?thesis using closed_widen [OF c(1)] by simp
    next
      case 3
      moreover have "more_branches (b' # bs) \<noteq> []" using l(2) by force
      ultimately show ?thesis using *(3) l by (simp add: op_ok_def add.assoc)
    next
      case 4
      then show ?thesis using closed_widen [OF c(2)] q by simp
    qed
  qed
  then show ?case by (simp add: add.assoc)
qed

lemma closed_lay: "tree_ok (length (sets g)) t \<Longrightarrow> placed g p (lay t) \<Longrightarrow> closed_at g p (length (lay t))"
proof (induction t arbitrary: p)
  case (Leaf op n)
  then have "strip g ! p = (op, n)" using placed_one [of g p "(op, n)"] by simp
  then have "op_ok g p (p + 1) p" using Leaf(1) by (auto simp: op_ok_def leaf_ok_def)
  moreover have "q = p" if "p \<le> q" "q < p + 1" for q using that by simp
  ultimately show ?case unfolding closed_at_def by (auto simp: less_Suc_eq_le dest: le_antisym)
next
  case (Par n xs)
  then have *: "strip g ! p = (OLPAREN, n)" "placed g (p + 1) (lays xs)" "strip g ! (p + 1 + length (lays xs)) = (ORPAREN, n)"
    using placed_one by (auto simp: placed_Cons [of _ _ _ "_ @ _"] placed_append)
  have "closed_at g (p + 1) (length (lays xs))"
    using Par(1,2) by (intro closed_lays [OF _ *(2)]) (auto simp: list_all_iff)
  then show ?case using closed_wrap [of g p "length (lays xs)"] *(1,3) by (simp add: op_ok_def)
next
  case (Loop xs)
  let ?n = "length (lays xs)"
  have *: "strip g ! p = (OPLUS, ?n + 1)" "placed g (p + 1) (lays xs)" "strip g ! (p + 1 + ?n) = (O_PLUS, ?n + 1)"
    using Loop(3) placed_one by (auto simp: Let_def placed_Cons [of _ _ _ "_ @ _"] placed_append)
  have "closed_at g (p + 1) ?n"
    using Loop(1,2) by (intro closed_lays [OF _ *(2)]) (auto simp: list_all_iff)
  then show ?case using closed_wrap [of g p ?n] *(1,3) by (simp add: op_ok_def Let_def)
next
  case (Maybe xs)
  let ?n = "length (lays xs)"
  have *: "strip g ! p = (OQUEST, ?n + 1)" "placed g (p + 1) (lays xs)" "strip g ! (p + 1 + ?n) = (O_QUEST, ?n + 1)"
    using Maybe(3) placed_one by (auto simp: Let_def placed_Cons [of _ _ _ "_ @ _"] placed_append)
  have "closed_at g (p + 1) ?n"
    using Maybe(1,2) by (intro closed_lays [OF _ *(2)]) (auto simp: list_all_iff)
  then show ?case using closed_wrap [of g p ?n] *(1,3) by (simp add: op_ok_def Let_def)
next
  case (Choice x bs)
  let ?n = "length (lays x)" and ?bs = "map lays bs"
  let ?m = "length (more_branches ?bs)"
  have bs: "?bs \<noteq> []" using Choice(3) by simp
  have *: "strip g ! p = (OCH, ?n + 2)" "placed g (p + 1) (lays x)" "strip g ! (p + 1 + ?n) = (OOR1, ?n + 1)"
    "placed g (p + ?n + 2) (more_branches ?bs)"
    using Choice(4) placed_one
    by (auto simp: Let_def placed_Cons [of _ _ _ "_ @ _"] placed_append placed_Cons [of _ _ _ "more_branches _"])
  have l: "look_och g (p + ?n + 2) = Some (p + ?n + 2 + ?m - 1)" "2 \<le> ?m"
    using look_och_branches [OF *(4) bs] length_more_branches [OF bs] by simp_all
  have c: "closed_at g (p + 1) ?n"
    using Choice(1,3) by (intro closed_lays [OF _ *(2)]) (auto simp: list_all_iff)
  have d: "closed_at g (p + ?n + 2) ?m"
  proof (rule closed_branches [OF _ *(4)])
    fix b q assume "b \<in> set ?bs" "placed g q b"
    then obtain ts where ts: "b = lays ts" "ts \<in> set bs" by auto
    show "closed_at g q (length b)"
      using Choice(2,3) ts \<open>placed g q b\<close> unfolding ts(1) by (intro closed_lays) (auto simp: list_all_iff)
  qed
  have "closed_at g p (?n + 2 + ?m)"
    unfolding closed_at_def
  proof (intro allI impI)
    fix q assume q: "p \<le> q \<and> q < p + (?n + 2 + ?m)"
    then consider "q = p" | "p + 1 \<le> q" "q < p + 1 + ?n" | "q = p + 1 + ?n" | "p + ?n + 2 \<le> q" by linarith
    then show "op_ok g p (p + (?n + 2 + ?m)) q"
    proof cases
      case 1
      then show ?thesis using *(1) by (simp add: op_ok_def)
    next
      case 2
      then show ?thesis using closed_widen [OF c] by simp
    next
      case 3
      moreover have "more_branches ?bs \<noteq> []" using l(2) by force
      ultimately show ?thesis using *(3) l by (simp add: op_ok_def add.assoc)
    next
      case 4
      then show ?thesis using closed_widen [OF d] q by simp
    qed
  qed
  then show ?case by (simp add: Let_def add.assoc)
qed

lemma strip_ok_lays:
  assumes "placed g a (lays ts)" "list_all (tree_ok (length (sets g))) ts" "a + length (lays ts) < nstates g"
  shows "strip_ok g a (a + length (lays ts))"
proof -
  have "closed_at g a (length (lays ts))"
    using assms(2) by (intro closed_lays [OF _ assms(1)] closed_lay) (auto simp: list_all_iff)
  then show ?thesis using assms(3) by (auto simp: strip_ok_def closed_at_def)
qed

section \<open>The parser's state, when every allocation succeeds\<close>

definition good :: "cparse \<Rightarrow> bool" where
  "good p \<longleftrightarrow> length (p_pbegin p) = NPAREN \<and> length (p_pend p) = NPAREN \<and> length (p_cats p) = NC
     \<and> HERE p \<le> p_ssize p \<and> 1 \<le> p_ssize p \<and> length (p_hash p) = 8 * length (p_bits p)
     \<and> p_ncsalloc p = 8 * length (p_bits p) \<and> p_ncsets p \<le> p_ncsalloc p \<and> (\<forall>col \<in> set (p_bits p). length col = NC)
     \<and> 0 \<notin> set (p_next p)"

text \<open>The strip is \<open>xs\<close> now; nothing else that matters has changed.\<close>

definition emitted :: "cparse \<Rightarrow> sop list \<Rightarrow> cparse \<Rightarrow> bool" where
  "emitted p xs p' \<longleftrightarrow> good p' \<and> (\<exists>ss ca b e. p' = p\<lparr> p_strip := xs, p_ssize := ss, p_calls := ca, p_pbegin := b, p_pend := e \<rparr>)"

lemma emitted_good: "emitted p xs p' \<Longrightarrow> good p'"
  by (simp add: emitted_def)

lemma emitted_fields:
  assumes "emitted p xs p'"
  shows "p_strip p' = xs" "p_error p' = p_error p" "p_next p' = p_next p" "p_past p' = p_past p" "p_cflags p' = p_cflags p"
    "p_ncsets p' = p_ncsets p" "p_bits p' = p_bits p" "p_hash p' = p_hash p" "p_nbol p' = p_nbol p" "p_neol p' = p_neol p"
    "p_nsub p' = p_nsub p" "p_backrefs p' = p_backrefs p" "p_iflags p' = p_iflags p" "p_ncsalloc p' = p_ncsalloc p"
    "p_ncats p' = p_ncats p" "p_cats p' = p_cats p" "HERE p' = length xs"
  using assms by (auto simp: emitted_def HERE_def)

lemma emitted_refl: "good p \<Longrightarrow> emitted p (p_strip p) p"
  unfolding emitted_def
  by (intro conjI exI [of _ "p_ssize p"] exI [of _ "p_calls p"] exI [of _ "p_pbegin p"] exI [of _ "p_pend p"]) simp_all

lemma emittedI: "good p' \<Longrightarrow> p' = p\<lparr> p_strip := xs, p_ssize := ss, p_calls := ca, p_pbegin := b, p_pend := e \<rparr> \<Longrightarrow> emitted p xs p'"
  unfolding emitted_def by blast

lemma emitted_trans:
  assumes "emitted p xs p'" "emitted p' ys p''"
  shows "emitted p ys p''"
proof -
  obtain ss ca b e where 1: "p' = p\<lparr> p_strip := xs, p_ssize := ss, p_calls := ca, p_pbegin := b, p_pend := e \<rparr>"
    using assms(1) unfolding emitted_def by blast
  obtain ss' ca' b' e' where 2: "p'' = p'\<lparr> p_strip := ys, p_ssize := ss', p_calls := ca', p_pbegin := b', p_pend := e' \<rparr>" "good p''"
    using assms(2) unfolding emitted_def by blast
  show ?thesis using 2(2) by (rule emittedI) (simp add: 1 2(1))
qed

definition ample :: "allocator \<Rightarrow> bool" where
  "ample mem \<longleftrightarrow> (\<forall>n. mem n)"

lemma ampleD [simp]: "ample mem \<Longrightarrow> mem n"
  by (simp add: ample_def)

lemma enlarge_ok:
  assumes "ample mem" "good p" "HERE p \<le> n"
  shows "emitted p (p_strip p) (enlarge mem n p)" "n \<le> p_ssize (enlarge mem n p)"
proof -
  show "emitted p (p_strip p) (enlarge mem n p)"
  proof (cases "p_ssize p \<ge> n")
    case True
    then show ?thesis using emitted_refl [OF assms(2)] by (simp add: enlarge_def)
  next
    case False
    then have "enlarge mem n p = p\<lparr> p_calls := p_calls p + 1, p_ssize := n \<rparr>" by (simp add: enlarge_def ask_def assms(1))
    moreover have "good (p\<lparr> p_calls := p_calls p + 1, p_ssize := n \<rparr>)" using assms False by (auto simp: good_def HERE_def)
    ultimately show ?thesis unfolding emitted_def
      by (intro conjI exI [of _ n] exI [of _ "p_calls p + 1"] exI [of _ "p_pbegin p"] exI [of _ "p_pend p"]) simp_all
  qed
  show "n \<le> p_ssize (enlarge mem n p)" by (simp add: enlarge_def ask_def assms(1))
qed

lemma emitted_more:
  assumes "emitted p xs p'" "length ys \<le> p_ssize p'"
  shows "emitted p ys (p'\<lparr> p_strip := ys \<rparr>)"
proof -
  obtain ss ca b e where 1: "p' = p\<lparr> p_strip := xs, p_ssize := ss, p_calls := ca, p_pbegin := b, p_pend := e \<rparr>" "good p'"
    using assms(1) unfolding emitted_def by blast
  have "good (p'\<lparr> p_strip := ys \<rparr>)" using 1(2) assms(2) by (simp add: good_def HERE_def)
  then show ?thesis by (rule emittedI [where ss = ss and ca = ca and b = b and e = e]) (simp add: 1(1))
qed

lemma doemit_ok:
  assumes "ample mem" "good p" "p_error p = 0"
  shows "\<exists>p'. doemit mem op n p = Some p' \<and> emitted p (p_strip p @ [(op, n)]) p'"
proof -
  define q where "q = (if HERE p \<ge> p_ssize p then enlarge mem ((p_ssize p + 1) div 2 * 3) p else p)"
  have q: "emitted p (p_strip p) q \<and> HERE p < p_ssize q"
  proof (cases "HERE p \<ge> p_ssize p")
    case True
    then have eq: "HERE p = p_ssize p" "1 \<le> p_ssize p" using assms(2) by (simp_all add: good_def)
    then have "HERE p < (p_ssize p + 1) div 2 * 3" by linarith
    then show ?thesis using enlarge_ok [OF assms(1) assms(2), of "(p_ssize p + 1) div 2 * 3"] True by (simp add: q_def)
  next
    case False
    then show ?thesis using emitted_refl [OF assms(2)] by (simp add: q_def)
  qed
  have h: "HERE q = HERE p" "p_strip q = p_strip p" using emitted_fields [of p "p_strip p" q] q by (simp_all add: HERE_def)
  have "doemit mem op n p = Some (q\<lparr> p_strip := p_strip p @ [(op, n)] \<rparr>)"
    using assms(3) q h unfolding doemit_def q_def [symmetric] by (simp add: Let_def)
  moreover have "emitted p (p_strip p @ [(op, n)]) (q\<lparr> p_strip := p_strip p @ [(op, n)] \<rparr>)"
    using q by (intro emitted_more [of _ "p_strip p"]) (simp_all add: HERE_def)
  ultimately show ?thesis by blast
qed

lemma doemit_error: "p_error p \<noteq> 0 \<Longrightarrow> doemit mem op n p = Some p"
  by (simp add: doemit_def)

lemma doinsert_ok:
  assumes "ample mem" "good p" "p_error p = 0" "p_strip p = us @ vs" "pos = length us"
  shows "\<exists>p'. doinsert mem op pos p = Some p' \<and> emitted p (us @ (op, length vs + 1) # vs) p'"
proof -
  obtain q where q: "doemit mem op (HERE p - pos + 1) p = Some q" "emitted p (p_strip p @ [(op, HERE p - pos + 1)]) q"
    using doemit_ok [OF assms(1) assms(2,3)] by blast
  have h: "HERE p = length us + length vs" "HERE q = Suc (HERE p)" "p_strip q = us @ vs @ [(op, length vs + 1)]"
    using assms(4,5) emitted_fields [OF q(2)] by (simp_all add: HERE_def)
  define b where "b = take 1 (p_pbegin q) @ map (\<lambda>i. if i \<ge> pos then i + 1 else i) (drop 1 (p_pbegin q))"
  define e where "e = take 1 (p_pend q) @ map (\<lambda>i. if i \<ge> pos then i + 1 else i) (drop 1 (p_pend q))"
  have "doinsert mem op pos p = Some (q\<lparr> p_pbegin := b, p_pend := e, p_strip := us @ (op, length vs + 1) # vs \<rparr>)"
    using assms(3,5) q(1) h unfolding doinsert_def by (simp add: Let_def b_def e_def nth_append)
  moreover have "emitted p (us @ (op, length vs + 1) # vs) (q\<lparr> p_pbegin := b, p_pend := e, p_strip := us @ (op, length vs + 1) # vs \<rparr>)"
  proof -
    obtain ss ca b' e' where 1: "q = p\<lparr> p_strip := p_strip q, p_ssize := ss, p_calls := ca, p_pbegin := b', p_pend := e' \<rparr>" "good q"
      using q(2) h(3) emitted_fields(1) [OF q(2)] unfolding emitted_def by metis
    have "good (q\<lparr> p_pbegin := b, p_pend := e, p_strip := us @ (op, length vs + 1) # vs \<rparr>)"
      using 1(2) h by (simp add: good_def HERE_def b_def e_def)
    then show ?thesis by (rule emittedI [where ss = ss and ca = ca and b = b and e = e]) (subst 1(1), simp)
  qed
  ultimately show ?thesis by blast
qed

lemma doinsert_error: "p_error p \<noteq> 0 \<Longrightarrow> doinsert mem op pos p = Some p"
  by (simp add: doinsert_def)

lemma AHEAD_ok:
  assumes "good p" "p_error p = 0" "p_strip p = us @ (op, n) # vs" "pos = length us"
  shows "\<exists>p'. AHEAD pos p = Some p' \<and> emitted p (us @ (op, length vs + 1) # vs) p'"
proof -
  have "AHEAD pos p = Some (p\<lparr> p_strip := us @ (op, length vs + 1) # vs \<rparr>)"
    using assms by (simp add: AHEAD_def dofwd_def HERE_def nth_append list_update_append)
  moreover have "emitted p (us @ (op, length vs + 1) # vs) (p\<lparr> p_strip := us @ (op, length vs + 1) # vs \<rparr>)"
    using assms(1,3) by (intro emitted_more [OF emitted_refl]) (simp_all add: good_def HERE_def)
  ultimately show ?thesis by blast
qed

lemma AHEAD_error: "p_error p \<noteq> 0 \<Longrightarrow> AHEAD pos p = Some p"
  by (simp add: AHEAD_def dofwd_def)

lemma ASTERN_ok:
  assumes "ample mem" "good p" "p_error p = 0" "p_strip p = us @ vs" "pos = length us"
  shows "\<exists>p'. ASTERN mem op pos p = Some p' \<and> emitted p (us @ vs @ [(op, length vs)]) p'"
  using doemit_ok [OF assms(1) assms(2,3), of op "length vs"] assms(4,5) by (simp add: ASTERN_def HERE_def)

lemma ASTERN_error: "p_error p \<noteq> 0 \<Longrightarrow> ASTERN mem op pos p = Some p"
  by (simp add: ASTERN_def doemit_error)

lemma dupl_ok:
  assumes "ample mem" "good p" "p_strip p = us @ vs @ ws" "start = length us" "finish = length us + length vs"
  shows "\<exists>p'. dupl mem start finish p = Some (HERE p, p') \<and> emitted p (us @ vs @ ws @ vs) p'"
proof (cases "vs = []")
  case True
  then show ?thesis using assms emitted_refl [OF assms(2)] by (simp add: dupl_def Let_def)
next
  case False
  let ?q = "enlarge mem (p_ssize p + length vs) p"
  have h: "HERE p \<le> p_ssize p + length vs" "HERE p + length vs \<le> p_ssize p + length vs" using assms(2) by (simp_all add: good_def)
  note q = enlarge_ok [OF assms(1) assms(2) h(1)]
  have f: "p_strip ?q = p_strip p" "HERE ?q = HERE p" using emitted_fields [OF q(1)] by (simp_all add: HERE_def)
  have "dupl mem start finish p = Some (HERE p, ?q\<lparr> p_strip := us @ vs @ ws @ vs \<rparr>)"
    using assms False f q(2) h(2) by (simp add: dupl_def Let_def HERE_def)
  moreover have "emitted p (us @ vs @ ws @ vs) (?q\<lparr> p_strip := us @ vs @ ws @ vs \<rparr>)"
    using q h(2) assms(3) by (intro emitted_more [OF q(1)]) (simp add: HERE_def)
  ultimately show ?thesis by blast
qed


section \<open>Repetitions\<close>

text \<open>The operand of a repetition is the layout of \<open>xs\<close> at the end of the strip.\<close>

lemma emit_empty_branch_ok:
  assumes "ample mem" "good p" "p_error p = 0" "p_strip p = us @ (OCH, n) # lays xs" "pos = length us"
  shows "\<exists>p'. emit_empty_branch mem pos p = Some p' \<and> emitted p (us @ lay (Choice xs [[]])) p'"
proof -
  let ?c = "lays xs"
  obtain p1 where 1: "ASTERN mem OOR1 pos p = Some p1" "emitted p (us @ ((OCH, n) # ?c) @ [(OOR1, length ?c + 1)]) p1"
    using ASTERN_ok [OF assms(1-5), of OOR1] by auto
  note f1 = emitted_fields [OF 1(2)]
  obtain p2 where 2: "AHEAD pos p1 = Some p2" "emitted p1 (us @ (OCH, length ?c + 2) # ?c @ [(OOR1, length ?c + 1)]) p2"
    using AHEAD_ok [OF emitted_good [OF 1(2)], of us OCH n "?c @ [(OOR1, length ?c + 1)]" pos] f1 assms(3,5) by auto
  note f2 = emitted_fields [OF 2(2)]
  obtain p3 where 3: "doemit mem OOR2 0 p2 = Some p3"
    "emitted p2 ((us @ (OCH, length ?c + 2) # ?c @ [(OOR1, length ?c + 1)]) @ [(OOR2, 0)]) p3"
    using doemit_ok [OF assms(1) emitted_good [OF 2(2)], of OOR2 0] f1 f2 assms(3) by auto
  note f3 = emitted_fields [OF 3(2)]
  obtain p4 where 4: "AHEAD (HERE p3 - 1) p3 = Some p4"
    "emitted p3 ((us @ (OCH, length ?c + 2) # ?c @ [(OOR1, length ?c + 1)]) @ [(OOR2, 1)]) p4"
    using AHEAD_ok [OF emitted_good [OF 3(2)], of "us @ (OCH, length ?c + 2) # ?c @ [(OOR1, length ?c + 1)]" OOR2 0 "[]"]
      f1 f2 f3 assms(3) by auto
  note f4 = emitted_fields [OF 4(2)]
  obtain p5 where 5: "ASTERN mem O_CH (HERE p4 - 2) p4 = Some p5"
    "emitted p4 ((us @ (OCH, length ?c + 2) # ?c) @ [(OOR1, length ?c + 1), (OOR2, 1)] @ [(O_CH, 2)]) p5"
    using ASTERN_ok [OF assms(1) emitted_good [OF 4(2)], of "us @ (OCH, length ?c + 2) # ?c" "[(OOR1, length ?c + 1), (OOR2, 1)]"
        "HERE p4 - 2" O_CH] f1 f2 f3 f4 assms(3) by (auto simp: numeral_2_eq_2)
  have "emitted p ((us @ (OCH, length ?c + 2) # ?c) @ [(OOR1, length ?c + 1), (OOR2, 1)] @ [(O_CH, 2)]) p5"
    using 1(2) 2(2) 3(2) 4(2) 5(2) emitted_trans by meson
  then show ?thesis using 1(1) 2(1) 3(1) 4(1) 5(1) by (simp add: emit_empty_branch_def Let_def numeral_2_eq_2)
qed

lemma emit_empty_branch_error: "p_error p \<noteq> 0 \<Longrightarrow> emit_empty_branch mem pos p = Some p"
  by (simp add: emit_empty_branch_def ASTERN_error AHEAD_error doemit_error)

lemma emit_loop_ok:
  assumes "ample mem" "good p" "p_error p = 0" "p_strip p = us @ lays xs" "pos = length us"
  shows "\<exists>p'. (do { p \<leftarrow> doinsert mem OPLUS pos p; ASTERN mem O_PLUS pos p }) = Some p' \<and> emitted p (us @ lay (Loop xs)) p'"
proof -
  let ?c = "lays xs"
  obtain p1 where 1: "doinsert mem OPLUS pos p = Some p1" "emitted p (us @ (OPLUS, length ?c + 1) # ?c) p1"
    using doinsert_ok [OF assms(1-5), of OPLUS] by auto
  note f1 = emitted_fields [OF 1(2)]
  obtain p2 where 2: "ASTERN mem O_PLUS pos p1 = Some p2"
    "emitted p1 (us @ ((OPLUS, length ?c + 1) # ?c) @ [(O_PLUS, length ?c + 1)]) p2"
    using ASTERN_ok [OF assms(1) emitted_good [OF 1(2)], of us "(OPLUS, length ?c + 1) # ?c" pos O_PLUS] f1 assms(3,5) by auto
  show ?thesis using 1(1) 2(1) emitted_trans [OF 1(2) 2(2)] by (simp add: Let_def)
qed

lemma emit_stars_ok:
  assumes "ample mem" "good p" "p_error p = 0" "p_strip p = us @ lays xs" "pos = length us"
  shows "\<exists>p'. emit_stars mem pos p = Some p' \<and> emitted p (us @ lay (Maybe [Loop xs])) p'"
proof -
  let ?c = "lay (Loop xs)"
  obtain p1 where 1: "(do { p \<leftarrow> doinsert mem OPLUS pos p; ASTERN mem O_PLUS pos p }) = Some p1" "emitted p (us @ ?c) p1"
    using emit_loop_ok [OF assms] by blast
  note f1 = emitted_fields [OF 1(2)]
  obtain p2 where 2: "doinsert mem OQUEST pos p1 = Some p2" "emitted p1 (us @ (OQUEST, length ?c + 1) # ?c) p2"
    using doinsert_ok [OF assms(1) emitted_good [OF 1(2)], of us ?c pos OQUEST] f1 assms(3,5) by auto
  note f2 = emitted_fields [OF 2(2)]
  obtain p3 where 3: "ASTERN mem O_QUEST pos p2 = Some p3"
    "emitted p2 (us @ ((OQUEST, length ?c + 1) # ?c) @ [(O_QUEST, length ?c + 1)]) p3"
    using ASTERN_ok [OF assms(1) emitted_good [OF 2(2)], of us "(OQUEST, length ?c + 1) # ?c" pos O_QUEST] f1 f2 assms(3,5) by auto
  have "emitted p (us @ lay (Maybe [Loop xs])) p3"
    using emitted_trans [OF emitted_trans [OF 1(2) 2(2)] 3(2)] by (simp add: Let_def)
  moreover have "emit_stars mem pos p = Some p3"
    using 1(1) 2(1) 3(1) unfolding emit_stars_def by (simp add: Option.bind_eq_Some_conv) force
  ultimately show ?thesis by blast
qed

lemma emit_stars_error: "p_error p \<noteq> 0 \<Longrightarrow> emit_stars mem pos p = Some p"
  by (simp add: emit_stars_def ASTERN_error doinsert_error)

text \<open>The tree of a bounded repetition.\<close>

function reps :: "ptree list \<Rightarrow> nat \<Rightarrow> nat \<Rightarrow> ptree list" where
  "reps xs lo hi = (case (MAP lo, MAP hi) of
      (Rep_0, Rep_0) \<Rightarrow> []
    | (Rep_0, _) \<Rightarrow> [Choice (reps xs 1 hi) [[]]]
    | (Rep_1, Rep_N) \<Rightarrow> Choice xs [[]] # reps xs 1 (hi - 1)
    | (Rep_1, Rep_INF) \<Rightarrow> [Loop xs]
    | (Rep_N, Rep_N) \<Rightarrow> xs @ reps xs (lo - 1) (hi - 1)
    | (Rep_N, Rep_INF) \<Rightarrow> xs @ reps xs (lo - 1) hi
    | _ \<Rightarrow> xs)"
  by pat_completeness auto
termination
  by (relation "measure (\<lambda>(xs, lo, hi). lo + hi + (if lo = 0 then 2 else 0))") (auto simp: MAP_def split: if_splits)

declare reps.simps [simp del] repeat.simps [simp del]

lemma reps_ok: "list_all (tree_ok k) xs \<Longrightarrow> list_all (tree_ok k) (reps xs lo hi)"
proof (induction xs lo hi rule: reps.induct)
  case (1 xs lo hi)
  then show ?case by (subst reps.simps) (auto split: rep.split)
qed

lemma repeat_error: "p_error p \<noteq> 0 \<Longrightarrow> repeat mem start n k p = Some p"
  by (simp add: repeat.simps)

lemma MAP_simps: "MAP 0 = Rep_0" "MAP (Suc 0) = Rep_1" "MAP n = Rep_0 \<longleftrightarrow> n = 0" "MAP n = Rep_1 \<longleftrightarrow> n = 1"
  "MAP n = Rep_INF \<longleftrightarrow> n = INFINITY" "MAP n = Rep_N \<longleftrightarrow> 1 < n \<and> n \<noteq> INFINITY"
  by (auto simp: MAP_def)

text \<open>\<open>repeat\<close> emits the tree, for bounds as the parser reads them.\<close>

lemma reps_cases:
  "reps xs 0 0 = []"
  "0 < hi \<Longrightarrow> reps xs 0 hi = [Choice (reps xs 1 hi) [[]]]"
  "reps xs 1 1 = xs"
  "1 < hi \<Longrightarrow> hi \<noteq> INFINITY \<Longrightarrow> reps xs 1 hi = Choice xs [[]] # reps xs 1 (hi - 1)"
  "reps xs 1 INFINITY = [Loop xs]"
  "1 < lo \<Longrightarrow> lo \<noteq> INFINITY \<Longrightarrow> 1 < hi \<Longrightarrow> hi \<noteq> INFINITY \<Longrightarrow> reps xs lo hi = xs @ reps xs (lo - 1) (hi - 1)"
  "1 < lo \<Longrightarrow> lo \<noteq> INFINITY \<Longrightarrow> reps xs lo INFINITY = xs @ reps xs (lo - 1) INFINITY"
  by (subst reps.simps, simp add: MAP_def)+

lemma repeat_none: "p_error p = 0 \<Longrightarrow> repeat mem pos 0 0 p = Some (p\<lparr> p_strip := take pos (p_strip p) \<rparr>)"
  by (subst repeat.simps, simp add: MAP_def Let_def)

lemma repeat_opt: "p_error p = 0 \<Longrightarrow> 0 < hi \<Longrightarrow> repeat mem pos 0 hi p = do {
          p \<leftarrow> doinsert mem OCH pos p; p \<leftarrow> repeat mem (pos + 1) 1 hi p; emit_empty_branch mem pos p }"
  by (subst repeat.simps, simp add: MAP_def Let_def)

lemma repeat_once: "p_error p = 0 \<Longrightarrow> repeat mem pos 1 1 p = Some p"
  by (subst repeat.simps, simp add: MAP_def Let_def)

lemma repeat_more: "p_error p = 0 \<Longrightarrow> 1 < hi \<Longrightarrow> hi \<noteq> INFINITY \<Longrightarrow> repeat mem pos 1 hi p = do {
          q \<leftarrow> doinsert mem OCH pos p; q \<leftarrow> emit_empty_branch mem pos q;
          (copy, q) \<leftarrow> dupl mem (pos + 1) (HERE p + 1) q; repeat mem copy 1 (hi - 1) q }"
  by (subst repeat.simps, simp add: MAP_def Let_def)

lemma repeat_inf: "p_error p = 0 \<Longrightarrow> repeat mem pos 1 INFINITY p = do { p \<leftarrow> doinsert mem OPLUS pos p; ASTERN mem O_PLUS pos p }"
  by (subst repeat.simps, simp add: MAP_def Let_def)

lemma repeat_many: "p_error p = 0 \<Longrightarrow> 1 < lo \<Longrightarrow> lo \<noteq> INFINITY \<Longrightarrow> 1 < hi \<Longrightarrow> hi \<noteq> INFINITY \<Longrightarrow> repeat mem pos lo hi p = do {
          (copy, q) \<leftarrow> dupl mem pos (HERE p) p; repeat mem copy (lo - 1) (hi - 1) q }"
  by (subst repeat.simps, simp add: MAP_def Let_def)

lemma repeat_many_inf: "p_error p = 0 \<Longrightarrow> 1 < lo \<Longrightarrow> lo \<noteq> INFINITY \<Longrightarrow> repeat mem pos lo INFINITY p = do {
          (copy, q) \<leftarrow> dupl mem pos (HERE p) p; repeat mem copy (lo - 1) INFINITY q }"
  by (subst repeat.simps, simp add: MAP_def Let_def)

lemma bounds_cases:
  assumes "lo \<le> hi" "lo < INFINITY" "hi \<le> INFINITY"
  obtains (none) "lo = 0" "hi = 0" | (opt) "lo = 0" "0 < hi" | (once) "lo = 1" "hi = 1" | (more) "lo = 1" "1 < hi" "hi \<noteq> INFINITY"
    | (inf) "lo = 1" "hi = INFINITY" | (many) "1 < lo" "1 < hi" "hi \<noteq> INFINITY" | (many_inf) "1 < lo" "hi = INFINITY"
proof (cases "lo = 0")
  case True
  then show ?thesis using that(1,2) by blast
next
  case l0: False
  show ?thesis
  proof (cases "lo = 1")
    case True
    then show ?thesis using assms(1) that(3-5) by (cases "hi = 1"; cases "hi = INFINITY") simp_all
  next
    case False
    then have "1 < lo" "1 < hi" using l0 assms(1) by simp_all
    then show ?thesis using that(6,7) by (cases "hi = INFINITY") simp_all
  qed
qed

definition emits_reps :: "allocator \<Rightarrow> ptree list \<Rightarrow> nat \<Rightarrow> nat \<Rightarrow> bool" where
  "emits_reps mem xs lo hi \<longleftrightarrow> (\<forall>p us pos. good p \<and> p_error p = 0 \<and> p_strip p = us @ lays xs \<and> pos = length us \<longrightarrow>
     (\<exists>p'. repeat mem pos lo hi p = Some p' \<and> emitted p (us @ lays (reps xs lo hi)) p'))"

lemma emits_repsI:
  "(\<And>p us. good p \<Longrightarrow> p_error p = 0 \<Longrightarrow> p_strip p = us @ lays xs \<Longrightarrow>
     \<exists>p'. repeat mem (length us) lo hi p = Some p' \<and> emitted p (us @ lays (reps xs lo hi)) p') \<Longrightarrow> emits_reps mem xs lo hi"
  by (simp add: emits_reps_def)

lemma emits_repsD:
  assumes "emits_reps mem xs lo hi" "good p" "p_error p = 0" "p_strip p = us @ lays xs" "pos = length us"
  obtains p' where "repeat mem pos lo hi p = Some p'" "emitted p (us @ lays (reps xs lo hi)) p'"
  using assms unfolding emits_reps_def by blast

lemma reps_none: "emits_reps mem xs 0 0"
proof (rule emits_repsI)
  fix p us assume good: "good p" and err: "p_error p = 0" and strip: "p_strip p = us @ lays xs"
  have "length us \<le> p_ssize p" using good strip by (simp add: good_def HERE_def)
  then have "emitted p us (p\<lparr> p_strip := us \<rparr>)" by (intro emitted_more [OF emitted_refl [OF good]])
  then show "\<exists>p'. repeat mem (length us) 0 0 p = Some p' \<and> emitted p (us @ lays (reps xs 0 0)) p'"
    by (simp add: repeat_none [OF err] strip reps_cases(1))
qed

lemma reps_opt:
  assumes "ample mem" "emits_reps mem xs 1 hi" "0 < hi"
  shows "emits_reps mem xs 0 hi"
proof (rule emits_repsI)
  fix p us assume good: "good p" and err: "p_error p = 0" and strip: "p_strip p = us @ lays xs"
  obtain p1 where p1: "doinsert mem OCH (length us) p = Some p1" "emitted p (us @ (OCH, length (lays xs) + 1) # lays xs) p1"
    using doinsert_ok [OF assms(1) good err strip refl] by blast
  note f1 = emitted_fields(1,2) [OF p1(2)]
  have e1: "p_error p1 = 0" "p_strip p1 = (us @ [(OCH, length (lays xs) + 1)]) @ lays xs" using f1 err by simp_all
  obtain p2 where p2: "repeat mem (length us + 1) 1 hi p1 = Some p2"
    "emitted p1 ((us @ [(OCH, length (lays xs) + 1)]) @ lays (reps xs 1 hi)) p2"
    using emits_repsD [OF assms(2) emitted_good [OF p1(2)] e1, of "length us + 1"] by auto
  note f2 = emitted_fields(1,2) [OF p2(2)]
  have e2: "p_error p2 = 0" "p_strip p2 = us @ (OCH, length (lays xs) + 1) # lays (reps xs 1 hi)" using f2 e1 by simp_all
  obtain p3 where p3: "emit_empty_branch mem (length us) p2 = Some p3" "emitted p2 (us @ lay (Choice (reps xs 1 hi) [[]])) p3"
    using emit_empty_branch_ok [OF assms(1) emitted_good [OF p2(2)] e2 refl] by blast
  have r: "repeat mem (length us) 0 hi p = Some p3" unfolding repeat_opt [OF err assms(3)] p1(1) by (simp add: p2(1) [simplified] p3(1))
  have t: "emitted p (us @ lay (Choice (reps xs 1 hi) [[]])) p3" using emitted_trans [OF emitted_trans [OF p1(2) p2(2)] p3(2)] .
  have l: "lays (reps xs 0 hi) = lay (Choice (reps xs 1 hi) [[]])" unfolding reps_cases(2) [OF assms(3)] by (simp del: lay.simps)
  show "\<exists>p'. repeat mem (length us) 0 hi p = Some p' \<and> emitted p (us @ lays (reps xs 0 hi)) p'"
    unfolding l using r t by blast
qed

lemma reps_once: "emits_reps mem xs 1 1"
proof (rule emits_repsI)
  fix p us assume "good p" and err: "p_error p = 0" and strip: "p_strip p = us @ lays xs"
  then have "emitted p (us @ lays xs) p" using emitted_refl by metis
  then show "\<exists>p'. repeat mem (length us) 1 1 p = Some p' \<and> emitted p (us @ lays (reps xs 1 1)) p'"
    unfolding repeat_once [OF err] reps_cases(3) by blast
qed

lemma reps_more:
  assumes "ample mem" "emits_reps mem xs 1 (hi - 1)" "1 < hi" "hi \<noteq> INFINITY"
  shows "emits_reps mem xs 1 hi"
proof (rule emits_repsI)
  fix p us assume good: "good p" and err: "p_error p = 0" and strip: "p_strip p = us @ lays xs"
  let ?w = "(OOR1, length (lays xs) + 1) # more_branches [[]]" and ?c = "(OCH, length (lays xs) + 2)"
  have lay: "lay (Choice xs [[]]) = ?c # lays xs @ ?w" by (simp add: Let_def)
  have here: "HERE p + 1 = length (us @ [?c]) + length (lays xs)" using strip by (simp add: HERE_def)
  obtain p1 where p1: "doinsert mem OCH (length us) p = Some p1" "emitted p (us @ (OCH, length (lays xs) + 1) # lays xs) p1"
    using doinsert_ok [OF assms(1) good err strip refl] by blast
  have e1: "p_error p1 = 0" "p_strip p1 = us @ (OCH, length (lays xs) + 1) # lays xs"
    using emitted_fields(1,2) [OF p1(2)] err by simp_all
  obtain p2 where p2: "emit_empty_branch mem (length us) p1 = Some p2" "emitted p1 (us @ lay (Choice xs [[]])) p2"
    using emit_empty_branch_ok [OF assms(1) emitted_good [OF p1(2)] e1 refl] by blast
  have e2: "p_error p2 = 0" "p_strip p2 = (us @ [?c]) @ lays xs @ ?w" "HERE p2 = length (us @ lay (Choice xs [[]]))"
    using emitted_fields(1,2,17) [OF p2(2)] e1 unfolding lay by simp_all
  obtain p3 where p3: "dupl mem (length us + 1) (HERE p + 1) p2 = Some (HERE p2, p3)"
    "emitted p2 ((us @ [?c]) @ lays xs @ ?w @ lays xs) p3"
    using dupl_ok [OF assms(1) emitted_good [OF p2(2)] e2(2) _ here, of "length us + 1"] by auto
  have e3: "p_error p3 = 0" "p_strip p3 = (us @ lay (Choice xs [[]])) @ lays xs"
    using emitted_fields(1,2) [OF p3(2)] e2(1) unfolding lay by simp_all
  obtain p4 where p4: "repeat mem (HERE p2) 1 (hi - 1) p3 = Some p4"
    "emitted p3 ((us @ lay (Choice xs [[]])) @ lays (reps xs 1 (hi - 1))) p4"
    using emits_repsD [OF assms(2) emitted_good [OF p3(2)] e3 e2(3)] by blast
  have "emitted p ((us @ lay (Choice xs [[]])) @ lays (reps xs 1 (hi - 1))) p4"
    using emitted_trans [OF emitted_trans [OF emitted_trans [OF p1(2) p2(2)] p3(2)] p4(2)] .
  moreover have "repeat mem (length us) 1 hi p = Some p4"
    unfolding repeat_more [OF err assms(3,4)] p1(1) by (simp add: p2(1) p3(1) [simplified] p4(1) [simplified])
  moreover have "us @ lays (reps xs 1 hi) = (us @ lay (Choice xs [[]])) @ lays (reps xs 1 (hi - 1))"
    unfolding reps_cases(4) [OF assms(3,4)] by (simp del: lay.simps)
  ultimately show "\<exists>p'. repeat mem (length us) 1 hi p = Some p' \<and> emitted p (us @ lays (reps xs 1 hi)) p'" by metis
qed

lemma reps_inf:
  assumes "ample mem"
  shows "emits_reps mem xs 1 INFINITY"
proof (rule emits_repsI)
  fix p us assume good: "good p" and err: "p_error p = 0" and strip: "p_strip p = us @ lays xs"
  have "lays (reps xs 1 INFINITY) = lay (Loop xs)" unfolding reps_cases(5) by (simp del: lay.simps)
  then show "\<exists>p'. repeat mem (length us) 1 INFINITY p = Some p' \<and> emitted p (us @ lays (reps xs 1 INFINITY)) p'"
    using emit_loop_ok [OF assms good err strip refl] unfolding repeat_inf [OF err] by metis
qed

lemma reps_dupl:
  assumes "ample mem" "emits_reps mem xs lo' hi'" "reps xs lo hi = xs @ reps xs lo' hi'"
    and "\<And>p pos. p_error p = 0 \<Longrightarrow> repeat mem pos lo hi p = do { (copy, q) \<leftarrow> dupl mem pos (HERE p) p; repeat mem copy lo' hi' q }"
  shows "emits_reps mem xs lo hi"
proof (rule emits_repsI)
  fix p us assume good: "good p" and err: "p_error p = 0" and strip: "p_strip p = us @ lays xs"
  have split: "p_strip p = us @ lays xs @ []" "HERE p = length us + length (lays xs)" "HERE p = length (us @ lays xs)"
    using strip by (simp_all add: HERE_def)
  obtain p1 where p1: "dupl mem (length us) (HERE p) p = Some (HERE p, p1)" "emitted p (us @ lays xs @ [] @ lays xs) p1"
    using dupl_ok [OF assms(1) good split(1) refl split(2)] by blast
  have e1: "p_error p1 = 0" "p_strip p1 = (us @ lays xs) @ lays xs" using emitted_fields(1,2) [OF p1(2)] err by simp_all
  obtain p2 where p2: "repeat mem (HERE p) lo' hi' p1 = Some p2" "emitted p1 ((us @ lays xs) @ lays (reps xs lo' hi')) p2"
    using emits_repsD [OF assms(2) emitted_good [OF p1(2)] e1 split(3)] by blast
  have "repeat mem (length us) lo hi p = Some p2" unfolding assms(4) [OF err] p1(1) by (simp add: p2(1))
  moreover have "us @ lays (reps xs lo hi) = (us @ lays xs) @ lays (reps xs lo' hi')" unfolding assms(3) by simp
  ultimately show "\<exists>p'. repeat mem (length us) lo hi p = Some p' \<and> emitted p (us @ lays (reps xs lo hi)) p'"
    using emitted_trans [OF p1(2) p2(2)] by metis
qed

lemma repeat_emits:
  assumes "ample mem"
  shows "lo \<le> hi \<Longrightarrow> lo < INFINITY \<Longrightarrow> hi \<le> INFINITY \<Longrightarrow> emits_reps mem xs lo hi"
proof (induction "lo + hi + (if lo = 0 then 2 else 0)" arbitrary: lo hi rule: less_induct)
  case less
  show ?case
  proof (rule bounds_cases [OF less(2-4)])
    assume none: "lo = 0" "hi = 0"
    then show ?thesis using reps_none by simp
  next
    assume opt: "lo = 0" "0 < hi"
    then have "emits_reps mem xs 1 hi" using less(4) by (intro less(1)) simp_all
    then show ?thesis unfolding opt(1) using opt(2) by (rule reps_opt [OF assms])
  next
    assume once: "lo = 1" "hi = 1"
    then show ?thesis using reps_once by simp
  next
    assume more: "lo = 1" "1 < hi" "hi \<noteq> INFINITY"
    then have "emits_reps mem xs 1 (hi - 1)" using less(4) by (intro less(1)) simp_all
    then show ?thesis unfolding more(1) using more(2,3) by (rule reps_more [OF assms])
  next
    assume inf: "lo = 1" "hi = INFINITY"
    then show ?thesis using reps_inf [OF assms] by simp
  next
    assume many: "1 < lo" "1 < hi" "hi \<noteq> INFINITY"
    have n: "lo \<noteq> INFINITY" using less(3) by simp
    have ih: "emits_reps mem xs (lo - 1) (hi - 1)" using less(2-4) many by (intro less(1)) auto
    show ?thesis by (rule reps_dupl [OF assms ih]) (rule reps_cases(6) [OF many(1) n many(2,3)], rule repeat_many [OF _ many(1) n many(2,3)])
  next
    assume many_inf: "1 < lo" "hi = INFINITY"
    have n: "lo \<noteq> INFINITY" using less(3) by simp
    have ih: "emits_reps mem xs (lo - 1) INFINITY" using less(2-4) many_inf by (intro less(1)) auto
    show ?thesis unfolding many_inf(2)
      by (rule reps_dupl [OF assms ih]) (rule reps_cases(7) [OF many_inf(1) n], rule repeat_many_inf [OF _ many_inf(1) n])
  qed
qed

end
