(* ===== verification/Posix_Brackets.thy ===== *)
theory Posix_Brackets
  imports Posix_Layout
begin

text \<open>
  The parser below the level of expressions, when every allocation succeeds and the text has no NUL: sets, bracket
  expressions and single characters. The operations on sets are the operations on the sets of characters that they stand for
  (\<open>mems\<close>), a set with a single member is not a letter of two cases, so that \<open>ordinary\<close> calls itself only
  once, and what is emitted is a leaf.
\<close>

section \<open>Sets\<close>

lemma unat_byte: "unat (c :: byte) < NC"
  by (rule less_le_trans [OF unsigned_less]) simp

lemma good_set:
  assumes "good p" "no < p_ncsets p"
  shows "set_col no < length (p_bits p)" "no < length (p_hash p)" "length (p_bits p ! set_col no) = NC"
proof -
  have "no < length (p_bits p) * 8" using assms by (simp add: good_def)
  then show "set_col no < length (p_bits p)" unfolding set_col_def by (rule less_mult_imp_div_less)
  then show "length (p_bits p ! set_col no) = NC" using assms(1) by (simp add: good_def)
  show "no < length (p_hash p)" using assms by (simp add: good_def)
qed

lemma bits_at_ok: "good p \<Longrightarrow> no < p_ncsets p \<Longrightarrow> bits_at (set_col no) c p = Some (p_bits p ! set_col no ! unat c)"
  using good_set [of p no] unat_byte [of c] by (simp add: bits_at_def)

lemma in_set_ok: "good p \<Longrightarrow> no < p_ncsets p \<Longrightarrow> in_set no c p = Some (p_bits p ! set_col no ! unat c AND set_bit no \<noteq> 0)"
  by (simp add: in_set_def bits_at_ok)

text \<open>Only the contents of the sets, the text and the error change.\<close>

definition parsed :: "cparse \<Rightarrow> cparse \<Rightarrow> bool" where
  "parsed p p' \<longleftrightarrow> good p' \<and> (\<exists>bs hs nx pa er. p' = p\<lparr> p_bits := bs, p_hash := hs, p_next := nx, p_past := pa, p_error := er \<rparr>)
     \<and> length (p_next p') \<le> length (p_next p) \<and> (p_error p \<noteq> 0 \<longrightarrow> p_error p' = p_error p)"

lemma parsed_good: "parsed p p' \<Longrightarrow> good p'"
  by (simp add: parsed_def)

lemma parsed_fields:
  assumes "parsed p p'"
  shows "p_strip p' = p_strip p" "p_cflags p' = p_cflags p" "p_ncsets p' = p_ncsets p" "p_backrefs p' = p_backrefs p"
    "p_iflags p' = p_iflags p" "length (p_next p') \<le> length (p_next p)" "p_error p \<noteq> 0 \<Longrightarrow> p_error p' = p_error p"
  using assms by (auto simp: parsed_def)

lemma parsedI:
  assumes "good p'" "p' = p\<lparr> p_bits := bs, p_hash := hs, p_next := nx, p_past := pa, p_error := er \<rparr>"
    "length (p_next p') \<le> length (p_next p)" "p_error p \<noteq> 0 \<Longrightarrow> p_error p' = p_error p"
  shows "parsed p p'"
  using assms unfolding parsed_def by blast

lemma parsed_trans:
  assumes "parsed p p'" "parsed p' p''"
  shows "parsed p p''"
proof -
  obtain bs hs nx pa er where 1: "p' = p\<lparr> p_bits := bs, p_hash := hs, p_next := nx, p_past := pa, p_error := er \<rparr>"
    using assms(1) unfolding parsed_def by blast
  obtain bs' hs' nx' pa' er' where 2: "p'' = p'\<lparr> p_bits := bs', p_hash := hs', p_next := nx', p_past := pa', p_error := er' \<rparr>"
    using assms(2) unfolding parsed_def by blast
  show ?thesis
  proof (rule parsedI [where bs = bs' and hs = hs' and nx = nx' and pa = pa' and er = er'])
    show "good p''" using assms(2) by (rule parsed_good)
    show "p'' = p\<lparr>p_bits := bs', p_hash := hs', p_next := nx', p_past := pa', p_error := er'\<rparr>" by (simp add: 1 2)
    show "length (p_next p'') \<le> length (p_next p)"
      using parsed_fields(6) [OF assms(1)] parsed_fields(6) [OF assms(2)] by linarith
    show "p_error p'' = p_error p" if "p_error p \<noteq> 0"
      using parsed_fields(7) [OF assms(1)] parsed_fields(7) [OF assms(2)] that by simp
  qed
qed

lemma parsed_refl: "good p \<Longrightarrow> parsed p p"
  by (rule parsedI [where bs = "p_bits p" and hs = "p_hash p" and nx = "p_next p" and pa = "p_past p" and er = "p_error p"]) simp_all

text \<open>A shorter text.\<close>

lemma parsed_next:
  assumes "good p" "length nx \<le> length (p_next p)" "set nx \<subseteq> set (p_next p)"
  shows "parsed p (p\<lparr> p_next := nx \<rparr>)"
  by (rule parsedI [where bs = "p_bits p" and hs = "p_hash p" and nx = nx and pa = "p_past p" and er = "p_error p"])
    (use assms in \<open>auto simp: good_def HERE_def\<close>)

lemma parsed_NEXTn: "good p \<Longrightarrow> parsed p (NEXTn n p)"
  unfolding NEXTn_def by (rule parsed_next) (auto dest: in_set_dropD)

lemma parsed_seterr: "good p \<Longrightarrow> e \<noteq> 0 \<Longrightarrow> parsed p (seterr e p)"
  unfolding seterr_def
  by (rule parsedI [where bs = "p_bits p" and hs = "p_hash p" and nx = "[]" and pa = 0 and er = "if p_error p = 0 then e else p_error p"])
    (auto simp: good_def HERE_def)

lemma parsed_REQUIRE: "good p \<Longrightarrow> e \<noteq> 0 \<Longrightarrow> parsed p (REQUIRE b e p)"
  by (simp add: REQUIRE_def parsed_refl parsed_seterr)

lemma parsed_EAT: "good p \<Longrightarrow> parsed p (snd (EAT c p))"
  by (simp add: EAT_def parsed_refl parsed_NEXTn)

lemma parsed_EATTWO: "good p \<Longrightarrow> parsed p (snd (EATTWO c d p))"
  by (simp add: EATTWO_def parsed_refl parsed_NEXTn)

lemma parsed_MUSTEAT: "good p \<Longrightarrow> e \<noteq> 0 \<Longrightarrow> parsed p (MUSTEAT c e p)"
  unfolding MUSTEAT_def by (rule parsed_trans [OF parsed_NEXTn parsed_REQUIRE [OF parsed_good [OF parsed_NEXTn]]])
text \<open>The members of a set.\<close>

definition mems :: "cparse \<Rightarrow> nat \<Rightarrow> byte set" where
  "mems p no = {c. in_set no c p = Some True}"

lemma and_set_bit: "x AND set_bit no \<noteq> 0 \<longleftrightarrow> bit x (no mod 8)"
  by (simp only: set_bit_def bit_iff_and_push_bit_not_eq_0)

lemma bit_set_bit: "k < 8 \<Longrightarrow> bit (set_bit no) k \<longleftrightarrow> k = no mod 8"
  by (auto simp: set_bit_def bit_exp_iff)

lemma in_set_iff: "in_set no c p = Some True \<longleftrightarrow> (\<exists>b. bits_at (set_col no) c p = Some b \<and> bit b (no mod 8))"
  by (auto simp: in_set_def and_set_bit)

lemma in_set_mems: "good p \<Longrightarrow> no < p_ncsets p \<Longrightarrow> in_set no c p = Some (c \<in> mems p no)"
  by (simp add: mems_def in_set_ok)

lemma mems_cong: "p_bits p = p_bits p' \<Longrightarrow> mems p = mems p'"
  by (simp add: mems_def in_set_def bits_at_def fun_eq_iff)

text \<open>Writing one byte of a set.\<close>

lemma set_byte_ok:
  assumes "good p" "no < p_ncsets p"
  shows "\<exists>p'. set_byte no c v h p = Some p' \<and> parsed p p' \<and> p_next p' = p_next p \<and> p_past p' = p_past p \<and> p_error p' = p_error p
    \<and> p_bits p' = (p_bits p)[set_col no := (p_bits p ! set_col no)[unat c := v]]"
proof -
  note g = good_set [OF assms]
  let ?bs = "(p_bits p)[set_col no := (p_bits p ! set_col no)[unat c := v]]"
  let ?p = "p\<lparr> p_bits := ?bs, p_hash := (p_hash p)[no := h] \<rparr>"
  have "set ?bs \<subseteq> insert ((p_bits p ! set_col no)[unat c := v]) (set (p_bits p))" by (rule set_update_subset_insert)
  then have "\<forall>col \<in> set ?bs. length col = NC" using assms(1) g(3) unfolding good_def by fastforce
  then have "good ?p" using assms(1) by (simp add: good_def HERE_def)
  then have "parsed p ?p"
    by (rule parsedI [where bs = ?bs and hs = "(p_hash p)[no := h]" and nx = "p_next p" and pa = "p_past p" and er = "p_error p"]) simp_all
  then show ?thesis using g(2) by (simp add: set_byte_def)
qed

lemma bits_at_update:
  assumes "good p" "no < p_ncsets p" "p_bits p' = (p_bits p)[set_col no := (p_bits p ! set_col no)[unat c := v]]"
  shows "bits_at col d p' = (if col = set_col no \<and> d = c then Some v else bits_at col d p)"
proof -
  note g = good_set [OF assms(1,2)]
  have "(unat c = unat d) = (c = d)" by (simp add: word_unat_eq_iff)
  then show ?thesis using g unat_byte [of c] by (auto simp: bits_at_def assms(3) nth_list_update)
qed

lemma mems_update:
  assumes "good p" "no < p_ncsets p" "p_bits p' = (p_bits p)[set_col no := (p_bits p ! set_col no)[unat c := v]]"
    and "\<And>k. k < 8 \<Longrightarrow> bit v k = (if k = no mod 8 then x else bit (p_bits p ! set_col no ! unat c) k)"
  shows "mems p' = (mems p)(no := if x then insert c (mems p no) else mems p no - {c})"
proof
  fix no'
  have same: "set_col no' = set_col no \<and> no' mod 8 = no mod 8 \<longleftrightarrow> no' = no"
    unfolding set_col_def by (metis div_mult_mod_eq)
  have old: "bits_at (set_col no) c p = Some (p_bits p ! set_col no ! unat c)" using bits_at_ok [OF assms(1,2)] .
  show "mems p' no' = ((mems p)(no := if x then insert c (mems p no) else mems p no - {c})) no'"
  proof (cases "no' = no")
    case True
    then show ?thesis using assms(4) [of "no mod 8"] by (auto simp: mems_def in_set_iff bits_at_update [OF assms(1-3)])
  next
    case False
    have "in_set no' d p' = Some True \<longleftrightarrow> in_set no' d p = Some True" for d
    proof (cases "set_col no' = set_col no \<and> d = c")
      case True
      then have "no' mod 8 \<noteq> no mod 8" using same False by blast
      then show ?thesis using True assms(4) [of "no' mod 8"] old by (simp add: in_set_iff bits_at_update [OF assms(1-3)])
    next
      case other: False
      then show ?thesis by (auto simp: in_set_iff bits_at_update [OF assms(1-3)])
    qed
    then show ?thesis using False by (simp add: mems_def)
  qed
qed

text \<open>Only the sets change: the set \<open>no\<close> becomes \<open>M\<close>.\<close>

definition becomes :: "nat \<Rightarrow> byte set \<Rightarrow> cparse \<Rightarrow> cparse \<Rightarrow> bool" where
  "becomes no M p p' \<longleftrightarrow> parsed p p' \<and> p_next p' = p_next p \<and> p_past p' = p_past p \<and> p_error p' = p_error p
     \<and> mems p' = (mems p)(no := M)"

lemma becomes_parsed: "becomes no M p p' \<Longrightarrow> parsed p p'"
  by (simp add: becomes_def)

lemma becomes_refl: "good p \<Longrightarrow> becomes no (mems p no) p p"
  by (simp add: becomes_def parsed_refl)

lemma becomes_trans: "becomes no M p p' \<Longrightarrow> becomes no M' p' p'' \<Longrightarrow> becomes no M' p p''"
  using parsed_trans by (auto simp: becomes_def)

lemma becomes_next: "becomes no M p p' \<Longrightarrow> no < p_ncsets p \<Longrightarrow> good p' \<and> no < p_ncsets p' \<and> mems p' no = M"
  using parsed_good parsed_fields(3) by (auto simp: becomes_def)

lemma CHadd_ok:
  assumes "good p" "no < p_ncsets p"
  shows "\<exists>p'. CHadd no c p = Some p' \<and> becomes no (insert c (mems p no)) p p'"
proof -
  let ?b = "p_bits p ! set_col no ! unat c OR set_bit no"
  obtain p' where p': "set_byte no c ?b (p_hash p ! no + c) p = Some p'" "parsed p p'" "p_next p' = p_next p" "p_past p' = p_past p"
    "p_error p' = p_error p" "p_bits p' = (p_bits p)[set_col no := (p_bits p ! set_col no)[unat c := ?b]]"
    using set_byte_ok [OF assms] by blast
  have "mems p' = (mems p)(no := insert c (mems p no))"
    using mems_update [OF assms p'(6), of True] by (simp add: bit_or_iff bit_set_bit)
  then show ?thesis using p' bits_at_ok [OF assms] by (auto simp: CHadd_def becomes_def)
qed

lemma CHsub_ok:
  assumes "good p" "no < p_ncsets p"
  shows "\<exists>p'. CHsub no c p = Some p' \<and> becomes no (mems p no - {c}) p p'"
proof -
  let ?b = "p_bits p ! set_col no ! unat c AND NOT (set_bit no)"
  obtain p' where p': "set_byte no c ?b (p_hash p ! no - c) p = Some p'" "parsed p p'" "p_next p' = p_next p" "p_past p' = p_past p"
    "p_error p' = p_error p" "p_bits p' = (p_bits p)[set_col no := (p_bits p ! set_col no)[unat c := ?b]]"
    using set_byte_ok [OF assms] by blast
  have "mems p' = (mems p)(no := mems p no - {c})"
    using mems_update [OF assms p'(6), of False] by (simp add: bit_and_iff bit_not_iff bit_set_bit)
  then show ?thesis using p' bits_at_ok [OF assms] by (auto simp: CHsub_def becomes_def)
qed

text \<open>Loops over characters: \<open>F\<close> is what one turn makes of the set.\<close>

lemma for_each_ok:
  assumes step: "\<And>c p. good p \<Longrightarrow> no < p_ncsets p \<Longrightarrow> \<exists>p'. f c p = Some p' \<and> becomes no (F c (mems p no)) p p'"
  shows "good p \<Longrightarrow> no < p_ncsets p \<Longrightarrow> \<exists>p'. for_each f cs p = Some p' \<and> becomes no (fold F cs (mems p no)) p p'"
proof (induction cs arbitrary: p)
  case Nil
  then show ?case by (simp add: becomes_refl)
next
  case (Cons c cs)
  obtain q where q: "f c p = Some q" "becomes no (F c (mems p no)) p q" using step [OF Cons(2,3)] by blast
  note n = becomes_next [OF q(2) Cons(3)]
  obtain r where r: "for_each f cs q = Some r" "becomes no (fold F cs (mems q no)) q r" using Cons(1) n by blast
  then have "becomes no (fold F (c # cs) (mems p no)) p r" using becomes_trans [OF q(2)] n by simp
  then show ?case using q(1) r(1) by auto
qed

lemma fold_insert: "fold insert cs A = set cs \<union> A"
  by (induction cs arbitrary: A) auto

lemma fold_remove: "fold (\<lambda>c A. A - {c}) cs A = A - set cs"
  by (induction cs arbitrary: A) auto

lemma add_all_ok:
  assumes "good p" "no < p_ncsets p"
  shows "\<exists>p'. for_each (CHadd no) cs p = Some p' \<and> becomes no (set cs \<union> mems p no) p p'"
  using for_each_ok [where F = insert and f = "CHadd no", OF CHadd_ok assms] by (simp add: fold_insert)

lemma sub_all_ok:
  assumes "good p" "no < p_ncsets p"
  shows "\<exists>p'. for_each (CHsub no) cs p = Some p' \<and> becomes no (mems p no - set cs) p p'"
  using for_each_ok [where F = "\<lambda>c A. A - {c}" and f = "CHsub no", OF CHsub_ok assms] by (simp add: fold_remove)

lemma set_all_bytes: "set all_bytes = UNIV"
proof -
  have "c \<in> set all_bytes" for c :: byte
  proof -
    have "c = of_nat (unat c)" by simp
    then show ?thesis using unat_byte [of c] unfolding all_bytes_def by (metis atLeastLessThan_iff image_eqI le0 set_map set_upt)
  qed
  then show ?thesis by blast
qed

lemma distinct_all_bytes: "distinct all_bytes"
proof -
  have "map unat all_bytes = [0 ..< NC]"
    unfolding all_bytes_def map_map by (rule map_idI) (simp add: unat_of_nat)
  then show ?thesis using distinct_map [of unat all_bytes] by simp
qed

text \<open>The complement.\<close>

definition flipped :: "byte \<Rightarrow> byte set \<Rightarrow> byte set" where
  "flipped c A = (if c \<in> A then A - {c} else insert c A)"

lemma fold_flipped: "distinct cs \<Longrightarrow> fold flipped cs A = (A - set cs) \<union> (set cs - A)"
  by (induction cs arbitrary: A) (auto simp: flipped_def)

lemma flip_ok:
  assumes "good p" "no < p_ncsets p"
  shows "\<exists>p'. flip no c p = Some p' \<and> becomes no (flipped c (mems p no)) p p'"
  using in_set_mems [OF assms, of c] CHadd_ok [OF assms, of c] CHsub_ok [OF assms, of c] by (auto simp: flip_def flipped_def)

lemma flip_all_ok:
  assumes "good p" "no < p_ncsets p"
  shows "\<exists>p'. for_each (flip no) (rev all_bytes) p = Some p' \<and> becomes no (- mems p no) p p'"
proof -
  have "fold flipped (rev all_bytes) (mems p no) = - mems p no"
    using fold_flipped [of "rev all_bytes"] by (auto simp: set_all_bytes distinct_all_bytes)
  then show ?thesis using for_each_ok [where F = flipped and f = "flip no", OF flip_ok assms] by metis
qed

text \<open>Both cases.\<close>

definition cased :: "byte \<Rightarrow> byte set \<Rightarrow> byte set" where
  "cased c A = (if c \<in> A \<and> isalpha c then insert (othercase c) A else A)"

lemma case_ranges: "isupper c \<longleftrightarrow> 65 \<le> unat c \<and> unat c \<le> 90" "islower c \<longleftrightarrow> 97 \<le> unat c \<and> unat c \<le> 122"
  by (simp_all add: isupper_def islower_def word_le_nat_alt)

lemma othercase_value: "unat (othercase c) = (if isupper c then unat c + 32 else if islower c then unat c - 32 else unat c)"
proof -
  have "unat (c + 0x20) = unat c + 32" if "isupper c" using that by (simp add: case_ranges unat_word_ariths)
  moreover have "unat (c - 0x20) = unat c - 32" if "islower c"
    using that unat_sub [of "0x20" c] by (simp add: case_ranges word_le_nat_alt)
  ultimately show ?thesis by (simp add: othercase_def)
qed

lemma othercase_twice: "isalpha c \<Longrightarrow> othercase (othercase c) = c \<and> isalpha (othercase c) \<and> othercase c \<noteq> c \<and> othercase c \<noteq> 10"
  by (auto simp: isalpha_def case_ranges word_unat_eq_iff othercase_value)

text \<open>A set with both cases of its letters.\<close>

definition both_cases :: "byte set \<Rightarrow> bool" where
  "both_cases A \<longleftrightarrow> (\<forall>c \<in> A. isalpha c \<longrightarrow> othercase c \<in> A)"

lemma fold_cased:
  assumes "\<forall>c \<in> A. isalpha c \<and> c \<notin> set cs \<longrightarrow> othercase c \<in> A"
  shows "both_cases (fold cased cs A) \<and> fold cased cs A = A \<union> othercase ` {c \<in> A. isalpha c \<and> c \<in> set cs}"
  using assms
proof (induction cs arbitrary: A)
  case Nil
  then show ?case by (auto simp: both_cases_def)
next
  case (Cons c cs)
  have "\<forall>d \<in> cased c A. isalpha d \<and> d \<notin> set cs \<longrightarrow> othercase d \<in> cased c A"
    using Cons(2) othercase_twice by (auto simp: cased_def)
  from Cons(1) [OF this] have ih: "both_cases (fold cased cs (cased c A))"
    "fold cased cs (cased c A) = cased c A \<union> othercase ` {d \<in> cased c A. isalpha d \<and> d \<in> set cs}" by blast+
  have "cased c A \<union> othercase ` {d \<in> cased c A. isalpha d \<and> d \<in> set cs} = A \<union> othercase ` {d \<in> A. isalpha d \<and> d \<in> set (c # cs)}"
    using othercase_twice by (auto simp: cased_def)
  then show ?case using ih by simp
qed

lemma add_case_ok:
  assumes "good p" "no < p_ncsets p"
  shows "\<exists>p'. add_case no c p = Some p' \<and> becomes no (cased c (mems p no)) p p'"
proof (cases "c \<in> mems p no \<and> isalpha c \<and> othercase c \<noteq> c")
  case True
  then show ?thesis using CHadd_ok [OF assms, of "othercase c"] in_set_mems [OF assms, of c] by (auto simp: add_case_def cased_def)
next
  case False
  then have "add_case no c p = Some p" using in_set_mems [OF assms, of c] by (auto simp: add_case_def)
  moreover have "cased c (mems p no) = mems p no" using False by (auto simp: cased_def insert_absorb)
  ultimately show ?thesis using becomes_refl [OF assms(1)] by simp
qed

lemma add_cases_ok:
  assumes "good p" "no < p_ncsets p"
  shows "\<exists>p'. for_each (add_case no) (rev all_bytes) p = Some p' \<and> becomes no (mems p no \<union> othercase ` {c \<in> mems p no. isalpha c}) p p'"
proof -
  have "fold cased (rev all_bytes) (mems p no) = mems p no \<union> othercase ` {c \<in> mems p no. isalpha c}"
    using fold_cased [of "mems p no" "rev all_bytes"] by (simp add: set_all_bytes)
  then show ?thesis using for_each_ok [where F = cased and f = "add_case no", OF add_case_ok assms] by metis
qed

lemma both_cases_closure: "both_cases (A \<union> othercase ` {c \<in> A. isalpha c})"
  using othercase_twice by (auto simp: both_cases_def)

section \<open>Bracket expressions\<close>

lemma find_cname_defined: "0 \<notin> set sp \<Longrightarrow> \<exists>r. find_cname sp ns = Some r"
proof (induction ns rule: find_cname.induct [where ?a0.0 = sp])
  case (2 sp name code ns)
  have "\<not> (length name < length sp \<and> take (length name + 1) sp = ascii name @ [0])"
  proof
    assume "length name < length sp \<and> take (length name + 1) sp = ascii name @ [0]"
    then have "0 \<in> set (take (length name + 1) sp)" by simp
    then show False using 2(2) in_set_takeD by fast
  qed
  then show ?case using 2 by auto
qed auto

lemma before_two_append: "before_two a b cs = (l, r) \<Longrightarrow> l @ r = cs"
  by (induction cs arbitrary: l r) (auto split: if_splits prod.splits)

lemma p_b_coll_elem_ok:
  assumes "good p"
  shows "\<exists>c p'. p_b_coll_elem endc p = Some (c, p') \<and> parsed p p'"
proof -
  obtain sp r where sp: "before_two endc k_rbrack (p_next p) = (sp, r)" by fastforce
  then have cs: "sp @ r = p_next p" by (rule before_two_append)
  then have "length r \<le> length (p_next p)" "set r \<subseteq> set (p_next p)" "0 \<notin> set sp"
    using assms by (auto simp: good_def simp flip: cs)
  then have q: "parsed p (p\<lparr> p_next := r \<rparr>)" "0 \<notin> set sp" using parsed_next [OF assms] by simp_all
  obtain code where code: "find_cname sp cnames = Some code" using find_cname_defined [OF q(2)] by blast
  have e: "parsed p (seterr e (p\<lparr> p_next := r \<rparr>))" if "e \<noteq> 0" for e
    using parsed_trans [OF q(1) parsed_seterr [OF parsed_good [OF q(1)] that]] .
  show ?thesis using sp code q(1) e by (cases code) (auto simp: p_b_coll_elem_def Let_def)
qed

lemma p_b_symbol_ok:
  assumes "good p"
  shows "\<exists>c p'. p_b_symbol p = Some (c, p') \<and> parsed p p' \<and> (MORE p \<longrightarrow> length (p_next p') < length (p_next p))"
proof -
  let ?q = "REQUIRE (MORE p) REG_EBRACK p"
  have q1: "parsed p ?q" using parsed_REQUIRE [OF assms] by simp
  note q = q1 parsed_good [OF q1]
  have m: "MORE p \<Longrightarrow> ?q = p \<and> p_next p \<noteq> []" by (simp add: REQUIRE_def MORE_def)
  have short: "length xs < length (p_next p)" if "length xs \<le> length (p_next p) - Suc n" "p_next p \<noteq> []" for xs :: "byte list" and n
    using that by (cases "p_next p") auto
  show ?thesis
  proof (cases "SEETWO k_lbrack k_dot ?q")
    case True
    note n1 = parsed_NEXTn [OF q(2), of 2]
    note n = n1 parsed_good [OF n1]
    obtain c p1 where 1: "p_b_coll_elem k_dot (NEXTn 2 ?q) = Some (c, p1)" "parsed (NEXTn 2 ?q) p1"
      using p_b_coll_elem_ok [OF n(2)] by blast
    let ?r = "EATTWO k_dot k_rbrack p1"
    have r: "parsed p1 (snd ?r)" using parsed_EATTWO [OF parsed_good [OF 1(2)]] .
    let ?s = "REQUIRE (fst ?r) REG_ECOLLATE (snd ?r)"
    have s: "parsed (snd ?r) ?s" using parsed_REQUIRE [OF parsed_good [OF r]] by simp
    have t: "parsed (NEXTn 2 ?q) ?s" using parsed_trans [OF parsed_trans [OF 1(2) r] s] .
    have "length (p_next ?s) < length (p_next p)" if "MORE p"
      using parsed_fields(6) [OF t] m [OF that] short [of _ 1] by (simp add: NEXTn_def)
    moreover have "p_b_symbol p = Some (c, ?s)" using True 1(1) by (simp add: p_b_symbol_def EATTWO_def Let_def split: prod.split)
    ultimately show ?thesis using parsed_trans [OF q(1) parsed_trans [OF n(1) t]] by blast
  next
    case False
    then have "p_b_symbol p = Some (PEEK ?q, NEXTn 1 ?q)" by (simp add: p_b_symbol_def EATTWO_def Let_def)
    moreover have "length (p_next (NEXTn 1 ?q)) < length (p_next p)" if "MORE p" using m [OF that] by (simp add: NEXTn_def)
    ultimately show ?thesis using parsed_trans [OF q(1) parsed_NEXTn [OF q(2)]] by blast
  qed
qed

text \<open>A term of a bracket expression: the text gets shorter.\<close>

definition term_ok :: "cparse \<Rightarrow> cparse option \<Rightarrow> bool" where
  "term_ok p r \<longleftrightarrow> (\<exists>p'. r = Some p' \<and> parsed p p' \<and> length (p_next p') < length (p_next p))"

lemma p_b_range_ok:
  assumes "good p" "no < p_ncsets p" "MORE p"
  shows "term_ok p (p_b_range no p)"
proof -
  obtain a p1 where 1: "p_b_symbol p = Some (a, p1)" "parsed p p1" "length (p_next p1) < length (p_next p)"
    using p_b_symbol_ok [OF assms(1)] assms(3) by blast
  define second where "second = (if SEE k_minus p1 \<and> length (p_next p1) > 1 \<and> p_next p1 ! 1 \<noteq> k_rbrack
       then (let (dash, p) = EAT k_minus (NEXTn 1 p1) in if dash then Some (k_minus, p) else p_b_symbol p)
       else Some (a, p1))"
  have "\<exists>b p2. second = Some (b, p2) \<and> parsed p1 p2"
  proof -
    note n1 = parsed_NEXTn [OF parsed_good [OF 1(2)], of 1]
    note n = n1 parsed_good [OF n1]
    have e: "parsed (NEXTn 1 p1) (snd (EAT k_minus (NEXTn 1 p1)))" using parsed_EAT [OF n(2)] .
    obtain c p2 where 2: "p_b_symbol (snd (EAT k_minus (NEXTn 1 p1))) = Some (c, p2)" "parsed (snd (EAT k_minus (NEXTn 1 p1))) p2"
      using p_b_symbol_ok [OF parsed_good [OF e]] by blast
    note ne = parsed_trans [OF n(1) e]
    note ne2 = parsed_trans [OF ne 2(2)]
    then show ?thesis using ne ne2 2(1) parsed_refl [OF parsed_good [OF 1(2)]] by (auto simp: second_def split: prod.splits)
  qed
  then obtain b p2 where 2: "second = Some (b, p2)" "parsed p1 p2" by blast
  let ?q = "REQUIRE (char_of_byte a \<le> char_of_byte b) REG_ERANGE p2"
  have q: "parsed p2 ?q" using parsed_REQUIRE [OF parsed_good [OF 2(2)]] by simp
  note t1 = parsed_trans [OF 2(2) q]
  note t = t1 parsed_trans [OF 1(2) t1]
  have "no < p_ncsets ?q" using parsed_fields(3) [OF t(2)] assms(2) by simp
  then obtain p3 where 3: "for_each (CHadd no) (char_range a b) ?q = Some p3" "parsed ?q p3" "p_next p3 = p_next ?q"
    using add_all_ok [OF parsed_good [OF q]] unfolding becomes_def by blast
  have "p_b_range no p = Some p3"
    unfolding p_b_range_def using 1(1) 2(1) [unfolded second_def] 3(1) by (simp add: Let_def)
  then show ?thesis using parsed_trans [OF t(2) 3(2)] 3(3) 1(3) parsed_fields(6) [OF t(1)] by (auto simp: term_ok_def)
qed

lemma p_b_class_ok:
  assumes "good p" "MORE p" "e \<noteq> 0"
    and body: "\<And>q. good q \<Longrightarrow> p_ncsets q = p_ncsets p \<Longrightarrow> \<exists>q'. body q = Some q' \<and> parsed q q'"
  shows "term_ok p (p_b_class c e body p)"
proof -
  let ?a = "NEXTn 2 p"
  let ?b = "REQUIRE (MORE ?a) REG_EBRACK ?a"
  let ?c = "REQUIRE (PEEK ?b \<noteq> k_minus \<and> PEEK ?b \<noteq> k_rbrack) e ?b"
  have a: "parsed p ?a" "length (p_next ?a) < length (p_next p)"
    using parsed_NEXTn [OF assms(1)] assms(2) by (simp_all add: NEXTn_def MORE_def)
  have b: "parsed ?a ?b" using parsed_REQUIRE [OF parsed_good [OF a(1)]] by simp
  have c: "parsed ?b ?c" using parsed_REQUIRE [OF parsed_good [OF b] assms(3)] .
  note ac1 = parsed_trans [OF b c]
  note ac = ac1 parsed_trans [OF a(1) ac1]
  obtain d where d: "body ?c = Some d" "parsed ?c d" using body [OF parsed_good [OF c]] parsed_fields(3) [OF ac(2)] by blast
  let ?e = "REQUIRE (MORE d) REG_EBRACK d"
  have e: "parsed d ?e" using parsed_REQUIRE [OF parsed_good [OF d(2)]] by simp
  let ?f = "EATTWO c k_rbrack ?e"
  have f: "parsed ?e (snd ?f)" using parsed_EATTWO [OF parsed_good [OF e]] .
  let ?g = "REQUIRE (fst ?f) e (snd ?f)"
  have g: "parsed (snd ?f) ?g" using parsed_REQUIRE [OF parsed_good [OF f] assms(3)] .
  have t: "parsed ?a ?g" using parsed_trans [OF parsed_trans [OF parsed_trans [OF parsed_trans [OF ac(1) d(2)] e] f] g] .
  have "p_b_class c e body p = Some ?g" unfolding p_b_class_def using d(1) by (simp add: Let_def split: prod.split)
  then show ?thesis using parsed_trans [OF a(1) t] a(2) parsed_fields(6) [OF t] by (auto simp: term_ok_def)
qed

lemma p_b_cclass_ok:
  assumes "good q" "no < p_ncsets q"
  shows "\<exists>q'. p_b_cclass no q = Some q' \<and> parsed q q'"
proof -
  let ?q = "q\<lparr> p_next := dropWhile isalpha (p_next q) \<rparr>"
  have d: "parsed q ?q" using assms(1) by (rule parsed_next) (auto simp: length_dropWhile_le dest: set_dropWhileD)
  have n: "no < p_ncsets ?q" using assms(2) by simp
  show ?thesis
  proof (cases "find (\<lambda>(name, cs). ascii name = takeWhile isalpha (p_next q)) cclasses")
    case None
    then show ?thesis using parsed_trans [OF d parsed_seterr [OF parsed_good [OF d]], of REG_ECTYPE] by (simp add: p_b_cclass_def Let_def)
  next
    case (Some r)
    obtain q' where "for_each (CHadd no) (snd r) ?q = Some q'" "parsed ?q q'"
      using add_all_ok [OF parsed_good [OF d] n] becomes_parsed by blast
    then show ?thesis using Some parsed_trans [OF d] by (auto simp: p_b_cclass_def Let_def split: prod.splits)
  qed
qed

lemma p_b_eclass_ok:
  assumes "good q" "no < p_ncsets q"
  shows "\<exists>q'. p_b_eclass no q = Some q' \<and> parsed q q'"
proof -
  obtain c p1 where 1: "p_b_coll_elem k_equals q = Some (c, p1)" "parsed q p1" using p_b_coll_elem_ok [OF assms(1)] by blast
  have "no < p_ncsets p1" using parsed_fields(3) [OF 1(2)] assms(2) by simp
  then obtain p2 where "CHadd no c p1 = Some p2" "parsed p1 p2" using CHadd_ok [OF parsed_good [OF 1(2)]] becomes_parsed by blast
  then show ?thesis using 1 parsed_trans by (auto simp: p_b_eclass_def)
qed

lemma p_b_term_ok:
  assumes "good p" "no < p_ncsets p" "MORE p"
  shows "term_ok p (p_b_term no p)"
proof -
  have "term_ok p (Some (seterr REG_ERANGE p))"
    using parsed_seterr [OF assms(1), of REG_ERANGE] assms(3) by (simp add: term_ok_def seterr_def MORE_def)
  moreover have "term_ok p (p_b_class k_colon REG_ECTYPE (p_b_cclass no) p)"
    using p_b_cclass_ok assms by (intro p_b_class_ok) auto
  moreover have "term_ok p (p_b_class k_equals REG_ECOLLATE (p_b_eclass no) p)"
    using p_b_eclass_ok assms by (intro p_b_class_ok) auto
  ultimately show ?thesis using p_b_range_ok [OF assms] by (simp add: p_b_term_def)
qed

lemma p_b_terms_ok:
  "good p \<Longrightarrow> no < p_ncsets p \<Longrightarrow> \<exists>p'. p_b_terms no p = Some p' \<and> parsed p p'"
proof (induction "length (p_next p)" arbitrary: p rule: less_induct)
  case less
  show ?case
  proof (cases "MORE p \<and> \<not> SEE k_rbrack p \<and> \<not> SEETWO k_minus k_rbrack p")
    case True
    then obtain q where q: "p_b_term no p = Some q" "parsed p q" "length (p_next q) < length (p_next p)"
      using p_b_term_ok [OF less(2,3)] by (auto simp: term_ok_def)
    have "no < p_ncsets q" using parsed_fields(3) [OF q(2)] less(3) by simp
    from less(1) [OF q(3) parsed_good [OF q(2)] this] show ?thesis
      using True q(1) parsed_trans [OF q(2)] by (subst p_b_terms.simps) auto
  next
    case False
    then show ?thesis using parsed_refl [OF less(2)] by (subst p_b_terms.simps) auto
  qed
qed

section \<open>What has been emitted\<close>

text \<open>
  The state has grown from \<open>p\<close> to \<open>p'\<close>: no text has come back, and without an error the strip has got the layout of
  some trees.
\<close>

definition grew :: "cparse \<Rightarrow> cparse \<Rightarrow> bool" where
  "grew p p' \<longleftrightarrow> good p' \<and> p_cflags p' = p_cflags p \<and> p_backrefs p' = p_backrefs p
     \<and> flag_on (p_iflags p') BAD = flag_on (p_iflags p) BAD
     \<and> length (p_next p') \<le> length (p_next p) \<and> p_ncsets p \<le> p_ncsets p' \<and> (p_error p \<noteq> 0 \<longrightarrow> p_error p' \<noteq> 0)
     \<and> (p_error p' = 0 \<longrightarrow> (\<exists>ts. p_strip p' = p_strip p @ lays ts \<and> list_all (tree_ok (p_ncsets p')) ts))"

lemma grew_good: "grew p p' \<Longrightarrow> good p'"
  by (simp add: grew_def)

lemma grew_length: "grew p p' \<Longrightarrow> length (p_next p') \<le> length (p_next p)"
  by (simp add: grew_def)

lemma grew_trans:
  assumes "grew p p'" "grew p' p''"
  shows "grew p p''"
proof -
  have "\<exists>ts. p_strip p'' = p_strip p @ lays ts \<and> list_all (tree_ok (p_ncsets p'')) ts" if e: "p_error p'' = 0"
  proof -
    have e': "p_error p' = 0" using assms(2) e by (auto simp: grew_def)
    obtain ts where ts: "p_strip p' = p_strip p @ lays ts" "list_all (tree_ok (p_ncsets p')) ts" using assms(1) e' by (auto simp: grew_def)
    obtain us where us: "p_strip p'' = p_strip p' @ lays us" "list_all (tree_ok (p_ncsets p'')) us" using assms(2) e by (auto simp: grew_def)
    have "list_all (tree_ok (p_ncsets p'')) ts" using trees_ok_mono [OF ts(2)] assms(2) by (simp add: grew_def)
    then show ?thesis using ts us by (intro exI [of _ "ts @ us"]) simp
  qed
  then show ?thesis using assms by (auto simp: grew_def)
qed

lemma grewI:
  assumes "good p'" "p_cflags p' = p_cflags p" "p_backrefs p' = p_backrefs p" "p_iflags p' = p_iflags p"
    "length (p_next p') \<le> length (p_next p)" "p_ncsets p \<le> p_ncsets p'" "p_error p \<noteq> 0 \<Longrightarrow> p_error p' \<noteq> 0"
    "p_error p' = 0 \<Longrightarrow> p_strip p' = p_strip p @ lays ts \<and> list_all (tree_ok (p_ncsets p')) ts"
  shows "grew p p'"
  using assms by (auto simp: grew_def)

lemma grew_refl: "good p \<Longrightarrow> grew p p"
  by (rule grewI [where ts = "[]"]) simp_all

lemma grew_parsed: "parsed p p' \<Longrightarrow> grew p p'"
  by (rule grewI [where ts = "[]"]) (use parsed_fields parsed_good in simp_all)

lemma grew_emitted:
  assumes "emitted p (p_strip p @ lays ts) p'" "list_all (tree_ok (p_ncsets p)) ts"
  shows "grew p p'"
  by (rule grewI [where ts = ts]) (use emitted_fields [OF assms(1)] emitted_good [OF assms(1)] assms(2) in simp_all)

text \<open>What was emitted last is replaced.\<close>

lemma grew_replace:
  assumes "grew p q" "p_strip q = p_strip p @ lays ts" "emitted q (p_strip p @ lays us) r" "list_all (tree_ok (p_ncsets q)) us" "p_error q = 0"
  shows "grew p r"
  using emitted_fields [OF assms(3)] emitted_good [OF assms(3)] assms(1,4,5) by (auto simp: grew_def)

lemma leaf_grew:
  assumes "ample mem" "good p" "leaf_ok (p_ncsets p) op n"
  shows "\<exists>p'. doemit mem op n p = Some p' \<and> grew p p' \<and> p_ncsets p' = p_ncsets p \<and> p_next p' = p_next p
    \<and> (p_error p = 0 \<longrightarrow> p_error p' = 0 \<and> p_strip p' = p_strip p @ [(op, n)])"
proof (cases "p_error p = 0")
  case True
  obtain p' where p': "doemit mem op n p = Some p'" "emitted p (p_strip p @ lays [Leaf op n]) p'"
    using doemit_ok [OF assms(1,2) True, of op n] by auto
  have "grew p p'" by (rule grew_emitted [OF p'(2)]) (simp add: assms(3))
  then show ?thesis using True p' emitted_fields [OF p'(2)] by auto
next
  case False
  then show ?thesis using doemit_error grew_refl [OF assms(2)] by auto
qed

text \<open>The categories and the counts of anchors are not looked at.\<close>

lemma grew_cats: "grew p p' \<Longrightarrow> length cats = NC \<Longrightarrow> grew p (p'\<lparr> p_cats := cats, p_ncats := n \<rparr>)"
  by (simp add: grew_def good_def HERE_def)

section \<open>Sets and single characters\<close>

text \<open>Only the sets have changed.\<close>

definition reset :: "cparse \<Rightarrow> cparse \<Rightarrow> bool" where
  "reset p p' \<longleftrightarrow> good p' \<and> (\<exists>bs hs n. p' = p\<lparr> p_bits := bs, p_hash := hs, p_ncsets := n \<rparr>)"

lemma reset_fields:
  assumes "reset p p'"
  shows "good p'" "p_strip p' = p_strip p" "p_cflags p' = p_cflags p" "p_backrefs p' = p_backrefs p" "p_iflags p' = p_iflags p"
    "p_next p' = p_next p" "p_error p' = p_error p"
  using assms by (auto simp: reset_def)

lemma freeset_ok:
  assumes "good p" "no < p_ncsets p"
  shows "\<exists>p'. freeset no p = Some p' \<and> reset p p' \<and> p_ncsets p' = (if no + 1 = p_ncsets p then no else p_ncsets p)"
proof -
  obtain q where q: "for_each (CHsub no) all_bytes p = Some q" "becomes no (mems p no - set all_bytes) p q"
    using sub_all_ok [OF assms] by blast
  have p: "parsed p q" using q(2) by (rule becomes_parsed)
  obtain bs hs nx pa er where "q = p\<lparr> p_bits := bs, p_hash := hs, p_next := nx, p_past := pa, p_error := er \<rparr>"
    using p unfolding parsed_def by blast
  then have e: "q = p\<lparr> p_bits := bs, p_hash := hs \<rparr>" using q(2) by (simp add: becomes_def)
  define r where "r = (if no + 1 = p_ncsets q then q\<lparr> p_ncsets := p_ncsets q - 1 \<rparr> else q)"
  have "good r" using parsed_good [OF p] by (auto simp: r_def good_def HERE_def)
  moreover have "r = p\<lparr> p_bits := bs, p_hash := hs, p_ncsets := p_ncsets r \<rparr>" by (simp add: r_def e)
  ultimately have "reset p r" unfolding reset_def by blast
  moreover have "p_ncsets r = (if no + 1 = p_ncsets p then no else p_ncsets p)" using assms(2) by (auto simp: r_def e)
  ultimately show ?thesis using q(1) by (simp add: freeset_def r_def Let_def)
qed

lemma find_same_ok:
  "good p \<Longrightarrow> no < p_ncsets p \<Longrightarrow> list_all (\<lambda>n. n < p_ncsets p) nos \<Longrightarrow>
    \<exists>r. find_same nos no p = Some r \<and> (\<forall>k. r = Some k \<longrightarrow> k < p_ncsets p \<and> k \<noteq> no)"
proof (induction nos)
  case (Cons k nos)
  obtain b where "same_sets k no p = Some b" "same_sets no k p = Some b"
  proof -
    have "list_all (\<lambda>c. in_set no c p \<noteq> None \<and> in_set k c p \<noteq> None) all_bytes" using Cons by (simp add: in_set_mems list_all_iff)
    then show ?thesis using that [of "list_all (\<lambda>c. in_set no c p = in_set k c p) all_bytes"]
      by (simp add: same_sets_def conj_commute eq_commute [of "in_set k _ _"])
  qed
  then show ?case using Cons good_set(2) by auto
qed simp

lemma freezeset_ok:
  assumes "good p" "no < p_ncsets p"
  shows "\<exists>k p'. freezeset no p = Some (k, p') \<and> reset p p' \<and> k < p_ncsets p' \<and> no \<le> p_ncsets p'"
proof -
  obtain r where r: "find_same [0 ..< p_ncsets p] no p = Some r" "\<forall>k. r = Some k \<longrightarrow> k < p_ncsets p \<and> k \<noteq> no"
    using find_same_ok [OF assms, of "[0 ..< p_ncsets p]"] by (auto simp: list_all_iff)
  show ?thesis
  proof (cases r)
    case None
    have "reset p p" unfolding reset_def
      by (intro conjI exI [of _ "p_bits p"] exI [of _ "p_hash p"] exI [of _ "p_ncsets p"]) (simp_all add: assms(1))
    then show ?thesis using None r(1) assms(2) by (simp add: freezeset_def)
  next
    case (Some k)
    then show ?thesis using r freeset_ok [OF assms] assms(2) by (auto simp: freezeset_def split: if_splits)
  qed
qed

lemma set_members_ok: "good p \<Longrightarrow> no < p_ncsets p \<Longrightarrow> set_members no p = Some (filter (\<lambda>c. c \<in> mems p no) all_bytes)"
  by (simp add: set_members_def in_set_mems list_all_iff)

lemma nch_ok:
  assumes "good p" "no < p_ncsets p"
  obtains (one) d where "nch no p = Some 1" "firstch no p = Some d" "mems p no = {d}"
  | (other) n where "nch no p = Some n" "n \<noteq> 1" "\<nexists>d. mems p no = {d}"
proof -
  let ?cs = "filter (\<lambda>c. c \<in> mems p no) all_bytes"
  have s: "set_members no p = Some ?cs" "set ?cs = mems p no" "distinct ?cs"
    using set_members_ok [OF assms] by (simp_all add: set_all_bytes distinct_all_bytes)
  show ?thesis
  proof (cases "length ?cs = 1")
    case True
    then obtain d where "?cs = [d]" by (auto simp: length_Suc_conv)
    then show ?thesis using s by (intro one [of d]) (simp_all add: nch_def firstch_def)
  next
    case False
    have "length ?cs = card (mems p no)" using s(2) distinct_card [OF s(3)] by simp
    then show ?thesis using False s(1) by (intro other [of "length ?cs"]) (auto simp: nch_def)
  qed
qed

lemma emit_char_ok:
  assumes "ample mem" "good p"
  shows "\<exists>p'. emit_char mem c p = Some p' \<and> grew p p' \<and> p_ncsets p' = p_ncsets p \<and> p_next p' = p_next p
    \<and> (p_error p = 0 \<longrightarrow> p_error p' = 0 \<and> p_strip p' = p_strip p @ [(OCHAR, unat c)])"
proof -
  obtain q where q: "doemit mem OCHAR (unat c) p = Some q" "grew p q" "p_ncsets q = p_ncsets p" "p_next q = p_next p"
    "p_error p = 0 \<longrightarrow> p_error q = 0 \<and> p_strip q = p_strip p @ [(OCHAR, unat c)]"
    using leaf_grew [OF assms, of OCHAR "unat c"] by (auto simp: leaf_ok_def)
  have len: "length (p_cats q) = NC" using grew_good [OF q(2)] by (simp add: good_def)
  have "nat (char_of_byte c + 128) < NC" using char_byte_bounds [of c] by simp
  then show ?thesis using q len grew_cats [OF q(2)] by (simp add: emit_char_def Let_def)
qed

section \<open>Bracket expressions and ordinary characters\<close>

lemma allocset_ok:
  assumes "ample mem" "good p"
  shows "\<exists>p'. allocset mem p = Some (p_ncsets p, p') \<and> good p'
    \<and> (\<exists>al ca hs bs. p' = p\<lparr> p_ncsets := p_ncsets p + 1, p_ncsalloc := al, p_calls := ca, p_hash := hs, p_bits := bs \<rparr>)"
proof (cases "p_ncsets p \<ge> p_ncsalloc p")
  case True
  let ?hs = "(p_hash p @ replicate 8 0)[p_ncsets p := 0]"
  let ?q = "p\<lparr> p_ncsets := p_ncsets p + 1, p_ncsalloc := p_ncsalloc p + 8, p_calls := p_calls p + 1 + 1, p_hash := ?hs,
    p_bits := p_bits p @ [replicate NC 0] \<rparr>"
  have "good ?q" using assms(2) True by (auto simp: good_def HERE_def)
  moreover have "allocset mem p = Some (p_ncsets p, ?q)"
    using True assms by (simp add: allocset_def ask_def good_def Let_def)
  ultimately show ?thesis by blast
next
  case False
  let ?q = "p\<lparr> p_ncsets := p_ncsets p + 1, p_ncsalloc := p_ncsalloc p, p_calls := p_calls p, p_hash := (p_hash p)[p_ncsets p := 0],
    p_bits := p_bits p \<rparr>"
  have "good ?q" using assms(2) False by (simp add: good_def HERE_def)
  moreover have "allocset mem p = Some (p_ncsets p, ?q)" using False assms by (simp add: allocset_def good_def Let_def)
  ultimately show ?thesis by blast
qed

lemma grew_allocset:
  assumes "allocset mem p = Some (p_ncsets p, p')" "good p'"
    "\<exists>al ca hs bs. p' = p\<lparr> p_ncsets := p_ncsets p + 1, p_ncsalloc := al, p_calls := ca, p_hash := hs, p_bits := bs \<rparr>"
  shows "grew p p'" "p_ncsets p' = p_ncsets p + 1" "p_strip p' = p_strip p" "p_next p' = p_next p" "p_cflags p' = p_cflags p"
    "p_error p' = p_error p"
proof -
  show f: "p_ncsets p' = p_ncsets p + 1" "p_strip p' = p_strip p" "p_next p' = p_next p" "p_cflags p' = p_cflags p" "p_error p' = p_error p"
    using assms(3) by auto
  show "grew p p'" by (rule grewI [where ts = "[]"]) (use assms(2,3) in auto)
qed

text \<open>What \<open>bracket_set\<close> returns.\<close>

definition bracket_ok :: "cparse \<Rightarrow> nat option \<times> cparse \<Rightarrow> bool" where
  "bracket_ok p r \<longleftrightarrow> (case r of (None, q) \<Rightarrow> grew p q
     | (Some no, q) \<Rightarrow> grew p q \<and> no = p_ncsets p \<and> p_ncsets q = no + 1 \<and> p_strip q = p_strip p \<and> p_error q = 0
         \<and> (flag_on (p_cflags p) REG_ICASE \<longrightarrow> both_cases (mems q no)))"

lemma eat_add_ok:
  assumes "good p" "no < p_ncsets p"
  shows "\<exists>b p'. eat_add no c p = Some (b, p') \<and> parsed p p'"
proof -
  have e: "parsed p (snd (EAT c p))" using parsed_EAT [OF assms(1)] .
  have n: "no < p_ncsets (snd (EAT c p))" using parsed_fields(3) [OF e] assms(2) by simp
  obtain q where "CHadd no c (snd (EAT c p)) = Some q" "parsed (snd (EAT c p)) q"
    using CHadd_ok [OF parsed_good [OF e] n] becomes_parsed by blast
  then show ?thesis using e parsed_trans [OF e] by (cases "fst (EAT c p)") (auto simp: eat_add_def split: prod.splits)
qed

text \<open>The end of \<open>bracket_set\<close>: both cases and the complement.\<close>

lemma adjust_ok:
  assumes "good p" "no < p_ncsets p"
  shows "\<exists>q r. (if icase then for_each (add_case no) (rev all_bytes) p else Some p) = Some q \<and> becomes no (mems q no) p q
    \<and> mems p no \<subseteq> mems q no \<and> (icase \<longrightarrow> both_cases (mems q no))
    \<and> (if invert then do { p \<leftarrow> for_each (flip no) (rev all_bytes) q; if flag_on (p_cflags p) REG_NEWLINE then CHsub no 10 p else Some p }
        else Some q) = Some r \<and> parsed p r \<and> p_error r = p_error p \<and> (icase \<longrightarrow> both_cases (mems r no)) \<and> (\<not> invert \<longrightarrow> r = q)"
proof -
  obtain q where q: "(if icase then for_each (add_case no) (rev all_bytes) p else Some p) = Some q" "becomes no (mems q no) p q"
    "mems p no \<subseteq> mems q no" "icase \<longrightarrow> both_cases (mems q no)"
  proof (cases icase)
    case True
    obtain q where q: "for_each (add_case no) (rev all_bytes) p = Some q" "becomes no (mems p no \<union> othercase ` {c \<in> mems p no. isalpha c}) p q"
      using add_cases_ok [OF assms] by blast
    have m: "mems q no = mems p no \<union> othercase ` {c \<in> mems p no. isalpha c}" using becomes_next [OF q(2) assms(2)] by blast
    have "both_cases (mems q no)" unfolding m by (rule both_cases_closure)
    then show ?thesis using q m True that by auto
  next
    case False
    then show ?thesis using that [of p] becomes_refl [OF assms(1)] by simp
  qed
  note n = becomes_next [OF q(2) assms(2)] and pq = becomes_parsed [OF q(2)]
  have e: "p_error q = p_error p" using q(2) by (simp add: becomes_def)
  obtain f where f: "for_each (flip no) (rev all_bytes) q = Some f" "becomes no (- mems q no) q f"
    using flip_all_ok [of q no] n by blast
  have nf: "good f" "no < p_ncsets f" "mems f no = - mems q no" using becomes_next [OF f(2)] n by blast+
  obtain h where h: "CHsub no 10 f = Some h" "becomes no (mems f no - {10}) f h" using CHsub_ok [OF nf(1,2)] by blast
  have nh: "mems h no = mems f no - {10}" using becomes_next [OF h(2) nf(2)] by blast
  have c: "both_cases (- A) \<and> both_cases (- A - {10})" if "both_cases A" for A
    using that othercase_twice unfolding both_cases_def by (metis Compl_iff Diff_iff singletonD)
  show ?thesis
  proof (cases invert)
    case True
    have "parsed p f" "parsed p h" using parsed_trans [OF pq] f(2) h(2) becomes_parsed parsed_trans by meson+
    then show ?thesis using q f h e nf(3) nh c True by (auto simp: becomes_def)
  next
    case False
    then show ?thesis using q pq e by auto
  qed
qed

lemma bracket_set_ok:
  assumes "ample mem" "good p"
  shows "\<exists>r. bracket_set mem p = Some r \<and> bracket_ok p r"
proof -
  let ?no = "p_ncsets p"
  obtain p1 where a: "allocset mem p = Some (?no, p1)" "good p1"
    "\<exists>al ca hs bs. p1 = p\<lparr> p_ncsets := p_ncsets p + 1, p_ncsalloc := al, p_calls := ca, p_hash := hs, p_bits := bs \<rparr>"
    using allocset_ok [OF assms] by blast
  note f1 = grew_allocset [OF a]
  have word: "\<exists>r. (do { q \<leftarrow> doemit mem op 0 p1; Some (None :: nat option, NEXTn 6 q) }) = Some r \<and> bracket_ok p r" if word: "op = OBOW \<or> op = OEOW" for op
  proof -
    obtain q where q: "doemit mem op 0 p1 = Some q" "grew p1 q"
      using leaf_grew [OF assms(1) a(2), of op 0] word by (auto simp: leaf_ok_def)
    have "grew p (NEXTn 6 q)" using grew_trans [OF grew_trans [OF f1(1) q(2)] grew_parsed [OF parsed_NEXTn [OF grew_good [OF q(2)]]]] .
    then show ?thesis using q(1) by (simp add: bracket_ok_def)
  qed
  define invert where "invert = fst (EAT k_caret p1)"
  define p2 where "p2 = snd (EAT k_caret p1)"
  have 2: "parsed p1 p2" "EAT k_caret p1 = (invert, p2)" using parsed_EAT [OF a(2)] by (simp_all add: p2_def invert_def)
  have n: "?no < p_ncsets q" if "parsed p1 q" for q using parsed_fields(3) [OF that] f1(2) by simp
  note g = parsed_good and t = parsed_trans
  obtain b3 p3 where 3: "eat_add ?no k_rbrack p2 = Some (b3, p3)" "parsed p1 p3"
    using eat_add_ok [OF g [OF 2(1)] n [OF 2(1)]] t [OF 2(1)] by blast
  obtain b4 p4 where 4: "(if b3 then Some (b3, p3) else eat_add ?no k_minus p3) = Some (b4, p4)" "parsed p1 p4"
    using eat_add_ok [OF g [OF 3(2)] n [OF 3(2)], of k_minus] t [OF 3(2)] 3(2) by (cases b3) auto
  obtain p5 where 5: "p_b_terms ?no p4 = Some p5" "parsed p1 p5"
    using p_b_terms_ok [OF g [OF 4(2)] n [OF 4(2)]] t [OF 4(2)] by blast
  obtain b6 p6 where 6: "eat_add ?no k_minus p5 = Some (b6, p6)" "parsed p1 p6"
    using eat_add_ok [OF g [OF 5(2)] n [OF 5(2)]] t [OF 5(2)] by blast
  let ?p7 = "MUSTEAT k_rbrack REG_EBRACK p6"
  have 7: "parsed p1 ?p7" using t [OF 6(2) parsed_MUSTEAT [OF g [OF 6(2)]]] by simp
  note f7 = parsed_fields [OF 7] and g7 = grew_trans [OF f1(1) grew_parsed [OF 7]]
  show ?thesis
  proof (cases "take 6 (p_next p1) = ascii ''[:<:]]'' \<or> take 6 (p_next p1) = ascii ''[:>:]]''")
    case True
    then show ?thesis using word [of OBOW] word [of OEOW] a(1) by (auto simp: bracket_set_def)
  next
    case False
    have run: "bracket_set mem p = (if p_error ?p7 \<noteq> 0 then Some (None, ?p7)
       else do {
         p \<leftarrow> (if flag_on (p_cflags ?p7) REG_ICASE then for_each (add_case ?no) (rev all_bytes) ?p7 else Some ?p7);
         p \<leftarrow> (if invert then do {
             p \<leftarrow> for_each (flip ?no) (rev all_bytes) p;
             if flag_on (p_cflags p) REG_NEWLINE then CHsub ?no 10 p else Some p } else Some p);
         Some (Some ?no, p) })"
      unfolding bracket_set_def using False a(1) 2(2) 3(1) 4(1) 5(1) 6(1) by (simp add: Let_def)
    show ?thesis
    proof (cases "p_error ?p7 = 0")
      case e: True
      note adj = adjust_ok [OF g [OF 7] n [OF 7], of "flag_on (p_cflags ?p7) REG_ICASE" invert]
      obtain q r where qr: "(if flag_on (p_cflags ?p7) REG_ICASE then for_each (add_case ?no) (rev all_bytes) ?p7 else Some ?p7) = Some q"
        "(if invert then do { p \<leftarrow> for_each (flip ?no) (rev all_bytes) q; if flag_on (p_cflags p) REG_NEWLINE then CHsub ?no 10 p else Some p }
           else Some q) = Some r" "parsed ?p7 r" "p_error r = p_error ?p7" "flag_on (p_cflags ?p7) REG_ICASE \<longrightarrow> both_cases (mems r ?no)"
        using adj by (elim exE conjE)
      have "bracket_set mem p = Some (Some ?no, r)" using run e qr(1,2) by simp
      moreover have "bracket_ok p (Some ?no, r)"
        using grew_trans [OF g7 grew_parsed [OF qr(3)]] parsed_fields [OF qr(3)] f7 f1 e qr(4,5) by (simp add: bracket_ok_def)
      ultimately show ?thesis by blast
    next
      case False
      then show ?thesis using run g7 by (simp add: bracket_ok_def)
    qed
  qed
qed

text \<open>A letter and a right bracket as the text, as \<open>bothcases\<close> makes it.\<close>

lemma letters:
  assumes "isalpha c"
  shows "c \<noteq> k_caret" "c \<noteq> k_rbrack" "c \<noteq> k_minus" "c \<noteq> k_lbrack" "c \<noteq> 0"
  using assms by (auto simp: isalpha_def case_ranges)

lemma with_text_good: "good p \<Longrightarrow> 0 \<notin> set cs \<Longrightarrow> good (with_text cs p)"
  by (simp add: with_text_def good_def HERE_def)


lemma restore_grew:
  assumes "grew (with_text cs p) q" "good p" "p_error p \<noteq> 0 \<longrightarrow> p_error q \<noteq> 0"
  shows "grew p (restore_text p q)"
  using assms by (auto simp: grew_def good_def HERE_def with_text_def restore_text_def)

text \<open>The end of \<open>p_bracket\<close>: one member is emitted as a character.\<close>

definition finish_bracket :: "allocator \<Rightarrow> nat option \<times> cparse \<Rightarrow> cparse option" where
  "finish_bracket mem r = (case r of
       (None, q) \<Rightarrow> Some q
     | (Some no, q) \<Rightarrow> do {
         n \<leftarrow> nch no q;
         if n = 1 then do { d \<leftarrow> firstch no q; q \<leftarrow> ordinary mem d q; freeset no q }
         else do { (no, q) \<leftarrow> freezeset no q; doemit mem OANYOF no q } })"

lemma p_bracket_alt: "p_bracket mem p = do { r \<leftarrow> bracket_set mem p; finish_bracket mem r }"
  by (simp add: p_bracket_def finish_bracket_def case_prod_beta' cong: option.case_cong)

lemma ordinary_alt: "ordinary mem c p = (if flag_on (p_cflags p) REG_ICASE \<and> isalpha c \<and> othercase c \<noteq> c
    then do { r \<leftarrow> bracket_set mem (with_text [c, k_rbrack] p); q \<leftarrow> finish_bracket mem r; Some (restore_text p q) } else emit_char mem c p)"
  by (subst ordinary.simps) (simp add: finish_bracket_def case_prod_beta' cong: option.case_cong)

lemma set_leaf:
  assumes "ample mem" "good q" "no < p_ncsets q" "p_error q = 0"
  shows "\<exists>r. (do { (no, q) \<leftarrow> freezeset no q; doemit mem OANYOF no q }) = Some r \<and> good r \<and> no \<le> p_ncsets r \<and> p_error r = 0
    \<and> p_cflags r = p_cflags q \<and> p_backrefs r = p_backrefs q \<and> p_iflags r = p_iflags q \<and> p_next r = p_next q
    \<and> (\<exists>ts. p_strip r = p_strip q @ lays ts \<and> list_all (tree_ok (p_ncsets r)) ts)"
proof -
  obtain k q' where k: "freezeset no q = Some (k, q')" "reset q q'" "k < p_ncsets q'" "no \<le> p_ncsets q'"
    using freezeset_ok [OF assms(2,3)] by blast
  note f = reset_fields [OF k(2)]
  obtain r where r: "doemit mem OANYOF k q' = Some r" "emitted q' (p_strip q' @ [(OANYOF, k)]) r"
    using doemit_ok [OF assms(1) f(1)] f(7) assms(4) by auto
  have "p_strip r = p_strip q @ lays [Leaf OANYOF k]" "list_all (tree_ok (p_ncsets r)) [Leaf OANYOF k]"
    using emitted_fields [OF r(2)] f k(3) by (simp_all add: leaf_ok_def)
  then have "\<exists>ts. p_strip r = p_strip q @ lays ts \<and> list_all (tree_ok (p_ncsets r)) ts" by blast
  then show ?thesis using k r(1) f assms(4) emitted_fields [OF r(2)] emitted_good [OF r(2)] by simp
qed

text \<open>The recursion: a single member that is not a letter, or not with \<open>REG_ICASE\<close>, is emitted at once.\<close>

lemma finish_ok:
  assumes "ample mem" "bracket_ok p (s, q)" and "\<And>no d. s = Some no \<Longrightarrow> mems q no = {d} \<Longrightarrow> \<not> (flag_on (p_cflags q) REG_ICASE \<and> isalpha d)"
  shows "\<exists>r. finish_bracket mem (s, q) = Some r \<and> grew p r"
proof (cases s)
  case None
  then show ?thesis using assms(2) by (simp add: finish_bracket_def bracket_ok_def)
next
  case (Some no)
  then have q: "grew p q" "no = p_ncsets p" "p_ncsets q = no + 1" "p_strip q = p_strip p" "p_error q = 0"
    using assms(2) by (simp_all add: bracket_ok_def)
  have n: "no < p_ncsets q" using q(3) by simp
  show ?thesis
  proof (rule nch_ok [OF grew_good [OF q(1)] n])
    fix d assume d: "nch no q = Some 1" "firstch no q = Some d" "mems q no = {d}"
    have "ordinary mem d q = emit_char mem d q" using assms(3) [OF Some d(3)] by (auto simp: ordinary_alt)
    then obtain r where r: "ordinary mem d q = Some r" "grew q r" "p_ncsets r = p_ncsets q"
      "p_error r = 0" "p_strip r = p_strip q @ [(OCHAR, unat d)]"
      using emit_char_ok [OF assms(1) grew_good [OF q(1)]] q(5) by metis
    have nr: "no < p_ncsets r" using r(3) n by simp
    obtain t where t: "freeset no r = Some t" "reset r t" using freeset_ok [OF grew_good [OF r(2)] nr] by blast
    have "p_ncsets t = no" using freeset_ok [OF grew_good [OF r(2)] nr] t(1) r(3) q(3) by auto
    note f = reset_fields [OF t(2)]
    have "p_strip t = p_strip p @ lays [Leaf OCHAR (unat d)]" using r(5) q(4) f by simp
    then have "\<exists>ts. p_strip t = p_strip p @ lays ts \<and> list_all (tree_ok (p_ncsets t)) ts"
      by (intro exI [of _ "[Leaf OCHAR (unat d)]"]) (simp add: leaf_ok_def)
    then have "grew p t" using grew_trans [OF q(1) r(2)] f \<open>p_ncsets t = no\<close> q(2,5) by (simp add: grew_def)
    then show ?thesis using Some d(1,2) r(1) t(1) by (simp add: finish_bracket_def)
  next
    fix n assume "nch no q = Some n" "n \<noteq> 1"
    moreover obtain r where r: "(do { (no, q) \<leftarrow> freezeset no q; doemit mem OANYOF no q }) = Some r" "good r" "no \<le> p_ncsets r" "p_error r = 0"
      "p_cflags r = p_cflags q" "p_backrefs r = p_backrefs q" "p_iflags r = p_iflags q" "p_next r = p_next q"
      "\<exists>ts. p_strip r = p_strip q @ lays ts \<and> list_all (tree_ok (p_ncsets r)) ts"
      using set_leaf [OF assms(1) grew_good [OF q(1)] n q(5)] by blast
    moreover have "grew p r" using q r(2-9) by (simp add: grew_def)
    ultimately show ?thesis using Some by (simp add: finish_bracket_def)
  qed
qed

lemma single_cased: "both_cases A \<Longrightarrow> A = {d} \<Longrightarrow> \<not> isalpha d"
  using othercase_twice by (auto simp: both_cases_def)

lemma p_bracket_ok:
  assumes "ample mem" "good p"
  shows "\<exists>p'. p_bracket mem p = Some p' \<and> grew p p'"
proof -
  obtain s q where sq: "bracket_set mem p = Some (s, q)" "bracket_ok p (s, q)"
    using bracket_set_ok [OF assms] by (metis surj_pair)
  have "p_cflags q = p_cflags p" using sq(2) by (auto simp: bracket_ok_def grew_def split: option.splits)
  then have "\<exists>r. finish_bracket mem (s, q) = Some r \<and> grew p r"
    using sq(2) single_cased by (intro finish_ok [OF assms(1) sq(2)]) (auto simp: bracket_ok_def)
  then show ?thesis using sq(1) by (simp add: p_bracket_alt)
qed

lemma nonnewline_ok:
  assumes "ample mem" "good p"
  shows "\<exists>p'. nonnewline mem p = Some p' \<and> grew p p' \<and> p_next p' = p_next p"
proof -
  have g: "good (with_text [k_caret, 10, k_rbrack] p)" using with_text_good [OF assms(2)] by simp
  obtain q where q: "p_bracket mem (with_text [k_caret, 10, k_rbrack] p) = Some q" "grew (with_text [k_caret, 10, k_rbrack] p) q"
    using p_bracket_ok [OF assms(1) g] by blast
  have "p_error p \<noteq> 0 \<longrightarrow> p_error q \<noteq> 0" using q(2) by (simp add: grew_def with_text_def)
  from restore_grew [OF q(2) assms(2) this] show ?thesis using q(1) by (simp add: nonnewline_def restore_text_def)
qed

lemma ordinary_ok:
  assumes "ample mem" "good p"
  shows "\<exists>p'. ordinary mem c p = Some p' \<and> grew p p' \<and> p_next p' = p_next p"
proof (cases "flag_on (p_cflags p) REG_ICASE \<and> isalpha c")
  case True
  have o: "othercase c \<noteq> c" using othercase_twice True by blast
  let ?p = "with_text [c, k_rbrack] p"
  have g: "good ?p" using with_text_good [OF assms(2)] letters [of c] True by auto
  obtain s q where sq: "bracket_set mem ?p = Some (s, q)" "bracket_ok ?p (s, q)"
    using bracket_set_ok [OF assms(1) g] by (metis surj_pair)
  have "\<not> isalpha d" if "s = Some no" "mems q no = {d}" for no d
    using sq(2) single_cased that True by (auto simp: bracket_ok_def with_text_def)
  then obtain r where r: "finish_bracket mem (s, q) = Some r" "grew ?p r" using finish_ok [OF assms(1) sq(2)] by blast
  have "p_error p \<noteq> 0 \<longrightarrow> p_error r \<noteq> 0" using r(2) by (simp add: grew_def with_text_def)
  from restore_grew [OF r(2) assms(2) this] show ?thesis using sq(1) r(1) True o by (simp add: ordinary_alt restore_text_def)
next
  case False
  then have "ordinary mem c p = emit_char mem c p" by (auto simp: ordinary_alt)
  then show ?thesis using emit_char_ok [OF assms] by metis
qed

end
