(* ===== verification/Posix_Emits.thy ===== *)
theory Posix_Emits
  imports Posix_Brackets
begin

text \<open>
  The extended parser and the parser for plain strings, when every allocation succeeds and the text has no NUL: they
  return, and without an error what they have emitted is the layout of a list of trees (\<open>grew\<close>).
\<close>

section \<open>Repetitions\<close>

text \<open>A repetition after an atom: what the atom has emitted is replaced.\<close>

lemma again_ok:
  assumes "grew p q"
    and "\<And>us xs. p_error q = 0 \<Longrightarrow> p_strip q = us @ lays xs \<Longrightarrow> us = p_strip p \<Longrightarrow> \<exists>r. f q = Some r \<and> emitted q (us @ lays (T xs)) r"
    and "p_error q \<noteq> 0 \<Longrightarrow> f q = Some q"
    and "\<And>xs. list_all (tree_ok (p_ncsets q)) xs \<Longrightarrow> list_all (tree_ok (p_ncsets q)) (T xs)"
  shows "\<exists>r. f q = Some r \<and> grew p r"
proof (cases "p_error q = 0")
  case True
  obtain ts where ts: "p_strip q = p_strip p @ lays ts" "list_all (tree_ok (p_ncsets q)) ts" using assms(1) True by (auto simp: grew_def)
  obtain r where r: "f q = Some r" "emitted q (p_strip p @ lays (T ts)) r" using assms(2) [OF True ts(1) refl] by blast
  show ?thesis using grew_replace [OF assms(1) ts(1) r(2) assms(4) [OF ts(2)] True] r(1) by blast
next
  case False
  then show ?thesis using assms(1,3) by blast
qed

lemma count_loop_suffix: "count_loop cs n d = (n', d', r) \<Longrightarrow> \<exists>l. cs = l @ r"
proof (induction cs arbitrary: n d)
  case (Cons c cs)
  then show ?case by (cases "isdigit c \<and> n \<le> DUPMAX") (auto, metis append_Cons)
qed simp

lemma p_count_ok:
  assumes "good p"
  shows "parsed p (snd (p_count p))" "p_error (snd (p_count p)) = 0 \<Longrightarrow> fst (p_count p) \<le> DUPMAX"
proof -
  obtain n d r where c: "count_loop (p_next p) 0 0 = (n, d, r)" by (metis prod_cases3)
  obtain l where "p_next p = l @ r" using count_loop_suffix [OF c] by blast
  then have "parsed p (p\<lparr> p_next := r \<rparr>)" using assms by (intro parsed_next) auto
  then show "parsed p (snd (p_count p))"
    using parsed_trans parsed_REQUIRE [OF parsed_good] c by (simp add: p_count_def)
  show "p_error (snd (p_count p)) = 0 \<Longrightarrow> fst (p_count p) \<le> DUPMAX"
    using c by (auto simp: p_count_def REQUIRE_def seterr_def split: if_splits)
qed

lemma REQUIRE_error: "e \<noteq> 0 \<Longrightarrow> p_error (REQUIRE b e p) = 0 \<Longrightarrow> b \<and> p_error p = 0"
  by (auto simp: REQUIRE_def seterr_def split: if_splits)

lemma p_bounds_ok:
  assumes "good p"
  shows "\<exists>lo hi q. p_bounds gd p = (lo, hi, q) \<and> parsed p q \<and> (p_error q = 0 \<longrightarrow> lo \<le> hi \<and> lo < INFINITY \<and> hi \<le> INFINITY)"
proof -
  obtain lo p1 where 1: "p_count p = (lo, p1)" by fastforce
  have c1: "parsed p p1" "p_error p1 = 0 \<Longrightarrow> lo \<le> DUPMAX" using p_count_ok [OF assms] 1 by simp_all
  obtain comma p2 where 2: "EAT k_comma p1 = (comma, p2)" by fastforce
  have c2: "parsed p1 p2" "p_error p2 = p_error p1" using parsed_EAT [OF parsed_good [OF c1(1)], of k_comma] 2
    by (auto simp: EAT_def NEXTn_def split: if_splits)
  note p2 = parsed_trans [OF c1(1) c2(1)]
  obtain hi p3 where 3: "p_count p2 = (hi, p3)" by fastforce
  have c3: "parsed p2 p3" "p_error p3 = 0 \<Longrightarrow> hi \<le> DUPMAX" using p_count_ok [OF parsed_good [OF p2]] 3 by simp_all
  let ?q = "REQUIRE (lo \<le> hi) REG_BADBR p3"
  have q: "parsed p ?q" using parsed_trans [OF parsed_trans [OF p2 c3(1)] parsed_REQUIRE [OF parsed_good [OF c3(1)]]] by simp
  have e: "lo \<le> hi \<and> p_error p3 = 0 \<and> p_error p2 = 0" if "p_error ?q = 0"
    using REQUIRE_error [OF _ that] parsed_fields(7) [OF c3(1)] by fastforce
  show ?thesis
  proof (cases "comma \<and> gd p2 \<and> isdigit (PEEK p2)")
    case True
    then have "p_bounds gd p = (lo, hi, ?q)" using 1 2 3 by (simp add: p_bounds_def)
    then show ?thesis using q e c1(2) c2(2) c3(2) by fastforce
  next
    case False
    then have "p_bounds gd p = (lo, if comma then INFINITY else lo, p2)" using 1 2 by (auto simp: p_bounds_def)
    then show ?thesis using p2 c1(2) c2(2) by auto
  qed
qed

lemma repeat_grew:
  assumes "ample mem" "grew p q" "pos = HERE p" "p_error q = 0 \<longrightarrow> lo \<le> hi \<and> lo < INFINITY \<and> hi \<le> INFINITY"
  shows "\<exists>r. repeat mem pos lo hi q = Some r \<and> grew p r"
proof (rule again_ok [OF assms(2), where T = "\<lambda>xs. reps xs lo hi"])
  fix us xs assume *: "p_error q = 0" "p_strip q = us @ lays xs" "us = p_strip p"
  then have "emits_reps mem xs lo hi" using repeat_emits [OF assms(1)] assms(4) by blast
  then show "\<exists>r. repeat mem pos lo hi q = Some r \<and> emitted q (us @ lays (reps xs lo hi)) r"
    using emits_repsD [OF _ grew_good [OF assms(2)] *(1,2), of mem lo hi pos] assms(3) *(3) by (auto simp: HERE_def)
qed (simp_all add: repeat_error reps_ok)

lemma ere_bounds_ok:
  assumes "ample mem" "grew p q" "pos = HERE p"
  shows "\<exists>r. ere_bounds mem pos q = Some r \<and> grew p r"
proof -
  obtain lo hi q1 where 1: "p_bounds (\<lambda>_. True) q = (lo, hi, q1)" "parsed q q1"
    "p_error q1 = 0 \<longrightarrow> lo \<le> hi \<and> lo < INFINITY \<and> hi \<le> INFINITY"
    using p_bounds_ok [OF grew_good [OF assms(2)]] by blast
  have g1: "grew p q1" using grew_trans [OF assms(2) grew_parsed [OF 1(2)]] .
  obtain q2 where 2: "repeat mem pos lo hi q1 = Some q2" "grew p q2" using repeat_grew [OF assms(1) g1 assms(3) 1(3)] by blast
  note good2 = grew_good [OF 2(2)]
  let ?n = "q2\<lparr> p_next := dropWhile (\<lambda>c. c \<noteq> k_rbrace) (p_next q2) \<rparr>"
  have n: "parsed q2 ?n" using good2 by (intro parsed_next) (auto simp: length_dropWhile_le dest: set_dropWhileD)
  let ?r = "REQUIRE (MORE ?n) REG_EBRACE ?n"
  have r: "parsed q2 ?r" using parsed_trans [OF n parsed_REQUIRE [OF parsed_good [OF n]]] by simp
  have e: "parsed q2 (seterr REG_BADBR ?r)" using parsed_trans [OF r parsed_seterr [OF parsed_good [OF r]]] by simp
  have t: "parsed q2 (snd (EAT k_rbrace q2))" using parsed_EAT [OF good2] .
  have "ere_bounds mem pos q = Some (if fst (EAT k_rbrace q2) then snd (EAT k_rbrace q2) else seterr REG_BADBR ?r)"
    using 1(1) 2(1) by (simp add: ere_bounds_def EAT_def Let_def)
  then show ?thesis using grew_trans [OF 2(2) grew_parsed [OF t]] grew_trans [OF 2(2) grew_parsed [OF e]] by simp
qed

lemma ere_repetition_ok:
  assumes "ample mem" "grew p q" "pos = HERE p"
  shows "\<exists>r. ere_repetition mem pos wascaret q = Some r \<and> grew p r"
proof (cases "at_repetition q")
  case True
  let ?c = "PEEK q" and ?q = "REQUIRE (\<not> wascaret) REG_BADRPT (NEXTn 1 q)"
  have n: "parsed q (NEXTn 1 q)" using parsed_NEXTn [OF grew_good [OF assms(2)]] .
  have p: "parsed q ?q" using parsed_trans [OF n parsed_REQUIRE [OF parsed_good [OF n]]] by simp
  have g: "grew p ?q" using grew_trans [OF assms(2) grew_parsed [OF p]] .
  note ok = grew_good [OF g]
  have pos: "pos = length us" if "us = p_strip p" for us using assms(3) that by (simp add: HERE_def)
  have star: "\<exists>r. emit_stars mem pos ?q = Some r \<and> grew p r"
    by (rule again_ok [OF g, where T = "\<lambda>xs. [Maybe [Loop xs]]"])
      (use emit_stars_ok [OF assms(1) ok _ _ pos] in \<open>simp_all add: emit_stars_error\<close>)
  have plus: "\<exists>r. (do { p \<leftarrow> doinsert mem OPLUS pos ?q; ASTERN mem O_PLUS pos p }) = Some r \<and> grew p r"
    by (rule again_ok [OF g, where T = "\<lambda>xs. [Loop xs]" and f = "\<lambda>q. do { p \<leftarrow> doinsert mem OPLUS pos q; ASTERN mem O_PLUS pos p }"])
      (use emit_loop_ok [OF assms(1) ok _ _ pos] in \<open>simp_all add: doinsert_error ASTERN_error\<close>)
  have quest: "\<exists>r. (do { p \<leftarrow> doinsert mem OCH pos ?q; emit_empty_branch mem pos p }) = Some r \<and> grew p r"
  proof (rule again_ok [OF g, where T = "\<lambda>xs. [Choice xs [[]]]" and f = "\<lambda>q. do { p \<leftarrow> doinsert mem OCH pos q; emit_empty_branch mem pos p }"])
    fix us xs assume *: "p_error ?q = 0" "p_strip ?q = us @ lays xs" "us = p_strip p"
    obtain s where s: "doinsert mem OCH pos ?q = Some s" "emitted ?q (us @ (OCH, length (lays xs) + 1) # lays xs) s"
      using doinsert_ok [OF assms(1) ok *(1,2) pos [OF *(3)]] by blast
    note f = emitted_fields [OF s(2)]
    obtain r where "emit_empty_branch mem pos s = Some r" "emitted s (us @ lay (Choice xs [[]])) r"
      using emit_empty_branch_ok [OF assms(1) emitted_good [OF s(2)] _ f(1) pos [OF *(3)]] f(2) *(1) by auto
    then show "\<exists>r. (do { p \<leftarrow> doinsert mem OCH pos ?q; emit_empty_branch mem pos p }) = Some r \<and> emitted ?q (us @ lays [Choice xs [[]]]) r"
      using s emitted_trans by fastforce
  qed (simp_all add: doinsert_error emit_empty_branch_error)
  have bounds: "\<exists>r. ere_bounds mem pos ?q = Some r \<and> grew p r" using ere_bounds_ok [OF assms(1) g assms(3)] .
  define body where "body = (if ?c = k_star then emit_stars mem pos ?q
          else if ?c = k_plus then do { p \<leftarrow> doinsert mem OPLUS pos ?q; ASTERN mem O_PLUS pos p }
          else if ?c = k_quest then do { p \<leftarrow> doinsert mem OCH pos ?q; emit_empty_branch mem pos p }
          else ere_bounds mem pos ?q)"
  obtain r where r: "body = Some r" "grew p r" using star plus quest bounds unfolding body_def by metis
  have "ere_repetition mem pos wascaret q = do { p \<leftarrow> body; Some (if at_repetition p then seterr REG_BADRPT p else p) }"
    using True by (simp add: ere_repetition_def body_def Let_def)
  then show ?thesis using r grew_trans [OF r(2) grew_parsed [OF parsed_seterr [OF grew_good [OF r(2)]]], of REG_BADRPT] by simp
next
  case False
  then show ?thesis using assms(2) by (simp add: ere_repetition_def)
qed

section \<open>Parentheses and branches\<close>

lemma grew_sub: "good p \<Longrightarrow> good (p\<lparr> p_nsub := n \<rparr>)"
  by (simp add: good_def HERE_def)

text \<open>Nothing of what \<open>grew\<close> is about has changed but the strip.\<close>

definition beside :: "cparse \<Rightarrow> sop list \<Rightarrow> cparse \<Rightarrow> bool" where
  "beside p xs p' \<longleftrightarrow> good p' \<and> p_cflags p' = p_cflags p \<and> p_backrefs p' = p_backrefs p \<and> p_iflags p' = p_iflags p
     \<and> p_next p' = p_next p \<and> p_ncsets p' = p_ncsets p \<and> p_error p' = p_error p \<and> (p_error p = 0 \<longrightarrow> p_strip p' = xs)"

lemma beside_emitted: "emitted p xs p' \<Longrightarrow> beside p xs p'"
  using emitted_fields emitted_good by (simp add: beside_def)

lemma beside_trans: "beside p xs p' \<Longrightarrow> beside p' ys p'' \<Longrightarrow> beside p ys p''"
  by (simp add: beside_def)

lemma beside_emit:
  assumes "ample mem" "good p"
  shows "\<exists>p'. doemit mem op n p = Some p' \<and> beside p (p_strip p @ [(op, n)]) p'"
proof (cases "p_error p = 0")
  case True
  then show ?thesis using doemit_ok [OF assms True] beside_emitted by blast
next
  case False
  then show ?thesis using doemit_error assms(2) by (auto simp: beside_def)
qed

lemma grew_beside: "grew p q \<Longrightarrow> beside q (p_strip p @ lays ts) r \<Longrightarrow> p_error q = 0 \<Longrightarrow> list_all (tree_ok (p_ncsets q)) ts \<Longrightarrow> grew p r"
  by (auto simp: grew_def beside_def)

lemma open_paren_ok:
  assumes "ample mem" "good p"
  shows "\<exists>q. open_paren mem p = Some (p_nsub p + 1, q) \<and> beside p (p_strip p @ [(OLPAREN, p_nsub p + 1)]) q"
proof -
  let ?n = "p_nsub p + 1"
  let ?p = "p\<lparr> p_nsub := ?n \<rparr>"
  let ?q = "if ?n < NPAREN then ?p\<lparr> p_pbegin := (p_pbegin ?p)[?n := HERE ?p] \<rparr> else ?p"
  have q: "good ?q" using assms(2) by (simp add: good_def HERE_def)
  obtain r where r: "doemit mem OLPAREN ?n ?q = Some r" "beside ?q (p_strip ?q @ [(OLPAREN, ?n)]) r"
    using beside_emit [OF assms(1) q] by blast
  have "beside p (p_strip p) ?q" using q by (simp add: beside_def)
  then have "beside p (p_strip p @ [(OLPAREN, ?n)]) r" using r(2) by (simp add: beside_def)
  then show ?thesis using r(1) by (cases "?n < NPAREN") (simp_all add: open_paren_def Let_def)
qed

lemma close_paren_ok:
  assumes "ample mem" "good p"
  shows "\<exists>q. close_paren mem n p = Some q \<and> beside p (p_strip p @ [(ORPAREN, n)]) q"
proof -
  let ?q = "if n < NPAREN then p\<lparr> p_pend := (p_pend p)[n := HERE p] \<rparr> else p"
  have q: "good ?q" using assms(2) by (simp add: good_def HERE_def)
  obtain r where r: "doemit mem ORPAREN n ?q = Some r" "beside ?q (p_strip ?q @ [(ORPAREN, n)]) r"
    using beside_emit [OF assms(1) q] by blast
  have "beside p (p_strip p) ?q" using q by (simp add: beside_def)
  then have "beside p (p_strip p @ [(ORPAREN, n)]) r" using r(2) by (simp add: beside_def)
  then show ?thesis using r(1) by (cases "n < NPAREN") (simp_all add: close_paren_def)
qed

lemma paren_grew:
  assumes "beside p (p_strip p @ [(OLPAREN, n)]) q" "grew q r" "beside r (p_strip r @ [(ORPAREN, n)]) s"
  shows "grew p s"
proof -
  have "\<exists>us. p_strip s = p_strip p @ lays us \<and> list_all (tree_ok (p_ncsets s)) us" if e: "p_error s = 0"
  proof -
    have e': "p_error r = 0" "p_error q = 0" "p_error p = 0" using e assms by (auto simp: beside_def grew_def)
    obtain ts where ts: "p_strip r = p_strip q @ lays ts" "list_all (tree_ok (p_ncsets r)) ts" using assms(2) e' by (auto simp: grew_def)
    show ?thesis using ts assms(1,3) e' by (intro exI [of _ "[Par n ts]"]) (simp add: beside_def)
  qed
  then show ?thesis using assms by (auto simp: grew_def beside_def)
qed

text \<open>The branches that are complete.\<close>

fun opened :: "sop list list \<Rightarrow> sop list" where
  "opened [] = []"
| "opened (b # bs) = (OOR2, length b + 2) # b @ (OOR1, length b + 2) # opened bs"

lemma opened_more: "more_branches (bs @ [b]) = opened bs @ (OOR2, length b + 1) # b @ [(O_CH, length b + 2)]"
proof (induction bs)
  case (Cons a bs)
  then show ?case by (cases "bs @ [b]") auto
qed simp

lemma opened_snoc: "opened (bs @ [b]) = opened bs @ (OOR2, length b + 2) # b @ [(OOR1, length b + 2)]"
  by (induction bs) simp_all

abbreviation branches_front :: "sop list \<Rightarrow> ptree list \<Rightarrow> ptree list list \<Rightarrow> sop list" where
  "branches_front us x bs \<equiv> us @ (OCH, length (lays x) + 2) # lays x @ (OOR1, length (lays x) + 1) # opened (map lays bs)"

text \<open>
  The state between the branches: \<open>prev\<close> is \<open>prevback\<close> and \<open>prevfwd\<close>, the places of the last \<open>OOR1\<close> and of the \<open>OOR2\<close>
  behind it, which ends the strip.
\<close>

definition between_branches :: "cparse \<Rightarrow> (nat \<times> nat) option \<Rightarrow> cparse \<Rightarrow> bool" where
  "between_branches p prev q \<longleftrightarrow> good q \<and> p_cflags q = p_cflags p \<and> p_backrefs q = p_backrefs p
     \<and> flag_on (p_iflags q) BAD = flag_on (p_iflags p) BAD
     \<and> length (p_next q) \<le> length (p_next p) \<and> p_ncsets p \<le> p_ncsets q \<and> (p_error p \<noteq> 0 \<longrightarrow> p_error q \<noteq> 0)
     \<and> (p_error q = 0 \<longrightarrow> (case prev of
           None \<Rightarrow> p_strip q = p_strip p
         | Some (prevback, prevfwd) \<Rightarrow> \<exists>x bs front. list_all (tree_ok (p_ncsets q)) x \<and> list_all (list_all (tree_ok (p_ncsets q))) bs
             \<and> front = branches_front (p_strip p) x bs
             \<and> p_strip q = front @ [(OOR2, 0)] \<and> prevfwd = length front \<and> prevback + 1 = length front))"

lemma between_branches_start: "good p \<Longrightarrow> between_branches p None p"
  by (simp add: between_branches_def)

text \<open>The end of the last branch.\<close>

lemma branches_end_none: "between_branches p None q \<Longrightarrow> grew q r \<Longrightarrow> grew p r"
  using grew_trans [of p q r] by (auto simp: between_branches_def grew_def)

text \<open>The last branch, behind \<open>front\<close>.\<close>

definition last_branch :: "cparse \<Rightarrow> nat \<Rightarrow> nat \<Rightarrow> cparse \<Rightarrow> ptree list \<Rightarrow> ptree list list \<Rightarrow> ptree list \<Rightarrow> sop list \<Rightarrow> bool" where
  "last_branch p prevback prevfwd r x bs b front \<longleftrightarrow> list_all (tree_ok (p_ncsets r)) x
     \<and> list_all (list_all (tree_ok (p_ncsets r))) bs \<and> list_all (tree_ok (p_ncsets r)) b
     \<and> front = branches_front (p_strip p) x bs
     \<and> p_strip r = front @ (OOR2, 0) # lays b \<and> prevfwd = length front \<and> prevback + 1 = length front"

lemma branches_last:
  assumes "between_branches p (Some (prevback, prevfwd)) q" "grew q r" "p_error r = 0"
  obtains x bs b front where "last_branch p prevback prevfwd r x bs b front"
proof -
  have e: "p_error q = 0" using assms(2,3) by (auto simp: grew_def)
  obtain x bs front where q: "list_all (tree_ok (p_ncsets q)) x" "list_all (list_all (tree_ok (p_ncsets q))) bs"
    "front = branches_front (p_strip p) x bs"
    "p_strip q = front @ [(OOR2, 0)]" "prevfwd = length front" "prevback + 1 = length front"
    using assms(1) e by (auto simp: between_branches_def)
  obtain b where b: "p_strip r = p_strip q @ lays b" "list_all (tree_ok (p_ncsets r)) b" using assms(2,3) by (auto simp: grew_def)
  have "p_ncsets q \<le> p_ncsets r" using assms(2) by (simp add: grew_def)
  then have "list_all (tree_ok (p_ncsets r)) x" "list_all (list_all (tree_ok (p_ncsets r))) bs"
    using q(1,2) trees_ok_mono by (auto simp: list_all_iff intro: tree_ok_mono)
  then have "last_branch p prevback prevfwd r x bs b front" using b q(3-6) by (simp add: last_branch_def)
  then show ?thesis using that by blast
qed

lemma last_branch_split:
  assumes "last_branch p prevback prevfwd r x bs b front"
  obtains us v where "front = us @ [v]" "prevback = length us"
proof -
  have "front \<noteq> []" "prevback = length (butlast front)" using assms by (auto simp: last_branch_def)
  then show ?thesis using that [of "butlast front" "last front"] by simp
qed

lemma between_grew:
  assumes "between_branches p prev q" "grew q r" "beside r xs s"
  shows "good s" "p_cflags s = p_cflags p" "p_backrefs s = p_backrefs p" "flag_on (p_iflags s) BAD = flag_on (p_iflags p) BAD"
    "length (p_next s) \<le> length (p_next p)" "p_ncsets p \<le> p_ncsets s" "p_error p \<noteq> 0 \<longrightarrow> p_error s \<noteq> 0" "p_ncsets s = p_ncsets r"
    "p_error s = p_error r"
  using assms by (auto simp: between_branches_def grew_def beside_def)

lemma last_branch_ends:
  assumes "ample mem" "last_branch p prevback prevfwd r x bs b front" "good r" "p_error r = 0"
  shows "\<exists>s. (do { p \<leftarrow> AHEAD prevfwd r; ASTERN mem O_CH prevback p }) = Some s \<and> emitted r (p_strip p @ lays [Choice x (bs @ [b])]) s"
proof -
  obtain us v where front: "front = us @ [v]" "prevback = length us" using last_branch_split [OF assms(2)] .
  have r: "p_strip r = front @ (OOR2, 0) # lays b" "prevfwd = length front" "front = branches_front (p_strip p) x bs"
    using assms(2) by (simp_all add: last_branch_def)
  obtain s where s: "AHEAD prevfwd r = Some s" "emitted r (front @ (OOR2, length (lays b) + 1) # lays b) s"
    using AHEAD_ok [OF assms(3,4) r(1,2)] by blast
  note f = emitted_fields [OF s(2)]
  have st: "p_strip s = us @ (v # (OOR2, length (lays b) + 1) # lays b)" "p_error s = 0" using f(1,2) front(1) assms(4) by simp_all
  obtain t where t: "ASTERN mem O_CH prevback s = Some t"
    "emitted s (us @ (v # (OOR2, length (lays b) + 1) # lays b) @ [(O_CH, length (lays b) + 2)]) t"
    using ASTERN_ok [OF assms(1) emitted_good [OF s(2)] st(2,1) front(2), of O_CH] by auto
  have "us @ (v # (OOR2, length (lays b) + 1) # lays b) @ [(O_CH, length (lays b) + 2)] = p_strip p @ lays [Choice x (bs @ [b])]"
    using r(3) front(1) by (simp add: Let_def opened_more)
  then show ?thesis using s(1) t(1) emitted_trans [OF s(2) t(2)] by simp
qed

lemma branches_end:
  assumes "ample mem" "between_branches p (Some (prevback, prevfwd)) q" "grew q r"
  shows "\<exists>s. (do { p \<leftarrow> AHEAD prevfwd r; ASTERN mem O_CH prevback p }) = Some s \<and> grew p s"
proof (cases "p_error r = 0")
  case True
  obtain x bs b front where lb: "last_branch p prevback prevfwd r x bs b front" using branches_last [OF assms(2,3) True] .
  obtain t where t: "(do { p \<leftarrow> AHEAD prevfwd r; ASTERN mem O_CH prevback p }) = Some t"
    "emitted r (p_strip p @ lays [Choice x (bs @ [b])]) t"
    using last_branch_ends [OF assms(1) lb grew_good [OF assms(3)] True] by blast
  have b: "beside r (p_strip t) t" using beside_emitted [OF t(2)] by (simp add: beside_def)
  have "p_strip t = p_strip p @ lays [Choice x (bs @ [b])]" using emitted_fields(1) [OF t(2)] .
  moreover have "list_all (tree_ok (p_ncsets t)) [Choice x (bs @ [b])]"
    using lb between_grew(8) [OF assms(2,3) b] by (simp add: last_branch_def)
  ultimately have "\<exists>ts. p_strip t = p_strip p @ lays ts \<and> list_all (tree_ok (p_ncsets t)) ts" by blast
  then have "grew p t" using between_grew [OF assms(2,3) b] by (simp add: grew_def)
  then show ?thesis using t(1) by blast
next
  case False
  then have "grew p r" using assms(2,3) by (auto simp: between_branches_def grew_def)
  then show ?thesis using False by (simp add: AHEAD_error ASTERN_error)
qed

text \<open>A branch that another one follows: the first, and a later one.\<close>

definition open_branch :: "allocator \<Rightarrow> nat \<Rightarrow> nat \<Rightarrow> cparse \<Rightarrow> ((nat \<times> nat) \<times> cparse) option" where
  "open_branch mem prevback prevfwd p = do {
     p \<leftarrow> ASTERN mem OOR1 prevback p;
     let prevback = HERE p - 1;
     p \<leftarrow> AHEAD prevfwd p;
     let prevfwd = HERE p;
     p \<leftarrow> doemit mem OOR2 0 p;
     Some ((prevback, prevfwd), p) }"

lemma next_branch_error: "p_error p \<noteq> 0 \<Longrightarrow> open_branch mem i j p = Some ((HERE p - 1, HERE p), p)"
  by (simp add: open_branch_def ASTERN_error AHEAD_error doemit_error Let_def)

lemma next_branch_ok:
  assumes "ample mem" "good r" "p_error r = 0" "p_strip r = us @ vs @ (op, n) # ws" "prevback = length us" "prevfwd = length us + length vs"
  shows "\<exists>s. open_branch mem prevback prevfwd r = Some ((length us + length vs + length ws + 1, length us + length vs + length ws + 2), s)
    \<and> emitted r (us @ vs @ (op, length ws + 2) # ws @ [(OOR1, length vs + length ws + 1), (OOR2, 0)]) s"
proof -
  let ?o = "(OOR1, length vs + length ws + 1)"
  obtain s where s: "ASTERN mem OOR1 prevback r = Some s" "emitted r (us @ vs @ (op, n) # ws @ [?o]) s"
    using ASTERN_ok [OF assms(1-5), of OOR1] by auto
  note fs = emitted_fields [OF s(2)]
  have es: "p_error s = 0" "p_strip s = (us @ vs) @ (op, n) # (ws @ [?o])" "prevfwd = length (us @ vs)" using fs assms(3,6) by simp_all
  obtain t where t: "AHEAD prevfwd s = Some t" "emitted s ((us @ vs) @ (op, length (ws @ [?o]) + 1) # (ws @ [?o])) t"
    using AHEAD_ok [OF emitted_good [OF s(2)] es] by blast
  note ft = emitted_fields [OF t(2)]
  obtain w where w: "doemit mem OOR2 0 t = Some w" "emitted t (p_strip t @ [(OOR2, 0)]) w"
    using doemit_ok [OF assms(1) emitted_good [OF t(2)]] ft(2) es(1) by auto
  have "emitted r (p_strip t @ [(OOR2, 0)]) w" using emitted_trans [OF emitted_trans [OF s(2) t(2)] w(2)] .
  then show ?thesis using s(1) t(1) w(1) fs(1,17) ft(1,17) by (simp add: open_branch_def Let_def)
qed

lemma first_branch_opens:
  assumes "ample mem" "good r" "p_error r = 0" "p_strip r = us @ lays x" "conc = length us"
  shows "\<exists>s prev t. doinsert mem OCH conc r = Some s \<and> open_branch mem conc conc s = Some (prev, t)
    \<and> emitted r (branches_front us x [] @ [(OOR2, 0)]) t \<and> snd prev = length (branches_front us x []) \<and> fst prev + 1 = length (branches_front us x [])"
proof -
  obtain s where s: "doinsert mem OCH conc r = Some s" "emitted r (us @ (OCH, length (lays x) + 1) # lays x) s"
    using doinsert_ok [OF assms] by blast
  note f = emitted_fields [OF s(2)]
  have e: "p_error s = 0" "p_strip s = us @ [] @ (OCH, length (lays x) + 1) # lays x" "conc = length us + length []"
    using f(1,2) assms(3,5) by simp_all
  obtain prev t where t: "open_branch mem conc conc s = Some (prev, t)" "emitted s (branches_front us x [] @ [(OOR2, 0)]) t"
    "snd prev = length (branches_front us x [])" "fst prev + 1 = length (branches_front us x [])"
    using next_branch_ok [OF assms(1) emitted_good [OF s(2)] e(1,2) assms(5) e(3)] by auto
  show ?thesis using s(1) t(1,3,4) emitted_trans [OF s(2) t(2)] by blast
qed

lemma later_branch_opens:
  assumes "ample mem" "last_branch p prevback prevfwd r x bs b front" "good r" "p_error r = 0" "f = branches_front (p_strip p) x (bs @ [b])"
  shows "\<exists>prev t. open_branch mem prevback prevfwd r = Some (prev, t) \<and> emitted r (f @ [(OOR2, 0)]) t \<and> snd prev = length f \<and> fst prev + 1 = length f"
proof -
  obtain us v where front: "front = us @ [v]" "prevback = length us" using last_branch_split [OF assms(2)] .
  have r: "p_strip r = us @ [v] @ (OOR2, 0) # lays b" "prevfwd = length us + length [v]" "front = branches_front (p_strip p) x bs"
    using assms(2) front by (simp_all add: last_branch_def)
  have f: "f = front @ (OOR2, length (lays b) + 2) # lays b @ [(OOR1, length (lays b) + 2)]" using assms(5) r(3) by (simp add: opened_snoc)
  show ?thesis using next_branch_ok [OF assms(1,3,4) r(1) front(2) r(2)] front(1) by (auto simp: f)
qed

lemma first_branch_ok:
  assumes "ample mem" "between_branches p None q" "grew q r" "conc = HERE q"
  shows "\<exists>s prev t. doinsert mem OCH conc r = Some s \<and> open_branch mem conc conc s = Some (prev, t)
    \<and> between_branches p (Some prev) t \<and> p_next t = p_next r"
proof (cases "p_error r = 0")
  case True
  have q: "p_strip q = p_strip p" "p_error q = 0" using assms(2,3) True by (auto simp: between_branches_def grew_def)
  obtain x where x: "p_strip r = p_strip p @ lays x" "list_all (tree_ok (p_ncsets r)) x" using assms(3) True q by (auto simp: grew_def)
  have c: "conc = length (p_strip p)" using assms(4) q by (simp add: HERE_def)
  let ?f = "branches_front (p_strip p) x []"
  obtain s prev t where t: "doinsert mem OCH conc r = Some s" "open_branch mem conc conc s = Some (prev, t)"
    "emitted r (?f @ [(OOR2, 0)]) t" "snd prev = length ?f" "fst prev + 1 = length ?f"
    using first_branch_opens [OF assms(1) grew_good [OF assms(3)] True x(1) c] by blast
  have b: "beside r (?f @ [(OOR2, 0)]) t" using beside_emitted [OF t(3)] .
  note g = between_grew [OF assms(2,3) b]
  have "\<exists>y bs front. list_all (tree_ok (p_ncsets t)) y \<and> list_all (list_all (tree_ok (p_ncsets t))) bs
      \<and> front = branches_front (p_strip p) y bs
      \<and> p_strip t = front @ [(OOR2, 0)] \<and> snd prev = length front \<and> fst prev + 1 = length front"
    using x(2) g(8) t(4,5) b True by (intro exI [of _ x] exI [of _ "[]"] exI [of _ ?f]) (simp add: beside_def)
  then have "between_branches p (Some prev) t" using g by (simp add: between_branches_def case_prod_beta')
  moreover have "p_next t = p_next r" using b by (simp add: beside_def)
  ultimately show ?thesis using t(1,2) by blast
next
  case False
  then have "between_branches p (Some prev) r" for prev using assms(2,3) by (auto simp: between_branches_def grew_def)
  then show ?thesis using False by (simp add: doinsert_error next_branch_error)
qed

lemma later_branch_ok:
  assumes "ample mem" "between_branches p (Some (prevback, prevfwd)) q" "grew q r"
  shows "\<exists>prev t. open_branch mem prevback prevfwd r = Some (prev, t) \<and> between_branches p (Some prev) t \<and> p_next t = p_next r"
proof (cases "p_error r = 0")
  case True
  obtain x bs b front where lb: "last_branch p prevback prevfwd r x bs b front" using branches_last [OF assms(2,3) True] .
  let ?f = "branches_front (p_strip p) x (bs @ [b])"
  obtain prev t where t: "open_branch mem prevback prevfwd r = Some (prev, t)" "emitted r (?f @ [(OOR2, 0)]) t" "snd prev = length ?f" "fst prev + 1 = length ?f"
    using later_branch_opens [OF assms(1) lb grew_good [OF assms(3)] True refl] by blast
  have bt: "beside r (?f @ [(OOR2, 0)]) t" using beside_emitted [OF t(2)] .
  note g = between_grew [OF assms(2,3) bt]
  have "\<exists>y cs f. list_all (tree_ok (p_ncsets t)) y \<and> list_all (list_all (tree_ok (p_ncsets t))) cs
      \<and> f = branches_front (p_strip p) y cs
      \<and> p_strip t = f @ [(OOR2, 0)] \<and> snd prev = length f \<and> fst prev + 1 = length f"
    using lb g(8) t(3,4) bt True by (intro exI [of _ x] exI [of _ "bs @ [b]"] exI [of _ ?f]) (simp add: beside_def last_branch_def opened_snoc)
  then have "between_branches p (Some prev) t" using g by (simp add: between_branches_def case_prod_beta')
  moreover have "p_next t = p_next r" using bt by (simp add: beside_def)
  ultimately show ?thesis using t(1) by blast
next
  case False
  then have "between_branches p (Some prev) r" for prev using assms(2,3) by (auto simp: between_branches_def grew_def)
  then show ?thesis using False by (simp add: next_branch_error)
qed

section \<open>Extended expressions\<close>

text \<open>The first argument is enough for texts of the length \<open>n\<close>.\<close>

definition ere_ok :: "allocator \<Rightarrow> nat \<Rightarrow> bool" where
  "ere_ok mem k \<longleftrightarrow> (\<forall>stop p. good p \<and> 4 * length (p_next p) + 3 \<le> k \<longrightarrow> (\<exists>q. p_ere k mem stop p = Some q \<and> grew p q))"

definition alts_ok :: "allocator \<Rightarrow> nat \<Rightarrow> bool" where
  "alts_ok mem k \<longleftrightarrow> (\<forall>stop p prev q. between_branches p prev q \<and> 4 * length (p_next q) + 2 \<le> k
     \<longrightarrow> (\<exists>r. p_ere_alts k mem stop prev q = Some r \<and> grew p r))"

definition concat_ok :: "allocator \<Rightarrow> nat \<Rightarrow> bool" where
  "concat_ok mem k \<longleftrightarrow> (\<forall>stop p. good p \<and> 4 * length (p_next p) + 1 \<le> k \<longrightarrow> (\<exists>q. p_ere_concat k mem stop p = Some q \<and> grew p q))"

definition exp_ok :: "allocator \<Rightarrow> nat \<Rightarrow> bool" where
  "exp_ok mem k \<longleftrightarrow> (\<forall>p. good p \<and> MORE p \<and> 4 * length (p_next p) \<le> k
     \<longrightarrow> (\<exists>q. p_ere_exp k mem p = Some q \<and> grew p q \<and> length (p_next q) < length (p_next p)))"

lemma use_bol_grew: "grew p q \<Longrightarrow> grew p (use_bol q)"
proof -
  assume "grew p q"
  moreover have "flag_on (i OR 1) BAD = flag_on i BAD" for i :: int
    by (simp add: flag_on_def bit_eq_iff bit_or_iff bit_and_iff) (auto simp: bit_simps)
  ultimately show ?thesis by (simp add: grew_def use_bol_def good_def HERE_def)
qed

lemma use_eol_grew: "grew p q \<Longrightarrow> grew p (use_eol q)"
proof -
  assume "grew p q"
  moreover have "flag_on (i OR 2) BAD = flag_on i BAD" for i :: int
    by (simp add: flag_on_def bit_eq_iff bit_or_iff bit_and_iff) (auto simp: bit_simps)
  ultimately show ?thesis by (simp add: grew_def use_eol_def good_def HERE_def)
qed

lemma concat_step:
  assumes "exp_ok mem k" "concat_ok mem k"
  shows "concat_ok mem (Suc k)"
  unfolding concat_ok_def
proof (intro allI impI)
  fix stop p assume p: "good p \<and> 4 * length (p_next p) + 1 \<le> Suc k"
  show "\<exists>q. p_ere_concat (Suc k) mem stop p = Some q \<and> grew p q"
  proof (cases "MORE p \<and> PEEK p \<noteq> k_bar \<and> Some (PEEK p) \<noteq> stop")
    case True
    then obtain q where q: "p_ere_exp k mem p = Some q" "grew p q" "length (p_next q) < length (p_next p)"
      using assms(1) p unfolding exp_ok_def by auto
    then have "good q \<and> 4 * length (p_next q) + 1 \<le> k" using p grew_good [OF q(2)] by linarith
    then obtain r where "p_ere_concat k mem stop q = Some r" "grew q r" using assms(2) unfolding concat_ok_def by blast
    then show ?thesis using True q(1) grew_trans [OF q(2)] by simp
  next
    case False
    then show ?thesis using p grew_refl by auto
  qed
qed

lemma EAT_shorter: "fst (EAT c p) \<Longrightarrow> length (p_next (snd (EAT c p))) < length (p_next p)"
  by (cases "p_next p") (auto simp: EAT_def SEE_def NEXTn_def split: if_splits)

lemma alts_step:
  assumes "ample mem" "concat_ok mem k" "alts_ok mem k"
  shows "alts_ok mem (Suc k)"
  unfolding alts_ok_def
proof (intro allI impI)
  fix stop p prev q assume *: "between_branches p prev q \<and> 4 * length (p_next q) + 2 \<le> Suc k"
  then have bb: "between_branches p prev q" and gq: "good q" by (simp_all add: between_branches_def)
  obtain r where r: "p_ere_concat k mem stop q = Some r" "grew q r" using assms(2) gq * unfolding concat_ok_def by auto
  let ?r = "REQUIRE (HERE r \<noteq> HERE q) REG_EMPTY r"
  have pr: "parsed r ?r" using parsed_REQUIRE [OF grew_good [OF r(2)]] by simp
  obtain bar s where eat: "EAT k_bar ?r = (bar, s)" by fastforce
  have ps: "parsed ?r s" using parsed_EAT [OF parsed_good [OF pr], of k_bar] eat by simp
  have gs: "grew q s" using grew_trans [OF r(2) grew_parsed [OF parsed_trans [OF pr ps]]] .
  have rec: "\<exists>t. p_ere_alts k mem stop (Some v) u = Some t \<and> grew p t"
    if "between_branches p (Some v) u" "p_next u = p_next s" "bar" for v u
  proof -
    have "length (p_next s) < length (p_next ?r)" using EAT_shorter [of k_bar ?r] eat that(3) by simp
    then have "length (p_next u) < length (p_next q)"
      using that(2) parsed_fields(6) [OF pr] grew_length [OF r(2)] by simp
    then have "4 * length (p_next u) + 2 \<le> k" using * by linarith
    then show ?thesis using assms(3) that(1) unfolding alts_ok_def by blast
  qed
  show "\<exists>r. p_ere_alts (Suc k) mem stop prev q = Some r \<and> grew p r"
  proof (cases bar)
    case bar: True
    show ?thesis
    proof (cases prev)
      case None
      obtain u v t where u: "doinsert mem OCH (HERE q) s = Some u" "open_branch mem (HERE q) (HERE q) u = Some (v, t)"
        "between_branches p (Some v) t" "p_next t = p_next s"
        using first_branch_ok [OF assms(1) bb [unfolded None] gs refl] by blast
      obtain w where w: "p_ere_alts k mem stop (Some v) t = Some w" "grew p w" using rec [OF u(3,4) bar] by blast
      have "p_ere_alts (Suc k) mem stop prev q = do { (v, t) \<leftarrow> open_branch mem (HERE q) (HERE q) u; p_ere_alts k mem stop (Some v) t }"
        using None r(1) eat bar u(1) by (simp add: open_branch_def Let_def)
      then show ?thesis using u(2) w by simp
    next
      case (Some pf)
      obtain i j where pf: "pf = (i, j)" by fastforce
      obtain v t where u: "open_branch mem i j s = Some (v, t)" "between_branches p (Some v) t" "p_next t = p_next s"
        using later_branch_ok [OF assms(1) bb [unfolded Some pf] gs] by blast
      obtain w where w: "p_ere_alts k mem stop (Some v) t = Some w" "grew p w" using rec [OF u(2,3) bar] by blast
      have "p_ere_alts (Suc k) mem stop prev q = do { (v, t) \<leftarrow> open_branch mem i j s; p_ere_alts k mem stop (Some v) t }"
        using Some pf r(1) eat bar by (simp add: open_branch_def Let_def)
      then show ?thesis using u(1) w by simp
    qed
  next
    case bar: False
    show ?thesis
    proof (cases prev)
      case None
      then show ?thesis using r(1) eat bar branches_end_none [OF bb [unfolded None] gs] by simp
    next
      case (Some pf)
      obtain i j where pf: "pf = (i, j)" by fastforce
      show ?thesis using branches_end [OF assms(1) bb [unfolded Some pf] gs] Some pf r(1) eat bar by simp
    qed
  qed
qed

lemma ere_step: "alts_ok mem k \<Longrightarrow> ere_ok mem (Suc k)"
  unfolding alts_ok_def ere_ok_def using between_branches_start by auto

text \<open>The atoms: \<open>p_ere_exp\<close> up to the repetition.\<close>

definition ere_atom :: "nat \<Rightarrow> allocator \<Rightarrow> cparse \<Rightarrow> cparse option" where
  "ere_atom k mem p = (let c = PEEK p; p = NEXTn 1 p in
       if c = k_lparen then do {
         let p = REQUIRE (MORE p) REG_EPAREN p;
         (subno, p) \<leftarrow> open_paren mem p;
         p \<leftarrow> (if SEE k_rparen p then Some p else p_ere k mem (Some k_rparen) p);
         p \<leftarrow> close_paren mem subno p;
         Some (MUSTEAT k_rparen REG_EPAREN p) }
       else if c = k_rparen then Some (seterr REG_EPAREN p)
       else if c = k_caret then map_option use_bol (doemit mem OBOL 0 p)
       else if c = k_dollar then map_option use_eol (doemit mem OEOL 0 p)
       else if c = k_bar then Some (seterr REG_EMPTY p)
       else if c = k_star \<or> c = k_plus \<or> c = k_quest then Some (seterr REG_BADRPT p)
       else if c = k_dot then (if flag_on (p_cflags p) REG_NEWLINE then nonnewline mem p else doemit mem OANY 0 p)
       else if c = k_lbrack then p_bracket mem p
       else if c = k_bslash then (let p = REQUIRE (MORE p) REG_EESCAPE p in ordinary mem (PEEK p) (NEXTn 1 p))
       else if c = k_lbrace then ordinary mem c (REQUIRE (\<not> MORE p \<or> \<not> isdigit (PEEK p)) REG_BADRPT p)
       else ordinary mem c p)"

lemma p_ere_exp_atom: "p_ere_exp (Suc k) mem p = do { q \<leftarrow> ere_atom k mem p; ere_repetition mem (HERE (NEXTn 1 p)) (PEEK p = k_caret) q }"
  unfolding p_ere_exp.simps ere_atom_def Let_def by (rule refl)

definition grows :: "cparse \<Rightarrow> cparse option \<Rightarrow> bool" where
  "grows p x \<longleftrightarrow> (\<exists>q. x = Some q \<and> grew p q)"

lemma grows_if: "(b \<Longrightarrow> grows p x) \<Longrightarrow> (\<not> b \<Longrightarrow> grows p y) \<Longrightarrow> grows p (if b then x else y)"
  by simp

lemma exp_step:
  assumes "ample mem" "ere_ok mem k"
  shows "exp_ok mem (Suc k)"
  unfolding exp_ok_def
proof (intro allI impI)
  fix p assume p: "good p \<and> MORE p \<and> 4 * length (p_next p) \<le> Suc k"
  let ?c = "PEEK p" and ?p = "NEXTn 1 p"
  have n: "parsed p ?p" "length (p_next ?p) < length (p_next p)"
    using parsed_NEXTn p by (simp_all add: NEXTn_def MORE_def)
  note g = parsed_good [OF n(1)]
  have req: "good (REQUIRE b e ?p)" "grew ?p (REQUIRE b e ?p)" if "e \<noteq> 0" for b e
    using parsed_REQUIRE [OF g that] parsed_good grew_parsed by blast+
  have err: "grows ?p (Some (seterr e ?p))" if "e \<noteq> 0" for e
    using grew_parsed [OF parsed_seterr [OF g that]] by (simp add: grows_def)
  have leaf: "grows ?p (doemit mem op 0 ?p)" if "op \<in> {OBOL, OEOL, OANY}" for op
    using leaf_grew [OF assms(1) g, of op 0] that by (auto simp: leaf_ok_def grows_def)
  have ord: "grows ?p (ordinary mem c r)" if "grew ?p r" for c r
    using ordinary_ok [OF assms(1) grew_good [OF that], of c] grew_trans [OF that] by (auto simp: grows_def)
  have paren: "grows ?p (do {
         let p = REQUIRE (MORE ?p) REG_EPAREN ?p;
         (subno, p) \<leftarrow> open_paren mem p;
         p \<leftarrow> (if SEE k_rparen p then Some p else p_ere k mem (Some k_rparen) p);
         p \<leftarrow> close_paren mem subno p;
         Some (MUSTEAT k_rparen REG_EPAREN p) })"
  proof -
    let ?a = "REQUIRE (MORE ?p) REG_EPAREN ?p"
    have a: "good ?a" "grew ?p ?a" using req by simp_all
    obtain b where b: "open_paren mem ?a = Some (p_nsub ?a + 1, b)" "beside ?a (p_strip ?a @ [(OLPAREN, p_nsub ?a + 1)]) b"
      using open_paren_ok [OF assms(1) a(1)] by blast
    have gb: "good b" "4 * length (p_next b) + 3 \<le> k"
      using b(2) p n(2) grew_length [OF a(2)] by (simp_all add: beside_def)
    obtain c where c: "(if SEE k_rparen b then Some b else p_ere k mem (Some k_rparen) b) = Some c" "grew b c"
      using assms(2) gb grew_refl [OF gb(1)] unfolding ere_ok_def by (cases "SEE k_rparen b") auto
    obtain d where d: "close_paren mem (p_nsub ?a + 1) c = Some d" "beside c (p_strip c @ [(ORPAREN, p_nsub ?a + 1)]) d"
      using close_paren_ok [OF assms(1) grew_good [OF c(2)]] by blast
    have gd: "grew ?a d" using paren_grew [OF b(2) c(2) d(2)] .
    have "grew ?p (MUSTEAT k_rparen REG_EPAREN d)"
      using grew_trans [OF grew_trans [OF a(2) gd] grew_parsed [OF parsed_MUSTEAT [OF grew_good [OF gd]]]] by simp
    then show ?thesis using b(1) c(1) d(1) by (simp add: Let_def grows_def)
  qed
  have bsl: "grew ?p (NEXTn 1 (REQUIRE (MORE ?p) REG_EESCAPE ?p))"
    using grew_trans [OF req(2) grew_parsed [OF parsed_NEXTn [OF req(1)]]] by simp
  have bol: "grows ?p (map_option use_bol (doemit mem OBOL 0 ?p))" using leaf [of OBOL] use_bol_grew by (auto simp: grows_def)
  have eol: "grows ?p (map_option use_eol (doemit mem OEOL 0 ?p))" using leaf [of OEOL] use_eol_grew by (auto simp: grows_def)
  have rest: "grows ?p (nonnewline mem ?p)" "grows ?p (p_bracket mem ?p)"
    using nonnewline_ok [OF assms(1) g] p_bracket_ok [OF assms(1) g] by (auto simp: grows_def)
  have "grows ?p (ere_atom k mem p)"
    unfolding ere_atom_def Let_def [of "PEEK p"] Let_def [of ?p] Let_def [of "REQUIRE (MORE ?p) REG_EESCAPE ?p"]
    by (intro grows_if paren err bol eol leaf rest ord bsl req(2) grew_refl [OF g]) simp_all
  then obtain q where q: "ere_atom k mem p = Some q" "grew ?p q" unfolding grows_def by blast
  obtain r where r: "ere_repetition mem (HERE ?p) (?c = k_caret) q = Some r" "grew ?p r"
    using ere_repetition_ok [OF assms(1) q(2) refl] by blast
  show "\<exists>q. p_ere_exp (Suc k) mem p = Some q \<and> grew p q \<and> length (p_next q) < length (p_next p)"
    using q(1) r p_ere_exp_atom [of k mem p] grew_trans [OF grew_parsed [OF n(1)] r(2)] grew_length [OF r(2)] n(2) by auto
qed

lemma ere_all: "ample mem \<Longrightarrow> exp_ok mem k \<and> concat_ok mem k \<and> alts_ok mem k \<and> ere_ok mem k"
proof (induction k)
  case 0
  have "exp_ok mem 0" by (simp add: exp_ok_def MORE_def)
  then show ?case by (simp add: concat_ok_def alts_ok_def ere_ok_def)
next
  case (Suc k)
  then show ?case using exp_step concat_step alts_step ere_step by blast
qed

lemma p_ere_ok:
  assumes "ample mem" "good p" "4 * length (p_next p) + 3 \<le> k"
  shows "\<exists>q. p_ere k mem stop p = Some q \<and> grew p q"
  using ere_all [OF assms(1), of k] assms(2,3) unfolding ere_ok_def by blast

section \<open>Strings\<close>

lemma p_str_loop_ok: "ample mem \<Longrightarrow> good p \<Longrightarrow> \<exists>q. p_str_loop mem cs p = Some q \<and> grew p q"
proof (induction cs arbitrary: p)
  case Nil
  then show ?case by (simp add: grew_refl)
next
  case (Cons c cs)
  have n: "parsed p (NEXTn 1 p)" using parsed_NEXTn [OF Cons(3)] .
  obtain q where q: "ordinary mem c (NEXTn 1 p) = Some q" "grew (NEXTn 1 p) q" using ordinary_ok [OF Cons(2) parsed_good [OF n]] by blast
  have g: "grew p q" using grew_trans [OF grew_parsed [OF n] q(2)] .
  obtain r where "p_str_loop mem cs q = Some r" "grew q r" using Cons(1) [OF Cons(2) grew_good [OF g]] by blast
  then show ?case using q(1) grew_trans [OF g] grew_refl [OF Cons(3)] by simp
qed

lemma p_str_ok:
  assumes "ample mem" "good p"
  shows "\<exists>q. p_str mem p = Some q \<and> grew p q"
proof -
  have r: "parsed p (REQUIRE (MORE p) REG_EMPTY p)" using parsed_REQUIRE [OF assms(2)] by simp
  show ?thesis using p_str_loop_ok [OF assms(1) parsed_good [OF r]] grew_trans [OF grew_parsed [OF r]]
    unfolding p_str_def Let_def by blast
qed

section \<open>The parser as \<open>regcomp\<close> calls it\<close>

lemma parse_start_good: "0 \<notin> set pattern \<Longrightarrow> good (parse_start pattern past cf)"
  by (simp add: parse_start_def good_def HERE_def)

lemma regcomp_parse_ok:
  assumes "ample mem" "0 \<notin> set pattern" "flag_on cf REG_EXTENDED \<or> flag_on cf REG_NOSPEC"
  shows "\<exists>p. regcomp_parse mem pattern past cf = Some p \<and> good p \<and> \<not> flag_on (p_iflags p) BAD \<and> \<not> p_backrefs p \<and> p_cflags p = cf
    \<and> (p_error p = 0 \<longrightarrow> (\<exists>ts. p_strip p = (OEND, 0) # lays ts @ [(OEND, 0)] \<and> list_all (tree_ok (p_ncsets p)) ts))"
proof -
  let ?s = "parse_start pattern past cf"
  have start: "p_error ?s = 0" "p_strip ?s = []" "\<not> flag_on (p_iflags ?s) BAD" "\<not> p_backrefs ?s" "p_cflags ?s = cf" "p_next ?s = pattern"
    by (simp_all add: parse_start_def flag_on_def)
  obtain p where p: "doemit mem OEND 0 ?s = Some p" "emitted ?s [(OEND, 0)] p"
    using doemit_ok [OF assms(1) parse_start_good [OF assms(2)] start(1)] start(2) by auto
  note f = emitted_fields [OF p(2)]
  have g: "good p" using emitted_good [OF p(2)] .
  obtain q where q: "(if flag_on cf REG_EXTENDED then p_ere (parse_fuel pattern) mem None p
      else if flag_on cf REG_NOSPEC then p_str mem p else p_bre (parse_fuel pattern) mem None p) = Some q" "grew p q"
  proof (cases "flag_on cf REG_EXTENDED")
    case True
    have "4 * length (p_next p) + 3 \<le> parse_fuel pattern" using f(3) start(6) by (simp add: parse_fuel_def)
    then show ?thesis using p_ere_ok [OF assms(1) g, of "parse_fuel pattern" None] True that by auto
  next
    case False
    then show ?thesis using p_str_ok [OF assms(1) g] assms(3) that by auto
  qed
  obtain r where r: "doemit mem OEND 0 q = Some r" "beside q (p_strip q @ [(OEND, 0)]) r"
    using beside_emit [OF assms(1) grew_good [OF q(2)]] by blast
  have "\<exists>ts. p_strip r = (OEND, 0) # lays ts @ [(OEND, 0)] \<and> list_all (tree_ok (p_ncsets r)) ts" if "p_error r = 0"
    using that r(2) q(2) f(1) by (auto simp: beside_def grew_def)
  moreover have "regcomp_parse mem pattern past cf = Some r" unfolding regcomp_parse_def by (simp only: p(1) q(1) r(1) bind.bind_lunit)
  ultimately show ?thesis using r(2) q(2) f start by (simp add: beside_def grew_def)
qed

end
