(* ===== verification/Posix_Match.thy ===== *)
theory Posix_Match
  imports Posix_Steps
begin

text \<open>
  What \<open>slow\<close>, \<open>fast\<close> and the search of \<open>matcher\<close> find: the longest match from a position, whether there is
  a match, and the leftmost longest one.
\<close>

section \<open>What a strip matches\<close>

text \<open>The characters around a position, as the engine sees them, and the flag between them.\<close>

definition left_char :: "matchst \<Rightarrow> nat \<Rightarrow> int" where
  "left_char m p = (if p = m_beginp m then OUT else char_of_byte (m_buf m ! (p - 1)))"

definition right_char :: "matchst \<Rightarrow> nat \<Rightarrow> int" where
  "right_char m p = (if p = m_endp m then OUT else char_of_byte (m_buf m ! p))"

definition flag_at :: "matchst \<Rightarrow> nat \<Rightarrow> int" where
  "flag_at m p = fst (line_flag m (left_char m p) (right_char m p))"

text \<open>The states of the automaton between \<open>a\<close> and \<open>b\<close> after the \<open>k\<close> characters from position \<open>s\<close> on.\<close>

primrec reach :: "matchst \<Rightarrow> nat \<Rightarrow> nat \<Rightarrow> nat \<Rightarrow> nat \<Rightarrow> nat set" where
  "reach m a b s 0 = clo (EF (m_g m) a b (flag_at m s)) {a}"
| "reach m a b s (Suc k) = clo (EF (m_g m) a b (flag_at m (s + Suc k)))
     (reads (m_g m) a b (right_char m (s + k)) (reach m a b s k))"

definition accepts :: "matchst \<Rightarrow> nat \<Rightarrow> nat \<Rightarrow> nat \<Rightarrow> nat \<Rightarrow> bool" where
  "accepts m a b s e \<longleftrightarrow> s \<le> e \<and> b \<in> reach m a b s (e - s)"

text \<open>\<open>r\<close> is the end of the longest match from \<open>s\<close> that ends at \<open>stop\<close> or before.\<close>

definition longest_from :: "matchst \<Rightarrow> nat \<Rightarrow> nat \<Rightarrow> nat \<Rightarrow> nat \<Rightarrow> nat option \<Rightarrow> bool" where
  "longest_from m a b s stop r \<longleftrightarrow> (case r of
       None \<Rightarrow> \<forall>e \<le> stop. \<not> accepts m a b s e
     | Some e \<Rightarrow> e \<le> stop \<and> accepts m a b s e \<and> (\<forall>e' \<le> stop. accepts m a b s e' \<longrightarrow> e' \<le> e))"

lemma longest_unique: "longest_from m a b s stop r \<Longrightarrow> longest_from m a b s stop r' \<Longrightarrow> r = r'"
  by (cases r; cases r') (auto simp: longest_from_def intro: antisym)

definition subject_ok :: "matchst \<Rightarrow> bool" where
  "subject_ok m \<longleftrightarrow> m_beginp m \<le> m_endp m \<and> m_endp m \<le> length (m_buf m)"

lemma chars_at:
  assumes "subject_ok m" "m_beginp m \<le> p" "p \<le> m_endp m"
  shows "char_before m p = Some (left_char m p)" "char_here m p = Some (right_char m p)"
  using assms by (auto simp: subject_ok_def char_before_def char_here_def left_char_def right_char_def byte_of_def byte_at_def)

lemma next_left: "m_beginp m \<le> p \<Longrightarrow> p < m_endp m \<Longrightarrow> left_char m (p + 1) = right_char m p"
  by (simp add: left_char_def right_char_def)

text \<open>The states before the anchors.\<close>

definition entry :: "matchst \<Rightarrow> nat \<Rightarrow> nat \<Rightarrow> nat \<Rightarrow> nat \<Rightarrow> nat set" where
  "entry m a b s k = (case k of 0 \<Rightarrow> clo (EJ (m_g m) a b) {a}
     | Suc k \<Rightarrow> clo (EJ (m_g m) a b) (reads (m_g m) a b (right_char m (s + k)) (reach m a b s k)))"

lemma entry_reach: "clo (EF (m_g m) a b (flag_at m (s + k))) (entry m a b s k) = reach m a b s k"
  by (cases k) (simp_all add: entry_def clo_clo [OF EJ_EF])

lemma entry_shut: "shut (EJ (m_g m) a b) (entry m a b s k)"
  by (cases k) (simp_all add: entry_def clo_shut)

lemma reach_dead: "reach m a b s k = {} \<Longrightarrow> reach m a b s (k + j) = {}"
  by (induction j) simp_all

context state_rep
begin

lemma between_entry:
  assumes "strip_ok (m_g m) a b" "nstates (m_g m) = N" "few_anchors (m_g m) a b"
    and "inv st" "members st = entry m a b s k"
  shows "\<exists>v. between R m a b (left_char m (s + k)) (right_char m (s + k)) st = Some v \<and> inv v \<and> members v = reach m a b s k"
  using between_effect [OF assms(1-4), of "left_char m (s + k)" "right_char m (s + k)"] entry_shut [of m a b s k] assms(5)
  by (simp add: entry_reach [unfolded flag_at_def])


lemma start_states:
  assumes "strip_ok (m_g m) a b" "nstates (m_g m) = N"
  shows "\<exists>v w. SET1 R (CLEAR R (nstates (m_g m))) a = Some v \<and> step_same R (m_g m) a b NOTHING v = Some w
    \<and> inv w \<and> members w = clo (EJ (m_g m) a b) {a}"
proof -
  have a: "a < N" using assms by (auto simp: strip_ok_def)
  obtain v where v: "SET1 R (CLEAR R N) a = Some v" "inv v" "members v = {a}"
    using set1 [OF clear(1) a] clear(2) by auto
  obtain w where "step_same R (m_g m) a b NOTHING v = Some w" "inv w" "members w = clo (EJ (m_g m) a b) (members v)"
    using step_nothing [OF assms v(2)] by blast
  then show ?thesis using v assms(2) by auto
qed

text \<open>One turn of the loops of \<open>slow\<close> and \<open>fast\<close>.\<close>

lemma turn:
  assumes "strip_ok (m_g m) a b" "nstates (m_g m) = N" "few_anchors (m_g m) a b" "subject_ok m"
    and "m_beginp m \<le> s" "s + k \<le> m_endp m" "inv st" "members st = entry m a b s k"
  obtains v where "char_here m (s + k) = Some (right_char m (s + k))"
    "between R m a b (left_char m (s + k)) (right_char m (s + k)) st = Some v" "inv v" "members v = reach m a b s k"
    "ISSET R v b = Some (accepts m a b s (s + k))"
proof -
  obtain v where v: "between R m a b (left_char m (s + k)) (right_char m (s + k)) st = Some v" "inv v" "members v = reach m a b s k"
    using between_entry [OF assms(1-3,7,8)] by blast
  have b: "b < N" using assms(1,2) by (auto simp: strip_ok_def)
  have "ISSET R v b = Some (accepts m a b s (s + k))" using isset [OF v(2) b] v(3) by (simp add: accepts_def)
  then show ?thesis using that v chars_at(2) [OF assms(4), of "s + k"] assms(5,6) by simp
qed

lemma slow_turn_last:
  assumes "strip_ok (m_g m) a b" "nstates (m_g m) = N" "few_anchors (m_g m) a b" "subject_ok m"
    and "m_beginp m \<le> s" "s + k \<le> m_endp m" "inv st" "members st = entry m a b s k"
    and "reach m a b s k = {} \<or> s + k = stop"
  shows "slow_loop R m stop a b st (s + k) (left_char m (s + k)) mp
    = Some (if accepts m a b s (s + k) then Some (s + k) else mp)"
proof -
  obtain v where v: "char_here m (s + k) = Some (right_char m (s + k))"
    "between R m a b (left_char m (s + k)) (right_char m (s + k)) st = Some v" "inv v" "members v = reach m a b s k"
    "ISSET R v b = Some (accepts m a b s (s + k))"
    using turn [OF assms(1-8)] by blast
  have "EQ R v (CLEAR R (nstates (m_g m))) \<or> s + k = stop" using assms(2,9) eq [OF v(3) clear(1)] clear(2) v(4) by simp
  then show ?thesis by (subst slow_loop.simps) (simp add: v)
qed

lemma slow_turn_next:
  assumes "strip_ok (m_g m) a b" "nstates (m_g m) = N" "few_anchors (m_g m) a b" "subject_ok m"
    and "m_beginp m \<le> s" "s + k < m_endp m" "inv st" "members st = entry m a b s k"
    and "reach m a b s k \<noteq> {}" "s + k \<noteq> stop"
  obtains w where "slow_loop R m stop a b st (s + k) (left_char m (s + k)) mp
      = slow_loop R m stop a b w (s + Suc k) (left_char m (s + Suc k)) (if accepts m a b s (s + k) then Some (s + k) else mp)"
    "inv w" "members w = entry m a b s (Suc k)"
proof -
  obtain v where v: "char_here m (s + k) = Some (right_char m (s + k))"
    "between R m a b (left_char m (s + k)) (right_char m (s + k)) st = Some v" "inv v" "members v = reach m a b s k"
    "ISSET R v b = Some (accepts m a b s (s + k))"
    using turn [OF assms(1-5) less_imp_le [OF assms(6)] assms(7,8)] by blast
  have ne: "\<not> (EQ R v (CLEAR R (nstates (m_g m))) \<or> s + k = stop)" using assms(2,9,10) eq [OF v(3) clear(1)] clear(2) v(4) by simp
  obtain w where w: "step R (m_g m) a b (Some v) (right_char m (s + k)) (CLEAR R N) = Some w" "inv w"
    "members w = clo (EJ (m_g m) a b) (reads (m_g m) a b (right_char m (s + k)) (members v))"
    using step_char [OF assms(1,2) clear(1) v(3), of "right_char m (s + k)"] clear(2) by auto
  have l: "left_char m (s + k + 1) = right_char m (s + k)" using next_left [of m "s + k"] assms(5,6) by simp
  have "slow_loop R m stop a b st (s + k) (left_char m (s + k)) mp
      = slow_loop R m stop a b w (s + k + 1) (left_char m (s + k + 1)) (if accepts m a b s (s + k) then Some (s + k) else mp)"
    using ne w(1) assms(2) by (subst slow_loop.simps) (simp add: v l [simplified])
  moreover have "members w = entry m a b s (Suc k)" using w(3) v(4) by (simp add: entry_def)
  ultimately show ?thesis using that w(2) by simp
qed

end

text \<open>The longest match seen before position \<open>p\<close>.\<close>

definition best_below :: "matchst \<Rightarrow> nat \<Rightarrow> nat \<Rightarrow> nat \<Rightarrow> nat \<Rightarrow> nat option \<Rightarrow> bool" where
  "best_below m a b s p r \<longleftrightarrow> (case r of
       None \<Rightarrow> \<forall>e < p. \<not> accepts m a b s e
     | Some e \<Rightarrow> e < p \<and> accepts m a b s e \<and> (\<forall>e' < p. accepts m a b s e' \<longrightarrow> e' \<le> e))"

lemma best_below_next:
  "best_below m a b s p r \<Longrightarrow> best_below m a b s (Suc p) (if accepts m a b s p then Some p else r)"
  by (auto simp: best_below_def less_Suc_eq split: option.splits)

lemma best_below_stop: "best_below m a b s (Suc stop) r \<longleftrightarrow> longest_from m a b s stop r"
  by (simp add: best_below_def longest_from_def less_Suc_eq_le split: option.split)

lemma best_below_dead:
  assumes "best_below m a b s (s + k) r" "reach m a b s k = {}" "s + k \<le> stop"
  shows "longest_from m a b s stop r"
proof -
  have no: "\<not> accepts m a b s e" if "s + k \<le> e" for e
    using reach_dead [OF assms(2), of "e - (s + k)"] that by (simp add: accepts_def)
  then have "e < s + k" if "accepts m a b s e" for e using that not_le by blast
  then show ?thesis using assms(1,3) by (auto simp: best_below_def longest_from_def split: option.splits)
qed

context state_rep
begin

lemma slow_loop_longest:
  assumes "strip_ok (m_g m) a b" "nstates (m_g m) = N" "few_anchors (m_g m) a b" "subject_ok m"
    and "m_beginp m \<le> s" "stop \<le> m_endp m"
  shows "s + k \<le> stop \<Longrightarrow> inv st \<Longrightarrow> members st = entry m a b s k \<Longrightarrow> best_below m a b s (s + k) mp
    \<Longrightarrow> \<exists>r. slow_loop R m stop a b st (s + k) (left_char m (s + k)) mp = Some r \<and> longest_from m a b s stop r"
proof (induction "stop - (s + k)" arbitrary: k st mp)
  case 0
  then have p: "s + k = stop" by simp
  have "s + k \<le> m_endp m" using p assms(6) by simp
  from slow_turn_last [OF assms(1-5) this 0(3,4), of stop] best_below_next [OF 0(5)]
  show ?case using p by (simp add: best_below_stop)
next
  case (Suc n)
  then have p: "s + k < stop" by simp
  note nxt = best_below_next [OF Suc(6)]
  show ?case
  proof (cases "reach m a b s k = {}")
    case True
    then have "\<not> accepts m a b s (s + k)" by (simp add: accepts_def)
    moreover have "s + k \<le> m_endp m" using p assms(6) by simp
    ultimately show ?thesis
      using slow_turn_last [OF assms(1-5) _ Suc(4,5), of stop] True best_below_dead [OF Suc(6) True] p by simp
  next
    case False
    have q: "s + k < m_endp m" "s + k \<noteq> stop" using p assms(6) by simp_all
    obtain w where w: "slow_loop R m stop a b st (s + k) (left_char m (s + k)) mp
        = slow_loop R m stop a b w (s + Suc k) (left_char m (s + Suc k)) (if accepts m a b s (s + k) then Some (s + k) else mp)"
      "inv w" "members w = entry m a b s (Suc k)"
      using slow_turn_next [OF assms(1-5) q(1) Suc(4,5) False q(2)] by metis
    have "n = stop - (s + Suc k)" "s + Suc k \<le> stop" using Suc.hyps(2) p by simp_all
    from Suc(1) [OF this w(2,3)] nxt show ?thesis unfolding w(1) by simp
  qed
qed

lemma slow_longest:
  assumes "strip_ok (m_g m) a b" "nstates (m_g m) = N" "few_anchors (m_g m) a b" "subject_ok m"
    and "m_beginp m \<le> s" "s \<le> stop" "stop \<le> m_endp m"
  shows "\<exists>r. slow R m s stop a b = Some r \<and> longest_from m a b s stop r"
proof -
  obtain v w where v: "SET1 R (CLEAR R (nstates (m_g m))) a = Some v" "step_same R (m_g m) a b NOTHING v = Some w"
    "inv w" "members w = clo (EJ (m_g m) a b) {a}"
    using start_states [OF assms(1,2)] by blast
  have "char_before m s = Some (left_char m s)" using chars_at(1) [OF assms(4,5)] assms(6,7) by simp
  then have e: "slow R m s stop a b = slow_loop R m stop a b w s (left_char m s) None" using v by (simp add: slow_def)
  have w: "members w = entry m a b s 0" using v(4) by (simp add: entry_def)
  have best: "best_below m a b s (s + 0) None" by (auto simp: best_below_def accepts_def)
  have "s + 0 \<le> stop" using assms(6) by simp
  from slow_loop_longest [OF assms(1-5,7) this v(3) w best] show ?thesis by (simp add: e)
qed

end

section \<open>Starting everywhere at once\<close>

text \<open>The states that \<open>fast\<close> has after \<open>j\<close> characters: those of the attempts from all positions up to there.\<close>

definition all_entry :: "matchst \<Rightarrow> nat \<Rightarrow> nat \<Rightarrow> nat \<Rightarrow> nat \<Rightarrow> nat set" where
  "all_entry m a b s j = (\<Union>i \<in> {..j}. entry m a b (s + i) (j - i))"

definition all_reach :: "matchst \<Rightarrow> nat \<Rightarrow> nat \<Rightarrow> nat \<Rightarrow> nat \<Rightarrow> nat set" where
  "all_reach m a b s j = (\<Union>i \<in> {..j}. reach m a b (s + i) (j - i))"

lemma clo_Union: "clo E (\<Union>i \<in> I. X i) = (\<Union>i \<in> I. clo E (X i))"
  by (auto simp: clo_def)

lemma reads_Union: "reads g a b ch (\<Union>i \<in> I. X i) = (\<Union>i \<in> I. reads g a b ch (X i))"
  by (auto simp: reads_def)

lemma all_entry_reach: "clo (EF (m_g m) a b (flag_at m (s + j))) (all_entry m a b s j) = all_reach m a b s j"
proof -
  have "clo (EF (m_g m) a b (flag_at m (s + j))) (entry m a b (s + i) (j - i)) = reach m a b (s + i) (j - i)" if "i \<le> j" for i
    using entry_reach [of m a b "s + i" "j - i"] that by (simp add: add.assoc)
  then show ?thesis by (simp add: all_entry_def all_reach_def clo_Union)
qed

lemma all_entry_0: "all_entry m a b s 0 = clo (EJ (m_g m) a b) {a}"
  by (simp add: all_entry_def entry_def)

lemma all_entry_Suc: "all_entry m a b s (Suc j)
  = clo (EJ (m_g m) a b) (clo (EJ (m_g m) a b) {a} \<union> reads (m_g m) a b (right_char m (s + j)) (all_reach m a b s j))"
proof -
  let ?E = "EJ (m_g m) a b"
  have "entry m a b (s + i) (Suc j - i) = clo ?E (reads (m_g m) a b (right_char m (s + j)) (reach m a b (s + i) (j - i)))" if "i \<le> j" for i
    using that by (simp add: entry_def Suc_diff_le)
  then have "(\<Union>i \<in> {..j}. entry m a b (s + i) (Suc j - i))
      = clo ?E (reads (m_g m) a b (right_char m (s + j)) (all_reach m a b s j))"
    by (simp add: all_reach_def reads_Union clo_Union)
  moreover have "{..Suc j} = insert (Suc j) {..j}" by auto
  ultimately have "all_entry m a b s (Suc j)
      = clo ?E {a} \<union> clo ?E (reads (m_g m) a b (right_char m (s + j)) (all_reach m a b s j))"
    by (simp add: all_entry_def) (simp add: entry_def)
  then show ?thesis by (simp add: clo_un clo_clo)
qed

lemma shut_Union: "(\<And>i. i \<in> I \<Longrightarrow> shut E (X i)) \<Longrightarrow> shut E (\<Union>i \<in> I. X i)"
  unfolding shut_def by blast

lemma all_entry_shut: "shut (EJ (m_g m) a b) (all_entry m a b s j)"
  unfolding all_entry_def by (rule shut_Union) (rule entry_shut)

text \<open>A match between \<open>s\<close> and \<open>p\<close> that ends at \<open>p\<close>.\<close>

definition ends_at :: "matchst \<Rightarrow> nat \<Rightarrow> nat \<Rightarrow> nat \<Rightarrow> nat \<Rightarrow> bool" where
  "ends_at m a b s p \<longleftrightarrow> (\<exists>q \<in> {s..p}. accepts m a b q p)"

lemma ends_at_reach: "ends_at m a b s (s + j) \<longleftrightarrow> b \<in> all_reach m a b s j"
proof -
  have "ends_at m a b s (s + j) \<longleftrightarrow> (\<exists>i \<le> j. b \<in> reach m a b (s + i) (j - i))"
    unfolding ends_at_def accepts_def
  proof
    assume "\<exists>q\<in>{s..s + j}. q \<le> s + j \<and> b \<in> reach m a b q (s + j - q)"
    then obtain q where q: "s \<le> q" "q \<le> s + j" "b \<in> reach m a b q (s + j - q)" by auto
    then have "q - s \<le> j" "s + (q - s) = q" "j - (q - s) = s + j - q" by simp_all
    then have "q - s \<le> j" "b \<in> reach m a b (s + (q - s)) (j - (q - s))" using q(3) by simp_all
    then show "\<exists>i\<le>j. b \<in> reach m a b (s + i) (j - i)" by blast
  next
    assume "\<exists>i\<le>j. b \<in> reach m a b (s + i) (j - i)"
    then obtain i where "i \<le> j" "b \<in> reach m a b (s + i) (j - i)" by blast
    then have "s + i \<in> {s..s + j}" "s + i \<le> s + j" "b \<in> reach m a b (s + i) (s + j - (s + i))" by simp_all
    then show "\<exists>q\<in>{s..s + j}. q \<le> s + j \<and> b \<in> reach m a b q (s + j - q)" by blast
  qed
  then show ?thesis by (auto simp: all_reach_def)
qed

text \<open>If at \<open>q\<close> only the fresh states are left, it is as if the search had begun there.\<close>

lemma all_entry_restart:
  assumes "all_entry m a b s j = clo (EJ (m_g m) a b) {a}"
  shows "all_entry m a b s (j + i) = all_entry m a b (s + j) i"
proof (induction i)
  case 0
  then show ?case using assms by (simp add: all_entry_0)
next
  case (Suc i)
  then have "all_reach m a b s (j + i) = all_reach m a b (s + j) i"
    using all_entry_reach [of m a b s "j + i"] all_entry_reach [of m a b "s + j" i] by (simp add: add.assoc)
  then show ?case using all_entry_Suc [of m a b s "j + i"] all_entry_Suc [of m a b "s + j" i] by (simp add: add.assoc)
qed

lemma ends_at_restart:
  assumes "all_entry m a b s j = clo (EJ (m_g m) a b) {a}"
  shows "ends_at m a b s (s + j + i) \<longleftrightarrow> ends_at m a b (s + j) (s + j + i)"
proof -
  have "all_reach m a b s (j + i) = all_reach m a b (s + j) i"
    using all_entry_reach [of m a b s "j + i"] all_entry_reach [of m a b "s + j" i] all_entry_restart [OF assms]
    by (simp add: add.assoc)
  then show ?thesis using ends_at_reach [of m a b s "j + i"] ends_at_reach [of m a b "s + j" i] by (simp add: add.assoc)
qed

context state_rep
begin

lemma fast_turn:
  assumes "strip_ok (m_g m) a b" "nstates (m_g m) = N" "few_anchors (m_g m) a b" "subject_ok m"
    and "m_beginp m \<le> s" "s + j \<le> m_endp m" "inv st" "members st = all_entry m a b s j"
  obtains v where "char_here m (s + j) = Some (right_char m (s + j))"
    "between R m a b (left_char m (s + j)) (right_char m (s + j)) st = Some v" "inv v" "members v = all_reach m a b s j"
    "ISSET R v b = Some (ends_at m a b s (s + j))"
proof -
  have shut: "shut (EJ (m_g m) a b) (members st)" using all_entry_shut assms(8) by simp
  obtain v where v: "between R m a b (left_char m (s + j)) (right_char m (s + j)) st = Some v" "inv v"
    "members v = all_reach m a b s j"
    using between_effect [OF assms(1-3,7) shut, of "left_char m (s + j)" "right_char m (s + j)"] assms(8)
    by (auto simp: all_entry_reach [unfolded flag_at_def])
  have b: "b < N" using assms(1,2) by (auto simp: strip_ok_def)
  have "ISSET R v b = Some (ends_at m a b s (s + j))" using isset [OF v(2) b] v(3) by (simp add: ends_at_reach)
  then show ?thesis using that v chars_at(2) [OF assms(4), of "s + j"] assms(5,6) by simp
qed

lemma fast_turn_last:
  assumes "strip_ok (m_g m) a b" "nstates (m_g m) = N" "few_anchors (m_g m) a b" "subject_ok m"
    and "m_beginp m \<le> s" "s + j \<le> m_endp m" "inv st" "members st = all_entry m a b s j"
    and "inv fresh" "members fresh = clo (EJ (m_g m) a b) {a}" "ends_at m a b s (s + j) \<or> s + j = stop"
  shows "fast_loop R m stop a b fresh st (s + j) (left_char m (s + j)) cp
    = Some (if ends_at m a b s (s + j) then Some (s + j + 1) else None,
        if all_entry m a b s j = clo (EJ (m_g m) a b) {a} then Some (s + j) else cp)"
proof -
  obtain v where v: "char_here m (s + j) = Some (right_char m (s + j))"
    "between R m a b (left_char m (s + j)) (right_char m (s + j)) st = Some v" "inv v" "members v = all_reach m a b s j"
    "ISSET R v b = Some (ends_at m a b s (s + j))"
    using fast_turn [OF assms(1-8)] by blast
  show ?thesis using assms(11) by (subst fast_loop.simps) (simp add: v eq [OF assms(7,9)] assms(8,10))
qed

lemma fast_turn_next:
  assumes "strip_ok (m_g m) a b" "nstates (m_g m) = N" "few_anchors (m_g m) a b" "subject_ok m"
    and "m_beginp m \<le> s" "s + j < m_endp m" "inv st" "members st = all_entry m a b s j"
    and "inv fresh" "members fresh = clo (EJ (m_g m) a b) {a}" "\<not> ends_at m a b s (s + j)" "s + j \<noteq> stop"
  obtains w where "fast_loop R m stop a b fresh st (s + j) (left_char m (s + j)) cp
    = fast_loop R m stop a b fresh w (s + Suc j) (left_char m (s + Suc j))
        (if all_entry m a b s j = clo (EJ (m_g m) a b) {a} then Some (s + j) else cp)"
    "inv w" "members w = all_entry m a b s (Suc j)"
proof -
  obtain v where v: "char_here m (s + j) = Some (right_char m (s + j))"
    "between R m a b (left_char m (s + j)) (right_char m (s + j)) st = Some v" "inv v" "members v = all_reach m a b s j"
    "ISSET R v b = Some (ends_at m a b s (s + j))"
    using fast_turn [OF assms(1-5) less_imp_le [OF assms(6)] assms(7,8)] by blast
  obtain w where w: "step R (m_g m) a b (Some v) (right_char m (s + j)) fresh = Some w" "inv w"
    "members w = clo (EJ (m_g m) a b) (members fresh \<union> reads (m_g m) a b (right_char m (s + j)) (members v))"
    using step_char [OF assms(1,2,9) v(3), of "right_char m (s + j)"] by auto
  have l: "left_char m (s + j + 1) = right_char m (s + j)" using next_left [of m "s + j"] assms(5,6) by simp
  have "fast_loop R m stop a b fresh st (s + j) (left_char m (s + j)) cp
    = fast_loop R m stop a b fresh w (s + j + 1) (left_char m (s + j + 1))
        (if all_entry m a b s j = clo (EJ (m_g m) a b) {a} then Some (s + j) else cp)"
    using w(1) assms(11,12)
    by (subst fast_loop.simps) (simp add: v eq [OF assms(7,9)] assms(8,10) l [simplified])
  moreover have "members w = all_entry m a b s (Suc j)" using w(3) v(4) assms(10) by (simp add: all_entry_Suc)
  ultimately show ?thesis using that w(2) by simp
qed

end

text \<open>What \<open>coldp\<close> is before position \<open>s + j\<close> is looked at: the last place with only the fresh states.\<close>

definition cold_below :: "matchst \<Rightarrow> nat \<Rightarrow> nat \<Rightarrow> nat \<Rightarrow> nat \<Rightarrow> nat option \<Rightarrow> bool" where
  "cold_below m a b s j cp \<longleftrightarrow> (j = 0 \<and> cp = None) \<or> (\<exists>i < j. cp = Some (s + i) \<and> all_entry m a b s i = clo (EJ (m_g m) a b) {a})"

definition fast_result :: "matchst \<Rightarrow> nat \<Rightarrow> nat \<Rightarrow> nat \<Rightarrow> nat \<Rightarrow> (nat option \<times> nat option) \<Rightarrow> bool" where
  "fast_result m a b s stop r \<longleftrightarrow> (case r of
      (None, cp) \<Rightarrow> (\<forall>p \<le> stop. \<not> ends_at m a b s p)
    | (Some e, cp) \<Rightarrow> (\<exists>j i. e = s + j + 1 \<and> s + j \<le> stop \<and> ends_at m a b s (s + j) \<and> (\<forall>p < s + j. \<not> ends_at m a b s p)
        \<and> i \<le> j \<and> cp = Some (s + i) \<and> all_entry m a b s i = clo (EJ (m_g m) a b) {a}))"

lemma cold_below_next:
  "cold_below m a b s j cp \<Longrightarrow> cold_below m a b s (Suc j) (if all_entry m a b s j = clo (EJ (m_g m) a b) {a} then Some (s + j) else cp)"
  unfolding cold_below_def using all_entry_0 less_SucI by (cases "j = 0") auto

lemma ends_at_less: "p < s \<Longrightarrow> \<not> ends_at m a b s p"
  by (simp add: ends_at_def)

lemma fast_result_found:
  assumes "cold_below m a b s (Suc j) cp" "s + j \<le> stop" "ends_at m a b s (s + j)" "\<And>p. p < s + j \<Longrightarrow> \<not> ends_at m a b s p"
  shows "fast_result m a b s stop (Some (s + j + 1), cp)"
proof -
  obtain i where i: "i < Suc j" "cp = Some (s + i)" "all_entry m a b s i = clo (EJ (m_g m) a b) {a}"
    using assms(1) by (auto simp: cold_below_def)
  show ?thesis unfolding fast_result_def using i assms(2-4) by (auto intro!: exI [of _ j] exI [of _ i])
qed

context state_rep
begin

lemma fast_loop_result:
  assumes "strip_ok (m_g m) a b" "nstates (m_g m) = N" "few_anchors (m_g m) a b" "subject_ok m"
    and "m_beginp m \<le> s" "stop \<le> m_endp m" "inv fresh" "members fresh = clo (EJ (m_g m) a b) {a}"
  shows "s + j \<le> stop \<Longrightarrow> inv st \<Longrightarrow> members st = all_entry m a b s j \<Longrightarrow> cold_below m a b s j cp
    \<Longrightarrow> (\<And>p. p < s + j \<Longrightarrow> \<not> ends_at m a b s p)
    \<Longrightarrow> \<exists>r. fast_loop R m stop a b fresh st (s + j) (left_char m (s + j)) cp = Some r \<and> fast_result m a b s stop r"
proof (induction "stop - (s + j)" arbitrary: j st cp)
  case 0
  then have p: "s + j = stop" "s + j \<le> m_endp m" using assms(6) by simp_all
  note last = fast_turn_last [OF assms(1-5) p(2) 0(3,4) assms(7,8), of stop cp]
  show ?case
  proof (cases "ends_at m a b s (s + j)")
    case True
    then show ?thesis using last fast_result_found [OF cold_below_next [OF 0(5)] 0(2) True 0(6)] by simp
  next
    case False
    then have "\<not> ends_at m a b s p" if "p \<le> stop" for p using 0(6) [of p] p(1) that by (cases "p = stop") simp_all
    then show ?thesis using last False p(1) by (simp add: fast_result_def)
  qed
next
  case (Suc n)
  then have p: "s + j < stop" "s + j < m_endp m" "s + j \<noteq> stop" using assms(6) by simp_all
  note cold = cold_below_next [OF Suc(6)]
  show ?case
  proof (cases "ends_at m a b s (s + j)")
    case True
    then show ?thesis
      using fast_turn_last [OF assms(1-5) less_imp_le [OF p(2)] Suc(4,5) assms(7,8), of stop cp]
        fast_result_found [OF cold Suc(3) True Suc(7)] by simp
  next
    case False
    obtain w where w: "fast_loop R m stop a b fresh st (s + j) (left_char m (s + j)) cp
      = fast_loop R m stop a b fresh w (s + Suc j) (left_char m (s + Suc j))
          (if all_entry m a b s j = clo (EJ (m_g m) a b) {a} then Some (s + j) else cp)"
      "inv w" "members w = all_entry m a b s (Suc j)"
      using fast_turn_next [OF assms(1-5) p(2) Suc(4,5) assms(7,8) False p(3)] by metis
    have q: "n = stop - (s + Suc j)" "s + Suc j \<le> stop" using Suc.hyps(2) p(1) by simp_all
    have "\<not> ends_at m a b s r" if "r < s + Suc j" for r using that False Suc(7) by (cases "r = s + j") simp_all
    from Suc(1) [OF q w(2,3) cold this] show ?thesis unfolding w(1) by simp
  qed
qed

lemma fast_search:
  assumes "strip_ok (m_g m) a b" "nstates (m_g m) = N" "few_anchors (m_g m) a b" "subject_ok m"
    and "m_beginp m \<le> s" "s \<le> stop" "stop \<le> m_endp m"
  shows "\<exists>r. fast R m s stop a b = Some r \<and> fast_result m a b s stop r"
proof -
  obtain v w where v: "SET1 R (CLEAR R (nstates (m_g m))) a = Some v" "step_same R (m_g m) a b NOTHING v = Some w"
    "inv w" "members w = clo (EJ (m_g m) a b) {a}"
    using start_states [OF assms(1,2)] by blast
  have "char_before m s = Some (left_char m s)" using chars_at(1) [OF assms(4,5)] assms(6,7) by simp
  then have e: "fast R m s stop a b = fast_loop R m stop a b w w s (left_char m s) None" using v by (simp add: fast_def)
  have w: "members w = all_entry m a b s 0" using v(4) by (simp add: all_entry_0)
  have cold: "cold_below m a b s 0 None" by (simp add: cold_below_def)
  have "s + 0 \<le> stop" using assms(6) by simp
  from fast_loop_result [OF assms(1-5,7) v(3,4) this v(3) w cold] ends_at_less show ?thesis by (simp add: e)
qed

end

section \<open>The leftmost longest match\<close>

definition leftmost_longest :: "matchst \<Rightarrow> nat \<Rightarrow> nat \<Rightarrow> nat \<Rightarrow> nat \<Rightarrow> nat \<times> nat \<Rightarrow> bool" where
  "leftmost_longest m a b c stop se \<longleftrightarrow> (case se of (s, e) \<Rightarrow>
     c \<le> s \<and> s \<le> e \<and> longest_from m a b s stop (Some e) \<and> (\<forall>s' e'. c \<le> s' \<and> s' < s \<and> e' \<le> stop \<longrightarrow> \<not> accepts m a b s' e'))"

lemma leftmost_longest_from:
  assumes "longest_from m a b c stop (Some e)"
  shows "leftmost_longest m a b c stop (c, e)"
  using assms by (auto simp: leftmost_longest_def longest_from_def accepts_def)

lemma leftmost_longest_skip:
  assumes "leftmost_longest m a b (c + 1) stop se" "longest_from m a b c stop None"
  shows "leftmost_longest m a b c stop se"
proof -
  obtain s e where se: "se = (s, e)" by fastforce
  have "\<not> accepts m a b s' e'" if "c \<le> s'" "s' < s" "e' \<le> stop" for s' e'
  proof (cases "s' = c")
    case True
    then show ?thesis using assms(2) that by (simp add: longest_from_def)
  next
    case False
    then show ?thesis using assms(1) that se by (simp add: leftmost_longest_def)
  qed
  then show ?thesis using assms(1) se by (simp add: leftmost_longest_def)
qed

text \<open>
  \<open>coldp\<close> moves on when only the fresh states are left. That is sound for a strip in which no state after
  a character is fresh.
\<close>

definition cold_safe :: "re_guts \<Rightarrow> nat \<Rightarrow> nat \<Rightarrow> bool" where
  "cold_safe g a b \<longleftrightarrow> (\<forall>p \<in> set [a ..< b]. OP (strip g ! p) \<in> {OCHAR, OANY, OANYOF} \<longrightarrow> p + 1 \<notin> clo (EJ g a b) {a})"

lemma cold_safeI:
  assumes "a \<in> Y" "\<And>p. p \<in> Y \<Longrightarrow> EJ g a b p \<subseteq> Y"
    and "\<And>p. p \<in> set [a ..< b] \<Longrightarrow> OP (strip g ! p) \<in> {OCHAR, OANY, OANYOF} \<Longrightarrow> p + 1 \<notin> Y"
  shows "cold_safe g a b"
proof -
  have "clo (EJ g a b) {a} \<subseteq> Y" using assms(1,2) by (intro clo_least) auto
  then show ?thesis using assms(3) unfolding cold_safe_def by blast
qed

lemma right_char_char: "q < m_endp m \<Longrightarrow> right_char m q \<le> 127"
  by (simp add: right_char_def char_byte_bounds)

lemma eats_char: "eats g ch p \<Longrightarrow> ch \<le> 127 \<Longrightarrow> OP (strip g ! p) \<in> {OCHAR, OANY, OANYOF}"
  by (auto simp: eats_def Let_def split: oper.splits)

lemma dead_after_cold:
  assumes "cold_safe (m_g m) a b" "entry m a b q (Suc k) \<subseteq> clo (EJ (m_g m) a b) {a}" "q + k < m_endp m"
  shows "reach m a b q (Suc k) = {}"
proof -
  let ?X = "reads (m_g m) a b (right_char m (q + k)) (reach m a b q k)"
  have "?X = {}"
  proof (rule ccontr)
    assume "?X \<noteq> {}"
    then obtain p where p: "a \<le> p" "p < b" "eats (m_g m) (right_char m (q + k)) p" "p + 1 \<in> ?X"
      by (auto simp: reads_def)
    have "p + 1 \<in> entry m a b q (Suc k)" using p(4) clo_base by (auto simp: entry_def)
    then have "p + 1 \<in> clo (EJ (m_g m) a b) {a}" using assms(2) by blast
    moreover have "OP (strip (m_g m) ! p) \<in> {OCHAR, OANY, OANYOF}" using eats_char [OF p(3) right_char_char [OF assms(3)]] .
    moreover have "p \<in> set [a ..< b]" using p(1,2) by simp
    ultimately show False using assms(1) unfolding cold_safe_def by blast
  qed
  then show ?thesis by simp
qed

lemma cold_nothing_before:
  assumes "cold_safe (m_g m) a b" "all_entry m a b s i = clo (EJ (m_g m) a b) {a}"
    and "\<And>p. p < s + i \<Longrightarrow> \<not> ends_at m a b s p" "s + i \<le> m_endp m" "s \<le> q" "q < s + i"
  shows "\<not> accepts m a b q e"
proof
  assume acc: "accepts m a b q e"
  then have "ends_at m a b s e" using assms(5) by (auto simp: ends_at_def accepts_def)
  then have e: "s + i \<le> e" using assms(3) not_le by blast
  define k where "k = s + i - q - 1"
  have k: "s + i = q + Suc k" "q + k < m_endp m" "i - (q - s) = Suc k" using assms(4-6) by (simp_all add: k_def)
  have "entry m a b (s + (q - s)) (i - (q - s)) \<subseteq> all_entry m a b s i"
    using assms(5,6) unfolding all_entry_def by (intro UN_upper) simp
  then have "entry m a b q (Suc k) \<subseteq> clo (EJ (m_g m) a b) {a}" using assms(2,5) k(3) by simp
  from dead_after_cold [OF assms(1) this k(2)] have "reach m a b q (Suc k + (e - (q + Suc k))) = {}" by (rule reach_dead)
  moreover have "Suc k + (e - (q + Suc k)) = e - q" using e k(1) by simp
  ultimately have "reach m a b q (e - q) = {}" by metis
  then show False using acc unfolding accepts_def by blast
qed

text \<open>What \<open>fast\<close> promises to the search.\<close>

lemma fast_result_none:
  assumes "fast_result m a b s stop (None, cp)" "s \<le> q" "e \<le> stop"
  shows "\<not> accepts m a b q e"
  using assms by (auto simp: fast_result_def ends_at_def accepts_def)

lemma fast_result_some:
  assumes "fast_result m a b s stop (Some e, cp)"
  obtains c q e' where "cp = Some c" "s \<le> c" "c \<le> q" "q \<le> e'" "e' \<le> stop" "accepts m a b q e'"
proof -
  obtain j i where *: "s + j \<le> stop" "ends_at m a b s (s + j)" "i \<le> j" "cp = Some (s + i)"
    "all_entry m a b s i = clo (EJ (m_g m) a b) {a}"
    using assms by (auto simp: fast_result_def)
  have "ends_at m a b (s + i) (s + j)" using ends_at_restart [OF *(5), of "j - i"] *(2,3) by simp
  then obtain q where "s + i \<le> q" "q \<le> s + j" "accepts m a b q (s + j)" by (auto simp: ends_at_def)
  then show ?thesis using that *(1,4) by simp
qed

lemma fast_result_cold:
  assumes "fast_result m a b s stop (Some e, Some c)" "cold_safe (m_g m) a b" "stop \<le> m_endp m" "s \<le> q" "q < c"
  shows "\<not> accepts m a b q e'"
proof -
  obtain j i where *: "s + j \<le> stop" "\<forall>p < s + j. \<not> ends_at m a b s p" "i \<le> j" "c = s + i"
    "all_entry m a b s i = clo (EJ (m_g m) a b) {a}"
    using assms(1) by (auto simp: fast_result_def)
  then show ?thesis using assms(3-5) by (intro cold_nothing_before [OF assms(2) *(5)]) auto
qed

context state_rep
begin

lemma find_start_leftmost:
  assumes "strip_ok (m_g m) a b" "nstates (m_g m) = N" "few_anchors (m_g m) a b" "subject_ok m"
    and "stop \<le> m_endp m" "accepts m a b q e" "e \<le> stop"
  shows "m_beginp m \<le> c \<Longrightarrow> c \<le> q \<Longrightarrow> \<exists>se. find_start R m stop a b c = Some se \<and> leftmost_longest m a b c stop se"
proof (induction "q - c" arbitrary: c)
  case 0
  then have "c = q" by simp
  have "q \<le> stop" using assms(6,7) by (simp add: accepts_def)
  then obtain r where r: "slow R m q stop a b = Some r" "longest_from m a b q stop r"
    using slow_longest [OF assms(1-4), of q stop] 0 assms(5) \<open>c = q\<close> by blast
  then obtain e' where "r = Some e'" using assms(6,7) by (cases r) (auto simp: longest_from_def)
  then show ?case using r \<open>c = q\<close> leftmost_longest_from by (subst find_start.simps) simp
next
  case (Suc n)
  have "q \<le> stop" using assms(6,7) by (simp add: accepts_def)
  then have c: "c \<le> stop" "c + 1 \<le> q" "n = q - (c + 1)" "m_beginp m \<le> c + 1" using Suc.hyps(2) Suc.prems by simp_all
  obtain r where r: "slow R m c stop a b = Some r" "longest_from m a b c stop r"
    using slow_longest [OF assms(1-4) Suc.prems(1) c(1) assms(5)] by blast
  show ?case
  proof (cases r)
    case None
    obtain se where "find_start R m stop a b (c + 1) = Some se" "leftmost_longest m a b (c + 1) stop se"
      using Suc.hyps(1) [OF c(3,4,2)] by blast
    then show ?thesis using None r leftmost_longest_skip by (subst find_start.simps) simp
  next
    case (Some e')
    then show ?thesis using r leftmost_longest_from by (subst find_start.simps) simp
  qed
qed

end

end
