(* ===== verification/Posix_Search.thy ===== *)
theory Posix_Search
  imports Posix_Match
begin

text \<open>
  The search of \<open>matcher\<close> and \<open>regexec\<close> of \<open>cygwin/regex\<close>: what it returns when at most the span of the match is asked for and
  the expression has no back references, and that the two representations of sets of states, which
  are interpretations of \<open>state_rep\<close>, give the same result.
\<close>

section \<open>The search\<close>

text \<open>The part of the strip that is searched for, and what its operators must satisfy.\<close>

abbreviation (input) "gf g \<equiv> firststate g + 1"

definition search_ok :: "re_guts \<Rightarrow> bool" where
  "search_ok g \<longleftrightarrow> strip_ok g (gf g) (laststate g) \<and> few_anchors g (gf g) (laststate g) \<and> \<not> backrefs g"

definition accepted :: "matchst \<Rightarrow> nat \<Rightarrow> nat \<Rightarrow> bool" where
  "accepted m s e \<longleftrightarrow> m_beginp m \<le> s \<and> e \<le> m_endp m \<and> accepts m (gf (m_g m)) (laststate (m_g m)) s e"

lemma accepted_le: "accepted m s e \<Longrightarrow> s \<le> e"
  by (simp add: accepted_def accepts_def)

text \<open>The match from \<open>s\<close> to \<open>e\<close> is the longest from \<open>s\<close>, and none starts before \<open>s\<close> from \<open>c\<close> on.\<close>

definition leftmost :: "matchst \<Rightarrow> nat \<Rightarrow> nat \<times> nat \<Rightarrow> bool" where
  "leftmost m c se \<longleftrightarrow> (case se of (s, e) \<Rightarrow>
     accepted m s e \<and> (\<forall>e'. accepted m s e' \<longrightarrow> e' \<le> e) \<and> (\<forall>s' e'. c \<le> s' \<and> s' < s \<longrightarrow> \<not> accepted m s' e'))"

lemma leftmost_longest_matches:
  assumes "leftmost_longest m (gf (m_g m)) (laststate (m_g m)) c (m_endp m) se" "m_beginp m \<le> c"
  shows "leftmost m c se"
  using assms by (auto simp: leftmost_longest_def leftmost_def accepted_def longest_from_def split: prod.splits)

definition search_result :: "matchst \<Rightarrow> nat \<Rightarrow> search_outcome \<Rightarrow> bool" where
  "search_result m nmatch r \<longleftrightarrow> (case r of
      No_match \<Rightarrow> (\<forall>s e. \<not> accepted m s e)
    | No_space \<Rightarrow> False
    | Found span pm \<Rightarrow> pm = [] \<and> (\<exists>s e. accepted m s e) \<and>
        (if nmatch = 0 then span = None
         else \<exists>c se. span = Some se \<and> m_beginp m \<le> c \<and> leftmost m c se
           \<and> (cold_safe (m_g m) (gf (m_g m)) (laststate (m_g m)) \<longrightarrow> leftmost m (m_beginp m) se)))"

lemma leftmost_cold:
  assumes "fast_result m (gf (m_g m)) (laststate (m_g m)) (m_beginp m) (m_endp m) (Some e, Some c)" "leftmost m c se"
    and "cold_safe (m_g m) (gf (m_g m)) (laststate (m_g m))"
  shows "leftmost m (m_beginp m) se"
proof -
  have "\<not> accepted m s' e'" if "m_beginp m \<le> s'" "s' < c" for s' e'
    using fast_result_cold [OF assms(1,3) order_refl that] by (simp add: accepted_def)
  moreover have "\<not> accepted m s' e'" if "c \<le> s'" "s' < fst se" for s' e'
    using assms(2) that by (simp add: leftmost_def split: prod.splits)
  ultimately show ?thesis using assms(2) not_le by (fastforce simp: leftmost_def split: prod.splits)
qed

context state_rep
begin

lemma search_finds:
  assumes "search_ok (m_g m)" "nstates (m_g m) = N" "subject_ok m" "nmatch \<le> 1"
  shows "\<exists>r. search mem R m nmatch (m_endp m) (m_beginp m) lp = Some r \<and> search_result m nmatch r"
proof -
  let ?a = "gf (m_g m)" and ?b = "laststate (m_g m)"
  have ok: "strip_ok (m_g m) ?a ?b" "few_anchors (m_g m) ?a ?b" "\<not> backrefs (m_g m)"
    using assms(1) by (simp_all add: search_ok_def)
  have le: "m_beginp m \<le> m_endp m" using assms(3) by (simp add: subject_ok_def)
  obtain x cp where f: "fast R m (m_beginp m) (m_endp m) ?a ?b = Some (x, cp)"
    "fast_result m ?a ?b (m_beginp m) (m_endp m) (x, cp)"
    using fast_search [OF ok(1) assms(2) ok(2) assms(3) order_refl le order_refl] by auto
  show ?thesis
  proof (cases x)
    case None
    then have "\<not> accepted m s e" for s e
      using fast_result_none [of m ?a ?b] f(2) by (auto simp: accepted_def)
    then show ?thesis using f(1) None by (subst search.simps) (simp add: Let_def search_result_def)
  next
    case (Some p)
    obtain c q e where c: "cp = Some c" "m_beginp m \<le> c" "c \<le> q" "q \<le> e" "e \<le> m_endp m" "accepts m ?a ?b q e"
      using fast_result_some [OF f(2) [unfolded Some]] by blast
    obtain se where se: "find_start R m (m_endp m) ?a ?b c = Some se" "leftmost_longest m ?a ?b c (m_endp m) se"
      using find_start_leftmost [OF ok(1) assms(2) ok(2) assms(3) order_refl c(6,5,2,3)] by blast
    have "accepted m q e" using c by (simp add: accepted_def)
    moreover have l: "leftmost m c se" using leftmost_longest_matches [OF se(2) c(2)] .
    moreover have "leftmost m (m_beginp m) se" if "cold_safe (m_g m) ?a ?b"
      using leftmost_cold [OF f(2) [unfolded Some c(1)] l that] .
    ultimately show ?thesis using f(1) Some c(1,2) se(1) ok(3) assms(4)
      by (subst search.simps) (cases nmatch; auto simp: Let_def search_result_def split: prod.splits)
  qed
qed

end

section \<open>The two representations\<close>

definition small_inv :: "nat \<Rightarrow> 32 word \<Rightarrow> bool" where
  "small_inv n v \<longleftrightarrow> (\<forall>i \<ge> n. \<not> bit v i)"

definition small_members :: "32 word \<Rightarrow> nat set" where
  "small_members v = {n. bit v n}"

definition large_inv :: "nat \<Rightarrow> byte list \<Rightarrow> bool" where
  "large_inv n v \<longleftrightarrow> length v = n \<and> set v \<subseteq> {0, 1}"

definition large_members :: "byte list \<Rightarrow> nat set" where
  "large_members v = {n. n < length v \<and> v ! n \<noteq> 0}"

lemma small_clear: "small_inv n (CLEAR small n)" "small_members (CLEAR small n) = {}"
  by (simp_all add: small_inv_def small_members_def small_def)

lemma sbit_Some [simp]: "n < 32 \<Longrightarrow> sbit n = Some (2 ^ n)"
  by (simp add: sbit_def)

lemma small_bit [simp]: "bit (2 ^ n :: 32 word) i \<longleftrightarrow> n < 32 \<and> i = n"
  by (auto simp: bit_exp_iff)

lemma small_word_32: "bit (v :: 32 word) i \<Longrightarrow> i < 32"
  using bit_imp_le_length [of v i] by simp

lemma small_nonzero: "(w :: 32 word) \<noteq> 0 \<longleftrightarrow> (\<exists>i. bit w i)"
  using small_word_32 by (auto simp: bit_eq_iff)

interpretation small_rep: state_rep small "min n 32" "small_inv (min n 32)" small_members for n
proof (unfold_locales, goal_cases)
  case (3 v)
  then show ?case by (auto simp: small_inv_def small_members_def not_le)
next
  case (4 v k)
  then show ?case by (auto simp: small_inv_def small_members_def small_def bit_or_iff)
next
  case (5 v k)
  then show ?case by (auto simp: small_def small_members_def small_nonzero bit_and_iff)
next
  case (6 v w)
  then show ?case using small_word_32 by (auto simp: small_def small_members_def bit_eq_iff set_eq_iff)
next
  case (7 v w p k)
  then show ?case
    by (auto simp: small_def small_inv_def small_members_def bit_or_iff bit_and_iff bit_push_bit_iff dest: bit_imp_le_length)
next
  case (8 v w p k)
  have "p - k < min n 32" using 8(3) by (rule le_less_trans [OF diff_le_self])
  with 8 show ?case
    by (auto simp: small_def small_inv_def small_members_def bit_or_iff bit_and_iff bit_drop_bit_eq)
next
  case (9 v p k)
  then show ?case
    by (auto simp: small_def small_members_def small_nonzero bit_and_iff bit_drop_bit_eq)
next
  case (10 v p)
  then show ?case by (auto simp: small_def small_members_def small_nonzero bit_and_iff)
qed (simp_all add: small_clear)

lemma large_byte: "large_inv n v \<Longrightarrow> i < n \<Longrightarrow> v ! i = 0 \<or> v ! i = 1"
  by (auto simp: large_inv_def subset_iff)

lemma large_set: "large_inv n v \<Longrightarrow> b \<in> {0, 1} \<Longrightarrow> large_inv n (v[i := b])"
  using set_update_subset_insert [of v i b] by (auto simp: large_inv_def)

lemma large_members_set:
  "i < length v \<Longrightarrow> large_members (v[i := b]) = (if b = 0 then large_members v - {i} else insert i (large_members v))"
  by (auto simp: large_members_def nth_list_update)

lemma large_or:
  assumes "large_inv n v" "i < n" "b = 0 \<or> b = 1"
  shows "large_inv n (v[i := v ! i OR b]) \<and> large_members (v[i := v ! i OR b]) = large_members v \<union> (if b \<noteq> 0 then {i} else {})"
proof -
  have c: "v ! i = 0 \<or> v ! i = 1" using large_byte [OF assms(1,2)] .
  then have "v ! i OR b \<in> {0, 1}" using assms(3) by auto
  moreover have "i < length v" using assms(1,2) by (simp add: large_inv_def)
  ultimately show ?thesis using c assms(3) large_set [OF assms(1)]
    by (auto simp: large_members_set large_members_def nth_list_update split: if_splits)
qed

interpretation large_rep: state_rep large n "large_inv n" large_members for n
proof (unfold_locales, goal_cases)
  case 1
  then show ?case by (auto simp: large_def large_inv_def)
next
  case 2
  then show ?case by (auto simp: large_def large_members_def)
next
  case (3 v)
  then show ?case by (auto simp: large_inv_def large_members_def)
next
  case (4 v k)
  then have "k < length v" by (simp add: large_inv_def)
  then show ?case using large_set [OF 4(1), of 1 k] by (simp add: large_def large_members_set)
next
  case (5 v k)
  then show ?case by (auto simp: large_def large_members_def byte_at_def large_inv_def)
next
  case (6 v w)
  have "v = w" if "large_members v = large_members w"
  proof (rule nth_equalityI)
    show "length v = length w" using 6 by (simp add: large_inv_def)
    fix i assume "i < length v"
    then have i: "i < n" "i < length w" using 6 by (simp_all add: large_inv_def)
    have "(v ! i \<noteq> 0) = (w ! i \<noteq> 0)" using that i \<open>i < length v\<close> by (auto simp: large_members_def)
    then show "v ! i = w ! i" using large_byte [OF 6(1) i(1)] large_byte [OF 6(2) i(1)] by auto
  qed
  then show ?case by (auto simp: large_def)
next
  case (7 v w p k)
  then have "p < length w" "p + k < length v" by (simp_all add: large_inv_def)
  then show ?case using large_or [OF 7(1,3) large_byte [OF 7(2), of p]] 7(3)
    by (auto simp: large_def byte_at_def large_members_def [of w])
next
  case (8 v w p k)
  then have "p < length w" "p - k < length v" by (simp_all add: large_inv_def)
  then show ?case using large_or [OF 8(1) _ large_byte [OF 8(2), of p], of "p - k"] 8(3,4)
    by (auto simp: large_def byte_at_def large_members_def [of w])
next
  case (9 v p k)
  then show ?case by (auto simp: large_def large_members_def byte_at_def large_inv_def)
next
  case (10 v p)
  then show ?case by (auto simp: large_def large_members_def byte_at_def large_inv_def)
qed

section \<open>matcher and regexec\<close>

text \<open>The part of the string that is searched, and the match record for it.\<close>

definition window :: "byte list \<Rightarrow> regmatch_t list \<Rightarrow> int \<Rightarrow> int \<times> int" where
  "window buf pmatch eflags = (if flag_on eflags REG_STARTEND then (rm_so (hd pmatch), rm_eo (hd pmatch))
     else (0, int (length (takeWhile (\<lambda>b. b \<noteq> 0) buf))))"

definition window_ok :: "byte list \<Rightarrow> regmatch_t list \<Rightarrow> int \<Rightarrow> bool" where
  "window_ok buf pmatch eflags \<longleftrightarrow> (flag_on eflags REG_STARTEND \<longrightarrow> pmatch \<noteq> [] \<and> 0 \<le> rm_so (hd pmatch)
     \<and> rm_so (hd pmatch) \<le> rm_eo (hd pmatch) \<and> nat (rm_eo (hd pmatch)) \<le> length buf)"

definition exec_flags :: "int \<Rightarrow> int" where
  "exec_flags eflags = eflags AND (REG_NOTBOL OR REG_NOTEOL OR REG_STARTEND)"

definition subject :: "(int \<Rightarrow> bool) \<Rightarrow> re_guts \<Rightarrow> byte list \<Rightarrow> regmatch_t list \<Rightarrow> int \<Rightarrow> matchst" where
  "subject alnum g buf pmatch eflags = \<lparr> m_g = g, m_eflags = eflags, m_beginp = nat (fst (window buf pmatch eflags)),
     m_endp = nat (snd (window buf pmatch eflags)), m_buf = buf, m_alnum = alnum \<rparr>"

text \<open>Every match contains the string that must occur.\<close>

definition must_sound :: "matchst \<Rightarrow> bool" where
  "must_sound m \<longleftrightarrow> (\<forall>s e. accepted m s e \<longrightarrow> must_occurs (m_g m) (m_buf m) (m_beginp m) (m_endp m))"

definition asks :: "re_guts \<Rightarrow> nat \<Rightarrow> nat" where
  "asks g nmatch = (if flag_on (cflags g) REG_NOSUB then 0 else nmatch)"

definition exec_result :: "matchst \<Rightarrow> nat \<Rightarrow> regmatch_t list \<Rightarrow> int \<times> regmatch_t list \<Rightarrow> bool" where
  "exec_result m nmatch pmatch r \<longleftrightarrow>
     r = (REG_NOMATCH, pmatch) \<and> (\<forall>s e. \<not> accepted m s e)
   \<or> nmatch = 0 \<and> r = (0, pmatch) \<and> (\<exists>s e. accepted m s e)
   \<or> nmatch = 1 \<and> (\<exists>c s e. r = (0, \<lparr> rm_so = int s, rm_eo = int e \<rparr> # tl pmatch) \<and> m_beginp m \<le> c \<and> leftmost m c (s, e)
        \<and> (cold_safe (m_g m) (gf (m_g m)) (laststate (m_g m)) \<longrightarrow> leftmost m (m_beginp m) (s, e)))"

lemma window_subject:
  assumes "window_ok buf pmatch eflags"
  shows "subject_ok (subject alnum g buf pmatch eflags)" "fst (window buf pmatch eflags) \<ge> 0"
    "fst (window buf pmatch eflags) \<le> snd (window buf pmatch eflags)" "nat (snd (window buf pmatch eflags)) \<le> length buf"
  using assms length_takeWhile_le [of "\<lambda>b. b \<noteq> 0" buf]
  by (auto simp: window_ok_def window_def subject_ok_def subject_def)

context state_rep
begin

lemma matcher_finds:
  assumes "search_ok g" "nstates g = N" "window_ok buf pmatch eflags" "asks g nmatch \<le> 1" "asks g nmatch \<le> length pmatch"
    and "by_ref R \<longrightarrow> mem 0" "must_sound (subject alnum g buf pmatch eflags)"
  shows "\<exists>r. matcher mem alnum R g buf nmatch pmatch eflags = Some r
    \<and> exec_result (subject alnum g buf pmatch eflags) (asks g nmatch) pmatch r"
proof -
  let ?m = "subject alnum g buf pmatch eflags"
  obtain start stop where w: "window buf pmatch eflags = (start, stop)" by fastforce
  note sub = window_subject(1) [OF assms(3), of alnum g] window_subject(2-4) [OF assms(3), unfolded w, simplified]
  have m: "m_g ?m = g" "m_beginp ?m = nat start" "m_endp ?m = nat stop" "m_buf ?m = buf"
    "\<lparr> m_g = g, m_eflags = eflags, m_beginp = nat start, m_endp = nat stop, m_buf = buf, m_alnum = alnum \<rparr> = ?m"
    by (simp_all add: subject_def w)
  have win: "(if flag_on eflags REG_STARTEND then
       (if pmatch = [] \<or> rm_so (pmatch ! 0) < 0 then None else Some (rm_so (pmatch ! 0), rm_eo (pmatch ! 0)))
     else Some (0, int (length (takeWhile (\<lambda>b. b \<noteq> 0) buf)))) = Some (start, stop)"
    using w assms(3) by (auto simp: window_def window_ok_def hd_conv_nth)
  show ?thesis
  proof (cases "must_occurs g buf (nat start) (nat stop)")
    case False
    then have "\<not> accepted ?m s e" for s e using assms(7) m by (auto simp: must_sound_def)
    then show ?thesis using False win sub(2-4) by (simp add: matcher_def exec_result_def)
  next
    case True
    have "search_ok (m_g ?m)" "nstates (m_g ?m) = N" using assms(1,2) m(1) by simp_all
    from search_finds [OF this sub(1) assms(4), of mem "[]"] obtain r
      where r: "search mem R ?m (asks g nmatch) (nat stop) (nat start) [] = Some r" "search_result ?m (asks g nmatch) r"
      using m by auto
    have *: "matcher mem alnum R g buf nmatch pmatch eflags = (case r of
         No_match \<Rightarrow> Some (REG_NOMATCH, pmatch)
       | No_space \<Rightarrow> Some (REG_ESPACE, pmatch)
       | Found span pm \<Rightarrow>
           if asks g nmatch = 0 then Some (0, pmatch)
           else if length pmatch < asks g nmatch then None
           else do {
             (coldp, endp) \<leftarrow> span;
             let first = \<lparr> rm_so = int coldp, rm_eo = int endp \<rparr>;
             Some (0, first # map (\<lambda>i. if i \<le> nsub g then pm ! i else no_match_t) [1 ..< asks g nmatch] @ drop (asks g nmatch) pmatch) })"
      using True win sub(2-4) assms(6) r(1) unfolding matcher_def asks_def [symmetric]
      by (cases "by_ref R") (simp_all add: m(5) Let_def)
    show ?thesis
    proof (cases r)
      case No_match
      then show ?thesis using * r(2) by (simp add: search_result_def exec_result_def)
    next
      case No_space
      then show ?thesis using r(2) by (simp add: search_result_def)
    next
      case (Found span pm)
      then show ?thesis using * r(2) assms(4,5)
        by (cases "asks g nmatch") (auto simp: search_result_def exec_result_def drop_Suc split: prod.splits)
    qed
  qed
qed

end

definition ready :: "regex_t \<Rightarrow> bool" where
  "ready preg \<longleftrightarrow> re_magic preg = MAGIC1 \<and> magic (re_g preg) = MAGIC2 \<and> \<not> flag_on (iflags (re_g preg)) BAD
     \<and> search_ok (re_g preg)"

lemma flag_masked: "flag_on (eflags AND 7) REG_LARGE = False"
  by (simp add: flag_on_def and.assoc)

lemma posix_regexec_finds:
  assumes "ready preg" "window_ok buf pmatch (exec_flags eflags)"
    and "asks (re_g preg) nmatch \<le> 1" "asks (re_g preg) nmatch \<le> length pmatch" "mem 0"
    and "must_sound (subject alnum (re_g preg) buf pmatch (exec_flags eflags))"
  shows "\<exists>r. posix_regexec mem alnum preg buf nmatch pmatch eflags = Some r
    \<and> exec_result (subject alnum (re_g preg) buf pmatch (exec_flags eflags)) (asks (re_g preg) nmatch) pmatch r"
proof (cases "nstates (re_g preg) \<le> 32")
  case True
  then have n: "nstates (re_g preg) = min (nstates (re_g preg)) 32" by simp
  have ok: "search_ok (re_g preg)" using assms(1) by (simp add: ready_def)
  from small_rep.matcher_finds [OF ok n assms(2-4) _ assms(6)] assms(1,5) True show ?thesis
    by (simp add: posix_regexec_def ready_def exec_flags_def flag_masked Let_def small_def)
next
  case False
  have ok: "search_ok (re_g preg)" using assms(1) by (simp add: ready_def)
  from large_rep.matcher_finds [OF ok refl assms(2-4) _ assms(6)] assms(1,5) False show ?thesis
    by (simp add: posix_regexec_def ready_def exec_flags_def Let_def)
qed

text \<open>With \<open>cold_safe\<close> there is only one result.\<close>

lemma leftmost_unique: "leftmost m c se \<Longrightarrow> leftmost m c se' \<Longrightarrow> c = m_beginp m \<Longrightarrow> se = se'"
proof -
  assume *: "leftmost m c se" "leftmost m c se'" "c = m_beginp m"
  obtain s e s' e' where se: "se = (s, e)" "se' = (s', e')" by fastforce
  have "\<not> s < s'" "\<not> s' < s"
    using * se by (auto simp: leftmost_def accepted_def)
  then have "s = s'" by simp
  then show ?thesis using * se by (auto simp: leftmost_def intro: antisym)
qed

lemma exec_result_unique:
  assumes "exec_result m n pmatch r" "exec_result m n pmatch r'" "cold_safe (m_g m) (gf (m_g m)) (laststate (m_g m))"
  shows "r = r'"
proof (cases "\<exists>s e. accepted m s e")
  case False
  then show ?thesis using assms(1,2) by (auto simp: exec_result_def leftmost_def)
next
  case True
  then consider "n = 0" "r = (0, pmatch)" "r' = (0, pmatch)"
    | se se' where "r = (0, \<lparr> rm_so = int (fst se), rm_eo = int (snd se) \<rparr> # tl pmatch)"
      "r' = (0, \<lparr> rm_so = int (fst se'), rm_eo = int (snd se') \<rparr> # tl pmatch)"
      "leftmost m (m_beginp m) se" "leftmost m (m_beginp m) se'"
    using assms by (auto simp: exec_result_def)
  then show ?thesis using leftmost_unique by cases auto
qed

lemma small_large_agree:
  assumes "search_ok g" "nstates g \<le> 32" "cold_safe g (gf g) (laststate g)" "window_ok buf pmatch eflags"
    and "asks g nmatch \<le> 1" "asks g nmatch \<le> length pmatch" "mem 0" "must_sound (subject alnum g buf pmatch eflags)"
  shows "matcher mem alnum small g buf nmatch pmatch eflags = matcher mem alnum large g buf nmatch pmatch eflags"
proof -
  let ?m = "subject alnum g buf pmatch eflags"
  have n: "nstates g = min (nstates g) 32" using assms(2) by simp
  have "by_ref small \<longrightarrow> mem 0" "by_ref large \<longrightarrow> mem 0" using assms(7) by simp_all
  then obtain r r' where r: "matcher mem alnum small g buf nmatch pmatch eflags = Some r" "exec_result ?m (asks g nmatch) pmatch r"
    "matcher mem alnum large g buf nmatch pmatch eflags = Some r'" "exec_result ?m (asks g nmatch) pmatch r'"
    using small_rep.matcher_finds [OF assms(1) n assms(4-6) _ assms(8), of mem]
      large_rep.matcher_finds [OF assms(1) refl assms(4-6) _ assms(8), of mem] by blast
  have "cold_safe (m_g ?m) (gf (m_g ?m)) (laststate (m_g ?m))" using assms(3) by (simp add: subject_def)
  from exec_result_unique [OF r(2,4) this] show ?thesis using r(1,3) by simp
qed

text \<open>What makes a concrete strip fit for the search: tests that compute.\<close>

lemma search_okI:
  assumes "gf g \<le> laststate g" "laststate g < nstates g" "list_all (op_ok g (gf g) (laststate g)) [gf g ..< laststate g]"
    and "few_anchors g (gf g) (laststate g)" "\<not> backrefs g"
  shows "search_ok g"
  using assms by (auto simp: search_ok_def strip_ok_def list_all_iff)

section \<open>Three strips\<close>

text \<open>
  \<open>a|ab\<close>, \<open>(a*|b)c\<close> and \<open>(^)\{2\}a\<close> (the first two as \<open>regcomp\<close> lays them out).
\<close>

definition strip_re :: "sop list \<Rightarrow> nat \<Rightarrow> nat \<Rightarrow> re_guts" where
  "strip_re ops parens bols = \<lparr> magic = MAGIC2, strip = (OEND, 0) # ops @ [(OEND, 0)], sets = [], cflags = 0,
     firststate = 0, laststate = length ops + 1, iflags = 0, nbol = bols, neol = 0, must = None, nsub = parens,
     backrefs = False, nplus = 1 \<rparr>"

definition re_a_ab :: re_guts where
  "re_a_ab = strip_re [(OCH, 3), (OCHAR, 97), (OOR1, 2), (OOR2, 3), (OCHAR, 97), (OCHAR, 98), (O_CH, 4)] 0 0"

definition re_stars_b_c :: re_guts where
  "re_stars_b_c = strip_re [(OLPAREN, 1), (OCH, 7), (OQUEST, 4), (OPLUS, 2), (OCHAR, 97), (O_PLUS, 2), (O_QUEST, 4),
     (OOR1, 6), (OOR2, 2), (OCHAR, 98), (O_CH, 3), (ORPAREN, 1), (OCHAR, 99)] 1 0"

definition re_bol_twice_a :: re_guts where
  "re_bol_twice_a = strip_re [(OLPAREN, 1), (OBOL, 0), (ORPAREN, 1), (OLPAREN, 1), (OBOL, 0), (ORPAREN, 1), (OCHAR, 97)] 1 1"

text \<open>Every match that \<open>slow\<close> reports is one.\<close>

lemma slow_small_accepts:
  assumes "search_ok (m_g m)" "nstates (m_g m) \<le> 32" "subject_ok m" "m_beginp m \<le> s" "s \<le> m_endp m"
    and "slow small m s (m_endp m) (gf (m_g m)) (laststate (m_g m)) = Some (Some e)"
  shows "accepted m s e"
proof -
  have n: "nstates (m_g m) = min (nstates (m_g m)) 32" using assms(2) by simp
  have ok: "strip_ok (m_g m) (gf (m_g m)) (laststate (m_g m))" "few_anchors (m_g m) (gf (m_g m)) (laststate (m_g m))"
    using assms(1) by (simp_all add: search_ok_def)
  from small_rep.slow_longest [OF ok(1) n ok(2) assms(3-5) order_refl] assms(4,6) show ?thesis
    by (auto simp: accepted_def longest_from_def)
qed

text \<open>On \<open>bc\<close> the second strip is not matched at its leftmost match.\<close>

lemma coldp_too_late:
  "posix_regexec (\<lambda>_. True) (\<lambda>_. False) \<lparr> re_magic = MAGIC1, re_g = re_stars_b_c \<rparr> [98, 99] 1 [no_match_t] 0
     = Some (0, [\<lparr> rm_so = 1, rm_eo = 2 \<rparr>])"
  "accepted (subject (\<lambda>_. False) re_stars_b_c [98, 99] [no_match_t] 0) 0 2"
proof -
  let ?m = "subject (\<lambda>_. False) re_stars_b_c [98, 99] [no_match_t] 0"
  show "posix_regexec (\<lambda>_. True) (\<lambda>_. False) \<lparr> re_magic = MAGIC1, re_g = re_stars_b_c \<rparr> [98, 99] 1 [no_match_t] 0
     = Some (0, [\<lparr> rm_so = 1, rm_eo = 2 \<rparr>])" by code_simp
  have "slow small ?m 0 (m_endp ?m) (gf (m_g ?m)) (laststate (m_g ?m)) = Some (Some 2)" by code_simp
  moreover have "search_ok re_stars_b_c" by (rule search_okI) code_simp+
  moreover have "nstates re_stars_b_c \<le> 32" "m_beginp ?m = 0" "m_endp ?m = 2" by code_simp+
  moreover have "subject_ok ?m" by code_simp
  ultimately show "accepted ?m 0 2" by (intro slow_small_accepts) (simp_all add: subject_def)
qed

text \<open>The two anchors of the third strip, of which \<open>nbol\<close> counts one, are seen by one representation only.\<close>

lemma copied_anchor_missed:
  "matcher (\<lambda>_. True) (\<lambda>_. False) small re_bol_twice_a [97] 0 [] 0 = Some (REG_NOMATCH, [])"
  "matcher (\<lambda>_. True) (\<lambda>_. False) large re_bol_twice_a [97] 0 [] 0 = Some (0, [])"
  by code_simp+

end
