(* ===== verification/Posix_Language.thy ===== *)
theory Posix_Language
  imports Posix_Layout Posix_Search
begin

text \<open>
  What a layout matches: \<open>tree_span\<close> gives a tree the relation between the start and the end of a match, as one gives it to
  a regular expression, and the automaton of \<open>lay\<close> accepts exactly these spans.
\<close>

section \<open>The spans of a tree\<close>

definition leaf_span :: "matchst \<Rightarrow> oper \<Rightarrow> nat \<Rightarrow> nat \<Rightarrow> nat \<Rightarrow> bool" where
  "leaf_span m op n i j \<longleftrightarrow>
     op = OBOL \<and> j = i \<and> flag_at m i \<in> {BOL, BOLEOL} \<or> op = OEOL \<and> j = i \<and> flag_at m i \<in> {EOL, BOLEOL}
   \<or> j = i + 1 \<and> i < m_endp m \<and> (op = OCHAR \<and> m_buf m ! i = of_nat n \<or> op = OANY
       \<or> op = OANYOF \<and> CHIN (sets (m_g m) ! n) (m_buf m ! i))"

fun tree_span :: "matchst \<Rightarrow> ptree \<Rightarrow> nat \<Rightarrow> nat \<Rightarrow> bool" where
  "tree_span m (Leaf op n) = leaf_span m op n"
| "tree_span m (Par n xs) = foldr (\<lambda>t R. tree_span m t OO R) xs (=)"
| "tree_span m (Loop xs) = (foldr (\<lambda>t R. tree_span m t OO R) xs (=))\<^sup>+\<^sup>+"
| "tree_span m (Maybe xs) = (\<lambda>i j. i = j \<or> foldr (\<lambda>t R. tree_span m t OO R) xs (=) i j)"
| "tree_span m (Choice x bs) = (\<lambda>i j. foldr (\<lambda>t R. tree_span m t OO R) x (=) i j
     \<or> (\<exists>b \<in> set bs. foldr (\<lambda>t R. tree_span m t OO R) b (=) i j))"

abbreviation tree_spans :: "matchst \<Rightarrow> ptree list \<Rightarrow> nat \<Rightarrow> nat \<Rightarrow> bool" where
  "tree_spans m ts \<equiv> foldr (\<lambda>t R. tree_span m t OO R) ts (=)"

lemma spans_append: "tree_spans m (ts @ us) = tree_spans m ts OO tree_spans m us"
  by (induction ts) (simp_all add: relcompp_assoc eq_OO)

section \<open>Paths through the automaton\<close>

definition hop :: "matchst \<Rightarrow> nat \<Rightarrow> nat \<Rightarrow> nat \<times> nat \<Rightarrow> nat \<times> nat \<Rightarrow> bool" where
  "hop m a b x y \<longleftrightarrow> a \<le> fst x \<and> fst x < b
     \<and> (snd y = snd x \<and> (fst y \<in> jumps (m_g m) (fst x)
           \<or> flag_at m (snd x) \<noteq> 0 \<and> eats (m_g m) (flag_at m (snd x)) (fst x) \<and> fst y = fst x + 1)
        \<or> snd y = snd x + 1 \<and> snd x < m_endp m \<and> eats (m_g m) (right_char m (snd x)) (fst x) \<and> fst y = fst x + 1)"

lemma EF_hop: "q \<in> EF (m_g m) a b (flag_at m i) p \<longleftrightarrow> hop m a b (p, i) (q, i)"
  by (auto simp: EF_def EJ_def EA_def hop_def)

lemma clo_hops: "q \<in> clo (EF (m_g m) a b (flag_at m i)) X \<Longrightarrow> \<exists>p \<in> X. (hop m a b)\<^sup>*\<^sup>* (p, i) (q, i)"
proof -
  assume "q \<in> clo (EF (m_g m) a b (flag_at m i)) X"
  then obtain p where p: "p \<in> X" "(\<lambda>x y. y \<in> EF (m_g m) a b (flag_at m i) x)\<^sup>*\<^sup>* p q" by (auto simp: clo_def)
  from p(2) have "(hop m a b)\<^sup>*\<^sup>* (p, i) (q, i)"
    by induction (auto simp: EF_hop intro: rtranclp.rtrancl_into_rtrancl)
  then show ?thesis using p(1) by blast
qed

lemma reach_hops: "s + k \<le> m_endp m \<Longrightarrow> q \<in> reach m a b s k \<Longrightarrow> (hop m a b)\<^sup>*\<^sup>* (a, s) (q, s + k)"
proof (induction k arbitrary: q)
  case 0
  then show ?case using clo_hops [of q m a b s "{a}"] by simp
next
  case (Suc k)
  obtain p where p: "p \<in> reads (m_g m) a b (right_char m (s + k)) (reach m a b s k)" "(hop m a b)\<^sup>*\<^sup>* (p, s + Suc k) (q, s + Suc k)"
    using clo_hops [OF Suc(3) [unfolded reach.simps]] by blast
  obtain r where r: "p = r + 1" "r \<in> reach m a b s k" "a \<le> r" "r < b" "eats (m_g m) (right_char m (s + k)) r"
    using p(1) by (auto simp: reads_def)
  have "hop m a b (r, s + k) (p, s + Suc k)" using r Suc(2) by (simp add: hop_def)
  moreover have "(hop m a b)\<^sup>*\<^sup>* (a, s) (r, s + k)" using Suc(1) [OF _ r(2)] Suc(2) by simp
  ultimately show ?case using p(2) by (meson rtranclp.rtrancl_into_rtrancl rtranclp_trans)
qed

lemma hops_reach: "(hop m a b)\<^sup>*\<^sup>* x y \<Longrightarrow> x = (a, s) \<Longrightarrow> s \<le> snd y \<and> fst y \<in> reach m a b s (snd y - s)"
proof (induction rule: rtranclp_induct)
  case base
  then show ?case using clo_base [of "{a}"] by fastforce
next
  case (step y z)
  obtain p i q j where yz: "y = (p, i)" "z = (q, j)" by fastforce
  have ih: "s \<le> i" "p \<in> reach m a b s (i - s)" using step(3,4) yz by simp_all
  have h: "hop m a b (p, i) (q, j)" using step(2) yz by simp
  show ?case
  proof (cases "j = i")
    case True
    then have "q \<in> EF (m_g m) a b (flag_at m i) p" using h EF_hop by metis
    moreover have "clo (EF (m_g m) a b (flag_at m i)) (entry m a b s (i - s)) = reach m a b s (i - s)"
      using entry_reach [of m a b s "i - s"] ih(1) by simp
    ultimately have "q \<in> reach m a b s (i - s)" using clo_step ih(2) by blast
    then show ?thesis using yz True ih(1) by simp
  next
    case False
    then have "j = i + 1" "a \<le> p" "p < b" "eats (m_g m) (right_char m i) p" "q = p + 1" using h by (auto simp: hop_def)
    then have "q \<in> reads (m_g m) a b (right_char m (s + (i - s))) (reach m a b s (i - s))" using ih by (auto simp: reads_def)
    then have "q \<in> reach m a b s (Suc (i - s))" using clo_base by fastforce
    then show ?thesis using yz ih(1) \<open>j = i + 1\<close> by (simp add: Suc_diff_le)
  qed
qed

lemma accepts_hops:
  assumes "e \<le> m_endp m"
  shows "accepts m a b s e \<longleftrightarrow> (hop m a b)\<^sup>*\<^sup>* (a, s) (b, e)"
proof
  assume *: "accepts m a b s e"
  then show "(hop m a b)\<^sup>*\<^sup>* (a, s) (b, e)" using reach_hops [of s "e - s" m b a b] assms by (simp add: accepts_def)
next
  assume "(hop m a b)\<^sup>*\<^sup>* (a, s) (b, e)"
  then show "accepts m a b s e" using hops_reach [of m a b "(a, s)" "(b, e)" s] by (simp add: accepts_def)
qed

section \<open>Parts of the strip and their spans\<close>

text \<open>
  From \<open>p\<close> on, every path to the end comes to \<open>q\<close> after an \<open>R\<close>, and after every \<open>R\<close> there is a path to \<open>q\<close>.
\<close>

definition exact :: "matchst \<Rightarrow> nat \<Rightarrow> nat \<Rightarrow> (nat \<Rightarrow> nat \<Rightarrow> bool) \<Rightarrow> nat \<Rightarrow> nat \<Rightarrow> bool" where
  "exact m a b R p q \<longleftrightarrow>
     (\<forall>l i e. (hop m a b ^^ l) (p, i) (b, e) \<longrightarrow> (\<exists>k j. k \<le> l \<and> R i j \<and> (hop m a b ^^ k) (q, j) (b, e)))
   \<and> (\<forall>i j. R i j \<longrightarrow> (hop m a b)\<^sup>*\<^sup>* (p, i) (q, j))"

lemma exactD:
  assumes "exact m a b R p q" "(hop m a b ^^ l) (p, i) (b, e)"
  obtains k j where "k \<le> l" "R i j" "(hop m a b ^^ k) (q, j) (b, e)"
  using assms unfolding exact_def by blast

lemma exact_path: "exact m a b R p q \<Longrightarrow> R i j \<Longrightarrow> (hop m a b)\<^sup>*\<^sup>* (p, i) (q, j)"
  by (simp add: exact_def)

lemma exactI:
  assumes "\<And>l i e. (hop m a b ^^ l) (p, i) (b, e) \<Longrightarrow> \<exists>k j. k \<le> l \<and> R i j \<and> (hop m a b ^^ k) (q, j) (b, e)"
    and "\<And>i j. R i j \<Longrightarrow> (hop m a b)\<^sup>*\<^sup>* (p, i) (q, j)"
  shows "exact m a b R p q"
  using assms unfolding exact_def by blast

lemma exact_refl: "exact m a b (=) p p"
  by (rule exactI) auto

lemma exact_trans:
  assumes "exact m a b R p q" "exact m a b S q r"
  shows "exact m a b (R OO S) p r"
proof (rule exactI)
  fix l i e assume "(hop m a b ^^ l) (p, i) (b, e)"
  then obtain k j where 1: "k \<le> l" "R i j" "(hop m a b ^^ k) (q, j) (b, e)" by (rule exactD [OF assms(1)])
  obtain k' j' where "k' \<le> k" "S j j'" "(hop m a b ^^ k') (r, j') (b, e)" using exactD [OF assms(2) 1(3)] .
  then show "\<exists>k j. k \<le> l \<and> (R OO S) i j \<and> (hop m a b ^^ k) (r, j) (b, e)" using 1(1,2) by (intro exI [of _ k'] exI [of _ j']) auto
next
  fix i j assume "(R OO S) i j"
  then obtain k where "R i k" "S k j" by blast
  then show "(hop m a b)\<^sup>*\<^sup>* (p, i) (r, j)"
    using rtranclp_trans [OF exact_path [OF assms(1)] exact_path [OF assms(2)]] by blast
qed

lemma exact_cong: "exact m a b R p q \<Longrightarrow> R = S \<Longrightarrow> exact m a b S p q"
  by simp

text \<open>The first hop from an operator.\<close>

lemma first_hop:
  assumes "(hop m a b ^^ l) (p, i) (b, e)" "p < b"
  obtains k q j where "l = Suc k" "hop m a b (p, i) (q, j)" "(hop m a b ^^ k) (q, j) (b, e)"
proof (cases l)
  case 0
  then show ?thesis using assms by simp
next
  case (Suc k)
  obtain y where y: "hop m a b (p, i) y" "(hop m a b ^^ k) y (b, e)"
    using relpowp_Suc_D2 [of k "hop m a b" "(p, i)" "(b, e)"] assms(1) Suc by blast
  then show ?thesis using that [of k "fst y" "snd y"] Suc by simp
qed

lemma hop_jump:
  assumes "strip (m_g m) ! p = (op, n)" "op \<notin> {OCHAR, OBOL, OEOL, OBOW, OEOW, OANY, OANYOF}" "a \<le> p" "p < b"
  shows "hop m a b (p, i) (q, j) \<longleftrightarrow> j = i \<and> q \<in> jumps (m_g m) p"
proof -
  have "\<not> eats (m_g m) ch p" for ch using assms(1,2) by (cases op) (simp_all add: eats_def)
  then show ?thesis using assms(3,4) by (auto simp: hop_def)
qed

lemma exact_jump:
  assumes "strip (m_g m) ! p = (op, n)" "op \<notin> {OCHAR, OBOL, OEOL, OBOW, OEOW, OANY, OANYOF}" "a \<le> p" "p < b"
    and "jumps (m_g m) p = {q}"
  shows "exact m a b (=) p q"
proof (rule exactI)
  fix l i e assume "(hop m a b ^^ l) (p, i) (b, e)"
  then obtain k q' j where "l = Suc k" "hop m a b (p, i) (q', j)" "(hop m a b ^^ k) (q', j) (b, e)" by (rule first_hop [OF _ assms(4)])
  then show "\<exists>k j. k \<le> l \<and> i = j \<and> (hop m a b ^^ k) (q, j) (b, e)"
    using hop_jump [OF assms(1-4)] assms(5) by (intro exI [of _ k] exI [of _ j]) auto
next
  fix i j :: nat assume "i = j"
  then show "(hop m a b)\<^sup>*\<^sup>* (p, i) (q, j)" using hop_jump [OF assms(1-4)] assms(5) by auto
qed

lemma exact_fork:
  assumes "strip (m_g m) ! p = (op, n)" "op \<notin> {OCHAR, OBOL, OEOL, OBOW, OEOW, OANY, OANYOF}" "a \<le> p" "p < b"
    and "jumps (m_g m) p = {q, q'}" "exact m a b R q r" "exact m a b S q' r"
  shows "exact m a b (\<lambda>i j. R i j \<or> S i j) p r"
proof (rule exactI)
  fix l i e assume "(hop m a b ^^ l) (p, i) (b, e)"
  then obtain k t j where 1: "l = Suc k" "hop m a b (p, i) (t, j)" "(hop m a b ^^ k) (t, j) (b, e)" by (rule first_hop [OF _ assms(4)])
  then have t: "j = i" "t = q \<or> t = q'" using hop_jump [OF assms(1-4)] assms(5) by auto
  then obtain k' j' where "k' \<le> k" "R i j' \<or> S i j'" "(hop m a b ^^ k') (r, j') (b, e)"
    using exactD [OF assms(6)] exactD [OF assms(7)] 1(3) by metis
  then show "\<exists>k j. k \<le> l \<and> (R i j \<or> S i j) \<and> (hop m a b ^^ k) (r, j) (b, e)" using 1(1) le_SucI by metis
next
  fix i j assume "R i j \<or> S i j"
  moreover have "hop m a b (p, i) (q, i)" "hop m a b (p, i) (q', i)" using hop_jump [OF assms(1-4)] assms(5) by simp_all
  ultimately show "(hop m a b)\<^sup>*\<^sup>* (p, i) (r, j)"
    using exact_path [OF assms(6)] exact_path [OF assms(7)] by (meson converse_rtranclp_into_rtranclp)
qed

text \<open>A loop whose end leads behind it or back to its beginning.\<close>

lemma exact_loop:
  assumes "exact m a b R (p + 1) q" "p < q" "strip (m_g m) ! q = (O_PLUS, n)" "a \<le> p" "q < b" "jumps (m_g m) q = {r, p}"
    and "strip (m_g m) ! p = (OPLUS, n')"
  shows "exact m a b (R\<^sup>+\<^sup>+) p r"
proof (rule exactI)
  have p: "p < b" and q: "a \<le> q" using assms(2,4,5) by simp_all
  have jp: "jumps (m_g m) p = {p + 1}" using assms(7) by (simp add: jumps_def)
  have progress: "\<exists>k j. k < l \<and> R i j \<and> (hop m a b ^^ k) (q, j) (b, e)" if path: "(hop m a b ^^ l) (p, i) (b, e)" for l i e
  proof -
    obtain k t u where 1: "l = Suc k" "hop m a b (p, i) (t, u)" "(hop m a b ^^ k) (t, u) (b, e)" using first_hop [OF path p] .
    then have "(hop m a b ^^ k) (p + 1, i) (b, e)" using hop_jump [OF assms(7) _ assms(4) p] jp by auto
    then obtain k' j where "k' \<le> k" "R i j" "(hop m a b ^^ k') (q, j) (b, e)" by (rule exactD [OF assms(1)])
    then show ?thesis using 1(1) by (intro exI [of _ k'] exI [of _ j]) auto
  qed
  have round: "(hop m a b)\<^sup>*\<^sup>* (p, i) (q, j)" if "R i j" for i j
    using exact_path [OF assms(1) that] hop_jump [OF assms(7) _ assms(4) p, of i "p + 1" i] jp by (simp add: converse_rtranclp_into_rtranclp)
  show "(hop m a b ^^ l) (p, i) (b, e) \<Longrightarrow> \<exists>k j. k \<le> l \<and> R\<^sup>+\<^sup>+ i j \<and> (hop m a b ^^ k) (r, j) (b, e)" for l i e
  proof (induction l arbitrary: i rule: less_induct)
    case (less l)
    obtain k j where 1: "k < l" "R i j" "(hop m a b ^^ k) (q, j) (b, e)" using progress [OF less(2)] by blast
    obtain k' t u where 2: "k = Suc k'" "hop m a b (q, j) (t, u)" "(hop m a b ^^ k') (t, u) (b, e)"
      using first_hop [OF 1(3) assms(5)] .
    have t: "u = j" "t = r \<or> t = p" using hop_jump [OF assms(3) _ q assms(5)] 2(2) assms(6) by auto
    then show ?case
    proof (elim disjE)
      assume "t = r"
      then show ?thesis using 1 2 t(1) by (intro exI [of _ k'] exI [of _ j]) auto
    next
      assume "t = p"
      then have "(hop m a b ^^ k') (p, j) (b, e)" using 2(3) t(1) by simp
      moreover have "k' < l" using 1(1) 2(1) by simp
      ultimately obtain k'' j'' where "k'' \<le> k'" "R\<^sup>+\<^sup>+ j j''" "(hop m a b ^^ k'') (r, j'') (b, e)" using less(1) by blast
      then show ?thesis using 1(1,2) 2(1) tranclp_into_tranclp2 [of R i j] by (intro exI [of _ k''] exI [of _ j'']) auto
    qed
  qed
  have ends: "hop m a b (q, j) (r, j)" "hop m a b (q, j) (p, j)" for j using hop_jump [OF assms(3) _ q assms(5)] assms(6) by simp_all
  show "(hop m a b)\<^sup>*\<^sup>* (p, i) (r, j)" if "R\<^sup>+\<^sup>+ i j" for i j
  proof -
    from that have "(hop m a b)\<^sup>*\<^sup>* (p, i) (q, j)"
    proof induction
      case (base j)
      then show ?case using round by blast
    next
      case (step j k)
      then show ?case using round [OF step(2)] ends(2) [of j] by (meson converse_rtranclp_into_rtranclp rtranclp_trans)
    qed
    then show ?thesis using ends(1) by (meson rtranclp.rtrancl_into_rtrancl)
  qed
qed

text \<open>A leaf.\<close>

lemma flag_values: "flag_at m i \<in> {0, BOL, EOL, BOLEOL}"
  by (auto simp: flag_at_def line_flag_def Let_def)

lemma byte_of_char: "word_of_int (char_of_byte b) = b"
  by (simp add: char_of_byte_def)

lemma char_of_byte_eq: "char_of_byte b = char_of_byte c \<longleftrightarrow> b = c"
  using byte_of_char by metis

lemma leaf_hop:
  assumes "strip (m_g m) ! p = (op, n)" "leaf_ok k op n" "a \<le> p" "p < b"
  shows "hop m a b (p, i) (q, j) \<longleftrightarrow> q = p + 1 \<and> leaf_span m op n i j"
proof -
  have flag: "flag_at m i \<noteq> 0 \<and> eats (m_g m) (flag_at m i) p \<longleftrightarrow>
      op = OBOL \<and> flag_at m i \<in> {BOL, BOLEOL} \<or> op = OEOL \<and> flag_at m i \<in> {EOL, BOLEOL}"
    using flag_values [of m i] assms(1) char_byte_bounds [of "of_nat n"] by (auto simp: eats_def Let_def NONCHAR_def split: oper.splits)
  have read: "eats (m_g m) (right_char m i) p \<longleftrightarrow> op = OCHAR \<and> m_buf m ! i = of_nat n \<or> op = OANY
       \<or> op = OANYOF \<and> CHIN (sets (m_g m) ! n) (m_buf m ! i)" if "i < m_endp m"
    using that assms(1) char_byte_bounds [of "m_buf m ! i"]
    by (auto simp: eats_def Let_def NONCHAR_def right_char_def byte_of_char char_of_byte_eq split: oper.splits)
  have "jumps (m_g m) p = {}" using assms(1,2) by (auto simp: jumps_def leaf_ok_def)
  then show ?thesis using flag read assms(3,4) by (auto simp: hop_def leaf_span_def)
qed

lemma exact_leaf:
  assumes "strip (m_g m) ! p = (op, n)" "leaf_ok k op n" "a \<le> p" "p < b"
  shows "exact m a b (leaf_span m op n) p (p + 1)"
proof (rule exactI)
  fix l i e assume "(hop m a b ^^ l) (p, i) (b, e)"
  then obtain k' q' j where "l = Suc k'" "hop m a b (p, i) (q', j)" "(hop m a b ^^ k') (q', j) (b, e)" by (rule first_hop [OF _ assms(4)])
  then show "\<exists>k j. k \<le> l \<and> leaf_span m op n i j \<and> (hop m a b ^^ k) (p + 1, j) (b, e)"
    using leaf_hop [OF assms] by (intro exI [of _ k'] exI [of _ j]) auto
next
  fix i j assume "leaf_span m op n i j"
  then show "(hop m a b)\<^sup>*\<^sup>* (p, i) (p + 1, j)" using leaf_hop [OF assms] by blast
qed

lemma exact_lays:
  "(\<And>t p. t \<in> set ts \<Longrightarrow> placed (m_g m) p (lay t) \<Longrightarrow> a \<le> p \<Longrightarrow> p + length (lay t) \<le> b \<Longrightarrow> exact m a b (tree_span m t) p (p + length (lay t)))
    \<Longrightarrow> placed (m_g m) p (lays ts) \<Longrightarrow> a \<le> p \<Longrightarrow> p + length (lays ts) \<le> b \<Longrightarrow> exact m a b (tree_spans m ts) p (p + length (lays ts))"
proof (induction ts arbitrary: p)
  case Nil
  then show ?case by (simp add: exact_refl)
next
  case (Cons t ts)
  have pl: "placed (m_g m) p (lay t)" "placed (m_g m) (p + length (lay t)) (lays ts)" using Cons(3) by (simp_all add: placed_append)
  have "exact m a b (tree_span m t) p (p + length (lay t))" using Cons(2) [of t p] pl(1) Cons(4,5) by simp
  moreover have "exact m a b (tree_spans m ts) (p + length (lay t)) (p + length (lay t) + length (lays ts))"
    using Cons(2,4,5) pl(2) by (intro Cons(1)) simp_all
  ultimately show ?case using exact_trans by (fastforce simp: add.assoc)
qed

text \<open>The branches after the first: each ends at the \<open>O_CH\<close>.\<close>

lemma more_branches_head: "\<exists>n xs. more_branches (b # bs) = (OOR2, n) # xs"
  by (cases bs) simp_all

lemma last_branches: "\<exists>n. last (more_branches (b # bs)) = (O_CH, n)"
proof (induction bs arbitrary: b)
  case (Cons c bs)
  have "more_branches (c # bs) \<noteq> []" using length_more_branches [of "c # bs"] by force
  then show ?case using Cons [of c] by simp
qed simp

lemma branches_end_op:
  assumes "placed g p (more_branches bs)" "bs \<noteq> []"
  shows "\<exists>n. strip g ! (p + length (more_branches bs) - 1) = (O_CH, n)"
proof -
  obtain c cs where bs: "bs = c # cs" using assms(2) by (cases bs) auto
  let ?more = "more_branches bs"
  have l: "2 \<le> length ?more" using length_more_branches [OF assms(2)] .
  obtain n where "last ?more = (O_CH, n)" using last_branches bs by blast
  moreover have "strip g ! (p + (length ?more - 1)) = ?more ! (length ?more - 1)"
    using placed_nth [OF assms(1), of "length ?more - 1"] l by simp
  moreover have "?more ! (length ?more - 1) = last ?more" using l by (subst last_conv_nth) auto
  moreover have "p + (length ?more - 1) = p + length ?more - 1" using l by simp
  ultimately have "strip g ! (p + length ?more - 1) = (O_CH, n)" by metis
  then show ?thesis by blast
qed

lemma exact_branches:
  "(\<And>ts p. ts \<in> set bs \<Longrightarrow> placed (m_g m) p (lays ts) \<Longrightarrow> a \<le> p \<Longrightarrow> p + length (lays ts) \<le> b \<Longrightarrow> exact m a b (tree_spans m ts) p (p + length (lays ts)))
    \<Longrightarrow> placed (m_g m) p (more_branches (map lays bs)) \<Longrightarrow> a \<le> p \<Longrightarrow> p + length (more_branches (map lays bs)) \<le> b \<Longrightarrow> bs \<noteq> []
    \<Longrightarrow> exact m a b (\<lambda>i j. \<exists>ts \<in> set bs. tree_spans m ts i j) p (p + length (more_branches (map lays bs)))"
proof (induction bs arbitrary: p rule: induct_list012)
  case (2 c)
  let ?n = "length (lays c)"
  have *: "strip (m_g m) ! p = (OOR2, ?n + 1)" "placed (m_g m) (p + 1) (lays c)" "strip (m_g m) ! (p + 1 + ?n) = (O_CH, ?n + 2)"
    using 2(2) placed_one by (auto simp: placed_Cons [of _ _ _ "lays c @ _"] placed_append)
  have j: "jumps (m_g m) p = {p + 1}" "jumps (m_g m) (p + 1 + ?n) = {p + 1 + ?n + 1}" using *(1,3) by (simp_all add: jumps_def)
  have r: "p < b" "p + 1 + ?n < b" "a \<le> p + 1" "a \<le> p + 1 + ?n" "p + 1 + ?n \<le> b" using 2(3,4) by simp_all
  have x: "exact m a b (=) p (p + 1)" by (rule exact_jump [OF *(1) _ 2(3) r(1) j(1)]) simp
  have y: "exact m a b (tree_spans m c) (p + 1) (p + 1 + ?n)" using 2(1) [OF _ *(2)] r by simp
  have z: "exact m a b (=) (p + 1 + ?n) (p + 1 + ?n + 1)" by (rule exact_jump [OF *(3) _ r(4,2) j(2)]) simp
  show ?case using exact_trans [OF x exact_trans [OF y z]] by (simp add: eq_OO OO_eq add.assoc)
next
  case (3 c d bs)
  let ?n = "length (lays c)" and ?more = "more_branches (map lays (d # bs))"
  let ?e = "p + ?n + 2 + length ?more"
  have *: "strip (m_g m) ! p = (OOR2, ?n + 2)" "placed (m_g m) (p + 1) (lays c)" "strip (m_g m) ! (p + 1 + ?n) = (OOR1, ?n + 2)"
    "placed (m_g m) (p + ?n + 2) ?more"
    using 3(4) placed_one by (auto simp: placed_Cons [of _ _ _ "lays c @ _"] placed_append placed_Cons [of _ _ _ "more_branches _"])
  have l: "2 \<le> length ?more" using length_more_branches by simp
  have look: "look_och (m_g m) (p + ?n + 2) = Some (?e - 1)" using look_och_branches [OF *(4)] by simp
  have head: "OP (strip (m_g m) ! (p + ?n + 2)) = OOR2"
  proof -
    obtain n xs where "?more = (OOR2, n) # xs" using more_branches_head [of "lays d" "map lays bs"] by auto
    then have "placed (m_g m) (p + ?n + 2) [(OOR2, n)]" using *(4) placed_Cons by metis
    then show ?thesis using placed_one by fastforce
  qed
  have j: "jumps (m_g m) p = {p + 1, p + ?n + 2}" "jumps (m_g m) (p + 1 + ?n) = {?e - 1}"
    using *(1,3) look head by (simp_all add: jumps_def add.assoc)
  obtain n where o: "strip (m_g m) ! (?e - 1) = (O_CH, n)" using branches_end_op [OF *(4)] by auto
  have e: "a \<le> ?e - 1" "?e - 1 < b" "jumps (m_g m) (?e - 1) = {?e}"
    using 3(5,6) l o by (simp_all add: jumps_def)
  have r: "p < b" "p + 1 + ?n < b" "a \<le> p + 1" "a \<le> p + 1 + ?n" "p + 1 + ?n \<le> b" using 3(5,6) l by simp_all
  have x1: "exact m a b (tree_spans m c) (p + 1) (p + 1 + ?n)" using 3(3) [OF _ *(2)] r by simp
  have x2: "exact m a b (=) (p + 1 + ?n) (?e - 1)" by (rule exact_jump [OF *(3) _ r(4,2) j(2)]) simp
  have x3: "exact m a b (=) (?e - 1) ?e" by (rule exact_jump [OF o _ e]) simp
  have x: "exact m a b (tree_spans m c OO ((=) OO (=))) (p + 1) ?e" using exact_trans [OF x1 exact_trans [OF x2 x3]] .
  have y: "exact m a b (\<lambda>i j. \<exists>ts \<in> set (d # bs). tree_spans m ts i j) (p + ?n + 2) ?e"
    using 3(3,5,6) *(4) by (intro 3(2)) simp_all
  have "exact m a b (\<lambda>i j. (tree_spans m c OO ((=) OO (=))) i j \<or> (\<exists>ts \<in> set (d # bs). tree_spans m ts i j)) p ?e"
    by (rule exact_fork [OF *(1) _ 3(5) r(1) j(1) x y]) simp
  then show ?case by (simp add: eq_OO OO_eq add.assoc)
qed simp

lemma exact_lay:
  "tree_ok k t \<Longrightarrow> placed (m_g m) p (lay t) \<Longrightarrow> a \<le> p \<Longrightarrow> p + length (lay t) \<le> b \<Longrightarrow> exact m a b (tree_span m t) p (p + length (lay t))"
proof (induction t arbitrary: p)
  case (Leaf op n)
  then have "strip (m_g m) ! p = (op, n)" using placed_one [of "m_g m" p "(op, n)"] by simp
  then show ?case using exact_leaf [of m p op n k a b] Leaf by simp
next
  case (Par n xs)
  let ?n = "length (lays xs)"
  have *: "strip (m_g m) ! p = (OLPAREN, n)" "placed (m_g m) (p + 1) (lays xs)" "strip (m_g m) ! (p + 1 + ?n) = (ORPAREN, n)"
    using Par(3) placed_one by (auto simp: placed_Cons [of _ _ _ "_ @ _"] placed_append)
  have j: "jumps (m_g m) p = {p + 1}" "jumps (m_g m) (p + 1 + ?n) = {p + 1 + ?n + 1}" using *(1,3) by (simp_all add: jumps_def)
  have r: "p < b" "p + 1 + ?n < b" "a \<le> p + 1" "a \<le> p + 1 + ?n" "p + 1 + ?n \<le> b" using Par(4,5) by simp_all
  have y: "exact m a b (tree_spans m xs) (p + 1) (p + 1 + ?n)"
    using Par(1,2) by (intro exact_lays [OF _ *(2) r(3,5)]) (auto simp: list_all_iff)
  have x: "exact m a b (=) p (p + 1)" by (rule exact_jump [OF *(1) _ Par(4) r(1) j(1)]) simp
  have z: "exact m a b (=) (p + 1 + ?n) (p + 1 + ?n + 1)" by (rule exact_jump [OF *(3) _ r(4,2) j(2)]) simp
  show ?case using exact_trans [OF x exact_trans [OF y z]] by (simp add: eq_OO OO_eq add.assoc)
next
  case (Loop xs)
  let ?n = "length (lays xs)"
  have *: "strip (m_g m) ! p = (OPLUS, ?n + 1)" "placed (m_g m) (p + 1) (lays xs)" "strip (m_g m) ! (p + 1 + ?n) = (O_PLUS, ?n + 1)"
    using Loop(3) placed_one by (auto simp: Let_def placed_Cons [of _ _ _ "_ @ _"] placed_append)
  have r: "p < p + 1 + ?n" "p + 1 + ?n < b" "a \<le> p + 1" "p + 1 + ?n \<le> b" using Loop(4,5) by (simp_all add: Let_def)
  have y: "exact m a b (tree_spans m xs) (p + 1) (p + 1 + ?n)"
    using Loop(1,2) by (intro exact_lays [OF _ *(2) r(3,4)]) (auto simp: list_all_iff)
  have "jumps (m_g m) (p + 1 + ?n) = {p + 1 + ?n + 1, p}" using *(3) by (simp add: jumps_def)
  from exact_loop [OF y r(1) *(3) Loop(4) r(2) this *(1)] show ?case by (simp add: Let_def add.assoc)
next
  case (Maybe xs)
  let ?n = "length (lays xs)"
  have *: "strip (m_g m) ! p = (OQUEST, ?n + 1)" "placed (m_g m) (p + 1) (lays xs)" "strip (m_g m) ! (p + 1 + ?n) = (O_QUEST, ?n + 1)"
    using Maybe(3) placed_one by (auto simp: Let_def placed_Cons [of _ _ _ "_ @ _"] placed_append)
  have j: "jumps (m_g m) p = {p + 1, p + 1 + ?n}" "jumps (m_g m) (p + 1 + ?n) = {p + 1 + ?n + 1}" using *(1,3) by (auto simp: jumps_def)
  have r: "p < b" "p + 1 + ?n < b" "a \<le> p + 1" "a \<le> p + 1 + ?n" "p + 1 + ?n \<le> b" using Maybe(4,5) by (simp_all add: Let_def)
  have y: "exact m a b (tree_spans m xs) (p + 1) (p + 1 + ?n)"
    using Maybe(1,2) by (intro exact_lays [OF _ *(2) r(3,5)]) (auto simp: list_all_iff)
  have z: "exact m a b (=) (p + 1 + ?n) (p + 1 + ?n + 1)" by (rule exact_jump [OF *(3) _ r(4,2) j(2)]) simp
  have "exact m a b (\<lambda>i j. (tree_spans m xs OO (=)) i j \<or> i = j) p (p + 1 + ?n + 1)"
    by (rule exact_fork [OF *(1) _ Maybe(4) r(1) j(1) exact_trans [OF y z] z]) simp
  then show ?case by (simp add: OO_eq Let_def add.assoc disj_commute)
next
  case (Choice x bs)
  let ?n = "length (lays x)" and ?bs = "map lays bs"
  let ?m = "length (more_branches ?bs)"
  let ?e = "p + ?n + 2 + ?m"
  obtain c cs where bs: "bs = c # cs" using Choice(3) by (cases bs) auto
  have *: "strip (m_g m) ! p = (OCH, ?n + 2)" "placed (m_g m) (p + 1) (lays x)" "strip (m_g m) ! (p + 1 + ?n) = (OOR1, ?n + 1)"
    "placed (m_g m) (p + ?n + 2) (more_branches ?bs)"
    using Choice(4) placed_one
    by (auto simp: Let_def placed_Cons [of _ _ _ "_ @ _"] placed_append placed_Cons [of _ _ _ "more_branches _"])
  have l: "2 \<le> ?m" using length_more_branches bs by simp
  have len: "p + length (lay (Choice x bs)) = ?e" by (simp add: Let_def)
  have look: "look_och (m_g m) (p + ?n + 2) = Some (?e - 1)" using look_och_branches [OF *(4)] bs by simp
  have j: "jumps (m_g m) p = {p + 1, p + ?n + 2}" "jumps (m_g m) (p + 1 + ?n) = {?e - 1}"
    using *(1,3) look by (simp_all add: jumps_def add.assoc)
  obtain n where o: "strip (m_g m) ! (?e - 1) = (O_CH, n)" using branches_end_op [OF *(4)] bs by (auto simp: add.assoc)
  have r: "p < b" "p + 1 + ?n < b" "a \<le> p + 1" "a \<le> p + 1 + ?n" "p + 1 + ?n \<le> b" "a \<le> p + ?n + 2" "?e \<le> b"
    using Choice(5,6) l unfolding len by simp_all
  have e: "a \<le> ?e - 1" "?e - 1 < b" "jumps (m_g m) (?e - 1) = {?e}" using r(4,7) l o by (simp_all add: jumps_def)
  have x1: "exact m a b (tree_spans m x) (p + 1) (p + 1 + ?n)"
    using Choice(1,3) by (intro exact_lays [OF _ *(2) r(3,5)]) (auto simp: list_all_iff)
  have x2: "exact m a b (=) (p + 1 + ?n) (?e - 1)" by (rule exact_jump [OF *(3) _ r(4,2) j(2)]) simp
  have x3: "exact m a b (=) (?e - 1) ?e" by (rule exact_jump [OF o _ e]) simp
  have y: "exact m a b (\<lambda>i j. \<exists>ts \<in> set bs. tree_spans m ts i j) (p + ?n + 2) ?e"
  proof (rule exact_branches [OF _ *(4) r(6,7)])
    fix ts q assume "ts \<in> set bs" "placed (m_g m) q (lays ts)" "a \<le> q" "q + length (lays ts) \<le> b"
    then show "exact m a b (tree_spans m ts) q (q + length (lays ts))"
      using Choice(2,3) by (intro exact_lays) (auto simp: list_all_iff)
  qed (simp add: bs)
  have "exact m a b (\<lambda>i j. (tree_spans m x OO ((=) OO (=))) i j \<or> (\<exists>ts \<in> set bs. tree_spans m ts i j)) p ?e"
    by (rule exact_fork [OF *(1) _ Choice(5) r(1) j(1) exact_trans [OF x1 exact_trans [OF x2 x3]] y]) simp
  then show ?case unfolding len by (simp add: eq_OO OO_eq)
qed

section \<open>What a strip accepts\<close>

lemma accepts_spans:
  assumes "placed (m_g m) a (lays ts)" "list_all (tree_ok k) ts" "e \<le> m_endp m"
  shows "accepts m a (a + length (lays ts)) s e \<longleftrightarrow> tree_spans m ts s e"
proof -
  let ?b = "a + length (lays ts)"
  have x: "exact m a ?b (tree_spans m ts) a ?b"
    using assms(2) by (intro exact_lays [OF _ assms(1)] exact_lay) (auto simp: list_all_iff)
  have stay: "j = e" if path: "(hop m a ?b ^^ l) (?b, j) (?b, e)" for l j
  proof (cases l)
    case (Suc k)
    then obtain y where "hop m a ?b (?b, j) y" using relpowp_Suc_D2 [of k "hop m a ?b"] path by blast
    then show ?thesis by (simp add: hop_def)
  qed (use path in simp)
  have "(hop m a ?b)\<^sup>*\<^sup>* (a, s) (?b, e) \<longleftrightarrow> tree_spans m ts s e"
  proof
    assume "(hop m a ?b)\<^sup>*\<^sup>* (a, s) (?b, e)"
    then obtain l where "(hop m a ?b ^^ l) (a, s) (?b, e)" using rtranclp_imp_relpowp by fast
    then show "tree_spans m ts s e" using exactD [OF x] stay by blast
  next
    assume "tree_spans m ts s e"
    then show "(hop m a ?b)\<^sup>*\<^sup>* (a, s) (?b, e)" by (rule exact_path [OF x])
  qed
  then show ?thesis using accepts_hops [OF assms(3)] by blast
qed

text \<open>The strip that \<open>regcomp\<close> makes.\<close>

lemma accepted_spans:
  assumes "strip (m_g m) = (OEND, 0) # lays ts @ [(OEND, 0)]" "firststate (m_g m) = 0" "laststate (m_g m) = length (lays ts) + 1"
    and "list_all (tree_ok k) ts"
  shows "accepted m s e \<longleftrightarrow> m_beginp m \<le> s \<and> e \<le> m_endp m \<and> tree_spans m ts s e"
proof -
  have "placed (m_g m) 1 (lays ts)" using assms(1) by (simp add: placed_def nstates_def)
  from accepts_spans [OF this assms(4)] show ?thesis using assms(2,3) by (auto simp: accepted_def)
qed

end
