(* ===== verification/Posix_Must.thy ===== *)
theory Posix_Must
  imports Posix_Emits Posix_Language
begin

text \<open>
  \<open>findmust\<close> and \<open>pluscount\<close> on the strips that the parser makes: neither leaves the strip or finds it bad, and the
  string of \<open>findmust\<close> occurs in every match. With it, what \<open>regcomp\<close> returns without an error is fit for
  \<open>regexec\<close>.
\<close>

section \<open>Nesting of pluses\<close>

lemma plus_scan_skip: "OP s \<notin> {OEND, OPLUS, O_PLUS} \<Longrightarrow> plus_scan (s # ops) nest deepest = plus_scan ops nest deepest"
  by simp

definition balanced :: "sop list \<Rightarrow> bool" where
  "balanced xs \<longleftrightarrow> (\<forall>rest nest deepest. \<exists>d. plus_scan (xs @ rest) nest deepest = plus_scan rest nest d)"

lemma balanced_append: "balanced xs \<Longrightarrow> balanced ys \<Longrightarrow> balanced (xs @ ys)"
  unfolding balanced_def append_assoc by metis

lemma balanced_Nil: "balanced []"
  by (auto simp: balanced_def)

lemma balanced_one: "op \<notin> {OEND, OPLUS, O_PLUS} \<Longrightarrow> balanced [(op, n)]"
  by (auto simp: balanced_def)

lemma balanced_Cons: "op \<notin> {OEND, OPLUS, O_PLUS} \<Longrightarrow> balanced xs \<Longrightarrow> balanced ((op, n) # xs)"
  using balanced_append [OF balanced_one] by fastforce

lemma balanced_lays: "(\<And>t. t \<in> set ts \<Longrightarrow> balanced (lay t)) \<Longrightarrow> balanced (lays ts)"
  by (induction ts) (simp_all add: balanced_Nil balanced_append)

lemma balanced_branches: "(\<And>b. b \<in> set bs \<Longrightarrow> balanced b) \<Longrightarrow> balanced (more_branches bs)"
  by (induction bs rule: more_branches.induct)
    (simp_all add: balanced_Nil balanced_Cons balanced_append balanced_one)

lemma balanced_lay: "tree_ok k t \<Longrightarrow> balanced (lay t)"
proof (induction t)
  case (Leaf op n)
  then show ?case by (auto simp: leaf_ok_def balanced_one)
next
  case (Par n xs)
  then have "balanced (lays xs)" by (intro balanced_lays) (auto simp: list_all_iff)
  then show ?case by (simp add: balanced_Cons balanced_append balanced_one)
next
  case (Loop xs)
  then have b: "balanced (lays xs)" by (intro balanced_lays) (auto simp: list_all_iff)
  show ?case unfolding balanced_def
  proof (intro allI)
    fix rest nest deepest
    obtain d where "plus_scan (lays xs @ (O_PLUS, length (lays xs) + 1) # rest) (nest + 1) deepest
        = plus_scan ((O_PLUS, length (lays xs) + 1) # rest) (nest + 1) d"
      using b unfolding balanced_def by blast
    then show "\<exists>d. plus_scan (lay (Loop xs) @ rest) nest deepest = plus_scan rest nest d" by (auto simp: Let_def)
  qed
next
  case (Maybe xs)
  then have "balanced (lays xs)" by (intro balanced_lays) (auto simp: list_all_iff)
  then show ?case by (simp add: Let_def balanced_Cons balanced_append balanced_one)
next
  case (Choice x bs)
  then have "balanced (lays x)" by (intro balanced_lays) (auto simp: list_all_iff)
  moreover have "balanced (lays b)" if "b \<in> set bs" for b using that Choice by (intro balanced_lays) (auto simp: list_all_iff)
  then have "balanced (more_branches (map lays bs))" by (intro balanced_branches) auto
  ultimately show ?case by (simp add: Let_def balanced_Cons balanced_append)
qed

lemma pluscount_ok:
  assumes "p_error p = 0 \<Longrightarrow> p_strip p = (OEND, 0) # lays ts @ [(OEND, 0)] \<and> list_all (tree_ok k) ts"
  shows "\<exists>d. pluscount p = Some (d, p)"
proof (cases "p_error p = 0")
  case True
  have "balanced (lays ts)" using assms [OF True] by (intro balanced_lays balanced_lay) (auto simp: list_all_iff)
  then obtain d where "plus_scan (lays ts @ [(OEND, 0)]) 0 0 = plus_scan [(OEND, 0)] 0 d" unfolding balanced_def by blast
  then show ?thesis using assms True by (simp add: pluscount_def)
next
  case False
  then show ?thesis by (simp add: pluscount_def)
qed

section \<open>The scan for the longest run of characters\<close>

lemma skip_one:
  assumes "scan + n < length ops" "ops ! (scan + n) = (op, k)" "op \<in> {O_QUEST, O_CH}"
  shows "skip_choice ops scan n = Some (Some (scan + n))"
  using assms by (subst skip_choice.simps) auto

lemma skip_branches:
  "placed g p (more_branches bs) \<Longrightarrow> bs \<noteq> [] \<Longrightarrow> s + n = p \<Longrightarrow> skip_choice (strip g) s n = Some (Some (p + length (more_branches bs) - 1))"
proof (induction bs arbitrary: p s n rule: more_branches.induct)
  case (2 b)
  then have *: "placed g p [(OOR2, length b + 1)]" "placed g (p + (length b + 1)) [(O_CH, length b + 2)]"
    by (auto simp: placed_Cons [of _ _ _ "b @ _"] placed_append)
  have "skip_choice (strip g) p (length b + 1) = Some (Some (p + (length b + 1)))"
    using placed_one [OF *(2)] by (intro skip_one) (auto simp: nstates_def)
  then show ?case using 2(3) placed_one [OF *(1)] by (subst skip_choice.simps) (simp add: nstates_def)
next
  case (3 b b' bs)
  then have *: "placed g p [(OOR2, length b + 2)]" "placed g (p + (length b + 2)) (more_branches (b' # bs))"
    by (auto simp: placed_Cons [of _ _ _ "b @ _"] placed_append placed_Cons [of _ _ _ "more_branches _"])
  have "skip_choice (strip g) p (length b + 2) = Some (Some (p + (length b + 2) + length (more_branches (b' # bs)) - 1))"
    using 3(1) [OF *(2)] by simp
  then show ?case using 3(4) placed_one [OF *(1)] length_more_branches [of "b' # bs"] by (subst skip_choice.simps) (simp add: nstates_def)
qed simp

definition ended :: "nat \<times> nat \<Rightarrow> nat \<times> nat \<Rightarrow> nat \<times> nat" where
  "ended new best = (if snd new > snd best then new else best)"

text \<open>The turns of the loop.\<close>

lemma scan_char: "placed g p [(OCHAR, n)] \<Longrightarrow> must_scan (strip g) p new best
    = must_scan (strip g) (p + 1) (if snd new = 0 then p else fst new, snd new + 1) best"
  using placed_one [of g p] by (subst must_scan.simps) (auto simp: nstates_def)

lemma scan_pass: "placed g p [(op, n)] \<Longrightarrow> op \<in> {OPLUS, OLPAREN, ORPAREN} \<Longrightarrow> must_scan (strip g) p new best = must_scan (strip g) (p + 1) new best"
  using placed_one [of g p] by (subst must_scan.simps) (auto simp: nstates_def)

lemma scan_break: "placed g p [(op, n)] \<Longrightarrow> op \<notin> {OCHAR, OPLUS, OLPAREN, ORPAREN, OQUEST, OCH, OEND} \<Longrightarrow>
    must_scan (strip g) p new best = must_scan (strip g) (p + 1) (fst new, 0) (ended new best)"
  using placed_one [of g p] by (subst must_scan.simps) (auto simp: nstates_def ended_def)

lemma scan_skip: "placed g p [(op, n)] \<Longrightarrow> op \<in> {OQUEST, OCH} \<Longrightarrow> skip_choice (strip g) p n = Some (Some q) \<Longrightarrow>
    must_scan (strip g) p new best = must_scan (strip g) q (fst new, 0) (ended new best)"
  using placed_one [of g p] by (subst must_scan.simps) (auto simp: nstates_def ended_def)

lemma must_scan_end: "placed g p [(OEND, n)] \<Longrightarrow> must_scan (strip g) p new best = Some (Some (ended new best))"
  using placed_one [of g p] by (subst must_scan.simps) (auto simp: nstates_def ended_def)

section \<open>The string that every match contains\<close>

definition chars_of :: "sop list \<Rightarrow> byte list" where
  "chars_of xs = map (\<lambda>s. of_nat (OPND s)) (filter (\<lambda>s. OP s = OCHAR) xs)"

lemma chars_of_simps [simp]: "chars_of [] = []" "chars_of (xs @ ys) = chars_of xs @ chars_of ys"
  "chars_of (s # xs) = (if OP s = OCHAR then of_nat (OPND s) # chars_of xs else chars_of xs)"
  by (simp_all add: chars_of_def)

lemma copy_chars_prefix: "copy_chars (length (chars_of xs)) (xs @ ys) = Some (chars_of xs)"
proof (induction xs)
  case (Cons s xs)
  then show ?case by (cases "length (chars_of xs)") auto
qed simp

definition occurs_at :: "matchst \<Rightarrow> byte list \<Rightarrow> nat \<Rightarrow> bool" where
  "occurs_at m w d \<longleftrightarrow> take (length w) (drop d (m_buf m)) = w"

lemma occurs_snoc: "occurs_at m w d \<Longrightarrow> d + length w < length (m_buf m) \<Longrightarrow> occurs_at m (w @ [m_buf m ! (d + length w)]) d"
  by (simp add: occurs_at_def take_Suc_conv_app_nth)

text \<open>
  \<open>R\<close> relates the start of a match to where it can be when the scan is at \<open>p\<close>. The present run has just been
  matched then, and the best run somewhere before.
\<close>

definition run_inv :: "matchst \<Rightarrow> sop list \<Rightarrow> (nat \<Rightarrow> nat \<Rightarrow> bool) \<Rightarrow> nat \<Rightarrow> nat \<times> nat \<Rightarrow> bool" where
  "run_inv m ops R p new \<longleftrightarrow> snd new = 0 \<or> (\<exists>w. fst new \<le> p \<and> w = chars_of (take (p - fst new) (drop (fst new) ops)) \<and> length w = snd new
     \<and> (\<forall>s i. R s i \<longrightarrow> s + length w \<le> i \<and> occurs_at m w (i - length w)))"

definition best_inv :: "matchst \<Rightarrow> sop list \<Rightarrow> (nat \<Rightarrow> nat \<Rightarrow> bool) \<Rightarrow> nat \<times> nat \<Rightarrow> bool" where
  "best_inv m ops R best \<longleftrightarrow> (\<exists>w. length w = snd best \<and> copy_chars (snd best) (drop (fst best) ops) = Some w
     \<and> (\<forall>s i. R s i \<longrightarrow> (\<exists>d. s \<le> d \<and> d + length w \<le> i \<and> occurs_at m w d)))"

definition must_inv :: "matchst \<Rightarrow> sop list \<Rightarrow> (nat \<Rightarrow> nat \<Rightarrow> bool) \<Rightarrow> nat \<Rightarrow> nat \<times> nat \<Rightarrow> nat \<times> nat \<Rightarrow> bool" where
  "must_inv m ops R p new best \<longleftrightarrow> (\<forall>s i. R s i \<longrightarrow> s \<le> i) \<and> run_inv m ops R p new \<and> best_inv m ops R best"

lemma best_later:
  assumes "best_inv m ops R best" "\<And>i j. S i j \<Longrightarrow> i \<le> j"
  shows "best_inv m ops (R OO S) best"
proof -
  obtain w where w: "length w = snd best" "copy_chars (snd best) (drop (fst best) ops) = Some w"
    "\<And>s i. R s i \<Longrightarrow> \<exists>d. s \<le> d \<and> d + length w \<le> i \<and> occurs_at m w d" using assms(1) unfolding best_inv_def by blast
  have "\<exists>d. s \<le> d \<and> d + length w \<le> j \<and> occurs_at m w d" if "R s i" "S i j" for s i j
    using w(3) [OF that(1)] assms(2) [OF that(2)] by (meson order.trans)
  then show ?thesis unfolding best_inv_def using w(1,2) by blast
qed

lemma ended_inv:
  assumes "run_inv m ops R p new" "best_inv m ops R best"
  shows "best_inv m ops R (ended new best)"
proof (cases "snd new > snd best")
  case True
  let ?xs = "take (p - fst new) (drop (fst new) ops)"
  obtain w where w: "w = chars_of ?xs" "length w = snd new" "\<And>s i. R s i \<Longrightarrow> s + length w \<le> i \<and> occurs_at m w (i - length w)"
    using assms(1) True unfolding run_inv_def by auto
  have "copy_chars (length (chars_of ?xs)) (?xs @ drop (p - fst new) (drop (fst new) ops)) = Some (chars_of ?xs)"
    by (rule copy_chars_prefix)
  then have "copy_chars (snd new) (drop (fst new) ops) = Some w"
    using w(1,2) by (simp del: drop_drop)
  moreover have "\<exists>d. s \<le> d \<and> d + length w \<le> i \<and> occurs_at m w d" if "R s i" for s i
    using w(3) [OF that] by (intro exI [of _ "i - length w"]) auto
  ultimately show ?thesis using True w(2) unfolding best_inv_def ended_def by auto
next
  case False
  then show ?thesis using assms(2) by (simp add: ended_def)
qed

text \<open>The scan gets from \<open>p\<close> to \<open>q\<close> while the match goes on by \<open>S\<close>.\<close>

definition scanned :: "matchst \<Rightarrow> re_guts \<Rightarrow> (nat \<Rightarrow> nat \<Rightarrow> bool) \<Rightarrow> nat \<Rightarrow> nat \<Rightarrow> bool" where
  "scanned m g S p q \<longleftrightarrow> (\<forall>R new best. must_inv m (strip g) R p new best \<longrightarrow>
     (\<exists>new' best'. must_scan (strip g) p new best = must_scan (strip g) q new' best' \<and> must_inv m (strip g) (R OO S) q new' best'))"

lemma scannedI:
  assumes "\<And>R new best. (\<And>s i. R s i \<Longrightarrow> s \<le> i) \<Longrightarrow> run_inv m (strip g) R p new \<Longrightarrow> best_inv m (strip g) R best \<Longrightarrow>
     \<exists>new' best'. must_scan (strip g) p new best = must_scan (strip g) q new' best' \<and> must_inv m (strip g) (R OO S) q new' best'"
  shows "scanned m g S p q"
  using assms unfolding scanned_def must_inv_def by simp

lemma scanned_refl: "scanned m g (=) p p"
  by (auto simp: scanned_def OO_eq)

lemma scanned_trans:
  assumes "scanned m g S p q" "scanned m g T q r"
  shows "scanned m g (S OO T) p r"
  unfolding scanned_def
proof (intro allI impI)
  fix R new best assume "must_inv m (strip g) R p new best"
  then obtain new' best' where 1: "must_scan (strip g) p new best = must_scan (strip g) q new' best'" "must_inv m (strip g) (R OO S) q new' best'"
    using assms(1) unfolding scanned_def by blast
  then obtain new'' best'' where "must_scan (strip g) q new' best' = must_scan (strip g) r new'' best''"
    "must_inv m (strip g) ((R OO S) OO T) r new'' best''"
    using assms(2) unfolding scanned_def by blast
  then show "\<exists>new' best'. must_scan (strip g) p new best = must_scan (strip g) r new' best' \<and> must_inv m (strip g) (R OO S OO T) r new' best'"
    using 1(1) relcompp_assoc [of R S T] by metis
qed

lemma scanned_pass:
  assumes "placed g p [(op, n)]" "op \<in> {OPLUS, OLPAREN, ORPAREN}"
  shows "scanned m g (=) p (p + 1)"
proof (rule scannedI)
  fix R :: "nat \<Rightarrow> nat \<Rightarrow> bool" and new best
  assume *: "\<And>s i. R s i \<Longrightarrow> s \<le> i" "run_inv m (strip g) R p new" "best_inv m (strip g) R best"
  have at: "strip g ! p = (op, n)" "p < length (strip g)" using placed_one [OF assms(1)] by (simp_all add: nstates_def)
  have "run_inv m (strip g) R (p + 1) new"
  proof (cases "snd new = 0")
    case False
    then have "fst new \<le> p" using *(2) by (auto simp: run_inv_def)
    then have "take (p + 1 - fst new) (drop (fst new) (strip g)) = take (p - fst new) (drop (fst new) (strip g)) @ [(op, n)]"
      using at by (simp add: Suc_diff_le take_Suc_conv_app_nth)
    then show ?thesis using *(2) assms(2) \<open>fst new \<le> p\<close> by (auto simp: run_inv_def)
  qed (simp add: run_inv_def)
  then have "must_inv m (strip g) (R OO (=)) (p + 1) new best" using * by (simp add: must_inv_def OO_eq)
  then show "\<exists>new' best'. must_scan (strip g) p new best = must_scan (strip g) (p + 1) new' best' \<and> must_inv m (strip g) (R OO (=)) (p + 1) new' best'"
    using scan_pass [OF assms] by blast
qed

lemma reset_inv:
  assumes "\<And>s i. R s i \<Longrightarrow> s \<le> i" "run_inv m ops R p new" "best_inv m ops R best" "\<And>i j. S i j \<Longrightarrow> i \<le> j"
  shows "must_inv m ops (R OO S) q (fst new, 0) (ended new best)"
proof -
  have "best_inv m ops (R OO S) (ended new best)" using ended_inv [OF assms(2,3)] assms(4) by (rule best_later)
  moreover have "s \<le> j" if RS: "(R OO S) s j" for s j
  proof -
    obtain i where "R s i" "S i j" using RS by blast
    then show ?thesis using assms(1) [of s i] assms(4) [of i j] by simp
  qed
  ultimately show ?thesis by (simp add: must_inv_def run_inv_def)
qed

lemma scanned_break:
  assumes "placed g p [(op, n)]" "op \<notin> {OCHAR, OPLUS, OLPAREN, ORPAREN, OQUEST, OCH, OEND}" "\<And>i j. S i j \<Longrightarrow> i \<le> j"
  shows "scanned m g S p (p + 1)"
proof (rule scannedI)
  fix R :: "nat \<Rightarrow> nat \<Rightarrow> bool" and new best
  assume "\<And>s i. R s i \<Longrightarrow> s \<le> i" "run_inv m (strip g) R p new" "best_inv m (strip g) R best"
  from reset_inv [OF this assms(3), where q = "p + 1"]
  show "\<exists>new' best'. must_scan (strip g) p new best = must_scan (strip g) (p + 1) new' best' \<and> must_inv m (strip g) (R OO S) (p + 1) new' best'"
    using scan_break [OF assms(1,2), of new best] by blast
qed

lemma scanned_skip:
  assumes "placed g p [(op, n)]" "op \<in> {OQUEST, OCH}" "skip_choice (strip g) p n = Some (Some q)"
  shows "scanned m g (=) p q"
proof (rule scannedI)
  fix R :: "nat \<Rightarrow> nat \<Rightarrow> bool" and new best
  assume "\<And>s i. R s i \<Longrightarrow> s \<le> i" "run_inv m (strip g) R p new" "best_inv m (strip g) R best"
  from reset_inv [OF this, where S = "(=)" and q = q]
  show "\<exists>new' best'. must_scan (strip g) p new best = must_scan (strip g) q new' best' \<and> must_inv m (strip g) (R OO (=)) q new' best'"
    using scan_skip [OF assms, of new best] by blast
qed

lemma scanned_char:
  assumes "placed g p [(OCHAR, n)]" "subject_ok m"
  shows "scanned m g (leaf_span m OCHAR n) p (p + 1)"
proof (rule scannedI)
  fix R :: "nat \<Rightarrow> nat \<Rightarrow> bool" and new best
  assume *: "\<And>s i. R s i \<Longrightarrow> s \<le> i" "run_inv m (strip g) R p new" "best_inv m (strip g) R best"
  let ?new = "(if snd new = 0 then p else fst new, snd new + 1)" and ?c = "of_nat n :: byte" and ?S = "leaf_span m OCHAR n"
  have at: "strip g ! p = (OCHAR, n)" "p < length (strip g)" using placed_one [OF assms(1)] by (simp_all add: nstates_def)
  have S: "j = i + 1 \<and> i < length (m_buf m) \<and> m_buf m ! i = ?c" if "?S i j" for i j
    using that assms(2) by (auto simp: leaf_span_def subject_ok_def)
  obtain w where w: "fst ?new \<le> p" "chars_of (take (p - fst ?new) (drop (fst ?new) (strip g))) = w" "length w = snd new"
    "\<And>s i. R s i \<Longrightarrow> s + length w \<le> i \<and> occurs_at m w (i - length w)"
  proof (cases "snd new = 0")
    case True
    then show ?thesis using that [of "[]"] *(1) by (simp add: occurs_at_def)
  next
    case False
    then show ?thesis using that *(2) by (auto simp: run_inv_def)
  qed
  have "take (p + 1 - fst ?new) (drop (fst ?new) (strip g)) = take (p - fst ?new) (drop (fst ?new) (strip g)) @ [(OCHAR, n)]"
    using at w(1) by (simp add: Suc_diff_le take_Suc_conv_app_nth)
  then have "chars_of (take (p + 1 - fst ?new) (drop (fst ?new) (strip g))) = w @ [?c]" using w(2) by simp
  moreover have "s + length (w @ [?c]) \<le> j \<and> occurs_at m (w @ [?c]) (j - length (w @ [?c]))" if "(R OO ?S) s j" for s j
  proof -
    obtain i where i: "R s i" "?S i j" using \<open>(R OO ?S) s j\<close> by blast
    have "s + length w \<le> i" "occurs_at m w (i - length w)" using w(4) [OF i(1)] by simp_all
    then show ?thesis using S [OF i(2)] occurs_snoc [of m w "i - length w"] by simp
  qed
  ultimately have "run_inv m (strip g) (R OO ?S) (p + 1) ?new"
    using w(1,3) unfolding run_inv_def by (intro disjI2 exI [of _ "w @ [?c]"]) auto
  moreover have "best_inv m (strip g) (R OO ?S) best" using best_later [OF *(3)] S by (metis le_add1)
  moreover have "s \<le> j" if "(R OO ?S) s j" for s j
  proof -
    obtain i where "R s i" "?S i j" using \<open>(R OO ?S) s j\<close> by blast
    then show ?thesis using *(1) [of s i] S [of i j] by simp
  qed
  ultimately have "must_inv m (strip g) (R OO ?S) (p + 1) ?new best" by (simp add: must_inv_def)
  then show "\<exists>new' best'. must_scan (strip g) p new best = must_scan (strip g) (p + 1) new' best' \<and> must_inv m (strip g) (R OO ?S) (p + 1) new' best'"
    using scan_char [OF assms(1)] by blast
qed

section \<open>Trees\<close>

lemma spans_mono: "(\<And>t i j. t \<in> set ts \<Longrightarrow> tree_span m t i j \<Longrightarrow> i \<le> j) \<Longrightarrow> tree_spans m ts i j \<Longrightarrow> i \<le> j"
proof (induction ts arbitrary: i)
  case (Cons t ts)
  then obtain k where k: "tree_span m t i k" "tree_spans m ts k j" by auto
  have "i \<le> k" using Cons(2) [of t i k] k(1) by simp
  moreover have "k \<le> j" using Cons(1) [OF _ k(2)] Cons(2) by (meson list.set_intros(2))
  ultimately show ?case by simp
qed simp

lemma span_mono: "tree_span m t i j \<Longrightarrow> i \<le> j"
proof (induction t arbitrary: i j)
  case (Leaf op n)
  then show ?case by (auto simp: leaf_span_def)
next
  case (Par n xs)
  then have "tree_spans m xs i j" by simp
  then show ?case using spans_mono [of xs m i j] Par(1) by blast
next
  case (Loop xs)
  from Loop(2) have "(tree_spans m xs)\<^sup>+\<^sup>+ i j" by simp
  then show ?case
  proof induction
    case (base j)
    then show ?case using spans_mono [of xs m i j] Loop(1) by blast
  next
    case (step j k)
    then have "j \<le> k" using spans_mono [of xs m j k] Loop(1) by blast
    then show ?case using step(3) by simp
  qed
next
  case (Maybe xs)
  then have "i = j \<or> tree_spans m xs i j" by simp
  then show ?case using spans_mono [of xs m i j] Maybe(1) by blast
next
  case (Choice x bs)
  then have "i \<le> j" if "tree_spans m x i j" using spans_mono [of x m i j] that by blast
  moreover have "i \<le> j" if "b \<in> set bs" "tree_spans m b i j" for b using spans_mono [of b m i j] that Choice(2) by blast
  ultimately show ?case using Choice(3) by auto
qed

lemma scanned_lays:
  "(\<And>t p. t \<in> set ts \<Longrightarrow> placed g p (lay t) \<Longrightarrow> scanned m g (tree_span m t) p (p + length (lay t))) \<Longrightarrow> placed g p (lays ts)
    \<Longrightarrow> scanned m g (tree_spans m ts) p (p + length (lays ts))"
proof (induction ts arbitrary: p)
  case Nil
  then show ?case by (simp add: scanned_refl)
next
  case (Cons t ts)
  have pl: "placed g p (lay t)" "placed g (p + length (lay t)) (lays ts)" using Cons(3) by (simp_all add: placed_append)
  have a: "scanned m g (tree_span m t) p (p + length (lay t))" using Cons(2) [of t p] pl(1) by simp
  have b: "scanned m g (tree_spans m ts) (p + length (lay t)) (p + length (lay t) + length (lays ts))"
    using Cons(1) [OF _ pl(2)] Cons(2) by simp
  show ?case using scanned_trans [OF a b] by (simp add: add.assoc)
qed

lemma branches_end_placed:
  assumes "placed g p (more_branches bs)" "bs \<noteq> []"
  shows "\<exists>n. placed g (p + length (more_branches bs) - 1) [(O_CH, n)]"
proof -
  have l: "2 \<le> length (more_branches bs)" using length_more_branches [OF assms(2)] .
  let ?q = "p + length (more_branches bs) - 1"
  obtain n where "strip g ! ?q = (O_CH, n)" using branches_end_op [OF assms] by blast
  moreover have "?q < length (strip g)" using assms(1) l by (auto simp: placed_def nstates_def)
  ultimately have "placed g ?q [(O_CH, n)]" by (simp add: placed_def nstates_def take_Suc_conv_app_nth)
  then show ?thesis by blast
qed

lemma scanned_lay:
  assumes "subject_ok m"
  shows "tree_ok k t \<Longrightarrow> placed g p (lay t) \<Longrightarrow> scanned m g (tree_span m t) p (p + length (lay t))"
proof (induction t arbitrary: p)
  case (Leaf op n)
  then have pl: "placed g p [(op, n)]" by simp
  show ?case
  proof (cases "op = OCHAR")
    case True
    then show ?thesis using scanned_char [of g p n m] pl assms by simp
  next
    case False
    have "scanned m g (leaf_span m op n) p (p + 1)"
    proof (rule scanned_break [OF pl])
      show "op \<notin> {OCHAR, OPLUS, OLPAREN, ORPAREN, OQUEST, OCH, OEND}" using Leaf(1) False by (auto simp: leaf_ok_def)
    qed (auto simp: leaf_span_def)
    then show ?thesis by simp
  qed
next
  case (Par n xs)
  let ?n = "length (lays xs)"
  have *: "placed g p [(OLPAREN, n)]" "placed g (p + 1) (lays xs)" "placed g (p + 1 + ?n) [(ORPAREN, n)]"
    using Par(3) by (auto simp: placed_Cons [of _ _ _ "_ @ _"] placed_append)
  have x: "scanned m g (=) p (p + 1)" by (rule scanned_pass [OF *(1)]) simp
  have y: "scanned m g (tree_spans m xs) (p + 1) (p + 1 + ?n)"
    using Par(1,2) by (intro scanned_lays [OF _ *(2)]) (auto simp: list_all_iff)
  have z: "scanned m g (=) (p + 1 + ?n) (p + 1 + ?n + 1)" by (rule scanned_pass [OF *(3)]) simp
  show ?case using scanned_trans [OF x scanned_trans [OF y z]] by (simp add: eq_OO OO_eq add.assoc)
next
  case (Loop xs)
  let ?n = "length (lays xs)"
  have *: "placed g p [(OPLUS, ?n + 1)]" "placed g (p + 1) (lays xs)" "placed g (p + 1 + ?n) [(O_PLUS, ?n + 1)]"
    using Loop(3) by (auto simp: Let_def placed_Cons [of _ _ _ "_ @ _"] placed_append)
  have x: "scanned m g (=) p (p + 1)" by (rule scanned_pass [OF *(1)]) simp
  have y: "scanned m g (tree_spans m xs) (p + 1) (p + 1 + ?n)"
    using Loop(1,2) by (intro scanned_lays [OF _ *(2)]) (auto simp: list_all_iff)
  have z: "scanned m g ((tree_spans m xs)\<^sup>*\<^sup>*) (p + 1 + ?n) (p + 1 + ?n + 1)"
  proof (rule scanned_break [OF *(3)])
    fix i j assume "(tree_spans m xs)\<^sup>*\<^sup>* i j"
    then show "i \<le> j" by induction (use spans_mono [of xs m] span_mono order.trans in blast)+
  qed simp
  have "tree_spans m xs OO (tree_spans m xs)\<^sup>*\<^sup>* = (tree_spans m xs)\<^sup>+\<^sup>+" by (auto simp: fun_eq_iff dest: rtranclpD tranclpD intro: rtranclp_into_tranclp2)
  then show ?case using scanned_trans [OF x scanned_trans [OF y z]] by (simp add: eq_OO Let_def add.assoc)
next
  case (Maybe xs)
  let ?n = "length (lays xs)"
  have *: "placed g p [(OQUEST, ?n + 1)]" "placed g (p + (?n + 1)) [(O_QUEST, ?n + 1)]"
    using Maybe(3) by (auto simp: Let_def placed_Cons [of _ _ _ "_ @ _"] placed_append)
  have skip: "skip_choice (strip g) p (?n + 1) = Some (Some (p + (?n + 1)))"
    using placed_one [OF *(2)] by (intro skip_one) (auto simp: nstates_def)
  have x: "scanned m g (=) p (p + (?n + 1))" by (rule scanned_skip [OF *(1) _ skip]) simp
  have "scanned m g (tree_span m (Maybe xs)) (p + (?n + 1)) (p + (?n + 1) + 1)" by (rule scanned_break [OF *(2)]) (simp, rule span_mono)
  then show ?case using scanned_trans [OF x] by (simp add: eq_OO Let_def add.assoc)
next
  case (Choice x bs)
  let ?n = "length (lays x)" and ?bs = "map lays bs"
  let ?e = "p + ?n + 2 + length (more_branches ?bs)"
  have bs: "?bs \<noteq> []" using Choice(3) by simp
  have *: "placed g p [(OCH, ?n + 2)]" "placed g (p + ?n + 2) (more_branches ?bs)"
    using Choice(4) by (auto simp: Let_def placed_Cons [of _ _ _ "_ @ _"] placed_append placed_Cons [of _ _ _ "more_branches _"])
  have l: "2 \<le> length (more_branches ?bs)" using length_more_branches [OF bs] .
  have skip: "skip_choice (strip g) p (?n + 2) = Some (Some (?e - 1))" using skip_branches [OF *(2) bs, of p "?n + 2"] by simp
  have y: "scanned m g (=) p (?e - 1)" by (rule scanned_skip [OF *(1) _ skip]) simp
  obtain k where "placed g (?e - 1) [(O_CH, k)]" using branches_end_placed [OF *(2) bs] by blast
  then have z: "scanned m g (tree_span m (Choice x bs)) (?e - 1) (?e - 1 + 1)" by (rule scanned_break) (simp, rule span_mono)
  have "p + length (lay (Choice x bs)) = ?e - 1 + 1" using l by (simp add: Let_def)
  then show ?case using scanned_trans [OF y z] by (simp only: eq_OO)
qed

text \<open>The whole strip.\<close>

lemma must_scan_ok:
  fixes g :: re_guts
  assumes "strip g = (OEND, 0) # lays ts @ [(OEND, 0)]" "list_all (tree_ok k) ts" "subject_ok m"
  shows "\<exists>best. must_scan (strip g) 1 (0, 0) (0, 0) = Some (Some best) \<and> best_inv m (strip g) (tree_spans m ts) best"
proof -
  have pl: "placed g 1 (lays ts)" "placed g (1 + length (lays ts)) [(OEND, 0)]" using assms(1) by (simp_all add: placed_def nstates_def)
  have "scanned m g (tree_spans m ts) 1 (1 + length (lays ts))"
    using assms(2) by (intro scanned_lays [OF _ pl(1)] scanned_lay [OF assms(3)]) (auto simp: list_all_iff)
  moreover have "must_inv m (strip g) (=) 1 (0, 0) (0, 0)" by (auto simp: must_inv_def run_inv_def best_inv_def occurs_at_def)
  ultimately obtain new best where "must_scan (strip g) 1 (0, 0) (0, 0) = must_scan (strip g) (1 + length (lays ts)) new best"
    "must_inv m (strip g) ((=) OO tree_spans m ts) (1 + length (lays ts)) new best" unfolding scanned_def by blast
  moreover from this have "best_inv m (strip g) (tree_spans m ts) (ended new best)"
    using ended_inv unfolding must_inv_def eq_OO by blast
  ultimately show ?thesis using must_scan_end [OF pl(2)] by auto
qed

section \<open>What \<open>regcomp\<close> returns\<close>

lemma categorize_fields: "\<exists>n cats. categorize p = p\<lparr> p_ncats := n, p_cats := cats \<rparr>"
proof -
  have one: "\<exists>n cats. categorize_char c (p\<lparr> p_ncats := k, p_cats := ks \<rparr>) = p\<lparr> p_ncats := n, p_cats := cats \<rparr>" for c k ks
    by (auto simp: categorize_char_def Let_def)
  have "\<exists>n cats. fold categorize_char cs (p\<lparr> p_ncats := k, p_cats := ks \<rparr>) = p\<lparr> p_ncats := n, p_cats := cats \<rparr>" for cs k ks
  proof (induction cs arbitrary: k ks)
    case (Cons c cs)
    obtain n cats where "categorize_char c (p\<lparr> p_ncats := k, p_cats := ks \<rparr>) = p\<lparr> p_ncats := n, p_cats := cats \<rparr>" using one by blast
    then show ?case using Cons by simp
  qed auto
  from this [where cs = "[- 128 .. 127]" and k = "p_ncats p" and ks = "p_cats p"] have "\<exists>n cats. fold categorize_char [- 128 .. 127] p = p\<lparr> p_ncats := n, p_cats := cats \<rparr>"
    by simp
  moreover have "\<exists>n cats. p = p\<lparr> p_ncats := n, p_cats := cats \<rparr>" by (intro exI [of _ "p_ncats p"] exI [of _ "p_cats p"]) simp
  ultimately show ?thesis by (simp add: categorize_def)
qed

text \<open>The string \<open>w\<close> is in every tree_span of the trees.\<close>

definition must_in :: "ptree list \<Rightarrow> byte list option \<Rightarrow> bool" where
  "must_in ts w \<longleftrightarrow> (\<forall>v m s e. w = Some v \<and> subject_ok m \<and> tree_spans m ts s e \<longrightarrow>
     v \<noteq> [] \<and> (\<exists>d. s \<le> d \<and> d + length v \<le> e \<and> occurs_at m v d))"

lemma findmust_ok:
  assumes "ample mem" and strip: "p_error p = 0 \<Longrightarrow> p_strip p = (OEND, 0) # lays ts @ [(OEND, 0)] \<and> list_all (tree_ok k) ts"
  shows "\<exists>w n. findmust mem p = Some (w, p\<lparr> p_calls := n \<rparr>) \<and> (p_error p = 0 \<longrightarrow> must_in ts w)"
proof (cases "p_error p = 0")
  case True
  define g where "g = guts_of p 0 None 0"
  have g: "strip g = p_strip p" by (simp add: g_def guts_of_def)
  have st: "strip g = (OEND, 0) # lays ts @ [(OEND, 0)]" and ok: "list_all (tree_ok k) ts" using strip [OF True] g by simp_all
  have scan: "\<exists>best. must_scan (p_strip p) 1 (0, 0) (0, 0) = Some (Some best) \<and> best_inv m (p_strip p) (tree_spans m ts) best"
    if "subject_ok m" for m using must_scan_ok [OF st ok that] g by simp
  have sub: "subject_ok (subject (\<lambda>_. False) g [] [] 0)" by code_simp
  obtain best where best: "must_scan (p_strip p) 1 (0, 0) (0, 0) = Some (Some best)" "\<exists>w. copy_chars (snd best) (drop (fst best) (p_strip p)) = Some w \<and> length w = snd best"
    using scan [OF sub] unfolding best_inv_def by blast
  have inv: "best_inv m (p_strip p) (tree_spans m ts) best" if "subject_ok m" for m using scan [OF that] best(1) by auto
  obtain start n where b: "best = (start, n)" by fastforce
  obtain w where w: "copy_chars n (drop start (p_strip p)) = Some w" "length w = n" using best(2) b by auto
  show ?thesis
  proof (cases "n = 0")
    case n: True
    then have "findmust mem p = Some (None, p\<lparr> p_calls := p_calls p \<rparr>)" using True best(1) b by (simp add: findmust_def)
    then show ?thesis by (intro exI [of _ None] exI [of _ "p_calls p"]) (simp add: must_in_def)
  next
    case False
    have "must_in ts (Some w)"
      unfolding must_in_def
    proof (intro allI impI)
      fix v m s e assume *: "Some w = Some v \<and> subject_ok m \<and> tree_spans m ts s e"
      then obtain w' where "copy_chars n (drop start (p_strip p)) = Some w'" "\<exists>d. s \<le> d \<and> d + length w' \<le> e \<and> occurs_at m w' d"
        using inv [of m] b unfolding best_inv_def by auto
      then show "v \<noteq> [] \<and> (\<exists>d. s \<le> d \<and> d + length v \<le> e \<and> occurs_at m v d)" using * w False by auto
    qed
    moreover have "findmust mem p = Some (Some w, p\<lparr> p_calls := p_calls p + 1 \<rparr>)"
      using True best(1) b False w(1) assms(1) by (simp add: findmust_def ask_def)
    ultimately show ?thesis by blast
  qed
next
  case False
  then have "findmust mem p = Some (None, p\<lparr> p_calls := p_calls p \<rparr>)" by (simp add: findmust_def)
  then show ?thesis using False by (intro exI [of _ None] exI [of _ "p_calls p"]) simp
qed

text \<open>The compiled expression of the trees \<open>ts\<close>.\<close>

definition compiled_trees :: "ptree list \<Rightarrow> regex_t \<Rightarrow> bool" where
  "compiled_trees ts preg \<longleftrightarrow> (let g = re_g preg in re_magic preg = MAGIC1 \<and> magic g = MAGIC2 \<and> \<not> flag_on (iflags g) BAD \<and> \<not> backrefs g
     \<and> firststate g = 0 \<and> laststate g = length (lays ts) + 1 \<and> strip g = (OEND, 0) # lays ts @ [(OEND, 0)]
     \<and> list_all (tree_ok (length (sets g))) ts \<and> must_in ts (must g))"

lemma compiled_strip_ok:
  assumes "compiled_trees ts preg"
  shows "strip_ok (re_g preg) 1 (laststate (re_g preg))"
proof -
  let ?g = "re_g preg"
  have s: "strip ?g = (OEND, 0) # lays ts @ [(OEND, 0)]" "laststate ?g = 1 + length (lays ts)" "list_all (tree_ok (length (sets ?g))) ts"
    using assms by (simp_all add: compiled_trees_def Let_def)
  have "placed ?g 1 (lays ts)" using s(1) by (simp add: placed_def nstates_def)
  then show ?thesis unfolding s(2) by (rule strip_ok_lays [OF _ s(3)]) (simp add: nstates_def s(1))
qed

lemma compiled_accepted:
  assumes "compiled_trees ts preg" "m_g m = re_g preg"
  shows "accepted m s e \<longleftrightarrow> m_beginp m \<le> s \<and> e \<le> m_endp m \<and> tree_spans m ts s e"
  using accepted_spans [of m ts "length (sets (m_g m))"] assms by (simp add: compiled_trees_def Let_def)

lemma compiled_must:
  assumes "compiled_trees ts preg" "m_g m = re_g preg" "subject_ok m"
  shows "must_sound m"
  unfolding must_sound_def must_occurs_def
proof (intro allI impI)
  fix s e assume acc: "accepted m s e"
  then have sp: "m_beginp m \<le> s" "e \<le> m_endp m" "tree_spans m ts s e" using compiled_accepted [OF assms(1,2)] by blast+
  have "\<exists>dp \<in> set [m_beginp m ..< m_endp m]. m_endp m - dp \<ge> length w \<and> take (length w) (drop dp (m_buf m)) = w"
    if w: "must (m_g m) = Some w" for w
  proof -
    have "must_in ts (Some w)" using assms(1,2) w by (simp add: compiled_trees_def Let_def)
    then obtain d where "w \<noteq> []" "s \<le> d" "d + length w \<le> e" "occurs_at m w d" using assms(3) sp(3) unfolding must_in_def by blast
    moreover from this have "d < m_endp m" using sp(2) by (cases w) auto
    ultimately show ?thesis using sp(1,2) by (intro bexI [of _ d]) (auto simp: occurs_at_def)
  qed
  then show "case must (m_g m) of None \<Rightarrow> True
     | Some w \<Rightarrow> \<exists>dp \<in> set [m_beginp m ..< m_endp m]. m_endp m - dp \<ge> length w \<and> take (length w) (drop dp (m_buf m)) = w"
    by (simp split: option.split)
qed

lemma compiled_ready: "compiled_trees ts preg \<Longrightarrow> few_anchors (re_g preg) 1 (laststate (re_g preg)) \<Longrightarrow> ready preg"
  using compiled_strip_ok [of ts preg] by (simp add: ready_def search_ok_def compiled_trees_def Let_def)

text \<open>Around the parser: \<open>p\<close> is what it has left.\<close>

lemma finish_regcomp:
  assumes "ample mem" "regcomp_parse mem pattern past (cf AND NOT REG_DUMP) = Some p" "good p" "\<not> flag_on (p_iflags p) BAD" "\<not> p_backrefs p"
    and "\<not> (flag_on (cf AND NOT REG_DUMP) REG_EXTENDED \<and> flag_on (cf AND NOT REG_DUMP) REG_NOSPEC)"
    and "p_error p = 0 \<Longrightarrow> p_strip p = (OEND, 0) # lays ts @ [(OEND, 0)] \<and> list_all (tree_ok (p_ncsets p)) ts"
  shows "\<exists>preg. posix_regcomp mem (Some pattern) past cf = Some (p_error p, Some preg)
    \<and> (if p_error p = 0 then compiled_trees ts preg \<and> cflags (re_g preg) = p_cflags p \<and> nsub (re_g preg) = p_nsub p
         \<and> sets (re_g preg) = map (cset_of p) [0 ..< p_ncsets p] else re_magic preg = 0)"
proof -
  obtain n cats where cat: "categorize p = p\<lparr> p_ncats := n, p_cats := cats \<rparr>" using categorize_fields by blast
  define q where "q = p\<lparr> p_ncats := n, p_cats := cats, p_calls := p_calls p + 1 \<rparr>"
  have snug: "stripsnug mem (categorize p) = q" by (simp add: cat stripsnug_def ask_def assms(1) q_def)
  have f: "p_error q = p_error p" "p_strip q = p_strip p" "p_ncsets q = p_ncsets p" "p_iflags q = p_iflags p" by (simp_all add: q_def)
  obtain w k where w: "findmust mem q = Some (w, q\<lparr> p_calls := k \<rparr>)" "p_error q = 0 \<longrightarrow> must_in ts w"
    using findmust_ok [OF assms(1), of q ts "p_ncsets p"] assms(7) f by auto
  let ?r = "q\<lparr> p_calls := k \<rparr>"
  obtain d where d: "pluscount ?r = Some (d, ?r)" using pluscount_ok [of ?r ts "p_ncsets p"] assms(7) f by auto
  let ?preg = "\<lparr> re_magic = MAGIC1, re_g = guts_of ?r (HERE p - 1) w d \<rparr>"
  have bad: "\<not> flag_on (p_iflags ?r) BAD" using assms(4) f(4) by simp
  have run: "posix_regcomp mem (Some pattern) past cf = Some (p_error p, Some (if p_error p \<noteq> 0 then regfree ?preg else ?preg))"
    using assms(1,2,6) w(1) d bad f(1) by (simp add: posix_regcomp_def Let_def snug)
  show ?thesis
  proof (cases "p_error p = 0")
    case True
    have sets: "map (cset_of ?r) [0 ..< p_ncsets p] = map (cset_of p) [0 ..< p_ncsets p]" by (simp add: cset_of_def q_def)
    have "compiled_trees ts ?preg"
      using assms(4,5,7) True w(2) f by (simp add: compiled_trees_def guts_of_def HERE_def q_def)
    then show ?thesis using run True sets by (simp add: guts_of_def f q_def)
  next
    case False
    then show ?thesis using run by (simp add: regfree_def guts_of_def)
  qed
qed

lemma flag_masks: "flag_on (cf AND NOT REG_DUMP) REG_EXTENDED = flag_on cf REG_EXTENDED" "flag_on (cf AND NOT REG_DUMP) REG_NOSPEC = flag_on cf REG_NOSPEC"
  by (simp_all add: flag_on_def and.assoc)

lemma posix_regcomp_total:
  assumes "ample mem" "0 \<notin> set pattern" "flag_on cf REG_EXTENDED \<noteq> flag_on cf REG_NOSPEC"
  shows "\<exists>e preg. posix_regcomp mem (Some pattern) past cf = Some (e, Some preg) \<and> (if e = 0 then \<exists>ts. compiled_trees ts preg else re_magic preg = 0)"
proof -
  let ?cf = "cf AND NOT REG_DUMP"
  have fl: "flag_on ?cf REG_EXTENDED \<or> flag_on ?cf REG_NOSPEC" "\<not> (flag_on ?cf REG_EXTENDED \<and> flag_on ?cf REG_NOSPEC)"
    using assms(3) unfolding flag_masks by auto
  obtain p where p: "regcomp_parse mem pattern past ?cf = Some p" "good p" "\<not> flag_on (p_iflags p) BAD" "\<not> p_backrefs p"
    "p_error p = 0 \<longrightarrow> (\<exists>ts. p_strip p = (OEND, 0) # lays ts @ [(OEND, 0)] \<and> list_all (tree_ok (p_ncsets p)) ts)"
    using regcomp_parse_ok [OF assms(1,2) fl(1)] by blast
  obtain ts where ts: "p_error p = 0 \<Longrightarrow> p_strip p = (OEND, 0) # lays ts @ [(OEND, 0)] \<and> list_all (tree_ok (p_ncsets p)) ts"
    using p(5) by blast
  from finish_regcomp [OF assms(1) p(1-4) fl(2) ts] show ?thesis
    by (cases "p_error p = 0") (simp_all, blast+)
qed

end
