(* ===== verification/Posix_Cold.thy ===== *)
theory Posix_Cold
  imports Posix_Must
begin

text \<open>
  When the search may trust \<open>coldp\<close>: the states before the first character of a layout, and a condition on the trees
  (of alternatives only the last may be empty, unless the last ends in a group or a repetition) under which none of
  them is a state after a character.
\<close>

section \<open>Empty matches and ends\<close>

fun null_tree :: "ptree \<Rightarrow> bool" where
  "null_tree (Leaf op n) = False"
| "null_tree (Par n xs) = list_all null_tree xs"
| "null_tree (Loop xs) = list_all null_tree xs"
| "null_tree (Maybe xs) = True"
| "null_tree (Choice x bs) = (list_all null_tree x \<or> list_ex (list_all null_tree) bs)"

abbreviation nulls :: "ptree list \<Rightarrow> bool" where
  "nulls ts \<equiv> list_all null_tree ts"

fun is_leaf :: "ptree \<Rightarrow> bool" where
  "is_leaf (Leaf op n) = True"
| "is_leaf _ = False"

definition ends_leaf :: "ptree list \<Rightarrow> bool" where
  "ends_leaf ts \<longleftrightarrow> ts \<noteq> [] \<and> is_leaf (last ts)"

fun tight :: "ptree \<Rightarrow> bool" where
  "tight (Leaf op n) = True"
| "tight (Par n xs) = list_all tight xs"
| "tight (Loop xs) = list_all tight xs"
| "tight (Maybe xs) = (list_all tight xs \<and> \<not> ends_leaf xs)"
| "tight (Choice x bs) = (list_all tight x \<and> list_all (list_all tight) bs
     \<and> (nulls x \<or> list_ex nulls (butlast bs) \<longrightarrow> \<not> ends_leaf (last bs)))"

definition eater :: "re_guts \<Rightarrow> nat \<Rightarrow> bool" where
  "eater g p \<longleftrightarrow> OP (strip g ! p) \<in> {OCHAR, OANY, OANYOF}"

lemma last_lay: "\<not> is_leaf t \<Longrightarrow> tree_ok k t \<Longrightarrow> OP (last (lay t)) \<notin> {OCHAR, OANY, OANYOF}"
proof (cases t)
  case (Choice x bs)
  assume "\<not> is_leaf t" "tree_ok k t"
  then obtain c cs where bs: "bs = c # cs" using Choice by (cases bs) simp_all
  obtain n where n: "last (more_branches (map lays bs)) = (O_CH, n)" using last_branches [of "lays c" "map lays cs"] bs by auto
  have "more_branches (map lays bs) \<noteq> []" using length_more_branches [of "map lays bs"] bs by force
  then show ?thesis using n Choice by (simp add: Let_def)
qed (simp_all add: Let_def)

lemma placed_last: "placed g p xs \<Longrightarrow> xs \<noteq> [] \<Longrightarrow> l + 1 = p + length xs \<Longrightarrow> strip g ! l = last xs"
  using placed_nth [of g p xs "length xs - 1"] by (simp add: last_conv_nth) (metis Suc_pred add_Suc_right diff_Suc_1 length_greater_0_conv)

lemma ends_leaf_lays:
  assumes "placed g p (lays ts)" "list_all (tree_ok k) ts" "p \<le> l" "l + 1 = p + length (lays ts)" "eater g l"
  shows "ends_leaf ts"
proof -
  have ne: "lays ts \<noteq> []"
  proof
    assume "lays ts = []"
    then have "length (lays ts) = 0" by (simp only: list.size)
    then show False using assms(3,4) by linarith
  qed
  then have ts: "ts \<noteq> []" by auto
  then obtain us t where us: "ts = us @ [t]" by (cases ts rule: rev_cases) simp_all
  have "lay t \<noteq> []" by (cases t) (simp_all add: Let_def)
  then have "last (lays ts) = last (lay t)" using us by simp
  then have "strip g ! l = last (lay t)" using placed_last [OF assms(1) ne assms(4)] by simp
  then have "is_leaf t" using last_lay [of t k] assms(2,5) us by (auto simp: eater_def)
  then show ?thesis using us by (simp add: ends_leaf_def)
qed

section \<open>The states before the first character\<close>

text \<open>
  \<open>Y\<close> holds the places between \<open>p\<close> and \<open>q\<close> that are reached from \<open>p\<close> without a character; \<open>q\<close> is reached only if \<open>z\<close>.
\<close>

definition entrance :: "re_guts \<Rightarrow> nat \<Rightarrow> nat \<Rightarrow> bool \<Rightarrow> nat set \<Rightarrow> bool" where
  "entrance g p q z Y \<longleftrightarrow> Y \<subseteq> {p ..< q} \<and> p \<in> Y \<union> (if z then {q} else {}) \<and> (\<forall>y \<in> Y. jumps g y \<subseteq> Y \<union> (if z then {q} else {}))
     \<and> (\<forall>l \<in> {p ..< q}. eater g l \<longrightarrow> l + 1 \<notin> Y \<and> (z \<longrightarrow> l + 1 \<noteq> q))"

lemma entrance_empty: "entrance g p p True {}"
  by (simp add: entrance_def)

lemma entrance_one: "jumps g p = {p + 1} \<Longrightarrow> \<not> eater g p \<Longrightarrow> entrance g p (p + 1) True {p}"
  by (auto simp: entrance_def)

lemma entrance_leaf: "jumps g p = {} \<Longrightarrow> entrance g p (p + 1) False {p}"
  by (auto simp: entrance_def)

lemma entrance_append:
  assumes "entrance g p q z Y" "entrance g q r z' Y'" "p \<le> q" "q \<le> r"
  shows "entrance g p r (z \<and> z') (Y \<union> (if z then Y' else {}))"
proof -
  have 1: "Y \<subseteq> {p ..< q}" "p \<in> Y \<union> (if z then {q} else {})" "\<And>y. y \<in> Y \<Longrightarrow> jumps g y \<subseteq> Y \<union> (if z then {q} else {})"
    "\<And>l. p \<le> l \<Longrightarrow> l < q \<Longrightarrow> eater g l \<Longrightarrow> l + 1 \<notin> Y \<and> (z \<longrightarrow> l + 1 \<noteq> q)" using assms(1) by (auto simp: entrance_def)
  have 2: "Y' \<subseteq> {q ..< r}" "q \<in> Y' \<union> (if z' then {r} else {})" "\<And>y. y \<in> Y' \<Longrightarrow> jumps g y \<subseteq> Y' \<union> (if z' then {r} else {})"
    "\<And>l. q \<le> l \<Longrightarrow> l < r \<Longrightarrow> eater g l \<Longrightarrow> l + 1 \<notin> Y' \<and> (z' \<longrightarrow> l + 1 \<noteq> r)" using assms(2) by (auto simp: entrance_def)
  have "jumps g y \<subseteq> Y \<union> (if z then Y' else {}) \<union> (if z \<and> z' then {r} else {})" if "y \<in> Y \<union> (if z then Y' else {})" for y
  proof (cases z)
    case True
    then show ?thesis using that 1(3) [of y] 2(2) 2(3) [of y] by (cases "y \<in> Y") (auto split: if_splits)
  next
    case False
    then show ?thesis using that 1(3) [of y] by auto
  qed
  moreover have "l + 1 \<notin> Y \<union> (if z then Y' else {}) \<and> (z \<and> z' \<longrightarrow> l + 1 \<noteq> r)" if l: "p \<le> l" "l < r" "eater g l" for l
  proof (cases "l < q")
    case True
    have "l + 1 \<notin> Y'" if z using 1(4) [OF l(1) True l(3)] that 2(1) True by auto
    moreover have "l + 1 \<noteq> r" if z using 1(4) [OF l(1) True l(3)] that True assms(4) by auto
    ultimately show ?thesis using 1(4) [OF l(1) True l(3)] by auto
  next
    case False
    have "l + 1 \<notin> Y" using 1(1) False by auto
    then show ?thesis using 2(4) [of l] l False by auto
  qed
  moreover have "Y \<union> (if z then Y' else {}) \<subseteq> {p ..< r}" using 1(1) 2(1) assms(3,4) by auto
  moreover have "p \<in> Y \<union> (if z then Y' else {}) \<union> (if z \<and> z' then {r} else {})" using 1(2) 2(2) by (auto split: if_splits)
  ultimately show ?thesis by (simp add: entrance_def)
qed

text \<open>Around the trees of a loop and of an option.\<close>

lemma entrance_around:
  assumes "entrance g (p + 1) q z Y" "p + 1 \<le> q" "\<not> eater g p" "\<not> eater g q"
    and "jumps g p \<subseteq> {p + 1} \<union> (if w then {q} else {})" "jumps g q \<subseteq> {p, q + 1}" "z \<Longrightarrow> w"
    and "\<And>l. w \<Longrightarrow> \<not> z \<Longrightarrow> p + 1 \<le> l \<Longrightarrow> eater g l \<Longrightarrow> l + 1 \<noteq> q"
  shows "entrance g p (q + 1) w ({p} \<union> Y \<union> (if w then {q} else {}))"
proof -
  have 1: "Y \<subseteq> {p + 1 ..< q}" "p + 1 \<in> Y \<union> (if z then {q} else {})" "\<And>y. y \<in> Y \<Longrightarrow> jumps g y \<subseteq> Y \<union> (if z then {q} else {})"
    "\<And>l. p + 1 \<le> l \<Longrightarrow> l < q \<Longrightarrow> eater g l \<Longrightarrow> l + 1 \<notin> Y \<and> (z \<longrightarrow> l + 1 \<noteq> q)" using assms(1) by (auto simp: entrance_def)
  define V where "V = {p} \<union> Y \<union> (if w then {q} else {})"
  have "jumps g y \<subseteq> V \<union> (if w then {q + 1} else {})" if y: "y \<in> V" for y
  proof -
    consider "y = p" | "y \<in> Y" | "y = q" w using y by (auto simp: V_def split: if_splits)
    then show ?thesis
    proof cases
      case 1
      then show ?thesis using assms(5,7) \<open>p + 1 \<in> Y \<union> (if z then {q} else {})\<close> by (auto simp: V_def split: if_splits)
    next
      case 2
      then show ?thesis using 1(3) [of y] assms(7) by (auto simp: V_def split: if_splits)
    qed (use assms(6) in \<open>auto simp: V_def\<close>)
  qed
  moreover have "l + 1 \<notin> V \<and> (w \<longrightarrow> l + 1 \<noteq> q + 1)" if l: "p \<le> l" "l < q + 1" "eater g l" for l
  proof -
    have i: "p + 1 \<le> l" "l < q" using l assms(3,4) by (metis Suc_eq_plus1 Suc_leI le_neq_implies_less less_Suc_eq)+
    then have "w \<longrightarrow> l + 1 \<noteq> q" using 1(4) [OF i l(3)] assms(8) [OF _ _ i(1) l(3)] by blast
    then show ?thesis using 1(4) [OF i l(3)] i by (auto simp: V_def)
  qed
  moreover have "V \<subseteq> {p ..< q + 1}" "p \<in> V" using 1(1) assms(2) by (auto simp: V_def)
  ultimately show ?thesis unfolding V_def [symmetric] by (cases w) (simp_all add: entrance_def)
qed

text \<open>A branch and what follows it, up to the end of the alternatives.\<close>

lemma entrance_fork:
  assumes "entrance g (p + 1) d z Y" "entrance g (d + 1) e z' Y'" "p + 1 \<le> d" "d + 1 < e" "\<not> eater g p" "\<not> eater g d"
    and "jumps g p = {p + 1, d + 1}" "jumps g d = {e}" "\<And>l. z \<Longrightarrow> \<not> z' \<Longrightarrow> d + 1 \<le> l \<Longrightarrow> eater g l \<Longrightarrow> l + 1 \<noteq> e"
  shows "entrance g p e (z \<or> z') ({p} \<union> Y \<union> (if z then {d} else {}) \<union> Y')"
proof -
  have 1: "Y \<subseteq> {p + 1 ..< d}" "p + 1 \<in> Y \<union> (if z then {d} else {})" "\<And>y. y \<in> Y \<Longrightarrow> jumps g y \<subseteq> Y \<union> (if z then {d} else {})"
    "\<And>l. p + 1 \<le> l \<Longrightarrow> l < d \<Longrightarrow> eater g l \<Longrightarrow> l + 1 \<notin> Y \<and> (z \<longrightarrow> l + 1 \<noteq> d)" using assms(1) by (auto simp: entrance_def)
  have 2: "Y' \<subseteq> {d + 1 ..< e}" "d + 1 \<in> Y'" "\<And>y. y \<in> Y' \<Longrightarrow> jumps g y \<subseteq> Y' \<union> (if z' then {e} else {})"
    "\<And>l. d + 1 \<le> l \<Longrightarrow> l < e \<Longrightarrow> eater g l \<Longrightarrow> l + 1 \<notin> Y' \<and> (z' \<longrightarrow> l + 1 \<noteq> e)"
    using assms(2,4) by (auto simp: entrance_def split: if_splits)
  let ?Y = "{p} \<union> Y \<union> (if z then {d} else {}) \<union> Y'"
  have "jumps g y \<subseteq> ?Y \<union> (if z \<or> z' then {e} else {})" if y: "y \<in> ?Y" for y
  proof -
    consider "y = p" | "y \<in> Y" | "y = d" z | "y \<in> Y'" using y by (auto split: if_splits)
    then show ?thesis
    proof cases
      case 1
      then show ?thesis using assms(7) \<open>p + 1 \<in> Y \<union> (if z then {d} else {})\<close> 2(2) by (auto split: if_splits)
    next
      case 2
      then show ?thesis using 1(3) [of y] by (auto split: if_splits)
    next
      case 4
      then show ?thesis using 2(3) [of y] by (auto split: if_splits)
    qed (use assms(8) in auto)
  qed
  moreover have "l + 1 \<notin> ?Y \<and> (z \<or> z' \<longrightarrow> l + 1 \<noteq> e)" if l: "p \<le> l" "l < e" "eater g l" for l
  proof (cases "l < d")
    case True
    have i: "p + 1 \<le> l" using l assms(5) by (metis Suc_eq_plus1 Suc_leI le_neq_implies_less)
    then show ?thesis using 1(4) [OF i True l(3)] 2(1) True assms(4) by auto
  next
    case False
    then have i: "d + 1 \<le> l" using l(3) assms(6) by (metis Suc_eq_plus1 Suc_leI le_neq_implies_less not_less)
    have "z \<or> z' \<longrightarrow> l + 1 \<noteq> e" using 2(4) [OF i l(2,3)] assms(9) [OF _ _ i l(3)] by blast
    then show ?thesis using 2(4) [OF i l(2,3)] 1(1) i assms(3) by auto
  qed
  moreover have "?Y \<subseteq> {p ..< e}" using 1(1) 2(1) assms(3,4) by auto
  ultimately show ?thesis by (simp add: entrance_def)
qed

definition opens :: "re_guts \<Rightarrow> ptree list \<Rightarrow> nat \<Rightarrow> bool" where
  "opens g ts p \<longleftrightarrow> (\<exists>Y. entrance g p (p + length (lays ts)) (nulls ts) Y)"

lemma opensI: "entrance g p q z Y \<Longrightarrow> q = p + length (lays ts) \<Longrightarrow> z = nulls ts \<Longrightarrow> opens g ts p"
  unfolding opens_def by blast

lemma opens_append:
  assumes "opens g ts p" "opens g us (p + length (lays ts))"
  shows "opens g (ts @ us) p"
proof -
  obtain Y Z where "entrance g p (p + length (lays ts)) (nulls ts) Y"
    "entrance g (p + length (lays ts)) (p + length (lays ts) + length (lays us)) (nulls us) Z"
    using assms unfolding opens_def by blast
  then have "entrance g p (p + length (lays ts) + length (lays us)) (nulls ts \<and> nulls us) (Y \<union> (if nulls ts then Z else {}))"
    by (rule entrance_append) simp_all
  then have "entrance g p (p + length (lays (ts @ us))) (nulls (ts @ us)) (Y \<union> (if nulls ts then Z else {}))" by (simp add: add.assoc)
  then show ?thesis unfolding opens_def by blast
qed

lemma opens_lays:
  "(\<And>t p. t \<in> set ts \<Longrightarrow> placed g p (lay t) \<Longrightarrow> opens g [t] p) \<Longrightarrow> placed g p (lays ts) \<Longrightarrow> opens g ts p"
proof (induction ts arbitrary: p)
  case Nil
  then show ?case using entrance_empty by (auto simp: opens_def)
next
  case (Cons t ts)
  have pl: "placed g p (lay t)" "placed g (p + length (lay t)) (lays ts)" using Cons(3) by (simp_all add: placed_append)
  have "opens g [t] p" using Cons(2) pl(1) by simp
  moreover have "opens g ts (p + length (lays [t]))" using Cons(1,2) pl(2) by simp
  ultimately show ?case using opens_append [of g "[t]" p ts] by simp
qed

text \<open>The branches after the first, up to the \<open>O_CH\<close>.\<close>

lemma entrance_branches:
  assumes "\<And>ts p. ts \<in> set bs \<Longrightarrow> placed g p (lays ts) \<Longrightarrow> opens g ts p"
  shows "placed g p (more_branches (map lays bs)) \<Longrightarrow> bs \<noteq> [] \<Longrightarrow> list_all (list_all (tree_ok k)) bs
    \<Longrightarrow> (list_ex nulls (butlast bs) \<Longrightarrow> \<not> ends_leaf (last bs)) \<Longrightarrow> e + 1 = p + length (more_branches (map lays bs))
    \<Longrightarrow> (\<exists>Y. entrance g p e (list_ex nulls bs) Y) \<and> (\<forall>l. p \<le> l \<longrightarrow> l + 1 = e \<longrightarrow> eater g l \<longrightarrow> ends_leaf (last bs))"
  using assms
proof (induction bs arbitrary: p rule: induct_list012)
  case (2 c)
  let ?n = "length (lays c)"
  have *: "strip g ! p = (OOR2, ?n + 1)" "placed g (p + 1) (lays c)" "strip g ! (p + 1 + ?n) = (O_CH, ?n + 2)"
    using 2(1) placed_one by (auto simp: placed_Cons [of _ _ _ "lays c @ _"] placed_append)
  have j: "jumps g p = {p + 1}" "\<not> eater g p" using *(1,3) by (simp_all add: jumps_def eater_def)
  have e: "e = p + 1 + ?n" using 2(5) by simp
  obtain Y where Y: "entrance g (p + 1) e (nulls c) Y" using 2(6) [OF _ *(2)] unfolding e opens_def by auto
  have "entrance g p e (nulls c) ({p} \<union> Y)" using entrance_append [OF entrance_one [OF j] Y] by (simp add: e)
  moreover have "ends_leaf c" if l: "p \<le> l" "l + 1 = e" "eater g l" for l
  proof -
    have "p + 1 \<le> l" using l(1,3) j(2) by (metis Suc_eq_plus1 Suc_leI le_neq_implies_less)
    then show ?thesis using ends_leaf_lays [OF *(2), of k l] 2(3) l(2,3) e by simp
  qed
  ultimately show ?case by auto
next
  case (3 c d bs)
  let ?n = "length (lays c)" and ?more = "more_branches (map lays (d # bs))"
  have *: "strip g ! p = (OOR2, ?n + 2)" "placed g (p + 1) (lays c)" "strip g ! (p + 1 + ?n) = (OOR1, ?n + 2)"
    "placed g (p + 1 + ?n + 1) ?more"
    using 3(3) placed_one by (auto simp: placed_Cons [of _ _ _ "lays c @ _"] placed_append placed_Cons [of _ _ _ "more_branches _"])
  have l: "2 \<le> length ?more" using length_more_branches by simp
  have e: "e + 1 = p + 1 + ?n + 1 + length ?more" using 3(7) by simp
  have look: "look_och g (p + 1 + ?n + 1) = Some e" using look_och_branches [OF *(4)] e by simp
  have head: "OP (strip g ! (p + ?n + 2)) = OOR2"
  proof -
    obtain n xs where "?more = (OOR2, n) # xs" using more_branches_head [of "lays d" "map lays bs"] by auto
    then have "placed g (p + 1 + ?n + 1) [(OOR2, n)]" using *(4) placed_Cons by metis
    then show ?thesis using placed_one by fastforce
  qed
  have j: "jumps g p = {p + 1, p + 1 + ?n + 1}" "jumps g (p + 1 + ?n) = {e}"
    using *(1,3) look head by (simp_all add: jumps_def add.assoc)
  have ne: "\<not> eater g p" "\<not> eater g (p + 1 + ?n)" using *(1,3) by (simp_all add: eater_def)
  obtain Y where Y: "entrance g (p + 1) (p + 1 + ?n) (nulls c) Y" using 3(8) [OF _ *(2)] unfolding opens_def by auto
  have tl: "\<not> ends_leaf (last (d # bs))" if "nulls c \<or> list_ex nulls (butlast (d # bs))" using 3(6) that by auto
  obtain Z where Z: "entrance g (p + 1 + ?n + 1) e (list_ex nulls (d # bs)) Z"
    and last: "\<And>l. p + 1 + ?n + 1 \<le> l \<Longrightarrow> l + 1 = e \<Longrightarrow> eater g l \<Longrightarrow> ends_leaf (last (d # bs))"
    using 3(2) [OF *(4) _ _ _ e] 3(5,8) tl by auto
  have "entrance g p e (nulls c \<or> list_ex nulls (d # bs)) ({p} \<union> Y \<union> (if nulls c then {p + 1 + ?n} else {}) \<union> Z)"
  proof (rule entrance_fork [OF Y Z _ _ ne j])
    fix q assume "nulls c" "p + 1 + ?n + 1 \<le> q" "eater g q"
    then show "q + 1 \<noteq> e" using last tl by blast
  qed (use l e in linarith)+
  then have f: "\<exists>Y. entrance g p e (nulls c \<or> list_ex nulls (d # bs)) Y" by (rule exI)
  have "ends_leaf (last (d # bs))" if "p \<le> l" "l + 1 = e" "eater g l" for l
  proof -
    have "p + 1 + ?n + 1 \<le> l" using that(2) e l by linarith
    then show ?thesis using last that(2,3) by blast
  qed
  then have z: "\<forall>l. p \<le> l \<longrightarrow> l + 1 = e \<longrightarrow> eater g l \<longrightarrow> ends_leaf (last (d # bs))" by blast
  have r: "list_ex nulls (c # d # bs) \<longleftrightarrow> nulls c \<or> list_ex nulls (d # bs)" "last (c # d # bs) = last (d # bs)" by simp_all
  show ?case unfolding r using f z by (rule conjI)
qed simp

lemma opens_lay: "tree_ok k t \<Longrightarrow> tight t \<Longrightarrow> placed g p (lay t) \<Longrightarrow> opens g [t] p"
proof (induction t arbitrary: p)
  case (Leaf op n)
  then have "strip g ! p = (op, n)" using placed_one [of g p "(op, n)"] by simp
  then have "jumps g p = {}" using Leaf(1) by (auto simp: jumps_def leaf_ok_def)
  from entrance_leaf [OF this] show ?case by (auto simp: opens_def)
next
  case (Par n xs)
  let ?n = "length (lays xs)"
  have *: "strip g ! p = (OLPAREN, n)" "placed g (p + 1) (lays xs)" "strip g ! (p + 1 + ?n) = (ORPAREN, n)"
    using Par(4) placed_one by (auto simp: placed_Cons [of _ _ _ "_ @ _"] placed_append)
  have j: "jumps g p = {p + 1}" "jumps g (p + 1 + ?n) = {p + 1 + ?n + 1}" "\<not> eater g p" "\<not> eater g (p + 1 + ?n)"
    using *(1,3) by (simp_all add: jumps_def eater_def)
  have "opens g xs (p + 1)" using Par(1,2,3) by (intro opens_lays [OF _ *(2)]) (auto simp: list_all_iff)
  then obtain Y where Y: "entrance g (p + 1) (p + 1 + ?n) (nulls xs) Y" unfolding opens_def by blast
  have "entrance g p (p + 1 + ?n + 1) ((True \<and> nulls xs) \<and> True) (({p} \<union> (if True then Y else {})) \<union> (if True \<and> nulls xs then {p + 1 + ?n} else {}))"
    by (rule entrance_append [OF entrance_append [OF entrance_one [OF j(1,3)] Y] entrance_one [OF j(2,4)]]) simp_all
  then show ?case by (rule opensI) simp_all
next
  case (Loop xs)
  let ?n = "length (lays xs)"
  have *: "strip g ! p = (OPLUS, ?n + 1)" "placed g (p + 1) (lays xs)" "strip g ! (p + 1 + ?n) = (O_PLUS, ?n + 1)"
    using Loop(4) placed_one by (auto simp: Let_def placed_Cons [of _ _ _ "_ @ _"] placed_append)
  have j: "jumps g p = {p + 1}" "jumps g (p + 1 + ?n) = {p + 1 + ?n + 1, p}" "\<not> eater g p" "\<not> eater g (p + 1 + ?n)"
    using *(1,3) by (simp_all add: jumps_def eater_def)
  have "opens g xs (p + 1)" using Loop(1,2,3) by (intro opens_lays [OF _ *(2)]) (auto simp: list_all_iff)
  then obtain Y where Y: "entrance g (p + 1) (p + 1 + ?n) (nulls xs) Y" unfolding opens_def by blast
  have "entrance g p (p + 1 + ?n + 1) (nulls xs) ({p} \<union> Y \<union> (if nulls xs then {p + 1 + ?n} else {}))"
    by (rule entrance_around [OF Y _ j(3,4)]) (use j in auto)
  then show ?case by (rule opensI) (simp_all add: Let_def)
next
  case (Maybe xs)
  let ?n = "length (lays xs)"
  have *: "strip g ! p = (OQUEST, ?n + 1)" "placed g (p + 1) (lays xs)" "strip g ! (p + 1 + ?n) = (O_QUEST, ?n + 1)"
    using Maybe(4) placed_one by (auto simp: Let_def placed_Cons [of _ _ _ "_ @ _"] placed_append)
  have j: "jumps g p = {p + 1, p + 1 + ?n}" "jumps g (p + 1 + ?n) = {p + 1 + ?n + 1}" "\<not> eater g p" "\<not> eater g (p + 1 + ?n)"
    using *(1,3) by (auto simp: jumps_def eater_def)
  have "opens g xs (p + 1)" using Maybe(1,2,3) by (intro opens_lays [OF _ *(2)]) (auto simp: list_all_iff)
  then obtain Y where Y: "entrance g (p + 1) (p + 1 + ?n) (nulls xs) Y" unfolding opens_def by blast
  have no: "l + 1 \<noteq> p + 1 + ?n" if "p + 1 \<le> l" "eater g l" for l
    using ends_leaf_lays [OF *(2), of k l] Maybe(2,3) that by auto
  have "entrance g p (p + 1 + ?n + 1) True ({p} \<union> Y \<union> (if True then {p + 1 + ?n} else {}))"
    by (rule entrance_around [OF Y _ j(3,4)]) (use j no in auto)
  then show ?case by (rule opensI) (simp_all add: Let_def)
next
  case (Choice x bs)
  let ?n = "length (lays x)" and ?more = "more_branches (map lays bs)"
  let ?e = "p + 1 + ?n + length ?more"
  have bs: "bs \<noteq> []" using Choice(3) by simp
  have *: "strip g ! p = (OCH, ?n + 2)" "placed g (p + 1) (lays x)" "strip g ! (p + 1 + ?n) = (OOR1, ?n + 1)"
    "placed g (p + 1 + ?n + 1) ?more"
    using Choice(5) placed_one
    by (auto simp: Let_def placed_Cons [of _ _ _ "_ @ _"] placed_append placed_Cons [of _ _ _ "more_branches _"])
  have l: "2 \<le> length ?more" using length_more_branches bs by simp
  have look: "look_och g (p + 1 + ?n + 1) = Some ?e" using look_och_branches [OF *(4)] bs by simp
  have j: "jumps g p = {p + 1, p + 1 + ?n + 1}" "jumps g (p + 1 + ?n) = {?e}"
    using *(1,3) look by (simp_all add: jumps_def add.assoc)
  have ne: "\<not> eater g p" "\<not> eater g (p + 1 + ?n)" using *(1,3) by (simp_all add: eater_def)
  obtain n where "strip g ! ?e = (O_CH, n)" using branches_end_op [OF *(4)] bs by auto
  then have o: "jumps g ?e = {?e + 1}" "\<not> eater g ?e" by (simp_all add: jumps_def eater_def)
  have each: "\<forall>t \<in> set x. tree_ok k t \<and> tight t" "\<forall>ts \<in> set bs. \<forall>t \<in> set ts. tree_ok k t \<and> tight t"
    using Choice(3,4) by (simp_all add: list_all_iff)
  have "opens g x (p + 1)" by (rule opens_lays [OF _ *(2)]) (use each(1) Choice(1) in blast)
  then obtain Y where Y: "entrance g (p + 1) (p + 1 + ?n) (nulls x) Y" unfolding opens_def by blast
  have body: "opens g ts q" if "ts \<in> set bs" "placed g q (lays ts)" for ts q
    by (rule opens_lays [OF _ that(2)]) (use each(2) Choice(2) that(1) in blast)
  have last: "nulls x \<or> list_ex nulls (butlast bs) \<Longrightarrow> \<not> ends_leaf (last bs)" using Choice(4) by simp
  have ok: "list_all (list_all (tree_ok k)) bs" "?e + 1 = p + 1 + ?n + 1 + length ?more" using Choice(3) by simp_all
  have "(\<exists>Z. entrance g (p + 1 + ?n + 1) ?e (list_ex nulls bs) Z)
    \<and> (\<forall>l. p + 1 + ?n + 1 \<le> l \<longrightarrow> l + 1 = ?e \<longrightarrow> eater g l \<longrightarrow> ends_leaf (last bs))"
    by (rule entrance_branches [OF body *(4) bs ok(1) last [OF disjI2] ok(2)])
  then obtain Z where Z: "entrance g (p + 1 + ?n + 1) ?e (list_ex nulls bs) Z"
    and le: "\<And>l. p + 1 + ?n + 1 \<le> l \<Longrightarrow> l + 1 = ?e \<Longrightarrow> eater g l \<Longrightarrow> ends_leaf (last bs)" by blast
  have f: "entrance g p ?e (nulls x \<or> list_ex nulls bs) ({p} \<union> Y \<union> (if nulls x then {p + 1 + ?n} else {}) \<union> Z)"
  proof (rule entrance_fork [OF Y Z _ _ ne j])
    fix q assume "nulls x" "p + 1 + ?n + 1 \<le> q" "eater g q"
    then show "q + 1 \<noteq> ?e" using le last by blast
  qed (use l in linarith)+
  have "p \<le> ?e" "?e \<le> ?e + 1" by linarith+
  from entrance_append [OF f entrance_one [OF o] this] show ?case by (rule opensI) (simp_all add: Let_def)
qed

lemma tight_cold_safe:
  assumes "compiled_trees ts preg" "list_all tight ts"
  shows "cold_safe (re_g preg) (gf (re_g preg)) (laststate (re_g preg))"
proof -
  let ?g = "re_g preg"
  have s: "strip ?g = (OEND, 0) # lays ts @ [(OEND, 0)]" "laststate ?g = 1 + length (lays ts)" "gf ?g = 1" "list_all (tree_ok (length (sets ?g))) ts"
    using assms(1) by (simp_all add: compiled_trees_def Let_def)
  have pl: "placed ?g 1 (lays ts)" using s(1) by (simp add: placed_def nstates_def)
  have "opens ?g ts 1" using s(4) assms(2) by (intro opens_lays [OF _ pl]) (auto simp: list_all_iff intro: opens_lay)
  then obtain Y where Y: "entrance ?g 1 (laststate ?g) (nulls ts) Y" unfolding opens_def s(2) by blast
  let ?Z = "Y \<union> (if nulls ts then {laststate ?g} else {})"
  show ?thesis unfolding s(3)
  proof (rule cold_safeI [of 1 ?Z])
    show "1 \<in> ?Z" using Y by (simp add: entrance_def)
    show "EJ ?g 1 (laststate ?g) y \<subseteq> ?Z" if "y \<in> ?Z" for y using Y that by (auto simp: entrance_def EJ_def split: if_splits)
    show "p + 1 \<notin> ?Z" if "p \<in> set [1 ..< laststate ?g]" "OP (strip ?g ! p) \<in> {OCHAR, OANY, OANYOF}" for p
      using Y that by (auto simp: entrance_def eater_def)
  qed
qed

end
