(* ===== verification/Posix_Words.thy ===== *)
theory Posix_Words
  imports Posix_Cold
begin

text \<open>
  Extended expressions as a data type: the text of one, its language, and the trees that match exactly the words
  of a language. What the parser makes of the text is in \<open>Posix_Ere\<close>.
\<close>

section \<open>Extended expressions and their languages\<close>

text \<open>\<open>ETimes e lo hi\<close> is \<open>e{lo,hi}\<close>, and \<open>e{lo,}\<close> if \<open>hi\<close> is \<open>INFINITY\<close>.\<close>

datatype ere =
    EChr byte
  | EDot
  | ESub "ere list list"
  | EStar ere
  | EPlus ere
  | EOpt ere
  | ETimes ere nat nat

type_synonym byte_lang = "byte list set"

definition cat_lang :: "byte_lang \<Rightarrow> byte_lang \<Rightarrow> byte_lang" where
  "cat_lang A B = {x @ y | x y. x \<in> A \<and> y \<in> B}"

primrec power_lang :: "byte_lang \<Rightarrow> nat \<Rightarrow> byte_lang" where
  "power_lang A 0 = {[]}"
| "power_lang A (Suc n) = cat_lang A (power_lang A n)"

fun ere_lang :: "ere \<Rightarrow> byte_lang" where
  "ere_lang (EChr c) = {[c]}"
| "ere_lang EDot = {[c] | c. True}"
| "ere_lang (ESub bs) = (\<Union>b \<in> set bs. foldr (\<lambda>e A. cat_lang (ere_lang e) A) b {[]})"
| "ere_lang (EStar e) = (\<Union>n. power_lang (ere_lang e) n)"
| "ere_lang (EPlus e) = (\<Union>n \<in> {1..}. power_lang (ere_lang e) n)"
| "ere_lang (EOpt e) = insert [] (ere_lang e)"
| "ere_lang (ETimes e lo hi) = (\<Union>n \<in> {n. lo \<le> n \<and> (hi = INFINITY \<or> n \<le> hi)}. power_lang (ere_lang e) n)"

abbreviation branch_lang :: "ere list \<Rightarrow> byte_lang" where
  "branch_lang b \<equiv> foldr (\<lambda>e A. cat_lang (ere_lang e) A) b {[]}"

definition alts_lang :: "ere list list \<Rightarrow> byte_lang" where
  "alts_lang bs = (\<Union>b \<in> set bs. branch_lang b)"

section \<open>Words as spans\<close>

definition text_at :: "matchst \<Rightarrow> byte list \<Rightarrow> nat \<Rightarrow> bool" where
  "text_at m w i \<longleftrightarrow> (\<forall>k < length w. i + k < m_endp m \<and> m_buf m ! (i + k) = w ! k)"

definition lang_span :: "matchst \<Rightarrow> byte_lang \<Rightarrow> nat \<Rightarrow> nat \<Rightarrow> bool" where
  "lang_span m A i j \<longleftrightarrow> (\<exists>w \<in> A. j = i + length w \<and> text_at m w i)"

lemma all_less_split: "(\<forall>k < m + n. P k) \<longleftrightarrow> (\<forall>k < m. P k) \<and> (\<forall>k < n. P (m + k))" for m n :: nat
proof (intro iffI allI impI conjI)
  fix k assume *: "(\<forall>k < m. P k) \<and> (\<forall>k < n. P (m + k))" "k < m + n"
  show "P k"
  proof (cases "k < m")
    case False
    then have "k - m < n" using *(2) by simp
    then have "P (m + (k - m))" using *(1) by blast
    then show ?thesis using False by simp
  qed (use * in simp)
qed auto

lemma text_at_append: "text_at m (x @ y) i \<longleftrightarrow> text_at m x i \<and> text_at m y (i + length x)"
  unfolding text_at_def length_append all_less_split by (simp add: nth_append add.assoc)

lemma lang_span_Nil: "lang_span m {[]} = (=)"
  by (auto simp: lang_span_def text_at_def fun_eq_iff)

lemma lang_span_conc: "lang_span m (cat_lang A B) = lang_span m A OO lang_span m B"
proof (intro ext iffI)
  fix i j assume "lang_span m (cat_lang A B) i j"
  then obtain x y where *: "x \<in> A" "y \<in> B" "text_at m x i" "text_at m y (i + length x)" "j = i + length x + length y"
    unfolding lang_span_def cat_lang_def by (auto simp: text_at_append)
  then have "lang_span m A i (i + length x)" "lang_span m B (i + length x) j" by (auto simp: lang_span_def)
  then show "(lang_span m A OO lang_span m B) i j" by blast
next
  fix i j assume "(lang_span m A OO lang_span m B) i j"
  then obtain x y where *: "x \<in> A" "y \<in> B" "text_at m x i" "text_at m y (i + length x)" "j = i + length x + length y"
    unfolding lang_span_def by auto
  then have "x @ y \<in> cat_lang A B" "text_at m (x @ y) i" by (auto simp: cat_lang_def text_at_append)
  then show "lang_span m (cat_lang A B) i j" using *(5) unfolding lang_span_def by (intro bexI [of _ "x @ y"]) simp_all
qed

lemma lang_span_UN: "lang_span m (\<Union>x \<in> I. A x) i j \<longleftrightarrow> (\<exists>x \<in> I. lang_span m (A x) i j)"
  by (auto simp: lang_span_def)

lemma lang_span_insert: "lang_span m (insert [] A) i j \<longleftrightarrow> i = j \<or> lang_span m A i j"
  by (auto simp: lang_span_def text_at_def)

lemma lang_span_power: "lang_span m (power_lang A n) = (lang_span m A ^^ n)"
proof (induction n)
  case 0
  then show ?case by (simp add: lang_span_Nil)
next
  case (Suc n)
  have "lang_span m (power_lang A (Suc n)) = lang_span m A OO (lang_span m A ^^ n)" by (simp add: lang_span_conc Suc)
  also have "\<dots> = (lang_span m A ^^ Suc n)" by (simp add: relpowp_commute)
  finally show ?case .
qed

lemma lang_span_chr: "lang_span m {[c]} = leaf_span m OCHAR (unat c)"
  by (auto simp: lang_span_def text_at_def leaf_span_def fun_eq_iff)

lemma lang_span_dot: "lang_span m {[c] | c. True} = leaf_span m OANY n"
  by (auto simp: lang_span_def text_at_def leaf_span_def fun_eq_iff)

section \<open>Repetitions\<close>

lemma relpowp_first:
  "(\<exists>n. Suc lo \<le> n \<and> Q n \<and> (R ^^ n) i j) \<longleftrightarrow> (\<exists>k. R i k \<and> (\<exists>n. lo \<le> n \<and> Q (Suc n) \<and> (R ^^ n) k j))"
proof
  assume "\<exists>n. Suc lo \<le> n \<and> Q n \<and> (R ^^ n) i j"
  then obtain n where "Suc lo \<le> Suc n" "Q (Suc n)" "(R ^^ Suc n) i j" by (metis Suc_le_D)
  then show "\<exists>k. R i k \<and> (\<exists>n. lo \<le> n \<and> Q (Suc n) \<and> (R ^^ n) k j)" using relpowp_Suc_D2 [of n R i j] by auto
next
  assume "\<exists>k. R i k \<and> (\<exists>n. lo \<le> n \<and> Q (Suc n) \<and> (R ^^ n) k j)"
  then obtain k n where "R i k" "lo \<le> n" "Q (Suc n)" "(R ^^ n) k j" by blast
  then show "\<exists>n. Suc lo \<le> n \<and> Q n \<and> (R ^^ n) i j" using relpowp_Suc_I2 [of R i k n j] by (intro exI [of _ "Suc n"]) simp
qed

text \<open>The tree of a bounded repetition matches from \<open>lo\<close> to \<open>hi\<close> matches in a row.\<close>

definition repeated :: "(nat \<Rightarrow> nat \<Rightarrow> bool) \<Rightarrow> nat \<Rightarrow> nat \<Rightarrow> nat \<Rightarrow> nat \<Rightarrow> bool" where
  "repeated R lo hi i j \<longleftrightarrow> (\<exists>n. lo \<le> n \<and> (hi = INFINITY \<or> n \<le> hi) \<and> (R ^^ n) i j)"

lemma repeated_none: "repeated R 0 0 = (=)"
  by (auto simp: repeated_def fun_eq_iff)

lemma repeated_once: "repeated R 1 1 = R"
proof -
  have "(\<exists>n. 1 \<le> n \<and> n \<le> 1 \<and> (R ^^ n) i j) \<longleftrightarrow> R i j" for i j by (metis le_antisym order_refl relpowp_1)
  then show ?thesis by (simp add: repeated_def fun_eq_iff)
qed

lemma repeated_opt: "0 < hi \<Longrightarrow> repeated R 0 hi i j \<longleftrightarrow> i = j \<or> repeated R 1 hi i j"
proof -
  assume "0 < hi"
  have "(R ^^ n) i j \<Longrightarrow> i = j \<or> 1 \<le> n" for n by (cases n) auto
  then show ?thesis by (auto simp: repeated_def intro: exI [of _ 0])
qed

lemma repeated_inf: "repeated R 1 INFINITY i j \<longleftrightarrow> R\<^sup>+\<^sup>+ i j"
  by (auto simp: repeated_def tranclp_power Suc_le_eq)

lemma repeated_Suc:
  assumes "Suc h \<noteq> INFINITY" "h \<noteq> INFINITY"
  shows "repeated R (Suc l) (Suc h) = R OO repeated R l h"
  using relpowp_first [of l "\<lambda>n. n \<le> Suc h" R] assms by (simp add: repeated_def fun_eq_iff relcompp_apply)

lemma repeated_Suc_inf: "repeated R (Suc l) INFINITY = R OO repeated R l INFINITY"
  using relpowp_first [of l "\<lambda>_. True" R] by (simp add: repeated_def fun_eq_iff relcompp_apply)

lemma repeated_more:
  assumes "1 < Suc h" "Suc h \<noteq> INFINITY" "h \<noteq> INFINITY"
  shows "repeated R 1 (Suc h) i j \<longleftrightarrow> (R OO repeated R 1 h) i j \<or> repeated R 1 h i j"
proof -
  have "repeated R 1 (Suc h) i j \<longleftrightarrow> (R OO repeated R 0 h) i j" using repeated_Suc [OF assms(2,3), of R 0] by simp
  also have "\<dots> \<longleftrightarrow> R i j \<or> (R OO repeated R 1 h) i j" using repeated_opt [of h R] assms(1) by (auto simp: relcompp_apply)
  finally have *: "repeated R 1 (Suc h) i j \<longleftrightarrow> R i j \<or> (R OO repeated R 1 h) i j" .
  have "repeated R 1 h i j \<Longrightarrow> repeated R 1 (Suc h) i j" using assms(2,3) by (auto simp: repeated_def intro: le_SucI)
  moreover have "R i j \<Longrightarrow> repeated R 1 h i j" using assms(1) unfolding repeated_def by (intro exI [of _ 1]) auto
  ultimately show ?thesis using * by blast
qed

lemma spans_opt:
  assumes "0 < hi" "tree_spans m (reps xs 1 hi) = repeated (tree_spans m xs) 1 hi"
  shows "tree_spans m (reps xs 0 hi) = repeated (tree_spans m xs) 0 hi"
proof (intro ext)
  fix i j
  have "tree_spans m (reps xs 0 hi) i j \<longleftrightarrow> tree_spans m (reps xs 1 hi) i j \<or> i = j"
    unfolding reps_cases(2) [OF assms(1)] by (simp add: OO_eq)
  then show "tree_spans m (reps xs 0 hi) i j = repeated (tree_spans m xs) 0 hi i j"
    unfolding repeated_opt [OF assms(1)] assms(2) by blast
qed

lemma spans_more:
  assumes "1 < Suc h" "Suc h \<noteq> INFINITY" "h \<noteq> INFINITY" "tree_spans m (reps xs 1 h) = repeated (tree_spans m xs) 1 h"
  shows "tree_spans m (reps xs 1 (Suc h)) = repeated (tree_spans m xs) 1 (Suc h)"
proof (intro ext)
  fix i j
  have r: "reps xs 1 (Suc h) = Choice xs [[]] # reps xs 1 h" using reps_cases(4) [OF assms(1,2)] by simp
  have "tree_spans m (reps xs 1 (Suc h)) i j \<longleftrightarrow> (tree_spans m xs OO tree_spans m (reps xs 1 h)) i j \<or> tree_spans m (reps xs 1 h) i j"
    unfolding r by auto
  then show "tree_spans m (reps xs 1 (Suc h)) i j = repeated (tree_spans m xs) 1 (Suc h) i j"
    unfolding repeated_more [OF assms(1-3)] assms(4) .
qed

lemma spans_inf: "tree_spans m (reps xs 1 INFINITY) = repeated (tree_spans m xs) 1 INFINITY"
proof (intro ext)
  fix i j
  show "tree_spans m (reps xs 1 INFINITY) i j = repeated (tree_spans m xs) 1 INFINITY i j"
    unfolding repeated_inf reps_cases(5) by (simp add: OO_eq)
qed

lemma reps_spans:
  "lo \<le> hi \<Longrightarrow> lo < INFINITY \<Longrightarrow> hi \<le> INFINITY \<Longrightarrow> tree_spans m (reps xs lo hi) = repeated (tree_spans m xs) lo hi"
proof (induction "lo + hi + (if lo = 0 then 2 else 0)" arbitrary: lo hi rule: less_induct)
  case less
  show ?case
  proof (rule bounds_cases [OF less(2-4)])
    assume "lo = 0" "hi = 0"
    then show ?thesis by (simp only: reps_cases(1) repeated_none foldr.simps id_apply)
  next
    assume opt: "lo = 0" "0 < hi"
    then have "tree_spans m (reps xs 1 hi) = repeated (tree_spans m xs) 1 hi" using less(4) by (intro less(1)) simp_all
    then show ?thesis unfolding opt(1) by (rule spans_opt [OF opt(2)])
  next
    assume "lo = 1" "hi = 1"
    then show ?thesis by (simp only: reps_cases(3) repeated_once)
  next
    assume more: "lo = 1" "1 < hi" "hi \<noteq> INFINITY"
    then obtain h where h: "hi = Suc h" by (cases hi) simp_all
    have "tree_spans m (reps xs 1 h) = repeated (tree_spans m xs) 1 h" using more less(4) h by (intro less(1)) simp_all
    then show ?thesis unfolding more(1) h using more(2,3) less(4) unfolding h by (intro spans_more) simp_all
  next
    assume "lo = 1" "hi = INFINITY"
    then show ?thesis using spans_inf by (simp only:)
  next
    assume many: "1 < lo" "1 < hi" "hi \<noteq> INFINITY"
    then obtain l h where lh: "lo = Suc l" "hi = Suc h" by (cases lo; cases hi) simp_all
    have n: "lo \<noteq> INFINITY" "h \<noteq> INFINITY" "Suc h \<noteq> INFINITY" using less(3,4) many(3) lh by simp_all
    have ih: "tree_spans m (reps xs l h) = repeated (tree_spans m xs) l h" using many less(2-4) lh by (intro less(1)) auto
    have "reps xs lo hi = xs @ reps xs l h" using reps_cases(6) [OF many(1) n(1) many(2,3), of xs] lh by simp
    then show ?thesis unfolding lh using repeated_Suc [OF n(3,2)] ih by (simp only: spans_append)
  next
    assume inf: "1 < lo" "hi = INFINITY"
    then obtain l where l: "lo = Suc l" by (cases lo) simp_all
    have n: "lo \<noteq> INFINITY" using less(3) by simp
    have ih: "tree_spans m (reps xs l INFINITY) = repeated (tree_spans m xs) l INFINITY" using inf less(3) l by (intro less(1)) auto
    have "reps xs lo INFINITY = xs @ reps xs l INFINITY" using reps_cases(7) [OF inf(1) n, of xs] l by simp
    then show ?thesis unfolding l inf(2) using repeated_Suc_inf ih by (simp only: spans_append)
  qed
qed

section \<open>The trees of an expression\<close>

fun plain_tree :: "ptree \<Rightarrow> bool" where
  "plain_tree (Leaf op n) = (op \<in> {OCHAR, OANY})"
| "plain_tree (Par n xs) = list_all plain_tree xs"
| "plain_tree (Loop xs) = list_all plain_tree xs"
| "plain_tree (Maybe xs) = list_all plain_tree xs"
| "plain_tree (Choice x bs) = (list_all plain_tree x \<and> bs \<noteq> [] \<and> list_all (list_all plain_tree) bs)"

lemma plain_tree_ok: "plain_tree t \<Longrightarrow> tree_ok k t"
  by (induction t) (auto simp: leaf_ok_def list_all_iff)

lemma plain_reps: "list_all plain_tree xs \<Longrightarrow> list_all plain_tree (reps xs lo hi)"
proof (induction xs lo hi rule: reps.induct)
  case (1 xs lo hi)
  then show ?case by (subst reps.simps) (auto split: rep.split)
qed

lemma more_branches_ops: "x \<in> set (more_branches bs) \<Longrightarrow> OP x \<in> {OOR1, OOR2, O_CH} \<or> (\<exists>b \<in> set bs. x \<in> set b)"
  by (induction bs rule: more_branches.induct) auto

lemma plain_lay_ops: "plain_tree t \<Longrightarrow> x \<in> set (lay t) \<Longrightarrow> OP x \<notin> {OBOL, OEOL, OBOW, OEOW}"
proof (induction t)
  case (Choice y bs)
  have "OP x \<notin> {OBOL, OEOL, OBOW, OEOW}" if "x \<in> set (lays ts)" "ts = y \<or> ts \<in> set bs" for ts
  proof -
    obtain t where "t \<in> set ts" "x \<in> set (lay t)" using \<open>x \<in> set (lays ts)\<close> by auto
    then show ?thesis using Choice(1,2,3) \<open>ts = y \<or> ts \<in> set bs\<close> by (auto simp: list_all_iff)
  qed
  moreover have "x \<in> set (lays y) \<or> OP x \<in> {OCH, OOR1, OOR2, O_CH} \<or> (\<exists>ts \<in> set bs. x \<in> set (lays ts))"
    using Choice(4) more_branches_ops [of x "map lays bs"] by (auto simp: Let_def)
  ultimately show ?case by auto
qed (auto simp: Let_def list_all_iff)

definition means :: "ptree list \<Rightarrow> byte_lang \<Rightarrow> bool" where
  "means ts A \<longleftrightarrow> list_all plain_tree ts \<and> (\<forall>m. tree_spans m ts = lang_span m A)"

lemma means_Nil: "means [] {[]}"
  by (simp add: means_def lang_span_Nil)

lemma means_append: "means ts A \<Longrightarrow> means us B \<Longrightarrow> means (ts @ us) (cat_lang A B)"
  by (simp only: means_def list_all_append spans_append lang_span_conc simp_thms)

lemma means_chr: "means [Leaf OCHAR (unat c)] {[c]}"
  by (simp add: means_def OO_eq lang_span_chr)

lemma means_dot: "means [Leaf OANY n] {[c] | c. True}"
  using lang_span_dot by (simp add: means_def OO_eq)

lemma means_par: "means xs A \<Longrightarrow> means [Par n xs] A"
  by (simp add: means_def OO_eq)

lemma lang_span_plus: "lang_span m (\<Union>n \<in> {1..}. power_lang A n) = (lang_span m A)\<^sup>+\<^sup>+"
  by (auto simp: fun_eq_iff lang_span_UN lang_span_power tranclp_power Suc_le_eq Bex_def)

lemma lang_span_star: "lang_span m (\<Union>n. power_lang A n) i j \<longleftrightarrow> i = j \<or> (lang_span m A)\<^sup>+\<^sup>+ i j"
proof -
  have "(\<Union>n. power_lang A n) = insert [] (\<Union>n \<in> {1..}. power_lang A n)"
  proof (intro equalityI subsetI)
    fix w assume "w \<in> (\<Union>n. power_lang A n)"
    then obtain n where "w \<in> power_lang A n" by blast
    then show "w \<in> insert [] (\<Union>n \<in> {1..}. power_lang A n)" by (cases n) (auto intro: bexI [of _ n])
  qed (auto intro: exI [of _ 0])
  then show ?thesis by (simp only: lang_span_insert lang_span_plus)
qed

lemma means_plus: "means xs A \<Longrightarrow> means [Loop xs] (\<Union>n \<in> {1..}. power_lang A n)"
proof -
  have "tree_spans m [Loop xs] = (tree_spans m xs)\<^sup>+\<^sup>+" for m by (simp add: OO_eq)
  then show "means xs A \<Longrightarrow> means [Loop xs] (\<Union>n \<in> {1..}. power_lang A n)" by (simp only: means_def lang_span_plus) simp
qed

lemma means_star: "means xs A \<Longrightarrow> means [Maybe [Loop xs]] (\<Union>n. power_lang A n)"
proof -
  have "tree_spans m [Maybe [Loop xs]] = (\<lambda>i j. i = j \<or> (tree_spans m xs)\<^sup>+\<^sup>+ i j)" for m by (simp add: OO_eq)
  moreover have "lang_span m (\<Union>n. power_lang A n) = (\<lambda>i j. i = j \<or> (lang_span m A)\<^sup>+\<^sup>+ i j)" for m by (intro ext) (rule lang_span_star)
  ultimately show "means xs A \<Longrightarrow> means [Maybe [Loop xs]] (\<Union>n. power_lang A n)" by (simp only: means_def) simp
qed

lemma means_opt: "means xs A \<Longrightarrow> means [Choice xs [[]]] (insert [] A)"
  by (auto simp: means_def OO_eq lang_span_insert fun_eq_iff)

lemma means_times:
  assumes "means xs A" "lo \<le> hi" "lo < INFINITY" "hi \<le> INFINITY"
  shows "means (reps xs lo hi) (\<Union>n \<in> {n. lo \<le> n \<and> (hi = INFINITY \<or> n \<le> hi)}. power_lang A n)"
proof -
  have "tree_spans m (reps xs lo hi) = repeated (lang_span m A) lo hi" for m
    using reps_spans [OF assms(2-4), of m xs] assms(1) by (simp add: means_def)
  moreover have "lang_span m (\<Union>n \<in> {n. lo \<le> n \<and> (hi = INFINITY \<or> n \<le> hi)}. power_lang A n) = repeated (lang_span m A) lo hi" for m
    by (auto simp: fun_eq_iff repeated_def lang_span_UN lang_span_power)
  ultimately show ?thesis using assms(1) plain_reps by (simp add: means_def)
qed

lemma means_choice:
  assumes "means x A" "list_all2 means bs Bs" "bs \<noteq> []"
  shows "means [Choice x bs] (A \<union> \<Union>(set Bs))"
proof -
  have pl: "list_all (list_all plain_tree) bs" using assms(2) by (induction bs Bs rule: list_all2_induct) (simp_all add: means_def)
  have "(\<exists>b \<in> set bs. tree_spans m b i j) \<longleftrightarrow> lang_span m (\<Union>(set Bs)) i j" for m i j
    using assms(2) by (induction bs Bs rule: list_all2_induct) (auto simp: means_def lang_span_def)
  then show ?thesis using assms(1,3) pl by (auto simp: means_def OO_eq fun_eq_iff lang_span_def)
qed

section \<open>The text of an expression\<close>

definition ere_special :: "byte \<Rightarrow> bool" where
  "ere_special c \<longleftrightarrow> c \<in> {k_caret, k_dot, k_lbrack, k_dollar, k_lparen, k_rparen, k_bar, k_star, k_plus, k_quest, k_lbrace, k_bslash}"

fun dec_text :: "nat \<Rightarrow> byte list" where
  "dec_text n = (if n < 10 then [of_nat (0x30 + n)] else dec_text (n div 10) @ [of_nat (0x30 + n mod 10)])"

declare dec_text.simps [simp del]

fun bars :: "byte list list \<Rightarrow> byte list" where
  "bars [] = []"
| "bars [b] = b"
| "bars (b # bs) = b @ k_bar # bars bs"

fun ere_text :: "ere \<Rightarrow> byte list" where
  "ere_text (EChr c) = (if ere_special c then [k_bslash, c] else [c])"
| "ere_text EDot = [k_dot]"
| "ere_text (ESub bs) = k_lparen # bars (map (\<lambda>b. concat (map ere_text b)) bs) @ [k_rparen]"
| "ere_text (EStar e) = ere_text e @ [k_star]"
| "ere_text (EPlus e) = ere_text e @ [k_plus]"
| "ere_text (EOpt e) = ere_text e @ [k_quest]"
| "ere_text (ETimes e lo hi) = ere_text e @ k_lbrace # dec_text lo @ k_comma # (if hi = INFINITY then [] else dec_text hi) @ [k_rbrace]"

abbreviation branch_text :: "ere list \<Rightarrow> byte list" where
  "branch_text b \<equiv> concat (map ere_text b)"

definition alts_text :: "ere list list \<Rightarrow> byte list" where
  "alts_text bs = bars (map branch_text bs)"

fun ere_atomic :: "ere \<Rightarrow> bool" where
  "ere_atomic (EChr c) = True"
| "ere_atomic EDot = True"
| "ere_atomic (ESub bs) = True"
| "ere_atomic _ = False"

text \<open>\<open>e{0,0}\<close> leaves nothing in the strip, and a branch of nothing else is an error (\<open>REG_EMPTY\<close>).\<close>

fun ere_void :: "ere \<Rightarrow> bool" where
  "ere_void (ETimes e lo hi) = (hi = 0)"
| "ere_void _ = False"

fun ere_wf :: "ere \<Rightarrow> bool" where
  "ere_wf (EChr c) = (c \<noteq> 0)"
| "ere_wf EDot = True"
| "ere_wf (ESub bs) = (bs \<noteq> [] \<and> list_all (\<lambda>b. list_ex (Not \<circ> ere_void) b \<and> list_all ere_wf b) bs)"
| "ere_wf (EStar e) = (ere_atomic e \<and> ere_wf e)"
| "ere_wf (EPlus e) = (ere_atomic e \<and> ere_wf e)"
| "ere_wf (EOpt e) = (ere_atomic e \<and> ere_wf e)"
| "ere_wf (ETimes e lo hi) = (ere_atomic e \<and> ere_wf e \<and> lo \<le> hi \<and> lo \<le> DUPMAX \<and> hi \<le> INFINITY)"

definition alts_wf :: "ere list list \<Rightarrow> bool" where
  "alts_wf bs \<longleftrightarrow> bs \<noteq> [] \<and> list_all (\<lambda>b. list_ex (Not \<circ> ere_void) b \<and> list_all ere_wf b) bs"

lemma text_head: "ere_wf e \<Longrightarrow> \<exists>c cs. ere_text e = c # cs \<and> c \<notin> {k_caret, k_lbrack, k_dollar, k_rparen, k_bar, k_star, k_plus, k_quest, k_lbrace}"
  by (induction e) (auto simp: ere_special_def)

lemma lays_Nil: "lays ts = [] \<longleftrightarrow> ts = []"
proof -
  have "lay t \<noteq> []" for t by (cases t) (simp_all add: Let_def)
  then show ?thesis by (cases ts) simp_all
qed

lemma reps_nonempty:
  assumes "xs \<noteq> []" "0 < hi" "lo \<le> hi" "lo < INFINITY" "hi \<le> INFINITY"
  shows "reps xs lo hi \<noteq> []"
  by (rule bounds_cases [OF assms(3-5)]) (use assms(1,2,4) in \<open>auto simp: reps_cases simp del: One_nat_def\<close>)

lemma isdigit_value: "isdigit c \<longleftrightarrow> 48 \<le> unat c \<and> unat c \<le> 57"
  by (simp add: isdigit_def word_le_nat_alt)

lemma digit_byte: "d < 10 \<Longrightarrow> unat (of_nat (0x30 + d) :: byte) = 48 + d"
  by (subst unat_of_nat) simp

text \<open>A number is read back.\<close>

lemma count_loop_append:
  assumes "count_loop xs n d = (n', d', [])"
  shows "count_loop (xs @ ys) n d = count_loop ys n' d'"
  using assms by (induction xs arbitrary: n d) (auto split: if_splits)

lemma count_digit:
  assumes "d < 10" "n \<le> DUPMAX"
  shows "count_loop (of_nat (0x30 + d) # cs) n k = count_loop cs (n * 10 + d) (k + 1)"
proof -
  let ?c = "of_nat (0x30 + d) :: byte"
  have u: "unat ?c = 48 + d" using digit_byte [OF assms(1)] .
  then have "isdigit ?c" using assms(1) by (simp add: isdigit_value)
  moreover have "unat (?c - 0x30) = d" using u unat_sub [of "0x30" ?c] by (simp add: word_le_nat_alt)
  ultimately show ?thesis using assms(2) by simp
qed

lemma count_dec: "n < 1000 \<Longrightarrow> \<exists>d. 0 < d \<and> count_loop (dec_text n) 0 0 = (n, d, [])"
proof (induction n rule: dec_text.induct)
  case (1 n)
  show ?case
  proof (cases "n < 10")
    case True
    then show ?thesis using count_digit [OF True, of 0 "[]" 0] by (subst dec_text.simps) simp
  next
    case False
    have d: "n div 10 < 1000" "n div 10 \<le> DUPMAX" using 1(2) by linarith+
    obtain d where d': "0 < d" "count_loop (dec_text (n div 10)) 0 0 = (n div 10, d, [])" using 1(1) [OF False d(1)] by blast
    have "n mod 10 < 10" by simp
    from count_digit [OF this d(2), of "[]" d] have "count_loop [of_nat (0x30 + n mod 10)] (n div 10) d = (n, d + 1, [])"
      by (simp add: mult.commute)
    then show ?thesis using d' count_loop_append [OF d'(2)] False by (subst dec_text.simps) auto
  qed
qed

lemma dec_text_ascii: "c \<in> set (dec_text n) \<Longrightarrow> isdigit c"
proof (induction n rule: dec_text.induct)
  case (1 n)
  have d: "isdigit (of_nat (0x30 + k))" if "k < 10" for k using digit_byte [OF that] that by (simp add: isdigit_value)
  show ?case
  proof (cases "n < 10")
    case True
    then have "c = of_nat (0x30 + n)" using 1(2) by (subst (asm) dec_text.simps) simp
    then show ?thesis using d [OF True] by simp
  next
    case False
    then have "c \<in> set (dec_text (n div 10)) \<or> c = of_nat (0x30 + n mod 10)" using 1(2) by (subst (asm) dec_text.simps) auto
    then show ?thesis using 1(1) [OF False] d [of "n mod 10"] by auto
  qed
qed

lemma dec_text_nonempty: "dec_text n \<noteq> []"
  by (subst dec_text.simps) simp

lemma dec_text_Cons: "\<exists>c cs. dec_text n = c # cs \<and> isdigit c"
  using dec_text_nonempty [of n] dec_text_ascii [of _ n] by (cases "dec_text n") auto

lemma set_bars: "c \<in> set (bars bs) \<Longrightarrow> c = k_bar \<or> (\<exists>b \<in> set bs. c \<in> set b)"
  by (induction bs rule: bars.induct) auto

lemma isdigit_zero: "\<not> isdigit 0"
  by (simp add: isdigit_def)

lemma ere_text_nonzero: "ere_wf e \<Longrightarrow> 0 \<notin> set (ere_text e)"
proof (induction e)
  case (ESub bs)
  have "0 \<notin> set (bars (map branch_text bs))"
  proof
    assume "0 \<in> set (bars (map branch_text bs))"
    then obtain b e where "b \<in> set bs" "e \<in> set b" "0 \<in> set (ere_text e)" using set_bars [of 0 "map branch_text bs"] by auto
    then show False using ESub by (auto simp: list_all_iff)
  qed
  then show ?case by simp
qed (use dec_text_ascii isdigit_zero in auto)

lemma alts_text_nonzero: "alts_wf bs \<Longrightarrow> 0 \<notin> set (alts_text bs)"
  using ere_text_nonzero [of "ESub bs"] by (simp add: alts_wf_def alts_text_def)

section \<open>Empty words and alternatives\<close>

lemma tranclp_stays:
  assumes "\<And>i j. R i j \<Longrightarrow> i \<le> (j :: nat)"
  shows "R\<^sup>+\<^sup>+ i i \<longleftrightarrow> R i i"
proof
  have mono: "R\<^sup>*\<^sup>* k j \<Longrightarrow> k \<le> j" for k j by (induction rule: rtranclp_induct) (auto dest: assms)
  assume "R\<^sup>+\<^sup>+ i i"
  then obtain k where "R i k" "R\<^sup>*\<^sup>* k i" by (blast dest: tranclpD)
  then show "R i i" using assms [of i k] mono [of k i] by simp
qed blast

lemma nulls_spans:
  assumes "\<And>t. t \<in> set ts \<Longrightarrow> null_tree t \<longleftrightarrow> tree_span m t i i"
  shows "nulls ts \<longleftrightarrow> tree_spans m ts i i"
  using assms
proof (induction ts)
  case (Cons t ts)
  have "tree_spans m (t # ts) i i \<longleftrightarrow> (\<exists>k. tree_span m t i k \<and> tree_spans m ts k i)" by (simp add: relcompp_apply)
  also have "\<dots> \<longleftrightarrow> tree_span m t i i \<and> tree_spans m ts i i" using span_mono spans_mono by (metis le_antisym)
  finally show ?case using Cons by simp
qed simp

lemma null_span: "plain_tree t \<Longrightarrow> null_tree t \<longleftrightarrow> tree_span m t i i"
proof (induction t)
  case (Leaf op n)
  then have "\<not> tree_span m (Leaf op n) i i" by (auto simp: leaf_span_def)
  then show ?case by simp
next
  case (Par n xs)
  have "\<forall>t \<in> set xs. plain_tree t" using Par(2) by (simp add: list_all_iff)
  then have "nulls xs \<longleftrightarrow> tree_spans m xs i i" using Par(1) by (intro nulls_spans) blast
  then show ?case by (simp only: null_tree.simps tree_span.simps)
next
  case (Loop xs)
  have "\<forall>t \<in> set xs. plain_tree t" using Loop(2) by (simp add: list_all_iff)
  then have "nulls xs \<longleftrightarrow> tree_spans m xs i i" using Loop(1) by (intro nulls_spans) blast
  moreover have "(tree_spans m xs)\<^sup>+\<^sup>+ i i \<longleftrightarrow> tree_spans m xs i i"
  proof (rule tranclp_stays)
    fix k j assume "tree_spans m xs k j"
    then show "k \<le> j" using spans_mono [of xs m k j] span_mono by blast
  qed
  ultimately show ?case by (simp only: null_tree.simps tree_span.simps)
next
  case (Maybe xs)
  show ?case by simp
next
  case (Choice x bs)
  have pl: "\<forall>t \<in> set x. plain_tree t" "\<forall>b \<in> set bs. \<forall>t \<in> set b. plain_tree t" using Choice(3) by (simp_all add: list_all_iff)
  have "nulls x \<longleftrightarrow> tree_spans m x i i" using Choice(1) pl(1) by (intro nulls_spans) blast
  moreover have "nulls b \<longleftrightarrow> tree_spans m b i i" if "b \<in> set bs" for b using Choice(2) pl(2) that by (intro nulls_spans) blast
  ultimately show ?case by (simp only: null_tree.simps tree_span.simps list_ex_iff) blast
qed

lemma means_nulls:
  assumes "means ts A"
  shows "nulls ts \<longleftrightarrow> [] \<in> A"
proof -
  define m :: matchst where "m = undefined"
  have "nulls ts \<longleftrightarrow> tree_spans m ts 0 0" using assms null_span by (intro nulls_spans) (simp add: means_def list_all_iff)
  also have "\<dots> \<longleftrightarrow> lang_span m A 0 0" using assms by (simp add: means_def)
  also have "\<dots> \<longleftrightarrow> [] \<in> A" by (auto simp: lang_span_def text_at_def)
  finally show ?thesis .
qed

fun ere_null :: "ere \<Rightarrow> bool" where
  "ere_null (EChr c) = False"
| "ere_null EDot = False"
| "ere_null (ESub bs) = list_ex (list_all ere_null) bs"
| "ere_null (EStar e) = True"
| "ere_null (EPlus e) = ere_null e"
| "ere_null (EOpt e) = True"
| "ere_null (ETimes e lo hi) = (lo = 0 \<or> ere_null e)"

lemma cat_lang_Nil: "[] \<in> cat_lang A B \<longleftrightarrow> [] \<in> A \<and> [] \<in> B"
  by (auto simp: cat_lang_def)

lemma power_lang_Nil: "[] \<in> power_lang A n \<longleftrightarrow> n = 0 \<or> [] \<in> A"
  by (induction n) (auto simp: cat_lang_Nil)

lemma branch_lang_Nil: "(\<And>e. e \<in> set b \<Longrightarrow> [] \<in> ere_lang e \<longleftrightarrow> ere_null e) \<Longrightarrow> [] \<in> branch_lang b \<longleftrightarrow> list_all ere_null b"
  by (induction b) (simp_all add: cat_lang_Nil)

lemma ere_lang_Nil: "ere_wf e \<Longrightarrow> [] \<in> ere_lang e \<longleftrightarrow> ere_null e"
proof (induction e)
  case (ESub bs)
  have "[] \<in> branch_lang b \<longleftrightarrow> list_all ere_null b" if "b \<in> set bs" for b
    using ESub that by (intro branch_lang_Nil) (auto simp: list_all_iff)
  then show ?case by (simp add: list_ex_iff)
next
  case (ETimes e lo hi)
  have "(\<exists>n. lo \<le> n \<and> (hi = INFINITY \<or> n \<le> hi) \<and> (n = 0 \<or> [] \<in> ere_lang e)) \<longleftrightarrow> lo = 0 \<or> [] \<in> ere_lang e"
    using ETimes(2) by auto
  then show ?case using ETimes by (auto simp: power_lang_Nil)
qed (auto simp: power_lang_Nil intro: exI [of _ 0])

text \<open>
  Alternatives are snug if only the last may be empty, unless the last ends in a group or one of \<open>*\<close>, \<open>+\<close> and \<open>?\<close>.
\<close>

fun ere_bare :: "ere \<Rightarrow> bool" where
  "ere_bare (EChr c) = True"
| "ere_bare EDot = True"
| "ere_bare (ETimes e lo hi) = True"
| "ere_bare _ = False"

definition bare_branch :: "ere list \<Rightarrow> bool" where
  "bare_branch b \<longleftrightarrow> b = [] \<or> ere_bare (last b)"

definition snug_branches :: "ere list list \<Rightarrow> bool" where
  "snug_branches bs \<longleftrightarrow> (list_ex (list_all ere_null) (butlast bs) \<longrightarrow> \<not> bare_branch (last bs))"

fun ere_snug :: "ere \<Rightarrow> bool" where
  "ere_snug (EChr c) = True"
| "ere_snug EDot = True"
| "ere_snug (ESub bs) = (list_all (list_all ere_snug) bs \<and> snug_branches bs)"
| "ere_snug (EStar e) = ere_snug e"
| "ere_snug (EPlus e) = ere_snug e"
| "ere_snug (EOpt e) = ere_snug e"
| "ere_snug (ETimes e lo hi) = ere_snug e"

definition alts_snug :: "ere list list \<Rightarrow> bool" where
  "alts_snug bs \<longleftrightarrow> list_all (list_all ere_snug) bs \<and> snug_branches bs"

section \<open>The trees of a text\<close>

text \<open>What is known of the trees: their language, that there are any, how they end and whether they are tight.\<close>

definition shape :: "byte_lang \<Rightarrow> bool \<Rightarrow> bool \<Rightarrow> bool \<Rightarrow> ptree list \<Rightarrow> bool" where
  "shape A void bare snug ts \<longleftrightarrow> means ts A \<and> (void \<or> ts \<noteq> []) \<and> (bare \<or> \<not> ends_leaf ts) \<and> (snug \<longrightarrow> list_all tight ts)"

definition of_ere :: "ere \<Rightarrow> ptree list \<Rightarrow> bool" where
  "of_ere e = shape (ere_lang e) (ere_void e) (ere_bare e) (ere_snug e)"

definition of_branch :: "ere list \<Rightarrow> ptree list \<Rightarrow> bool" where
  "of_branch b ts \<longleftrightarrow> shape (branch_lang b) (\<not> list_ex (Not \<circ> ere_void) b) (bare_branch b) (list_all ere_snug b) ts \<and> (b = [] \<longrightarrow> ts = [])"

definition of_alts :: "ere list list \<Rightarrow> ptree list \<Rightarrow> bool" where
  "of_alts bs = shape (alts_lang bs) False True (alts_snug bs)"

lemma shape_means: "of_ere e ts \<Longrightarrow> means ts (ere_lang e)" "of_branch b ts \<Longrightarrow> means ts (branch_lang b)" "of_alts bs ts \<Longrightarrow> means ts (alts_lang bs)"
  by (simp_all add: of_ere_def of_branch_def of_alts_def shape_def)

lemma of_ere_chr: "of_ere (EChr c) [Leaf OCHAR (unat c)]"
  using means_chr by (simp add: of_ere_def shape_def)

lemma of_ere_dot: "of_ere EDot [Leaf OANY n]"
  using means_dot [of n] by (simp add: of_ere_def shape_def)

lemma of_ere_sub: "of_alts bs ts \<Longrightarrow> of_ere (ESub bs) [Par n ts]"
  using means_par [of ts "alts_lang bs" n] by (simp add: of_ere_def of_alts_def shape_def ends_leaf_def alts_lang_def alts_snug_def)

lemma of_ere_star: "of_ere e ts \<Longrightarrow> of_ere (EStar e) [Maybe [Loop ts]]"
  using means_star [of ts "ere_lang e"] by (simp add: of_ere_def shape_def ends_leaf_def)

lemma of_ere_plus: "of_ere e ts \<Longrightarrow> of_ere (EPlus e) [Loop ts]"
  using means_plus [of ts "ere_lang e"] by (simp add: of_ere_def shape_def ends_leaf_def)

lemma of_ere_opt: "of_ere e ts \<Longrightarrow> of_ere (EOpt e) [Choice ts [[]]]"
  using means_opt [of ts "ere_lang e"] by (simp add: of_ere_def shape_def ends_leaf_def)

lemma tight_reps: "list_all tight xs \<Longrightarrow> list_all tight (reps xs lo hi)"
proof (induction xs lo hi rule: reps.induct)
  case (1 xs lo hi)
  then show ?case by (subst reps.simps) (auto simp: ends_leaf_def split: rep.split)
qed

lemma of_ere_times:
  assumes "of_ere e ts" "ts \<noteq> []" "lo \<le> hi" "lo < INFINITY" "hi \<le> INFINITY"
  shows "of_ere (ETimes e lo hi) (reps ts lo hi)"
proof -
  have "means (reps ts lo hi) (ere_lang (ETimes e lo hi))" using means_times [OF shape_means(1) [OF assms(1)] assms(3-5)] by simp
  moreover have "ere_void (ETimes e lo hi) \<or> reps ts lo hi \<noteq> []" using reps_nonempty [OF assms(2) _ assms(3-5)] by auto
  moreover have "ere_snug (ETimes e lo hi) \<longrightarrow> list_all tight (reps ts lo hi)" using assms(1) tight_reps by (simp add: of_ere_def shape_def)
  ultimately show ?thesis by (simp add: of_ere_def shape_def)
qed

lemma of_branch_Nil: "of_branch [] []"
  using means_Nil by (simp add: of_branch_def shape_def bare_branch_def)

lemma of_branch_Cons:
  assumes "of_ere e ts" "of_branch es us"
  shows "of_branch (e # es) (ts @ us)"
proof -
  have "means (ts @ us) (branch_lang (e # es))" using means_append [OF shape_means(1) [OF assms(1)] shape_means(2) [OF assms(2)]] by simp
  moreover have "bare_branch (e # es) \<or> \<not> ends_leaf (ts @ us)"
  proof (cases "us = []")
    case True
    have "ere_void (last es)" if "es \<noteq> []"
      using assms(2) True that by (auto simp: of_branch_def shape_def list_ex_iff)
    moreover have "ere_void x \<Longrightarrow> ere_bare x" for x by (cases x) simp_all
    ultimately show ?thesis using assms(1) True by (auto simp: bare_branch_def of_ere_def shape_def)
  next
    case False
    show ?thesis
    proof (cases "es = []")
      case True
      then show ?thesis using assms(2) False by (auto simp: bare_branch_def of_branch_def shape_def)
    qed (use assms(2) False in \<open>auto simp: bare_branch_def of_branch_def shape_def ends_leaf_def\<close>)
  qed
  ultimately show ?thesis using assms by (auto simp: of_branch_def of_ere_def shape_def)
qed

lemma of_alts_one: "of_branch b ts \<Longrightarrow> ts \<noteq> [] \<Longrightarrow> of_alts [b] ts"
  by (simp add: of_alts_def of_branch_def shape_def alts_lang_def alts_snug_def)

lemma branch_nulls:
  assumes "of_branch b ts" "list_all ere_wf b"
  shows "nulls ts \<longleftrightarrow> list_all ere_null b"
proof -
  have "[] \<in> branch_lang b \<longleftrightarrow> list_all ere_null b" using assms(2) ere_lang_Nil by (intro branch_lang_Nil) (simp add: list_all_iff)
  then show ?thesis using means_nulls [OF shape_means(2) [OF assms(1)]] by blast
qed

lemma of_alts_choice:
  assumes "of_branch b x" "list_all2 of_branch cs us" "cs \<noteq> []" "list_all (list_all ere_wf) (b # cs)"
  shows "of_alts (b # cs) [Choice x us]"
proof -
  have all: "length cs = length us" "\<And>i. i < length us \<Longrightarrow> of_branch (cs ! i) (us ! i)" using assms(2) by (auto simp: list_all2_conv_all_nth)
  have us: "us \<noteq> []" using all(1) assms(3) by auto
  have "list_all2 means us (map branch_lang cs)" using all shape_means(2) by (auto simp: list_all2_conv_all_nth)
  from means_choice [OF shape_means(2) [OF assms(1)] this us] have m: "means [Choice x us] (alts_lang (b # cs))" by (simp add: alts_lang_def)
  have "tight (Choice x us)" if snug: "alts_snug (b # cs)"
  proof -
    have t: "list_all (list_all tight) us"
    proof (rule list_all_length [THEN iffD2], intro allI impI)
      fix i assume "i < length us"
      then have i: "cs ! i \<in> set cs" "of_branch (cs ! i) (us ! i)" using all by simp_all
      then have "list_all ere_snug (cs ! i)" using snug by (simp add: alts_snug_def list_all_iff)
      then show "list_all tight (us ! i)" using i(2) by (simp add: of_branch_def shape_def)
    qed
    have e: "\<not> ends_leaf (last us)" if "nulls x \<or> list_ex nulls (butlast us)"
    proof -
      have n: "nulls (us ! i) \<longleftrightarrow> list_all ere_null (cs ! i)" if "i < length us" for i
      proof -
        have "cs ! i \<in> set cs" using that all(1) by simp
        then have "list_all ere_wf (cs ! i)" using assms(4) by (simp add: list_all_iff)
        then show ?thesis using branch_nulls [OF all(2) [OF that]] by blast
      qed
      have "list_ex nulls (butlast us) \<longleftrightarrow> list_ex (list_all ere_null) (butlast cs)"
        using n all(1) by (auto simp: list_ex_length nth_butlast)
      then have "list_ex (list_all ere_null) (butlast (b # cs))"
        using that branch_nulls [OF assms(1)] assms(3,4) by auto
      then have "\<not> bare_branch (last cs)" using snug assms(3) by (simp add: alts_snug_def snug_branches_def)
      moreover have "of_branch (last cs) (last us)" using all(2) [of "length us - 1"] all(1) us assms(3) by (simp add: last_conv_nth)
      ultimately show ?thesis by (simp add: of_branch_def shape_def)
    qed
    have "list_all tight x" using assms(1) snug by (simp add: of_branch_def shape_def alts_snug_def)
    then show ?thesis using t e by simp
  qed
  then show ?thesis using m by (simp add: of_alts_def shape_def)
qed

end
