(* ===== verification/Posix_Ere.thy ===== *)
theory Posix_Ere
  imports Posix_Words
begin

text \<open>
  The extended parser on the text of an expression: it reads all of it without an error, and what it leaves in the strip
  is the layout of trees for the language of the expression. Then the compiler and the engine together: the words of
  the language that \<open>regexec\<close> finds in a text.
\<close>

section \<open>Parsing the text\<close>

text \<open>No error, and neither sets nor a special newline.\<close>

definition plainly :: "cparse \<Rightarrow> bool" where
  "plainly p \<longleftrightarrow> good p \<and> p_error p = 0 \<and> \<not> flag_on (p_cflags p) REG_ICASE \<and> \<not> flag_on (p_cflags p) REG_NEWLINE"

definition adds :: "cparse \<Rightarrow> ptree list \<Rightarrow> byte list \<Rightarrow> cparse \<Rightarrow> bool" where
  "adds p ts cs q \<longleftrightarrow> good q \<and> p_error q = 0 \<and> p_next q = cs \<and> p_cflags q = p_cflags p \<and> p_strip q = p_strip p @ lays ts"

lemma adds_plainly: "adds p ts cs q \<Longrightarrow> plainly p \<Longrightarrow> plainly q"
  by (simp add: adds_def plainly_def)

lemma adds_trans: "adds p ts cs q \<Longrightarrow> adds q us ds r \<Longrightarrow> adds p (ts @ us) ds r"
  by (simp add: adds_def)

lemma adds_refl: "plainly p \<Longrightarrow> adds p [] (p_next p) p"
  by (simp add: adds_def plainly_def)

text \<open>The next characters.\<close>

lemma next_char:
  assumes "p_next p = c # cs"
  shows "MORE p" "PEEK p = c" "SEE d p \<longleftrightarrow> d = c" "p_next (NEXTn 1 p) = cs"
  using assms by (auto simp: MORE_def PEEK_def SEE_def NEXTn_def)

lemma NEXTn_plainly: "plainly p \<Longrightarrow> plainly (NEXTn n p)"
  using parsed_NEXTn [of p n] parsed_good by (auto simp: plainly_def NEXTn_def)

lemma NEXTn_fields: "p_strip (NEXTn n p) = p_strip p" "p_cflags (NEXTn n p) = p_cflags p" "p_error (NEXTn n p) = p_error p"
  by (simp_all add: NEXTn_def)

lemma adds_NEXTn: "adds (NEXTn n p) ts cs q \<longleftrightarrow> adds p ts cs q"
  by (simp add: adds_def NEXTn_fields)

lemma adds_next: "plainly p \<Longrightarrow> p_next p = c # cs \<Longrightarrow> adds p [] cs (NEXTn 1 p)"
  using NEXTn_plainly [of p 1] next_char(4) [of p c cs] by (simp add: adds_def plainly_def NEXTn_fields)

lemma REQUIRE_true: "REQUIRE True e p = p"
  by (simp add: REQUIRE_def)

lemma char_adds:
  assumes "ample mem" "plainly p"
  shows "\<exists>q. ordinary mem c p = Some q \<and> adds p [Leaf OCHAR (unat c)] (p_next p) q"
proof -
  have "ordinary mem c p = emit_char mem c p" using assms(2) by (simp add: ordinary_alt plainly_def)
  moreover obtain q where "emit_char mem c p = Some q" "grew p q" "p_next q = p_next p" "p_error q = 0" "p_strip q = p_strip p @ [(OCHAR, unat c)]"
    using emit_char_ok [OF assms(1), of p c] assms(2) by (auto simp: plainly_def)
  ultimately show ?thesis by (auto simp: adds_def grew_def)
qed

lemma dot_adds:
  assumes "ample mem" "plainly p"
  shows "\<exists>q. doemit mem OANY 0 p = Some q \<and> adds p [Leaf OANY 0] (p_next p) q"
proof -
  obtain q where q: "doemit mem OANY 0 p = Some q" "emitted p (p_strip p @ [(OANY, 0)]) q"
    using doemit_ok [OF assms(1), of p OANY 0] assms(2) by (auto simp: plainly_def)
  show ?thesis using q(1) emitted_fields [OF q(2)] emitted_good [OF q(2)] assms(2) by (auto simp: adds_def plainly_def)
qed

text \<open>What the parser makes of a text \<open>cs\<close> with something behind it.\<close>

definition unrepeated :: "byte list \<Rightarrow> bool" where
  "unrepeated cs \<longleftrightarrow> (case cs of [] \<Rightarrow> True | c # _ \<Rightarrow> c \<notin> {k_star, k_plus, k_quest, k_lbrace})"

lemma unrepeated_at: "unrepeated (p_next p) \<Longrightarrow> \<not> at_repetition p"
  by (auto simp: unrepeated_def at_repetition_def split: list.splits)

definition parses_to :: "cparse \<Rightarrow> byte list \<Rightarrow> (ptree list \<Rightarrow> bool) \<Rightarrow> cparse option \<Rightarrow> bool" where
  "parses_to p rest D r \<longleftrightarrow> (\<exists>q ts. r = Some q \<and> adds p ts rest q \<and> D ts)"

lemma parses_toI: "r = Some q \<Longrightarrow> adds p ts rest q \<Longrightarrow> D ts \<Longrightarrow> parses_to p rest D r"
  unfolding parses_to_def by blast

lemma parses_toE:
  assumes "parses_to p rest D r"
  obtains q ts where "r = Some q" "adds p ts rest q" "D ts"
  using assms unfolding parses_to_def by blast

definition atom_reads :: "allocator \<Rightarrow> ere \<Rightarrow> bool" where
  "atom_reads mem e \<longleftrightarrow> (\<forall>k p rest. plainly p \<and> p_next p = ere_text e @ rest \<and> 4 * length (p_next p) \<le> Suc k \<longrightarrow>
     parses_to p rest (of_ere e) (ere_atom k mem p))"

definition piece_reads :: "allocator \<Rightarrow> ere \<Rightarrow> bool" where
  "piece_reads mem e \<longleftrightarrow> (\<forall>k p rest. plainly p \<and> p_next p = ere_text e @ rest \<and> unrepeated rest \<and> 4 * length (p_next p) \<le> k \<longrightarrow>
     parses_to p rest (of_ere e) (p_ere_exp k mem p))"

lemma atom_readsD:
  assumes "atom_reads mem e" "plainly p" "p_next p = ere_text e @ rest" "4 * length (p_next p) \<le> Suc k"
  shows "parses_to p rest (of_ere e) (ere_atom k mem p)"
  using assms unfolding atom_reads_def by blast

lemma chr_reads:
  assumes "ample mem"
  shows "atom_reads mem (EChr c)"
  unfolding atom_reads_def
proof (intro allI impI)
  fix k p rest assume p: "plainly p \<and> p_next p = ere_text (EChr c) @ rest \<and> 4 * length (p_next p) \<le> Suc k"
  show "parses_to p rest (of_ere (EChr c)) (ere_atom k mem p)"
  proof (cases "ere_special c")
    case True
    then have n: "p_next p = k_bslash # c # rest" using p by simp
    have n1: "p_next (NEXTn 1 p) = c # rest" using next_char(4) [OF n] .
    have pl: "plainly (NEXTn 1 (NEXTn 1 p))" using p NEXTn_plainly by blast
    obtain q where q: "ordinary mem c (NEXTn 1 (NEXTn 1 p)) = Some q" "adds (NEXTn 1 (NEXTn 1 p)) [Leaf OCHAR (unat c)] rest q"
      using char_adds [OF assms pl, of c] next_char(4) [OF n1] by auto
    have "ere_atom k mem p = Some q"
      using q(1) next_char [OF n] next_char [OF n1] by (simp add: ere_atom_def REQUIRE_true Let_def)
    then show ?thesis using q(2) of_ere_chr by (auto simp: parses_to_def adds_NEXTn)
  next
    case False
    then have n: "p_next p = c # rest" using p by simp
    have pl: "plainly (NEXTn 1 p)" using p NEXTn_plainly by blast
    obtain q where q: "ordinary mem c (NEXTn 1 p) = Some q" "adds (NEXTn 1 p) [Leaf OCHAR (unat c)] rest q"
      using char_adds [OF assms pl, of c] next_char(4) [OF n] by auto
    have "ere_atom k mem p = Some q"
      using q(1) next_char [OF n] False by (simp add: ere_atom_def ere_special_def Let_def)
    then show ?thesis using q(2) of_ere_chr by (auto simp: parses_to_def adds_NEXTn)
  qed
qed

lemma dot_reads:
  assumes "ample mem"
  shows "atom_reads mem EDot"
  unfolding atom_reads_def
proof (intro allI impI)
  fix k p rest assume p: "plainly p \<and> p_next p = ere_text EDot @ rest \<and> 4 * length (p_next p) \<le> Suc k"
  then have n: "p_next p = k_dot # rest" by simp
  have pl: "plainly (NEXTn 1 p)" using p NEXTn_plainly by blast
  obtain q where q: "doemit mem OANY 0 (NEXTn 1 p) = Some q" "adds (NEXTn 1 p) [Leaf OANY 0] rest q"
    using dot_adds [OF assms pl] next_char(4) [OF n] by auto
  have "ere_atom k mem p = Some q"
    using q(1) next_char [OF n] pl by (simp add: ere_atom_def plainly_def Let_def)
  then show "parses_to p rest (of_ere EDot) (ere_atom k mem p)"
    using q(2) of_ere_dot by (auto simp: parses_to_def adds_NEXTn)
qed

section \<open>Repetitions in the text\<close>

lemma adds_emitted:
  assumes "plainly q" "p_cflags q = p_cflags p" "emitted q (p_strip p @ lays us) r"
  shows "adds p us (p_next q) r"
  using emitted_fields [OF assms(3)] emitted_good [OF assms(3)] assms(1,2) by (simp add: adds_def plainly_def)

text \<open>The repetition \<open>f\<close> behind an atom that has been read.\<close>

lemma repetition_reads:
  assumes "adds p ts (c # rest) q" "plainly p" "unrepeated rest" "c \<in> {k_star, k_plus, k_quest}"
    and "(if c = k_star then emit_stars mem (HERE p) (NEXTn 1 q)
          else if c = k_plus then do { p' \<leftarrow> doinsert mem OPLUS (HERE p) (NEXTn 1 q); ASTERN mem O_PLUS (HERE p) p' }
          else do { p' \<leftarrow> doinsert mem OCH (HERE p) (NEXTn 1 q); emit_empty_branch mem (HERE p) p' }) = Some r"
    and "emitted (NEXTn 1 q) (p_strip p @ lays us) r"
  shows "ere_repetition mem (HERE p) False q = Some r" "adds p us rest r"
proof -
  have n: "p_next q = c # rest" and q: "plainly q" "p_cflags q = p_cflags p"
    using assms(1) adds_plainly [OF assms(1,2)] by (simp_all add: adds_def)
  have pn: "plainly (NEXTn 1 q)" "p_cflags (NEXTn 1 q) = p_cflags p" using NEXTn_plainly q by (simp_all add: NEXTn_fields)
  show a: "adds p us rest r" using adds_emitted [OF pn assms(6)] next_char(4) [OF n] by simp
  have "at_repetition q" using n assms(4) by (auto simp: at_repetition_def)
  moreover have "\<not> at_repetition r" using a assms(3) by (intro unrepeated_at) (simp add: adds_def)
  moreover have "ere_repetition mem (HERE p) False q = do {
      p' \<leftarrow> (if c = k_star then emit_stars mem (HERE p) (NEXTn 1 q)
          else if c = k_plus then do { p' \<leftarrow> doinsert mem OPLUS (HERE p) (NEXTn 1 q); ASTERN mem O_PLUS (HERE p) p' }
          else do { p' \<leftarrow> doinsert mem OCH (HERE p) (NEXTn 1 q); emit_empty_branch mem (HERE p) p' });
      Some (if at_repetition p' then seterr REG_BADRPT p' else p') }"
    using \<open>at_repetition q\<close> assms(4) next_char(2) [OF n] by (auto simp: ere_repetition_def REQUIRE_true Let_def)
  ultimately show "ere_repetition mem (HERE p) False q = Some r" by (simp only: assms(5) bind.bind_lunit if_False)
qed

lemma atom_then:
  assumes "atom_reads mem e" "ere_wf e" "plainly p" "p_next p = ere_text e @ rest" "4 * length (p_next p) \<le> k"
  obtains q ts where "adds p ts rest q" "of_ere e ts"
    "p_ere_exp k mem p = ere_repetition mem (HERE p) False q"
proof -
  obtain c cs where c: "ere_text e = c # cs" "c \<noteq> k_caret" using text_head [OF assms(2)] by auto
  then have n: "p_next p = c # cs @ rest" using assms(4) by simp
  then obtain j where j: "k = Suc j" using assms(5) by (cases k) auto
  obtain q ts where q: "ere_atom j mem p = Some q" "adds p ts rest q" "of_ere e ts"
    using atom_readsD [OF assms(1,3,4), of j] assms(5) j by (auto elim: parses_toE)
  have "HERE (NEXTn 1 p) = HERE p" by (simp add: HERE_def NEXTn_def)
  then have "p_ere_exp k mem p = ere_repetition mem (HERE p) False q"
    using q(1) c(2) next_char(2) [OF n] by (simp add: j p_ere_exp_atom del: p_ere_exp.simps)
  then show ?thesis using that q by blast
qed

lemma atom_piece:
  assumes "atom_reads mem e" "ere_wf e"
  shows "piece_reads mem e"
  unfolding piece_reads_def
proof (intro allI impI)
  fix k p rest assume *: "plainly p \<and> p_next p = ere_text e @ rest \<and> unrepeated rest \<and> 4 * length (p_next p) \<le> k"
  then obtain q ts where q: "adds p ts rest q" "of_ere e ts" "p_ere_exp k mem p = ere_repetition mem (HERE p) False q"
    using atom_then [OF assms] by metis
  have "\<not> at_repetition q" using * q(1) by (intro unrepeated_at) (simp add: adds_def)
  then show "parses_to p rest (of_ere e) (p_ere_exp k mem p)"
    using q by (auto simp: parses_to_def ere_repetition_def)
qed

lemma pos_adds: "adds p ts cs q \<Longrightarrow> p_strip (NEXTn 1 q) = p_strip p @ lays ts"
  by (simp add: adds_def NEXTn_fields)

lemma simple_piece:
  assumes "ample mem" "atom_reads mem e" "ere_wf e" "c \<in> {k_star, k_plus, k_quest}"
    and "ere_text f = ere_text e @ [c]" "\<And>ts. of_ere e ts \<Longrightarrow> of_ere f (T ts)"
    and "T = (if c = k_star then (\<lambda>ts. [Maybe [Loop ts]]) else if c = k_plus then (\<lambda>ts. [Loop ts]) else (\<lambda>ts. [Choice ts [[]]]))"
  shows "piece_reads mem f"
  unfolding piece_reads_def
proof (intro allI impI)
  fix k p rest assume *: "plainly p \<and> p_next p = ere_text f @ rest \<and> unrepeated rest \<and> 4 * length (p_next p) \<le> k"
  then have p: "plainly p" "p_next p = ere_text e @ c # rest" "unrepeated rest" using assms(5) by simp_all
  have len: "4 * length (p_next p) \<le> k" using * by blast
  obtain q ts where q: "adds p ts (c # rest) q" "of_ere e ts" "p_ere_exp k mem p = ere_repetition mem (HERE p) False q"
    using atom_then [OF assms(2,3) p(1,2) len] by metis
  have pq: "plainly (NEXTn 1 q)" using NEXTn_plainly adds_plainly [OF q(1) p(1)] by blast
  then have ok: "good (NEXTn 1 q)" "p_error (NEXTn 1 q) = 0" by (simp_all add: plainly_def)
  have st: "p_strip (NEXTn 1 q) = p_strip p @ lays ts" "HERE p = length (p_strip p)" using pos_adds [OF q(1)] by (simp_all add: HERE_def)
  define body where "body = (if c = k_star then emit_stars mem (HERE p) (NEXTn 1 q)
          else if c = k_plus then do { p' \<leftarrow> doinsert mem OPLUS (HERE p) (NEXTn 1 q); ASTERN mem O_PLUS (HERE p) p' }
          else do { p' \<leftarrow> doinsert mem OCH (HERE p) (NEXTn 1 q); emit_empty_branch mem (HERE p) p' })"
  have "\<exists>r. body = Some r \<and> emitted (NEXTn 1 q) (p_strip p @ lays (T ts)) r"
  proof (cases "c = k_star")
    case True
    then show ?thesis using emit_stars_ok [OF assms(1) ok st] assms(7) by (simp add: body_def)
  next
    case ns: False
    show ?thesis
    proof (cases "c = k_plus")
      case True
      then show ?thesis using emit_loop_ok [OF assms(1) ok st] ns assms(7) by (simp add: body_def)
    next
      case False
      obtain s where s: "doinsert mem OCH (HERE p) (NEXTn 1 q) = Some s" "emitted (NEXTn 1 q) (p_strip p @ (OCH, length (lays ts) + 1) # lays ts) s"
        using doinsert_ok [OF assms(1) ok st] by blast
      note f = emitted_fields [OF s(2)]
      obtain r where r: "emit_empty_branch mem (HERE p) s = Some r" "emitted s (p_strip p @ lay (Choice ts [[]])) r"
        using emit_empty_branch_ok [OF assms(1) emitted_good [OF s(2)] _ f(1) st(2)] f(2) ok(2) by auto
      show ?thesis using s(1) r(1) emitted_trans [OF s(2) r(2)] False ns assms(7) by (simp add: body_def del: lay.simps)
    qed
  qed
  then obtain r where r: "body = Some r" "emitted (NEXTn 1 q) (p_strip p @ lays (T ts)) r" by blast
  show "parses_to p rest (of_ere f) (p_ere_exp k mem p)"
    using repetition_reads [OF q(1) p(1,3) assms(4) r(1) [unfolded body_def] r(2)] q(3) assms(6) [OF q(2)] by (auto simp: parses_to_def)
qed

text \<open>The bounds.\<close>

lemma p_count_reads:
  assumes "p_next p = dec_text n @ c # cs" "\<not> isdigit c" "n \<le> DUPMAX"
  shows "p_count p = (n, p\<lparr> p_next := c # cs \<rparr>)"
proof -
  obtain d where d: "0 < d" "count_loop (dec_text n) 0 0 = (n, d, [])" using count_dec [of n] assms(3) by auto
  have "count_loop (p_next p) 0 0 = (n, d, c # cs)" unfolding assms(1) count_loop_append [OF d(2)] using assms(2) by simp
  then show ?thesis using d(1) assms(3) by (simp add: p_count_def REQUIRE_true)
qed

lemma p_bounds_reads:
  assumes "p_next p = dec_text lo @ k_comma # (if hi = INFINITY then [] else dec_text hi) @ k_rbrace # rest" "lo \<le> DUPMAX" "lo \<le> hi" "hi \<le> INFINITY"
  shows "p_bounds (\<lambda>_. True) p = (lo, hi, p\<lparr> p_next := k_rbrace # rest \<rparr>)"
proof -
  have nd: "\<not> isdigit k_comma" "\<not> isdigit k_rbrace" by (simp_all add: isdigit_def)
  let ?cs = "(if hi = INFINITY then [] else dec_text hi) @ k_rbrace # rest"
  have 1: "p_count p = (lo, p\<lparr> p_next := k_comma # ?cs \<rparr>)" using p_count_reads [OF _ nd(1) assms(2)] assms(1) by simp
  have 2: "EAT k_comma (p\<lparr> p_next := k_comma # ?cs \<rparr>) = (True, p\<lparr> p_next := ?cs \<rparr>)" by (simp add: EAT_def SEE_def NEXTn_def)
  show ?thesis
  proof (cases "hi = INFINITY")
    case True
    then have "\<not> isdigit (PEEK (p\<lparr> p_next := ?cs \<rparr>))" using nd(2) by (simp add: PEEK_def)
    then show ?thesis using 1 2 True by (simp add: p_bounds_def)
  next
    case False
    obtain c cs where c: "dec_text hi = c # cs" "isdigit c" using dec_text_Cons by blast
    then have "isdigit (PEEK (p\<lparr> p_next := ?cs \<rparr>))" using False by (simp add: PEEK_def)
    moreover have "hi \<le> DUPMAX" using assms(4) False by simp
    then have "p_count (p\<lparr> p_next := ?cs \<rparr>) = (hi, p\<lparr> p_next := k_rbrace # rest \<rparr>)"
      using p_count_reads [of "p\<lparr> p_next := ?cs \<rparr>" hi k_rbrace rest] nd(2) False by simp
    ultimately show ?thesis using 1 2 assms(3) by (simp add: p_bounds_def REQUIRE_true)
  qed
qed

lemma times_piece:
  assumes "ample mem" "atom_reads mem e" "ere_wf (ETimes e lo hi)" "\<not> ere_void e"
  shows "piece_reads mem (ETimes e lo hi)"
  unfolding piece_reads_def
proof (intro allI impI)
  let ?f = "ETimes e lo hi" and ?num = "dec_text lo @ k_comma # (if hi = INFINITY then [] else dec_text hi)"
  fix k p rest assume *: "plainly p \<and> p_next p = ere_text ?f @ rest \<and> unrepeated rest \<and> 4 * length (p_next p) \<le> k"
  then have p: "plainly p" "p_next p = ere_text e @ k_lbrace # ?num @ k_rbrace # rest" "unrepeated rest" by simp_all
  have len: "4 * length (p_next p) \<le> k" using * by blast
  have wf: "ere_wf e" "lo \<le> DUPMAX" "lo \<le> hi" "hi \<le> INFINITY" using assms(3) by simp_all
  obtain q ts where q: "adds p ts (k_lbrace # ?num @ k_rbrace # rest) q" "of_ere e ts" "p_ere_exp k mem p = ere_repetition mem (HERE p) False q"
    using atom_then [OF assms(2) wf(1) p(1,2) len] by metis
  have n: "p_next q = k_lbrace # ?num @ k_rbrace # rest" using q(1) by (simp add: adds_def)
  obtain c cs where c: "dec_text lo = c # cs" "isdigit c" using dec_text_Cons by blast
  have at: "at_repetition q" using n c by (simp add: at_repetition_def)
  have pq: "plainly (NEXTn 1 q)" using NEXTn_plainly adds_plainly [OF q(1) p(1)] by blast
  have n1: "p_next (NEXTn 1 q) = ?num @ k_rbrace # rest" using next_char(4) [OF n] .
  let ?b = "(NEXTn 1 q)\<lparr> p_next := k_rbrace # rest \<rparr>"
  have b: "p_bounds (\<lambda>_. True) (NEXTn 1 q) = (lo, hi, ?b)" using p_bounds_reads [OF _ wf(2-4)] n1 by simp
  have "parsed (NEXTn 1 q) ?b" using pq n1 by (intro parsed_next) (auto simp: plainly_def)
  then have pb: "plainly ?b" "p_cflags ?b = p_cflags p" "p_strip ?b = p_strip p @ lays ts"
    using pq q(1) parsed_good by (auto simp: plainly_def adds_def NEXTn_fields)
  have "emits_reps mem ts lo hi" using repeat_emits [OF assms(1) wf(3) _ wf(4)] wf(2) by simp
  then obtain r where r: "repeat mem (HERE p) lo hi ?b = Some r" "emitted ?b (p_strip p @ lays (reps ts lo hi)) r"
    using emits_repsD [of mem ts lo hi ?b "p_strip p" "HERE p"] pb by (auto simp: plainly_def HERE_def)
  have a: "adds p (reps ts lo hi) (k_rbrace # rest) r" using adds_emitted [OF pb(1,2) r(2)] by simp
  then have nr: "p_next r = k_rbrace # rest" by (simp add: adds_def)
  have a': "adds p (reps ts lo hi) rest (NEXTn 1 r)"
    using adds_trans [OF a adds_next [OF adds_plainly [OF a p(1)] nr]] by simp
  have eb: "ere_bounds mem (HERE p) (NEXTn 1 q) = Some (NEXTn 1 r)"
    using b r(1) next_char(3) [OF nr] by (simp add: ere_bounds_def EAT_def)
  have "\<not> at_repetition (NEXTn 1 r)" using a' p(3) by (intro unrepeated_at) (simp add: adds_def)
  then have "ere_repetition mem (HERE p) False q = Some (NEXTn 1 r)"
    using at eb next_char(2) [OF n] by (simp add: ere_repetition_def REQUIRE_true)
  moreover have "ts \<noteq> []" using q(2) assms(4) by (simp add: of_ere_def shape_def)
  then have "of_ere ?f (reps ts lo hi)" using of_ere_times [OF q(2) _ wf(3) _ wf(4)] wf(2) by simp
  ultimately show "parses_to p rest (of_ere ?f) (p_ere_exp k mem p)" using q(3) a' by (auto simp: parses_to_def)
qed

section \<open>Branches and groups in the text\<close>

text \<open>Where a branch ends, and where the alternatives do.\<close>

definition branch_ends :: "byte option \<Rightarrow> byte list \<Rightarrow> bool" where
  "branch_ends stop rest \<longleftrightarrow> (case rest of [] \<Rightarrow> True | c # _ \<Rightarrow> c = k_bar \<or> Some c = stop)"

definition alts_end :: "byte option \<Rightarrow> byte list \<Rightarrow> bool" where
  "alts_end stop rest \<longleftrightarrow> (case rest of [] \<Rightarrow> True | c # _ \<Rightarrow> c = k_rparen \<and> Some c = stop)"

definition stops :: "byte option set" where
  "stops = {None, Some k_rparen}"

definition branch_ready :: "allocator \<Rightarrow> ere list \<Rightarrow> bool" where
  "branch_ready mem b \<longleftrightarrow> list_all (\<lambda>e. ere_wf e \<and> piece_reads mem e) b"

lemma branch_unrepeated:
  assumes "list_all ere_wf b" "branch_ends stop rest" "stop \<in> stops"
  shows "unrepeated (branch_text b @ rest)"
proof (cases b)
  case Nil
  then show ?thesis using assms(2,3) by (auto simp: unrepeated_def branch_ends_def stops_def split: list.splits)
next
  case (Cons e es)
  then show ?thesis using assms(1) text_head [of e] by (auto simp: unrepeated_def)
qed

lemma concat_reads:
  assumes "stop \<in> stops" "branch_ends stop rest"
  shows "branch_ready mem b \<Longrightarrow> plainly p \<Longrightarrow> p_next p = branch_text b @ rest \<Longrightarrow> 4 * length (p_next p) + 1 \<le> k
    \<Longrightarrow> parses_to p rest (of_branch b) (p_ere_concat k mem stop p)"
proof (induction b arbitrary: p k)
  case Nil
  then obtain j where j: "k = Suc j" by (cases k) auto
  have "\<not> (MORE p \<and> PEEK p \<noteq> k_bar \<and> Some (PEEK p) \<noteq> stop)"
    using assms(2) Nil(3) by (auto simp: branch_ends_def MORE_def PEEK_def split: list.splits)
  then have "p_ere_concat k mem stop p = Some p" unfolding j p_ere_concat.simps by (rule if_not_P)
  then show ?case using adds_refl [OF Nil(2)] of_branch_Nil Nil(3) by (auto simp: parses_to_def)
next
  case (Cons e es)
  have wf: "ere_wf e" "piece_reads mem e" "branch_ready mem es" using Cons(2) by (simp_all add: branch_ready_def)
  obtain c cs where c: "ere_text e = c # cs" "c \<noteq> k_bar" "c \<noteq> k_rparen" using text_head [OF wf(1)] by auto
  obtain j where j: "k = Suc j" "4 * length (p_next p) \<le> j" using Cons(5) by (cases k) auto
  have n: "p_next p = c # cs @ branch_text es @ rest" "p_next p = ere_text e @ branch_text es @ rest" using Cons(4) c(1) by simp_all
  have "list_all ere_wf es" using wf(3) by (simp add: branch_ready_def list_all_iff)
  then have "unrepeated (branch_text es @ rest)" by (rule branch_unrepeated [OF _ assms(2,1)])
  then have "parses_to p (branch_text es @ rest) (of_ere e) (p_ere_exp j mem p)"
    using wf(2) Cons(3) n(2) j(2) unfolding piece_reads_def by blast
  then obtain q ts where q: "p_ere_exp j mem p = Some q" "adds p ts (branch_text es @ rest) q" "of_ere e ts"
    by (rule parses_toE)
  have nq: "p_next q = branch_text es @ rest" "4 * length (p_next q) + 1 \<le> j" using q(2) n(1) j(2) by (simp_all add: adds_def)
  obtain r us where r: "p_ere_concat j mem stop q = Some r" "adds q us rest r" "of_branch es us"
    using Cons(1) [OF wf(3) adds_plainly [OF q(2) Cons(3)] nq] by (rule parses_toE)
  have "MORE p \<and> PEEK p \<noteq> k_bar \<and> Some (PEEK p) \<noteq> stop"
    using next_char(1,2) [OF n(1)] c(2,3) assms(1) by (auto simp: stops_def)
  then have "p_ere_concat k mem stop p = Some r" using q(1) r(1) by (simp add: j(1))
  then show ?case using adds_trans [OF q(2) r(2)] of_branch_Cons [OF q(3) r(3)] by (blast intro: parses_toI)
qed

text \<open>One branch: \<open>r\<close> is where it has been read, and the check for an empty one has passed.\<close>

definition live_branch :: "allocator \<Rightarrow> ere list \<Rightarrow> bool" where
  "live_branch mem b \<longleftrightarrow> branch_ready mem b \<and> list_ex (Not \<circ> ere_void) b"

lemma branch_reads:
  assumes "stop \<in> stops" "branch_ends stop rest" "live_branch mem b" "plainly p" "p_next p = branch_text b @ rest" "4 * length (p_next p) + 1 \<le> k"
  obtains r ts where "p_ere_concat k mem stop p = Some r" "adds p ts rest r" "of_branch b ts" "ts \<noteq> []" "REQUIRE (HERE r \<noteq> HERE p) REG_EMPTY r = r"
proof -
  have "parses_to p rest (of_branch b) (p_ere_concat k mem stop p)"
    using concat_reads [OF assms(1,2) _ assms(4-6)] assms(3) by (simp add: live_branch_def)
  then obtain r ts where r: "p_ere_concat k mem stop p = Some r" "adds p ts rest r" "of_branch b ts" by (rule parses_toE)
  moreover have "ts \<noteq> []" using r(3) assms(3) by (simp add: of_branch_def shape_def live_branch_def)
  ultimately have r: "p_ere_concat k mem stop p = Some r" "adds p ts rest r" "of_branch b ts" "ts \<noteq> []" by blast+
  have "HERE r \<noteq> HERE p" using r(2,4) lays_Nil [of ts] by (simp add: HERE_def adds_def)
  then show ?thesis using r that by (simp add: REQUIRE_true)
qed

lemma EAT_next:
  "p_next p = c # cs \<Longrightarrow> EAT c p = (True, NEXTn 1 p)"
  "alts_end stop (p_next p) \<Longrightarrow> EAT k_bar p = (False, p)"
  by (auto simp: EAT_def SEE_def alts_end_def split: list.splits)

lemma alts_end_branch: "alts_end stop rest \<Longrightarrow> branch_ends stop rest"
  by (auto simp: alts_end_def branch_ends_def split: list.splits)

lemma bars_more: "bs \<noteq> [] \<Longrightarrow> bars (b # bs) = b @ k_bar # bars bs"
  by (cases bs) simp_all

lemma means_tree_ok: "means ts A \<Longrightarrow> list_all (tree_ok k) ts"
  using plain_tree_ok by (auto simp: means_def list_all_iff)

lemma alts_unfold:
  assumes "p_ere_concat k mem stop q = Some r" "REQUIRE (HERE r \<noteq> HERE q) REG_EMPTY r = r"
  shows "EAT k_bar r = (False, s) \<Longrightarrow> p_ere_alts (Suc k) mem stop None q = Some s"
    and "EAT k_bar r = (False, s) \<Longrightarrow> p_ere_alts (Suc k) mem stop (Some (i, j)) q = do { p \<leftarrow> AHEAD j s; ASTERN mem O_CH i p }"
    and "EAT k_bar r = (True, s) \<Longrightarrow> doinsert mem OCH (HERE q) s = Some u \<Longrightarrow> open_branch mem (HERE q) (HERE q) u = Some (v, t)
      \<Longrightarrow> p_ere_alts (Suc k) mem stop None q = p_ere_alts k mem stop (Some v) t"
    and "EAT k_bar r = (True, s) \<Longrightarrow> open_branch mem i j s = Some (v, t) \<Longrightarrow> p_ere_alts (Suc k) mem stop (Some (i, j)) q = p_ere_alts k mem stop (Some v) t"
proof -
  show "EAT k_bar r = (False, s) \<Longrightarrow> p_ere_alts (Suc k) mem stop None q = Some s"
    "EAT k_bar r = (False, s) \<Longrightarrow> p_ere_alts (Suc k) mem stop (Some (i, j)) q = do { p \<leftarrow> AHEAD j s; ASTERN mem O_CH i p }"
    using assms by simp_all
  show "p_ere_alts (Suc k) mem stop None q = p_ere_alts k mem stop (Some v) t"
    if "EAT k_bar r = (True, s)" "doinsert mem OCH (HERE q) s = Some u" "open_branch mem (HERE q) (HERE q) u = Some (v, t)"
  proof -
    have "p_ere_alts (Suc k) mem stop None q = do { (v, t) \<leftarrow> open_branch mem (HERE q) (HERE q) u; p_ere_alts k mem stop (Some v) t }"
      using assms that(1,2) by (simp add: open_branch_def Let_def)
    then show ?thesis using that(3) by simp
  qed
  show "p_ere_alts (Suc k) mem stop (Some (i, j)) q = p_ere_alts k mem stop (Some v) t"
    if "EAT k_bar r = (True, s)" "open_branch mem i j s = Some (v, t)"
  proof -
    have "p_ere_alts (Suc k) mem stop (Some (i, j)) q = do { (v, t) \<leftarrow> open_branch mem i j s; p_ere_alts k mem stop (Some v) t }"
      using assms that(1) by (simp add: open_branch_def Let_def)
    then show ?thesis using that(2) by simp
  qed
qed

text \<open>In front of a later branch.\<close>

definition midway :: "cparse \<Rightarrow> ptree list \<Rightarrow> ptree list list \<Rightarrow> nat \<times> nat \<Rightarrow> cparse \<Rightarrow> bool" where
  "midway p x done prev q \<longleftrightarrow> plainly q \<and> p_cflags q = p_cflags p \<and> p_strip q = branches_front (p_strip p) x done @ [(OOR2, 0)]
     \<and> snd prev = length (branches_front (p_strip p) x done) \<and> fst prev + 1 = length (branches_front (p_strip p) x done)"

lemma midway_last:
  assumes "midway p x done prev q" "adds q ts rest r" "list_all (tree_ok (p_ncsets r)) x" "list_all (list_all (tree_ok (p_ncsets r))) done"
    "list_all (tree_ok (p_ncsets r)) ts"
  shows "last_branch p (fst prev) (snd prev) r x done ts (branches_front (p_strip p) x done)"
  using assms by (simp add: midway_def adds_def last_branch_def)

lemma alts_loop:
  assumes "ample mem" "stop \<in> stops" "alts_end stop rest" "list_all (tree_ok 0) x"
  shows "bs \<noteq> [] \<Longrightarrow> list_all (live_branch mem) bs \<Longrightarrow> midway p x done prev q \<Longrightarrow> list_all (list_all plain_tree) done
    \<Longrightarrow> p_next q = alts_text bs @ rest \<Longrightarrow> 4 * length (p_next q) + 2 \<le> k
    \<Longrightarrow> \<exists>r us. p_ere_alts k mem stop (Some prev) q = Some r \<and> adds p [Choice x (done @ us)] rest r \<and> list_all2 of_branch bs us"
proof (induction bs arbitrary: "done" prev q k)
  case (Cons b bs)
  obtain i j where prev: "prev = (i, j)" by fastforce
  have live: "live_branch mem b" "list_all (live_branch mem) bs" using Cons(3) by simp_all
  have pq: "plainly q" using Cons(4) by (simp add: midway_def)
  obtain l where k: "k = Suc l" "4 * length (p_next q) + 1 \<le> l" using Cons(7) by (cases k) auto
  define tail where "tail = (if bs = [] then rest else k_bar # alts_text bs @ rest)"
  have n: "p_next q = branch_text b @ tail"
    using Cons(6) bars_more [of "map branch_text bs"] by (cases "bs = []") (simp_all add: alts_text_def tail_def)
  have be: "branch_ends stop tail" using alts_end_branch [OF assms(3)] by (simp add: tail_def branch_ends_def)
  obtain r ts where r: "p_ere_concat l mem stop q = Some r" "adds q ts tail r" "of_branch b ts" "ts \<noteq> []" "REQUIRE (HERE r \<noteq> HERE q) REG_EMPTY r = r"
    using branch_reads [OF assms(2) be live(1) pq n k(2)] .
  have pr: "plainly r" "p_next r = tail" using adds_plainly [OF r(2) pq] r(2) by (simp_all add: adds_def)
  have pl: "list_all plain_tree ts" using shape_means(2) [OF r(3)] by (simp add: means_def)
  have ok: "list_all (tree_ok n) x" "list_all (list_all (tree_ok n)) done" "list_all (tree_ok n) ts" for n
    using assms(4) Cons(5) pl plain_tree_ok by (auto simp: list_all_iff intro: tree_ok_mono)
  show ?case
  proof (cases "bs = []")
    case True
    have eat: "EAT k_bar r = (False, r)" using EAT_next(2) [of stop r] assms(3) pr(2) True by (simp add: tail_def)
    have lb: "last_branch p i j r x done ts (branches_front (p_strip p) x done)" using midway_last [OF Cons(4) r(2) ok] prev by simp
    obtain s where s: "do { p \<leftarrow> AHEAD j r; ASTERN mem O_CH i p } = Some s" "emitted r (p_strip p @ lays [Choice x (done @ [ts])]) s"
      using last_branch_ends [OF assms(1) lb] pr(1) by (auto simp: plainly_def)
    have "p_cflags r = p_cflags p" using Cons(4) r(2) by (simp add: midway_def adds_def)
    then have "adds p [Choice x (done @ [ts])] rest s" using adds_emitted [OF pr(1) _ s(2)] pr(2) True by (simp add: tail_def)
    moreover have "p_ere_alts k mem stop (Some prev) q = Some s" using alts_unfold(2) [OF r(1,5) eat] s(1) by (simp add: k(1) prev)
    ultimately show ?thesis using r(3) True by (intro exI [of _ s] exI [of _ "[ts]"]) simp
  next
    case False
    then have nr: "p_next r = k_bar # alts_text bs @ rest" using pr(2) by (simp add: tail_def)
    let ?s = "NEXTn 1 r" and ?f = "branches_front (p_strip p) x (done @ [ts])"
    have s: "plainly ?s" "p_next ?s = alts_text bs @ rest" using NEXTn_plainly pr(1) next_char(4) [OF nr] by blast+
    have as: "adds q ts (p_next ?s) ?s" using r(2) s by (simp add: adds_def plainly_def NEXTn_fields)
    have lb: "last_branch p i j ?s x done ts (branches_front (p_strip p) x done)" using midway_last [OF Cons(4) as ok] prev by simp
    obtain v t where t: "open_branch mem i j ?s = Some (v, t)" "emitted ?s (?f @ [(OOR2, 0)]) t" "snd v = length ?f" "fst v + 1 = length ?f"
      using later_branch_opens [OF assms(1) lb _ _ refl] s(1) by (auto simp: plainly_def)
    note f = emitted_fields [OF t(2)]
    have pt: "plainly t" "p_cflags t = p_cflags p" "p_next t = alts_text bs @ rest"
      using f emitted_good [OF t(2)] s Cons(4) as by (simp_all add: plainly_def midway_def adds_def)
    have "midway p x (done @ [ts]) v t" using pt(1,2) f(1) t(3,4) by (simp add: midway_def)
    moreover have "length (p_next t) < length (p_next q)" using n False pt(3) by (simp add: tail_def)
    then have "4 * length (p_next t) + 2 \<le> l" using k(2) by linarith
    moreover have "list_all (list_all plain_tree) (done @ [ts])" using Cons(5) pl by simp
    ultimately obtain w us where w: "p_ere_alts l mem stop (Some v) t = Some w" "adds p [Choice x ((done @ [ts]) @ us)] rest w"
      "list_all2 of_branch bs us"
      using Cons(1) [OF False live(2) _ _ pt(3)] by blast
    have "p_ere_alts k mem stop (Some prev) q = Some w"
      using alts_unfold(4) [OF r(1,5) EAT_next(1) [OF nr] t(1)] w(1) by (simp add: k(1) prev)
    then show ?thesis using w(2,3) r(3) by (intro exI [of _ w] exI [of _ "ts # us"]) simp
  qed
qed simp

lemma alts_reads:
  assumes "ample mem" "stop \<in> stops" "alts_end stop rest" "bs \<noteq> []" "list_all (live_branch mem) bs" "plainly p"
    and "p_next p = alts_text bs @ rest" "4 * length (p_next p) + 2 \<le> k"
  shows "parses_to p rest (of_alts bs) (p_ere_alts k mem stop None p)"
proof -
  obtain b cs where bs: "bs = b # cs" using assms(4) by (cases bs) simp_all
  have live: "live_branch mem b" "list_all (live_branch mem) cs" using assms(5) bs by simp_all
  obtain l where k: "k = Suc l" "4 * length (p_next p) + 1 \<le> l" using assms(8) by (cases k) auto
  define tail where "tail = (if cs = [] then rest else k_bar # alts_text cs @ rest)"
  have n: "p_next p = branch_text b @ tail"
    using assms(7) bars_more [of "map branch_text cs"] by (cases "cs = []") (simp_all add: alts_text_def tail_def bs)
  have be: "branch_ends stop tail" using alts_end_branch [OF assms(3)] by (simp add: tail_def branch_ends_def)
  obtain r ts where r: "p_ere_concat l mem stop p = Some r" "adds p ts tail r" "of_branch b ts" "ts \<noteq> []" "REQUIRE (HERE r \<noteq> HERE p) REG_EMPTY r = r"
    using branch_reads [OF assms(2) be live(1) assms(6) n k(2)] .
  have pr: "plainly r" "p_next r = tail" using adds_plainly [OF r(2) assms(6)] r(2) by (simp_all add: adds_def)
  show ?thesis
  proof (cases "cs = []")
    case True
    have eat: "EAT k_bar r = (False, r)" using EAT_next(2) [of stop r] assms(3) pr(2) True by (simp add: tail_def)
    have "p_ere_alts k mem stop None p = Some r" using alts_unfold(1) [OF r(1,5) eat] by (simp add: k(1))
    then show ?thesis using r(2) of_alts_one [OF r(3,4)] True by (auto simp: parses_to_def tail_def bs)
  next
    case False
    then have nr: "p_next r = k_bar # alts_text cs @ rest" using pr(2) by (simp add: tail_def)
    let ?s = "NEXTn 1 r" and ?f = "branches_front (p_strip p) ts []"
    have s: "plainly ?s" "p_next ?s = alts_text cs @ rest" "p_strip ?s = p_strip p @ lays ts"
      using NEXTn_plainly pr(1) next_char(4) [OF nr] r(2) by (simp_all add: adds_def NEXTn_fields)
    have h: "HERE p = length (p_strip p)" by (simp add: HERE_def)
    obtain u v t where t: "doinsert mem OCH (HERE p) ?s = Some u" "open_branch mem (HERE p) (HERE p) u = Some (v, t)"
      "emitted ?s (?f @ [(OOR2, 0)]) t" "snd v = length ?f" "fst v + 1 = length ?f"
      using first_branch_opens [OF assms(1) _ _ s(3) h] s(1) unfolding plainly_def by blast
    note f = emitted_fields [OF t(3)]
    have pt: "plainly t" "p_cflags t = p_cflags p" "p_next t = alts_text cs @ rest"
      using f emitted_good [OF t(3)] s(1,2) r(2) by (simp_all add: plainly_def adds_def NEXTn_fields)
    have mid: "midway p ts [] v t" using pt(1,2) f(1) t(4,5) by (simp add: midway_def)
    have "length (p_next t) < length (p_next p)" using n False pt(3) by (simp add: tail_def)
    then have l: "4 * length (p_next t) + 2 \<le> l" using k(2) by linarith
    obtain w us where w: "p_ere_alts l mem stop (Some v) t = Some w" "adds p [Choice ts us] rest w" "list_all2 of_branch cs us"
      using alts_loop [OF assms(1-3) means_tree_ok [OF shape_means(2) [OF r(3)]] False live(2) mid _ pt(3) l] by auto
    have "list_all (list_all ere_wf) (b # cs)" using assms(5) bs by (auto simp: live_branch_def branch_ready_def list_all_iff)
    from of_alts_choice [OF r(3) w(3) False this] have "of_alts bs [Choice ts us]" by (simp add: bs)
    moreover have "p_ere_alts k mem stop None p = Some w"
      using alts_unfold(3) [OF r(1,5) EAT_next(1) [OF nr] t(1,2)] w(1) by (simp add: k(1))
    ultimately show ?thesis using w(2) by (auto simp: parses_to_def)
  qed
qed

lemma sub_reads:
  assumes "ample mem" "bs \<noteq> []" "list_all (live_branch mem) bs"
  shows "atom_reads mem (ESub bs)"
  unfolding atom_reads_def
proof (intro allI impI)
  fix k p rest assume p: "plainly p \<and> p_next p = ere_text (ESub bs) @ rest \<and> 4 * length (p_next p) \<le> Suc k"
  let ?in = "alts_text bs @ k_rparen # rest" and ?p = "NEXTn 1 p"
  have n: "p_next p = k_lparen # ?in" using p by (simp add: alts_text_def)
  obtain b where b: "b \<in> set bs" "hd bs = b" using assms(2) by (cases bs) simp_all
  have n1: "plainly ?p" "p_next ?p = ?in" "p_cflags ?p = p_cflags p" "p_strip ?p = p_strip p"
    using p NEXTn_plainly next_char(4) [OF n] by (simp_all add: NEXTn_fields)
  have more: "MORE ?p" using n1(2) by (cases "?in") (simp_all add: MORE_def)
  obtain q where q: "open_paren mem ?p = Some (p_nsub ?p + 1, q)" "beside ?p (p_strip ?p @ [(OLPAREN, p_nsub ?p + 1)]) q"
    using open_paren_ok [OF assms(1), of ?p] n1(1) by (auto simp: plainly_def)
  have pq: "plainly q" "p_next q = ?in" "p_strip q = p_strip p @ [(OLPAREN, p_nsub ?p + 1)]" "p_cflags q = p_cflags p"
    using q(2) n1 by (simp_all add: beside_def plainly_def)
  have see: "\<not> SEE k_rparen q"
  proof -
    obtain e es cs where bs: "bs = (e # es) # cs"
      using assms(2,3) by (cases bs; cases "hd bs") (auto simp: live_branch_def)
    then have "ere_wf e" using assms(3) by (simp add: live_branch_def branch_ready_def)
    then obtain c ds where "ere_text e = c # ds" "c \<noteq> k_rparen" using text_head by blast
    then show ?thesis using pq(2) bs by (cases cs) (auto simp: SEE_def alts_text_def)
  qed
  obtain l where l: "k = Suc l" "4 * length (p_next q) + 2 \<le> l" using p n pq(2) by (cases k) auto
  have ends: "Some k_rparen \<in> stops" "alts_end (Some k_rparen) (k_rparen # rest)" by (simp_all add: stops_def alts_end_def)
  obtain r ts where r: "p_ere_alts l mem (Some k_rparen) None q = Some r" "adds q ts (k_rparen # rest) r" "of_alts bs ts"
    using alts_reads [OF assms(1) ends assms(2,3) pq(1,2) l(2)] by (auto elim: parses_toE)
  have gr: "good r" "p_error r = 0" "p_next r = k_rparen # rest" "p_strip r = p_strip q @ lays ts" "p_cflags r = p_cflags q"
    using r(2) by (simp_all add: adds_def)
  obtain s where s: "close_paren mem (p_nsub ?p + 1) r = Some s" "beside r (p_strip r @ [(ORPAREN, p_nsub ?p + 1)]) s"
    using close_paren_ok [OF assms(1) gr(1)] by blast
  have ps: "plainly s" "p_next s = k_rparen # rest" "p_strip s = p_strip p @ lays [Par (p_nsub ?p + 1) ts]" "p_cflags s = p_cflags p"
    using s(2) gr pq by (simp_all add: beside_def plainly_def)
  have "MUSTEAT k_rparen REG_EPAREN s = NEXTn 1 s" using next_char(1,2) [OF ps(2)] by (simp add: MUSTEAT_def REQUIRE_def)
  then have "ere_atom k mem p = Some (NEXTn 1 s)"
    using next_char(2) [OF n] more q(1) see r(1) s(1) l(1) by (simp add: ere_atom_def REQUIRE_true Let_def)
  moreover have "adds p [Par (p_nsub ?p + 1) ts] rest (NEXTn 1 s)"
    using NEXTn_plainly [OF ps(1), of 1] next_char(4) [OF ps(2)] ps(3,4) by (simp add: adds_def plainly_def NEXTn_fields)
  moreover have "of_ere (ESub bs) [Par (p_nsub ?p + 1) ts]" using of_ere_sub [OF r(3)] .
  ultimately show "parses_to p rest (of_ere (ESub bs)) (ere_atom k mem p)" by (auto simp: parses_to_def)
qed

section \<open>Every expression\<close>

lemma ere_reads:
  assumes "ample mem"
  shows "ere_wf e \<Longrightarrow> piece_reads mem e \<and> (ere_atomic e \<longrightarrow> atom_reads mem e)"
proof (induction e)
  case (EChr c)
  then show ?case using chr_reads [OF assms] atom_piece by blast
next
  case EDot
  then show ?case using dot_reads [OF assms] atom_piece by blast
next
  case (ESub bs)
  have "list_all (live_branch mem) bs"
    using ESub by (auto simp: list_all_iff live_branch_def branch_ready_def)
  moreover have "bs \<noteq> []" using ESub(2) by simp
  ultimately have "atom_reads mem (ESub bs)" using sub_reads [OF assms] by blast
  then show ?case using atom_piece [OF _ ESub(2)] by blast
next
  case (EStar e)
  then have "atom_reads mem e" "ere_wf e" by simp_all
  from simple_piece [OF assms this, of k_star "EStar e" "\<lambda>ts. [Maybe [Loop ts]]"] show ?case using of_ere_star by simp
next
  case (EPlus e)
  then have "atom_reads mem e" "ere_wf e" by simp_all
  from simple_piece [OF assms this, of k_plus "EPlus e" "\<lambda>ts. [Loop ts]"] show ?case using of_ere_plus by simp
next
  case (EOpt e)
  then have "atom_reads mem e" "ere_wf e" by simp_all
  from simple_piece [OF assms this, of k_quest "EOpt e" "\<lambda>ts. [Choice ts [[]]]"] show ?case using of_ere_opt by simp
next
  case (ETimes e lo hi)
  then have "atom_reads mem e" by simp
  moreover have "\<not> ere_void e" using ETimes(2) by (cases e) simp_all
  ultimately show ?case using times_piece [OF assms _ ETimes(2)] by simp
qed

lemma alts_live: "ample mem \<Longrightarrow> alts_wf bs \<Longrightarrow> bs \<noteq> [] \<and> list_all (live_branch mem) bs"
  using ere_reads by (auto simp: alts_wf_def list_all_iff live_branch_def branch_ready_def)

text \<open>Neither sets nor a special newline nor a plain string.\<close>

definition plain_flags :: "int \<Rightarrow> bool" where
  "plain_flags cf \<longleftrightarrow> flag_on cf REG_EXTENDED \<and> \<not> flag_on cf REG_NOSPEC \<and> \<not> flag_on cf REG_ICASE \<and> \<not> flag_on cf REG_NEWLINE"

lemma parse_reads:
  assumes "ample mem" "alts_wf bs" "plain_flags cf"
  shows "\<exists>p ts. regcomp_parse mem (alts_text bs) past cf = Some p \<and> p_error p = 0 \<and> p_strip p = (OEND, 0) # lays ts @ [(OEND, 0)] \<and> of_alts bs ts"
proof -
  let ?s = "parse_start (alts_text bs) past cf" and ?fuel = "parse_fuel (alts_text bs)"
  have start: "p_error ?s = 0" "p_strip ?s = []" "p_cflags ?s = cf" "p_next ?s = alts_text bs" by (simp_all add: parse_start_def)
  obtain p where p: "doemit mem OEND 0 ?s = Some p" "emitted ?s [(OEND, 0)] p"
    using doemit_ok [OF assms(1) parse_start_good [OF alts_text_nonzero [OF assms(2)]] start(1)] start(2) by auto
  note f = emitted_fields [OF p(2)]
  have pp: "plainly p" "p_next p = alts_text bs @ []" "p_strip p = [(OEND, 0)]"
    using f emitted_good [OF p(2)] start assms(3) by (simp_all add: plainly_def plain_flags_def)
  obtain k where k: "?fuel = Suc k" "4 * length (p_next p) + 2 \<le> k" using pp(2) by (simp add: parse_fuel_def)
  have e: "None \<in> stops" "alts_end None []" by (simp_all add: stops_def alts_end_def)
  obtain q ts where q: "p_ere_alts k mem None None p = Some q" "adds p ts [] q" "of_alts bs ts"
    using alts_reads [OF assms(1) e _ _ pp(1,2) k(2)] alts_live [OF assms(1,2)] by (auto elim: parses_toE)
  have gq: "good q" "p_error q = 0" "p_strip q = (OEND, 0) # lays ts" using q(2) pp(3) by (simp_all add: adds_def)
  obtain r where r: "doemit mem OEND 0 q = Some r" "beside q (p_strip q @ [(OEND, 0)]) r"
    using beside_emit [OF assms(1) gq(1)] by blast
  have "regcomp_parse mem (alts_text bs) past cf = Some r"
    using p(1) q(1) r(1) assms(3) by (simp add: regcomp_parse_def plain_flags_def k(1))
  then show ?thesis using r(2) gq q(3) by (auto simp: beside_def)
qed

lemma plain_few_anchors:
  assumes "strip g = (OEND, 0) # lays ts @ [(OEND, 0)]" "b = length (lays ts) + 1" "list_all plain_tree ts"
  shows "few_anchors g 1 b"
proof -
  have "OP (strip g ! p) \<notin> {OBOL, OEOL, OBOW, OEOW}" if "p \<in> set [1 ..< b]" for p
  proof -
    have "strip g ! p = lays ts ! (p - 1)" "p - 1 < length (lays ts)" using that assms(1,2) by (auto simp: nth_append nth_Cons')
    then have "strip g ! p \<in> set (lays ts)" by (metis nth_mem)
    then obtain t where t: "t \<in> set ts" "strip g ! p \<in> set (lay t)" by auto
    then have "plain_tree t" using assms(3) by (simp add: list_all_iff)
    then show ?thesis using plain_lay_ops t(2) by blast
  qed
  then have "filter (\<lambda>p. OP (strip g ! p) = op) [1 ..< b] = []" if "op \<in> {OBOL, OEOL}" for op
    using that by (auto simp: filter_empty_conv)
  then show ?thesis using \<open>\<And>p. p \<in> set [1 ..< b] \<Longrightarrow> OP (strip g ! p) \<notin> {OBOL, OEOL, OBOW, OEOW}\<close> by (simp add: few_anchors_def)
qed

lemma regcomp_reads:
  assumes "ample mem" "alts_wf bs" "plain_flags cf"
  shows "\<exists>preg ts. posix_regcomp mem (Some (alts_text bs)) past cf = Some (0, Some preg) \<and> compiled_trees ts preg \<and> of_alts bs ts
    \<and> ready preg \<and> cflags (re_g preg) = cf AND NOT REG_DUMP"
proof -
  let ?cf = "cf AND NOT REG_DUMP"
  have pf: "plain_flags ?cf" using assms(3) by (simp add: plain_flags_def flag_on_def and.assoc)
  have fl: "flag_on ?cf REG_EXTENDED \<or> flag_on ?cf REG_NOSPEC" "\<not> (flag_on ?cf REG_EXTENDED \<and> flag_on ?cf REG_NOSPEC)"
    using pf by (simp_all add: plain_flags_def)
  obtain p ts where p: "regcomp_parse mem (alts_text bs) past ?cf = Some p" "p_error p = 0" "p_strip p = (OEND, 0) # lays ts @ [(OEND, 0)]" "of_alts bs ts"
    using parse_reads [OF assms(1,2) pf] by blast
  have g: "good p" "\<not> flag_on (p_iflags p) BAD" "\<not> p_backrefs p" "p_cflags p = ?cf"
    using regcomp_parse_ok [OF assms(1) alts_text_nonzero [OF assms(2)] fl(1), of past] p(1) by auto
  obtain preg where preg: "posix_regcomp mem (Some (alts_text bs)) past cf = Some (0, Some preg)" "compiled_trees ts preg" "cflags (re_g preg) = ?cf"
    using finish_regcomp [OF assms(1) p(1) g(1-3) fl(2), of ts] p(2,3) means_tree_ok [OF shape_means(3) [OF p(4)]] g(4) by auto
  have "few_anchors (re_g preg) 1 (laststate (re_g preg))"
    using preg(2) shape_means(3) [OF p(4)] by (intro plain_few_anchors [of _ ts]) (simp_all add: compiled_trees_def means_def Let_def)
  then show ?thesis using preg p(4) compiled_ready [OF preg(2)] by blast
qed

text \<open>The words between the places of a text.\<close>

lemma accepted_word:
  assumes "compiled_trees ts preg" "means ts A" "m_g m = re_g preg" "subject_ok m"
  shows "accepted m s e \<longleftrightarrow> m_beginp m \<le> s \<and> s \<le> e \<and> e \<le> m_endp m \<and> take (e - s) (drop s (m_buf m)) \<in> A"
proof -
  have "tree_spans m ts s e \<longleftrightarrow> s \<le> e \<and> take (e - s) (drop s (m_buf m)) \<in> A" if e: "e \<le> m_endp m"
  proof -
    have b: "e \<le> length (m_buf m)" using e assms(4) by (simp add: subject_ok_def)
    have "lang_span m A s e \<longleftrightarrow> s \<le> e \<and> take (e - s) (drop s (m_buf m)) \<in> A"
    proof
      assume "lang_span m A s e"
      then obtain w where w: "w \<in> A" "e = s + length w" "text_at m w s" by (auto simp: lang_span_def)
      have "take (e - s) (drop s (m_buf m)) = w" using w(2,3) b by (intro nth_equalityI) (auto simp: text_at_def)
      then show "s \<le> e \<and> take (e - s) (drop s (m_buf m)) \<in> A" using w(1,2) by simp
    next
      assume "s \<le> e \<and> take (e - s) (drop s (m_buf m)) \<in> A"
      then show "lang_span m A s e" unfolding lang_span_def
        using b e by (intro bexI [of _ "take (e - s) (drop s (m_buf m))"]) (auto simp: text_at_def)
    qed
    then show ?thesis using assms(2) by (simp add: means_def)
  qed
  then show ?thesis using compiled_accepted [OF assms(1,3)] by blast
qed

section \<open>Words found in a text\<close>

definition word_at :: "ere list list \<Rightarrow> byte list \<Rightarrow> nat \<Rightarrow> nat \<Rightarrow> bool" where
  "word_at bs text s e \<longleftrightarrow> s \<le> e \<and> e \<le> length text \<and> take (e - s) (drop s text) \<in> alts_lang bs"

lemma accepted_text:
  assumes "compiled_trees ts preg" "means ts (alts_lang bs)" "0 \<notin> set text" "\<not> flag_on eflags REG_STARTEND"
    and "m = subject alnum (re_g preg) (text @ [0]) pmatch eflags"
  shows "accepted m s e \<longleftrightarrow> word_at bs text s e" "m_beginp m = 0" "m_g m = re_g preg"
proof -
  have "takeWhile (\<lambda>b. b \<noteq> 0) (text @ [0]) = text" using assms(3) by (subst takeWhile_append2) auto
  then have m: "m_g m = re_g preg" "m_beginp m = 0" "m_endp m = length text" "m_buf m = text @ [0]"
    using assms(4) by (simp_all add: assms(5) subject_def window_def)
  have "subject_ok m" using m by (simp add: subject_ok_def)
  then show "accepted m s e \<longleftrightarrow> word_at bs text s e" using accepted_word [OF assms(1,2) m(1)] m by (auto simp: word_at_def)
  show "m_beginp m = 0" "m_g m = re_g preg" by (rule m)+
qed

definition found_word :: "ere list list \<Rightarrow> byte list \<Rightarrow> regmatch_t list \<Rightarrow> int \<times> regmatch_t list \<Rightarrow> bool" where
  "found_word bs text pmatch r \<longleftrightarrow>
     (if \<exists>s e. word_at bs text s e
      then \<exists>s e. r = (0, \<lparr> rm_so = int s, rm_eo = int e \<rparr> # tl pmatch) \<and> word_at bs text s e \<and> (\<forall>e'. word_at bs text s e' \<longrightarrow> e' \<le> e)
        \<and> (alts_snug bs \<longrightarrow> (\<forall>s' < s. \<forall>e'. \<not> word_at bs text s' e'))
      else r = (REG_NOMATCH, pmatch))"

lemma regexec_words:
  assumes "compiled_trees ts preg" "of_alts bs ts" "ready preg" "\<not> flag_on (cflags (re_g preg)) REG_NOSUB"
    and "0 \<notin> set text" "\<not> flag_on eflags REG_STARTEND" "pmatch \<noteq> []" "mem 0"
  shows "\<exists>r. posix_regexec mem alnum preg (text @ [0]) 1 pmatch eflags = Some r \<and> found_word bs text pmatch r"
proof -
  let ?m = "subject alnum (re_g preg) (text @ [0]) pmatch (exec_flags eflags)"
  have fl: "\<not> flag_on (exec_flags eflags) REG_STARTEND" using assms(6) by (simp add: exec_flags_def flag_on_def and.assoc)
  have w: "window_ok (text @ [0]) pmatch (exec_flags eflags)" using fl by (simp add: window_ok_def)
  note acc = accepted_text [OF assms(1) shape_means(3) [OF assms(2)] assms(5) fl refl, of alnum pmatch]
  have must: "must_sound ?m" using compiled_must [OF assms(1) acc(3)] window_subject(1) [OF w] by blast
  have a: "asks (re_g preg) 1 = 1" using assms(4) by (simp add: asks_def)
  then have l: "asks (re_g preg) 1 \<le> 1" "asks (re_g preg) 1 \<le> length pmatch" using assms(7) by (cases pmatch; simp)+
  obtain r where r: "posix_regexec mem alnum preg (text @ [0]) 1 pmatch eflags = Some r" "exec_result ?m 1 pmatch r"
    using posix_regexec_finds [of preg "text @ [0]" pmatch eflags 1 mem alnum, OF assms(3) w l assms(8) must] a by auto
  have cold: "alts_snug bs \<longrightarrow> cold_safe (re_g preg) (gf (re_g preg)) (laststate (re_g preg))"
    using tight_cold_safe [OF assms(1)] assms(2) by (simp add: of_alts_def shape_def)
  have "found_word bs text pmatch r"
    using r(2) cold unfolding exec_result_def leftmost_def acc found_word_def by auto
  then show ?thesis using r(1) by blast
qed

end
