(* ===== verification/Spec2Isabelle.thy ===== *)
theory Spec2Isabelle
  imports Strtold Strto_Int Getopt Fnmatch Glob Regexp_Search Posix_Ere
begin

text \<open>
  A verification library for C code of the repository: the parts of the Cygwin and MinGW run-time
  libraries under src/winsup that are written in C and carry logic of their own. Every definition
  follows the source statement by statement; the theorems of this theory are the properties a
  caller relies on. Paths below are under src/winsup.

  \<^bold>\<open>Layers.\<close> \<open>Prelude\<close> has the word types, the collections of hints and the lemmas on lists and
  words the components share.

  \<^item> \<open>Emath_Words\<close>, \<open>Emath_Arith\<close>, \<open>Emath_Round\<close>: the extended precision kernel,
    mingw/mingwex/math/cephes_emath.h and cephes_emath.c. An external number is a list of six 16
    bit words (\<open>NE\<close>), an internal one a list of nine (\<open>NI\<close>: sign, exponent, guard word, five
    words, low guard word); the pointers of the code become such lists, a routine that writes
    through a pointer returns the new list. \<open>sigval\<close> reads the significand as a number, and the
    lemmas say what each routine does to it: shifts and normalisation (\<open>eshift\<close>, \<open>enormlz\<close>),
    addition and subtraction with wrap-around (\<open>eaddm\<close>, \<open>esubm\<close>), long multiplication and
    division (\<open>emulm\<close>, \<open>edivm\<close>, whose trial digit needs at most two corrections), rounding
    (\<open>emdnorm\<close>), the product of external numbers (\<open>emul\<close>), comparison (\<open>ecmp\<close>), and the
    conversion to the 80 bit format of the processor (\<open>toe64\<close>).
  \<^item> \<open>Strtold\<close>: mingw/mingwex/strtold.c on top of the kernel. The record \<open>asc\<close> is the local
    state of \<open>asctoe64\<close>, the labels of its \<open>goto\<close>s are the datatype \<open>asc_exit\<close>. The result is the
    end offset, whether \<open>errno\<close> was set to \<open>ERANGE\<close>, and the six words of the union.
  \<^item> \<open>Strto_Int\<close>: strtoimax.c, strtoumax.c, wcstoimax.c and wcstoumax.c of mingw/mingwex. The four
    differ in the character tests and in the overflow test, so the character operations are a record
    \<open>ctype\<close> with one value for each character type, and the locale \<open>char_type\<close> states what the
    conversions rely on. The lemmas say what a subject sequence gives, what a text without one gives, and
    how the signed and the unsigned conversion of any text are related.
  \<^item> \<open>Getopt\<close>: cygwin/lib/getopt.c. The record \<open>getopt_state\<close> holds the static and the global
    variables and the argument vector; \<open>None\<close> is undefined behaviour (a division by zero or an
    access outside the vector), so that the theorem that it never occurs has to be proved.
  \<^item> \<open>Fnmatch\<close>: cygwin/libc/fnmatch.c, with the flags as an integer.
  \<^item> \<open>Glob_Pattern\<close> and \<open>Glob\<close>: cygwin/glob.c. The first has the compiled form of a pattern (Chars of 16
    bits), the matcher for one segment and the brace expansion; the second the result vector, the
    traversal of the file system, which is a parameter, and the entry point.
  \<^item> \<open>Regexp_Compile\<close>, \<open>Regexp_Layout\<close>, \<open>Regexp_Emits\<close>, \<open>Regexp_Exec\<close>, \<open>Regexp_Search\<close>:
    cygwin/regexp/v8_regexp.c and v8_regsub.c. \<open>Regexp_Compile\<close> is the compiler: the work variables are
    the record \<open>rstate\<close>, the program a list of bytes, pointers into it indices, \<open>&regdummy\<close> is
    \<open>None\<close>, and a call that returns NULL after \<open>regerror\<close> is \<open>Inl\<close>. \<open>Regexp_Layout\<close> has what it is meant to
    produce (tree, parser, layout of a program), \<open>Regexp_Emits\<close> the proof that both passes do.
    \<open>Regexp_Exec\<close> is the matcher, with a matcher on trees and the language of an expression beside it;
    \<open>Regexp_Search\<close> has the search, the subexpressions and the substitution. A write of the second pass
    behind the block that the first pass counted is the fault of the compiler, a read through \<open>reginput\<close>
    before the subject or behind its NUL that of the matcher. \<open>malloc\<close> and \<open>isalnum\<close> are parameters.
  \<^item> \<open>Posix_Engine\<close>, \<open>Posix_Steps\<close>, \<open>Posix_Match\<close>, \<open>Posix_Search\<close>: cygwin/regex/engine.c and regexec.c.
    \<open>Posix_Engine\<close> is the code: the macros that make the two instances of the engine are the record
    \<open>states_ops\<close> with the values \<open>small\<close> and \<open>large\<close>; pointers into the subject are offsets; an outer \<open>None\<close> is an
    access outside an array, a shift too far or a loop without end. \<open>Posix_Steps\<close> reads a strip as an
    automaton and shows that \<open>step\<close> computes closures; \<open>Posix_Match\<close> what \<open>slow\<close> and \<open>fast\<close> find;
    \<open>Posix_Search\<close> has the result of \<open>regexec\<close> and the strips on which it goes wrong.
  \<^item> \<open>Posix_Parse\<close> and \<open>Posix_Compile\<close>: cygwin/regex/regcomp.c with its tables. \<open>Posix_Parse\<close> has
    \<open>struct parse\<close> (the record \<open>cparse\<close>), the emission of operators, the sets of characters and the three
    parsers; \<open>Posix_Compile\<close> what follows the parse, and \<open>regcomp\<close> itself. Which allocations succeed is a
    parameter; the text left is a list that an error empties.
  \<^item> \<open>Posix_Layout\<close>, \<open>Posix_Brackets\<close>, \<open>Posix_Emits\<close>, \<open>Posix_Language\<close>, \<open>Posix_Must\<close>: what \<open>regcomp\<close> makes.
    A strip is the layout of trees (\<open>ptree\<close>); \<open>Posix_Layout\<close> shows that layouts are well-formed strips and
    that the emission of a repetition is the layout of its expansion (\<open>reps\<close>), \<open>Posix_Brackets\<close> and \<open>Posix_Emits\<close>
    that the extended parser and the parser for strings return and emit layouts, on every text without a NUL;
    \<open>Posix_Language\<close> that a layout accepts the spans of its trees; \<open>Posix_Must\<close> that the scans behind the parser
    are safe and the string they find is in every match.
  \<^item> \<open>Posix_Cold\<close>, \<open>Posix_Words\<close>, \<open>Posix_Ere\<close>: compiler and engine together. \<open>Posix_Cold\<close> gives a condition on
    the trees under which the search may trust \<open>coldp\<close>. \<open>Posix_Words\<close> has extended expressions as a data type, with the text
    and the language of one and the meaning of a bounded repetition; \<open>Posix_Ere\<close> shows that the parser reads the text of
    an expression and emits trees for its language, and what \<open>regexec\<close> then finds in a text. Expressions with
    sets, anchors or word boundaries, and the flags for case and for lines, are outside this part.

  \<^bold>\<open>Interfaces.\<close> \<open>shift_add\<close> (in \<open>Strtold\<close>) is what the conversion of digits needs from the
  kernel, interpreted on the kernel's routines; \<open>char_type\<close> (in \<open>Strto_Int\<close>) is interpreted on
  narrow and on wide characters; \<open>state_rep\<close> (in \<open>Posix_Steps\<close>) is what the engine needs of sets of states,
  interpreted on words (\<open>small_rep\<close>) and on arrays (\<open>large_rep\<close>).

  \<^bold>\<open>Numbers.\<close> \<open>unsigned short\<close>, \<open>unsigned long\<close> and \<open>uintmax_t\<close> are \<open>16 word\<close>, \<open>32 word\<close> and
  \<open>64 word\<close> (a \<open>long\<close> has 32 bits on this platform) wherever they are computed with; loop counters,
  lengths and the arguments of \<open>getopt\<close> are integers that stay far inside the range of \<open>int\<close>.
  Characters are bytes, signed where the code compares them as \<open>char\<close>.

  \<^bold>\<open>Termination.\<close> All functions are total. Loops over the text or the argument vector end by the
  length that is left, the loops of \<open>enormlz\<close> by its shift count, the padding loop of \<open>strtold\<close> by the
  exponent; \<open>getopt_run\<close>, the caller's loop, has fuel, and the theorem about it gives the
  number of calls that is enough. \<open>reg\<close> has the nesting depth as fuel and its loops the length of the
  text left, which \<open>regcomp\<close> sets to the length of the expression; running out is \<open>FAULT\<close>, which never
  happens. \<open>regmatch\<close> may not end on a corrupted program, so it has fuel, and for compiled programs some
  fuel is proved to be enough. The loops of the POSIX engine are partial functions, whose value is \<open>None\<close>
  where they would not end; \<open>step\<close> ends because a jump back adds a state.

  \<^bold>\<open>Build choices.\<close> The kernel is modelled as the makefile compiles it: \<open>NE = 6\<close>, \<open>NANS\<close> and
  \<open>INFINITY\<close> defined, \<open>IBMPC\<close>, without \<open>USE_LDTOA\<close> (so cephes_emath.c from line 886 on is not there).

  \<^bold>\<open>Limits of the statements.\<close> The theorems on \<open>emdnorm\<close> and \<open>emul\<close> are for results that are not below
  the normal range; the branch for denormal results is modelled, and nothing is proved of it. \<open>edivm_digit\<close>
  gives 0 for a denominator and a numerator whose leading words are zero, where the code would divide by zero; the theorem
  on \<open>edivm\<close> is for normalised denominators. The path buffers of glob.c, \<open>MAXPATHLEN\<close> characters long, are
  lists without a bound. That \<open>regmatch\<close> forms the pointer before the first byte after the last attempt
  of a repetition is not a fault of the model, which has reads and no pointer arithmetic of its own. The
  automaton of the POSIX strips (\<open>accepts\<close>) looks at line flags and not at word boundaries, and the search is shown
  right for strips in which no anchor was copied by a repetition.

  \<^bold>\<open>Not modelled.\<close> The C++ core of the DLL, the daemon, the utilities and the start-up code (calls into
  Windows), headers and import tables, the math library (rounding of the hardware), the test suite,
  the vendored bzip2. The allocator cygwin/dlmalloc.c
  and mingw/mingwex/ldtoa.c (not compiled by default) are left for another time.
\<close>

section \<open>Decimal text to long double\<close>

text \<open>C1: \<open>strtold\<close> on optional blanks, an optional sign and decimal digits of value \<open>v\<close>,
  \<open>0 < v < 2 ^ 80\<close>: the end pointer is behind the digits, no range error is set, and the significand
  is \<open>v\<close> rounded once to 64 bits (nearest, ties to even), with the exponent and sign of \<open>v\<close>.
  \<open>k\<close> is the shift that brings \<open>v\<close> to 80 bits.\<close>

theorem strtold_rounds_integer:
  assumes "list_all c_isspace sp" "sign_text sg" "list_all c_isdigit ds" "ds \<noteq> []"
    and "num_end dec rest" "dec \<notin> {CHR ''+'', CHR ''-''}"
    and "0 < dec_value 0 ds" "dec_value 0 ds < 2 ^ 80" "norm_shift (dec_value 0 ds) k"
  shows "let M = rne (dec_value 0 ds * 2 ^ k) 16;
             (end_pos, erange, words) = strtold dec (sp @ sg @ ds @ rest)
         in end_pos = int (length (sp @ sg @ ds)) \<and> \<not> erange \<and> length words = 6
            \<and> wval (rev (take 4 words)) = (if M = 2 ^ 64 then 2 ^ 63 else M)
            \<and> unat (words ! 4) = 16462 - k + of_bool (M = 2 ^ 64) + (if sg = ''-'' then 32768 else 0)"
  using strtold_integer [OF assms]
  by (cases "strtold dec (sp @ sg @ ds @ rest)") (simp add: Let_def)

theorem strtold_rounds_integer_witness:
  "wval (rev (take 4 (snd (snd (strtold CHR ''.'' ''  -36893488147419103235x''))))) = 2 ^ 63 + 1"
  using strtold_rounds_integer [of "''  ''" "''-''" "''36893488147419103235''" "CHR ''.''" "''x''" 14]
  by (simp add: c_isspace_def sign_text_def c_isdigit_def digit_val_def num_end_def norm_shift_def
      rne_def round_by_def round_up_def Let_def split: prod.splits)

section \<open>Extended precision arithmetic\<close>

text \<open>C2: \<open>emul\<close> of two normal numbers whose product is not below the normal range (the last hypothesis; an
  underflow or a denormal product is not covered) is correctly rounded: \<open>P\<close> is the exact product of the significands,
  \<open>M\<close> is \<open>P\<close> rounded to 80 bits (nearest, ties to even), the exponents add up (with the carry of the
  rounding) and the signs multiply; beyond the range of exponents the result is an infinity.\<close>

theorem emul_rounds_product:
  assumes "enormal a" "enormal b" "is_ee c"
    and "16382 + (if emant a * emant b < 2 ^ 159 then 1 else 0) \<le> eexp a + eexp b"
  shows "let P = emant a * emant b; d = (if P < 2 ^ 159 then 1 else 0); M = rne P (80 - d);
             e = int (eexp a + eexp b) - 16382 - int d + (if M = 2 ^ 80 then 1 else 0);
             r = emul a b c
         in if e < 32767
            then is_ee r \<and> emant r = (if M = 2 ^ 80 then 2 ^ 79 else M) \<and> int (eexp r) = e
                 \<and> (esgn r \<longleftrightarrow> esgn a \<noteq> esgn b)
            else r = einf_val (esgn a \<noteq> esgn b)"
  using emul_normal [OF assms] unfolding Let_def by (simp add: not_less)

theorem emul_rounds_product_witness:
  "let r = emul [3, 0, 0, 0, 0x8000, 0x4000] [1, 0, 0, 0, 0xc000, 0xbfff] [0, 0, 0, 0, 0, 0]
   in emant r = 3 * 2 ^ 78 + 6 \<and> eexp r = 16384 \<and> esgn r"
  using emul_rounds_product [of "[3, 0, 0, 0, 0x8000, 0x4000]" "[1, 0, 0, 0, 0xc000, 0xbfff]" "[0, 0, 0, 0, 0, 0]"]
  by (simp add: enormal_def is_ee_def eexp_def emant_def esgn_def Let_def rne_def round_by_def round_up_def)

text \<open>C3: \<open>emdnorm\<close> with rounding on (\<open>rcntrl\<close> not zero), at \<open>rndprc\<close> 80 or 64 (\<open>k\<close> is the rounding place), of a
  significand of at least \<open>2 ^ 16\<close> with a clear guard word, for a result that is not below the normal
  range (the exponent after normalising is not negative, and positive at 64 bits; the branch for
  denormal results and underflow is not covered): the normalised significand \<open>N\<close> is rounded to nearest, a tie being decided by
  \<open>lost\<close> and \<open>subflg\<close> or else to even; a carry out of the top goes into the exponent; an exponent
  beyond the range gives the pattern of an infinity.\<close>

theorem emdnorm_rounds:
  assumes "is_ei s" "sigval s < 65536 ^ 6" "2 ^ 16 \<le> sigval s" "enormlz s = (j, s1)"
    and "0 \<le> e - j" "rcntrl \<noteq> 0" "round_place rndprc k (e - j)"
  shows "let N = sigval s * 2 ^ nat j; M = round_by N k (tie_up N k lost subflg);
             e' = (if M = 2 ^ (96 - k) then e - j + 1 else e - j);
             y = emdnorm s lost subflg e rcntrl rndprc
         in if e' < 32767
            then is_ei y \<and> y ! 0 = s ! 0 \<and> unat (y ! 1) = nat e' \<and> y ! 2 = 0 \<and> y ! 8 = 0
                 \<and> sigval y = (if M = 2 ^ (96 - k) then 2 ^ 95 else M * 2 ^ k)
            else y = [s ! 0, 32767, 0, 0, 0, 0, 0, 0, 0]"
  using emdnorm_normal [OF assms] unfolding Let_def by (simp add: not_less)

theorem emdnorm_rounds_witness:
  "sigval (emdnorm [0, 0, 0, 0x8000, 0, 0, 0, 1, 0x8000] 0 0 100 64 80) = (2 ^ 79 + 2) * 2 ^ 16"
proof -
  have n: "enormlz [0, 0, 0, 0x8000, 0, 0, 0, 1, 0x8000] = (0, [0, 0, 0, 0x8000, 0, 0, 0, 1, 0x8000])"
    by (simp add: enormlz_def)
  show ?thesis
    using emdnorm_rounds [OF _ _ _ n, of 100 64 80 16 0 0]
    by (simp add: is_ei_def sigval_def round_place_def round_by_def round_up_def tie_up_def Let_def)
qed

text \<open>C4: \<open>edivm\<close> with a normalised denominator: the quotient digits (each with at most two corrections
  of the trial digit) are those of the exact quotient, and the flag says whether a remainder is left.\<close>

theorem edivm_divides:
  assumes "is_ei den" "den ! 2 = 0" "0x8000 \<le> unat (den ! 3)" "is_ei num" "num ! 2 = 0"
  shows "let (j, q) = edivm den num
         in sigval q = (sigval num div 2 * 65536 ^ 6) div sigval den
            \<and> j = (if (sigval num div 2 * 65536 ^ 6) mod sigval den = 0 then 0 else 1)
            \<and> is_ei q \<and> take 2 q = take 2 num"
proof -
  obtain j q where "edivm den num = (j, q)" by fastforce
  then show ?thesis using edivm_correct [OF assms] by simp
qed

theorem edivm_divides_witness:
  "sigval (snd (edivm [0, 0, 0, 0xc000, 0, 0, 0, 0, 0] [0, 0, 0, 0x8000, 0, 0, 0, 0, 0])) = 2 ^ 96 div 3"
  using edivm_divides [of "[0, 0, 0, 0xc000, 0, 0, 0, 0, 0]" "[0, 0, 0, 0x8000, 0, 0, 0, 0, 0]"]
  by (simp add: is_ei_def sigval_def split: prod.splits)

text \<open>C5: \<open>emulm\<close>: the result is the exact product of the two significands without its low 96 bits, and the
  flag is nonzero exactly when a nonzero bit was dropped.\<close>

theorem emulm_multiplies:
  assumes "is_ei a" "is_ei b"
  shows "let (j, c) = emulm a b
         in sigval c = lowval a * lowval b div 65536 ^ 6
            \<and> (j = 0 \<longleftrightarrow> lowval a * lowval b mod 65536 ^ 6 = 0) \<and> is_ei c \<and> take 2 c = take 2 b"
proof -
  obtain j c where "emulm a b = (j, c)" by fastforce
  then show ?thesis using emulm_correct [OF assms] by simp
qed

theorem emulm_multiplies_witness:
  "sigval (snd (emulm [0, 0, 0, 0x8000, 0, 0, 0, 3, 0] [7, 8, 0, 0xc000, 0, 0, 0, 0, 0])) = 3 * (2 ^ 93 + 3 * 2 ^ 14)"
  using emulm_multiplies [of "[0, 0, 0, 0x8000, 0, 0, 0, 3, 0]" "[7, 8, 0, 0xc000, 0, 0, 0, 0, 0]"]
  by (simp add: is_ei_def sigval_def lowval_def split: prod.splits)

text \<open>C6: \<open>ecmp\<close> of two normal numbers is the sign of the difference of the numbers they stand for.\<close>

theorem ecmp_orders_values:
  assumes "enormal a" "enormal b"
  shows "ecmp a b = sgn (eval_scaled a - eval_scaled b)"
  by (rule ecmp_value [OF assms])

theorem ecmp_orders_values_witness:
  "ecmp [3, 0, 0, 0, 0x8000, 0x8003] [1, 0, 0, 0, 0xc000, 0x0005] = - 1"
  using ecmp_orders_values [of "[3, 0, 0, 0, 0x8000, 0x8003]" "[1, 0, 0, 0, 0xc000, 0x0005]"]
  by (simp add: enormal_def is_ee_def eexp_def emant_def esgn_def eval_scaled_def)

text \<open>C7: \<open>enormlz\<close> keeps the sign and the exponent. A zero significand stays zero and gives the count 96. Any
  other is multiplied by two to the count returned, or shifted down when the count is negative (a
  guard word that is not clear), and ends with a clear guard word and its leading bit at the top.\<close>

theorem enormlz_normalises:
  assumes "is_ei x"
  shows "let (sc, y) = enormlz x
         in is_ei y \<and> take 2 y = take 2 x
            \<and> (if sigval x = 0 then sc = 96 \<and> sigval y = 0
               else 2 ^ 95 \<le> sigval y \<and> sigval y < 65536 ^ 6
                 \<and> sigval y = (if 0 \<le> sc then sigval x * 2 ^ nat sc else sigval x div 2 ^ nat (- sc)))"
proof -
  obtain sc y where e: "enormlz x = (sc, y)" by fastforce
  consider "sigval x = 0" | "0 < sigval x" "sigval x < 65536 ^ 6" | "65536 ^ 6 \<le> sigval x" by linarith
  then show ?thesis
  proof cases
    case 1
    then show ?thesis using enormlz_zero [OF assms 1 e] e by (simp add: numeral_2_eq_2)
  next
    case 2
    then show ?thesis using enormlz_up [OF assms 2(2,1) e] e by (simp add: norm_post_def)
  next
    case 3
    then show ?thesis using enormlz_down [OF assms 3 e] e by simp
  qed
qed

theorem enormlz_normalises_witness:
  "2 ^ 95 \<le> sigval (snd (enormlz [0, 5, 0, 0, 0, 0, 0, 1, 0])) \<and> fst (enormlz [0, 5, 0, 0, 0, 0, 0, 0, 0]) = 96"
  using enormlz_normalises [of "[0, 5, 0, 0, 0, 0, 0, 1, 0]"] enormlz_normalises [of "[0, 5, 0, 0, 0, 0, 0, 0, 0]"]
  by (simp add: is_ei_def sigval_def split: prod.splits)

text \<open>C8: \<open>eshift\<close>: a shift up multiplies (modulo the size of the significand), a shift down divides, and
  the value returned says whether a nonzero bit was lost below.\<close>

theorem eshift_shifts:
  assumes "is_ei x"
  shows "let (lost, y) = eshift x sc
         in is_ei y \<and> take 2 y = take 2 x
            \<and> (if 0 \<le> sc then sigval y = sigval x * 2 ^ nat sc mod 65536 ^ 7 \<and> lost = 0
               else sigval y = sigval x div 2 ^ nat (- sc)
                    \<and> lost = (if sigval x mod 2 ^ nat (- sc) = 0 then 0 else 1))"
proof -
  obtain lost y where "eshift x sc = (lost, y)" by fastforce
  then show ?thesis using eshift_correct [OF assms] by simp
qed

theorem eshift_shifts_witness:
  "fst (eshift [0, 5, 0, 0x8000, 0, 0, 0, 1, 0] (- 37)) = 1"
  using eshift_shifts [of "[0, 5, 0, 0x8000, 0, 0, 0, 1, 0]" "- 37"]
  by (simp add: is_ei_def sigval_def split: prod.splits)

text \<open>C9: Loading a finite external number into the internal format and storing it gives it back.\<close>

theorem external_round_trip:
  assumes "is_ee x" "eexp x < 0x7fff" "is_ee c"
  shows "emovo (emovi below x) c = x"
  by (rule emovo_emovi [OF assms])

theorem external_round_trip_witness:
  "emovo (emovi 7 [1, 2, 3, 4, 0x8005, 0xc001]) [9, 9, 9, 9, 9, 9] = [1, 2, 3, 4, 0x8005, 0xc001]"
  using external_round_trip [of "[1, 2, 3, 4, 0x8005, 0xc001]" "[9, 9, 9, 9, 9, 9]" 7]
  by (simp add: is_ee_def eexp_def)

text \<open>C10: \<open>eaddm\<close> and \<open>esubm\<close> are addition and subtraction of the 112 bit significands with wrap-around;
  sign and exponent of the destination stay.\<close>

theorem eaddm_esubm_modular:
  assumes "is_ei x" "is_ei y"
  shows "sigval (eaddm x y) = (sigval x + sigval y) mod 65536 ^ 7
    \<and> int (sigval (esubm x y)) = (int (sigval y) - int (sigval x)) mod 65536 ^ 7
    \<and> take 2 (eaddm x y) = take 2 y \<and> take 2 (esubm x y) = take 2 y"
  using sigval_eaddm [OF assms] sigval_esubm_mod [OF assms] take_arith [OF assms(2)] by simp

theorem eaddm_esubm_modular_witness:
  "sigval (eaddm [1, 2, 0xffff, 0xffff, 0xffff, 0xffff, 0xffff, 0xffff, 0xffff] [3, 4, 0, 0, 0, 0, 0, 0, 2]) = 1"
  using eaddm_esubm_modular [of "[1, 2, 0xffff, 0xffff, 0xffff, 0xffff, 0xffff, 0xffff, 0xffff]"
      "[3, 4, 0, 0, 0, 0, 0, 0, 2]"]
  by (simp add: is_ei_def sigval_def)

section \<open>Text to integers\<close>

text \<open>C11: \<open>strtoimax\<close> and \<open>wcstoimax\<close> on a subject sequence in any base: the end pointer is behind the
  digits, the result is the value clamped to the range of \<open>intmax_t\<close>, and \<open>errno\<close> is set to
  \<open>ERANGE\<close> exactly when it had to be clamped. No intermediate wrap-around goes unnoticed.\<close>

theorem strtoimax_saturates:
  assumes "int_text narrow base b sp sg pre ds rest" "int_text wide base' b' sp' sg' pre' ds' rest'"
  shows "(let r = strtoimax (sp @ sg @ pre @ ds @ rest) base; v = signed_value narrow b sg ds
         in cv_end r = length (sp @ sg @ pre @ ds)
            \<and> sint (cv_value r) = max (- (2 ^ 63)) (min (2 ^ 63 - 1) v)
            \<and> cv_errno r = (if - (2 ^ 63) \<le> v \<and> v < 2 ^ 63 then None else Some ERANGE))
    \<and> (let r = wcstoimax (sp' @ sg' @ pre' @ ds' @ rest') base'; v = signed_value wide b' sg' ds'
         in cv_end r = length (sp' @ sg' @ pre' @ ds')
            \<and> sint (cv_value r) = max (- (2 ^ 63)) (min (2 ^ 63 - 1) v)
            \<and> cv_errno r = (if - (2 ^ 63) \<le> v \<and> v < 2 ^ 63 then None else Some ERANGE))"
  unfolding Let_def strtoimax_def wcstoimax_def
  using narrow.imax_text [OF assms(1)] wide.imax_text [OF assms(2)] by blast

theorem strtoimax_saturates_witness:
  "sint (cv_value (strtoimax ''  -0xffffffffffffffffz'' 0)) = - (2 ^ 63)
   \<and> cv_end (wcstoimax [0x37, 0x37, 0x39] 8) = 2"
proof -
  have 1: "int_text narrow 0 16 ''  '' ''-'' ''0x'' ''ffffffffffffffff'' ''z''"
    by (simp add: int_text_def prefix_ok_def digits_of_def no_digit_def valid_digit_def narrow_def
        ToNumber_def to_number_code_def space_code_def)
  have 2: "int_text wide 8 8 [] [] [] [0x37, 0x37] [0x39]"
    by (simp add: int_text_def prefix_ok_def digits_of_def no_digit_def valid_digit_def wide_def
        ToWNumber_def to_number_code_def)
  show ?thesis
    using strtoimax_saturates [OF 1 2]
    by (simp add: signed_value_def narrow_def ToNumber_def to_number_code_def Let_def)
qed

text \<open>C12: \<open>strtoumax\<close> and \<open>wcstoumax\<close> on a subject sequence: below \<open>2 ^ 64\<close> the value, negated with
  wrap-around after a minus sign; else \<open>UINTMAX_MAX\<close> and \<open>ERANGE\<close>. The tests for the major and the
  minor wrap-around together catch every overflow and nothing else.\<close>

theorem strtoumax_wraps_or_saturates:
  assumes "int_text narrow base b sp sg pre ds rest" "int_text wide base' b' sp' sg' pre' ds' rest'"
  shows "(let r = strtoumax (sp @ sg @ pre @ ds @ rest) base; V = digits_value narrow b 0 ds
         in cv_end r = length (sp @ sg @ pre @ ds)
            \<and> cv_value r = (if V < 2 ^ 64 then word_of_int (signed_value narrow b sg ds) else - 1)
            \<and> cv_errno r = (if V < 2 ^ 64 then None else Some ERANGE))
    \<and> (let r = wcstoumax (sp' @ sg' @ pre' @ ds' @ rest') base'; V = digits_value wide b' 0 ds'
         in cv_end r = length (sp' @ sg' @ pre' @ ds')
            \<and> cv_value r = (if V < 2 ^ 64 then word_of_int (signed_value wide b' sg' ds') else - 1)
            \<and> cv_errno r = (if V < 2 ^ 64 then None else Some ERANGE))"
  unfolding Let_def strtoumax_def wcstoumax_def
  using narrow.umax_text [OF assms(1)] wide.umax_text [OF assms(2)] by blast

theorem strtoumax_wraps_or_saturates_witness:
  "cv_value (strtoumax ''-1'' 10) = 0xffffffffffffffff \<and> cv_end (wcstoumax [0x37, 0x37, 0x39] 8) = 2"
proof -
  have 1: "int_text narrow 10 10 [] ''-'' [] ''1'' []"
    by (simp add: int_text_def prefix_ok_def digits_of_def no_digit_def valid_digit_def narrow_def
        ToNumber_def to_number_code_def)
  have 2: "int_text wide 8 8 [] [] [] [0x37, 0x37] [0x39]"
    by (simp add: int_text_def prefix_ok_def digits_of_def no_digit_def valid_digit_def wide_def
        ToWNumber_def to_number_code_def)
  show ?thesis
    using strtoumax_wraps_or_saturates [OF 1 2]
    by (simp add: signed_value_def narrow_def ToNumber_def to_number_code_def Let_def)
qed

text \<open>C13: The signed and the unsigned conversion of the same text, whatever the text and the base, narrow and
  wide: they have different loops, different overflow tests and different final checks, yet return the
  same value, end and \<open>errno\<close> unless the signed one reports \<open>ERANGE\<close>. Then it returns the limit of
  \<open>intmax_t\<close> on the side of the sign, both stop at the same place, and the unsigned one is out of range
  too or returns a magnitude beyond that limit.\<close>

theorem signed_agrees_with_unsigned:
  "fits_or_clamped (strtoimax s base) (strtoumax s base) \<and> fits_or_clamped (wcstoimax t base') (wcstoumax t base')"
  unfolding strtoimax_def strtoumax_def wcstoimax_def wcstoumax_def
  using narrow.imax_umax wide.imax_umax by blast

text \<open>C14: A base the conversions do not know is a domain error with nothing consumed. With a known base, a text
  without a digit right behind the blanks and the sign is no conversion: zero, nothing consumed,
  \<open>errno\<close> untouched. Both hold of all four conversions.\<close>

theorem bad_base_is_domain_error:
  assumes "bad_base bad" "\<not> bad_base base" "digitless narrow base s" "digitless wide base t"
  shows "(let r = \<lparr> cv_value = 0, cv_end = 0, cv_errno = Some EDOM \<rparr>
      in strtoimax s bad = r \<and> strtoumax s bad = r \<and> wcstoimax t bad = r \<and> wcstoumax t bad = r)
    \<and> (let r = \<lparr> cv_value = 0, cv_end = 0, cv_errno = None \<rparr>
      in strtoimax s base = r \<and> strtoumax s base = r \<and> wcstoimax t base = r \<and> wcstoumax t base = r)"
  unfolding Let_def strtoimax_def strtoumax_def wcstoimax_def wcstoumax_def
  by (simp only: conv_bad_base [OF assms(1)] narrow.digitless_body [OF assms(3,2)] wide.digitless_body [OF assms(4,2)])

theorem bad_base_is_domain_error_witness:
  "strtoimax '' +g'' 16 = \<lparr> cv_value = 0, cv_end = 0, cv_errno = None \<rparr>
   \<and> wcstoumax [0x20, 0x38] 8 = \<lparr> cv_value = 0, cv_end = 0, cv_errno = None \<rparr>
   \<and> wcstoimax [0x20, 0x38] 37 = \<lparr> cv_value = 0, cv_end = 0, cv_errno = Some EDOM \<rparr>"
proof -
  note eval = digitless_def take_sign_def find_base_def at_ptr_def narrow_def wide_def space_code_def
    ToNumber_def ToWNumber_def to_number_code_def valid_digit_def bad_base_def is_x_def
  have base: "bad_base 37" "\<not> bad_base 16" "\<not> bad_base 8" by (simp_all add: bad_base_def)
  have texts: "digitless narrow 16 '' +g''" "digitless wide 16 []" "digitless narrow 8 []"
      "digitless wide 8 [0x20, 0x38]"
    by (simp_all add: eval)
  show ?thesis
    using bad_base_is_domain_error [OF base(1,2) texts(1,2)] bad_base_is_domain_error [OF base(1,3) texts(3,4)]
    by (simp only: Let_def)
qed

section \<open>Option parsing\<close>

text \<open>C15: Calling \<open>getopt\<close> until it returns -1, in permuting mode, from a fresh state: the loop ends (one
  call more than there are events), the events are those of the reference scan, and the vector is
  the program name, the options with their arguments, the non-options and what follows the end
  marker, each in its order; \<open>optind\<close> is the index of the first non-option.\<close>

theorem getopt_run_refines_reference:
  assumes "plain_options options" "PERMUTE posix options"
    and "\<not> g_optreset st" "g_place st = []" "g_optind st = 1"
    and "g_nonopt_start st = - 1" "g_nonopt_end st = - 1" "g_nargv st = prog # args"
    and "ref_scan options [] args = (es, os, ns, rs)"
  shows "\<exists>st'. getopt_run (Suc (length es)) posix options st = Some (es, st')
    \<and> g_nargv st' = prog # os @ ns @ rs \<and> g_optind st' = 1 + int (length os)"
proof -
  have "run_state [] args [prog] [] st"
    using assms(3-8)
    by (simp add: run_state_def scan_inv_def block_inv_def opts_of_def nonopts_of_def rest_of_def)
  from getopt_run_ref [OF assms(1,2) this assms(9)] show ?thesis by simp
qed

theorem getopt_run_refines_reference_witness:
  "\<exists>st'. getopt_run 3 False ''ab:'' \<lparr> g_opterr = True, g_optind = 1, g_optopt = 63, g_optreset = False,
       g_optarg = None, g_place = [], g_nonopt_start = - 1, g_nonopt_end = - 1,
       g_nargv = [''p'', ''x'', ''-a'', ''y'', ''-b'', ''arg'', ''z''], g_warnings = [],
       g_flags = (\<lambda>_. 0), g_idx = 0 \<rparr> = Some ([(97, None), (98, Some ''arg'')], st')
     \<and> g_nargv st' = [''p'', ''-a'', ''-b'', ''arg'', ''x'', ''y'', ''z'']"
proof -
  have r: "ref_scan ''ab:'' [] [''x'', ''-a'', ''y'', ''-b'', ''arg'', ''z'']
     = ([(97, None), (98, Some ''arg'')], [''-a'', ''-b'', ''arg''], [''x'', ''y'', ''z''], [])"
    by (simp add: is_nonopt_def rd_def letter_step_def find_letter_def IGNORE_FIRST_def strchr_def char_int_def)
  have p: "plain_options ''ab:''"
    by (simp add: plain_options_def find_letter_def IGNORE_FIRST_def strchr_def rd_def)
  have m: "PERMUTE False ''ab:''" by (simp add: PERMUTE_def IGNORE_FIRST_def rd_def)
  show ?thesis
    using getopt_run_refines_reference [OF p m _ _ _ _ _ _ r, of "\<lparr> g_opterr = True, g_optind = 1,
       g_optopt = 63, g_optreset = False, g_optarg = None, g_place = [], g_nonopt_start = - 1,
       g_nonopt_end = - 1, g_nargv = [''p'', ''x'', ''-a'', ''y'', ''-b'', ''arg'', ''z''], g_warnings = [],
       g_flags = (\<lambda>_. 0), g_idx = 0 \<rparr>" "''p''"]
    by (fastforce simp: numeral_3_eq_3 simp del: getopt_run.simps)
qed



text \<open>C17: \<open>permute_args\<close> walks as many cycles as the greatest common divisor of the block lengths; the
  effect is the exchange of the two blocks, each in its order, and nothing outside them moves.\<close>

theorem permute_args_exchanges_blocks:
  assumes "s < e" "e < t" "t \<le> length xs"
  shows "permute_args (int s) (int e) (int t) xs
    = Some (take s xs @ take (t - e) (drop e xs) @ take (e - s) (drop s xs) @ drop t xs)"
  using permute_args_exchange [OF assms] by (simp add: exchange_def)

theorem permute_args_exchanges_blocks_witness:
  "permute_args 1 5 11 [0, 1, 2, 3, 4, 5, 6, 7, 8, 9, 10, 11 :: nat]
     = Some [0, 5, 6, 7, 8, 9, 10, 1, 2, 3, 4, 11]"
  using permute_args_exchanges_blocks [of 1 5 11 "[0, 1, 2, 3, 4, 5, 6, 7, 8, 9, 10, 11 :: nat]"]
  by simp

text \<open>C18: The search for a long option, by the options the text is a prefix of: none gives -1, one is
  taken, an exact name is taken when at most one other abbreviation comes before it, and two
  abbreviations before any exact name are reported as ambiguous.\<close>

theorem find_long_resolves:
  "find_long txt n 0 (- 1) opts =
     (case name_matches txt n 0 opts of
        [] \<Rightarrow> Some (- 1)
      | (j, True) # _ \<Rightarrow> Some j
      | [(j, False)] \<Rightarrow> Some j
      | (j, False) # (k, True) # _ \<Rightarrow> Some k
      | (j, False) # (k, False) # _ \<Rightarrow> None)"
  by (rule find_long_first) simp

section \<open>Pattern matching\<close>

text \<open>C19: Without \<open>FNM_PERIOD\<close> and \<open>FNM_LEADING_DIR\<close>, \<open>fnmatch\<close> accepts exactly the strings the reference
  matcher accepts, in which a star tries every split: the collapsing of stars, the shortcuts for a
  star at the end or before a slash, and the bound on the recursion lose no match and add none.\<close>

theorem fnmatch_agrees_with_reference:
  assumes "\<not> has flags FNM_PERIOD" "\<not> has flags FNM_LEADING_DIR" "CHR 0x00 \<notin> set pattern"
  shows "fnmatch pattern string flags = 0 \<longleftrightarrow> ref_match flags (tokens flags pattern) string"
  by (rule fnmatch_ref [OF assms])

theorem fnmatch_agrees_with_reference_witness:
  "fnmatch ''*b?'' ''abbc'' 0 = 0"
proof -
  have t: "tokens 0 ''*b?'' = [Star, Lit CHR ''b'', AnyChar]" by simp
  have "ref_match 0 [Star, Lit CHR ''b'', AnyChar] ''abbc''"
    unfolding ref_star by (intro exI [of _ 2]) (simp add: fixed_def has_def chars_equal_def ref_step cur_def)
  then show ?thesis using fnmatch_agrees_with_reference [of 0 "''*b?''" "''abbc''"] t
    by (simp add: has_def)
qed

section \<open>Path name expansion\<close>

text \<open>C20: \<open>glob\<close> without braces and tildes, in surroundings where nothing fails: the vector holds the
  paths from before and then what the pattern stands for (\<open>expand\<close>: segment by segment, hidden
  names only when asked for, directories marked), sorted unless \<open>GLOB_NOSORT\<close> is given; without a match
  it holds the pattern when \<open>GLOB_NOCHECK\<close>, or \<open>GLOB_NOMAGIC\<close> and no operator, ask for it.\<close>

theorem glob_finds_and_sorts:
  fixes flags :: int and pattern :: string and en :: env
  defines "d \<equiv> if has flags GLOB_ALTDIRFUNC then en_alt en else en_fs en"
    and "q \<equiv> copy_pattern flags pattern"
  assumes "quiet en flags" "clean d" "\<not> has flags GLOB_BRACE" "\<not> has flags GLOB_TILDE"
    and "CHR 0x00 \<notin> set pattern" "list_all no_slash (gtoks q)"
    and "has flags GLOB_APPEND \<Longrightarrow> gl_holds g ps"
  shows "let R = (if q = [] then [] else expand d (en_icase en) (has flags GLOB_MARK) [] (gtoks q))
         in \<exists>g'. glob en pattern flags g = Some (0, g') \<and> gl_matchc g' = length R
            \<and> gl_holds g' ((if has flags GLOB_APPEND then ps else [])
                 @ (if R = [] \<and> (has flags GLOB_NOCHECK \<or> has flags GLOB_NOMAGIC \<and> list_all is_lit (gtoks q))
                    then [g_Ctoc q] else if has flags GLOB_NOSORT then R else sort R))"
  using glob_reports [OF assms(3) assms(4) [unfolded d_def] assms(5-7) assms(8) [unfolded q_def] assms(9)]
  unfolding d_def q_def reported_def by (simp add: Let_def)

theorem glob_finds_and_sorts_witness:
  "\<exists>g'. glob \<lparr> en_mem = \<lambda>_. True, en_home = None, en_pwuid = None, en_pwnam = \<lambda>_. None, en_errfunc = None,
       en_icase = False, en_big = False,
       en_fs = \<lparr> fs_lstat = \<lambda>p. if p = ''d/b.c'' \<or> p = ''d/a.c'' then Some Other else None, fs_stat = \<lambda>_. None,
         fs_opendir = \<lambda>p. if p = ''d/'' then Inr [''b.c'', ''.c'', ''a.c'', ''a.h''] else Inl 2 \<rparr>,
       en_alt = \<lparr> fs_lstat = \<lambda>_. None, fs_stat = \<lambda>_. None, fs_opendir = \<lambda>_. Inl 2 \<rparr> \<rparr>
       ''d/*.c'' 0 \<lparr> gl_pathc = 0, gl_matchc = 0, gl_offs = 0, gl_flags = 0, gl_pathv = None, gl_allocs = 0, gl_errs = [] \<rparr>
     = Some (0, g') \<and> gl_holds g' [''d/a.c'', ''d/b.c'']"
  (is "\<exists>g'. glob ?en _ _ ?g = _ \<and> _")
proof -
  let ?d = "en_fs ?en"
  have c: "clean ?d" by (auto simp: clean_def split: if_splits)
  have "gmatch False [GAny, GLit 0x2e, GLit 0x63] (uchars s) \<longleftrightarrow> drop (length s - 2) s = ''.c''" if "s \<in> {''b.c'', ''.c'', ''a.c'', ''a.h''}" for s
    using that by (auto simp: gmatch.simps(2) tok_one_def low_def uchars_def)
  moreover have l: "char_of (100 :: nat) = CHR ''d''" "char_of (47 :: nat) = CHR ''/''"
    by (simp_all add: char_of_def bit_iff_odd)
  ultimately have e: "expand ?d False False [] [GLit 0x64, GLit 0x2f, GAny, GLit 0x2e, GLit 0x63] = [''d/b.c'', ''d/a.c'']"
    by (simp add: expand.simps is_lit_def listing_def visible_def found_def lits_def l)
  have q: "copy_pattern 0 ''d/*.c'' = [0x64, 0x2f, 0x2a, 0x2e, 0x63]"
    by (simp add: copy_pattern_def has_def uchars_def)
  have t: "gtoks [0x64, 0x2f, 0x2a, 0x2e, 0x63] = [GLit 0x64, GLit 0x2f, GAny, GLit 0x2e, GLit 0x63]"
    by (simp add: CHAR_c_def rdw_def)
  have s: "sort [''d/b.c'', ''d/a.c''] = [''d/a.c'', ''d/b.c'']" by (simp add: less_eq_char_def)
  show ?thesis
    using glob_finds_and_sorts [where en = ?en and flags = 0 and pattern = "''d/*.c''" and g = ?g and ps = "[]"] c e
    by (simp add: quiet_def has_def q t no_slash_def s del: gtoks.simps sort_key_simps) blast
qed

text \<open>C21: After every call of \<open>glob\<close> that returns, with errors and failed allocations included, the
  vector has its shape (reserved null slots, the paths, a null), keeps the paths from before in front,
  and \<open>globfree\<close> frees exactly the strings it holds.\<close>

theorem glob_vector_well_formed:
  assumes "glob en pattern flags g = Some (rv, g')" "has flags GLOB_APPEND \<Longrightarrow> gl_holds g ps"
  shows "\<exists>new. let held = (if has flags GLOB_APPEND then ps else []) @ new
           in gl_holds g' held \<and> globfree g' = (held, gl_pathv g' \<noteq> None)"
  using glob_keeps_vector [OF assms] globfree_holds by (auto simp: Let_def)

theorem glob_vector_well_formed_witness:
  "\<exists>g' new. glob \<lparr> en_mem = \<lambda>n. n < 1, en_home = None, en_pwuid = None, en_pwnam = \<lambda>_. None, en_errfunc = None,
       en_icase = False, en_big = False,
       en_fs = \<lparr> fs_lstat = \<lambda>_. Some Other, fs_stat = \<lambda>_. None, fs_opendir = \<lambda>_. Inl 2 \<rparr>,
       en_alt = \<lparr> fs_lstat = \<lambda>_. None, fs_stat = \<lambda>_. None, fs_opendir = \<lambda>_. Inl 2 \<rparr> \<rparr>
       ''a'' 0 \<lparr> gl_pathc = 0, gl_matchc = 0, gl_offs = 0, gl_flags = 0, gl_pathv = None, gl_allocs = 0, gl_errs = [] \<rparr>
     = Some (- 1, g') \<and> gl_holds g' new"
  (is "\<exists>g' new. glob ?en _ _ ?g = _ \<and> _")
proof -
  have "\<exists>g'. glob ?en ''a'' 0 ?g = Some (- 1, g')"
    by (simp add: glob_def glob_start_def copy_pattern_def has_def glob0_def globtilde_def uchars_def rdw_def CHAR_c_def
        glob1_def glob2.simps ismeta_def glob2_end_def g_lstat_def dir_funcs_def globextend_def allocate_def Let_def)
  then obtain g' where "glob ?en ''a'' 0 ?g = Some (- 1, g')" by blast
  with glob_vector_well_formed [OF this] show ?thesis by (auto simp: has_def Let_def)
qed

text \<open>C22: A pattern always compiles, without a read past its end, and a name matches the compiled
  pattern exactly when it matches the tokens of the pattern, where a star may stand for any text;
  collapsing adjacent stars does not matter.\<close>

theorem compile_and_match_agree_with_tokens:
  assumes "\<forall>c \<in> set q. CHAR_c c \<noteq> 0"
  shows "\<exists>buf magic. compile [] q = Some (buf, magic)
    \<and> match icase name buf (int (length buf)) = Some (gmatch icase (gtoks q) name)"
  using compile_tokens [of "[]" q] match_tokens [OF squash_all [OF wf_gtoks [OF assms]], of icase name "[]"]
  by (simp add: foldl_push squash_match)

theorem compile_and_match_agree_with_tokens_witness:
  "\<exists>buf magic. compile [] (uchars ''a**[!x-z]'') = Some (buf, magic)
    \<and> match False (uchars ''abcy'') buf (int (length buf)) = Some False"
proof -
  have "gtoks (uchars ''a**[!x-z]'') = [GLit 0x61, GAny, GAny, GSet True [(0x78, Some 0x7a)]]"
    by (simp add: uchars_def CHAR_c_def rdw_def)
  moreover have "\<not> gmatch False [GLit 0x61, GAny, GAny, GSet True [(0x78, Some 0x7a)]] (uchars ''abcy'')"
    by (simp add: gmatch.simps(2) tok_one_def in_ranges_def low_def uchars_def)
  ultimately show ?thesis
    using compile_and_match_agree_with_tokens [of "uchars ''a**[!x-z]''" False "uchars ''abcy''"]
    by (simp add: uchars_def CHAR_c_def)
qed

text \<open>C23: Without \<open>GLOB_BRACE\<close> and \<open>GLOB_TILDE\<close>, for a pattern without NUL, and unless a program with large types
  uses alternative directory functions, every call of \<open>glob\<close> returns without a fault of the model: it
  never reads past the end of a pattern, also where a slash splits a bracket expression, and whatever
  fails. The path buffers of \<open>MAXPATHLEN\<close> characters are lists without a bound here, so nothing is
  said about paths longer than that.\<close>

theorem glob_without_braces_is_defined:
  assumes "\<not> has flags GLOB_BRACE" "\<not> has flags GLOB_TILDE" "\<not> (has flags GLOB_ALTDIRFUNC \<and> en_big en)"
    and "CHR 0x00 \<notin> set pattern"
  shows "glob en pattern flags g \<noteq> None"
  using glob0_defined [of "glob_start flags g" en "copy_pattern flags pattern"] assms copy_pattern_nonzero [OF assms(4)]
  by (simp add: glob_def globtilde_def start_flags Let_def)

theorem glob_without_braces_is_defined_witness:
  "glob \<lparr> en_mem = \<lambda>n. False, en_home = None, en_pwuid = None, en_pwnam = \<lambda>_. None, en_errfunc = None,
       en_icase = False, en_big = False,
       en_fs = \<lparr> fs_lstat = \<lambda>_. Some Other, fs_stat = \<lambda>_. None, fs_opendir = \<lambda>_. Inr [''x''] \<rparr>,
       en_alt = \<lparr> fs_lstat = \<lambda>_. None, fs_stat = \<lambda>_. None, fs_opendir = \<lambda>_. Inl 2 \<rparr> \<rparr>
       ''[a/b]c'' 0 \<lparr> gl_pathc = 0, gl_matchc = 0, gl_offs = 0, gl_flags = 0, gl_pathv = None, gl_allocs = 0, gl_errs = [] \<rparr>
     \<noteq> None"
  by (rule glob_without_braces_is_defined) (simp_all add: has_def)

text \<open>C24: Brace expansion of a well-nested pattern without brackets: \<open>glob0\<close> is run on every text of the
  product of the alternatives, leftmost brace first, each run starting from the structure the one
  before left, and the structure of the last run is what remains. Nothing is stated of the return value:
  the code drops what the runs return.\<close>

theorem brace_expansion_in_order:
  assumes "wf_bx False ts"
  shows "map_option snd (globexp1 en (btext ts) g) = glob_each en (blang ts) g"
  by (rule globexp1_expands [OF assms])

theorem brace_expansion_in_order_witness:
  "\<forall>en g. map_option snd (globexp1 en (uchars ''{a,{b,c}}x{,y}'') g)
     = glob_each en (map uchars [''ax'', ''axy'', ''bx'', ''bxy'', ''cx'', ''cxy'']) g"
  using brace_expansion_in_order [of "[Br [[Ch 0x61], [Br [[Ch 0x62], [Ch 0x63]]]], Ch 0x78, Br [[], [Ch 0x79]]]"]
  by (simp add: uchars_def del: glob_each.simps)

section \<open>Regular expressions\<close>

text \<open>C25: \<open>regcomp\<close> refines a parser without code generation: it fails with the parser's message, or
  its program is the layout of the tree, with every node linked to the one that runs next; programs of
  32767 bytes and more are refused, and a failed allocation is reported.\<close>

theorem regcomp_refines_parser:
  assumes "0 \<notin> set cs"
  shows "regcomp malloc (Some cs) = (case parse cs of
      Inl e \<Rightarrow> Inl e
    | Inr bs \<Rightarrow>
        if 32767 \<le> length (layout bs) then Inl (FAIL ''regexp too big'')
        else case malloc (length (layout bs)) of
            None \<Rightarrow> Inl (FAIL ''out of space'')
          | Some (sp, ep) \<Rightarrow> Inr (compiled sp ep bs))"
  using regcomp_layout [OF assms] by simp

theorem regcomp_refines_parser_witness:
  "regcomp (\<lambda>n. if n = 43 then Some (replicate 10 None, replicate 10 None) else None) (Some (bytes ''ab*(c)?''))
   = Inr (compiled (replicate 10 None) (replicate 10 None) [[Str [0x61], StarOf True (Str [0x62]), Opt (Group 1 [[Str [0x63]]])]])"
proof -
  have p: "parse (bytes ''ab*(c)?'') = Inr [[Str [0x61], StarOf True (Str [0x62]), Opt (Group 1 [[Str [0x63]]])]]"
    by code_simp
  have "0 \<notin> set (bytes ''ab*(c)?'')" by (simp add: bytes_def)
  from regcomp_refines_parser [OF this] show ?thesis by (simp add: p length_layout)
qed

text \<open>C26: \<open>regexec\<close> on a compiled expression returns what the matcher on the tree finds at the first
  position where it matches at all, with the same subexpressions: alternatives in order, repetitions
  as long as possible first. The shortcuts (anchor, first character, string that must appear) lose nothing.\<close>

theorem regexec_finds_first_match:
  assumes "0 \<notin> set cs" "0 \<notin> set s" "regcomp malloc (Some cs) = Inr prog"
  shows "\<exists>bs fuel. parse cs = Inr bs \<and> (\<forall>k \<ge> fuel. case first_match al s bs of
      Some i \<Rightarrow> regexec k al (Some prog) (Some s) = Some (True, Some (snd (attempt prog (match_at al s bs i) i)))
    | None \<Rightarrow> \<exists>sp ep. regexec k al (Some prog) (Some s) = Some (False, Some (prog\<lparr> startp := sp, endp := ep \<rparr>)))"
proof -
  obtain bs sp ep where bs: "parse cs = Inr bs" "bs \<noteq> []" "wf_alts bs" "length (layout bs) < 32767" "prog = compiled sp ep bs"
    using regcomp_compiled [OF assms(1,3)] by metis
  from regexec_compiled [OF assms(2) bs(2-4), of al sp ep] bs(1,5) show ?thesis by blast
qed

theorem regexec_finds_first_match_witness:
  "\<exists>prog fuel. regcomp (\<lambda>n. Some ([], [])) (Some (bytes ''a(b)*'')) = Inr prog
    \<and> (\<exists>prog'. regexec fuel (\<lambda>_. False) (Some prog) (Some (bytes ''cabb'')) = Some (True, Some prog')
        \<and> startp prog' ! 0 = Some 1 \<and> endp prog' ! 0 = Some 4 \<and> startp prog' ! 1 = Some 3 \<and> endp prog' ! 1 = Some 4)"
proof -
  let ?bs = "[[Str [0x61], StarOf False (Group 1 [[Str [0x62]]])]]" and ?s = "bytes ''cabb''"
  have z: "0 \<notin> set (bytes ''a(b)*'')" "0 \<notin> set ?s" by (simp_all add: bytes_def)
  have p: "parse (bytes ''a(b)*'') = Inr ?bs" by code_simp
  have c: "regcomp (\<lambda>n. Some ([], [])) (Some (bytes ''a(b)*'')) = Inr (compiled [] [] ?bs)"
    using regcomp_layout [OF z(1), of "\<lambda>n. Some ([], [])"] by (simp add: p length_layout)
  have f: "first_match (\<lambda>_. False) ?s ?bs = Some 1" by code_simp
  have m: "match_at (\<lambda>_. False) ?s ?bs 1 = Some \<lparr> reginput = 4,
      regstartp = (replicate 10 None)[1 := Some 3], regendp = (replicate 10 None)[1 := Some 4] \<rparr>" by code_simp
  from regexec_finds_first_match [OF z c, of "\<lambda>_. False"] obtain fuel where
    "\<forall>k \<ge> fuel. regexec k (\<lambda>_. False) (Some (compiled [] [] ?bs)) (Some ?s)
      = Some (True, Some (snd (attempt (compiled [] [] ?bs) (match_at (\<lambda>_. False) ?s ?bs 1) 1)))"
    unfolding p using f by auto
  then have "regexec fuel (\<lambda>_. False) (Some (compiled [] [] ?bs)) (Some ?s)
      = Some (True, Some (snd (attempt (compiled [] [] ?bs) (match_at (\<lambda>_. False) ?s ?bs 1) 1)))" by blast
  with c show ?thesis unfolding m by (intro exI conjI) (assumption, assumption, simp_all add: attempt_def)
qed

text \<open>C27: \<open>regexec\<close> returns 1 exactly if some part of the subject is in the language of the expression;
  the order of the search does not matter for this.\<close>

theorem regexec_decides_language:
  assumes "0 \<notin> set cs" "0 \<notin> set s" "regcomp malloc (Some cs) = Inr prog"
  shows "\<exists>bs fuel. parse cs = Inr bs \<and> (\<forall>k \<ge> fuel. \<exists>prog'. regexec k al (Some prog) (Some s)
    = Some ((\<exists>i j. i \<le> j \<and> j \<le> length s \<and> mem_alts al s bs i j), Some prog'))"
proof -
  obtain bs sp ep where bs: "parse cs = Inr bs" "bs \<noteq> []" "wf_alts bs" "length (layout bs) < 32767" "prog = compiled sp ep bs"
    using regcomp_compiled [OF assms(1,3)] by metis
  let ?yes = "\<exists>i j. i \<le> j \<and> j \<le> length s \<and> mem_alts al s bs i j"
  have lang: "?yes \<longleftrightarrow> first_match al s bs \<noteq> None" using first_match_language [OF bs(3)] by simp
  obtain fuel where fuel: "\<forall>k \<ge> fuel. case first_match al s bs of
      Some i \<Rightarrow> regexec k al (Some prog) (Some s) = Some (True, Some (snd (attempt prog (match_at al s bs i) i)))
    | None \<Rightarrow> \<exists>sp ep. regexec k al (Some prog) (Some s) = Some (False, Some (prog\<lparr> startp := sp, endp := ep \<rparr>))"
    using regexec_compiled [OF assms(2) bs(2-4), of al sp ep] bs(5) by blast
  have "\<exists>prog'. regexec k al (Some prog) (Some s) = Some (?yes, Some prog')" if "fuel \<le> k" for k
    unfolding lang using fuel [rule_format, OF that] by (cases "first_match al s bs") auto
  then show ?thesis using bs(1) by blast
qed

theorem regexec_decides_language_witness:
  "\<exists>prog fuel prog'. regcomp (\<lambda>n. Some ([], [])) (Some (bytes ''a.c'')) = Inr prog
    \<and> regexec fuel (\<lambda>_. False) (Some prog) (Some (bytes ''xabc'')) = Some (True, Some prog')"
proof -
  let ?bs = "[[Str [0x61], Any, Str [0x63]]]" and ?s = "bytes ''xabc''"
  have z: "0 \<notin> set (bytes ''a.c'')" "0 \<notin> set ?s" by (simp_all add: bytes_def)
  have p: "parse (bytes ''a.c'') = Inr ?bs" by code_simp
  have c: "regcomp (\<lambda>n. Some ([], [])) (Some (bytes ''a.c'')) = Inr (compiled [] [] ?bs)"
    using regcomp_layout [OF z(1), of "\<lambda>n. Some ([], [])"] by (simp add: p length_layout)
  have "mem (\<lambda>_. False) ?s (Str [0x61]) 1 2" "mem (\<lambda>_. False) ?s Any 2 3" "mem (\<lambda>_. False) ?s (Str [0x63]) 3 4"
    using mem_lit [of "[0x61]" 1 ?s "\<lambda>_. False"] mem_any [of 2 ?s "\<lambda>_. False"] mem_lit [of "[0x63]" 3 ?s "\<lambda>_. False"]
    by (simp_all add: bytes_def eval_nat_numeral)
  then have m: "mem_alts (\<lambda>_. False) ?s ?bs 1 4" by (meson mem_first mem_cons mem_nil)
  have z4: "1 \<le> (4 :: nat)" "4 \<le> length ?s" by (simp_all add: bytes_def)
  have yes: "(\<exists>i j. i \<le> j \<and> j \<le> length ?s \<and> mem_alts (\<lambda>_. False) ?s ?bs i j) = True"
    by (use m z4 in blast)
  from regexec_decides_language [OF z c, of "\<lambda>_. False"] obtain bs fuel where b: "Inr ?bs = (Inr bs :: node list list rres)"
    and f: "\<forall>k \<ge> fuel. \<exists>prog'. regexec k (\<lambda>_. False) (Some (compiled [] [] ?bs)) (Some ?s)
      = Some ((\<exists>i j. i \<le> j \<and> j \<le> length ?s \<and> mem_alts (\<lambda>_. False) ?s bs i j), Some prog')"
    unfolding p by blast
  have "bs = ?bs" using b by simp
  then show ?thesis using f c by (simp only: yes) blast
qed

text \<open>C28: On a compiled expression \<open>regexec\<close> always returns: there is an amount of fuel that is enough,
  more fuel gives the same result, and no access lies outside the program or the subject: a read through
  \<open>reginput\<close> before the first byte or behind the NUL would be a fault, which is not a result.\<close>

theorem regexec_terminates:
  assumes "0 \<notin> set cs" "0 \<notin> set s" "regcomp malloc (Some cs) = Inr prog"
  shows "\<exists>fuel r. \<forall>k \<ge> fuel. regexec k al (Some prog) (Some s) = Some r"
proof -
  obtain bs sp ep where bs: "bs \<noteq> []" "wf_alts bs" "length (layout bs) < 32767" "prog = compiled sp ep bs"
    using regcomp_compiled [OF assms(1,3)] by metis
  obtain n where "case first_match al s bs of
      Some i \<Rightarrow> regexec n al (Some prog) (Some s) = Some (True, Some (snd (attempt prog (match_at al s bs i) i)))
    | None \<Rightarrow> \<exists>sp ep. regexec n al (Some prog) (Some s) = Some (False, Some (prog\<lparr> startp := sp, endp := ep \<rparr>))"
    using regexec_compiled [OF assms(2) bs(1-3), of al sp ep] bs(4) by blast
  then obtain r where "regexec n al (Some prog) (Some s) = Some r" by (cases "first_match al s bs") auto
  then show ?thesis using regexec_enough by blast
qed

theorem regexec_terminates_witness:
  "\<exists>prog fuel r. regcomp (\<lambda>n. Some ([], [])) (Some (bytes ''((a)*b)*'')) = Inr prog
    \<and> regexec fuel (\<lambda>_. False) (Some prog) (Some (bytes ''aaab'')) = Some r"
proof -
  let ?bs = "[[StarOf False (Group 1 [[StarOf False (Group 2 [[Str [0x61]]]), Str [0x62]]])]]"
  have z: "0 \<notin> set (bytes ''((a)*b)*'')" "0 \<notin> set (bytes ''aaab'')" by (simp_all add: bytes_def)
  have p: "parse (bytes ''((a)*b)*'') = Inr ?bs" by code_simp
  have c: "regcomp (\<lambda>n. Some ([], [])) (Some (bytes ''((a)*b)*'')) = Inr (compiled [] [] ?bs)"
    using regcomp_layout [OF z(1), of "\<lambda>n. Some ([], [])"] by (simp add: p length_layout)
  from regexec_terminates [OF z c] c show ?thesis by blast
qed

text \<open>C29: After a match, \<open>startp\<close> and \<open>endp\<close> hold the whole match in slot 0, and in every other slot either
  two null pointers or a start that is not behind its end, both inside the subject.\<close>

theorem regexec_records_spans:
  assumes "0 \<notin> set cs" "0 \<notin> set s" "regcomp malloc (Some cs) = Inr prog"
    and "regexec fuel al (Some prog) (Some s) = Some (True, Some prog')"
  shows "spans (length s) prog' \<and> program prog' = program prog"
  using regexec_found [OF assms] attempt_spans [of "length s" _ _ prog] attempt_program by blast

theorem regexec_records_spans_witness:
  "\<exists>prog prog'. regcomp (\<lambda>n. Some ([], [])) (Some (bytes ''(a)|b'')) = Inr prog
    \<and> regexec 20 (\<lambda>_. False) (Some prog) (Some (bytes ''b'')) = Some (True, Some prog') \<and> spans 1 prog'"
proof -
  let ?bs = "[[Group 1 [[Str [0x61]]]], [Str [0x62]]]" and ?s = "bytes ''b''"
  have z: "0 \<notin> set (bytes ''(a)|b'')" "0 \<notin> set ?s" by (simp_all add: bytes_def)
  have p: "parse (bytes ''(a)|b'') = Inr ?bs" by code_simp
  have c: "regcomp (\<lambda>n. Some ([], [])) (Some (bytes ''(a)|b'')) = Inr (compiled [] [] ?bs)"
    using regcomp_layout [OF z(1), of "\<lambda>n. Some ([], [])"] by (simp add: p length_layout)
  have "map_option fst (regexec 20 (\<lambda>_. False) (Some (compiled [] [] ?bs)) (Some ?s)) = Some True
    \<and> map_option (\<lambda>r. snd r \<noteq> None) (regexec 20 (\<lambda>_. False) (Some (compiled [] [] ?bs)) (Some ?s)) = Some True" by code_simp
  then obtain prog' where e: "regexec 20 (\<lambda>_. False) (Some (compiled [] [] ?bs)) (Some ?s) = Some (True, Some prog')" by auto
  have "length ?s = 1" by (simp add: bytes_def)
  then show ?thesis using regexec_records_spans [OF z c e] c e by auto
qed

text \<open>C30: Whatever the expression (or NULL), no write of the second pass of \<open>regcomp\<close> goes behind the bytes that
  the first pass counted and that were allocated, nothing outside the bytes emitted so far is read, all its walks along the chains of nodes end, and its recursion is bounded by the length of
  the expression.\<close>

theorem regcomp_never_faults:
  assumes "case expr of None \<Rightarrow> True | Some cs \<Rightarrow> 0 \<notin> set cs"
  shows "regcomp malloc expr \<noteq> Inl FAULT"
proof (cases expr)
  case (Some cs)
  then have "0 \<notin> set cs" using assms by simp
  then show ?thesis
    using regcomp_layout [of cs malloc] parse_result(1) [of cs] Some by (auto split: sum.splits option.splits)
qed (simp add: regcomp_def)

theorem regcomp_never_faults_witness: "regcomp (\<lambda>_. None) (Some (bytes ''[b-'')) \<noteq> Inl FAULT"
  by (rule regcomp_never_faults) (simp add: bytes_def)

text \<open>C31: When \<open>regcomp\<close> fails, it reports one of the messages below; the message of the two checks that
  the code marks as internal (\<open>internal urp\<close>) is never reported.\<close>

theorem regcomp_messages:
  assumes "case expr of None \<Rightarrow> True | Some cs \<Rightarrow> 0 \<notin> set cs" "regcomp malloc expr = Inl (FAIL e)"
  shows "e \<in> {''NULL argument'', ''regexp too big'', ''out of space'', ''too many ()'', ''unmatched ()'', ''junk on end'',
    ''unmatched []'', ''invalid [] range'', ''?+* follows nothing'', ''*+ operand could be empty'', ''nested *?+'',
    ''trailing '' @ [CHR 0x5C]}"
proof (cases expr)
  case (Some cs)
  then have "0 \<notin> set cs" using assms by simp
  then show ?thesis
    using regcomp_layout [of cs malloc] says_parse [of cs] Some assms(2)
    by (auto simp: says_def messages_def split: sum.splits option.splits if_splits)
qed (use assms(2) in \<open>simp add: regcomp_def\<close>)

theorem regcomp_messages_witness:
  "regcomp (\<lambda>_. None) (Some (bytes ''(a'')) = Inl (FAIL ''unmatched ()'') \<and> ''unmatched ()'' \<in> {''NULL argument'', ''regexp too big'', ''out of space'', ''too many ()'', ''unmatched ()'', ''junk on end'',
    ''unmatched []'', ''invalid [] range'', ''?+* follows nothing'', ''*+ operand could be empty'', ''nested *?+'',
    ''trailing '' @ [CHR 0x5C]}"
proof -
  have z: "0 \<notin> set (bytes ''(a'')" by (simp add: bytes_def)
  have "parse (bytes ''(a'') = Inl (FAIL ''unmatched ()'')" by code_simp
  then have "regcomp (\<lambda>_. None) (Some (bytes ''(a'')) = Inl (FAIL ''unmatched ()'')"
    using regcomp_layout [OF z, of "\<lambda>_. None"] by simp
  then show ?thesis using regcomp_messages [of "Some (bytes ''(a'')" "\<lambda>_. None" "''unmatched ()''"] z by simp
qed

text \<open>C32: The program that \<open>regcomp\<close> returns begins with the magic byte, has the size that was allocated,
  fits the two bytes of a "next" pointer, and is the layout of a well-formed tree (groups numbered
  from 1 to 9, operands of \<open>*\<close> and \<open>+\<close> that never match the empty string, no NUL in a string).\<close>

theorem regcomp_program_shape:
  assumes "0 \<notin> set cs" "regcomp malloc (Some cs) = Inr prog"
  shows "malloc (length (program prog)) \<noteq> None \<and> length (program prog) < 32767 \<and> program prog ! 0 = MAGIC
    \<and> (\<exists>bs. program prog = layout bs \<and> bs \<noteq> [] \<and> wf_alts bs)"
proof -
  obtain bs sp ep where "bs \<noteq> []" "wf_alts bs" "length (layout bs) < 32767"
    "malloc (length (layout bs)) = Some (sp, ep)" "prog = compiled sp ep bs"
    using regcomp_compiled [OF assms] by metis
  then show ?thesis by (auto simp: layout_def)
qed

theorem regcomp_program_shape_witness:
  "\<exists>prog. regcomp (\<lambda>n. Some ([], [])) (Some (bytes ''a|b'')) = Inr prog \<and> length (program prog) < 32767 \<and> program prog ! 0 = MAGIC"
proof -
  have z: "0 \<notin> set (bytes ''a|b'')" by (simp add: bytes_def)
  have p: "parse (bytes ''a|b'') = Inr [[Str [0x61]], [Str [0x62]]]" by code_simp
  have "regcomp (\<lambda>n. Some ([], [])) (Some (bytes ''a|b'')) = Inr (compiled [] [] [[Str [0x61]], [Str [0x62]]])"
    using regcomp_layout [OF z, of "\<lambda>n. Some ([], [])"] by (simp add: p length_layout)
  from this regcomp_program_shape [OF z this] show ?thesis by blast
qed

text \<open>C33: After a match, \<open>regsub\<close> reports no error and stays inside the subject; the destination is the
  template with \<open>&\<close> and backslash digit replaced by what the subexpressions matched (nothing if they
  took no part) and with quoted characters unquoted, then a NUL.\<close>

theorem regsub_expands_template:
  assumes "0 \<notin> set cs" "0 \<notin> set s" "regcomp malloc (Some cs) = Inr prog"
    and "regexec fuel al (Some prog) (Some s) = Some (True, Some prog')"
  shows "regsub (Some prog') (Some source) True s
    = Some (None, concat (map (piece_text prog' s) (template source)) @ [0])"
proof -
  have "spans (length s) prog'" "program prog' = program prog"
    using regexec_found [OF assms] attempt_spans [of "length s" _ _ prog] attempt_program by blast+
  moreover obtain bs sp ep where "prog = compiled sp ep bs" using regcomp_compiled [OF assms(1,3)] by metis
  ultimately show ?thesis using regsub_loop_template [OF _ assms(2)] by (simp add: regsub_def layout_def)
qed

theorem regsub_expands_template_witness:
  "\<exists>prog prog'. regcomp (\<lambda>n. Some ([], [])) (Some (bytes ''a(.)'')) = Inr prog
    \<and> regexec 20 (\<lambda>_. False) (Some prog) (Some (bytes ''xab'')) = Some (True, Some prog')
    \<and> regsub (Some prog') (Some (bytes ''<&>'')) True (bytes ''xab'')
      = Some (None, concat (map (piece_text prog' (bytes ''xab'')) [Chr 0x3c, Sub 0, Chr 0x3e]) @ [0])"
proof -
  let ?bs = "[[Str [0x61], Group 1 [[Any]]]]" and ?s = "bytes ''xab''"
  have z: "0 \<notin> set (bytes ''a(.)'')" "0 \<notin> set ?s" by (simp_all add: bytes_def)
  have p: "parse (bytes ''a(.)'') = Inr ?bs" by code_simp
  have c: "regcomp (\<lambda>n. Some ([], [])) (Some (bytes ''a(.)'')) = Inr (compiled [] [] ?bs)"
    using regcomp_layout [OF z(1), of "\<lambda>n. Some ([], [])"] by (simp add: p length_layout)
  have "map_option fst (regexec 20 (\<lambda>_. False) (Some (compiled [] [] ?bs)) (Some ?s)) = Some True
    \<and> map_option (\<lambda>r. snd r \<noteq> None) (regexec 20 (\<lambda>_. False) (Some (compiled [] [] ?bs)) (Some ?s)) = Some True" by code_simp
  then obtain prog' where e: "regexec 20 (\<lambda>_. False) (Some (compiled [] [] ?bs)) (Some ?s) = Some (True, Some prog')" by auto
  have t: "template (bytes ''<&>'') = [Chr 0x3c, Sub 0, Chr 0x3e]" by code_simp
  show ?thesis
    using regsub_expands_template [OF z c e, of "bytes ''<&>''", unfolded t] c e by blast
qed

text \<open>C34: A text in which every \<open>&\<close> and every backslash is quoted by a backslash comes out of \<open>regsub\<close>
  unchanged, whatever the match was.\<close>

theorem regsub_quoted_text:
  assumes "0 \<notin> set cs" "0 \<notin> set s" "regcomp malloc (Some cs) = Inr prog"
    and "regexec fuel al (Some prog) (Some s) = Some (True, Some prog')"
  shows "regsub (Some prog') (Some (quote_sub t)) True s = Some (None, t @ [0])"
proof -
  have "spans (length s) prog'" "program prog' = program prog"
    using regexec_found [OF assms] attempt_spans [of "length s" _ _ prog] attempt_program by blast+
  moreover obtain bs sp ep where "prog = compiled sp ep bs" using regcomp_compiled [OF assms(1,3)] by metis
  moreover have "concat (map (piece_text prog' s) (map Chr t)) = t" by (induction t) (simp_all add: piece_text_def)
  ultimately show ?thesis using regsub_loop_template [OF _ assms(2)] by (simp add: regsub_def layout_def template_quote)
qed

theorem regsub_quoted_text_witness:
  "\<exists>prog prog'. regcomp (\<lambda>n. Some ([], [])) (Some (bytes ''a'')) = Inr prog
    \<and> regexec 20 (\<lambda>_. False) (Some prog) (Some (bytes ''a'')) = Some (True, Some prog')
    \<and> regsub (Some prog') (Some [c_backslash, c_amp, 0x31]) True (bytes ''a'') = Some (None, [c_amp, 0x31, 0])"
proof -
  let ?bs = "[[Str [0x61]]]" and ?s = "bytes ''a''"
  have z: "0 \<notin> set (bytes ''a'')" by (simp add: bytes_def)
  have p: "parse (bytes ''a'') = Inr ?bs" by code_simp
  have c: "regcomp (\<lambda>n. Some ([], [])) (Some (bytes ''a'')) = Inr (compiled [] [] ?bs)"
    using regcomp_layout [OF z, of "\<lambda>n. Some ([], [])"] by (simp add: p length_layout)
  have "map_option fst (regexec 20 (\<lambda>_. False) (Some (compiled [] [] ?bs)) (Some ?s)) = Some True
    \<and> map_option (\<lambda>r. snd r \<noteq> None) (regexec 20 (\<lambda>_. False) (Some (compiled [] [] ?bs)) (Some ?s)) = Some True" by code_simp
  then obtain prog' where e: "regexec 20 (\<lambda>_. False) (Some (compiled [] [] ?bs)) (Some ?s) = Some (True, Some prog')" by auto
  show ?thesis
    using regsub_quoted_text [OF z z c e, of "[c_amp, 0x31]"] c e by auto
qed

section \<open>POSIX regular expressions\<close>

text \<open>C35: Suppose a compiled expression with a well-formed strip, without back references, without word
  boundaries and with no more anchors in the strip than the parser counted (\<open>ready\<close>; so no anchor was
  copied by a repetition), whose required string occurs in every match (\<open>must_sound\<close>), a valid window
  and at most the span of the match asked for. Then \<open>regexec\<close> of the POSIX engine returns (no access
  outside an array, every loop ends). It reports no match exactly if the automaton accepts no part of the subject; the span it reports
  is a match, the longest from its start, and, if no state after a character is one of the
  states before the first character (\<open>cold_safe\<close>), the leftmost.\<close>

theorem posix_regexec_finds_leftmost_longest:
  fixes alnum preg buf pmatch eflags
  defines "m \<equiv> subject alnum (re_g preg) buf pmatch (exec_flags eflags)"
  assumes "ready preg" "window_ok buf pmatch (exec_flags eflags)" "must_sound m" "room 0"
    and "asks (re_g preg) nmatch \<le> 1" "asks (re_g preg) nmatch \<le> length pmatch"
  shows "\<exists>r. posix_regexec room alnum preg buf nmatch pmatch eflags = Some r
    \<and> (r = (REG_NOMATCH, pmatch) \<and> (\<forall>s e. \<not> accepted m s e)
      \<or> asks (re_g preg) nmatch = 0 \<and> r = (0, pmatch) \<and> (\<exists>s e. accepted m s e)
      \<or> asks (re_g preg) nmatch = 1 \<and> (\<exists>c s e. r = (0, \<lparr> rm_so = int s, rm_eo = int e \<rparr> # tl pmatch)
           \<and> m_beginp m \<le> c \<and> leftmost m c (s, e)
           \<and> (cold_safe (re_g preg) (firststate (re_g preg) + 1) (laststate (re_g preg)) \<longrightarrow> leftmost m (m_beginp m) (s, e))))"
  using posix_regexec_finds [where mem = room, OF assms(2,3,6,7,5) assms(4) [unfolded assms(1)]]
  by (simp add: exec_result_def assms(1) subject_def)

theorem posix_regexec_finds_leftmost_longest_witness:
  "leftmost (subject (\<lambda>_. False) re_a_ab [99, 97, 98] [no_match_t] 0) 0 (1, 3)"
proof -
  let ?p = "\<lparr> re_magic = MAGIC1, re_g = re_a_ab \<rparr>" and ?m = "subject (\<lambda>_. False) re_a_ab [99, 97, 98] [no_match_t] 0"
  have run: "posix_regexec (\<lambda>_. True) (\<lambda>_. False) ?p [99, 97, 98] 1 [no_match_t] 0 = Some (0, [\<lparr> rm_so = 1, rm_eo = 3 \<rparr>])"
    by code_simp
  have "search_ok re_a_ab" by (rule search_okI) code_simp+
  then have r: "ready ?p" by (simp add: ready_def re_a_ab_def strip_re_def flag_on_def)
  have w: "window_ok [99, 97, 98] [no_match_t] (exec_flags 0)" by code_simp
  have a: "asks (re_g ?p) 1 \<le> 1" "asks (re_g ?p) 1 \<le> length [no_match_t]" "asks re_a_ab 1 = 1" by (simp_all add: asks_def re_a_ab_def strip_re_def flag_on_def)
  have e: "exec_flags 0 = 0" by code_simp
  have z: "m_beginp ?m = 0" by code_simp
  have must: "must_sound (subject (\<lambda>_. False) (re_g ?p) [99, 97, 98] [no_match_t] (exec_flags 0))"
    by (simp add: must_sound_def subject_def must_occurs_def re_a_ab_def strip_re_def)
  have cold: "cold_safe re_a_ab 1 8"
  proof (rule cold_safeI [of 1 "{1, 2, 4, 5}"])
    show "EJ re_a_ab 1 8 p \<subseteq> {1, 2, 4, 5}" if "p \<in> {1, 2, 4, 5}" for p
      using that by (auto simp: EJ_def jumps_def re_a_ab_def strip_re_def)
    have "list_all (\<lambda>p. OP (strip re_a_ab ! p) \<in> {OCHAR, OANY, OANYOF} \<longrightarrow> p + 1 \<notin> {1, 2, 4, 5}) [1 ..< 8]" by code_simp
    then show "p + 1 \<notin> {1, 2, 4, 5}" if "p \<in> set [1 ..< 8]" "OP (strip re_a_ab ! p) \<in> {OCHAR, OANY, OANYOF}" for p
      using that unfolding list_all_iff by blast
  qed simp
  have s: "firststate re_a_ab + 1 = 1" "laststate re_a_ab = 8" by code_simp+
  from posix_regexec_finds_leftmost_longest [OF r w must TrueI a(1,2)] show ?thesis
    using cold by (auto simp: run [simplified] a(3) [unfolded One_nat_def] e z s [simplified])
qed

text \<open>C36: \<open>step\<close>, whose loop over the strip goes back when the end of a plus makes its beginning
  reachable, ends, stays inside the arrays and computes exactly the closure, under the jumps of the
  strip, of the states given and of those that the character leads to, in either representation.\<close>

theorem posix_step_computes_closure:
  assumes "strip_ok g a b"
  shows "(nstates g \<le> 32 \<and> small_inv (nstates g) v \<and> small_inv (nstates g) w \<longrightarrow>
      (\<exists>u. step small g a b (Some v) ch w = Some u \<and> small_inv (nstates g) u
        \<and> small_members u = clo (EJ g a b) (small_members w \<union> reads g a b ch (small_members v))))
    \<and> (large_inv (nstates g) v' \<and> large_inv (nstates g) w' \<longrightarrow>
      (\<exists>u. step large g a b (Some v') ch w' = Some u \<and> large_inv (nstates g) u
        \<and> large_members u = clo (EJ g a b) (large_members w' \<union> reads g a b ch (large_members v'))))"
proof (intro conjI impI)
  assume *: "nstates g \<le> 32 \<and> small_inv (nstates g) v \<and> small_inv (nstates g) w"
  then have n: "min (nstates g) 32 = nstates g" by simp
  show "\<exists>u. step small g a b (Some v) ch w = Some u \<and> small_inv (nstates g) u
        \<and> small_members u = clo (EJ g a b) (small_members w \<union> reads g a b ch (small_members v))"
    using small_rep.step_char [of g a b "nstates g" w v ch] assms * n by simp
next
  assume *: "large_inv (nstates g) v' \<and> large_inv (nstates g) w'"
  show "\<exists>u. step large g a b (Some v') ch w' = Some u \<and> large_inv (nstates g) u
        \<and> large_members u = clo (EJ g a b) (large_members w' \<union> reads g a b ch (large_members v'))"
    using large_rep.step_char [OF assms refl, of w' v' ch] * by blast
qed

theorem posix_step_computes_closure_witness:
  "small_members 6 = clo (EJ (strip_re [(OPLUS, 2), (OCHAR, 97), (O_PLUS, 2)] 0 0) 1 4) {1}"
proof -
  let ?g = "strip_re [(OPLUS, 2), (OCHAR, 97), (O_PLUS, 2)] 0 0"
  have ok: "strip_ok ?g 1 4" by code_simp
  have n: "nstates ?g \<le> 32" by code_simp
  have i: "small_inv (nstates ?g) 0" "small_inv (nstates ?g) 2"
    using small_bit [of 1] by (auto simp: small_inv_def strip_re_def nstates_def)
  have run: "step small ?g 1 4 (Some 0) NOTHING 2 = Some 6" by code_simp
  have m: "small_members 0 = {}" "small_members 2 = {1}"
    using small_bit [of 1] by (auto simp: small_members_def)
  from posix_step_computes_closure [OF ok, of 0 2 NOTHING] n i run m show ?thesis by auto
qed

text \<open>C37: The two instances of \<open>matcher\<close> that \<open>regexec.c\<close> makes of \<open>engine.c\<close>, with the states in the bits of a
  word and in an array, agree on a well-formed strip of at most 32 operators without back references,
  word boundaries and copied anchors (\<open>search_ok\<close>), in which no state behind a character is among the
  states before the first one (\<open>cold_safe\<close>) and whose required string occurs in every match
  (\<open>must_sound\<close>), for a valid window and at most the span of the match asked for. With a copied anchor
  they can differ (lemma \<open>copied_anchor_missed\<close>).\<close>

theorem posix_representations_agree:
  assumes "search_ok g" "nstates g \<le> 32" "cold_safe g (firststate g + 1) (laststate g)" "window_ok buf pmatch eflags"
    and "asks g nmatch \<le> 1" "asks g nmatch \<le> length pmatch" "room 0" "must_sound (subject alnum g buf pmatch eflags)"
  shows "matcher room alnum small g buf nmatch pmatch eflags = matcher room alnum large g buf nmatch pmatch eflags"
  by (rule small_large_agree [where mem = room, OF assms])

theorem posix_representations_agree_witness:
  "matcher (\<lambda>_. True) (\<lambda>_. False) small (strip_re [(OCHAR, 97)] 0 0) [97] 0 [] 0
   = matcher (\<lambda>_. True) (\<lambda>_. False) large (strip_re [(OCHAR, 97)] 0 0) [97] 0 [] 0"
proof -
  let ?g = "strip_re [(OCHAR, 97)] 0 0"
  have "search_ok ?g" by (rule search_okI) code_simp+
  moreover have "nstates ?g \<le> 32" "window_ok [97] [] 0" "asks ?g 0 \<le> 1" "asks ?g 0 \<le> length ([] :: regmatch_t list)"
    by code_simp+
  moreover have "cold_safe ?g (firststate ?g + 1) (laststate ?g)"
    by (rule cold_safeI [of _ "{1}"]) (auto simp: strip_re_def EJ_def jumps_def)
  moreover have "must_sound (subject (\<lambda>_. False) ?g [97] [] 0)"
    by (simp add: must_sound_def subject_def must_occurs_def strip_re_def)
  ultimately show ?thesis by (intro posix_representations_agree) simp_all
qed

text \<open>C38: For every extended expression and every plain string without a NUL, with any other flags and when
  the allocations succeed, \<open>regcomp\<close> returns: every loop ends, and nothing outside the strip, the sets, the tables and
  the text is looked at. If it returns an error, what it leaves is marked as freed. If not, the
  operands of the strip lead to places inside it, the strip accepts exactly the spans of a tree of
  characters, sets, groups, alternatives and repetitions, the string of \<open>findmust\<close> is in every match, and, unless
  anchors were copied or words are delimited, the result is fit for \<open>regexec\<close>.\<close>

theorem posix_regcomp_compiles:
  assumes "0 \<notin> set pattern" "flag_on cf REG_EXTENDED \<noteq> flag_on cf REG_NOSPEC"
  shows "\<exists>e preg. posix_regcomp (\<lambda>_. True) (Some pattern) past cf = Some (e, Some preg)
    \<and> (if e = 0 then strip_ok (re_g preg) 1 (laststate (re_g preg))
         \<and> (\<exists>ts. \<forall>m. m_g m = re_g preg \<longrightarrow>
              (\<forall>s t. accepted m s t \<longleftrightarrow> m_beginp m \<le> s \<and> t \<le> m_endp m \<and> tree_spans m ts s t) \<and> (subject_ok m \<longrightarrow> must_sound m))
         \<and> (few_anchors (re_g preg) 1 (laststate (re_g preg)) \<longrightarrow> ready preg)
       else re_magic preg = 0)"
proof -
  have a: "ample (\<lambda>_. True)" by (simp add: ample_def)
  obtain e preg where *: "posix_regcomp (\<lambda>_. True) (Some pattern) past cf = Some (e, Some preg)"
    "if e = 0 then \<exists>ts. compiled_trees ts preg else re_magic preg = 0"
    using posix_regcomp_total [OF a assms, of past] by blast
  show ?thesis
  proof (cases "e = 0")
    case True
    then obtain ts where ts: "compiled_trees ts preg" using *(2) by auto
    then show ?thesis
      using *(1) True compiled_strip_ok [OF ts] compiled_ready [OF ts] compiled_accepted [OF ts] compiled_must [OF ts] by auto
  qed (use * in simp)
qed

theorem posix_regcomp_compiles_witness:
  "\<exists>preg. posix_regcomp (\<lambda>_. True) (Some [97, 124, 98]) 0 1 = Some (0, Some preg) \<and> strip_ok (re_g preg) 1 (laststate (re_g preg))"
proof -
  have n: "0 \<notin> set [97, 124, 98 :: byte]" and f: "flag_on 1 REG_EXTENDED \<noteq> flag_on 1 REG_NOSPEC" by (simp_all add: flag_on_def)
  have "map_option fst (posix_regcomp (\<lambda>_. True) (Some [97, 124, 98]) 0 1) = Some 0" by code_simp
  then show ?thesis using posix_regcomp_compiles [OF n f, of 0] by (auto split: if_splits)
qed

text \<open>C39: The compiler and the engine together. An extended expression (characters, periods, groups of
  alternatives, \<open>*\<close>, \<open>+\<close>, \<open>?\<close> and bounds) that is written down (\<open>alts_text\<close>, special characters quoted)
  compiles without an error, if each branch leaves something in the strip (\<open>alts_wf\<close>). Run on a text, the result reports no match exactly if
  no part of the text is a word of the language of the expression; else it reports a word, the longest
  from its start, and the leftmost if, wherever there are alternatives, only the last may be empty (\<open>alts_snug\<close>).\<close>

theorem posix_finds_words:
  assumes "alts_wf bs" "plain_flags cf" "\<not> flag_on cf REG_NOSUB" "0 \<notin> set text" "\<not> flag_on eflags REG_STARTEND" "pmatch \<noteq> []"
  shows "\<exists>preg r. posix_regcomp (\<lambda>_. True) (Some (alts_text bs)) past cf = Some (0, Some preg)
    \<and> posix_regexec (\<lambda>_. True) alnum preg (text @ [0]) 1 pmatch eflags = Some r
    \<and> (if \<exists>s e. word_at bs text s e
       then \<exists>s e. r = (0, \<lparr> rm_so = int s, rm_eo = int e \<rparr> # tl pmatch) \<and> word_at bs text s e \<and> (\<forall>e'. word_at bs text s e' \<longrightarrow> e' \<le> e)
         \<and> (alts_snug bs \<longrightarrow> (\<forall>s' < s. \<forall>e'. \<not> word_at bs text s' e'))
       else r = (REG_NOMATCH, pmatch))"
proof -
  have a: "ample (\<lambda>_. True)" by (simp add: ample_def)
  obtain preg ts where c: "posix_regcomp (\<lambda>_. True) (Some (alts_text bs)) past cf = Some (0, Some preg)" "compiled_trees ts preg"
    "of_alts bs ts" "ready preg" "cflags (re_g preg) = cf AND NOT REG_DUMP"
    using regcomp_reads [OF a assms(1,2), of past] by blast
  have "\<not> flag_on (cflags (re_g preg)) REG_NOSUB" using assms(3) c(5) by (simp add: flag_on_def and.assoc)
  from regexec_words [OF c(2-4) this assms(4-6) TrueI] c(1) show ?thesis unfolding found_word_def by blast
qed

theorem posix_finds_words_witness:
  "\<exists>preg s e. posix_regcomp (\<lambda>_. True) (Some [97, 42, 98]) 0 1 = Some (0, Some preg)
    \<and> posix_regexec (\<lambda>_. True) (\<lambda>_. False) preg [120, 97, 97, 98, 0] 1 [no_match_t] 0 = Some (0, [\<lparr> rm_so = int s, rm_eo = int e \<rparr>]) \<and> s \<le> 3"
proof -
  let ?bs = "[[EStar (EChr 97), EChr 98]]" and ?text = "[120, 97, 97, 98]"
  have wf: "alts_wf ?bs" "alts_snug ?bs" and fl: "plain_flags 1" "\<not> flag_on 1 REG_NOSUB" "\<not> flag_on 0 REG_STARTEND"
    and z: "0 \<notin> set (?text :: byte list)" and n: "[no_match_t] \<noteq> []" by code_simp+
  have t: "alts_text ?bs = [97, 42, 98]" by code_simp
  have "[98] \<in> alts_lang ?bs" by (auto simp: alts_lang_def cat_lang_def intro: exI [of _ 0])
  then have w: "word_at ?bs ?text 3 4" by (simp add: word_at_def)
  have buf: "?text @ [0] = [120, 97, 97, 98, 0]" by simp
  from posix_finds_words [OF wf(1) fl(1,2) z fl(3) n, where past = 0 and alnum = "\<lambda>_. False"] obtain preg s e
    where "posix_regcomp (\<lambda>_. True) (Some (alts_text ?bs)) 0 1 = Some (0, Some preg)"
      "posix_regexec (\<lambda>_. True) (\<lambda>_. False) preg (?text @ [0]) 1 [no_match_t] 0 = Some (0, [\<lparr> rm_so = int s, rm_eo = int e \<rparr>])"
      "alts_snug ?bs \<longrightarrow> (\<forall>s' < s. \<forall>e'. \<not> word_at ?bs ?text s' e')"
    using w by (auto split: if_splits)
  moreover from this(3) have "s \<le> 3" using wf(2) w by (meson not_le)
  ultimately show ?thesis unfolding t buf by blast
qed

text \<open>C40: Bounded repetition: for an operand at the end of the strip that is the layout of the trees \<open>ts\<close>, \<open>repeat\<close>, which
  copies the operand and calls itself, returns, leaves what is in front of the operand as it was,
  and puts in place of the operand the layout of trees that match exactly where \<open>n\<close> matches of \<open>ts\<close> in a row do, for an \<open>n\<close> from
  \<open>lo\<close> to \<open>hi\<close> (any from \<open>lo\<close> on, if \<open>hi\<close> is \<open>INFINITY\<close>).\<close>

theorem posix_repeat_counts:
  assumes "good p" "p_error p = 0" "p_strip p = front @ lays ts" "lo \<le> hi" "lo \<le> DUPMAX" "hi \<le> INFINITY"
  shows "\<exists>q us. repeat (\<lambda>_. True) (length front) lo hi p = Some q \<and> good q \<and> p_error q = 0 \<and> p_next q = p_next p
    \<and> p_strip q = front @ lays us
    \<and> (\<forall>m i j. tree_spans m us i j \<longleftrightarrow> (\<exists>n. lo \<le> n \<and> (hi = INFINITY \<or> n \<le> hi) \<and> (tree_spans m ts ^^ n) i j))"
proof -
  have a: "ample (\<lambda>_. True)" and l: "lo < INFINITY" using assms(5) by (simp_all add: ample_def)
  obtain q where q: "repeat (\<lambda>_. True) (length front) lo hi p = Some q" "emitted p (front @ lays (reps ts lo hi)) q"
    using emits_repsD [OF repeat_emits [OF a assms(4) l assms(6)] assms(1-3) refl] .
  have "\<forall>m i j. tree_spans m (reps ts lo hi) i j \<longleftrightarrow> (\<exists>n. lo \<le> n \<and> (hi = INFINITY \<or> n \<le> hi) \<and> (tree_spans m ts ^^ n) i j)"
    using reps_spans [OF assms(4) l assms(6)] by (simp add: repeated_def)
  then show ?thesis using q(1) emitted_good [OF q(2)] emitted_fields(1-3) [OF q(2)] assms(2) by metis
qed

theorem posix_repeat_counts_witness:
  "\<exists>q us. repeat (\<lambda>_. True) 1 2 3 ((parse_start [98, 99] 0 1)\<lparr> p_strip := [(OEND, 0), (OCHAR, 97)] \<rparr>) = Some q
    \<and> p_strip q = [(OEND, 0)] @ lays us \<and> p_next q = [98, 99]"
proof -
  let ?p = "(parse_start [98, 99] 0 1)\<lparr> p_strip := [(OEND, 0), (OCHAR, 97)] \<rparr>"
  have "good (parse_start [98, 99] 0 1)" by (rule parse_start_good) simp
  then have g: "good ?p" by (simp add: good_def HERE_def parse_start_def)
  have e: "p_error ?p = 0" "p_strip ?p = [(OEND, 0)] @ lays [Leaf OCHAR 97]" "p_next ?p = [98, 99]" by (simp_all add: parse_start_def)
  have b: "2 \<le> (3 :: nat)" "2 \<le> DUPMAX" "3 \<le> INFINITY" by simp_all
  from posix_repeat_counts [OF g e(1,2) b] show ?thesis unfolding e(3) by auto
qed

end
